(* ===== verification/Zebra_Prelude.thy ===== *)
theory Zebra_Prelude
  imports Main "HOL-Library.Word" "HOL-Library.Sublist" "HOL-Library.Monad_Syntax"
begin

text \<open>
  Shared vocabulary of the development: the C integer types the daemons use, memory
  blocks as byte lists, the fault result, decimal conversion as the C library does it,
  and the generic lemmas on lists, options and words that the component theories use.

  A memory block is a list of bytes.  An access that the source makes outside its block
  (undefined behaviour in C), or an assertion of the source that fails, is the value
  \<^term>\<open>None\<close> of an option result; \<^term>\<open>Some\<close> is a defined execution.
\<close>

unbundle bit_operations_syntax

subsection \<open>C integer types and collections of facts\<close>

type_synonym u8 = "8 word"
type_synonym u16 = "16 word"
type_synonym u32 = "32 word"
type_synonym ulong = "64 word"

named_theorems mem_defs \<open>unfolding of the memory block primitives\<close>
named_theorems wf_intros \<open>introduction rules of the well-formedness invariants\<close>

subsection \<open>Memory blocks\<close>

definition byte_at :: "u8 list \<Rightarrow> nat \<Rightarrow> u8" where
  "byte_at m i = (if i < length m then m ! i else 0)"

definition mem_read :: "u8 list \<Rightarrow> nat \<Rightarrow> u8 option" where
  "mem_read m i = (if i < length m then Some (m ! i) else None)"

definition mem_write :: "u8 list \<Rightarrow> nat \<Rightarrow> u8 \<Rightarrow> u8 list option" where
  "mem_write m i b = (if i < length m then Some (m[i := b]) else None)"

definition mem_get :: "u8 list \<Rightarrow> nat \<Rightarrow> nat \<Rightarrow> u8 list option" where
  "mem_get m off n = (if off + n \<le> length m then Some (take n (drop off m)) else None)"

definition mem_put :: "u8 list \<Rightarrow> nat \<Rightarrow> u8 list \<Rightarrow> u8 list option" where
  "mem_put m off bs =
     (if off + length bs \<le> length m
      then Some (take off m @ bs @ drop (off + length bs) m) else None)"

lemmas mem_block_defs [mem_defs] = mem_read_def mem_write_def mem_get_def mem_put_def

lemma mem_write_length: "mem_write m i b = Some m' \<Longrightarrow> length m' = length m"
  by (auto simp: mem_write_def split: if_splits)

lemma mem_put_length: "mem_put m off bs = Some m' \<Longrightarrow> length m' = length m"
  by (auto simp: mem_put_def split: if_splits)

lemma mem_get_put:
  "mem_put m off bs = Some m' \<Longrightarrow> mem_get m' off (length bs) = Some bs"
  by (auto simp: mem_put_def mem_get_def split: if_splits)

lemma mem_get_put_other:
  assumes "mem_put m off bs = Some m'" "p + n \<le> off \<or> off + length bs \<le> p"
  shows "mem_get m' p n = mem_get m p n"
proof -
  from assms(1) have m': "m' = take off m @ bs @ drop (off + length bs) m"
    and le: "off + length bs \<le> length m"
    by (auto simp: mem_put_def split: if_splits)
  have "take n (drop p m') = take n (drop p m)"
  proof (rule nth_equalityI)
    show "length (take n (drop p m')) = length (take n (drop p m))"
      using mem_put_length [OF assms(1)] by simp
    fix i assume "i < length (take n (drop p m'))"
    then show "take n (drop p m') ! i = take n (drop p m) ! i"
      using le assms(2) by (auto simp: m' nth_append)
  qed
  then show ?thesis using le by (simp add: mem_get_def m')
qed

lemma byte_at_append_left: "i < length xs \<Longrightarrow> byte_at (xs @ ys) i = byte_at xs i"
  by (simp add: byte_at_def nth_append)

lemma byte_at_update:
  "byte_at (m[i := b]) j = (if i = j \<and> j < length m then b else byte_at m j)"
  by (simp add: byte_at_def)

lemma byte_at_take: "i < n \<Longrightarrow> byte_at (take n m) i = byte_at m i"
  by (simp add: byte_at_def)

lemma less_iff_div8_mod8:
  "(i :: nat) < n \<longleftrightarrow> i div 8 < n div 8 \<or> i div 8 = n div 8 \<and> i mod 8 < n mod 8"
proof -
  have "i = i div 8 * 8 + i mod 8" "n = n div 8 * 8 + n mod 8" by simp_all
  moreover have "i mod 8 < 8" "n mod 8 < 8" by simp_all
  ultimately show ?thesis by linarith
qed

subsection \<open>Network byte order\<close>

definition be16 :: "u16 \<Rightarrow> u8 list" where
  "be16 v = [ucast (drop_bit 8 v), ucast v]"

definition be32 :: "u32 \<Rightarrow> u8 list" where
  "be32 v = [ucast (drop_bit 24 v), ucast (drop_bit 16 v), ucast (drop_bit 8 v), ucast v]"

definition mem_get16 :: "u8 list \<Rightarrow> nat \<Rightarrow> u16 option" where
  "mem_get16 m i = do { h \<leftarrow> mem_read m i; l \<leftarrow> mem_read m (i + 1); Some (word_cat h l) }"

lemma word_cat_be16: "word_cat (ucast (drop_bit 8 v) :: u8) (ucast v :: u8) = (v :: u16)"
  by (rule bit_word_eqI) (auto simp: bit_word_cat_iff bit_ucast_iff bit_drop_bit_eq not_less le_iff_add)

lemma length_be16 [simp]: "length (be16 v) = 2"
  by (simp add: be16_def)

lemma mem_read_append: "mem_read (xs @ ys) (length xs + i) = mem_read ys i" "i < length xs \<Longrightarrow> mem_read (xs @ ys) i = mem_read xs i"
  by (simp_all add: mem_read_def nth_append)

lemma mem_get16_append: "mem_get16 (xs @ ys) (length xs + i) = mem_get16 ys i" "i + 1 < length xs \<Longrightarrow> mem_get16 (xs @ ys) i = mem_get16 xs i"
  using mem_read_append(1) [of xs ys i] mem_read_append(1) [of xs ys "i + 1"] mem_read_append(2) [of i xs ys] mem_read_append(2) [of "i + 1" xs ys]
  by (simp_all add: mem_get16_def)

lemma mem_get16_be16 [simp]: "mem_get16 (be16 v @ ys) 0 = Some v"
  by (simp add: mem_get16_def mem_read_def be16_def word_cat_be16)

lemma be16_word_cat: "be16 (word_cat h l) = [h, l]"
  by (simp add: be16_def) (auto intro!: bit_word_eqI simp: bit_word_cat_iff bit_ucast_iff bit_drop_bit_eq)

lemma be16_words: "even (length b) \<Longrightarrow> \<exists>vs. b = concat (map be16 vs) \<and> length b = 2 * length vs"
proof (induction "length b div 2" arbitrary: b)
  case 0
  then show ?case by (intro exI [of _ "[]"]) (auto simp: div_eq_0_iff)
next
  case (Suc n)
  then obtain h l r where b: "b = h # l # r" by (metis One_nat_def Suc_neq_Zero div_less length_Cons less_2_cases_iff list.exhaust list.size(3) odd_one)
  then obtain vs where "r = concat (map be16 vs)" "length r = 2 * length vs" using Suc(1) [of r] Suc(2,3) by auto
  then show ?case using b by (intro exI [of _ "word_cat h l # vs"]) (simp add: be16_word_cat)
qed

subsection \<open>Flags\<close>

text \<open>The macros and the type of a route of \<open>lib/zebra.h\<close> that several daemons use.\<close>

definition CHECK_FLAG :: "'a::len word \<Rightarrow> 'a word \<Rightarrow> bool" where
  "CHECK_FLAG v f \<longleftrightarrow> v AND f \<noteq> 0"

definition SET_FLAG :: "'a::len word \<Rightarrow> 'a word \<Rightarrow> 'a word" where
  "SET_FLAG v f = v OR f"

definition UNSET_FLAG :: "'a::len word \<Rightarrow> 'a word \<Rightarrow> 'a word" where
  "UNSET_FLAG v f = v AND NOT f"

definition ZEBRA_ROUTE_BGP :: u8 where "ZEBRA_ROUTE_BGP = 8"

lemma check_set_same [simp]: "f \<noteq> 0 \<Longrightarrow> CHECK_FLAG (SET_FLAG v f) f"
  by (simp add: CHECK_FLAG_def SET_FLAG_def bit.conj_disj_distrib2)

lemma check_set_other [simp]: "f AND g = 0 \<Longrightarrow> CHECK_FLAG (SET_FLAG v f) g = CHECK_FLAG v g"
  by (simp add: CHECK_FLAG_def SET_FLAG_def bit.conj_disj_distrib2)

lemma check_unset_same [simp]: "\<not> CHECK_FLAG (UNSET_FLAG v f) f"
  by (simp add: CHECK_FLAG_def UNSET_FLAG_def and.assoc)

lemma check_unset_other [simp]:
  assumes "f AND g = 0"
  shows "CHECK_FLAG (UNSET_FLAG v f) g = CHECK_FLAG v g"
proof -
  have "bit (NOT f) n \<or> \<not> bit g n" for n
  proof -
    have "\<not> bit (f AND g) n" using assms by simp
    then show ?thesis by (auto simp: bit_and_iff bit_not_iff dest: bit_imp_le_length)
  qed
  then have "NOT f AND g = g"
    by (intro bit_word_eqI) (auto simp: bit_and_iff)
  then show ?thesis by (simp add: CHECK_FLAG_def UNSET_FLAG_def and.assoc)
qed

subsection \<open>Loops that may leave their memory block\<close>

fun foldM :: "('a \<Rightarrow> 's \<Rightarrow> 's option) \<Rightarrow> 'a list \<Rightarrow> 's \<Rightarrow> 's option" where
  "foldM f [] s = Some s"
| "foldM f (x # xs) s = do { s \<leftarrow> f x s; foldM f xs s }"

lemma foldM_append: "foldM f (xs @ ys) s = do { s \<leftarrow> foldM f xs s; foldM f ys s }"
  by (induction xs arbitrary: s) (simp_all split: bind_splits)

lemma foldM_fold: "(\<And>x s. x \<in> set xs \<Longrightarrow> f x s = Some (g x s)) \<Longrightarrow> foldM f xs s = Some (fold g xs s)"
  by (induction xs arbitrary: s) simp_all

lemma foldM_cong: "(\<And>x s. x \<in> set xs \<Longrightarrow> f x s = g x s) \<Longrightarrow> foldM f xs s = foldM g xs s"
  by (induction xs arbitrary: s) (simp_all split: bind_splits)

subsection \<open>The order of a C comparison function\<close>

text \<open>
  Sorted lists and priority queues of the library take a function
  \<open>int (*cmp) (void *, void *)\<close>.  What they rely on is that its sign is a total
  preorder on the values in use; comparisons that subtract are one only on a range.
\<close>

locale c_compare =
  fixes cmp :: "'a \<Rightarrow> 'a \<Rightarrow> int"
    and ok :: "'a \<Rightarrow> bool"
  assumes cmp_swap: "ok a \<Longrightarrow> ok b \<Longrightarrow> cmp a b < 0 \<longleftrightarrow> 0 < cmp b a"
    and cmp_trans: "ok a \<Longrightarrow> ok b \<Longrightarrow> ok c \<Longrightarrow> cmp a b \<le> 0 \<Longrightarrow> cmp b c \<le> 0 \<Longrightarrow> cmp a c \<le> 0"
begin

lemma cmp_refl: "ok a \<Longrightarrow> cmp a a \<le> 0"
  using cmp_swap [of a a] by linarith

lemma cmp_not_less: "ok a \<Longrightarrow> ok b \<Longrightarrow> \<not> cmp a b < 0 \<longleftrightarrow> cmp b a \<le> 0"
  using cmp_swap [of a b] by linarith

lemma cmp_gt: "ok a \<Longrightarrow> ok b \<Longrightarrow> 0 < cmp a b \<Longrightarrow> cmp b a \<le> 0"
  using cmp_swap [of b a] by linarith

end

subsection \<open>Decimal text, as \<open>atoi\<close> and \<open>printf\<close> handle it\<close>

definition digit_char :: "nat \<Rightarrow> char" where
  "digit_char d = char_of (48 + d)"

definition is_digit :: "char \<Rightarrow> bool" where
  "is_digit c \<longleftrightarrow> 48 \<le> (of_char c :: nat) \<and> (of_char c :: nat) \<le> 57"

definition digit_val :: "char \<Rightarrow> nat" where
  "digit_val c = of_char c - 48"

fun dec_str :: "nat \<Rightarrow> string" where
  "dec_str n = (if n < 10 then [digit_char n] else dec_str (n div 10) @ [digit_char (n mod 10)])"

declare dec_str.simps [simp del]

definition digits_val :: "string \<Rightarrow> nat" where
  "digits_val s = foldl (\<lambda>acc c. 10 * acc + digit_val c) 0 s"

definition is_space :: "char \<Rightarrow> bool" where
  "is_space c \<longleftrightarrow> (of_char c :: nat) \<in> {9, 10, 11, 12, 13, 32}"

text \<open>A C \<open>int\<close> has 32 bits; a value that does not fit wraps around, as the compilers for the systems of the program have it.\<close>

definition int_ok :: "int \<Rightarrow> bool" where
  "int_ok i \<longleftrightarrow> - (2 ^ 31) \<le> i \<and> i < 2 ^ 31"

definition c_int :: "int \<Rightarrow> int" where
  "c_int i = sint (word_of_int i :: u32)"

text \<open>The number at the start of a text: white space, an optional sign, then the longest run of digits.  \<open>strtol\<close> keeps it within the range of
  \<open>long\<close>, with 64 bits, and \<open>atoi\<close> takes the low bits of that.\<close>

definition dec_value :: "string \<Rightarrow> int" where
  "dec_value s =
     (let t = dropWhile is_space s;
          neg = (t \<noteq> [] \<and> hd t = CHR ''-'');
          d = (if t \<noteq> [] \<and> (hd t = CHR ''-'' \<or> hd t = CHR ''+'') then tl t else t);
          v = int (digits_val (takeWhile is_digit d))
      in if neg then - v else v)"

definition strtol :: "string \<Rightarrow> int" where
  "strtol s = max (- (2 ^ 63)) (min (2 ^ 63 - 1) (dec_value s))"

definition atoi :: "string \<Rightarrow> int" where
  "atoi s = c_int (strtol s)"

lemma sint32_small: "- (2 ^ 31) \<le> x \<Longrightarrow> x < 2 ^ 31 \<Longrightarrow> sint (word_of_int x :: u32) = x"
  using sint_sbintrunc' [where 'a = 32, of x] signed_take_bit_int_eq_self [of 31 x] by simp

lemma c_int_id: "int_ok i \<Longrightarrow> c_int i = i"
  by (simp add: int_ok_def c_int_def sint32_small)

lemma int_ok_sint [simp]: "int_ok (sint (w :: u32))"
  using sint_ge [of w] sint_lt [of w] by (simp add: int_ok_def)

lemma int_ok_c_int [simp]: "int_ok (c_int i)" "int_ok (atoi s)"
  by (simp_all add: c_int_def atoi_def)

lemma atoi_small: "int_ok (dec_value s) \<Longrightarrow> atoi s = dec_value s"
  by (auto simp: atoi_def strtol_def int_ok_def intro!: trans [OF c_int_id])

lemma is_digit_digit_char: "d < 10 \<Longrightarrow> is_digit (digit_char d)"
  by (simp add: is_digit_def digit_char_def)

lemma digit_val_digit_char: "d < 10 \<Longrightarrow> digit_val (digit_char d) = d"
  by (simp add: digit_val_def digit_char_def)

lemma is_digit_not_special:
  assumes "is_digit c"
  shows "\<not> is_space c" "c \<noteq> CHR ''-''" "c \<noteq> CHR ''+''" "c \<noteq> CHR ''/''"
  using assms by (auto simp: is_digit_def is_space_def)

lemma dec_str_digits: "\<forall>c \<in> set (dec_str n). is_digit c"
proof (induction n rule: dec_str.induct)
  case (1 n)
  then show ?case
    by (subst dec_str.simps) (auto simp: is_digit_digit_char)
qed

lemma dec_str_nonempty: "dec_str n \<noteq> []"
  by (subst dec_str.simps) simp

lemma digits_val_snoc: "digits_val (s @ [c]) = 10 * digits_val s + digit_val c"
  by (simp add: digits_val_def)

lemma digits_val_dec_str: "digits_val (dec_str n) = n"
proof (induction n rule: dec_str.induct)
  case (1 n)
  show ?case
  proof (cases "n < 10")
    case True
    then show ?thesis
      by (subst dec_str.simps) (simp add: digits_val_def digit_val_digit_char)
  next
    case False
    with 1 show ?thesis
      by (subst dec_str.simps) (simp add: digits_val_snoc digit_val_digit_char)
  qed
qed

lemma dec_str_length: "n < 10 ^ Suc k \<Longrightarrow> length (dec_str n) \<le> Suc k"
proof (induction k arbitrary: n)
  case 0
  then show ?case by (subst dec_str.simps) simp
next
  case (Suc k)
  then have "n div 10 < 10 ^ Suc k" by (simp add: less_mult_imp_div_less)
  then show ?case using Suc.IH [of "n div 10"] by (subst dec_str.simps) simp
qed

lemma dec_value_dec_str: "dec_value (dec_str n) = int n"
proof -
  have all: "\<forall>c \<in> set (dec_str n). is_digit c" by (rule dec_str_digits)
  obtain c cs where s: "dec_str n = c # cs"
    using dec_str_nonempty by (cases "dec_str n") auto
  with all have c: "is_digit c" by simp
  have dw: "dropWhile is_space (dec_str n) = dec_str n"
    using s is_digit_not_special(1) [OF c] by simp
  have tw: "takeWhile is_digit cs = cs"
    using all s by (simp add: takeWhile_eq_all_conv)
  have v: "digits_val (c # cs) = n" using digits_val_dec_str [of n] s by simp
  show ?thesis
    using s is_digit_not_special [OF c] dw v c by (simp add: dec_value_def tw)
qed

lemma atoi_dec_str: "n < 2 ^ 31 \<Longrightarrow> atoi (dec_str n) = int n"
  using atoi_small [of "dec_str n"] by (simp add: dec_value_dec_str int_ok_def)

text \<open>A byte is given by its eight bits.\<close>

lemma u8_eq_bits: "(x :: u8) = y \<longleftrightarrow> (\<forall>n<8. bit x n = bit y n)"
  by (auto simp: bit_eq_iff bit_word.rep_eq dest: bit_imp_le_length)

lemma all_less8: "(\<forall>n<8. P (n :: nat)) \<longleftrightarrow> P 0 \<and> P 1 \<and> P 2 \<and> P 3 \<and> P 4 \<and> P 5 \<and> P 6 \<and> P 7"
  by (simp add: eval_nat_numeral less_Suc_eq all_conj_distrib)

end
