(* ===== verification/Lib_Hash.thy ===== *)
theory Lib_Hash
  imports Zebra_Prelude
begin

text \<open>
  The chained hash tables of \<open>lib/hash.c\<close>.  A table is its array of chains (newest entry first,
  each with the stored key), its size and its count.  The functions \<open>hash_key\<close> and \<open>hash_cmp\<close> of the
  table are arguments; what the table relies on is the locale \<open>hash_functions\<close>.  Division by a zero
  size is \<^term>\<open>None\<close>.
\<close>

section \<open>Definitions\<close>

record 'd hash_backet =
  bkey :: u32
  bdata :: 'd

record 'd hash_t =
  hindex :: "'d hash_backet list list"
  hsize :: u32
  hcount :: ulong

definition hash_create_size :: "u32 \<Rightarrow> 'd hash_t" where
  "hash_create_size sz = \<lparr>hindex = replicate (unat sz) [], hsize = sz, hcount = 0\<rparr>"

definition HASHTABSIZE :: u32 where "HASHTABSIZE = 1024"

definition hash_create :: "'d hash_t" where
  "hash_create = hash_create_size HASHTABSIZE"

definition hash_alloc_intern :: "'d \<Rightarrow> 'd option" where
  "hash_alloc_intern arg = Some arg"

text \<open>The loop over one chain, shared by \<open>hash_get\<close> and \<open>hash_release\<close>.\<close>

definition backet_match :: "('d \<Rightarrow> 'd \<Rightarrow> bool) \<Rightarrow> u32 \<Rightarrow> 'd \<Rightarrow> 'd hash_backet \<Rightarrow> bool" where
  "backet_match hash_cmp key d b \<longleftrightarrow> bkey b = key \<and> hash_cmp (bdata b) d"

fun chain_find :: "('d hash_backet \<Rightarrow> bool) \<Rightarrow> 'd hash_backet list \<Rightarrow> 'd option" where
  "chain_find P [] = None"
| "chain_find P (b # bs) = (if P b then Some (bdata b) else chain_find P bs)"

fun chain_unlink :: "('d hash_backet \<Rightarrow> bool) \<Rightarrow> 'd hash_backet list \<Rightarrow> ('d \<times> 'd hash_backet list) option" where
  "chain_unlink P [] = None"
| "chain_unlink P (b # bs) =
     (if P b then Some (bdata b, bs) else map_option (\<lambda>(d, bs'). (d, b # bs')) (chain_unlink P bs))"

text \<open>The result of \<open>hash_get\<close> is a pointer, \<^term>\<open>None\<close> for \<open>NULL\<close>, and the table.\<close>

definition hash_get ::
  "('d \<Rightarrow> u32) \<Rightarrow> ('d \<Rightarrow> 'd \<Rightarrow> bool) \<Rightarrow> 'd hash_t \<Rightarrow> 'd \<Rightarrow> ('d \<Rightarrow> 'd option) option \<Rightarrow> ('d option \<times> 'd hash_t) option"
  where
  "hash_get hash_key hash_cmp h d alloc_func =
     (let key = hash_key d; index = unat (key mod hsize h) in
      if hsize h = 0 \<or> index \<ge> length (hindex h) then None
      else (case chain_find (backet_match hash_cmp key d) (hindex h ! index) of
              Some x \<Rightarrow> Some (Some x, h)
            | None \<Rightarrow>
                (case alloc_func of
                   None \<Rightarrow> Some (None, h)
                 | Some f \<Rightarrow>
                     (case f d of
                        None \<Rightarrow> Some (None, h)
                      | Some newdata \<Rightarrow>
                          Some (Some newdata,
                            h\<lparr>hindex := (hindex h)[index := \<lparr>bkey = key, bdata = newdata\<rparr> # hindex h ! index],
                              hcount := hcount h + 1\<rparr>)))))"

definition hash_lookup :: "('d \<Rightarrow> u32) \<Rightarrow> ('d \<Rightarrow> 'd \<Rightarrow> bool) \<Rightarrow> 'd hash_t \<Rightarrow> 'd \<Rightarrow> 'd option option" where
  "hash_lookup hash_key hash_cmp h d = map_option fst (hash_get hash_key hash_cmp h d None)"

definition hash_release ::
  "('d \<Rightarrow> u32) \<Rightarrow> ('d \<Rightarrow> 'd \<Rightarrow> bool) \<Rightarrow> 'd hash_t \<Rightarrow> 'd \<Rightarrow> ('d option \<times> 'd hash_t) option" where
  "hash_release hash_key hash_cmp h d =
     (let key = hash_key d; index = unat (key mod hsize h) in
      if hsize h = 0 \<or> index \<ge> length (hindex h) then None
      else (case chain_unlink (backet_match hash_cmp key d) (hindex h ! index) of
              Some (ret, bs) \<Rightarrow> Some (Some ret, h\<lparr>hindex := (hindex h)[index := bs], hcount := hcount h - 1\<rparr>)
            | None \<Rightarrow> Some (None, h)))"

text \<open>The calls \<open>hash_iterate\<close> makes of its function, as a fold over the caller's state.\<close>

definition hash_iterate :: "'d hash_t \<Rightarrow> ('d hash_backet \<Rightarrow> 's \<Rightarrow> 's) \<Rightarrow> 's \<Rightarrow> 's" where
  "hash_iterate h f s = fold (\<lambda>chain s. fold f chain s) (hindex h) s"

text \<open>\<open>hash_clean\<close> frees every entry; the list is the data \<open>free_func\<close> receives.\<close>

definition hash_clean :: "'d hash_t \<Rightarrow> 'd list \<times> 'd hash_t" where
  "hash_clean h = (map bdata (concat (hindex h)),
     h\<lparr>hindex := map (\<lambda>_. []) (hindex h), hcount := hcount h - of_nat (length (concat (hindex h)))\<rparr>)"

section \<open>The functions of a table\<close>

text \<open>What a table relies on: \<open>hash_cmp\<close> is an equivalence and equivalent data has the same key.\<close>

locale hash_functions =
  fixes key :: "'d \<Rightarrow> u32" and eq :: "'d \<Rightarrow> 'd \<Rightarrow> bool"
  assumes eq_refl: "eq a a"
    and eq_sym: "eq a b \<Longrightarrow> eq b a"
    and eq_trans: "eq a b \<Longrightarrow> eq b c \<Longrightarrow> eq a c"
    and eq_key: "eq a b \<Longrightarrow> key a = key b"

definition hash_data :: "'d hash_t \<Rightarrow> 'd list" where
  "hash_data h = map bdata (concat (hindex h))"

definition slot :: "'d hash_t \<Rightarrow> u32 \<Rightarrow> nat" where
  "slot h k = unat (k mod hsize h)"

text \<open>The slot of each entry is that of its key, keys are those of the data, no two entries are equivalent
  and the count is right.\<close>

definition hash_inv :: "('d \<Rightarrow> u32) \<Rightarrow> ('d \<Rightarrow> 'd \<Rightarrow> bool) \<Rightarrow> 'd hash_t \<Rightarrow> bool" where
  "hash_inv key eq h \<longleftrightarrow> hsize h \<noteq> 0 \<and> length (hindex h) = unat (hsize h)
     \<and> (\<forall>i < length (hindex h). \<forall>b \<in> set (hindex h ! i).
          bkey b = key (bdata b) \<and> slot h (bkey b) = i)
     \<and> sorted_wrt (\<lambda>a b. \<not> eq a b) (hash_data h)
     \<and> hcount h = of_nat (length (hash_data h))"

lemma slot_less: "hash_inv key eq h \<Longrightarrow> slot h k < length (hindex h)"
  by (simp add: hash_inv_def slot_def unat_mod unat_gt_0)

lemma hash_invD:
  assumes "hash_inv key eq h"
  shows "hsize h \<noteq> 0" "sorted_wrt (\<lambda>a b. \<not> eq a b) (hash_data h)" "hcount h = of_nat (length (hash_data h))"
    "i < length (hindex h) \<Longrightarrow> b \<in> set (hindex h ! i) \<Longrightarrow> bkey b = key (bdata b) \<and> slot h (key (bdata b)) = i"
  using assms by (fastforce simp: hash_inv_def)+

lemma chain_find_None: "chain_find P bs = None \<longleftrightarrow> (\<forall>b\<in>set bs. \<not> P b)"
  by (induction bs) auto

lemma chain_find_Some: "chain_find P bs = Some d \<Longrightarrow> \<exists>b\<in>set bs. P b \<and> bdata b = d"
  by (induction bs) (auto split: if_splits)

lemma chain_unlink_None: "chain_unlink P bs = None \<longleftrightarrow> (\<forall>b\<in>set bs. \<not> P b)"
  by (induction bs) auto

lemma chain_unlink_Some:
  "chain_unlink P bs = Some (d, bs') \<Longrightarrow> \<exists>xs b ys. bs = xs @ b # ys \<and> bs' = xs @ ys \<and> P b \<and> bdata b = d"
proof (induction bs arbitrary: bs')
  case (Cons b bs)
  show ?case
  proof (cases "P b")
    case True
    then show ?thesis using Cons.prems by (intro exI [of _ "[]"]) auto
  next
    case False
    then obtain cs where "chain_unlink P bs = Some (d, cs)" "bs' = b # cs" using Cons.prems by auto
    then obtain xs c ys where "bs = xs @ c # ys" "cs = xs @ ys" "P c" "bdata c = d" using Cons.IH by blast
    then show ?thesis using \<open>bs' = b # cs\<close> by (intro exI [of _ "b # xs"]) auto
  qed
qed simp

lemma split_index:
  "i < length xss \<Longrightarrow> concat xss = concat (take i xss) @ xss ! i @ concat (drop (Suc i) xss)"
  by (metis concat.simps(2) concat_append id_take_nth_drop)

lemma update_index:
  "i < length xss \<Longrightarrow> concat (xss[i := ys]) = concat (take i xss) @ ys @ concat (drop (Suc i) xss)"
  by (simp add: upd_conv_take_nth_drop)

lemma hash_data_mem: "d \<in> set (hash_data h) \<longleftrightarrow> (\<exists>i < length (hindex h). \<exists>b \<in> set (hindex h ! i). bdata b = d)"
  by (force simp: hash_data_def in_set_conv_nth)

lemma hash_inv_update:
  assumes "hash_inv key eq h" "i < length (hindex h)"
    and "\<And>b. b \<in> set cs \<Longrightarrow> bkey b = key (bdata b) \<and> slot h (key (bdata b)) = i"
    and "sorted_wrt (\<lambda>a b. \<not> eq a b) (hash_data (h\<lparr>hindex := (hindex h)[i := cs], hcount := c\<rparr>))"
    and "c = of_nat (length (hash_data (h\<lparr>hindex := (hindex h)[i := cs], hcount := c\<rparr>)))"
  shows "hash_inv key eq (h\<lparr>hindex := (hindex h)[i := cs], hcount := c\<rparr>)"
proof -
  let ?h = "h\<lparr>hindex := (hindex h)[i := cs], hcount := c\<rparr>"
  have s: "slot ?h k = slot h k" for k by (simp add: slot_def)
  have "bkey b = key (bdata b) \<and> slot h (key (bdata b)) = j" if "j < length (hindex h)" "b \<in> set ((hindex h)[i := cs] ! j)" for j b
    using hash_invD(4) [OF assms(1) that(1), of b] assms(3) [of b] that assms(2) by (cases "j = i") auto
  moreover have "hsize h \<noteq> 0" "length (hindex h) = unat (hsize h)" using assms(1) by (simp_all add: hash_inv_def)
  ultimately show ?thesis using assms(4,5) unfolding hash_inv_def s by auto
qed

context hash_functions
begin

lemma pairwise_unique:
  "sorted_wrt (\<lambda>a b. \<not> eq a b) xs \<Longrightarrow> x \<in> set xs \<Longrightarrow> y \<in> set xs \<Longrightarrow> eq x d \<Longrightarrow> eq y d \<Longrightarrow> x = y"
  by (induction xs) (auto dest: eq_sym eq_trans)

lemma chain_hit:
  assumes "hash_inv key eq h"
  shows "(\<exists>b\<in>set (hindex h ! slot h (key d)). backet_match eq (key d) d b \<and> bdata b = x)
    \<longleftrightarrow> x \<in> set (hash_data h) \<and> eq x d"
proof
  assume "\<exists>b\<in>set (hindex h ! slot h (key d)). backet_match eq (key d) d b \<and> bdata b = x"
  then show "x \<in> set (hash_data h) \<and> eq x d"
    using slot_less [OF assms] hash_data_mem [of x h] by (auto simp: backet_match_def)
next
  assume x: "x \<in> set (hash_data h) \<and> eq x d"
  then obtain i b where b: "i < length (hindex h)" "b \<in> set (hindex h ! i)" "bdata b = x"
    using hash_data_mem [of x h] by blast
  then have "bkey b = key x" "slot h (bkey b) = i" using hash_invD(4) [OF assms b(1,2)] by auto
  then show "\<exists>b\<in>set (hindex h ! slot h (key d)). backet_match eq (key d) d b \<and> bdata b = x"
    using b x eq_key [of x d] by (auto simp: backet_match_def)
qed

lemma chain_find_eq:
  assumes "hash_inv key eq h"
  shows "chain_find (backet_match eq (key d) d) (hindex h ! slot h (key d)) = Some x
    \<longleftrightarrow> x \<in> set (hash_data h) \<and> eq x d" (is "?f = Some x \<longleftrightarrow> ?r")
proof
  assume "?f = Some x"
  then show ?r using chain_find_Some chain_hit [OF assms] by metis
next
  assume r: ?r
  then obtain y where y: "?f = Some y" using chain_hit [OF assms, of d x] chain_find_None by fastforce
  then have "y \<in> set (hash_data h) \<and> eq y d" using chain_find_Some chain_hit [OF assms] by metis
  then show "?f = Some x" using y r pairwise_unique [OF hash_invD(2) [OF assms], of x y d] by simp
qed

lemma get_present:
  assumes "hash_inv key eq h" "x \<in> set (hash_data h)" "eq x d"
  shows "hash_get key eq h d f = Some (Some x, h)"
  using chain_find_eq [OF assms(1), of d x] assms slot_less [OF assms(1), of "key d"]
    hash_invD(1) [OF assms(1)] by (auto simp: hash_get_def slot_def Let_def)

lemma get_absent:
  assumes "hash_inv key eq h" "\<forall>x\<in>set (hash_data h). \<not> eq x d" "\<forall>n. f d = Some n \<longrightarrow> eq n d"
  shows "\<exists>h'. hash_get key eq h d (Some f) = Some (f d, h') \<and> hash_inv key eq h'
    \<and> set (hash_data h') = set_option (f d) \<union> set (hash_data h)
    \<and> length (hash_data h') = length (hash_data h) + (if f d = None then 0 else 1)"
proof -
  let ?i = "slot h (key d)" let ?cs = "hindex h ! ?i"
  have none: "chain_find (backet_match eq (key d) d) ?cs = None"
    using chain_find_eq [OF assms(1), of d] assms(2) by (metis not_Some_eq)
  have i: "?i < length (hindex h)" by (rule slot_less [OF assms(1)])
  have sz: "hsize h \<noteq> 0" by (rule hash_invD(1) [OF assms(1)])
  show ?thesis
  proof (cases "f d")
    case None
    then show ?thesis using none i sz assms(1) by (auto simp: hash_get_def slot_def Let_def)
  next
    case (Some n)
    let ?b = "\<lparr>bkey = key d, bdata = n\<rparr>"
    let ?h = "h\<lparr>hindex := (hindex h)[?i := ?b # ?cs], hcount := hcount h + 1\<rparr>"
    obtain ps qs where sp: "hash_data h = ps @ map bdata ?cs @ qs" "hash_data ?h = ps @ n # map bdata ?cs @ qs"
      using split_index [OF i] update_index [OF i, of "?b # ?cs"] by (simp add: hash_data_def)
    have nd: "eq n d" using assms(3) Some by simp
    then have "key n = key d" by (rule eq_key)
    have "\<not> eq x n \<and> \<not> eq n x" if "x \<in> set (hash_data h)" for x
      using assms(2) that nd eq_trans eq_sym by blast
    then have "sorted_wrt (\<lambda>a b. \<not> eq a b) (hash_data ?h)"
      using hash_invD(2) [OF assms(1)] unfolding sp by (auto simp: sorted_wrt_append)
    then have "hash_inv key eq ?h"
      using hash_invD(3,4) [OF assms(1)] sp \<open>key n = key d\<close> i
      by (intro hash_inv_update [OF assms(1) i, of "?b # ?cs"]) auto
    moreover have "hash_get key eq h d (Some f) = Some (f d, ?h)"
      using none i sz Some by (simp add: hash_get_def slot_def Let_def)
    ultimately show ?thesis using sp Some by (intro exI [of _ ?h]) auto
  qed
qed

lemma release_present:
  assumes "hash_inv key eq h" "x \<in> set (hash_data h)" "eq x d"
  shows "\<exists>h'. hash_release key eq h d = Some (Some x, h') \<and> hash_inv key eq h'
    \<and> set (hash_data h') = set (hash_data h) - {x} \<and> length (hash_data h') = length (hash_data h) - 1"
proof -
  let ?i = "slot h (key d)" let ?cs = "hindex h ! ?i"
  have i: "?i < length (hindex h)" by (rule slot_less [OF assms(1)])
  have sz: "hsize h \<noteq> 0" by (rule hash_invD(1) [OF assms(1)])
  have "chain_unlink (backet_match eq (key d) d) ?cs \<noteq> None"
    using chain_hit [OF assms(1), of d x] assms(2,3) unfolding chain_unlink_None by blast
  then obtain y bs where un: "chain_unlink (backet_match eq (key d) d) ?cs = Some (y, bs)" by auto
  from chain_unlink_Some [OF un] obtain xs b ys where
    b: "?cs = xs @ b # ys" "bs = xs @ ys" "backet_match eq (key d) d b" "bdata b = y" by blast
  then have "y \<in> set (hash_data h) \<and> eq y d" using chain_hit [OF assms(1), of d y] by auto
  then have y: "y = x" using pairwise_unique [OF hash_invD(2) [OF assms(1)], of y x d] assms(2,3) by simp
  let ?h = "h\<lparr>hindex := (hindex h)[?i := bs], hcount := hcount h - 1\<rparr>"
  obtain ps qs where sp: "hash_data h = ps @ y # qs" "hash_data ?h = ps @ qs"
  proof (rule that [of "map bdata (concat (take ?i (hindex h)) @ xs)" "map bdata (ys @ concat (drop (Suc ?i) (hindex h)))"])
  qed (use split_index [OF i] update_index [OF i, of bs] b in \<open>simp_all add: hash_data_def\<close>)
  have so: "sorted_wrt (\<lambda>a b. \<not> eq a b) (ps @ y # qs)" using hash_invD(2) [OF assms(1)] sp(1) by simp
  then have "hash_inv key eq ?h"
    using hash_invD(3,4) [OF assms(1)] sp i b
    by (intro hash_inv_update [OF assms(1) i, of bs]) (auto simp: sorted_wrt_append)
  moreover have "y \<notin> set ps \<union> set qs" using so eq_refl by (auto simp: sorted_wrt_append)
  moreover have "hash_release key eq h d = Some (Some x, ?h)"
    using un i sz y by (simp add: hash_release_def slot_def Let_def)
  ultimately show ?thesis using sp y by (intro exI [of _ ?h]) auto
qed

lemma release_absent:
  assumes "hash_inv key eq h" "\<forall>x\<in>set (hash_data h). \<not> eq x d"
  shows "hash_release key eq h d = Some (None, h)"
proof -
  have "chain_unlink (backet_match eq (key d) d) (hindex h ! slot h (key d)) = None"
    using chain_hit [OF assms(1), of d] assms(2) chain_unlink_None by metis
  then show ?thesis using slot_less [OF assms(1), of "key d"] hash_invD(1) [OF assms(1)]
    by (simp add: hash_release_def slot_def Let_def)
qed

end


section \<open>Correctness\<close>

text \<open>Interning with \<open>hash_get\<close>.  When the table already holds a datum equivalent to the argument, that
  very datum is returned and the table is unchanged; otherwise the result of \<open>alloc_func\<close> is entered
  (once, \<open>NULL\<close> enters nothing) and returned.  The invariant of slots, stored keys, uniqueness and count is kept,
  and every later lookup of an equivalent datum returns the same one.\<close>

theorem hash_get_interns:
  assumes "hash_functions key eq" "hash_inv key eq h" "\<forall>n. f d = Some n \<longrightarrow> eq n d"
  shows "\<exists>r h'. hash_get key eq h d (Some f) = Some (r, h') \<and> hash_inv key eq h'
    \<and> (\<forall>x\<in>set (hash_data h). eq x d \<longrightarrow> r = Some x \<and> h' = h)
    \<and> ((\<forall>x\<in>set (hash_data h). \<not> eq x d) \<longrightarrow>
         r = f d \<and> set (hash_data h') = set_option (f d) \<union> set (hash_data h))
    \<and> (\<forall>x e. r = Some x \<longrightarrow> eq x e \<longrightarrow> hash_lookup key eq h' e = Some (Some x))"
proof -
  note present = hash_functions.get_present [OF assms(1)]
  show ?thesis
  proof (cases "\<exists>x\<in>set (hash_data h). eq x d")
    case True
    then obtain x where x: "x \<in> set (hash_data h)" "eq x d" by blast
    have u: "y = x" if "y \<in> set (hash_data h)" "eq y d" for y
      using hash_functions.pairwise_unique [OF assms(1) hash_invD(2) [OF assms(2)] that(1) x(1) that(2) x(2)] .
    have l: "hash_lookup key eq h e = Some (Some x)" if "eq x e" for e
      using present [OF assms(2) x(1) that, of None] by (simp add: hash_lookup_def)
    show ?thesis
      by (rule exI [of _ "Some x"], rule exI [of _ h], intro conjI present assms(2) x) (use u l x in blast)+
  next
    case False
    then obtain h' where h': "hash_get key eq h d (Some f) = Some (f d, h')" "hash_inv key eq h'"
      "set (hash_data h') = set_option (f d) \<union> set (hash_data h)"
      using hash_functions.get_absent [OF assms(1,2), of d f] assms(3) by blast
    have "hash_lookup key eq h' e = Some (Some x)" if "f d = Some x" "eq x e" for x e
      using present [OF h'(2), of x e None] h'(3) that by (simp add: hash_lookup_def)
    then show ?thesis using h' False by auto
  qed
qed

text \<open>\<open>hash_release\<close> takes out exactly the entry equivalent to its argument and returns its datum, or returns
  \<open>NULL\<close> and changes nothing when there is none; afterwards a lookup of the argument finds nothing.\<close>

theorem hash_release_correct:
  assumes "hash_functions key eq" "hash_inv key eq h"
  shows "\<exists>r h'. hash_release key eq h d = Some (r, h') \<and> hash_inv key eq h'
    \<and> (\<forall>x\<in>set (hash_data h). eq x d \<longrightarrow> r = Some x \<and> set (hash_data h') = set (hash_data h) - {x})
    \<and> ((\<forall>x\<in>set (hash_data h). \<not> eq x d) \<longrightarrow> r = None \<and> h' = h)
    \<and> hash_lookup key eq h' d = Some None"
proof -
  have gone: "hash_lookup key eq h' d = Some None"
    if "hash_inv key eq h'" "\<forall>x\<in>set (hash_data h'). \<not> eq x d" for h'
    using hash_functions.chain_find_eq [OF assms(1) that(1), of d] that(2) slot_less [OF that(1), of "key d"] hash_invD(1) [OF that(1)]
    by (auto simp: hash_lookup_def hash_get_def Let_def slot_def split: option.splits)
  show ?thesis
  proof (cases "\<exists>x\<in>set (hash_data h). eq x d")
    case True
    then obtain x where x: "x \<in> set (hash_data h)" "eq x d" by blast
    then obtain h' where h': "hash_release key eq h d = Some (Some x, h')" "hash_inv key eq h'"
      "set (hash_data h') = set (hash_data h) - {x}"
      using hash_functions.release_present [OF assms x] by blast
    have u: "y = x" if "y \<in> set (hash_data h)" "eq y d" for y
      using hash_functions.pairwise_unique [OF assms(1) hash_invD(2) [OF assms(2)] that(1) x(1) that(2) x(2)] .
    have "hash_lookup key eq h' d = Some None" by (rule gone [OF h'(2)]) (use h'(3) u in blast)
    note r = this
    show ?thesis
      by (rule exI [of _ "Some x"], rule exI [of _ h'], intro conjI h' r) (use u h'(3) x in blast)+
  next
    case False
    then show ?thesis using hash_functions.release_absent [OF assms, of d] gone [OF assms(2)] assms(2) by auto
  qed
qed

lemma hash_create_inv: "sz \<noteq> 0 \<Longrightarrow> hash_inv key eq (hash_create_size sz)" "hash_data (hash_create_size sz) = []"
  by (simp_all add: hash_inv_def hash_create_size_def hash_data_def)

lemma hash_iterate_all: "hash_iterate h f s = fold f (concat (hindex h)) s"
proof -
  have "fold (\<lambda>chain s. fold f chain s) css s = fold f (concat css) s" for css
    by (induction css arbitrary: s) auto
  then show ?thesis by (simp add: hash_iterate_def)
qed

lemma hash_clean_correct:
  "hash_inv key eq h \<Longrightarrow> fst (hash_clean h) = hash_data h \<and> hash_inv key eq (snd (hash_clean h)) \<and> hash_data (snd (hash_clean h)) = []"
  by (auto simp: hash_clean_def hash_inv_def hash_data_def slot_def concat_eq_Nil_conv [THEN iffD2])


lemma hash_functions_id: "hash_functions (\<lambda>d :: u32. d) (=)"
  by unfold_locales auto

theorem hash_get_interns_witness:
  "\<exists>r h'. hash_get (\<lambda>d :: u32. d) (=) (hash_create_size 8) 42 (Some hash_alloc_intern) = Some (r, h')
     \<and> r = Some 42 \<and> hash_lookup (\<lambda>d. d) (=) h' 42 = Some (Some 42)"
  using hash_get_interns [OF hash_functions_id hash_create_inv(1) [of 8], of hash_alloc_intern 42]
  by (auto simp: hash_alloc_intern_def hash_create_inv(2))

theorem hash_release_correct_witness:
  "\<exists>r h'. hash_release (\<lambda>d :: u32. d) (=) (hash_create_size 8) 42 = Some (r, h') \<and> r = None
     \<and> hash_lookup (\<lambda>d. d) (=) h' 42 = Some None"
  using hash_release_correct [OF hash_functions_id hash_create_inv(1) [of 8], of 42]
  by (auto simp: hash_create_inv(2))

end
