(* ===== verification/Bgp_Aspath.thy ===== *)
theory Bgp_Aspath
  imports Lib_Hash
begin

text \<open>
  BGP AS paths, \<open>bgpd/bgp_aspath.c\<close>.  An AS path is the raw attribute: a block of bytes that holds segments,
  each a type byte, a count byte and that many 16-bit AS numbers in network order.  The operations
  below work on the bytes, with offsets for the pointers of the code; a read or write outside the
  block is \<^term>\<open>None\<close>.  The second part of the theory relates them to lists of segments.  The field
  \<open>length\<close> of the struct is the size of its block.  Interning in the hash table is not modelled here.
\<close>

section \<open>Definitions\<close>

record aspath =
  as_refcnt :: ulong
  as_length :: nat
  as_count :: int
  as_data :: "u8 list option"
  as_str :: "string option"

definition AS_SET :: u8 where "AS_SET = 1"
definition AS_SEQUENCE :: u8 where "AS_SEQUENCE = 2"
definition AS_CONFED_SEQUENCE :: u8 where "AS_CONFED_SEQUENCE = 3"
definition AS_CONFED_SET :: u8 where "AS_CONFED_SET = 4"

definition BGP_PRIVATE_AS_MIN :: u16 where "BGP_PRIVATE_AS_MIN = 64512"
definition BGP_PRIVATE_AS_MAX :: u16 where "BGP_PRIVATE_AS_MAX = 65535"

definition aspath_new :: aspath where
  "aspath_new = \<lparr>as_refcnt = 0, as_length = 0, as_count = 0, as_data = None, as_str = None\<rparr>"

text \<open>The block behind the pointer \<open>data\<close>; nothing can be read through a null pointer.\<close>

definition data_of :: "aspath \<Rightarrow> u8 list" where
  "data_of a = (case as_data a of None \<Rightarrow> [] | Some d \<Rightarrow> d)"

definition seg_type :: "u8 list \<Rightarrow> nat \<Rightarrow> u8 option" where
  "seg_type d pnt = mem_read d pnt"

definition seg_length :: "u8 list \<Rightarrow> nat \<Rightarrow> u8 option" where
  "seg_length d pnt = mem_read d (pnt + 1)"

definition seg_asval :: "u8 list \<Rightarrow> nat \<Rightarrow> nat \<Rightarrow> u16 option" where
  "seg_asval d pnt i = mem_get16 d (pnt + 2 + 2 * i)"

text \<open>The loop \<open>while (pnt < end)\<close> over the segments, with the body as an argument.\<close>

function seg_walk :: "(nat \<Rightarrow> 's \<Rightarrow> 's option) \<Rightarrow> u8 list \<Rightarrow> nat \<Rightarrow> nat \<Rightarrow> 's \<Rightarrow> 's option" where
  "seg_walk body d en pnt s =
     (if pnt < en
      then (case body pnt s of
              None \<Rightarrow> None
            | Some s \<Rightarrow>
                (case seg_length d pnt of
                   None \<Rightarrow> None
                 | Some n \<Rightarrow> seg_walk body d en (pnt + (unat n * 2 + 2)) s))
      else Some s)"
  by auto
termination
  by (relation "measure (\<lambda>(body, d, en, pnt, s). en - pnt)") auto

declare seg_walk.simps [simp del]

subsection \<open>Text and validity\<close>

fun aspath_delimiter_char :: "u8 \<Rightarrow> bool \<Rightarrow> char" where
  "aspath_delimiter_char t start =
     (if t = AS_SET then (if start then CHR ''{'' else CHR ''}'')
      else if t = AS_SEQUENCE then CHR '' ''
      else if t = AS_CONFED_SET then (if start then CHR ''['' else CHR '']'')
      else if t = AS_CONFED_SEQUENCE then (if start then CHR ''('' else CHR '')'')
      else CHR '' '')"

text \<open>The buffer is its size and the text written so far; a character is stored at the end of the text, and
  \<open>sprintf\<close> also stores the terminating zero.\<close>

definition put_char :: "nat \<Rightarrow> char \<Rightarrow> string \<Rightarrow> string option" where
  "put_char sz c buf = (if length buf < sz then Some (buf @ [c]) else None)"

definition put_num :: "nat \<Rightarrow> u16 \<Rightarrow> string \<Rightarrow> string option" where
  "put_num sz v buf = (let s = dec_str (unat v) in if length buf + length s < sz then Some (buf @ s) else None)"

partial_function (option) str_grow :: "nat \<Rightarrow> nat \<Rightarrow> nat option" where
  "str_grow need sz = (if need \<ge> sz then str_grow need (sz * 2) else Some sz)"

definition put_as :: "u8 list \<Rightarrow> nat \<Rightarrow> u8 \<Rightarrow> nat \<Rightarrow> nat \<Rightarrow> bool \<times> string \<Rightarrow> (bool \<times> string) option" where
  "put_as d pnt t sz i = (\<lambda>(space, buf). do {
     buf \<leftarrow> (if space then put_char sz (if t = AS_SET \<or> t = AS_CONFED_SET then CHR '','' else CHR '' '') buf else Some buf);
     v \<leftarrow> seg_asval d pnt i;
     buf \<leftarrow> put_num sz v buf;
     Some (True, buf)
   })"

definition put_segment :: "u8 list \<Rightarrow> nat \<Rightarrow> u8 \<Rightarrow> u8 \<Rightarrow> u8 \<Rightarrow> nat \<Rightarrow> bool \<times> string \<Rightarrow> (bool \<times> string) option" where
  "put_segment d pnt prev t n sz = (\<lambda>(space, buf). do {
     buf \<leftarrow> (if prev \<noteq> AS_SEQUENCE then put_char sz (aspath_delimiter_char prev False) buf else Some buf);
     buf \<leftarrow> (if space then put_char sz CHR '' '' buf else Some buf);
     buf \<leftarrow> (if t \<noteq> AS_SEQUENCE then put_char sz (aspath_delimiter_char t True) buf else Some buf);
     foldM (put_as d pnt t sz) [0..<unat n] (False, buf)
   })"

definition seg_hops :: "u8 \<Rightarrow> nat \<Rightarrow> int" where
  "seg_hops t n = (if t \<noteq> AS_CONFED_SEQUENCE \<and> t \<noteq> AS_CONFED_SET
     then (if t = AS_SEQUENCE then int n else if t = AS_SET then 1 else 0) else 0)"

text \<open>The loop: the outer option is a fault, the inner one the null pointer for a malformed path.\<close>

function str_loop ::
  "u8 list \<Rightarrow> nat \<Rightarrow> nat \<Rightarrow> u8 \<Rightarrow> nat \<Rightarrow> bool \<times> string \<Rightarrow> int \<Rightarrow> (string \<times> int) option option" where
  "str_loop d en pnt prev sz sb count =
     (if pnt < en
      then (case (seg_type d pnt, seg_length d pnt) of
              (Some t, Some n) \<Rightarrow>
                if t \<noteq> AS_SET \<and> t \<noteq> AS_SEQUENCE \<and> t \<noteq> AS_CONFED_SET \<and> t \<noteq> AS_CONFED_SEQUENCE then Some None
                else if pnt + unat n * 2 + 2 > en then Some None
                else (case str_grow (length (snd sb) + (unat n * 6 + 4)) sz of
                        None \<Rightarrow> None
                      | Some sz \<Rightarrow>
                          (case put_segment d pnt prev t n sz sb of
                             None \<Rightarrow> None
                           | Some sb \<Rightarrow> str_loop d en (pnt + (unat n * 2 + 2)) t sz sb (count + seg_hops t (unat n))))
            | _ \<Rightarrow> None)
      else do {
        buf \<leftarrow> (if prev \<noteq> AS_SEQUENCE then put_char sz (aspath_delimiter_char prev False) (snd sb) else Some (snd sb));
        if length buf < sz then Some (Some (buf, count)) else None
      })"
  by auto
termination
  by (relation "measure (\<lambda>(d, en, pnt, prev, sz, sb, count). en - pnt)") auto

declare str_loop.simps [simp del]

definition ASPATH_STR_DEFAULT_LEN :: nat where "ASPATH_STR_DEFAULT_LEN = 32"

text \<open>The result is the string, or the null pointer, and the path with its field \<open>count\<close>.  At the end of the loop
  \<open>prev\<close> is the type of the last segment, the one \<open>assegment\<close> points to.\<close>

definition aspath_make_str_count :: "aspath \<Rightarrow> (string option \<times> aspath) option" where
  "aspath_make_str_count a =
     (if as_length a = 0 then Some (Some [], a\<lparr>as_count := 0\<rparr>)
      else do {
        r \<leftarrow> str_loop (data_of a) (as_length a) 0 AS_SEQUENCE ASPATH_STR_DEFAULT_LEN (False, []) 0;
        case r of
          None \<Rightarrow> Some (None, a)
        | Some (buf, count) \<Rightarrow> Some (Some buf, a\<lparr>as_count := count\<rparr>)
      })"

text \<open>\<open>aspath_hash_alloc\<close> and the checks of \<open>aspath_parse\<close>: a new path for the bytes of an attribute, or the null pointer.\<close>

definition aspath_dup :: "aspath \<Rightarrow> aspath" where
  "aspath_dup a = aspath_new\<lparr>as_length := as_length a, as_data := (if as_length a \<noteq> 0 then Some (data_of a) else None)\<rparr>"

definition aspath_hash_alloc :: "aspath \<Rightarrow> aspath option option" where
  "aspath_hash_alloc arg = do {
     let a = aspath_new\<lparr>as_length := as_length arg, as_data := (if as_length arg \<noteq> 0 then Some (data_of arg) else None)\<rparr>;
     (s, a) \<leftarrow> aspath_make_str_count a;
     case s of None \<Rightarrow> Some None | Some t \<Rightarrow> Some (Some (a\<lparr>as_str := Some t\<rparr>))
   }"

definition aspath_parse_new :: "u8 list \<Rightarrow> aspath option option" where
  "aspath_parse_new bytes =
     (if length bytes mod 2 \<noteq> 0 then Some None
      else aspath_hash_alloc (aspath_new\<lparr>as_length := length bytes, as_data := Some bytes\<rparr>))"

subsection \<open>Checks\<close>

definition aspath_firstas_check :: "aspath option \<Rightarrow> u16 \<Rightarrow> bool option" where
  "aspath_firstas_check a asno =
     (case a of
        None \<Rightarrow> Some False
      | Some a \<Rightarrow>
          (case as_data a of
             None \<Rightarrow> Some False
           | Some d \<Rightarrow> do {
               t \<leftarrow> seg_type d 0;
               if t = AS_SEQUENCE then do { v \<leftarrow> seg_asval d 0 0; Some (v = asno) } else Some False
             }))"

definition count_as :: "u8 list \<Rightarrow> u16 \<Rightarrow> nat \<Rightarrow> int \<Rightarrow> int option" where
  "count_as d asno pnt count = do {
     n \<leftarrow> seg_length d pnt;
     foldM (\<lambda>i count. do { v \<leftarrow> seg_asval d pnt i; Some (if v = asno then count + 1 else count) }) [0..<unat n] count
   }"

definition aspath_loop_check :: "aspath option \<Rightarrow> u16 \<Rightarrow> int option" where
  "aspath_loop_check a asno =
     (case a of
        None \<Rightarrow> Some 0
      | Some a \<Rightarrow> seg_walk (count_as (data_of a) asno) (data_of a) (as_length a) 0 0)"

fun private_seg :: "u8 list \<Rightarrow> nat \<Rightarrow> nat list \<Rightarrow> bool option" where
  "private_seg d pnt [] = Some True"
| "private_seg d pnt (i # is) = do {
     v \<leftarrow> seg_asval d pnt i;
     if v < BGP_PRIVATE_AS_MIN \<or> v > BGP_PRIVATE_AS_MAX then Some False else private_seg d pnt is
   }"

function private_loop :: "u8 list \<Rightarrow> nat \<Rightarrow> nat \<Rightarrow> bool option" where
  "private_loop d en pnt =
     (if pnt < en
      then (case seg_length d pnt of
              None \<Rightarrow> None
            | Some n \<Rightarrow>
                (case private_seg d pnt [0..<unat n] of
                   Some True \<Rightarrow> private_loop d en (pnt + (unat n * 2 + 2))
                 | r \<Rightarrow> r))
      else Some True)"
  by auto
termination
  by (relation "measure (\<lambda>(d, en, pnt). en - pnt)") auto

declare private_loop.simps [simp del]

definition aspath_private_as_check :: "aspath option \<Rightarrow> bool option" where
  "aspath_private_as_check a =
     (case a of
        None \<Rightarrow> Some False
      | Some a \<Rightarrow> if as_length a = 0 then Some False else private_loop (data_of a) (as_length a) 0)"

subsection \<open>Joining and extending\<close>

definition aspath_merge :: "aspath \<Rightarrow> aspath \<Rightarrow> aspath option" where
  "aspath_merge as1 as2 = do {
     b1 \<leftarrow> mem_get (data_of as1) 0 (as_length as1);
     b2 \<leftarrow> mem_get (data_of as2) 0 (as_length as2);
     Some (as2\<lparr>as_data := Some (b1 @ b2), as_length := as_length as2 + as_length as1, as_count := as_count as2 + as_count as1\<rparr>)
   }"

text \<open>The two sequences that meet are joined: the count byte of the last segment of \<open>as1\<close> is increased.\<close>

definition prepend_join :: "aspath \<Rightarrow> nat \<Rightarrow> aspath \<Rightarrow> aspath option" where
  "prepend_join as1 seg1 as2 = do {
     newdata \<leftarrow> mem_get (data_of as1) 0 (as_length as1);
     n1 \<leftarrow> seg_length newdata seg1;
     n2 \<leftarrow> seg_length (data_of as2) 0;
     newdata \<leftarrow> mem_write newdata (seg1 + 1) (n1 + n2);
     if as_length as2 < 2 then None
     else do {
       b2 \<leftarrow> mem_get (data_of as2) 2 (as_length as2 - 2);
       Some (as2\<lparr>as_data := Some (newdata @ b2), as_length := as_length as2 + (as_length as1 - 2),
                 as_count := as_count as2 + as_count as1\<rparr>)
     }
   }"

definition aspath_prepend :: "aspath \<Rightarrow> aspath \<Rightarrow> aspath option" where
  "aspath_prepend as1 as2 =
     (case as_data as2 of
        None \<Rightarrow> do {
          b \<leftarrow> mem_get (data_of as1) 0 (as_length as1);
          Some (as2\<lparr>as_length := as_length as1, as_data := Some b, as_count := as_count as1\<rparr>)
        }
      | Some d2 \<Rightarrow> do {
          seg1 \<leftarrow> seg_walk (\<lambda>pnt _. Some (Some pnt)) (data_of as1) (as_length as1) 0 None;
          case seg1 of
            None \<Rightarrow> Some as2
          | Some p \<Rightarrow> do {
              t1 \<leftarrow> seg_type (data_of as1) p;
              t2 \<leftarrow> seg_type d2 0;
              if t1 \<noteq> t2 then aspath_merge as1 as2
              else if t1 = AS_SEQUENCE then prepend_join as1 p as2
              else aspath_merge as1 as2
            }
        })"

definition aspath_add_one_as :: "aspath \<Rightarrow> u16 \<Rightarrow> u8 \<Rightarrow> aspath option" where
  "aspath_add_one_as a asno t =
     (case as_data a of
        None \<Rightarrow> Some (a\<lparr>as_length := 4, as_data := Some ([t, 1] @ be16 asno)\<rparr>)
      | Some d \<Rightarrow> do {
          n \<leftarrow> seg_length d 0;
          if n = 0 then Some (a\<lparr>as_length := 4, as_data := Some ([t, 1] @ be16 asno)\<rparr>)
          else do {
            t0 \<leftarrow> seg_type d 0;
            if t0 = t then do {
              if as_length a < 2 then None
              else do {
                b \<leftarrow> mem_get d 2 (as_length a - 2);
                Some (a\<lparr>as_length := as_length a + 2, as_data := Some ([t, n + 1] @ be16 asno @ b)\<rparr>)
              }
            }
            else do {
              b \<leftarrow> mem_get d 0 (as_length a);
              Some (a\<lparr>as_length := as_length a + 4, as_data := Some ([t, 1] @ be16 asno @ b)\<rparr>)
            }
          }
        })"

definition aspath_add_seq :: "aspath \<Rightarrow> u16 \<Rightarrow> aspath option" where
  "aspath_add_seq a asno = aspath_add_one_as a asno AS_SEQUENCE"

definition aspath_add_confed_seq :: "aspath \<Rightarrow> u16 \<Rightarrow> aspath option" where
  "aspath_add_confed_seq a asno = aspath_add_one_as a asno AS_CONFED_SEQUENCE"

subsection \<open>The leftmost AS\<close>

text \<open>The loops of \<open>aspath_cmp_left\<close> that skip confederation segments.  They do not compare with the end of the data.\<close>

function skip_confed :: "u8 list \<Rightarrow> nat \<Rightarrow> nat option" where
  "skip_confed d pnt =
     (if pnt + 1 < length d
      then let n = d ! (pnt + 1); t = d ! pnt in
        (if n \<noteq> 0 \<and> (t = AS_CONFED_SEQUENCE \<or> t = AS_CONFED_SET) then skip_confed d (pnt + (unat n * 2 + 2)) else Some pnt)
      else None)"
  by auto
termination
  by (relation "measure (\<lambda>(d, pnt). length d - pnt)") auto

declare skip_confed.simps [simp del]

definition left_as :: "u8 \<Rightarrow> u8 list \<Rightarrow> nat \<Rightarrow> u16 option option" where
  "left_as ty d pnt = do {
     n \<leftarrow> seg_length d pnt;
     if n = 0 then Some None
     else do {
       t \<leftarrow> seg_type d pnt;
       if t \<noteq> ty then Some None
       else do { v \<leftarrow> seg_asval d pnt 0; Some (Some v) }
     }
   }"

definition same_left :: "u16 option \<Rightarrow> u16 option option \<Rightarrow> bool option" where
  "same_left v1 r2 = (case v1 of None \<Rightarrow> Some False | Some a1 \<Rightarrow> do { v2 \<leftarrow> r2; Some (v2 = Some a1) })"

definition aspath_cmp_left :: "aspath \<Rightarrow> aspath \<Rightarrow> bool option" where
  "aspath_cmp_left a1 a2 = do {
     p1 \<leftarrow> (case as_data a1 of None \<Rightarrow> Some None | Some d \<Rightarrow> map_option Some (skip_confed d 0));
     p2 \<leftarrow> (case as_data a2 of None \<Rightarrow> Some None | Some d \<Rightarrow> map_option Some (skip_confed d 0));
     v1 \<leftarrow> (case p1 of None \<Rightarrow> Some None | Some p \<Rightarrow> left_as AS_SEQUENCE (data_of a1) p);
     same_left v1 (case p2 of None \<Rightarrow> Some None | Some p \<Rightarrow> left_as AS_SEQUENCE (data_of a2) p)
   }"

definition aspath_cmp_left_confed :: "aspath \<Rightarrow> aspath \<Rightarrow> bool option" where
  "aspath_cmp_left_confed a1 a2 =
     (if as_count a1 \<noteq> 0 \<or> as_count a2 \<noteq> 0 then Some False
      else do {
        v1 \<leftarrow> (case as_data a1 of None \<Rightarrow> Some None | Some d \<Rightarrow> left_as AS_CONFED_SEQUENCE d 0);
        same_left v1 (case as_data a2 of None \<Rightarrow> Some None | Some d \<Rightarrow> left_as AS_CONFED_SEQUENCE d 0)
      })"

text \<open>\<open>aspath_delete_confed_seq\<close> on the block and its length; \<open>memcpy\<close> moves the rest to the front.\<close>

function delete_confed :: "u8 list \<Rightarrow> u8 list option option" where
  "delete_confed d =
     (case seg_type d 0 of
        None \<Rightarrow> None
      | Some t \<Rightarrow>
          if t \<noteq> AS_CONFED_SEQUENCE then Some (Some d)
          else (case seg_length d 0 of
                  None \<Rightarrow> None
                | Some n \<Rightarrow>
                    let seglen = unat n * 2 + 2 in
                    if seglen = length d then Some None
                    else if seglen > length d then None
                    else delete_confed (drop seglen d)))"
  by auto
termination
  by (relation "measure length") (auto simp: seg_type_def mem_read_def split: if_splits)

declare delete_confed.simps [simp del]

definition aspath_delete_confed_seq :: "aspath option \<Rightarrow> aspath option option" where
  "aspath_delete_confed_seq a =
     (case a of
        None \<Rightarrow> Some None
      | Some a \<Rightarrow>
          (case as_data a of
             None \<Rightarrow> Some (Some a)
           | Some d \<Rightarrow> do {
               r \<leftarrow> delete_confed d;
               Some (Some (a\<lparr>as_data := r, as_length := (case r of None \<Rightarrow> 0 | Some d' \<Rightarrow> length d')\<rparr>))
             }))"

subsection \<open>Aggregation\<close>

text \<open>A copy of the first \<open>i\<close> values of the segment at \<open>seg\<close> of the block \<open>d\<close>, appended to the path.\<close>

definition aspath_aggregate_segment_copy :: "aspath \<Rightarrow> u8 list \<Rightarrow> nat \<Rightarrow> nat \<Rightarrow> aspath option" where
  "aspath_aggregate_segment_copy a d seg i = do {
     t \<leftarrow> seg_type d seg;
     vals \<leftarrow> mem_get d (seg + 2) (2 * i);
     let new = [t, of_nat i] @ vals;
     case as_data a of
       None \<Rightarrow> Some (a\<lparr>as_data := Some new, as_length := 2 + 2 * i\<rparr>)
     | Some old \<Rightarrow> Some (a\<lparr>as_data := Some (old @ new), as_length := as_length a + (2 + 2 * i)\<rparr>)
   }"

fun asval_exists :: "u8 list \<Rightarrow> nat \<Rightarrow> u16 \<Rightarrow> nat list \<Rightarrow> bool option" where
  "asval_exists d seg v [] = Some False"
| "asval_exists d seg v (i # is) = do {
     x \<leftarrow> seg_asval d seg i;
     if x = v then Some True else asval_exists d seg v is
   }"

text \<open>\<open>asset\<close> is the offset of the AS_SET segment under construction, if there is one.  The two bytes \<open>realloc\<close> adds
  are overwritten with the value when the segment is the last one.\<close>

definition aspath_aggregate_as_set_add :: "aspath \<times> nat option \<Rightarrow> u16 \<Rightarrow> (aspath \<times> nat option) option" where
  "aspath_aggregate_as_set_add = (\<lambda>(a, asset) v.
     case asset of
       None \<Rightarrow>
         (case as_data a of
            None \<Rightarrow> Some (a\<lparr>as_data := Some ([AS_SET, 1] @ be16 v), as_length := 4\<rparr>, Some 0)
          | Some d \<Rightarrow> Some (a\<lparr>as_data := Some (d @ [AS_SET, 1] @ be16 v), as_length := as_length a + 4\<rparr>, Some (as_length a)))
     | Some off \<Rightarrow> do {
         let d = data_of a;
         n \<leftarrow> seg_length d off;
         found \<leftarrow> asval_exists d off v [0..<unat n];
         if found then Some (a, asset)
         else do {
           d \<leftarrow> mem_put (d @ [0, 0]) (off + 2 + 2 * unat n) (be16 v);
           d \<leftarrow> mem_write d (off + 1) (n + 1);
           Some (a\<lparr>as_data := Some d, as_length := as_length a + 2\<rparr>, asset)
         }
       })"

fun match_length :: "u8 list \<Rightarrow> nat \<Rightarrow> u8 list \<Rightarrow> nat \<Rightarrow> nat \<Rightarrow> nat \<Rightarrow> nat option" where
  "match_length d1 cp1 d2 cp2 match 0 = Some match"
| "match_length d1 cp1 d2 cp2 match (Suc k) = do {
     v1 \<leftarrow> seg_asval d1 cp1 match;
     v2 \<leftarrow> seg_asval d2 cp2 match;
     if v1 \<noteq> v2 then Some match else match_length d1 cp1 d2 cp2 (Suc match) k
   }"

text \<open>The loop over the common leading segments; it returns the two positions, \<open>match\<close> and the new path.\<close>

function common_loop ::
  "u8 list \<Rightarrow> nat \<Rightarrow> u8 list \<Rightarrow> nat \<Rightarrow> nat \<Rightarrow> nat \<Rightarrow> nat \<Rightarrow> aspath \<Rightarrow> (nat \<times> nat \<times> nat \<times> aspath) option" where
  "common_loop d1 end1 d2 end2 cp1 cp2 match a =
     (if cp1 < end1 \<and> cp2 < end2
      then (case (seg_type d1 cp1, seg_type d2 cp2, seg_length d1 cp1, seg_length d2 cp2) of
              (Some t1, Some t2, Some n1, Some n2) \<Rightarrow>
                if t1 \<noteq> t2 then Some (cp1, cp2, match, a)
                else let minlen = unat (min n1 n2) in
                  (case match_length d1 cp1 d2 cp2 0 minlen of
                     None \<Rightarrow> None
                   | Some match \<Rightarrow>
                       (case (if match \<noteq> 0 then aspath_aggregate_segment_copy a d1 cp1 match else Some a) of
                          None \<Rightarrow> None
                        | Some a \<Rightarrow>
                            if match \<noteq> minlen \<or> match \<noteq> unat n1 \<or> n1 \<noteq> n2 then Some (cp1, cp2, match, a)
                            else common_loop d1 end1 d2 end2 (cp1 + (unat n1 * 2 + 2)) (cp2 + (unat n2 * 2 + 2)) match a))
            | _ \<Rightarrow> None)
      else Some (cp1, cp2, match, a))"
  by auto
termination
  by (relation "measure (\<lambda>(d1, end1, d2, end2, cp1, cp2, match, a). end1 - cp1)") auto

declare common_loop.simps [simp del]

definition set_rest :: "u8 list \<Rightarrow> nat \<Rightarrow> nat \<times> aspath \<times> nat option \<Rightarrow> (nat \<times> aspath \<times> nat option) option" where
  "set_rest d pnt = (\<lambda>(match, s). do {
     n \<leftarrow> seg_length d pnt;
     s \<leftarrow> foldM (\<lambda>i s. do { v \<leftarrow> seg_asval d pnt i; aspath_aggregate_as_set_add s v }) [match..<unat n] s;
     Some (0, s)
   })"

definition aspath_aggregate :: "aspath \<Rightarrow> aspath \<Rightarrow> aspath option" where
  "aspath_aggregate as1 as2 = do {
     let d1 = data_of as1;
     let d2 = data_of as2;
     (cp1, cp2, match, a) \<leftarrow> common_loop d1 (as_length as1) d2 (as_length as2) 0 0 0 aspath_new;
     (_, s) \<leftarrow> seg_walk (set_rest d1) d1 (as_length as1) cp1 (match, (a, None));
     (_, s) \<leftarrow> seg_walk (set_rest d2) d2 (as_length as2) cp2 (match, s);
     Some (fst s)
   }"

subsection \<open>Reading text\<close>

datatype as_token =
  as_token_asval u16 | as_token_set_start | as_token_set_end | as_token_confed_start | as_token_confed_end | as_token_unknown

fun as_digits :: "string \<Rightarrow> u16 \<Rightarrow> string \<times> u16" where
  "as_digits [] v = ([], v)"
| "as_digits (c # p) v = (if is_digit c then as_digits p (v * 10 + of_nat (digit_val c)) else (c # p, v))"

definition aspath_gettoken :: "string \<Rightarrow> (string \<times> as_token) option" where
  "aspath_gettoken buf =
     (case dropWhile is_space buf of
        [] \<Rightarrow> None
      | c # p \<Rightarrow>
          Some (if c = CHR ''{'' then (p, as_token_set_start)
                else if c = CHR ''}'' then (p, as_token_set_end)
                else if c = CHR ''('' then (p, as_token_confed_start)
                else if c = CHR '')'' then (p, as_token_confed_end)
                else if is_digit c then (case as_digits p (of_nat (digit_val c)) of (q, v) \<Rightarrow> (q, as_token_asval v))
                else (c # p, as_token_unknown)))"

definition aspath_segment_add :: "aspath \<Rightarrow> u8 \<Rightarrow> aspath" where
  "aspath_segment_add a t =
     (case as_data a of
        None \<Rightarrow> a\<lparr>as_data := Some [t, 0], as_length := 2\<rparr>
      | Some d \<Rightarrow> a\<lparr>as_data := Some (d @ [t, 0]), as_length := as_length a + 2\<rparr>)"

text \<open>The search for the last segment in \<open>aspath_as_add\<close>.\<close>

function last_segment :: "u8 list \<Rightarrow> nat \<Rightarrow> nat \<Rightarrow> nat \<Rightarrow> nat option" where
  "last_segment d en pnt seg =
     (if pnt + 2 < en
      then (case seg_length d pnt of
              None \<Rightarrow> None
            | Some n \<Rightarrow> last_segment d en (pnt + (2 + unat n * 2)) pnt)
      else Some seg)"
  by auto
termination
  by (relation "measure (\<lambda>(d, en, pnt, seg). en - pnt)") auto

declare last_segment.simps [simp del]

definition aspath_as_add :: "aspath \<Rightarrow> u16 \<Rightarrow> aspath option" where
  "aspath_as_add a asno = do {
     let d = data_of a @ [0, 0];
     let len = as_length a + 2;
     seg \<leftarrow> last_segment d len 0 0;
     n \<leftarrow> seg_length d seg;
     d \<leftarrow> mem_put d (seg + 2 + 2 * unat n) (be16 asno);
     d \<leftarrow> mem_write d (seg + 1) (n + 1);
     Some (a\<lparr>as_data := Some d, as_length := len\<rparr>)
   }"

lemma as_digits_length: "length (fst (as_digits p v)) \<le> length p"
  by (induction p v rule: as_digits.induct) auto

lemma aspath_gettoken_shorter: "aspath_gettoken buf = Some (q, tok) \<Longrightarrow> tok \<noteq> as_token_unknown \<Longrightarrow> length q < length buf"
proof -
  assume a: "aspath_gettoken buf = Some (q, tok)" "tok \<noteq> as_token_unknown"
  obtain c p where b: "dropWhile is_space buf = c # p" using a(1) by (auto simp: aspath_gettoken_def split: list.splits)
  have "length (c # p) \<le> length buf" unfolding b [symmetric] by (rule length_dropWhile_le)
  moreover have "length q \<le> length p"
    using a b as_digits_length [of p "of_nat (digit_val c)"] by (auto simp: aspath_gettoken_def split: if_splits prod.splits)
  ultimately show ?thesis by simp
qed

text \<open>The loop of \<open>aspath_str2aspath\<close>; the inner option is the null pointer.\<close>

function str2as_loop :: "string \<Rightarrow> u8 \<Rightarrow> bool \<Rightarrow> aspath \<Rightarrow> aspath option option" where
  "str2as_loop s as_type needtype a =
     (case aspath_gettoken s of
        None \<Rightarrow> Some (Some a)
      | Some (q, as_token_asval v) \<Rightarrow>
          (case aspath_as_add (if needtype then aspath_segment_add a as_type else a) v of
             None \<Rightarrow> None
           | Some a \<Rightarrow> str2as_loop q as_type False a)
      | Some (q, as_token_set_start) \<Rightarrow> str2as_loop q AS_SET False (aspath_segment_add a AS_SET)
      | Some (q, as_token_set_end) \<Rightarrow> str2as_loop q AS_SEQUENCE True a
      | Some (q, as_token_confed_start) \<Rightarrow> str2as_loop q AS_CONFED_SEQUENCE False (aspath_segment_add a AS_CONFED_SEQUENCE)
      | Some (q, as_token_confed_end) \<Rightarrow> str2as_loop q AS_SEQUENCE True a
      | Some (q, as_token_unknown) \<Rightarrow> Some None)"
  by pat_completeness auto
termination
  by (relation "measure (\<lambda>(s, as_type, needtype, a). length s)") (auto dest: aspath_gettoken_shorter)

declare str2as_loop.simps [simp del]

definition aspath_str2aspath :: "string \<Rightarrow> aspath option option" where
  "aspath_str2aspath s = do {
     r \<leftarrow> str2as_loop s AS_SEQUENCE True aspath_new;
     case r of
       None \<Rightarrow> Some None
     | Some a \<Rightarrow> do {
         (t, a) \<leftarrow> aspath_make_str_count a;
         Some (Some (a\<lparr>as_str := t\<rparr>))
       }
   }"

definition aspath_empty_get :: "aspath option" where
  "aspath_empty_get = do { (t, a) \<leftarrow> aspath_make_str_count aspath_new; Some (a\<lparr>as_str := t\<rparr>) }"

text \<open>The key adds the 16-bit units of the block, read here in network order.\<close>

fun aspath_key_make_units :: "u8 list \<Rightarrow> u32" where
  "aspath_key_make_units (h # l # r) = ucast (word_cat h l :: u16) + aspath_key_make_units r"
| "aspath_key_make_units _ = 0"

definition aspath_key_make :: "aspath \<Rightarrow> u32" where
  "aspath_key_make a = aspath_key_make_units (data_of a)"

definition aspath_cmp :: "aspath \<Rightarrow> aspath \<Rightarrow> bool" where
  "aspath_cmp a1 a2 \<longleftrightarrow> as_length a1 = as_length a2 \<and> data_of a1 = data_of a2"


section \<open>Paths as lists of segments\<close>

type_synonym segment = "u8 \<times> u16 list"

definition seg_bytes :: "segment \<Rightarrow> u8 list" where
  "seg_bytes s = [fst s, of_nat (length (snd s))] @ concat (map be16 (snd s))"

definition segs_bytes :: "segment list \<Rightarrow> u8 list" where
  "segs_bytes S = concat (map seg_bytes S)"

definition segs_ok :: "segment list \<Rightarrow> bool" where
  "segs_ok S \<longleftrightarrow> (\<forall>s\<in>set S. length (snd s) < 256)"

definition all_as :: "segment list \<Rightarrow> u16 list" where
  "all_as S = concat (map snd S)"

text \<open>The path holds the segments \<open>S\<close>; the pointer is null exactly when there are none.\<close>

definition denotes :: "aspath \<Rightarrow> segment list \<Rightarrow> bool" where
  "denotes a S \<longleftrightarrow> segs_ok S \<and> as_length a = length (segs_bytes S) \<and> as_data a = (if S = [] then None else Some (segs_bytes S))"

lemma segs_simps [simp]:
  "segs_bytes [] = []" "segs_bytes (s # S) = seg_bytes s @ segs_bytes S" "segs_bytes (S @ T) = segs_bytes S @ segs_bytes T"
  "segs_ok []" "segs_ok (s # S) \<longleftrightarrow> length (snd s) < 256 \<and> segs_ok S" "segs_ok (S @ T) \<longleftrightarrow> segs_ok S \<and> segs_ok T"
  "all_as [] = []" "all_as (s # S) = snd s @ all_as S" "all_as (S @ T) = all_as S @ all_as T"
  by (auto simp: segs_bytes_def segs_ok_def all_as_def)

lemma length_concat_be16: "length (concat (map be16 vs)) = 2 * length vs"
  by (induction vs) simp_all

lemma length_seg_bytes [simp]: "length (seg_bytes s) = 2 * length (snd s) + 2"
  by (simp add: seg_bytes_def length_concat_be16)

lemma segs_bytes_empty [simp]: "segs_bytes S = [] \<longleftrightarrow> S = []" "[] = segs_bytes S \<longleftrightarrow> S = []"
  by (cases S; simp add: seg_bytes_def)+

lemma unat_count [simp]: "n < 256 \<Longrightarrow> unat (of_nat n :: u8) = n"
  by (simp add: unat_of_nat)

lemma count_zero: "n < 256 \<Longrightarrow> (of_nat n :: u8) = 0 \<longleftrightarrow> n = 0"
proof
  assume "n < 256" "(of_nat n :: u8) = 0"
  then show "n = 0" using unat_count [of n] by simp
qed simp

lemma mem_get16_values: "i < length vs \<Longrightarrow> mem_get16 (concat (map be16 vs) @ R) (2 * i) = Some (vs ! i)"
proof (induction vs arbitrary: i)
  case (Cons v vs)
  show ?case
  proof (cases i)
    case (Suc j)
    then have "mem_get16 (be16 v @ (concat (map be16 vs) @ R)) (length (be16 v) + 2 * j) = Some (vs ! j)"
      using Cons by (simp add: mem_get16_append(1) del: length_be16)
    then show ?thesis using Suc by (simp add: add.commute)
  qed simp
qed simp

lemma seg_reads:
  assumes "d = A @ seg_bytes s @ R"
  shows "seg_type d (length A) = Some (fst s)" "seg_length d (length A) = Some (of_nat (length (snd s)))"
    "i < length (snd s) \<Longrightarrow> seg_asval d (length A) i = Some (snd s ! i)"
    "i \<le> length (snd s) \<Longrightarrow> mem_get d (length A + 2) (2 * i) = Some (concat (map be16 (take i (snd s))))"
proof -
  show "seg_type d (length A) = Some (fst s)" using mem_read_append(1) [of A _ 0]
    by (simp add: assms seg_type_def seg_bytes_def mem_read_def)
  show "seg_length d (length A) = Some (of_nat (length (snd s)))"
    by (simp add: assms seg_length_def seg_bytes_def mem_read_def nth_append)
  let ?H = "A @ [fst s, of_nat (length (snd s))]"
  have d: "d = ?H @ (concat (map be16 (snd s)) @ R)" "length ?H = length A + 2" by (simp_all add: assms seg_bytes_def)
  show "seg_asval d (length A) i = Some (snd s ! i)" if "i < length (snd s)"
    unfolding seg_asval_def d(2) [symmetric] unfolding d(1) mem_get16_append(1) using mem_get16_values [OF that] .
  show "mem_get d (length A + 2) (2 * i) = Some (concat (map be16 (take i (snd s))))" if "i \<le> length (snd s)"
  proof -
    have "concat (map be16 (snd s)) = concat (map be16 (take i (snd s))) @ concat (map be16 (drop i (snd s)))"
      by (metis append_take_drop_id concat_append map_append)
    moreover have "length (concat (map be16 (take i (snd s)))) = 2 * i" using that by (simp add: length_concat_be16)
    ultimately have "take (2 * i) (concat (map be16 (snd s)) @ R) = concat (map be16 (take i (snd s)))" by simp
    moreover have "length A + 2 + 2 * i \<le> length d" using that by (simp add: d(1) length_concat_be16)
    moreover have "drop (length A + 2) d = concat (map be16 (snd s)) @ R" unfolding d(2) [symmetric] unfolding d(1) by simp
    ultimately show ?thesis by (simp add: mem_get_def)
  qed
qed

text \<open>The loop over the segments is a fold over the list.\<close>

lemma seg_walk_segs:
  assumes body: "\<And>A s S' x. s \<in> set S \<Longrightarrow> d = A @ seg_bytes s @ S' \<Longrightarrow> body (length A) x = g s x"
    and "d = A @ segs_bytes S @ R" "segs_ok S" "en = length A + length (segs_bytes S)"
  shows "seg_walk body d en (length A) x = foldM g S x"
  using assms(2-) body
proof (induction S arbitrary: A x)
  case (Cons s S)
  have d: "d = A @ seg_bytes s @ (segs_bytes S @ R)" "d = (A @ seg_bytes s) @ segs_bytes S @ R" using Cons.prems(1) by simp_all
  have l: "length A < en" "length (snd s) < 256" "en = length (A @ seg_bytes s) + length (segs_bytes S)" using Cons.prems(2,3) by simp_all
  have b: "body (length A) x = g s x" using Cons.prems(4) d(1) by simp
  have ih: "seg_walk body d en (length (A @ seg_bytes s)) y = foldM g S y" for y
    using Cons.IH [OF d(2) _ l(3)] Cons.prems(2,4) by simp
  have e: "length A + (unat (of_nat (length (snd s)) :: u8) * 2 + 2) = length (A @ seg_bytes s)" using l(2) by simp
  show ?case
    by (subst seg_walk.simps) (simp only: l(1) b seg_reads(2) [OF d(1)] e ih if_True foldM.simps option.case split: option.split, simp split: bind_split)
qed (simp add: seg_walk.simps)

lemma denotes_data: "denotes a S \<Longrightarrow> data_of a = segs_bytes S"
  by (simp add: denotes_def data_of_def)

lemma denotes_walk:
  assumes "denotes a S" "\<And>A s S' x. s \<in> set S \<Longrightarrow> data_of a = A @ seg_bytes s @ S' \<Longrightarrow> body (length A) x = g s x"
  shows "seg_walk body (data_of a) (as_length a) 0 x = foldM g S x"
  using seg_walk_segs [of S "data_of a" body g "[]" "[]" "as_length a" x] assms denotes_data [OF assms(1)] by (simp add: denotes_def)

section \<open>Checks\<close>

lemma fold_count: "fold (\<lambda>i c. if vs ! i = x then c + 1 else c) [0..<length vs] (c :: int) = c + int (count_list vs x)"
proof (induction vs arbitrary: c rule: rev_induct)
  case (snoc v vs)
  have "fold (\<lambda>i c. if (vs @ [v]) ! i = x then c + 1 else c) [0..<length vs] c = fold (\<lambda>i c. if vs ! i = x then c + 1 else c) [0..<length vs] c"
    by (rule fold_cong) (simp_all add: nth_append)
  then show ?case using snoc by auto
qed simp

lemma count_as_seg:
  assumes "d = A @ seg_bytes s @ R" "length (snd s) < 256"
  shows "count_as d x (length A) c = Some (c + int (count_list (snd s) x))"
proof -
  have "foldM (\<lambda>i count. do { v \<leftarrow> seg_asval d (length A) i; Some (if v = x then count + 1 else count) }) [0..<length (snd s)] c
      = Some (fold (\<lambda>i c. if snd s ! i = x then c + 1 else c) [0..<length (snd s)] c)"
    by (rule foldM_fold) (simp add: seg_reads(3) [OF assms(1)])
  then show ?thesis using assms(2) by (simp add: count_as_def seg_reads(2) [OF assms(1)] fold_count)
qed

lemma aspath_loop_check_count:
  assumes "denotes a S"
  shows "aspath_loop_check (Some a) x = Some (int (count_list (all_as S) x))"
proof -
  have ok: "length (snd s) < 256" if "s \<in> set S" for s using assms that by (simp add: denotes_def segs_ok_def)
  have "seg_walk (count_as (data_of a) x) (data_of a) (as_length a) 0 0 = foldM (\<lambda>s c. Some (c + int (count_list (snd s) x))) S 0"
    by (rule denotes_walk [OF assms]) (simp add: count_as_seg ok)
  also have "\<dots> = Some (fold (\<lambda>s c. c + int (count_list (snd s) x)) S 0)" by (rule foldM_fold) simp
  also have "fold (\<lambda>s c. c + int (count_list (snd s) x)) S c = c + int (count_list (all_as S) x)" for c
    by (induction S arbitrary: c) simp_all
  finally show ?thesis by (simp add: aspath_loop_check_def)
qed

section \<open>Text and validity\<close>

definition valid_type :: "u8 \<Rightarrow> bool" where
  "valid_type t \<longleftrightarrow> t = AS_SET \<or> t = AS_SEQUENCE \<or> t = AS_CONFED_SET \<or> t = AS_CONFED_SEQUENCE"

definition segs_valid :: "segment list \<Rightarrow> bool" where
  "segs_valid S \<longleftrightarrow> segs_ok S \<and> (\<forall>s\<in>set S. valid_type (fst s))"

text \<open>The text of a path: sets in braces with commas, confederation segments in brackets and parentheses.\<close>

definition seg_sep :: "u8 \<Rightarrow> char" where
  "seg_sep t = (if t = AS_SET \<or> t = AS_CONFED_SET then CHR '','' else CHR '' '')"

fun join_as :: "char \<Rightarrow> u16 list \<Rightarrow> string" where
  "join_as c [] = []"
| "join_as c [v] = dec_str (unat v)"
| "join_as c (v # w # vs) = dec_str (unat v) @ [c] @ join_as c (w # vs)"

definition seg_open :: "u8 \<Rightarrow> string" where
  "seg_open t = (if t \<noteq> AS_SEQUENCE then [aspath_delimiter_char t True] else [])"

definition seg_close :: "u8 \<Rightarrow> string" where
  "seg_close t = (if t \<noteq> AS_SEQUENCE then [aspath_delimiter_char t False] else [])"

definition seg_text :: "segment \<Rightarrow> string" where
  "seg_text s = seg_open (fst s) @ join_as (seg_sep (fst s)) (snd s) @ seg_close (fst s)"

fun as_text :: "segment list \<Rightarrow> string" where
  "as_text [] = []"
| "as_text [s] = seg_text s"
| "as_text (s # s' # S) = seg_text s @ (if snd s \<noteq> [] then '' '' else []) @ as_text (s' # S)"

definition as_hops :: "segment list \<Rightarrow> int" where
  "as_hops S = (\<Sum>s\<leftarrow>S. seg_hops (fst s) (length (snd s)))"

text \<open>What the loop still has to write, after a segment of type \<open>prev\<close>.\<close>

fun text_tail :: "u8 \<Rightarrow> bool \<Rightarrow> segment list \<Rightarrow> string" where
  "text_tail prev space [] = seg_close prev"
| "text_tail prev space (s # S) = seg_close prev @ (if space then '' '' else []) @ seg_open (fst s)
     @ join_as (seg_sep (fst s)) (snd s) @ text_tail (fst s) (snd s \<noteq> []) S"

lemma as_text_tail: "as_text (s # S) = seg_open (fst s) @ join_as (seg_sep (fst s)) (snd s) @ text_tail (fst s) (snd s \<noteq> []) S"
  by (induction S arbitrary: s) (simp_all add: seg_text_def)

lemma text_tail_start: "text_tail AS_SEQUENCE False S = as_text S"
  by (cases S) (simp_all add: as_text_tail seg_close_def)

lemma join_as_snoc: "join_as c (vs @ [v]) = join_as c vs @ (if vs = [] then [] else [c]) @ dec_str (unat v)"
  by (induction c vs rule: join_as.induct) simp_all

lemma dec_str_u16: "length (dec_str (unat (v :: u16))) \<le> 5"
proof -
  have "unat v < 10 ^ Suc 4" using unsigned_less [of v, where ?'a = nat] by simp
  from dec_str_length [OF this] show ?thesis by simp
qed

lemma join_as_length: "vs \<noteq> [] \<Longrightarrow> length (join_as c vs) + 1 \<le> 6 * length vs"
proof (induction c vs rule: join_as.induct)
  case (2 c v)
  then show ?case using dec_str_u16 [of v] by simp
next
  case (3 c v w vs)
  then show ?case using dec_str_u16 [of v] by simp
qed simp

lemma str_grow_run: "0 < sz \<Longrightarrow> \<exists>sz'. str_grow need sz = Some sz' \<and> need < sz' \<and> sz \<le> sz'"
proof (induction "Suc need - sz" arbitrary: sz rule: less_induct)
  case less
  show ?case
  proof (cases "need \<ge> sz")
    case True
    then have "Suc need - sz * 2 < Suc need - sz" using less.prems by linarith
    then obtain sz' where "str_grow need (sz * 2) = Some sz'" "need < sz'" "sz * 2 \<le> sz'" using less by fastforce
    then show ?thesis using True by (subst str_grow.simps) auto
  qed (subst str_grow.simps, simp)
qed

lemma put_optional:
  "length buf < sz \<Longrightarrow> (if c then put_char sz x buf else Some buf) = Some (buf @ (if c then [x] else []))"
  by (simp add: put_char_def)

lemma put_as_run:
  assumes d: "d = A @ seg_bytes (t, vs) @ R" and sz: "length buf + 6 * length vs \<le> sz" and k: "k \<le> length vs"
  shows "foldM (put_as d (length A) t sz) [0..<k] (False, buf) = Some (k \<noteq> 0, buf @ join_as (seg_sep t) (take k vs))"
  using k
proof (induction k)
  case (Suc k)
  have l: "length (join_as (seg_sep t) (take k vs)) + (if k = 0 then 0 else 1) \<le> 6 * k"
    using join_as_length [of "take k vs" "seg_sep t"] Suc.prems by (cases "k = 0") fastforce+
  have v: "seg_asval d (length A) k = Some (vs ! k)" using seg_reads(3) [OF d, of k] Suc.prems by simp
  define b where "b = buf @ join_as (seg_sep t) (take k vs)"
  define b' where "b' = b @ (if k \<noteq> 0 then [seg_sep t] else [])"
  have lb: "length b < sz" "length b' + 5 < sz" using l sz Suc.prems by (auto simp: b_def b'_def split: if_splits)
  have "put_as d (length A) t sz k (k \<noteq> 0, b) = Some (True, b' @ dec_str (unat (vs ! k)))"
    unfolding put_as_def prod.case seg_sep_def [symmetric] put_optional [OF lb(1)] b'_def [symmetric]
    using lb(2) dec_str_u16 [of "vs ! k"] v by (simp add: put_num_def)
  moreover have "take (Suc k) vs = take k vs @ [vs ! k]" using Suc.prems by (simp add: take_Suc_conv_app_nth)
  moreover have "take k vs = [] \<longleftrightarrow> k = 0" using Suc.prems by auto
  ultimately show ?case using Suc by (simp add: foldM_append join_as_snoc b_def b'_def)
qed simp

lemma put_segment_run:
  assumes d: "d = A @ seg_bytes (t, vs) @ R" and sz: "length buf + (6 * length vs + 5) \<le> sz" and ok: "length vs < 256"
  shows "put_segment d (length A) prev t (of_nat (length vs)) sz (space, buf)
    = Some (vs \<noteq> [], buf @ seg_close prev @ (if space then '' '' else []) @ seg_open t @ join_as (seg_sep t) vs)"
proof -
  define b1 b2 b3 where "b1 = buf @ seg_close prev" and "b2 = b1 @ (if space then '' '' else [])" and "b3 = b2 @ seg_open t"
  have l: "length buf < sz" "length b1 < sz" "length b2 < sz" "length b3 + 6 * length vs \<le> sz"
    using sz by (auto simp: b1_def b2_def b3_def seg_close_def seg_open_def)
  have "foldM (put_as d (length A) t sz) [0..<length vs] (False, b3) = Some (length vs \<noteq> 0, b3 @ join_as (seg_sep t) vs)"
    using put_as_run [OF d l(4), of "length vs"] by simp
  moreover have "put_segment d (length A) prev t (of_nat (length vs)) sz (space, buf)
      = foldM (put_as d (length A) t sz) [0..<length vs] (False, b3)"
    unfolding put_segment_def prod.case put_optional [OF l(1)] seg_close_def [symmetric] b1_def [symmetric] bind.bind_lunit
      put_optional [OF l(2)] b2_def [symmetric] put_optional [OF l(3)] seg_open_def [symmetric] b3_def [symmetric] unat_count [OF ok] ..
  ultimately show ?thesis by (simp add: b1_def b2_def b3_def)
qed

text \<open>One round of the loop on a valid segment.\<close>

lemma str_loop_step:
  assumes d: "d = A @ seg_bytes s @ R" and s: "valid_type (fst s)" "length (snd s) < 256" and sz: "length buf + 2 \<le> sz"
  shows "\<exists>sz'. sz \<le> sz' \<and> length buf + (6 * length (snd s) + 5) \<le> sz' \<and>
    str_loop d (length d) (length A) prev sz (space, buf) c
    = str_loop d (length d) (length (A @ seg_bytes s)) (fst s) sz'
        (snd s \<noteq> [], buf @ seg_close prev @ (if space then '' '' else []) @ seg_open (fst s) @ join_as (seg_sep (fst s)) (snd s))
        (c + seg_hops (fst s) (length (snd s)))"
proof -
  obtain sz' where sz': "str_grow (length buf + (length (snd s) * 6 + 4)) sz = Some sz'" "length buf + (length (snd s) * 6 + 4) < sz'" "sz \<le> sz'"
    using str_grow_run [of sz] sz by (metis add_gr_0 le_zero_eq not_gr_zero zero_less_numeral)
  have d': "d = A @ seg_bytes (fst s, snd s) @ R" using d by simp
  have l: "length buf + (6 * length (snd s) + 5) \<le> sz'" using sz'(2) by simp
  have e: "length A + (length (snd s) * 2 + 2) = length (A @ seg_bytes s)" by simp
  have "length A < length d" "length A + length (snd s) * 2 + 2 \<le> length d" by (simp_all add: d)
  moreover have "(fst s \<noteq> AS_SET \<and> fst s \<noteq> AS_SEQUENCE \<and> fst s \<noteq> AS_CONFED_SET \<and> fst s \<noteq> AS_CONFED_SEQUENCE) = False"
    using s(1) unfolding valid_type_def by blast
  ultimately have "str_loop d (length d) (length A) prev sz (space, buf) c
    = str_loop d (length d) (length (A @ seg_bytes s)) (fst s) sz'
        (snd s \<noteq> [], buf @ seg_close prev @ (if space then '' '' else []) @ seg_open (fst s) @ join_as (seg_sep (fst s)) (snd s))
        (c + seg_hops (fst s) (length (snd s)))"
    using s(2) sz'(1) put_segment_run [OF d' l s(2), of prev space]
    by (subst str_loop.simps) (simp only: seg_reads(1,2) [OF d] unat_count e [symmetric] prod.case option.case if_True if_False fst_conv snd_conv add.assoc leD)
  then show ?thesis using sz'(3) l by blast
qed

lemma str_loop_valid:
  assumes "d = A @ segs_bytes S" "segs_valid S" "length buf + 2 \<le> sz"
  shows "str_loop d (length d) (length A) prev sz (space, buf) c = Some (Some (buf @ text_tail prev space S, c + as_hops S))"
  using assms
proof (induction S arbitrary: A buf sz prev space c)
  case Nil
  then have "str_loop d (length d) (length A) prev sz (space, buf) c
      = do { b \<leftarrow> (if prev \<noteq> AS_SEQUENCE then put_char sz (aspath_delimiter_char prev False) buf else Some buf);
             if length b < sz then Some (Some (b, c)) else None }"
    by (subst str_loop.simps) simp
  then show ?case using Nil.prems(3) put_optional [of buf sz "prev \<noteq> AS_SEQUENCE" "aspath_delimiter_char prev False"]
    by (simp add: as_hops_def seg_close_def del: aspath_delimiter_char.simps)
next
  case (Cons s S)
  have d: "d = A @ seg_bytes s @ segs_bytes S" "d = (A @ seg_bytes s) @ segs_bytes S" using Cons.prems(1) by simp_all
  have v: "valid_type (fst s)" "length (snd s) < 256" "segs_valid S" using Cons.prems(2) by (simp_all add: segs_valid_def)
  let ?b = "buf @ seg_close prev @ (if space then '' '' else []) @ seg_open (fst s) @ join_as (seg_sep (fst s)) (snd s)"
  obtain sz' where sz': "length buf + (6 * length (snd s) + 5) \<le> sz'"
    "str_loop d (length d) (length A) prev sz (space, buf) c
      = str_loop d (length d) (length (A @ seg_bytes s)) (fst s) sz' (snd s \<noteq> [], ?b) (c + seg_hops (fst s) (length (snd s)))"
    using str_loop_step [OF d(1) v(1,2) Cons.prems(3), of prev space c] by blast
  have "length (join_as (seg_sep (fst s)) (snd s)) \<le> 6 * length (snd s) - (if snd s = [] then 0 else 1)"
    using join_as_length [of "snd s" "seg_sep (fst s)"] by (cases "snd s = []") auto
  then have "length ?b + 2 \<le> sz'" using sz'(1) by (cases "snd s = []") (auto simp: seg_close_def seg_open_def)
  from Cons.IH [OF d(2) v(3) this] show ?case by (simp add: sz'(2) as_hops_def)
qed

text \<open>On any data of even length the loop returns, and it accepts nothing but segments of known types.\<close>

lemma str_loop_total:
  assumes "even (length d - pnt)" "pnt \<le> length d" "length buf + 2 \<le> sz"
  shows "\<exists>r. str_loop d (length d) pnt prev sz (space, buf) c = Some r \<and> (r \<noteq> None \<longrightarrow> (\<exists>S. segs_valid S \<and> drop pnt d = segs_bytes S))"
  using assms
proof (induction "length d - pnt" arbitrary: pnt buf sz prev space c rule: less_induct)
  case less
  show ?case
  proof (cases "pnt < length d")
    case False
    then have "str_loop d (length d) pnt prev sz (space, buf) c = Some (Some (buf @ text_tail prev space [], c + as_hops []))"
      using str_loop_valid [of d "take pnt d" "[]" buf sz prev space c] less.prems by (simp add: segs_valid_def)
    then show ?thesis using False by (intro exI [of _ "Some (buf @ text_tail prev space [], c + as_hops [])"] conjI impI exI [of _ "[]"])
      (simp_all add: segs_valid_def)
  next
    case True
    then have p: "pnt + 1 < length d" using less.prems(1) by (cases "length d = pnt + 1") auto
    let ?t = "d ! pnt" and ?n = "d ! (pnt + 1)"
    show ?thesis
    proof (cases "valid_type ?t \<and> pnt + unat ?n * 2 + 2 \<le> length d")
      case False
      then have "str_loop d (length d) pnt prev sz (space, buf) c = Some None"
        using p by (subst str_loop.simps) (auto simp: seg_type_def seg_length_def mem_read_def valid_type_def)
      then show ?thesis by simp
    next
      case ok: True
      let ?b = "take (2 * unat ?n) (drop (pnt + 2) d)"
      have "length ?b = 2 * unat ?n" using ok by (auto simp: min_def)
      then obtain vs where vs: "?b = concat (map be16 vs)" "length vs = unat ?n" using be16_words [of ?b] by auto
      have "drop pnt d = [?t, ?n] @ drop (pnt + 2) d" using p by (simp add: Cons_nth_drop_Suc)
      also have "drop (pnt + 2) d = ?b @ drop (pnt + 2 + 2 * unat ?n) d" by (metis append_take_drop_id drop_drop add.commute)
      finally have dr: "drop pnt d = seg_bytes (?t, vs) @ drop (pnt + 2 + 2 * unat ?n) d"
        unfolding vs(1) by (simp add: seg_bytes_def vs(2))
      then have d: "d = take pnt d @ seg_bytes (?t, vs) @ drop (pnt + 2 + 2 * unat ?n) d" by (metis append_take_drop_id)
      have lp: "length (take pnt d) = pnt" using True by simp
      have s: "valid_type (fst (?t, vs))" "length (snd (?t, vs)) < 256" using ok vs(2) unsigned_less [of ?n, where ?'a = nat] by simp_all
      obtain sz' b' where sz': "length b' + 2 \<le> sz'"
        "str_loop d (length d) pnt prev sz (space, buf) c
          = str_loop d (length d) (pnt + 2 + 2 * unat ?n) ?t sz' (vs \<noteq> [], b') (c + seg_hops ?t (length vs))"
      proof -
        let ?b' = "buf @ seg_close prev @ (if space then '' '' else []) @ seg_open ?t @ join_as (seg_sep ?t) vs"
        obtain sz' where a: "length buf + (6 * length vs + 5) \<le> sz'"
          "str_loop d (length d) pnt prev sz (space, buf) c = str_loop d (length d) (length (take pnt d @ seg_bytes (?t, vs))) ?t sz' (vs \<noteq> [], ?b') (c + seg_hops ?t (length vs))"
          using str_loop_step [OF d s less.prems(3), of prev space c] lp by auto
        have "length (join_as (seg_sep ?t) vs) \<le> 6 * length vs - (if vs = [] then 0 else 1)"
          using join_as_length [of vs "seg_sep ?t"] by (cases "vs = []") auto
        then have "length ?b' + 2 \<le> sz'" using a(1) by (cases "vs = []") (auto simp: seg_close_def seg_open_def)
        moreover have "length (take pnt d @ seg_bytes (?t, vs)) = pnt + 2 + 2 * unat ?n" using lp vs(2) by simp
        ultimately show ?thesis using that [of ?b' sz'] a(2) by simp
      qed
      have "length d - (pnt + 2 + 2 * unat ?n) < length d - pnt" "pnt + 2 + 2 * unat ?n \<le> length d" using ok True by auto
      moreover have "even (length d - (pnt + 2 + 2 * unat ?n))" using less.prems(1) ok by (simp add: even_diff_nat)
      ultimately obtain r where r: "str_loop d (length d) (pnt + 2 + 2 * unat ?n) ?t sz' (vs \<noteq> [], b') (c + seg_hops ?t (length vs)) = Some r"
        "r \<noteq> None \<longrightarrow> (\<exists>S. segs_valid S \<and> drop (pnt + 2 + 2 * unat ?n) d = segs_bytes S)" using less.hyps sz'(1) by blast
      have "\<exists>S. segs_valid S \<and> drop pnt d = segs_bytes S" if "r \<noteq> None"
      proof -
        obtain S where "segs_valid S" "drop (pnt + 2 + 2 * unat ?n) d = segs_bytes S" using r(2) \<open>r \<noteq> None\<close> by blast
        then show ?thesis using dr s by (intro exI [of _ "(?t, vs) # S"]) (simp add: segs_valid_def)
      qed
      then show ?thesis using sz'(2) r(1) by auto
    qed
  qed
qed

lemma segs_bytes_even: "even (length (segs_bytes S))"
  by (induction S) simp_all

lemma data_of_new [simp]: "data_of (aspath_new\<lparr>as_length := n, as_data := x\<rparr>) = (case x of None \<Rightarrow> [] | Some d \<Rightarrow> d)"
  by (simp add: data_of_def)

lemma aspath_parse_new_run:
  assumes "length d mod 2 = 0" "d \<noteq> []"
  shows "aspath_parse_new d = do {
    r \<leftarrow> str_loop d (length d) 0 AS_SEQUENCE 32 (False, []) 0;
    case r of None \<Rightarrow> Some None
    | Some (buf, c) \<Rightarrow> Some (Some (aspath_new\<lparr>as_length := length d, as_data := Some d, as_count := c, as_str := Some buf\<rparr>)) }"
  using assms by (auto simp: aspath_parse_new_def aspath_hash_alloc_def aspath_make_str_count_def ASPATH_STR_DEFAULT_LEN_def Let_def
      split: option.splits bind_split)

lemma segs_valid_unique: "segs_ok S \<Longrightarrow> segs_ok T \<Longrightarrow> segs_bytes S = segs_bytes T \<Longrightarrow> S = T"
proof (induction S arbitrary: T)
  case Nil
  then show ?case by (metis segs_bytes_empty)
next
  case (Cons s S)
  then obtain t T' where T: "T = t # T'" by (metis segs_bytes_empty list.exhaust list.discI)
  have h: "fst s = fst t" "of_nat (length (snd s)) = (of_nat (length (snd t)) :: u8)" and
    r: "concat (map be16 (snd s)) @ segs_bytes S = concat (map be16 (snd t)) @ segs_bytes T'"
    using Cons.prems(3) by (simp_all add: T seg_bytes_def)
  have l: "length (snd s) = length (snd t)" using arg_cong [OF h(2), of unat] Cons.prems(1,2) by (simp add: T)
  have b: "concat (map be16 (snd s)) = concat (map be16 (snd t))" "segs_bytes S = segs_bytes T'"
    using r l by (simp_all add: append_eq_append_conv length_concat_be16)
  have "snd s ! i = snd t ! i" if "i < length (snd s)" for i
    using mem_get16_values [of i "snd s" "[]"] mem_get16_values [of i "snd t" "[]"] that l b(1) by simp
  then have "snd s = snd t" using l by (simp add: list_eq_iff_nth_eq)
  then show ?case using Cons.IH [of T'] Cons.prems(1,2) b(2) h(1) T by (simp add: prod_eq_iff)
qed

text \<open>C19: Parsing.  On any received attribute, of any length and content, the parser of AS paths returns: it reads
  nothing outside the attribute and writes nothing outside the growing text buffer.  It accepts exactly the
  sequences of segments with known types; the result holds these segments, their text and the hop count
  in which a set counts once and confederation segments do not count.\<close>

theorem aspath_parse_correct:
  "\<exists>r. aspath_parse_new d = Some r
    \<and> (\<forall>S. segs_valid S \<and> d = segs_bytes S \<longrightarrow>
         (\<exists>a. r = Some a \<and> denotes a S \<and> as_str a = Some (as_text S) \<and> as_count a = as_hops S))
    \<and> ((\<nexists>S. segs_valid S \<and> d = segs_bytes S) \<longrightarrow> r = None)"
proof (cases "length d mod 2 \<noteq> 0")
  case True
  then have "d \<noteq> segs_bytes S" for S using segs_bytes_even [of S] by auto
  then show ?thesis using True by (simp add: aspath_parse_new_def)
next
  case even: False
  show ?thesis
  proof (cases "d = []")
    case True
    have "aspath_parse_new [] = Some (Some (aspath_new\<lparr>as_count := 0, as_str := Some []\<rparr>))"
      by (simp add: aspath_parse_new_def aspath_hash_alloc_def aspath_make_str_count_def aspath_new_def)
    then show ?thesis using True by (auto simp: denotes_def as_hops_def aspath_new_def segs_valid_def intro: exI [of _ "[]"])
  next
    case False
    obtain r where r: "str_loop d (length d) 0 AS_SEQUENCE 32 (False, []) 0 = Some r"
      "r \<noteq> None \<longrightarrow> (\<exists>S. segs_valid S \<and> d = segs_bytes S)"
      using str_loop_total [of d 0 "[]" 32 AS_SEQUENCE False 0] even by auto
    have ok: "r = Some (as_text S, as_hops S)" if "segs_valid S" "d = segs_bytes S" for S
      using str_loop_valid [of d "[]" S "[]" 32 AS_SEQUENCE False 0] that r(1) by (simp add: text_tail_start)
    show ?thesis
    proof (cases r)
      case None
      then have "aspath_parse_new d = Some None" using even False r(1) by (simp add: aspath_parse_new_run)
      moreover have "\<not> (segs_valid S \<and> d = segs_bytes S)" for S using ok [of S] None by auto
      ultimately show ?thesis by auto
    next
      case (Some p)
      then obtain T where T: "segs_valid T" "d = segs_bytes T" using r(2) by auto
      have p: "p = (as_text T, as_hops T)" using ok [OF T] Some by simp
      let ?a = "aspath_new\<lparr>as_length := length d, as_data := Some d, as_count := as_hops T, as_str := Some (as_text T)\<rparr>"
      have "aspath_parse_new d = Some (Some ?a)" using even False r(1) Some p by (simp add: aspath_parse_new_run)
      moreover have "denotes ?a T" using T False by (auto simp: denotes_def segs_valid_def)
      moreover have "S = T" if "segs_valid S" "d = segs_bytes S" for S
        using segs_valid_unique [of S T] that T by (simp add: segs_valid_def)
      moreover have "\<exists>S. segs_valid S \<and> d = segs_bytes S" using T by blast
      moreover have "as_str ?a = Some (as_text T)" "as_count ?a = as_hops T" by simp_all
      ultimately show ?thesis by (intro exI [of _ "Some ?a"]) blast
    qed
  qed
qed

theorem aspath_parse_correct_witness:
  "\<exists>a. aspath_parse_new [2, 2, 0, 10, 0, 20, 1, 2, 0, 7, 0, 8] = Some (Some a)
     \<and> as_str a = Some ''10 20 {7,8}'' \<and> as_count a = 3 \<and> aspath_parse_new [2, 2, 1, 0] = Some None"
proof -
  let ?S = "[(AS_SEQUENCE, [10, 20]), (AS_SET, [7, 8])]"
  have b: "[2, 2, 0, 10, 0, 20, 1, 2, 0, 7, 0, 8] = segs_bytes ?S" "segs_valid ?S" "as_hops ?S = 3"
    by (simp_all add: seg_bytes_def be16_def segs_valid_def valid_type_def as_hops_def seg_hops_def AS_SEQUENCE_def AS_SET_def
        AS_CONFED_SET_def AS_CONFED_SEQUENCE_def)
  have "dec_str 10 = ''10''" "dec_str 20 = ''20''" "dec_str 7 = ''7''" "dec_str 8 = ''8''" by code_simp+
  then have t: "as_text ?S = ''10 20 {7,8}''"
    by (simp add: seg_text_def seg_open_def seg_close_def seg_sep_def AS_SEQUENCE_def AS_SET_def AS_CONFED_SET_def AS_CONFED_SEQUENCE_def)
  have "\<nexists>S. segs_valid S \<and> [2, 2, 1, 0] = segs_bytes S"
  proof
    assume "\<exists>S. segs_valid S \<and> [2, 2, 1, 0] = segs_bytes S"
    then obtain s S where s: "segs_ok (s # S)" "[2, 2, 1, 0] = segs_bytes (s # S)" unfolding segs_valid_def
      by (metis list.distinct(1) list.exhaust segs_simps(1))
    then have "of_nat (length (snd s)) = (2 :: u8)" by (simp add: seg_bytes_def)
    then have "unat (of_nat (length (snd s)) :: u8) = 2" by simp
    then have "length (snd s) = 2" using s(1) by simp
    then show False using arg_cong [OF s(2), of length] by simp
  qed
  then show ?thesis
    using aspath_parse_correct [of "[2, 2, 0, 10, 0, 20, 1, 2, 0, 7, 0, 8]"] aspath_parse_correct [of "[2, 2, 1, 0]"] b t by metis
qed

section \<open>Adding an AS\<close>

text \<open>The segments after adding one AS at the left; the rest of a path that starts with an empty segment is dropped.\<close>

fun push_as :: "u8 \<Rightarrow> u16 \<Rightarrow> segment list \<Rightarrow> segment list" where
  "push_as t x [] = [(t, [x])]"
| "push_as t x ((t0, vs) # S) =
     (if vs = [] then [(t, [x])] else if t0 = t then (t, x # vs) # S else (t, [x]) # (t0, vs) # S)"

lemma mem_get_all: "n = length d - k \<Longrightarrow> k \<le> length d \<Longrightarrow> mem_get d k n = Some (drop k d)"
  by (simp add: mem_get_def)

lemma aspath_add_one_as_run:
  assumes a: "denotes a S" and n: "S = [] \<or> fst (hd S) \<noteq> t \<or> length (snd (hd S)) < 255"
  shows "\<exists>a'. aspath_add_one_as a x t = Some a' \<and> denotes a' (push_as t x S)"
proof (cases S)
  case Nil
  then show ?thesis using a by (simp add: denotes_def aspath_add_one_as_def seg_bytes_def)
next
  case (Cons s R)
  obtain t0 vs where s: "s = (t0, vs)" by fastforce
  let ?d = "segs_bytes S"
  have d: "as_data a = Some ?d" "as_length a = length ?d" "length vs < 256" "segs_ok R" using a Cons s by (simp_all add: denotes_def)
  have b: "?d = [] @ seg_bytes s @ segs_bytes R" using Cons by simp
  note r = seg_reads(1,2) [OF b, simplified]
  have g: "mem_get ?d 0 (length ?d) = Some ?d" by (simp add: mem_get_def)
  have g2: "mem_get ?d 2 (length ?d - 2) = Some (concat (map be16 vs) @ segs_bytes R)"
    by (subst mem_get_all) (simp_all add: Cons s seg_bytes_def numeral_2_eq_2)
  have z: "(of_nat (length vs) :: u8) = 0 \<longleftrightarrow> vs = []" using count_zero [OF d(3)] by simp
  show ?thesis
  proof (cases "vs = [] \<or> t0 \<noteq> t")
    case True
    then show ?thesis using d r s Cons g z
      by (auto simp: aspath_add_one_as_def denotes_def seg_bytes_def)
  next
    case False
    then have "length vs < 255" using n Cons s by auto
    then show ?thesis using False d r s Cons g2 z
      by (simp add: aspath_add_one_as_def denotes_def) (simp add: seg_bytes_def)
  qed
qed

lemma push_as_all: "S = [] \<or> snd (hd S) \<noteq> [] \<Longrightarrow> all_as (push_as t x S) = x # all_as S"
  by (cases S) auto

lemma push_as_hops:
  "S = [] \<or> snd (hd S) \<noteq> [] \<Longrightarrow> as_hops (push_as t x S) = as_hops S + (if t = AS_SEQUENCE then 1 else if t = AS_SET \<and> (S = [] \<or> fst (hd S) \<noteq> AS_SET) then 1 else 0)"
  by (cases S) (auto simp: as_hops_def seg_hops_def AS_SEQUENCE_def AS_SET_def AS_CONFED_SET_def AS_CONFED_SEQUENCE_def)

lemma push_as_head: "\<exists>vs R. push_as t x S = (t, x # vs) # R"
  by (induction t x S rule: push_as.induct) auto

lemma firstas_push:
  assumes "denotes a (push_as AS_SEQUENCE x S)"
  shows "aspath_firstas_check (Some a) x = Some True"
proof -
  obtain vs R where p: "push_as AS_SEQUENCE x S = (AS_SEQUENCE, x # vs) # R" using push_as_head by blast
  have b: "segs_bytes ((AS_SEQUENCE, x # vs) # R) = [] @ seg_bytes (AS_SEQUENCE, x # vs) @ segs_bytes R" by simp
  show ?thesis using assms seg_reads(1) [OF b] seg_reads(3) [OF b, of 0] unfolding p
    by (simp add: aspath_firstas_check_def denotes_def)
qed

text \<open>C29: Announcing a route.  For a path that is empty or whose first segment is not, \<open>aspath_add_seq\<close> puts the AS number at the left: every
  other AS stays, the count of that AS in the path, which the loop check of a receiver uses, grows by one, the path gets
  one hop longer, and the check of the first AS accepts it.  This needs the first segment to have room:
  with 255 members its count byte wraps to zero.\<close>

theorem aspath_add_seq_correct:
  assumes "denotes a S" "S = [] \<or> snd (hd S) \<noteq> []"
  shows "(S = [] \<or> fst (hd S) \<noteq> AS_SEQUENCE \<or> length (snd (hd S)) < 255 \<longrightarrow>
      (\<exists>a' S'. aspath_add_seq a x = Some a' \<and> denotes a' S' \<and> all_as S' = x # all_as S
        \<and> (\<forall>y. aspath_loop_check (Some a') y = map_option (\<lambda>c. if y = x then c + 1 else c) (aspath_loop_check (Some a) y))
        \<and> as_hops S' = as_hops S + 1 \<and> aspath_firstas_check (Some a') x = Some True))
    \<and> (S \<noteq> [] \<and> fst (hd S) = AS_SEQUENCE \<and> length (snd (hd S)) = 255 \<longrightarrow>
      (\<exists>a'. aspath_add_seq a x = Some a' \<and> seg_length (data_of a') 0 = Some 0))"
proof (intro conjI impI)
  assume n: "S = [] \<or> fst (hd S) \<noteq> AS_SEQUENCE \<or> length (snd (hd S)) < 255"
  obtain a' where a': "aspath_add_one_as a x AS_SEQUENCE = Some a'" "denotes a' (push_as AS_SEQUENCE x S)"
    using aspath_add_one_as_run [OF assms(1) n] by blast
  let ?S = "push_as AS_SEQUENCE x S"
  have "aspath_loop_check (Some a') y = map_option (\<lambda>c. if y = x then c + 1 else c) (aspath_loop_check (Some a) y)" for y
    using aspath_loop_check_count [OF a'(2), of y] aspath_loop_check_count [OF assms(1), of y] push_as_all [OF assms(2)] by simp
  then show "\<exists>a' S'. aspath_add_seq a x = Some a' \<and> denotes a' S' \<and> all_as S' = x # all_as S
        \<and> (\<forall>y. aspath_loop_check (Some a') y = map_option (\<lambda>c. if y = x then c + 1 else c) (aspath_loop_check (Some a) y))
        \<and> as_hops S' = as_hops S + 1 \<and> aspath_firstas_check (Some a') x = Some True"
    using a' push_as_all [OF assms(2)] push_as_hops [OF assms(2), of AS_SEQUENCE x] firstas_push [OF a'(2)]
    by (intro exI [of _ a'] exI [of _ ?S]) (simp add: aspath_add_seq_def)
next
  assume n: "S \<noteq> [] \<and> fst (hd S) = AS_SEQUENCE \<and> length (snd (hd S)) = 255"
  then obtain vs R where S: "S = (AS_SEQUENCE, vs) # R" "length vs = 255" by (cases S) auto
  have b: "segs_bytes S = [] @ seg_bytes (AS_SEQUENCE, vs) @ segs_bytes R" using S by simp
  have g2: "mem_get (segs_bytes S) 2 (length (segs_bytes S) - 2) = Some (concat (map be16 vs) @ segs_bytes R)"
    by (subst mem_get_all) (simp_all add: S seg_bytes_def numeral_2_eq_2)
  show "\<exists>a'. aspath_add_seq a x = Some a' \<and> seg_length (data_of a') 0 = Some 0"
    using assms(1) seg_reads(1,2) [OF b] g2 S by (simp add: aspath_add_seq_def aspath_add_one_as_def denotes_def data_of_def seg_length_def mem_read_def)
qed

definition path_demo :: "segment list \<Rightarrow> aspath" where
  "path_demo S = aspath_new\<lparr>as_length := length (segs_bytes S), as_data := (if S = [] then None else Some (segs_bytes S))\<rparr>"

lemma path_demo_denotes: "segs_ok S \<Longrightarrow> denotes (path_demo S) S"
  by (simp add: path_demo_def denotes_def)

theorem aspath_add_seq_correct_witness:
  "(\<exists>a'. aspath_add_seq (path_demo [(AS_SEQUENCE, [10, 20])]) 30 = Some a' \<and> aspath_loop_check (Some a') 30 = Some 1)
   \<and> (\<exists>a'. aspath_add_seq (path_demo [(AS_SEQUENCE, replicate 255 1)]) 30 = Some a' \<and> seg_length (data_of a') 0 = Some 0)"
proof -
  have "aspath_loop_check (Some (path_demo [(AS_SEQUENCE, [10, 20])])) 30 = Some 0"
    using aspath_loop_check_count [OF path_demo_denotes, of "[(AS_SEQUENCE, [10, 20])]" 30] by simp
  then show ?thesis
    using aspath_add_seq_correct [OF path_demo_denotes, of "[(AS_SEQUENCE, [10, 20])]" 30]
      aspath_add_seq_correct [OF path_demo_denotes, of "[(AS_SEQUENCE, replicate 255 1)]" 30] by auto
qed

section \<open>Aggregation\<close>

subsection \<open>What it computes\<close>

fun lcp :: "'a list \<Rightarrow> 'a list \<Rightarrow> nat" where
  "lcp (x # xs) (y # ys) = (if x = y then Suc (lcp xs ys) else 0)"
| "lcp _ _ = 0"

text \<open>The common leading segments, what is left of both paths, and the value \<open>match\<close> the loop leaves behind.\<close>

fun common :: "segment list \<Rightarrow> segment list \<Rightarrow> nat \<Rightarrow> segment list \<times> segment list \<times> segment list \<times> nat" where
  "common ((t1, v1) # S1) ((t2, v2) # S2) m =
     (if t1 \<noteq> t2 then ([], (t1, v1) # S1, (t2, v2) # S2, m)
      else let k = lcp v1 v2; P = (if k \<noteq> 0 then [(t1, take k v1)] else []) in
        if k \<noteq> length v1 \<or> length v1 \<noteq> length v2 then (P, (t1, v1) # S1, (t2, v2) # S2, k)
        else let r = common S1 S2 k in (P @ fst r, snd r))"
| "common S1 S2 m = ([], S1, S2, m)"

definition rest_as :: "nat \<Rightarrow> segment list \<Rightarrow> u16 list" where
  "rest_as m S = (case S of [] \<Rightarrow> [] | s # S \<Rightarrow> drop m (snd s) @ all_as S)"

definition set_ins :: "u16 \<Rightarrow> u16 list \<Rightarrow> u16 list" where
  "set_ins v W = (if v \<in> set W then W else W @ [v])"

definition set_seg :: "u16 list \<Rightarrow> segment list" where
  "set_seg W = (if W = [] then [] else [(AS_SET, W)])"

definition agg_set :: "segment list \<Rightarrow> segment list \<Rightarrow> u16 list" where
  "agg_set S1 S2 = (case common S1 S2 0 of (P, R1, R2, m) \<Rightarrow> fold set_ins (rest_as m R1 @ rest_as m R2) [])"

definition agg_path :: "segment list \<Rightarrow> segment list \<Rightarrow> segment list" where
  "agg_path S1 S2 = fst (common S1 S2 0) @ set_seg (agg_set S1 S2)"

lemma lcp_le: "lcp xs ys \<le> length xs" "lcp xs ys \<le> length ys"
  by (induction xs ys rule: lcp.induct) auto

lemma lcp_take: "take (lcp xs ys) xs = take (lcp xs ys) ys"
  by (induction xs ys rule: lcp.induct) auto

lemma set_ins_set [simp]: "set (set_ins v W) = insert v (set W)"
  by (auto simp: set_ins_def)

lemma fold_set_ins_set: "set (fold set_ins vs W) = set W \<union> set vs"
  by (induction vs arbitrary: W) auto

lemma fold_set_ins_mono: "length W \<le> length (fold set_ins vs W)"
proof (induction vs arbitrary: W)
  case (Cons v vs)
  have "length W \<le> length (set_ins v W)" by (simp add: set_ins_def)
  then show ?case using Cons [of "set_ins v W"] by simp
qed simp

subsection \<open>The set under construction\<close>

text \<open>The path holds \<open>P\<close> and then, once there is a member, the AS_SET with the members \<open>W\<close>, at the offset \<open>asset\<close>.\<close>

definition agg_rep :: "segment list \<Rightarrow> u16 list \<Rightarrow> aspath \<times> nat option \<Rightarrow> bool" where
  "agg_rep P W s \<longleftrightarrow> denotes (fst s) (P @ set_seg W) \<and> snd s = (if W = [] then None else Some (length (segs_bytes P)))"

lemma asval_exists_run:
  assumes "d = A @ seg_bytes (t, W) @ R" "\<forall>i\<in>set is. i < length W"
  shows "asval_exists d (length A) v is = Some (\<exists>i\<in>set is. W ! i = v)"
  using assms(2) by (induction "is") (auto simp: seg_reads(3) [OF assms(1)])

lemma set_add_bytes:
  assumes d: "d = segs_bytes P @ seg_bytes (AS_SET, W)" and w: "length W < 255"
  shows "do { d' \<leftarrow> mem_put (d @ [0, 0]) (length (segs_bytes P) + 2 + 2 * length W) (be16 v);
              mem_write d' (length (segs_bytes P) + 1) (of_nat (length W) + 1) }
    = Some (segs_bytes P @ seg_bytes (AS_SET, W @ [v]))"
proof -
  have l: "length (segs_bytes P) + 2 + 2 * length W = length d" using d by simp
  have "mem_put (d @ [0, 0]) (length d) (be16 v) = Some (d @ be16 v)" by (simp add: mem_put_def)
  moreover have "mem_write (d @ be16 v) (length (segs_bytes P) + 1) (of_nat (length W) + 1)
      = Some (segs_bytes P @ seg_bytes (AS_SET, W @ [v]))"
    by (simp add: mem_write_def d seg_bytes_def list_update_append add.commute)
  ultimately show ?thesis unfolding l by simp
qed

lemma as_set_add_run:
  assumes rep: "agg_rep P W s" and w: "length (set_ins v W) < 256"
  shows "\<exists>s'. aspath_aggregate_as_set_add s v = Some s' \<and> agg_rep P (set_ins v W) s'"
proof -
  obtain a as where s: "s = (a, as)" by fastforce
  have den: "denotes a (P @ set_seg W)" "as = (if W = [] then None else Some (length (segs_bytes P)))"
    using rep by (simp_all add: agg_rep_def s)
  show ?thesis
  proof (cases "W = []")
    case True
    then show ?thesis using den
      by (cases "P = []") (auto simp: s aspath_aggregate_as_set_add_def agg_rep_def denotes_def set_seg_def set_ins_def seg_bytes_def)
  next
    case False
    let ?A = "segs_bytes P"
    have d: "data_of a = ?A @ seg_bytes (AS_SET, W)" "data_of a = ?A @ seg_bytes (AS_SET, W) @ []" "length W < 256" "segs_ok P"
      "as_length a = length (data_of a)"
      using denotes_data [OF den(1)] den(1) False by (simp_all add: set_seg_def denotes_def)
    have n: "seg_length (data_of a) (length ?A) = Some (of_nat (length W))" using seg_reads(2) [OF d(2)] by simp
    have ex: "asval_exists (data_of a) (length ?A) v [0..<length W] = Some (v \<in> set W)"
      using asval_exists_run [OF d(2), of "[0..<length W]" v] by (auto simp: in_set_conv_nth)
    show ?thesis
    proof (cases "v \<in> set W")
      case True
      then show ?thesis using rep n ex d(3) False den(2) by (simp add: s aspath_aggregate_as_set_add_def set_ins_def)
    next
      case new: False
      then have w': "length W < 255" using w by (simp add: set_ins_def)
      let ?d = "?A @ seg_bytes (AS_SET, W @ [v])"
      have "aspath_aggregate_as_set_add s v = Some (a\<lparr>as_data := Some ?d, as_length := as_length a + 2\<rparr>, as)"
        using set_add_bytes [OF d(1) w', of v] n ex d(3) new False den(2)
        by (auto simp: s aspath_aggregate_as_set_add_def Let_def split: bind_splits)
      moreover have "agg_rep P (set_ins v W) (a\<lparr>as_data := Some ?d, as_length := as_length a + 2\<rparr>, as)"
        using d(4,5) den(2) w' new False by (simp add: agg_rep_def denotes_def set_seg_def set_ins_def d(1))
      ultimately show ?thesis by blast
    qed
  qed
qed

lemma as_set_adds_run:
  assumes "agg_rep P W s" "length (fold set_ins vs W) < 256"
  shows "\<exists>s'. foldM (\<lambda>v s. aspath_aggregate_as_set_add s v) vs s = Some s' \<and> agg_rep P (fold set_ins vs W) s'"
  using assms
proof (induction vs arbitrary: W s)
  case (Cons v vs)
  have "length (set_ins v W) < 256" using Cons.prems(2) fold_set_ins_mono [of "set_ins v W" vs] by simp
  then obtain s1 where "aspath_aggregate_as_set_add s v = Some s1" "agg_rep P (set_ins v W) s1"
    using as_set_add_run [OF Cons.prems(1)] by blast
  then show ?case using Cons.IH [of "set_ins v W" s1] Cons.prems(2) by simp
qed simp

subsection \<open>The loops\<close>

lemma foldM_map: "foldM f (map h xs) s = foldM (\<lambda>x s. f (h x) s) xs s"
  by (induction xs arbitrary: s) (simp_all split: bind_split)

lemma set_rest_seg:
  assumes d: "d = A @ seg_bytes s @ R" and l: "length (snd s) < 256"
  shows "set_rest d (length A) (m, st) = do { st \<leftarrow> foldM (\<lambda>v s. aspath_aggregate_as_set_add s v) (drop m (snd s)) st; Some (0, st) }"
proof -
  have e: "drop m (snd s) = map ((!) (snd s)) [m..<length (snd s)]"
    by (rule nth_equalityI) (simp_all add: nth_append)
  have "foldM (\<lambda>i st. do { v \<leftarrow> seg_asval d (length A) i; aspath_aggregate_as_set_add st v }) [m..<length (snd s)] st
      = foldM (\<lambda>v s. aspath_aggregate_as_set_add s v) (drop m (snd s)) st"
    unfolding e foldM_map by (rule foldM_cong) (simp add: seg_reads(3) [OF d])
  then show ?thesis using l by (simp add: set_rest_def seg_reads(2) [OF d])
qed

lemma set_rest_walk:
  assumes "d = A @ segs_bytes S" "segs_ok S"
  shows "seg_walk (set_rest d) d (length d) (length A) (m, st)
    = do { st \<leftarrow> foldM (\<lambda>v s. aspath_aggregate_as_set_add s v) (rest_as m S) st; Some (if S = [] then m else 0, st) }"
proof -
  let ?g = "\<lambda>s x. do { st \<leftarrow> foldM (\<lambda>v s. aspath_aggregate_as_set_add s v) (drop (fst x) (snd s)) (snd x); Some (0, st) }"
  have l: "length (snd s) < 256" if "s \<in> set S" for s using assms(2) that by (simp add: segs_ok_def)
  have "seg_walk (set_rest d) d (length d) (length A) (m, st) = foldM ?g S (m, st)"
    by (rule seg_walk_segs [where R = "[]"]) (use assms l set_rest_seg in \<open>auto simp: split_paired_all\<close>)
  also have "foldM ?g S (m, st) = do { st \<leftarrow> foldM (\<lambda>v s. aspath_aggregate_as_set_add s v) (rest_as m S) st; Some (if S = [] then m else 0, st) }"
  proof (induction S arbitrary: m st)
    case (Cons s S)
    have r: "rest_as m (s # S) = drop m (snd s) @ rest_as 0 S" by (cases S) (simp_all add: rest_as_def)
    show ?case by (cases "foldM (\<lambda>v s. aspath_aggregate_as_set_add s v) (drop m (snd s)) st") (simp_all add: r foldM_append Cons.IH)
  qed (simp add: rest_as_def)
  finally show ?thesis .
qed

lemma match_length_run:
  assumes d1: "d1 = A1 @ seg_bytes (t1, v1) @ R1" and d2: "d2 = A2 @ seg_bytes (t2, v2) @ R2"
    and k: "m + k = min (length v1) (length v2)"
  shows "match_length d1 (length A1) d2 (length A2) m k = Some (m + lcp (drop m v1) (drop m v2))"
  using k
proof (induction k arbitrary: m)
  case 0
  then have "drop m v1 = [] \<or> drop m v2 = []" by (auto simp: min_def split: if_splits)
  then show ?case by (cases "drop m v1") auto
next
  case (Suc k)
  then have m: "m < length v1" "m < length v2" by simp_all
  have e: "drop m v1 = v1 ! m # drop (Suc m) v1" "drop m v2 = v2 ! m # drop (Suc m) v2" using m by (simp_all add: Cons_nth_drop_Suc)
  show ?case using Suc.IH [of "Suc m"] Suc.prems m
    by (simp add: seg_reads(3) [OF d1] seg_reads(3) [OF d2] e)
qed

lemma segment_copy_run:
  assumes d: "d = A @ seg_bytes (t, vs) @ R" and a: "denotes a P" and k: "k \<le> length vs" "k < 256"
  shows "\<exists>a'. aspath_aggregate_segment_copy a d (length A) k = Some a' \<and> denotes a' (P @ [(t, take k vs)])"
proof -
  have "min (length vs) k = k" using k by simp
  then show ?thesis using a k seg_reads(1) [OF d] seg_reads(4) [OF d, of k]
    by (cases "P = []") (auto simp: aspath_aggregate_segment_copy_def denotes_def seg_bytes_def length_concat_be16)
qed

lemma common_loop_run:
  assumes "d1 = A1 @ segs_bytes S1" "d2 = A2 @ segs_bytes S2" "segs_ok S1" "segs_ok S2" "denotes a P0"
    and "common S1 S2 m = (P, R1, R2, m')"
  shows "\<exists>B1 B2 a'. common_loop d1 (length d1) d2 (length d2) (length A1) (length A2) m a = Some (length B1, length B2, m', a')
    \<and> denotes a' (P0 @ P) \<and> d1 = B1 @ segs_bytes R1 \<and> d2 = B2 @ segs_bytes R2 \<and> segs_ok R1 \<and> segs_ok R2"
  using assms
proof (induction S1 S2 m arbitrary: A1 A2 a P0 P rule: common.induct)
  case (1 t1 v1 S1 t2 v2 S2 m)
  have d: "d1 = A1 @ seg_bytes (t1, v1) @ segs_bytes S1" "d2 = A2 @ seg_bytes (t2, v2) @ segs_bytes S2" using 1(2,3) by simp_all
  have l: "length v1 < 256" "length v2 < 256" "length A1 < length d1" "length A2 < length d2" using 1(4,5) d by simp_all
  note rd = seg_reads(1,2) [OF d(1)] seg_reads(1,2) [OF d(2)]
  define k where "k = lcp v1 v2"
  have k: "k \<le> length v1" "k \<le> length v2" "k < 256" using lcp_le [of v1 v2] l by (simp_all add: k_def)
  have mn: "unat (min (of_nat (length v1)) (of_nat (length v2)) :: u8) = min (length v1) (length v2)"
    using l(1,2) by (simp add: min_def word_le_nat_alt)
  have ml: "match_length d1 (length A1) d2 (length A2) 0 (min (length v1) (length v2)) = Some k"
    using match_length_run [OF d, of 0 "min (length v1) (length v2)"] by (simp add: k_def)
  define P1 where "P1 = (if k \<noteq> 0 then [(t1, take k v1)] else [])"
  obtain a1 where a1: "(if k \<noteq> 0 then aspath_aggregate_segment_copy a d1 (length A1) k else Some a) = Some a1" "denotes a1 (P0 @ P1)"
  proof (cases "k = 0")
    case True
    then show ?thesis using that [of a] 1(6) by (simp add: P1_def)
  next
    case False
    then show ?thesis using that segment_copy_run [OF d(1) 1(6) k(1,3)] by (auto simp: P1_def)
  qed
  have eqn: "(of_nat (length v1) :: u8) \<noteq> of_nat (length v2) \<longleftrightarrow> length v1 \<noteq> length v2"
    using unat_count [OF l(1)] unat_count [OF l(2)] by metis
  have stop: "k \<noteq> min (length v1) (length v2) \<or> k \<noteq> length v1 \<or> length v1 \<noteq> length v2 \<longleftrightarrow> k \<noteq> length v1 \<or> length v1 \<noteq> length v2" by auto
  let ?n1 = "length A1 + (length v1 * 2 + 2)" and ?n2 = "length A2 + (length v2 * 2 + 2)"
  have run: "common_loop d1 (length d1) d2 (length d2) (length A1) (length A2) m a =
      (if t1 \<noteq> t2 then Some (length A1, length A2, m, a)
       else if k \<noteq> length v1 \<or> length v1 \<noteq> length v2 then Some (length A1, length A2, k, a1)
       else common_loop d1 (length d1) d2 (length d2) ?n1 ?n2 k a1)"
    using l(3,4) rd ml a1(1) unat_count [OF l(1)] unat_count [OF l(2)]
    by (subst common_loop.simps) (simp only: fst_conv snd_conv option.case prod.case mn Let_def eqn stop simp_thms if_True if_False)
  show ?case
  proof (cases "t1 \<noteq> t2 \<or> k \<noteq> length v1 \<or> length v1 \<noteq> length v2")
    case True
    let ?a = "if t1 \<noteq> t2 then a else a1"
    have c: "P = (if t1 \<noteq> t2 then [] else P1)" "R1 = (t1, v1) # S1" "R2 = (t2, v2) # S2" "m' = (if t1 \<noteq> t2 then m else k)"
      using 1(7) True by (cases "t1 = t2"; simp add: k_def P1_def Let_def del: neq_Nil_conv; force)+
    have "common_loop d1 (length d1) d2 (length d2) (length A1) (length A2) m a = Some (length A1, length A2, m', ?a)"
      unfolding run c(4) using True by auto
    moreover have "denotes ?a (P0 @ P)" using a1(2) 1(6) c(1) by simp
    moreover have "d1 = A1 @ segs_bytes R1" "d2 = A2 @ segs_bytes R2" "segs_ok R1" "segs_ok R2" unfolding c(2,3) using 1(2-5) by simp_all
    ultimately show ?thesis by blast
  next
    case False
    obtain P' where c: "common S1 S2 k = (P', R1, R2, m')" "P = P1 @ P'"
      using 1(7) False by (cases "common S1 S2 k") (auto simp: k_def P1_def Let_def)
    have f: "(t1 \<noteq> t2) = False" "(k \<noteq> length v1 \<or> length v1 \<noteq> length v2) = False" using False by blast+
    have g: "length A1 + (length v1 * 2 + 2) = length (A1 @ seg_bytes (t1, v1))" "length A2 + (length v2 * 2 + 2) = length (A2 @ seg_bytes (t2, v2))" by simp_all
    have ih: "\<exists>B1 B2 a'. common_loop d1 (length d1) d2 (length d2) (length (A1 @ seg_bytes (t1, v1))) (length (A2 @ seg_bytes (t2, v2))) k a1
        = Some (length B1, length B2, m', a')
      \<and> denotes a' ((P0 @ P1) @ P') \<and> d1 = B1 @ segs_bytes R1 \<and> d2 = B2 @ segs_bytes R2 \<and> segs_ok R1 \<and> segs_ok R2"
    proof (rule 1(1) [of k P1])
      show "\<not> t1 \<noteq> t2" "\<not> (k \<noteq> length v1 \<or> length v1 \<noteq> length v2)" using False by simp_all
    qed (use 1(4,5) d a1(2) c(1) k_def P1_def in simp_all)
    have "common_loop d1 (length d1) d2 (length d2) (length A1) (length A2) m a
        = common_loop d1 (length d1) d2 (length d2) (length (A1 @ seg_bytes (t1, v1))) (length (A2 @ seg_bytes (t2, v2))) k a1"
      unfolding run g [symmetric] f if_False ..
    then show ?thesis using ih by (simp only: c(2) append_assoc)
  qed
qed (subst common_loop.simps, force)+

lemma aspath_aggregate_run:
  assumes as1: "denotes as1 S1" and as2: "denotes as2 S2" and w: "length (agg_set S1 S2) < 256"
  shows "\<exists>a. aspath_aggregate as1 as2 = Some a \<and> denotes a (agg_path S1 S2)"
proof -
  let ?add = "foldM (\<lambda>v s. aspath_aggregate_as_set_add s v)"
  obtain P R1 R2 m where c: "common S1 S2 0 = (P, R1, R2, m)" by (cases "common S1 S2 0")
  have l: "as_length as1 = length (data_of as1)" "as_length as2 = length (data_of as2)"
    using as1 as2 denotes_data [OF as1] denotes_data [OF as2] by (simp_all add: denotes_def)
  have "denotes aspath_new []" by (simp add: denotes_def aspath_new_def)
  then obtain B1 B2 a1 where b: "common_loop (data_of as1) (as_length as1) (data_of as2) (as_length as2) 0 0 0 aspath_new = Some (length B1, length B2, m, a1)"
    "denotes a1 P" "data_of as1 = B1 @ segs_bytes R1" "data_of as2 = B2 @ segs_bytes R2" "segs_ok R1" "segs_ok R2"
    using common_loop_run [of "data_of as1" "[]" S1 "data_of as2" "[]" S2 aspath_new "[]" 0 P R1 R2 m] c as1 as2 denotes_data [OF as1] denotes_data [OF as2] l
    by (auto simp: denotes_def)
  let ?W1 = "fold set_ins (rest_as m R1) []"
  have set: "agg_set S1 S2 = fold set_ins (rest_as m R2) ?W1" by (simp add: agg_set_def c)
  have "agg_rep P [] (a1, None)" using b(2) by (simp add: agg_rep_def set_seg_def)
  then obtain s1 where s1: "?add (rest_as m R1) (a1, None) = Some s1" "agg_rep P ?W1 s1"
    using as_set_adds_run [of P "[]" "(a1, None)" "rest_as m R1"] w fold_set_ins_mono [of ?W1 "rest_as m R2"] unfolding set by fastforce
  then obtain s2 where s2: "?add (rest_as m R2) s1 = Some s2" "agg_rep P (agg_set S1 S2) s2"
    using as_set_adds_run [of P ?W1 s1 "rest_as m R2"] w unfolding set by blast
  have "aspath_aggregate as1 as2 = Some (fst s2)"
    using b(1) set_rest_walk [OF b(3,5), of m "(a1, None)"] set_rest_walk [OF b(4,6), of m s1] s1(1) s2(1)
    unfolding aspath_aggregate_def Let_def l by simp
  then show ?thesis using s2(2) c by (simp add: agg_rep_def agg_path_def)
qed

lemma all_as_set_seg [simp]: "all_as (set_seg W) = W"
  by (simp add: set_seg_def)

lemma common_refl: "segs_ok S \<Longrightarrow> fst (snd (common S S m)) = [] \<and> fst (snd (snd (common S S m))) = [] \<and> all_as (fst (common S S m)) = all_as S"
proof (induction S arbitrary: m)
  case (Cons s S)
  obtain t v where s: "s = (t, v)" by fastforce
  have "lcp v v = length v" for v :: "u16 list" by (induction v) simp_all
  then show ?case using Cons by (simp add: s Let_def)
qed simp

text \<open>No AS gets lost when the loop over the common part does not go beyond the first segments, or through both paths.\<close>

lemma agg_path_complete:
  assumes "segs_ok S1" "S1 = S2 \<or> S1 = [] \<or> S2 = [] \<or> hd S1 \<noteq> hd S2"
  shows "set (all_as (agg_path S1 S2)) = set (all_as S1) \<union> set (all_as S2)"
proof -
  consider "S1 = S2" | "S1 = [] \<or> S2 = []" | t1 v1 R1 t2 v2 R2 where "S1 = (t1, v1) # R1" "S2 = (t2, v2) # R2" "t1 \<noteq> t2 \<or> v1 \<noteq> v2"
    using assms(2) by (metis list.exhaust_sel surj_pair)
  then show ?thesis
  proof cases
    case 1
    then show ?thesis using common_refl [OF assms(1), of 0]
      by (cases "common S1 S1 0") (simp add: agg_path_def agg_set_def rest_as_def)
  next
    case 2
    then have "common S1 S2 0 = ([], S1, S2, 0)" by (cases S1) auto
    then show ?thesis using 2 by (cases S1; cases S2) (auto simp: agg_path_def agg_set_def rest_as_def fold_set_ins_set)
  next
    case 3
    have n: "lcp v1 v2 = length v1 \<Longrightarrow> length v1 = length v2 \<Longrightarrow> v1 = v2" using lcp_take [of v1 v2] by simp
    define k where "k = (if t1 \<noteq> t2 then 0 else lcp v1 v2)"
    have e: "take k v1 = take k v2" using lcp_take [of v1 v2] by (simp add: k_def)
    have "common S1 S2 0 = (if k \<noteq> 0 then [(t1, take k v1)] else [], S1, S2, k)"
      using 3 n by (auto simp: k_def Let_def)
    then have "set (all_as (agg_path S1 S2)) = set (take k v1) \<union> (set (drop k v1) \<union> set (all_as R1)) \<union> (set (drop k v2) \<union> set (all_as R2))"
      using 3 by (auto simp: agg_path_def agg_set_def rest_as_def fold_set_ins_set)
    moreover have "set v1 = set (take k v1) \<union> set (drop k v1)" "set v2 = set (take k v1) \<union> set (drop k v2)"
      unfolding e by (metis append_take_drop_id e set_append)+
    ultimately show ?thesis using 3 by auto
  qed
qed

text \<open>C21: Aggregation keeps every AS.  For two paths that are equal, or one of which is empty, or whose first segments differ,
  \<open>aspath_aggregate\<close> returns the common leading part followed by an AS_SET: an AS is in the aggregate exactly
  when it is in one of the two paths, so a router that finds itself in one of them also finds itself
  in the aggregate.  The set must fit its count byte.  Paths that share their first segment and differ later are excluded: there ASes can be lost.\<close>

theorem aspath_aggregate_correct:
  assumes "denotes as1 S1" "denotes as2 S2" "length (agg_set S1 S2) < 256"
    and "S1 = S2 \<or> S1 = [] \<or> S2 = [] \<or> hd S1 \<noteq> hd S2"
  shows "\<exists>a. aspath_aggregate as1 as2 = Some a \<and> denotes a (fst (common S1 S2 0) @ set_seg (agg_set S1 S2))
    \<and> (\<forall>x. \<exists>c c1 c2. aspath_loop_check (Some a) x = Some c \<and> aspath_loop_check (Some as1) x = Some c1 \<and> aspath_loop_check (Some as2) x = Some c2
         \<and> (c > 0 \<longleftrightarrow> c1 > 0 \<or> c2 > 0))"
proof -
  obtain a where a: "aspath_aggregate as1 as2 = Some a" "denotes a (agg_path S1 S2)" using aspath_aggregate_run [OF assms(1-3)] by blast
  have "set (all_as (agg_path S1 S2)) = set (all_as S1) \<union> set (all_as S2)"
    using agg_path_complete [OF _ assms(4)] assms(1) by (simp add: denotes_def)
  then have "int (count_list (all_as (agg_path S1 S2)) x) > 0 \<longleftrightarrow> int (count_list (all_as S1) x) > 0 \<or> int (count_list (all_as S2) x) > 0" for x
    by (simp add: count_list_0_iff zero_less_iff_neq_zero)
  then show ?thesis using a aspath_loop_check_count [OF a(2)] aspath_loop_check_count [OF assms(1)] aspath_loop_check_count [OF assms(2)]
    by (auto simp: agg_path_def)
qed

theorem aspath_aggregate_correct_witness:
  "\<exists>a c. aspath_aggregate (path_demo [(AS_SEQUENCE, [10, 20, 30])]) (path_demo [(AS_SEQUENCE, [10, 40])]) = Some a
    \<and> denotes a [(AS_SEQUENCE, [10]), (AS_SET, [20, 30, 40])] \<and> aspath_loop_check (Some a) 40 = Some c \<and> c > 0"
proof -
  let ?S1 = "[(AS_SEQUENCE, [10, 20, 30])]" and ?S2 = "[(AS_SEQUENCE, [10, 40])]"
  have c: "common ?S1 ?S2 0 = ([(AS_SEQUENCE, [10])], ?S1, ?S2, 1)" by simp
  have s: "agg_set ?S1 ?S2 = [20, 30, 40]" unfolding agg_set_def c by (simp add: rest_as_def set_ins_def)
  have d: "denotes (path_demo ?S1) ?S1" "denotes (path_demo ?S2) ?S2" by (simp_all add: path_demo_denotes)
  show ?thesis using aspath_aggregate_correct [OF d] aspath_loop_check_count [OF d(2), of 40] by (fastforce simp: c s set_seg_def)
qed

lemma fold_set_ins_length: "length (fold set_ins vs W) \<le> length W + length vs"
proof (induction vs arbitrary: W)
  case (Cons v vs)
  have "length (set_ins v W) \<le> Suc (length W)" by (simp add: set_ins_def)
  then show ?case using Cons [of "set_ins v W"] by simp
qed simp

text \<open>Aggregation that loses an AS.  When one path continues where the other one ends, the counter of matched AS numbers
  of the last common segment is still set while the loop collects the rest: it skips that many AS
  numbers of the next segment.  An AS at one of those positions is in the path but not in the aggregate,
  and its router does not detect the loop.\<close>

theorem aspath_aggregate_loses:
  assumes "denotes as1 [(t, u)]" "denotes as2 [(t, u), (t', w)]" "x \<in> set (take (length u) w)" "x \<notin> set u" "x \<notin> set (drop (length u) w)"
  shows "\<exists>a. aspath_aggregate as1 as2 = Some a \<and> aspath_loop_check (Some a) x = Some 0
    \<and> (\<exists>c. aspath_loop_check (Some as2) x = Some c \<and> c > 0)"
proof -
  let ?S1 = "[(t, u)]" and ?S2 = "[(t, u), (t', w)]"
  have "lcp u u = length u" by (induction u) simp_all
  moreover have "u \<noteq> []" using assms(3) by auto
  ultimately have c: "common ?S1 ?S2 0 = ([(t, u)], [], [(t', w)], length u)" by (simp add: Let_def)
  have s: "agg_set ?S1 ?S2 = fold set_ins (drop (length u) w) []" unfolding agg_set_def c by (simp add: rest_as_def)
  have "length w < 256" using assms(2) by (simp add: denotes_def)
  then have "length (agg_set ?S1 ?S2) < 256" unfolding s using fold_set_ins_length [of "drop (length u) w" "[]"] by simp
  then obtain a where a: "aspath_aggregate as1 as2 = Some a" "denotes a (agg_path ?S1 ?S2)" using aspath_aggregate_run [OF assms(1,2)] by blast
  have "x \<notin> set (all_as (agg_path ?S1 ?S2))" using assms(4,5) unfolding agg_path_def c s by (simp add: fold_set_ins_set)
  then have "aspath_loop_check (Some a) x = Some 0" using aspath_loop_check_count [OF a(2), of x] by (simp add: count_list_0_iff)
  moreover have "count_list (all_as ?S2) x > 0" using assms(3) by (auto simp: count_list_0_iff zero_less_iff_neq_zero dest: in_set_takeD)
  ultimately show ?thesis using a(1) aspath_loop_check_count [OF assms(2), of x] by auto
qed

theorem aspath_aggregate_loses_witness:
  "\<exists>a. aspath_aggregate (path_demo [(AS_SEQUENCE, [10, 20])]) (path_demo [(AS_SEQUENCE, [10, 20]), (AS_SET, [30, 40])]) = Some a
     \<and> aspath_loop_check (Some a) 30 = Some 0"
  using aspath_aggregate_loses [OF path_demo_denotes path_demo_denotes, of AS_SEQUENCE "[10, 20]" AS_SET "[30, 40]" 30] by auto

section \<open>Text that can be read back\<close>

lemma make_str_count_denotes:
  assumes "denotes a S" "segs_valid S"
  shows "aspath_make_str_count a = Some (Some (as_text S), a\<lparr>as_count := as_hops S\<rparr>)"
proof (cases "S = []")
  case True
  then show ?thesis using assms(1) by (simp add: denotes_def aspath_make_str_count_def as_hops_def)
next
  case False
  then have "data_of a = [] @ segs_bytes S" "as_length a = length (data_of a)" "as_length a \<noteq> 0"
    using assms(1) denotes_data [OF assms(1)] by (simp_all add: denotes_def)
  then show ?thesis using str_loop_valid [of "data_of a" "[]" S "[]" 32 AS_SEQUENCE False 0] assms(2)
    by (simp add: aspath_make_str_count_def ASPATH_STR_DEFAULT_LEN_def text_tail_start)
qed

lemma segment_add_denotes: "denotes a P \<Longrightarrow> denotes (aspath_segment_add a t) (P @ [(t, [])])"
  by (auto simp: denotes_def aspath_segment_add_def seg_bytes_def)

lemma last_segment_run:
  assumes "d = A @ segs_bytes S @ [x, y]" "segs_ok S" "S \<noteq> []"
  shows "last_segment d (length d) (length A) seg = Some (length (A @ segs_bytes (butlast S)))"
  using assms
proof (induction S arbitrary: A seg)
  case (Cons s S)
  have d: "d = A @ seg_bytes s @ (segs_bytes S @ [x, y])" "d = (A @ seg_bytes s) @ segs_bytes S @ [x, y]" using Cons.prems(1) by simp_all
  have e: "length A + (2 + unat (of_nat (length (snd s)) :: u8) * 2) = length (A @ seg_bytes s)" using Cons.prems(2) by simp
  have "length A + 2 < length d" using d(1) by simp
  then have "last_segment d (length d) (length A) seg = last_segment d (length d) (length (A @ seg_bytes s)) (length A)"
    by (subst last_segment.simps) (simp only: if_True seg_reads(2) [OF d(1)] option.case e)
  moreover have "last_segment d (length d) (length (A @ seg_bytes s)) (length A) = Some (length (A @ segs_bytes (butlast (s # S))))"
  proof (cases "S = []")
    case True
    then show ?thesis using d(2) by (subst last_segment.simps) simp
  next
    case False
    then show ?thesis using Cons.IH [OF d(2), of "length A"] Cons.prems(2) by simp
  qed
  ultimately show ?case by simp
qed simp

lemma as_add_denotes:
  assumes a: "denotes a (P @ [(t, vs)])" and n: "length vs < 255"
  shows "\<exists>a'. aspath_as_add a v = Some a' \<and> denotes a' (P @ [(t, vs @ [v])])"
proof -
  let ?A = "segs_bytes P" and ?d = "data_of a @ [0, 0]"
  have d: "data_of a = ?A @ seg_bytes (t, vs)" "as_length a = length (data_of a)" "segs_ok P"
    using a denotes_data [OF a] by (simp_all add: denotes_def)
  have "?d = [] @ segs_bytes (P @ [(t, vs)]) @ [0, 0]" using d(1) by simp
  from last_segment_run [OF this, of 0] have ls: "last_segment ?d (length ?d) 0 0 = Some (length ?A)" using d(3) n by simp
  have "?d = ?A @ seg_bytes (t, vs) @ [0, 0]" using d(1) by simp
  from seg_reads(2) [OF this] have sl: "seg_length ?d (length ?A) = Some (of_nat (length vs))" by simp
  have p: "mem_put ?d (length ?A + 2 + 2 * length vs) (be16 v) = Some (data_of a @ be16 v)" using d(1) by (simp add: mem_put_def)
  have w: "mem_write (data_of a @ be16 v) (length ?A + 1) (of_nat (length vs) + 1) = Some (?A @ seg_bytes (t, vs @ [v]))"
    using d(1) by (simp add: mem_write_def seg_bytes_def list_update_append add.commute)
  have "aspath_as_add a v = Some (a\<lparr>as_data := Some (?A @ seg_bytes (t, vs @ [v])), as_length := as_length a + 2\<rparr>)"
    using ls sl p w n d(2) by (simp add: aspath_as_add_def)
  then show ?thesis using d n by (simp add: denotes_def)
qed

lemma as_digits_run:
  "\<forall>c\<in>set s. is_digit c \<Longrightarrow> r = [] \<or> \<not> is_digit (hd r) \<Longrightarrow> as_digits (s @ r) v = (r, foldl (\<lambda>a c. a * 10 + of_nat (digit_val c)) v s)"
  by (induction s arbitrary: v) (cases r; auto)+

lemma foldl_digits_u16: "foldl (\<lambda>a c. a * 10 + of_nat (digit_val c)) (of_nat n :: u16) s = of_nat (foldl (\<lambda>acc c. 10 * acc + digit_val c) n s)"
proof (induction s arbitrary: n)
  case (Cons c s)
  have "(of_nat n :: u16) * 10 + of_nat (digit_val c) = of_nat (10 * n + digit_val c)" by simp
  then show ?case using Cons [of "10 * n + digit_val c"] by (simp only: foldl_Cons)
qed simp

lemma gettoken_dec:
  assumes "r = [] \<or> \<not> is_digit (hd r)"
  shows "aspath_gettoken (dec_str (unat v) @ r) = Some (r, as_token_asval v)"
proof -
  obtain c cs where s: "dec_str (unat v) = c # cs" using dec_str_nonempty [of "unat v"] by (cases "dec_str (unat v)") auto
  have all: "is_digit c" "\<forall>c\<in>set cs. is_digit c" using dec_str_digits [of "unat v"] by (simp_all add: s)
  have "digits_val (c # cs) = unat v" using digits_val_dec_str [of "unat v"] by (simp add: s)
  then have val: "as_digits (cs @ r) (of_nat (digit_val c)) = (r, v)"
    using as_digits_run [OF all(2) assms, of "of_nat (digit_val c)"] foldl_digits_u16 [of "digit_val c" cs] by (simp add: digits_val_def)
  have "\<not> is_space c" "c \<notin> {CHR ''{'', CHR ''}'', CHR ''('', CHR '')''}" using all(1) by (auto simp: is_digit_def is_space_def)
  then show ?thesis using all(1) val by (simp add: aspath_gettoken_def s)
qed

lemma str2as_space: "str2as_loop (CHR '' '' # s) t n a = str2as_loop s t n a"
  by (subst (1 2) str2as_loop.simps) (simp add: aspath_gettoken_def is_space_def)

lemma str2as_value:
  assumes "r = [] \<or> \<not> is_digit (hd r)" "denotes a (P @ [(t, vs)])" "length vs < 255"
  shows "\<exists>a'. denotes a' (P @ [(t, vs @ [v])]) \<and> str2as_loop (dec_str (unat v) @ r) ty False a = str2as_loop r ty False a'"
  using as_add_denotes [OF assms(2,3), of v] by (subst str2as_loop.simps) (auto simp: gettoken_dec [OF assms(1)])

lemma str2as_values:
  assumes "r = [] \<or> \<not> is_digit (hd r)" "denotes a (P @ [(t, ws)])" "length (ws @ vs) < 256"
  shows "\<exists>a'. denotes a' (P @ [(t, ws @ vs)]) \<and> str2as_loop (join_as CHR '' '' vs @ r) ty False a = str2as_loop r ty False a'"
  using assms
proof (induction "CHR '' ''" vs arbitrary: a ws rule: join_as.induct)
  case 1
  then show ?case by auto
next
  case (2 v)
  then show ?case using str2as_value [of r a P t ws v ty] by simp
next
  case (3 v w vs)
  let ?r = "[CHR '' ''] @ join_as CHR '' '' (w # vs) @ r"
  obtain a1 where a1: "denotes a1 (P @ [(t, ws @ [v])])" "str2as_loop (dec_str (unat v) @ ?r) ty False a = str2as_loop ?r ty False a1"
    using str2as_value [of ?r a P t ws v ty] 3(3,4) by (auto simp: is_digit_def)
  obtain a2 where "denotes a2 (P @ [(t, (ws @ [v]) @ w # vs)])" "str2as_loop (join_as CHR '' '' (w # vs) @ r) ty False a1 = str2as_loop r ty False a2"
    using 3(1) [OF 3(2) a1(1)] 3(4) by auto
  then show ?case using a1(2) by (auto simp: str2as_space)
qed

text \<open>The segments whose text the reader understands: sequences, confederation sequences and sets with one member.  A
  sequence is not empty and does not follow a sequence, from which the text does not separate it.\<close>

definition seg_readable :: "segment \<Rightarrow> bool" where
  "seg_readable s \<longleftrightarrow> length (snd s) < 256 \<and> (fst s = AS_SEQUENCE \<and> snd s \<noteq> [] \<or> fst s = AS_CONFED_SEQUENCE \<or> fst s = AS_SET \<and> length (snd s) \<le> 1)"

fun segs_readable :: "segment list \<Rightarrow> bool" where
  "segs_readable [] = True"
| "segs_readable [s] = seg_readable s"
| "segs_readable (s # s' # S) \<longleftrightarrow> seg_readable s \<and> \<not> (fst s = AS_SEQUENCE \<and> fst s' = AS_SEQUENCE) \<and> segs_readable (s' # S)"

lemma segs_readableD: "segs_readable (s # S) \<Longrightarrow> seg_readable s \<and> segs_readable S \<and> (fst s = AS_SEQUENCE \<longrightarrow> S = [] \<or> fst (hd S) \<noteq> AS_SEQUENCE)"
  by (cases S) auto

lemma segs_readable_valid: "segs_readable S \<Longrightarrow> segs_valid S"
proof (induction S)
  case (Cons s S)
  then show ?case using segs_readableD [of s S] by (auto simp: segs_valid_def seg_readable_def valid_type_def)
qed (simp add: segs_valid_def)

lemma as_text_Cons: "as_text (s # S) = seg_text s @ (if S \<noteq> [] \<and> snd s \<noteq> [] then '' '' else []) @ as_text S"
  by (cases S) auto

lemma type_codes [simp]: "AS_SET \<noteq> AS_SEQUENCE" "AS_CONFED_SEQUENCE \<noteq> AS_SEQUENCE" "AS_SET \<noteq> AS_CONFED_SEQUENCE" "AS_CONFED_SEQUENCE \<noteq> AS_CONFED_SET"
    "AS_SEQUENCE \<noteq> AS_CONFED_SET" "AS_SET \<noteq> AS_CONFED_SET" "AS_SEQUENCE \<noteq> AS_SET" "AS_SEQUENCE \<noteq> AS_CONFED_SEQUENCE"
    "AS_CONFED_SEQUENCE \<noteq> AS_SET" "AS_CONFED_SET \<noteq> AS_CONFED_SEQUENCE" "AS_CONFED_SET \<noteq> AS_SEQUENCE" "AS_CONFED_SET \<noteq> AS_SET"
  by (simp_all add: AS_SET_def AS_SEQUENCE_def AS_CONFED_SEQUENCE_def AS_CONFED_SET_def)

lemma str2as_brackets:
  "str2as_loop (CHR ''{'' # s) ty n a = str2as_loop s AS_SET False (aspath_segment_add a AS_SET)"
  "str2as_loop (CHR ''('' # s) ty n a = str2as_loop s AS_CONFED_SEQUENCE False (aspath_segment_add a AS_CONFED_SEQUENCE)"
  "str2as_loop (CHR ''}'' # s) ty n a = str2as_loop s AS_SEQUENCE True a"
  "str2as_loop (CHR '')'' # s) ty n a = str2as_loop s AS_SEQUENCE True a"
  by (subst str2as_loop.simps, simp add: aspath_gettoken_def is_space_def)+

text \<open>Reading one segment, with the rest of the text still to come.\<close>

lemma str2as_segment:
  assumes s: "seg_readable s" and a: "denotes a P" and n: "fst s = AS_SEQUENCE \<longrightarrow> n" and r: "fst s = AS_SEQUENCE \<longrightarrow> r = [] \<or> \<not> is_digit (hd r)"
  shows "\<exists>a'. denotes a' (P @ [s]) \<and> str2as_loop (seg_text s @ r) AS_SEQUENCE n a = str2as_loop r AS_SEQUENCE (fst s \<noteq> AS_SEQUENCE) a'"
proof -
  obtain t vs where tv: "s = (t, vs)" by fastforce
  have l: "length vs < 256" using s by (simp add: seg_readable_def tv)
  have nd: "\<not> is_digit CHR '')''" "\<not> is_digit CHR ''}''" by (simp_all add: is_digit_def)
  consider "t = AS_SEQUENCE" "vs \<noteq> []" | "t = AS_CONFED_SEQUENCE" | "t = AS_SET" "length vs \<le> 1" using s by (auto simp: seg_readable_def tv)
  then show ?thesis
  proof cases
    case 1
    then obtain v ws where vs: "vs = v # ws" by (cases vs) auto
    let ?r = "(if ws = [] then [] else '' '') @ join_as CHR '' '' ws @ r"
    have r: "r = [] \<or> \<not> is_digit (hd r)" using r 1 tv by simp
    have j: "join_as CHR '' '' vs @ r = dec_str (unat v) @ ?r" by (cases ws) (simp_all add: vs)
    have ?thesis if x: "?r = [] \<or> \<not> is_digit (hd ?r)"
    proof -
      obtain a1 where a1: "aspath_as_add (aspath_segment_add a AS_SEQUENCE) v = Some a1" "denotes a1 (P @ [(AS_SEQUENCE, [v])])"
        using as_add_denotes [OF segment_add_denotes [OF a], of AS_SEQUENCE v] by auto
      have "str2as_loop (dec_str (unat v) @ ?r) AS_SEQUENCE True a = str2as_loop ?r AS_SEQUENCE False a1"
        by (subst str2as_loop.simps) (simp add: gettoken_dec [OF x] a1(1))
      also have "\<dots> = str2as_loop (join_as CHR '' '' ws @ r) AS_SEQUENCE False a1" by (simp add: str2as_space)
      finally have e: "str2as_loop (dec_str (unat v) @ ?r) AS_SEQUENCE True a = str2as_loop (join_as CHR '' '' ws @ r) AS_SEQUENCE False a1" .
      obtain a2 where "denotes a2 (P @ [(AS_SEQUENCE, [v] @ ws)])" "str2as_loop (join_as CHR '' '' ws @ r) AS_SEQUENCE False a1 = str2as_loop r AS_SEQUENCE False a2"
        using str2as_values [OF r a1(2), of ws AS_SEQUENCE] l vs by auto
      then show ?thesis using 1 n e j by (auto simp: tv vs seg_text_def seg_open_def seg_close_def seg_sep_def)
    qed
    then show ?thesis using r by (cases "ws = []") (auto simp: is_digit_def)
  next
    case 2
    obtain a1 where "denotes a1 (P @ [(t, vs)])"
      "str2as_loop (join_as CHR '' '' vs @ CHR '')'' # r) t False (aspath_segment_add a t) = str2as_loop (CHR '')'' # r) t False a1"
      using str2as_values [of "CHR '')'' # r" "aspath_segment_add a t" P t "[]" vs t] segment_add_denotes [OF a, of t] l nd by auto
    then show ?thesis using 2
      by (auto simp: tv seg_text_def seg_open_def seg_close_def seg_sep_def str2as_brackets)
  next
    case 3
    have j: "join_as CHR '','' vs = join_as CHR '' '' vs" using 3(2) by (cases vs) simp_all
    obtain a1 where "denotes a1 (P @ [(t, vs)])"
      "str2as_loop (join_as CHR '' '' vs @ CHR ''}'' # r) t False (aspath_segment_add a t) = str2as_loop (CHR ''}'' # r) t False a1"
      using str2as_values [of "CHR ''}'' # r" "aspath_segment_add a t" P t "[]" vs t] segment_add_denotes [OF a, of t] l nd by auto
    then show ?thesis using 3 j
      by (auto simp: tv seg_text_def seg_open_def seg_close_def seg_sep_def str2as_brackets)
  qed
qed

lemma str2as_segments:
  assumes "segs_readable S" "denotes a P" "n \<or> S = [] \<or> fst (hd S) \<noteq> AS_SEQUENCE" "r = [] \<or> \<not> is_digit (hd r)"
  shows "\<exists>a' n'. denotes a' (P @ S) \<and> str2as_loop (as_text S @ r) AS_SEQUENCE n a = str2as_loop r AS_SEQUENCE n' a'"
  using assms(1-3)
proof (induction S arbitrary: a P n)
  case (Cons s S)
  note s = segs_readableD [OF Cons.prems(1)]
  let ?r = "(if S \<noteq> [] \<and> snd s \<noteq> [] then '' '' else []) @ as_text S @ r"
  have nd: "fst s = AS_SEQUENCE \<longrightarrow> ?r = [] \<or> \<not> is_digit (hd ?r)" using s assms(4) by (auto simp: seg_readable_def is_digit_def)
  obtain a1 where a1: "denotes a1 (P @ [s])" "str2as_loop (seg_text s @ ?r) AS_SEQUENCE n a = str2as_loop ?r AS_SEQUENCE (fst s \<noteq> AS_SEQUENCE) a1"
    using str2as_segment [OF conjunct1 [OF s] Cons.prems(2) _ nd, of n] Cons.prems(3) by auto
  obtain a2 n' where "denotes a2 ((P @ [s]) @ S)" "str2as_loop (as_text S @ r) AS_SEQUENCE (fst s \<noteq> AS_SEQUENCE) a1 = str2as_loop r AS_SEQUENCE n' a2"
    using Cons.IH [OF _ a1(1), of "fst s \<noteq> AS_SEQUENCE"] s by auto
  then show ?case using a1(2) by (auto simp: as_text_Cons str2as_space)
qed auto

text \<open>C30: Text round trip.  \<open>aspath_str2aspath\<close> reads the text of a path back to the same path, with the same text and hop count, when its
  segments have fewer than 256 members, are non-empty sequences, confederation sequences or sets of at most one member, and no two sequences follow each other (they
  would be read as one).  It does not understand the commas \<open>aspath_make_str_count\<close> writes between the members of a set: the text of such a path
  followed by an AS_SET of two or more members is refused.\<close>

theorem aspath_text_roundtrip:
  assumes "segs_readable S"
  shows "(\<exists>a. aspath_str2aspath (as_text S) = Some (Some a) \<and> denotes a S \<and> as_str a = Some (as_text S) \<and> as_count a = as_hops S)
    \<and> aspath_str2aspath (as_text (S @ (AS_SET, v # w # vs) # R)) = Some None"
proof (intro conjI)
  have new: "denotes aspath_new []" by (simp add: denotes_def aspath_new_def)
  obtain a n where a: "denotes a S" "str2as_loop (as_text S) AS_SEQUENCE True aspath_new = str2as_loop [] AS_SEQUENCE n a"
    using str2as_segments [OF assms new, of True "[]"] by auto
  have "str2as_loop [] AS_SEQUENCE n a = Some (Some a)" by (subst str2as_loop.simps) (simp add: aspath_gettoken_def)
  then show "\<exists>a. aspath_str2aspath (as_text S) = Some (Some a) \<and> denotes a S \<and> as_str a = Some (as_text S) \<and> as_count a = as_hops S"
    using a make_str_count_denotes [OF a(1) segs_readable_valid [OF assms]] by (simp add: aspath_str2aspath_def denotes_def)
next
  have new: "denotes aspath_new []" by (simp add: denotes_def aspath_new_def)
  define q where "q = join_as CHR '','' (w # vs) @ seg_close AS_SET @ (if R \<noteq> [] then '' '' else []) @ as_text R"
  define r where "r = CHR ''{'' # dec_str (unat v) @ CHR '','' # q"
  have t: "as_text ((AS_SET, v # w # vs) # R) = r"
    by (simp add: r_def q_def as_text_Cons seg_text_def seg_open_def seg_sep_def)
  have sp: "as_text (S @ s # R) = as_text S @ (if S \<noteq> [] \<and> snd (last S) \<noteq> [] then '' '' else []) @ as_text (s # R)" for s
    by (induction S) (auto simp: as_text_Cons)
  define r' where "r' = (if S \<noteq> [] \<and> snd (last S) \<noteq> [] then '' '' else []) @ r"
  have "\<not> is_digit (hd r')" by (simp add: r'_def r_def is_digit_def)
  then obtain a n where a: "denotes a S" "str2as_loop (as_text S @ r') AS_SEQUENCE True aspath_new = str2as_loop r' AS_SEQUENCE n a"
    using str2as_segments [OF assms new, of True r'] by auto
  have "str2as_loop r' AS_SEQUENCE n a = str2as_loop (dec_str (unat v) @ CHR '','' # q) AS_SET False (aspath_segment_add a AS_SET)"
    by (simp add: r'_def r_def str2as_space str2as_brackets)
  also have "\<dots> = Some None"
  proof -
    obtain a' where "str2as_loop (dec_str (unat v) @ CHR '','' # q) AS_SET False (aspath_segment_add a AS_SET) = str2as_loop (CHR '','' # q) AS_SET False a'"
      using str2as_value [of "CHR '','' # q" "aspath_segment_add a AS_SET" S AS_SET "[]" v AS_SET] segment_add_denotes [OF a(1), of AS_SET]
      by (auto simp: is_digit_def)
    then show ?thesis by (subst (asm) (2) str2as_loop.simps) (simp add: aspath_gettoken_def is_space_def is_digit_def)
  qed
  finally show "aspath_str2aspath (as_text (S @ (AS_SET, v # w # vs) # R)) = Some None"
    using a(2) sp [of "(AS_SET, v # w # vs)"] t by (simp add: aspath_str2aspath_def r'_def)
qed

theorem aspath_text_roundtrip_witness:
  "(\<exists>a. aspath_str2aspath (as_text [(AS_CONFED_SEQUENCE, [10]), (AS_SEQUENCE, [20, 30])]) = Some (Some a) \<and> as_count a = 2)
   \<and> aspath_str2aspath (as_text [(AS_SEQUENCE, [20, 30]), (AS_SET, [1, 2])]) = Some None"
  using aspath_text_roundtrip [of "[(AS_CONFED_SEQUENCE, [10]), (AS_SEQUENCE, [20, 30])]"]
    aspath_text_roundtrip [of "[(AS_SEQUENCE, [20, 30])]" 1 2 "[]" "[]"]
  by (fastforce simp: seg_readable_def as_hops_def seg_hops_def)

section \<open>Other operations\<close>

text \<open>\<open>aspath_private_as_check\<close> tells whether all AS numbers of a path that is not empty are private.\<close>

lemma private_seg_run:
  assumes "d = A @ seg_bytes s @ R" "\<forall>i\<in>set is. i < length (snd s)"
  shows "private_seg d (length A) is = Some (\<forall>i\<in>set is. 64512 \<le> snd s ! i)"
  using assms(2)
proof (induction "is")
  case (Cons i "is")
  have "\<not> snd s ! i > BGP_PRIVATE_AS_MAX" using word_le_nat_alt [of "snd s ! i" BGP_PRIVATE_AS_MAX] unsigned_less [of "snd s ! i", where ?'a = nat]
    by (simp add: BGP_PRIVATE_AS_MAX_def)
  then show ?case using Cons seg_reads(3) [OF assms(1), of i] by (auto simp: BGP_PRIVATE_AS_MIN_def)
qed simp

lemma private_loop_run:
  assumes "d = A @ segs_bytes S" "segs_ok S"
  shows "private_loop d (length d) (length A) = Some (\<forall>v\<in>set (all_as S). 64512 \<le> v)"
  using assms
proof (induction S arbitrary: A)
  case (Cons s S)
  have d: "d = A @ seg_bytes s @ segs_bytes S" "d = (A @ seg_bytes s) @ segs_bytes S" using Cons.prems(1) by simp_all
  have p: "private_seg d (length A) [0..<length (snd s)] = Some (\<forall>v\<in>set (snd s). 64512 \<le> v)"
    using private_seg_run [OF d(1), of "[0..<length (snd s)]"] by (auto simp: all_set_conv_all_nth)
  have e: "length A + (unat (of_nat (length (snd s)) :: u8) * 2 + 2) = length (A @ seg_bytes s)" "length A < length d" using Cons.prems(2) d by simp_all
  have ih: "private_loop d (length d) (length (A @ seg_bytes s)) = Some (\<forall>v\<in>set (all_as S). 64512 \<le> v)" using Cons.IH [OF d(2)] Cons.prems(2) by simp
  have "private_loop d (length d) (length A) = (if \<forall>v\<in>set (snd s). 64512 \<le> v then private_loop d (length d) (length (A @ seg_bytes s)) else Some False)"
    using e p Cons.prems(2) by (subst private_loop.simps) (simp add: seg_reads(2) [OF d(1)] mult.commute [of _ 2] split: bool.split)
  then show ?case using ih by auto
qed (simp add: private_loop.simps)

lemma aspath_private_as_check_correct:
  assumes "denotes a S"
  shows "aspath_private_as_check (Some a) = Some (S \<noteq> [] \<and> (\<forall>v\<in>set (all_as S). 64512 \<le> v))"
  using private_loop_run [of "data_of a" "[]" S] assms denotes_data [OF assms]
  by (cases S) (auto simp: aspath_private_as_check_def denotes_def)

text \<open>\<open>aspath_delete_confed_seq\<close> removes the leading confederation sequences.\<close>

lemma delete_confed_run:
  assumes "segs_ok S" "S \<noteq> []"
  shows "delete_confed (segs_bytes S) = Some (let T = dropWhile (\<lambda>s. fst s = AS_CONFED_SEQUENCE) S in if T = [] then None else Some (segs_bytes T))"
  using assms
proof (induction S)
  case (Cons s S)
  have d: "segs_bytes (s # S) = [] @ seg_bytes s @ segs_bytes S" by simp
  note r = seg_reads(1,2) [OF d, simplified]
  have "unat (of_nat (length (snd s)) :: u8) * 2 + 2 = length (seg_bytes s)" using Cons.prems(1) by simp
  then show ?case using Cons r by (subst delete_confed.simps) (cases "S = []"; simp add: Let_def)
qed simp

lemma aspath_delete_confed_seq_correct:
  assumes "denotes a S"
  shows "\<exists>a'. aspath_delete_confed_seq (Some a) = Some (Some a') \<and> denotes a' (dropWhile (\<lambda>s. fst s = AS_CONFED_SEQUENCE) S)"
proof -
  have "segs_ok (dropWhile P S)" for P using assms by (auto simp: denotes_def segs_ok_def dest: set_dropWhileD)
  then show ?thesis using assms delete_confed_run [of S] by (cases "S = []") (auto simp: aspath_delete_confed_seq_def denotes_def Let_def)
qed

text \<open>\<open>aspath_cmp_left\<close> skips confederation segments without looking at the end of the path: it reads behind a path that has
  nothing else.\<close>

lemma skip_confed_run:
  assumes "segs_ok S"
  shows "skip_confed (A @ segs_bytes S) (length A) = (case dropWhile (\<lambda>s. snd s \<noteq> [] \<and> (fst s = AS_CONFED_SEQUENCE \<or> fst s = AS_CONFED_SET)) S of
      [] \<Rightarrow> None | s # T \<Rightarrow> Some (length A + (length (segs_bytes S) - length (segs_bytes (s # T)))))"
  using assms
proof (induction S arbitrary: A)
  case Nil
  then show ?case by (simp add: skip_confed.simps)
next
  case (Cons s S)
  let ?P = "\<lambda>s. snd s \<noteq> [] \<and> (fst s = AS_CONFED_SEQUENCE \<or> fst s = AS_CONFED_SET)"
  let ?d = "A @ segs_bytes (s # S)"
  have d: "?d = A @ seg_bytes s @ segs_bytes S" "?d = (A @ seg_bytes s) @ segs_bytes S" by simp_all
  have r: "?d ! (length A + 1) = of_nat (length (snd s))" "?d ! length A = fst s" by (simp_all add: nth_append seg_bytes_def)
  have e: "length A + (unat (of_nat (length (snd s)) :: u8) * 2 + 2) = length (A @ seg_bytes s)" using Cons.prems by simp
  have z: "(of_nat (length (snd s)) :: u8) \<noteq> 0 \<longleftrightarrow> snd s \<noteq> []" using count_zero [of "length (snd s)"] Cons.prems by simp
  have run: "skip_confed ?d (length A) = (if ?P s then skip_confed ?d (length (A @ seg_bytes s)) else Some (length A))"
    by (subst skip_confed.simps) (simp only: r e z Let_def, simp)
  have tl: "length (segs_bytes (dropWhile ?P S)) \<le> length (segs_bytes S)"
    by (induction S) auto
  show ?case
  proof (cases "?P s")
    case True
    then have "skip_confed ?d (length A) = skip_confed ((A @ seg_bytes s) @ segs_bytes S) (length (A @ seg_bytes s))"
      unfolding run if_P [OF True] by (simp only: d(2))
    also have "\<dots> = (case dropWhile ?P S of [] \<Rightarrow> None | x # T \<Rightarrow> Some (length (A @ seg_bytes s) + (length (segs_bytes S) - length (segs_bytes (x # T)))))"
      using Cons.IH [of "A @ seg_bytes s"] Cons.prems by simp
    finally have run2: "skip_confed ?d (length A) = (case dropWhile ?P S of [] \<Rightarrow> None
      | x # T \<Rightarrow> Some (length (A @ seg_bytes s) + (length (segs_bytes S) - length (segs_bytes (x # T)))))" .
    obtain W where W: "dropWhile ?P S = W" "dropWhile ?P (s # S) = W" using True by simp
    show ?thesis using tl unfolding run2 W by (cases W) simp_all
  next
    case False
    have "dropWhile ?P (s # S) = s # S" using False by (auto simp del: dropWhile_eq_Cons_conv)
    then show ?thesis unfolding run if_not_P [OF False] by simp
  qed
qed

lemma aspath_cmp_left_overrun:
  assumes "denotes a S" "S \<noteq> []" "\<forall>s\<in>set S. snd s \<noteq> [] \<and> (fst s = AS_CONFED_SEQUENCE \<or> fst s = AS_CONFED_SET)"
  shows "aspath_cmp_left a b = None"
  using skip_confed_run [of S "[]"] assms by (simp add: aspath_cmp_left_def denotes_def dropWhile_eq_Nil_conv [THEN iffD2])

text \<open>\<open>aspath_prepend\<close> joins the two paths; sequences that meet become one.\<close>

definition join_paths :: "segment list \<Rightarrow> segment list \<Rightarrow> segment list" where
  "join_paths S1 S2 =
     (if fst (last S1) = AS_SEQUENCE \<and> fst (hd S2) = AS_SEQUENCE
      then butlast S1 @ [(AS_SEQUENCE, snd (last S1) @ snd (hd S2))] @ tl S2 else S1 @ S2)"

lemma last_walk:
  assumes "d = A @ segs_bytes S" "segs_ok S"
  shows "seg_walk (\<lambda>pnt _. Some (Some pnt)) d (length d) (length A) x = Some (if S = [] then x else Some (length (A @ segs_bytes (butlast S))))"
  using assms
proof (induction S arbitrary: A x)
  case (Cons s S)
  have d: "d = A @ seg_bytes s @ segs_bytes S" "d = (A @ seg_bytes s) @ segs_bytes S" using Cons.prems(1) by simp_all
  have e: "length A + (unat (of_nat (length (snd s)) :: u8) * 2 + 2) = length (A @ seg_bytes s)" "length A < length d" using Cons.prems(2) d by simp_all
  have "seg_walk (\<lambda>pnt _. Some (Some pnt)) d (length d) (length A) x = seg_walk (\<lambda>pnt _. Some (Some pnt)) d (length d) (length (A @ seg_bytes s)) (Some (length A))"
    using e(2) by (subst seg_walk.simps) (simp only: if_True option.case seg_reads(2) [OF d(1)] e(1))
  then show ?case using Cons.IH [OF d(2), of "Some (length A)"] Cons.prems(2) by simp
qed (simp add: seg_walk.simps)

lemma aspath_merge_run: "denotes as1 S1 \<Longrightarrow> denotes as2 S2 \<Longrightarrow> S2 \<noteq> [] \<Longrightarrow> \<exists>a. aspath_merge as1 as2 = Some a \<and> denotes a (S1 @ S2)"
  using denotes_data [of as1 S1] denotes_data [of as2 S2] by (auto simp: aspath_merge_def denotes_def mem_get_def)

lemma aspath_prepend_correct:
  assumes as1: "denotes as1 S1" and as2: "denotes as2 S2" and ne: "S1 \<noteq> []" "S2 \<noteq> []" and fit: "segs_ok (join_paths S1 S2)"
  shows "\<exists>a. aspath_prepend as1 as2 = Some a \<and> denotes a (join_paths S1 S2)"
proof -
  obtain P t1 v1 where S1: "S1 = P @ [(t1, v1)]" using ne(1) by (metis rev_exhaust surj_pair)
  obtain t2 v2 R where S2: "S2 = (t2, v2) # R" using ne(2) by (metis list.exhaust surj_pair)
  let ?d1 = "segs_bytes S1" and ?d2 = "segs_bytes S2" and ?A = "segs_bytes P"
  have d: "data_of as1 = ?d1" "as_length as1 = length ?d1" "as_data as2 = Some ?d2" "data_of as2 = ?d2" "as_length as2 = length ?d2"
    "segs_ok S1" "segs_ok S2"
    using as1 as2 ne denotes_data [OF as1] denotes_data [OF as2] by (simp_all add: denotes_def)
  have w: "seg_walk (\<lambda>pnt _. Some (Some pnt)) ?d1 (length ?d1) 0 None = Some (Some (length ?A))"
    using last_walk [of ?d1 "[]" S1 None] d(6) ne by (simp add: S1)
  have e1: "?d1 = ?A @ seg_bytes (t1, v1) @ []" and e2: "?d2 = [] @ seg_bytes (t2, v2) @ segs_bytes R" by (simp_all add: S1 S2)
  note r = seg_reads(1,2) [OF e1] seg_reads(1,2) [OF e2]
  show ?thesis
  proof (cases "t1 = AS_SEQUENCE \<and> t2 = AS_SEQUENCE")
    case True
    then have j: "join_paths S1 S2 = P @ (AS_SEQUENCE, v1 @ v2) # R" by (simp add: join_paths_def S1 S2)
    have g: "mem_get ?d2 2 (length ?d2 - 2) = Some (concat (map be16 v2) @ segs_bytes R)"
      by (subst mem_get_all) (simp_all add: S2 seg_bytes_def numeral_2_eq_2)
    have wr: "mem_write ?d1 (length ?A + 1) (of_nat (length v1) + of_nat (length v2))
        = Some (?A @ [t1, of_nat (length (v1 @ v2))] @ concat (map be16 v1))"
      by (simp add: S1 mem_write_def seg_bytes_def list_update_append)
    have "prepend_join as1 (length ?A) as2 = Some (as2\<lparr>as_data := Some (segs_bytes (join_paths S1 S2)),
        as_length := as_length as2 + (as_length as1 - 2), as_count := as_count as2 + as_count as1\<rparr>)"
      using r g wr d ne by (simp add: prepend_join_def mem_get_def j) (simp add: seg_bytes_def S2 True)
    then show ?thesis using w r True d fit by (simp add: aspath_prepend_def denotes_def j) (simp add: S1 S2)
  next
    case False
    then have "join_paths S1 S2 = S1 @ S2" by (auto simp: join_paths_def S1 S2)
    moreover have "aspath_prepend as1 as2 = aspath_merge as1 as2" using w r d False by (auto simp: aspath_prepend_def)
    ultimately show ?thesis using aspath_merge_run [OF as1 as2 ne(2)] by simp
  qed
qed

end
