(* ===== verification/Lib_Prefix.thy ===== *)
theory Lib_Prefix
  imports Zebra_Prelude
begin

text \<open>
  The address prefixes of \<open>lib/prefix.c\<close>.  The union \<open>u\<close> of \<open>struct prefix\<close> is the
  memory block that starts at \<open>&p->u.prefix\<close>: at least its sixteen bytes, and whatever
  memory follows them, so that a result that does not depend on the bytes behind the union is
  proved for every content of them.  The abstract value of a prefix is the bit string
  \<open>pfx_bits\<close> of its first \<open>prefixlen\<close> bits; matching is the prefix order on bit strings.
  The build has \<open>HAVE_IPV6\<close>.
\<close>

section \<open>Definitions\<close>

record prefix =
  family :: u8
  prefixlen :: u8
  u_prefix :: "u8 list"

abbreviation plen :: "prefix \<Rightarrow> nat" where
  "plen p \<equiv> unat (prefixlen p)"

definition AF_UNSPEC :: u8 where "AF_UNSPEC = 0"
definition AF_INET :: u8 where "AF_INET = 2"
definition AF_INET6 :: u8 where "AF_INET6 = 10"
definition AFI_IP :: int where "AFI_IP = 1"
definition AFI_IP6 :: int where "AFI_IP6 = 2"

lemmas af_defs = AF_UNSPEC_def AF_INET_def AF_INET6_def

definition maskbit :: "u8 list" where
  "maskbit = [0x00, 0x80, 0xc0, 0xe0, 0xf0, 0xf8, 0xfc, 0xfe, 0xff]"

definition afi2family :: "int \<Rightarrow> u8" where
  "afi2family afi =
     (if afi = AFI_IP then AF_INET else if afi = AFI_IP6 then AF_INET6 else 0)"

definition family2afi :: "u8 \<Rightarrow> int" where
  "family2afi fam =
     (if fam = AF_INET then AFI_IP else if fam = AF_INET6 then AFI_IP6 else 0)"

text \<open>The loop \<open>while (offset--) if (np[offset] != pp[offset]) return\<close>.\<close>

fun bytes_equal_down :: "nat \<Rightarrow> u8 list \<Rightarrow> u8 list \<Rightarrow> bool" where
  "bytes_equal_down 0 np pp = True"
| "bytes_equal_down (Suc offset) np pp =
     (if byte_at np offset \<noteq> byte_at pp offset then False
      else bytes_equal_down offset np pp)"

definition prefix_match :: "prefix \<Rightarrow> prefix \<Rightarrow> bool" where
  "prefix_match n p =
     (if prefixlen n > prefixlen p then False
      else let offset = plen n div 8; shift = plen n mod 8 in
        if shift \<noteq> 0 \<and> maskbit ! shift AND (byte_at (u_prefix n) offset XOR byte_at (u_prefix p) offset) \<noteq> 0
        then False
        else bytes_equal_down offset (u_prefix n) (u_prefix p))"

definition prefix_copy :: "prefix \<Rightarrow> prefix \<Rightarrow> prefix option" where
  "prefix_copy dest src =
     (let d = dest\<lparr>family := family src, prefixlen := prefixlen src\<rparr> in
      if family src = AF_INET then Some (d\<lparr>u_prefix := take 4 (u_prefix src) @ drop 4 (u_prefix dest)\<rparr>)
      else if family src = AF_INET6 then Some (d\<lparr>u_prefix := take 16 (u_prefix src) @ drop 16 (u_prefix dest)\<rparr>)
      else if family src = AF_UNSPEC then Some (d\<lparr>u_prefix := take 8 (u_prefix src) @ drop 8 (u_prefix dest)\<rparr>)
      else None)"

definition prefix_same :: "prefix \<Rightarrow> prefix \<Rightarrow> bool" where
  "prefix_same p1 p2 =
     (if family p1 = family p2 \<and> prefixlen p1 = prefixlen p2
      then if family p1 = AF_INET \<and> take 4 (u_prefix p1) = take 4 (u_prefix p2) then True
           else if family p1 = AF_INET6 \<and> take 16 (u_prefix p1) = take 16 (u_prefix p2) then True
           else False
      else False)"

definition prefix_cmp :: "prefix \<Rightarrow> prefix \<Rightarrow> int" where
  "prefix_cmp p1 p2 =
     (if family p1 \<noteq> family p2 \<or> prefixlen p1 \<noteq> prefixlen p2 then 1
      else let offset = plen p1 div 8; shift = plen p1 mod 8 in
        if shift \<noteq> 0 \<and> maskbit ! shift AND (byte_at (u_prefix p1) offset XOR byte_at (u_prefix p2) offset) \<noteq> 0
        then 1
        else if bytes_equal_down offset (u_prefix p1) (u_prefix p2) then 0 else 1)"

definition prefix_family_str :: "prefix \<Rightarrow> string" where
  "prefix_family_str p =
     (if family p = AF_INET then ''inet''
      else if family p = AF_INET6 then ''inet6'' else ''unspec'')"

definition prefix_new :: prefix where
  "prefix_new = \<lparr>family = 0, prefixlen = 0, u_prefix = replicate 16 0\<rparr>"

definition prefix_ipv4_new :: prefix where
  "prefix_ipv4_new = prefix_new\<lparr>family := AF_INET\<rparr>"

definition prefix_ipv6_new :: prefix where
  "prefix_ipv6_new = prefix_new\<lparr>family := AF_INET6\<rparr>"

subsection \<open>Masks\<close>

text \<open>
  \<open>masklen2ip\<close> and \<open>masklen2ip6\<close> fill a zeroed block of 4 (16) bytes: \<open>offset\<close> bytes
  \<open>0xff\<close>, then \<open>maskbit[bit]\<close> when \<open>bit\<close> is not 0.  A mask length past the block writes
  outside it.
\<close>

definition masklen2bytes :: "nat \<Rightarrow> nat \<Rightarrow> u8 list option" where
  "masklen2bytes sz masklen =
     (let offset = masklen div 8; bt = masklen mod 8 in do {
        m \<leftarrow> mem_put (replicate sz 0) 0 (replicate offset 0xff);
        if bt \<noteq> 0 then mem_write m offset (maskbit ! bt) else Some m
      })"

definition masklen2ip :: "nat \<Rightarrow> u8 list option" where
  "masklen2ip masklen = masklen2bytes 4 masklen"

definition masklen2ip6 :: "nat \<Rightarrow> u8 list option" where
  "masklen2ip6 masklen = masklen2bytes 16 masklen"

lemma push_bit_card_less:
  assumes nz: "(val :: u8) \<noteq> 0"
  shows "card {n. n < 8 \<and> push_bit n (val * 2) \<noteq> 0}
       < card {n. n < 8 \<and> push_bit n val \<noteq> 0}" (is "card ?A < card ?B")
proof -
  have z: "push_bit 8 val = 0" by (rule bit_word_eqI) (simp add: bit_simps)
  have shift: "push_bit n (val * 2) = push_bit (Suc n) val" for n
    by (rule push_bit_Suc [symmetric])
  have "Suc n \<noteq> 8" if "push_bit n (val * 2) \<noteq> 0" for n
    using that z shift [of n] by metis
  then have "Suc n < 8" if "n < 8" "push_bit n (val * 2) \<noteq> 0" for n
    using that by (simp add: nat_less_le)
  then have "Suc ` ?A \<subseteq> ?B" by auto
  moreover have "0 \<in> ?B" using nz by simp
  ultimately have "Suc ` ?A \<subset> ?B" by blast
  then have "card (Suc ` ?A) < card ?B" by (rule psubset_card_mono [rotated]) simp
  then show ?thesis by (simp add: card_image)
qed

text \<open>The loop \<open>while (val) { len++; val <<= 1; }\<close>, entered with an 8-bit value.\<close>

function shift_count :: "u8 \<Rightarrow> nat \<Rightarrow> nat" where
  "shift_count val len = (if val \<noteq> 0 then shift_count (push_bit 1 val) (Suc len) else len)"
  by pat_completeness auto
termination
  by (relation "measure (\<lambda>(val, len). card {n. n < 8 \<and> push_bit n val \<noteq> 0})")
    (auto simp: push_bit_card_less)

declare shift_count.simps [simp del]

text \<open>
  The loop over the leading \<open>0xff\<close> bytes of the mask.  The source tests the byte before the
  bound, so after four (sixteen) such bytes it reads the byte behind the mask; the list
  \<open>m\<close> is the memory from the mask on.
\<close>

fun ff_bytes :: "nat \<Rightarrow> u8 list \<Rightarrow> nat \<Rightarrow> nat" where
  "ff_bytes 0 m i = i"
| "ff_bytes (Suc k) m i = (if byte_at m i = 0xff then ff_bytes k m (Suc i) else i)"

definition ip_masklen :: "u8 list \<Rightarrow> nat" where
  "ip_masklen netmask =
     (let i = ff_bytes 4 netmask 0 in
      if i < 4 then shift_count (byte_at netmask i) (8 * i) else 8 * i)"

definition ip6_masklen :: "u8 list \<Rightarrow> nat" where
  "ip6_masklen netmask =
     (let i = ff_bytes 16 netmask 0 in
      if 8 * i < 128 then shift_count (byte_at netmask i) (8 * i) else 8 * i)"

text \<open>\<open>pnt[index] &= maskbit[offset]\<close> and the bytes behind set to 0, in a block of
  \<open>sz\<close> bytes.\<close>

definition mask_bytes :: "nat \<Rightarrow> nat \<Rightarrow> u8 list \<Rightarrow> u8 list" where
  "mask_bytes sz len m =
     (let index = len div 8; offset = len mod 8 in
      if index < sz
      then take index m @ [byte_at m index AND maskbit ! offset]
             @ replicate (sz - Suc index) 0 @ drop sz m
      else m)"

definition apply_mask_ipv4 :: "prefix \<Rightarrow> prefix" where
  "apply_mask_ipv4 p = p\<lparr>u_prefix := mask_bytes 4 (plen p) (u_prefix p)\<rparr>"

definition apply_mask_ipv6 :: "prefix \<Rightarrow> prefix" where
  "apply_mask_ipv6 p = p\<lparr>u_prefix := mask_bytes 16 (plen p) (u_prefix p)\<rparr>"

definition apply_mask :: "prefix \<Rightarrow> prefix" where
  "apply_mask p =
     (if family p = AF_INET then apply_mask_ipv4 p
      else if family p = AF_INET6 then apply_mask_ipv6 p else p)"

definition prefix_ipv4_any :: "prefix \<Rightarrow> bool" where
  "prefix_ipv4_any p \<longleftrightarrow> take 4 (u_prefix p) = [0, 0, 0, 0] \<and> prefixlen p = 0"

definition prefix_blen :: "prefix \<Rightarrow> nat" where
  "prefix_blen p =
     (if family p = AF_INET then 4 else if family p = AF_INET6 then 16 else 0)"

text \<open>\<open>ntohl\<close> of the first four bytes, and the address classes of \<open>netinet/in.h\<close>.\<close>

definition ntohl :: "u8 list \<Rightarrow> u32" where
  "ntohl m = push_bit 24 (ucast (byte_at m 0)) OR push_bit 16 (ucast (byte_at m 1))
             OR push_bit 8 (ucast (byte_at m 2)) OR ucast (byte_at m 3)"

definition IN_CLASSA :: "u32 \<Rightarrow> bool" where "IN_CLASSA a \<longleftrightarrow> a AND 0x80000000 = 0"
definition IN_CLASSB :: "u32 \<Rightarrow> bool" where "IN_CLASSB a \<longleftrightarrow> a AND 0xc0000000 = 0x80000000"
definition IN_CLASSC :: "u32 \<Rightarrow> bool" where "IN_CLASSC a \<longleftrightarrow> a AND 0xe0000000 = 0xc0000000"

definition apply_classful_mask_ipv4 :: "prefix \<Rightarrow> prefix" where
  "apply_classful_mask_ipv4 p =
     (let destination = ntohl (u_prefix p) in
      if prefixlen p = 32 then p
      else if IN_CLASSC destination then apply_mask_ipv4 (p\<lparr>prefixlen := 24\<rparr>)
      else if IN_CLASSB destination then apply_mask_ipv4 (p\<lparr>prefixlen := 16\<rparr>)
      else apply_mask_ipv4 (p\<lparr>prefixlen := 8\<rparr>))"

subsection \<open>Text\<close>

text \<open>
  \<open>inet_aton\<close>, \<open>inet_pton (AF_INET6, ...)\<close> and \<open>inet_ntop\<close> of the system library are
  parameters: the text to the address bytes (\<^term>\<open>None\<close> when it is not an address), and the
  bytes to the text.  The result is the return value and the prefix as the call leaves it.
\<close>

definition split_slash :: "string \<Rightarrow> string \<times> string option" where
  "split_slash s =
     (let h = takeWhile (\<lambda>c. c \<noteq> CHR ''/'') s; r = dropWhile (\<lambda>c. c \<noteq> CHR ''/'') s
      in (h, if r = [] then None else Some (tl r)))"

definition set_addr :: "nat \<Rightarrow> u8 list \<Rightarrow> prefix \<Rightarrow> prefix" where
  "set_addr n a p = p\<lparr>u_prefix := take n a @ drop n (u_prefix p)\<rparr>"

definition u_char_of :: "int \<Rightarrow> u8" where
  "u_char_of i = word_of_int i"

definition str2prefix_ipv4 ::
  "(string \<Rightarrow> u8 list option) \<Rightarrow> string \<Rightarrow> prefix \<Rightarrow> int \<times> prefix" where
  "str2prefix_ipv4 inet_aton str p =
     (case split_slash str of
        (_, None) \<Rightarrow>
          (case inet_aton str of
             None \<Rightarrow> (0, p)
           | Some a \<Rightarrow> (1, (set_addr 4 a p)\<lparr>family := AF_INET, prefixlen := 32\<rparr>))
      | (cp, Some rest) \<Rightarrow>
          (let (ret, p1) = (case inet_aton cp of
                              None \<Rightarrow> (0, p) | Some a \<Rightarrow> (1, set_addr 4 a p));
               pl = u_char_of (atoi rest)
           in if pl > 32 then (0, p1)
              else (ret, p1\<lparr>family := AF_INET, prefixlen := pl\<rparr>)))"

definition str2prefix_ipv6 ::
  "(string \<Rightarrow> u8 list option) \<Rightarrow> string \<Rightarrow> prefix \<Rightarrow> int \<times> prefix" where
  "str2prefix_ipv6 inet_pton6 str p =
     (case split_slash str of
        (_, None) \<Rightarrow>
          (case inet_pton6 str of
             None \<Rightarrow> (0, p)
           | Some a \<Rightarrow> (1, (set_addr 16 a p)\<lparr>family := AF_INET6, prefixlen := 128\<rparr>))
      | (cp, Some rest) \<Rightarrow>
          (case inet_pton6 cp of
             None \<Rightarrow> (0, p)
           | Some a \<Rightarrow>
               (let pl = u_char_of (atoi rest); p1 = set_addr 16 a p in
                if pl > 128 then (0, p1)
                else (1, p1\<lparr>family := AF_INET6, prefixlen := pl\<rparr>))))"

definition str2prefix ::
  "(string \<Rightarrow> u8 list option) \<Rightarrow> (string \<Rightarrow> u8 list option) \<Rightarrow> string \<Rightarrow> prefix
     \<Rightarrow> int \<times> prefix" where
  "str2prefix inet_aton inet_pton6 str p =
     (let (ret, p1) = str2prefix_ipv4 inet_aton str p in
      if ret \<noteq> 0 then (ret, p1)
      else let (ret, p2) = str2prefix_ipv6 inet_pton6 str p1 in
        if ret \<noteq> 0 then (ret, p2) else (0, p2))"

definition prefix2str :: "(u8 \<Rightarrow> u8 list \<Rightarrow> string) \<Rightarrow> prefix \<Rightarrow> nat \<Rightarrow> string" where
  "prefix2str inet_ntop p sz =
     take (sz - 1) (inet_ntop (family p) (u_prefix p) @ ''/'' @ dec_str (plen p))"

fun all_digit :: "string \<Rightarrow> bool" where
  "all_digit [] = True"
| "all_digit (c # cs) = (if \<not> is_digit c then False else all_digit cs)"

definition netmask_str2prefix_str ::
  "(string \<Rightarrow> u8 list option) \<Rightarrow> string \<Rightarrow> string option \<Rightarrow> string option" where
  "netmask_str2prefix_str inet_aton net_str mask_str =
     (case inet_aton net_str of
        None \<Rightarrow> None
      | Some network \<Rightarrow>
          (case mask_str of
             Some ms \<Rightarrow>
               (case inet_aton ms of
                  None \<Rightarrow> None
                | Some msk \<Rightarrow> Some (net_str @ ''/'' @ dec_str (ip_masklen msk)))
           | None \<Rightarrow>
               (let destination = ntohl network in
                if take 4 network = [0, 0, 0, 0] then Some (net_str @ ''/'' @ dec_str 0)
                else if IN_CLASSC destination then Some (net_str @ ''/'' @ dec_str 24)
                else if IN_CLASSB destination then Some (net_str @ ''/'' @ dec_str 16)
                else if IN_CLASSA destination then Some (net_str @ ''/'' @ dec_str 8)
                else None)))"

text \<open>A \<open>union sockunion\<close>: the family and the two address views.\<close>

record sockunion =
  sa_family :: u8
  sin_addr :: "u8 list"
  sin6_addr :: "u8 list"

definition sockunion2prefix :: "sockunion \<Rightarrow> sockunion \<Rightarrow> prefix option" where
  "sockunion2prefix dest msk =
     (if sa_family dest = AF_INET
      then Some ((set_addr 4 (sin_addr dest) prefix_ipv4_new)
                   \<lparr>family := AF_INET, prefixlen := of_nat (ip_masklen (sin_addr msk))\<rparr>)
      else if sa_family dest = AF_INET6
      then Some ((set_addr 16 (sin6_addr dest) prefix_ipv6_new)
                   \<lparr>family := AF_INET6, prefixlen := of_nat (ip6_masklen (sin6_addr msk))\<rparr>)
      else None)"

definition sockunion2hostprefix :: "sockunion \<Rightarrow> prefix option" where
  "sockunion2hostprefix su =
     (if sa_family su = AF_INET
      then Some ((set_addr 4 (sin_addr su) prefix_ipv4_new)\<lparr>family := AF_INET, prefixlen := 32\<rparr>)
      else if sa_family su = AF_INET6
      then Some ((set_addr 16 (sin6_addr su) prefix_ipv6_new)
                   \<lparr>family := AF_INET6, prefixlen := 128\<rparr>)
      else None)"

section \<open>Abstract value and well-formedness\<close>

definition addr_bit :: "u8 list \<Rightarrow> nat \<Rightarrow> bool" where
  "addr_bit m i = bit (byte_at m (i div 8)) (7 - i mod 8)"

definition pfx_bits :: "prefix \<Rightarrow> bool list" where
  "pfx_bits p = map (addr_bit (u_prefix p)) [0..<plen p]"

definition prefix_wf :: "prefix \<Rightarrow> bool" where
  "prefix_wf p \<longleftrightarrow> 16 \<le> length (u_prefix p) \<and>
     (family p = AF_INET \<and> plen p \<le> 32 \<or> family p = AF_INET6 \<and> plen p \<le> 128)"

section \<open>Bits of masks and bytes\<close>

lemma maskbit_bit: "s < 9 \<Longrightarrow> k < 8 \<Longrightarrow> bit (maskbit ! s) k \<longleftrightarrow> 8 - s \<le> k"
proof -
  have "\<forall>s<9. \<forall>k<8. bit (maskbit ! s) k = (8 - s \<le> k)" by code_simp
  then show "s < 9 \<Longrightarrow> k < 8 \<Longrightarrow> ?thesis" by blast
qed

lemma byte_eq_iff: "(x :: u8) = y \<longleftrightarrow> (\<forall>j<8. bit x (7 - j) = bit y (7 - j))"
proof
  assume eq: "\<forall>j<8. bit x (7 - j) = bit y (7 - j)"
  show "x = y"
  proof (rule bit_word_eqI)
    fix k assume "k < LENGTH(8)"
    then show "bit x k = bit y k" using eq [rule_format, of "7 - k"] by simp
  qed
qed simp

lemma masked_zero_iff:
  assumes "s < 9"
  shows "maskbit ! s AND z = (0 :: u8) \<longleftrightarrow> (\<forall>j < s. \<not> bit z (7 - j))"
proof
  assume z: "maskbit ! s AND z = 0"
  have "\<not> bit z (7 - j)" if "j < s" for j
  proof -
    have "\<not> bit (maskbit ! s AND z) (7 - j)" by (simp add: z)
    then show ?thesis using maskbit_bit [of s "7 - j"] that assms by (simp add: bit_and_iff)
  qed
  then show "\<forall>j < s. \<not> bit z (7 - j)" by blast
next
  assume z: "\<forall>j < s. \<not> bit z (7 - j)"
  show "maskbit ! s AND z = 0"
  proof (rule bit_word_eqI)
    fix k assume "k < LENGTH(8)"
    then have k: "k < 8" by simp
    show "bit (maskbit ! s AND z) k = bit (0 :: u8) k"
    proof (cases "8 - s \<le> k")
      case True
      then have "7 - k < s" using k by simp
      with z have "\<not> bit z (7 - (7 - k))" by blast
      then show ?thesis using k by (simp add: bit_and_iff)
    next
      case False
      then show ?thesis using maskbit_bit [OF assms k] by (simp add: bit_and_iff)
    qed
  qed
qed

lemma masked_xor_zero_iff:
  "s < 9 \<Longrightarrow> maskbit ! s AND (x XOR y) = (0 :: u8) \<longleftrightarrow> (\<forall>j < s. bit x (7 - j) = bit y (7 - j))"
  by (auto simp: masked_zero_iff bit_xor_iff)

lemma bytes_equal_down_iff:
  "bytes_equal_down n x y \<longleftrightarrow> (\<forall>i<n. byte_at x i = byte_at y i)"
  by (induction n) (auto simp: less_Suc_eq)

lemma addr_bit_split:
  "(\<forall>i<n. addr_bit x i = addr_bit y i) \<longleftrightarrow>
     (\<forall>k < n div 8. byte_at x k = byte_at y k) \<and>
     (\<forall>j < n mod 8. bit (byte_at x (n div 8)) (7 - j) = bit (byte_at y (n div 8)) (7 - j))"
  (is "?L \<longleftrightarrow> ?B \<and> ?R")
proof
  assume L: ?L
  have eq: "bit (byte_at x k) (7 - j) = bit (byte_at y k) (7 - j)"
    if "8 * k + j < n" "j < 8" for k j
    using L [rule_format, of "8 * k + j"] that by (simp add: addr_bit_def)
  have ?B
  proof (intro allI impI)
    fix k assume "k < n div 8"
    then have "8 * k + j < n" if "j < 8" for j using that by linarith
    then show "byte_at x k = byte_at y k" using eq by (simp add: byte_eq_iff)
  qed
  moreover have ?R
  proof (intro allI impI)
    fix j assume j: "j < n mod 8"
    have "8 * (n div 8) + j < n" using j by (metis mult_div_mod_eq nat_add_left_cancel_less)
    moreover have "j < 8" using j by (meson less_trans mod_less_divisor zero_less_numeral)
    ultimately show "bit (byte_at x (n div 8)) (7 - j) = bit (byte_at y (n div 8)) (7 - j)"
      by (rule eq)
  qed
  ultimately show "?B \<and> ?R" by blast
next
  assume BR: "?B \<and> ?R"
  show ?L
  proof (intro allI impI)
    fix i assume i: "i < n"
    show "addr_bit x i = addr_bit y i"
    proof (cases "i div 8 < n div 8")
      case True
      with BR show ?thesis by (simp add: addr_bit_def)
    next
      case False
      then have e: "i div 8 = n div 8" using i by (simp add: div_le_mono le_antisym)
      then have "i mod 8 < n mod 8" using i less_iff_div8_mod8 [of i n] by simp
      with BR e show ?thesis by (simp add: addr_bit_def)
    qed
  qed
qed

section \<open>Matching is the prefix order on bit strings\<close>

lemma length_pfx_bits [simp]: "length (pfx_bits p) = plen p"
  by (simp add: pfx_bits_def)

lemma nth_pfx_bits: "i < plen p \<Longrightarrow> pfx_bits p ! i = addr_bit (u_prefix p) i"
  by (simp add: pfx_bits_def)

lemma prefix_iff_nth:
  "Sublist.prefix xs ys \<longleftrightarrow> length xs \<le> length ys \<and> (\<forall>i<length xs. xs ! i = ys ! i)"
proof
  assume "Sublist.prefix xs ys"
  then show "length xs \<le> length ys \<and> (\<forall>i<length xs. xs ! i = ys ! i)"
    by (auto elim!: prefixE simp: nth_append)
next
  assume h: "length xs \<le> length ys \<and> (\<forall>i<length xs. xs ! i = ys ! i)"
  then have "take (length xs) ys = xs" by (intro nth_equalityI) auto
  then show "Sublist.prefix xs ys" by (metis take_is_prefix)
qed

lemma shift_test_iff:
  "(n mod 8 \<noteq> 0 \<and> maskbit ! (n mod 8) AND (x XOR y) \<noteq> (0 :: u8)) \<longleftrightarrow>
     \<not> (\<forall>j < n mod 8. bit x (7 - j) = bit y (7 - j))"
proof (cases "n mod 8 = 0")
  case False
  have "n mod 8 < 9" by (rule less_trans [OF mod_less_divisor]) simp_all
  then show ?thesis using masked_xor_zero_iff [of "n mod 8" x y] False by simp
qed simp

lemma prefix_match_bits:
  "prefix_match n p \<longleftrightarrow> plen n \<le> plen p \<and> (\<forall>i<plen n. addr_bit (u_prefix n) i = addr_bit (u_prefix p) i)"
  unfolding prefix_match_def Let_def shift_test_iff addr_bit_split bytes_equal_down_iff
  by (auto simp: word_less_nat_alt)

lemma prefix_match_iff: "prefix_match n p \<longleftrightarrow> Sublist.prefix (pfx_bits n) (pfx_bits p)"
  by (auto simp: prefix_match_bits prefix_iff_nth nth_pfx_bits)

lemma prefix_cmp_iff:
  "prefix_cmp p1 p2 = 0 \<longleftrightarrow> family p1 = family p2 \<and> pfx_bits p1 = pfx_bits p2"
proof -
  have "prefix_cmp p1 p2 = 0 \<longleftrightarrow> family p1 = family p2 \<and> prefixlen p1 = prefixlen p2 \<and>
          (\<forall>i<plen p1. addr_bit (u_prefix p1) i = addr_bit (u_prefix p2) i)"
    unfolding prefix_cmp_def Let_def shift_test_iff addr_bit_split bytes_equal_down_iff by auto
  moreover have "prefixlen p1 = prefixlen p2 \<longleftrightarrow> plen p1 = plen p2"
    by (simp add: word_unat_eq_iff)
  ultimately show ?thesis
    by (auto simp: list_eq_iff_nth_eq nth_pfx_bits)
qed

section \<open>Masks\<close>

lemma byte_at_mask_bytes:
  assumes "sz \<le> length m" "k < sz"
  shows "byte_at (mask_bytes sz len m) k =
     (if k < len div 8 then byte_at m k
      else if k = len div 8 then byte_at m k AND maskbit ! (len mod 8) else 0)"
  using assms by (auto simp: mask_bytes_def Let_def byte_at_def nth_append nth_Cons split: nat.splits)

lemma addr_bit_mask_bytes:
  assumes "sz \<le> length m" "i < 8 * sz"
  shows "addr_bit (mask_bytes sz len m) i \<longleftrightarrow> i < len \<and> addr_bit m i"
proof -
  have k: "i div 8 < sz" using assms(2) by (simp add: less_mult_imp_div_less mult.commute)
  have s: "len mod 8 < 9" by (rule less_trans [OF mod_less_divisor]) simp_all
  have mb: "bit (maskbit ! (len mod 8)) (7 - i mod 8) \<longleftrightarrow> i mod 8 < len mod 8"
    using maskbit_bit [OF s, of "7 - i mod 8"] by simp linarith
  consider (lt) "i div 8 < len div 8" | (eq) "i div 8 = len div 8" | (gt) "len div 8 < i div 8"
    by linarith
  then show ?thesis
  proof cases
    case lt
    then have "i < len" by (simp add: less_iff_div8_mod8 [of i len])
    with lt show ?thesis by (simp add: addr_bit_def byte_at_mask_bytes [OF assms(1) k])
  next
    case eq
    then have "i < len \<longleftrightarrow> i mod 8 < len mod 8" by (simp add: less_iff_div8_mod8 [of i len])
    moreover have "byte_at (mask_bytes sz len m) (i div 8)
        = byte_at m (i div 8) AND maskbit ! (len mod 8)"
      using byte_at_mask_bytes [OF assms(1) k, of len] eq by simp
    ultimately show ?thesis using mb by (auto simp: addr_bit_def bit_and_iff)
  next
    case gt
    then have "\<not> i < len" by (simp add: less_iff_div8_mod8 [of i len])
    with gt show ?thesis by (simp add: addr_bit_def byte_at_mask_bytes [OF assms(1) k])
  qed
qed

lemma length_mask_bytes: "sz \<le> length m \<Longrightarrow> length (mask_bytes sz len m) = length m"
  by (auto simp: mask_bytes_def Let_def)

lemma apply_mask_sel [simp]:
  "family (apply_mask p) = family p" "prefixlen (apply_mask p) = prefixlen p"
  by (simp_all add: apply_mask_def apply_mask_ipv4_def apply_mask_ipv6_def)

lemma prefix_wf_blen:
  assumes "prefix_wf p"
  shows "prefix_blen p \<le> length (u_prefix p)" "plen p \<le> 8 * prefix_blen p"
    "u_prefix (apply_mask p) = mask_bytes (prefix_blen p) (plen p) (u_prefix p)"
  using assms
  by (auto simp: prefix_wf_def prefix_blen_def apply_mask_def apply_mask_ipv4_def
      apply_mask_ipv6_def af_defs)

lemma addr_bit_apply_mask:
  assumes "prefix_wf p" "i < 8 * prefix_blen p"
  shows "addr_bit (u_prefix (apply_mask p)) i \<longleftrightarrow> i < plen p \<and> addr_bit (u_prefix p) i"
  using addr_bit_mask_bytes [OF prefix_wf_blen(1) [OF assms(1)] assms(2)]
  by (simp add: prefix_wf_blen(3) [OF assms(1)])

lemma pfx_bits_apply_mask: "prefix_wf p \<Longrightarrow> pfx_bits (apply_mask p) = pfx_bits p"
  using prefix_wf_blen(2) [of p]
  by (auto intro!: nth_equalityI simp: nth_pfx_bits addr_bit_apply_mask)

lemma prefix_wf_apply_mask [wf_intros]: "prefix_wf p \<Longrightarrow> prefix_wf (apply_mask p)"
  using prefix_wf_blen [of p]
  by (auto simp: prefix_wf_def length_mask_bytes)

lemma take_eq_addr_bits:
  assumes "n \<le> length x" "n \<le> length y"
  shows "take n x = take n y \<longleftrightarrow> (\<forall>i < 8 * n. addr_bit x i = addr_bit y i)"
proof -
  have "take n x = take n y \<longleftrightarrow> (\<forall>k<n. byte_at x k = byte_at y k)"
    using assms by (auto simp: list_eq_iff_nth_eq byte_at_def)
  also have "\<dots> \<longleftrightarrow> (\<forall>i < 8 * n. addr_bit x i = addr_bit y i)"
    by (simp add: addr_bit_split)
  finally show ?thesis .
qed

lemma prefix_same_iff:
  assumes "prefix_wf p" "prefix_wf q"
  shows "prefix_same p q \<longleftrightarrow> family p = family q \<and> prefixlen p = prefixlen q \<and>
     (\<forall>i < 8 * prefix_blen p. addr_bit (u_prefix p) i = addr_bit (u_prefix q) i)"
proof -
  have "prefix_same p q \<longleftrightarrow> family p = family q \<and> prefixlen p = prefixlen q \<and>
     take (prefix_blen p) (u_prefix p) = take (prefix_blen p) (u_prefix q)"
    using assms by (auto simp: prefix_same_def prefix_blen_def prefix_wf_def af_defs)
  moreover have "prefix_blen p \<le> length (u_prefix p)" "prefix_blen p \<le> length (u_prefix q)"
    using assms by (auto simp: prefix_wf_def prefix_blen_def)
  ultimately show ?thesis by (simp add: take_eq_addr_bits)
qed

lemma plen_eq_iff: "plen p = plen q \<longleftrightarrow> prefixlen p = prefixlen q"
  by (simp add: word_unat_eq_iff)

lemma prefix_same_apply_mask:
  assumes "prefix_wf p" "prefix_wf q"
  shows "prefix_same (apply_mask p) (apply_mask q) \<longleftrightarrow> prefix_cmp p q = 0"
proof -
  note wf = prefix_wf_apply_mask [OF assms(1)] prefix_wf_apply_mask [OF assms(2)]
  have bl: "prefix_blen (apply_mask p) = prefix_blen p" by (simp add: prefix_blen_def)
  show ?thesis
  proof (cases "family p = family q \<and> prefixlen p = prefixlen q")
    case True
    then have bq: "prefix_blen q = prefix_blen p" by (simp add: prefix_blen_def)
    have "prefix_same (apply_mask p) (apply_mask q) \<longleftrightarrow>
        (\<forall>i < 8 * prefix_blen p. (i < plen p \<and> addr_bit (u_prefix p) i)
           = (i < plen p \<and> addr_bit (u_prefix q) i))"
      using True by (simp add: prefix_same_iff [OF wf] bl bq addr_bit_apply_mask assms)
    also have "\<dots> \<longleftrightarrow> (\<forall>i < plen p. addr_bit (u_prefix p) i = addr_bit (u_prefix q) i)"
      using prefix_wf_blen(2) [OF assms(1)] by (meson less_le_trans)
    also have "\<dots> \<longleftrightarrow> pfx_bits p = pfx_bits q"
      using True by (auto simp: list_eq_iff_nth_eq nth_pfx_bits)
    finally show ?thesis using True by (simp add: prefix_cmp_iff)
  next
    case False
    then show ?thesis
      using plen_eq_iff [of p q] by (auto simp: prefix_same_def prefix_cmp_iff dest: arg_cong [of _ _ length])
  qed
qed

subsection \<open>Mask lengths\<close>

lemma byte_at_masklen2bytes:
  assumes "n \<le> 8 * sz"
  obtains m where "masklen2bytes sz n = Some m" "length m = sz"
    "\<And>k. k < sz \<Longrightarrow> byte_at m k =
       (if k < n div 8 then 0xff else if k = n div 8 then maskbit ! (n mod 8) else 0)"
proof -
  have le: "n div 8 \<le> sz" using assms by linarith
  let ?m = "replicate (n div 8) 0xff @ replicate (sz - n div 8) (0 :: u8)"
  have lt: "n mod 8 \<noteq> 0 \<Longrightarrow> n div 8 < sz" using assms by presburger
  show thesis
  proof (cases "n mod 8 = 0")
    case True
    with le have "masklen2bytes sz n = Some ?m"
      by (simp add: masklen2bytes_def mem_put_def Let_def)
    moreover have "maskbit ! 0 = 0" by (simp add: maskbit_def)
    ultimately show thesis using le True
      by (intro that [of ?m]) (auto simp: byte_at_def nth_append)
  next
    case False
    with le lt have "masklen2bytes sz n = Some (?m[n div 8 := maskbit ! (n mod 8)])"
      by (simp add: masklen2bytes_def mem_put_def mem_write_def Let_def)
    then show thesis using le lt False
      by (intro that [of "?m[n div 8 := maskbit ! (n mod 8)]"])
        (auto simp: byte_at_def nth_append nth_list_update)
  qed
qed

lemma masklen2bytes_outside: "8 * sz < n \<Longrightarrow> masklen2bytes sz n = None"
proof -
  assume "8 * sz < n"
  then have "sz < n div 8 \<or> sz = n div 8 \<and> n mod 8 \<noteq> 0" by presburger
  then show ?thesis
    by (auto simp: masklen2bytes_def mem_put_def mem_write_def Let_def)
qed

lemma ff_bytes_skip:
  "\<lbrakk>\<forall>j<d. byte_at m (i + j) = 0xff; d = k \<or> d < k \<and> byte_at m (i + d) \<noteq> 0xff\<rbrakk>
     \<Longrightarrow> ff_bytes k m i = i + d"
proof (induction k m i arbitrary: d rule: ff_bytes.induct)
  case (1 m i)
  then show ?case by simp
next
  case (2 k m i)
  show ?case
  proof (cases d)
    case 0
    with 2 show ?thesis by auto
  next
    case (Suc d')
    have "byte_at m i = 0xff" using 2(2) Suc by force
    moreover have "ff_bytes k m (Suc i) = Suc i + d'"
    proof (rule 2(1))
      show "\<forall>j<d'. byte_at m (Suc i + j) = 0xff"
        using 2(2) Suc by (metis Suc_less_eq add_Suc_shift)
      show "d' = k \<or> d' < k \<and> byte_at m (Suc i + d') \<noteq> 0xff"
        using 2(3) Suc by simp
    qed fact
    ultimately show ?thesis using Suc by simp
  qed
qed

lemma shift_count_maskbit: "b < 8 \<Longrightarrow> shift_count (maskbit ! b) n = n + b"
proof -
  have "\<forall>b<8. shift_count (maskbit ! b) n = n + b"
    by (simp add: All_less_Suc numeral_eq_Suc) (simp add: maskbit_def shift_count.simps)
  then show "b < 8 \<Longrightarrow> ?thesis" by blast
qed

lemma maskbit_not_ff: "b < 8 \<Longrightarrow> maskbit ! b \<noteq> 0xff"
proof -
  have "\<forall>b<8. maskbit ! b \<noteq> 0xff" by code_simp
  then show "b < 8 \<Longrightarrow> ?thesis" by blast
qed

lemma ff_bytes_mask:
  assumes "n \<le> 8 * sz" "length m = sz"
    and "\<And>k. k < sz \<Longrightarrow> byte_at m k =
       (if k < n div 8 then 0xff else if k = n div 8 then maskbit ! (n mod 8) else 0)"
  shows "ff_bytes sz (m @ rest) 0 = n div 8"
proof -
  have le: "n div 8 \<le> sz" using assms(1) by linarith
  have "\<forall>j < n div 8. byte_at (m @ rest) (0 + j) = 0xff"
    using assms le by (simp add: byte_at_append_left)
  moreover have "n div 8 = sz \<or> n div 8 < sz \<and> byte_at (m @ rest) (0 + n div 8) \<noteq> 0xff"
    using le assms(2,3) by (auto simp: byte_at_append_left maskbit_not_ff)
  ultimately show ?thesis using ff_bytes_skip [of "n div 8" "m @ rest" 0 sz] by simp
qed


lemma shift_count_card: "shift_count val len \<le> len + card {n. n < 8 \<and> push_bit n val \<noteq> 0}"
proof (induction val len rule: shift_count.induct)
  case (1 val len)
  then show ?case
    using push_bit_card_less [of val] by (subst shift_count.simps) force
qed

lemma shift_count_le: "shift_count val len \<le> len + 8"
proof -
  have "card {n. n < 8 \<and> push_bit n val \<noteq> 0} \<le> card {..<8 :: nat}"
    by (rule card_mono) auto
  then show ?thesis using shift_count_card [of val len] by simp
qed

lemma ip_masklen_le: "ip_masklen m \<le> 32"
proof -
  have "ff_bytes k m i \<le> i + k" for k i
    by (induction k m i rule: ff_bytes.induct) auto
  from this [of 4 0] show ?thesis
    using shift_count_le [of "byte_at m (ff_bytes 4 m 0)" "8 * ff_bytes 4 m 0"]
    by (auto simp: ip_masklen_def Let_def)
qed

lemma masklen_bytes:
  assumes "n \<le> 8 * sz"
  shows "\<exists>m. masklen2bytes sz n = Some m \<and> length m = sz \<and> ff_bytes sz (m @ rest) 0 = n div 8 \<and>
    (n div 8 < sz \<longrightarrow> byte_at (m @ rest) (n div 8) = maskbit ! (n mod 8))"
proof -
  obtain m where m: "masklen2bytes sz n = Some m" "length m = sz"
    and b: "\<And>k. k < sz \<Longrightarrow> byte_at m k =
      (if k < n div 8 then 0xff else if k = n div 8 then maskbit ! (n mod 8) else 0)"
    using byte_at_masklen2bytes [OF assms] by metis
  have "ff_bytes sz (m @ rest) 0 = n div 8" using assms m(2) b by (rule ff_bytes_mask)
  then show ?thesis using m b by (auto simp: byte_at_append_left)
qed

lemma ip_masklen_eq:
  "\<lbrakk>ff_bytes 4 m 0 = n div 8; n div 8 < 4 \<longrightarrow> byte_at m (n div 8) = maskbit ! (n mod 8); n \<le> 32\<rbrakk>
     \<Longrightarrow> ip_masklen m = n"
  by (auto simp: ip_masklen_def Let_def shift_count_maskbit)

lemma ip6_masklen_eq:
  "\<lbrakk>ff_bytes 16 m 0 = n div 8; n div 8 < 16 \<longrightarrow> byte_at m (n div 8) = maskbit ! (n mod 8); n \<le> 128\<rbrakk>
     \<Longrightarrow> ip6_masklen m = n"
  by (auto simp: ip6_masklen_def Let_def shift_count_maskbit)

section \<open>Text\<close>

lemma split_slash_no: "CHR ''/'' \<notin> set s \<Longrightarrow> split_slash s = (s, None)"
  by (auto simp: split_slash_def takeWhile_eq_all_conv)

lemma split_slash_yes:
  assumes "CHR ''/'' \<notin> set s"
  shows "split_slash (s @ CHR ''/'' # r) = (s, Some r)"
proof -
  have "takeWhile (\<lambda>c. c \<noteq> CHR ''/'') (s @ CHR ''/'' # r) = s"
    "dropWhile (\<lambda>c. c \<noteq> CHR ''/'') (s @ CHR ''/'' # r) = CHR ''/'' # r"
    using assms by (induction s) auto
  then show ?thesis by (simp add: split_slash_def)
qed

lemma u_char_of_nat: "u_char_of (int n) = of_nat n"
  by (simp add: u_char_of_def)

lemma str2prefix_ipv4_slash:
  assumes "CHR ''/'' \<notin> set cp" "inet_aton cp = Some a" "n < 2 ^ 31"
  shows "str2prefix_ipv4 inet_aton (cp @ CHR ''/'' # dec_str n) q =
    (if (of_nat n :: u8) > 32 then (0, set_addr 4 a q)
     else (1, (set_addr 4 a q)\<lparr>family := AF_INET, prefixlen := of_nat n\<rparr>))"
  unfolding str2prefix_ipv4_def split_slash_yes [OF assms(1)]
  by (simp add: assms(2) atoi_dec_str [OF assms(3)] u_char_of_nat)

lemma str2prefix_ipv4_not_address:
  "inet_aton (fst (split_slash s)) = None \<Longrightarrow> fst (str2prefix_ipv4 inet_aton s q) = 0"
proof (cases "CHR ''/'' \<in> set s")
  case True
  then show "inet_aton (fst (split_slash s)) = None \<Longrightarrow> ?thesis"
    by (auto simp: str2prefix_ipv4_def split_slash_def Let_def)
next
  case False
  then show "inet_aton (fst (split_slash s)) = None \<Longrightarrow> ?thesis"
    by (simp add: str2prefix_ipv4_def split_slash_no)
qed

lemma str2prefix_ipv6_slash:
  assumes "CHR ''/'' \<notin> set cp" "inet_pton6 cp = Some a" "n < 2 ^ 31"
  shows "str2prefix_ipv6 inet_pton6 (cp @ CHR ''/'' # dec_str n) q =
    (if (of_nat n :: u8) > 128 then (0, set_addr 16 a q)
     else (1, (set_addr 16 a q)\<lparr>family := AF_INET6, prefixlen := of_nat n\<rparr>))"
  unfolding str2prefix_ipv6_def split_slash_yes [OF assms(1)]
  by (simp add: assms(2) atoi_dec_str [OF assms(3)] u_char_of_nat Let_def)


section \<open>The interface to the users of prefixes\<close>

text \<open>
  Routing tables, prefix lists and filters only rely on one law: matching is the prefix
  order of a bit string key.
\<close>

locale prefix_matching =
  fixes matches :: "'p \<Rightarrow> 'p \<Rightarrow> bool"
    and key :: "'p \<Rightarrow> bool list"
  assumes matches_key: "matches n p \<longleftrightarrow> Sublist.prefix (key n) (key p)"
begin

lemma matches_refl: "matches p p"
  by (simp add: matches_key)

lemma matches_trans: "matches a b \<Longrightarrow> matches b c \<Longrightarrow> matches a c"
  by (auto simp: matches_key)

lemma matches_antisym: "matches a b \<Longrightarrow> matches b a \<Longrightarrow> key a = key b"
  by (simp add: matches_key prefix_order.antisym)

lemma matches_linear: "matches a p \<Longrightarrow> matches b p \<Longrightarrow> matches a b \<or> matches b a"
  by (simp add: matches_key prefix_same_cases)

lemma matches_same_length:
  "matches a p \<Longrightarrow> length (key a) = length (key p) \<Longrightarrow> key a = key p"
  by (auto simp: matches_key elim!: prefixE)

end

interpretation pm: prefix_matching prefix_match pfx_bits
  by unfold_locales (rule prefix_match_iff)

section \<open>Properties\<close>

text \<open>
  C27: \<open>prefix_match\<close> answers 1 exactly when the first \<open>prefixlen\<close> bits of \<open>n\<close> are a prefix of
  the bits of \<open>p\<close>, and \<open>prefix_cmp\<close> answers 0 exactly when family and bits agree.  Neither
  depends on the host bits behind the prefix length.
\<close>
theorem prefix_match_correct:
  "(prefix_match n p \<longleftrightarrow> Sublist.prefix (pfx_bits n) (pfx_bits p)) \<and>
   (prefix_cmp n p = 0 \<longleftrightarrow> family n = family p \<and> pfx_bits n = pfx_bits p)"
  by (simp add: prefix_match_iff prefix_cmp_iff)

text \<open>\<open>apply_mask\<close> gives the canonical form of a prefix: it keeps the prefix bits, clears
  every other bit of the address, and two prefixes become the same (\<open>prefix_same\<close>) under it
  exactly when \<open>prefix_cmp\<close> calls them equal, as the comment of \<open>prefix_cmp\<close> says.
\<close>
theorem apply_mask_canonical:
  assumes "prefix_wf p" "prefix_wf q"
  shows "prefix_wf (apply_mask p) \<and> pfx_bits (apply_mask p) = pfx_bits p \<and>
    (\<forall>i. i < 8 * prefix_blen p \<and> plen p \<le> i \<longrightarrow> \<not> addr_bit (u_prefix (apply_mask p)) i) \<and>
    (prefix_same (apply_mask p) (apply_mask q) \<longleftrightarrow> prefix_cmp p q = 0)"
  using assms
  by (auto simp: pfx_bits_apply_mask prefix_wf_apply_mask addr_bit_apply_mask prefix_same_apply_mask)

definition net10 :: prefix where
  "net10 = \<lparr>family = AF_INET, prefixlen = 8, u_prefix = [10, 1, 2, 3] @ replicate 12 0\<rparr>"

lemma net10_wf: "prefix_wf net10"
  by (simp add: net10_def prefix_wf_def af_defs)

theorem apply_mask_canonical_witness:
  "prefix_wf net10 \<and> u_prefix (apply_mask net10) = 10 # replicate 15 0 \<and>
   pfx_bits (apply_mask net10) = pfx_bits net10"
proof -
  have "u_prefix (apply_mask net10) = 10 # replicate 15 0" by code_simp
  then show ?thesis using apply_mask_canonical [OF net10_wf net10_wf] net10_wf by simp
qed

text \<open>\<open>masklen2ip\<close> and \<open>masklen2ip6\<close> build the mask of every length up to 32 (128), the mask
  length is read back from it whatever memory follows the mask, and a longer length writes
  outside the mask.
\<close>
theorem masklen_roundtrip:
  "(n \<le> 32 \<longrightarrow> (\<exists>m. masklen2ip n = Some m \<and> length m = 4 \<and> ip_masklen (m @ rest) = n)) \<and>
   (n \<le> 128 \<longrightarrow> (\<exists>m. masklen2ip6 n = Some m \<and> length m = 16 \<and> ip6_masklen (m @ rest) = n)) \<and>
   (32 < n \<longrightarrow> masklen2ip n = None) \<and> (128 < n \<longrightarrow> masklen2ip6 n = None)"
proof (intro conjI impI)
  assume n: "n \<le> 32"
  with masklen_bytes [of n 4 rest] show
    "\<exists>m. masklen2ip n = Some m \<and> length m = 4 \<and> ip_masklen (m @ rest) = n"
    by (auto simp: masklen2ip_def intro: ip_masklen_eq)
next
  assume n: "n \<le> 128"
  with masklen_bytes [of n 16 rest] show
    "\<exists>m. masklen2ip6 n = Some m \<and> length m = 16 \<and> ip6_masklen (m @ rest) = n"
    by (auto simp: masklen2ip6_def intro: ip6_masklen_eq)
qed (simp_all add: masklen2ip_def masklen2ip6_def masklen2bytes_outside)

theorem masklen_roundtrip_witness:
  "masklen2ip 20 = Some [255, 255, 240, 0] \<and> ip_masklen ([255, 255, 240, 0] @ [7]) = 20 \<and>
   masklen2ip 33 = None"
proof -
  have m: "masklen2ip 20 = Some [255, 255, 240, 0]" by code_simp
  then show ?thesis
    using masklen_roundtrip [of 20 "[7]"] masklen_roundtrip [of 33 "[]"] by simp
qed

text \<open>printing a prefix and parsing the text gives the prefix back, for both families, where
  the library's text conversion inverts itself on the address (and the IPv4 parser rejects
  IPv6 text) and the buffer holds the text.
\<close>
theorem prefix_text_roundtrip:
  assumes wf: "prefix_wf p"
    and slash: "CHR ''/'' \<notin> set (inet_ntop (family p) (u_prefix p))"
    and v4: "family p = AF_INET \<longrightarrow>
      inet_aton (inet_ntop (family p) (u_prefix p)) = Some (take 4 (u_prefix p))"
    and v6: "family p = AF_INET6 \<longrightarrow>
      inet_pton6 (inet_ntop (family p) (u_prefix p)) = Some (take 16 (u_prefix p)) \<and>
      inet_aton (inet_ntop (family p) (u_prefix p)) = None"
    and sz: "length (inet_ntop (family p) (u_prefix p)) + 5 \<le> sz"
  shows "\<exists>r. str2prefix inet_aton inet_pton6 (prefix2str inet_ntop p sz) q = (1, r) \<and>
    prefix_same r p"
proof -
  let ?a = "inet_ntop (family p) (u_prefix p)"
  let ?s = "?a @ CHR ''/'' # dec_str (plen p)"
  have le: "plen p < 1000" using wf by (auto simp: prefix_wf_def)
  have "length (dec_str (plen p)) \<le> 3"
    using le by (simp add: dec_str.simps [of "plen p"] dec_str.simps [of "plen p div 10"]
        dec_str.simps [of "plen p div 10 div 10"])
  then have s: "prefix2str inet_ntop p sz = ?s" using sz by (simp add: prefix2str_def)
  have n: "(of_nat (plen p) :: u8) = prefixlen p" by simp
  from wf have fam: "family p = AF_INET \<and> prefixlen p \<le> 32 \<or> family p = AF_INET6 \<and> prefixlen p \<le> 128"
    by (auto simp: prefix_wf_def word_le_nat_alt)
  have len: "16 \<le> length (u_prefix p)" using wf by (simp add: prefix_wf_def)
  from fam show ?thesis
  proof (elim disjE conjE)
    assume f: "family p = AF_INET" and l: "prefixlen p \<le> 32"
    have "str2prefix_ipv4 inet_aton ?s q =
        (1, (set_addr 4 (take 4 (u_prefix p)) q)\<lparr>family := AF_INET, prefixlen := prefixlen p\<rparr>)"
      using str2prefix_ipv4_slash [of ?a inet_aton "take 4 (u_prefix p)" "plen p" q] slash v4 f l le
      by (simp add: not_less [symmetric])
    then show ?thesis
      using f len by (auto simp: s str2prefix_def prefix_same_def set_addr_def)
  next
    assume f: "family p = AF_INET6" and l: "prefixlen p \<le> 128"
    note v6' = v6 [rule_format, OF f]
    have "fst (str2prefix_ipv4 inet_aton ?s q) = 0"
      using v6' by (intro str2prefix_ipv4_not_address) (simp add: split_slash_yes [OF slash])
    then obtain q1 where q1: "str2prefix_ipv4 inet_aton ?s q = (0, q1)" by (metis prod.collapse)
    have "str2prefix_ipv6 inet_pton6 ?s q1 =
        (1, (set_addr 16 (take 16 (u_prefix p)) q1)\<lparr>family := AF_INET6, prefixlen := prefixlen p\<rparr>)"
      using str2prefix_ipv6_slash [of ?a inet_pton6 "take 16 (u_prefix p)" "plen p" q1] slash v6' l le
      by (simp add: not_less [symmetric])
    then show ?thesis
      using f len q1 by (auto simp: s str2prefix_def prefix_same_def set_addr_def)
  qed
qed

theorem prefix_text_roundtrip_witness:
  "\<exists>r. str2prefix (\<lambda>s. if s = ''10.1.2.3'' then Some [10, 1, 2, 3] else None) (\<lambda>_. None)
     (prefix2str (\<lambda>_ _. ''10.1.2.3'') net10 20) prefix_new = (1, r) \<and> prefix_same r net10"
  by (rule prefix_text_roundtrip [OF net10_wf]) (simp_all add: net10_def af_defs)

text \<open>the mask length of a text prefix is taken modulo 256 before it is checked: \<open>a/n\<close> is
  accepted as \<open>a/(n mod 256)\<close> whenever \<open>n mod 256\<close> is at most 32, and refused otherwise.
\<close>
theorem str2prefix_ipv4_wraps:
  assumes "CHR ''/'' \<notin> set cp" "inet_aton cp = Some a" "n < 2 ^ 31"
  shows "let (ret, r) = str2prefix_ipv4 inet_aton (cp @ ''/'' @ dec_str n) q in
    (ret = 1 \<longleftrightarrow> n mod 256 \<le> 32) \<and> (ret = 0 \<longleftrightarrow> 32 < n mod 256) \<and>
    (ret = 1 \<longrightarrow> plen r = n mod 256 \<and> family r = AF_INET)"
proof -
  have "unat (of_nat n :: u8) = n mod 256" by (simp add: unat_of_nat)
  then show ?thesis
    using str2prefix_ipv4_slash [of cp inet_aton a n q] assms by (auto simp: word_less_nat_alt)
qed

theorem str2prefix_ipv4_wraps_witness:
  "fst (str2prefix_ipv4 (\<lambda>_. Some [10, 0, 0, 0]) (''10.0.0.0'' @ ''/'' @ dec_str 264) prefix_new) = 1"
  using str2prefix_ipv4_wraps [of "''10.0.0.0''" "\<lambda>_. Some [10, 0, 0, 0]" "[10, 0, 0, 0]" 264 prefix_new]
  by (auto simp: Let_def split: prod.splits)

end
