(* ===== verification/Bgp_Decision.thy ===== *)
theory Bgp_Decision
  imports Bgp_Aspath Lib_Prefix "HOL-Library.List_Lexorder"
begin

text \<open>
  The BGP decision process, \<open>bgpd/bgp_route.c\<close>: the comparison of two routes \<open>bgp_info_cmp\<close> and the
  selection loops of \<open>bgp_process\<close>, with what they call: \<open>peer_sort\<close> of \<open>bgpd/bgpd.c\<close>,
  \<open>ecommunity_cost_cmp\<close> of \<open>bgpd/bgp_ecommunity.c\<close> and \<open>sockunion_cmp\<close> of \<open>lib/sockunion.c\<close>.

  The routes of a prefix are the list \<open>rn->info\<close>; a pointer to one of them is its position in the
  list, which no operation of this theory changes.  Router ids and IPv4 addresses are words in host
  order.  The structures hold the fields the decision reads; the instance \<open>peer->bgp\<close> of every peer is
  the instance whose routes are compared.  \<^term>\<open>None\<close> is a read behind an AS path or a null \<open>su_remote\<close>.
\<close>

section \<open>Definitions\<close>

subsection \<open>Flags\<close>

definition BGP_INFO_IGP_CHANGED :: u16 where "BGP_INFO_IGP_CHANGED = 1"
definition BGP_INFO_DAMPED :: u16 where "BGP_INFO_DAMPED = 2"
definition BGP_INFO_HISTORY :: u16 where "BGP_INFO_HISTORY = 4"
definition BGP_INFO_SELECTED :: u16 where "BGP_INFO_SELECTED = 8"
definition BGP_INFO_VALID :: u16 where "BGP_INFO_VALID = 16"
definition BGP_INFO_ATTR_CHANGED :: u16 where "BGP_INFO_ATTR_CHANGED = 32"
definition BGP_INFO_DMED_CHECK :: u16 where "BGP_INFO_DMED_CHECK = 64"
definition BGP_INFO_DMED_SELECTED :: u16 where "BGP_INFO_DMED_SELECTED = 128"
definition BGP_INFO_STALE :: u16 where "BGP_INFO_STALE = 256"

definition BGP_FLAG_ALWAYS_COMPARE_MED :: u16 where "BGP_FLAG_ALWAYS_COMPARE_MED = 1"
definition BGP_FLAG_DETERMINISTIC_MED :: u16 where "BGP_FLAG_DETERMINISTIC_MED = 2"
definition BGP_FLAG_MED_MISSING_AS_WORST :: u16 where "BGP_FLAG_MED_MISSING_AS_WORST = 4"
definition BGP_FLAG_MED_CONFED :: u16 where "BGP_FLAG_MED_CONFED = 8"
definition BGP_FLAG_COMPARE_ROUTER_ID :: u16 where "BGP_FLAG_COMPARE_ROUTER_ID = 128"
definition BGP_FLAG_ASPATH_IGNORE :: u16 where "BGP_FLAG_ASPATH_IGNORE = 256"
definition BGP_FLAG_COST_COMMUNITY_IGNORE :: u16 where "BGP_FLAG_COST_COMMUNITY_IGNORE = 8192"

definition BGP_CONFIG_CONFEDERATION :: u16 where "BGP_CONFIG_CONFEDERATION = 4"
definition PEER_STATUS_ORF_WAIT_REFRESH :: u16 where "PEER_STATUS_ORF_WAIT_REFRESH = 2"
definition PEER_STATUS_GROUP :: u16 where "PEER_STATUS_GROUP = 16"

definition BGP_ATTR_MULTI_EXIT_DISC :: nat where "BGP_ATTR_MULTI_EXIT_DISC = 4"
definition BGP_ATTR_LOCAL_PREF :: nat where "BGP_ATTR_LOCAL_PREF = 5"
definition BGP_ATTR_ORIGINATOR_ID :: nat where "BGP_ATTR_ORIGINATOR_ID = 9"
definition BGP_ATTR_CLUSTER_LIST :: nat where "BGP_ATTR_CLUSTER_LIST = 10"

definition ATTR_FLAG_BIT :: "nat \<Rightarrow> u32" where
  "ATTR_FLAG_BIT x = push_bit (x - 1) 1"

definition BGP_ROUTE_NORMAL :: u8 where "BGP_ROUTE_NORMAL = 0"
definition BGP_ROUTE_STATIC :: u8 where "BGP_ROUTE_STATIC = 1"
definition BGP_ROUTE_AGGREGATE :: u8 where "BGP_ROUTE_AGGREGATE = 2"
definition BGP_ROUTE_REDISTRIBUTE :: u8 where "BGP_ROUTE_REDISTRIBUTE = 3"

subsection \<open>Structures\<close>

record bgp =
  bgp_as :: u16
  bgp_config :: u16
  confed_id :: u16
  confed_peers :: "u16 list"
  bgp_flags :: u16
  default_local_pref :: u32

text \<open>\<open>group_head\<close> is the head of the peer list of the peer group, as its local and remote AS; \<open>afc_nego\<close> and
  \<open>af_sflags\<close> are the entries for the address family of the table.\<close>

record peer =
  established :: bool
  afc_nego :: bool
  af_sflags :: u16
  group_head :: "(u16 \<times> u16) option"
  peer_as :: u16
  local_as :: u16
  remote_id :: u32
  su_remote :: "sockunion option"
  peer_sflags :: u16

record ecommunity =
  ecom_size :: nat
  ecom_val :: "u8 list"

record attr =
  attr_flag :: u32
  origin :: u8
  med :: u32
  local_pref :: u32
  weight :: u32
  originator_id :: u32
  cluster_length :: int
  attr_aspath :: aspath
  attr_ecommunity :: "ecommunity option"

record bgp_info =
  ri_type :: u8
  sub_type :: u8
  ri_flags :: u16
  ri_peer :: peer
  ri_attr :: attr
  igpmetric :: u32

definition bgp_flag_check :: "bgp \<Rightarrow> u16 \<Rightarrow> bool" where
  "bgp_flag_check b f = CHECK_FLAG (bgp_flags b) f"

definition attr_has :: "attr \<Rightarrow> nat \<Rightarrow> bool" where
  "attr_has a x \<longleftrightarrow> attr_flag a AND ATTR_FLAG_BIT x \<noteq> 0"

definition BGP_INFO_HOLDDOWN :: "bgp_info \<Rightarrow> bool" where
  "BGP_INFO_HOLDDOWN r \<longleftrightarrow> \<not> CHECK_FLAG (ri_flags r) BGP_INFO_VALID
     \<or> CHECK_FLAG (ri_flags r) BGP_INFO_HISTORY \<or> CHECK_FLAG (ri_flags r) BGP_INFO_DAMPED"

subsection \<open>Peers\<close>

datatype peer_type = BGP_PEER_IBGP | BGP_PEER_EBGP | BGP_PEER_INTERNAL | BGP_PEER_CONFED

definition bgp_confederation_peers_check :: "bgp \<Rightarrow> u16 \<Rightarrow> bool" where
  "bgp_confederation_peers_check b as \<longleftrightarrow> as \<in> set (confed_peers b)"

definition peer_sort :: "bgp \<Rightarrow> peer \<Rightarrow> peer_type" where
  "peer_sort b p =
     (if CHECK_FLAG (peer_sflags p) PEER_STATUS_GROUP
      then (if peer_as p \<noteq> 0 then (if bgp_as b = peer_as p then BGP_PEER_IBGP else BGP_PEER_EBGP)
            else case group_head p of
                   Some (local_as1, as1) \<Rightarrow> if local_as1 = as1 then BGP_PEER_IBGP else BGP_PEER_EBGP
                 | None \<Rightarrow> BGP_PEER_INTERNAL)
      else if CHECK_FLAG (bgp_config b) BGP_CONFIG_CONFEDERATION
      then (if local_as p = 0 then BGP_PEER_INTERNAL
            else if local_as p = peer_as p
            then (if local_as p = confed_id b then BGP_PEER_EBGP else BGP_PEER_IBGP)
            else if bgp_confederation_peers_check b (peer_as p) then BGP_PEER_CONFED
            else BGP_PEER_EBGP)
      else (if local_as p = 0 then BGP_PEER_INTERNAL
            else if local_as p = peer_as p then BGP_PEER_IBGP else BGP_PEER_EBGP))"

text \<open>\<open>in6addr_cmp\<close> on the bytes of the addresses, from the byte \<open>i\<close> on.\<close>

fun in6addr_loop :: "nat \<Rightarrow> nat \<Rightarrow> u8 list \<Rightarrow> u8 list \<Rightarrow> int" where
  "in6addr_loop 0 i p1 p2 = 0"
| "in6addr_loop (Suc n) i p1 p2 =
     (if p1 ! i > p2 ! i then 1 else if p1 ! i < p2 ! i then - 1 else in6addr_loop n (i + 1) p1 p2)"

definition in6addr_cmp :: "u8 list \<Rightarrow> u8 list \<Rightarrow> int" where
  "in6addr_cmp addr1 addr2 = in6addr_loop 16 0 addr1 addr2"

definition sockunion_cmp :: "sockunion \<Rightarrow> sockunion \<Rightarrow> int" where
  "sockunion_cmp su1 su2 =
     (if sa_family su1 > sa_family su2 then 1
      else if sa_family su1 < sa_family su2 then - 1
      else if sa_family su1 = AF_INET
      then (if ntohl (sin_addr su1) = ntohl (sin_addr su2) then 0
            else if ntohl (sin_addr su1) > ntohl (sin_addr su2) then 1 else - 1)
      else if sa_family su1 = AF_INET6 then in6addr_cmp (sin6_addr su1) (sin6_addr su2)
      else 0)"

subsection \<open>Cost communities\<close>

definition ECOMMUNITY_COST_COMMUNITY :: u16 where "ECOMMUNITY_COST_COMMUNITY = 0x4301"
definition ECOMMUNITY_COST_POI_IGP :: u8 where "ECOMMUNITY_COST_POI_IGP = 129"
definition COST_COMMUNITY_DEFAULT_COST :: u32 where "COST_COMMUNITY_DEFAULT_COST = 0x7FFFFFFF"

text \<open>The search for the next cost community from the index \<open>i\<close> on: its index, id and value.\<close>

function cost_find :: "ecommunity option \<Rightarrow> u8 \<Rightarrow> nat \<Rightarrow> (nat \<times> u8 \<times> u32) option option" where
  "cost_find e poi i =
     (case e of None \<Rightarrow> Some None
      | Some ecom \<Rightarrow>
          if i < ecom_size ecom
          then do {
            v \<leftarrow> mem_get (ecom_val ecom) (i * 8) 8;
            if word_cat (v ! 0) (v ! 1) = ECOMMUNITY_COST_COMMUNITY \<and> v ! 2 = poi
            then Some (Some (i, v ! 3, ntohl (drop 4 v)))
            else cost_find e poi (i + 1)
          }
          else Some None)"
  by auto
termination
  by (relation "measure (\<lambda>(e, poi, i). case e of None \<Rightarrow> 0 | Some ecom \<Rightarrow> ecom_size ecom - i)") auto

declare cost_find.simps [simp del]

text \<open>The outer loop; it stops at the first pair that differs, or when one side has no more.  Its bound
  is the number of communities of the first attribute, which the index of the loop cannot exceed.\<close>

fun cost_loop :: "nat \<Rightarrow> ecommunity option \<Rightarrow> ecommunity option \<Rightarrow> u8 \<Rightarrow> nat \<Rightarrow> nat
    \<Rightarrow> ((u8 \<times> u32) option \<times> (u8 \<times> u32) option) option" where
  "cost_loop 0 e1 e2 poi i j = None"
| "cost_loop (Suc n) e1 e2 poi i j = do {
     r1 \<leftarrow> cost_find e1 poi i;
     r2 \<leftarrow> cost_find e2 poi j;
     case (r1, r2) of
       (Some (i, id1, val1), Some (j, id2, val2)) \<Rightarrow>
         if id1 \<noteq> id2 \<or> val1 \<noteq> val2 then Some (Some (id1, val1), Some (id2, val2))
         else cost_loop n e1 e2 poi (i + 1) (j + 1)
     | _ \<Rightarrow> Some (map_option snd r1, map_option snd r2)
   }"

definition ecommunity_cost_cmp :: "ecommunity option \<Rightarrow> ecommunity option \<Rightarrow> u8 \<Rightarrow> int option" where
  "ecommunity_cost_cmp e1 e2 poi =
     (if e1 = None \<and> e2 = None then Some 0
      else do {
        (c1, c2) \<leftarrow> cost_loop (case e1 of None \<Rightarrow> 1 | Some ecom \<Rightarrow> ecom_size ecom + 1) e1 e2 poi 0 0;
        let val1 = (case c1 of None \<Rightarrow> COST_COMMUNITY_DEFAULT_COST | Some (_, v) \<Rightarrow> v);
        let val2 = (case c2 of None \<Rightarrow> COST_COMMUNITY_DEFAULT_COST | Some (_, v) \<Rightarrow> v);
        let ids = (case (c1, c2) of (Some (id1, _), Some (id2, _)) \<Rightarrow> Some (id1, id2) | _ \<Rightarrow> None);
        Some (case ids of
                Some (id1, id2) \<Rightarrow> if id1 < id2 then 1 else if id1 > id2 then - 1
                                    else if val1 < val2 then 1 else if val1 > val2 then - 1 else 0
              | None \<Rightarrow> if val1 < val2 then 1 else if val1 > val2 then - 1 else 0)
      })"

subsection \<open>Comparison of two routes\<close>

definition bgp_med_value :: "attr \<Rightarrow> bgp \<Rightarrow> u32" where
  "bgp_med_value a b =
     (if attr_has a BGP_ATTR_MULTI_EXIT_DISC then med a
      else if bgp_flag_check b BGP_FLAG_MED_MISSING_AS_WORST then 4294967295 else 0)"

text \<open>A step of the decision: return 1, return 0, or go on with the next step.\<close>

definition decide :: "bool \<Rightarrow> bool \<Rightarrow> bool option \<Rightarrow> bool option" where
  "decide yes no rest = (if yes then Some True else if no then Some False else rest)"

text \<open>The condition of step 6, evaluated from left to right.\<close>

definition med_compared :: "bgp \<Rightarrow> aspath \<Rightarrow> aspath \<Rightarrow> bool option" where
  "med_compared b new exist =
     (let internal_as_route = (as_length new = 0 \<and> as_length exist = 0);
          confed_as_route = (as_length new > 0 \<and> as_length exist > 0 \<and> as_count new = 0 \<and> as_count exist = 0)
      in if bgp_flag_check b BGP_FLAG_ALWAYS_COMPARE_MED
            \<or> bgp_flag_check b BGP_FLAG_MED_CONFED \<and> confed_as_route then Some True
         else do {
           l \<leftarrow> aspath_cmp_left new exist;
           if l then Some True
           else do { c \<leftarrow> aspath_cmp_left_confed new exist; Some (c \<or> internal_as_route) }
         })"

definition pref_value :: "bgp \<Rightarrow> attr \<Rightarrow> u32" where
  "pref_value b a = (if attr_has a BGP_ATTR_LOCAL_PREF then local_pref a else default_local_pref b)"

definition router_id_of :: "bgp_info \<Rightarrow> u32" where
  "router_id_of r = (if attr_has (ri_attr r) BGP_ATTR_ORIGINATOR_ID then originator_id (ri_attr r) else remote_id (ri_peer r))"

definition cluster_of :: "bgp_info \<Rightarrow> int" where
  "cluster_of r = (if attr_has (ri_attr r) BGP_ATTR_CLUSTER_LIST then cluster_length (ri_attr r) else 0)"

text \<open>Steps 12 to 14.\<close>

definition cmp_tie :: "bgp_info \<Rightarrow> bgp_info \<Rightarrow> bool option" where
  "cmp_tie new exist =
     decide (router_id_of new < router_id_of exist) (router_id_of new > router_id_of exist) (
     decide (cluster_of new < cluster_of exist) (cluster_of new > cluster_of exist) (
     do {
       su1 \<leftarrow> su_remote (ri_peer new);
       su2 \<leftarrow> su_remote (ri_peer exist);
       let ret = sockunion_cmp su1 su2;
       decide False (ret = 1) (decide (ret = - 1) False (Some True))
     }))"

text \<open>Steps 7 to 11.\<close>

definition cmp_peer :: "bgp \<Rightarrow> bgp_info \<Rightarrow> bgp_info \<Rightarrow> bool option" where
  "cmp_peer b new exist =
     (let sn = peer_sort b (ri_peer new); se = peer_sort b (ri_peer exist) in
     decide (sn = BGP_PEER_EBGP \<and> se = BGP_PEER_IBGP) False (
     decide (sn = BGP_PEER_EBGP \<and> se = BGP_PEER_CONFED) False (
     decide False (sn = BGP_PEER_IBGP \<and> se = BGP_PEER_EBGP) (
     decide False (sn = BGP_PEER_CONFED \<and> se = BGP_PEER_EBGP) (
     decide (igpmetric new < igpmetric exist) (igpmetric new > igpmetric exist) (
     do {
       cost_community \<leftarrow>
         (if \<not> bgp_flag_check b BGP_FLAG_COST_COMMUNITY_IGNORE
          then ecommunity_cost_cmp (attr_ecommunity (ri_attr new)) (attr_ecommunity (ri_attr exist)) ECOMMUNITY_COST_POI_IGP
          else Some 0);
       decide (cost_community > 0) (cost_community < 0) (
       if \<not> bgp_flag_check b BGP_FLAG_COMPARE_ROUTER_ID \<and> sn = BGP_PEER_EBGP \<and> se = BGP_PEER_EBGP
       then decide (CHECK_FLAG (ri_flags new) BGP_INFO_SELECTED) (CHECK_FLAG (ri_flags exist) BGP_INFO_SELECTED) (cmp_tie new exist)
       else cmp_tie new exist)
     }))))))"

definition bgp_info_cmp :: "bgp \<Rightarrow> bgp_info option \<Rightarrow> bgp_info option \<Rightarrow> bool option" where
  "bgp_info_cmp b new_p exist_p =
     (case new_p of None \<Rightarrow> Some False
      | Some new \<Rightarrow>
     (case exist_p of None \<Rightarrow> Some True
      | Some exist \<Rightarrow>
     (let an = ri_attr new; ae = ri_attr exist in
     decide (weight an > weight ae) (weight an < weight ae) (
     decide (pref_value b an > pref_value b ae) (pref_value b an < pref_value b ae) (
     decide (sub_type new = BGP_ROUTE_STATIC) (sub_type exist = BGP_ROUTE_STATIC) (
     decide (sub_type new = BGP_ROUTE_REDISTRIBUTE) (sub_type exist = BGP_ROUTE_REDISTRIBUTE) (
     decide (sub_type new = BGP_ROUTE_AGGREGATE) (sub_type exist = BGP_ROUTE_AGGREGATE) (
     decide (\<not> bgp_flag_check b BGP_FLAG_ASPATH_IGNORE \<and> as_count (attr_aspath an) < as_count (attr_aspath ae))
            (\<not> bgp_flag_check b BGP_FLAG_ASPATH_IGNORE \<and> as_count (attr_aspath an) > as_count (attr_aspath ae)) (
     decide (origin an < origin ae) (origin an > origin ae) (
     do {
       m \<leftarrow> med_compared b (attr_aspath an) (attr_aspath ae);
       decide (m \<and> bgp_med_value an b < bgp_med_value ae b) (m \<and> bgp_med_value an b > bgp_med_value ae b)
         (cmp_peer b new exist)
     })))))))))) "

subsection \<open>Selection\<close>

definition ri_set :: "bgp_info list \<Rightarrow> nat \<Rightarrow> u16 \<Rightarrow> bgp_info list" where
  "ri_set rs i f = rs[i := (rs ! i)\<lparr>ri_flags := SET_FLAG (ri_flags (rs ! i)) f\<rparr>]"

definition ri_unset :: "bgp_info list \<Rightarrow> nat \<Rightarrow> u16 \<Rightarrow> bgp_info list" where
  "ri_unset rs i f = rs[i := (rs ! i)\<lparr>ri_flags := UNSET_FLAG (ri_flags (rs ! i)) f\<rparr>]"

definition dmed_skip :: "bgp_info \<Rightarrow> bool" where
  "dmed_skip r \<longleftrightarrow> CHECK_FLAG (ri_flags r) BGP_INFO_DMED_CHECK \<or> BGP_INFO_HOLDDOWN r"

definition same_neighbor_as :: "aspath \<Rightarrow> aspath \<Rightarrow> bool option" where
  "same_neighbor_as a1 a2 = do {
     l \<leftarrow> aspath_cmp_left a1 a2;
     if l then Some True else aspath_cmp_left_confed a1 a2
   }"

text \<open>The loop over \<open>ri2\<close>, the routes behind \<open>ri1\<close>.\<close>

fun dmed_inner :: "bgp \<Rightarrow> nat \<Rightarrow> nat list \<Rightarrow> bgp_info list \<times> nat \<Rightarrow> (bgp_info list \<times> nat) option" where
  "dmed_inner b ri1 [] (rs, new_select) = Some (rs, new_select)"
| "dmed_inner b ri1 (ri2 # is) (rs, new_select) =
     (if dmed_skip (rs ! ri2) then dmed_inner b ri1 is (rs, new_select)
      else do {
        s \<leftarrow> same_neighbor_as (attr_aspath (ri_attr (rs ! ri1))) (attr_aspath (ri_attr (rs ! ri2)));
        if s
        then do {
          c \<leftarrow> bgp_info_cmp b (Some (rs ! ri2)) (Some (rs ! new_select));
          let (rs, new_select) = (if c then (ri_unset rs new_select BGP_INFO_DMED_SELECTED, ri2) else (rs, new_select));
          dmed_inner b ri1 is (ri_set rs ri2 BGP_INFO_DMED_CHECK, new_select)
        }
        else dmed_inner b ri1 is (rs, new_select)
      })"

text \<open>The loop over \<open>ri1\<close>.\<close>

fun dmed_loop :: "bgp \<Rightarrow> nat list \<Rightarrow> bgp_info list \<Rightarrow> bgp_info list option" where
  "dmed_loop b [] rs = Some rs"
| "dmed_loop b (ri1 # is) rs =
     (if dmed_skip (rs ! ri1) then dmed_loop b is rs
      else do {
        (rs, new_select) \<leftarrow> dmed_inner b ri1 is (rs, ri1);
        dmed_loop b is (ri_set (ri_set rs new_select BGP_INFO_DMED_CHECK) new_select BGP_INFO_DMED_SELECTED)
      })"

text \<open>The loop that finds the old and the new selected route.\<close>

fun select_loop :: "bgp \<Rightarrow> nat list \<Rightarrow> bgp_info list \<times> nat option \<times> nat option \<Rightarrow> (bgp_info list \<times> nat option \<times> nat option) option" where
  "select_loop b [] s = Some s"
| "select_loop b (ri # is) (rs, old_select, new_select) =
     (let old_select = (if CHECK_FLAG (ri_flags (rs ! ri)) BGP_INFO_SELECTED then Some ri else old_select) in
      if BGP_INFO_HOLDDOWN (rs ! ri) then select_loop b is (rs, old_select, new_select)
      else if bgp_flag_check b BGP_FLAG_DETERMINISTIC_MED \<and> \<not> CHECK_FLAG (ri_flags (rs ! ri)) BGP_INFO_DMED_SELECTED
      then select_loop b is (ri_unset rs ri BGP_INFO_DMED_CHECK, old_select, new_select)
      else do {
        let rs = ri_unset (ri_unset rs ri BGP_INFO_DMED_CHECK) ri BGP_INFO_DMED_SELECTED;
        c \<leftarrow> bgp_info_cmp b (Some (rs ! ri)) (map_option (\<lambda>i. rs ! i) new_select);
        select_loop b is (rs, old_select, if c then Some ri else new_select)
      })"

text \<open>What \<open>bgp_process\<close> asks of the modules for announcements and for the kernel.\<close>

datatype bgp_out = Adj_out_set peer bgp_info | Adj_out_unset peer | Zebra_announce bgp_info | Zebra_withdraw bgp_info

definition announce_peers :: "(bgp_info \<Rightarrow> peer \<Rightarrow> bool) \<Rightarrow> bgp_info option \<Rightarrow> peer list \<Rightarrow> bgp_out list" where
  "announce_peers announce_check new peers =
     concat (map (\<lambda>p.
       if \<not> established p then []
       else if \<not> afc_nego p then []
       else if CHECK_FLAG (af_sflags p) PEER_STATUS_ORF_WAIT_REFRESH then []
       else case new of
              Some r \<Rightarrow> if announce_check r p then [Adj_out_set p r] else [Adj_out_unset p]
            | None \<Rightarrow> [Adj_out_unset p]) peers)"

definition fib_route :: "bgp_info option \<Rightarrow> bool" where
  "fib_route r = (case r of None \<Rightarrow> False | Some ri \<Rightarrow> ri_type ri = ZEBRA_ROUTE_BGP \<and> sub_type ri = BGP_ROUTE_NORMAL)"

definition fib_update :: "bgp_info option \<Rightarrow> bgp_info option \<Rightarrow> bgp_out list" where
  "fib_update old new =
     (if fib_route new then map Zebra_announce (case new of None \<Rightarrow> [] | Some r \<Rightarrow> [r])
      else if fib_route old then map Zebra_withdraw (case old of None \<Rightarrow> [] | Some r \<Rightarrow> [r])
      else [])"

text \<open>\<open>announce_check\<close> is the answer of \<open>bgp_announce_check\<close>; \<open>fib\<close> says that the table is the unicast table of
  the unnamed instance and that the option not to touch the kernel is not set.\<close>

definition bgp_process ::
  "bgp \<Rightarrow> (bgp_info \<Rightarrow> peer \<Rightarrow> bool) \<Rightarrow> peer list \<Rightarrow> bool \<Rightarrow> bgp_info list \<Rightarrow> (bgp_info list \<times> bgp_out list) option" where
  "bgp_process b announce_check peers fib rs = do {
     rs \<leftarrow> (if bgp_flag_check b BGP_FLAG_DETERMINISTIC_MED then dmed_loop b [0..<length rs] rs else Some rs);
     (rs, old_select, new_select) \<leftarrow> select_loop b [0..<length rs] (rs, None, None);
     if old_select \<noteq> None \<and> old_select = new_select \<and> \<not> CHECK_FLAG (ri_flags (rs ! the old_select)) BGP_INFO_ATTR_CHANGED
     then Some (rs, if CHECK_FLAG (ri_flags (rs ! the old_select)) BGP_INFO_IGP_CHANGED then [Zebra_announce (rs ! the old_select)] else [])
     else do {
       let rs = (case old_select of None \<Rightarrow> rs | Some i \<Rightarrow> ri_unset rs i BGP_INFO_SELECTED);
       let rs = (case new_select of None \<Rightarrow> rs | Some i \<Rightarrow> ri_unset (ri_set rs i BGP_INFO_SELECTED) i BGP_INFO_ATTR_CHANGED);
       let new = map_option (\<lambda>i. rs ! i) new_select;
       let old = map_option (\<lambda>i. rs ! i) old_select;
       Some (rs, announce_peers announce_check new peers @ (if fib then fib_update old new else []))
     }
   }"

section \<open>Flags\<close>

lemmas bgp_info_flags = BGP_INFO_IGP_CHANGED_def BGP_INFO_DAMPED_def BGP_INFO_HISTORY_def BGP_INFO_SELECTED_def BGP_INFO_VALID_def
  BGP_INFO_ATTR_CHANGED_def BGP_INFO_DMED_CHECK_def BGP_INFO_DMED_SELECTED_def

lemma ri_set_length [simp]: "length (ri_set rs i f) = length rs" "length (ri_unset rs i f) = length rs"
  by (simp_all add: ri_set_def ri_unset_def)

section \<open>Marks of the deterministic comparison\<close>

text \<open>A route without the two marks that the first loops set and the last loop clears.\<close>

definition clean :: "bgp_info \<Rightarrow> bgp_info" where
  "clean r = r\<lparr>ri_flags := UNSET_FLAG (UNSET_FLAG (ri_flags r) BGP_INFO_DMED_CHECK) BGP_INFO_DMED_SELECTED\<rparr>"

definition dmed_free :: "bgp_info \<Rightarrow> bool" where
  "dmed_free r \<longleftrightarrow> \<not> CHECK_FLAG (ri_flags r) BGP_INFO_DMED_CHECK \<and> \<not> CHECK_FLAG (ri_flags r) BGP_INFO_DMED_SELECTED"

lemma unset_absent: "\<not> CHECK_FLAG v f \<Longrightarrow> UNSET_FLAG v f = v"
proof -
  assume a: "\<not> CHECK_FLAG v f"
  have "bit (v AND NOT f) n = bit v n" for n
  proof -
    have "\<not> bit (v AND f) n" using a by (simp add: CHECK_FLAG_def)
    then show ?thesis by (auto simp: bit_and_iff bit_not_iff dest: bit_imp_le_length)
  qed
  then show ?thesis unfolding UNSET_FLAG_def by (intro bit_word_eqI) simp
qed

lemma clean_dmed_free: "dmed_free r \<Longrightarrow> clean r = r"
  by (simp add: clean_def dmed_free_def unset_absent)

lemma UNSET_FLAG_set: "UNSET_FLAG (SET_FLAG v f) f = UNSET_FLAG v f" "UNSET_FLAG (UNSET_FLAG v f) f = UNSET_FLAG v f"
  "UNSET_FLAG (UNSET_FLAG v f) g = UNSET_FLAG (UNSET_FLAG v g) f"
  by (simp_all add: UNSET_FLAG_def SET_FLAG_def bit.conj_disj_distrib and.assoc and.left_commute and.commute)

lemma clean_marks [simp]:
  assumes "f = BGP_INFO_DMED_CHECK \<or> f = BGP_INFO_DMED_SELECTED"
  shows "clean (r\<lparr>ri_flags := SET_FLAG (ri_flags r) f\<rparr>) = clean r" "clean (r\<lparr>ri_flags := UNSET_FLAG (ri_flags r) f\<rparr>) = clean r"
proof -
  let ?a = BGP_INFO_DMED_CHECK and ?b = BGP_INFO_DMED_SELECTED
  have "UNSET_FLAG (UNSET_FLAG (SET_FLAG v f) ?a) ?b = UNSET_FLAG (UNSET_FLAG v ?a) ?b" for v
    using assms by (metis UNSET_FLAG_set(1,3))
  moreover have "UNSET_FLAG (UNSET_FLAG (UNSET_FLAG v f) ?a) ?b = UNSET_FLAG (UNSET_FLAG v ?a) ?b" for v
    using assms by (metis UNSET_FLAG_set(2,3))
  ultimately show "clean (r\<lparr>ri_flags := SET_FLAG (ri_flags r) f\<rparr>) = clean r" "clean (r\<lparr>ri_flags := UNSET_FLAG (ri_flags r) f\<rparr>) = clean r"
    by (simp_all add: clean_def)
qed

lemma check_clean [simp]:
  "f AND BGP_INFO_DMED_CHECK = 0 \<Longrightarrow> f AND BGP_INFO_DMED_SELECTED = 0 \<Longrightarrow> CHECK_FLAG (ri_flags (clean r)) f = CHECK_FLAG (ri_flags r) f"
  by (simp add: clean_def and.commute)

lemma clean_fields [simp]:
  "ri_attr (clean r) = ri_attr r" "ri_peer (clean r) = ri_peer r" "sub_type (clean r) = sub_type r" "igpmetric (clean r) = igpmetric r"
  "ri_type (clean r) = ri_type r"
  by (simp_all add: clean_def)

lemma holddown_clean: "BGP_INFO_HOLDDOWN (clean r) = BGP_INFO_HOLDDOWN r"
  by (simp add: BGP_INFO_HOLDDOWN_def) (simp add: bgp_info_flags)

lemma selected_clean: "CHECK_FLAG (ri_flags (clean r)) BGP_INFO_SELECTED = CHECK_FLAG (ri_flags r) BGP_INFO_SELECTED"
  by (rule check_clean) (simp_all add: bgp_info_flags)

text \<open>The comparison reads nothing of the flags but \<open>BGP_INFO_SELECTED\<close>.\<close>

lemma cmp_clean: "bgp_info_cmp b (Some (clean r)) (Some (clean s)) = bgp_info_cmp b (Some r) (Some s)"
  by (simp add: bgp_info_cmp_def cmp_peer_def cmp_tie_def router_id_of_def cluster_of_def Let_def selected_clean)

lemma cmp_clean_eq:
  "clean r = clean r' \<Longrightarrow> clean s = clean s' \<Longrightarrow> bgp_info_cmp b (Some r) (Some s) = bgp_info_cmp b (Some r') (Some s')"
  by (metis cmp_clean)

text \<open>The list \<open>rs\<close> is \<open>rs0\<close> with the marks of the routes in \<open>C\<close> and \<open>S\<close>.\<close>

definition marked :: "bgp_info list \<Rightarrow> nat set \<Rightarrow> nat set \<Rightarrow> bgp_info list \<Rightarrow> bool" where
  "marked rs0 C S rs \<longleftrightarrow> map clean rs = map clean rs0 \<and>
     (\<forall>i<length rs. (CHECK_FLAG (ri_flags (rs ! i)) BGP_INFO_DMED_CHECK \<longleftrightarrow> i \<in> C) \<and>
                     (CHECK_FLAG (ri_flags (rs ! i)) BGP_INFO_DMED_SELECTED \<longleftrightarrow> i \<in> S))"

lemma marked_length: "marked rs0 C S rs \<Longrightarrow> length rs = length rs0"
  by (metis length_map marked_def)

lemma marked_clean: "marked rs0 C S rs \<Longrightarrow> i < length rs0 \<Longrightarrow> clean (rs ! i) = clean (rs0 ! i)"
  using marked_length by (metis marked_def nth_map)

lemma marked_refl: "\<forall>r\<in>set rs. dmed_free r \<Longrightarrow> marked rs {} {} rs"
  by (simp add: marked_def dmed_free_def)

lemma marked_none: "marked rs0 {} {} rs \<Longrightarrow> \<forall>r\<in>set rs0. dmed_free r \<Longrightarrow> rs = rs0"
proof -
  assume m: "marked rs0 {} {} rs" and f: "\<forall>r\<in>set rs0. dmed_free r"
  have "\<forall>r\<in>set rs. dmed_free r" using m by (auto simp: marked_def dmed_free_def in_set_conv_nth)
  then have "map clean rs = rs" "map clean rs0 = rs0" using f by (auto simp: clean_dmed_free intro!: map_idI)
  then show "rs = rs0" using m by (simp add: marked_def)
qed

lemma map_clean_upd: "i < length rs \<Longrightarrow> clean x = clean (rs ! i) \<Longrightarrow> map clean (rs[i := x]) = map clean rs"
  by (metis list_update_id map_update nth_map)

lemma marked_upd:
  assumes "marked rs0 C S rs" "i < length rs0"
  shows "marked rs0 (insert i C) S (ri_set rs i BGP_INFO_DMED_CHECK)"
    and "marked rs0 C (insert i S) (ri_set rs i BGP_INFO_DMED_SELECTED)"
    and "marked rs0 (C - {i}) S (ri_unset rs i BGP_INFO_DMED_CHECK)"
    and "marked rs0 C (S - {i}) (ri_unset rs i BGP_INFO_DMED_SELECTED)"
proof -
  have l: "i < length rs" using assms marked_length by metis
  have f: "BGP_INFO_DMED_CHECK AND BGP_INFO_DMED_SELECTED = 0" "BGP_INFO_DMED_SELECTED AND BGP_INFO_DMED_CHECK = 0"
    "BGP_INFO_DMED_CHECK \<noteq> 0" "BGP_INFO_DMED_SELECTED \<noteq> 0" by (simp_all add: bgp_info_flags)
  show "marked rs0 (insert i C) S (ri_set rs i BGP_INFO_DMED_CHECK)"
    "marked rs0 C (insert i S) (ri_set rs i BGP_INFO_DMED_SELECTED)"
    "marked rs0 (C - {i}) S (ri_unset rs i BGP_INFO_DMED_CHECK)"
    "marked rs0 C (S - {i}) (ri_unset rs i BGP_INFO_DMED_SELECTED)"
    using assms(1) l f by (simp_all add: marked_def ri_set_def ri_unset_def map_clean_upd nth_list_update)
qed

section \<open>The loops on positions\<close>

text \<open>
  The selection as a computation on positions: \<open>held\<close> says that a route is out of use, \<open>g i j\<close> that two
  routes come from the same neighboring AS, \<open>le i j\<close> that \<open>bgp_info_cmp\<close> prefers \<open>i\<close> to \<open>j\<close>.
\<close>

fun scan :: "('a \<Rightarrow> 'a \<Rightarrow> bool) \<Rightarrow> 'a list \<Rightarrow> 'a option \<Rightarrow> 'a option" where
  "scan le [] s = s"
| "scan le (i # is) s = scan le is (case s of None \<Rightarrow> Some i | Some k \<Rightarrow> if le i k then Some i else Some k)"

fun group_scan :: "('a \<Rightarrow> bool) \<Rightarrow> ('a \<Rightarrow> 'a \<Rightarrow> bool) \<Rightarrow> ('a \<Rightarrow> 'a \<Rightarrow> bool) \<Rightarrow> 'a \<Rightarrow> 'a list \<Rightarrow> 'a set \<times> 'a \<Rightarrow> 'a set \<times> 'a" where
  "group_scan held g le i [] (C, s) = (C, s)"
| "group_scan held g le i (j # js) (C, s) =
     (if j \<in> C \<or> held j \<or> \<not> g i j then group_scan held g le i js (C, s)
      else group_scan held g le i js (insert j C, if le j s then j else s))"

fun groups_scan :: "('a \<Rightarrow> bool) \<Rightarrow> ('a \<Rightarrow> 'a \<Rightarrow> bool) \<Rightarrow> ('a \<Rightarrow> 'a \<Rightarrow> bool) \<Rightarrow> 'a list \<Rightarrow> 'a set \<times> 'a set \<Rightarrow> 'a set \<times> 'a set" where
  "groups_scan held g le [] (C, S) = (C, S)"
| "groups_scan held g le (i # is) (C, S) =
     (if i \<in> C \<or> held i then groups_scan held g le is (C, S)
      else let (C', s) = group_scan held g le i is (C, i) in groups_scan held g le is (insert s C', insert s S))"

definition held_at :: "bgp_info list \<Rightarrow> nat \<Rightarrow> bool" where
  "held_at rs i = BGP_INFO_HOLDDOWN (rs ! i)"

definition neighbor_at :: "bgp_info list \<Rightarrow> nat \<Rightarrow> nat \<Rightarrow> bool" where
  "neighbor_at rs i j = (same_neighbor_as (attr_aspath (ri_attr (rs ! i))) (attr_aspath (ri_attr (rs ! j))) = Some True)"

definition le_at :: "bgp \<Rightarrow> bgp_info list \<Rightarrow> nat \<Rightarrow> nat \<Rightarrow> bool" where
  "le_at b rs i j = (bgp_info_cmp b (Some (rs ! i)) (Some (rs ! j)) = Some True)"

text \<open>No comparison of two routes in use fails.\<close>

definition cmp_safe :: "bgp \<Rightarrow> bgp_info list \<Rightarrow> bool" where
  "cmp_safe b rs \<longleftrightarrow> (\<forall>r\<in>set rs. \<forall>s\<in>set rs. \<not> BGP_INFO_HOLDDOWN r \<longrightarrow> \<not> BGP_INFO_HOLDDOWN s \<longrightarrow>
     bgp_info_cmp b (Some r) (Some s) \<noteq> None \<and> same_neighbor_as (attr_aspath (ri_attr r)) (attr_aspath (ri_attr s)) \<noteq> None)"

lemma marked_holddown: "marked rs0 C S rs \<Longrightarrow> i < length rs0 \<Longrightarrow> BGP_INFO_HOLDDOWN (rs ! i) = held_at rs0 i"
  by (metis held_at_def holddown_clean marked_clean)

lemma marked_attr: "marked rs0 C S rs \<Longrightarrow> i < length rs0 \<Longrightarrow> ri_attr (rs ! i) = ri_attr (rs0 ! i)"
  by (metis clean_fields(1) marked_clean)

lemma marked_selected:
  "marked rs0 C S rs \<Longrightarrow> i < length rs0 \<Longrightarrow>
     CHECK_FLAG (ri_flags (rs ! i)) BGP_INFO_SELECTED = CHECK_FLAG (ri_flags (rs0 ! i)) BGP_INFO_SELECTED"
  by (metis selected_clean marked_clean)

lemma marked_dmed:
  "marked rs0 C S rs \<Longrightarrow> i < length rs0 \<Longrightarrow> CHECK_FLAG (ri_flags (rs ! i)) BGP_INFO_DMED_CHECK \<longleftrightarrow> i \<in> C"
  "marked rs0 C S rs \<Longrightarrow> i < length rs0 \<Longrightarrow> CHECK_FLAG (ri_flags (rs ! i)) BGP_INFO_DMED_SELECTED \<longleftrightarrow> i \<in> S"
  using marked_length [of rs0 C S rs] by (auto simp: marked_def)

lemma marked_skip: "marked rs0 C S rs \<Longrightarrow> i < length rs0 \<Longrightarrow> dmed_skip (rs ! i) \<longleftrightarrow> i \<in> C \<or> held_at rs0 i"
  by (simp add: dmed_skip_def marked_dmed marked_holddown)

lemma safe_cmp:
  assumes safe: "cmp_safe b rs0" and "marked rs0 C S rs" "i < length rs0" "j < length rs0" "\<not> held_at rs0 i" "\<not> held_at rs0 j"
  shows "bgp_info_cmp b (Some (rs ! i)) (Some (rs ! j)) = Some (le_at b rs0 i j)"
proof -
  have "bgp_info_cmp b (Some (rs ! i)) (Some (rs ! j)) = bgp_info_cmp b (Some (rs0 ! i)) (Some (rs0 ! j))"
    using assms(2-4) by (intro cmp_clean_eq) (simp_all add: marked_clean)
  moreover have "bgp_info_cmp b (Some (rs0 ! i)) (Some (rs0 ! j)) \<noteq> None"
    using safe assms(3-6) by (simp add: cmp_safe_def held_at_def)
  ultimately show ?thesis by (auto simp: le_at_def)
qed

lemma safe_neighbor:
  assumes safe: "cmp_safe b rs0" and "marked rs0 C S rs" "i < length rs0" "j < length rs0" "\<not> held_at rs0 i" "\<not> held_at rs0 j"
  shows "same_neighbor_as (attr_aspath (ri_attr (rs ! i))) (attr_aspath (ri_attr (rs ! j))) = Some (neighbor_at rs0 i j)"
proof -
  have "same_neighbor_as (attr_aspath (ri_attr (rs0 ! i))) (attr_aspath (ri_attr (rs0 ! j))) \<noteq> None"
    using safe assms(3-6) by (simp add: cmp_safe_def held_at_def)
  then show ?thesis using marked_attr [OF assms(2)] assms(3,4) by (auto simp: neighbor_at_def)
qed

lemma dmed_inner_refines:
  assumes safe: "cmp_safe b rs0"
  assumes "marked rs0 C S rs" "i < length rs0" "s < length rs0" "\<forall>j\<in>set js. j < length rs0"
    and "\<not> held_at rs0 i" "\<not> held_at rs0 s" "s \<notin> S" "S \<subseteq> C"
  shows "\<exists>rs' C' s'. dmed_inner b i js (rs, s) = Some (rs', s') \<and>
     group_scan (held_at rs0) (neighbor_at rs0) (le_at b rs0) i js (C, s) = (C', s') \<and> marked rs0 C' S rs' \<and>
     s' < length rs0 \<and> \<not> held_at rs0 s' \<and> S \<subseteq> C'"
  using assms(2-)
proof (induction js arbitrary: rs C s)
  case Nil
  then show ?case by auto
next
  case (Cons j js)
  have j: "j < length rs0" and js: "\<forall>j\<in>set js. j < length rs0" using Cons.prems(4) by auto
  note m = Cons.prems(1)
  consider "j \<in> C \<or> held_at rs0 j" | "j \<notin> C" "\<not> held_at rs0 j" "\<not> neighbor_at rs0 i j" | "j \<notin> C" "\<not> held_at rs0 j" "neighbor_at rs0 i j"
    by blast
  then show ?case
  proof cases
    case 1
    then show ?thesis using Cons.IH [OF m Cons.prems(2,3) js Cons.prems(5-8)] marked_skip [OF m j] by (elim disjE) simp_all
  next
    case 2
    then show ?thesis
      using Cons.IH [OF m Cons.prems(2,3) js Cons.prems(5-8)] marked_skip [OF m j] safe_neighbor [OF safe m Cons.prems(2) j Cons.prems(5)]
      by simp
  next
    case 3
    let ?le = "le_at b rs0 j s"
    let ?rs = "if ?le then ri_unset rs s BGP_INFO_DMED_SELECTED else rs"
    let ?s = "if ?le then j else s"
    have m1: "marked rs0 C S ?rs"
      using marked_upd(4) [OF m Cons.prems(3)] m Cons.prems(7) by simp
    have m2: "marked rs0 (insert j C) S (ri_set ?rs j BGP_INFO_DMED_CHECK)" by (rule marked_upd(1) [OF m1 j])
    have e: "dmed_inner b i (j # js) (rs, s) = dmed_inner b i js (ri_set ?rs j BGP_INFO_DMED_CHECK, ?s)"
      using 3 marked_skip [OF m j] safe_neighbor [OF safe m Cons.prems(2) j Cons.prems(5)] safe_cmp [OF safe m j Cons.prems(3) _ Cons.prems(6)]
      by simp
    have "?s < length rs0" "\<not> held_at rs0 ?s" "?s \<notin> S" "S \<subseteq> insert j C" using 3 j Cons.prems(3,6,7,8) by auto
    from Cons.IH [OF m2 Cons.prems(2) this(1) js Cons.prems(5) this(2-4)] show ?thesis
      unfolding e using 3 by simp
  qed
qed

lemma dmed_loop_refines:
  assumes safe: "cmp_safe b rs0"
  assumes "marked rs0 C S rs" "\<forall>i\<in>set is. i < length rs0" "S \<subseteq> C"
  shows "\<exists>rs' C' S'. dmed_loop b is rs = Some rs' \<and>
     groups_scan (held_at rs0) (neighbor_at rs0) (le_at b rs0) is (C, S) = (C', S') \<and> marked rs0 C' S' rs'"
  using assms(2-)
proof (induction "is" arbitrary: rs C S)
  case Nil
  then show ?case by auto
next
  case (Cons i "is")
  note m = Cons.prems(1)
  have i: "i < length rs0" and is': "\<forall>i\<in>set is. i < length rs0" using Cons.prems(2) by auto
  show ?case
  proof (cases "i \<in> C \<or> held_at rs0 i")
    case True
    then show ?thesis using Cons.IH [OF m is' Cons.prems(3)] marked_skip [OF m i] by simp
  next
    case False
    then have f: "i \<notin> C" "\<not> held_at rs0 i" "i \<notin> S" using Cons.prems(3) by auto
    obtain rs1 C1 s1 where r: "dmed_inner b i is (rs, i) = Some (rs1, s1)"
      "group_scan (held_at rs0) (neighbor_at rs0) (le_at b rs0) i is (C, i) = (C1, s1)" "marked rs0 C1 S rs1"
      "s1 < length rs0" "S \<subseteq> C1"
      using dmed_inner_refines [OF safe m i i is' f(2) f(2) f(3) Cons.prems(3)] by auto
    have m2: "marked rs0 (insert s1 C1) (insert s1 S) (ri_set (ri_set rs1 s1 BGP_INFO_DMED_CHECK) s1 BGP_INFO_DMED_SELECTED)"
      by (intro marked_upd(2) marked_upd(1) r)
    have "insert s1 S \<subseteq> insert s1 C1" using r(5) by auto
    from Cons.IH [OF m2 is' this] show ?thesis using False r(1,2) marked_skip [OF m i] by simp
  qed
qed

text \<open>The routes the last loop compares.\<close>

definition candidates :: "bgp \<Rightarrow> bgp_info list \<Rightarrow> nat set \<Rightarrow> nat list \<Rightarrow> nat list" where
  "candidates b rs0 S is = filter (\<lambda>i. \<not> held_at rs0 i \<and> (bgp_flag_check b BGP_FLAG_DETERMINISTIC_MED \<longrightarrow> i \<in> S)) is"

definition old_of :: "bgp_info list \<Rightarrow> nat list \<Rightarrow> nat option \<Rightarrow> nat option" where
  "old_of rs0 is s = fold (\<lambda>i s. if CHECK_FLAG (ri_flags (rs0 ! i)) BGP_INFO_SELECTED then Some i else s) is s"

lemma select_loop_refines:
  assumes safe: "cmp_safe b rs0"
  assumes "marked rs0 C S rs" "\<forall>i\<in>set is. i < length rs0" "distinct is"
    and "\<forall>k. new = Some k \<longrightarrow> k < length rs0 \<and> \<not> held_at rs0 k"
  shows "\<exists>rs'. select_loop b is (rs, old, new) = Some (rs', old_of rs0 is old, scan (le_at b rs0) (candidates b rs0 S is) new) \<and>
     marked rs0 (C - {i\<in>set is. \<not> held_at rs0 i}) (S - {i\<in>set is. \<not> held_at rs0 i}) rs'"
  using assms(2-)
proof (induction "is" arbitrary: rs C S old new)
  case Nil
  then show ?case by (simp add: old_of_def candidates_def)
next
  case (Cons i "is")
  note m = Cons.prems(1)
  have i: "i < length rs0" and is': "\<forall>i\<in>set is. i < length rs0" and d: "distinct is" "i \<notin> set is" using Cons.prems(2,3) by auto
  let ?old = "if CHECK_FLAG (ri_flags (rs0 ! i)) BGP_INFO_SELECTED then Some i else old"
  have old: "old_of rs0 (i # is) old = old_of rs0 is ?old" by (simp add: old_of_def)
  let ?N = "{i\<in>set is. \<not> held_at rs0 i}"
  consider "held_at rs0 i" | "\<not> held_at rs0 i" "bgp_flag_check b BGP_FLAG_DETERMINISTIC_MED" "i \<notin> S"
    | "\<not> held_at rs0 i" "bgp_flag_check b BGP_FLAG_DETERMINISTIC_MED \<longrightarrow> i \<in> S" by blast
  then show ?case
  proof cases
    case 1
    have "{j\<in>set (i # is). \<not> held_at rs0 j} = ?N" using 1 by auto
    then show ?thesis
      using Cons.IH [OF m is' d(1) Cons.prems(4), of ?old] 1 old
      by (simp add: marked_holddown [OF m i] marked_selected [OF m i] candidates_def)
  next
    case 2
    have m1: "marked rs0 (C - {i}) S (ri_unset rs i BGP_INFO_DMED_CHECK)" by (rule marked_upd(3) [OF m i])
    have e: "C - {j\<in>set (i # is). \<not> held_at rs0 j} = C - {i} - ?N" "S - {j\<in>set (i # is). \<not> held_at rs0 j} = S - ?N" using 2 by auto
    show ?thesis
      unfolding e using Cons.IH [OF m1 is' d(1) Cons.prems(4), of ?old] 2 old
      by (simp add: marked_holddown [OF m i] marked_selected [OF m i] marked_dmed [OF m i] candidates_def)
  next
    case 3
    let ?rs = "ri_unset (ri_unset rs i BGP_INFO_DMED_CHECK) i BGP_INFO_DMED_SELECTED"
    have m1: "marked rs0 (C - {i}) (S - {i}) ?rs" by (intro marked_upd(4) marked_upd(3) m i)
    have e: "C - {j\<in>set (i # is). \<not> held_at rs0 j} = C - {i} - ?N" "S - {j\<in>set (i # is). \<not> held_at rs0 j} = S - {i} - ?N" using 3 by auto
    have ca: "candidates b rs0 (S - {i}) is = candidates b rs0 S is" unfolding candidates_def using d(2) by (intro filter_cong) auto
    have ci: "candidates b rs0 S (i # is) = i # candidates b rs0 S is" using 3 by (simp add: candidates_def)
    let ?new = "case new of None \<Rightarrow> Some i | Some k \<Rightarrow> if le_at b rs0 i k then Some i else Some k"
    have c: "bgp_info_cmp b (Some (?rs ! i)) (map_option (\<lambda>i. ?rs ! i) new) =
        Some (case new of None \<Rightarrow> True | Some k \<Rightarrow> le_at b rs0 i k)"
    proof (cases new)
      case None
      then show ?thesis by (simp add: bgp_info_cmp_def)
    next
      case (Some k)
      then show ?thesis using safe_cmp [OF safe m1 i] Cons.prems(4) 3(1) by simp
    qed
    have n: "(if (case new of None \<Rightarrow> True | Some k \<Rightarrow> le_at b rs0 i k) then Some i else new) = ?new" by (cases new) auto
    have "\<forall>k. ?new = Some k \<longrightarrow> k < length rs0 \<and> \<not> held_at rs0 k"
      using Cons.prems(4) i 3(1) by (auto split: option.splits if_splits)
    from Cons.IH [OF m1 is' d(1) this, of ?old] have IH: "\<exists>rs'. select_loop b is (?rs, ?old, ?new) =
        Some (rs', old_of rs0 is ?old, scan (le_at b rs0) (candidates b rs0 S is) ?new) \<and>
        marked rs0 (C - {i} - ?N) (S - {i} - ?N) rs'" by (simp only: ca)
    have run: "select_loop b (i # is) (rs, old, new) = select_loop b is (?rs, ?old, ?new)"
    proof -
      have h: "\<not> BGP_INFO_HOLDDOWN (rs ! i)" using 3(1) marked_holddown [OF m i] by simp
      have g: "\<not> (bgp_flag_check b BGP_FLAG_DETERMINISTIC_MED \<and> \<not> CHECK_FLAG (ri_flags (rs ! i)) BGP_INFO_DMED_SELECTED)"
        using 3(2) marked_dmed [OF m i] by simp
      show ?thesis
        unfolding select_loop.simps Let_def if_not_P [OF h] if_not_P [OF g] c marked_selected [OF m i] n [symmetric] by simp
    qed
    show ?thesis using IH unfolding e run old ci scan.simps by simp
  qed
qed

section \<open>Comparisons that return\<close>

text \<open>The leftmost AS of a path behind its confederation segments, and of a path inside the confederation.\<close>

definition left_value :: "aspath \<Rightarrow> u16 option option" where
  "left_value a = (case as_data a of None \<Rightarrow> Some None | Some d \<Rightarrow> do { p \<leftarrow> skip_confed d 0; left_as AS_SEQUENCE d p })"

definition confed_value :: "aspath \<Rightarrow> u16 option option" where
  "confed_value a = (case as_data a of None \<Rightarrow> Some None | Some d \<Rightarrow> left_as AS_CONFED_SEQUENCE d 0)"

definition ecom_ok :: "ecommunity option \<Rightarrow> bool" where
  "ecom_ok e = (case e of None \<Rightarrow> True | Some ecom \<Rightarrow> 8 * ecom_size ecom \<le> length (ecom_val ecom))"

text \<open>What a route in the table has: an AS path that ends behind its confederation segments (or has none), a
  complete extended communities attribute, and, when it was learned from a peer, the address of the peer.\<close>

definition route_ok :: "bgp_info \<Rightarrow> bool" where
  "route_ok r \<longleftrightarrow> left_value (attr_aspath (ri_attr r)) \<noteq> None \<and> confed_value (attr_aspath (ri_attr r)) \<noteq> None \<and>
     ecom_ok (attr_ecommunity (ri_attr r)) \<and>
     (sub_type r \<in> {BGP_ROUTE_STATIC, BGP_ROUTE_REDISTRIBUTE, BGP_ROUTE_AGGREGATE} \<or> su_remote (ri_peer r) \<noteq> None)"

lemma aspath_cmp_left_value:
  assumes "left_value a = Some v" "left_value c = Some w"
  shows "aspath_cmp_left a c = Some (v \<noteq> None \<and> v = w)"
  using assms
  by (cases "as_data a"; cases "as_data c")
     (auto simp: aspath_cmp_left_def left_value_def data_of_def same_left_def split: option.splits bind_splits)

lemma aspath_cmp_left_confed_value:
  assumes "confed_value a = Some v" "confed_value c = Some w"
  shows "aspath_cmp_left_confed a c = Some (as_count a = 0 \<and> as_count c = 0 \<and> v \<noteq> None \<and> v = w)"
  using assms
  by (cases "as_data a"; cases "as_data c")
     (auto simp: aspath_cmp_left_confed_def confed_value_def same_left_def split: option.splits bind_splits)

lemma decide_Some: "decide y n r = None \<Longrightarrow> r = None"
  by (auto simp: decide_def split: if_splits)

lemma cost_find_returns:
  assumes "ecom_ok e"
  shows "cost_find e poi i \<noteq> None"
  using assms
proof (induction e poi i rule: cost_find.induct)
  case (1 e poi i)
  show ?case
  proof (cases e)
    case None
    then show ?thesis by (subst cost_find.simps) simp
  next
    case (Some ecom)
    show ?thesis
    proof (cases "i < ecom_size ecom")
      case True
      then have "i * 8 + 8 \<le> length (ecom_val ecom)" using 1(2) Some by (simp add: ecom_ok_def)
      then have g: "mem_get (ecom_val ecom) (i * 8) 8 = Some (take 8 (drop (i * 8) (ecom_val ecom)))" by (simp add: mem_get_def)
      show ?thesis using 1(1) [OF Some True g] 1(2) True g by (subst cost_find.simps) (simp add: Some)
    next
      case False
      then show ?thesis by (subst cost_find.simps) (simp add: Some)
    qed
  qed
qed

lemma cost_find_bound: "cost_find (Some ecom) poi i = Some (Some (k, c)) \<Longrightarrow> i \<le> k \<and> k < ecom_size ecom"
proof (induction "Some ecom" poi i rule: cost_find.induct)
  case (1 poi i)
  from 1(2) have l: "i < ecom_size ecom" by (subst (asm) cost_find.simps) (auto split: if_splits)
  from 1(2) obtain v where v: "mem_get (ecom_val ecom) (i * 8) 8 = Some v"
    by (subst (asm) cost_find.simps) (auto split: if_splits bind_splits)
  show ?case
  proof (cases "word_cat (v ! 0) (v ! 1) = ECOMMUNITY_COST_COMMUNITY \<and> v ! 2 = poi")
    case True
    then show ?thesis using 1(2) l v by (subst (asm) cost_find.simps) simp
  next
    case False
    have "cost_find (Some ecom) poi (i + 1) = Some (Some (k, c))"
      using 1(2) l v False by (subst (asm) cost_find.simps) (auto split: if_splits)
    then show ?thesis using 1(1) [OF refl l v False] by simp
  qed
qed

text \<open>The bound of the outer loop is enough.\<close>

lemma cost_loop_returns:
  assumes "ecom_ok e1" "ecom_ok e2" and "(case e1 of None \<Rightarrow> 0 | Some ecom \<Rightarrow> ecom_size ecom - i) < n"
  shows "cost_loop n e1 e2 poi i j \<noteq> None"
  using assms(3)
proof (induction n arbitrary: i j)
  case (Suc n)
  obtain r1 r2 where r: "cost_find e1 poi i = Some r1" "cost_find e2 poi j = Some r2"
    using cost_find_returns assms(1,2) by (metis option.exhaust)
  show ?case
  proof (cases r1)
    case None
    then show ?thesis using r by simp
  next
    case r1: (Some x)
    obtain i' id1 val1 where x: "x = (i', id1, val1)" by (cases x)
    show ?thesis
    proof (cases r2)
      case None
      then show ?thesis using r r1 x by simp
    next
      case r2: (Some y)
      obtain j' id2 val2 where y: "y = (j', id2, val2)" by (cases y)
      obtain ecom where e: "e1 = Some ecom" using r(1) r1 by (cases e1) (auto simp: cost_find.simps)
      have "i \<le> i'" "i' < ecom_size ecom" using cost_find_bound r(1) r1 x e by blast+
      then have "(case e1 of None \<Rightarrow> 0 | Some ecom \<Rightarrow> ecom_size ecom - (i' + 1)) < n" using Suc.prems e by simp
      from Suc.IH [OF this] show ?thesis using r r1 x r2 y by simp
    qed
  qed
qed simp

lemma ecommunity_cost_cmp_returns:
  assumes "ecom_ok e1" "ecom_ok e2"
  shows "ecommunity_cost_cmp e1 e2 poi \<noteq> None"
proof -
  define n where "n = (case e1 of None \<Rightarrow> 1 | Some ecom \<Rightarrow> ecom_size ecom + 1)"
  have "(case e1 of None \<Rightarrow> 0 | Some ecom \<Rightarrow> ecom_size ecom - 0) < n" by (simp add: n_def split: option.splits)
  from cost_loop_returns [OF assms this] obtain c1 c2 where "cost_loop n e1 e2 poi 0 0 = Some (c1, c2)" by fastforce
  then show ?thesis unfolding ecommunity_cost_cmp_def n_def [symmetric] by (simp add: Let_def)
qed

lemma route_ok_safe:
  assumes "\<forall>r\<in>set rs. \<not> BGP_INFO_HOLDDOWN r \<longrightarrow> route_ok r"
  shows "cmp_safe b rs"
  unfolding cmp_safe_def
proof (intro ballI impI conjI)
  fix r s assume rs: "r \<in> set rs" "s \<in> set rs" and u: "\<not> BGP_INFO_HOLDDOWN r" "\<not> BGP_INFO_HOLDDOWN s"
  have ok: "route_ok r" "route_ok s" using assms rs u by auto
  obtain v w cv cw where v: "left_value (attr_aspath (ri_attr r)) = Some v" "left_value (attr_aspath (ri_attr s)) = Some w"
    "confed_value (attr_aspath (ri_attr r)) = Some cv" "confed_value (attr_aspath (ri_attr s)) = Some cw"
    using ok by (auto simp: route_ok_def)
  note left = aspath_cmp_left_value [OF v(1,2)] aspath_cmp_left_confed_value [OF v(3,4)]
  show "same_neighbor_as (attr_aspath (ri_attr r)) (attr_aspath (ri_attr s)) \<noteq> None"
    by (auto simp: same_neighbor_as_def left)
  obtain c where c: "ecommunity_cost_cmp (attr_ecommunity (ri_attr r)) (attr_ecommunity (ri_attr s)) ECOMMUNITY_COST_POI_IGP = Some c"
    using ecommunity_cost_cmp_returns [of "attr_ecommunity (ri_attr r)" "attr_ecommunity (ri_attr s)"] ok unfolding route_ok_def by blast
  have "med_compared b (attr_aspath (ri_attr r)) (attr_aspath (ri_attr s)) \<noteq> None"
    by (simp add: med_compared_def Let_def left) blast
  then obtain m where m: "med_compared b (attr_aspath (ri_attr r)) (attr_aspath (ri_attr s)) = Some m" by auto
  show "bgp_info_cmp b (Some r) (Some s) \<noteq> None"
  proof
    assume n: "bgp_info_cmp b (Some r) (Some s) = None"
    then have l: "sub_type r \<notin> {BGP_ROUTE_STATIC, BGP_ROUTE_REDISTRIBUTE, BGP_ROUTE_AGGREGATE}"
      "sub_type s \<notin> {BGP_ROUTE_STATIC, BGP_ROUTE_REDISTRIBUTE, BGP_ROUTE_AGGREGATE}"
      by (auto simp: bgp_info_cmp_def Let_def decide_def split: if_splits)
    from n have "cmp_peer b r s = None" by (auto simp: bgp_info_cmp_def Let_def m dest!: decide_Some)
    then have "cmp_tie r s = None" by (auto simp: cmp_peer_def Let_def c dest!: decide_Some split: if_splits)
    then have "su_remote (ri_peer r) = None \<or> su_remote (ri_peer s) = None"
      by (auto simp: cmp_tie_def Let_def dest!: decide_Some split: bind_splits)
    with ok l show False by (auto simp: route_ok_def)
  qed
qed

section \<open>What the loops compute\<close>

lemma scan_mem: "scan le is s = Some k \<Longrightarrow> k \<in> set is \<or> s = Some k"
  by (induction "is" arbitrary: s) (auto split: option.splits if_splits)

lemma scan_Some: "s \<noteq> None \<or> is \<noteq> [] \<Longrightarrow> scan le is s \<noteq> None"
  by (induction "is" arbitrary: s) (auto split: option.splits)

lemma group_scan_mem: "snd (group_scan held g le i js (C, s)) \<in> insert s {j\<in>set js. \<not> held j}"
  by (induction js arbitrary: C s) (auto split: if_splits, (metis (no_types, lifting) insertE mem_Collect_eq)+)

lemma groups_scan_mono: "S \<subseteq> snd (groups_scan held g le is (C, S))"
proof (induction "is" arbitrary: C S)
  case (Cons i "is")
  then show ?case using Cons.IH by (auto split: prod.splits) (meson insertI2 subsetD)
qed simp

lemma groups_scan_used: "snd (groups_scan held g le is (C, S)) \<subseteq> S \<union> {i\<in>set is. \<not> held i}"
proof (induction "is" arbitrary: C S)
  case (Cons i "is")
  show ?case
  proof (cases "i \<in> C \<or> held i")
    case True
    then show ?thesis using Cons [of C S] by auto
  next
    case False
    obtain C' s where s: "group_scan held g le i is (C, i) = (C', s)" by fastforce
    have "s \<in> insert i {j\<in>set is. \<not> held j}" using group_scan_mem [of held g le i "is" C i] s by simp
    then show ?thesis using Cons [of "insert s C'" "insert s S"] False s by auto
  qed
qed simp

lemma group_scan_checked: "fst (group_scan held g le i js (C, s)) \<subseteq> C \<union> {j\<in>set js. \<not> held j}"
proof (induction js arbitrary: C s)
  case (Cons j js)
  then show ?case using Cons.IH [of C s] Cons.IH [of "insert j C" "if le j s then j else s"] by auto
qed simp

lemma groups_scan_checked: "fst (groups_scan held g le is (C, S)) \<subseteq> C \<union> {i\<in>set is. \<not> held i}"
proof (induction "is" arbitrary: C S)
  case (Cons i "is")
  show ?case
  proof (cases "i \<in> C \<or> held i")
    case True
    then show ?thesis using Cons [of C S] by auto
  next
    case False
    obtain C' s where s: "group_scan held g le i is (C, i) = (C', s)" by fastforce
    have "s \<in> insert i {j\<in>set is. \<not> held j}" "C' \<subseteq> C \<union> {j\<in>set is. \<not> held j}"
      using group_scan_mem [of held g le i "is" C i] group_scan_checked [of held g le i "is" C i] s by simp_all
    then show ?thesis using Cons [of "insert s C'" "insert s S"] False s by auto
  qed
qed simp

lemma groups_scan_nonempty: "i \<in> set is \<Longrightarrow> i \<notin> C \<Longrightarrow> \<not> held i \<Longrightarrow> snd (groups_scan held g le is (C, S)) \<noteq> {}"
proof (induction "is" arbitrary: C S)
  case (Cons h "is")
  show ?case
  proof (cases "h \<in> C \<or> held h")
    case True
    then show ?thesis using Cons by auto
  next
    case False
    obtain C' s where s: "group_scan held g le h is (C, h) = (C', s)" by fastforce
    show ?thesis using groups_scan_mono [of "insert s S" held g le "is" "insert s C'"] False s by auto
  qed
qed simp

lemma old_of_Cons: "old_of rs (i # is) s = old_of rs is (if CHECK_FLAG (ri_flags (rs ! i)) BGP_INFO_SELECTED then Some i else s)"
  by (simp add: old_of_def)

lemma old_of_None: "old_of rs is s = None \<Longrightarrow> s = None \<and> (\<forall>i\<in>set is. \<not> CHECK_FLAG (ri_flags (rs ! i)) BGP_INFO_SELECTED)"
proof (induction "is" arbitrary: s)
  case (Cons i "is")
  show ?case
  proof (cases "CHECK_FLAG (ri_flags (rs ! i)) BGP_INFO_SELECTED")
    case True
    then show ?thesis using Cons.IH [of "Some i"] Cons.prems by (simp add: old_of_Cons) (metis+)?
  next
    case False
    then show ?thesis using Cons.IH [of s] Cons.prems by (simp add: old_of_Cons) (metis+)?
  qed
qed (simp add: old_of_def)

lemma old_of_Some: "old_of rs is s = Some i \<Longrightarrow> s = Some i \<or> i \<in> set is \<and> CHECK_FLAG (ri_flags (rs ! i)) BGP_INFO_SELECTED"
proof (induction "is" arbitrary: s)
  case (Cons k "is")
  show ?case
  proof (cases "CHECK_FLAG (ri_flags (rs ! k)) BGP_INFO_SELECTED")
    case True
    then show ?thesis using Cons.IH [of "Some k"] Cons.prems by (simp add: old_of_Cons) (metis+)?
  next
    case False
    then show ?thesis using Cons.IH [of s] Cons.prems by (simp add: old_of_Cons) (metis+)?
  qed
qed (simp add: old_of_def)

section \<open>The invariant of the route list\<close>

definition selected_at :: "bgp_info list \<Rightarrow> nat \<Rightarrow> bool" where
  "selected_at rs i \<longleftrightarrow> i < length rs \<and> CHECK_FLAG (ri_flags (rs ! i)) BGP_INFO_SELECTED"

text \<open>Between two runs no route is marked and at most one is selected.\<close>

definition sel_inv :: "bgp_info list \<Rightarrow> bool" where
  "sel_inv rs \<longleftrightarrow> (\<forall>r\<in>set rs. dmed_free r) \<and> (\<forall>i j. selected_at rs i \<longrightarrow> selected_at rs j \<longrightarrow> i = j)"

text \<open>A route without the two flags that \<open>bgp_process\<close> changes.\<close>

definition unselected :: "bgp_info \<Rightarrow> bgp_info" where
  "unselected r = r\<lparr>ri_flags := UNSET_FLAG (UNSET_FLAG (ri_flags r) BGP_INFO_SELECTED) BGP_INFO_ATTR_CHANGED\<rparr>"

text \<open>The selection of \<open>bgp_process\<close> as a whole, on a list without marks.\<close>

definition winners :: "bgp \<Rightarrow> bgp_info list \<Rightarrow> nat set" where
  "winners b rs = snd (groups_scan (held_at rs) (neighbor_at rs) (le_at b rs) [0..<length rs] ({}, {}))"

definition new_of :: "bgp \<Rightarrow> bgp_info list \<Rightarrow> nat option" where
  "new_of b rs = scan (le_at b rs) (candidates b rs (if bgp_flag_check b BGP_FLAG_DETERMINISTIC_MED then winners b rs else {}) [0..<length rs]) None"

definition finish_select :: "bgp_info list \<Rightarrow> nat option \<Rightarrow> nat option \<Rightarrow> bgp_info list" where
  "finish_select rs old new =
     (let rs = (case old of None \<Rightarrow> rs | Some i \<Rightarrow> ri_unset rs i BGP_INFO_SELECTED) in
      case new of None \<Rightarrow> rs | Some i \<Rightarrow> ri_unset (ri_set rs i BGP_INFO_SELECTED) i BGP_INFO_ATTR_CHANGED)"

lemma selection_refines:
  assumes free: "\<forall>r\<in>set rs. dmed_free r" and safe: "cmp_safe b rs"
  shows "\<exists>rs1. (if bgp_flag_check b BGP_FLAG_DETERMINISTIC_MED then dmed_loop b [0..<length rs] rs else Some rs) = Some rs1 \<and> length rs1 = length rs \<and>
     select_loop b [0..<length rs] (rs1, None, None) = Some (rs, old_of rs [0..<length rs] None, new_of b rs)"
proof -
  let ?n = "[0..<length rs]"
  have m0: "marked rs {} {} rs" by (rule marked_refl [OF free])
  have idx: "\<forall>i\<in>set ?n. i < length rs" by simp
  obtain rs1 C S where r1: "(if bgp_flag_check b BGP_FLAG_DETERMINISTIC_MED then dmed_loop b ?n rs else Some rs) = Some rs1"
    and m1: "marked rs C S rs1" and S: "S = (if bgp_flag_check b BGP_FLAG_DETERMINISTIC_MED then winners b rs else {})"
    and CS: "C \<subseteq> {i. i < length rs \<and> \<not> held_at rs i}" "S \<subseteq> {i. i < length rs \<and> \<not> held_at rs i}"
  proof (cases "bgp_flag_check b BGP_FLAG_DETERMINISTIC_MED")
    case False
    then show ?thesis using that [of rs "{}" "{}"] m0 by simp
  next
    case True
    obtain rs1 C S where d: "dmed_loop b ?n rs = Some rs1"
      "groups_scan (held_at rs) (neighbor_at rs) (le_at b rs) ?n ({}, {}) = (C, S)" "marked rs C S rs1"
      using dmed_loop_refines [OF safe m0 idx] by auto
    have "fst (groups_scan (held_at rs) (neighbor_at rs) (le_at b rs) ?n ({}, {})) \<subseteq> {} \<union> {i\<in>set ?n. \<not> held_at rs i}"
      by (rule groups_scan_checked)
    moreover have "snd (groups_scan (held_at rs) (neighbor_at rs) (le_at b rs) ?n ({}, {})) \<subseteq> {} \<union> {i\<in>set ?n. \<not> held_at rs i}"
      by (rule groups_scan_used)
    ultimately have sub: "C \<subseteq> {i. i < length rs \<and> \<not> held_at rs i}" "S \<subseteq> {i. i < length rs \<and> \<not> held_at rs i}"
      unfolding d(2) by auto
    show ?thesis by (rule that [of rs1 C S]) (use True d(1,3) sub in \<open>simp_all add: winners_def d(2)\<close>)
  qed
  have e: "C - {i\<in>set ?n. \<not> held_at rs i} = {}" "S - {i\<in>set ?n. \<not> held_at rs i} = {}" using CS by auto
  have "\<exists>rs'. select_loop b ?n (rs1, None, None) =
      Some (rs', old_of rs ?n None, scan (le_at b rs) (candidates b rs S ?n) None) \<and>
      marked rs (C - {i\<in>set ?n. \<not> held_at rs i}) (S - {i\<in>set ?n. \<not> held_at rs i}) rs'"
    by (rule select_loop_refines [OF safe m1 idx]) simp_all
  then obtain rs' where s: "select_loop b ?n (rs1, None, None) = Some (rs', old_of rs ?n None, scan (le_at b rs) (candidates b rs S ?n) None)"
    and "marked rs {} {} rs'" unfolding e by (elim exE conjE) (rule that)
  then have "rs' = rs" using marked_none free by blast
  then show ?thesis using r1 s marked_length [OF m1] by (intro exI [of _ rs1]) (simp add: new_of_def S)
qed

lemma new_of_None: "new_of b rs = None \<longleftrightarrow> (\<forall>i<length rs. held_at rs i)"
proof
  assume n: "new_of b rs = None"
  show "\<forall>i<length rs. held_at rs i"
  proof (rule ccontr)
    assume "\<not> (\<forall>i<length rs. held_at rs i)"
    then obtain i where i: "i < length rs" "\<not> held_at rs i" by auto
    have "candidates b rs (if bgp_flag_check b BGP_FLAG_DETERMINISTIC_MED then winners b rs else {}) [0..<length rs] \<noteq> []"
    proof (cases "bgp_flag_check b BGP_FLAG_DETERMINISTIC_MED")
      case False
      then show ?thesis using i by (auto simp: candidates_def filter_empty_conv)
    next
      case True
      have "winners b rs \<noteq> {}" unfolding winners_def using i by (intro groups_scan_nonempty) auto
      moreover have "winners b rs \<subseteq> {} \<union> {i\<in>set [0..<length rs]. \<not> held_at rs i}" unfolding winners_def by (rule groups_scan_used)
      ultimately obtain k where "k \<in> winners b rs" "k < length rs" "\<not> held_at rs k" by auto
      then show ?thesis using True by (auto simp: candidates_def filter_empty_conv)
    qed
    then show False using n scan_Some unfolding new_of_def by blast
  qed
next
  assume "\<forall>i<length rs. held_at rs i"
  then have "candidates b rs S [0..<length rs] = []" for S by (auto simp: candidates_def filter_empty_conv)
  then show "new_of b rs = None" by (simp add: new_of_def)
qed

lemma new_of_Some: "new_of b rs = Some k \<Longrightarrow> k < length rs \<and> \<not> held_at rs k"
  using scan_mem [of "le_at b rs" "candidates b rs (if bgp_flag_check b BGP_FLAG_DETERMINISTIC_MED then winners b rs else {}) [0..<length rs]" None k]
  by (auto simp: new_of_def candidates_def)

lemma old_of_selected:
  assumes "sel_inv rs"
  shows "old_of rs [0..<length rs] None = Some i \<longleftrightarrow> selected_at rs i"
proof
  assume "old_of rs [0..<length rs] None = Some i"
  then show "selected_at rs i" using old_of_Some [of rs "[0..<length rs]" None i] by (auto simp: selected_at_def)
next
  assume s: "selected_at rs i"
  then obtain j where j: "old_of rs [0..<length rs] None = Some j"
    using old_of_None [of rs "[0..<length rs]" None] by (cases "old_of rs [0..<length rs] None") (auto simp: selected_at_def)
  then have "selected_at rs j" using old_of_Some [of rs "[0..<length rs]" None j] by (auto simp: selected_at_def)
  then show "old_of rs [0..<length rs] None = Some i" using s j assms by (auto simp: sel_inv_def)
qed

lemma selected_upd:
  assumes "i < length rs"
  shows "selected_at (ri_unset rs i BGP_INFO_SELECTED) j \<longleftrightarrow> selected_at rs j \<and> j \<noteq> i"
    and "selected_at (ri_unset (ri_set rs i BGP_INFO_SELECTED) i BGP_INFO_ATTR_CHANGED) j \<longleftrightarrow> selected_at rs j \<or> j = i"
  using assms by (auto simp: selected_at_def ri_set_def ri_unset_def nth_list_update bgp_info_flags)

lemma ri_set_nth:
  "ri_set rs i f ! j = (if i = j \<and> i < length rs then (rs ! j)\<lparr>ri_flags := SET_FLAG (ri_flags (rs ! j)) f\<rparr> else rs ! j)"
  "ri_unset rs i f ! j = (if i = j \<and> i < length rs then (rs ! j)\<lparr>ri_flags := UNSET_FLAG (ri_flags (rs ! j)) f\<rparr> else rs ! j)"
proof -
  have "rs[i := g (rs ! i)] ! j = (if i = j \<and> i < length rs then g (rs ! j) else rs ! j)" for g
    by (cases "i < length rs"; cases "i = j"; simp add: list_update_beyond)
  then show "ri_set rs i f ! j = (if i = j \<and> i < length rs then (rs ! j)\<lparr>ri_flags := SET_FLAG (ri_flags (rs ! j)) f\<rparr> else rs ! j)"
    "ri_unset rs i f ! j = (if i = j \<and> i < length rs then (rs ! j)\<lparr>ri_flags := UNSET_FLAG (ri_flags (rs ! j)) f\<rparr> else rs ! j)"
    by (simp_all only: ri_set_def ri_unset_def) auto
qed

lemma unselected_upd [simp]:
  assumes "f = BGP_INFO_SELECTED \<or> f = BGP_INFO_ATTR_CHANGED"
  shows "unselected (ri_set rs i f ! j) = unselected (rs ! j)" "unselected (ri_unset rs i f ! j) = unselected (rs ! j)"
proof -
  have set: "UNSET_FLAG (UNSET_FLAG (SET_FLAG v f) BGP_INFO_SELECTED) BGP_INFO_ATTR_CHANGED = UNSET_FLAG (UNSET_FLAG v BGP_INFO_SELECTED) BGP_INFO_ATTR_CHANGED" for v
    using assms by (metis UNSET_FLAG_set(1,3))
  have unset: "UNSET_FLAG (UNSET_FLAG (UNSET_FLAG v f) BGP_INFO_SELECTED) BGP_INFO_ATTR_CHANGED = UNSET_FLAG (UNSET_FLAG v BGP_INFO_SELECTED) BGP_INFO_ATTR_CHANGED" for v
    using assms by (metis UNSET_FLAG_set(2,3))
  show "unselected (ri_set rs i f ! j) = unselected (rs ! j)" "unselected (ri_unset rs i f ! j) = unselected (rs ! j)"
    by (simp_all add: ri_set_nth unselected_def set unset)
qed

lemma dmed_free_upd:
  assumes "f = BGP_INFO_SELECTED \<or> f = BGP_INFO_ATTR_CHANGED"
  shows "dmed_free (ri_set rs i f ! j) = dmed_free (rs ! j)" "dmed_free (ri_unset rs i f ! j) = dmed_free (rs ! j)"
proof -
  have f: "f AND BGP_INFO_DMED_CHECK = 0" "f AND BGP_INFO_DMED_SELECTED = 0" using assms by (auto simp: bgp_info_flags)
  show "dmed_free (ri_set rs i f ! j) = dmed_free (rs ! j)" "dmed_free (ri_unset rs i f ! j) = dmed_free (rs ! j)"
    by (simp_all add: ri_set_nth dmed_free_def f)
qed

lemma finish_select_props:
  assumes "\<forall>i. new = Some i \<longrightarrow> i < length rs"
  shows "length (finish_select rs old new) = length rs" "unselected (finish_select rs old new ! j) = unselected (rs ! j)"
    "dmed_free (finish_select rs old new ! j) = dmed_free (rs ! j)"
    "(\<And>i. old = Some i \<longleftrightarrow> selected_at rs i) \<Longrightarrow> selected_at (finish_select rs old new) j \<longleftrightarrow> new = Some j"
proof -
  show "length (finish_select rs old new) = length rs" "unselected (finish_select rs old new ! j) = unselected (rs ! j)"
    "dmed_free (finish_select rs old new ! j) = dmed_free (rs ! j)"
    by (auto simp: finish_select_def Let_def dmed_free_upd split: option.splits)
  assume o: "\<And>i. old = Some i \<longleftrightarrow> selected_at rs i"
  let ?rs = "case old of None \<Rightarrow> rs | Some i \<Rightarrow> ri_unset rs i BGP_INFO_SELECTED"
  have no: "\<not> selected_at ?rs j" for j
  proof (cases old)
    case None
    then show ?thesis using o [of j] by simp
  next
    case (Some i)
    then have i: "selected_at rs i" using o by simp
    have "selected_at rs j \<Longrightarrow> j = i" using o [of j] Some by simp
    then show ?thesis using i Some selected_upd(1) [of i rs j] by (auto simp: selected_at_def)
  qed
  have l: "length ?rs = length rs" by (simp split: option.splits)
  show "selected_at (finish_select rs old new) j \<longleftrightarrow> new = Some j"
    using no [of j] assms selected_upd(2) [of _ ?rs j] l unfolding finish_select_def Let_def by (cases new) auto
qed

lemma bgp_process_unfold:
  assumes inv: "sel_inv rs" and safe: "cmp_safe b rs"
  shows "bgp_process b ac peers fib rs =
    (let old = old_of rs [0..<length rs] None; new = new_of b rs in
     if old \<noteq> None \<and> old = new \<and> \<not> CHECK_FLAG (ri_flags (rs ! the old)) BGP_INFO_ATTR_CHANGED
     then Some (rs, if CHECK_FLAG (ri_flags (rs ! the old)) BGP_INFO_IGP_CHANGED then [Zebra_announce (rs ! the old)] else [])
     else let rs' = finish_select rs old new in
       Some (rs', announce_peers ac (map_option (\<lambda>i. rs' ! i) new) peers
                  @ (if fib then fib_update (map_option (\<lambda>i. rs' ! i) old) (map_option (\<lambda>i. rs' ! i) new) else [])))"
proof -
  have free: "\<forall>r\<in>set rs. dmed_free r" using inv by (simp add: sel_inv_def)
  obtain rs1 where r: "(if bgp_flag_check b BGP_FLAG_DETERMINISTIC_MED then dmed_loop b [0..<length rs] rs else Some rs) = Some rs1" "length rs1 = length rs"
    "select_loop b [0..<length rs] (rs1, None, None) = Some (rs, old_of rs [0..<length rs] None, new_of b rs)"
    using selection_refines [OF free safe] by auto
  show ?thesis
    unfolding bgp_process_def r(1) bind.bind_lunit r(2) r(3) prod.case finish_select_def Let_def by (rule refl)
qed

lemma Adj_out_set_mem:
  assumes "Adj_out_set p r \<in> set (announce_peers ac new peers @ (if fib then fib_update old new else []))"
  shows "p \<in> set peers \<and> established p \<and> afc_nego p \<and> ac r p \<and> new = Some r"
  using assms by (auto simp: announce_peers_def fib_update_def split: if_splits option.splits)

lemma Zebra_announce_mem:
  assumes "Zebra_announce r \<in> set (announce_peers ac new peers @ (if fib then fib_update old new else []))"
  shows "new = Some r"
  using assms by (auto simp: announce_peers_def fib_update_def split: if_splits option.splits)

text \<open>C14: Selection.  On every list of routes with at most one selected route, \<open>bgp_process\<close> returns, whatever the configuration
  of the comparison is, provided that no comparison runs past the data of a route in use: its path is not made of confederation segments only
  (on which the leftmost AS is read behind the end), its extended communities are complete and a learned route has a peer with an
  address.  Afterwards a route is selected exactly when some route is in use (valid, not damped, no history entry),
  it is one, and it is in use; the marks of the deterministic comparison are gone and no route has changed but for the flags
  \<open>BGP_INFO_SELECTED\<close> and \<open>BGP_INFO_ATTR_CHANGED\<close>.  Only the selected route is announced, to established peers, and given to the kernel.\<close>

theorem bgp_process_selects:
  assumes inv: "sel_inv rs" and ok: "\<forall>r\<in>set rs. \<not> BGP_INFO_HOLDDOWN r \<longrightarrow> route_ok r"
  shows "\<exists>rs' outs. bgp_process b ac peers fib rs = Some (rs', outs) \<and> sel_inv rs' \<and>
    map unselected rs' = map unselected rs \<and>
    ((\<exists>i. selected_at rs' i) \<longleftrightarrow> (\<exists>r\<in>set rs. \<not> BGP_INFO_HOLDDOWN r)) \<and>
    (\<forall>i. selected_at rs' i \<longrightarrow> \<not> BGP_INFO_HOLDDOWN (rs ! i)) \<and>
    (\<forall>p r. Adj_out_set p r \<in> set outs \<longrightarrow> p \<in> set peers \<and> established p \<and> ac r p \<and> (\<exists>i. selected_at rs' i \<and> r = rs' ! i)) \<and>
    (\<forall>r. Zebra_announce r \<in> set outs \<longrightarrow> (\<exists>i. selected_at rs' i \<and> r = rs' ! i))"
proof -
  have safe: "cmp_safe b rs" by (rule route_ok_safe [OF ok])
  let ?old = "old_of rs [0..<length rs] None" and ?new = "new_of b rs"
  have old: "\<And>i. ?old = Some i \<longleftrightarrow> selected_at rs i" by (rule old_of_selected [OF inv])
  have new: "\<forall>i. ?new = Some i \<longrightarrow> i < length rs" "\<And>i. ?new = Some i \<Longrightarrow> \<not> BGP_INFO_HOLDDOWN (rs ! i)"
    using new_of_Some [of b rs] by (auto simp: held_at_def)
  have ex: "(\<exists>i. ?new = Some i) \<longleftrightarrow> (\<exists>r\<in>set rs. \<not> BGP_INFO_HOLDDOWN r)"
    using new_of_None [of b rs] new(2) by (simp add: held_at_def) (metis in_set_conv_nth new(1) not_None_eq)
  show ?thesis
  proof (cases "?old \<noteq> None \<and> ?old = ?new \<and> \<not> CHECK_FLAG (ri_flags (rs ! the ?old)) BGP_INFO_ATTR_CHANGED")
    case True
    have sel: "selected_at rs i \<longleftrightarrow> ?new = Some i" for i using old [of i] True by simp
    have out: "Zebra_announce r \<in> set (if c then [Zebra_announce (rs ! the ?old)] else []) \<Longrightarrow> \<exists>i. selected_at rs i \<and> r = rs ! i" for r c
    proof -
      assume "Zebra_announce r \<in> set (if c then [Zebra_announce (rs ! the ?old)] else [])"
      then have r: "r = rs ! the ?old" by (auto split: if_splits)
      obtain i where "?old = Some i" using True by auto
      then show ?thesis using r old [of i] by (intro exI [of _ i]) simp
    qed
    show ?thesis
      unfolding bgp_process_unfold [OF inv safe] Let_def if_P [OF True]
      using inv sel ex new(2) out by (intro exI conjI) (auto split: if_splits)
  next
    case False
    let ?rs = "finish_select rs ?old ?new"
    note f = finish_select_props [OF new(1), of ?old]
    have sel: "selected_at ?rs i \<longleftrightarrow> ?new = Some i" for i by (rule f(4) [OF old])
    have free: "\<forall>r\<in>set ?rs. dmed_free r"
      using inv f(1,3) by (simp add: sel_inv_def all_set_conv_all_nth)
    have inv': "sel_inv ?rs" using free sel by (auto simp: sel_inv_def)
    have un: "map unselected ?rs = map unselected rs" using f(1,2) by (intro nth_equalityI) auto
    have s: "\<exists>i. selected_at ?rs i \<and> r = ?rs ! i" if "map_option (\<lambda>i. ?rs ! i) ?new = Some r" for r
      using that sel by auto
    show ?thesis
      unfolding bgp_process_unfold [OF inv safe] Let_def if_not_P [OF False]
    proof (intro exI conjI)
      show "sel_inv ?rs" "map unselected ?rs = map unselected rs" by (rule inv', rule un)
      show "(\<exists>i. selected_at ?rs i) \<longleftrightarrow> (\<exists>r\<in>set rs. \<not> BGP_INFO_HOLDDOWN r)" using sel ex by simp
      show "\<forall>i. selected_at ?rs i \<longrightarrow> \<not> BGP_INFO_HOLDDOWN (rs ! i)" using sel new(2) by simp
    qed (use Adj_out_set_mem Zebra_announce_mem s in \<open>blast+\<close>)
  qed
qed

section \<open>The comparison as an order\<close>

text \<open>The keys of a route, most important first; a smaller list is a better route.\<close>

definition normal :: "bgp_info \<Rightarrow> bool" where
  "normal r \<longleftrightarrow> sub_type r \<notin> {BGP_ROUTE_STATIC, BGP_ROUTE_REDISTRIBUTE, BGP_ROUTE_AGGREGATE}"

definition local_rank :: "bgp_info \<Rightarrow> int" where
  "local_rank r = (if sub_type r = BGP_ROUTE_STATIC then 0 else if sub_type r = BGP_ROUTE_REDISTRIBUTE then 1
     else if sub_type r = BGP_ROUTE_AGGREGATE then 2 else 3)"

definition peer_rank :: "bgp \<Rightarrow> bgp_info \<Rightarrow> int" where
  "peer_rank b r = (if peer_sort b (ri_peer r) = BGP_PEER_EBGP then 0 else 1)"

definition addr_key :: "sockunion \<Rightarrow> int list" where
  "addr_key su = uint (sa_family su) #
     (if sa_family su = AF_INET then [uint (ntohl (sin_addr su))]
      else if sa_family su = AF_INET6 then map uint (take 16 (sin6_addr su)) else [])"

definition remote_key :: "bgp_info \<Rightarrow> int list" where
  "remote_key r = addr_key (the (su_remote (ri_peer r)))"

definition tie_key :: "bgp \<Rightarrow> bgp_info \<Rightarrow> int list" where
  "tie_key b r = peer_rank b r # uint (igpmetric r) # uint (router_id_of r) # cluster_of r # remote_key r"

definition path_key :: "bgp \<Rightarrow> bool \<Rightarrow> bgp_info \<Rightarrow> int list" where
  "path_key b m r = (if bgp_flag_check b BGP_FLAG_ASPATH_IGNORE then 0 else as_count (attr_aspath (ri_attr r))) # uint (origin (ri_attr r)) #
     (if m then uint (bgp_med_value (ri_attr r) b) # tie_key b r else tie_key b r)"

definition route_key :: "bgp \<Rightarrow> bool \<Rightarrow> bgp_info \<Rightarrow> int list" where
  "route_key b m r = - uint (weight (ri_attr r)) # - uint (pref_value b (ri_attr r)) # local_rank r #
     (if normal r then path_key b m r else [])"

lemma decide_key: "decide (x < y) (y < x) (Some (xs \<le> ys)) = Some (x # xs \<le> y # (ys :: 'a::linorder list))"
  by (auto simp: decide_def)

lemma decide_key_word:
  "decide (v < w) (w < v) (Some (xs \<le> ys)) = Some (uint v # xs \<le> uint w # ys)"
  "decide (w < v) (v < w) (Some (xs \<le> ys)) = Some (- uint v # xs \<le> - uint w # ys)"
  by (auto simp: decide_def word_less_def word_uint_eq_iff)

lemma in6addr_loop_key:
  assumes "i + n \<le> length p" "i + n \<le> length q"
  shows "in6addr_loop n i p q = (if map uint (take n (drop i p)) < map uint (take n (drop i q)) then - 1
    else if map uint (take n (drop i p)) = map uint (take n (drop i q)) then 0 else 1)"
  using assms
proof (induction n arbitrary: i)
  case (Suc n)
  have d: "take (Suc n) (drop i p) = p ! i # take n (drop (i + 1) p)" "take (Suc n) (drop i q) = q ! i # take n (drop (i + 1) q)"
    using Suc.prems by (simp_all add: Cons_nth_drop_Suc [symmetric])
  have IH: "in6addr_loop n (i + 1) p q = (if map uint (take n (drop (i + 1) p)) < map uint (take n (drop (i + 1) q)) then - 1
    else if map uint (take n (drop (i + 1) p)) = map uint (take n (drop (i + 1) q)) then 0 else 1)"
    using Suc.prems by (intro Suc.IH) simp_all
  show ?case unfolding in6addr_loop.simps d IH by (auto simp: word_less_def word_uint_eq_iff)
qed simp

definition su_ok :: "sockunion \<Rightarrow> bool" where
  "su_ok su \<longleftrightarrow> (sa_family su = AF_INET6 \<longrightarrow> 16 \<le> length (sin6_addr su))"

lemma sockunion_cmp_key:
  assumes "su_ok su1" "su_ok su2"
  shows "sockunion_cmp su1 su2 = (if addr_key su1 < addr_key su2 then - 1 else if addr_key su1 = addr_key su2 then 0 else 1)"
proof (cases "sa_family su1 = sa_family su2")
  case False
  then show ?thesis by (auto simp: sockunion_cmp_def addr_key_def word_less_def word_uint_eq_iff)
next
  case True
  show ?thesis
  proof (cases "sa_family su1 = AF_INET6 \<and> sa_family su1 \<noteq> AF_INET")
    case True
    then show ?thesis
      using assms \<open>sa_family su1 = sa_family su2\<close> in6addr_loop_key [of 0 16 "sin6_addr su1" "sin6_addr su2"]
      by (simp add: sockunion_cmp_def addr_key_def su_ok_def in6addr_cmp_def af_defs)
  next
    case False
    then show ?thesis
      using True by (auto simp: sockunion_cmp_def addr_key_def word_less_def word_uint_eq_iff)
  qed
qed

text \<open>A route the keys describe: learned from a peer with an address, not from the router itself.\<close>

definition keyed :: "bgp \<Rightarrow> bgp_info \<Rightarrow> bool" where
  "keyed b r \<longleftrightarrow> (normal r \<longrightarrow> peer_sort b (ri_peer r) \<noteq> BGP_PEER_INTERNAL \<and> (\<exists>su. su_remote (ri_peer r) = Some su \<and> su_ok su))"

text \<open>A configuration that compares router ids and ignores cost communities.\<close>

definition plain_config :: "bgp \<Rightarrow> bool" where
  "plain_config b \<longleftrightarrow> bgp_flag_check b BGP_FLAG_COMPARE_ROUTER_ID \<and> bgp_flag_check b BGP_FLAG_COST_COMMUNITY_IGNORE"

lemma cmp_tie_key:
  assumes "su_remote (ri_peer r) = Some su1" "su_remote (ri_peer s) = Some su2" "su_ok su1" "su_ok su2"
  shows "cmp_tie r s = Some (uint (router_id_of r) # cluster_of r # remote_key r \<le> uint (router_id_of s) # cluster_of s # remote_key s)"
proof -
  have "decide False (sockunion_cmp su1 su2 = 1) (decide (sockunion_cmp su1 su2 = - 1) False (Some True)) = Some (remote_key r \<le> remote_key s)"
    using assms by (auto simp: sockunion_cmp_key decide_def remote_key_def)
  then show ?thesis
    unfolding cmp_tie_def Let_def assms(1,2) bind.bind_lunit by (simp only: decide_key decide_key_word)
qed

lemma cmp_peer_key:
  assumes "plain_config b" "keyed b r" "keyed b s" "normal r" "normal s"
  shows "cmp_peer b r s = Some (tie_key b r \<le> tie_key b s)"
proof -
  obtain su1 su2 where su: "su_remote (ri_peer r) = Some su1" "su_remote (ri_peer s) = Some su2" "su_ok su1" "su_ok su2"
    and p: "peer_sort b (ri_peer r) \<noteq> BGP_PEER_INTERNAL" "peer_sort b (ri_peer s) \<noteq> BGP_PEER_INTERNAL"
    using assms(2-) by (auto simp: keyed_def)
  let ?rest = "Some (uint (igpmetric r) # uint (router_id_of r) # cluster_of r # remote_key r
      \<le> uint (igpmetric s) # uint (router_id_of s) # cluster_of s # remote_key s)"
  have c: "\<not> \<not> bgp_flag_check b BGP_FLAG_COST_COMMUNITY_IGNORE"
    "\<not> (\<not> bgp_flag_check b BGP_FLAG_COMPARE_ROUTER_ID \<and> peer_sort b (ri_peer r) = BGP_PEER_EBGP \<and> peer_sort b (ri_peer s) = BGP_PEER_EBGP)"
    using assms(1) by (simp_all add: plain_config_def)
  have z: "decide ((0::int) < 0) ((0::int) < 0) x = x" for x by (simp add: decide_def)
  have "cmp_peer b r s = (let sn = peer_sort b (ri_peer r); se = peer_sort b (ri_peer s) in
     decide (sn = BGP_PEER_EBGP \<and> se = BGP_PEER_IBGP) False (
     decide (sn = BGP_PEER_EBGP \<and> se = BGP_PEER_CONFED) False (
     decide False (sn = BGP_PEER_IBGP \<and> se = BGP_PEER_EBGP) (
     decide False (sn = BGP_PEER_CONFED \<and> se = BGP_PEER_EBGP) ?rest))))"
    unfolding cmp_peer_def Let_def if_not_P [OF c(1)] if_not_P [OF c(2)] bind.bind_lunit cmp_tie_key [OF su] z decide_key_word
    by (rule refl)
  also have "\<dots> = Some (tie_key b r \<le> tie_key b s)"
    using p by (cases "peer_sort b (ri_peer r)"; cases "peer_sort b (ri_peer s)") (simp_all add: decide_def tie_key_def peer_rank_def)
  finally show ?thesis .
qed

lemma bgp_info_cmp_key:
  assumes "plain_config b" "keyed b r" "keyed b s"
    and m: "normal r \<Longrightarrow> normal s \<Longrightarrow> med_compared b (attr_aspath (ri_attr r)) (attr_aspath (ri_attr s)) = Some m"
  shows "bgp_info_cmp b (Some r) (Some s) = Some (route_key b m r \<le> route_key b m s)"
proof (cases "normal r \<and> normal s")
  case True
  have med: "decide (m \<and> bgp_med_value (ri_attr r) b < bgp_med_value (ri_attr s) b) (m \<and> bgp_med_value (ri_attr r) b > bgp_med_value (ri_attr s) b)
      (Some (tie_key b r \<le> tie_key b s)) =
      Some ((if m then uint (bgp_med_value (ri_attr r) b) # tie_key b r else tie_key b r) \<le>
            (if m then uint (bgp_med_value (ri_attr s) b) # tie_key b s else tie_key b s))"
    by (cases m) (simp_all only: decide_key_word simp_thms if_True if_False, simp add: decide_def)
  have path: "decide (\<not> i \<and> x < y) (\<not> i \<and> y < x) (Some (xs \<le> ys)) =
      Some ((if i then 0 else x) # xs \<le> (if i then 0 else y) # ys)" for i :: bool and x y :: int and xs ys
    by (auto simp: decide_def)
  have n: "sub_type r \<noteq> BGP_ROUTE_STATIC" "sub_type r \<noteq> BGP_ROUTE_REDISTRIBUTE" "sub_type r \<noteq> BGP_ROUTE_AGGREGATE"
    "sub_type s \<noteq> BGP_ROUTE_STATIC" "sub_type s \<noteq> BGP_ROUTE_REDISTRIBUTE" "sub_type s \<noteq> BGP_ROUTE_AGGREGATE" "normal r" "normal s"
    using True by (auto simp: normal_def)
  have dF: "decide False False x = x" for x by (simp add: decide_def)
  have rk: "local_rank r = 3" "local_rank s = 3" using n by (simp_all add: local_rank_def)
  show ?thesis
    unfolding bgp_info_cmp_def option.case Let_def m [OF n(7,8)] bind.bind_lunit cmp_peer_key [OF assms(1-3) n(7,8)] med path decide_key_word
    by (simp only: n simp_thms dF decide_key_word route_key_def path_key_def rk if_True) auto
next
  case False
  then show ?thesis
    by (auto simp: bgp_info_cmp_def Let_def decide_def normal_def route_key_def local_rank_def word_less_def word_uint_eq_iff
        BGP_ROUTE_STATIC_def BGP_ROUTE_REDISTRIBUTE_def BGP_ROUTE_AGGREGATE_def)
qed

section \<open>The best route\<close>

lemma scan_least:
  fixes k :: "'a \<Rightarrow> 'k::linorder"
  assumes "\<And>x y. x \<in> U \<Longrightarrow> y \<in> U \<Longrightarrow> le x y \<longleftrightarrow> k x \<le> k y"
    and "set is \<subseteq> U" "\<forall>x. s = Some x \<longrightarrow> x \<in> U" "scan le is s = Some r"
  shows "(\<forall>x\<in>set is. k r \<le> k x) \<and> (\<forall>x. s = Some x \<longrightarrow> k r \<le> k x)"
  using assms(2-)
proof (induction "is" arbitrary: s)
  case (Cons i "is")
  let ?s = "case s of None \<Rightarrow> Some i | Some x \<Rightarrow> if le i x then Some i else Some x"
  have i: "i \<in> U" using Cons.prems(1) by simp
  have "\<forall>x. ?s = Some x \<longrightarrow> x \<in> U" using Cons.prems(2) i by (auto split: option.splits)
  from Cons.IH [OF _ this] have IH: "\<forall>x\<in>set is. k r \<le> k x" "\<forall>x. ?s = Some x \<longrightarrow> k r \<le> k x" using Cons.prems by auto
  show ?case
  proof (cases s)
    case None
    then show ?thesis using IH by simp
  next
    case (Some x)
    then have "le i x \<longleftrightarrow> k i \<le> k x" using assms(1) i Cons.prems(2) by simp
    then show ?thesis using IH Some by (cases "le i x") auto
  qed
qed simp

lemma group_scan_least:
  fixes k :: "'a \<Rightarrow> 'k::linorder"
  assumes g: "\<And>x y. x \<in> U \<Longrightarrow> y \<in> U \<Longrightarrow> g x y \<longleftrightarrow> cls x = cls y"
    and le: "\<And>x y. x \<in> U \<Longrightarrow> y \<in> U \<Longrightarrow> cls x = cls y \<Longrightarrow> le x y \<longleftrightarrow> k x \<le> k y"
    and U: "U = {x. \<not> held x} \<inter> A"
    and "set js \<subseteq> A" "i \<in> U" "s \<in> U" "cls s = cls i" "group_scan held g le i js (C, s) = (C', s')"
  shows "C' = C \<union> {j\<in>set js \<inter> U. cls j = cls i} \<and> s' \<in> U \<and> cls s' = cls i \<and> k s' \<le> k s \<and>
    (s' = s \<or> s' \<in> set js \<and> s' \<notin> C) \<and> (\<forall>j\<in>set js \<inter> U. j \<notin> C \<longrightarrow> cls j = cls i \<longrightarrow> k s' \<le> k j)"
  using assms(4-)
proof (induction js arbitrary: C s)
  case (Cons j js)
  show ?case
  proof (cases "j \<in> C \<or> held j \<or> \<not> g i j")
    case True
    have c: "j \<in> C \<or> j \<notin> U \<or> cls j \<noteq> cls i" using True g [of i j] Cons.prems(2) U by auto
    have run: "group_scan held g le i js (C, s) = (C', s')" using True Cons.prems(5) by simp
    show ?thesis using Cons.IH [OF _ Cons.prems(2-4) run] Cons.prems(1) c by auto
  next
    case False
    have j: "j \<in> U" "cls j = cls i" "j \<notin> C" using False g [of i j] Cons.prems(1,2) U by auto
    let ?s = "if le j s then j else s"
    have run: "group_scan held g le i js (insert j C, ?s) = (C', s')" using False Cons.prems(5) by simp
    have s: "?s \<in> U" "cls ?s = cls i" "k ?s \<le> k s" "k ?s \<le> k j" using j le [of j s] Cons.prems(3,4) by auto
    have "set js \<subseteq> A" using Cons.prems(1) by simp
    note IH = Cons.IH [OF this Cons.prems(2) s(1,2) run]
    have all: "k s' \<le> k x" if "x \<in> set (j # js) \<inter> U" "x \<notin> C" "cls x = cls i" for x
      using IH s(4) that by (cases "x = j") (auto intro: order_trans)
    have mem: "s' = s \<or> s' \<in> set (j # js) \<and> s' \<notin> C" using IH j(3) by (auto split: if_splits)
    have C': "C' = C \<union> {x\<in>set (j # js) \<inter> U. cls x = cls i}" using IH j by auto
    show ?thesis using IH s(3) all mem C' by (intro conjI) (auto intro: order_trans)
  qed
qed simp

lemma groups_scan_least:
  fixes k :: "'a \<Rightarrow> 'k::linorder"
  assumes g: "\<And>x y. x \<in> U \<Longrightarrow> y \<in> U \<Longrightarrow> g x y \<longleftrightarrow> cls x = cls y"
    and le: "\<And>x y. x \<in> U \<Longrightarrow> y \<in> U \<Longrightarrow> cls x = cls y \<Longrightarrow> le x y \<longleftrightarrow> k x \<le> k y"
    and U: "U = {x. \<not> held x} \<inter> A"
    and "set is \<subseteq> A" "\<forall>x\<in>set is \<inter> U. \<forall>y\<in>set is \<inter> U. cls x = cls y \<longrightarrow> x \<in> C \<longrightarrow> y \<in> C"
  shows "(\<forall>w\<in>snd (groups_scan held g le is (C, S)) - S. w \<in> set is \<inter> U \<and> w \<notin> C \<and> (\<forall>j\<in>set is \<inter> U. cls j = cls w \<longrightarrow> k w \<le> k j)) \<and>
    (\<forall>i\<in>set is \<inter> U. i \<notin> C \<longrightarrow> (\<exists>w\<in>snd (groups_scan held g le is (C, S)). w \<in> set is \<inter> U \<and> cls w = cls i))"
  using assms(4,5)
proof (induction "is" arbitrary: C S)
  case (Cons i "is")
  have A: "set is \<subseteq> A" "i \<in> A" using Cons.prems(1) by auto
  show ?case
  proof (cases "i \<in> C \<or> held i")
    case True
    have cl: "\<forall>x\<in>set is \<inter> U. \<forall>y\<in>set is \<inter> U. cls x = cls y \<longrightarrow> x \<in> C \<longrightarrow> y \<in> C" using Cons.prems(2) by auto
    have skip: "w \<in> U \<Longrightarrow> w \<notin> C \<Longrightarrow> w \<in> set is \<Longrightarrow> i \<in> U \<Longrightarrow> cls i \<noteq> cls w" for w
      using True Cons.prems(2) U by auto
    show ?thesis using Cons.IH [OF A(1) cl, of S] True U skip by auto
  next
    case False
    then have i: "i \<in> U" "i \<notin> C" using U A by auto
    obtain C1 s where r: "group_scan held g le i is (C, i) = (C1, s)" by fastforce
    have G: "C1 = C \<union> {j\<in>set is \<inter> U. cls j = cls i} \<and> s \<in> U \<and> cls s = cls i \<and> k s \<le> k i \<and>
        (s = i \<or> s \<in> set is \<and> s \<notin> C) \<and> (\<forall>j\<in>set is \<inter> U. j \<notin> C \<longrightarrow> cls j = cls i \<longrightarrow> k s \<le> k j)"
      using g le U A(1) i(1) i(1) refl r by (rule group_scan_least)
    note G2 = G [THEN conjunct2] and G3 = G [THEN conjunct2, THEN conjunct2, THEN conjunct2]
    note gs = G [THEN conjunct1] G2 [THEN conjunct1] G2 [THEN conjunct2, THEN conjunct1] G3 [THEN conjunct1]
      G3 [THEN conjunct2, THEN conjunct1] G3 [THEN conjunct2, THEN conjunct2]
    have cl: "\<forall>x\<in>set is \<inter> U. \<forall>y\<in>set is \<inter> U. cls x = cls y \<longrightarrow> x \<in> insert s C1 \<longrightarrow> y \<in> insert s C1"
    proof (intro ballI impI)
      fix x y assume x: "x \<in> set is \<inter> U" and y: "y \<in> set is \<inter> U" and xy: "cls x = cls y" "x \<in> insert s C1"
      show "y \<in> insert s C1"
      proof (cases "cls x = cls i")
        case True
        then show ?thesis using y xy(1) unfolding gs(1) by simp
      next
        case False
        then have "x \<in> C" using xy(2) gs(3) unfolding gs(1) by auto
        then have "y \<in> C" using Cons.prems(2) x y xy(1) by (meson IntD1 IntD2 IntI list.set_intros(2))
        then show ?thesis unfolding gs(1) by simp
      qed
    qed
    note IH = Cons.IH [OF A(1) cl, of "insert s S"]
    have run: "snd (groups_scan held g le (i # is) (C, S)) = snd (groups_scan held g le is (insert s C1, insert s S))"
      using False r by simp
    have nC: "j \<notin> C" if "j \<in> set is \<inter> U" "cls j = cls i" for j
      using Cons.prems(2) that i by auto
    have W: "w \<in> set is \<inter> U \<and> w \<notin> insert s C1 \<and> (\<forall>j\<in>set is \<inter> U. cls j = cls w \<longrightarrow> k w \<le> k j)"
      if "w \<in> snd (groups_scan held g le is (insert s C1, insert s S)) - insert s S" for w using IH that by blast
    have one: "\<forall>j\<in>set (i # is) \<inter> U. cls j = cls s \<longrightarrow> k s \<le> k j" using gs(3,4,6) nC by auto
    have s: "s \<in> set (i # is) \<inter> U" "s \<notin> C" using gs(2,5) i by auto
    show ?thesis
      unfolding run
    proof (intro conjI ballI impI)
      fix w assume w: "w \<in> snd (groups_scan held g le is (insert s C1, insert s S)) - S"
      show "w \<in> set (i # is) \<inter> U" "w \<notin> C" using W [of w] w s gs(1) by auto
      fix j assume j: "j \<in> set (i # is) \<inter> U" "cls j = cls w"
      show "k w \<le> k j"
      proof (cases "w = s")
        case True
        then show ?thesis using one j by auto
      next
        case False
        then have ww: "w \<in> set is \<inter> U" "w \<notin> insert s C1" "\<forall>j\<in>set is \<inter> U. cls j = cls w \<longrightarrow> k w \<le> k j" using W [of w] w by auto
        have "cls w \<noteq> cls i" using ww(1,2) gs(1) by auto
        then show ?thesis using j ww(3) by auto
      qed
    next
      fix x assume x: "x \<in> set (i # is) \<inter> U" "x \<notin> C"
      show "\<exists>w\<in>snd (groups_scan held g le is (insert s C1, insert s S)). w \<in> set (i # is) \<inter> U \<and> cls w = cls x"
      proof (cases "cls x = cls i")
        case True
        have "s \<in> snd (groups_scan held g le is (insert s C1, insert s S))" using groups_scan_mono [of "insert s S"] by fastforce
        then show ?thesis using s gs(3) True by (intro bexI [of _ s]) auto
      next
        case False
        then have "x \<in> set is \<inter> U" "x \<notin> insert s C1" using x gs(1,3) by auto
        then show ?thesis using IH by fastforce
      qed
    qed
  qed
qed simp

subsection \<open>Always comparing the MED\<close>

definition in_use :: "bgp_info list \<Rightarrow> bgp_info set" where
  "in_use rs = {r\<in>set rs. \<not> BGP_INFO_HOLDDOWN r}"

lemma in_use_nth: "r \<in> in_use rs \<longleftrightarrow> (\<exists>i<length rs. \<not> held_at rs i \<and> r = rs ! i)"
  by (auto simp: in_use_def held_at_def in_set_conv_nth)

lemma selected_new:
  assumes inv: "sel_inv rs" and safe: "cmp_safe b rs" and p: "bgp_process b ac peers fib rs = Some (rs', outs)"
  shows "selected_at rs' i \<longleftrightarrow> new_of b rs = Some i" "length rs' = length rs" "unselected (rs' ! i) = unselected (rs ! i)"
proof -
  let ?old = "old_of rs [0..<length rs] None" and ?new = "new_of b rs"
  have old: "\<And>i. ?old = Some i \<longleftrightarrow> selected_at rs i" by (rule old_of_selected [OF inv])
  have new: "\<forall>i. ?new = Some i \<longrightarrow> i < length rs" using new_of_Some [of b rs] by auto
  note f = finish_select_props [OF new, of ?old]
  show "selected_at rs' i \<longleftrightarrow> new_of b rs = Some i" "length rs' = length rs" "unselected (rs' ! i) = unselected (rs ! i)"
    using p f(1,2) f(4) [OF old] old [of i] unfolding bgp_process_unfold [OF inv safe] Let_def by (auto split: if_splits)
qed

lemma unselected_key: "route_key b m (unselected r) = route_key b m r"
  by (simp add: unselected_def route_key_def path_key_def tie_key_def normal_def local_rank_def peer_rank_def remote_key_def
      router_id_of_def cluster_of_def)

text \<open>C31: Total comparison.  When the MED is always compared, router ids are compared, cost communities are ignored and deterministic MED is
  off, and the routes in use that were learned come from peers outside the AS with known addresses and have attributes on which the comparison does not
  run past its data, the decision process selects a best route: no route in use has a smaller list of keys (higher weight, higher local preference,
  local origin, shorter path, lower origin, lower MED, external peer, lower metric, lower router id, shorter cluster list, lower address).\<close>

theorem bgp_process_best:
  assumes inv: "sel_inv rs" and ok: "\<forall>r\<in>in_use rs. route_ok r \<and> keyed b r"
    and conf: "plain_config b" "bgp_flag_check b BGP_FLAG_ALWAYS_COMPARE_MED" "\<not> bgp_flag_check b BGP_FLAG_DETERMINISTIC_MED"
    and p: "bgp_process b ac peers fib rs = Some (rs', outs)" and sel: "selected_at rs' i" and s: "s \<in> in_use rs"
  shows "route_key b True (rs' ! i) \<le> route_key b True s"
proof -
  have safe: "cmp_safe b rs" using ok by (intro route_ok_safe) (auto simp: in_use_def)
  have new: "new_of b rs = Some i" using selected_new(1) [OF inv safe p] sel by simp
  let ?U = "{i. i < length rs \<and> \<not> held_at rs i}"
  have cand: "candidates b rs S [0..<length rs] = filter (\<lambda>i. \<not> held_at rs i) [0..<length rs]" for S using conf(3) by (simp add: candidates_def)
  have le: "le_at b rs x y \<longleftrightarrow> route_key b True (rs ! x) \<le> route_key b True (rs ! y)" if "x \<in> ?U" "y \<in> ?U" for x y
  proof -
    have "rs ! x \<in> in_use rs" "rs ! y \<in> in_use rs" using that by (auto simp: in_use_def held_at_def)
    then have k: "keyed b (rs ! x)" "keyed b (rs ! y)" using ok by auto
    have "med_compared b (attr_aspath (ri_attr (rs ! x))) (attr_aspath (ri_attr (rs ! y))) = Some True"
      using conf(2) by (simp add: med_compared_def)
    then show ?thesis using bgp_info_cmp_key [OF conf(1) k] by (simp add: le_at_def)
  qed
  have "scan (le_at b rs) (filter (\<lambda>i. \<not> held_at rs i) [0..<length rs]) None = Some i" using new cand by (simp add: new_of_def)
  then have "(\<forall>x\<in>set (filter (\<lambda>i. \<not> held_at rs i) [0..<length rs]). route_key b True (rs ! i) \<le> route_key b True (rs ! x)) \<and>
      (\<forall>x. None = Some x \<longrightarrow> route_key b True (rs ! i) \<le> route_key b True (rs ! x))"
    by (intro scan_least [of ?U "le_at b rs"] le) auto
  moreover obtain j where "j < length rs" "\<not> held_at rs j" "s = rs ! j" using s by (auto simp: in_use_nth)
  ultimately have "route_key b True (rs ! i) \<le> route_key b True s" by auto
  then show ?thesis using selected_new(3) [OF inv safe p, of i] unselected_key by metis
qed

subsection \<open>Deterministic comparison of the MED\<close>

definition neighbor_as :: "bgp_info \<Rightarrow> u16" where
  "neighbor_as r = the (the (left_value (attr_aspath (ri_attr r))))"

text \<open>A route learned from another AS: its path has a leftmost AS.\<close>

definition external :: "bgp \<Rightarrow> bgp_info \<Rightarrow> bool" where
  "external b r \<longleftrightarrow> route_ok r \<and> normal r \<and> keyed b r \<and> (\<exists>a. left_value (attr_aspath (ri_attr r)) = Some (Some a)) \<and>
     as_length (attr_aspath (ri_attr r)) > 0 \<and> as_count (attr_aspath (ri_attr r)) > 0"

text \<open>The best routes of each neighboring AS, and the best of them without regard to the MED.\<close>

definition group_best :: "bgp \<Rightarrow> bgp_info set \<Rightarrow> bgp_info \<Rightarrow> bool" where
  "group_best b R r \<longleftrightarrow> r \<in> R \<and> (\<forall>s\<in>R. neighbor_as s = neighbor_as r \<longrightarrow> route_key b True r \<le> route_key b True s)"

definition best_of :: "bgp \<Rightarrow> bgp_info set \<Rightarrow> bgp_info \<Rightarrow> bool" where
  "best_of b R r \<longleftrightarrow> group_best b R r \<and> (\<forall>s. group_best b R s \<longrightarrow> route_key b False r \<le> route_key b False s)"

definition core :: "bgp_info \<Rightarrow> bgp_info" where
  "core r = r\<lparr>ri_flags := 0\<rparr>"

lemma core_simps [simp]: "route_key b m (core r) = route_key b m r" "neighbor_as (core r) = neighbor_as r" "remote_key (core r) = remote_key r"
  "core (unselected r) = core r"
  by (simp_all add: core_def unselected_def route_key_def path_key_def tie_key_def normal_def local_rank_def peer_rank_def remote_key_def
      router_id_of_def cluster_of_def neighbor_as_def)

lemma best_of_core:
  assumes "best_of b R r"
  shows "best_of b (core ` R) (core r)"
proof -
  have g: "group_best b (core ` R) (core s) \<longleftrightarrow> group_best b R s" if "s \<in> R" for s
    using that by (auto simp: group_best_def)
  have r: "r \<in> R" using assms by (simp add: best_of_def group_best_def)
  show ?thesis
    using assms g r unfolding best_of_def by (auto simp: group_best_def)
qed

lemma route_key_forget_med:
  "normal r \<Longrightarrow> normal s \<Longrightarrow> route_key b True r = route_key b True s \<Longrightarrow> route_key b False r = route_key b False s"
  by (simp add: route_key_def path_key_def)

lemma route_key_remote: "normal r \<Longrightarrow> normal s \<Longrightarrow> route_key b m r = route_key b m s \<Longrightarrow> remote_key r = remote_key s"
  by (cases m) (simp_all add: route_key_def path_key_def tie_key_def)

lemma best_of_unique:
  assumes "best_of b R r" "best_of b R s" "\<forall>r\<in>R. normal r" "inj_on remote_key R"
  shows "r = s"
proof -
  have "route_key b False r = route_key b False s" using assms(1,2) by (intro antisym) (auto simp: best_of_def)
  moreover have "r \<in> R" "s \<in> R" using assms(1,2) by (auto simp: best_of_def group_best_def)
  ultimately show ?thesis using assms(3,4) route_key_remote by (metis inj_onD)
qed

lemma external_neighbor:
  assumes "external b r" "external b s"
  shows "same_neighbor_as (attr_aspath (ri_attr r)) (attr_aspath (ri_attr s)) = Some (neighbor_as r = neighbor_as s)"
    and "\<not> bgp_flag_check b BGP_FLAG_ALWAYS_COMPARE_MED \<Longrightarrow>
      med_compared b (attr_aspath (ri_attr r)) (attr_aspath (ri_attr s)) = Some (neighbor_as r = neighbor_as s)"
proof -
  obtain v w cv cw where v: "left_value (attr_aspath (ri_attr r)) = Some (Some v)" "left_value (attr_aspath (ri_attr s)) = Some (Some w)"
    "confed_value (attr_aspath (ri_attr r)) = Some cv" "confed_value (attr_aspath (ri_attr s)) = Some cw"
    using assms by (auto simp: external_def route_ok_def)
  note left = aspath_cmp_left_value [OF v(1,2)] aspath_cmp_left_confed_value [OF v(3,4)]
  have n: "neighbor_as r = v" "neighbor_as s = w" using v by (simp_all add: neighbor_as_def)
  have c: "as_count (attr_aspath (ri_attr r)) \<noteq> 0" "as_length (attr_aspath (ri_attr r)) \<noteq> 0" using assms by (auto simp: external_def)
  show "same_neighbor_as (attr_aspath (ri_attr r)) (attr_aspath (ri_attr s)) = Some (neighbor_as r = neighbor_as s)"
    using c by (simp add: same_neighbor_as_def left n)
  show "\<not> bgp_flag_check b BGP_FLAG_ALWAYS_COMPARE_MED \<Longrightarrow>
      med_compared b (attr_aspath (ri_attr r)) (attr_aspath (ri_attr s)) = Some (neighbor_as r = neighbor_as s)"
    using c by (simp add: med_compared_def Let_def left n)
qed

definition det_config :: "bgp \<Rightarrow> bool" where
  "det_config b \<longleftrightarrow> plain_config b \<and> bgp_flag_check b BGP_FLAG_DETERMINISTIC_MED \<and> \<not> bgp_flag_check b BGP_FLAG_ALWAYS_COMPARE_MED"

lemma deterministic_best:
  assumes ext: "\<forall>r\<in>in_use rs. external b r" and conf: "det_config b" and new: "new_of b rs = Some i"
  shows "best_of b (in_use rs) (rs ! i)"
proof -
  let ?U = "{i. \<not> held_at rs i} \<inter> {i. i < length rs}"
  define k where "k m i = route_key b m (rs ! i)" for m i
  define cls where "cls i = neighbor_as (rs ! i)" for i
  have u: "rs ! i \<in> in_use rs \<and> external b (rs ! i) \<and> normal (rs ! i)" if "i \<in> ?U" for i
    using that ext by (auto simp: in_use_def held_at_def external_def)
  have cmp: "le_at b rs x y \<longleftrightarrow> k (cls x = cls y) x \<le> k (cls x = cls y) y" if "x \<in> ?U" "y \<in> ?U" for x y
  proof -
    have e: "external b (rs ! x)" "external b (rs ! y)" using u that by auto
    then show ?thesis
      using bgp_info_cmp_key [OF _ _ _ external_neighbor(2) [OF e]] conf
      by (simp add: le_at_def det_config_def external_def k_def cls_def)
  qed
  have ng: "neighbor_at rs x y \<longleftrightarrow> cls x = cls y" if "x \<in> ?U" "y \<in> ?U" for x y
    using external_neighbor(1) [of b "rs ! x" "rs ! y"] u [OF that(1)] u [OF that(2)] by (simp add: neighbor_at_def cls_def)
  have W: "(\<forall>w\<in>winners b rs - {}. w \<in> set [0..<length rs] \<inter> ?U \<and> w \<notin> {} \<and>
        (\<forall>j\<in>set [0..<length rs] \<inter> ?U. cls j = cls w \<longrightarrow> k True w \<le> k True j)) \<and>
      (\<forall>i\<in>set [0..<length rs] \<inter> ?U. i \<notin> {} \<longrightarrow> (\<exists>w\<in>winners b rs. w \<in> set [0..<length rs] \<inter> ?U \<and> cls w = cls i))"
    unfolding winners_def using ng cmp by (intro groups_scan_least [where A = "{i. i < length rs}"]) auto
  have w1: "w \<in> ?U" "\<And>j. j \<in> ?U \<Longrightarrow> cls j = cls w \<Longrightarrow> k True w \<le> k True j" if "w \<in> winners b rs" for w
    using W that by auto
  have w2: "\<exists>w\<in>winners b rs. cls w = cls i" if "i \<in> ?U" for i using W that by auto
  have gb: "group_best b (in_use rs) (rs ! j) \<longleftrightarrow> (\<forall>l\<in>?U. cls l = cls j \<longrightarrow> k True j \<le> k True l)" if "j \<in> ?U" for j
  proof -
    have iu: "in_use rs = (\<lambda>i. rs ! i) ` ?U" by (auto simp: in_use_nth image_iff)
    have "rs ! j \<in> in_use rs" using u [OF that] by simp
    then show ?thesis by (simp only: group_best_def k_def cls_def iu ball_simps simp_thms)
  qed
  have forget: "k False x = k False y" if "x \<in> ?U" "y \<in> ?U" "k True x = k True y" for x y
    using that u by (auto simp: k_def intro!: route_key_forget_med)
  have sc: "scan (le_at b rs) (candidates b rs (winners b rs) [0..<length rs]) None = Some i"
    using new conf by (simp add: new_of_def det_config_def)
  have cand: "set (candidates b rs (winners b rs) [0..<length rs]) = winners b rs"
    using conf w1(1) by (auto simp: candidates_def det_config_def)
  have le: "le_at b rs x y \<longleftrightarrow> k False x \<le> k False y" if "x \<in> winners b rs" "y \<in> winners b rs" for x y
  proof (cases "cls x = cls y")
    case True
    then have "k True x = k True y" using w1 that by (intro antisym) auto
    then show ?thesis using cmp [of x y] w1(1) that forget [of x y] True by simp
  next
    case False
    then show ?thesis using cmp [of x y] w1(1) that by simp
  qed
  have iw: "i \<in> winners b rs" using scan_mem [OF sc] cand by simp
  have "(\<forall>x\<in>set (candidates b rs (winners b rs) [0..<length rs]). k False i \<le> k False x) \<and> (\<forall>x. None = Some x \<longrightarrow> k False i \<le> k False x)"
    using sc cand by (intro scan_least [of "winners b rs" "le_at b rs"] le) auto
  then have least: "k False i \<le> k False w" if "w \<in> winners b rs" for w using that cand by auto
  show ?thesis
    unfolding best_of_def
  proof (intro conjI allI impI)
    show "group_best b (in_use rs) (rs ! i)" using gb w1 [OF iw] by auto
    fix s assume s: "group_best b (in_use rs) s"
    then obtain j where j: "j \<in> ?U" "s = rs ! j" by (auto simp: group_best_def in_use_nth)
    obtain w where w: "w \<in> winners b rs" "cls w = cls j" using w2 [OF j(1)] by auto
    have "k True w \<le> k True j" using w1(2) [OF w(1) j(1)] w(2) by simp
    moreover have "k True j \<le> k True w" using gb [OF j(1)] s j(2) w1(1) [OF w(1)] w(2) by auto
    ultimately have "k False w = k False j" using forget [OF w1(1) [OF w(1)] j(1)] by simp
    then show "route_key b False (rs ! i) \<le> route_key b False s" using least [OF w(1)] j(2) by (simp add: k_def)
  qed
qed

text \<open>C13: Deterministic MED.  With \<open>bgp deterministic-med\<close>, router ids compared (\<open>bestpath compare-routerid\<close>), cost communities ignored and
  \<open>always-compare-med\<close> off, and with routes in use that come from peers outside the AS with different addresses and have an AS number at
  the left of their paths, the selected route does not depend on the order in which the routes were received nor on what was selected before: it
  is the best of the best routes of each neighboring AS, and two tables with the same routes in use, in any order, select the same.\<close>

theorem bgp_deterministic_med:
  assumes "sel_inv rs" "sel_inv rs'" "det_config b"
    and ext: "\<forall>r\<in>in_use rs. external b r" "\<forall>r\<in>in_use rs'. external b r"
    and same: "core ` in_use rs = core ` in_use rs'" "inj_on remote_key (core ` in_use rs)"
    and p: "bgp_process b ac peers fib rs = Some (q, outs)" "bgp_process b ac' peers' fib' rs' = Some (q', outs')"
    and sel: "selected_at q i"
  shows "best_of b (core ` in_use rs) (core (q ! i)) \<and> (\<exists>i'. selected_at q' i' \<and> core (q' ! i') = core (q ! i))"
proof -
  have safe: "cmp_safe b rs" "cmp_safe b rs'"
    using ext by (auto intro!: route_ok_safe simp: in_use_def external_def)
  note s1 = selected_new [OF assms(1) safe(1) p(1)] and s2 = selected_new [OF assms(2) safe(2) p(2)]
  have i: "new_of b rs = Some i" using s1(1) sel by simp
  have b1: "best_of b (core ` in_use rs) (core (rs ! i))"
    by (rule best_of_core [OF deterministic_best [OF ext(1) assms(3) i]])
  have c: "core (q ! i) = core (rs ! i)" by (metis core_simps(4) s1(3))
  have "rs ! i \<in> in_use rs" using new_of_Some [OF i] by (auto simp: in_use_nth)
  then have "in_use rs' \<noteq> {}" using same(1) by auto
  then have "new_of b rs' \<noteq> None" by (auto simp: new_of_None in_use_nth)
  then obtain j where j: "new_of b rs' = Some j" by auto
  have b2: "best_of b (core ` in_use rs) (core (rs' ! j))"
    unfolding same(1) by (rule best_of_core [OF deterministic_best [OF ext(2) assms(3) j]])
  have "\<forall>r\<in>core ` in_use rs. normal r" using ext(1) by (auto simp: external_def core_def normal_def)
  then have "core (rs' ! j) = core (rs ! i)" by (rule best_of_unique [OF b2 b1 _ same(2)])
  then have "core (q' ! j) = core (q ! i)" using c by (metis core_simps(4) s2(3))
  then show ?thesis using b1 c s2(1) j by auto
qed

section \<open>Examples\<close>

text \<open>A route from a neighboring AS with a MED, an internal metric and the router id and address of the peer.\<close>

definition demo_route :: "u16 \<Rightarrow> u8 \<Rightarrow> u32 \<Rightarrow> u32 \<Rightarrow> u8 \<Rightarrow> bgp_info" where
  "demo_route fl as m metric rid =
     \<lparr>ri_type = ZEBRA_ROUTE_BGP, sub_type = BGP_ROUTE_NORMAL, ri_flags = fl,
      ri_peer = \<lparr>established = True, afc_nego = True, af_sflags = 0, group_head = None, peer_as = 7, local_as = 7,
                 remote_id = ucast rid, su_remote = Some \<lparr>sa_family = AF_INET, sin_addr = [10, 0, 0, rid], sin6_addr = []\<rparr>, peer_sflags = 0\<rparr>,
      ri_attr = \<lparr>attr_flag = 8, origin = 0, med = m, local_pref = 100, weight = 0, originator_id = 0, cluster_length = 0,
                 attr_aspath = \<lparr>as_refcnt = 0, as_length = 4, as_count = 1, as_data = Some [2, 1, 0, as], as_str = None\<rparr>, attr_ecommunity = None\<rparr>,
      igpmetric = metric\<rparr>"

definition demo_bgp :: "u16 \<Rightarrow> bgp" where
  "demo_bgp fl = \<lparr>bgp_as = 7, bgp_config = 0, confed_id = 0, confed_peers = [], bgp_flags = fl, default_local_pref = 100\<rparr>"

definition selected_routes :: "(bgp_info list \<times> bgp_out list) option \<Rightarrow> nat list" where
  "selected_routes r = (case r of None \<Rightarrow> [] | Some (q, outs) \<Rightarrow> filter (selected_at q) [0..<length q])"

text \<open>The MED without \<open>bgp deterministic-med\<close>.  Three routes, two of them from one AS: the first beats the second by its MED, the
  second beats the third and the third the first by the internal metric.  The same three routes, received in two orders, make
  the process select different routes (the third, then the second); with the option it selects the third both times.\<close>

theorem bgp_med_depends_on_order:
  fixes r1 r2 r3 :: bgp_info
  defines "r1 \<equiv> demo_route 16 1 0 30 1" and "r2 \<equiv> demo_route 16 1 1 10 2" and "r3 \<equiv> demo_route 16 2 0 20 3"
  shows "selected_routes (bgp_process (demo_bgp 8320) (\<lambda>_ _. True) [] True [r1, r2, r3]) = [2] \<and>
    selected_routes (bgp_process (demo_bgp 8320) (\<lambda>_ _. True) [] True [r3, r1, r2]) = [2] \<and>
    selected_routes (bgp_process (demo_bgp 8322) (\<lambda>_ _. True) [] True [r1, r2, r3]) = [2] \<and>
    selected_routes (bgp_process (demo_bgp 8322) (\<lambda>_ _. True) [] True [r3, r1, r2]) = [0]"
  unfolding assms by code_simp

lemma demo_checks:
  "plain_config (demo_bgp 8320)" "plain_config (demo_bgp 8321)" "det_config (demo_bgp 8322)"
  "bgp_flag_check (demo_bgp 8321) BGP_FLAG_ALWAYS_COMPARE_MED" "\<not> bgp_flag_check (demo_bgp 8321) BGP_FLAG_DETERMINISTIC_MED"
  by code_simp+

lemma demo_external: "external (demo_bgp fl) (demo_route f as m metric rid)"
proof -
  have sk: "skip_confed [2, 1, 0, as] 0 = Some 0" by (subst skip_confed.simps) (simp add: AS_CONFED_SEQUENCE_def AS_CONFED_SET_def)
  have l: "left_value (attr_aspath (ri_attr (demo_route f as m metric rid))) = Some (Some (word_cat (0 :: u8) as))"
    by (simp add: left_value_def demo_route_def sk left_as_def seg_length_def seg_type_def seg_asval_def mem_get16_def mem_read_def AS_SEQUENCE_def)
  have c: "confed_value (attr_aspath (ri_attr (demo_route f as m metric rid))) = Some None"
    by (simp add: confed_value_def demo_route_def left_as_def seg_length_def seg_type_def mem_read_def AS_CONFED_SEQUENCE_def)
  show ?thesis
    using l c by (simp add: external_def route_ok_def keyed_def normal_def ecom_ok_def)
      (simp add: demo_route_def demo_bgp_def BGP_ROUTE_NORMAL_def BGP_ROUTE_STATIC_def BGP_ROUTE_REDISTRIBUTE_def BGP_ROUTE_AGGREGATE_def
        peer_sort_def CHECK_FLAG_def su_ok_def AF_INET_def AF_INET6_def)
qed

lemma demo_inv:
  assumes "\<forall>r\<in>set rs. \<exists>as m metric rid. r = demo_route 16 as m metric rid"
  shows "sel_inv rs"
proof -
  have "dmed_free r \<and> \<not> CHECK_FLAG (ri_flags r) BGP_INFO_SELECTED" if r: "r \<in> set rs" for r
  proof -
    obtain as m metric rid where "r = demo_route 16 as m metric rid" using assms r by blast
    then show ?thesis by (simp add: dmed_free_def demo_route_def CHECK_FLAG_def bgp_info_flags)
  qed
  then show ?thesis by (auto simp: sel_inv_def selected_at_def)
qed

theorem bgp_process_selects_witness:
  "\<exists>rs' outs. bgp_process (demo_bgp 0) (\<lambda>_ _. True) [] True [demo_route 0 1 0 30 1, demo_route 16 1 1 10 2] = Some (rs', outs) \<and>
    selected_at rs' 1"
proof -
  let ?rs = "[demo_route 0 1 0 30 1, demo_route 16 1 1 10 2]"
  have inv: "sel_inv ?rs" by (auto simp: sel_inv_def selected_at_def dmed_free_def demo_route_def CHECK_FLAG_def bgp_info_flags nth_Cons')
  have h: "BGP_INFO_HOLDDOWN (demo_route 0 1 0 30 1)" "\<not> BGP_INFO_HOLDDOWN (demo_route 16 1 1 10 2)"
    by (simp_all add: BGP_INFO_HOLDDOWN_def demo_route_def CHECK_FLAG_def bgp_info_flags)
  have ok: "\<forall>r\<in>set ?rs. \<not> BGP_INFO_HOLDDOWN r \<longrightarrow> route_ok r"
    using demo_external by (auto simp: external_def)
  obtain rs' outs where p: "bgp_process (demo_bgp 0) (\<lambda>_ _. True) [] True ?rs = Some (rs', outs)"
    and l: "map unselected rs' = map unselected ?rs" and ex: "(\<exists>i. selected_at rs' i) \<longleftrightarrow> (\<exists>r\<in>set ?rs. \<not> BGP_INFO_HOLDDOWN r)"
    and u: "\<forall>i. selected_at rs' i \<longrightarrow> \<not> BGP_INFO_HOLDDOWN (?rs ! i)"
    using bgp_process_selects [OF inv ok, of "demo_bgp 0" "\<lambda>_ _. True" "[]" True] by (elim exE conjE) (rule that)
  have "\<exists>i. selected_at rs' i" unfolding ex using h by simp
  then obtain i where i: "selected_at rs' i" by (elim exE)
  have "length rs' = 2" using arg_cong [OF l, of length] by simp
  then have "i = 0 \<or> i = 1" using i by (auto simp: selected_at_def)
  then have "i = 1" using u i h by auto
  then show ?thesis using p i by auto
qed

theorem bgp_process_best_witness:
  "\<exists>rs' outs i. bgp_process (demo_bgp 8321) (\<lambda>_ _. True) [] True [demo_route 16 1 5 30 1, demo_route 16 2 1 10 2] = Some (rs', outs) \<and>
    selected_at rs' i \<and> route_key (demo_bgp 8321) True (rs' ! i) \<le> route_key (demo_bgp 8321) True (demo_route 16 2 1 10 2)"
proof -
  let ?rs = "[demo_route 16 1 5 30 1, demo_route 16 2 1 10 2]"
  have inv: "sel_inv ?rs" by (rule demo_inv) auto
  have ok: "\<forall>r\<in>in_use ?rs. route_ok r \<and> keyed (demo_bgp 8321) r" using demo_external by (auto simp: in_use_def external_def)
  have u: "demo_route 16 2 1 10 2 \<in> in_use ?rs"
    by (simp add: in_use_def BGP_INFO_HOLDDOWN_def demo_route_def CHECK_FLAG_def bgp_info_flags)
  have "selected_routes (bgp_process (demo_bgp 8321) (\<lambda>_ _. True) [] True ?rs) = [1]" by code_simp
  then obtain rs' outs where p: "bgp_process (demo_bgp 8321) (\<lambda>_ _. True) [] True ?rs = Some (rs', outs)"
    and s: "filter (selected_at rs') [0..<length rs'] = [1]" by (auto simp: selected_routes_def split: option.splits)
  have "1 \<in> set (filter (selected_at rs') [0..<length rs'])" unfolding s by simp
  then have "selected_at rs' 1" by simp
  then show ?thesis using p bgp_process_best [OF inv ok demo_checks(2,4,5) p _ u] by blast
qed

theorem bgp_deterministic_med_witness:
  "\<exists>q outs i. bgp_process (demo_bgp 8322) (\<lambda>_ _. True) [] True [demo_route 16 2 0 20 3, demo_route 16 1 0 30 1] = Some (q, outs) \<and>
    selected_at q i \<and> core (q ! i) = core (demo_route 16 2 0 20 3)"
proof -
  let ?rs = "[demo_route 16 1 0 30 1, demo_route 16 2 0 20 3]" and ?rs' = "[demo_route 16 2 0 20 3, demo_route 16 1 0 30 1]"
  have inv: "sel_inv ?rs" "sel_inv ?rs'" by (rule demo_inv, auto)+
  have ext: "\<forall>r\<in>in_use ?rs. external (demo_bgp 8322) r" "\<forall>r\<in>in_use ?rs'. external (demo_bgp 8322) r"
    using demo_external by (auto simp: in_use_def)
  have same: "core ` in_use ?rs = core ` in_use ?rs'" by (rule arg_cong [of _ _ "image core"]) (auto simp: in_use_def)
  have "remote_key (demo_route f as m metric 1) \<noteq> remote_key (demo_route f' as' m' metric' 3)" for f as m metric f' as' m' metric'
    by (simp add: remote_key_def demo_route_def addr_key_def ntohl_def byte_at_def)
  then have inj: "inj_on remote_key (core ` in_use ?rs)" by (auto simp: inj_on_def in_use_def dest: sym)
  have "selected_routes (bgp_process (demo_bgp 8322) (\<lambda>_ _. True) [] True ?rs) = [1]" by code_simp
  then obtain q outs where p: "bgp_process (demo_bgp 8322) (\<lambda>_ _. True) [] True ?rs = Some (q, outs)"
    and s: "filter (selected_at q) [0..<length q] = [1]" by (auto simp: selected_routes_def split: option.splits)
  have "1 \<in> set (filter (selected_at q) [0..<length q])" unfolding s by simp
  then have s1: "selected_at q 1" by simp
  have "selected_routes (bgp_process (demo_bgp 8322) (\<lambda>_ _. True) [] True ?rs') = [0]" by code_simp
  then obtain q' outs' where p': "bgp_process (demo_bgp 8322) (\<lambda>_ _. True) [] True ?rs' = Some (q', outs')"
    by (auto simp: selected_routes_def split: option.splits)
  have safe: "cmp_safe (demo_bgp 8322) ?rs" using ext(1) by (intro route_ok_safe) (auto simp: in_use_def external_def)
  have "core (q ! 1) = core (demo_route 16 2 0 20 3)"
    using selected_new(3) [OF inv(1) safe p, of 1] by (metis One_nat_def core_simps(4) nth_Cons_0 nth_Cons_Suc)
  then show ?thesis using bgp_deterministic_med [OF inv demo_checks(3) ext same inj p p' s1] p' by auto
qed

end
