(* ===== verification/Lib_Stream.thy ===== *)
theory Lib_Stream
  imports Lib_Prefix
begin

text \<open>
  The packet buffers of \<open>lib/stream.c\<close> and their first-in first-out queue.  A stream owns a
  block of \<open>size\<close> bytes and three positions of type \<open>unsigned long\<close>; a read or write outside
  the block is the result \<^term>\<open>None\<close>.  The put functions return their C result and the stream;
  the get functions return the value and the stream.  The queue links streams through their
  \<open>next\<close> field, which is a store from stream addresses to stream addresses.
\<close>

section \<open>Definitions\<close>

record stream =
  sdata :: "u8 list"
  putp :: ulong
  getp :: ulong
  endp :: ulong
  ssize :: ulong

definition stream_new :: "ulong \<Rightarrow> stream" where
  "stream_new sz = \<lparr>sdata = replicate (unat sz) 0, putp = 0, getp = 0, endp = 0, ssize = sz\<rparr>"

definition stream_get_getp :: "stream \<Rightarrow> ulong" where "stream_get_getp s = getp s"
definition stream_get_putp :: "stream \<Rightarrow> ulong" where "stream_get_putp s = putp s"
definition stream_get_endp :: "stream \<Rightarrow> ulong" where "stream_get_endp s = endp s"
definition stream_get_size :: "stream \<Rightarrow> ulong" where "stream_get_size s = ssize s"

definition stream_set_getp :: "stream \<Rightarrow> ulong \<Rightarrow> stream" where
  "stream_set_getp s pos = s\<lparr>getp := pos\<rparr>"

definition stream_set_putp :: "stream \<Rightarrow> ulong \<Rightarrow> stream" where
  "stream_set_putp s pos = s\<lparr>putp := pos\<rparr>"

definition stream_forward :: "stream \<Rightarrow> int \<Rightarrow> stream" where
  "stream_forward s n = s\<lparr>getp := getp s + word_of_int n\<rparr>"

subsection \<open>Reading\<close>

definition stream_get :: "stream \<Rightarrow> ulong \<Rightarrow> (u8 list \<times> stream) option" where
  "stream_get s n = do {
     bs \<leftarrow> mem_get (sdata s) (unat (getp s)) (unat n);
     Some (bs, s\<lparr>getp := getp s + n\<rparr>)
   }"

definition stream_getc :: "stream \<Rightarrow> (u8 \<times> stream) option" where
  "stream_getc s = do {
     c \<leftarrow> mem_read (sdata s) (unat (getp s));
     Some (c, s\<lparr>getp := getp s + 1\<rparr>)
   }"

definition stream_getc_from :: "stream \<Rightarrow> ulong \<Rightarrow> u8 option" where
  "stream_getc_from s from = mem_read (sdata s) (unat from)"

definition stream_getw :: "stream \<Rightarrow> (u16 \<times> stream) option" where
  "stream_getw s = do {
     (a, s) \<leftarrow> stream_getc s;
     (b, s) \<leftarrow> stream_getc s;
     Some (push_bit 8 (ucast a) OR ucast b, s)
   }"

definition stream_getw_from :: "stream \<Rightarrow> ulong \<Rightarrow> u16 option" where
  "stream_getw_from s from = do {
     a \<leftarrow> mem_read (sdata s) (unat from);
     b \<leftarrow> mem_read (sdata s) (unat (from + 1));
     Some (push_bit 8 (ucast a) OR ucast b)
   }"

definition stream_getl :: "stream \<Rightarrow> (u32 \<times> stream) option" where
  "stream_getl s = do {
     (a, s) \<leftarrow> stream_getc s;
     (b, s) \<leftarrow> stream_getc s;
     (c, s) \<leftarrow> stream_getc s;
     (d, s) \<leftarrow> stream_getc s;
     Some (push_bit 24 (ucast a) OR push_bit 16 (ucast b) OR push_bit 8 (ucast c) OR ucast d, s)
   }"

text \<open>\<open>stream_get_ipv4\<close> copies four bytes into a \<open>u_int32_t\<close> in network order: the model keeps
  the four bytes.\<close>

definition stream_get_ipv4 :: "stream \<Rightarrow> (u8 list \<times> stream) option" where
  "stream_get_ipv4 s = do {
     l \<leftarrow> mem_get (sdata s) (unat (getp s)) 4;
     Some (l, s\<lparr>getp := getp s + 4\<rparr>)
   }"

subsection \<open>Writing\<close>

text \<open>\<open>s->data[s->putp++] = b\<close> for each byte in turn.\<close>

fun put_bytes :: "stream \<Rightarrow> u8 list \<Rightarrow> stream option" where
  "put_bytes s [] = Some s"
| "put_bytes s (b # bs) = do {
     d \<leftarrow> mem_write (sdata s) (unat (putp s)) b;
     put_bytes (s\<lparr>sdata := d, putp := putp s + 1\<rparr>) bs
   }"

text \<open>\<open>if (s->putp > s->endp) s->endp = s->putp\<close>.\<close>

definition bump_endp :: "stream \<Rightarrow> stream" where
  "bump_endp s = (if putp s > endp s then s\<lparr>endp := putp s\<rparr> else s)"

text \<open>\<open>memcpy (s->data + s->putp, bs, n); s->putp += n\<close> and the end pointer.\<close>

definition copy_in :: "stream \<Rightarrow> u8 list \<Rightarrow> stream option" where
  "copy_in s bs = do {
     d \<leftarrow> mem_put (sdata s) (unat (putp s)) bs;
     Some (bump_endp (s\<lparr>sdata := d, putp := putp s + of_nat (length bs)\<rparr>))
   }"

definition check_size :: "stream \<Rightarrow> ulong \<Rightarrow> ulong" where
  "check_size s z = (if putp s + z > ssize s then ssize s - putp s else z)"

definition stream_put :: "stream \<Rightarrow> u8 list option \<Rightarrow> ulong \<Rightarrow> stream option" where
  "stream_put s src sz =
     (let n = unat (check_size s sz) in
      case src of
        Some bs \<Rightarrow> if n \<le> length bs then copy_in s (take n bs) else None
      | None \<Rightarrow> copy_in s (replicate n 0))"

definition stream_putc :: "stream \<Rightarrow> u8 \<Rightarrow> (int \<times> stream) option" where
  "stream_putc s c =
     (if putp s \<ge> ssize s then Some (0, s)
      else do { s' \<leftarrow> put_bytes s [c]; Some (1, bump_endp s') })"

definition stream_putw :: "stream \<Rightarrow> u16 \<Rightarrow> (int \<times> stream) option" where
  "stream_putw s w =
     (if ssize s - putp s < 2 then Some (0, s)
      else do { s' \<leftarrow> put_bytes s [ucast (drop_bit 8 w), ucast w]; Some (2, bump_endp s') })"

definition stream_putl :: "stream \<Rightarrow> u32 \<Rightarrow> (int \<times> stream) option" where
  "stream_putl s l =
     (if ssize s - putp s < 4 then Some (0, s)
      else do {
        s' \<leftarrow> put_bytes s [ucast (drop_bit 24 l), ucast (drop_bit 16 l), ucast (drop_bit 8 l), ucast l];
        Some (4, bump_endp s')
      })"

definition stream_putc_at :: "stream \<Rightarrow> ulong \<Rightarrow> u8 \<Rightarrow> (int \<times> stream) option" where
  "stream_putc_at s p c = do {
     d \<leftarrow> mem_write (sdata s) (unat p) c;
     Some (1, s\<lparr>sdata := d\<rparr>)
   }"

definition stream_putw_at :: "stream \<Rightarrow> ulong \<Rightarrow> u16 \<Rightarrow> (int \<times> stream) option" where
  "stream_putw_at s p w = do {
     d \<leftarrow> mem_write (sdata s) (unat p) (ucast (drop_bit 8 w));
     d \<leftarrow> mem_write d (unat (p + 1)) (ucast w);
     Some (2, s\<lparr>sdata := d\<rparr>)
   }"

definition stream_putl_at :: "stream \<Rightarrow> ulong \<Rightarrow> u32 \<Rightarrow> (int \<times> stream) option" where
  "stream_putl_at s p l = do {
     d \<leftarrow> mem_write (sdata s) (unat p) (ucast (drop_bit 24 l));
     d \<leftarrow> mem_write d (unat (p + 1)) (ucast (drop_bit 16 l));
     d \<leftarrow> mem_write d (unat (p + 2)) (ucast (drop_bit 8 l));
     d \<leftarrow> mem_write d (unat (p + 3)) (ucast l);
     Some (4, s\<lparr>sdata := d\<rparr>)
   }"

text \<open>\<open>stream_put_ipv4\<close> and \<open>stream_put_in_addr\<close> copy the four bytes of an address.\<close>

definition stream_put_ipv4 :: "stream \<Rightarrow> u8 list \<Rightarrow> (int \<times> stream) option" where
  "stream_put_ipv4 s l =
     (if ssize s - putp s < 4 then Some (0, s)
      else do { s' \<leftarrow> copy_in s (take 4 l); Some (4, s') })"

definition stream_put_in_addr :: "stream \<Rightarrow> u8 list \<Rightarrow> (int \<times> stream) option" where
  "stream_put_in_addr s addr =
     (if ssize s - putp s < 4 then Some (0, s)
      else do { s' \<leftarrow> copy_in s (take 4 addr); Some (4, s') })"

definition PSIZE :: "nat \<Rightarrow> nat" where
  "PSIZE a = (a + 7) div 8"

definition stream_put_prefix :: "stream \<Rightarrow> prefix \<Rightarrow> (int \<times> stream) option" where
  "stream_put_prefix s p =
     (let psize = PSIZE (plen p) in
      if ssize s - putp s < of_nat psize then Some (0, s)
      else do {
        (_, s1) \<leftarrow> stream_putc s (prefixlen p);
        bs \<leftarrow> mem_get (u_prefix p) 0 psize;
        s2 \<leftarrow> copy_in s1 bs;
        Some (int psize, s2)
      })"

text \<open>
  \<open>readn\<close> (or \<open>read\<close> on the descriptor made non-blocking) gives its result and the bytes it stored.
\<close>

definition stream_read :: "(ulong \<Rightarrow> int \<times> u8 list) \<Rightarrow> stream \<Rightarrow> ulong \<Rightarrow> (int \<times> stream) option" where
  "stream_read readn s sz =
     (let (nbytes, bs) = readn sz in
      if nbytes > 0
      then do {
        d \<leftarrow> mem_put (sdata s) (unat (putp s)) bs;
        Some (nbytes, s\<lparr>sdata := d, putp := putp s + word_of_int nbytes, endp := endp s + word_of_int nbytes\<rparr>)
      }
      else Some (nbytes, s))"

definition stream_write :: "stream \<Rightarrow> u8 list \<Rightarrow> ulong \<Rightarrow> (int \<times> stream) option" where
  "stream_write s ptr sz =
     (let n = check_size s sz in
      if unat n \<le> length ptr
      then do { s' \<leftarrow> copy_in s (take (unat n) ptr); Some (int (unat n), s') }
      else None)"

definition stream_empty :: "stream \<Rightarrow> bool" where
  "stream_empty s \<longleftrightarrow> putp s = 0 \<and> endp s = 0 \<and> getp s = 0"

definition stream_reset :: "stream \<Rightarrow> stream" where
  "stream_reset s = s\<lparr>putp := 0, endp := 0, getp := 0\<rparr>"

text \<open>The bytes \<open>stream_flush\<close> hands to \<open>write\<close>.\<close>

definition stream_flush :: "stream \<Rightarrow> u8 list option" where
  "stream_flush s = mem_get (sdata s) (unat (getp s)) (unat (endp s - getp s))"

subsection \<open>The queue of streams\<close>

record stream_fifo =
  fcount :: ulong
  fhead :: "nat option"
  ftail :: "nat option"

type_synonym nexts = "nat \<Rightarrow> nat option"

definition stream_fifo_new :: stream_fifo where
  "stream_fifo_new = \<lparr>fcount = 0, fhead = None, ftail = None\<rparr>"

definition stream_fifo_push :: "nexts \<Rightarrow> stream_fifo \<Rightarrow> nat \<Rightarrow> nexts \<times> stream_fifo" where
  "stream_fifo_push nx q s =
     (case ftail q of
        Some t \<Rightarrow> (nx(t := Some s), q\<lparr>ftail := Some s, fcount := fcount q + 1\<rparr>)
      | None \<Rightarrow> (nx, q\<lparr>fhead := Some s, ftail := Some s, fcount := fcount q + 1\<rparr>))"

definition stream_fifo_pop :: "nexts \<Rightarrow> stream_fifo \<Rightarrow> nat option \<times> stream_fifo" where
  "stream_fifo_pop nx q =
     (case fhead q of
        Some s \<Rightarrow>
          (Some s, q\<lparr>fhead := nx s, ftail := (if nx s = None then None else ftail q),
                     fcount := fcount q - 1\<rparr>)
      | None \<Rightarrow> (None, q\<lparr>fcount := fcount q - 1\<rparr>))"

definition stream_fifo_head :: "stream_fifo \<Rightarrow> nat option" where
  "stream_fifo_head q = fhead q"

text \<open>\<open>stream_fifo_clean\<close> frees the streams along \<open>next\<close>; the list is the streams freed, with one
  unit of fuel for each.\<close>

fun fifo_free_loop :: "nat \<Rightarrow> nexts \<Rightarrow> nat option \<Rightarrow> nat list option" where
  "fifo_free_loop fuel nx None = Some []"
| "fifo_free_loop 0 nx (Some s) = None"
| "fifo_free_loop (Suc fuel) nx (Some s) = map_option ((#) s) (fifo_free_loop fuel nx (nx s))"

definition stream_fifo_clean :: "nat \<Rightarrow> nexts \<Rightarrow> stream_fifo \<Rightarrow> (nat list \<times> stream_fifo) option" where
  "stream_fifo_clean fuel nx q =
     map_option (\<lambda>fr. (fr, q\<lparr>fhead := None, ftail := None, fcount := 0\<rparr>))
       (fifo_free_loop fuel nx (fhead q))"

section \<open>Invariant and abstract writing\<close>

definition stream_wf :: "stream \<Rightarrow> bool" where
  "stream_wf s \<longleftrightarrow> length (sdata s) = unat (ssize s) \<and> putp s \<le> endp s \<and> endp s \<le> ssize s"

definition room :: "stream \<Rightarrow> nat" where
  "room s = unat (ssize s) - unat (putp s)"

text \<open>The write all put functions perform: the bytes replace the block from the put pointer on.\<close>

definition append_bytes :: "stream \<Rightarrow> u8 list \<Rightarrow> stream" where
  "append_bytes s bs =
     bump_endp (s\<lparr>sdata := take (unat (putp s)) (sdata s) @ bs @ drop (unat (putp s) + length bs) (sdata s),
                  putp := putp s + of_nat (length bs)\<rparr>)"

section \<open>Writes and reads as operations on the block\<close>

lemma stream_wf_room: "stream_wf s \<Longrightarrow> unat (putp s) + room s = length (sdata s)"
  by (simp add: stream_wf_def room_def word_le_nat_alt)

lemma room_less_iff:
  assumes "stream_wf s" "n < 2 ^ 64"
  shows "ssize s - putp s < of_nat n \<longleftrightarrow> room s < n"
proof -
  have "putp s \<le> ssize s" using assms(1) by (auto simp: stream_wf_def)
  then have "unat (ssize s - putp s) = room s" by (simp add: unat_sub room_def)
  moreover have "unat (of_nat n :: ulong) = n" using assms(2) by (simp add: unat_of_nat)
  ultimately show ?thesis by (simp add: word_less_nat_alt)
qed

lemma unat_add_small: "unat a + n < 2 ^ 64 \<Longrightarrow> unat ((a :: ulong) + of_nat n) = unat a + n"
  by (simp add: unat_word_ariths unat_of_nat mod_simps)

lemma put_bytes_block:
  "\<lbrakk>unat (putp s) + length bs \<le> length (sdata s); length (sdata s) < 2 ^ 64\<rbrakk> \<Longrightarrow>
   put_bytes s bs = Some (s\<lparr>sdata := take (unat (putp s)) (sdata s) @ bs @ drop (unat (putp s) + length bs) (sdata s),
     putp := putp s + of_nat (length bs)\<rparr>)"
proof (induction bs arbitrary: s)
  case (Cons b bs)
  let ?s = "s\<lparr>sdata := (sdata s)[unat (putp s) := b], putp := putp s + 1\<rparr>"
  have u: "unat (putp s + 1) = unat (putp s) + 1"
    using unat_add_small [of "putp s" 1] Cons.prems by simp
  have w: "mem_write (sdata s) (unat (putp s)) b = Some ((sdata s)[unat (putp s) := b])"
    using Cons.prems by (simp add: mem_write_def)
  have "put_bytes s (b # bs) = put_bytes ?s bs" using w by simp
  also have "\<dots> = Some (?s\<lparr>sdata := take (unat (putp ?s)) (sdata ?s) @ bs @ drop (unat (putp ?s) + length bs) (sdata ?s),
     putp := putp ?s + of_nat (length bs)\<rparr>)"
    using Cons.prems u by (intro Cons.IH) auto
  also have "take (unat (putp ?s)) (sdata ?s) = take (unat (putp s)) (sdata s) @ [b]"
    using Cons.prems u by (simp add: take_Suc_conv_app_nth)
  also have "drop (unat (putp ?s) + length bs) (sdata ?s) = drop (unat (putp s) + length (b # bs)) (sdata s)"
    using u by (simp add: drop_update_cancel)
  finally show ?case by (simp add: algebra_simps)
qed simp

lemma put_bytes_append:
  assumes "stream_wf s" "length bs \<le> room s"
  shows "map_option bump_endp (put_bytes s bs) = Some (append_bytes s bs)"
proof -
  have "length (sdata s) < 2 ^ 64" using assms(1) unsigned_less [of "ssize s"] by (simp add: stream_wf_def)
  then show ?thesis using put_bytes_block [of s bs] stream_wf_room [OF assms(1)] assms(2)
    by (simp add: append_bytes_def)
qed

lemma copy_in_append:
  assumes "stream_wf s"
  shows "copy_in s bs = (if length bs \<le> room s then Some (append_bytes s bs) else None)"
  using stream_wf_room [OF assms] by (auto simp: copy_in_def mem_put_def append_bytes_def)

lemma append_bytes_sel [simp]:
  "getp (append_bytes s bs) = getp s" "ssize (append_bytes s bs) = ssize s"
  "putp (append_bytes s bs) = putp s + of_nat (length bs)"
  "sdata (append_bytes s bs) = take (unat (putp s)) (sdata s) @ bs @ drop (unat (putp s) + length bs) (sdata s)"
  by (simp_all add: append_bytes_def bump_endp_def)

lemma append_bytes_putp:
  assumes "stream_wf s" "length bs \<le> room s"
  shows "unat (putp (append_bytes s bs)) = unat (putp s) + length bs"
proof -
  have "length (sdata s) < 2 ^ 64" using assms(1) unsigned_less [of "ssize s"] by (simp add: stream_wf_def)
  then show ?thesis using unat_add_small [of "putp s" "length bs"] stream_wf_room [OF assms(1)] assms(2) by simp
qed

lemma stream_wf_append [wf_intros]:
  assumes "stream_wf s" "length bs \<le> room s"
  shows "stream_wf (append_bytes s bs)"
proof -
  note p = append_bytes_putp [OF assms] and r = stream_wf_room [OF assms(1)]
  have "endp (append_bytes s bs) = max (endp s) (putp (append_bytes s bs))"
    by (auto simp: append_bytes_def bump_endp_def max_def)
  moreover have "putp (append_bytes s bs) \<le> ssize s"
    using p r assms by (simp add: word_le_nat_alt stream_wf_def)
  ultimately show ?thesis using assms r by (auto simp: stream_wf_def)
qed

lemma room_append:
  assumes "stream_wf s" "length bs \<le> room s"
  shows "room (append_bytes s bs) = room s - length bs"
  using append_bytes_putp [OF assms] by (simp add: room_def)

lemma append_bytes_mem_put:
  assumes "stream_wf s" "length bs \<le> room s"
  shows "mem_put (sdata s) (unat (putp s)) bs = Some (sdata (append_bytes s bs))"
  using stream_wf_room [OF assms(1)] assms(2) by (simp add: mem_put_def)

lemmas append_get = mem_get_put [OF append_bytes_mem_put]
lemmas append_get_other = mem_get_put_other [OF append_bytes_mem_put]

section \<open>The codec interface\<close>

text \<open>
  What a user of the put and get functions of one kind of field relies on: the field has a fixed
  width, putting it appends its encoding or returns 0 when there is no room, and getting reads
  it where the block holds its encoding.
\<close>

locale stream_codec =
  fixes width :: nat
    and enc :: "'v \<Rightarrow> u8 list"
    and valid :: "'v \<Rightarrow> bool"
    and put :: "stream \<Rightarrow> 'v \<Rightarrow> (int \<times> stream) option"
    and get :: "stream \<Rightarrow> ('v \<times> stream) option"
  assumes enc_length: "valid v \<Longrightarrow> length (enc v) = width"
    and put_eq: "stream_wf s \<Longrightarrow> valid v \<Longrightarrow>
      put s v = Some (if room s < width then (0, s) else (int width, append_bytes s (enc v)))"
    and get_eq: "length (sdata s) = unat (ssize s) \<Longrightarrow> valid v \<Longrightarrow>
      mem_get (sdata s) (unat (getp s)) width = Some (enc v) \<Longrightarrow>
      get s = Some (v, s\<lparr>getp := getp s + of_nat width\<rparr>)"
begin

lemma put_wf: "stream_wf s \<Longrightarrow> valid v \<Longrightarrow> \<exists>n s'. put s v = Some (n, s') \<and> stream_wf s'"
  by (auto simp: put_eq enc_length intro!: stream_wf_append)

lemma put_get:
  assumes "stream_wf s" "valid v" "width \<le> room s"
  shows "\<exists>s'. put s v = Some (int width, s') \<and> stream_wf s' \<and> unat (putp s') = unat (putp s) + width \<and>
    get (stream_set_getp s' (putp s)) = Some (v, stream_set_getp s' (putp s'))"
proof -
  let ?s = "append_bytes s (enc v)"
  have r: "length (enc v) \<le> room s" using assms enc_length by simp
  have "stream_wf ?s" by (rule stream_wf_append [OF assms(1) r])
  moreover have "mem_get (sdata ?s) (unat (putp s)) width = Some (enc v)"
    using append_get [OF assms(1) r] enc_length [OF assms(2)] by simp
  ultimately have "get (stream_set_getp ?s (putp s)) = Some (v, stream_set_getp ?s (putp ?s))"
    using get_eq [of "stream_set_getp ?s (putp s)" v] assms enc_length [OF assms(2)]
    by (simp add: stream_set_getp_def stream_wf_def)
  then show ?thesis
    using put_eq [OF assms(1,2)] assms(3) \<open>stream_wf ?s\<close> append_bytes_putp [OF assms(1) r]
      enc_length [OF assms(2)] by auto
qed

end

section \<open>The four kinds of fields\<close>

definition enc_w :: "u16 \<Rightarrow> u8 list" where
  "enc_w w = [ucast (drop_bit 8 w), ucast w]"

definition enc_l :: "u32 \<Rightarrow> u8 list" where
  "enc_l l = [ucast (drop_bit 24 l), ucast (drop_bit 16 l), ucast (drop_bit 8 l), ucast l]"

lemma dec_enc_w: "push_bit 8 (ucast (ucast (drop_bit 8 w) :: u8)) OR ucast (ucast w :: u8) = (w :: u16)" (is "?x = w")
proof (rule bit_word_eqI)
  fix n assume "n < LENGTH(16)"
  then consider "n < 8" | "8 \<le> n" "n - 8 < 8" by fastforce
  then show "bit ?x n = bit w n"
    by cases (use \<open>n < LENGTH(16)\<close> in \<open>auto simp: bit_simps\<close>)
qed

lemma dec_enc_l:
  "push_bit 24 (ucast (ucast (drop_bit 24 l) :: u8)) OR push_bit 16 (ucast (ucast (drop_bit 16 l) :: u8))
   OR push_bit 8 (ucast (ucast (drop_bit 8 l) :: u8)) OR ucast (ucast l :: u8) = (l :: u32)" (is "?x = l")
proof (rule bit_word_eqI)
  fix n assume "n < LENGTH(32)"
  then consider "n < 8" | "8 \<le> n" "n < 16" | "16 \<le> n" "n < 24" | "24 \<le> n" "n - 24 < 8" by fastforce
  then show "bit ?x n = bit l n"
    by cases (use \<open>n < LENGTH(32)\<close> in \<open>auto simp: bit_simps\<close>)
qed

lemma mem_get_read:
  "mem_get m p n = Some bs \<Longrightarrow> i < n \<Longrightarrow> mem_read m (p + i) = Some (bs ! i)"
  by (auto simp: mem_get_def mem_read_def split: if_splits)

lemma unat_lt64: "unat (x :: ulong) < 2 ^ 64"
  using unsigned_less [of x, where ?'a = nat] by simp

lemma getc_at:
  assumes "length (sdata s) = unat (ssize s)" "mem_get (sdata s) (unat (getp s)) n = Some bs" "i < n"
  shows "stream_getc (s\<lparr>getp := getp s + of_nat i\<rparr>) = Some (bs ! i, s\<lparr>getp := getp s + of_nat (Suc i)\<rparr>)"
proof -
  have "unat (getp s) + i < 2 ^ 64"
    using assms unat_lt64 [of "ssize s"] by (auto simp: mem_get_def split: if_splits)
  then have "unat (getp s + of_nat i) = unat (getp s) + i" by (rule unat_add_small)
  then show ?thesis using mem_get_read [OF assms(2,3)] by (simp add: stream_getc_def algebra_simps)
qed

lemma wf_no_fault: "stream_wf s \<Longrightarrow> ssize s - putp s < 2 \<longleftrightarrow> room s < 2"
  "stream_wf s \<Longrightarrow> ssize s - putp s < 4 \<longleftrightarrow> room s < 4"
  using room_less_iff [of s 2] room_less_iff [of s 4] by simp_all

lemma put_bytes_cases:
  assumes "stream_wf s" "length bs = n"
  shows "(if room s < n then Some (0, s) else put_bytes s bs \<bind> (\<lambda>s'. Some (r, bump_endp s')))
    = Some (if room s < n then (0 :: int, s) else (r, append_bytes s bs))"
proof (cases "room s < n")
  case False
  then show ?thesis using put_bytes_append [OF assms(1), of bs] assms(2) by (cases "put_bytes s bs") auto
qed simp

interpretation codec_c: stream_codec 1 "\<lambda>c. [c]" "\<lambda>_. True" stream_putc stream_getc
proof
  fix s :: stream and v :: u8
  assume wf: "stream_wf s"
  have "putp s \<ge> ssize s \<longleftrightarrow> room s < 1"
    using wf by (auto simp: room_def stream_wf_def word_le_nat_alt)
  then show "stream_putc s v = Some (if room s < 1 then (0, s) else (int 1, append_bytes s [v]))"
    using put_bytes_cases [OF wf, of "[v]" 1 1] by (simp add: stream_putc_def del: put_bytes.simps)
next
  fix s :: stream and v :: u8
  assume "length (sdata s) = unat (ssize s)" "mem_get (sdata s) (unat (getp s)) 1 = Some [v]"
  from getc_at [OF this, of 0] show "stream_getc s = Some (v, s\<lparr>getp := getp s + of_nat 1\<rparr>)" by simp
qed simp

interpretation codec_w: stream_codec 2 enc_w "\<lambda>_. True" stream_putw stream_getw
proof
  fix s :: stream and v :: u16
  assume wf: "stream_wf s"
  show "stream_putw s v = Some (if room s < 2 then (0, s) else (int 2, append_bytes s (enc_w v)))"
    unfolding stream_putw_def wf_no_fault [OF wf] enc_w_def [symmetric]
    using put_bytes_cases [OF wf, of "enc_w v" 2 2] by (simp add: enc_w_def del: put_bytes.simps)
next
  fix s :: stream and v :: u16
  assume h: "length (sdata s) = unat (ssize s)" "mem_get (sdata s) (unat (getp s)) 2 = Some (enc_w v)"
  from getc_at [OF h, of 0] getc_at [OF h, of 1]
  show "stream_getw s = Some (v, s\<lparr>getp := getp s + of_nat 2\<rparr>)"
    by (simp add: stream_getw_def enc_w_def dec_enc_w)
qed (simp add: enc_w_def)

interpretation codec_l: stream_codec 4 enc_l "\<lambda>_. True" stream_putl stream_getl
proof
  fix s :: stream and v :: u32
  assume wf: "stream_wf s"
  show "stream_putl s v = Some (if room s < 4 then (0, s) else (int 4, append_bytes s (enc_l v)))"
    unfolding stream_putl_def wf_no_fault [OF wf] enc_l_def [symmetric]
    using put_bytes_cases [OF wf, of "enc_l v" 4 4] by (simp add: enc_l_def del: put_bytes.simps)
next
  fix s :: stream and v :: u32
  assume h: "length (sdata s) = unat (ssize s)" "mem_get (sdata s) (unat (getp s)) 4 = Some (enc_l v)"
  from getc_at [OF h, of 0] getc_at [OF h, of 1] getc_at [OF h, of 2] getc_at [OF h, of 3]
  show "stream_getl s = Some (v, s\<lparr>getp := getp s + of_nat 4\<rparr>)"
    by (simp add: stream_getl_def enc_l_def dec_enc_l)
qed (simp add: enc_l_def)

interpretation codec_ipv4: stream_codec 4 "\<lambda>l. l" "\<lambda>l. length l = 4" stream_put_ipv4 stream_get_ipv4
proof
  fix s :: stream and v :: "u8 list"
  assume wf: "stream_wf s" and v: "length v = 4"
  then show "stream_put_ipv4 s v = Some (if room s < 4 then (0, s) else (int 4, append_bytes s v))"
    by (simp add: stream_put_ipv4_def wf_no_fault [OF wf] copy_in_append)
qed (simp_all add: stream_get_ipv4_def)

section \<open>Messages\<close>

text \<open>A message is a sequence of fields; \<open>put_field\<close> and \<open>get_field\<close> choose the function of a field.\<close>

datatype field = FChar u8 | FWord u16 | FLong u32 | FAddr "u8 list"

fun field_ok :: "field \<Rightarrow> bool" where
  "field_ok (FAddr a) = (length a = 4)"
| "field_ok _ = True"

fun field_width :: "field \<Rightarrow> nat" where
  "field_width (FChar _) = 1"
| "field_width (FWord _) = 2"
| "field_width (FLong _) = 4"
| "field_width (FAddr _) = 4"

fun field_enc :: "field \<Rightarrow> u8 list" where
  "field_enc (FChar c) = [c]"
| "field_enc (FWord w) = enc_w w"
| "field_enc (FLong l) = enc_l l"
| "field_enc (FAddr a) = a"

fun put_field :: "stream \<Rightarrow> field \<Rightarrow> (int \<times> stream) option" where
  "put_field s (FChar c) = stream_putc s c"
| "put_field s (FWord w) = stream_putw s w"
| "put_field s (FLong l) = stream_putl s l"
| "put_field s (FAddr a) = stream_put_ipv4 s a"

text \<open>Reading a field of the same kind as the given one.\<close>

fun get_field :: "field \<Rightarrow> stream \<Rightarrow> (field \<times> stream) option" where
  "get_field (FChar _) s = map_option (apfst FChar) (stream_getc s)"
| "get_field (FWord _) s = map_option (apfst FWord) (stream_getw s)"
| "get_field (FLong _) s = map_option (apfst FLong) (stream_getl s)"
| "get_field (FAddr _) s = map_option (apfst FAddr) (stream_get_ipv4 s)"

fun put_fields :: "stream \<Rightarrow> field list \<Rightarrow> stream option" where
  "put_fields s [] = Some s"
| "put_fields s (f # fs) = do { (n, s') \<leftarrow> put_field s f; put_fields s' fs }"

fun get_fields :: "field list \<Rightarrow> stream \<Rightarrow> (field list \<times> stream) option" where
  "get_fields [] s = Some ([], s)"
| "get_fields (f # fs) s = do {
     (v, s) \<leftarrow> get_field f s;
     (vs, s) \<leftarrow> get_fields fs s;
     Some (v # vs, s)
   }"

definition fields_width :: "field list \<Rightarrow> nat" where
  "fields_width fs = sum_list (map field_width fs)"


lemma field_enc_length: "field_ok f \<Longrightarrow> length (field_enc f) = field_width f"
  by (cases f) (auto simp: enc_w_def enc_l_def)

lemma put_field_eq:
  "stream_wf s \<Longrightarrow> field_ok f \<Longrightarrow>
   put_field s f = Some (if room s < field_width f then (0, s) else (int (field_width f), append_bytes s (field_enc f)))"
  by (cases f) (simp_all add: codec_c.put_eq codec_w.put_eq codec_l.put_eq codec_ipv4.put_eq)

lemma get_field_eq:
  "length (sdata s) = unat (ssize s) \<Longrightarrow> field_ok f \<Longrightarrow>
   mem_get (sdata s) (unat (getp s)) (field_width f) = Some (field_enc f) \<Longrightarrow>
   get_field f s = Some (f, s\<lparr>getp := getp s + of_nat (field_width f)\<rparr>)"
  using codec_c.get_eq [of s] codec_w.get_eq [of s] codec_l.get_eq [of s] codec_ipv4.get_eq [of s]
  by (cases f) simp_all


lemma put_field_room:
  assumes "stream_wf s" "field_ok f" "field_width f \<le> room s"
  shows "put_field s f = Some (int (field_width f), append_bytes s (field_enc f))"
    and "stream_wf (append_bytes s (field_enc f))"
    and "room (append_bytes s (field_enc f)) = room s - field_width f"
    and "unat (putp (append_bytes s (field_enc f))) = unat (putp s) + field_width f"
  using put_field_eq [OF assms(1,2)] assms(3) stream_wf_append [OF assms(1)] room_append [OF assms(1)]
    append_bytes_putp [OF assms(1), of "field_enc f"] field_enc_length [OF assms(2)] by simp_all

lemma mem_get_append_iff:
  "length xs = a \<Longrightarrow>
   mem_get m p (a + b) = Some (xs @ ys) \<longleftrightarrow> mem_get m p a = Some xs \<and> mem_get m (p + a) b = Some ys"
  by (auto simp: mem_get_def take_add add.commute split: if_splits)

lemma put_fields_spec:
  "\<lbrakk>stream_wf s; list_all field_ok fs; fields_width fs \<le> room s\<rbrakk> \<Longrightarrow>
   \<exists>s'. put_fields s fs = Some s' \<and> stream_wf s' \<and> getp s' = getp s \<and> ssize s' = ssize s
     \<and> unat (putp s') = unat (putp s) + fields_width fs
     \<and> mem_get (sdata s') (unat (putp s)) (fields_width fs) = Some (concat (map field_enc fs))
     \<and> (\<forall>p n. p + n \<le> unat (putp s) \<longrightarrow> mem_get (sdata s') p n = mem_get (sdata s) p n)"
proof (induction fs arbitrary: s)
  case Nil
  then show ?case by (auto simp: fields_width_def mem_get_def stream_wf_def word_le_nat_alt)
next
  case (Cons f fs)
  let ?s = "append_bytes s (field_enc f)"
  have ok: "field_ok f" "field_width f \<le> room s" "fields_width fs \<le> room s - field_width f"
    "list_all field_ok fs"
    using Cons.prems by (auto simp: fields_width_def)
  note pf = put_field_room [OF Cons.prems(1) ok(1,2)]
  from Cons.IH [of ?s] pf ok obtain s' where
    s': "put_fields ?s fs = Some s'" "stream_wf s'" "getp s' = getp ?s" "ssize s' = ssize ?s"
      "unat (putp s') = unat (putp ?s) + fields_width fs"
      "mem_get (sdata s') (unat (putp ?s)) (fields_width fs) = Some (concat (map field_enc fs))"
      "\<And>p n. p + n \<le> unat (putp ?s) \<Longrightarrow> mem_get (sdata s') p n = mem_get (sdata ?s) p n"
    by auto
  have len: "length (field_enc f) = field_width f" by (rule field_enc_length [OF ok(1)])
  then have r: "length (field_enc f) \<le> room s" using ok(2) by simp
  have "mem_get (sdata s') (unat (putp s)) (field_width f) = Some (field_enc f)"
    using s'(7) [of "unat (putp s)" "field_width f"] pf(4) append_get [OF Cons.prems(1) r] len by simp
  then have "mem_get (sdata s') (unat (putp s)) (fields_width (f # fs)) = Some (concat (map field_enc (f # fs)))"
    using mem_get_append_iff [OF len] s'(6) pf(4) by (simp add: fields_width_def)
  moreover have "mem_get (sdata s') p n = mem_get (sdata s) p n" if "p + n \<le> unat (putp s)" for p n
    using s'(7) [of p n] append_get_other [OF Cons.prems(1) r, of p n] pf(4) that by simp
  ultimately show ?case using s' pf(1,4) by (simp add: fields_width_def)
qed

lemma get_fields_spec:
  "\<lbrakk>length (sdata s) = unat (ssize s); list_all field_ok fs;
    mem_get (sdata s) (unat (getp s)) (fields_width fs) = Some (concat (map field_enc fs))\<rbrakk> \<Longrightarrow>
   get_fields fs s = Some (fs, s\<lparr>getp := getp s + of_nat (fields_width fs)\<rparr>)"
proof (induction fs arbitrary: s)
  case (Cons f fs)
  let ?s = "s\<lparr>getp := getp s + of_nat (field_width f)\<rparr>"
  have ok: "field_ok f" "list_all field_ok fs" using Cons.prems(2) by auto
  have len: "length (field_enc f) = field_width f" by (rule field_enc_length [OF ok(1)])
  from Cons.prems(3)
  have g: "mem_get (sdata s) (unat (getp s)) (field_width f) = Some (field_enc f)"
    "mem_get (sdata s) (unat (getp s) + field_width f) (fields_width fs) = Some (concat (map field_enc fs))"
    by (simp_all add: fields_width_def mem_get_append_iff [OF len])
  have "unat (getp s) + field_width f < 2 ^ 64"
    using g(1) Cons.prems(1) unat_lt64 [of "ssize s"] by (auto simp: mem_get_def split: if_splits)
  then have "unat (getp ?s) = unat (getp s) + field_width f" by (simp add: unat_add_small)
  then have "get_fields fs ?s = Some (fs, ?s\<lparr>getp := getp ?s + of_nat (fields_width fs)\<rparr>)"
    using Cons.IH [of ?s] Cons.prems(1) ok(2) g(2) by simp
  then show ?case
    using get_field_eq [OF Cons.prems(1) ok(1) g(1)] by (simp add: fields_width_def algebra_simps)
qed (simp add: fields_width_def)

text \<open>C28: Message round trip.  On a well-formed stream with room for a sequence of one, two and four byte
  fields and addresses, the put functions write it without a fault, keep the stream well formed and
  advance the put pointer by its width; reading the same kinds of fields back from the old put
  pointer gives the same values and stops at the new put pointer.\<close>

theorem stream_message_roundtrip:
  assumes "stream_wf s" "list_all field_ok fs" "fields_width fs \<le> room s"
  shows "\<exists>s'. put_fields s fs = Some s' \<and> stream_wf s' \<and> unat (putp s') = unat (putp s) + fields_width fs
    \<and> get_fields fs (stream_set_getp s' (putp s)) = Some (fs, stream_set_getp s' (putp s'))"
proof -
  from put_fields_spec [OF assms] obtain s' where
    s': "put_fields s fs = Some s'" "stream_wf s'" "unat (putp s') = unat (putp s) + fields_width fs"
      "mem_get (sdata s') (unat (putp s)) (fields_width fs) = Some (concat (map field_enc fs))" by blast
  have "putp s' = putp s + of_nat (fields_width fs)"
    using unat_add_small [of "putp s" "fields_width fs"] unat_lt64 [of "putp s'"] s'(3)
    by (intro word_unat_eq_iff [THEN iffD2]) simp
  then have "get_fields fs (stream_set_getp s' (putp s)) = Some (fs, stream_set_getp s' (putp s'))"
    using get_fields_spec [of "stream_set_getp s' (putp s)" fs] s' assms(2)
    by (simp add: stream_set_getp_def stream_wf_def)
  then show ?thesis using s' by blast
qed


theorem stream_message_roundtrip_witness:
  "\<exists>s'. put_fields (stream_new 20) [FWord 0x0102, FChar 7, FLong 0xdeadbeef, FAddr [10, 0, 0, 1]] = Some s'
     \<and> stream_wf s' \<and> unat (putp s') = unat (putp (stream_new 20)) + fields_width [FWord 0x0102, FChar 7, FLong 0xdeadbeef, FAddr [10, 0, 0, 1]]
     \<and> get_fields [FWord 0x0102, FChar 7, FLong 0xdeadbeef, FAddr [10, 0, 0, 1]] (stream_set_getp s' (putp (stream_new 20)))
       = Some ([FWord 0x0102, FChar 7, FLong 0xdeadbeef, FAddr [10, 0, 0, 1]], stream_set_getp s' (putp s'))"
  by (rule stream_message_roundtrip) (simp_all add: stream_new_def stream_wf_def fields_width_def room_def)

section \<open>Safety of the put functions\<close>

lemma check_size_eq:
  assumes "stream_wf s" "unat (putp s) + unat z < 2 ^ 64"
  shows "unat (check_size s z) = min (unat z) (room s)"
proof -
  have "putp s \<le> ssize s" using assms(1) by (auto simp: stream_wf_def)
  moreover have "unat (putp s + z) = unat (putp s) + unat z"
    using assms(2) by (simp add: unat_word_ariths)
  ultimately show ?thesis
    by (auto simp: check_size_def room_def word_less_nat_alt word_le_nat_alt unat_sub)
qed

text \<open>\<open>stream_put\<close> and \<open>stream_write\<close> truncate.  As long as the put pointer plus the requested size
  stays below \<open>2 ^ 64\<close>, they never write outside the block, keep the stream well formed, and store
  exactly the part of the source that fits; \<open>stream_write\<close> returns its length and \<open>stream_put\<close> of
  \<open>NULL\<close> stores zeros.\<close>

theorem stream_put_truncates:
  assumes "stream_wf s" "unat (putp s) + unat sz < 2 ^ 64" "unat sz \<le> length bs"
  shows "stream_put s (Some bs) sz = Some (append_bytes s (take (min (unat sz) (room s)) bs))
    \<and> stream_put s None sz = Some (append_bytes s (replicate (min (unat sz) (room s)) 0))
    \<and> stream_write s bs sz = Some (int (min (unat sz) (room s)), append_bytes s (take (min (unat sz) (room s)) bs))
    \<and> stream_wf (append_bytes s (take (min (unat sz) (room s)) bs))
    \<and> stream_wf (append_bytes s (replicate (min (unat sz) (room s)) 0))"
  using assms by (simp add: stream_put_def stream_write_def check_size_eq copy_in_append stream_wf_append Let_def)

theorem stream_put_truncates_witness:
  "stream_wf (stream_new 2) \<and>
   stream_put (stream_new 2) (Some [1, 2, 3]) 3 = Some (append_bytes (stream_new 2) [1, 2])"
  using stream_put_truncates [of "stream_new 2" 3 "[1, 2, 3]"]
  by (simp add: stream_new_def stream_wf_def room_def)

lemma stream_put_in_addr_eq: "stream_put_in_addr = stream_put_ipv4"
  by (simp add: fun_eq_iff stream_put_in_addr_def stream_put_ipv4_def)

text \<open>The test of \<open>stream_put_prefix\<close> forgets the byte of the prefix length.  With room for the
  length byte it writes the length and the \<open>PSIZE\<close> bytes of the address and returns \<open>PSIZE\<close>; with
  room for exactly the \<open>PSIZE\<close> bytes the test passes and \<open>memcpy\<close> runs one byte past the block.\<close>

theorem stream_put_prefix_off_by_one:
  assumes "stream_wf s" "PSIZE (plen p) \<le> length (u_prefix p)" "0 < plen p"
  shows "(room s < PSIZE (plen p) \<longrightarrow> stream_put_prefix s p = Some (0, s))
    \<and> (room s = PSIZE (plen p) \<longrightarrow> stream_put_prefix s p = None)
    \<and> (room s > PSIZE (plen p) \<longrightarrow> stream_put_prefix s p =
         Some (int (PSIZE (plen p)),
           append_bytes (append_bytes s [prefixlen p]) (take (PSIZE (plen p)) (u_prefix p))))"
proof -
  have lt: "PSIZE (plen p) < 2 ^ 64"
    using unsigned_less [of "prefixlen p", where ?'a = nat] by (simp add: PSIZE_def)
  have pos: "0 < PSIZE (plen p)" using assms(3) by (simp add: PSIZE_def)
  have get: "mem_get (u_prefix p) 0 (PSIZE (plen p)) = Some (take (PSIZE (plen p)) (u_prefix p))"
    using assms(2) by (simp add: mem_get_def)
  have c: "stream_putc s (prefixlen p) = Some (1, append_bytes s [prefixlen p])" "length [prefixlen p] \<le> room s"
    if "room s \<ge> PSIZE (plen p)"
    using codec_c.put_eq [OF assms(1), of "prefixlen p"] that pos by auto
  have "stream_put_prefix s p = (if room s = PSIZE (plen p) then None else
      Some (int (PSIZE (plen p)),
           append_bytes (append_bytes s [prefixlen p]) (take (PSIZE (plen p)) (u_prefix p))))"
    if "room s \<ge> PSIZE (plen p)"
    using that c [OF that] get room_append [OF assms(1), of "[prefixlen p]"] assms(2)
      copy_in_append [OF stream_wf_append [OF assms(1) c(2) [OF that]]] pos
    by (auto simp: stream_put_prefix_def Let_def room_less_iff [OF assms(1) lt])
  moreover have "stream_put_prefix s p = Some (0, s)" if "room s < PSIZE (plen p)"
    using that by (simp add: stream_put_prefix_def Let_def room_less_iff [OF assms(1) lt])
  ultimately show ?thesis by auto
qed

theorem stream_put_prefix_off_by_one_witness:
  "stream_put_prefix (stream_new 1) \<lparr>family = 2, prefixlen = 8, u_prefix = [10, 0, 0, 0]\<rparr> = None"
  using stream_put_prefix_off_by_one [of "stream_new 1" "\<lparr>family = 2, prefixlen = 8, u_prefix = [10, 0, 0, 0]\<rparr>"]
  by (simp add: stream_new_def stream_wf_def room_def PSIZE_def)

section \<open>The queue implements a list\<close>

fun fifo_chain :: "nexts \<Rightarrow> nat option \<Rightarrow> nat list \<Rightarrow> bool" where
  "fifo_chain nx p [] = (p = None)"
| "fifo_chain nx p (x # xs) = (p = Some x \<and> fifo_chain nx (nx x) xs)"

definition fifo_rep :: "nexts \<Rightarrow> stream_fifo \<Rightarrow> nat list \<Rightarrow> bool" where
  "fifo_rep nx q xs \<longleftrightarrow> fifo_chain nx (fhead q) xs \<and> distinct xs \<and> fcount q = of_nat (length xs)
     \<and> ftail q = (if xs = [] then None else Some (last xs))"

lemma fifo_chain_snoc:
  "fifo_chain nx p xs \<Longrightarrow> distinct xs \<Longrightarrow> xs \<noteq> [] \<Longrightarrow> s \<notin> set xs \<Longrightarrow> nx s = None \<Longrightarrow>
   fifo_chain (nx(last xs := Some s)) p (xs @ [s])"
proof (induction xs arbitrary: p)
  case (Cons x xs)
  then show ?case by (cases xs) auto
qed simp

lemma fifo_free_loop_chain:
  "fifo_chain nx p xs \<Longrightarrow> length xs \<le> fuel \<Longrightarrow> fifo_free_loop fuel nx p = Some xs"
proof (induction xs arbitrary: p fuel)
  case (Cons x xs)
  then show ?case by (cases fuel) auto
qed simp

text \<open>The queue refines a list.  A queue that represents \<open>xs\<close> represents \<open>xs @ [s]\<close> after pushing
  a stream with a null \<open>next\<close>, hands out and drops the first element on pop, and frees exactly \<open>xs\<close>
  on clean, with as much fuel as it has elements.\<close>

theorem stream_fifo_refines_list:
  assumes "fifo_rep nx q xs" "s \<notin> set xs" "nx s = None"
  shows "(case stream_fifo_push nx q s of (nx', q') \<Rightarrow> fifo_rep nx' q' (xs @ [s]))
    \<and> (xs \<noteq> [] \<longrightarrow> (case stream_fifo_pop nx q of (r, q') \<Rightarrow> r = Some (hd xs) \<and> fifo_rep nx q' (tl xs)))
    \<and> stream_fifo_head q = (if xs = [] then None else Some (hd xs))
    \<and> stream_fifo_clean (length xs) nx q = Some (xs, q\<lparr>fhead := None, ftail := None, fcount := 0\<rparr>)
    \<and> fifo_rep nx (q\<lparr>fhead := None, ftail := None, fcount := 0\<rparr>) []"
proof (intro conjI impI)
  show "case stream_fifo_push nx q s of (nx', q') \<Rightarrow> fifo_rep nx' q' (xs @ [s])"
    using assms fifo_chain_snoc [of nx "fhead q" xs s]
    by (auto simp: fifo_rep_def stream_fifo_push_def split: if_splits)
  show "case stream_fifo_pop nx q of (r, q') \<Rightarrow> r = Some (hd xs) \<and> fifo_rep nx q' (tl xs)" if "xs \<noteq> []"
    using assms(1) that by (cases xs; cases "tl xs") (auto simp: fifo_rep_def stream_fifo_pop_def)
  show "stream_fifo_head q = (if xs = [] then None else Some (hd xs))"
    using assms(1) by (cases xs) (auto simp: fifo_rep_def stream_fifo_head_def)
  show "stream_fifo_clean (length xs) nx q = Some (xs, q\<lparr>fhead := None, ftail := None, fcount := 0\<rparr>)"
    using assms(1) fifo_free_loop_chain [of nx "fhead q" xs "length xs"]
    by (simp add: fifo_rep_def stream_fifo_clean_def)
  show "fifo_rep nx (q\<lparr>fhead := None, ftail := None, fcount := 0\<rparr>) []"
    by (simp add: fifo_rep_def)
qed

theorem stream_fifo_refines_list_witness:
  "fifo_rep (\<lambda>_. None) stream_fifo_new [] \<and>
   (case stream_fifo_push (\<lambda>_. None) stream_fifo_new 3 of (nx', q') \<Rightarrow> fifo_rep nx' q' ([] @ [3]))"
proof -
  have r: "fifo_rep (\<lambda>_. None) stream_fifo_new []" by (simp add: fifo_rep_def stream_fifo_new_def)
  then show ?thesis using stream_fifo_refines_list [OF r, of 3] by simp
qed

text \<open>\<open>stream_fifo_pop\<close> on an empty queue returns \<open>NULL\<close> but still decrements the count, which
  wraps to \<open>2 ^ 64 - 1\<close>.\<close>

theorem stream_fifo_pop_empty_wraps:
  assumes "fifo_rep nx q []"
  shows "stream_fifo_pop nx q = (None, q\<lparr>fcount := 2 ^ 64 - 1\<rparr>)"
  using assms by (simp add: fifo_rep_def stream_fifo_pop_def)

theorem stream_fifo_pop_empty_wraps_witness:
  "unat (fcount (snd (stream_fifo_pop (\<lambda>_. None) stream_fifo_new))) = 18446744073709551615"
proof -
  have r: "fifo_rep (\<lambda>_. None) stream_fifo_new []" by (simp add: fifo_rep_def stream_fifo_new_def)
  show ?thesis using stream_fifo_pop_empty_wraps [OF r] by simp
qed

end
