(* ===== verification/Lib_Plist.thy ===== *)
theory Lib_Plist
  imports Lib_Stream "HOL-Library.List_Lexorder" "HOL-Library.Char_ord"
begin

text \<open>
  The prefix lists of \<open>lib/plist.c\<close>: the directory of lists by name, the entries of a list in the order of their
  sequence numbers, matching, the commands that add and remove entries, and the lists a BGP peer installs
  (outbound route filters).  A linked list is the list of its elements; a pointer to a prefix list is its name, which no
  two lists of a directory share; a pointer to an entry is its position.  Calls of the hooks of the daemons are recorded in order;
  \<open>inet_aton\<close> and \<open>inet_pton\<close> are parameters.
\<close>

section \<open>Directories of named lists\<close>

subsection \<open>Definitions\<close>

text \<open>\<open>number\<close> of \<open>prefix_list_insert\<close>: the value of a name that has only digits.\<close>

definition name_number :: "string \<Rightarrow> nat option" where
  "name_number name = (if dropWhile is_digit name = [] then Some (digits_val name) else None)"

text \<open>\<open>atol\<close> and \<open>number\<close> are of type \<open>long\<close>; names of digits are taken to have values in its range.\<close>

definition atol :: "string \<Rightarrow> int" where
  "atol s = dec_value s"

record 'l name_master =
  nm_num :: "'l list"
  nm_str :: "'l list"

text \<open>The two searches for the insertion point, and the insertion before it.\<close>

definition insert_before :: "('l \<Rightarrow> bool) \<Rightarrow> 'l \<Rightarrow> 'l list \<Rightarrow> 'l list" where
  "insert_before stop x xs = takeWhile (\<lambda>y. \<not> stop y) xs @ x # dropWhile (\<lambda>y. \<not> stop y) xs"

definition name_insert :: "('l \<Rightarrow> string) \<Rightarrow> 'l \<Rightarrow> ('l, 'b) name_master_scheme \<Rightarrow> ('l, 'b) name_master_scheme" where
  "name_insert nm x m =
     (case name_number (nm x) of
        Some number \<Rightarrow> m\<lparr>nm_num := insert_before (\<lambda>point. atol (nm point) \<ge> int number) x (nm_num m)\<rparr>
      | None \<Rightarrow> m\<lparr>nm_str := insert_before (\<lambda>point. nm point \<ge> nm x) x (nm_str m)\<rparr>)"

definition name_lookup :: "('l \<Rightarrow> string) \<Rightarrow> string \<Rightarrow> ('l, 'b) name_master_scheme \<Rightarrow> 'l option" where
  "name_lookup nm name m =
     (case find (\<lambda>l. nm l = name) (nm_num m) of
        Some l \<Rightarrow> Some l
      | None \<Rightarrow> find (\<lambda>l. nm l = name) (nm_str m))"

text \<open>Unlinking the list of a name, and writing through a pointer to it.\<close>

definition name_unlink :: "('l \<Rightarrow> string) \<Rightarrow> string \<Rightarrow> ('l, 'b) name_master_scheme \<Rightarrow> ('l, 'b) name_master_scheme" where
  "name_unlink nm name m =
     m\<lparr>nm_num := filter (\<lambda>l. nm l \<noteq> name) (nm_num m), nm_str := filter (\<lambda>l. nm l \<noteq> name) (nm_str m)\<rparr>"

definition name_put :: "('l \<Rightarrow> string) \<Rightarrow> 'l \<Rightarrow> ('l, 'b) name_master_scheme \<Rightarrow> ('l, 'b) name_master_scheme" where
  "name_put nm x m =
     m\<lparr>nm_num := map (\<lambda>l. if nm l = nm x then x else l) (nm_num m),
       nm_str := map (\<lambda>l. if nm l = nm x then x else l) (nm_str m)\<rparr>"

subsection \<open>The directory as a map\<close>

text \<open>Numbers are sorted by value, other names by \<open>strcmp\<close>; each list is in the half its name says; names are unique.\<close>

definition name_inv :: "('l \<Rightarrow> string) \<Rightarrow> ('l, 'b) name_master_scheme \<Rightarrow> bool" where
  "name_inv nm m \<longleftrightarrow>
     (\<forall>l\<in>set (nm_num m). name_number (nm l) \<noteq> None) \<and> (\<forall>l\<in>set (nm_str m). name_number (nm l) = None) \<and>
     sorted (map (atol \<circ> nm) (nm_num m)) \<and> sorted (map nm (nm_str m)) \<and>
     distinct (map nm (nm_num m)) \<and> distinct (map nm (nm_str m))"

lemma find_distinct_Some:
  "distinct (map nm xs) \<Longrightarrow> find (\<lambda>l. nm l = n) xs = Some x \<longleftrightarrow> x \<in> set xs \<and> nm x = n"
  by (induction xs) auto

lemma find_None_names: "find (\<lambda>l. nm l = n) xs = None \<longleftrightarrow> n \<notin> nm ` set xs"
  by (auto simp: find_None_iff)

lemma set_insert_before [simp]: "set (insert_before stop x xs) = insert x (set xs)"
proof -
  have "set (takeWhile P xs) \<union> set (dropWhile P xs) = set xs" for P
    by (metis set_append takeWhile_dropWhile_id)
  then show ?thesis by (auto simp: insert_before_def)
qed

lemma distinct_insert_before:
  assumes "distinct (map nm xs)" "nm x \<notin> nm ` set xs"
  shows "distinct (map nm (insert_before stop x xs))"
proof -
  have e: "map nm xs = map nm (takeWhile (\<lambda>y. \<not> stop y) xs) @ map nm (dropWhile (\<lambda>y. \<not> stop y) xs)"
    by (metis map_append takeWhile_dropWhile_id)
  show ?thesis
    using assms(1) [unfolded e] assms(2)
    by (auto simp: insert_before_def dest: set_takeWhileD set_dropWhileD)
qed

lemma sorted_insert_before:
  fixes key :: "'l \<Rightarrow> 'k::linorder"
  assumes "sorted (map key xs)"
  shows "sorted (map key (insert_before (\<lambda>y. key y \<ge> key x) x xs))"
proof -
  define A where "A = takeWhile (\<lambda>y. \<not> key y \<ge> key x) xs"
  define B where "B = dropWhile (\<lambda>y. \<not> key y \<ge> key x) xs"
  have e: "xs = A @ B" by (simp add: A_def B_def)
  have lo: "\<forall>y\<in>set A. key y \<le> key x" by (auto simp: A_def dest: set_takeWhileD)
  have s: "sorted (map key A)" "sorted (map key B)" using assms by (simp_all add: e sorted_append)
  have hi: "\<forall>y\<in>set B. key x \<le> key y"
  proof (cases B)
    case (Cons z zs)
    have "B \<noteq> []" using Cons by simp
    then have "\<not> \<not> key (hd B) \<ge> key x" unfolding B_def by (rule hd_dropWhile)
    then have z: "key x \<le> key z" using Cons by simp
    then show ?thesis using s(2) unfolding Cons by (auto intro: order_trans)
  qed simp
  have "insert_before (\<lambda>y. key y \<ge> key x) x xs = A @ x # B" by (simp add: insert_before_def A_def B_def)
  then show ?thesis using s lo hi by (simp add: sorted_append) (meson order_trans)
qed

lemma all_digits_atol:
  assumes "name_number n = Some v" "n \<noteq> []"
  shows "atol n = int v"
proof -
  have all: "\<forall>c\<in>set n. is_digit c" and v: "v = digits_val n"
    using assms(1) by (auto simp: name_number_def dropWhile_eq_Nil_conv split: if_splits)
  obtain c cs where n: "n = c # cs" using assms(2) by (cases n) auto
  have c: "is_digit c" "takeWhile is_digit cs = cs" using all n by (auto simp: takeWhile_eq_all_conv)
  show ?thesis
    using is_digit_not_special [OF c(1)] c(1) v unfolding atol_def dec_value_def n by (simp add: c(2))
qed

lemma atol_name_number: "name_number n = Some v \<Longrightarrow> atol n = int v"
proof (cases "n = []")
  case True
  then show "name_number n = Some v \<Longrightarrow> atol n = int v"
    by (simp add: name_number_def atol_def dec_value_def digits_val_def)
qed (rule all_digits_atol)

lemma name_lookup_iff:
  assumes "name_inv nm m"
  shows "name_lookup nm n m = Some l \<longleftrightarrow> l \<in> set (nm_num m) \<union> set (nm_str m) \<and> nm l = n"
proof (cases "find (\<lambda>l. nm l = n) (nm_num m)")
  case None
  then have e: "name_lookup nm n m = find (\<lambda>l. nm l = n) (nm_str m)" by (simp only: name_lookup_def option.case)
  have no: "n \<notin> nm ` set (nm_num m)" using None by (simp only: find_None_names simp_thms)
  show ?thesis using assms no unfolding e by (auto simp: name_inv_def find_distinct_Some)
next
  case (Some l')
  have l': "l' \<in> set (nm_num m)" "nm l' = n" using Some assms by (auto simp: name_inv_def find_distinct_Some)
  have u: "l \<notin> set (nm_str m)" if "nm l = n" using l' assms that by (force simp: name_inv_def)
  have "l = l'" if "l \<in> set (nm_num m)" "nm l = n"
    using Some that assms find_distinct_Some [of nm "nm_num m" n l] by (auto simp: name_inv_def)
  then show ?thesis using Some l' u by (auto simp: name_lookup_def)
qed

lemma name_lookup_None:
  "name_lookup nm n m = None \<longleftrightarrow> n \<notin> nm ` (set (nm_num m) \<union> set (nm_str m))"
  using find_None_names [of nm n "nm_num m"] find_None_names [of nm n "nm_str m"]
  by (cases "find (\<lambda>l. nm l = n) (nm_num m)") (auto simp: name_lookup_def)

lemma name_lookup_upd:
  assumes "name_inv nm m" "name_inv nm m'"
    and "\<And>l. nm l = n \<Longrightarrow> l \<in> set (nm_num m') \<union> set (nm_str m') \<longleftrightarrow> r = Some l"
    and "\<And>l. r = Some l \<Longrightarrow> nm l = n"
  shows "name_lookup nm n m' = r"
proof (cases r)
  case None
  then show ?thesis using assms(3) by (auto simp: name_lookup_None)
next
  case (Some l)
  then show ?thesis using assms(3) [of l] assms(4) [of l] name_lookup_iff [OF assms(2)] by auto
qed

lemma name_insert_law:
  assumes i: "name_inv nm m" and n: "name_lookup nm (nm x) m = None"
  shows "name_inv nm (name_insert nm x m)"
    and "name_lookup nm n (name_insert nm x m) = (if n = nm x then Some x else name_lookup nm n m)"
proof -
  have no: "nm x \<notin> nm ` set (nm_num m)" "nm x \<notin> nm ` set (nm_str m)"
    using n by (simp_all add: name_lookup_None image_Un)
  show inv: "name_inv nm (name_insert nm x m)"
  proof (cases "name_number (nm x)")
    case None
    then show ?thesis
      using i no sorted_insert_before [of nm "nm_str m" x] distinct_insert_before [of nm "nm_str m" x]
      by (auto simp: name_insert_def name_inv_def)
  next
    case (Some v)
    then show ?thesis
      using i no sorted_insert_before [of "atol \<circ> nm" "nm_num m" x] distinct_insert_before [of nm "nm_num m" x]
      by (auto simp: name_insert_def name_inv_def atol_name_number)
  qed
  have s: "set (nm_num (name_insert nm x m)) \<union> set (nm_str (name_insert nm x m)) = insert x (set (nm_num m) \<union> set (nm_str m))"
    by (cases "name_number (nm x)") (auto simp: name_insert_def)
  show "name_lookup nm n (name_insert nm x m) = (if n = nm x then Some x else name_lookup nm n m)"
  proof (rule name_lookup_upd [OF i inv])
    fix l assume l: "nm l = n"
    show "l \<in> set (nm_num (name_insert nm x m)) \<union> set (nm_str (name_insert nm x m)) \<longleftrightarrow>
        (if n = nm x then Some x else name_lookup nm n m) = Some l"
      using l no unfolding s by (auto simp: name_lookup_iff [OF i] image_iff)
  next
    fix l assume "(if n = nm x then Some x else name_lookup nm n m) = Some l"
    then show "nm l = n" by (auto simp: name_lookup_iff [OF i] split: if_splits)
  qed
qed

lemma name_unlink_law:
  assumes i: "name_inv nm m"
  shows "name_inv nm (name_unlink nm k m)"
    and "name_lookup nm n (name_unlink nm k m) = (if n = k then None else name_lookup nm n m)"
proof -
  show inv: "name_inv nm (name_unlink nm k m)"
    using i by (auto simp: name_inv_def name_unlink_def sorted_filter distinct_map_filter)
  have s: "set (nm_num (name_unlink nm k m)) \<union> set (nm_str (name_unlink nm k m)) = {l \<in> set (nm_num m) \<union> set (nm_str m). nm l \<noteq> k}"
    by (auto simp: name_unlink_def)
  show "name_lookup nm n (name_unlink nm k m) = (if n = k then None else name_lookup nm n m)"
  proof (rule name_lookup_upd [OF i inv])
    fix l assume "nm l = n"
    then show "l \<in> set (nm_num (name_unlink nm k m)) \<union> set (nm_str (name_unlink nm k m)) \<longleftrightarrow>
        (if n = k then None else name_lookup nm n m) = Some l"
      unfolding s by (auto simp: name_lookup_iff [OF i])
  next
    fix l assume "(if n = k then None else name_lookup nm n m) = Some l"
    then show "nm l = n" by (auto simp: name_lookup_iff [OF i] split: if_splits)
  qed
qed

lemma name_put_law:
  assumes i: "name_inv nm m" and n: "name_lookup nm (nm x) m \<noteq> None"
  shows "name_inv nm (name_put nm x m)"
    and "name_lookup nm n (name_put nm x m) = (if n = nm x then Some x else name_lookup nm n m)"
proof -
  have e: "map nm (map (\<lambda>l. if nm l = nm x then x else l) xs) = map nm xs" for xs
    by (induction xs) auto
  have e2: "map (atol \<circ> nm) (map (\<lambda>l. if nm l = nm x then x else l) xs) = map (atol \<circ> nm) xs" for xs
    by (induction xs) auto
  show inv: "name_inv nm (name_put nm x m)"
    using i unfolding name_inv_def name_put_def by (auto simp: e e2 simp del: map_map)
  have s: "set (nm_num (name_put nm x m)) \<union> set (nm_str (name_put nm x m)) =
      insert x {l \<in> set (nm_num m) \<union> set (nm_str m). nm l \<noteq> nm x}"
    using n by (auto simp: name_put_def name_lookup_None)
  show "name_lookup nm n (name_put nm x m) = (if n = nm x then Some x else name_lookup nm n m)"
  proof (rule name_lookup_upd [OF i inv])
    fix l assume "nm l = n"
    then show "l \<in> set (nm_num (name_put nm x m)) \<union> set (nm_str (name_put nm x m)) \<longleftrightarrow>
        (if n = nm x then Some x else name_lookup nm n m) = Some l"
      unfolding s by (auto simp: name_lookup_iff [OF i])
  next
    fix l assume "(if n = nm x then Some x else name_lookup nm n m) = Some l"
    then show "nm l = n" by (auto simp: name_lookup_iff [OF i] split: if_splits)
  qed
qed

section \<open>Prefix lists\<close>

subsection \<open>Entries and lists\<close>

datatype prefix_list_type = PREFIX_DENY | PREFIX_PERMIT

record prefix_list_entry =
  seq :: int
  le :: int
  ge :: int
  ptype :: prefix_list_type
  any :: bool
  pe_prefix :: prefix
  pe_refcnt :: ulong
  hitcnt :: ulong

record prefix_list =
  pl_name :: string
  pl_desc :: "string option"
  pl_count :: int
  entries :: "prefix_list_entry list"

datatype hook_call = Add_hook string | Delete_hook string | Delete_hook_all

text \<open>The lists of one address family; \<open>recent\<close> is the list changed last.\<close>

record prefix_master = "prefix_list name_master" +
  seqnum :: bool
  recent :: "string option"
  has_add_hook :: bool
  has_delete_hook :: bool
  hooks :: "hook_call list"

definition prefix_list_new :: prefix_list where
  "prefix_list_new = \<lparr>pl_name = [], pl_desc = None, pl_count = 0, entries = []\<rparr>"

definition prefix_list_entry_new :: prefix_list_entry where
  "prefix_list_entry_new = \<lparr>seq = 0, le = 0, ge = 0, ptype = PREFIX_DENY, any = False, pe_prefix = prefix_new, pe_refcnt = 0, hitcnt = 0\<rparr>"

definition prefix_list_lookup :: "string option \<Rightarrow> prefix_master \<Rightarrow> prefix_list option" where
  "prefix_list_lookup name m = (case name of None \<Rightarrow> None | Some n \<Rightarrow> name_lookup pl_name n m)"

definition prefix_list_insert :: "string \<Rightarrow> prefix_master \<Rightarrow> prefix_list \<times> prefix_master" where
  "prefix_list_insert name m =
     (let plist = prefix_list_new\<lparr>pl_name := name\<rparr> in (plist, name_insert pl_name plist m))"

definition prefix_list_get :: "string \<Rightarrow> prefix_master \<Rightarrow> prefix_list \<times> prefix_master" where
  "prefix_list_get name m =
     (case prefix_list_lookup (Some name) m of
        Some plist \<Rightarrow> (plist, m)
      | None \<Rightarrow> prefix_list_insert name m)"

text \<open>The entries are freed one by one, then the list is unlinked; the hook gets no argument.\<close>

definition prefix_list_delete :: "prefix_list \<Rightarrow> prefix_master \<Rightarrow> prefix_master" where
  "prefix_list_delete plist m =
     (let m = (name_unlink pl_name (pl_name plist) m)\<lparr>recent := None\<rparr> in
      if has_delete_hook m then m\<lparr>hooks := hooks m @ [Delete_hook_all]\<rparr> else m)"

text \<open>\<open>prefix_copy\<close> ends the process for a family it does not know.\<close>

definition prefix_list_entry_make :: "prefix \<Rightarrow> prefix_list_type \<Rightarrow> int \<Rightarrow> int \<Rightarrow> int \<Rightarrow> bool \<Rightarrow> prefix_list_entry option" where
  "prefix_list_entry_make p ty sq lenum genum an = do {
     q \<leftarrow> prefix_copy (pe_prefix prefix_list_entry_new) p;
     Some (prefix_list_entry_new\<lparr>any := an, pe_prefix := q, ptype := ty, seq := sq, le := lenum, ge := genum\<rparr>)
   }"

text \<open>Sequence numbers are of type \<open>int\<close>, so the next number wraps around behind the largest multiple of 5.\<close>

definition prefix_new_seq_get :: "prefix_list \<Rightarrow> int" where
  "prefix_new_seq_get plist =
     (let maxseq = foldl (\<lambda>maxseq e. if maxseq < seq e then seq e else maxseq) 0 (entries plist)
      in c_int ((maxseq div 5) * 5 + 5))"

text \<open>The position of an entry, or none.\<close>

definition entry_find :: "(prefix_list_entry \<Rightarrow> bool) \<Rightarrow> prefix_list \<Rightarrow> nat option" where
  "entry_find P plist = find (\<lambda>i. P (entries plist ! i)) [0..<length (entries plist)]"

definition prefix_seq_check :: "prefix_list \<Rightarrow> int \<Rightarrow> nat option" where
  "prefix_seq_check plist sq = entry_find (\<lambda>e. seq e = sq) plist"

definition prefix_list_entry_lookup :: "prefix_list \<Rightarrow> prefix \<Rightarrow> prefix_list_type \<Rightarrow> int \<Rightarrow> int \<Rightarrow> int \<Rightarrow> nat option" where
  "prefix_list_entry_lookup plist p ty sq lenum genum =
     entry_find (\<lambda>e. prefix_same (pe_prefix e) p \<and> ptype e = ty \<and> \<not> (sq \<ge> 0 \<and> seq e \<noteq> sq) \<and> le e = lenum \<and> ge e = genum) plist"

definition entry_unlink :: "prefix_list \<Rightarrow> nat \<Rightarrow> prefix_list" where
  "entry_unlink plist i =
     plist\<lparr>entries := take i (entries plist) @ drop (i + 1) (entries plist), pl_count := pl_count plist - 1\<rparr>"

text \<open>With \<open>update_list\<close>: the hook runs, and a list without entries and description is deleted.\<close>

definition prefix_list_entry_delete :: "prefix_list \<Rightarrow> nat \<Rightarrow> prefix_master \<Rightarrow> prefix_master" where
  "prefix_list_entry_delete plist i m =
     (let plist = entry_unlink plist i;
          m = name_put pl_name plist m;
          m = (if has_delete_hook m then m\<lparr>hooks := hooks m @ [Delete_hook (pl_name plist)]\<rparr> else m)
      in if entries plist = [] \<and> pl_desc plist = None then prefix_list_delete plist m
         else m\<lparr>recent := Some (pl_name plist)\<rparr>)"

definition entry_insert :: "prefix_list \<Rightarrow> prefix_list_entry \<Rightarrow> prefix_list" where
  "entry_insert plist pentry =
     (let pentry = (if seq pentry = -1 then pentry\<lparr>seq := prefix_new_seq_get plist\<rparr> else pentry);
          plist = (case prefix_seq_check plist (seq pentry) of None \<Rightarrow> plist | Some i \<Rightarrow> entry_unlink plist i)
      in plist\<lparr>entries := insert_before (\<lambda>point. seq point \<ge> seq pentry) pentry (entries plist), pl_count := pl_count plist + 1\<rparr>)"

definition prefix_list_entry_add :: "prefix_list \<Rightarrow> prefix_list_entry \<Rightarrow> prefix_master \<Rightarrow> prefix_master" where
  "prefix_list_entry_add plist pentry m =
     (let plist = entry_insert plist pentry;
          m = name_put pl_name plist m;
          m = (if has_add_hook m then m\<lparr>hooks := hooks m @ [Add_hook (pl_name plist)]\<rparr> else m)
      in m\<lparr>recent := Some (pl_name plist)\<rparr>)"

subsection \<open>Matching\<close>

definition prefix_list_entry_match :: "prefix_list_entry \<Rightarrow> prefix \<Rightarrow> bool" where
  "prefix_list_entry_match e p =
     (if \<not> prefix_match (pe_prefix e) p then False
      else if le e = 0 \<and> ge e = 0
      then \<not> (prefixlen (pe_prefix e) \<noteq> prefixlen p)
      else if le e \<noteq> 0 \<and> int (plen p) > le e then False
      else if ge e \<noteq> 0 \<and> int (plen p) < ge e then False
      else True)"

fun apply_loop :: "prefix_list_entry list \<Rightarrow> prefix \<Rightarrow> prefix_list_type \<times> prefix_list_entry list" where
  "apply_loop [] p = (PREFIX_DENY, [])"
| "apply_loop (e # es) p =
     (let e = e\<lparr>pe_refcnt := pe_refcnt e + 1\<rparr> in
      if prefix_list_entry_match e p then (ptype e, e\<lparr>hitcnt := hitcnt e + 1\<rparr> # es)
      else let (r, es) = apply_loop es p in (r, e # es))"

definition prefix_list_apply :: "prefix_list option \<Rightarrow> prefix \<Rightarrow> prefix_list_type \<times> prefix_list option" where
  "prefix_list_apply plist p =
     (case plist of
        None \<Rightarrow> (PREFIX_DENY, None)
      | Some l \<Rightarrow>
          if pl_count l = 0 then (PREFIX_PERMIT, plist)
          else let (r, es) = apply_loop (entries l) p in (r, Some (l\<lparr>entries := es\<rparr>)))"

definition prefix_entry_dup_check :: "prefix_list \<Rightarrow> prefix_list_entry \<Rightarrow> nat option" where
  "prefix_entry_dup_check plist new =
     (let sq = (if seq new = -1 then prefix_new_seq_get plist else seq new) in
      entry_find (\<lambda>e. prefix_same (pe_prefix e) (pe_prefix new) \<and> ptype e = ptype new \<and> le e = le new \<and> ge e = ge new \<and> seq e \<noteq> sq) plist)"

subsection \<open>Commands\<close>

datatype cmd_result = CMD_SUCCESS | CMD_WARNING

text \<open>The words of a command: sequence number, type, prefix, bounds.\<close>

definition str2prefix_type :: "string \<Rightarrow> prefix_list_type option" where
  "str2prefix_type typestr =
     (if take 1 typestr = ''p'' then Some PREFIX_PERMIT
      else if take 1 typestr = ''d'' then Some PREFIX_DENY else None)"

definition atoi_opt :: "int \<Rightarrow> string option \<Rightarrow> int" where
  "atoi_opt d s = (case s of None \<Rightarrow> d | Some t \<Rightarrow> atoi t)"

text \<open>\<open>strncmp ("any", prefix, strlen (prefix)) == 0\<close>: the word is a prefix of ``any''.\<close>

definition is_any :: "string \<Rightarrow> bool" where
  "is_any s \<longleftrightarrow> take (length s) ''any'' = s"

text \<open>The prefix of a command, with the bounds it stands for: result, prefix, \<open>ge\<close>, \<open>le\<close>, any.\<close>

definition read_prefix :: "(string \<Rightarrow> u8 list option) \<Rightarrow> (string \<Rightarrow> u8 list option) \<Rightarrow> int \<Rightarrow> string \<Rightarrow> int \<Rightarrow> int
    \<Rightarrow> (prefix \<times> int \<times> int \<times> bool) option" where
  "read_prefix inet_aton inet_pton6 afi s genum lenum =
     (if afi = AFI_IP
      then (let a = is_any s; (ret, p) = str2prefix_ipv4 inet_aton (if a then ''0.0.0.0/0'' else s) prefix_new
            in if ret \<le> 0 then None else Some (p, if a then 0 else genum, if a then 32 else lenum, a))
      else (let a = is_any s; (ret, p) = str2prefix_ipv6 inet_pton6 (if a then ''::/0'' else s) prefix_new
            in if ret \<le> 0 then None else Some (p, if a then 0 else genum, if a then 128 else lenum, a)))"

text \<open>The check of the bounds, in its three steps.\<close>

definition bounds_ok :: "prefix \<Rightarrow> int \<Rightarrow> int \<Rightarrow> bool" where
  "bounds_ok p genum lenum =
     (if genum \<noteq> 0 \<and> genum \<le> int (plen p) then False
      else if lenum \<noteq> 0 \<and> lenum \<le> int (plen p) then False
      else if lenum \<noteq> 0 \<and> genum > lenum then False
      else True)"

text \<open>The upper bound as it is stored: the longest length is no bound beside a lower one.\<close>

definition stored_le :: "int \<Rightarrow> int \<Rightarrow> int \<Rightarrow> int" where
  "stored_le afi genum lenum = (if genum \<noteq> 0 \<and> lenum = (if afi = AFI_IP then 32 else 128) then 0 else lenum)"

definition vty_prefix_list_install ::
  "(string \<Rightarrow> u8 list option) \<Rightarrow> (string \<Rightarrow> u8 list option) \<Rightarrow> int \<Rightarrow> string \<Rightarrow> string option \<Rightarrow> string \<Rightarrow> string \<Rightarrow> string option
     \<Rightarrow> string option \<Rightarrow> prefix_master \<Rightarrow> (cmd_result \<times> prefix_master) option" where
  "vty_prefix_list_install inet_aton inet_pton6 afi name sq typestr pstr gestr lestr m =
     (let seqnum = atoi_opt (-1) sq; genum = atoi_opt 0 gestr; lenum = atoi_opt 0 lestr in
      case str2prefix_type typestr of
        None \<Rightarrow> Some (CMD_WARNING, m)
      | Some ty \<Rightarrow>
      (case read_prefix inet_aton inet_pton6 afi pstr genum lenum of
        None \<Rightarrow> Some (CMD_WARNING, m)
      | Some (p, genum, lenum, an) \<Rightarrow>
          if \<not> bounds_ok p genum lenum then Some (CMD_WARNING, m)
          else do {
            let lenum = stored_le afi genum lenum;
            let (plist, m) = prefix_list_get name m;
            pentry \<leftarrow> prefix_list_entry_make p ty seqnum lenum genum an;
            if prefix_entry_dup_check plist pentry \<noteq> None then Some (CMD_WARNING, m)
            else Some (CMD_SUCCESS, prefix_list_entry_add plist pentry m)
          }))"

text \<open>A command with the name only deletes the list; with other words the type and the prefix are there too.\<close>

definition vty_prefix_list_uninstall ::
  "(string \<Rightarrow> u8 list option) \<Rightarrow> (string \<Rightarrow> u8 list option) \<Rightarrow> int \<Rightarrow> string \<Rightarrow> string option \<Rightarrow> string option \<Rightarrow> string option \<Rightarrow> string option
     \<Rightarrow> string option \<Rightarrow> prefix_master \<Rightarrow> (cmd_result \<times> prefix_master) option" where
  "vty_prefix_list_uninstall inet_aton inet_pton6 afi name sq typestr pstr gestr lestr m =
     (case prefix_list_lookup (Some name) m of
        None \<Rightarrow> Some (CMD_WARNING, m)
      | Some plist \<Rightarrow>
      if sq = None \<and> typestr = None \<and> pstr = None \<and> gestr = None \<and> lestr = None
      then Some (CMD_SUCCESS, prefix_list_delete plist m)
      else do {
        let seqnum = atoi_opt (-1) sq;
        let genum = atoi_opt 0 gestr;
        let lenum = atoi_opt 0 lestr;
        ts \<leftarrow> typestr;
        case str2prefix_type ts of
          None \<Rightarrow> Some (CMD_WARNING, m)
        | Some ty \<Rightarrow> do {
            ps \<leftarrow> pstr;
            case read_prefix inet_aton inet_pton6 afi ps genum lenum of
              None \<Rightarrow> Some (CMD_WARNING, m)
            | Some (p, genum, lenum, an) \<Rightarrow>
              (case prefix_list_entry_lookup plist p ty seqnum lenum genum of
                 None \<Rightarrow> Some (CMD_WARNING, m)
               | Some i \<Rightarrow> Some (CMD_SUCCESS, prefix_list_entry_delete plist i m))
          }
      })"

definition vty_prefix_list_desc_unset :: "string \<Rightarrow> prefix_master \<Rightarrow> cmd_result \<times> prefix_master" where
  "vty_prefix_list_desc_unset name m =
     (case prefix_list_lookup (Some name) m of
        None \<Rightarrow> (CMD_WARNING, m)
      | Some plist \<Rightarrow>
          (let plist = plist\<lparr>pl_desc := None\<rparr>; m = name_put pl_name plist m in
           (CMD_SUCCESS, if entries plist = [] then prefix_list_delete plist m else m)))"

subsection \<open>Outbound route filters\<close>

record orf_prefix =
  orf_seq :: u32
  orf_ge :: u8
  orf_le :: u8
  orf_p :: prefix

definition prefix_bgp_orf_set :: "string \<Rightarrow> int \<Rightarrow> orf_prefix \<Rightarrow> bool \<Rightarrow> bool \<Rightarrow> prefix_master \<Rightarrow> (cmd_result \<times> prefix_master) option" where
  "prefix_bgp_orf_set name afi orfp permit set_it m =
     (let genum = uint (orf_ge orfp); lenum = uint (orf_le orfp) in
      if \<not> bounds_ok (orf_p orfp) genum lenum then Some (CMD_WARNING, m)
      else do {
        let lenum = stored_le afi genum lenum;
        let (plist, m) = prefix_list_get name m;
        let ty = (if permit then PREFIX_PERMIT else PREFIX_DENY);
        if set_it
        then do {
          pentry \<leftarrow> prefix_list_entry_make (orf_p orfp) ty (sint (orf_seq orfp)) lenum genum False;
          if prefix_entry_dup_check plist pentry \<noteq> None then Some (CMD_WARNING, m)
          else Some (CMD_SUCCESS, prefix_list_entry_add plist pentry m)
        }
        else case prefix_list_entry_lookup plist (orf_p orfp) ty (sint (orf_seq orfp)) lenum genum of
               None \<Rightarrow> Some (CMD_WARNING, m)
             | Some i \<Rightarrow> Some (CMD_SUCCESS, prefix_list_entry_delete plist i m)
      })"

definition prefix_bgp_orf_remove_all :: "string \<Rightarrow> prefix_master \<Rightarrow> prefix_master" where
  "prefix_bgp_orf_remove_all name m =
     (case prefix_list_lookup (Some name) m of None \<Rightarrow> m | Some plist \<Rightarrow> prefix_list_delete plist m)"

text \<open>The entries as they are sent to a peer.\<close>

fun orf_entry_loop :: "stream \<Rightarrow> prefix_list_entry list \<Rightarrow> u8 \<Rightarrow> u8 \<Rightarrow> u8 \<Rightarrow> stream option" where
  "orf_entry_loop s [] init_flag permit_flag deny_flag = Some s"
| "orf_entry_loop s (e # es) init_flag permit_flag deny_flag = do {
     let flag = init_flag OR (if ptype e = PREFIX_PERMIT then permit_flag else deny_flag);
     (_, s) \<leftarrow> stream_putc s flag;
     (_, s) \<leftarrow> stream_putl s (word_of_int (seq e));
     (_, s) \<leftarrow> stream_putc s (word_of_int (ge e));
     (_, s) \<leftarrow> stream_putc s (word_of_int (le e));
     (_, s) \<leftarrow> stream_put_prefix s (pe_prefix e);
     orf_entry_loop s es init_flag permit_flag deny_flag
   }"

definition prefix_bgp_orf_entry :: "stream \<Rightarrow> prefix_list option \<Rightarrow> u8 \<Rightarrow> u8 \<Rightarrow> u8 \<Rightarrow> stream option" where
  "prefix_bgp_orf_entry s plist init_flag permit_flag deny_flag =
     (case plist of None \<Rightarrow> Some s | Some l \<Rightarrow> orf_entry_loop s (entries l) init_flag permit_flag deny_flag)"

section \<open>The directory as an interface\<close>

text \<open>What the clients of a directory rely on.\<close>

locale directory =
  fixes nm :: "'l \<Rightarrow> string"
    and inv :: "'m \<Rightarrow> bool"
    and lookup :: "string \<Rightarrow> 'm \<Rightarrow> 'l option"
    and ins :: "'l \<Rightarrow> 'm \<Rightarrow> 'm"
    and unlink :: "string \<Rightarrow> 'm \<Rightarrow> 'm"
    and put :: "'l \<Rightarrow> 'm \<Rightarrow> 'm"
  assumes lookup_name: "inv m \<Longrightarrow> lookup n m = Some l \<Longrightarrow> nm l = n"
    and ins_law: "inv m \<Longrightarrow> lookup (nm x) m = None \<Longrightarrow>
      inv (ins x m) \<and> lookup n (ins x m) = (if n = nm x then Some x else lookup n m)"
    and unlink_law: "inv m \<Longrightarrow> inv (unlink k m) \<and> lookup n (unlink k m) = (if n = k then None else lookup n m)"
    and put_law: "inv m \<Longrightarrow> lookup (nm x) m \<noteq> None \<Longrightarrow>
      inv (put x m) \<and> lookup n (put x m) = (if n = nm x then Some x else lookup n m)"
begin

text \<open>Get or create, then change.\<close>

definition get_put :: "'l \<Rightarrow> ('l \<Rightarrow> 'l) \<Rightarrow> 'm \<Rightarrow> 'm" where
  "get_put x f m = (case lookup (nm x) m of None \<Rightarrow> put (f x) (ins x m) | Some l \<Rightarrow> put (f l) m)"

lemma get_put_law:
  assumes "inv m" "\<And>l. nm l = nm x \<Longrightarrow> nm (f l) = nm x"
  shows "inv (get_put x f m) \<and> lookup n (get_put x f m) =
    (if n = nm x then Some (f (case lookup (nm x) m of None \<Rightarrow> x | Some l \<Rightarrow> l)) else lookup n m)"
proof (cases "lookup (nm x) m")
  case None
  then show ?thesis
    using ins_law [OF assms(1) None] put_law [of "ins x m" "f x"] assms(2) [of x] by (simp add: get_put_def)
next
  case (Some l)
  then show ?thesis
    using lookup_name [OF assms(1) Some] put_law [OF assms(1), of "f l"] assms(2) [of l] by (simp add: get_put_def)
qed

end

interpretation plists: directory pl_name "name_inv pl_name :: prefix_master \<Rightarrow> bool" "name_lookup pl_name" "name_insert pl_name"
  "name_unlink pl_name" "name_put pl_name"
proof
  show "name_inv pl_name m \<Longrightarrow> name_lookup pl_name n m = Some l \<Longrightarrow> pl_name l = n" for m :: prefix_master and n l
    by (simp add: name_lookup_iff)
qed (simp_all add: name_insert_law name_unlink_law name_put_law)

lemma filter_insert_before:
  assumes "nm x \<notin> nm ` set xs"
  shows "filter (\<lambda>l. nm l \<noteq> nm x) (insert_before stop x xs) = xs"
proof -
  have "filter (\<lambda>l. nm l \<noteq> nm x) (takeWhile (\<lambda>y. \<not> stop y) xs) = takeWhile (\<lambda>y. \<not> stop y) xs"
    by (intro filter_True ballI notI) (metis assms image_eqI set_takeWhileD)
  moreover have "filter (\<lambda>l. nm l \<noteq> nm x) (dropWhile (\<lambda>y. \<not> stop y) xs) = dropWhile (\<lambda>y. \<not> stop y) xs"
    by (intro filter_True ballI notI) (metis assms image_eqI set_dropWhileD)
  ultimately show ?thesis by (simp add: insert_before_def)
qed

section \<open>Entries in order\<close>

definition plist_ok :: "prefix_list \<Rightarrow> bool" where
  "plist_ok l \<longleftrightarrow> sorted_wrt (<) (map seq (entries l)) \<and> pl_count l = int (length (entries l))"

text \<open>The abstract value of a list: its entries by sequence number.\<close>

definition entry_map :: "prefix_list \<Rightarrow> int \<Rightarrow> prefix_list_entry option" where
  "entry_map l = map_of (map (\<lambda>e. (seq e, e)) (entries l))"

lemma sorted_wrt_less_distinct: "sorted_wrt (<) (xs :: int list) \<longleftrightarrow> sorted xs \<and> distinct xs"
  by (metis strict_sorted_iff)

lemma entry_map_iff:
  assumes "plist_ok l"
  shows "entry_map l s = Some e \<longleftrightarrow> e \<in> set (entries l) \<and> seq e = s"
proof -
  have "distinct (map fst (map (\<lambda>e. (seq e, e)) (entries l)))"
    using assms by (simp add: plist_ok_def sorted_wrt_less_distinct comp_def)
  then show ?thesis unfolding entry_map_def by (subst map_of_eq_Some_iff) auto
qed

lemma entry_map_eqI:
  assumes "plist_ok l" "\<And>e. e \<in> set (entries l) \<longleftrightarrow> f (seq e) = Some e" "\<And>s e. f s = Some e \<Longrightarrow> seq e = s"
  shows "entry_map l = f"
proof
  fix s
  show "entry_map l s = f s"
  proof (cases "f s")
    case None
    have "entry_map l s \<noteq> Some e" for e using entry_map_iff [OF assms(1)] assms(2) [of e] None by auto
    then show ?thesis using None by (cases "entry_map l s") auto
  next
    case (Some e)
    then show ?thesis using entry_map_iff [OF assms(1), of s e] assms(2) [of e] assms(3) [of s e] by simp
  qed
qed

lemma find_upt_Some: "find (\<lambda>i. P (xs ! i)) [0..<length xs] = Some i \<Longrightarrow> i < length xs \<and> P (xs ! i)"
  by (auto simp: find_Some_iff)

lemma find_upt_None: "find (\<lambda>i. P (xs ! i)) [0..<length xs] = None \<longleftrightarrow> (\<forall>x\<in>set xs. \<not> P x)"
  by (simp add: find_None_iff all_set_conv_all_nth)

lemma entry_unlink_ok:
  assumes ok: "plist_ok l" and i: "i < length (entries l)"
  shows "plist_ok (entry_unlink l i)" "entry_map (entry_unlink l i) = (entry_map l)(seq (entries l ! i) := None)"
    "set (entries (entry_unlink l i)) = set (entries l) - {entries l ! i}"
proof -
  let ?es = "entries l"
  have e: "?es = take i ?es @ ?es ! i # drop (i + 1) ?es" using i by (simp add: id_take_nth_drop)
  have s: "sorted_wrt (<) (map seq (take i ?es) @ seq (?es ! i) # map seq (drop (i + 1) ?es))"
    using ok unfolding plist_ok_def by (metis e list.map(2) map_append)
  have l: "entries (entry_unlink l i) = take i ?es @ drop (i + 1) ?es" by (simp add: entry_unlink_def)
  show ok': "plist_ok (entry_unlink l i)"
    using ok s i by (auto simp: plist_ok_def entry_unlink_def sorted_wrt_append)
  have ne: "seq x \<noteq> seq (?es ! i)" if "x \<in> set (take i ?es) \<union> set (drop (i + 1) ?es)" for x
    using s that by (fastforce simp: sorted_wrt_append)
  have set: "set ?es = set (take i ?es) \<union> {?es ! i} \<union> set (drop (i + 1) ?es)"
    by (subst e) (simp only: set_append list.set Un_insert_left Un_insert_right Un_empty_right sup_bot_left)
  show st: "set (entries (entry_unlink l i)) = set ?es - {?es ! i}"
    unfolding l set_append using ne set by blast
  show "entry_map (entry_unlink l i) = (entry_map l)(seq (?es ! i) := None)"
  proof (rule entry_map_eqI [OF ok'])
    fix x
    have mem: "x \<in> set ?es \<Longrightarrow> seq x = seq (?es ! i) \<longleftrightarrow> x = ?es ! i" using ne set by auto
    show "x \<in> set (entries (entry_unlink l i)) \<longleftrightarrow> ((entry_map l)(seq (?es ! i) := None)) (seq x) = Some x"
      unfolding st using mem entry_map_iff [OF ok, of "seq x" x] by auto
  next
    fix s x assume "((entry_map l)(seq (?es ! i) := None)) s = Some x"
    then show "seq x = s" using entry_map_iff [OF ok, of s x] by (auto split: if_splits)
  qed
qed

lemma maxseq_bound:
  "a \<le> foldl (\<lambda>maxseq e. if maxseq < seq e then seq e else maxseq) a es \<and>
   (\<forall>e\<in>set es. seq e \<le> foldl (\<lambda>maxseq e. if maxseq < seq e then seq e else maxseq) a es)"
proof (induction es arbitrary: a)
  case (Cons e es)
  show ?case using Cons.IH [of "if a < seq e then seq e else a"] by (auto split: if_splits)
qed simp

text \<open>The numbers in use leave room for an automatic one above them.\<close>

definition auto_room :: "prefix_list \<Rightarrow> bool" where
  "auto_room l \<longleftrightarrow> (\<forall>e\<in>set (entries l). seq e < 2 ^ 31 - 3)"

lemma maxseq_mem: "foldl (\<lambda>maxseq e. if maxseq < seq e then seq e else maxseq) a es \<in> insert a (seq ` set es)"
proof (induction es arbitrary: a)
  case (Cons e es)
  show ?case using Cons.IH [of "if a < seq e then seq e else a"] by (auto split: if_splits)
qed simp

lemma prefix_new_seq_get_fresh:
  assumes "auto_room l"
  shows "0 < prefix_new_seq_get l \<and> 5 dvd prefix_new_seq_get l \<and> (\<forall>e\<in>set (entries l). seq e < prefix_new_seq_get l)"
proof -
  define M where "M = foldl (\<lambda>maxseq e. if maxseq < seq e then seq e else maxseq) 0 (entries l)"
  have M: "0 \<le> M" "\<forall>e\<in>set (entries l). seq e \<le> M" using maxseq_bound [of 0 "entries l"] by (auto simp: M_def)
  have "M < 2 ^ 31 - 3" using maxseq_mem [of 0 "entries l"] assms unfolding M_def auto_room_def by auto
  then have "(M div 5) * 5 + 5 < 2 ^ 31" by (simp, presburger)
  then have n: "prefix_new_seq_get l = (M div 5) * 5 + 5" using M(1) c_int_id [of "(M div 5) * 5 + 5"] by (simp add: prefix_new_seq_get_def M_def [symmetric] int_ok_def)
  have "M < (M div 5) * 5 + 5" by presburger
  moreover have "5 dvd (M div 5) * 5 + 5" by simp
  ultimately show ?thesis using M unfolding n by (metis le_less_trans)
qed

lemma prefix_new_seq_get_int [simp]: "int_ok (prefix_new_seq_get l)"
  by (simp add: prefix_new_seq_get_def)

text \<open>The entry as it is stored, and the list without the entry it replaces.\<close>

definition numbered :: "prefix_list \<Rightarrow> prefix_list_entry \<Rightarrow> prefix_list_entry" where
  "numbered l e = (if seq e = -1 then e\<lparr>seq := prefix_new_seq_get l\<rparr> else e)"

lemma prefix_seq_check_cases:
  assumes ok: "plist_ok l"
  obtains (None) "prefix_seq_check l s = None" "s \<notin> seq ` set (entries l)" "entry_map l s = None"
  | (Some) i where "prefix_seq_check l s = Some i" "i < length (entries l)" "seq (entries l ! i) = s"
proof (cases "prefix_seq_check l s")
  case N: None
  have "\<forall>e\<in>set (entries l). seq e \<noteq> s"
    using N find_upt_None [of "\<lambda>e. seq e = s" "entries l"] by (simp add: prefix_seq_check_def entry_find_def)
  moreover from this have "entry_map l s = None" using entry_map_iff [OF ok, of s] by (cases "entry_map l s") auto
  ultimately show ?thesis using N by (intro None) auto
next
  case S: (Some i)
  then show ?thesis
    using find_upt_Some [of "\<lambda>e. seq e = s" "entries l" i] by (intro Some) (auto simp: prefix_seq_check_def entry_find_def)
qed

lemma insert_sorted_entry:
  assumes ok: "plist_ok l" and new: "seq e \<notin> seq ` set (entries l)"
  defines "l' \<equiv> l\<lparr>entries := insert_before (\<lambda>point. seq point \<ge> seq e) e (entries l), pl_count := pl_count l + 1\<rparr>"
  shows "plist_ok l'" "entry_map l' = (entry_map l)(seq e \<mapsto> e)" "set (entries l') = insert e (set (entries l))"
proof -
  show st: "set (entries l') = insert e (set (entries l))" by (simp add: l'_def)
  have len: "length (insert_before stop x xs) = length xs + 1" for stop and x :: prefix_list_entry and xs
    unfolding insert_before_def by (metis add.commute add_Suc_right length_Cons length_append plus_1_eq_Suc takeWhile_dropWhile_id)
  show ok': "plist_ok l'"
    using ok sorted_insert_before [of seq "entries l" e] distinct_insert_before [of seq "entries l" e] new
    by (simp add: plist_ok_def l'_def len sorted_wrt_less_distinct)
  show "entry_map l' = (entry_map l)(seq e \<mapsto> e)"
  proof (rule entry_map_eqI [OF ok'])
    fix x
    have "x \<in> set (entries l) \<Longrightarrow> seq x \<noteq> seq e" using new by (metis image_eqI)
    then show "x \<in> set (entries l') \<longleftrightarrow> ((entry_map l)(seq e \<mapsto> e)) (seq x) = Some x"
      unfolding st using entry_map_iff [OF ok, of "seq x" x] by auto
  next
    fix s x assume "((entry_map l)(seq e \<mapsto> e)) s = Some x"
    then show "seq x = s" using entry_map_iff [OF ok, of s x] by (auto split: if_splits)
  qed
qed

lemma entry_insert_ok:
  assumes ok: "plist_ok l"
  shows "plist_ok (entry_insert l e)"
    "entry_map (entry_insert l e) = (entry_map l)(seq (numbered l e) \<mapsto> numbered l e)"
    "set (entries (entry_insert l e)) \<subseteq> insert (numbered l e) (set (entries l))"
proof -
  let ?n = "numbered l e"
  have e: "entry_insert l e =
    (let l = (case prefix_seq_check l (seq ?n) of None \<Rightarrow> l | Some i \<Rightarrow> entry_unlink l i)
     in l\<lparr>entries := insert_before (\<lambda>point. seq point \<ge> seq ?n) ?n (entries l), pl_count := pl_count l + 1\<rparr>)"
    by (simp add: entry_insert_def numbered_def)
  have "plist_ok (entry_insert l e) \<and> entry_map (entry_insert l e) = (entry_map l)(seq ?n \<mapsto> ?n) \<and>
    set (entries (entry_insert l e)) \<subseteq> insert ?n (set (entries l))"
    using ok
  proof (cases rule: prefix_seq_check_cases [of l "seq ?n"])
    case None
    then show ?thesis using insert_sorted_entry [OF ok None(2)] by (simp add: e Let_def)
  next
    case (Some i)
    note u = entry_unlink_ok [OF ok Some(2)]
    have "seq ?n \<notin> seq ` set (entries (entry_unlink l i))"
      using u(2) Some(3) entry_map_iff [OF u(1), of "seq ?n"] by fastforce
    from insert_sorted_entry [OF u(1) this] show ?thesis using Some u(2,3) by (auto simp: e Let_def)
  qed
  then show "plist_ok (entry_insert l e)" "entry_map (entry_insert l e) = (entry_map l)(seq ?n \<mapsto> ?n)"
    "set (entries (entry_insert l e)) \<subseteq> insert ?n (set (entries l))" by blast+
qed

section \<open>First match\<close>

text \<open>What an entry says of a prefix.\<close>

definition covers :: "prefix_list_entry \<Rightarrow> prefix \<Rightarrow> bool" where
  "covers e p \<longleftrightarrow> Sublist.prefix (pfx_bits (pe_prefix e)) (pfx_bits p) \<and>
     (if le e = 0 \<and> ge e = 0 then plen p = plen (pe_prefix e)
      else (ge e = 0 \<or> ge e \<le> int (plen p)) \<and> (le e = 0 \<or> int (plen p) \<le> le e))"

lemma prefix_list_entry_match_covers: "prefix_list_entry_match e p = covers e p"
  by (auto simp: prefix_list_entry_match_def covers_def prefix_match_iff word_unat_eq_iff)

lemma covers_counters [simp]: "covers (e\<lparr>pe_refcnt := n\<rparr>) p = covers e p"
  by (simp add: covers_def)

text \<open>The counters of an entry after a walk that stopped at number \<open>s\<close>.\<close>

definition counted :: "int \<Rightarrow> prefix_list_entry \<Rightarrow> prefix_list_entry" where
  "counted s e = (if seq e < s then e\<lparr>pe_refcnt := pe_refcnt e + 1\<rparr>
     else if seq e = s then e\<lparr>pe_refcnt := pe_refcnt e + 1, hitcnt := hitcnt e + 1\<rparr> else e)"

lemma apply_loop_none:
  "\<forall>e\<in>set es. \<not> covers e p \<Longrightarrow> apply_loop es p = (PREFIX_DENY, map (\<lambda>e. e\<lparr>pe_refcnt := pe_refcnt e + 1\<rparr>) es)"
  by (induction es) (auto simp: prefix_list_entry_match_covers Let_def)

lemma apply_loop_first:
  assumes "e \<in> set es" "covers e p" "\<forall>x\<in>set es. seq x < seq e \<longrightarrow> \<not> covers x p" "sorted_wrt (<) (map seq es)"
  shows "apply_loop es p = (ptype e, map (counted (seq e)) es)"
  using assms
proof (induction es)
  case (Cons x es)
  show ?case
  proof (cases "x = e")
    case True
    have "map (counted (seq e)) es = es" using Cons.prems(4) True by (intro map_idI) (auto simp: counted_def)
    then show ?thesis using Cons.prems(2) True by (simp add: prefix_list_entry_match_covers Let_def counted_def [of "seq e" e])
  next
    case False
    then have lt: "seq x < seq e" using Cons.prems(1,4) by auto
    then have "\<not> covers x p" using Cons.prems(3) by simp
    moreover have "apply_loop es p = (ptype e, map (counted (seq e)) es)"
      using Cons.prems False by (intro Cons.IH) auto
    ultimately show ?thesis using lt by (simp add: prefix_list_entry_match_covers Let_def counted_def)
  qed
qed simp

text \<open>C22: a prefix list decides by the matching entry with the lowest sequence number, and that entry's type is the
  result; an entry matches the prefixes that extend its own and whose length obeys its bounds, or equals its own length
  when it has none.  Without a matching entry the result is deny, as for a list that does not exist, and an empty list permits.
  The counters of the entries met, and the hit counter of the entry that decided, go up by one; nothing else changes.\<close>

theorem prefix_list_apply_first_match:
  assumes ok: "plist_ok l"
  shows "prefix_list_apply None p = (PREFIX_DENY, None) \<and>
    (entries l = [] \<longrightarrow> prefix_list_apply (Some l) p = (PREFIX_PERMIT, Some l)) \<and>
    (entries l \<noteq> [] \<and> (\<forall>s e. entry_map l s = Some e \<longrightarrow> \<not> covers e p) \<longrightarrow>
       prefix_list_apply (Some l) p =
         (PREFIX_DENY, Some (l\<lparr>entries := map (\<lambda>e. e\<lparr>pe_refcnt := pe_refcnt e + 1\<rparr>) (entries l)\<rparr>))) \<and>
    (\<forall>s e. entry_map l s = Some e \<and> covers e p \<and> (\<forall>s' e'. s' < s \<and> entry_map l s' = Some e' \<longrightarrow> \<not> covers e' p) \<longrightarrow>
       prefix_list_apply (Some l) p = (ptype e, Some (l\<lparr>entries := map (counted s) (entries l)\<rparr>)))"
proof (intro conjI allI impI)
  show "prefix_list_apply None p = (PREFIX_DENY, None)" by (simp add: prefix_list_apply_def)
  show "prefix_list_apply (Some l) p = (PREFIX_PERMIT, Some l)" if "entries l = []"
    using ok that by (simp add: prefix_list_apply_def plist_ok_def)
  show "prefix_list_apply (Some l) p =
      (PREFIX_DENY, Some (l\<lparr>entries := map (\<lambda>e. e\<lparr>pe_refcnt := pe_refcnt e + 1\<rparr>) (entries l)\<rparr>))"
    if "entries l \<noteq> [] \<and> (\<forall>s e. entry_map l s = Some e \<longrightarrow> \<not> covers e p)"
  proof -
    have "\<forall>e\<in>set (entries l). \<not> covers e p" using that by (auto simp: entry_map_iff [OF ok])
    from apply_loop_none [OF this] show ?thesis using ok that by (simp add: prefix_list_apply_def plist_ok_def)
  qed
next
  fix s e assume a: "entry_map l s = Some e \<and> covers e p \<and> (\<forall>s' e'. s' < s \<and> entry_map l s' = Some e' \<longrightarrow> \<not> covers e' p)"
  then have e: "e \<in> set (entries l)" "seq e = s" by (auto simp: entry_map_iff [OF ok])
  have "apply_loop (entries l) p = (ptype e, map (counted (seq e)) (entries l))"
    using a e ok by (intro apply_loop_first) (auto simp: entry_map_iff [OF ok] plist_ok_def)
  moreover have "entries l \<noteq> []" using e by auto
  ultimately show "prefix_list_apply (Some l) p = (ptype e, Some (l\<lparr>entries := map (counted s) (entries l)\<rparr>))"
    using ok e by (simp add: prefix_list_apply_def plist_ok_def)
qed

definition demo_plist :: prefix_list where
  "demo_plist = entry_insert (entry_insert (prefix_list_new\<lparr>pl_name := ''demo''\<rparr>)
       (prefix_list_entry_new\<lparr>seq := 10, ptype := PREFIX_PERMIT, any := True, le := 32,
          pe_prefix := prefix_new\<lparr>family := AF_INET\<rparr>\<rparr>))
     (prefix_list_entry_new\<lparr>seq := 5, ge := 24, pe_prefix := net10\<rparr>)"

theorem prefix_list_apply_first_match_witness:
  "prefix_list_apply (Some demo_plist) (net10\<lparr>prefixlen := 20\<rparr>) =
     (PREFIX_PERMIT, Some (demo_plist\<lparr>entries := map (counted 10) (entries demo_plist)\<rparr>)) \<and>
   fst (prefix_list_apply (Some demo_plist) (net10\<lparr>prefixlen := 28\<rparr>)) = PREFIX_DENY"
proof -
  have ok: "plist_ok demo_plist"
    unfolding demo_plist_def by (intro entry_insert_ok) (simp add: plist_ok_def prefix_list_new_def)
  obtain e where e: "entry_map demo_plist 10 = Some e" "covers e (net10\<lparr>prefixlen := 20\<rparr>)" "ptype e = PREFIX_PERMIT"
    "\<forall>s' e'. s' < 10 \<and> entry_map demo_plist s' = Some e' \<longrightarrow> \<not> covers e' (net10\<lparr>prefixlen := 20\<rparr>)"
  proof -
    have "entries demo_plist = [prefix_list_entry_new\<lparr>seq := 5, ge := 24, pe_prefix := net10\<rparr>,
      prefix_list_entry_new\<lparr>seq := 10, ptype := PREFIX_PERMIT, any := True, le := 32, pe_prefix := prefix_new\<lparr>family := AF_INET\<rparr>\<rparr>]"
      by code_simp
    then have m: "entry_map demo_plist = [5 \<mapsto> prefix_list_entry_new\<lparr>seq := 5, ge := 24, pe_prefix := net10\<rparr>,
      10 \<mapsto> prefix_list_entry_new\<lparr>seq := 10, ptype := PREFIX_PERMIT, any := True, le := 32, pe_prefix := prefix_new\<lparr>family := AF_INET\<rparr>\<rparr>]"
      by (simp add: entry_map_def prefix_list_entry_new_def fun_upd_twist)
    have c: "covers (prefix_list_entry_new\<lparr>seq := 10, ptype := PREFIX_PERMIT, any := True, le := 32, pe_prefix := prefix_new\<lparr>family := AF_INET\<rparr>\<rparr>)
        (net10\<lparr>prefixlen := 20\<rparr>)" by code_simp
    have d: "\<not> covers (prefix_list_entry_new\<lparr>seq := 5, ge := 24, pe_prefix := net10\<rparr>) (net10\<lparr>prefixlen := 20\<rparr>)" by code_simp
    show ?thesis by (rule that [OF _ c]) (use d in \<open>auto simp: m split: if_splits\<close>)
  qed
  have "fst (prefix_list_apply (Some demo_plist) (net10\<lparr>prefixlen := 28\<rparr>)) = PREFIX_DENY" by code_simp
  moreover have "prefix_list_apply (Some demo_plist) (net10\<lparr>prefixlen := 20\<rparr>) =
      (ptype e, Some (demo_plist\<lparr>entries := map (counted 10) (entries demo_plist)\<rparr>))"
    using prefix_list_apply_first_match [OF ok, THEN conjunct2, THEN conjunct2, THEN conjunct2] e(1,2,4) by blast
  ultimately show ?thesis using e(3) by simp
qed

text \<open>C23: a prefix list is a finite map from sequence numbers to entries, kept as a list strictly sorted by number with an
  exact count.  Adding an entry is a map update at its number, replacing the entry that had it.  An entry without a number, with the marker
  \<open>-1\<close>, is entered at the number that \<open>prefix_new_seq_get\<close> gives: while the numbers in use are below \<open>2 ^ 31 - 3\<close> it is the next multiple of 5 above every
  number in use, so that it replaces nothing; above that the \<open>int\<close> wraps around.  Removing an entry removes its number.\<close>

theorem prefix_list_refines_map:
  assumes ok: "plist_ok l"
  shows "plist_ok (entry_insert l e) \<and>
    entry_map (entry_insert l e) =
      (if seq e = -1 then (entry_map l)(prefix_new_seq_get l \<mapsto> e\<lparr>seq := prefix_new_seq_get l\<rparr>) else (entry_map l)(seq e \<mapsto> e)) \<and>
    ((\<forall>s. entry_map l s \<noteq> None \<longrightarrow> s < 2 ^ 31 - 3) \<longrightarrow>
       (\<forall>s. entry_map l s \<noteq> None \<longrightarrow> s < prefix_new_seq_get l) \<and> 0 < prefix_new_seq_get l \<and> 5 dvd prefix_new_seq_get l) \<and>
    (\<forall>s i. prefix_seq_check l s = Some i \<longrightarrow>
       plist_ok (entry_unlink l i) \<and> entry_map (entry_unlink l i) = (entry_map l)(s := None)) \<and>
    (\<forall>s. prefix_seq_check l s = None \<longleftrightarrow> entry_map l s = None)"
proof (intro conjI allI impI)
  show "plist_ok (entry_insert l e)" by (rule entry_insert_ok [OF ok])
  show "entry_map (entry_insert l e) =
      (if seq e = -1 then (entry_map l)(prefix_new_seq_get l \<mapsto> e\<lparr>seq := prefix_new_seq_get l\<rparr>) else (entry_map l)(seq e \<mapsto> e))"
    using entry_insert_ok(2) [OF ok, of e] by (simp add: numbered_def)
  have room: "auto_room l" if "\<forall>s. entry_map l s \<noteq> None \<longrightarrow> s < 2 ^ 31 - 3"
    using that entry_map_iff [OF ok] unfolding auto_room_def by blast
  show "0 < prefix_new_seq_get l" "5 dvd prefix_new_seq_get l" if "\<forall>s. entry_map l s \<noteq> None \<longrightarrow> s < 2 ^ 31 - 3"
    using prefix_new_seq_get_fresh [OF room [OF that]] by auto
  show "s < prefix_new_seq_get l" if "\<forall>s. entry_map l s \<noteq> None \<longrightarrow> s < 2 ^ 31 - 3" "entry_map l s \<noteq> None" for s
    using that(2) prefix_new_seq_get_fresh [OF room [OF that(1)]] by (auto simp: entry_map_iff [OF ok])
  fix s
  show "prefix_seq_check l s = None \<longleftrightarrow> entry_map l s = None"
    by (rule prefix_seq_check_cases [OF ok, of s]) (use entry_map_iff [OF ok, of s] in \<open>auto dest: nth_mem\<close>)
  fix i assume i: "prefix_seq_check l s = Some i"
  then have "i < length (entries l)" "seq (entries l ! i) = s"
    using prefix_seq_check_cases [OF ok, of s] by (metis option.distinct(1) option.inject)+
  then show "plist_ok (entry_unlink l i)" "entry_map (entry_unlink l i) = (entry_map l)(s := None)"
    using entry_unlink_ok [OF ok] by auto
qed

theorem prefix_list_refines_map_witness:
  "entry_map (entry_insert demo_plist (prefix_list_entry_new\<lparr>seq := -1\<rparr>)) 15 = Some (prefix_list_entry_new\<lparr>seq := 15\<rparr>)"
proof -
  have ok: "plist_ok demo_plist"
    unfolding demo_plist_def by (intro entry_insert_ok) (simp add: plist_ok_def prefix_list_new_def)
  have "prefix_new_seq_get demo_plist = 15" by code_simp
  then show ?thesis
    using prefix_list_refines_map [OF ok, of "prefix_list_entry_new\<lparr>seq := -1\<rparr>"] by (simp add: prefix_list_entry_new_def)
qed

section \<open>The directory under the commands\<close>

lemma master_fields [simp]:
  "name_inv nm (m\<lparr>recent := r\<rparr>) = name_inv nm m" "name_lookup nm n (m\<lparr>recent := r\<rparr>) = name_lookup nm n m"
  "name_inv nm (m\<lparr>hooks := h\<rparr>) = name_inv nm m" "name_lookup nm n (m\<lparr>hooks := h\<rparr>) = name_lookup nm n m"
  for m :: prefix_master
  by (simp_all add: name_inv_def name_lookup_def cong: option.case_cong)

lemma entry_name [simp]: "pl_name (entry_insert l e) = pl_name l" "pl_name (entry_unlink l i) = pl_name l"
  "pl_desc (entry_insert l e) = pl_desc l" "pl_desc (entry_unlink l i) = pl_desc l"
  by (simp_all add: entry_insert_def entry_unlink_def Let_def split: option.split)

lemma prefix_list_delete_law:
  assumes "name_inv pl_name m"
  shows "name_inv pl_name (prefix_list_delete l m) \<and>
    name_lookup pl_name n (prefix_list_delete l m) = (if n = pl_name l then None else name_lookup pl_name n m)"
  using plists.unlink_law [OF assms, of "pl_name l" n] by (auto simp: prefix_list_delete_def Let_def)

lemma prefix_list_entry_delete_law:
  assumes m: "name_inv pl_name m" and l: "name_lookup pl_name k m = Some l"
  shows "name_inv pl_name (prefix_list_entry_delete l i m) \<and>
    name_lookup pl_name n (prefix_list_entry_delete l i m) =
      (if n = k then if entries (entry_unlink l i) = [] \<and> pl_desc l = None then None else Some (entry_unlink l i)
       else name_lookup pl_name n m)"
proof -
  have k: "pl_name l = k" using plists.lookup_name [OF m l] .
  have p: "name_inv pl_name (name_put pl_name (entry_unlink l i) m)"
    "name_lookup pl_name n (name_put pl_name (entry_unlink l i) m) =
       (if n = k then Some (entry_unlink l i) else name_lookup pl_name n m)"
    using plists.put_law [OF m, of "entry_unlink l i" n] k l by simp_all
  define m1 where "m1 = (let m = name_put pl_name (entry_unlink l i) m
     in if has_delete_hook m then m\<lparr>hooks := hooks m @ [Delete_hook k]\<rparr> else m)"
  have m1: "name_inv pl_name m1" "name_lookup pl_name n m1 = (if n = k then Some (entry_unlink l i) else name_lookup pl_name n m)"
    using p by (auto simp: m1_def Let_def)
  have e: "prefix_list_entry_delete l i m =
    (if entries (entry_unlink l i) = [] \<and> pl_desc l = None then prefix_list_delete (entry_unlink l i) m1 else m1\<lparr>recent := Some k\<rparr>)"
    by (simp add: prefix_list_entry_delete_def m1_def Let_def k)
  show ?thesis using m1 prefix_list_delete_law [OF m1(1), of "entry_unlink l i" n] k
    unfolding e by (cases "n = k") simp_all
qed

text \<open>The list a name stands for: an empty one when there is none.\<close>

definition list_of :: "string \<Rightarrow> prefix_master \<Rightarrow> prefix_list" where
  "list_of n m = (case name_lookup pl_name n m of None \<Rightarrow> prefix_list_new\<lparr>pl_name := n\<rparr> | Some l \<Rightarrow> l)"

lemma list_of_name [simp]: "name_inv pl_name m \<Longrightarrow> pl_name (list_of n m) = n"
  by (auto simp: list_of_def plists.lookup_name split: option.split)

lemma prefix_list_get_law:
  assumes m: "name_inv pl_name m"
  shows "fst (prefix_list_get k m) = list_of k m \<and> name_inv pl_name (snd (prefix_list_get k m)) \<and>
    name_lookup pl_name n (snd (prefix_list_get k m)) = (if n = k then Some (list_of k m) else name_lookup pl_name n m)"
proof (cases "name_lookup pl_name k m")
  case None
  then show ?thesis
    using plists.ins_law [OF m, of "prefix_list_new\<lparr>pl_name := k\<rparr>" n]
    by (simp add: prefix_list_get_def prefix_list_lookup_def prefix_list_insert_def list_of_def Let_def)
next
  case (Some l)
  then show ?thesis using m by (simp add: prefix_list_get_def prefix_list_lookup_def list_of_def)
qed

lemma prefix_list_get_put:
  "name_put pl_name (f (fst (prefix_list_get k m))) (snd (prefix_list_get k m)) = plists.get_put (prefix_list_new\<lparr>pl_name := k\<rparr>) f m"
  by (simp add: plists.get_put_def prefix_list_get_def prefix_list_lookup_def prefix_list_insert_def Let_def split: option.split)

lemma prefix_list_get_add_law:
  assumes m: "name_inv pl_name m"
  shows "name_inv pl_name (prefix_list_entry_add (fst (prefix_list_get k m)) e (snd (prefix_list_get k m))) \<and>
    name_lookup pl_name n (prefix_list_entry_add (fst (prefix_list_get k m)) e (snd (prefix_list_get k m))) =
      (if n = k then Some (entry_insert (list_of k m) e) else name_lookup pl_name n m)"
proof -
  have l: "(case name_lookup pl_name k m of None \<Rightarrow> prefix_list_new\<lparr>pl_name := k\<rparr> | Some l \<Rightarrow> l) = list_of k m"
    by (simp add: list_of_def)
  have "name_inv pl_name (name_put pl_name (entry_insert (fst (prefix_list_get k m)) e) (snd (prefix_list_get k m))) \<and>
    name_lookup pl_name n (name_put pl_name (entry_insert (fst (prefix_list_get k m)) e) (snd (prefix_list_get k m))) =
      (if n = k then Some (entry_insert (list_of k m) e) else name_lookup pl_name n m)"
    unfolding prefix_list_get_put [of "\<lambda>l. entry_insert l e"]
    using plists.get_put_law [OF m, of "prefix_list_new\<lparr>pl_name := k\<rparr>" "\<lambda>l. entry_insert l e" n] l by simp
  then show ?thesis by (auto simp: prefix_list_entry_add_def Let_def)
qed

text \<open>Well-formed entries, lists and directories.\<close>

definition entry_ok :: "prefix_list_entry \<Rightarrow> bool" where
  "entry_ok e \<longleftrightarrow> int_ok (seq e) \<and> prefix_wf (pe_prefix e) \<and> (ge e = 0 \<or> int (plen (pe_prefix e)) < ge e) \<and>
     (le e = 0 \<or> int (plen (pe_prefix e)) < le e \<and> ge e \<le> le e)"

definition list_ok :: "prefix_list \<Rightarrow> bool" where
  "list_ok l \<longleftrightarrow> plist_ok l \<and> (\<forall>e\<in>set (entries l). entry_ok e)"

definition master_ok :: "prefix_master \<Rightarrow> bool" where
  "master_ok m \<longleftrightarrow> name_inv pl_name m \<and> (\<forall>n l. name_lookup pl_name n m = Some l \<longrightarrow> list_ok l)"

lemma list_ok_new [simp]: "list_ok (prefix_list_new\<lparr>pl_name := k\<rparr>)"
  by (simp add: list_ok_def plist_ok_def prefix_list_new_def)

lemma list_ok_list_of: "master_ok m \<Longrightarrow> list_ok (list_of k m)"
  by (auto simp: master_ok_def list_of_def split: option.split)

lemma list_ok_insert: "list_ok l \<Longrightarrow> entry_ok e \<Longrightarrow> list_ok (entry_insert l e)"
proof -
  assume l: "list_ok l" and e: "entry_ok e"
  have "entry_ok (numbered l e)" using e by (simp add: numbered_def entry_ok_def)
  then show ?thesis using l entry_insert_ok(1,3) [of l e] unfolding list_ok_def by blast
qed

lemma list_ok_unlink: "list_ok l \<Longrightarrow> i < length (entries l) \<Longrightarrow> list_ok (entry_unlink l i)"
  using entry_unlink_ok [of l i] by (auto simp: list_ok_def)

lemma master_ok_get: "master_ok m \<Longrightarrow> master_ok (snd (prefix_list_get k m))"
  using prefix_list_get_law [of m k] list_ok_list_of [of m k] unfolding master_ok_def by (metis option.inject)

lemma master_ok_get_add:
  assumes "master_ok m" "entry_ok e"
  shows "master_ok (prefix_list_entry_add (fst (prefix_list_get k m)) e (snd (prefix_list_get k m)))"
  using prefix_list_get_add_law [of m k e] list_ok_insert [OF list_ok_list_of [OF assms(1), of k] assms(2)] assms(1)
  unfolding master_ok_def by (metis option.inject)

lemma master_ok_delete: "master_ok m \<Longrightarrow> master_ok (prefix_list_delete l m)"
  using prefix_list_delete_law [of m l] unfolding master_ok_def by (metis option.distinct(1))

lemma master_ok_entry_delete:
  assumes "master_ok m" "name_lookup pl_name k m = Some l" "i < length (entries l)"
  shows "master_ok (prefix_list_entry_delete l i m)"
proof -
  have "list_ok (entry_unlink l i)" using assms list_ok_unlink by (auto simp: master_ok_def)
  then show ?thesis using prefix_list_entry_delete_law [of m k l i] assms(1,2)
    unfolding master_ok_def by (metis option.distinct(1) option.inject)
qed

subsection \<open>Reading a command\<close>

lemma str2prefix_ipv4_wf:
  assumes "str2prefix_ipv4 inet_aton s q = (ret, p)" "0 < ret" "16 \<le> length (u_prefix q)"
    "\<And>t a. inet_aton t = Some a \<Longrightarrow> length a = 4"
  shows "prefix_wf p \<and> family p = AF_INET"
  using assms(1-3)
  by (auto simp: str2prefix_ipv4_def prefix_wf_def set_addr_def Let_def word_le_nat_alt not_less
      split: prod.splits option.splits if_splits dest!: assms(4))

lemma str2prefix_ipv6_wf:
  assumes "str2prefix_ipv6 inet_pton6 s q = (ret, p)" "0 < ret" "16 \<le> length (u_prefix q)"
    "\<And>t a. inet_pton6 t = Some a \<Longrightarrow> length a = 16"
  shows "prefix_wf p \<and> family p = AF_INET6"
  using assms(1-3)
  by (auto simp: str2prefix_ipv6_def prefix_wf_def set_addr_def Let_def word_le_nat_alt not_less
      split: prod.splits option.splits if_splits dest!: assms(4))

text \<open>The library functions that read addresses give 4 and 16 bytes.\<close>

definition inet_ok :: "(string \<Rightarrow> u8 list option) \<Rightarrow> (string \<Rightarrow> u8 list option) \<Rightarrow> bool" where
  "inet_ok inet_aton inet_pton6 \<longleftrightarrow>
     (\<forall>s a. inet_aton s = Some a \<longrightarrow> length a = 4) \<and> (\<forall>s a. inet_pton6 s = Some a \<longrightarrow> length a = 16)"

lemma prefix_new_length [simp]: "length (u_prefix prefix_new) = 16"
  by (simp add: prefix_new_def)

lemma read_prefix_wf:
  assumes "read_prefix inet_aton inet_pton6 afi s g l = Some (p, g', l', an)" "inet_ok inet_aton inet_pton6"
  shows "prefix_wf p"
  using assms str2prefix_ipv4_wf [of inet_aton _ prefix_new] str2prefix_ipv6_wf [of inet_pton6 _ prefix_new]
  by (auto simp: read_prefix_def inet_ok_def Let_def not_le split: if_splits prod.splits)

lemma prefix_copy_same:
  assumes "prefix_wf p"
  obtains q where "prefix_copy prefix_new p = Some q" "prefix_wf q" "prefix_same q p" "plen q = plen p"
proof -
  have len: "16 \<le> length (u_prefix p)" using assms by (simp add: prefix_wf_def)
  have f: "family p = AF_INET \<or> family p = AF_INET6" using assms by (auto simp: prefix_wf_def)
  have ne: "AF_INET6 \<noteq> AF_INET" by (simp add: af_defs)
  show ?thesis
    using f assms len
    by (intro that [of "the (prefix_copy prefix_new p)"]) (auto simp: prefix_copy_def prefix_same_def prefix_wf_def ne)
qed

lemma prefix_list_entry_make_ok:
  assumes "prefix_wf p"
  obtains e where "prefix_list_entry_make p ty sq l g an = Some e" "prefix_wf (pe_prefix e)" "prefix_same (pe_prefix e) p"
    "plen (pe_prefix e) = plen p" "ptype e = ty" "seq e = sq" "le e = l" "ge e = g"
proof -
  obtain q where "prefix_copy prefix_new p = Some q" "prefix_wf q" "prefix_same q p" "plen q = plen p"
    using prefix_copy_same [OF assms] .
  then show ?thesis
    by (intro that [of "prefix_list_entry_new\<lparr>any := an, pe_prefix := q, ptype := ty, seq := sq, le := l, ge := g\<rparr>"])
      (simp_all add: prefix_list_entry_make_def prefix_list_entry_new_def)
qed

lemma bounds_ok_entry:
  "int_ok (seq e) \<Longrightarrow> prefix_wf (pe_prefix e) \<Longrightarrow> plen (pe_prefix e) = plen p \<Longrightarrow> bounds_ok p g l \<Longrightarrow> ge e = g \<Longrightarrow> le e = stored_le afi g l \<Longrightarrow> entry_ok e"
  by (auto simp: entry_ok_def bounds_ok_def stored_le_def split: if_splits)

lemma install_cases:
  assumes io: "inet_ok inet_aton inet_pton6"
  obtains
    (refused) "vty_prefix_list_install inet_aton inet_pton6 afi name sq ts ps gs ls m = Some (CMD_WARNING, m)"
  | (duplicate) "vty_prefix_list_install inet_aton inet_pton6 afi name sq ts ps gs ls m = Some (CMD_WARNING, snd (prefix_list_get name m))"
  | (added) ty p g l an e where
      "vty_prefix_list_install inet_aton inet_pton6 afi name sq ts ps gs ls m =
         Some (CMD_SUCCESS, prefix_list_entry_add (fst (prefix_list_get name m)) e (snd (prefix_list_get name m)))"
      "str2prefix_type ts = Some ty" "read_prefix inet_aton inet_pton6 afi ps (atoi_opt 0 gs) (atoi_opt 0 ls) = Some (p, g, l, an)"
      "entry_ok e" "prefix_same (pe_prefix e) p" "ptype e = ty" "seq e = atoi_opt (-1) sq" "ge e = g" "le e = stored_le afi g l"
      "prefix_entry_dup_check (fst (prefix_list_get name m)) e = None"
proof (cases "str2prefix_type ts")
  case None
  then show ?thesis by (intro refused) (simp add: vty_prefix_list_install_def Let_def)
next
  case ty: (Some ty)
  show ?thesis
  proof (cases "read_prefix inet_aton inet_pton6 afi ps (atoi_opt 0 gs) (atoi_opt 0 ls)")
    case None
    then show ?thesis using ty by (intro refused) (simp add: vty_prefix_list_install_def Let_def)
  next
    case rp: (Some r)
    obtain p g l an where r: "r = (p, g, l, an)" by (cases r)
    have wf: "prefix_wf p" using read_prefix_wf rp r io by blast
    obtain e where e: "prefix_list_entry_make p ty (atoi_opt (-1) sq) (stored_le afi g l) g an = Some e"
      "prefix_wf (pe_prefix e)" "prefix_same (pe_prefix e) p" "plen (pe_prefix e) = plen p" "ptype e = ty"
      "seq e = atoi_opt (-1) sq" "le e = stored_le afi g l" "ge e = g"
      using prefix_list_entry_make_ok [OF wf] by blast
    have i: "vty_prefix_list_install inet_aton inet_pton6 afi name sq ts ps gs ls m =
      (if \<not> bounds_ok p g l then Some (CMD_WARNING, m)
       else if prefix_entry_dup_check (fst (prefix_list_get name m)) e \<noteq> None
       then Some (CMD_WARNING, snd (prefix_list_get name m))
       else Some (CMD_SUCCESS, prefix_list_entry_add (fst (prefix_list_get name m)) e (snd (prefix_list_get name m))))"
      using ty rp e(1) unfolding vty_prefix_list_install_def r
      by (simp add: Let_def split_beta)
    show ?thesis
    proof (cases "bounds_ok p g l")
      case b: True
      have "int_ok (seq e)" unfolding e(6) by (simp add: atoi_opt_def int_ok_def [of "-1"] split: option.split)
      then have ok: "entry_ok e" using bounds_ok_entry [of e p g l afi] e b by simp
      show ?thesis
        using i b ty rp r ok e duplicate added [of e ty p g l an]
        by (cases "prefix_entry_dup_check (fst (prefix_list_get name m)) e = None") auto
    qed (use i refused in simp)
  qed
qed

lemma entry_find_Some: "entry_find P l = Some i \<Longrightarrow> i < length (entries l) \<and> P (entries l ! i)"
  by (simp add: entry_find_def find_upt_Some)

lemma entry_find_None: "entry_find P l = None \<longleftrightarrow> (\<forall>e\<in>set (entries l). \<not> P e)"
  by (simp add: entry_find_def find_upt_None)

lemma uninstall_cases:
  obtains
    (refused) "vty_prefix_list_uninstall inet_aton inet_pton6 afi name sq ts ps gs ls m = Some (CMD_WARNING, m)"
  | (incomplete) "vty_prefix_list_uninstall inet_aton inet_pton6 afi name sq ts ps gs ls m = None" "ts = None \<or> ps = None"
  | (all) l where "vty_prefix_list_uninstall inet_aton inet_pton6 afi name sq ts ps gs ls m = Some (CMD_SUCCESS, prefix_list_delete l m)"
  | (one) l i where "vty_prefix_list_uninstall inet_aton inet_pton6 afi name sq ts ps gs ls m = Some (CMD_SUCCESS, prefix_list_entry_delete l i m)"
      "name_lookup pl_name name m = Some l" "i < length (entries l)"
proof (cases "name_lookup pl_name name m")
  case None
  then show ?thesis by (intro refused) (simp add: vty_prefix_list_uninstall_def prefix_list_lookup_def)
next
  case l: (Some l)
  note d = vty_prefix_list_uninstall_def prefix_list_lookup_def
  show ?thesis
  proof (cases "sq = None \<and> ts = None \<and> ps = None \<and> gs = None \<and> ls = None")
    case True
    then show ?thesis using l by (intro all [of l]) (simp add: d)
  next
    case n: False
    show ?thesis
    proof (cases "ts = None \<or> ps = None")
      case miss: True
      show ?thesis
      proof (cases "\<exists>t. ts = Some t \<and> str2prefix_type t = None")
        case True
        then show ?thesis using l n by (intro refused) (auto simp: d)
      next
        case False
        then have "vty_prefix_list_uninstall inet_aton inet_pton6 afi name sq ts ps gs ls m = None"
          using l n miss by (cases ts) (auto simp: d split: option.splits)
        then show ?thesis using miss by (rule incomplete)
      qed
    next
      case False
      then obtain t q where tq: "ts = Some t" "ps = Some q" by auto
      show ?thesis
      proof (cases "str2prefix_type t")
        case None
        then show ?thesis using l tq by (intro refused) (simp add: d Let_def)
      next
        case ty: (Some ty)
        show ?thesis
        proof (cases "read_prefix inet_aton inet_pton6 afi q (atoi_opt 0 gs) (atoi_opt 0 ls)")
          case None
          then show ?thesis using l tq ty by (intro refused) (simp add: d Let_def)
        next
          case rp: (Some r)
          obtain p g le' an where r: "r = (p, g, le', an)" by (cases r)
          show ?thesis
          proof (cases "prefix_list_entry_lookup l p ty (atoi_opt (-1) sq) le' g")
            case None
            then show ?thesis using l tq ty rp r by (intro refused) (simp add: d Let_def)
          next
            case (Some i)
            then have "i < length (entries l)" by (auto simp: prefix_list_entry_lookup_def dest: entry_find_Some)
            then show ?thesis using Some l tq ty rp r by (intro one [of l i]) (simp_all add: d Let_def)
          qed
        qed
      qed
    qed
  qed
qed

lemma uninstall_words:
  assumes "name_lookup pl_name name m = Some l" "str2prefix_type t = Some ty"
    "read_prefix inet_aton inet_pton6 afi q (atoi_opt 0 gs) (atoi_opt 0 ls) = Some (p, g, lenum, an)"
  shows "vty_prefix_list_uninstall inet_aton inet_pton6 afi name sq (Some t) (Some q) gs ls m =
    (case prefix_list_entry_lookup l p ty (atoi_opt (-1) sq) lenum g of
       None \<Rightarrow> Some (CMD_WARNING, m)
     | Some i \<Rightarrow> Some (CMD_SUCCESS, prefix_list_entry_delete l i m))"
  using assms by (simp add: vty_prefix_list_uninstall_def prefix_list_lookup_def Let_def)

lemma desc_unset_ok:
  assumes "master_ok m"
  shows "master_ok (snd (vty_prefix_list_desc_unset name m))"
proof (cases "name_lookup pl_name name m")
  case None
  then show ?thesis using assms by (simp add: vty_prefix_list_desc_unset_def prefix_list_lookup_def)
next
  case (Some l)
  let ?l = "l\<lparr>pl_desc := None\<rparr>"
  have m: "name_inv pl_name m" and l: "list_ok l" using assms Some by (auto simp: master_ok_def)
  have "pl_name ?l = name" using plists.lookup_name [OF m Some] by simp
  then have "master_ok (name_put pl_name ?l m)"
    using plists.put_law [OF m, of ?l] Some l assms unfolding master_ok_def list_ok_def plist_ok_def
    by (auto split: if_splits)
  then show ?thesis
    using Some master_ok_delete [of "name_put pl_name ?l m" ?l]
    by (simp add: vty_prefix_list_desc_unset_def prefix_list_lookup_def Let_def)
qed

lemma orf_set_ok:
  assumes m: "master_ok m" and wf: "prefix_wf (orf_p orfp)"
  shows "\<exists>r m'. prefix_bgp_orf_set name afi orfp permit set_it m = Some (r, m') \<and> master_ok m'"
proof (cases "bounds_ok (orf_p orfp) (uint (orf_ge orfp)) (uint (orf_le orfp))")
  case False
  then show ?thesis using m by (simp add: prefix_bgp_orf_set_def Let_def)
next
  case b: True
  define g where "g = uint (orf_ge orfp)"
  define l where "l = stored_le afi g (uint (orf_le orfp))"
  define ty where "ty = (if permit then PREFIX_PERMIT else PREFIX_DENY)"
  obtain e where e: "prefix_list_entry_make (orf_p orfp) ty (sint (orf_seq orfp)) l g False = Some e" "entry_ok e"
    using prefix_list_entry_make_ok [OF wf, of ty "sint (orf_seq orfp)" l g False] bounds_ok_entry [OF _ _ _ b] int_ok_sint [of "orf_seq orfp"]
    unfolding l_def g_def by metis
  let ?p = "fst (prefix_list_get name m)" and ?m = "snd (prefix_list_get name m)"
  have s: "prefix_bgp_orf_set name afi orfp permit set_it m =
    (if set_it then Some (if prefix_entry_dup_check ?p e \<noteq> None then (CMD_WARNING, ?m) else (CMD_SUCCESS, prefix_list_entry_add ?p e ?m))
     else case prefix_list_entry_lookup ?p (orf_p orfp) ty (sint (orf_seq orfp)) l g of
            None \<Rightarrow> Some (CMD_WARNING, ?m) | Some i \<Rightarrow> Some (CMD_SUCCESS, prefix_list_entry_delete ?p i ?m))"
    using e(1) b unfolding prefix_bgp_orf_set_def l_def g_def ty_def by (simp add: Let_def split_beta)
  have lk: "name_lookup pl_name name ?m = Some ?p"
    using prefix_list_get_law [of m name name] m by (simp add: master_ok_def)
  show ?thesis
  proof (cases set_it)
    case True
    then show ?thesis using s master_ok_get [OF m] master_ok_get_add [OF m e(2)] by simp
  next
    case False
    show ?thesis
    proof (cases "prefix_list_entry_lookup ?p (orf_p orfp) ty (sint (orf_seq orfp)) l g")
      case None
      then show ?thesis using s False master_ok_get [OF m] by simp
    next
      case (Some i)
      then have "i < length (entries ?p)" by (auto simp: prefix_list_entry_lookup_def dest: entry_find_Some)
      then show ?thesis using s False Some master_ok_entry_delete [OF master_ok_get [OF m] lk] by simp
    qed
  qed
qed

lemma prefix_same_trans: "prefix_same a b \<Longrightarrow> prefix_same c b \<Longrightarrow> prefix_same a c"
  by (auto simp: prefix_same_def af_defs split: if_splits)

text \<open>After an entry was added with no other entry of the same policy, its words find it and nothing else.\<close>

lemma entry_lookup_added:
  assumes ok: "plist_ok l" and dup: "prefix_entry_dup_check l e = None"
    and e: "prefix_same (pe_prefix e) p" "ptype e = ty" "le e = lenum" "ge e = g" "seq e = s" "s = -1 \<or> 0 \<le> s"
  obtains i where "prefix_list_entry_lookup (entry_insert l e) p ty s lenum g = Some i"
    "i < length (entries (entry_insert l e))" "entries (entry_insert l e) ! i = numbered l e"
proof -
  let ?n = "numbered l e" and ?l = "entry_insert l e"
  define Q where "Q = (\<lambda>x :: prefix_list_entry. prefix_same (pe_prefix x) p \<and> ptype x = ty \<and> \<not> (s \<ge> 0 \<and> seq x \<noteq> s) \<and> le x = lenum \<and> ge x = g)"
  note ins = entry_insert_ok [OF ok, of e]
  have n: "?n \<in> set (entries ?l)" using ins(2) entry_map_iff [OF ins(1), of "seq ?n" ?n] by simp
  have Qn: "Q ?n" using e by (auto simp: Q_def numbered_def)
  have sq: "(if seq e = -1 then prefix_new_seq_get l else seq e) = seq ?n" by (simp add: numbered_def)
  have uniq: "x = ?n" if x: "x \<in> set (entries ?l)" "Q x" for x
  proof (rule ccontr)
    assume ne: "x \<noteq> ?n"
    then have "x \<in> set (entries l)" using ins(3) x(1) by blast
    then have "seq x = seq ?n"
      using dup x(2) e prefix_same_trans [of "pe_prefix x" p "pe_prefix e"]
      unfolding prefix_entry_dup_check_def Let_def sq entry_find_None by (auto simp: Q_def)
    then show False using ne n x(1) entry_map_iff [OF ins(1), of "seq ?n"] by (metis option.inject)
  qed
  have lk: "prefix_list_entry_lookup ?l p ty s lenum g = entry_find Q ?l" by (simp add: prefix_list_entry_lookup_def Q_def)
  obtain i where i: "entry_find Q ?l = Some i" using n Qn entry_find_None [of Q ?l] by (cases "entry_find Q ?l") auto
  show ?thesis
  proof (rule that)
    show "prefix_list_entry_lookup ?l p ty s lenum g = Some i" using lk i by simp
    show "i < length (entries ?l)" using entry_find_Some [OF i] by simp
    show "entries ?l ! i = ?n" using entry_find_Some [OF i] uniq by simp
  qed
qed

lemma entry_map_empty: "entry_map l = Map.empty \<longleftrightarrow> entries l = []"
  by (simp add: entry_map_def)

text \<open>The command takes sequence numbers up to 4294967295, but the last one is read as the marker of an automatic number; and when a number from
  \<open>2 ^ 31 - 3\<close> on is in use, the next automatic number is negative.\<close>

theorem prefix_list_seq_wraps:
  "atoi ''4294967295'' = -1 \<and> prefix_new_seq_get (prefix_list_new\<lparr>entries := [prefix_list_entry_new\<lparr>seq := 2147483645\<rparr>]\<rparr>) = -2147483646"
proof -
  have "dec_value ''4294967295'' = 4294967295" by (simp add: dec_value_def is_space_def is_digit_def digits_val_def digit_val_def)
  then show ?thesis by (simp add: atoi_def strtol_def c_int_def prefix_new_seq_get_def prefix_list_new_def prefix_list_entry_new_def)
qed

text \<open>the commands are inverse to each other: when adding an entry to a list succeeds, removing it with the same words succeeds
  too, and afterwards the list is as before except that it has no entry at the number used, which an automatic number was not
  before; every other list is unchanged.  The hypothesis excludes only the combination of a lower bound with the longest
  length as the upper bound.\<close>

theorem prefix_list_install_uninstall:
  assumes m: "master_ok m" and io: "inet_ok inet_aton inet_pton6"
    and ins: "vty_prefix_list_install inet_aton inet_pton6 afi name sq ts ps gs ls m = Some (CMD_SUCCESS, m1)"
    and sq: "if sq = None then auto_room (list_of name m) else 0 \<le> atoi_opt (-1) sq"
    and le: "\<forall>p g l an. read_prefix inet_aton inet_pton6 afi ps (atoi_opt 0 gs) (atoi_opt 0 ls) = Some (p, g, l, an) \<longrightarrow>
      stored_le afi g l = l"
  shows "\<exists>s m2. vty_prefix_list_uninstall inet_aton inet_pton6 afi name sq (Some ts) (Some ps) gs ls m1 = Some (CMD_SUCCESS, m2) \<and>
    (if sq = None then entry_map (list_of name m) s = None else s = atoi_opt (-1) sq) \<and>
    entry_map (list_of name m1) s \<noteq> None \<and>
    entry_map (list_of name m2) = (entry_map (list_of name m))(s := None) \<and>
    (\<forall>n. n \<noteq> name \<longrightarrow> name_lookup pl_name n m2 = name_lookup pl_name n m)"
proof (rule install_cases [OF io, of afi name sq ts ps gs ls m])
  let ?l = "list_of name m"
  fix ty p g l an e
  assume a: "vty_prefix_list_install inet_aton inet_pton6 afi name sq ts ps gs ls m =
      Some (CMD_SUCCESS, prefix_list_entry_add (fst (prefix_list_get name m)) e (snd (prefix_list_get name m)))"
    and w: "str2prefix_type ts = Some ty" "read_prefix inet_aton inet_pton6 afi ps (atoi_opt 0 gs) (atoi_opt 0 ls) = Some (p, g, l, an)"
    and e: "prefix_same (pe_prefix e) p" "ptype e = ty" "seq e = atoi_opt (-1) sq" "ge e = g" "le e = stored_le afi g l"
    and dup: "prefix_entry_dup_check (fst (prefix_list_get name m)) e = None"
  have mi: "name_inv pl_name m" and ok: "plist_ok ?l" using m list_ok_list_of [OF m, of name] by (auto simp: master_ok_def list_ok_def)
  have m1: "m1 = prefix_list_entry_add (fst (prefix_list_get name m)) e (snd (prefix_list_get name m))" using a ins by simp
  have add: "name_inv pl_name m1" "name_lookup pl_name n m1 = (if n = name then Some (entry_insert ?l e) else name_lookup pl_name n m)" for n
    using prefix_list_get_add_law [OF mi, of name e n] unfolding m1 by blast+
  have sq': "seq e = -1 \<or> 0 \<le> seq e" using sq e(3) by (auto simp: atoi_opt_def split: option.splits)
  obtain i where i: "prefix_list_entry_lookup (entry_insert ?l e) p ty (atoi_opt (-1) sq) l g = Some i"
    "i < length (entries (entry_insert ?l e))" "entries (entry_insert ?l e) ! i = numbered ?l e"
    using entry_lookup_added [OF ok, of e p ty l g "atoi_opt (-1) sq"] dup e le [rule_format, OF w(2)] sq' prefix_list_get_law [OF mi, of name] by auto
  let ?n = "numbered ?l e" and ?u = "entry_unlink (entry_insert ?l e) i"
  define m2 where "m2 = prefix_list_entry_delete (entry_insert ?l e) i m1"
  have un: "vty_prefix_list_uninstall inet_aton inet_pton6 afi name sq (Some ts) (Some ps) gs ls m1 = Some (CMD_SUCCESS, m2)"
    using uninstall_words [OF _ w, of name m1] add(2) [of name] i(1) by (simp add: m2_def)
  note ei = entry_insert_ok [OF ok, of e]
  have u: "entry_map ?u = (entry_map ?l)(seq ?n := None)" using entry_unlink_ok(2) [OF ei(1) i(2)] ei(2) i(3) by simp
  have lk: "name_lookup pl_name n m2 =
      (if n = name then if entries ?u = [] \<and> pl_desc (entry_insert ?l e) = None then None else Some ?u else name_lookup pl_name n m)" for n
    using prefix_list_entry_delete_law [OF add(1), of name "entry_insert ?l e" i n] add(2) unfolding m2_def by simp
  have lo: "entry_map (list_of name m2) = (entry_map ?l)(seq ?n := None)"
    using u lk [of name] entry_map_empty [of ?u] unfolding list_of_def [of name m2]
    by (auto simp: entry_map_def prefix_list_new_def split: if_splits)
  have "entry_map (list_of name m1) (seq ?n) \<noteq> None"
    using ei(2) add(2) [of name] unfolding list_of_def [of name m1] by simp
  moreover have "if sq = None then entry_map ?l (seq ?n) = None else seq ?n = atoi_opt (-1) sq"
    using e(3) sq prefix_new_seq_get_fresh [of ?l] entry_map_iff [OF ok, of "seq ?n"]
    by (cases "entry_map ?l (seq ?n)") (auto simp: numbered_def atoi_opt_def split: option.splits)
  ultimately show ?thesis using un lo lk by (intro exI [of _ "seq ?n"] exI [of _ m2]) simp
qed (use ins in simp_all)

definition demo_aton :: "string \<Rightarrow> u8 list option" where
  "demo_aton s = (if s = ''10.0.0.0'' then Some [10, 0, 0, 0] else None)"

definition demo_pton6 :: "string \<Rightarrow> u8 list option" where
  "demo_pton6 s = (if s = ''::'' then Some (replicate 16 0) else None)"

definition demo_master :: prefix_master where
  "demo_master = \<lparr>nm_num = [], nm_str = [demo_plist], seqnum = True, recent = None,
     has_add_hook = True, has_delete_hook = True, hooks = []\<rparr>"

lemma demo_inet_ok: "inet_ok demo_aton demo_pton6"
  by (auto simp: inet_ok_def demo_aton_def demo_pton6_def split: if_splits)

lemma demo_master_ok: "master_ok demo_master"
proof -
  have "plist_ok demo_plist"
    unfolding demo_plist_def by (intro entry_insert_ok) (simp add: plist_ok_def prefix_list_new_def)
  moreover have "list_all entry_ok (entries demo_plist)" by code_simp
  ultimately have "list_ok demo_plist" by (simp add: list_ok_def list_all_iff)
  moreover have "name_number (pl_name demo_plist) = None" by code_simp
  ultimately show ?thesis by (auto simp: master_ok_def name_inv_def demo_master_def name_lookup_def)
qed

theorem prefix_list_install_uninstall_witness:
  "\<exists>s m2. vty_prefix_list_uninstall demo_aton demo_pton6 AFI_IP ''demo'' None (Some ''permit'') (Some ''10.0.0.0/8'') (Some ''16'') (Some ''24'')
      (snd (the (vty_prefix_list_install demo_aton demo_pton6 AFI_IP ''demo'' None ''permit'' ''10.0.0.0/8'' (Some ''16'') (Some ''24'') demo_master))) =
      Some (CMD_SUCCESS, m2) \<and>
    entry_map (list_of ''demo'' demo_master) s = None \<and>
    entry_map (list_of ''demo'' m2) = (entry_map (list_of ''demo'' demo_master))(s := None)"
proof -
  obtain m1 where m1: "vty_prefix_list_install demo_aton demo_pton6 AFI_IP ''demo'' None ''permit'' ''10.0.0.0/8'' (Some ''16'') (Some ''24'') demo_master
      = Some (CMD_SUCCESS, m1)"
  proof -
    have "map_option fst (vty_prefix_list_install demo_aton demo_pton6 AFI_IP ''demo'' None ''permit'' ''10.0.0.0/8'' (Some ''16'') (Some ''24'') demo_master)
      = Some CMD_SUCCESS" by code_simp
    then show ?thesis using that by (auto simp: map_option_case split: option.splits)
  qed
  have rd: "map_option (\<lambda>(p, g, l, an). (g, l)) (read_prefix demo_aton demo_pton6 AFI_IP ''10.0.0.0/8'' (atoi_opt 0 (Some ''16'')) (atoi_opt 0 (Some ''24''))) =
    Some (16, 24)" by code_simp
  have le: "\<forall>p g l an. read_prefix demo_aton demo_pton6 AFI_IP ''10.0.0.0/8'' (atoi_opt 0 (Some ''16'')) (atoi_opt 0 (Some ''24'')) = Some (p, g, l, an)
      \<longrightarrow> stored_le AFI_IP g l = l"
    using rd by (auto simp: stored_le_def)
  have "list_all (\<lambda>e. seq e < 2 ^ 31 - 3) (entries (list_of ''demo'' demo_master))" by code_simp
  then have room: "if None = (None :: string option) then auto_room (list_of ''demo'' demo_master) else 0 \<le> atoi_opt (-1) None"
    by (simp add: auto_room_def list_all_iff)
  show ?thesis
    using prefix_list_install_uninstall [OF demo_master_ok demo_inet_ok m1 room le] unfolding m1 by auto
qed

text \<open>the commands are not inverse to each other when a lower bound comes with the longest length as the upper bound:
  adding the entry to a new list stores no upper bound, and removing it with the same words finds nothing and is refused, so the
  entry stays.\<close>

theorem prefix_list_uninstall_refused:
  assumes m: "master_ok m" and io: "inet_ok inet_aton inet_pton6" and new: "name_lookup pl_name name m = None"
    and ins: "vty_prefix_list_install inet_aton inet_pton6 afi name sq ts ps gs ls m = Some (CMD_SUCCESS, m1)"
    and le: "\<forall>p g l an. read_prefix inet_aton inet_pton6 afi ps (atoi_opt 0 gs) (atoi_opt 0 ls) = Some (p, g, l, an) \<longrightarrow>
      g \<noteq> 0 \<and> l = (if afi = AFI_IP then 32 else 128)"
  shows "vty_prefix_list_uninstall inet_aton inet_pton6 afi name sq (Some ts) (Some ps) gs ls m1 = Some (CMD_WARNING, m1)"
proof (rule install_cases [OF io, of afi name sq ts ps gs ls m])
  let ?l = "list_of name m"
  fix ty p g l an e
  assume a: "vty_prefix_list_install inet_aton inet_pton6 afi name sq ts ps gs ls m =
      Some (CMD_SUCCESS, prefix_list_entry_add (fst (prefix_list_get name m)) e (snd (prefix_list_get name m)))"
    and w: "str2prefix_type ts = Some ty" "read_prefix inet_aton inet_pton6 afi ps (atoi_opt 0 gs) (atoi_opt 0 ls) = Some (p, g, l, an)"
    and e: "le e = stored_le afi g l"
  have mi: "name_inv pl_name m" and ok: "plist_ok ?l" using m list_ok_list_of [OF m, of name] by (auto simp: master_ok_def list_ok_def)
  have m1: "name_lookup pl_name name m1 = Some (entry_insert ?l e)"
    using prefix_list_get_add_law [OF mi, of name e name] a ins by simp
  have "entries ?l = []" using new by (simp add: list_of_def prefix_list_new_def)
  then have "set (entries (entry_insert ?l e)) \<subseteq> {numbered ?l e}" using entry_insert_ok(3) [OF ok, of e] by simp
  moreover have "le (numbered ?l e) \<noteq> l" using e le [rule_format, OF w(2)] by (auto simp: numbered_def stored_le_def)
  ultimately have "prefix_list_entry_lookup (entry_insert ?l e) p ty (atoi_opt (-1) sq) l g = None"
    unfolding prefix_list_entry_lookup_def entry_find_None by blast
  then show ?thesis using uninstall_words [OF m1 w, of sq] by simp
qed (use ins in simp_all)

theorem prefix_list_uninstall_refused_witness:
  "\<exists>m1. vty_prefix_list_install demo_aton demo_pton6 AFI_IP ''x'' None ''permit'' ''10.0.0.0/8'' (Some ''16'') (Some ''32'') demo_master =
      Some (CMD_SUCCESS, m1) \<and>
    vty_prefix_list_uninstall demo_aton demo_pton6 AFI_IP ''x'' None (Some ''permit'') (Some ''10.0.0.0/8'') (Some ''16'') (Some ''32'') m1 =
      Some (CMD_WARNING, m1)"
proof -
  obtain m1 where m1: "vty_prefix_list_install demo_aton demo_pton6 AFI_IP ''x'' None ''permit'' ''10.0.0.0/8'' (Some ''16'') (Some ''32'') demo_master
      = Some (CMD_SUCCESS, m1)"
  proof -
    have "map_option fst (vty_prefix_list_install demo_aton demo_pton6 AFI_IP ''x'' None ''permit'' ''10.0.0.0/8'' (Some ''16'') (Some ''32'') demo_master)
      = Some CMD_SUCCESS" by code_simp
    then show ?thesis using that by (auto simp: map_option_case split: option.splits)
  qed
  have rd: "map_option (\<lambda>(p, g, l, an). (g, l)) (read_prefix demo_aton demo_pton6 AFI_IP ''10.0.0.0/8'' (atoi_opt 0 (Some ''16'')) (atoi_opt 0 (Some ''32''))) =
    Some (16, 32)" by code_simp
  have new: "name_lookup pl_name ''x'' demo_master = None" by code_simp
  have le: "\<forall>p g l an. read_prefix demo_aton demo_pton6 AFI_IP ''10.0.0.0/8'' (atoi_opt 0 (Some ''16'')) (atoi_opt 0 (Some ''32'')) = Some (p, g, l, an)
      \<longrightarrow> g \<noteq> 0 \<and> l = (if AFI_IP = AFI_IP then 32 else 128)"
    using rd by auto
  show ?thesis
    using prefix_list_uninstall_refused [OF demo_master_ok demo_inet_ok new m1 le] m1 by blast
qed

text \<open>C32: every operation on prefix lists keeps the directory well typed: the two lists of names sorted and without duplicates,
  every list strictly sorted with an exact count, and every entry with a number that fits an \<open>int\<close>, a proper prefix and bounds that satisfy
  \<open>prefix length < ge \<le> le\<close> where they are set.  This holds for the commands with any words and for the entries a peer
  sends with any numbers but with a prefix whose length fits its family, whether they succeed or are refused.  The length a peer sends is not checked by the
  receiver, so the last condition is one on the peer.\<close>

theorem prefix_list_commands_typed:
  assumes m: "master_ok m" and io: "inet_ok inet_aton inet_pton6" and wf: "prefix_wf (orf_p orfp)"
  shows "(\<exists>r m'. vty_prefix_list_install inet_aton inet_pton6 afi name sq t p gs ls m = Some (r, m') \<and> master_ok m') \<and>
    (case vty_prefix_list_uninstall inet_aton inet_pton6 afi name sq ts ps gs ls m of
       None \<Rightarrow> ts = None \<or> ps = None | Some (r, m') \<Rightarrow> master_ok m') \<and>
    master_ok (snd (vty_prefix_list_desc_unset name m)) \<and>
    (\<exists>r m'. prefix_bgp_orf_set name afi orfp permit set_it m = Some (r, m') \<and> master_ok m') \<and>
    master_ok (prefix_bgp_orf_remove_all name m)"
proof (intro conjI)
  show "\<exists>r m'. vty_prefix_list_install inet_aton inet_pton6 afi name sq t p gs ls m = Some (r, m') \<and> master_ok m'"
    by (rule install_cases [OF io, of afi name sq t p gs ls m]) (simp_all add: m master_ok_get master_ok_get_add)
  show "case vty_prefix_list_uninstall inet_aton inet_pton6 afi name sq ts ps gs ls m of
        None \<Rightarrow> ts = None \<or> ps = None | Some (r, m') \<Rightarrow> master_ok m'"
    by (rule uninstall_cases [of inet_aton inet_pton6 afi name sq ts ps gs ls m])
      (simp_all add: m master_ok_delete master_ok_entry_delete)
  show "master_ok (prefix_bgp_orf_remove_all name m)"
    by (simp add: prefix_bgp_orf_remove_all_def m master_ok_delete split: option.split)
qed (rule desc_unset_ok [OF m], rule orf_set_ok [OF m wf])

theorem prefix_list_commands_typed_witness:
  "(\<exists>r m'. vty_prefix_list_install demo_aton demo_pton6 AFI_IP ''7'' None ''deny'' ''any'' None None demo_master = Some (r, m') \<and> master_ok m') \<and>
   (\<exists>r m'. prefix_bgp_orf_set ''7'' AFI_IP \<lparr>orf_seq = 0xFFFFFFFF, orf_ge = 24, orf_le = 32, orf_p = net10\<rparr> True True demo_master = Some (r, m') \<and> master_ok m')"
proof -
  have wf: "prefix_wf (orf_p \<lparr>orf_seq = 0xFFFFFFFF, orf_ge = 24, orf_le = 32, orf_p = net10\<rparr>)" using net10_wf by simp
  show ?thesis using prefix_list_commands_typed [OF demo_master_ok demo_inet_ok wf] by blast
qed

end
