(* ===== verification/Lib_Filter.thy ===== *)
theory Lib_Filter
  imports Lib_Plist Lib_Hash
begin

text \<open>
  The access lists of \<open>lib/filter.c\<close> (the directory of lists by name, the two kinds of filters, matching, the commands
  that add and remove filters) and the distribute lists of \<open>lib/distribute.c\<close> that name the access and prefix lists of an
  interface.  A linked list is the list of its elements and a pointer to a list is its name, as in \<open>Lib_Plist\<close>.  An address
  is its four bytes.  \<open>inet_aton\<close>, \<open>inet_pton\<close> and the layout of the union of the two kinds of filters are parameters.
\<close>

section \<open>Access lists\<close>

subsection \<open>Filters\<close>

datatype filter_type = FILTER_DENY | FILTER_PERMIT | FILTER_DYNAMIC

record filter_cisco =
  extended :: bool
  fc_addr :: "u8 list"
  addr_mask :: "u8 list"
  fc_mask :: "u8 list"
  mask_mask :: "u8 list"

record filter_zebra =
  exact :: bool
  fz_prefix :: prefix

datatype filter_union = Cfilter filter_cisco | Zfilter filter_zebra

record filter_t =
  ftype :: filter_type
  cisco :: bool
  fu :: filter_union

text \<open>The union: what a structure reads as when it was written as the other one depends on the compiler.\<close>

record union_layout =
  as_cisco :: "filter_zebra \<Rightarrow> filter_cisco"
  as_zebra :: "filter_cisco \<Rightarrow> filter_zebra"

definition cfilter :: "union_layout \<Rightarrow> filter_t \<Rightarrow> filter_cisco" where
  "cfilter lay f = (case fu f of Cfilter c \<Rightarrow> c | Zfilter z \<Rightarrow> as_cisco lay z)"

definition zfilter :: "union_layout \<Rightarrow> filter_t \<Rightarrow> filter_zebra" where
  "zfilter lay f = (case fu f of Zfilter z \<Rightarrow> z | Cfilter c \<Rightarrow> as_zebra lay c)"

record access_list =
  al_name :: string
  remark :: "string option"
  filters :: "filter_t list"

text \<open>A call of the hook after a deletion may get a list that was freed.\<close>

datatype access_hook = Access_added string | Access_deleted string | Access_freed string

record access_master = "access_list name_master" +
  acc_add_hook :: bool
  acc_delete_hook :: bool
  acc_hooks :: "access_hook list"

text \<open>\<open>a & ~m\<close> on four bytes.\<close>

definition and_not :: "u8 list \<Rightarrow> u8 list \<Rightarrow> u8 list" where
  "and_not a m = map2 (\<lambda>x y. x AND NOT y) a m"

definition filter_match_cisco :: "union_layout \<Rightarrow> filter_t \<Rightarrow> prefix \<Rightarrow> bool option" where
  "filter_match_cisco lay mfilter p =
     (let flt = cfilter lay mfilter; check_addr = and_not (take 4 (u_prefix p)) (addr_mask flt) in
      if extended flt
      then do {
        mk \<leftarrow> masklen2ip (plen p);
        let check_mask = and_not mk (mask_mask flt);
        Some (check_addr = fc_addr flt \<and> check_mask = fc_mask flt)
      }
      else Some (check_addr = fc_addr flt))"

definition filter_match_zebra :: "union_layout \<Rightarrow> filter_t \<Rightarrow> prefix \<Rightarrow> bool" where
  "filter_match_zebra lay mfilter p =
     (let flt = zfilter lay mfilter in
      if family (fz_prefix flt) = family p
      then (if exact flt
            then (if prefixlen (fz_prefix flt) = prefixlen p then prefix_match (fz_prefix flt) p else False)
            else prefix_match (fz_prefix flt) p)
      else False)"

definition filter_match :: "union_layout \<Rightarrow> filter_t \<Rightarrow> prefix \<Rightarrow> bool option" where
  "filter_match lay f p = (if cisco f then filter_match_cisco lay f p else Some (filter_match_zebra lay f p))"

fun access_loop :: "union_layout \<Rightarrow> filter_t list \<Rightarrow> prefix \<Rightarrow> filter_type option" where
  "access_loop lay [] p = Some FILTER_DENY"
| "access_loop lay (f # fs) p = do {
     b \<leftarrow> filter_match lay f p;
     if b then Some (ftype f) else access_loop lay fs p
   }"

definition access_list_apply :: "union_layout \<Rightarrow> access_list option \<Rightarrow> prefix \<Rightarrow> filter_type option" where
  "access_list_apply lay acc p = (case acc of None \<Rightarrow> Some FILTER_DENY | Some l \<Rightarrow> access_loop lay (filters l) p)"

subsection \<open>The directory\<close>

definition access_list_new :: access_list where
  "access_list_new = \<lparr>al_name = [], remark = None, filters = []\<rparr>"

definition access_list_lookup :: "string option \<Rightarrow> access_master \<Rightarrow> access_list option" where
  "access_list_lookup name m = (case name of None \<Rightarrow> None | Some n \<Rightarrow> name_lookup al_name n m)"

definition access_list_insert :: "string \<Rightarrow> access_master \<Rightarrow> access_list \<times> access_master" where
  "access_list_insert name m = (let acc = access_list_new\<lparr>al_name := name\<rparr> in (acc, name_insert al_name acc m))"

definition access_list_get :: "string \<Rightarrow> access_master \<Rightarrow> access_list \<times> access_master" where
  "access_list_get name m =
     (case access_list_lookup (Some name) m of
        Some acc \<Rightarrow> (acc, m)
      | None \<Rightarrow> access_list_insert name m)"

definition access_list_delete :: "access_list \<Rightarrow> access_master \<Rightarrow> access_master" where
  "access_list_delete acc m = name_unlink al_name (al_name acc) m"

definition access_list_filter_add :: "access_list \<Rightarrow> filter_t \<Rightarrow> access_master \<Rightarrow> access_master" where
  "access_list_filter_add acc f m =
     (let m = name_put al_name (acc\<lparr>filters := filters acc @ [f]\<rparr>) m in
      if acc_add_hook m then m\<lparr>acc_hooks := acc_hooks m @ [Access_added (al_name acc)]\<rparr> else m)"

definition access_list_empty :: "access_list \<Rightarrow> bool" where
  "access_list_empty acc \<longleftrightarrow> filters acc = []"

text \<open>A list whose last filter goes is deleted, whatever its remark; the hook then gets the freed list.\<close>

definition access_list_filter_delete :: "access_list \<Rightarrow> nat \<Rightarrow> access_master \<Rightarrow> access_master" where
  "access_list_filter_delete acc i m =
     (let acc = acc\<lparr>filters := take i (filters acc) @ drop (i + 1) (filters acc)\<rparr>;
          m = name_put al_name acc m;
          m' = (if access_list_empty acc then access_list_delete acc m else m)
      in if acc_delete_hook m'
         then m'\<lparr>acc_hooks := acc_hooks m' @ [if access_list_empty acc then Access_freed (al_name acc) else Access_deleted (al_name acc)]\<rparr>
         else m')"

definition filter_find :: "(filter_t \<Rightarrow> bool) \<Rightarrow> access_list \<Rightarrow> nat option" where
  "filter_find P acc = find (\<lambda>i. P (filters acc ! i)) [0..<length (filters acc)]"

definition filter_lookup_cisco :: "union_layout \<Rightarrow> access_list \<Rightarrow> filter_t \<Rightarrow> nat option" where
  "filter_lookup_cisco lay acc mnew =
     (let new = cfilter lay mnew in
      filter_find (\<lambda>mfilter. let flt = cfilter lay mfilter in
        if extended flt
        then ftype mfilter = ftype mnew \<and> fc_addr flt = fc_addr new \<and> addr_mask flt = addr_mask new
           \<and> fc_mask flt = fc_mask new \<and> mask_mask flt = mask_mask new
        else ftype mfilter = ftype mnew \<and> fc_addr flt = fc_addr new \<and> addr_mask flt = addr_mask new) acc)"

definition filter_lookup_zebra :: "union_layout \<Rightarrow> access_list \<Rightarrow> filter_t \<Rightarrow> nat option" where
  "filter_lookup_zebra lay acc mnew =
     (let new = zfilter lay mnew in
      filter_find (\<lambda>mfilter. let flt = zfilter lay mfilter in
        exact flt = exact new \<and> ftype mfilter = ftype mnew \<and> prefix_same (fz_prefix flt) (fz_prefix new)) acc)"

subsection \<open>Commands\<close>

definition vty_access_list_remark_unset :: "string \<Rightarrow> access_master \<Rightarrow> cmd_result \<times> access_master" where
  "vty_access_list_remark_unset name m =
     (case access_list_lookup (Some name) m of
        None \<Rightarrow> (CMD_WARNING, m)
      | Some acc \<Rightarrow>
          let acc = acc\<lparr>remark := None\<rparr>; m = name_put al_name acc m in
          (CMD_SUCCESS, if filters acc = [] then access_list_delete acc m else m))"

text \<open>The words of the remark, a blank after each.\<close>

definition access_list_remark :: "string \<Rightarrow> string list \<Rightarrow> access_master \<Rightarrow> cmd_result \<times> access_master" where
  "access_list_remark name words m =
     (let (acc, m) = access_list_get name m in
      (CMD_SUCCESS, name_put al_name (acc\<lparr>remark := Some (concat (map (\<lambda>w. w @ '' '') words))\<rparr>) m))"

definition filter_type_of :: "string \<Rightarrow> filter_type option" where
  "filter_type_of type_str =
     (if take 1 type_str = ''p'' then Some FILTER_PERMIT
      else if take 1 type_str = ''d'' then Some FILTER_DENY else None)"

text \<open>The last part of both commands: enter the filter, or remove it.\<close>

definition filter_install :: "(access_list \<Rightarrow> filter_t \<Rightarrow> nat option) \<Rightarrow> string \<Rightarrow> filter_t \<Rightarrow> bool \<Rightarrow> access_master \<Rightarrow> cmd_result \<times> access_master" where
  "filter_install lookup name f set_it m =
     (let (acc, m) = access_list_get name m in
      (CMD_SUCCESS,
       if set_it then (if lookup acc f \<noteq> None then m else access_list_filter_add acc f m)
       else (case lookup acc f of Some i \<Rightarrow> access_list_filter_delete acc i m | None \<Rightarrow> m)))"

text \<open>The words for the masks are there when the filter is extended.\<close>

definition filter_set_cisco ::
  "(string \<Rightarrow> u8 list option) \<Rightarrow> union_layout \<Rightarrow> string \<Rightarrow> string \<Rightarrow> string \<Rightarrow> string \<Rightarrow> string \<Rightarrow> string \<Rightarrow> bool \<Rightarrow> bool
     \<Rightarrow> access_master \<Rightarrow> cmd_result \<times> access_master" where
  "filter_set_cisco inet_aton lay name_str type_str addr_str addr_mask_str mask_str mask_mask_str ext set_it m =
     (case filter_type_of type_str of None \<Rightarrow> (CMD_WARNING, m) | Some ty \<Rightarrow>
     (case inet_aton addr_str of None \<Rightarrow> (CMD_WARNING, m) | Some addr \<Rightarrow>
     (case inet_aton addr_mask_str of None \<Rightarrow> (CMD_WARNING, m) | Some amask \<Rightarrow>
      if ext
      then (case inet_aton mask_str of None \<Rightarrow> (CMD_WARNING, m) | Some mk \<Rightarrow>
           (case inet_aton mask_mask_str of None \<Rightarrow> (CMD_WARNING, m) | Some mmask \<Rightarrow>
              filter_install (filter_lookup_cisco lay) name_str
                \<lparr>ftype = ty, cisco = True, fu = Cfilter \<lparr>extended = True, fc_addr = and_not addr amask, addr_mask = amask,
                   fc_mask = and_not mk mmask, mask_mask = mmask\<rparr>\<rparr> set_it m))
      else filter_install (filter_lookup_cisco lay) name_str
             \<lparr>ftype = ty, cisco = True, fu = Cfilter \<lparr>extended = False, fc_addr = and_not addr amask, addr_mask = amask,
                fc_mask = replicate 4 0, mask_mask = replicate 4 0\<rparr>\<rparr> set_it m)))"

text \<open>The prefix is on the stack; the parser sets what it reads.  \<open>prefix_copy\<close> fails for no prefix it gives.\<close>

definition filter_set_zebra ::
  "(string \<Rightarrow> u8 list option) \<Rightarrow> (string \<Rightarrow> u8 list option) \<Rightarrow> union_layout \<Rightarrow> prefix \<Rightarrow> string \<Rightarrow> string \<Rightarrow> int \<Rightarrow> string \<Rightarrow> bool \<Rightarrow> bool
     \<Rightarrow> access_master \<Rightarrow> (cmd_result \<times> access_master) option" where
  "filter_set_zebra inet_aton inet_pton6 lay p0 name_str type_str afi prefix_str ex set_it m =
     (case filter_type_of type_str of None \<Rightarrow> Some (CMD_WARNING, m) | Some ty \<Rightarrow>
      let (ret, p) = (if afi = AFI_IP then str2prefix_ipv4 inet_aton prefix_str p0
                      else if afi = AFI_IP6 then str2prefix_ipv6 inet_pton6 prefix_str p0 else (0, p0)) in
      if ret \<le> 0 then Some (CMD_WARNING, m)
      else do {
        q \<leftarrow> prefix_copy prefix_new p;
        Some (filter_install (filter_lookup_zebra lay) name_str
          \<lparr>ftype = ty, cisco = False, fu = Zfilter \<lparr>exact = ex, fz_prefix = q\<rparr>\<rparr> set_it m)
      })"

text \<open>\<open>access_list_reset_ipv4\<close> and \<open>access_list_reset_ipv6\<close>: every list is deleted.\<close>

definition access_list_reset :: "access_master \<Rightarrow> access_master" where
  "access_list_reset m = (let m = fold access_list_delete (nm_num m) m in fold access_list_delete (nm_str m) m)"

section \<open>Distribute lists\<close>

datatype distribute_type = DISTRIBUTE_IN | DISTRIBUTE_OUT

record distribute =
  d_ifname :: "string option"
  d_list_in :: "string option"
  d_list_out :: "string option"
  d_prefix_in :: "string option"
  d_prefix_out :: "string option"

definition d_list :: "distribute_type \<Rightarrow> distribute \<Rightarrow> string option" where
  "d_list ty d = (case ty of DISTRIBUTE_IN \<Rightarrow> d_list_in d | DISTRIBUTE_OUT \<Rightarrow> d_list_out d)"

definition set_d_list :: "distribute_type \<Rightarrow> string option \<Rightarrow> distribute \<Rightarrow> distribute" where
  "set_d_list ty v d = (case ty of DISTRIBUTE_IN \<Rightarrow> d\<lparr>d_list_in := v\<rparr> | DISTRIBUTE_OUT \<Rightarrow> d\<lparr>d_list_out := v\<rparr>)"

definition d_prefix :: "distribute_type \<Rightarrow> distribute \<Rightarrow> string option" where
  "d_prefix ty d = (case ty of DISTRIBUTE_IN \<Rightarrow> d_prefix_in d | DISTRIBUTE_OUT \<Rightarrow> d_prefix_out d)"

definition set_d_prefix :: "distribute_type \<Rightarrow> string option \<Rightarrow> distribute \<Rightarrow> distribute" where
  "set_d_prefix ty v d = (case ty of DISTRIBUTE_IN \<Rightarrow> d\<lparr>d_prefix_in := v\<rparr> | DISTRIBUTE_OUT \<Rightarrow> d\<lparr>d_prefix_out := v\<rparr>)"

definition distribute_new :: distribute where
  "distribute_new = \<lparr>d_ifname = None, d_list_in = None, d_list_out = None, d_prefix_in = None, d_prefix_out = None\<rparr>"

text \<open>Characters are signed; \<open>of_char\<close> of an ASCII name is the value that is added.\<close>

definition distribute_hash_make :: "distribute \<Rightarrow> u32" where
  "distribute_hash_make d = (case d_ifname d of None \<Rightarrow> 0 | Some s \<Rightarrow> sum_list (map (\<lambda>c. scast (of_char c :: u8)) s))"

definition distribute_cmp :: "distribute \<Rightarrow> distribute \<Rightarrow> bool" where
  "distribute_cmp d1 d2 =
     (case (d_ifname d1, d_ifname d2) of
        (Some a, Some b) \<Rightarrow> a = b
      | (None, None) \<Rightarrow> True
      | _ \<Rightarrow> False)"

definition distribute_hash_alloc :: "distribute \<Rightarrow> distribute option" where
  "distribute_hash_alloc arg = Some (distribute_new\<lparr>d_ifname := d_ifname arg\<rparr>)"

definition dist_key :: "string option \<Rightarrow> distribute" where
  "dist_key nam = distribute_new\<lparr>d_ifname := nam\<rparr>"

definition distribute_lookup :: "distribute hash_t \<Rightarrow> string option \<Rightarrow> distribute option option" where
  "distribute_lookup h nam = hash_lookup distribute_hash_make distribute_cmp h (dist_key nam)"

definition distribute_get :: "distribute hash_t \<Rightarrow> string option \<Rightarrow> (distribute option \<times> distribute hash_t) option" where
  "distribute_get h nam = hash_get distribute_hash_make distribute_cmp h (dist_key nam) (Some distribute_hash_alloc)"

text \<open>Writing through the pointer a lookup returned: the entry is the one that compares equal.\<close>

definition dist_put :: "distribute hash_t \<Rightarrow> distribute \<Rightarrow> distribute hash_t" where
  "dist_put h d = h\<lparr>hindex := map (map (\<lambda>b. if distribute_cmp (bdata b) d then b\<lparr>bdata := d\<rparr> else b)) (hindex h)\<rparr>"

text \<open>The functions return the list the hook is called with, and the table.\<close>

definition distribute_list_set :: "distribute hash_t \<Rightarrow> string option \<Rightarrow> distribute_type \<Rightarrow> string \<Rightarrow> (distribute \<times> distribute hash_t) option" where
  "distribute_list_set h nam ty alist_name = do {
     (r, h) \<leftarrow> distribute_get h nam;
     dist \<leftarrow> r;
     let dist = set_d_list ty (Some alist_name) dist;
     Some (dist, dist_put h dist)
   }"

definition distribute_list_prefix_set :: "distribute hash_t \<Rightarrow> string option \<Rightarrow> distribute_type \<Rightarrow> string \<Rightarrow> (distribute \<times> distribute hash_t) option" where
  "distribute_list_prefix_set h nam ty plist_name = do {
     (r, h) \<leftarrow> distribute_get h nam;
     dist \<leftarrow> r;
     let dist = set_d_prefix ty (Some plist_name) dist;
     Some (dist, dist_put h dist)
   }"

definition dist_unused :: "distribute \<Rightarrow> bool" where
  "dist_unused d \<longleftrightarrow> d_list_in d = None \<and> d_list_out d = None \<and> d_prefix_in d = None \<and> d_prefix_out d = None"

definition dist_release :: "distribute hash_t \<Rightarrow> distribute \<Rightarrow> distribute hash_t option" where
  "dist_release h dist =
     (if dist_unused dist then map_option snd (hash_release distribute_hash_make distribute_cmp h dist) else Some h)"

text \<open>The list the hook is called with, when there was one to unset (result 1).\<close>

definition distribute_list_unset :: "distribute hash_t \<Rightarrow> string option \<Rightarrow> distribute_type \<Rightarrow> string \<Rightarrow> (distribute option \<times> distribute hash_t) option" where
  "distribute_list_unset h nam ty alist_name = do {
     r \<leftarrow> distribute_lookup h nam;
     case r of
       None \<Rightarrow> Some (None, h)
     | Some dist \<Rightarrow>
         if d_list ty dist \<noteq> Some alist_name then Some (None, h)
         else do {
           let dist = set_d_list ty None dist;
           h \<leftarrow> dist_release (dist_put h dist) dist;
           Some (Some dist, h)
         }
   }"

definition distribute_list_prefix_unset :: "distribute hash_t \<Rightarrow> string option \<Rightarrow> distribute_type \<Rightarrow> string \<Rightarrow> (distribute option \<times> distribute hash_t) option" where
  "distribute_list_prefix_unset h nam ty plist_name = do {
     r \<leftarrow> distribute_lookup h nam;
     case r of
       None \<Rightarrow> Some (None, h)
     | Some dist \<Rightarrow>
         if d_prefix ty dist \<noteq> Some plist_name then Some (None, h)
         else do {
           let dist = set_d_prefix ty None dist;
           h \<leftarrow> dist_release (dist_put h dist) dist;
           Some (Some dist, h)
         }
   }"


section \<open>What a filter matches\<close>

text \<open>An address filter compares the bits its wildcard mask leaves; an extended one compares the bits of the network mask in
  the same way.  A prefix filter matches the prefixes inside its own.\<close>

definition filter_says :: "filter_t \<Rightarrow> prefix \<Rightarrow> bool" where
  "filter_says f p \<longleftrightarrow>
     (case fu f of
        Cfilter c \<Rightarrow> (\<forall>i<32. \<not> addr_bit (addr_mask c) i \<longrightarrow> addr_bit (u_prefix p) i = addr_bit (fc_addr c) i)
          \<and> (extended c \<longrightarrow> (\<forall>i<32. \<not> addr_bit (mask_mask c) i \<longrightarrow> (i < plen p) = addr_bit (fc_mask c) i))
      | Zfilter z \<Rightarrow> family (fz_prefix z) = family p \<and> Sublist.prefix (pfx_bits (fz_prefix z)) (pfx_bits p)
          \<and> (exact z \<longrightarrow> prefixlen (fz_prefix z) = prefixlen p))"

text \<open>A filter as the commands make it: the bits under the wildcard mask are clear.\<close>

definition filter_ok :: "filter_t \<Rightarrow> bool" where
  "filter_ok f \<longleftrightarrow>
     (case fu f of
        Cfilter c \<Rightarrow> cisco f \<and> length (fc_addr c) = 4 \<and> length (addr_mask c) = 4 \<and> and_not (fc_addr c) (addr_mask c) = fc_addr c
          \<and> length (fc_mask c) = 4 \<and> length (mask_mask c) = 4 \<and> and_not (fc_mask c) (mask_mask c) = fc_mask c
      | Zfilter z \<Rightarrow> \<not> cisco f \<and> prefix_wf (fz_prefix z))"

lemma length_and_not [simp]: "length (and_not a m) = min (length a) (length m)"
  by (simp add: and_not_def)

lemma and_not_idem: "and_not (and_not a m) m = and_not a m"
  by (rule nth_equalityI) (auto simp: and_not_def and.assoc)

lemma addr_bit_and_not:
  "i < 8 * length a \<Longrightarrow> length m = length a \<Longrightarrow> addr_bit (and_not a m) i \<longleftrightarrow> addr_bit a i \<and> \<not> addr_bit m i"
  by (auto simp: addr_bit_def and_not_def byte_at_def bit_and_iff bit_not_iff)

lemma bytes_eqI: "length a = length b \<Longrightarrow> \<forall>i<8 * length a. addr_bit a i = addr_bit b i \<Longrightarrow> a = b"
  using take_eq_addr_bits [of "length a" a b] by simp

lemma and_not_eq_iff:
  assumes "length a = 4" "length m = 4" "length b = 4" "and_not b m = b"
  shows "and_not a m = b \<longleftrightarrow> (\<forall>i<32. \<not> addr_bit m i \<longrightarrow> addr_bit a i = addr_bit b i)"
proof -
  have b: "addr_bit b i \<longrightarrow> \<not> addr_bit m i" if "i < 32" for i
    using addr_bit_and_not [of i b m] assms that by auto
  have "and_not a m = b \<longleftrightarrow> (\<forall>i<32. addr_bit (and_not a m) i = addr_bit b i)"
    using bytes_eqI [of "and_not a m" b] assms by auto
  then show ?thesis using b assms by (auto simp: addr_bit_and_not)
qed

lemma addr_bit_take: "i < 32 \<Longrightarrow> addr_bit (take 4 m) i = addr_bit m i"
  by (auto simp: addr_bit_def byte_at_def)

lemma masklen2ip_bits:
  assumes "n \<le> 32"
  obtains m where "masklen2ip n = Some m" "length m = 4" "\<forall>i<32. addr_bit m i = (i < n)"
proof -
  obtain m where m: "masklen2bytes 4 n = Some m" "length m = 4"
    "\<And>k. k < 4 \<Longrightarrow> byte_at m k = (if k < n div 8 then 0xff else if k = n div 8 then maskbit ! (n mod 8) else 0)"
    using byte_at_masklen2bytes [of n 4] assms by auto
  have "addr_bit m i = (i < n)" if "i < 32" for i
  proof -
    have k: "i div 8 < 4" using that by simp
    consider "i div 8 < n div 8" | "i div 8 = n div 8" | "n div 8 < i div 8" by linarith
    then show ?thesis
    proof cases
      case 1
      have "bit (0xff :: u8) (7 - i mod 8)" using maskbit_bit [of 8 "7 - i mod 8"] by (simp add: maskbit_def)
      then show ?thesis using 1 m(3) [OF k] by (simp add: addr_bit_def)
    next
      case 2
      have d: "i = 8 * (n div 8) + i mod 8" "n = 8 * (n div 8) + n mod 8" using 2 by (metis mult_div_mod_eq)+
      have "bit (maskbit ! (n mod 8)) (7 - i mod 8) \<longleftrightarrow> i mod 8 < n mod 8"
        using maskbit_bit [of "n mod 8" "7 - i mod 8"] by (simp add: less_Suc_eq_le) arith
      moreover have "i mod 8 < n mod 8 \<longleftrightarrow> i < n" using d by linarith
      ultimately show ?thesis using 2 m(3) [OF k] by (simp add: addr_bit_def)
    next
      case 3
      then show ?thesis using m(3) [OF k] by (simp add: addr_bit_def)
    qed
  qed
  then show thesis using m that [of m] by (simp add: masklen2ip_def)
qed

lemma filter_match_says:
  assumes "filter_ok f" "prefix_wf p" "cisco f \<longrightarrow> family p = AF_INET"
  shows "filter_match lay f p = Some (filter_says f p)"
proof (cases "fu f")
  case (Cfilter c)
  then have c: "cisco f" "length (fc_addr c) = 4" "length (addr_mask c) = 4" "and_not (fc_addr c) (addr_mask c) = fc_addr c"
    "length (fc_mask c) = 4" "length (mask_mask c) = 4" "and_not (fc_mask c) (mask_mask c) = fc_mask c"
    using assms(1) by (simp_all add: filter_ok_def)
  have p: "plen p \<le> 32" "16 \<le> length (u_prefix p)" using assms(2,3) c(1) by (auto simp: prefix_wf_def af_defs)
  obtain m where m: "masklen2ip (plen p) = Some m" "length m = 4" "\<forall>i<32. addr_bit m i = (i < plen p)"
    using masklen2ip_bits [OF p(1)] by blast
  have a: "and_not (take 4 (u_prefix p)) (addr_mask c) = fc_addr c \<longleftrightarrow>
      (\<forall>i<32. \<not> addr_bit (addr_mask c) i \<longrightarrow> addr_bit (u_prefix p) i = addr_bit (fc_addr c) i)"
    using and_not_eq_iff [of "take 4 (u_prefix p)" "addr_mask c" "fc_addr c"] c p by (simp add: addr_bit_take)
  have b: "and_not m (mask_mask c) = fc_mask c \<longleftrightarrow>
      (\<forall>i<32. \<not> addr_bit (mask_mask c) i \<longrightarrow> (i < plen p) = addr_bit (fc_mask c) i)"
    using and_not_eq_iff [of m "mask_mask c" "fc_mask c"] c m by auto
  show ?thesis
    using c(1) Cfilter m(1)
    by (simp add: filter_match_def filter_match_cisco_def filter_says_def cfilter_def Let_def a b)
next
  case (Zfilter z)
  then have "\<not> cisco f" using assms(1) by (simp add: filter_ok_def)
  then show ?thesis using Zfilter
    by (auto simp: filter_match_def filter_match_zebra_def filter_says_def zfilter_def Let_def prefix_match_iff)
qed

lemma access_loop_find:
  "\<forall>f\<in>set fs. filter_ok f \<and> (cisco f \<longrightarrow> family p = AF_INET) \<Longrightarrow> prefix_wf p \<Longrightarrow>
   access_loop lay fs p = Some (case find (\<lambda>f. filter_says f p) fs of None \<Rightarrow> FILTER_DENY | Some f \<Rightarrow> ftype f)"
  by (induction fs) (auto simp: filter_match_says)

section \<open>The directory under the commands\<close>

interpretation alists: directory al_name "name_inv al_name :: access_master \<Rightarrow> bool" "name_lookup al_name" "name_insert al_name"
  "name_unlink al_name" "name_put al_name"
proof
  show "name_inv al_name m \<Longrightarrow> name_lookup al_name n m = Some l \<Longrightarrow> al_name l = n" for m :: access_master and n l
    by (simp add: name_lookup_iff)
qed (simp_all add: name_insert_law name_unlink_law name_put_law)

text \<open>The list a name stands for: an empty one when there is none.\<close>

definition acc_of :: "string \<Rightarrow> access_master \<Rightarrow> access_list" where
  "acc_of n m = (case name_lookup al_name n m of Some l \<Rightarrow> l | None \<Rightarrow> access_list_new\<lparr>al_name := n\<rparr>)"

lemma acc_of_name [simp]: "name_inv al_name m \<Longrightarrow> al_name (acc_of n m) = n"
  by (auto simp: acc_of_def alists.lookup_name split: option.splits)

lemma access_master_fields [simp]:
  "name_lookup al_name n (m\<lparr>acc_hooks := x\<rparr> :: access_master) = name_lookup al_name n m"
  "name_inv al_name (m\<lparr>acc_hooks := x\<rparr> :: access_master) = name_inv al_name m"
  by (cases m, simp add: name_lookup_def name_inv_def cong: option.case_cong)+

lemma access_list_get_law:
  assumes "name_inv al_name m"
  shows "fst (access_list_get n m) = acc_of n m"
    and "name_inv al_name (snd (access_list_get n m))"
    and "name_lookup al_name k (snd (access_list_get n m)) = (if k = n then Some (acc_of n m) else name_lookup al_name k m)"
  using assms alists.ins_law [OF assms, of "access_list_new\<lparr>al_name := n\<rparr>"]
  by (auto simp: access_list_get_def access_list_lookup_def access_list_insert_def acc_of_def Let_def split: option.splits)

lemma access_list_filter_add_law:
  assumes "name_inv al_name m" "name_lookup al_name (al_name acc) m \<noteq> None"
  shows "name_inv al_name (access_list_filter_add acc f m)"
    and "name_lookup al_name k (access_list_filter_add acc f m) =
      (if k = al_name acc then Some (acc\<lparr>filters := filters acc @ [f]\<rparr>) else name_lookup al_name k m)"
  using alists.put_law [OF assms(1), of "acc\<lparr>filters := filters acc @ [f]\<rparr>"] assms(2)
  by (simp_all add: access_list_filter_add_def Let_def)

definition drop_filter :: "access_list \<Rightarrow> nat \<Rightarrow> access_list" where
  "drop_filter acc i = acc\<lparr>filters := take i (filters acc) @ drop (i + 1) (filters acc)\<rparr>"

lemma drop_filter_name [simp]: "al_name (drop_filter acc i) = al_name acc"
  by (simp add: drop_filter_def)

lemma access_list_filter_delete_law:
  assumes "name_inv al_name m" "name_lookup al_name (al_name acc) m \<noteq> None"
  shows "name_inv al_name (access_list_filter_delete acc i m)"
    and "name_lookup al_name k (access_list_filter_delete acc i m) =
      (if k = al_name acc then (if filters (drop_filter acc i) = [] then None else Some (drop_filter acc i))
       else name_lookup al_name k m)"
proof -
  let ?m = "name_put al_name (drop_filter acc i) m"
  have put: "name_inv al_name ?m" "name_lookup al_name k ?m = (if k = al_name acc then Some (drop_filter acc i) else name_lookup al_name k m)" for k
    using alists.put_law [OF assms(1), of "drop_filter acc i"] assms(2) by simp_all
  note del = alists.unlink_law [OF put(1), of "al_name acc"]
  have e: "access_list_filter_delete acc i m =
      (let m' = (if filters (drop_filter acc i) = [] then name_unlink al_name (al_name acc) ?m else ?m)
       in if acc_delete_hook m'
          then m'\<lparr>acc_hooks := acc_hooks m' @ [if filters (drop_filter acc i) = [] then Access_freed (al_name acc) else Access_deleted (al_name acc)]\<rparr>
          else m')"
    unfolding access_list_filter_delete_def drop_filter_def [symmetric] access_list_empty_def access_list_delete_def Let_def by simp
  show "name_inv al_name (access_list_filter_delete acc i m)" unfolding e Let_def using put(1) del by simp
  show "name_lookup al_name k (access_list_filter_delete acc i m) =
      (if k = al_name acc then (if filters (drop_filter acc i) = [] then None else Some (drop_filter acc i))
       else name_lookup al_name k m)"
    unfolding e Let_def using put(2) del by simp
qed

text \<open>The lists after a filter was entered or removed.\<close>

lemma filter_install_set:
  assumes "name_inv al_name m"
  shows "fst (filter_install look n f True m) = CMD_SUCCESS"
    and "name_inv al_name (snd (filter_install look n f True m))"
    and "name_lookup al_name k (snd (filter_install look n f True m)) =
      (if k = n then Some (if look (acc_of n m) f \<noteq> None then acc_of n m else (acc_of n m)\<lparr>filters := filters (acc_of n m) @ [f]\<rparr>)
       else name_lookup al_name k m)"
proof -
  obtain m1 where g: "access_list_get n m = (acc_of n m, m1)"
    using access_list_get_law(1) [OF assms, of n] by (cases "access_list_get n m") simp
  have i: "name_inv al_name m1" using access_list_get_law(2) [OF assms, of n] g by simp
  have l: "name_lookup al_name k m1 = (if k = n then Some (acc_of n m) else name_lookup al_name k m)" for k
    using access_list_get_law(3) [OF assms, of k n] g by simp
  have o: "name_lookup al_name (al_name (acc_of n m)) m1 \<noteq> None" using l assms by simp
  note a = access_list_filter_add_law [OF i o, where f = f]
  show "fst (filter_install look n f True m) = CMD_SUCCESS" by (simp add: filter_install_def g)
  show "name_inv al_name (snd (filter_install look n f True m))" using a(1) i by (simp add: filter_install_def g)
  show "name_lookup al_name k (snd (filter_install look n f True m)) =
      (if k = n then Some (if look (acc_of n m) f \<noteq> None then acc_of n m else (acc_of n m)\<lparr>filters := filters (acc_of n m) @ [f]\<rparr>)
       else name_lookup al_name k m)"
    using a(2) l assms by (simp add: filter_install_def g)
qed

lemma filter_install_unset:
  assumes "name_inv al_name m"
  shows "fst (filter_install look n f False m) = CMD_SUCCESS"
    and "name_inv al_name (snd (filter_install look n f False m))"
    and "name_lookup al_name k (snd (filter_install look n f False m)) =
      (if k = n
       then (case look (acc_of n m) f of
               None \<Rightarrow> Some (acc_of n m)
             | Some i \<Rightarrow> if filters (drop_filter (acc_of n m) i) = [] then None else Some (drop_filter (acc_of n m) i))
       else name_lookup al_name k m)"
proof -
  obtain m1 where g: "access_list_get n m = (acc_of n m, m1)"
    using access_list_get_law(1) [OF assms, of n] by (cases "access_list_get n m") simp
  have i: "name_inv al_name m1" using access_list_get_law(2) [OF assms, of n] g by simp
  have l: "name_lookup al_name k m1 = (if k = n then Some (acc_of n m) else name_lookup al_name k m)" for k
    using access_list_get_law(3) [OF assms, of k n] g by simp
  have o: "name_lookup al_name (al_name (acc_of n m)) m1 \<noteq> None" using l assms by simp
  note d = access_list_filter_delete_law [OF i o]
  show "fst (filter_install look n f False m) = CMD_SUCCESS" by (simp add: filter_install_def g)
  show "name_inv al_name (snd (filter_install look n f False m))"
    using d(1) i by (simp add: filter_install_def g split: option.split)
  show "name_lookup al_name k (snd (filter_install look n f False m)) =
      (if k = n
       then (case look (acc_of n m) f of
               None \<Rightarrow> Some (acc_of n m)
             | Some i \<Rightarrow> if filters (drop_filter (acc_of n m) i) = [] then None else Some (drop_filter (acc_of n m) i))
       else name_lookup al_name k m)"
    using d(2) l assms by (simp add: filter_install_def g split: option.split)
qed


text \<open>Every filter of the directory is one the commands make.\<close>

definition acc_ok :: "access_master \<Rightarrow> bool" where
  "acc_ok m \<longleftrightarrow> name_inv al_name m \<and> (\<forall>n l. name_lookup al_name n m = Some l \<longrightarrow> (\<forall>f\<in>set (filters l). filter_ok f))"

lemma acc_of_ok: "acc_ok m \<Longrightarrow> f \<in> set (filters (acc_of n m)) \<Longrightarrow> filter_ok f"
  by (auto simp: acc_ok_def acc_of_def access_list_new_def split: option.splits)

lemma acc_ok_install:
  assumes "acc_ok m" "filter_ok f"
  shows "acc_ok (snd (filter_install look n f b m))"
proof -
  have i: "name_inv al_name m" using assms(1) by (simp add: acc_ok_def)
  have o: "\<forall>f\<in>set (filters (acc_of n m)). filter_ok f" using acc_of_ok [OF assms(1)] by blast
  then have d: "\<forall>f\<in>set (filters (drop_filter (acc_of n m) j)). filter_ok f" for j
    by (auto simp: drop_filter_def dest: in_set_takeD in_set_dropD)
  show ?thesis
  proof (cases b)
    case True
    have "\<forall>f\<in>set (filters l). filter_ok f" if "name_lookup al_name k (snd (filter_install look n f b m)) = Some l" for k l
    proof (cases "k = n")
      case False
      then show ?thesis using that assms(1) True by (auto simp: filter_install_set(3) [OF i] acc_ok_def)
    qed (use that o assms(2) True in \<open>auto simp: filter_install_set(3) [OF i] split: if_splits\<close>)
    then show ?thesis using filter_install_set(2) [OF i, of look n f] True by (auto simp: acc_ok_def)
  next
    case False
    have "\<forall>f\<in>set (filters l). filter_ok f" if "name_lookup al_name k (snd (filter_install look n f b m)) = Some l" for k l
    proof (cases "k = n")
      case other: False
      then show ?thesis using that assms(1) False by (auto simp: filter_install_unset(3) [OF i] acc_ok_def)
    qed (use that o d False in \<open>auto simp: filter_install_unset(3) [OF i] split: if_splits option.splits\<close>)
    then show ?thesis using filter_install_unset(2) [OF i, of look n f] False by (auto simp: acc_ok_def)
  qed
qed

text \<open>The filter of a command, and the command as reading its words and installing it.\<close>

definition new_cisco :: "filter_type \<Rightarrow> bool \<Rightarrow> u8 list \<Rightarrow> u8 list \<Rightarrow> u8 list \<Rightarrow> u8 list \<Rightarrow> filter_t" where
  "new_cisco ty ext a am mk mm =
     \<lparr>ftype = ty, cisco = True, fu = Cfilter \<lparr>extended = ext, fc_addr = and_not a am, addr_mask = am,
        fc_mask = (if ext then and_not mk mm else replicate 4 0), mask_mask = (if ext then mm else replicate 4 0)\<rparr>\<rparr>"

lemma and_not_zero: "and_not (replicate n 0) m = replicate (min n (length m)) 0"
  by (rule nth_equalityI) (auto simp: and_not_def)

lemma new_cisco_ok:
  "length a = 4 \<Longrightarrow> length am = 4 \<Longrightarrow> (ext \<longrightarrow> length mk = 4 \<and> length mm = 4) \<Longrightarrow> filter_ok (new_cisco ty ext a am mk mm)"
  by (simp add: filter_ok_def new_cisco_def and_not_idem and_not_zero)

text \<open>What the filter of a command matches, in terms of the words of the command.\<close>

lemma new_cisco_says:
  assumes "length a = 4" "length am = 4" "ext \<longrightarrow> length mk = 4 \<and> length mm = 4"
  shows "filter_says (new_cisco ty ext a am mk mm) p \<longleftrightarrow>
    (\<forall>i<32. \<not> addr_bit am i \<longrightarrow> addr_bit (u_prefix p) i = addr_bit a i)
    \<and> (ext \<longrightarrow> (\<forall>i<32. \<not> addr_bit mm i \<longrightarrow> (i < plen p) = addr_bit mk i))"
  using assms by (auto simp: filter_says_def new_cisco_def addr_bit_and_not)

lemma filter_set_cisco_install:
  assumes "filter_set_cisco inet_aton lay name ts as ams ms mms ext b m = (CMD_SUCCESS, m')" "inet_ok inet_aton inet_pton6"
  obtains ty a am mk mm where "filter_type_of ts = Some ty" "inet_aton as = Some a" "inet_aton ams = Some am"
    "ext \<longrightarrow> inet_aton ms = Some mk \<and> inet_aton mms = Some mm"
    "length a = 4" "length am = 4" "ext \<longrightarrow> length mk = 4 \<and> length mm = 4"
    "filter_set_cisco inet_aton lay name ts as ams ms mms ext b m =
       filter_install (filter_lookup_cisco lay) name (new_cisco ty ext a am mk mm) b m"
proof -
  obtain ty a am where w: "filter_type_of ts = Some ty" "inet_aton as = Some a" "inet_aton ams = Some am"
    using assms(1) by (auto simp: filter_set_cisco_def split: option.splits)
  obtain mk mm where e: "ext \<longrightarrow> inet_aton ms = Some mk \<and> inet_aton mms = Some mm"
    using assms(1) w by (auto simp: filter_set_cisco_def split: option.splits if_splits)
  have len: "length a = 4" "length am = 4" "ext \<longrightarrow> length mk = 4 \<and> length mm = 4"
    using w e assms(2) by (auto simp: inet_ok_def)
  show thesis using that [OF w e len] w e by (cases ext) (simp_all add: filter_set_cisco_def new_cisco_def)
qed

lemma find_append: "find P (xs @ ys) = (case find P xs of None \<Rightarrow> find P ys | Some x \<Rightarrow> Some x)"
  by (induction xs) auto

lemma filter_find_Some: "filter_find P acc = Some i \<Longrightarrow> i < length (filters acc) \<and> P (filters acc ! i)"
  by (simp add: filter_find_def find_upt_Some)

lemma filter_find_None: "filter_find P acc = None \<longleftrightarrow> (\<forall>f\<in>set (filters acc). \<not> P f)"
  by (simp add: filter_find_def find_upt_None)

lemma filter_find_added:
  assumes "filter_find P acc = None" "P f"
  shows "filter_find P (acc\<lparr>filters := filters acc @ [f]\<rparr>) = Some (length (filters acc))"
proof -
  have "find (\<lambda>i. P ((filters acc @ [f]) ! i)) [0..<length (filters acc)] = None"
    using assms(1) unfolding filter_find_None find_None_iff by (auto simp: nth_append)
  then show ?thesis using assms(2) by (simp add: filter_find_def find_append)
qed

text \<open>Among filters of one kind, the search of a command finds a filter that is the same.\<close>

lemma filter_lookup_cisco_same:
  assumes "filter_lookup_cisco lay acc (new_cisco ty ext a am mk mm) = Some i"
    and "\<forall>f\<in>set (filters acc). \<exists>c. fu f = Cfilter c \<and> extended c = ext"
  shows "\<exists>f\<in>set (filters acc). ftype f = ty \<and> (\<forall>p. filter_says f p = filter_says (new_cisco ty ext a am mk mm) p)"
proof -
  let ?f = "filters acc ! i"
  have i: "i < length (filters acc)" using filter_find_Some [OF assms(1) [unfolded filter_lookup_cisco_def Let_def]] by simp
  then obtain c where c: "fu ?f = Cfilter c" "extended c = ext" using assms(2) by (meson nth_mem)
  have "ftype ?f = ty \<and> fc_addr c = and_not a am \<and> addr_mask c = am \<and> (ext \<longrightarrow> fc_mask c = and_not mk mm \<and> mask_mask c = mm)"
    using filter_find_Some [OF assms(1) [unfolded filter_lookup_cisco_def Let_def]] c
    by (auto simp: cfilter_def new_cisco_def split: if_splits)
  then have "ftype ?f = ty \<and> (\<forall>p. filter_says ?f p = filter_says (new_cisco ty ext a am mk mm) p)"
    using c by (auto simp: filter_says_def new_cisco_def)
  then show ?thesis using i by (intro bexI [of _ ?f]) auto
qed



text \<open>C34: the command \<open>access-list\<close> extends the decision of its list: the prefixes that a filter of the list already matches
  are decided as before; of the others, those that agree with the address of the command outside the wildcard bits (and, for an
  extended list, whose network mask agrees with the mask of the command outside its wildcard bits) get the type of the command, and the rest is
  denied.  Other lists stay as they are.  This holds for every layout of the union, as long as the list has filters of the same kind only.\<close>

theorem access_list_set_correct:
  assumes ok: "acc_ok m" and io: "inet_ok inet_aton inet_pton6"
    and kind: "\<forall>f\<in>set (filters (acc_of name m)). \<exists>c. fu f = Cfilter c \<and> extended c = ext"
    and cmd: "filter_set_cisco inet_aton lay name ts as ams ms mms ext True m = (CMD_SUCCESS, m')"
  shows "\<exists>ty a am mk mm. filter_type_of ts = Some ty \<and> inet_aton as = Some a \<and> inet_aton ams = Some am
    \<and> (ext \<longrightarrow> inet_aton ms = Some mk \<and> inet_aton mms = Some mm) \<and> acc_ok m'
    \<and> (\<forall>k. k \<noteq> name \<longrightarrow> access_list_lookup (Some k) m' = access_list_lookup (Some k) m)
    \<and> (\<forall>p. prefix_wf p \<and> family p = AF_INET \<longrightarrow>
         access_list_apply lay (access_list_lookup (Some name) m') p =
           (if \<exists>f\<in>set (filters (acc_of name m)). filter_says f p
            then access_list_apply lay (access_list_lookup (Some name) m) p
            else Some (if (\<forall>i<32. \<not> addr_bit am i \<longrightarrow> addr_bit (u_prefix p) i = addr_bit a i)
                          \<and> (ext \<longrightarrow> (\<forall>i<32. \<not> addr_bit mm i \<longrightarrow> (i < plen p) = addr_bit mk i))
                       then ty else FILTER_DENY)))"
proof -
  obtain ty a am mk mm where w: "filter_type_of ts = Some ty" "inet_aton as = Some a" "inet_aton ams = Some am"
    "ext \<longrightarrow> inet_aton ms = Some mk \<and> inet_aton mms = Some mm"
    and len: "length a = 4" "length am = 4" "ext \<longrightarrow> length mk = 4 \<and> length mm = 4"
    and e: "filter_set_cisco inet_aton lay name ts as ams ms mms ext True m =
       filter_install (filter_lookup_cisco lay) name (new_cisco ty ext a am mk mm) True m"
    using filter_set_cisco_install [OF cmd io] .
  let ?f = "new_cisco ty ext a am mk mm" let ?acc = "acc_of name m"
  have inv: "name_inv al_name m" using ok by (simp add: acc_ok_def)
  have m': "m' = snd (filter_install (filter_lookup_cisco lay) name ?f True m)" using cmd e by simp
  have fok: "filter_ok ?f" by (rule new_cisco_ok [OF len])
  have aok: "\<forall>f\<in>set (filters ?acc). filter_ok f" using acc_of_ok [OF ok] by blast
  have look: "access_list_lookup (Some k) m' = (if k = name
      then Some (if filter_lookup_cisco lay ?acc ?f \<noteq> None then ?acc else ?acc\<lparr>filters := filters ?acc @ [?f]\<rparr>)
      else access_list_lookup (Some k) m)" for k
    using filter_install_set(3) [OF inv] m' by (simp add: access_list_lookup_def)
  have "access_list_apply lay (access_list_lookup (Some name) m') p =
      (if \<exists>f\<in>set (filters ?acc). filter_says f p then access_list_apply lay (access_list_lookup (Some name) m) p
       else Some (if filter_says ?f p then ty else FILTER_DENY))" (is "?l = ?r")
    if p: "prefix_wf p" "family p = AF_INET" for p
  proof -
    have old: "access_list_apply lay (access_list_lookup (Some name) m) p = access_loop lay (filters ?acc) p" if "filters ?acc \<noteq> []"
      using that by (auto simp: access_list_apply_def access_list_lookup_def acc_of_def access_list_new_def split: option.splits)
    have loop: "access_loop lay fs p = Some (case find (\<lambda>f. filter_says f p) fs of None \<Rightarrow> FILTER_DENY | Some f \<Rightarrow> ftype f)"
      if "\<forall>f\<in>set fs. filter_ok f" for fs using access_loop_find [of fs p] that p by simp
    show ?thesis
    proof (cases "\<exists>f\<in>set (filters ?acc). filter_says f p")
      case True
      then obtain g where "find (\<lambda>f. filter_says f p) (filters ?acc) = Some g"
        by (metis find_None_iff not_Some_eq)
      then have "?l = access_loop lay (filters ?acc) p"
        using loop [OF aok] loop [of "filters ?acc @ [?f]"] aok fok by (auto simp: look access_list_apply_def find_append)
      moreover have "filters ?acc \<noteq> []" using True by auto
      ultimately show ?thesis using True old by simp
    next
      case False
      then have n: "find (\<lambda>f. filter_says f p) (filters ?acc) = None" by (simp add: find_None_iff)
      show ?thesis
      proof (cases "filter_lookup_cisco lay ?acc ?f")
        case None
        then show ?thesis using False n loop [of "filters ?acc @ [?f]"] aok fok
          by (auto simp: look access_list_apply_def find_append new_cisco_def)
      next
        case (Some i)
        then have "\<not> filter_says ?f p" using filter_lookup_cisco_same [OF Some kind] False by blast
        then show ?thesis using False n Some loop [OF aok] by (simp add: look access_list_apply_def)
      qed
    qed
  qed
  then show ?thesis
    using w look acc_ok_install [OF ok fok] m' unfolding new_cisco_says [OF len] by (intro exI conjI) auto
qed

definition demo_layout :: union_layout where
  "demo_layout = \<lparr>as_cisco = \<lambda>z. \<lparr>extended = exact z, fc_addr = take 4 (u_prefix (fz_prefix z)), addr_mask = replicate 4 0,
       fc_mask = replicate 4 0, mask_mask = replicate 4 0\<rparr>,
     as_zebra = \<lambda>c. \<lparr>exact = extended c, fz_prefix = prefix_new\<rparr>\<rparr>"

definition demo_access :: access_master where
  "demo_access = \<lparr>nm_num = [], nm_str = [], acc_add_hook = False, acc_delete_hook = False, acc_hooks = []\<rparr>"

definition acl_aton :: "string \<Rightarrow> u8 list option" where
  "acl_aton s = (if s = ''10.1.1.0'' then Some [10, 1, 1, 0] else if s = ''0.0.0.255'' then Some [0, 0, 0, 255] else None)"

definition demo_access1 :: access_master where
  "demo_access1 = snd (filter_set_cisco acl_aton demo_layout ''10'' ''permit'' ''10.1.1.0'' ''0.0.0.255'' [] [] False True demo_access)"

lemma demo_access_ok: "acc_ok demo_access"
  by (simp add: acc_ok_def demo_access_def name_inv_def name_lookup_def)

lemma acl_aton_ok: "inet_ok acl_aton demo_pton6"
  by (simp add: inet_ok_def acl_aton_def demo_pton6_def)

lemma demo_access1_set:
  "filter_set_cisco acl_aton demo_layout ''10'' ''permit'' ''10.1.1.0'' ''0.0.0.255'' [] [] False True demo_access = (CMD_SUCCESS, demo_access1)"
proof -
  have "fst (filter_set_cisco acl_aton demo_layout ''10'' ''permit'' ''10.1.1.0'' ''0.0.0.255'' [] [] False True demo_access) = CMD_SUCCESS"
    using filter_install_set(1) demo_access_ok by (simp add: filter_set_cisco_def filter_type_of_def acl_aton_def acc_ok_def)
  then show ?thesis unfolding demo_access1_def by (metis prod.collapse)
qed

lemma demo_access_of: "acc_of ''10'' demo_access = access_list_new\<lparr>al_name := ''10''\<rparr>"
  by (simp add: acc_of_def demo_access_def name_lookup_def)

definition net10_1_1 :: prefix where
  "net10_1_1 = \<lparr>family = AF_INET, prefixlen = 24, u_prefix = [10, 1, 1, 0] @ replicate 12 0\<rparr>"

theorem access_list_set_correct_witness:
  "access_list_apply demo_layout (access_list_lookup (Some ''10'') demo_access1) net10_1_1 = Some FILTER_PERMIT"
proof -
  have ex: "filter_type_of ''permit'' = Some FILTER_PERMIT" "acl_aton ''10.1.1.0'' = Some [10, 1, 1, 0]" "acl_aton ''0.0.0.255'' = Some [0, 0, 0, 255]"
    by code_simp+
  have bits: "\<forall>i<32. \<not> addr_bit [0, 0, 0, 255] i \<longrightarrow> addr_bit (u_prefix net10_1_1) i = addr_bit [10, 1, 1, 0] i"
    using and_not_eq_iff [of "take 4 (u_prefix net10_1_1)" "[0, 0, 0, 255]" "[10, 1, 1, 0]"]
    by (simp add: addr_bit_take) (simp add: net10_1_1_def and_not_def)
  have wf: "prefix_wf net10_1_1 \<and> family net10_1_1 = AF_INET" by (simp add: net10_1_1_def prefix_wf_def)
  have kind: "\<forall>f\<in>set (filters (acc_of ''10'' demo_access)). \<exists>c. fu f = Cfilter c \<and> extended c = False"
    by (simp add: demo_access_of access_list_new_def)
  have none: "\<not> (\<exists>f\<in>set (filters (acc_of ''10'' demo_access)). filter_says f p)" for p
    by (simp add: demo_access_of access_list_new_def)
  show ?thesis
    using access_list_set_correct [OF demo_access_ok acl_aton_ok kind demo_access1_set] ex bits wf none by auto
qed

text \<open>Removing a filter with the words that entered it undoes the command, whatever the layout of the union: all lists are as they
  were.  The one exception is a list that had no filter before (it was made for its remark): it is deleted, and its
  remark with it.\<close>

theorem access_list_set_unset:
  assumes ok: "acc_ok m" and io: "inet_ok inet_aton inet_pton6"
    and set: "filter_set_cisco inet_aton lay name ts as ams ms mms ext True m = (CMD_SUCCESS, m1)"
    and new: "filters (acc_of name m1) \<noteq> filters (acc_of name m)"
    and unset: "filter_set_cisco inet_aton lay name ts as ams ms mms ext False m1 = (r, m2)"
  shows "r = CMD_SUCCESS \<and> acc_ok m2
    \<and> (\<forall>k. access_list_lookup (Some k) m2 =
         (if k = name \<and> filters (acc_of name m) = [] then None else access_list_lookup (Some k) m))"
proof -
  obtain ty a am mk mm where w: "filter_type_of ts = Some ty" "inet_aton as = Some a" "inet_aton ams = Some am"
    "ext \<longrightarrow> inet_aton ms = Some mk \<and> inet_aton mms = Some mm"
    and len: "length a = 4" "length am = 4" "ext \<longrightarrow> length mk = 4 \<and> length mm = 4"
    and e: "filter_set_cisco inet_aton lay name ts as ams ms mms ext True m =
       filter_install (filter_lookup_cisco lay) name (new_cisco ty ext a am mk mm) True m"
    using filter_set_cisco_install [OF set io] .
  let ?f = "new_cisco ty ext a am mk mm" let ?acc = "acc_of name m" let ?acc1 = "?acc\<lparr>filters := filters ?acc @ [?f]\<rparr>"
  have e2: "filter_set_cisco inet_aton lay name ts as ams ms mms ext False m1 =
       filter_install (filter_lookup_cisco lay) name ?f False m1"
    using w by (cases ext) (simp_all add: filter_set_cisco_def new_cisco_def)
  have inv: "name_inv al_name m" using ok by (simp add: acc_ok_def)
  have m1: "m1 = snd (filter_install (filter_lookup_cisco lay) name ?f True m)" using set e by simp
  have ok1: "acc_ok m1" unfolding m1 by (rule acc_ok_install [OF ok new_cisco_ok [OF len]])
  then have inv1: "name_inv al_name m1" by (simp add: acc_ok_def)
  have look1: "name_lookup al_name k m1 = (if k = name then Some (if filter_lookup_cisco lay ?acc ?f \<noteq> None then ?acc else ?acc1)
      else name_lookup al_name k m)" for k
    unfolding m1 by (rule filter_install_set(3) [OF inv])
  then have none: "filter_lookup_cisco lay ?acc ?f = None" and acc1: "acc_of name m1 = ?acc1"
    using new by (auto simp: acc_of_def split: if_splits)
  have found: "filter_lookup_cisco lay ?acc1 ?f = Some (length (filters ?acc))"
    using none unfolding filter_lookup_cisco_def Let_def
    by (intro filter_find_added) (simp_all add: filter_find_None)
  have drop: "drop_filter ?acc1 (length (filters ?acc)) = ?acc" by (simp add: drop_filter_def)
  have "name_lookup al_name k m2 = (if k = name then (if filters ?acc = [] then None else Some ?acc) else name_lookup al_name k m1)" for k
    using filter_install_unset(3) [OF inv1, of k "filter_lookup_cisco lay" name ?f] unset e2 by (simp add: acc1 found drop)
  moreover have "name_lookup al_name name m = Some ?acc" if "filters ?acc \<noteq> []"
    using that by (auto simp: acc_of_def access_list_new_def split: option.splits)
  moreover have "r = CMD_SUCCESS" "acc_ok m2"
    using filter_install_unset(1) [OF inv1] acc_ok_install [OF ok1 new_cisco_ok [OF len]] unset e2 by (metis fst_conv, metis snd_conv)
  ultimately show ?thesis using look1 by (auto simp: access_list_lookup_def)
qed

theorem access_list_set_unset_witness:
  "fst (filter_set_cisco acl_aton demo_layout ''10'' ''permit'' ''10.1.1.0'' ''0.0.0.255'' [] [] False False demo_access1) = CMD_SUCCESS \<and>
   (\<forall>k. access_list_lookup (Some k)
      (snd (filter_set_cisco acl_aton demo_layout ''10'' ''permit'' ''10.1.1.0'' ''0.0.0.255'' [] [] False False demo_access1)) =
      access_list_lookup (Some k) demo_access)"
proof -
  have inv: "name_inv al_name demo_access" using demo_access_ok by (simp add: acc_ok_def)
  have e: "demo_access1 = snd (filter_install (filter_lookup_cisco demo_layout) ''10''
      (new_cisco FILTER_PERMIT False [10, 1, 1, 0] [0, 0, 0, 255] [] []) True demo_access)"
    by (simp add: demo_access1_def filter_set_cisco_def filter_type_of_def acl_aton_def new_cisco_def)
  have "filters (acc_of ''10'' demo_access) = []" by (simp add: demo_access_of access_list_new_def)
  moreover from this have "filters (acc_of ''10'' demo_access1) \<noteq> filters (acc_of ''10'' demo_access)"
    using filter_install_set(3) [OF inv, of "''10''" "filter_lookup_cisco demo_layout" "''10''"]
    by (simp add: e acc_of_def [of _ "snd _"] filter_lookup_cisco_def filter_find_def)
  ultimately show ?thesis
    using access_list_set_unset [OF demo_access_ok acl_aton_ok demo_access1_set _ surjective_pairing]
    by (auto simp: access_list_lookup_def demo_access_def name_lookup_def)
qed

text \<open>removing a filter from a list that does not exist is accepted, and makes the list: \<open>filter_set_cisco\<close> gets the list before
  it knows that there is nothing to remove.  The new list has no filter and denies every prefix, where the clients
  of a missing list let every prefix pass.\<close>

theorem access_list_unset_creates:
  assumes inv: "name_inv al_name m" and none: "access_list_lookup (Some name) m = None"
    and cmd: "filter_set_cisco inet_aton lay name ts as ams ms mms ext False m = (CMD_SUCCESS, m')"
    and io: "inet_ok inet_aton inet_pton6"
  shows "(\<exists>acc. access_list_lookup (Some name) m' = Some acc \<and> filters acc = [] \<and>
            (\<forall>p. access_list_apply lay (Some acc) p = Some FILTER_DENY))
     \<and> (\<forall>k. k \<noteq> name \<longrightarrow> access_list_lookup (Some k) m' = access_list_lookup (Some k) m)"
proof -
  obtain ty a am mk mm where e: "filter_set_cisco inet_aton lay name ts as ams ms mms ext False m =
       filter_install (filter_lookup_cisco lay) name (new_cisco ty ext a am mk mm) False m"
    using filter_set_cisco_install [OF cmd io] .
  have empty: "filters (acc_of name m) = []" using none by (simp add: access_list_lookup_def acc_of_def access_list_new_def)
  then have "filter_lookup_cisco lay (acc_of name m) f = None" for f by (simp add: filter_lookup_cisco_def filter_find_def)
  moreover have "m' = snd (filter_install (filter_lookup_cisco lay) name (new_cisco ty ext a am mk mm) False m)"
    using e cmd by (metis snd_conv)
  ultimately have "name_lookup al_name k m' = (if k = name then Some (acc_of name m) else name_lookup al_name k m)" for k
    using filter_install_unset(3) [OF inv] by simp
  then show ?thesis using empty by (auto simp: access_list_lookup_def access_list_apply_def)
qed

theorem access_list_unset_creates_witness:
  "\<exists>acc. access_list_lookup (Some ''10'')
       (snd (filter_set_cisco acl_aton demo_layout ''10'' ''permit'' ''10.1.1.0'' ''0.0.0.255'' [] [] False False demo_access)) = Some acc \<and>
     access_list_apply demo_layout (Some acc) net10_1_1 = Some FILTER_DENY"
proof -
  have inv: "name_inv al_name demo_access" using demo_access_ok by (simp add: acc_ok_def)
  have none: "access_list_lookup (Some ''10'') demo_access = None"
    by (simp add: access_list_lookup_def demo_access_def name_lookup_def)
  have "fst (filter_set_cisco acl_aton demo_layout ''10'' ''permit'' ''10.1.1.0'' ''0.0.0.255'' [] [] False False demo_access) = CMD_SUCCESS"
    using filter_install_unset(1) [OF inv] by (simp add: filter_set_cisco_def filter_type_of_def acl_aton_def)
  then show ?thesis
    using access_list_unset_creates [OF inv none _ acl_aton_ok, of demo_layout "''permit''" "''10.1.1.0''" "''0.0.0.255''" "[]" "[]" False]
    by (metis prod.collapse)
qed


section \<open>Distribute lists as a map\<close>

lemma distribute_cmp_iff: "distribute_cmp a b \<longleftrightarrow> d_ifname a = d_ifname b"
  by (auto simp: distribute_cmp_def split: option.splits)

interpretation dists: hash_functions distribute_hash_make distribute_cmp
  by unfold_locales (auto simp: distribute_cmp_iff distribute_hash_make_def)

abbreviation dist_inv :: "distribute hash_t \<Rightarrow> bool" where
  "dist_inv \<equiv> hash_inv distribute_hash_make distribute_cmp"

text \<open>The table as a map from interface names (or none, for all interfaces) to lists.\<close>

definition dist_map :: "distribute hash_t \<Rightarrow> string option \<Rightarrow> distribute option" where
  "dist_map h nam = find (\<lambda>d. d_ifname d = nam) (hash_data h)"

lemma names_distinct: "sorted_wrt (\<lambda>a b. \<not> distribute_cmp a b) xs \<Longrightarrow> distinct (map d_ifname xs)"
  by (induction xs) (auto simp: distribute_cmp_iff)

lemma dist_map_Some:
  assumes "dist_inv h"
  shows "dist_map h nam = Some d \<longleftrightarrow> d \<in> set (hash_data h) \<and> d_ifname d = nam"
proof -
  have "sorted_wrt (\<lambda>a b. \<not> distribute_cmp a b) (hash_data h)" by (rule hash_invD(2) [OF assms])
  then have "distinct (map d_ifname (hash_data h))" by (rule names_distinct)
  then show ?thesis unfolding dist_map_def by (rule find_distinct_Some)
qed

lemma dist_map_None: "dist_map h nam = None \<longleftrightarrow> (\<forall>d\<in>set (hash_data h). d_ifname d \<noteq> nam)"
  by (auto simp: dist_map_def find_None_iff)

lemma dist_key_name [simp]: "d_ifname (dist_key nam) = nam"
  by (simp add: dist_key_def)

lemma distribute_lookup_map:
  assumes "dist_inv h"
  shows "distribute_lookup h nam = Some (dist_map h nam)"
proof (cases "dist_map h nam")
  case None
  then have n: "\<forall>x\<in>set (hash_data h). \<not> distribute_cmp x (dist_key nam)" by (simp add: dist_map_None distribute_cmp_iff)
  have "chain_find (backet_match distribute_cmp (distribute_hash_make (dist_key nam)) (dist_key nam))
      (hindex h ! slot h (distribute_hash_make (dist_key nam))) = None"
    using dists.chain_find_eq [OF assms, of "dist_key nam"] n by (metis not_Some_eq)
  then show ?thesis using None slot_less [OF assms, of "distribute_hash_make (dist_key nam)"] hash_invD(1) [OF assms]
    by (simp add: distribute_lookup_def hash_lookup_def hash_get_def slot_def Let_def)
next
  case (Some d)
  then have "d \<in> set (hash_data h)" "distribute_cmp d (dist_key nam)"
    by (simp_all add: dist_map_Some [OF assms] distribute_cmp_iff)
  then show ?thesis using dists.get_present [OF assms] Some by (simp add: distribute_lookup_def hash_lookup_def)
qed

lemma dist_map_eqI:
  assumes "dist_inv h" "\<And>d. d \<in> set (hash_data h) \<longleftrightarrow> m (d_ifname d) = Some d" "\<And>n d. m n = Some d \<Longrightarrow> d_ifname d = n"
  shows "dist_map h = m"
proof
  fix nam
  show "dist_map h nam = m nam"
  proof (cases "m nam")
    case None
    then show ?thesis using assms(2) by (auto simp: dist_map_None)
  next
    case (Some d)
    then show ?thesis using assms(2) [of d] assms(3) [OF Some] by (simp add: dist_map_Some [OF assms(1)])
  qed
qed

lemma dist_data_map: "dist_inv h \<Longrightarrow> d \<in> set (hash_data h) \<longleftrightarrow> dist_map h (d_ifname d) = Some d"
  by (simp add: dist_map_Some)

lemma distribute_get_map:
  fixes nam :: "string option"
  assumes "dist_inv h"
  defines "d \<equiv> (case dist_map h nam of Some d \<Rightarrow> d | None \<Rightarrow> dist_key nam)"
  shows "\<exists>h'. distribute_get h nam = Some (Some d, h') \<and> dist_inv h' \<and> dist_map h' = (dist_map h)(nam \<mapsto> d)"
proof (cases "dist_map h nam")
  case (Some x)
  then have "x \<in> set (hash_data h)" "distribute_cmp x (dist_key nam)"
    by (simp_all add: dist_map_Some [OF assms(1)] distribute_cmp_iff)
  then have "distribute_get h nam = Some (Some d, h)"
    using dists.get_present [OF assms(1)] Some by (simp add: distribute_get_def d_def)
  then show ?thesis using assms(1) Some by (simp add: d_def fun_upd_idem)
next
  case None
  have a: "distribute_hash_alloc (dist_key nam) = Some (dist_key nam)" by (simp add: distribute_hash_alloc_def dist_key_def)
  have n: "\<forall>x\<in>set (hash_data h). \<not> distribute_cmp x (dist_key nam)" using None by (simp add: dist_map_None distribute_cmp_iff)
  obtain h' where h': "distribute_get h nam = Some (Some (dist_key nam), h')" "dist_inv h'"
    "set (hash_data h') = insert (dist_key nam) (set (hash_data h))"
    using dists.get_absent [OF assms(1) n, of distribute_hash_alloc] by (auto simp: a distribute_get_def distribute_cmp_iff)
  have "dist_map h' = (dist_map h)(nam \<mapsto> dist_key nam)"
  proof (rule dist_map_eqI [OF h'(2)])
    fix x
    show "x \<in> set (hash_data h') \<longleftrightarrow> ((dist_map h)(nam \<mapsto> dist_key nam)) (d_ifname x) = Some x"
      using None unfolding h'(3) by (auto simp: dist_data_map [OF assms(1)])
  next
    fix k x assume "((dist_map h)(nam \<mapsto> dist_key nam)) k = Some x"
    then show "d_ifname x = k" using dist_map_Some [OF assms(1), of k x] by (auto split: if_splits)
  qed
  then show ?thesis using h'(1,2) None by (simp add: d_def)
qed

lemma dist_put_map:
  assumes i: "dist_inv h" and n: "dist_map h (d_ifname d) \<noteq> None"
  shows "dist_inv (dist_put h d) \<and> dist_map (dist_put h d) = (dist_map h)(d_ifname d \<mapsto> d)"
proof -
  let ?g = "\<lambda>x. if distribute_cmp x d then d else x"
  have data: "hash_data (dist_put h d) = map ?g (hash_data h)"
    by (simp add: hash_data_def dist_put_def map_concat comp_def if_distrib [of bdata] cong: if_cong)
  have nam: "d_ifname (?g x) = d_ifname x" "distribute_hash_make (?g x) = distribute_hash_make x" for x
    by (simp_all add: distribute_cmp_iff distribute_hash_make_def)
  have "distribute_cmp (?g x) (?g y) = distribute_cmp x y" for x y by (simp add: distribute_cmp_iff nam)
  then have s: "sorted_wrt (\<lambda>a b. \<not> distribute_cmp a b) (hash_data (dist_put h d))"
    using hash_invD(2) [OF i] unfolding data sorted_wrt_map by simp
  have b: "bkey b = distribute_hash_make (bdata b) \<and> slot (dist_put h d) (bkey b) = j"
    if "j < length (hindex (dist_put h d))" "b \<in> set (hindex (dist_put h d) ! j)" for j b
  proof -
    have j: "j < length (hindex h)" using that(1) by (simp add: dist_put_def)
    have "b \<in> (\<lambda>c. if distribute_cmp (bdata c) d then c\<lparr>bdata := d\<rparr> else c) ` set (hindex h ! j)"
      using that(2) j by (simp add: dist_put_def)
    then obtain c where c: "c \<in> set (hindex h ! j)" "b = (if distribute_cmp (bdata c) d then c\<lparr>bdata := d\<rparr> else c)" "j < length (hindex h)"
      using j by blast
    then have "bkey c = distribute_hash_make (bdata c) \<and> slot h (distribute_hash_make (bdata c)) = j"
      using hash_invD(4) [OF i, of j c] by simp
    then show ?thesis using c(2) nam(2) [of "bdata c"] by (auto simp: slot_def dist_put_def split: if_splits)
  qed
  have inv: "dist_inv (dist_put h d)"
    unfolding hash_inv_def
  proof (intro conjI)
    show "hsize (dist_put h d) \<noteq> 0" "length (hindex (dist_put h d)) = unat (hsize (dist_put h d))"
      using i by (simp_all add: hash_inv_def dist_put_def)
    show "\<forall>j<length (hindex (dist_put h d)). \<forall>b\<in>set (hindex (dist_put h d) ! j).
        bkey b = distribute_hash_make (bdata b) \<and> slot (dist_put h d) (bkey b) = j"
      using b by blast
    show "hcount (dist_put h d) = of_nat (length (hash_data (dist_put h d)))"
      unfolding data using hash_invD(3) [OF i] by (simp add: dist_put_def)
  qed (rule s)
  have "dist_map (dist_put h d) = (dist_map h)(d_ifname d \<mapsto> d)"
  proof (rule dist_map_eqI [OF inv])
    fix x
    show "x \<in> set (hash_data (dist_put h d)) \<longleftrightarrow> ((dist_map h)(d_ifname d \<mapsto> d)) (d_ifname x) = Some x"
      using n dist_data_map [OF i] unfolding data by (auto simp: distribute_cmp_iff image_iff dist_map_None)
  next
    fix k x assume "((dist_map h)(d_ifname d \<mapsto> d)) k = Some x"
    then show "d_ifname x = k" using dist_map_Some [OF i, of k x] by (auto split: if_splits)
  qed
  then show ?thesis using inv by simp
qed

lemma dist_release_map:
  assumes i: "dist_inv h" and n: "dist_map h (d_ifname d) = Some d"
  shows "\<exists>h'. dist_release h d = Some h' \<and> dist_inv h'
    \<and> dist_map h' = (if dist_unused d then (dist_map h)(d_ifname d := None) else dist_map h)"
proof (cases "dist_unused d")
  case False
  then show ?thesis using i by (simp add: dist_release_def)
next
  case True
  obtain h' where h': "hash_release distribute_hash_make distribute_cmp h d = Some (Some d, h')" "dist_inv h'"
    "set (hash_data h') = set (hash_data h) - {d}"
    using dists.release_present [OF i, of d d] dist_map_Some [OF i, of "d_ifname d" d] n by (auto simp: distribute_cmp_iff)
  have "dist_map h' = (dist_map h)(d_ifname d := None)"
  proof (rule dist_map_eqI [OF h'(2)])
    fix x
    show "x \<in> set (hash_data h') \<longleftrightarrow> ((dist_map h)(d_ifname d := None)) (d_ifname x) = Some x"
      using n unfolding h'(3) by (auto simp: dist_data_map [OF i])
  next
    fix k x assume "((dist_map h)(d_ifname d := None)) k = Some x"
    then show "d_ifname x = k" using dist_map_Some [OF i, of k x] by (auto split: if_splits)
  qed
  then show ?thesis using h' True by (simp add: dist_release_def)
qed

lemma set_d_name [simp]: "d_ifname (set_d_list ty v d) = d_ifname d" "d_ifname (set_d_prefix ty v d) = d_ifname d"
  by (simp_all add: set_d_list_def set_d_prefix_def split: distribute_type.split)

text \<open>The map after a list was set on an interface, and after one was unset.\<close>

definition dist_set :: "(distribute \<Rightarrow> distribute) \<Rightarrow> string option \<Rightarrow> (string option \<Rightarrow> distribute option) \<Rightarrow> string option \<Rightarrow> distribute option" where
  "dist_set f nam m = m(nam \<mapsto> f (case m nam of Some d \<Rightarrow> d | None \<Rightarrow> dist_key nam))"

definition dist_unset :: "(distribute \<Rightarrow> distribute) \<Rightarrow> string option \<Rightarrow> (string option \<Rightarrow> distribute option) \<Rightarrow> string option \<Rightarrow> distribute option" where
  "dist_unset f nam m = (case m nam of None \<Rightarrow> m | Some d \<Rightarrow> if dist_unused (f d) then m(nam := None) else m(nam \<mapsto> f d))"

lemma dist_set_law:
  assumes i: "dist_inv h" and f: "\<And>d. d_ifname (f d) = d_ifname d"
  shows "\<exists>d h' h''. distribute_get h nam = Some (Some d, h') \<and> h'' = dist_put h' (f d) \<and> dist_inv h'' \<and> dist_map h'' = dist_set f nam (dist_map h)"
proof -
  let ?d = "case dist_map h nam of Some d \<Rightarrow> d | None \<Rightarrow> dist_key nam"
  have nam: "d_ifname ?d = nam" using dist_map_Some [OF i, of nam] by (auto split: option.splits)
  obtain h' where h': "distribute_get h nam = Some (Some ?d, h')" "dist_inv h'" "dist_map h' = (dist_map h)(nam \<mapsto> ?d)"
    using distribute_get_map [OF i, of nam] by blast
  have "dist_inv (dist_put h' (f ?d)) \<and> dist_map (dist_put h' (f ?d)) = (dist_map h')(nam \<mapsto> f ?d)"
    using dist_put_map [OF h'(2), of "f ?d"] by (simp add: f nam h'(3))
  then show ?thesis using h' by (auto simp: dist_set_def)
qed

lemma dist_unset_law:
  assumes i: "dist_inv h" and f: "\<And>d. d_ifname (f d) = d_ifname d" and d: "dist_map h nam = Some d"
  shows "\<exists>h'. dist_release (dist_put h (f d)) (f d) = Some h' \<and> dist_inv h' \<and> dist_map h' = dist_unset f nam (dist_map h)"
proof -
  have nam: "d_ifname d = nam" using d by (simp add: dist_map_Some [OF i])
  have p: "dist_inv (dist_put h (f d))" "dist_map (dist_put h (f d)) = (dist_map h)(nam \<mapsto> f d)"
    using dist_put_map [OF i, of "f d"] d by (simp_all add: f nam)
  show ?thesis using dist_release_map [OF p(1), of "f d"] d by (auto simp: p(2) f nam dist_unset_def)
qed

text \<open>C35: the distribute lists are a map from interfaces (or all interfaces) to four optional names: setting a list makes the
  entry when it is missing and changes one name of it; unsetting a list changes nothing unless the name is the one that is set, and
  removes the entry when its last name goes.  No operation fails on a table the operations made.\<close>

theorem distribute_lists_refine_map:
  assumes i: "dist_inv h"
  shows "distribute_lookup h nam = Some (dist_map h nam)
    \<and> (\<exists>d h'. distribute_list_set h nam ty a = Some (d, h') \<and> dist_inv h' \<and> dist_map h' = dist_set (set_d_list ty (Some a)) nam (dist_map h))
    \<and> (\<exists>d h'. distribute_list_prefix_set h nam ty a = Some (d, h') \<and> dist_inv h'
         \<and> dist_map h' = dist_set (set_d_prefix ty (Some a)) nam (dist_map h))
    \<and> (\<exists>r h'. distribute_list_unset h nam ty a = Some (r, h') \<and> dist_inv h'
         \<and> dist_map h' = (if \<exists>d. dist_map h nam = Some d \<and> d_list ty d = Some a then dist_unset (set_d_list ty None) nam (dist_map h) else dist_map h))
    \<and> (\<exists>r h'. distribute_list_prefix_unset h nam ty a = Some (r, h') \<and> dist_inv h'
         \<and> dist_map h' = (if \<exists>d. dist_map h nam = Some d \<and> d_prefix ty d = Some a then dist_unset (set_d_prefix ty None) nam (dist_map h) else dist_map h))"
proof (intro conjI)
  show "\<exists>d h'. distribute_list_set h nam ty a = Some (d, h') \<and> dist_inv h' \<and> dist_map h' = dist_set (set_d_list ty (Some a)) nam (dist_map h)"
    using dist_set_law [OF i, of "set_d_list ty (Some a)" nam] by (auto simp: distribute_list_set_def Let_def)
  show "\<exists>d h'. distribute_list_prefix_set h nam ty a = Some (d, h') \<and> dist_inv h'
      \<and> dist_map h' = dist_set (set_d_prefix ty (Some a)) nam (dist_map h)"
    using dist_set_law [OF i, of "set_d_prefix ty (Some a)" nam] by (auto simp: distribute_list_prefix_set_def Let_def)
  show "\<exists>r h'. distribute_list_unset h nam ty a = Some (r, h') \<and> dist_inv h'
      \<and> dist_map h' = (if \<exists>d. dist_map h nam = Some d \<and> d_list ty d = Some a then dist_unset (set_d_list ty None) nam (dist_map h) else dist_map h)"
    using dist_unset_law [OF i, of "set_d_list ty None" nam] i
    by (cases "dist_map h nam") (auto simp: distribute_list_unset_def distribute_lookup_map Let_def)
  show "\<exists>r h'. distribute_list_prefix_unset h nam ty a = Some (r, h') \<and> dist_inv h'
      \<and> dist_map h' = (if \<exists>d. dist_map h nam = Some d \<and> d_prefix ty d = Some a then dist_unset (set_d_prefix ty None) nam (dist_map h) else dist_map h)"
    using dist_unset_law [OF i, of "set_d_prefix ty None" nam] i
    by (cases "dist_map h nam") (auto simp: distribute_list_prefix_unset_def distribute_lookup_map Let_def)
qed (rule distribute_lookup_map [OF i])


definition demo_dists :: "distribute hash_t" where
  "demo_dists = hash_create_size 8"

theorem distribute_lists_refine_map_witness:
  "\<exists>d h'. distribute_list_set demo_dists None DISTRIBUTE_IN ''10'' = Some (d, h') \<and>
     dist_map h' None = Some (distribute_new\<lparr>d_list_in := Some ''10''\<rparr>)"
proof -
  have i: "dist_inv demo_dists" unfolding demo_dists_def by (rule hash_create_inv(1)) simp
  have "dist_map demo_dists = Map.empty" by (simp add: demo_dists_def dist_map_def fun_eq_iff hash_create_inv(2))
  then show ?thesis
    using distribute_lists_refine_map [OF i, of None DISTRIBUTE_IN "''10''"]
    by (auto simp: dist_set_def set_d_list_def dist_key_def distribute_new_def)
qed

section \<open>Other operations of the directory\<close>

lemma fold_access_list_delete:
  "name_inv al_name m \<Longrightarrow> name_inv al_name (fold access_list_delete xs m) \<and>
     name_lookup al_name k (fold access_list_delete xs m) = (if k \<in> al_name ` set xs then None else name_lookup al_name k m)"
proof (induction xs arbitrary: m)
  case (Cons x xs)
  show ?case
    using Cons.IH [of "access_list_delete x m"] alists.unlink_law [OF Cons.prems, of "al_name x"]
    by (simp add: access_list_delete_def)
qed simp

text \<open>A reset leaves no list: the assertions at its end hold.\<close>

theorem access_list_reset_empty:
  assumes "name_inv al_name m"
  shows "nm_num (access_list_reset m) = [] \<and> nm_str (access_list_reset m) = []"
proof -
  let ?m1 = "fold access_list_delete (nm_num m) m"
  have "nm_str (fold access_list_delete xs m') = filter (\<lambda>l. al_name l \<notin> al_name ` set xs) (nm_str m')" for xs m'
    by (induction xs arbitrary: m') (auto simp: access_list_delete_def name_unlink_def intro!: filter_cong)
  note str = this
  have num: "nm_num (fold access_list_delete xs m') = filter (\<lambda>l. al_name l \<notin> al_name ` set xs) (nm_num m')" for xs m'
    by (induction xs arbitrary: m') (auto simp: access_list_delete_def name_unlink_def intro!: filter_cong)
  have a: "nm_num ?m1 = []" by (simp add: num filter_empty_conv)
  have b: "nm_str ?m1 = nm_str m"
    using assms by (auto simp: str name_inv_def intro!: filter_True) (metis option.simps(3))
  show ?thesis using a b by (simp add: access_list_reset_def Let_def num str filter_empty_conv)
qed

text \<open>Unsetting the remark of a list without filters deletes the list; with filters only the remark goes.\<close>

theorem access_list_remark_unset_correct:
  assumes "name_inv al_name m" "access_list_lookup (Some name) m = Some acc"
  shows "\<exists>m'. vty_access_list_remark_unset name m = (CMD_SUCCESS, m') \<and> name_inv al_name m' \<and>
    (\<forall>k. access_list_lookup (Some k) m' =
       (if k = name then (if filters acc = [] then None else Some (acc\<lparr>remark := None\<rparr>)) else access_list_lookup (Some k) m))"
proof -
  have n: "al_name acc = name" "name_lookup al_name name m = Some acc"
    using assms by (simp_all add: access_list_lookup_def alists.lookup_name)
  have put: "name_inv al_name (name_put al_name (acc\<lparr>remark := None\<rparr>) m)"
    "name_lookup al_name k (name_put al_name (acc\<lparr>remark := None\<rparr>) m) = (if k = name then Some (acc\<lparr>remark := None\<rparr>) else name_lookup al_name k m)" for k
    using alists.put_law [OF assms(1), of "acc\<lparr>remark := None\<rparr>"] n by simp_all
  show ?thesis using alists.unlink_law [OF put(1), of name] put n
    by (simp add: vty_access_list_remark_unset_def access_list_lookup_def access_list_delete_def Let_def)
qed

end
