(* ===== verification/Lib_Vector.thy ===== *)
theory Lib_Vector
  imports Zebra_Prelude
begin

text \<open>
  The vectors of \<open>lib/vector.c\<close>: growing arrays of pointers with empty slots.  The field \<open>index\<close> is the allocated
  block, of \<open>alloced\<close> pointers, of which a null pointer is \<^term>\<open>None\<close>.  A size that does not fit 32 bits makes the
  code write outside the block: \<^term>\<open>None\<close>.
\<close>

section \<open>Definitions\<close>

record 'a vector =
  vec_max :: nat
  alloced :: nat
  vec_index :: "'a option list"

definition vector_init :: "nat \<Rightarrow> 'a vector" where
  "vector_init sz =
     (let sz = (if sz = 0 then 1 else sz) in \<lparr>vec_max = 0, alloced = sz, vec_index = replicate sz None\<rparr>)"

definition vector_copy :: "'a vector \<Rightarrow> 'a vector" where
  "vector_copy v = \<lparr>vec_max = vec_max v, alloced = alloced v, vec_index = take (alloced v) (vec_index v)\<rparr>"

text \<open>The block is doubled until it has a slot \<open>num\<close>; a block of no slots would be doubled for ever.\<close>

function vector_ensure :: "'a vector \<Rightarrow> nat \<Rightarrow> 'a vector option" where
  "vector_ensure v num =
     (if alloced v > num then Some v
      else if alloced v = 0 \<or> alloced v * 2 \<ge> 2 ^ 32 then None
      else vector_ensure (v\<lparr>vec_index := take (alloced v) (vec_index v) @ replicate (alloced v) None, alloced := alloced v * 2\<rparr>) num)"
  by pat_completeness auto
termination
  by (relation "measure (\<lambda>(v, num). num + 1 - alloced v)") auto

declare vector_ensure.simps [simp del]

fun empty_loop :: "nat \<Rightarrow> nat \<Rightarrow> 'a option list \<Rightarrow> nat" where
  "empty_loop 0 i ixs = i"
| "empty_loop (Suc n) i ixs = (if ixs ! i = None then i else empty_loop n (i + 1) ixs)"

definition vector_empty_slot :: "'a vector \<Rightarrow> nat" where
  "vector_empty_slot v = (if vec_max v = 0 then 0 else empty_loop (vec_max v) 0 (vec_index v))"

definition vector_set_index :: "'a vector \<Rightarrow> nat \<Rightarrow> 'a option \<Rightarrow> (nat \<times> 'a vector) option" where
  "vector_set_index v i val = do {
     v \<leftarrow> vector_ensure v i;
     let v = v\<lparr>vec_index := (vec_index v)[i := val]\<rparr>;
     Some (i, if vec_max v \<le> i then v\<lparr>vec_max := i + 1\<rparr> else v)
   }"

definition vector_set :: "'a vector \<Rightarrow> 'a option \<Rightarrow> (nat \<times> 'a vector) option" where
  "vector_set v val = do {
     let i = vector_empty_slot v;
     v \<leftarrow> vector_ensure v i;
     let v = v\<lparr>vec_index := (vec_index v)[i := val]\<rparr>;
     Some (i, if vec_max v \<le> i then v\<lparr>vec_max := i + 1\<rparr> else v)
   }"

definition vector_lookup :: "'a vector \<Rightarrow> nat \<Rightarrow> 'a option" where
  "vector_lookup v i = (if i \<ge> vec_max v then None else vec_index v ! i)"

definition vector_lookup_ensure :: "'a vector \<Rightarrow> nat \<Rightarrow> ('a option \<times> 'a vector) option" where
  "vector_lookup_ensure v i = do {
     v \<leftarrow> vector_ensure v i;
     Some (vec_index v ! i, v)
   }"

text \<open>The loop of \<open>vector_unset\<close>: \<open>while (i && v->index[--i] == NULL && v->max--)\<close>; the last condition still decrements when it fails.\<close>

fun unset_loop :: "nat \<Rightarrow> nat \<Rightarrow> 'a option list \<Rightarrow> nat" where
  "unset_loop 0 m ixs = m"
| "unset_loop (Suc i) m ixs =
     (if ixs ! i \<noteq> None then m
      else if m = 0 then 2 ^ 32 - 1
      else unset_loop i (m - 1) ixs)"

definition vector_unset :: "'a vector \<Rightarrow> nat \<Rightarrow> 'a vector" where
  "vector_unset v i =
     (if i \<ge> alloced v then v
      else let v = v\<lparr>vec_index := (vec_index v)[i := None]\<rparr> in
        if i + 1 = vec_max v then v\<lparr>vec_max := unset_loop i (vec_max v - 1) (vec_index v)\<rparr> else v)"

definition vector_count :: "'a vector \<Rightarrow> nat" where
  "vector_count v = length (filter (\<lambda>i. vec_index v ! i \<noteq> None) [0..<vec_max v])"

section \<open>Vectors as partial maps\<close>

definition vec_ok :: "'a vector \<Rightarrow> bool" where
  "vec_ok v \<longleftrightarrow> length (vec_index v) = alloced v \<and> 0 < alloced v \<and> vec_max v \<le> alloced v
     \<and> (\<forall>i. vec_max v \<le> i \<longrightarrow> i < alloced v \<longrightarrow> vec_index v ! i = None)"

text \<open>No empty slot at the end: kept as long as no null pointer is entered.\<close>

definition vec_tight :: "'a vector \<Rightarrow> bool" where
  "vec_tight v \<longleftrightarrow> vec_max v = 0 \<or> vec_index v ! (vec_max v - 1) \<noteq> None"

lemma vector_init_ok: "vec_ok (vector_init n)" "vector_lookup (vector_init n) i = None" "vec_tight (vector_init n)"
  by (auto simp: vec_ok_def vector_init_def vector_lookup_def vec_tight_def Let_def)

lemma vec_ok_nth: "vec_ok v \<Longrightarrow> i < alloced v \<Longrightarrow> vec_index v ! i = vector_lookup v i"
  by (simp add: vec_ok_def vector_lookup_def)

lemma vector_ensure_ok:
  assumes "vec_ok v" "num < 2 ^ 31"
  shows "\<exists>v'. vector_ensure v num = Some v' \<and> vec_ok v' \<and> num < alloced v' \<and> vec_max v' = vec_max v \<and> vector_lookup v' = vector_lookup v"
  using assms
proof (induction v num rule: vector_ensure.induct)
  case (1 v num)
  show ?case
  proof (cases "alloced v > num")
    case True
    then show ?thesis using 1(2) by (simp add: vector_ensure.simps)
  next
    case False
    let ?v = "v\<lparr>vec_index := take (alloced v) (vec_index v) @ replicate (alloced v) None, alloced := alloced v * 2\<rparr>"
    have g: "\<not> (alloced v = 0 \<or> alloced v * 2 \<ge> 2 ^ 32)" using False 1(2,3) by (simp add: vec_ok_def)
    have ok: "vec_ok ?v" using 1(2) by (auto simp: vec_ok_def nth_append)
    have l: "vector_lookup ?v = vector_lookup v" using 1(2) by (auto simp: vec_ok_def vector_lookup_def nth_append)
    from 1(1) [OF False g ok 1(3)] show ?thesis
      using False g l by (subst vector_ensure.simps) simp
  qed
qed

lemma vec_write:
  assumes "vec_ok v" "i < alloced v"
  shows "vec_ok (v\<lparr>vec_index := (vec_index v)[i := val], vec_max := (if vec_max v \<le> i then i + 1 else vec_max v)\<rparr>)"
    "vector_lookup (v\<lparr>vec_index := (vec_index v)[i := val], vec_max := (if vec_max v \<le> i then i + 1 else vec_max v)\<rparr>) =
      (vector_lookup v)(i := val)"
  using assms by (auto simp: vec_ok_def vector_lookup_def nth_list_update fun_eq_iff)

lemma vector_set_index_law:
  assumes "vec_ok v" "i < 2 ^ 31"
  shows "\<exists>v'. vector_set_index v i val = Some (i, v') \<and> vec_ok v' \<and> vector_lookup v' = (vector_lookup v)(i := val)
    \<and> (val \<noteq> None \<longrightarrow> vec_tight v \<longrightarrow> vec_tight v')"
proof -
  obtain w where w: "vector_ensure v i = Some w" "vec_ok w" "i < alloced w" "vec_max w = vec_max v" "vector_lookup w = vector_lookup v"
    using vector_ensure_ok [OF assms] by blast
  let ?v' = "w\<lparr>vec_index := (vec_index w)[i := val], vec_max := (if vec_max w \<le> i then i + 1 else vec_max w)\<rparr>"
  have e: "vector_set_index v i val = Some (i, ?v')" using w(1) by (simp add: vector_set_index_def Let_def)
  have "vec_tight ?v'" if "val \<noteq> None" "vec_tight v"
  proof (cases "vec_max w \<le> i")
    case True
    then show ?thesis using that w(2,3) by (simp add: vec_tight_def vec_ok_def)
  next
    case False
    have "vector_lookup v (vec_max v - 1) \<noteq> None" using that(2) False w(4) by (simp add: vec_tight_def vector_lookup_def)
    moreover have "vec_index w ! (vec_max w - 1) = vector_lookup w (vec_max w - 1)" using False by (auto simp: vector_lookup_def)
    ultimately have "vec_index w ! (vec_max w - 1) \<noteq> None" unfolding w(4,5) by simp
    then show ?thesis using False that(1) w(2,3) by (auto simp: vec_tight_def vec_ok_def nth_list_update)
  qed
  then show ?thesis using e vec_write [OF w(2,3), of val] w(5) by auto
qed

lemma empty_loop_slot:
  "let j = empty_loop n i ixs in i \<le> j \<and> j \<le> i + n \<and> (\<forall>k. i \<le> k \<longrightarrow> k < j \<longrightarrow> ixs ! k \<noteq> None) \<and> (j < i + n \<longrightarrow> ixs ! j = None)"
proof (induction n i ixs rule: empty_loop.induct)
  case (2 n i ixs)
  show ?case
  proof (cases "ixs ! i = None")
    case False
    have "ixs ! k \<noteq> None" if "i \<le> k" "k < empty_loop n (i + 1) ixs" for k
      using that 2 [OF False] False by (cases "k = i") (auto simp: Let_def)
    then show ?thesis using 2 [OF False] False by (auto simp: Let_def)
  qed (simp add: Let_def)
qed (simp add: Let_def)

text \<open>\<open>vector_set\<close> uses the smallest empty slot.\<close>

lemma vector_empty_slot_least:
  assumes "vec_ok v"
  shows "vector_lookup v (vector_empty_slot v) = None" "k < vector_empty_slot v \<Longrightarrow> vector_lookup v k \<noteq> None" "vector_empty_slot v \<le> vec_max v"
proof -
  let ?j = "empty_loop (vec_max v) 0 (vec_index v)"
  have e: "vector_empty_slot v = ?j" by (simp add: vector_empty_slot_def)
  have j: "?j \<le> vec_max v" "\<forall>k<?j. vec_index v ! k \<noteq> None" "?j < vec_max v \<longrightarrow> vec_index v ! ?j = None"
    using empty_loop_slot [of "vec_max v" 0 "vec_index v"] by (simp_all add: Let_def)
  show "vector_lookup v (vector_empty_slot v) = None" "vector_empty_slot v \<le> vec_max v"
    using j(1,3) by (auto simp: e vector_lookup_def)
  show "vector_lookup v k \<noteq> None" if "k < vector_empty_slot v" using that j(1,2) by (auto simp: e vector_lookup_def)
qed

lemma vector_set_eq: "vector_set v val = vector_set_index v (vector_empty_slot v) val"
  by (simp add: vector_set_def vector_set_index_def Let_def)

lemma unset_loop_le:
  "let j = unset_loop i i ixs in j \<le> i \<and> (\<forall>k. j \<le> k \<longrightarrow> k < i \<longrightarrow> ixs ! k = None) \<and> (j = 0 \<or> ixs ! (j - 1) \<noteq> None)"
proof (induction i)
  case (Suc i)
  show ?case
  proof (cases "ixs ! i = None")
    case True
    have "ixs ! k = None" if "unset_loop i i ixs \<le> k" "k < Suc i" for k
      using that Suc True by (cases "k = i") (auto simp: Let_def)
    then show ?thesis using Suc True by (auto simp: Let_def)
  qed (simp add: Let_def)
qed (simp add: Let_def)

lemma vector_unset_law:
  assumes "vec_ok v"
  shows "vec_ok (vector_unset v i)" "vector_lookup (vector_unset v i) = (vector_lookup v)(i := None)" "vec_tight v \<Longrightarrow> vec_tight (vector_unset v i)"
proof -
  have ok: "length (vec_index v) = alloced v" "0 < alloced v" "vec_max v \<le> alloced v"
    "\<And>k. vec_max v \<le> k \<Longrightarrow> k < alloced v \<Longrightarrow> vec_index v ! k = None"
    using assms by (auto simp: vec_ok_def)
  let ?ixs = "(vec_index v)[i := None]"
  define j where "j = (if i + 1 = vec_max v then unset_loop i i ?ixs else vec_max v)"
  have e: "vector_unset v i = (if i \<ge> alloced v then v else v\<lparr>vec_index := ?ixs, vec_max := j\<rparr>)"
    by (cases v) (auto simp: vector_unset_def j_def Let_def)
  have u: "unset_loop i i ?ixs \<le> i" "\<And>k. unset_loop i i ?ixs \<le> k \<Longrightarrow> k < i \<Longrightarrow> ?ixs ! k = None"
    "unset_loop i i ?ixs = 0 \<or> ?ixs ! (unset_loop i i ?ixs - 1) \<noteq> None"
    using unset_loop_le [of i ?ixs] by (simp_all add: Let_def)
  have j: "j \<le> vec_max v" "\<And>k. j \<le> k \<Longrightarrow> k < vec_max v \<Longrightarrow> ?ixs ! k = None" if "i < alloced v"
  proof -
    show "j \<le> vec_max v" using u(1) by (auto simp: j_def)
    show "?ixs ! k = None" if "j \<le> k" "k < vec_max v" for k
      using that u(2) [of k] \<open>i < alloced v\<close> ok(1) by (cases "k = i") (auto simp: j_def split: if_splits)
  qed
  have jn: "?ixs ! k = None" if "i < alloced v" "j \<le> k" "k < alloced v" for k
    using j(2) [OF that(1,2)] ok(1,4) that by (cases "k < vec_max v") (auto simp: nth_list_update)
  show "vec_ok (vector_unset v i)"
    using assms j(1) ok jn by (auto simp: e vec_ok_def)
  have "vector_lookup v i = None" if "i \<ge> alloced v" using that ok(3) by (simp add: vector_lookup_def)
  moreover have "vector_lookup (v\<lparr>vec_index := ?ixs, vec_max := j\<rparr>) k = ((vector_lookup v)(i := None)) k" if "i < alloced v" for k
    using j(1) [OF that] j(2) [OF that, of k] ok that
    by (cases "k < j"; cases "k < vec_max v"; cases "k = i") (simp_all add: vector_lookup_def)
  ultimately show "vector_lookup (vector_unset v i) = (vector_lookup v)(i := None)" by (auto simp: e fun_eq_iff)
  show "vec_tight (vector_unset v i)" if "vec_tight v"
    using that u(3) by (auto simp: e vec_tight_def j_def nth_list_update split: if_splits)
qed

lemma vector_count_card: "vector_count v = card {i. vector_lookup v i \<noteq> None}"
proof -
  have "{i. vector_lookup v i \<noteq> None} = set (filter (\<lambda>i. vec_index v ! i \<noteq> None) [0..<vec_max v])"
    by (auto simp: vector_lookup_def)
  then show ?thesis using distinct_card [of "filter (\<lambda>i. vec_index v ! i \<noteq> None) [0..<vec_max v]"] by (simp add: vector_count_def)
qed

text \<open>A vector is a partial map from positions to values.  \<open>vector_set\<close> enters a value at the smallest position that is free
  and returns it, \<open>vector_set_index\<close> and \<open>vector_unset\<close> change one position, \<open>vector_count\<close> is the size of the map, and
  growing the block keeps it; after the last value goes, no empty position is left at the end.  Positions are below \<open>2 ^ 31\<close>: beyond, the
  size of the block wraps.\<close>

theorem vector_refines_map:
  assumes "vec_ok v" "vec_max v < 2 ^ 31" "i < 2 ^ 31"
  shows "(\<exists>k v'. vector_set v (Some x) = Some (k, v') \<and> vec_ok v' \<and> vector_lookup v' = (vector_lookup v)(k \<mapsto> x)
        \<and> vector_lookup v k = None \<and> (\<forall>j<k. vector_lookup v j \<noteq> None) \<and> (vec_tight v \<longrightarrow> vec_tight v'))
    \<and> (\<exists>v'. vector_set_index v i y = Some (i, v') \<and> vec_ok v' \<and> vector_lookup v' = (vector_lookup v)(i := y))
    \<and> vec_ok (vector_unset v i) \<and> vector_lookup (vector_unset v i) = (vector_lookup v)(i := None)
    \<and> (vec_tight v \<longrightarrow> vec_tight (vector_unset v i))
    \<and> (\<exists>v'. vector_lookup_ensure v i = Some (vector_lookup v i, v') \<and> vec_ok v' \<and> vector_lookup v' = vector_lookup v)
    \<and> vector_count v = card (dom (vector_lookup v)) \<and> vector_lookup (vector_copy v) = vector_lookup v"
proof (intro conjI)
  let ?k = "vector_empty_slot v"
  note sl = vector_empty_slot_least [OF assms(1)]
  have k: "?k < 2 ^ 31" using sl(3) assms(2) by simp
  show "\<exists>k v'. vector_set v (Some x) = Some (k, v') \<and> vec_ok v' \<and> vector_lookup v' = (vector_lookup v)(k \<mapsto> x)
        \<and> vector_lookup v k = None \<and> (\<forall>j<k. vector_lookup v j \<noteq> None) \<and> (vec_tight v \<longrightarrow> vec_tight v')"
    using vector_set_index_law [OF assms(1) k, of "Some x"] sl(1,2) unfolding vector_set_eq by blast
  show "\<exists>v'. vector_set_index v i y = Some (i, v') \<and> vec_ok v' \<and> vector_lookup v' = (vector_lookup v)(i := y)"
    using vector_set_index_law [OF assms(1,3), of y] by blast
  obtain w where "vector_ensure v i = Some w" "vec_ok w" "i < alloced w" "vector_lookup w = vector_lookup v"
    using vector_ensure_ok [OF assms(1,3)] by blast
  then show "\<exists>v'. vector_lookup_ensure v i = Some (vector_lookup v i, v') \<and> vec_ok v' \<and> vector_lookup v' = vector_lookup v"
    using vec_ok_nth [of w i] by (simp add: vector_lookup_ensure_def)
  show "vector_count v = card (dom (vector_lookup v))" by (simp add: vector_count_card dom_def)
  show "vector_lookup (vector_copy v) = vector_lookup v" using assms(1) by (auto simp: vec_ok_def vector_copy_def vector_lookup_def)
qed (use vector_unset_law [OF assms(1)] in auto)

theorem vector_refines_map_witness:
  "\<exists>k v'. vector_set (vector_init 1) (Some (7 :: nat)) = Some (k, v') \<and> k = 0 \<and> vector_lookup v' 0 = Some 7"
  using vector_refines_map [of "vector_init 1" 0 "7 :: nat" None] vector_init_ok [of 1]
  by (auto simp: vector_init_def vector_set_def vector_empty_slot_def vector_ensure.simps vector_lookup_def Let_def)

end
