(* ===== verification/Lib_Routemap.thy ===== *)
theory Lib_Routemap
  imports Lib_Plist Lib_Vector
begin

text \<open>
  The route maps of \<open>lib/routemap.c\<close>: the maps by name, their entries in the order of their preferences, the match and set rules of
  an entry, the commands, and the application of a map to an object of a daemon.  A linked list is the list of its elements.  The
  commands of the rules belong to the daemons: a pointer to one is its slot in the vector it is installed in.  A pointer to a
  map is its name and a pointer to an entry its map and preference, which are unique.  Following a pointer that is gone is \<^term>\<open>None\<close>.
  Calls of the hooks are recorded in order.
\<close>

section \<open>Definitions\<close>

datatype route_map_type = RMAP_PERMIT | RMAP_DENY | RMAP_ANY

datatype route_map_result_t = RMAP_MATCH | RMAP_DENYMATCH | RMAP_NOMATCH | RMAP_ERROR | RMAP_OKAY

datatype route_map_object_t = RMAP_RIP | RMAP_RIPNG | RMAP_OSPF | RMAP_OSPF6 | RMAP_BGP

datatype route_map_end_t = RMAP_EXIT | RMAP_GOTO | RMAP_NEXT

datatype route_map_event_t =
    RMAP_EVENT_SET_ADDED | RMAP_EVENT_SET_DELETED | RMAP_EVENT_SET_REPLACED
  | RMAP_EVENT_MATCH_ADDED | RMAP_EVENT_MATCH_DELETED | RMAP_EVENT_MATCH_REPLACED
  | RMAP_EVENT_INDEX_ADDED | RMAP_EVENT_INDEX_DELETED

datatype rmap_return = RMAP_RULE_OK | RMAP_RULE_MISSING | RMAP_COMPILE_ERROR

record ('v, 'o) route_map_rule_cmd =
  cmd_str :: string
  func_apply :: "'v option \<Rightarrow> prefix \<Rightarrow> route_map_object_t \<Rightarrow> 'o \<Rightarrow> route_map_result_t \<times> 'o"
  func_compile :: "(string option \<Rightarrow> 'v option) option"

type_synonym ('v, 'o) rule_vec = "('v, 'o) route_map_rule_cmd vector"

record 'v route_map_rule =
  r_cmd :: nat
  rule_str :: "string option"
  r_value :: "'v option"

record 'v route_map_index =
  pref :: int
  ix_type :: route_map_type
  exitpolicy :: route_map_end_t
  nextpref :: int
  match_list :: "'v route_map_rule list"
  set_list :: "'v route_map_rule list"

record 'v route_map =
  rm_name :: string
  rm_index :: "'v route_map_index list"

datatype rmap_call =
    Rmap_added string
  | Rmap_deleted string
  | Rmap_event route_map_event_t string

record 'v route_map_list =
  rm_maps :: "'v route_map list"
  rm_add_hook :: bool
  rm_delete_hook :: bool
  rm_event_hook :: bool
  rm_calls :: "rmap_call list"

subsection \<open>Maps\<close>

definition route_map_new :: "string \<Rightarrow> 'v route_map" where
  "route_map_new name = \<lparr>rm_name = name, rm_index = []\<rparr>"

definition route_map_add :: "string \<Rightarrow> 'v route_map_list \<Rightarrow> 'v route_map_list" where
  "route_map_add name st =
     st\<lparr>rm_maps := rm_maps st @ [route_map_new name], rm_calls := rm_calls st @ (if rm_add_hook st then [Rmap_added name] else [])\<rparr>"

definition route_map_lookup_by_name :: "string \<Rightarrow> 'v route_map_list \<Rightarrow> 'v route_map option" where
  "route_map_lookup_by_name name st = find (\<lambda>m. rm_name m = name) (rm_maps st)"

definition route_map_get :: "string \<Rightarrow> 'v route_map_list \<Rightarrow> 'v route_map_list" where
  "route_map_get name st = (case route_map_lookup_by_name name st of Some _ \<Rightarrow> st | None \<Rightarrow> route_map_add name st)"

definition route_map_empty :: "'v route_map \<Rightarrow> bool" where
  "route_map_empty m \<longleftrightarrow> rm_index m = []"

text \<open>Writing through a pointer to a map.\<close>

definition rm_update :: "string \<Rightarrow> ('v route_map_index list \<Rightarrow> 'v route_map_index list) \<Rightarrow> 'v route_map_list \<Rightarrow> 'v route_map_list" where
  "rm_update name f st = st\<lparr>rm_maps := map (\<lambda>m. if rm_name m = name then m\<lparr>rm_index := f (rm_index m)\<rparr> else m) (rm_maps st)\<rparr>"

definition rm_event :: "route_map_event_t \<Rightarrow> string \<Rightarrow> 'v route_map_list \<Rightarrow> 'v route_map_list" where
  "rm_event ev name st = (if rm_event_hook st then st\<lparr>rm_calls := rm_calls st @ [Rmap_event ev name]\<rparr> else st)"

subsection \<open>Entries\<close>

definition route_map_index_new :: "route_map_type \<Rightarrow> int \<Rightarrow> 'v route_map_index" where
  "route_map_index_new ty pf = \<lparr>pref = pf, ix_type = ty, exitpolicy = RMAP_EXIT, nextpref = 0, match_list = [], set_list = []\<rparr>"

text \<open>The rules of the entry go with it.\<close>

definition route_map_index_delete :: "string \<Rightarrow> int \<Rightarrow> bool \<Rightarrow> 'v route_map_list \<Rightarrow> 'v route_map_list" where
  "route_map_index_delete name pf notify st =
     (let st = rm_update name (filter (\<lambda>i. pref i \<noteq> pf)) st in
      if notify then rm_event RMAP_EVENT_INDEX_DELETED name st else st)"

definition route_map_index_lookup :: "'v route_map \<Rightarrow> route_map_type \<Rightarrow> int \<Rightarrow> 'v route_map_index option" where
  "route_map_index_lookup m ty pf = find (\<lambda>i. (ix_type i = ty \<or> ty = RMAP_ANY) \<and> pref i = pf) (rm_index m)"

definition route_map_index_add :: "string \<Rightarrow> route_map_type \<Rightarrow> int \<Rightarrow> 'v route_map_list \<Rightarrow> 'v route_map_list" where
  "route_map_index_add name ty pf st =
     rm_event RMAP_EVENT_INDEX_ADDED name
       (rm_update name (\<lambda>is. insert_before (\<lambda>point. pref point \<ge> pf) (route_map_index_new ty pf) is) st)"

definition route_map_index_get :: "string \<Rightarrow> route_map_type \<Rightarrow> int \<Rightarrow> 'v route_map_list \<Rightarrow> 'v route_map_list option" where
  "route_map_index_get name ty pf st = do {
     m \<leftarrow> route_map_lookup_by_name name st;
     Some (case route_map_index_lookup m RMAP_ANY pf of
             None \<Rightarrow> route_map_index_add name ty pf st
           | Some i \<Rightarrow>
               if ix_type i \<noteq> ty then route_map_index_add name ty pf (route_map_index_delete name pf True st)
               else st)
   }"

definition route_map_delete :: "string \<Rightarrow> 'v route_map_list \<Rightarrow> 'v route_map_list" where
  "route_map_delete name st =
     st\<lparr>rm_maps := filter (\<lambda>m. rm_name m \<noteq> name) (rm_maps st),
        rm_calls := rm_calls st @ (if rm_delete_hook st then [Rmap_deleted name] else [])\<rparr>"

subsection \<open>Rules\<close>

definition route_map_install :: "('v, 'o) route_map_rule_cmd \<Rightarrow> ('v, 'o) rule_vec \<Rightarrow> ('v, 'o) rule_vec option" where
  "route_map_install cmd vec = map_option snd (vector_set vec (Some cmd))"

text \<open>\<open>route_map_lookup_match\<close> and \<open>route_map_lookup_set\<close>, on their vectors.\<close>

definition route_map_lookup_cmd :: "('v, 'o) rule_vec \<Rightarrow> string \<Rightarrow> nat option" where
  "route_map_lookup_cmd vec name =
     find (\<lambda>i. case vec_index vec ! i of None \<Rightarrow> False | Some cmd \<Rightarrow> cmd_str cmd = name) [0..<vec_max vec]"

text \<open>The entry a pointer points to, and writing through it.\<close>

definition index_at :: "string \<Rightarrow> int \<Rightarrow> 'v route_map_list \<Rightarrow> 'v route_map_index option" where
  "index_at name pf st = do {
     m \<leftarrow> route_map_lookup_by_name name st;
     find (\<lambda>i. pref i = pf) (rm_index m)
   }"

definition index_put :: "string \<Rightarrow> int \<Rightarrow> 'v route_map_index \<Rightarrow> 'v route_map_list \<Rightarrow> 'v route_map_list" where
  "index_put name pf i st = rm_update name (map (\<lambda>j. if pref j = pf then i else j)) st"

text \<open>The common part of \<open>route_map_add_match\<close> and \<open>route_map_add_set\<close>: the rules of the same command are replaced by the new one.  The
  result says whether there were any.\<close>

definition rule_add :: "('v, 'o) rule_vec \<Rightarrow> string \<Rightarrow> string option \<Rightarrow> 'v route_map_rule list
    \<Rightarrow> (rmap_return \<times> bool \<times> 'v route_map_rule list) option" where
  "rule_add vec name arg rules =
     (case route_map_lookup_cmd vec name of
        None \<Rightarrow> Some (RMAP_RULE_MISSING, False, rules)
      | Some c \<Rightarrow> do {
          cmd \<leftarrow> vector_lookup vec c;
          case func_compile cmd of
            None \<Rightarrow> Some (RMAP_RULE_OK, \<exists>r\<in>set rules. r_cmd r = c,
                      filter (\<lambda>r. r_cmd r \<noteq> c) rules @ [\<lparr>r_cmd = c, rule_str = arg, r_value = None\<rparr>])
          | Some compile \<Rightarrow>
              (case compile arg of
                 None \<Rightarrow> Some (RMAP_COMPILE_ERROR, False, rules)
               | Some v \<Rightarrow> Some (RMAP_RULE_OK, \<exists>r\<in>set rules. r_cmd r = c,
                      filter (\<lambda>r. r_cmd r \<noteq> c) rules @ [\<lparr>r_cmd = c, rule_str = arg, r_value = Some v\<rparr>]))
        })"

definition route_map_add_match :: "('v, 'o) rule_vec \<Rightarrow> string \<Rightarrow> int \<Rightarrow> string \<Rightarrow> string option \<Rightarrow> 'v route_map_list
    \<Rightarrow> (rmap_return \<times> 'v route_map_list) option" where
  "route_map_add_match vec map_name pf match_name match_arg st = do {
     i \<leftarrow> index_at map_name pf st;
     (ret, replaced, rules) \<leftarrow> rule_add vec match_name match_arg (match_list i);
     Some (ret, if ret = RMAP_RULE_OK
                then rm_event (if replaced then RMAP_EVENT_MATCH_REPLACED else RMAP_EVENT_MATCH_ADDED) map_name
                       (index_put map_name pf (i\<lparr>match_list := rules\<rparr>) st)
                else st)
   }"

definition route_map_add_set :: "('v, 'o) rule_vec \<Rightarrow> string \<Rightarrow> int \<Rightarrow> string \<Rightarrow> string option \<Rightarrow> 'v route_map_list
    \<Rightarrow> (rmap_return \<times> 'v route_map_list) option" where
  "route_map_add_set vec map_name pf set_name set_arg st = do {
     i \<leftarrow> index_at map_name pf st;
     (ret, replaced, rules) \<leftarrow> rule_add vec set_name set_arg (set_list i);
     Some (ret, if ret = RMAP_RULE_OK
                then rm_event (if replaced then RMAP_EVENT_SET_REPLACED else RMAP_EVENT_SET_ADDED) map_name
                       (index_put map_name pf (i\<lparr>set_list := rules\<rparr>) st)
                else st)
   }"

definition rulecmp :: "string option \<Rightarrow> string option \<Rightarrow> bool" where
  "rulecmp dst src \<longleftrightarrow> dst \<noteq> src"

text \<open>The common part of \<open>route_map_delete_match\<close> and \<open>route_map_delete_set\<close>: the first rule that fits goes.\<close>

fun rule_unlink :: "('r \<Rightarrow> bool) \<Rightarrow> 'r list \<Rightarrow> 'r list option" where
  "rule_unlink P [] = None"
| "rule_unlink P (r # rs) = (if P r then Some rs else map_option (Cons r) (rule_unlink P rs))"

definition rule_del :: "('v, 'o) rule_vec \<Rightarrow> string \<Rightarrow> string option \<Rightarrow> 'v route_map_rule list \<Rightarrow> 'v route_map_rule list option" where
  "rule_del vec name arg rules =
     (case route_map_lookup_cmd vec name of
        None \<Rightarrow> None
      | Some c \<Rightarrow> rule_unlink (\<lambda>r. r_cmd r = c \<and> (\<not> rulecmp (rule_str r) arg \<or> arg = None)) rules)"

text \<open>The result is whether a rule was deleted (the code returns 0) or not (1).\<close>

definition route_map_delete_match :: "('v, 'o) rule_vec \<Rightarrow> string \<Rightarrow> int \<Rightarrow> string \<Rightarrow> string option \<Rightarrow> 'v route_map_list
    \<Rightarrow> (bool \<times> 'v route_map_list) option" where
  "route_map_delete_match vec map_name pf match_name match_arg st = do {
     i \<leftarrow> index_at map_name pf st;
     Some (case rule_del vec match_name match_arg (match_list i) of
             None \<Rightarrow> (False, st)
           | Some rules \<Rightarrow> (True, rm_event RMAP_EVENT_MATCH_DELETED map_name (index_put map_name pf (i\<lparr>match_list := rules\<rparr>) st)))
   }"

definition route_map_delete_set :: "('v, 'o) rule_vec \<Rightarrow> string \<Rightarrow> int \<Rightarrow> string \<Rightarrow> string option \<Rightarrow> 'v route_map_list
    \<Rightarrow> (bool \<times> 'v route_map_list) option" where
  "route_map_delete_set vec map_name pf set_name set_arg st = do {
     i \<leftarrow> index_at map_name pf st;
     Some (case rule_del vec set_name set_arg (set_list i) of
             None \<Rightarrow> (False, st)
           | Some rules \<Rightarrow> (True, rm_event RMAP_EVENT_SET_DELETED map_name (index_put map_name pf (i\<lparr>set_list := rules\<rparr>) st)))
   }"

subsection \<open>Application\<close>

definition rule_apply :: "('v, 'o) rule_vec \<Rightarrow> 'v route_map_rule \<Rightarrow> prefix \<Rightarrow> route_map_object_t \<Rightarrow> 'o \<Rightarrow> (route_map_result_t \<times> 'o) option" where
  "rule_apply vec r p ty ob = map_option (\<lambda>cmd. func_apply cmd (r_value r) p ty ob) (vector_lookup vec (r_cmd r))"

text \<open>The loop over the match rules: \<open>ret\<close> is the result of the last rule that was tried.\<close>

fun rmap_match_loop :: "('v, 'o) rule_vec \<Rightarrow> prefix \<Rightarrow> route_map_object_t \<Rightarrow> 'v route_map_rule list \<Rightarrow> route_map_result_t \<Rightarrow> 'o
    \<Rightarrow> (route_map_result_t \<times> 'o) option" where
  "rmap_match_loop vec p ty [] ret ob = Some (ret, ob)"
| "rmap_match_loop vec p ty (r # rs) ret ob = do {
     (ret, ob) \<leftarrow> rule_apply vec r p ty ob;
     if ret = RMAP_MATCH then Some (ret, ob) else rmap_match_loop vec p ty rs ret ob
   }"

fun rmap_set_loop :: "('v, 'o) rule_vec \<Rightarrow> prefix \<Rightarrow> route_map_object_t \<Rightarrow> 'v route_map_rule list \<Rightarrow> 'o \<Rightarrow> 'o option" where
  "rmap_set_loop vec p ty [] ob = Some ob"
| "rmap_set_loop vec p ty (r # rs) ob = do {
     (ret, ob) \<leftarrow> rule_apply vec r p ty ob;
     rmap_set_loop vec p ty rs ob
   }"

definition route_map_apply_index :: "('v, 'o) rule_vec \<Rightarrow> ('v, 'o) rule_vec \<Rightarrow> 'v route_map_index \<Rightarrow> prefix \<Rightarrow> route_map_object_t \<Rightarrow> 'o
    \<Rightarrow> (route_map_result_t \<times> 'o) option" where
  "route_map_apply_index mv sv i p ty ob = do {
     (ret, ob) \<leftarrow> (if match_list i = [] then Some (RMAP_MATCH, ob) else rmap_match_loop mv p ty (match_list i) RMAP_MATCH ob);
     if ret \<noteq> RMAP_MATCH then Some (ret, ob)
     else if ix_type i = RMAP_PERMIT then do {
       ob \<leftarrow> rmap_set_loop sv p ty (set_list i) ob;
       Some (RMAP_MATCH, ob)
     }
     else Some (RMAP_DENYMATCH, ob)
   }"

text \<open>The loop over the entries.  A jump goes to the first later entry that is not before \<open>nextpref\<close>.\<close>

function apply_entries :: "('v, 'o) rule_vec \<Rightarrow> ('v, 'o) rule_vec \<Rightarrow> prefix \<Rightarrow> route_map_object_t \<Rightarrow> 'v route_map_index list \<Rightarrow> 'o
    \<Rightarrow> (route_map_result_t \<times> 'o) option" where
  "apply_entries mv sv p ty [] ob = Some (RMAP_DENYMATCH, ob)"
| "apply_entries mv sv p ty (i # is) ob =
     (case route_map_apply_index mv sv i p ty ob of
        None \<Rightarrow> None
      | Some (ret, ob) \<Rightarrow>
          if ret = RMAP_DENYMATCH then Some (ret, ob)
          else if ret = RMAP_MATCH then
            (case exitpolicy i of
               RMAP_EXIT \<Rightarrow> Some (ret, ob)
             | RMAP_GOTO \<Rightarrow>
                 if dropWhile (\<lambda>n. pref n < nextpref i) is = [] then Some (ret, ob)
                 else apply_entries mv sv p ty (dropWhile (\<lambda>n. pref n < nextpref i) is) ob
             | RMAP_NEXT \<Rightarrow> apply_entries mv sv p ty is ob)
          else apply_entries mv sv p ty is ob)"
  by pat_completeness auto
termination
  by (relation "measure (\<lambda>(mv, sv, p, ty, is, ob). length is)") (auto simp: less_Suc_eq_le length_dropWhile_le)

definition route_map_apply :: "('v, 'o) rule_vec \<Rightarrow> ('v, 'o) rule_vec \<Rightarrow> 'v route_map option \<Rightarrow> prefix \<Rightarrow> route_map_object_t \<Rightarrow> 'o
    \<Rightarrow> (route_map_result_t \<times> 'o) option" where
  "route_map_apply mv sv m p ty ob =
     (case m of None \<Rightarrow> Some (RMAP_DENYMATCH, ob) | Some m \<Rightarrow> apply_entries mv sv p ty (rm_index m) ob)"

subsection \<open>Commands\<close>

abbreviation ULONG_MAX :: nat where "ULONG_MAX \<equiv> 2 ^ 64 - 1"

text \<open>\<open>strtoul\<close> in base 10: the value and the rest of the text.\<close>

definition strtoul :: "string \<Rightarrow> nat \<times> string" where
  "strtoul s =
     (let t = dropWhile is_space s;
          (neg, d) = (case t of c # cs \<Rightarrow> if c = CHR ''-'' then (True, cs) else if c = CHR ''+'' then (False, cs) else (False, t) | [] \<Rightarrow> (False, t));
          v = digits_val (takeWhile is_digit d)
      in if takeWhile is_digit d = [] then (0, s)
         else if v > ULONG_MAX then (ULONG_MAX, dropWhile is_digit d)
         else (if neg then (2 ^ 64 - v) mod 2 ^ 64 else v, dropWhile is_digit d))"

text \<open>The arguments of the commands: \<open>strncmp\<close> accepts every abbreviation.\<close>

definition rmap_permit :: "string \<Rightarrow> route_map_type option" where
  "rmap_permit s =
     (if take (length s) ''permit'' = s then Some RMAP_PERMIT
      else if take (length s) ''deny'' = s then Some RMAP_DENY
      else None)"

definition rmap_pref :: "string \<Rightarrow> int option" where
  "rmap_pref s =
     (let (v, endptr) = strtoul s in
      if v = ULONG_MAX \<or> endptr \<noteq> [] then None
      else if v = 0 \<or> v > 65535 then None
      else Some (int v))"

text \<open>\<open>route-map\<close>: the result has the entry the terminal now edits.\<close>

definition cmd_route_map :: "string \<Rightarrow> string \<Rightarrow> string \<Rightarrow> 'v route_map_list \<Rightarrow> (cmd_result \<times> (string \<times> int) option \<times> 'v route_map_list) option" where
  "cmd_route_map name permit_str pref_str st =
     (case rmap_permit permit_str of
        None \<Rightarrow> Some (CMD_WARNING, None, st)
      | Some permit \<Rightarrow>
          (case rmap_pref pref_str of
             None \<Rightarrow> Some (CMD_WARNING, None, st)
           | Some pf \<Rightarrow> do {
               st \<leftarrow> route_map_index_get name permit pf (route_map_get name st);
               Some (CMD_SUCCESS, Some (name, pf), st)
             }))"

definition cmd_no_route_map_all :: "string \<Rightarrow> 'v route_map_list \<Rightarrow> cmd_result \<times> 'v route_map_list" where
  "cmd_no_route_map_all name st =
     (case route_map_lookup_by_name name st of
        None \<Rightarrow> (CMD_WARNING, st)
      | Some m \<Rightarrow> (CMD_SUCCESS, route_map_delete name st))"

definition cmd_no_route_map :: "string \<Rightarrow> string \<Rightarrow> string \<Rightarrow> 'v route_map_list \<Rightarrow> (cmd_result \<times> 'v route_map_list) option" where
  "cmd_no_route_map name permit_str pref_str st =
     (case rmap_permit permit_str of
        None \<Rightarrow> Some (CMD_WARNING, st)
      | Some permit \<Rightarrow>
          (case rmap_pref pref_str of
             None \<Rightarrow> Some (CMD_WARNING, st)
           | Some pf \<Rightarrow>
               (case route_map_lookup_by_name name st of
                  None \<Rightarrow> Some (CMD_WARNING, st)
                | Some m \<Rightarrow>
                    (case route_map_index_lookup m permit pf of
                       None \<Rightarrow> Some (CMD_WARNING, st)
                     | Some i \<Rightarrow> do {
                         let st = route_map_index_delete name (pref i) True st;
                         m \<leftarrow> route_map_lookup_by_name name st;
                         Some (CMD_SUCCESS, if route_map_empty m then route_map_delete name st else st)
                       }))))"

text \<open>The commands of an entry, whose pointer the terminal holds.\<close>

definition cmd_set_exit :: "route_map_end_t \<Rightarrow> (string \<times> int) option \<Rightarrow> 'v route_map_list \<Rightarrow> (cmd_result \<times> 'v route_map_list) option" where
  "cmd_set_exit ep index st =
     (case index of
        None \<Rightarrow> Some (CMD_SUCCESS, st)
      | Some (name, pf) \<Rightarrow> do {
          i \<leftarrow> index_at name pf st;
          Some (CMD_SUCCESS, index_put name pf (i\<lparr>exitpolicy := ep\<rparr>) st)
        })"

definition rmap_continue :: "(string \<times> int) option \<Rightarrow> 'v route_map_list \<Rightarrow> (cmd_result \<times> 'v route_map_list) option" where
  "rmap_continue index st = cmd_set_exit RMAP_NEXT index st"

definition no_rmap_continue :: "(string \<times> int) option \<Rightarrow> 'v route_map_list \<Rightarrow> (cmd_result \<times> 'v route_map_list) option" where
  "no_rmap_continue index st = cmd_set_exit RMAP_EXIT index st"

definition rmap_continue_seq :: "string option \<Rightarrow> (string \<times> int) option \<Rightarrow> 'v route_map_list \<Rightarrow> (cmd_result \<times> 'v route_map_list) option" where
  "rmap_continue_seq arg index st =
     (let d = (case arg of Some a \<Rightarrow> atoi a | None \<Rightarrow> 0) in
      case index of
        None \<Rightarrow> Some (CMD_SUCCESS, st)
      | Some (name, pf) \<Rightarrow> do {
          i \<leftarrow> index_at name pf st;
          Some (if d \<le> pref i then (CMD_WARNING, st)
                else (CMD_SUCCESS, index_put name pf (i\<lparr>exitpolicy := RMAP_GOTO, nextpref := d\<rparr>) st))
        })"

section \<open>Maps and entries as partial maps\<close>

definition rmap_entry_ok :: "'v route_map_index \<Rightarrow> bool" where
  "rmap_entry_ok i \<longleftrightarrow> ix_type i \<noteq> RMAP_ANY \<and> (exitpolicy i = RMAP_GOTO \<longrightarrow> pref i < nextpref i)
     \<and> distinct (map r_cmd (match_list i)) \<and> distinct (map r_cmd (set_list i))"

definition entries_ok :: "'v route_map_index list \<Rightarrow> bool" where
  "entries_ok is \<longleftrightarrow> sorted (map pref is) \<and> distinct (map pref is) \<and> (\<forall>i\<in>set is. rmap_entry_ok i)"

text \<open>Names are unique; the entries of a map are in the order of their preferences, which are unique; jumps go forward; an entry has
  at most one match and one set rule of every command.\<close>

definition rmap_inv :: "'v route_map_list \<Rightarrow> bool" where
  "rmap_inv st \<longleftrightarrow> distinct (map rm_name (rm_maps st)) \<and> (\<forall>m\<in>set (rm_maps st). entries_ok (rm_index m))"

lemma find_key:
  assumes "distinct (map f xs)"
  shows "find (\<lambda>i. f i = k) xs = Some i \<longleftrightarrow> i \<in> set xs \<and> f i = k"
  using assms by (induction xs) auto

lemma find_key_None: "find (\<lambda>i. f i = k) xs = None \<longleftrightarrow> k \<notin> f ` set xs"
  by (auto simp: find_None_iff)

text \<open>Two lists with unique keys that have the same elements are the same map.\<close>

lemma find_key_eqI:
  assumes "distinct (map f xs)" "\<And>i. i \<in> set xs \<and> f i = k \<longleftrightarrow> v = Some i"
  shows "find (\<lambda>i. f i = k) xs = v"
proof (cases v)
  case None
  then show ?thesis using assms(2) by (auto simp: find_None_iff)
next
  case (Some i)
  then show ?thesis using find_key [OF assms(1), of k i] assms(2) by simp
qed

lemma rm_event_maps [simp]: "rm_maps (rm_event ev name st) = rm_maps st"
  by (simp add: rm_event_def)

lemma find_map_name: "(\<And>m. rm_name (g m) = rm_name m) \<Longrightarrow> find (\<lambda>m. rm_name m = n) (map g ms) = map_option g (find (\<lambda>m. rm_name m = n) ms)"
  by (induction ms) auto

lemma rm_update_lookup:
  "route_map_lookup_by_name n (rm_update name f st) =
     map_option (\<lambda>m. if n = name then m\<lparr>rm_index := f (rm_index m)\<rparr> else m) (route_map_lookup_by_name n st)"
proof -
  have "find (\<lambda>m. rm_name m = n) (map (\<lambda>m. if rm_name m = name then m\<lparr>rm_index := f (rm_index m)\<rparr> else m) ms) =
      map_option (\<lambda>m. if n = name then m\<lparr>rm_index := f (rm_index m)\<rparr> else m) (find (\<lambda>m. rm_name m = n) ms)" for ms
    by (induction ms) auto
  then show ?thesis by (simp add: route_map_lookup_by_name_def rm_update_def)
qed

lemma rmap_inv_event [simp]: "rmap_inv (rm_event ev name st) = rmap_inv st"
  "route_map_lookup_by_name n (rm_event ev name st) = route_map_lookup_by_name n st" "index_at n k (rm_event ev name st) = index_at n k st"
  by (simp_all add: rmap_inv_def route_map_lookup_by_name_def index_at_def)

lemma rmap_inv_update:
  assumes "rmap_inv st" "\<And>is. entries_ok is \<Longrightarrow> entries_ok (f is)"
  shows "rmap_inv (rm_update name f st)"
proof -
  have "map rm_name (rm_maps (rm_update name f st)) = map rm_name (rm_maps st)" by (simp add: rm_update_def o_def if_distrib cong: if_cong)
  moreover have "\<forall>m\<in>set (rm_maps (rm_update name f st)). entries_ok (rm_index m)" using assms by (auto simp: rmap_inv_def rm_update_def)
  ultimately show ?thesis using assms(1) by (simp only: rmap_inv_def)
qed

lemma rmap_inv_lookup: "rmap_inv st \<Longrightarrow> route_map_lookup_by_name name st = Some m \<Longrightarrow> entries_ok (rm_index m)"
  unfolding rmap_inv_def route_map_lookup_by_name_def by (metis find_Some_iff nth_mem)

lemma index_at_update:
  "index_at n k (rm_update name f st) =
     (if n = name then Option.bind (route_map_lookup_by_name name st) (\<lambda>m. find (\<lambda>i. pref i = k) (f (rm_index m))) else index_at n k st)"
  by (cases "route_map_lookup_by_name n st") (auto simp: index_at_def rm_update_lookup)

text \<open>A change of the entry at one preference.\<close>

lemma entries_put:
  assumes "entries_ok is" "rmap_entry_ok i" "pref i = pf"
  shows "entries_ok (map (\<lambda>j. if pref j = pf then i else j) is)"
    "find (\<lambda>j. pref j = k) (map (\<lambda>j. if pref j = pf then i else j) is) = (if k = pf \<and> pf \<in> pref ` set is then Some i else find (\<lambda>j. pref j = k) is)"
proof -
  have "map pref (map (\<lambda>j. if pref j = pf then i else j) is) = map pref is" using assms(3) by simp
  moreover have "\<forall>j\<in>set (map (\<lambda>j. if pref j = pf then i else j) is). rmap_entry_ok j" using assms(1,2) by (auto simp: entries_ok_def)
  ultimately show "entries_ok (map (\<lambda>j. if pref j = pf then i else j) is)" using assms(1) by (simp only: entries_ok_def)
  show "find (\<lambda>j. pref j = k) (map (\<lambda>j. if pref j = pf then i else j) is) = (if k = pf \<and> pf \<in> pref ` set is then Some i else find (\<lambda>j. pref j = k) is)"
    using assms(3) by (induction "is") auto
qed

lemma entries_remove:
  assumes "entries_ok is"
  shows "entries_ok (filter (\<lambda>i. pref i \<noteq> pf) is)" "find (\<lambda>j. pref j = k) (filter (\<lambda>i. pref i \<noteq> pf) is) = (if k = pf then None else find (\<lambda>j. pref j = k) is)"
proof -
  show "entries_ok (filter (\<lambda>i. pref i \<noteq> pf) is)" using assms by (auto simp: entries_ok_def sorted_filter distinct_map_filter)
  show "find (\<lambda>j. pref j = k) (filter (\<lambda>i. pref i \<noteq> pf) is) = (if k = pf then None else find (\<lambda>j. pref j = k) is)"
    by (induction "is") auto
qed

lemma entries_insert:
  assumes "entries_ok is" "ty \<noteq> RMAP_ANY" "pf \<notin> pref ` set is"
  defines "new \<equiv> route_map_index_new ty pf"
  shows "entries_ok (insert_before (\<lambda>point. pref point \<ge> pf) new is)"
    "find (\<lambda>j. pref j = k) (insert_before (\<lambda>point. pref point \<ge> pf) new is) = (if k = pf then Some new else find (\<lambda>j. pref j = k) is)"
proof -
  have new: "pref new = pf" "rmap_entry_ok new" using assms(2) by (simp_all add: new_def route_map_index_new_def rmap_entry_ok_def)
  have s: "sorted (map pref is)" "distinct (map pref is)" using assms(1) by (simp_all add: entries_ok_def)
  have d: "distinct (map pref (insert_before (\<lambda>point. pref point \<ge> pf) new is))" by (rule distinct_insert_before) (use s assms(3) new in auto)
  show "entries_ok (insert_before (\<lambda>point. pref point \<ge> pf) new is)"
    using assms(1) d new sorted_insert_before [OF s(1), of new] by (auto simp: entries_ok_def)
  show "find (\<lambda>j. pref j = k) (insert_before (\<lambda>point. pref point \<ge> pf) new is) = (if k = pf then Some new else find (\<lambda>j. pref j = k) is)"
  proof (rule find_key_eqI [OF d])
    show "i \<in> set (insert_before (\<lambda>point. pref point \<ge> pf) new is) \<and> pref i = k
        \<longleftrightarrow> (if k = pf then Some new else find (\<lambda>j. pref j = k) is) = Some i" for i
      using new(1) assms(3) find_key [OF s(2), of k i] by (cases "k = pf") (auto simp: image_iff)
  qed
qed

lemma rmap_get_law:
  assumes "rmap_inv st"
  shows "rmap_inv (route_map_get name st)" "index_at n k (route_map_get name st) = index_at n k st"
    "\<exists>m. route_map_lookup_by_name name (route_map_get name st) = Some m"
proof -
  have add: "route_map_lookup_by_name n (route_map_add name st) =
      (case route_map_lookup_by_name n st of Some m \<Rightarrow> Some m | None \<Rightarrow> if n = name then Some (route_map_new name) else None)" for n
  proof -
    have "find P (xs @ ys) = (case find P xs of Some x \<Rightarrow> Some x | None \<Rightarrow> find P ys)" for P and xs ys :: "'a route_map list"
      by (induction xs) auto
    then show ?thesis by (auto simp: route_map_lookup_by_name_def route_map_add_def route_map_new_def split: option.splits)
  qed
  show "rmap_inv (route_map_get name st)"
    using assms find_key_None [of rm_name name "rm_maps st"]
    by (auto simp: route_map_get_def rmap_inv_def route_map_add_def route_map_new_def entries_ok_def route_map_lookup_by_name_def
        split: option.splits)
  show "index_at n k (route_map_get name st) = index_at n k st"
    by (auto simp: route_map_get_def index_at_def add route_map_new_def split: option.splits)
  show "\<exists>m. route_map_lookup_by_name name (route_map_get name st) = Some m"
    by (auto simp: route_map_get_def add split: option.splits)
qed

lemma rmap_delete_law:
  assumes "rmap_inv st"
  shows "rmap_inv (route_map_delete name st)" "index_at n k (route_map_delete name st) = (if n = name then None else index_at n k st)"
proof -
  show "rmap_inv (route_map_delete name st)" using assms by (auto simp: rmap_inv_def route_map_delete_def distinct_map_filter)
  have "find (\<lambda>m. rm_name m = n) (filter (\<lambda>m. rm_name m \<noteq> name) ms) = (if n = name then None else find (\<lambda>m. rm_name m = n) ms)"
    for ms :: "'a route_map list"
    by (induction ms) auto
  then show "index_at n k (route_map_delete name st) = (if n = name then None else index_at n k st)"
    by (simp add: index_at_def route_map_lookup_by_name_def route_map_delete_def)
qed

lemma index_delete_law:
  assumes "rmap_inv st"
  shows "rmap_inv (route_map_index_delete name pf notify st)"
    "index_at n k (route_map_index_delete name pf notify st) = (if n = name \<and> k = pf then None else index_at n k st)"
proof -
  show "rmap_inv (route_map_index_delete name pf notify st)"
    using rmap_inv_update [OF assms entries_remove(1)] by (simp add: route_map_index_delete_def Let_def)
  have "find (\<lambda>j. pref j = k) (filter (\<lambda>i. pref i \<noteq> pf) is) = (if k = pf then None else find (\<lambda>j. pref j = k) is)" for "is" :: "'a route_map_index list"
    by (induction "is") auto
  then show "index_at n k (route_map_index_delete name pf notify st) = (if n = name \<and> k = pf then None else index_at n k st)"
    by (auto simp: route_map_index_delete_def Let_def index_at_update) (auto simp: index_at_def)
qed

lemma index_add_law:
  assumes i: "rmap_inv st" and m: "route_map_lookup_by_name name st = Some m" and n: "index_at name pf st = None" and ty: "ty \<noteq> RMAP_ANY"
  shows "rmap_inv (route_map_index_add name ty pf st)"
    "index_at n k (route_map_index_add name ty pf st) = (if n = name \<and> k = pf then Some (route_map_index_new ty pf) else index_at n k st)"
proof -
  let ?f = "insert_before (\<lambda>point. pref point \<ge> pf) (route_map_index_new ty pf)"
  have fresh: "pf \<notin> pref ` set (rm_index m)" using n m by (simp add: index_at_def find_key_None)
  note ok = rmap_inv_lookup [OF i m] and ins = entries_insert [OF rmap_inv_lookup [OF i m] ty fresh]
  have names: "map rm_name (rm_maps (rm_update name ?f st)) = map rm_name (rm_maps st)" by (simp add: rm_update_def o_def if_distrib cong: if_cong)
  have "x = m" if "x \<in> set (rm_maps st)" "rm_name x = name" for x
    using that find_key [of rm_name "rm_maps st" name x] i m by (simp add: rmap_inv_def route_map_lookup_by_name_def)
  then have "\<forall>x\<in>set (rm_maps (rm_update name ?f st)). entries_ok (rm_index x)"
    using i ins(1) by (auto simp: rmap_inv_def rm_update_def)
  then show "rmap_inv (route_map_index_add name ty pf st)"
    using i names unfolding route_map_index_add_def rmap_inv_event by (simp only: rmap_inv_def)
  show "index_at n k (route_map_index_add name ty pf st) = (if n = name \<and> k = pf then Some (route_map_index_new ty pf) else index_at n k st)"
    using m ins(2) [of k] by (cases "k = pf") (simp_all add: route_map_index_add_def index_at_update, simp_all add: index_at_def)
qed

lemma index_put_law:
  assumes i: "rmap_inv st" and x: "index_at name pf st = Some x" and y: "rmap_entry_ok y" "pref y = pf"
  shows "rmap_inv (index_put name pf y st)" "index_at n k (index_put name pf y st) = (if n = name \<and> k = pf then Some y else index_at n k st)"
proof -
  show "rmap_inv (index_put name pf y st)" unfolding index_put_def by (rule rmap_inv_update [OF i]) (rule entries_put(1) [OF _ y])
  obtain m where m: "route_map_lookup_by_name name st = Some m" "find (\<lambda>i. pref i = pf) (rm_index m) = Some x"
    using x by (auto simp: index_at_def split: bind_splits)
  have "pf \<in> pref ` set (rm_index m)" using m(2) find_key_None [of pref pf "rm_index m"] by auto
  then show "index_at n k (index_put name pf y st) = (if n = name \<and> k = pf then Some y else index_at n k st)"
    using m(1) entries_put(2) [OF rmap_inv_lookup [OF i m(1)] y, of k]
    by (cases "k = pf") (simp_all add: index_put_def index_at_update, simp_all add: index_at_def)
qed

lemma index_at_ok:
  assumes "rmap_inv st" "index_at name pf st = Some i"
  shows "rmap_entry_ok i" "pref i = pf"
proof -
  obtain m where m: "route_map_lookup_by_name name st = Some m" "find (\<lambda>i. pref i = pf) (rm_index m) = Some i"
    using assms(2) by (auto simp: index_at_def split: bind_splits)
  have "i \<in> set (rm_index m) \<and> pref i = pf" using m(2) by (auto simp: find_Some_iff)
  then show "rmap_entry_ok i" "pref i = pf" using rmap_inv_lookup [OF assms(1) m(1)] by (auto simp: entries_ok_def)
qed

lemma find_key_and:
  assumes "distinct (map f xs)"
  shows "find (\<lambda>i. P i \<and> f i = k) xs = (case find (\<lambda>i. f i = k) xs of Some i \<Rightarrow> if P i then Some i else None | None \<Rightarrow> None)"
  using assms
proof (induction xs)
  case (Cons x xs)
  have "find (\<lambda>i. P i \<and> f i = k) xs = None" if "f x = k" using that Cons.prems by (auto simp: find_None_iff image_iff)
  then show ?case using Cons by auto
qed simp

lemma index_lookup_at:
  assumes "rmap_inv st" "route_map_lookup_by_name name st = Some m"
  shows "route_map_index_lookup m ty pf = (case index_at name pf st of Some i \<Rightarrow> if ix_type i = ty \<or> ty = RMAP_ANY then Some i else None | None \<Rightarrow> None)"
proof -
  have "distinct (map pref (rm_index m))" using rmap_inv_lookup [OF assms] by (simp add: entries_ok_def)
  from find_key_and [OF this, of "\<lambda>i. ix_type i = ty \<or> ty = RMAP_ANY" pf] show ?thesis
    using assms(2) by (simp add: route_map_index_lookup_def index_at_def)
qed

section \<open>Commands\<close>

lemma rmap_permit_not_any: "rmap_permit s = Some ty \<Longrightarrow> ty \<noteq> RMAP_ANY"
  by (auto simp: rmap_permit_def split: if_splits)

lemma route_map_index_get_law:
  assumes i: "rmap_inv st" and m: "route_map_lookup_by_name name st = Some m" and ty: "ty \<noteq> RMAP_ANY"
  shows "\<exists>st'. route_map_index_get name ty pf st = Some st' \<and> rmap_inv st'
    \<and> (\<forall>n k. index_at n k st' = (if n = name \<and> k = pf
         then Some (case index_at name pf st of Some i \<Rightarrow> if ix_type i = ty then i else route_map_index_new ty pf | None \<Rightarrow> route_map_index_new ty pf)
         else index_at n k st))"
proof -
  let ?d = "route_map_index_delete name pf True st"
  note d = index_delete_law [OF i, where name = name and pf = pf and notify = True]
  have md: "\<exists>m'. route_map_lookup_by_name name ?d = Some m'" using m by (simp add: route_map_index_delete_def rm_update_lookup)
  note look = index_lookup_at [OF i m, of RMAP_ANY pf]
  show ?thesis
  proof (cases "index_at name pf st")
    case None
    then show ?thesis using m look index_add_law [OF i m None ty] by (simp add: route_map_index_get_def)
  next
    case (Some x)
    show ?thesis
    proof (cases "ix_type x = ty")
      case True
      then show ?thesis using m look Some i by (auto simp: route_map_index_get_def)
    next
      case False
      obtain m' where m': "route_map_lookup_by_name name ?d = Some m'" using md by blast
      have none: "index_at name pf ?d = None" using d(2) by simp
      show ?thesis using m look Some False index_add_law [OF d(1) m' none ty] d(2) by (simp add: route_map_index_get_def)
    qed
  qed
qed

text \<open>C38: the configured route maps are a map from names and preferences to entries.  \<open>route-map\<close> enters a new entry unless there is one of
  the same type; one of the other type is replaced by an empty one.  \<open>no route-map\<close> removes the entry when its type is the one
  that is given, and every command leaves all other entries alone.  The lists stay sorted with unique preferences.\<close>

theorem route_map_commands_refine_map:
  assumes i: "rmap_inv st" and args: "rmap_permit permit_str = Some ty" "rmap_pref pref_str = Some pf"
  shows "(\<exists>st'. cmd_route_map name permit_str pref_str st = Some (CMD_SUCCESS, Some (name, pf), st') \<and> rmap_inv st'
      \<and> (\<forall>n k. index_at n k st' = (if n = name \<and> k = pf
           then Some (case index_at name pf st of Some i \<Rightarrow> if ix_type i = ty then i else route_map_index_new ty pf | None \<Rightarrow> route_map_index_new ty pf)
           else index_at n k st)))
    \<and> (\<exists>ret st'. cmd_no_route_map name permit_str pref_str st = Some (ret, st') \<and> rmap_inv st'
      \<and> (ret = CMD_SUCCESS \<longleftrightarrow> (\<exists>i. index_at name pf st = Some i \<and> ix_type i = ty))
      \<and> (\<forall>n k. index_at n k st' = (if n = name \<and> k = pf \<and> ret = CMD_SUCCESS then None else index_at n k st)))
    \<and> (\<exists>ret st'. cmd_no_route_map_all name st = (ret, st') \<and> rmap_inv st'
      \<and> (\<forall>n k. index_at n k st' = (if n = name then None else index_at n k st)))"
proof (intro conjI)
  have ty: "ty \<noteq> RMAP_ANY" by (rule rmap_permit_not_any [OF args(1)])
  note g = rmap_get_law [OF i, where name = name]
  obtain m where m: "route_map_lookup_by_name name (route_map_get name st) = Some m" using g(3) by blast
  show "\<exists>st'. cmd_route_map name permit_str pref_str st = Some (CMD_SUCCESS, Some (name, pf), st') \<and> rmap_inv st'
      \<and> (\<forall>n k. index_at n k st' = (if n = name \<and> k = pf
           then Some (case index_at name pf st of Some i \<Rightarrow> if ix_type i = ty then i else route_map_index_new ty pf | None \<Rightarrow> route_map_index_new ty pf)
           else index_at n k st))"
    using route_map_index_get_law [OF g(1) m ty, of pf] args unfolding g(2) by (auto simp: cmd_route_map_def)
  note d = index_delete_law [OF i, where name = name and pf = pf and notify = True]
  show "\<exists>ret st'. cmd_no_route_map name permit_str pref_str st = Some (ret, st') \<and> rmap_inv st'
      \<and> (ret = CMD_SUCCESS \<longleftrightarrow> (\<exists>i. index_at name pf st = Some i \<and> ix_type i = ty))
      \<and> (\<forall>n k. index_at n k st' = (if n = name \<and> k = pf \<and> ret = CMD_SUCCESS then None else index_at n k st))"
  proof (cases "\<exists>i. index_at name pf st = Some i \<and> ix_type i = ty")
    case False
    then have "cmd_no_route_map name permit_str pref_str st = Some (CMD_WARNING, st)"
      using args ty index_lookup_at [OF i, of name _ ty pf]
      by (auto simp: cmd_no_route_map_def split: option.splits)
    then show ?thesis using i False by auto
  next
    case True
    then obtain x where x: "index_at name pf st = Some x" "ix_type x = ty" by blast
    obtain m0 where m0: "route_map_lookup_by_name name st = Some m0" using x(1) by (auto simp: index_at_def split: bind_splits)
    have pf: "pref x = pf" using index_at_ok(2) [OF i x(1)] .
    let ?d = "route_map_index_delete name pf True st"
    obtain m1 where m1: "route_map_lookup_by_name name ?d = Some m1" using m0 by (simp add: route_map_index_delete_def rm_update_lookup)
    have e: "cmd_no_route_map name permit_str pref_str st = Some (CMD_SUCCESS, if route_map_empty m1 then route_map_delete name ?d else ?d)"
      using args m0 m1 x pf index_lookup_at [OF i m0, of ty pf] by (simp add: cmd_no_route_map_def)
    have empty: "index_at name k st = None" if "route_map_empty m1" "k \<noteq> pf" for k
      using that m1 d(2) [of name k] by (simp add: index_at_def route_map_empty_def)
    show ?thesis unfolding e using d True empty rmap_delete_law [OF d(1), where name = name] by auto
  qed
  have gone: "index_at name k st = None" if "route_map_lookup_by_name name st = None" for k using that by (simp add: index_at_def)
  show "\<exists>ret st'. cmd_no_route_map_all name st = (ret, st') \<and> rmap_inv st' \<and> (\<forall>n k. index_at n k st' = (if n = name then None else index_at n k st))"
    using rmap_delete_law [OF i, where name = name] i gone by (auto simp: cmd_no_route_map_all_def split: option.splits)
qed

text \<open>A jump that would not go forward is refused, so the jumps of a map always go forward.\<close>

theorem rmap_continue_seq_forward:
  assumes i: "rmap_inv st" and x: "index_at name pf st = Some x"
  shows "\<exists>ret st'. rmap_continue_seq (Some a) (Some (name, pf)) st = Some (ret, st') \<and> rmap_inv st'
    \<and> (ret = CMD_SUCCESS \<longleftrightarrow> pf < atoi a)
    \<and> (\<forall>n k. index_at n k st' = (if n = name \<and> k = pf \<and> pf < atoi a then Some (x\<lparr>exitpolicy := RMAP_GOTO, nextpref := atoi a\<rparr>) else index_at n k st))"
proof (cases "pf < atoi a")
  case True
  have ok: "rmap_entry_ok (x\<lparr>exitpolicy := RMAP_GOTO, nextpref := atoi a\<rparr>)" "pref (x\<lparr>exitpolicy := RMAP_GOTO, nextpref := atoi a\<rparr>) = pf"
    using index_at_ok [OF i x] True by (auto simp: rmap_entry_ok_def)
  show ?thesis using index_put_law [OF i x ok] True x index_at_ok(2) [OF i x] by (simp add: rmap_continue_seq_def)
next
  case False
  then show ?thesis using i x index_at_ok(2) [OF i x] by (auto simp: rmap_continue_seq_def)
qed

section \<open>Rules\<close>

lemma lookup_cmd_Some:
  assumes "vec_ok vec" "route_map_lookup_cmd vec name = Some c"
  obtains cmd where "vector_lookup vec c = Some cmd" "cmd_str cmd = name"
proof -
  have c: "c < vec_max vec" "case vec_index vec ! c of None \<Rightarrow> False | Some cmd \<Rightarrow> cmd_str cmd = name"
    using assms(2) unfolding route_map_lookup_cmd_def by (auto simp: find_Some_iff)
  then show thesis using that by (auto simp: vector_lookup_def split: option.splits)
qed

text \<open>An installed command is found under its name.\<close>

lemma route_map_install_lookup:
  assumes "vec_ok vec" "vec_max vec < 2 ^ 31" "route_map_install cmd vec = Some vec'"
  shows "vec_ok vec'" "route_map_lookup_cmd vec' (cmd_str cmd) \<noteq> None"
proof -
  let ?k = "vector_empty_slot vec"
  have k: "?k < 2 ^ 31" using vector_empty_slot_least(3) [OF assms(1)] assms(2) by simp
  obtain v' where v': "vector_set vec (Some cmd) = Some (?k, v')" "vec_ok v'" "vector_lookup v' = (vector_lookup vec)(?k := Some cmd)"
    using vector_set_index_law [OF assms(1) k, of "Some cmd"] unfolding vector_set_eq by blast
  have e: "vec' = v'" using assms(3) v'(1) by (simp add: route_map_install_def)
  show "vec_ok vec'" using v'(2) e by simp
  have "vector_lookup v' ?k = Some cmd" using v'(3) by simp
  then have "?k < vec_max v'" "vec_index v' ! ?k = Some cmd" by (auto simp: vector_lookup_def split: if_splits)
  then show "route_map_lookup_cmd vec' (cmd_str cmd) \<noteq> None"
    unfolding e route_map_lookup_cmd_def find_None_iff by (auto intro!: bexI [of _ ?k])
qed

text \<open>What entering a rule means: the first installed command of that name, and the value its compiler gives, or the error.  A command
  without a compiler takes every argument.\<close>

definition installed :: "('v, 'o) rule_vec \<Rightarrow> (nat \<times> ('v, 'o) route_map_rule_cmd) list" where
  "installed vec = List.map_filter (\<lambda>c. map_option (Pair c) (vector_lookup vec c)) [0..<vec_max vec]"

definition rule_spec :: "('v, 'o) rule_vec \<Rightarrow> string \<Rightarrow> string option \<Rightarrow> rmap_return + 'v route_map_rule" where
  "rule_spec vec name arg =
     (case find (\<lambda>x. cmd_str (snd x) = name) (installed vec) of
        None \<Rightarrow> Inl RMAP_RULE_MISSING
      | Some (c, cmd) \<Rightarrow>
          (case (case func_compile cmd of None \<Rightarrow> Some None | Some f \<Rightarrow> map_option Some (f arg)) of
             None \<Rightarrow> Inl RMAP_COMPILE_ERROR
           | Some v \<Rightarrow> Inr \<lparr>r_cmd = c, rule_str = arg, r_value = v\<rparr>))"

lemma find_installed:
  assumes "set ns \<subseteq> {..<vec_max vec}"
  shows "find (\<lambda>i. case vec_index vec ! i of None \<Rightarrow> False | Some cmd \<Rightarrow> cmd_str cmd = name) ns =
     map_option fst (find (\<lambda>x. cmd_str (snd x) = name) (List.map_filter (\<lambda>c. map_option (Pair c) (vector_lookup vec c)) ns))"
  using assms
proof (induction ns)
  case (Cons n ns)
  have "vector_lookup vec n = vec_index vec ! n" using Cons.prems by (simp add: vector_lookup_def)
  then show ?case using Cons by (cases "vec_index vec ! n") (simp_all add: map_filter_simps)
qed (simp add: map_filter_simps)

lemma lookup_cmd_installed: "route_map_lookup_cmd vec name = map_option fst (find (\<lambda>x. cmd_str (snd x) = name) (installed vec))"
  unfolding route_map_lookup_cmd_def installed_def by (rule find_installed) auto

lemma installed_lookup: "find P (installed vec) = Some (c, cmd) \<Longrightarrow> vector_lookup vec c = Some cmd"
proof -
  assume "find P (installed vec) = Some (c, cmd)"
  then have "(c, cmd) \<in> set (installed vec)" by (metis find_Some_iff nth_mem)
  then show ?thesis by (auto simp: installed_def List.map_filter_def)
qed

lemma rule_add_result:
  "rule_add vec name arg rules = Some
     (case rule_spec vec name arg of
        Inl err \<Rightarrow> (err, False, rules)
      | Inr r \<Rightarrow> (RMAP_RULE_OK, \<exists>x\<in>set rules. r_cmd x = r_cmd r, filter (\<lambda>x. r_cmd x \<noteq> r_cmd r) rules @ [r]))"
proof (cases "find (\<lambda>x. cmd_str (snd x) = name) (installed vec)")
  case None
  then show ?thesis by (simp add: rule_add_def rule_spec_def lookup_cmd_installed)
next
  case (Some x)
  then show ?thesis using installed_lookup [of "\<lambda>x. cmd_str (snd x) = name" vec "fst x" "snd x"]
    by (cases x) (auto simp: rule_add_def rule_spec_def lookup_cmd_installed split: option.splits)
qed

lemma rule_spec_cmd: "rule_spec vec name arg = Inr r \<Longrightarrow> route_map_lookup_cmd vec name = Some (r_cmd r) \<and> rule_str r = arg"
  by (auto simp: rule_spec_def lookup_cmd_installed split: option.splits)

lemma rule_spec_error: "rule_spec vec name arg = Inl err \<Longrightarrow> err \<noteq> RMAP_RULE_OK"
  by (auto simp: rule_spec_def split: option.splits)

lemma rule_unlink_set: "rule_unlink P rs = Some rs' \<Longrightarrow> \<exists>a r b. rs = a @ r # b \<and> rs' = a @ b \<and> P r \<and> (\<forall>x\<in>set a. \<not> P x)"
proof (induction rs arbitrary: rs')
  case (Cons r rs)
  show ?case
  proof (cases "P r")
    case True
    then show ?thesis using Cons.prems by (intro exI [of _ "[]"]) simp
  next
    case False
    then obtain t where t: "rule_unlink P rs = Some t" "rs' = r # t" using Cons.prems by auto
    obtain a x b where "rs = a @ x # b" "t = a @ b" "P x" "\<forall>y\<in>set a. \<not> P y" using Cons.IH [OF t(1)] by blast
    then show ?thesis using t(2) False by (intro exI [of _ "r # a"] exI [of _ x] exI [of _ b]) simp
  qed
qed simp

lemma rule_unlink_snoc: "\<forall>r\<in>set rs. \<not> P r \<Longrightarrow> P x \<Longrightarrow> rule_unlink P (rs @ [x]) = Some rs"
  by (induction rs) auto

text \<open>A kind of rules: where an entry keeps them.  The operations on match rules and on set rules are proved once.\<close>

locale rule_kind =
  fixes rules_of :: "'v route_map_index \<Rightarrow> 'v route_map_rule list"
    and with_rules :: "'v route_map_rule list \<Rightarrow> 'v route_map_index \<Rightarrow> 'v route_map_index"
    and add :: "('v, 'o) rule_vec \<Rightarrow> string \<Rightarrow> int \<Rightarrow> string \<Rightarrow> string option \<Rightarrow> 'v route_map_list \<Rightarrow> (rmap_return \<times> 'v route_map_list) option"
    and del :: "('v, 'o) rule_vec \<Rightarrow> string \<Rightarrow> int \<Rightarrow> string \<Rightarrow> string option \<Rightarrow> 'v route_map_list \<Rightarrow> (bool \<times> 'v route_map_list) option"
  assumes get_put: "rules_of (with_rules rs i) = rs"
    and put_get: "with_rules (rules_of i) i = i"
    and put_put: "with_rules rs (with_rules rs' i) = with_rules rs i"
    and put_pref: "pref (with_rules rs i) = pref i"
    and distinct_rules: "rmap_entry_ok i \<Longrightarrow> distinct (map r_cmd (rules_of i))"
    and put_ok: "rmap_entry_ok i \<Longrightarrow> distinct (map r_cmd rs) \<Longrightarrow> rmap_entry_ok (with_rules rs i)"
    and add_step: "index_at name pf st = Some i \<Longrightarrow> rule_add vec cmd arg (rules_of i) = Some (ret, replaced, rs) \<Longrightarrow>
      \<exists>ev. add vec name pf cmd arg st =
        Some (ret, if ret = RMAP_RULE_OK then rm_event ev name (index_put name pf (with_rules rs i) st) else st)"
    and del_step: "index_at name pf st = Some i \<Longrightarrow>
      \<exists>ev. del vec name pf cmd arg st = Some (case rule_del vec cmd arg (rules_of i) of
        None \<Rightarrow> (False, st) | Some rs \<Rightarrow> (True, rm_event ev name (index_put name pf (with_rules rs i) st)))"
begin

lemma put_rules:
  assumes "rmap_inv st" "index_at name pf st = Some i" "distinct (map r_cmd rs)"
  shows "rmap_inv (rm_event ev name (index_put name pf (with_rules rs i) st))"
    "index_at n k (rm_event ev name (index_put name pf (with_rules rs i) st)) = (if n = name \<and> k = pf then Some (with_rules rs i) else index_at n k st)"
  using index_put_law [OF assms(1,2) put_ok [OF index_at_ok(1) [OF assms(1,2)] assms(3)]] index_at_ok(2) [OF assms(1,2)] by (simp_all add: put_pref)

lemma add_law:
  assumes i: "rmap_inv st" and x: "index_at name pf st = Some x"
  shows "case rule_spec vec cmd arg of
      Inl err \<Rightarrow> add vec name pf cmd arg st = Some (err, st)
    | Inr r \<Rightarrow> (\<exists>st'. add vec name pf cmd arg st = Some (RMAP_RULE_OK, st') \<and> rmap_inv st'
        \<and> (\<forall>n k. index_at n k st' = (if n = name \<and> k = pf then Some (with_rules (filter (\<lambda>x. r_cmd x \<noteq> r_cmd r) (rules_of x) @ [r]) x) else index_at n k st)))"
proof (cases "rule_spec vec cmd arg")
  case (Inl err)
  then show ?thesis using add_step [OF x, of vec cmd arg err False "rules_of x"] rule_spec_error [OF Inl] by (auto simp: rule_add_result)
next
  case (Inr r)
  let ?rs = "filter (\<lambda>x. r_cmd x \<noteq> r_cmd r) (rules_of x) @ [r]"
  obtain ev where a: "add vec name pf cmd arg st = Some (RMAP_RULE_OK, rm_event ev name (index_put name pf (with_rules ?rs x) st))"
    using add_step [OF x, of vec cmd arg RMAP_RULE_OK _ ?rs] Inr by (auto simp: rule_add_result)
  have "distinct (map r_cmd ?rs)" using distinct_map_filter [OF distinct_rules [OF index_at_ok(1) [OF i x]]] by auto
  note pr = put_rules [OF i x this, where ev = ev]
  then show ?thesis using a Inr by (auto intro!: exI [of _ "rm_event ev name (index_put name pf (with_rules ?rs x) st)"])
qed

lemma del_law:
  assumes i: "rmap_inv st" and x: "index_at name pf st = Some x"
  shows "\<exists>done st'. del vec name pf cmd arg st = Some (done, st') \<and> rmap_inv st'
    \<and> (if done
       then \<exists>a r b. rules_of x = a @ r # b \<and> route_map_lookup_cmd vec cmd = Some (r_cmd r) \<and> (rule_str r = arg \<or> arg = None)
         \<and> (\<forall>n k. index_at n k st' = (if n = name \<and> k = pf then Some (with_rules (a @ b) x) else index_at n k st))
       else st' = st)"
proof -
  obtain ev where d: "del vec name pf cmd arg st = Some (case rule_del vec cmd arg (rules_of x) of
        None \<Rightarrow> (False, st) | Some rs \<Rightarrow> (True, rm_event ev name (index_put name pf (with_rules rs x) st)))"
    using del_step [OF x] by blast
  show ?thesis
  proof (cases "rule_del vec cmd arg (rules_of x)")
    case None
    then show ?thesis using d i by (intro exI [of _ False] exI) simp
  next
    case (Some rs)
    then obtain c where c: "route_map_lookup_cmd vec cmd = Some c"
      "rule_unlink (\<lambda>r. r_cmd r = c \<and> (\<not> rulecmp (rule_str r) arg \<or> arg = None)) (rules_of x) = Some rs"
      by (auto simp: rule_del_def split: option.splits)
    obtain a r b where ab: "rules_of x = a @ r # b" "rs = a @ b" "r_cmd r = c" "rule_str r = arg \<or> arg = None"
      using rule_unlink_set [OF c(2)] by (auto simp: rulecmp_def)
    have "distinct (map r_cmd rs)" using distinct_rules [OF index_at_ok(1) [OF i x]] ab(1,2) by auto
    note pr = put_rules [OF i x this, where ev = ev]
    let ?st = "rm_event ev name (index_put name pf (with_rules rs x) st)"
    show ?thesis using d Some c(1) ab pr by (intro exI [of _ True] exI [of _ ?st]) auto
  qed
qed

text \<open>A new rule can be taken back with the words that entered it, and only rules of its command are lost.\<close>

lemma add_del:
  assumes i: "rmap_inv st" and x: "index_at name pf st = Some x" and r: "rule_spec vec cmd arg = Inr r"
  shows "\<exists>st1 st2. add vec name pf cmd arg st = Some (RMAP_RULE_OK, st1) \<and> rmap_inv st1
    \<and> (\<forall>n k. index_at n k st1 = (if n = name \<and> k = pf then Some (with_rules (filter (\<lambda>x. r_cmd x \<noteq> r_cmd r) (rules_of x) @ [r]) x) else index_at n k st))
    \<and> del vec name pf cmd arg st1 = Some (True, st2) \<and> rmap_inv st2
    \<and> (\<forall>n k. index_at n k st2 = (if n = name \<and> k = pf then Some (with_rules (filter (\<lambda>x. r_cmd x \<noteq> r_cmd r) (rules_of x)) x) else index_at n k st))"
proof -
  let ?f = "filter (\<lambda>x. r_cmd x \<noteq> r_cmd r) (rules_of x)"
  obtain st1 where c: "add vec name pf cmd arg st = Some (RMAP_RULE_OK, st1)" "rmap_inv st1"
    "\<And>n k. index_at n k st1 = (if n = name \<and> k = pf then Some (with_rules (?f @ [r]) x) else index_at n k st)"
    using add_law [OF i x, of vec cmd arg] r by auto
  have x': "index_at name pf st1 = Some (with_rules (?f @ [r]) x)" using c(3) by simp
  have u: "rule_del vec cmd arg (rules_of (with_rules (?f @ [r]) x)) = Some ?f"
    unfolding get_put rule_del_def conjunct1 [OF rule_spec_cmd [OF r]] option.case
    by (rule rule_unlink_snoc) (use rule_spec_cmd [OF r] in \<open>auto simp: rulecmp_def\<close>)
  obtain ev where d: "del vec name pf cmd arg st1 = Some (True, rm_event ev name (index_put name pf (with_rules ?f (with_rules (?f @ [r]) x)) st1))"
    using del_step [OF x', of vec cmd arg] unfolding u option.case by blast
  have dist: "distinct (map r_cmd ?f)" using distinct_rules [OF index_at_ok(1) [OF i x]] by (rule distinct_map_filter)
  show ?thesis using c d put_rules [OF c(2) x' dist, where ev = ev] by (auto simp: put_put)
qed

lemma roundtrip:
  assumes i: "rmap_inv st" and x: "index_at name pf st = Some x"
  shows "case rule_spec vec cmd arg of
      Inl err \<Rightarrow> add vec name pf cmd arg st = Some (err, st)
    | Inr r \<Rightarrow> (\<exists>st1 st2. add vec name pf cmd arg st = Some (RMAP_RULE_OK, st1) \<and> rmap_inv st1
        \<and> (\<forall>n k. index_at n k st1 = (if n = name \<and> k = pf then Some (with_rules (filter (\<lambda>x. r_cmd x \<noteq> r_cmd r) (rules_of x) @ [r]) x) else index_at n k st))
        \<and> del vec name pf cmd arg st1 = Some (True, st2) \<and> rmap_inv st2
        \<and> (\<forall>n k. index_at n k st2 = (if n = name \<and> k = pf then Some (with_rules (filter (\<lambda>x. r_cmd x \<noteq> r_cmd r) (rules_of x)) x) else index_at n k st)))"
  using add_law [OF i x, of vec cmd arg] add_del [OF i x, of vec cmd arg] by (cases "rule_spec vec cmd arg") simp_all

end

interpretation match_rules: rule_kind match_list "\<lambda>rs i. i\<lparr>match_list := rs\<rparr>" route_map_add_match route_map_delete_match
  by unfold_locales (auto simp: rmap_entry_ok_def route_map_add_match_def route_map_delete_match_def split: option.splits)

interpretation set_rules: rule_kind set_list "\<lambda>rs i. i\<lparr>set_list := rs\<rparr>" route_map_add_set route_map_delete_set
  by unfold_locales (auto simp: rmap_entry_ok_def route_map_add_set_def route_map_delete_set_def split: option.splits)

section \<open>Application\<close>

text \<open>What the code relies on: the rules of the entries refer to installed commands, and match commands leave the object alone.\<close>

definition rules_installed :: "('v, 'o) rule_vec \<Rightarrow> ('v, 'o) rule_vec \<Rightarrow> 'v route_map_index list \<Rightarrow> bool" where
  "rules_installed mv sv is \<longleftrightarrow> (\<forall>i\<in>set is. (\<forall>r\<in>set (match_list i). vector_lookup mv (r_cmd r) \<noteq> None)
     \<and> (\<forall>r\<in>set (set_list i). vector_lookup sv (r_cmd r) \<noteq> None))"

definition match_pure :: "('v, 'o) rule_vec \<Rightarrow> bool" where
  "match_pure mv \<longleftrightarrow> (\<forall>c cmd v p ty ob. vector_lookup mv c = Some cmd \<longrightarrow> snd (func_apply cmd v p ty ob) = ob)"

definition rule_matches :: "('v, 'o) rule_vec \<Rightarrow> prefix \<Rightarrow> route_map_object_t \<Rightarrow> 'o \<Rightarrow> 'v route_map_rule \<Rightarrow> bool" where
  "rule_matches mv p ty ob r \<longleftrightarrow> map_option fst (rule_apply mv r p ty ob) = Some RMAP_MATCH"

text \<open>An entry matches when it has no match rule or when one of them matches.\<close>

definition ix_matches :: "('v, 'o) rule_vec \<Rightarrow> prefix \<Rightarrow> route_map_object_t \<Rightarrow> 'o \<Rightarrow> 'v route_map_index \<Rightarrow> bool" where
  "ix_matches mv p ty ob i \<longleftrightarrow> match_list i = [] \<or> (\<exists>r\<in>set (match_list i). rule_matches mv p ty ob r)"

definition ix_sets :: "('v, 'o) rule_vec \<Rightarrow> prefix \<Rightarrow> route_map_object_t \<Rightarrow> 'v route_map_index \<Rightarrow> 'o \<Rightarrow> 'o" where
  "ix_sets sv p ty i ob = fold (\<lambda>r ob. case rule_apply sv r p ty ob of Some (ret, ob) \<Rightarrow> ob | None \<Rightarrow> ob) (set_list i) ob"

lemma rmap_match_loop_result:
  assumes "match_pure mv" "\<forall>r\<in>set rs. vector_lookup mv (r_cmd r) \<noteq> None"
  shows "\<exists>ret. rmap_match_loop mv p ty rs ret0 ob = Some (ret, ob) \<and>
    (ret = RMAP_MATCH \<longleftrightarrow> (if rs = [] then ret0 = RMAP_MATCH else \<exists>r\<in>set rs. rule_matches mv p ty ob r))"
  using assms(2)
proof (induction rs arbitrary: ret0)
  case (Cons r rs)
  obtain cmd where cmd: "vector_lookup mv (r_cmd r) = Some cmd" using Cons.prems by auto
  obtain ret where ra: "rule_apply mv r p ty ob = Some (ret, ob)"
    using cmd assms(1) unfolding rule_apply_def match_pure_def by (metis option.simps(9) prod.collapse)
  have rm: "rule_matches mv p ty ob r \<longleftrightarrow> ret = RMAP_MATCH" using ra by (simp add: rule_matches_def)
  show ?case
  proof (cases "ret = RMAP_MATCH")
    case True
    then show ?thesis using ra rm by simp
  next
    case False
    have "\<forall>r\<in>set rs. vector_lookup mv (r_cmd r) \<noteq> None" using Cons.prems by simp
    from Cons.IH [OF this, of ret] show ?thesis using ra rm False by (cases "rs = []") auto
  qed
qed simp

lemma rmap_set_loop_result:
  assumes "\<forall>r\<in>set rs. vector_lookup sv (r_cmd r) \<noteq> None"
  shows "rmap_set_loop sv p ty rs ob = Some (fold (\<lambda>r ob. case rule_apply sv r p ty ob of Some (ret, ob) \<Rightarrow> ob | None \<Rightarrow> ob) rs ob)"
  using assms
proof (induction rs arbitrary: ob)
  case (Cons r rs)
  obtain cmd where cmd: "vector_lookup sv (r_cmd r) = Some cmd" using Cons.prems by auto
  obtain ret ob' where "rule_apply sv r p ty ob = Some (ret, ob')" using cmd by (cases "func_apply cmd (r_value r) p ty ob") (simp add: rule_apply_def)
  then show ?case using Cons by simp
qed simp

lemma apply_index_result:
  assumes "match_pure mv" "rules_installed mv sv [i]"
  shows "\<exists>ret. route_map_apply_index mv sv i p ty ob =
      Some (if ix_matches mv p ty ob i then (if ix_type i = RMAP_PERMIT then (RMAP_MATCH, ix_sets sv p ty i ob) else (RMAP_DENYMATCH, ob)) else (ret, ob))
    \<and> ret \<noteq> RMAP_MATCH"
proof -
  have ins: "\<forall>r\<in>set (match_list i). vector_lookup mv (r_cmd r) \<noteq> None" "\<forall>r\<in>set (set_list i). vector_lookup sv (r_cmd r) \<noteq> None"
    using assms(2) by (simp_all add: rules_installed_def)
  obtain ret where m: "rmap_match_loop mv p ty (match_list i) RMAP_MATCH ob = Some (ret, ob)"
    "ret = RMAP_MATCH \<longleftrightarrow> (if match_list i = [] then RMAP_MATCH = RMAP_MATCH else \<exists>r\<in>set (match_list i). rule_matches mv p ty ob r)"
    using rmap_match_loop_result [OF assms(1) ins(1)] by blast
  have r: "ret = RMAP_MATCH \<longleftrightarrow> ix_matches mv p ty ob i" using m(2) by (auto simp: ix_matches_def)
  have e: "(if match_list i = [] then Some (RMAP_MATCH, ob) else rmap_match_loop mv p ty (match_list i) RMAP_MATCH ob) = Some (ret, ob)"
    using m by (cases "match_list i") auto
  show ?thesis
    unfolding route_map_apply_index_def e using r rmap_set_loop_result [OF ins(2), of p ty ob]
    by (cases "ix_matches mv p ty ob i") (auto simp: ix_sets_def intro: exI [of _ RMAP_NOMATCH])
qed

text \<open>A rule that reports a denial itself ends the map, so the theorems ask that match commands only match or not.\<close>

definition match_plain :: "('v, 'o) rule_vec \<Rightarrow> bool" where
  "match_plain mv \<longleftrightarrow> (\<forall>c cmd v p ty ob. vector_lookup mv c = Some cmd \<longrightarrow> fst (func_apply cmd v p ty ob) \<noteq> RMAP_DENYMATCH)"

lemma rmap_match_loop_plain:
  assumes "match_plain mv" "ret0 \<noteq> RMAP_DENYMATCH" "rmap_match_loop mv p ty rs ret0 ob = Some (ret, ob')"
  shows "ret \<noteq> RMAP_DENYMATCH"
  using assms(2,3)
proof (induction rs arbitrary: ret0 ob)
  case (Cons r rs)
  obtain ret1 ob1 where r1: "rule_apply mv r p ty ob = Some (ret1, ob1)" using Cons.prems(2) by (auto split: bind_splits)
  obtain cmd where cmd: "vector_lookup mv (r_cmd r) = Some cmd" "func_apply cmd (r_value r) p ty ob = (ret1, ob1)"
    using r1 by (auto simp: rule_apply_def)
  have "fst (func_apply cmd (r_value r) p ty ob) \<noteq> RMAP_DENYMATCH" using assms(1) cmd(1) by (simp add: match_plain_def)
  then have "ret1 \<noteq> RMAP_DENYMATCH" using cmd(2) by simp
  then show ?case using Cons.IH [of ret1 ob1] Cons.prems(2) r1 by (cases "ret1 = RMAP_MATCH") auto
qed simp

lemma apply_index_skip:
  assumes "match_pure mv" "match_plain mv" "rules_installed mv sv [i]" "\<not> ix_matches mv p ty ob i"
  shows "\<exists>ret. route_map_apply_index mv sv i p ty ob = Some (ret, ob) \<and> ret \<noteq> RMAP_MATCH \<and> ret \<noteq> RMAP_DENYMATCH"
proof -
  obtain ret where r: "route_map_apply_index mv sv i p ty ob = Some (ret, ob)" "ret \<noteq> RMAP_MATCH"
    using apply_index_result [OF assms(1,3), of p ty ob] assms(4) by auto
  have ne: "match_list i \<noteq> []" using assms(4) by (simp add: ix_matches_def)
  obtain ret1 ob1 where l: "rmap_match_loop mv p ty (match_list i) RMAP_MATCH ob = Some (ret1, ob1)"
    using r(1) ne by (auto simp: route_map_apply_index_def split: bind_splits)
  have "ret1 \<noteq> RMAP_MATCH"
    using rmap_match_loop_result [OF assms(1), of "match_list i" p ty RMAP_MATCH ob] assms(3,4) l ne by (auto simp: rules_installed_def ix_matches_def)
  moreover have "ret1 \<noteq> RMAP_DENYMATCH" by (rule rmap_match_loop_plain [OF assms(2) _ l]) simp
  ultimately show ?thesis using r l ne by (auto simp: route_map_apply_index_def)
qed

lemma find_split:
  assumes "find P xs = Some x"
  obtains ys zs where "xs = ys @ x # zs" "\<forall>y\<in>set ys. \<not> P y" "P x"
proof -
  have "\<exists>ys zs. xs = ys @ x # zs \<and> (\<forall>y\<in>set ys. \<not> P y) \<and> P x"
    using assms
  proof (induction xs)
    case (Cons a xs)
    show ?case
    proof (cases "P a")
      case True
      then show ?thesis using Cons.prems by (intro exI [of _ "[]"] exI [of _ xs]) simp
    next
      case False
      then obtain ys zs where "xs = ys @ x # zs" "\<forall>y\<in>set ys. \<not> P y" "P x" using Cons by auto
      then show ?thesis using False by (intro exI [of _ "a # ys"] exI [of _ zs]) simp
    qed
  qed simp
  then show thesis using that by blast
qed

lemma apply_entries_skip:
  assumes "match_pure mv" "match_plain mv" "rules_installed mv sv (as @ is)" "\<forall>i\<in>set as. \<not> ix_matches mv p ty ob i"
  shows "apply_entries mv sv p ty (as @ is) ob = apply_entries mv sv p ty is ob"
  using assms(3,4)
proof (induction as)
  case (Cons i as)
  have "rules_installed mv sv [i]" "rules_installed mv sv (as @ is)" using Cons.prems(1) by (simp_all add: rules_installed_def)
  then show ?case using apply_index_skip [OF assms(1,2), of sv i p ty ob] Cons by auto
qed simp

text \<open>The first entry that has no match rule or one that matches decides.\<close>

theorem route_map_apply_any_match:
  assumes "match_pure mv" "match_plain mv" "rules_installed mv sv (rm_index m)" "\<forall>i\<in>set (rm_index m). exitpolicy i = RMAP_EXIT"
  shows "route_map_apply mv sv (Some m) p ty ob = Some
    (case find (ix_matches mv p ty ob) (rm_index m) of
       None \<Rightarrow> (RMAP_DENYMATCH, ob)
     | Some i \<Rightarrow> if ix_type i = RMAP_PERMIT then (RMAP_MATCH, ix_sets sv p ty i ob) else (RMAP_DENYMATCH, ob))"
proof (cases "find (ix_matches mv p ty ob) (rm_index m)")
  case None
  then have "\<forall>i\<in>set (rm_index m). \<not> ix_matches mv p ty ob i" by (auto simp: find_None_iff)
  then show ?thesis using None apply_entries_skip [OF assms(1,2), of sv "rm_index m" "[]" p ty ob] assms(3) by (simp add: route_map_apply_def)
next
  case (Some i)
  then obtain as bs where s: "rm_index m = as @ i # bs" "\<forall>i\<in>set as. \<not> ix_matches mv p ty ob i" "ix_matches mv p ty ob i"
    by (rule find_split)
  have ins: "rules_installed mv sv (as @ i # bs)" "rules_installed mv sv [i]" using assms(3) s(1) by (simp_all add: rules_installed_def)
  have ex: "exitpolicy i = RMAP_EXIT" using assms(4) s(1) by simp
  have "apply_entries mv sv p ty (rm_index m) ob = apply_entries mv sv p ty (i # bs) ob"
    unfolding s(1) by (rule apply_entries_skip [OF assms(1,2) ins(1) s(2)])
  then show ?thesis using Some s(3) ex apply_index_result [OF assms(1) ins(2), of p ty ob] by (auto simp: route_map_apply_def)
qed

text \<open>The match rules of an entry agree about a route: all match, or none does.  An entry with at most one match rule is of this kind.\<close>

definition rules_agree :: "('v, 'o) rule_vec \<Rightarrow> prefix \<Rightarrow> route_map_object_t \<Rightarrow> 'o \<Rightarrow> 'v route_map_index \<Rightarrow> bool" where
  "rules_agree mv p ty ob i \<longleftrightarrow> (\<forall>r\<in>set (match_list i). \<forall>s\<in>set (match_list i). rule_matches mv p ty ob r = rule_matches mv p ty ob s)"

lemma rules_agree_single: "length (match_list i) \<le> 1 \<Longrightarrow> rules_agree mv p ty ob i"
  by (cases "match_list i") (simp_all add: rules_agree_def)

text \<open>C37: a route map decides by its first matching entry.  If no entry continues and the match rules of each entry agree about the route (all
  match or none does, as in entries with at most one match rule), the result is that of the first entry in the order of the preferences all of whose
  match rules match: a permit entry applies its set rules in order and accepts, a deny entry denies; without a matching entry the route is
  denied, and the object is as it was.  The rules are of installed commands, and match commands do not change the object and do not answer
  \<open>RMAP_DENYMATCH\<close>.\<close>

theorem route_map_apply_first_match:
  assumes "match_pure mv" "match_plain mv" "rules_installed mv sv (rm_index m)" "\<forall>i\<in>set (rm_index m). exitpolicy i = RMAP_EXIT"
    and "\<forall>i\<in>set (rm_index m). rules_agree mv p ty ob i"
  shows "route_map_apply mv sv (Some m) p ty ob = Some
    (case find (\<lambda>i. \<forall>r\<in>set (match_list i). rule_matches mv p ty ob r) (rm_index m) of
       None \<Rightarrow> (RMAP_DENYMATCH, ob)
     | Some i \<Rightarrow> if ix_type i = RMAP_PERMIT then (RMAP_MATCH, ix_sets sv p ty i ob) else (RMAP_DENYMATCH, ob))"
proof -
  have "ix_matches mv p ty ob i = (\<forall>r\<in>set (match_list i). rule_matches mv p ty ob r)" if "i \<in> set (rm_index m)" for i
  proof -
    have "rules_agree mv p ty ob i" using assms(5) that by blast
    then show ?thesis unfolding rules_agree_def ix_matches_def by (metis all_not_in_conv set_empty)
  qed
  then have "find (ix_matches mv p ty ob) (rm_index m) = find (\<lambda>i. \<forall>r\<in>set (match_list i). rule_matches mv p ty ob r) (rm_index m)"
    by (rule find_cong [OF refl])
  then show ?thesis using route_map_apply_any_match [OF assms(1-4), of p ty ob] by simp
qed

text \<open>a map with a continued entry accepts only what a later entry accepts too: when the entry permits and its rules match, the
  set rules are applied, and when no entry after it matches the route is denied all the same, although the comment of the function says that
  the route is accepted.\<close>

theorem route_map_continue_denies:
  assumes "match_pure mv" "match_plain mv" "rules_installed mv sv (rm_index m)" "rm_index m = as @ i # bs"
    and "\<forall>x\<in>set as. \<not> ix_matches mv p ty ob x" "ix_matches mv p ty ob i" "ix_type i = RMAP_PERMIT" "exitpolicy i = RMAP_NEXT"
    and "\<forall>x\<in>set bs. \<not> ix_matches mv p ty (ix_sets sv p ty i ob) x"
  shows "route_map_apply mv sv (Some m) p ty ob = Some (RMAP_DENYMATCH, ix_sets sv p ty i ob)"
proof -
  have ins: "rules_installed mv sv (as @ i # bs)" "rules_installed mv sv [i]" "rules_installed mv sv (bs @ [])"
    using assms(3,4) unfolding rules_installed_def by auto
  have 1: "apply_entries mv sv p ty (rm_index m) ob = apply_entries mv sv p ty (i # bs) ob"
    unfolding assms(4) by (rule apply_entries_skip [OF assms(1,2) ins(1) assms(5)])
  have 2: "apply_entries mv sv p ty bs (ix_sets sv p ty i ob) = Some (RMAP_DENYMATCH, ix_sets sv p ty i ob)"
    using apply_entries_skip [OF assms(1,2) ins(3) assms(9)] by simp
  show ?thesis using 1 2 assms(6-8) apply_index_result [OF assms(1) ins(2), of p ty ob] by (auto simp: route_map_apply_def)
qed

text \<open>C39: match and set rules: an entry has at most one rule of every command, and the last one that was entered counts.  When the command
  is installed and its argument compiles, the answer is \<open>RMAP_RULE_OK\<close> and the entry has the rule, with the first command of that name, the argument and the
  compiled value, in place of the old rule of the command and after the others; it can be taken back with the same words, and then the entry
  has no rule of the command.  Every other rule and entry is as before.  An unknown command is answered with \<open>RMAP_RULE_MISSING\<close>, an
  argument that does not compile with \<open>RMAP_COMPILE_ERROR\<close>, and nothing changes.\<close>

theorem route_map_rules_roundtrip:
  assumes "rmap_inv st" "index_at name pf st = Some x"
  shows "(case rule_spec mv cmd arg of
      Inl err \<Rightarrow> route_map_add_match mv name pf cmd arg st = Some (err, st)
    | Inr r \<Rightarrow> (\<exists>st1 st2. route_map_add_match mv name pf cmd arg st = Some (RMAP_RULE_OK, st1) \<and> rmap_inv st1
        \<and> (\<forall>n k. index_at n k st1 = (if n = name \<and> k = pf then Some (x\<lparr>match_list := filter (\<lambda>x. r_cmd x \<noteq> r_cmd r) (match_list x) @ [r]\<rparr>) else index_at n k st))
        \<and> route_map_delete_match mv name pf cmd arg st1 = Some (True, st2) \<and> rmap_inv st2
        \<and> (\<forall>n k. index_at n k st2 = (if n = name \<and> k = pf then Some (x\<lparr>match_list := filter (\<lambda>x. r_cmd x \<noteq> r_cmd r) (match_list x)\<rparr>) else index_at n k st))))
  \<and> (case rule_spec sv cmd arg of
      Inl err \<Rightarrow> route_map_add_set sv name pf cmd arg st = Some (err, st)
    | Inr r \<Rightarrow> (\<exists>st1 st2. route_map_add_set sv name pf cmd arg st = Some (RMAP_RULE_OK, st1) \<and> rmap_inv st1
        \<and> (\<forall>n k. index_at n k st1 = (if n = name \<and> k = pf then Some (x\<lparr>set_list := filter (\<lambda>x. r_cmd x \<noteq> r_cmd r) (set_list x) @ [r]\<rparr>) else index_at n k st))
        \<and> route_map_delete_set sv name pf cmd arg st1 = Some (True, st2) \<and> rmap_inv st2
        \<and> (\<forall>n k. index_at n k st2 = (if n = name \<and> k = pf then Some (x\<lparr>set_list := filter (\<lambda>x. r_cmd x \<noteq> r_cmd r) (set_list x)\<rparr>) else index_at n k st))))"
  using match_rules.roundtrip [OF assms] set_rules.roundtrip [OF assms] by (rule conjI)

section \<open>Examples\<close>

text \<open>A metric as the object, one command that compares it and one that sets it.\<close>

definition metric_matcher :: "(int, int) route_map_rule_cmd" where
  "metric_matcher = \<lparr>cmd_str = ''metric'', func_apply = (\<lambda>v p ty ob. (if v = Some ob then RMAP_MATCH else RMAP_NOMATCH, ob)),
     func_compile = Some (\<lambda>arg. map_option atoi arg)\<rparr>"

definition metric_setter :: "(int, int) route_map_rule_cmd" where
  "metric_setter = \<lparr>cmd_str = ''metric'', func_apply = (\<lambda>v p ty ob. (RMAP_OKAY, case v of Some x \<Rightarrow> x | None \<Rightarrow> ob)),
     func_compile = Some (\<lambda>arg. map_option atoi arg)\<rparr>"

definition metric_vec :: "(int, int) route_map_rule_cmd \<Rightarrow> (int, int) rule_vec" where
  "metric_vec cmd = \<lparr>vec_max = 1, alloced = 1, vec_index = [Some cmd]\<rparr>"

definition demo_entry :: "int \<Rightarrow> route_map_end_t \<Rightarrow> int route_map_index" where
  "demo_entry pf ep = \<lparr>pref = pf, ix_type = RMAP_PERMIT, exitpolicy = ep, nextpref = 0,
     match_list = [\<lparr>r_cmd = 0, rule_str = Some ''5'', r_value = Some 5\<rparr>], set_list = [\<lparr>r_cmd = 0, rule_str = Some ''7'', r_value = Some 7\<rparr>]\<rparr>"

definition demo_maps :: "int route_map_list" where
  "demo_maps = \<lparr>rm_maps = [\<lparr>rm_name = ''A'', rm_index = [demo_entry 10 RMAP_EXIT]\<rparr>], rm_add_hook = False, rm_delete_hook = False,
     rm_event_hook = True, rm_calls = []\<rparr>"

lemma demo_maps_inv: "rmap_inv demo_maps" "index_at ''A'' 10 demo_maps = Some (demo_entry 10 RMAP_EXIT)"
  by (simp_all add: rmap_inv_def demo_maps_def entries_ok_def rmap_entry_ok_def demo_entry_def index_at_def route_map_lookup_by_name_def)

lemma metric_vec_ok: "vec_ok (metric_vec cmd)" "vector_lookup (metric_vec cmd) c = (if c = 0 then Some cmd else None)"
  by (auto simp: vec_ok_def metric_vec_def vector_lookup_def)

lemma metric_match_plain: "match_pure (metric_vec metric_matcher)" "match_plain (metric_vec metric_matcher)"
  by (auto simp: match_pure_def match_plain_def metric_vec_ok metric_matcher_def)

lemma demo_installed: "rules_installed (metric_vec metric_matcher) (metric_vec metric_setter) [demo_entry pf ep]"
  by (simp add: rules_installed_def demo_entry_def metric_vec_ok)

lemma demo_entry_fields: "ix_type (demo_entry pf ep) = RMAP_PERMIT" "exitpolicy (demo_entry pf ep) = ep"
  by (simp_all add: demo_entry_def)

lemma demo_matches: "ix_matches (metric_vec metric_matcher) p ty ob (demo_entry pf ep) \<longleftrightarrow> ob = 5"
  "ix_sets (metric_vec metric_setter) p ty (demo_entry pf ep) ob = 7"
  by (auto simp: ix_matches_def rule_matches_def rule_apply_def demo_entry_def metric_vec_ok metric_matcher_def ix_sets_def metric_setter_def)

theorem route_map_commands_refine_map_witness:
  "\<exists>st'. cmd_route_map ''A'' ''deny'' ''20'' demo_maps = Some (CMD_SUCCESS, Some (''A'', 20), st') \<and>
     index_at ''A'' 20 st' = Some (route_map_index_new RMAP_DENY 20) \<and> index_at ''A'' 10 st' = Some (demo_entry 10 RMAP_EXIT)"
proof -
  have args: "rmap_permit ''deny'' = Some RMAP_DENY" "rmap_pref ''20'' = Some 20"
    by (simp_all add: rmap_permit_def rmap_pref_def strtoul_def is_space_def is_digit_def digits_val_def digit_val_def)
  have "index_at ''A'' 20 demo_maps = None" by (simp add: demo_maps_def demo_entry_def index_at_def route_map_lookup_by_name_def)
  then show ?thesis using route_map_commands_refine_map [OF demo_maps_inv(1) args, of "''A''"] demo_maps_inv(2) by auto
qed

theorem route_map_rules_roundtrip_witness:
  "\<exists>st1. route_map_add_match (metric_vec metric_matcher) ''A'' 10 ''metric'' (Some ''9'') demo_maps = Some (RMAP_RULE_OK, st1)
     \<and> map_option match_list (index_at ''A'' 10 st1) = Some [\<lparr>r_cmd = 0, rule_str = Some ''9'', r_value = Some 9\<rparr>]
     \<and> route_map_add_match (metric_vec metric_matcher) ''A'' 10 ''metric'' None demo_maps = Some (RMAP_COMPILE_ERROR, demo_maps)
     \<and> route_map_add_match (metric_vec metric_matcher) ''A'' 10 ''tag'' (Some ''9'') demo_maps = Some (RMAP_RULE_MISSING, demo_maps)"
proof -
  let ?mv = "metric_vec metric_matcher" and ?r = "\<lparr>r_cmd = 0, rule_str = Some ''9'', r_value = Some 9\<rparr> :: int route_map_rule"
  have i: "installed ?mv = [(0, metric_matcher)]" by (simp add: installed_def metric_vec_ok(2) map_filter_simps) (simp add: metric_vec_def map_filter_simps upt_rec)
  have "atoi ''9'' = 9" by (simp add: atoi_def strtol_def c_int_def dec_value_def is_space_def is_digit_def digits_val_def digit_val_def)
  then have s: "rule_spec ?mv ''metric'' (Some ''9'') = Inr ?r" "rule_spec ?mv ''metric'' None = Inl RMAP_COMPILE_ERROR" "rule_spec ?mv ''tag'' (Some ''9'') = Inl RMAP_RULE_MISSING"
    unfolding rule_spec_def i by (simp_all add: metric_matcher_def)
  have m: "filter (\<lambda>x. r_cmd x \<noteq> 0) (match_list (demo_entry 10 RMAP_EXIT)) = []" by (simp add: demo_entry_def)
  note rt = route_map_rules_roundtrip [OF demo_maps_inv, where sv = "metric_vec metric_setter" and mv = ?mv]
  show ?thesis using rt [of "''metric''" "Some ''9''"] rt [of "''metric''" None] rt [of "''tag''" "Some ''9''"] unfolding s sum.case using m by auto
qed

theorem route_map_apply_first_match_witness:
  "route_map_apply (metric_vec metric_matcher) (metric_vec metric_setter) (Some \<lparr>rm_name = ''A'', rm_index = [demo_entry 10 RMAP_EXIT]\<rparr>) prefix_new RMAP_BGP 5
     = Some (RMAP_MATCH, 7)"
proof -
  have "rules_agree (metric_vec metric_matcher) prefix_new RMAP_BGP 5 (demo_entry 10 RMAP_EXIT)" by (rule rules_agree_single) (simp add: demo_entry_def)
  moreover have "rule_matches (metric_vec metric_matcher) prefix_new RMAP_BGP 5 r" if "r \<in> set (match_list (demo_entry 10 RMAP_EXIT))" for r
    using that by (simp add: demo_entry_def rule_matches_def rule_apply_def metric_vec_ok metric_matcher_def)
  ultimately show ?thesis
    using route_map_apply_first_match [OF metric_match_plain, of "metric_vec metric_setter" "\<lparr>rm_name = ''A'', rm_index = [demo_entry 10 RMAP_EXIT]\<rparr>" prefix_new RMAP_BGP 5]
      demo_installed [of 10 RMAP_EXIT] by (simp add: demo_matches(2) demo_entry_fields)
qed

theorem route_map_continue_denies_witness:
  "route_map_apply (metric_vec metric_matcher) (metric_vec metric_setter) (Some \<lparr>rm_name = ''A'', rm_index = [demo_entry 10 RMAP_NEXT]\<rparr>) prefix_new RMAP_BGP 5
     = Some (RMAP_DENYMATCH, 7)"
  using route_map_continue_denies [OF metric_match_plain, of "metric_vec metric_setter" "\<lparr>rm_name = ''A'', rm_index = [demo_entry 10 RMAP_NEXT]\<rparr>" "[]"
      "demo_entry 10 RMAP_NEXT" "[]" prefix_new RMAP_BGP 5] demo_installed [of 10 RMAP_NEXT]
  by (simp add: demo_matches demo_entry_fields)

end
