(* ===== verification/Lib_Thread.thy ===== *)
theory Lib_Thread
  imports Lib_Plist "HOL-Library.Multiset"
begin

text \<open>
  The event loop of \<open>lib/thread.c\<close>.  Threads live in a store; the six lists of \<open>struct thread_master\<close>, by the type
  of the threads in them, hold their addresses.  A thread that ran or was cancelled goes to the list of unused threads and is taken
  again for the next one.  \<^term>\<open>None\<close> is a failed assertion, a list that is corrupted, or a descriptor outside of the sets of
  \<open>select\<close>.  The clock, the result of \<open>select\<close> and the address of a new thread are arguments.
\<close>

section \<open>Definitions\<close>

subsection \<open>Time\<close>

text \<open>\<open>struct timeval\<close>.\<close>

record tstamp =
  ts_sec :: int
  ts_usec :: int

abbreviation TIMER_SECOND_MICRO :: int where "TIMER_SECOND_MICRO \<equiv> 1000000"

function ts_down :: "tstamp \<Rightarrow> tstamp" where
  "ts_down a = (if ts_usec a \<ge> TIMER_SECOND_MICRO then ts_down \<lparr>ts_sec = ts_sec a + 1, ts_usec = ts_usec a - TIMER_SECOND_MICRO\<rparr> else a)"
  by auto
termination
  by (relation "measure (\<lambda>a. nat (ts_usec a))") auto

function ts_up :: "tstamp \<Rightarrow> tstamp" where
  "ts_up a = (if ts_usec a < 0 then ts_up \<lparr>ts_sec = ts_sec a - 1, ts_usec = ts_usec a + TIMER_SECOND_MICRO\<rparr> else a)"
  by auto
termination
  by (relation "measure (\<lambda>a. nat (- ts_usec a))") auto

declare ts_down.simps [simp del] ts_up.simps [simp del]

definition timeval_adjust :: "tstamp \<Rightarrow> tstamp" where
  "timeval_adjust a =
     (let a = ts_up (ts_down a);
          a = (if ts_sec a < 0 then \<lparr>ts_sec = 0, ts_usec = 10\<rparr> else a)
      in if ts_sec a > TIMER_SECOND_MICRO then a\<lparr>ts_sec := TIMER_SECOND_MICRO\<rparr> else a)"

definition timeval_subtract :: "tstamp \<Rightarrow> tstamp \<Rightarrow> tstamp" where
  "timeval_subtract a b = timeval_adjust \<lparr>ts_sec = ts_sec a - ts_sec b, ts_usec = ts_usec a - ts_usec b\<rparr>"

text \<open>The difference, a \<open>long\<close>, is returned as an \<open>int\<close>.\<close>

definition timeval_cmp :: "tstamp \<Rightarrow> tstamp \<Rightarrow> int" where
  "timeval_cmp a b =
     sint (word_of_int (if ts_sec a = ts_sec b then ts_usec a - ts_usec b else ts_sec a - ts_sec b) :: u32)"

subsection \<open>Threads\<close>

datatype thread_type = THREAD_READ | THREAD_WRITE | THREAD_TIMER | THREAD_EVENT | THREAD_READY | THREAD_UNUSED

datatype thread_u = U_val int | U_fd int | U_sands tstamp

record ('f, 'a) thread =
  th_type :: thread_type
  th_func :: 'f
  th_arg :: 'a
  th_u :: thread_u

record ('f, 'a) thread_master =
  m_list :: "thread_type \<Rightarrow> nat list"
  m_readfd :: "int set"
  m_writefd :: "int set"
  m_alloc :: nat
  m_threads :: "nat \<rightharpoonup> ('f, 'a) thread"

definition thread_master_create :: "('f, 'a) thread_master" where
  "thread_master_create = \<lparr>m_list = (\<lambda>ty. []), m_readfd = {}, m_writefd = {}, m_alloc = 0, m_threads = Map.empty\<rparr>"

definition thread_list_add :: "thread_type \<Rightarrow> nat \<Rightarrow> ('f, 'a) thread_master \<Rightarrow> ('f, 'a) thread_master" where
  "thread_list_add ty p m = m\<lparr>m_list := (m_list m)(ty := m_list m ty @ [p])\<rparr>"

text \<open>A thread that is not in the list would leave its neighbors and the ends of the list wrong.\<close>

definition thread_list_delete :: "thread_type \<Rightarrow> nat \<Rightarrow> ('f, 'a) thread_master \<Rightarrow> ('f, 'a) thread_master option" where
  "thread_list_delete ty p m =
     (if p \<in> set (m_list m ty) then Some (m\<lparr>m_list := (m_list m)(ty := remove1 p (m_list m ty))\<rparr>) else None)"

definition th_update :: "nat \<Rightarrow> (('f, 'a) thread \<Rightarrow> ('f, 'a) thread) \<Rightarrow> ('f, 'a) thread_master \<Rightarrow> ('f, 'a) thread_master option" where
  "th_update p f m = map_option (\<lambda>th. m\<lparr>m_threads := (m_threads m)(p \<mapsto> f th)\<rparr>) (m_threads m p)"

text \<open>The assertions: the thread has no neighbors and the type of an unused one.  The only thread of a list has no neighbors either, and would
  become its own neighbor.\<close>

definition thread_add_unuse :: "nat \<Rightarrow> ('f, 'a) thread_master \<Rightarrow> ('f, 'a) thread_master option" where
  "thread_add_unuse p m = do {
     th \<leftarrow> m_threads m p;
     if (\<forall>ty\<in>{THREAD_READ, THREAD_WRITE, THREAD_TIMER, THREAD_EVENT, THREAD_READY, THREAD_UNUSED}. p \<notin> set (m_list m ty)) \<and> th_type th = THREAD_UNUSED
     then Some (thread_list_add THREAD_UNUSED p m) else None
   }"

definition thread_trim_head :: "thread_type \<Rightarrow> ('f, 'a) thread_master \<Rightarrow> (nat \<times> ('f, 'a) thread_master) option" where
  "thread_trim_head ty m =
     (case m_list m ty of
        [] \<Rightarrow> None
      | p # ps \<Rightarrow> Some (p, m\<lparr>m_list := (m_list m)(ty := ps)\<rparr>))"

definition thread_empty :: "thread_type \<Rightarrow> ('f, 'a) thread_master \<Rightarrow> bool" where
  "thread_empty ty m \<longleftrightarrow> m_list m ty = []"

definition thread_get :: "thread_type \<Rightarrow> 'f \<Rightarrow> 'a \<Rightarrow> nat \<Rightarrow> ('f, 'a) thread_master \<Rightarrow> (nat \<times> ('f, 'a) thread_master) option" where
  "thread_get ty func arg new m =
     (case thread_trim_head THREAD_UNUSED m of
        Some (p, m) \<Rightarrow> map_option (Pair p) (th_update p (\<lambda>th. th\<lparr>th_type := ty, th_func := func, th_arg := arg\<rparr>) m)
      | None \<Rightarrow> Some (new, m\<lparr>m_alloc := m_alloc m + 1,
          m_threads := (m_threads m)(new \<mapsto> \<lparr>th_type = ty, th_func = func, th_arg = arg, th_u = U_val 0\<rparr>)\<rparr>))"

text \<open>\<open>FD_SETSIZE\<close> is 1024.\<close>

definition fd_ok :: "int \<Rightarrow> bool" where
  "fd_ok fd \<longleftrightarrow> 0 \<le> fd \<and> fd < 1024"

definition thread_add_read :: "'f \<Rightarrow> 'a \<Rightarrow> int \<Rightarrow> nat \<Rightarrow> ('f, 'a) thread_master \<Rightarrow> (nat option \<times> ('f, 'a) thread_master) option" where
  "thread_add_read func arg fd new m =
     (if \<not> fd_ok fd then None
      else if fd \<in> m_readfd m then Some (None, m)
      else do {
        (p, m) \<leftarrow> thread_get THREAD_READ func arg new m;
        let m = m\<lparr>m_readfd := insert fd (m_readfd m)\<rparr>;
        m \<leftarrow> th_update p (\<lambda>th. th\<lparr>th_u := U_fd fd\<rparr>) m;
        Some (Some p, thread_list_add THREAD_READ p m)
      })"

definition thread_add_write :: "'f \<Rightarrow> 'a \<Rightarrow> int \<Rightarrow> nat \<Rightarrow> ('f, 'a) thread_master \<Rightarrow> (nat option \<times> ('f, 'a) thread_master) option" where
  "thread_add_write func arg fd new m =
     (if \<not> fd_ok fd then None
      else if fd \<in> m_writefd m then Some (None, m)
      else do {
        (p, m) \<leftarrow> thread_get THREAD_WRITE func arg new m;
        let m = m\<lparr>m_writefd := insert fd (m_writefd m)\<rparr>;
        m \<leftarrow> th_update p (\<lambda>th. th\<lparr>th_u := U_fd fd\<rparr>) m;
        Some (Some p, thread_list_add THREAD_WRITE p m)
      })"

text \<open>\<open>u.sands\<close> of a thread of the timer list.\<close>

definition th_sands :: "('f, 'a) thread_master \<Rightarrow> nat \<Rightarrow> tstamp option" where
  "th_sands m p = (case m_threads m p of Some th \<Rightarrow> (case th_u th of U_sands t \<Rightarrow> Some t | _ \<Rightarrow> None) | None \<Rightarrow> None)"

definition th_fd :: "('f, 'a) thread_master \<Rightarrow> nat \<Rightarrow> int option" where
  "th_fd m p = (case m_threads m p of Some th \<Rightarrow> (case th_u th of U_fd fd \<Rightarrow> Some fd | _ \<Rightarrow> None) | None \<Rightarrow> None)"

text \<open>The search for the place of a timer, and the insertion by \<open>thread_list_add_before\<close> or \<open>thread_list_add\<close>.\<close>

fun timer_insert :: "('f, 'a) thread_master \<Rightarrow> nat \<Rightarrow> tstamp \<Rightarrow> nat list \<Rightarrow> nat list option" where
  "timer_insert m p t [] = Some [p]"
| "timer_insert m p t (q # qs) = do {
     u \<leftarrow> th_sands m q;
     if timeval_cmp t u \<le> 0 then Some (p # q # qs)
     else map_option (Cons q) (timer_insert m p t qs)
   }"

definition thread_add_timer :: "'f \<Rightarrow> 'a \<Rightarrow> int \<Rightarrow> tstamp \<Rightarrow> nat \<Rightarrow> ('f, 'a) thread_master \<Rightarrow> (nat \<times> ('f, 'a) thread_master) option" where
  "thread_add_timer func arg timer now new m = do {
     (p, m) \<leftarrow> thread_get THREAD_TIMER func arg new m;
     let t = now\<lparr>ts_sec := ts_sec now + timer\<rparr>;
     m \<leftarrow> th_update p (\<lambda>th. th\<lparr>th_u := U_sands t\<rparr>) m;
     ps \<leftarrow> timer_insert m p t (m_list m THREAD_TIMER);
     Some (p, m\<lparr>m_list := (m_list m)(THREAD_TIMER := ps)\<rparr>)
   }"

definition thread_add_event :: "'f \<Rightarrow> 'a \<Rightarrow> int \<Rightarrow> nat \<Rightarrow> ('f, 'a) thread_master \<Rightarrow> (nat \<times> ('f, 'a) thread_master) option" where
  "thread_add_event func arg val new m = do {
     (p, m) \<leftarrow> thread_get THREAD_EVENT func arg new m;
     m \<leftarrow> th_update p (\<lambda>th. th\<lparr>th_u := U_val val\<rparr>) m;
     Some (p, thread_list_add THREAD_EVENT p m)
   }"

subsection \<open>Cancelling\<close>

definition fd_clear :: "nat \<Rightarrow> int set \<Rightarrow> ('f, 'a) thread_master \<Rightarrow> int set option" where
  "fd_clear p fds m = do {
     fd \<leftarrow> th_fd m p;
     if fd \<in> fds then Some (fds - {fd}) else None
   }"

definition thread_cancel :: "nat \<Rightarrow> ('f, 'a) thread_master \<Rightarrow> ('f, 'a) thread_master option" where
  "thread_cancel p m = do {
     th \<leftarrow> m_threads m p;
     m \<leftarrow> (case th_type th of
        THREAD_READ \<Rightarrow> do { fds \<leftarrow> fd_clear p (m_readfd m) m; thread_list_delete THREAD_READ p (m\<lparr>m_readfd := fds\<rparr>) }
      | THREAD_WRITE \<Rightarrow> do { fds \<leftarrow> fd_clear p (m_writefd m) m; thread_list_delete THREAD_WRITE p (m\<lparr>m_writefd := fds\<rparr>) }
      | THREAD_TIMER \<Rightarrow> thread_list_delete THREAD_TIMER p m
      | THREAD_EVENT \<Rightarrow> thread_list_delete THREAD_EVENT p m
      | THREAD_READY \<Rightarrow> thread_list_delete THREAD_READY p m
      | THREAD_UNUSED \<Rightarrow> Some m);
     m \<leftarrow> th_update p (\<lambda>th. th\<lparr>th_type := THREAD_UNUSED\<rparr>) m;
     thread_add_unuse p m
   }"

fun cancel_loop :: "'a \<Rightarrow> nat list \<Rightarrow> ('f, 'a) thread_master \<Rightarrow> ('f, 'a) thread_master option" where
  "cancel_loop arg [] m = Some m"
| "cancel_loop arg (p # ps) m = do {
     th \<leftarrow> m_threads m p;
     m \<leftarrow> (if th_arg th = arg
            then do {
              m \<leftarrow> thread_list_delete THREAD_EVENT p m;
              m \<leftarrow> th_update p (\<lambda>th. th\<lparr>th_type := THREAD_UNUSED\<rparr>) m;
              thread_add_unuse p m
            }
            else Some m);
     cancel_loop arg ps m
   }"

definition thread_cancel_event :: "'a \<Rightarrow> ('f, 'a) thread_master \<Rightarrow> ('f, 'a) thread_master option" where
  "thread_cancel_event arg m = cancel_loop arg (m_list m THREAD_EVENT) m"

subsection \<open>The end\<close>

text \<open>The heads of the lists stay; \<open>thread_master_free\<close> frees the structure that holds them.\<close>

definition thread_list_free :: "thread_type \<Rightarrow> ('f, 'a) thread_master \<Rightarrow> ('f, 'a) thread_master" where
  "thread_list_free ty m = m\<lparr>m_alloc := m_alloc m - length (m_list m ty), m_threads := m_threads m |` (- set (m_list m ty))\<rparr>"

definition thread_master_free :: "('f, 'a) thread_master \<Rightarrow> ('f, 'a) thread_master" where
  "thread_master_free m = thread_list_free THREAD_UNUSED (thread_list_free THREAD_READY (thread_list_free THREAD_EVENT
     (thread_list_free THREAD_TIMER (thread_list_free THREAD_WRITE (thread_list_free THREAD_READ m)))))"

subsection \<open>Fetching\<close>

definition thread_timer_wait :: "tstamp \<Rightarrow> ('f, 'a) thread_master \<Rightarrow> tstamp option option" where
  "thread_timer_wait now m =
     (case m_list m THREAD_TIMER of
        [] \<Rightarrow> Some None
      | p # ps \<Rightarrow> do {
          t \<leftarrow> th_sands m p;
          let t = timeval_subtract t now;
          Some (Some (if ts_sec t < 0 then \<lparr>ts_sec = 0, ts_usec = 10\<rparr> else t))
        })"

text \<open>The copy of the thread that runs, and the rest.\<close>

definition thread_run :: "nat \<Rightarrow> ('f, 'a) thread_master \<Rightarrow> (('f, 'a) thread \<times> ('f, 'a) thread_master) option" where
  "thread_run p m = do {
     fetch \<leftarrow> m_threads m p;
     m \<leftarrow> th_update p (\<lambda>th. th\<lparr>th_type := THREAD_UNUSED\<rparr>) m;
     m \<leftarrow> thread_add_unuse p m;
     Some (fetch, m)
   }"

text \<open>The set of \<open>select\<close> that goes with a list, \<open>mfdset\<close>.\<close>

definition mfdset :: "thread_type \<Rightarrow> ('f, 'a) thread_master \<Rightarrow> int set" where
  "mfdset ty m = (if ty = THREAD_READ then m_readfd m else m_writefd m)"

definition mfdset_put :: "thread_type \<Rightarrow> int set \<Rightarrow> ('f, 'a) thread_master \<Rightarrow> ('f, 'a) thread_master" where
  "mfdset_put ty fds m = (if ty = THREAD_READ then m\<lparr>m_readfd := fds\<rparr> else m\<lparr>m_writefd := fds\<rparr>)"

fun process_fd_loop :: "thread_type \<Rightarrow> int set \<Rightarrow> nat list \<Rightarrow> ('f, 'a) thread_master \<Rightarrow> ('f, 'a) thread_master option" where
  "process_fd_loop ty fdset [] m = Some m"
| "process_fd_loop ty fdset (p # ps) m = do {
     fd \<leftarrow> th_fd m p;
     m \<leftarrow> (if fd \<in> fdset
            then do {
              fds \<leftarrow> fd_clear p (mfdset ty m) m;
              m \<leftarrow> thread_list_delete ty p (mfdset_put ty fds m);
              th_update p (\<lambda>th. th\<lparr>th_type := THREAD_READY\<rparr>) (thread_list_add THREAD_READY p m)
            }
            else Some m);
     process_fd_loop ty fdset ps m
   }"

text \<open>For the list of readers or of writers; the number of threads that it returns is not used.\<close>

definition thread_process_fd :: "thread_type \<Rightarrow> int set \<Rightarrow> ('f, 'a) thread_master \<Rightarrow> ('f, 'a) thread_master option" where
  "thread_process_fd ty fdset m = process_fd_loop ty fdset (m_list m ty) m"

text \<open>The loop over the timers, which stops at the first one that is due.\<close>

fun timer_due :: "('f, 'a) thread_master \<Rightarrow> tstamp \<Rightarrow> nat list \<Rightarrow> nat option option" where
  "timer_due m now [] = Some None"
| "timer_due m now (p # ps) = do {
     t \<leftarrow> th_sands m p;
     if timeval_cmp now t \<ge> 0 then Some (Some p) else timer_due m now ps
   }"

text \<open>What \<open>select\<close> reports: nothing until the timeout, an interrupt, an error, or descriptors that are ready.\<close>

datatype select_result = Sel_timeout | Sel_intr | Sel_error | Sel_ready "int set" "int set"

text \<open>A call of \<open>thread_fetch\<close> returns a thread to run or, after an error, none; or it still waits when the inputs end.\<close>

datatype ('f, 'a) fetch_result = Fetch_run "('f, 'a) thread" | Fetch_null | Fetch_waiting

definition fetch_run :: "nat \<Rightarrow> ('f, 'a) thread_master \<Rightarrow> (('f, 'a) fetch_result \<times> ('f, 'a) thread_master) option" where
  "fetch_run p m = map_option (\<lambda>(th, m). (Fetch_run th, m)) (thread_run p m)"

fun thread_fetch :: "(tstamp \<times> select_result) list \<Rightarrow> ('f, 'a) thread_master \<Rightarrow> (('f, 'a) fetch_result \<times> ('f, 'a) thread_master) option" where
  "thread_fetch env m =
     (case thread_trim_head THREAD_EVENT m of
        Some (p, m) \<Rightarrow> fetch_run p m
      | None \<Rightarrow>
          (case env of
             [] \<Rightarrow> Some (Fetch_waiting, m)
           | (now, sel) # env \<Rightarrow>
               (case timer_due m now (m_list m THREAD_TIMER) of
                  None \<Rightarrow> None
                | Some (Some p) \<Rightarrow> Option.bind (thread_list_delete THREAD_TIMER p m) (fetch_run p)
                | Some None \<Rightarrow>
                    (case thread_trim_head THREAD_READY m of
                       Some (p, m) \<Rightarrow> fetch_run p m
                     | None \<Rightarrow>
                         (case sel of
                            Sel_timeout \<Rightarrow> thread_fetch env m
                          | Sel_intr \<Rightarrow> thread_fetch env m
                          | Sel_error \<Rightarrow> Some (Fetch_null, m)
                          | Sel_ready r w \<Rightarrow>
                              (case Option.bind (thread_process_fd THREAD_READ r m) (thread_process_fd THREAD_WRITE w) of
                                 None \<Rightarrow> None
                               | Some m \<Rightarrow>
                                   (case thread_trim_head THREAD_READY m of
                                      Some (p, m) \<Rightarrow> fetch_run p m
                                    | None \<Rightarrow> thread_fetch env m)))))))"

declare thread_fetch.simps [simp del]

section \<open>Time\<close>

definition ts_micros :: "tstamp \<Rightarrow> int" where
  "ts_micros a = 1000000 * ts_sec a + ts_usec a"

text \<open>Times the comparison orders: a difference of seconds fits an \<open>int\<close>.\<close>

definition time_ok :: "tstamp \<Rightarrow> bool" where
  "time_ok t \<longleftrightarrow> 0 \<le> ts_sec t \<and> ts_sec t < 2 ^ 31 \<and> 0 \<le> ts_usec t \<and> ts_usec t < 1000000"

lemma timeval_cmp_sign:
  assumes "time_ok a" "time_ok b"
  shows "timeval_cmp a b \<le> 0 \<longleftrightarrow> ts_micros a \<le> ts_micros b" "timeval_cmp a b \<ge> 0 \<longleftrightarrow> ts_micros a \<ge> ts_micros b"
proof -
  let ?d = "if ts_sec a = ts_sec b then ts_usec a - ts_usec b else ts_sec a - ts_sec b"
  have "timeval_cmp a b = ?d" unfolding timeval_cmp_def by (rule sint32_small) (use assms in \<open>auto simp: time_ok_def\<close>)
  moreover have "?d \<le> 0 \<longleftrightarrow> ts_micros a \<le> ts_micros b" "?d \<ge> 0 \<longleftrightarrow> ts_micros a \<ge> ts_micros b"
    using assms by (auto simp: time_ok_def ts_micros_def)
  ultimately show "timeval_cmp a b \<le> 0 \<longleftrightarrow> ts_micros a \<le> ts_micros b" "timeval_cmp a b \<ge> 0 \<longleftrightarrow> ts_micros a \<ge> ts_micros b" by simp_all
qed

lemma ts_down_spec: "ts_micros (ts_down a) = ts_micros a \<and> ts_usec (ts_down a) < 1000000"
proof (induction a rule: ts_down.induct)
  case (1 a)
  then show ?case by (subst (1 2) ts_down.simps) (auto simp: ts_micros_def)
qed

lemma ts_up_spec: "ts_usec a < 1000000 \<Longrightarrow> ts_micros (ts_up a) = ts_micros a \<and> 0 \<le> ts_usec (ts_up a) \<and> ts_usec (ts_up a) < 1000000"
proof (induction a rule: ts_up.induct)
  case (1 a)
  then show ?case by (subst (1 2 3) ts_up.simps) (auto simp: ts_micros_def)
qed

text \<open>The time to a later moment is exact up to \<open>10 ^ 6\<close> seconds; a moment in the past gives ten microseconds.\<close>

lemma timeval_subtract_spec:
  "ts_micros a \<ge> ts_micros b \<Longrightarrow> ts_micros a - ts_micros b < 1000001 * 1000000 \<Longrightarrow> ts_micros (timeval_subtract a b) = ts_micros a - ts_micros b"
  "ts_micros a < ts_micros b \<Longrightarrow> ts_micros (timeval_subtract a b) = 10"
  "0 \<le> ts_sec (timeval_subtract a b)"
proof -
  let ?r = "\<lparr>ts_sec = ts_sec a - ts_sec b, ts_usec = ts_usec a - ts_usec b\<rparr>"
  define u where "u = ts_up (ts_down ?r)"
  have m: "ts_micros u = ts_micros a - ts_micros b" "0 \<le> ts_usec u" "ts_usec u < 1000000"
    using ts_down_spec [of ?r] ts_up_spec [of "ts_down ?r"] by (auto simp: u_def ts_micros_def)
  note e = timeval_subtract_def timeval_adjust_def Let_def u_def [symmetric]
  show "ts_micros (timeval_subtract a b) = ts_micros a - ts_micros b"
    if "ts_micros a \<ge> ts_micros b" "ts_micros a - ts_micros b < 1000001 * 1000000"
    using that m by (auto simp: e ts_micros_def)
  show "ts_micros (timeval_subtract a b) = 10" if "ts_micros a < ts_micros b"
    using that m by (auto simp: e ts_micros_def)
  show "0 \<le> ts_sec (timeval_subtract a b)" by (simp add: e)
qed

section \<open>Invariant\<close>

text \<open>Every thread of the store is in the list of its type, once.\<close>

definition lists_ok :: "('f, 'a) thread_master \<Rightarrow> bool" where
  "lists_ok m \<longleftrightarrow> (\<forall>ty. distinct (m_list m ty)) \<and> (\<forall>p ty. p \<in> set (m_list m ty) \<longleftrightarrow> (\<exists>th. m_threads m p = Some th \<and> th_type th = ty))"

text \<open>The threads of a list wait for different descriptors, and these are the members of the set.\<close>

definition fds_ok :: "thread_type \<Rightarrow> int set \<Rightarrow> ('f, 'a) thread_master \<Rightarrow> bool" where
  "fds_ok ty fds m \<longleftrightarrow> distinct (map (th_fd m) (m_list m ty)) \<and> Some ` fds = th_fd m ` set (m_list m ty)"

definition timers_ok :: "('f, 'a) thread_master \<Rightarrow> bool" where
  "timers_ok m \<longleftrightarrow> (\<forall>p\<in>set (m_list m THREAD_TIMER). \<exists>t. th_sands m p = Some t \<and> time_ok t)
     \<and> sorted (map (\<lambda>p. ts_micros (the (th_sands m p))) (m_list m THREAD_TIMER))"

definition sched_inv :: "('f, 'a) thread_master \<Rightarrow> bool" where
  "sched_inv m \<longleftrightarrow> lists_ok m \<and> fds_ok THREAD_READ (m_readfd m) m \<and> fds_ok THREAD_WRITE (m_writefd m) m \<and> timers_ok m
     \<and> finite (dom (m_threads m)) \<and> m_alloc m = card (dom (m_threads m))"

definition task_of :: "('f, 'a) thread \<Rightarrow> 'f \<times> 'a \<times> thread_u" where
  "task_of th = (th_func th, th_arg th, th_u th)"

text \<open>The tasks of a list in order, and all tasks that wait.\<close>

definition tasks :: "thread_type \<Rightarrow> ('f, 'a) thread_master \<Rightarrow> ('f \<times> 'a \<times> thread_u) list" where
  "tasks ty m = map (\<lambda>p. task_of (the (m_threads m p))) (m_list m ty)"

definition active :: "('f, 'a) thread_master \<Rightarrow> nat set" where
  "active m = {p. \<exists>th. m_threads m p = Some th \<and> th_type th \<noteq> THREAD_UNUSED}"

definition pending :: "('f, 'a) thread_master \<Rightarrow> ('f \<times> 'a \<times> thread_u) multiset" where
  "pending m = image_mset (\<lambda>p. task_of (the (m_threads m p))) (mset_set (active m))"

lemma create_inv: "sched_inv (thread_master_create :: ('f, 'a) thread_master)" "pending (thread_master_create :: ('f, 'a) thread_master) = {#}"
  by (simp_all add: sched_inv_def lists_ok_def fds_ok_def timers_ok_def thread_master_create_def pending_def active_def)

text \<open>A thread changes its type and moves to another place; the lists of other types and their threads stay.\<close>

definition moved :: "nat \<Rightarrow> ('f, 'a) thread \<Rightarrow> nat list \<Rightarrow> ('f, 'a) thread_master \<Rightarrow> ('f, 'a) thread_master" where
  "moved p th xs m = m\<lparr>m_list := (\<lambda>ty. if ty = th_type th then xs else remove1 p (m_list m ty)), m_threads := (m_threads m)(p \<mapsto> th)\<rparr>"

lemma moved_lists_ok:
  assumes "lists_ok m" "distinct xs" "set xs = insert p (set (m_list m (th_type th)))"
  shows "lists_ok (moved p th xs m)"
  using assms by (auto simp: lists_ok_def moved_def)

lemma moved_other:
  assumes "lists_ok m" "ty \<noteq> th_type th" "p \<notin> set (m_list m ty)"
  shows "m_list (moved p th xs m) ty = m_list m ty" "q \<in> set (m_list m ty) \<Longrightarrow> m_threads (moved p th xs m) q = m_threads m q"
  using assms by (auto simp: moved_def remove1_idem)

lemma moved_fds_other:
  assumes "lists_ok m" "fds_ok ty fds m" "ty \<noteq> th_type th" "p \<notin> set (m_list m ty)"
  shows "fds_ok ty fds (moved p th xs m)"
proof -
  have "th_fd (moved p th xs m) q = th_fd m q" if "q \<in> set (m_list m ty)" for q
    using moved_other(2) [OF assms(1,3,4) that] by (simp add: th_fd_def)
  then have "map (th_fd (moved p th xs m)) (m_list m ty) = map (th_fd m) (m_list m ty)" "th_fd (moved p th xs m) ` set (m_list m ty) = th_fd m ` set (m_list m ty)"
    by (auto intro: image_cong)
  then show ?thesis using assms(2) unfolding fds_ok_def moved_other(1) [OF assms(1,3,4)] by (simp only:)
qed

text \<open>The thread leaves a list of descriptors.\<close>

lemma moved_fds_leave:
  assumes "lists_ok m" "fds_ok ty fds m" "ty \<noteq> th_type th" "p \<in> set (m_list m ty)" "th_fd m p = Some fd"
  shows "fds_ok ty (fds - {fd}) (moved p th xs m)" "fd \<in> fds"
proof -
  let ?ps = "remove1 p (m_list m ty)"
  have d: "distinct (m_list m ty)" using assms(1) by (simp add: lists_ok_def)
  have l: "m_list (moved p th xs m) ty = ?ps" using assms(3) by (simp add: moved_def)
  have s: "set ?ps = set (m_list m ty) - {p}" using d by simp
  have f: "th_fd (moved p th xs m) q = th_fd m q" if "q \<in> set ?ps" for q using that s by (simp add: moved_def th_fd_def)
  have inj: "inj_on (th_fd m) (set (m_list m ty))" using assms(2) by (simp add: fds_ok_def distinct_map)
  have img: "th_fd (moved p th xs m) ` set ?ps = th_fd m ` (set (m_list m ty) - {p})" using f s by (auto simp: image_iff)
  have all: "Some ` fds = th_fd m ` set (m_list m ty)" using assms(2) by (simp add: fds_ok_def)
  have "th_fd m ` (set (m_list m ty) - {p}) = th_fd m ` set (m_list m ty) - {th_fd m p}"
    using inj assms(4) by (auto simp: inj_on_def)
  also have "\<dots> = Some ` (fds - {fd})" unfolding all [symmetric] assms(5) by auto
  finally have "Some ` (fds - {fd}) = th_fd (moved p th xs m) ` set ?ps" using img by simp
  moreover have "distinct (map (th_fd (moved p th xs m)) ?ps)"
  proof -
    have "inj_on (th_fd m) (set ?ps)" using inj s by (auto simp: inj_on_def)
    then have "inj_on (th_fd (moved p th xs m)) (set ?ps)" using f by (simp add: inj_on_def)
    then show ?thesis using d by (simp add: distinct_map distinct_remove1)
  qed
  ultimately show "fds_ok ty (fds - {fd}) (moved p th xs m)" using l by (simp add: fds_ok_def)
  have "Some fd \<in> th_fd m ` set (m_list m ty)" using assms(4,5) by (metis imageI)
  then show "fd \<in> fds" using all by auto
qed

lemma moved_timers_other:
  assumes "lists_ok m" "timers_ok m" "th_type th \<noteq> THREAD_TIMER"
  shows "timers_ok (moved p th xs m)"
proof -
  let ?ps = "remove1 p (m_list m THREAD_TIMER)"
  have l: "m_list (moved p th xs m) THREAD_TIMER = ?ps" using assms(3) by (simp add: moved_def)
  have d: "distinct (m_list m THREAD_TIMER)" using assms(1) by (simp add: lists_ok_def)
  have f: "th_sands (moved p th xs m) q = th_sands m q" if "q \<in> set ?ps" for q using that d by (simp add: moved_def th_sands_def)
  have "map (\<lambda>q. ts_micros (the (th_sands (moved p th xs m) q))) ?ps = map (\<lambda>q. ts_micros (the (th_sands m q))) ?ps" using f by simp
  moreover have "sorted (map (\<lambda>q. ts_micros (the (th_sands m q))) ?ps)" using assms(2) unfolding timers_ok_def by (intro sorted_map_remove1) simp
  moreover have "\<forall>q\<in>set ?ps. \<exists>t. th_sands (moved p th xs m) q = Some t \<and> time_ok t"
    using assms(2) f by (metis timers_ok_def notin_set_remove1)
  ultimately show ?thesis unfolding timers_ok_def l by (simp only:)
qed

lemma moved_active:
  "active (moved p th xs m) = (if th_type th = THREAD_UNUSED then active m - {p} else insert p (active m))"
  by (auto simp: active_def moved_def)

lemma pending_moved:
  assumes "finite (active m)"
  shows "pending (moved p th xs m) = (if th_type th = THREAD_UNUSED then {#} else {#task_of th#}) + image_mset (\<lambda>q. task_of (the (m_threads m q))) (mset_set (active m - {p}))"
proof -
  have "image_mset (\<lambda>q. task_of (the (m_threads (moved p th xs m) q))) (mset_set (active m - {p})) =
      image_mset (\<lambda>q. task_of (the (m_threads m q))) (mset_set (active m - {p}))"
    using assms by (intro image_mset_cong) (simp add: moved_def)
  moreover have "insert p (active m) = insert p (active m - {p})" by blast
  moreover have "m_threads (moved p th xs m) p = Some th" by (simp add: moved_def)
  ultimately show ?thesis
    using assms unfolding pending_def moved_active by (simp add: mset_set.insert_remove)
qed

lemma pending_remove:
  assumes "finite (active m)" "m_threads m p = Some th" "th_type th \<noteq> THREAD_UNUSED"
  shows "pending m = add_mset (task_of th) (image_mset (\<lambda>q. task_of (the (m_threads m q))) (mset_set (active m - {p})))"
proof -
  have "active m = insert p (active m - {p})" using assms(2,3) by (auto simp: active_def)
  then have "mset_set (active m) = add_mset p (mset_set (active m - {p}))" using assms(1) by (metis Diff_iff finite_Diff insertI1 mset_set.insert singletonI)
  then show ?thesis using assms(2) by (simp add: pending_def)
qed

lemma sched_active_finite: "sched_inv m \<Longrightarrow> finite (active m)"
  by (rule finite_subset [of _ "dom (m_threads m)"]) (auto simp: active_def sched_inv_def)

text \<open>The descriptor sets after a thread left its list.\<close>

definition cleared :: "('f, 'a) thread \<Rightarrow> ('f, 'a) thread_master \<Rightarrow> ('f, 'a) thread_master" where
  "cleared th m = (case th_u th of
     U_fd fd \<Rightarrow> (if th_type th = THREAD_READ then m\<lparr>m_readfd := m_readfd m - {fd}\<rparr>
                else if th_type th = THREAD_WRITE then m\<lparr>m_writefd := m_writefd m - {fd}\<rparr> else m)
   | _ \<Rightarrow> m)"

lemma cleared_fields [simp]: "m_list (cleared th m) = m_list m" "m_threads (cleared th m) = m_threads m" "m_alloc (cleared th m) = m_alloc m"
  by (simp_all add: cleared_def split: thread_u.split)

lemma cleared_cong: "m_list m = m_list m' \<Longrightarrow> m_threads m = m_threads m' \<Longrightarrow> th_fd m = th_fd m'"
  "m_list m = m_list m' \<Longrightarrow> m_threads m = m_threads m' \<Longrightarrow> th_sands m = th_sands m'"
  by (auto simp: th_fd_def th_sands_def fun_eq_iff)

lemma inv_parts_cleared [simp]:
  "lists_ok (cleared th m) = lists_ok m" "timers_ok (cleared th m) = timers_ok m" "fds_ok ty fds (cleared th m) = fds_ok ty fds m"
  "pending (cleared th m) = pending m" "tasks ty (cleared th m) = tasks ty m" "active (cleared th m) = active m"
  using cleared_cong [of "cleared th m" m]
  by (simp_all add: lists_ok_def timers_ok_def fds_ok_def pending_def active_def tasks_def)

text \<open>A thread that waits leaves its list, to run or to be reused.\<close>

lemma leave_inv:
  assumes i: "sched_inv m" and th: "m_threads m p = Some th" and ty: "th_type th \<noteq> ty" "ty = THREAD_UNUSED \<or> ty = THREAD_READY"
  shows "sched_inv (cleared th (moved p (th\<lparr>th_type := ty\<rparr>) (m_list m ty @ [p]) m))"
    and "th_type th = THREAD_READ \<Longrightarrow> \<exists>fd. th_u th = U_fd fd \<and> fd \<in> m_readfd m"
    and "th_type th = THREAD_WRITE \<Longrightarrow> \<exists>fd. th_u th = U_fd fd \<and> fd \<in> m_writefd m"
proof -
  let ?th = "th\<lparr>th_type := ty\<rparr>" and ?xs = "m_list m ty @ [p]"
  let ?m = "moved p ?th ?xs m"
  have ok: "lists_ok m" "fds_ok THREAD_READ (m_readfd m) m" "fds_ok THREAD_WRITE (m_writefd m) m" "timers_ok m"
    using i by (simp_all add: sched_inv_def)
  have mem: "p \<in> set (m_list m t) \<longleftrightarrow> t = th_type th" for t using ok(1) th by (auto simp: lists_ok_def)
  have l: "lists_ok ?m" by (rule moved_lists_ok [OF ok(1)]) (use ok(1) mem ty(1) in \<open>auto simp: lists_ok_def\<close>)
  have t: "timers_ok ?m" by (rule moved_timers_other [OF ok(1,4)]) (use ty(2) in auto)
  have ty': "THREAD_READ \<noteq> th_type ?th" "THREAD_WRITE \<noteq> th_type ?th" using ty(2) by auto
  have fd: "\<exists>fd. th_u th = U_fd fd \<and> th_fd m p = Some fd" if "fds_ok (th_type th) fds m" for fds
  proof -
    have "th_fd m p \<in> Some ` fds" using that mem [of "th_type th"] by (simp add: fds_ok_def)
    then show ?thesis using th by (auto simp: th_fd_def split: thread_u.splits)
  qed
  have r: "\<exists>fd. th_u th = U_fd fd \<and> fd \<in> m_readfd m \<and> fds_ok THREAD_READ (m_readfd m - {fd}) ?m" if "th_type th = THREAD_READ"
    using fd [of "m_readfd m"] that ok moved_fds_leave [OF ok(1,2) ty'(1), of p] mem by auto
  have w: "\<exists>fd. th_u th = U_fd fd \<and> fd \<in> m_writefd m \<and> fds_ok THREAD_WRITE (m_writefd m - {fd}) ?m" if "th_type th = THREAD_WRITE"
    using fd [of "m_writefd m"] that ok moved_fds_leave [OF ok(1,3) ty'(2), of p] mem by auto
  show "\<exists>fd. th_u th = U_fd fd \<and> fd \<in> m_readfd m" if "th_type th = THREAD_READ" using r [OF that] by blast
  show "\<exists>fd. th_u th = U_fd fd \<and> fd \<in> m_writefd m" if "th_type th = THREAD_WRITE" using w [OF that] by blast
  have ro: "fds_ok THREAD_READ (m_readfd m) ?m" if "th_type th \<noteq> THREAD_READ" by (rule moved_fds_other [OF ok(1,2) ty'(1)]) (use mem that in auto)
  have wo: "fds_ok THREAD_WRITE (m_writefd m) ?m" if "th_type th \<noteq> THREAD_WRITE" by (rule moved_fds_other [OF ok(1,3) ty'(2)]) (use mem that in auto)
  have fin: "finite (dom (m_threads ?m))" "m_alloc ?m = card (dom (m_threads ?m))"
    using i th by (auto simp: sched_inv_def moved_def insert_absorb domI)
  have rw: "m_readfd ?m = m_readfd m" "m_writefd ?m = m_writefd m" by (simp_all add: moved_def)
  have "fds_ok THREAD_READ (m_readfd (cleared th ?m)) ?m" "fds_ok THREAD_WRITE (m_writefd (cleared th ?m)) ?m"
    using r w ro wo rw by (cases "th_type th"; auto simp: cleared_def split: thread_u.splits)+
  then show "sched_inv (cleared th ?m)" using l t fin by (simp add: sched_inv_def)
qed

section \<open>Entering\<close>

text \<open>The thread that \<open>thread_get\<close> takes, and the state once it is in the list of its type.\<close>

definition slot :: "nat \<Rightarrow> ('f, 'a) thread_master \<Rightarrow> nat" where
  "slot new m = (case m_list m THREAD_UNUSED of [] \<Rightarrow> new | p # ps \<Rightarrow> p)"

definition placed :: "nat \<Rightarrow> ('f, 'a) thread \<Rightarrow> nat list \<Rightarrow> ('f, 'a) thread_master \<Rightarrow> ('f, 'a) thread_master" where
  "placed new th xs m = (moved (slot new m) th xs m)\<lparr>m_alloc := m_alloc m + (if m_list m THREAD_UNUSED = [] then 1 else 0)\<rparr>"

lemma slot_free:
  assumes "lists_ok m" "m_threads m new = None"
  shows "m_threads m (slot new m) = None \<and> m_list m THREAD_UNUSED = [] \<or> (\<exists>th. m_threads m (slot new m) = Some th \<and> th_type th = THREAD_UNUSED) \<and> m_list m THREAD_UNUSED \<noteq> []"
    and "t \<noteq> THREAD_UNUSED \<Longrightarrow> slot new m \<notin> set (m_list m t)"
proof -
  have mem: "p \<in> set (m_list m ty) \<longleftrightarrow> (\<exists>th. m_threads m p = Some th \<and> th_type th = ty)" for p ty using assms(1) by (simp add: lists_ok_def)
  have "slot new m \<in> set (m_list m THREAD_UNUSED)" if "m_list m THREAD_UNUSED \<noteq> []" using that by (cases "m_list m THREAD_UNUSED") (simp_all add: slot_def)
  moreover have "slot new m = new" if "m_list m THREAD_UNUSED = []" using that by (simp add: slot_def)
  ultimately show *: "m_threads m (slot new m) = None \<and> m_list m THREAD_UNUSED = [] \<or> (\<exists>th. m_threads m (slot new m) = Some th \<and> th_type th = THREAD_UNUSED) \<and> m_list m THREAD_UNUSED \<noteq> []"
    using assms(2) mem by (cases "m_list m THREAD_UNUSED = []") auto
  show "t \<noteq> THREAD_UNUSED \<Longrightarrow> slot new m \<notin> set (m_list m t)" using * mem by auto
qed

lemma thread_get_eq:
  assumes "lists_ok m" "m_threads m new = None"
  shows "\<exists>u. thread_get ty f a new m = Some (slot new m, m\<lparr>m_list := (m_list m)(THREAD_UNUSED := tl (m_list m THREAD_UNUSED)),
      m_alloc := m_alloc m + (if m_list m THREAD_UNUSED = [] then 1 else 0), m_threads := (m_threads m)(slot new m \<mapsto> \<lparr>th_type = ty, th_func = f, th_arg = a, th_u = u\<rparr>)\<rparr>)"
proof (cases "m_list m THREAD_UNUSED")
  case Nil
  have "(m_list m)(THREAD_UNUSED := []) = m_list m" using Nil by (simp add: fun_upd_idem)
  then show ?thesis using Nil by (auto simp: thread_get_def thread_trim_head_def slot_def)
next
  case (Cons p ps)
  then obtain th where "m_threads m p = Some th" using slot_free(1) [OF assms] by (auto simp: slot_def)
  then show ?thesis using Cons by (cases th) (auto simp: thread_get_def thread_trim_head_def slot_def th_update_def)
qed

lemma get_lists:
  assumes "lists_ok m" "m_threads m new = None" "th_type th \<noteq> THREAD_UNUSED"
  shows "((m_list m)(THREAD_UNUSED := tl (m_list m THREAD_UNUSED)))(th_type th := xs) = m_list (placed new th xs m)"
proof
  fix t
  show "(((m_list m)(THREAD_UNUSED := tl (m_list m THREAD_UNUSED)))(th_type th := xs)) t = m_list (placed new th xs m) t"
    using assms(3) slot_free(2) [OF assms(1,2), of t]
    by (cases "t = THREAD_UNUSED"; cases "m_list m THREAD_UNUSED") (auto simp: placed_def moved_def slot_def remove1_idem)
qed

lemma thread_add_read_eq:
  assumes "lists_ok m" "m_threads m new = None" "fd_ok fd" "fd \<notin> m_readfd m"
  shows "thread_add_read f a fd new m = Some (Some (slot new m),
     (placed new \<lparr>th_type = THREAD_READ, th_func = f, th_arg = a, th_u = U_fd fd\<rparr> (m_list m THREAD_READ @ [slot new m]) m)\<lparr>m_readfd := insert fd (m_readfd m)\<rparr>)"
  using thread_get_eq [OF assms(1,2), of THREAD_READ f a] assms(3,4)
    get_lists [OF assms(1,2), of "\<lparr>th_type = THREAD_READ, th_func = f, th_arg = a, th_u = U_fd fd\<rparr>" "m_list m THREAD_READ @ [slot new m]"]
  by (auto simp: thread_add_read_def th_update_def thread_list_add_def placed_def moved_def)

lemma thread_add_write_eq:
  assumes "lists_ok m" "m_threads m new = None" "fd_ok fd" "fd \<notin> m_writefd m"
  shows "thread_add_write f a fd new m = Some (Some (slot new m),
     (placed new \<lparr>th_type = THREAD_WRITE, th_func = f, th_arg = a, th_u = U_fd fd\<rparr> (m_list m THREAD_WRITE @ [slot new m]) m)\<lparr>m_writefd := insert fd (m_writefd m)\<rparr>)"
  using thread_get_eq [OF assms(1,2), of THREAD_WRITE f a] assms(3,4)
    get_lists [OF assms(1,2), of "\<lparr>th_type = THREAD_WRITE, th_func = f, th_arg = a, th_u = U_fd fd\<rparr>" "m_list m THREAD_WRITE @ [slot new m]"]
  by (auto simp: thread_add_write_def th_update_def thread_list_add_def placed_def moved_def)

lemma thread_add_event_eq:
  assumes "lists_ok m" "m_threads m new = None"
  shows "thread_add_event f a v new m = Some (slot new m,
     placed new \<lparr>th_type = THREAD_EVENT, th_func = f, th_arg = a, th_u = U_val v\<rparr> (m_list m THREAD_EVENT @ [slot new m]) m)"
  using thread_get_eq [OF assms(1,2), of THREAD_EVENT f a]
    get_lists [OF assms(1,2), of "\<lparr>th_type = THREAD_EVENT, th_func = f, th_arg = a, th_u = U_val v\<rparr>" "m_list m THREAD_EVENT @ [slot new m]"]
  by (auto simp: thread_add_event_def th_update_def thread_list_add_def placed_def moved_def)

abbreviation due_at :: "('f, 'a) thread_master \<Rightarrow> nat \<Rightarrow> int" where
  "due_at m p \<equiv> ts_micros (the (th_sands m p))"

text \<open>The place of a timer: after all that are due earlier, before the first that is due at the same time or later.\<close>

lemma timer_insert_eq:
  assumes "\<forall>q\<in>set qs. \<exists>u. th_sands m q = Some u \<and> time_ok u" "time_ok t"
  shows "timer_insert m p t qs = Some (takeWhile (\<lambda>q. due_at m q < ts_micros t) qs @ p # dropWhile (\<lambda>q. due_at m q < ts_micros t) qs)"
  using assms
proof (induction qs)
  case (Cons q qs)
  then obtain u where u: "th_sands m q = Some u" "time_ok u" by auto
  have "timeval_cmp t u \<le> 0 \<longleftrightarrow> \<not> due_at m q < ts_micros t" using timeval_cmp_sign(1) [OF Cons.prems(2) u(2)] u(1) by auto
  then show ?case using Cons u(1) by auto
qed simp

lemma place_sorted:
  fixes k :: "'b \<Rightarrow> int"
  assumes "sorted (map k qs)"
  shows "sorted (map k (takeWhile (\<lambda>q. k q < k p) qs @ p # dropWhile (\<lambda>q. k q < k p) qs))"
proof -
  have "sorted (map k (takeWhile (\<lambda>q. k q < k p) qs))" "sorted (map k (dropWhile (\<lambda>q. k q < k p) qs))"
    using assms by (metis sorted_append map_append takeWhile_dropWhile_id)+
  moreover have "k q < k p" if "q \<in> set (takeWhile (\<lambda>q. k q < k p) qs)" for q using set_takeWhileD [OF that] by simp
  moreover have "k p \<le> k q" if "q \<in> set (dropWhile (\<lambda>q. k q < k p) qs)" for q
    using that assms
  proof (induction qs)
    case (Cons x qs)
    then show ?case by (cases "k x < k p") (auto dest: order_trans)
  qed simp
  ultimately show ?thesis by (fastforce simp: sorted_append)
qed

lemma place_set: "set (takeWhile P qs @ p # dropWhile P qs) = insert p (set qs)" "distinct qs \<Longrightarrow> p \<notin> set qs \<Longrightarrow> distinct (takeWhile P qs @ p # dropWhile P qs)"
proof -
  have e: "takeWhile P qs @ dropWhile P qs = qs" by simp
  then show "set (takeWhile P qs @ p # dropWhile P qs) = insert p (set qs)" by (metis Un_insert_right list.simps(15) set_append)
  have "distinct (xs @ p # ys) \<longleftrightarrow> distinct (xs @ ys) \<and> p \<notin> set (xs @ ys)" for xs ys by auto
  then show "distinct qs \<Longrightarrow> p \<notin> set qs \<Longrightarrow> distinct (takeWhile P qs @ p # dropWhile P qs)" by (simp only: e) simp
qed

abbreviation timer_place :: "('f, 'a) thread_master \<Rightarrow> nat \<Rightarrow> tstamp \<Rightarrow> nat list" where
  "timer_place m p t \<equiv> takeWhile (\<lambda>q. due_at m q < ts_micros t) (m_list m THREAD_TIMER) @ p # dropWhile (\<lambda>q. due_at m q < ts_micros t) (m_list m THREAD_TIMER)"

lemma thread_add_timer_eq:
  assumes i: "lists_ok m" "timers_ok m" and new: "m_threads m new = None" and t: "t = now\<lparr>ts_sec := ts_sec now + timer\<rparr>" "time_ok t"
  shows "thread_add_timer f a timer now new m = Some (slot new m,
     placed new \<lparr>th_type = THREAD_TIMER, th_func = f, th_arg = a, th_u = U_sands t\<rparr> (timer_place m (slot new m) t) m)"
proof -
  let ?th = "\<lparr>th_type = THREAD_TIMER, th_func = f, th_arg = a, th_u = U_sands t\<rparr>" and ?p = "slot new m" and ?l = "m_list m THREAD_TIMER"
  obtain u where g: "thread_get THREAD_TIMER f a new m = Some (?p, m\<lparr>m_list := (m_list m)(THREAD_UNUSED := tl (m_list m THREAD_UNUSED)),
      m_alloc := m_alloc m + (if m_list m THREAD_UNUSED = [] then 1 else 0), m_threads := (m_threads m)(?p \<mapsto> \<lparr>th_type = THREAD_TIMER, th_func = f, th_arg = a, th_u = u\<rparr>)\<rparr>)"
    using thread_get_eq [OF i(1) new] by blast
  define m1 where "m1 = m\<lparr>m_list := (m_list m)(THREAD_UNUSED := tl (m_list m THREAD_UNUSED)),
      m_alloc := m_alloc m + (if m_list m THREAD_UNUSED = [] then 1 else 0), m_threads := (m_threads m)(?p \<mapsto> ?th)\<rparr>"
  have s: "th_sands m1 q = th_sands m q" if "q \<in> set ?l" for q
    using that slot_free(2) [OF i(1) new, of THREAD_TIMER] by (auto simp: m1_def th_sands_def)
  have k: "takeWhile (\<lambda>q. due_at m1 q < ts_micros t) ?l = takeWhile (\<lambda>q. due_at m q < ts_micros t) ?l" "dropWhile (\<lambda>q. due_at m1 q < ts_micros t) ?l = dropWhile (\<lambda>q. due_at m q < ts_micros t) ?l"
    using s by (auto intro: takeWhile_cong dropWhile_cong)
  have "timer_insert m1 ?p t ?l = Some (timer_place m ?p t)"
    unfolding timer_insert_eq [of ?l m1 t ?p, OF _ t(2)] k [symmetric]
    by (rule timer_insert_eq [OF _ t(2)]) (use i(2) s in \<open>auto simp: timers_ok_def\<close>)
  moreover have "m_list m1 THREAD_TIMER = ?l" by (simp add: m1_def)
  moreover have "m1\<lparr>m_list := (m_list m1)(THREAD_TIMER := timer_place m ?p t)\<rparr> = placed new ?th (timer_place m ?p t) m"
    using get_lists [OF i(1) new, of ?th "timer_place m ?p t"] by (simp add: m1_def placed_def moved_def)
  moreover have "thread_add_timer f a timer now new m = do { ps \<leftarrow> timer_insert m1 ?p t (m_list m1 THREAD_TIMER); Some (?p, m1\<lparr>m_list := (m_list m1)(THREAD_TIMER := ps)\<rparr>) }"
    unfolding thread_add_timer_def g by (simp add: th_update_def m1_def t(1) Let_def)
  ultimately show ?thesis by simp
qed

text \<open>What every addition keeps.\<close>

lemma placed_parts:
  assumes i: "sched_inv m" and new: "m_threads m new = None" and ty: "th_type th \<noteq> THREAD_UNUSED"
    and xs: "distinct xs" "set xs = insert (slot new m) (set (m_list m (th_type th)))"
  shows "lists_ok (placed new th xs m)"
    and "th_type th \<noteq> THREAD_READ \<Longrightarrow> fds_ok THREAD_READ (m_readfd m) (placed new th xs m)"
    and "th_type th \<noteq> THREAD_WRITE \<Longrightarrow> fds_ok THREAD_WRITE (m_writefd m) (placed new th xs m)"
    and "th_type th \<noteq> THREAD_TIMER \<Longrightarrow> timers_ok (placed new th xs m)"
    and "finite (dom (m_threads (placed new th xs m)))" "m_alloc (placed new th xs m) = card (dom (m_threads (placed new th xs m)))"
    and "t \<notin> {THREAD_UNUSED, th_type th} \<Longrightarrow> tasks t (placed new th xs m) = tasks t m"
    and "pending (placed new th xs m) = add_mset (task_of th) (pending m)"
proof -
  let ?p = "slot new m"
  let ?m = "moved ?p th xs m"
  have ok: "lists_ok m" "fds_ok THREAD_READ (m_readfd m) m" "fds_ok THREAD_WRITE (m_writefd m) m" "timers_ok m"
    using i by (simp_all add: sched_inv_def)
  note free = slot_free [OF ok(1) new]
  have c: "m_list (placed new th xs m) = m_list ?m" "m_threads (placed new th xs m) = m_threads ?m" by (simp_all add: placed_def)
  note cc = c cleared_cong [OF c]
  show "lists_ok (placed new th xs m)" using moved_lists_ok [OF ok(1) xs] by (simp add: lists_ok_def c)
  show "th_type th \<noteq> THREAD_READ \<Longrightarrow> fds_ok THREAD_READ (m_readfd m) (placed new th xs m)"
    using moved_fds_other [OF ok(1,2), where th = th and p = ?p and xs = xs] free(2) [of THREAD_READ] by (simp add: fds_ok_def cc)
  show "th_type th \<noteq> THREAD_WRITE \<Longrightarrow> fds_ok THREAD_WRITE (m_writefd m) (placed new th xs m)"
    using moved_fds_other [OF ok(1,3), where th = th and p = ?p and xs = xs] free(2) [of THREAD_WRITE] by (simp add: fds_ok_def cc)
  show "th_type th \<noteq> THREAD_TIMER \<Longrightarrow> timers_ok (placed new th xs m)"
    using moved_timers_other [OF ok(1,4), where th = th and p = ?p and xs = xs] by (simp add: timers_ok_def cc)
  show "finite (dom (m_threads (placed new th xs m)))" using i by (simp add: c moved_def sched_inv_def)
  show "m_alloc (placed new th xs m) = card (dom (m_threads (placed new th xs m)))"
    using i free(1) by (auto simp: placed_def moved_def sched_inv_def card_insert_if insert_absorb domI domIff)
  show "t \<notin> {THREAD_UNUSED, th_type th} \<Longrightarrow> tasks t (placed new th xs m) = tasks t m"
    using moved_other [OF ok(1), where ty = t and th = th and p = ?p and xs = xs] free(2) [of t] by (simp add: tasks_def c)
  have "?p \<notin> active m" using free(1) by (auto simp: active_def)
  then show "pending (placed new th xs m) = add_mset (task_of th) (pending m)"
    using pending_moved [OF sched_active_finite [OF i], where th = th and p = ?p and xs = xs] ty by (simp add: pending_def active_def c)
qed

lemma placed_at:
  assumes "lists_ok m" "m_threads m new = None"
  shows "m_list (placed new th xs m) (th_type th) = xs" "m_threads (placed new th xs m) (slot new m) = Some th"
    and "q \<in> set (m_list m ty) \<Longrightarrow> ty \<noteq> THREAD_UNUSED \<Longrightarrow> m_threads (placed new th xs m) q = m_threads m q"
  using slot_free(2) [OF assms, of ty] by (auto simp: placed_def moved_def)

lemma placed_end_tasks:
  assumes "lists_ok m" "m_threads m new = None" "th_type th \<noteq> THREAD_UNUSED"
  shows "tasks (th_type th) (placed new th (m_list m (th_type th) @ [slot new m]) m) = tasks (th_type th) m @ [task_of th]"
  using placed_at [OF assms(1,2), where th = th] assms(3) by (simp add: tasks_def)

lemma placed_fds:
  assumes i: "lists_ok m" "m_threads m new = None" and ty: "th_type th \<noteq> THREAD_UNUSED"
    and f: "fds_ok (th_type th) fds m" and fd: "th_u th = U_fd fd" "fd \<notin> fds"
  shows "fds_ok (th_type th) (insert fd fds) (placed new th (m_list m (th_type th) @ [slot new m]) m)"
proof -
  let ?m = "placed new th (m_list m (th_type th) @ [slot new m]) m" and ?l = "m_list m (th_type th)"
  have e: "th_fd ?m q = th_fd m q" if "q \<in> set ?l" for q using placed_at(3) [OF i that ty] by (simp add: th_fd_def)
  have p: "th_fd ?m (slot new m) = Some fd" using placed_at(2) [OF i] fd(1) by (simp add: th_fd_def)
  have "Some fd \<notin> th_fd m ` set ?l" using f fd(2) unfolding fds_ok_def by (metis imageE option.inject)
  moreover have "map (th_fd ?m) ?l = map (th_fd m) ?l" "th_fd ?m ` set ?l = th_fd m ` set ?l" using e by auto
  ultimately show ?thesis using f p placed_at(1) [OF i, of th] unfolding fds_ok_def by (simp del: map_eq_conv)
qed

definition task_time :: "'f \<times> 'a \<times> thread_u \<Rightarrow> int" where
  "task_time x = (case snd (snd x) of U_sands t \<Rightarrow> ts_micros t | _ \<Rightarrow> 0)"

lemma timer_task_time:
  assumes "timers_ok m" "q \<in> set (m_list m THREAD_TIMER)"
  shows "task_time (task_of (the (m_threads m q))) = due_at m q"
proof -
  obtain t where "th_sands m q = Some t" using assms by (auto simp: timers_ok_def)
  then show ?thesis by (auto simp: th_sands_def task_time_def task_of_def split: option.splits thread_u.splits)
qed

lemma placed_timer:
  assumes i: "lists_ok m" "timers_ok m" "m_threads m new = None" and th: "th_type th = THREAD_TIMER" "th_u th = U_sands t" "time_ok t"
  shows "timers_ok (placed new th (timer_place m (slot new m) t) m)" (is "timers_ok ?m")
    and "tasks THREAD_TIMER (placed new th (timer_place m (slot new m) t) m) =
       takeWhile (\<lambda>x. task_time x < ts_micros t) (tasks THREAD_TIMER m) @ task_of th # dropWhile (\<lambda>x. task_time x < ts_micros t) (tasks THREAD_TIMER m)"
proof -
  let ?p = "slot new m" and ?l = "m_list m THREAD_TIMER"
  have l: "m_list ?m THREAD_TIMER = timer_place m ?p t" using placed_at(1) [OF i(1,3), of th] th(1) by simp
  have e: "m_threads ?m q = m_threads m q" if "q \<in> set ?l" for q using placed_at(3) [OF i(1,3) that] by simp
  then have s: "th_sands ?m q = th_sands m q" if "q \<in> set ?l" for q using that by (simp add: th_sands_def)
  have p: "th_sands ?m ?p = Some t" "m_threads ?m ?p = Some th" using placed_at(2) [OF i(1,3)] th(2) by (simp_all add: th_sands_def)
  have tk: "takeWhile (\<lambda>q. due_at ?m q < ts_micros t) ?l = takeWhile (\<lambda>q. due_at m q < ts_micros t) ?l" "dropWhile (\<lambda>q. due_at ?m q < ts_micros t) ?l = dropWhile (\<lambda>q. due_at m q < ts_micros t) ?l"
    using s by (auto intro: takeWhile_cong dropWhile_cong)
  have k: "timer_place m ?p t = takeWhile (\<lambda>q. due_at ?m q < due_at ?m ?p) ?l @ ?p # dropWhile (\<lambda>q. due_at ?m q < due_at ?m ?p) ?l"
    using p(1) tk(1) [symmetric] tk(2) [symmetric] by (simp only: option.sel)
  have "map (due_at ?m) ?l = map (due_at m) ?l" using s by simp
  then have "sorted (map (due_at ?m) ?l)" using i(2) unfolding timers_ok_def by (simp only:)
  then have "sorted (map (due_at ?m) (takeWhile (\<lambda>q. due_at ?m q < due_at ?m ?p) ?l @ ?p # dropWhile (\<lambda>q. due_at ?m q < due_at ?m ?p) ?l))" by (rule place_sorted)
  then have "sorted (map (due_at ?m) (timer_place m ?p t))" using arg_cong [OF k, of "\<lambda>xs. sorted (map (due_at ?m) xs)"] by blast
  then show "timers_ok ?m" using i(2) s p(1) th(3) unfolding timers_ok_def l place_set(1) by auto
  have tm: "(task_time \<circ> (\<lambda>q. task_of (the (m_threads m q)))) q = due_at m q" if "q \<in> set ?l" for q using timer_task_time [OF i(2) that] by simp
  have "map (\<lambda>q. task_of (the (m_threads ?m q))) (takeWhile P ?l) = map (\<lambda>q. task_of (the (m_threads m q))) (takeWhile P ?l)" for P
    using e by (auto dest: set_takeWhileD)
  moreover have "map (\<lambda>q. task_of (the (m_threads ?m q))) (dropWhile P ?l) = map (\<lambda>q. task_of (the (m_threads m q))) (dropWhile P ?l)" for P
    using e by (auto dest: set_dropWhileD)
  moreover have "takeWhile (\<lambda>x. task_time x < ts_micros t) (tasks THREAD_TIMER m) = map (\<lambda>q. task_of (the (m_threads m q))) (takeWhile (\<lambda>q. due_at m q < ts_micros t) ?l)"
    "dropWhile (\<lambda>x. task_time x < ts_micros t) (tasks THREAD_TIMER m) = map (\<lambda>q. task_of (the (m_threads m q))) (dropWhile (\<lambda>q. due_at m q < ts_micros t) ?l)"
    unfolding tasks_def takeWhile_map dropWhile_map using tm by (auto intro!: arg_cong [where f = "map _"] takeWhile_cong dropWhile_cong)
  ultimately show "tasks THREAD_TIMER ?m =
       takeWhile (\<lambda>x. task_time x < ts_micros t) (tasks THREAD_TIMER m) @ task_of th # dropWhile (\<lambda>x. task_time x < ts_micros t) (tasks THREAD_TIMER m)"
    using p(2) by (simp add: tasks_def [of THREAD_TIMER ?m] l)
qed

section \<open>Adding threads\<close>

text \<open>The abstract view: the tasks that wait, by kind and in order.  The threads that are kept for reuse do not show.\<close>

definition queues :: "('f, 'a) thread_master \<Rightarrow> thread_type \<Rightarrow> ('f \<times> 'a \<times> thread_u) list" where
  "queues m ty = (if ty = THREAD_UNUSED then [] else tasks ty m)"

lemma queues_parts: "m_list m = m_list m' \<Longrightarrow> m_threads m = m_threads m' \<Longrightarrow> queues m = queues m'"
  by (auto simp: queues_def tasks_def fun_eq_iff)

lemma sched_inv_parts:
  assumes "m_list m = m_list m'" "m_threads m = m_threads m'" "m_alloc m = m_alloc m'"
  shows "sched_inv m \<longleftrightarrow> lists_ok m' \<and> fds_ok THREAD_READ (m_readfd m) m' \<and> fds_ok THREAD_WRITE (m_writefd m) m' \<and> timers_ok m'
     \<and> finite (dom (m_threads m')) \<and> m_alloc m' = card (dom (m_threads m'))"
  using assms cleared_cong [OF assms(1,2)] by (simp add: sched_inv_def lists_ok_def fds_ok_def timers_ok_def)

lemma placed_queues:
  assumes "sched_inv m" "m_threads m new = None" "th_type th \<noteq> THREAD_UNUSED"
    and "distinct xs" "set xs = insert (slot new m) (set (m_list m (th_type th)))" "tasks (th_type th) (placed new th xs m) = ys"
  shows "queues (placed new th xs m) = (queues m)(th_type th := ys)"
  using placed_parts(7) [OF assms(1-5)] assms(3,6) by (auto simp: queues_def fun_eq_iff)

lemma placed_end:
  assumes i: "sched_inv m" and new: "m_threads m new = None" and ty: "th_type th \<noteq> THREAD_UNUSED"
  defines "m' \<equiv> placed new th (m_list m (th_type th) @ [slot new m]) m"
  shows "queues m' = (queues m)(th_type th := queues m (th_type th) @ [task_of th])"
    and "th_type th = THREAD_READ \<Longrightarrow> th_u th = U_fd fd \<Longrightarrow> fd \<notin> m_readfd m \<Longrightarrow> sched_inv (m'\<lparr>m_readfd := insert fd (m_readfd m)\<rparr>)"
    and "th_type th = THREAD_WRITE \<Longrightarrow> th_u th = U_fd fd \<Longrightarrow> fd \<notin> m_writefd m \<Longrightarrow> sched_inv (m'\<lparr>m_writefd := insert fd (m_writefd m)\<rparr>)"
    and "th_type th = THREAD_EVENT \<Longrightarrow> sched_inv m'"
    and "m_readfd m' = m_readfd m" "m_writefd m' = m_writefd m"
proof -
  have ok: "lists_ok m" "fds_ok THREAD_READ (m_readfd m) m" "fds_ok THREAD_WRITE (m_writefd m) m" using i by (simp_all add: sched_inv_def)
  have xs: "distinct (m_list m (th_type th) @ [slot new m])" "set (m_list m (th_type th) @ [slot new m]) = insert (slot new m) (set (m_list m (th_type th)))"
    using ok(1) slot_free(2) [OF ok(1) new ty] by (auto simp: lists_ok_def)
  note parts = placed_parts [OF i new ty xs, folded m'_def]
  show rw: "m_readfd m' = m_readfd m" "m_writefd m' = m_writefd m" by (simp_all add: m'_def placed_def moved_def)
  show "queues m' = (queues m)(th_type th := queues m (th_type th) @ [task_of th])"
    using placed_queues [OF i new ty xs placed_end_tasks [OF ok(1) new ty], folded m'_def] ty by (simp add: queues_def)
  show "sched_inv (m'\<lparr>m_readfd := insert fd (m_readfd m)\<rparr>)" if t: "th_type th = THREAD_READ" "th_u th = U_fd fd" "fd \<notin> m_readfd m"
    using placed_fds [OF ok(1) new ty _ t(2,3)] ok(2) t(1) parts rw by (subst sched_inv_parts [of _ m']) (simp_all add: m'_def)
  show "sched_inv (m'\<lparr>m_writefd := insert fd (m_writefd m)\<rparr>)" if t: "th_type th = THREAD_WRITE" "th_u th = U_fd fd" "fd \<notin> m_writefd m"
    using placed_fds [OF ok(1) new ty _ t(2,3)] ok(3) t(1) parts rw by (subst sched_inv_parts [of _ m']) (simp_all add: m'_def)
  show "sched_inv m'" if "th_type th = THREAD_EVENT" using that parts rw by (simp add: sched_inv_def)
qed

lemma add_timer_ok:
  assumes i: "sched_inv m" and new: "m_threads m new = None" and t: "t = now\<lparr>ts_sec := ts_sec now + timer\<rparr>" "time_ok t"
  shows "\<exists>p m'. thread_add_timer f a timer now new m = Some (p, m') \<and> sched_inv m' \<and>
     queues m' = (queues m)(THREAD_TIMER := takeWhile (\<lambda>x. task_time x < ts_micros t) (queues m THREAD_TIMER) @ (f, a, U_sands t) # dropWhile (\<lambda>x. task_time x < ts_micros t) (queues m THREAD_TIMER))"
proof -
  have ok: "lists_ok m" "timers_ok m" using i by (simp_all add: sched_inv_def)
  let ?th = "\<lparr>th_type = THREAD_TIMER, th_func = f, th_arg = a, th_u = U_sands t\<rparr>"
  let ?xs = "timer_place m (slot new m) t"
  let ?m = "placed new ?th ?xs m"
  have xs: "distinct ?xs" "set ?xs = insert (slot new m) (set (m_list m (th_type ?th)))"
    using ok(1) slot_free(2) [OF ok(1) new, of THREAD_TIMER] place_set(1) place_set(2) [of "m_list m THREAD_TIMER" "slot new m"] by (simp_all add: lists_ok_def)
  have rw: "m_readfd ?m = m_readfd m" "m_writefd ?m = m_writefd m" by (simp_all add: placed_def moved_def)
  note parts = placed_parts [OF i new _ xs, simplified] and tm = placed_timer [OF ok new, of ?th t, simplified, OF t(2)]
  have "sched_inv ?m" using parts tm(1) rw by (simp add: sched_inv_def)
  moreover have "queues ?m = (queues m)(THREAD_TIMER := takeWhile (\<lambda>x. task_time x < ts_micros t) (queues m THREAD_TIMER) @ (f, a, U_sands t) # dropWhile (\<lambda>x. task_time x < ts_micros t) (queues m THREAD_TIMER))"
    using placed_queues [OF i new _ xs, of "tasks THREAD_TIMER ?m"] tm(2) by (simp add: queues_def task_of_def)
  ultimately show ?thesis using thread_add_timer_eq [OF ok new t] by blast
qed

section \<open>Running and cancelling\<close>

text \<open>A thread that waits becomes unused.\<close>

definition released :: "nat \<Rightarrow> ('f, 'a) thread \<Rightarrow> ('f, 'a) thread_master \<Rightarrow> ('f, 'a) thread_master" where
  "released p th m = cleared th (moved p (th\<lparr>th_type := THREAD_UNUSED\<rparr>) (m_list m THREAD_UNUSED @ [p]) m)"

lemma lists_okD:
  assumes "lists_ok m" "m_threads m p = Some th"
  shows "p \<in> set (m_list m t) \<longleftrightarrow> t = th_type th" "t \<noteq> th_type th \<Longrightarrow> remove1 p (m_list m t) = m_list m t"
  using assms by (auto simp: lists_ok_def remove1_idem)

lemma thread_run_eq:
  assumes "lists_ok m" "m_threads m p = Some th" "th_type th \<noteq> THREAD_UNUSED"
  shows "thread_list_delete (th_type th) p m \<noteq> None"
    and "Option.bind (thread_list_delete (th_type th) p m) (thread_run p) = Some (th, moved p (th\<lparr>th_type := THREAD_UNUSED\<rparr>) (m_list m THREAD_UNUSED @ [p]) m)"
proof -
  note mem = lists_okD [OF assms(1,2)]
  show "thread_list_delete (th_type th) p m \<noteq> None" using mem(1) by (simp add: thread_list_delete_def)
  have d: "distinct (m_list m (th_type th))" using assms(1) by (simp add: lists_ok_def)
  let ?l = "(m_list m)(th_type th := remove1 p (m_list m (th_type th)))"
  have l: "?l(THREAD_UNUSED := m_list m THREAD_UNUSED @ [p]) = (\<lambda>ty. if ty = THREAD_UNUSED then m_list m THREAD_UNUSED @ [p] else remove1 p (m_list m ty))"
    using mem(2) by (auto simp: fun_eq_iff)
  have n: "p \<notin> set (?l ty)" for ty using mem(1) d by auto
  have u: "?l THREAD_UNUSED = m_list m THREAD_UNUSED" using assms(3) by simp
  define m2 where "m2 = m\<lparr>m_list := ?l, m_threads := (m_threads m)(p \<mapsto> th\<lparr>th_type := THREAD_UNUSED\<rparr>)\<rparr>"
  have m2: "m_list m2 = ?l" "m_threads m2 p = Some (th\<lparr>th_type := THREAD_UNUSED\<rparr>)" by (simp_all add: m2_def)
  have "Option.bind (thread_list_delete (th_type th) p m) (thread_run p) = map_option (Pair th) (thread_add_unuse p m2)"
    using assms(2) mem(1) by (simp add: thread_list_delete_def thread_run_def th_update_def m2_def map_option_case split: bind_split option.split)
  also have "thread_add_unuse p m2 = Some (thread_list_add THREAD_UNUSED p m2)" unfolding thread_add_unuse_def m2 using n by (simp del: fun_upd_apply)
  also have "thread_list_add THREAD_UNUSED p m2 = moved p (th\<lparr>th_type := THREAD_UNUSED\<rparr>) (m_list m THREAD_UNUSED @ [p]) m"
    unfolding thread_list_add_def m2(1) u l by (simp add: m2_def moved_def)
  finally show "Option.bind (thread_list_delete (th_type th) p m) (thread_run p) = Some (th, moved p (th\<lparr>th_type := THREAD_UNUSED\<rparr>) (m_list m THREAD_UNUSED @ [p]) m)" by simp
qed

lemma released_inv:
  assumes "sched_inv m" "m_threads m p = Some th" "th_type th \<noteq> THREAD_UNUSED"
  shows "sched_inv (released p th m)" "pending m = add_mset (task_of th) (pending (released p th m))"
    and "m_list (released p th m) t = (if t = THREAD_UNUSED then m_list m THREAD_UNUSED @ [p] else remove1 p (m_list m t))"
    and "m_threads (released p th m) = (m_threads m)(p \<mapsto> th\<lparr>th_type := THREAD_UNUSED\<rparr>)"
    and "m_readfd (released p th m) \<subseteq> m_readfd m" "m_writefd (released p th m) \<subseteq> m_writefd m"
proof -
  show "sched_inv (released p th m)" unfolding released_def by (rule leave_inv(1)) (use assms in auto)
  note fin = sched_active_finite [OF assms(1)]
  show "pending m = add_mset (task_of th) (pending (released p th m))"
    unfolding pending_remove [OF fin assms(2,3)] released_def inv_parts_cleared pending_moved [OF fin] by simp
  show "m_list (released p th m) t = (if t = THREAD_UNUSED then m_list m THREAD_UNUSED @ [p] else remove1 p (m_list m t))"
    "m_threads (released p th m) = (m_threads m)(p \<mapsto> th\<lparr>th_type := THREAD_UNUSED\<rparr>)"
    by (simp_all add: released_def moved_def)
  show "m_readfd (released p th m) \<subseteq> m_readfd m" "m_writefd (released p th m) \<subseteq> m_writefd m"
    by (auto simp: released_def moved_def cleared_def split: thread_u.splits if_splits)
qed

lemma remove1_nth_distinct:
  assumes "distinct xs" "n < length xs"
  shows "remove1 (xs ! n) xs = take n xs @ drop (Suc n) xs"
proof -
  have e: "xs = take n xs @ xs ! n # drop (Suc n) xs" by (rule id_take_nth_drop [OF assms(2)])
  then have "xs ! n \<notin> set (take n xs)" using assms(1) by (metis distinct_append disjoint_iff list.set_intros(1))
  then show ?thesis using e by (metis remove1.simps(2) remove1_append)
qed

text \<open>The order of the tasks that stay does not change.\<close>

lemma released_queues:
  assumes i: "sched_inv m" and th: "m_threads m p = Some th" "th_type th \<noteq> THREAD_UNUSED"
    and n: "n < length (m_list m (th_type th))" "m_list m (th_type th) ! n = p"
  shows "queues (released p th m) = (queues m)(th_type th := take n (queues m (th_type th)) @ drop (Suc n) (queues m (th_type th)))"
proof
  fix t
  let ?m = "released p th m"
  have ok: "lists_ok m" using i by (simp add: sched_inv_def)
  then have d: "distinct (m_list m t)" for t by (simp add: lists_ok_def)
  note r = released_inv(3,4) [OF i th] and mem = lists_okD [OF ok th(1)]
  have f: "task_of (the (m_threads ?m q)) = task_of (the (m_threads m q))" if "q \<in> set (remove1 p (m_list m t))" for q t
    using that d r(2) by simp
  then have q: "queues ?m t = map (\<lambda>q. task_of (the (m_threads m q))) (remove1 p (m_list m t))" if "t \<noteq> THREAD_UNUSED"
    using that r(1) by (simp add: queues_def tasks_def)
  show "queues ?m t = ((queues m)(th_type th := take n (queues m (th_type th)) @ drop (Suc n) (queues m (th_type th)))) t"
  proof (cases "t = th_type th")
    case True
    then show ?thesis using q th(2) remove1_nth_distinct [OF d n(1)] n(2) by (simp add: queues_def tasks_def take_map drop_map)
  next
    case False
    then show ?thesis using q mem(2) by (cases "t = THREAD_UNUSED") (simp_all add: queues_def tasks_def)
  qed
qed

lemma thread_cancel_eq:
  assumes i: "sched_inv m" and th: "m_threads m p = Some th" "th_type th \<noteq> THREAD_UNUSED"
  shows "thread_cancel p m = Some (released p th m)"
proof -
  have ok: "lists_ok m" using i by (simp add: sched_inv_def)
  have run: "Option.bind (thread_list_delete (th_type th) p m') (\<lambda>m. Option.bind (th_update p (\<lambda>th. th\<lparr>th_type := THREAD_UNUSED\<rparr>) m) (thread_add_unuse p)) =
      Some (moved p (th\<lparr>th_type := THREAD_UNUSED\<rparr>) (m_list m' THREAD_UNUSED @ [p]) m')"
    if "lists_ok m'" "m_threads m' p = Some th" for m'
    using thread_run_eq(2) [OF that th(2)] that(2) by (auto simp: thread_run_def thread_list_delete_def th_update_def split: bind_splits if_splits)
  note leave = leave_inv [OF i th(1) th(2) disjI1 [OF refl]]
  have r: "lists_ok (m\<lparr>m_readfd := fds\<rparr>) = lists_ok m" "lists_ok (m\<lparr>m_writefd := fds\<rparr>) = lists_ok m" for fds by (simp_all add: lists_ok_def)
  have cl: "fd_clear p fds m = Some (fds - {fd})" if "th_u th = U_fd fd" "fd \<in> fds" for fd fds using that th(1) by (simp add: fd_clear_def th_fd_def)
  show ?thesis
  proof (cases "th_type th")
    case THREAD_READ
    then obtain fd where fd: "th_u th = U_fd fd" "fd \<in> m_readfd m" using leave(2) by blast
    show ?thesis using run [of "m\<lparr>m_readfd := m_readfd m - {fd}\<rparr>"] cl [OF fd] fd r ok th THREAD_READ
      by (simp add: thread_cancel_def released_def cleared_def moved_def cong: if_cong)
  next
    case THREAD_WRITE
    then obtain fd where fd: "th_u th = U_fd fd" "fd \<in> m_writefd m" using leave(3) by blast
    show ?thesis using run [of "m\<lparr>m_writefd := m_writefd m - {fd}\<rparr>"] cl [OF fd] fd r ok th THREAD_WRITE
      by (simp add: thread_cancel_def released_def cleared_def moved_def cong: if_cong)
  qed (use run [OF ok th(1)] th in \<open>auto simp: thread_cancel_def released_def cleared_def split: thread_u.splits\<close>)
qed

text \<open>\<open>thread_cancel\<close> on a thread that is not in use does not end well.\<close>

lemma thread_cancel_unused:
  "lists_ok m \<Longrightarrow> m_threads m p = Some th \<Longrightarrow> th_type th = THREAD_UNUSED \<Longrightarrow> thread_cancel p m = None"
  using lists_okD(1) [of m p th] by (cases th) (auto simp: thread_cancel_def th_update_def thread_add_unuse_def)

text \<open>Only the types of threads change.\<close>

definition same_tasks :: "('f, 'a) thread_master \<Rightarrow> ('f, 'a) thread_master \<Rightarrow> bool" where
  "same_tasks m m' \<longleftrightarrow> (\<forall>q. map_option task_of (m_threads m' q) = map_option task_of (m_threads m q))"

lemma same_tasks_refl [simp]: "same_tasks m m"
  by (simp add: same_tasks_def)

lemma same_tasks_trans: "same_tasks m m' \<Longrightarrow> same_tasks m' m'' \<Longrightarrow> same_tasks m m''"
  by (simp add: same_tasks_def)

lemma same_tasksD:
  assumes "same_tasks m m'"
  shows "task_of (the (m_threads m' q)) = task_of (the (m_threads m q))" "th_fd m' q = th_fd m q" "th_sands m' q = th_sands m q"
    and "m_threads m' q = None \<longleftrightarrow> m_threads m q = None"
proof -
  have "map_option task_of (m_threads m' q) = map_option task_of (m_threads m q)" using assms by (simp add: same_tasks_def)
  then show "task_of (the (m_threads m' q)) = task_of (the (m_threads m q))" "th_fd m' q = th_fd m q" "th_sands m' q = th_sands m q"
    "m_threads m' q = None \<longleftrightarrow> m_threads m q = None"
    by (cases "m_threads m' q"; cases "m_threads m q"; auto simp: task_of_def th_fd_def th_sands_def)+
qed

lemma released_same: "m_threads m p = Some th \<Longrightarrow> same_tasks m (released p th m)"
  by (simp add: same_tasks_def released_def moved_def task_of_def)

text \<open>The loop of \<open>thread_cancel_event\<close>.\<close>

lemma cancel_loop_ok:
  assumes "sched_inv m" "distinct ps" "set ps \<subseteq> set (m_list m THREAD_EVENT)"
  shows "\<exists>m'. cancel_loop a ps m = Some m' \<and> sched_inv m' \<and> same_tasks m m' \<and>
     m_list m' THREAD_EVENT = filter (\<lambda>q. q \<notin> set ps \<or> fst (snd (task_of (the (m_threads m q)))) \<noteq> a) (m_list m THREAD_EVENT) \<and>
     (\<forall>t. t \<noteq> THREAD_EVENT \<longrightarrow> t \<noteq> THREAD_UNUSED \<longrightarrow> m_list m' t = m_list m t) \<and> m_readfd m' = m_readfd m \<and> m_writefd m' = m_writefd m"
  using assms
proof (induction ps arbitrary: m)
  case (Cons p ps)
  let ?arg = "\<lambda>q. fst (snd (task_of (the (m_threads m q))))"
  have ok: "lists_ok m" using Cons.prems(1) by (simp add: sched_inv_def)
  then obtain th where th: "m_threads m p = Some th" "th_type th = THREAD_EVENT" using Cons.prems(3) by (auto simp: lists_ok_def)
  show ?case
  proof (cases "th_arg th = a")
    case True
    let ?m = "released p th m"
    have step: "cancel_loop a (p # ps) m = cancel_loop a ps ?m"
      using thread_cancel_eq [OF Cons.prems(1) th(1)] th True by (auto simp: thread_cancel_def split: bind_splits)
    note r = released_inv [OF Cons.prems(1) th(1), unfolded th(2), simplified]
    have l: "m_list ?m THREAD_EVENT = filter (\<lambda>q. q \<noteq> p) (m_list m THREAD_EVENT)"
      using r(3) ok by (simp add: distinct_remove1_removeAll removeAll_filter_not_eq lists_ok_def eq_commute)
    have other: "t \<noteq> THREAD_EVENT \<Longrightarrow> t \<noteq> THREAD_UNUSED \<Longrightarrow> m_list ?m t = m_list m t" for t using r(3) lists_okD(2) [OF ok th(1)] th(2) by simp
    have fds: "m_readfd ?m = m_readfd m" "m_writefd ?m = m_writefd m" using th(2) by (simp_all add: released_def moved_def cleared_def split: thread_u.split)
    have "set ps \<subseteq> set (m_list ?m THREAD_EVENT)" using Cons.prems(2,3) l by auto
    then obtain m' where m': "cancel_loop a ps ?m = Some m'" "sched_inv m'" "same_tasks ?m m'"
        "m_list m' THREAD_EVENT = filter (\<lambda>q. q \<notin> set ps \<or> fst (snd (task_of (the (m_threads ?m q)))) \<noteq> a) (m_list ?m THREAD_EVENT)"
        "\<And>t. t \<noteq> THREAD_EVENT \<Longrightarrow> t \<noteq> THREAD_UNUSED \<Longrightarrow> m_list m' t = m_list ?m t" "m_readfd m' = m_readfd ?m" "m_writefd m' = m_writefd ?m"
      using Cons.IH [OF r(1)] Cons.prems(2) by auto
    have "?arg p = a" using th(1) True by (simp add: task_of_def)
    then have "m_list m' THREAD_EVENT = filter (\<lambda>q. q \<notin> set (p # ps) \<or> ?arg q \<noteq> a) (m_list m THREAD_EVENT)"
      using Cons.prems(2) unfolding m'(4) l same_tasksD(1) [OF released_same [of m p th, OF th(1)]] by (auto intro!: filter_cong)
    then show ?thesis using step m'(1,2,6,7) m'(5) other fds same_tasks_trans [OF released_same [of m p th, OF th(1)] m'(3)] by auto
  next
    case False
    obtain m' where m': "cancel_loop a ps m = Some m'" "sched_inv m'" "same_tasks m m'"
        "m_list m' THREAD_EVENT = filter (\<lambda>q. q \<notin> set ps \<or> ?arg q \<noteq> a) (m_list m THREAD_EVENT)"
        "\<And>t. t \<noteq> THREAD_EVENT \<Longrightarrow> t \<noteq> THREAD_UNUSED \<Longrightarrow> m_list m' t = m_list m t" "m_readfd m' = m_readfd m" "m_writefd m' = m_writefd m"
      using Cons.IH [OF Cons.prems(1)] Cons.prems(2,3) by auto
    have "?arg p \<noteq> a" using th(1) False by (simp add: task_of_def)
    then have "m_list m' THREAD_EVENT = filter (\<lambda>q. q \<notin> set (p # ps) \<or> ?arg q \<noteq> a) (m_list m THREAD_EVENT)"
      unfolding m'(4) by (auto intro!: filter_cong)
    then show ?thesis using th False m' by auto
  qed
qed auto

section \<open>Threads that are ready\<close>

definition readied :: "nat \<Rightarrow> ('f, 'a) thread \<Rightarrow> ('f, 'a) thread_master \<Rightarrow> ('f, 'a) thread_master" where
  "readied p th m = cleared th (moved p (th\<lparr>th_type := THREAD_READY\<rparr>) (m_list m THREAD_READY @ [p]) m)"

lemma readied_inv:
  assumes i: "sched_inv m" and th: "m_threads m p = Some th" "th_type th = ty" "ty = THREAD_READ \<or> ty = THREAD_WRITE"
  shows "sched_inv (readied p th m)" "same_tasks m (readied p th m)" "pending (readied p th m) = pending m"
    and "m_list (readied p th m) = (m_list m)(ty := remove1 p (m_list m ty), THREAD_READY := m_list m THREAD_READY @ [p])"
    and "\<exists>fd. th_fd m p = Some fd \<and> fd_clear p (mfdset ty m) m = Some (mfdset ty m - {fd}) \<and>
       Option.bind (thread_list_delete ty p (mfdset_put ty (mfdset ty m - {fd}) m)) (\<lambda>m. th_update p (\<lambda>th. th\<lparr>th_type := THREAD_READY\<rparr>) (thread_list_add THREAD_READY p m)) = Some (readied p th m)"
proof -
  have ok: "lists_ok m" using i by (simp add: sched_inv_def)
  note leave = leave_inv [OF i th(1), of THREAD_READY] and mem = lists_okD [OF ok th(1)]
  have nr: "th_type th \<noteq> THREAD_READY" "th_type th \<noteq> THREAD_UNUSED" using th(2,3) by auto
  show "sched_inv (readied p th m)" unfolding readied_def by (rule leave(1)) (use nr in auto)
  show "same_tasks m (readied p th m)" using th(1) by (simp add: same_tasks_def readied_def moved_def task_of_def)
  note fin = sched_active_finite [OF i]
  show "pending (readied p th m) = pending m"
    unfolding pending_remove [OF fin th(1) nr(2)] readied_def inv_parts_cleared pending_moved [OF fin] by (simp add: task_of_def)
  have l: "(\<lambda>t. if t = THREAD_READY then m_list m THREAD_READY @ [p] else remove1 p (m_list m t)) = (m_list m)(ty := remove1 p (m_list m ty), THREAD_READY := m_list m THREAD_READY @ [p])"
    using mem(2) th(2,3) by (auto simp: fun_eq_iff)
  then show "m_list (readied p th m) = (m_list m)(ty := remove1 p (m_list m ty), THREAD_READY := m_list m THREAD_READY @ [p])"
    by (simp add: readied_def moved_def)
  obtain fd where fd: "th_u th = U_fd fd" "fd \<in> mfdset ty m" using leave(2,3) nr(1) th(2,3) by (auto simp: mfdset_def)
  have "th_fd m p = Some fd" using fd(1) th(1) by (simp add: th_fd_def)
  moreover have "Option.bind (thread_list_delete ty p (mfdset_put ty (mfdset ty m - {fd}) m)) (\<lambda>m. th_update p (\<lambda>th. th\<lparr>th_type := THREAD_READY\<rparr>) (thread_list_add THREAD_READY p m)) = Some (readied p th m)"
    using th fd(1) mem(1) [of ty]
    by (auto simp: thread_list_delete_def mfdset_put_def mfdset_def th_update_def thread_list_add_def readied_def moved_def cleared_def l cong: if_cong)
  ultimately show "\<exists>fd. th_fd m p = Some fd \<and> fd_clear p (mfdset ty m) m = Some (mfdset ty m - {fd}) \<and>
       Option.bind (thread_list_delete ty p (mfdset_put ty (mfdset ty m - {fd}) m)) (\<lambda>m. th_update p (\<lambda>th. th\<lparr>th_type := THREAD_READY\<rparr>) (thread_list_add THREAD_READY p m)) = Some (readied p th m)"
    using fd(2) by (auto simp: fd_clear_def)
qed

lemma process_fd_loop_ok:
  assumes ty: "ty = THREAD_READ \<or> ty = THREAD_WRITE" and "sched_inv m" "distinct ps" "set ps \<subseteq> set (m_list m ty)"
  shows "\<exists>m'. process_fd_loop ty fdset ps m = Some m' \<and> sched_inv m' \<and> same_tasks m m' \<and> pending m' = pending m \<and>
     m_list m' = (m_list m)(ty := filter (\<lambda>q. q \<notin> set ps \<or> the (th_fd m q) \<notin> fdset) (m_list m ty),
       THREAD_READY := m_list m THREAD_READY @ filter (\<lambda>q. the (th_fd m q) \<in> fdset) ps)"
  using assms(2-)
proof (induction ps arbitrary: m)
  case Nil
  then show ?case by auto
next
  case (Cons p ps)
  have ok: "lists_ok m" using Cons.prems(1) by (simp add: sched_inv_def)
  then obtain th where th: "m_threads m p = Some th" "th_type th = ty" using Cons.prems(3) by (auto simp: lists_ok_def)
  note r = readied_inv [OF Cons.prems(1) th ty]
  have dps: "distinct ps" and sps: "set ps \<subseteq> set (m_list m ty)" using Cons.prems(2,3) by auto
  obtain fd where fd: "th_fd m p = Some fd" "fd_clear p (mfdset ty m) m = Some (mfdset ty m - {fd})"
    "Option.bind (thread_list_delete ty p (mfdset_put ty (mfdset ty m - {fd}) m)) (\<lambda>m. th_update p (\<lambda>th. th\<lparr>th_type := THREAD_READY\<rparr>) (thread_list_add THREAD_READY p m)) = Some (readied p th m)"
    using r(5) by blast
  show ?case
  proof (cases "fd \<in> fdset")
    case True
    let ?m = "readied p th m"
    have step: "process_fd_loop ty fdset (p # ps) m = process_fd_loop ty fdset ps ?m" using fd True by simp
    have l: "m_list ?m ty = filter (\<lambda>q. q \<noteq> p) (m_list m ty)" "m_list ?m THREAD_READY = m_list m THREAD_READY @ [p]"
      using r(4) ok ty by (auto simp: distinct_remove1_removeAll removeAll_filter_not_eq lists_ok_def eq_commute)
    have "set ps \<subseteq> set (m_list ?m ty)" using Cons.prems(2,3) l by auto
    then obtain m' where m': "process_fd_loop ty fdset ps ?m = Some m'" "sched_inv m'" "same_tasks ?m m'" "pending m' = pending ?m"
        "m_list m' = (m_list ?m)(ty := filter (\<lambda>q. q \<notin> set ps \<or> the (th_fd ?m q) \<notin> fdset) (m_list ?m ty),
          THREAD_READY := m_list ?m THREAD_READY @ filter (\<lambda>q. the (th_fd ?m q) \<in> fdset) ps)"
      using Cons.IH [OF r(1) dps] by blast
    have "filter (\<lambda>q. q \<notin> set ps \<or> the (th_fd m q) \<notin> fdset) (filter (\<lambda>q. q \<noteq> p) (m_list m ty)) = filter (\<lambda>q. q \<notin> set (p # ps) \<or> the (th_fd m q) \<notin> fdset) (m_list m ty)"
      using fd(1) True by (auto intro!: filter_cong)
    then have "m_list m' = (m_list m)(ty := filter (\<lambda>q. q \<notin> set (p # ps) \<or> the (th_fd m q) \<notin> fdset) (m_list m ty),
       THREAD_READY := m_list m THREAD_READY @ filter (\<lambda>q. the (th_fd m q) \<in> fdset) (p # ps))"
      unfolding m'(5) same_tasksD(2) [OF r(2)] l unfolding r(4) using fd(1) True ty by (auto simp only: fun_eq_iff fun_upd_apply filter.simps if_False thread_type.distinct option.sel append_assoc append_Cons append_Nil if_True split: if_split)
    then show ?thesis using step m'(1,2,4) same_tasks_trans [OF r(2) m'(3)] r(3) by auto
  next
    case False
    obtain m' where m': "process_fd_loop ty fdset ps m = Some m'" "sched_inv m'" "same_tasks m m'" "pending m' = pending m"
        "m_list m' = (m_list m)(ty := filter (\<lambda>q. q \<notin> set ps \<or> the (th_fd m q) \<notin> fdset) (m_list m ty),
          THREAD_READY := m_list m THREAD_READY @ filter (\<lambda>q. the (th_fd m q) \<in> fdset) ps)"
      using Cons.IH [OF Cons.prems(1) dps] sps by blast
    have "filter (\<lambda>q. q \<notin> set ps \<or> the (th_fd m q) \<notin> fdset) (m_list m ty) = filter (\<lambda>q. q \<notin> set (p # ps) \<or> the (th_fd m q) \<notin> fdset) (m_list m ty)"
      using fd(1) False by (auto intro!: filter_cong)
    then show ?thesis using m' fd(1) False by auto
  qed
qed

definition task_fd :: "'f \<times> 'a \<times> thread_u \<Rightarrow> int" where
  "task_fd x = (case snd (snd x) of U_fd fd \<Rightarrow> fd | _ \<Rightarrow> -1)"

lemma fd_task_fd:
  assumes "fds_ok ty fds m" "q \<in> set (m_list m ty)"
  shows "the (th_fd m q) = task_fd (task_of (the (m_threads m q)))"
proof -
  have "th_fd m q \<in> Some ` fds" using assms by (simp add: fds_ok_def)
  then show ?thesis by (auto simp: th_fd_def task_fd_def task_of_def split: option.splits thread_u.splits)
qed

lemma process_fd_ok:
  assumes ty: "ty = THREAD_READ \<or> ty = THREAD_WRITE" and i: "sched_inv m"
  obtains m' where "thread_process_fd ty fdset m = Some m'" "sched_inv m'" "pending m' = pending m"
    "queues m' = (queues m)(ty := filter (\<lambda>x. task_fd x \<notin> fdset) (queues m ty), THREAD_READY := queues m THREAD_READY @ filter (\<lambda>x. task_fd x \<in> fdset) (queues m ty))"
proof -
  let ?l = "m_list m ty" and ?f = "\<lambda>q. task_of (the (m_threads m q))"
  have ok: "lists_ok m" "fds_ok ty (mfdset ty m) m" using i ty by (auto simp: sched_inv_def mfdset_def)
  then have d: "distinct ?l" by (simp add: lists_ok_def)
  obtain m' where m': "thread_process_fd ty fdset m = Some m'" "sched_inv m'" "same_tasks m m'" "pending m' = pending m"
        "m_list m' = (m_list m)(ty := filter (\<lambda>q. q \<notin> set ?l \<or> the (th_fd m q) \<notin> fdset) ?l,
          THREAD_READY := m_list m THREAD_READY @ filter (\<lambda>q. the (th_fd m q) \<in> fdset) ?l)"
    using process_fd_loop_ok [OF ty i _ subset_refl, of fdset] d unfolding thread_process_fd_def by blast
  have t: "tasks t m' = map ?f (m_list m' t)" for t using same_tasksD(1) [OF m'(3)] by (simp add: tasks_def)
  have f1: "filter (\<lambda>q. q \<notin> set ?l \<or> the (th_fd m q) \<notin> fdset) ?l = filter (\<lambda>q. task_fd (?f q) \<notin> fdset) ?l"
    and f2: "filter (\<lambda>q. the (th_fd m q) \<in> fdset) ?l = filter (\<lambda>q. task_fd (?f q) \<in> fdset) ?l"
    using fd_task_fd [OF ok(2)] by (auto intro!: filter_cong)
  have "queues m' = (queues m)(ty := filter (\<lambda>x. task_fd x \<notin> fdset) (queues m ty), THREAD_READY := queues m THREAD_READY @ filter (\<lambda>x. task_fd x \<in> fdset) (queues m ty))"
    using ty unfolding fun_eq_iff queues_def t m'(5) f1 f2 by (auto simp: tasks_def filter_map comp_def)
  then show ?thesis using that m'(1,2,4) by blast
qed

section \<open>Fetching\<close>

text \<open>What a fetch means for the queues: the first event; else the timer that is due first; else the first task that is ready; else the tasks whose
  descriptors \<open>select\<close> reports become ready, readers before writers, and the first of them runs.\<close>

datatype ('f, 'a) next_task = Run "'f \<times> 'a \<times> thread_u" | Failed | Waiting

definition select_queues :: "int set \<Rightarrow> int set \<Rightarrow> (thread_type \<Rightarrow> ('f \<times> 'a \<times> thread_u) list) \<Rightarrow> thread_type \<Rightarrow> ('f \<times> 'a \<times> thread_u) list" where
  "select_queues r w q = q(THREAD_READ := filter (\<lambda>x. task_fd x \<notin> r) (q THREAD_READ), THREAD_WRITE := filter (\<lambda>x. task_fd x \<notin> w) (q THREAD_WRITE),
     THREAD_READY := q THREAD_READY @ filter (\<lambda>x. task_fd x \<in> r) (q THREAD_READ) @ filter (\<lambda>x. task_fd x \<in> w) (q THREAD_WRITE))"

fun fetch_spec :: "(tstamp \<times> select_result) list \<Rightarrow> (thread_type \<Rightarrow> ('f \<times> 'a \<times> thread_u) list) \<Rightarrow> ('f, 'a) next_task \<times> (thread_type \<Rightarrow> ('f \<times> 'a \<times> thread_u) list)" where
  "fetch_spec [] q = (if q THREAD_EVENT \<noteq> [] then (Run (hd (q THREAD_EVENT)), q(THREAD_EVENT := tl (q THREAD_EVENT))) else (Waiting, q))"
| "fetch_spec ((now, sel) # env) q =
     (if q THREAD_EVENT \<noteq> [] then (Run (hd (q THREAD_EVENT)), q(THREAD_EVENT := tl (q THREAD_EVENT)))
      else if q THREAD_TIMER \<noteq> [] \<and> task_time (hd (q THREAD_TIMER)) \<le> ts_micros now then (Run (hd (q THREAD_TIMER)), q(THREAD_TIMER := tl (q THREAD_TIMER)))
      else if q THREAD_READY \<noteq> [] then (Run (hd (q THREAD_READY)), q(THREAD_READY := tl (q THREAD_READY)))
      else (case sel of
          Sel_timeout \<Rightarrow> fetch_spec env q
        | Sel_intr \<Rightarrow> fetch_spec env q
        | Sel_error \<Rightarrow> (Failed, q)
        | Sel_ready r w \<Rightarrow>
            (let q = select_queues r w q
             in if q THREAD_READY \<noteq> [] then (Run (hd (q THREAD_READY)), q(THREAD_READY := tl (q THREAD_READY))) else fetch_spec env q)))"

fun next_of :: "('f, 'a) fetch_result \<Rightarrow> ('f, 'a) next_task" where
  "next_of (Fetch_run th) = Run (task_of th)"
| "next_of Fetch_null = Failed"
| "next_of Fetch_waiting = Waiting"

text \<open>The task a result takes from those that wait.\<close>

fun taken :: "('f, 'a) fetch_result \<Rightarrow> ('f \<times> 'a \<times> thread_u) multiset" where
  "taken (Fetch_run th) = {#task_of th#}"
| "taken Fetch_null = {#}"
| "taken Fetch_waiting = {#}"

definition fetched :: "('f, 'a) thread_master \<Rightarrow> (('f, 'a) fetch_result \<times> ('f, 'a) thread_master) option \<Rightarrow> ('f, 'a) next_task \<times> (thread_type \<Rightarrow> ('f \<times> 'a \<times> thread_u) list) \<Rightarrow> bool" where
  "fetched m r s \<longleftrightarrow> (\<exists>res m'. r = Some (res, m') \<and> sched_inv m' \<and> pending m = taken res + pending m' \<and> s = (next_of res, queues m'))"

lemma fetched_pending: "pending m = pending m' \<Longrightarrow> fetched m r s \<longleftrightarrow> fetched m' r s"
  by (simp add: fetched_def)

lemma fetched_same: "sched_inv m \<Longrightarrow> fetched m (Some (Fetch_null, m)) (Failed, queues m)" "sched_inv m \<Longrightarrow> fetched m (Some (Fetch_waiting, m)) (Waiting, queues m)"
  by (simp_all add: fetched_def)

lemma run_head:
  assumes i: "sched_inv m" and ty: "ty \<in> {THREAD_EVENT, THREAD_TIMER, THREAD_READY}" and l: "m_list m ty = p # ps"
  shows "fetched m (Option.bind (thread_list_delete ty p m) (fetch_run p)) (Run (hd (queues m ty)), (queues m)(ty := tl (queues m ty)))"
    and "thread_trim_head ty m = map_option (Pair p) (thread_list_delete ty p m)"
proof -
  have ok: "lists_ok m" using i by (simp add: sched_inv_def)
  then obtain th where th: "m_threads m p = Some th" "th_type th = ty" using l by (metis list.set_intros(1) lists_ok_def)
  have nu: "th_type th \<noteq> THREAD_UNUSED" using ty th(2) by auto
  let ?m = "released p th m"
  have "cleared th m' = m'" for m' using th(2) ty by (auto simp: cleared_def split: thread_u.split)
  then have run: "Option.bind (thread_list_delete ty p m) (thread_run p) = Some (th, ?m)"
    using thread_run_eq(2) [OF ok th(1) nu] th(2) by (simp add: released_def)
  have "Option.bind (thread_list_delete ty p m) (fetch_run p) = map_option (\<lambda>(th, m). (Fetch_run th, m)) (Option.bind (thread_list_delete ty p m) (thread_run p))"
    by (cases "thread_list_delete ty p m") (simp_all add: fetch_run_def)
  then have r: "Option.bind (thread_list_delete ty p m) (fetch_run p) = Some (Fetch_run th, ?m)" using run by simp
  have "queues ?m = (queues m)(ty := tl (queues m ty))" using released_queues [OF i th(1) nu, of 0] l th(2) by (simp add: drop_Suc)
  moreover have "hd (queues m ty) = task_of th" using l th nu by (simp add: queues_def tasks_def)
  ultimately show "fetched m (Option.bind (thread_list_delete ty p m) (fetch_run p)) (Run (hd (queues m ty)), (queues m)(ty := tl (queues m ty)))"
    using r released_inv(1,2) [OF i th(1) nu] by (simp add: fetched_def)
  show "thread_trim_head ty m = map_option (Pair p) (thread_list_delete ty p m)" using l by (simp add: thread_trim_head_def thread_list_delete_def)
qed

lemma queues_Nil: "ty \<noteq> THREAD_UNUSED \<Longrightarrow> queues m ty = [] \<longleftrightarrow> m_list m ty = []"
  by (simp add: queues_def tasks_def)

text \<open>A list that is served from the head: it is empty, or its first task runs.\<close>

lemma trim_cases:
  assumes i: "sched_inv m" and ty: "ty \<in> {THREAD_EVENT, THREAD_READY}"
  shows "queues m ty = [] \<and> thread_trim_head ty m = None \<or>
    queues m ty \<noteq> [] \<and> (\<exists>p m'. thread_trim_head ty m = Some (p, m') \<and> fetched m (fetch_run p m') (Run (hd (queues m ty)), (queues m)(ty := tl (queues m ty))))"
proof (cases "m_list m ty")
  case Nil
  then show ?thesis using ty by (auto simp: queues_Nil thread_trim_head_def)
next
  case (Cons p ps)
  note r = run_head [OF i _ Cons]
  have "queues m ty \<noteq> []" using Cons ty by (auto simp: queues_Nil)
  moreover have "thread_list_delete ty p m = Some (m\<lparr>m_list := (m_list m)(ty := ps)\<rparr>)" using Cons by (simp add: thread_list_delete_def)
  ultimately show ?thesis using r ty by auto
qed

text \<open>The loop over the timers looks at the first one only, as they are sorted.\<close>

lemma timer_due_sorted:
  assumes "\<forall>q\<in>set qs. \<exists>u. th_sands m q = Some u \<and> time_ok u" "sorted (map (due_at m) qs)" "time_ok now"
  shows "timer_due m now qs = Some (if qs \<noteq> [] \<and> due_at m (hd qs) \<le> ts_micros now then Some (hd qs) else None)"
  using assms
proof (induction qs)
  case (Cons q qs)
  then obtain u where u: "th_sands m q = Some u" "time_ok u" by auto
  have c: "timeval_cmp now u \<ge> 0 \<longleftrightarrow> due_at m q \<le> ts_micros now" using timeval_cmp_sign(2) [OF Cons.prems(3) u(2)] u(1) by simp
  have "due_at m q \<le> ts_micros now" if "qs \<noteq> []" "due_at m (hd qs) \<le> ts_micros now" using that Cons.prems(2) by (cases qs) auto
  then show ?case using Cons u(1) c by auto
qed simp

lemma timer_cases:
  assumes i: "sched_inv m" and now: "time_ok now"
  shows "timer_due m now (m_list m THREAD_TIMER) = Some None \<and> \<not> (queues m THREAD_TIMER \<noteq> [] \<and> task_time (hd (queues m THREAD_TIMER)) \<le> ts_micros now) \<or>
    (\<exists>p. timer_due m now (m_list m THREAD_TIMER) = Some (Some p) \<and> queues m THREAD_TIMER \<noteq> [] \<and> task_time (hd (queues m THREAD_TIMER)) \<le> ts_micros now \<and>
      fetched m (Option.bind (thread_list_delete THREAD_TIMER p m) (fetch_run p)) (Run (hd (queues m THREAD_TIMER)), (queues m)(THREAD_TIMER := tl (queues m THREAD_TIMER))))"
proof (cases "m_list m THREAD_TIMER")
  case Nil
  then show ?thesis by (simp add: queues_Nil)
next
  case (Cons p ps)
  have t: "timers_ok m" using i by (simp add: sched_inv_def)
  have "timer_due m now (m_list m THREAD_TIMER) = Some (if due_at m p \<le> ts_micros now then Some p else None)"
    using timer_due_sorted [of "m_list m THREAD_TIMER" m now] t now Cons by (simp add: timers_ok_def)
  moreover have "task_time (hd (queues m THREAD_TIMER)) = due_at m p" using timer_task_time [OF t, of p] Cons by (simp add: queues_def tasks_def)
  ultimately show ?thesis using run_head(1) [OF i _ Cons] Cons by (simp add: queues_Nil)
qed

lemma select_step:
  assumes "sched_inv m"
  obtains m' where "Option.bind (thread_process_fd THREAD_READ r m) (thread_process_fd THREAD_WRITE w) = Some m'" "sched_inv m'" "pending m' = pending m" "queues m' = select_queues r w (queues m)"
proof -
  obtain m1 where m1: "thread_process_fd THREAD_READ r m = Some m1" "sched_inv m1" "pending m1 = pending m"
    "queues m1 = (queues m)(THREAD_READ := filter (\<lambda>x. task_fd x \<notin> r) (queues m THREAD_READ), THREAD_READY := queues m THREAD_READY @ filter (\<lambda>x. task_fd x \<in> r) (queues m THREAD_READ))"
    by (rule process_fd_ok [OF disjI1 [OF refl] assms])
  obtain m2 where m2: "thread_process_fd THREAD_WRITE w m1 = Some m2" "sched_inv m2" "pending m2 = pending m1"
    "queues m2 = (queues m1)(THREAD_WRITE := filter (\<lambda>x. task_fd x \<notin> w) (queues m1 THREAD_WRITE), THREAD_READY := queues m1 THREAD_READY @ filter (\<lambda>x. task_fd x \<in> w) (queues m1 THREAD_WRITE))"
    by (rule process_fd_ok [OF disjI2 [OF refl] m1(2)])
  have "queues m2 = select_queues r w (queues m)" unfolding m2(4) m1(4) by (auto simp: select_queues_def fun_eq_iff)
  then show ?thesis using that m1 m2 by simp
qed

lemma thread_fetch_refines:
  fixes m :: "('f, 'a) thread_master"
  assumes "sched_inv m" "\<forall>(now, sel)\<in>set env. time_ok now"
  shows "fetched m (thread_fetch env m) (fetch_spec env (queues m))"
  using assms
proof (induction env arbitrary: m)
  case Nil
  then show ?case using trim_cases [OF Nil.prems(1), of THREAD_EVENT] by (subst thread_fetch.simps) (auto simp: fetched_same)
next
  case (Cons e env)
  obtain now sel where e: "e = (now, sel)" by (cases e)
  note i = Cons.prems(1)
  have now: "time_ok now" and IH: "\<And>m :: ('f, 'a) thread_master. sched_inv m \<Longrightarrow> fetched m (thread_fetch env m) (fetch_spec env (queues m))"
    using Cons e by auto
  note ev = trim_cases [OF i, of THREAD_EVENT] and rd = trim_cases [OF i, of THREAD_READY] and tm = timer_cases [OF i now]
  show ?case
  proof (cases "queues m THREAD_EVENT = [] \<and> \<not> (queues m THREAD_TIMER \<noteq> [] \<and> task_time (hd (queues m THREAD_TIMER)) \<le> ts_micros now) \<and> queues m THREAD_READY = []")
    case False
    then show ?thesis using ev rd tm by (subst thread_fetch.simps) (auto simp: e)
  next
    case True
    then have idle: "thread_trim_head THREAD_EVENT m = None" "timer_due m now (m_list m THREAD_TIMER) = Some None" "thread_trim_head THREAD_READY m = None"
      using ev rd tm by auto
    show ?thesis
    proof (cases sel)
      case (Sel_ready r w)
      obtain m' where m': "Option.bind (thread_process_fd THREAD_READ r m) (thread_process_fd THREAD_WRITE w) = Some m'" "sched_inv m'" "pending m' = pending m" "queues m' = select_queues r w (queues m)"
        by (rule select_step [OF i])
      show ?thesis using trim_cases [OF m'(2), of THREAD_READY] IH [OF m'(2)] True fetched_pending [OF m'(3)]
        by (subst thread_fetch.simps) (auto simp: e idle Sel_ready m'(1) m'(4) [symmetric] Let_def)
    next
      case Sel_timeout
      have "thread_fetch (e # env) m = thread_fetch env m" by (subst thread_fetch.simps) (simp add: e idle Sel_timeout)
      then show ?thesis using True IH [OF i] by (auto simp: e Sel_timeout)
    next
      case Sel_intr
      have "thread_fetch (e # env) m = thread_fetch env m" by (subst thread_fetch.simps) (simp add: e idle Sel_intr)
      then show ?thesis using True IH [OF i] by (auto simp: e Sel_intr)
    next
      case Sel_error
      have "thread_fetch (e # env) m = Some (Fetch_null, m)" by (subst thread_fetch.simps) (simp add: e idle Sel_error)
      then show ?thesis using True fetched_same(1) [OF i] by (auto simp: e Sel_error)
    qed
  qed
qed

section \<open>Properties\<close>

lemma thread_add_ok:
  assumes "sched_inv m" "m_threads m new = None"
  shows "fd_ok fd \<Longrightarrow> fd \<notin> m_readfd m \<Longrightarrow> \<exists>p m'. thread_add_read f a fd new m = Some (Some p, m') \<and> sched_inv m' \<and> m_readfd m' = insert fd (m_readfd m) \<and>
      queues m' = (queues m)(THREAD_READ := queues m THREAD_READ @ [(f, a, U_fd fd)])"
    and "fd_ok fd \<Longrightarrow> fd \<notin> m_writefd m \<Longrightarrow> \<exists>p m'. thread_add_write f a fd new m = Some (Some p, m') \<and> sched_inv m' \<and> m_writefd m' = insert fd (m_writefd m) \<and>
      queues m' = (queues m)(THREAD_WRITE := queues m THREAD_WRITE @ [(f, a, U_fd fd)])"
    and "\<exists>p m'. thread_add_event f a v new m = Some (p, m') \<and> sched_inv m' \<and> queues m' = (queues m)(THREAD_EVENT := queues m THREAD_EVENT @ [(f, a, U_val v)])"
proof -
  have ok: "lists_ok m" using assms(1) by (simp add: sched_inv_def)
  note pe = placed_end [OF assms] and q = queues_parts [of "placed new th xs m\<lparr>m_readfd := fds\<rparr>" "placed new th xs m" for th xs fds]
    queues_parts [of "placed new th xs m\<lparr>m_writefd := fds\<rparr>" "placed new th xs m" for th xs fds]
  let ?r = "\<lparr>th_type = THREAD_READ, th_func = f, th_arg = a, th_u = U_fd fd\<rparr>"
  let ?w = "\<lparr>th_type = THREAD_WRITE, th_func = f, th_arg = a, th_u = U_fd fd\<rparr>"
  let ?e = "\<lparr>th_type = THREAD_EVENT, th_func = f, th_arg = a, th_u = U_val v\<rparr>"
  show "\<exists>p m'. thread_add_read f a fd new m = Some (Some p, m') \<and> sched_inv m' \<and> m_readfd m' = insert fd (m_readfd m) \<and>
      queues m' = (queues m)(THREAD_READ := queues m THREAD_READ @ [(f, a, U_fd fd)])" if h: "fd_ok fd" "fd \<notin> m_readfd m"
    unfolding thread_add_read_eq [OF ok assms(2) h] using pe(1,2) [of ?r] h(2) q by (simp add: task_of_def)
  show "\<exists>p m'. thread_add_write f a fd new m = Some (Some p, m') \<and> sched_inv m' \<and> m_writefd m' = insert fd (m_writefd m) \<and>
      queues m' = (queues m)(THREAD_WRITE := queues m THREAD_WRITE @ [(f, a, U_fd fd)])" if h: "fd_ok fd" "fd \<notin> m_writefd m"
    unfolding thread_add_write_eq [OF ok assms(2) h] using pe(1,3) [of ?w] h(2) q by (simp add: task_of_def)
  show "\<exists>p m'. thread_add_event f a v new m = Some (p, m') \<and> sched_inv m' \<and> queues m' = (queues m)(THREAD_EVENT := queues m THREAD_EVENT @ [(f, a, U_val v)])"
    unfolding thread_add_event_eq [OF ok assms(2)] using pe(1,4) [of ?e] by (simp add: task_of_def)
qed

subsection \<open>Clients\<close>

text \<open>A client of the scheduler; the address of a new thread comes with the call.\<close>

datatype ('f, 'a) sched_op =
    Op_read 'f 'a int nat
  | Op_write 'f 'a int nat
  | Op_timer 'f 'a int tstamp nat
  | Op_event 'f 'a int nat
  | Op_cancel nat
  | Op_cancel_event 'a
  | Op_fetch "(tstamp \<times> select_result) list"

fun op_run :: "('f, 'a) sched_op \<Rightarrow> ('f, 'a) thread_master \<Rightarrow> ('f, 'a) thread_master option" where
  "op_run (Op_read f a fd new) m = map_option snd (thread_add_read f a fd new m)"
| "op_run (Op_write f a fd new) m = map_option snd (thread_add_write f a fd new m)"
| "op_run (Op_timer f a secs now new) m = map_option snd (thread_add_timer f a secs now new m)"
| "op_run (Op_event f a v new) m = map_option snd (thread_add_event f a v new m)"
| "op_run (Op_cancel p) m = thread_cancel p m"
| "op_run (Op_cancel_event a) m = thread_cancel_event a m"
| "op_run (Op_fetch env) m = map_option snd (thread_fetch env m)"

text \<open>What a client has to respect: new threads are at free addresses, descriptors fit the sets of \<open>select\<close>, times fit their type, and only
  a thread that waits is cancelled.\<close>

fun op_ok :: "('f, 'a) sched_op \<Rightarrow> ('f, 'a) thread_master \<Rightarrow> bool" where
  "op_ok (Op_read f a fd new) m \<longleftrightarrow> m_threads m new = None \<and> fd_ok fd"
| "op_ok (Op_write f a fd new) m \<longleftrightarrow> m_threads m new = None \<and> fd_ok fd"
| "op_ok (Op_timer f a secs now new) m \<longleftrightarrow> m_threads m new = None \<and> time_ok (now\<lparr>ts_sec := ts_sec now + secs\<rparr>)"
| "op_ok (Op_event f a v new) m \<longleftrightarrow> m_threads m new = None"
| "op_ok (Op_cancel p) m \<longleftrightarrow> (\<exists>th. m_threads m p = Some th \<and> th_type th \<noteq> THREAD_UNUSED)"
| "op_ok (Op_cancel_event a) m \<longleftrightarrow> True"
| "op_ok (Op_fetch env) m \<longleftrightarrow> (\<forall>(now, sel)\<in>set env. time_ok now)"

text \<open>The queues with the thread that holds each task: a task is known to its client by its thread.\<close>

definition handles :: "('f, 'a) thread_master \<Rightarrow> thread_type \<Rightarrow> (nat \<times> 'f \<times> 'a \<times> thread_u) list" where
  "handles m ty = (if ty = THREAD_UNUSED then [] else map (\<lambda>p. (p, task_of (the (m_threads m p)))) (m_list m ty))"

definition untagged :: "(thread_type \<Rightarrow> (nat \<times> 'f \<times> 'a \<times> thread_u) list) \<Rightarrow> thread_type \<Rightarrow> ('f \<times> 'a \<times> thread_u) list" where
  "untagged h ty = map snd (h ty)"

definition fresh :: "nat \<Rightarrow> (thread_type \<Rightarrow> (nat \<times> 'f \<times> 'a \<times> thread_u) list) \<Rightarrow> bool" where
  "fresh p h \<longleftrightarrow> (\<forall>ty. p \<notin> fst ` set (h ty))"

text \<open>The queues that a task may come from: a reader or a writer becomes ready.\<close>

definition sources :: "thread_type \<Rightarrow> thread_type set" where
  "sources ty = (if ty = THREAD_READY then {THREAD_READY, THREAD_READ, THREAD_WRITE} else {ty})"

text \<open>The same calls on these queues, without lists of unused threads and descriptor sets.  A fetch makes readers and writers ready and takes one
  task, as \<open>fetch_spec\<close> says; the tasks that stay keep their threads.\<close>

fun op_queues :: "('f, 'a) sched_op \<Rightarrow> (thread_type \<Rightarrow> (nat \<times> 'f \<times> 'a \<times> thread_u) list) \<Rightarrow> (thread_type \<Rightarrow> (nat \<times> 'f \<times> 'a \<times> thread_u) list) \<Rightarrow> bool" where
  "op_queues (Op_read f a fd new) h h' \<longleftrightarrow>
     (if fd \<in> (task_fd \<circ> snd) ` set (h THREAD_READ) then h' = h
      else \<exists>p. fresh p h \<and> h' = h(THREAD_READ := h THREAD_READ @ [(p, f, a, U_fd fd)]))"
| "op_queues (Op_write f a fd new) h h' \<longleftrightarrow>
     (if fd \<in> (task_fd \<circ> snd) ` set (h THREAD_WRITE) then h' = h
      else \<exists>p. fresh p h \<and> h' = h(THREAD_WRITE := h THREAD_WRITE @ [(p, f, a, U_fd fd)]))"
| "op_queues (Op_timer f a secs now new) h h' \<longleftrightarrow>
     (\<exists>p. fresh p h \<and> (let t = now\<lparr>ts_sec := ts_sec now + secs\<rparr>; earlier = (\<lambda>x. task_time (snd x) < ts_micros t)
        in h' = h(THREAD_TIMER := takeWhile earlier (h THREAD_TIMER) @ (p, f, a, U_sands t) # dropWhile earlier (h THREAD_TIMER))))"
| "op_queues (Op_event f a v new) h h' \<longleftrightarrow> (\<exists>p. fresh p h \<and> h' = h(THREAD_EVENT := h THREAD_EVENT @ [(p, f, a, U_val v)]))"
| "op_queues (Op_cancel p) h h' \<longleftrightarrow> h' = (\<lambda>ty. filter (\<lambda>x. fst x \<noteq> p) (h ty))"
| "op_queues (Op_cancel_event a) h h' \<longleftrightarrow> h' = h(THREAD_EVENT := filter (\<lambda>(p, f, b, u). b \<noteq> a) (h THREAD_EVENT))"
| "op_queues (Op_fetch env) h h' \<longleftrightarrow> untagged h' = snd (fetch_spec env (untagged h)) \<and>
     (\<forall>ty. set (h' ty) \<subseteq> (\<Union>s\<in>sources ty. set (h s)))"

inductive sched_reach :: "('f, 'a) thread_master \<Rightarrow> bool" where
  reach_create: "sched_reach thread_master_create"
| reach_op: "sched_reach m \<Longrightarrow> op_ok op m \<Longrightarrow> op_run op m = Some m' \<Longrightarrow> sched_reach m'"

lemma fds_task_fd:
  assumes "fds_ok ty fds m" "ty \<noteq> THREAD_UNUSED"
  shows "fd \<in> task_fd ` set (queues m ty) \<longleftrightarrow> fd \<in> fds"
proof -
  have all: "Some ` fds = th_fd m ` set (m_list m ty)" using assms(1) by (simp add: fds_ok_def)
  have "task_fd ` set (queues m ty) = (\<lambda>q. the (th_fd m q)) ` set (m_list m ty)"
    using fd_task_fd [OF assms(1)] assms(2) by (auto simp: queues_def tasks_def image_iff)
  also have "\<dots> = the ` Some ` fds" unfolding all by (simp add: image_image)
  finally show ?thesis by (simp add: image_image)
qed

lemma untagged_handles [simp]: "untagged (handles m) = queues m"
  by (simp add: fun_eq_iff untagged_def handles_def queues_def tasks_def)

lemma handles_same:
  assumes "same_tasks m m'" "ty \<noteq> THREAD_UNUSED"
  shows "handles m' ty = map (\<lambda>p. (p, task_of (the (m_threads m p)))) (m_list m' ty)"
  using same_tasksD(1) [OF assms(1)] assms(2) by (simp add: handles_def)

text \<open>A thread that is added is new to the queues, and only its own list grows.\<close>

lemma placed_handles:
  assumes ok: "lists_ok m" and new: "m_threads m new = None" and th: "th_type th \<noteq> THREAD_UNUSED"
    and xs: "set xs \<subseteq> insert (slot new m) (set (m_list m (th_type th)))"
    and m': "m_list m' = m_list (placed new th xs m)" "m_threads m' = m_threads (placed new th xs m)"
  shows "fresh (slot new m) (handles m)"
    and "handles m' = (handles m)(th_type th := map (\<lambda>q. (q, if q = slot new m then task_of th else task_of (the (m_threads m q)))) xs)"
proof -
  have free: "slot new m \<notin> set (m_list m ty)" if "ty \<noteq> THREAD_UNUSED" for ty using slot_free(2) [OF ok new that] .
  then show "fresh (slot new m) (handles m)" by (auto simp: fresh_def handles_def)
  show "handles m' = (handles m)(th_type th := map (\<lambda>q. (q, if q = slot new m then task_of th else task_of (the (m_threads m q)))) xs)"
  proof
    fix ty
    show "handles m' ty = ((handles m)(th_type th := map (\<lambda>q. (q, if q = slot new m then task_of th else task_of (the (m_threads m q)))) xs)) ty"
      using free [of ty] th by (auto simp: handles_def m' placed_def moved_def remove1_idem)
  qed
qed

lemma placed_end_handles:
  assumes ok: "lists_ok m" and new: "m_threads m new = None" and th: "th_type th \<noteq> THREAD_UNUSED"
    and m': "m_list m' = m_list (placed new th (m_list m (th_type th) @ [slot new m]) m)" "m_threads m' = m_threads (placed new th (m_list m (th_type th) @ [slot new m]) m)"
  shows "fresh (slot new m) (handles m) \<and> handles m' = (handles m)(th_type th := handles m (th_type th) @ [(slot new m, task_of th)])"
proof -
  note p = placed_handles [OF ok new th _ m']
  have "map (\<lambda>q. (q, if q = slot new m then task_of th else task_of (the (m_threads m q)))) (m_list m (th_type th)) = handles m (th_type th)"
    using slot_free(2) [OF ok new th] th by (auto simp: handles_def)
  then show ?thesis using p by auto
qed

lemma placed_timer_handles:
  fixes t :: tstamp
  assumes i: "lists_ok m" "timers_ok m" "m_threads m new = None" and th: "th_type th = THREAD_TIMER"
  defines "earlier \<equiv> \<lambda>x. task_time (snd x) < ts_micros t"
  shows "fresh (slot new m) (handles m) \<and> handles (placed new th (timer_place m (slot new m) t) m) =
     (handles m)(THREAD_TIMER := takeWhile earlier (handles m THREAD_TIMER) @ (slot new m, task_of th) # dropWhile earlier (handles m THREAD_TIMER))"
proof -
  let ?l = "m_list m THREAD_TIMER" and ?f = "\<lambda>q. (q, task_of (the (m_threads m q)))" and ?p = "slot new m"
  let ?g = "\<lambda>q. (q, if q = ?p then task_of th else task_of (the (m_threads m q)))" and ?e = "\<lambda>q. due_at m q < ts_micros t"
  have nu: "th_type th \<noteq> THREAD_UNUSED" using th by simp
  have free: "?p \<notin> set ?l" by (rule slot_free(2) [OF i(1,3)]) simp
  have e: "(earlier \<circ> ?f) q = ?e q" if "q \<in> set ?l" for q using timer_task_time [OF i(2) that] by (simp add: earlier_def)
  have "map ?g (takeWhile ?e ?l) = map ?f (takeWhile ?e ?l)" "map ?g (dropWhile ?e ?l) = map ?f (dropWhile ?e ?l)"
    using free by (auto dest: set_takeWhileD set_dropWhileD)
  moreover have "takeWhile earlier (handles m THREAD_TIMER) = map ?f (takeWhile ?e ?l)" "dropWhile earlier (handles m THREAD_TIMER) = map ?f (dropWhile ?e ?l)"
    unfolding handles_def using e by (auto simp: takeWhile_map dropWhile_map intro!: arg_cong [where f = "map _"] takeWhile_cong dropWhile_cong)
  ultimately have g: "map ?g (timer_place m ?p t) = takeWhile earlier (handles m THREAD_TIMER) @ (?p, task_of th) # dropWhile earlier (handles m THREAD_TIMER)" by simp
  have "set (timer_place m ?p t) \<subseteq> insert ?p (set (m_list m (th_type th)))" using th by (auto dest: set_takeWhileD set_dropWhileD)
  note s = this
  show ?thesis using placed_handles [OF i(1,3) nu s refl refl] th g by simp
qed

text \<open>A thread that is cancelled leaves the queues, and no other.\<close>

lemma cancel_handles:
  assumes i: "sched_inv m" and th: "m_threads m p = Some th" "th_type th \<noteq> THREAD_UNUSED"
  shows "handles (released p th m) = (\<lambda>ty. filter (\<lambda>x. fst x \<noteq> p) (handles m ty))"
proof
  fix ty
  have d: "distinct (m_list m ty)" using i by (simp add: sched_inv_def lists_ok_def)
  have l: "m_list (released p th m) ty = filter (\<lambda>q. q \<noteq> p) (m_list m ty)" if "ty \<noteq> THREAD_UNUSED"
    using released_inv(3) [OF i th] that d by (simp add: distinct_remove1_removeAll removeAll_filter_not_eq eq_commute)
  show "handles (released p th m) ty = filter (\<lambda>x. fst x \<noteq> p) (handles m ty)"
    by (cases "ty = THREAD_UNUSED") (simp_all add: handles_same [OF released_same [OF th(1)]] l filter_map comp_def, simp_all add: handles_def filter_map comp_def)
qed

lemma cancel_event_handles:
  assumes i: "sched_inv m"
  shows "\<exists>m'. thread_cancel_event a m = Some m' \<and> sched_inv m' \<and> handles m' = (handles m)(THREAD_EVENT := filter (\<lambda>(p, f, b, u). b \<noteq> a) (handles m THREAD_EVENT))"
proof -
  let ?l = "m_list m THREAD_EVENT" and ?f = "\<lambda>q. task_of (the (m_threads m q))"
  have d: "distinct ?l" using i by (simp add: sched_inv_def lists_ok_def)
  obtain m' where m': "cancel_loop a ?l m = Some m'" "sched_inv m'" "same_tasks m m'"
     "m_list m' THREAD_EVENT = filter (\<lambda>q. q \<notin> set ?l \<or> fst (snd (?f q)) \<noteq> a) ?l"
     "\<forall>t. t \<noteq> THREAD_EVENT \<longrightarrow> t \<noteq> THREAD_UNUSED \<longrightarrow> m_list m' t = m_list m t"
    using cancel_loop_ok [OF i d subset_refl, of a] by blast
  have "filter (\<lambda>q. q \<notin> set ?l \<or> fst (snd (?f q)) \<noteq> a) ?l = filter (\<lambda>q. fst (snd (?f q)) \<noteq> a) ?l" by (auto intro!: filter_cong)
  then have ev: "handles m' THREAD_EVENT = filter (\<lambda>(p, f, b, u). b \<noteq> a) (handles m THREAD_EVENT)"
    unfolding handles_same [OF m'(3) thread_type.distinct(27)] m'(4) by (simp add: handles_def filter_map comp_def case_prod_unfold)
  have "handles m' = (handles m)(THREAD_EVENT := filter (\<lambda>(p, f, b, u). b \<noteq> a) (handles m THREAD_EVENT))"
  proof
    fix ty
    show "handles m' ty = ((handles m)(THREAD_EVENT := filter (\<lambda>(p, f, b, u). b \<noteq> a) (handles m THREAD_EVENT))) ty"
      using ev m'(5) handles_same [OF m'(3), of ty] by (cases "ty = THREAD_UNUSED") (auto simp: handles_def)
  qed
  then show ?thesis using m'(1,2) by (auto simp: thread_cancel_event_def)
qed

text \<open>A fetch does not exchange the tasks of threads, and threads only move from readers and writers to those that are ready.\<close>

definition keeps :: "('f, 'a) thread_master \<Rightarrow> ('f, 'a) thread_master \<Rightarrow> bool" where
  "keeps m m' \<longleftrightarrow> same_tasks m m' \<and> (\<forall>ty. ty \<noteq> THREAD_UNUSED \<longrightarrow> set (m_list m' ty) \<subseteq> (\<Union>s\<in>sources ty. set (m_list m s)))"

lemma sources_self [simp, intro]: "ty \<in> sources ty"
  by (simp add: sources_def)

lemma sources_trans: "s \<in> sources ty \<Longrightarrow> r \<in> sources s \<Longrightarrow> r \<in> sources ty"
  by (auto simp: sources_def split: if_splits)

lemma sources_used: "ty \<noteq> THREAD_UNUSED \<Longrightarrow> s \<in> sources ty \<Longrightarrow> s \<noteq> THREAD_UNUSED"
  by (auto simp: sources_def split: if_splits)

lemma keeps_refl [simp]: "keeps m m"
  by (auto simp: keeps_def)

lemma keeps_trans:
  assumes "keeps m m'" "keeps m' m''"
  shows "keeps m m''"
proof -
  have "\<exists>r\<in>sources ty. p \<in> set (m_list m r)" if ty: "ty \<noteq> THREAD_UNUSED" and p: "p \<in> set (m_list m'' ty)" for ty p
  proof -
    obtain s where s: "s \<in> sources ty" "p \<in> set (m_list m' s)" using assms(2) ty p unfolding keeps_def by blast
    then obtain r where "r \<in> sources s" "p \<in> set (m_list m r)" using assms(1) sources_used [OF ty] unfolding keeps_def by blast
    then show ?thesis using sources_trans s(1) by blast
  qed
  then have "\<forall>ty. ty \<noteq> THREAD_UNUSED \<longrightarrow> set (m_list m'' ty) \<subseteq> (\<Union>s\<in>sources ty. set (m_list m s))" by blast
  moreover have "same_tasks m m''" using assms same_tasks_trans unfolding keeps_def by blast
  ultimately show ?thesis unfolding keeps_def by blast
qed

lemma keepsI:
  assumes "same_tasks m m'" "\<And>ty p. ty \<noteq> THREAD_UNUSED \<Longrightarrow> p \<in> set (m_list m' ty) \<Longrightarrow> p \<in> set (m_list m ty) \<or> ty = THREAD_READY \<and> (p \<in> set (m_list m THREAD_READ) \<or> p \<in> set (m_list m THREAD_WRITE))"
  shows "keeps m m'"
proof -
  have "\<exists>s\<in>sources ty. p \<in> set (m_list m s)" if "ty \<noteq> THREAD_UNUSED" "p \<in> set (m_list m' ty)" for ty p
    using assms(2) [OF that] by (auto simp: sources_def)
  then have "\<forall>ty. ty \<noteq> THREAD_UNUSED \<longrightarrow> set (m_list m' ty) \<subseteq> (\<Union>s\<in>sources ty. set (m_list m s))" by blast
  then show ?thesis using assms(1) unfolding keeps_def by (intro conjI)
qed

lemma delete_keeps: "thread_list_delete ty p m = Some m' \<Longrightarrow> keeps m m'"
  by (rule keepsI) (auto simp: thread_list_delete_def same_tasks_def split: if_splits dest: notin_set_remove1)

lemma trim_keeps: "thread_trim_head ty m = Some (p, m') \<Longrightarrow> keeps m m'"
  by (rule keepsI) (auto simp: thread_trim_head_def same_tasks_def split: list.splits if_splits)

lemma run_keeps: "fetch_run p m = Some (res, m') \<Longrightarrow> keeps m m'"
  by (rule keepsI) (auto simp: fetch_run_def thread_run_def th_update_def thread_add_unuse_def thread_list_add_def same_tasks_def task_of_def
      split: bind_splits if_splits)

lemma ready_keeps:
  assumes "ty = THREAD_READ \<or> ty = THREAD_WRITE"
    and "thread_list_delete ty p (mfdset_put ty fds m) = Some m1" "th_update p (\<lambda>th. th\<lparr>th_type := THREAD_READY\<rparr>) (thread_list_add THREAD_READY p m1) = Some m'"
  shows "keeps m m'"
proof (rule keepsI)
  show "same_tasks m m'" using assms(2,3)
    by (auto simp: thread_list_delete_def mfdset_put_def th_update_def thread_list_add_def same_tasks_def task_of_def split: bind_splits if_splits)
  show "q \<in> set (m_list m t) \<or> t = THREAD_READY \<and> (q \<in> set (m_list m THREAD_READ) \<or> q \<in> set (m_list m THREAD_WRITE))"
    if "t \<noteq> THREAD_UNUSED" "q \<in> set (m_list m' t)" for t q
    using that assms by (auto simp: thread_list_delete_def mfdset_put_def th_update_def thread_list_add_def split: bind_splits if_splits dest: notin_set_remove1)
qed

lemma process_fd_loop_keeps:
  "ty = THREAD_READ \<or> ty = THREAD_WRITE \<Longrightarrow> process_fd_loop ty fdset ps m = Some m' \<Longrightarrow> keeps m m'"
proof (induction ps arbitrary: m)
  case (Cons p ps)
  obtain fd where fd: "th_fd m p = Some fd" using Cons.prems(2) by (auto split: bind_splits)
  show ?case
  proof (cases "fd \<in> fdset")
    case True
    then obtain fds m1 m2 where "thread_list_delete ty p (mfdset_put ty fds m) = Some m1"
      "th_update p (\<lambda>th. th\<lparr>th_type := THREAD_READY\<rparr>) (thread_list_add THREAD_READY p m1) = Some m2" "process_fd_loop ty fdset ps m2 = Some m'"
      using Cons.prems(2) fd by (auto split: bind_splits)
    then show ?thesis using ready_keeps [OF Cons.prems(1)] Cons.IH [OF Cons.prems(1)] keeps_trans by blast
  next
    case False
    then show ?thesis using Cons.prems fd Cons.IH [OF Cons.prems(1)] by simp
  qed
qed simp

lemma fetch_keeps: "thread_fetch env m = Some (res, m') \<Longrightarrow> keeps m m'"
proof (induction env arbitrary: m)
  case Nil
  then show ?case by (subst (asm) thread_fetch.simps) (auto split: option.splits dest: run_keeps trim_keeps intro: keeps_trans)
next
  case (Cons e env)
  have ready: "keeps m m1" if h: "thread_process_fd THREAD_READ r m = Some m2" "thread_process_fd THREAD_WRITE w m2 = Some m1" for r w m1 m2
  proof -
    have "keeps m m2" by (rule process_fd_loop_keeps [OF _ h(1) [unfolded thread_process_fd_def]]) simp
    moreover have "keeps m2 m1" by (rule process_fd_loop_keeps [OF _ h(2) [unfolded thread_process_fd_def]]) simp
    ultimately show ?thesis by (rule keeps_trans)
  qed
  have more: "keeps m m'" if "keeps m m2" "thread_fetch env m2 = Some (res, m')" for m2 using that Cons.IH keeps_trans by blast
  have run: "keeps m m'" if "keeps m m2" "fetch_run p m2 = Some (res, m')" for p m2 using that run_keeps keeps_trans by blast
  note now = Cons.prems [unfolded thread_fetch.simps [of "e # env"] list.case]
  show ?case using now
    by (auto split: option.splits prod.splits select_result.splits bind_splits
        intro: more [OF keeps_refl] more [OF ready] run [OF trim_keeps] run [OF delete_keeps] run [OF keeps_trans [OF ready trim_keeps]])
qed

lemma fetch_handles:
  assumes "thread_fetch env m = Some (res, m')"
  shows "set (handles m' ty) \<subseteq> (\<Union>s\<in>sources ty. set (handles m s))"
proof (cases "ty = THREAD_UNUSED")
  case False
  have k: "same_tasks m m'" "set (m_list m' ty) \<subseteq> (\<Union>s\<in>sources ty. set (m_list m s))"
    using fetch_keeps [OF assms] False by (auto simp: keeps_def)
  have "(p, task_of (the (m_threads m p))) \<in> (\<Union>s\<in>sources ty. set (handles m s))" if "p \<in> set (m_list m' ty)" for p
    using that k(2) sources_used [OF False] by (fastforce simp: handles_def)
  then show ?thesis unfolding handles_same [OF k(1) False] by auto
qed (simp add: handles_def)

lemma op_refines:
  assumes i: "sched_inv m" and ok: "op_ok op m"
  shows "\<exists>m'. op_run op m = Some m' \<and> sched_inv m' \<and> op_queues op (handles m) (handles m')"
proof -
  have l: "lists_ok m" "timers_ok m" using i by (simp_all add: sched_inv_def)
  have fds: "fd \<in> (task_fd \<circ> snd) ` set (handles m ty) \<longleftrightarrow> fd \<in> mfdset ty m" if "ty = THREAD_READ \<or> ty = THREAD_WRITE" for fd ty
  proof -
    have "(task_fd \<circ> snd) ` set (handles m ty) = task_fd ` set (queues m ty)" using that by (auto simp: handles_def queues_def tasks_def image_image)
    then show ?thesis using fds_task_fd [of ty "mfdset ty m" m fd] i that by (auto simp: sched_inv_def mfdset_def)
  qed
  show ?thesis
  proof (cases op)
    case (Op_read f a fd new)
    show ?thesis
    proof (cases "fd \<in> m_readfd m")
      case True
      then show ?thesis using i ok fds by (simp add: Op_read thread_add_read_def mfdset_def)
    next
      case False
      have new: "m_threads m new = None" "fd_ok fd" using ok Op_read by simp_all
      then show ?thesis using thread_add_ok(1) [OF i new(1,2) False, of f a] thread_add_read_eq [OF l(1) new False, of f a] False
          placed_end_handles [OF l(1) new(1), of "\<lparr>th_type = THREAD_READ, th_func = f, th_arg = a, th_u = U_fd fd\<rparr>"] fds [of THREAD_READ fd]
        by (auto simp: Op_read mfdset_def task_of_def)
    qed
  next
    case (Op_write f a fd new)
    show ?thesis
    proof (cases "fd \<in> m_writefd m")
      case True
      then show ?thesis using i ok fds by (simp add: Op_write thread_add_write_def mfdset_def)
    next
      case False
      have new: "m_threads m new = None" "fd_ok fd" using ok Op_write by simp_all
      then show ?thesis using thread_add_ok(2) [OF i new(1,2) False, of f a] thread_add_write_eq [OF l(1) new False, of f a] False
          placed_end_handles [OF l(1) new(1), of "\<lparr>th_type = THREAD_WRITE, th_func = f, th_arg = a, th_u = U_fd fd\<rparr>"] fds [of THREAD_WRITE fd]
        by (auto simp: Op_write mfdset_def task_of_def)
    qed
  next
    case (Op_timer f a secs now new)
    have new: "m_threads m new = None" using ok Op_timer by simp
    then show ?thesis using add_timer_ok [OF i new refl, of now secs f a] thread_add_timer_eq [OF l new refl, of now secs f a] ok
        placed_timer_handles [OF l new, of "\<lparr>th_type = THREAD_TIMER, th_func = f, th_arg = a, th_u = U_sands (now\<lparr>ts_sec := ts_sec now + secs\<rparr>)\<rparr>" "now\<lparr>ts_sec := ts_sec now + secs\<rparr>"]
      by (auto simp: Op_timer Let_def task_of_def)
  next
    case (Op_event f a v new)
    have new: "m_threads m new = None" using ok Op_event by simp
    then show ?thesis using thread_add_ok(3) [OF i new, of f a v] thread_add_event_eq [OF l(1) new, of f a v]
        placed_end_handles [OF l(1) new, of "\<lparr>th_type = THREAD_EVENT, th_func = f, th_arg = a, th_u = U_val v\<rparr>"]
      by (auto simp: Op_event task_of_def)
  next
    case (Op_cancel p)
    then obtain th where th: "m_threads m p = Some th" "th_type th \<noteq> THREAD_UNUSED" using ok by auto
    show ?thesis using thread_cancel_eq [OF i th] released_inv(1) [OF i th] cancel_handles [OF i th] by (simp add: Op_cancel)
  next
    case (Op_cancel_event a)
    then show ?thesis using cancel_event_handles [OF i, of a] by auto
  next
    case (Op_fetch env)
    obtain res m' where m': "thread_fetch env m = Some (res, m')" "sched_inv m'" "snd (fetch_spec env (queues m)) = queues m'"
      using thread_fetch_refines [OF i, of env] ok by (auto simp: Op_fetch fetched_def)
    then show ?thesis using fetch_handles [OF m'(1)] by (simp add: Op_fetch)
  qed
qed

lemma sched_reach_inv: "sched_reach m \<Longrightarrow> sched_inv m"
proof (induction rule: sched_reach.induct)
  case reach_create
  show ?case by (rule create_inv)
next
  case (reach_op m op m')
  then show ?case using op_refines by fastforce
qed

text \<open>C6: The scheduler implements queues of tasks.  In every state that calls of it reach, each further call that a client may make succeeds, without
  a failed assertion or a corrupted list, and changes the queues as it should: a reader or a writer of a descriptor that has none, and an event, are
  last in their queues, held by a thread that held no task; a timer comes after those that are due earlier and before the others; the thread that is
  cancelled, and the events of an argument, leave, no other task does, and the order of the rest stays; a fetch takes the task that the priorities
  give and makes readers and writers ready, and the tasks that stay keep their threads.  A client may only cancel a thread that waits, and its
  descriptors and times fit their types.\<close>

theorem scheduler_refines_queues:
  assumes "sched_reach m" "op_ok op m"
  shows "\<exists>m'. op_run op m = Some m' \<and> op_queues op (handles m) (handles m')"
  using op_refines [OF sched_reach_inv [OF assms(1)] assms(2)] by blast

text \<open>Two events; the first is cancelled and the second stays.\<close>

theorem scheduler_refines_queues_witness:
  "\<exists>m1 m2 m3. op_run (Op_event (1::nat) (2::nat) 30 7) thread_master_create = Some m1 \<and> op_run (Op_event 3 4 40 8) m1 = Some m2 \<and>
     handles m2 THREAD_EVENT = [(7, 1, 2, U_val 30), (8, 3, 4, U_val 40)] \<and> op_run (Op_cancel 7) m2 = Some m3 \<and> handles m3 THREAD_EVENT = [(8, 3, 4, U_val 40)]"
proof -
  let ?m0 = "thread_master_create :: (nat, nat) thread_master"
  obtain m1 where m1: "op_run (Op_event 1 2 30 7) ?m0 = Some m1" "m_threads m1 = [7 \<mapsto> \<lparr>th_type = THREAD_EVENT, th_func = 1, th_arg = 2, th_u = U_val 30\<rparr>]" "op_ok (Op_event 1 2 30 7) ?m0"
    by (simp add: thread_master_create_def thread_add_event_def thread_get_def th_update_def thread_list_add_def thread_trim_head_def)
  have r1: "sched_reach m1" by (rule reach_op [OF reach_create m1(3,1)])
  have o2: "op_ok (Op_event 3 4 40 8) m1" using m1(2) by simp
  obtain m2 where m2: "op_run (Op_event 3 4 40 8) m1 = Some m2" "handles m2 THREAD_EVENT = [(7, 1, 2, U_val 30), (8, 3, 4, U_val 40)]" "op_ok (Op_cancel 7) m2"
    using m1(1) by (auto simp: thread_master_create_def thread_add_event_def thread_get_def th_update_def thread_list_add_def thread_trim_head_def handles_def task_of_def)
  obtain m3 where "op_run (Op_cancel 7) m2 = Some m3" "handles m3 THREAD_EVENT = [(8, 3, 4, U_val 40)]"
    using scheduler_refines_queues [OF reach_op [OF r1 o2 m2(1)] m2(3)] m2(2) by auto
  then show ?thesis using m1(1) m2(1,2) by blast
qed

text \<open>C7: \<open>thread_fetch\<close> takes the task that the priorities give, for every behavior of the clock and of \<open>select\<close>: the first event, else
  the timer that is due first, else the first task that is ready, else what \<open>select\<close> makes ready, readers before writers.  No assertion fails, and
  no task is lost or comes twice: those that waited are the one that runs and those that wait still.\<close>

theorem thread_fetch_priorities:
  assumes "sched_inv m" "\<forall>(now, sel)\<in>set env. time_ok now"
  shows "\<exists>res m'. thread_fetch env m = Some (res, m') \<and> sched_inv m' \<and> pending m = taken res + pending m' \<and> fetch_spec env (queues m) = (next_of res, queues m')"
  using thread_fetch_refines [OF assms] by (auto simp: fetched_def)

definition demo_sched :: "(nat, nat) thread_master" where
  "demo_sched = \<lparr>m_list = (\<lambda>ty. []) (THREAD_READ := [0], THREAD_WRITE := [1]), m_readfd = {3}, m_writefd = {3}, m_alloc = 2,
     m_threads = [0 \<mapsto> \<lparr>th_type = THREAD_READ, th_func = 10, th_arg = 20, th_u = U_fd 3\<rparr>, 1 \<mapsto> \<lparr>th_type = THREAD_WRITE, th_func = 11, th_arg = 21, th_u = U_fd 3\<rparr>]\<rparr>"

theorem thread_fetch_priorities_witness:
  "\<exists>res m'. thread_fetch [(\<lparr>ts_sec = 5, ts_usec = 0\<rparr>, Sel_intr), (\<lparr>ts_sec = 6, ts_usec = 0\<rparr>, Sel_ready {3} {3})] demo_sched = Some (res, m') \<and> sched_inv m' \<and>
     next_of res = Run (10, 20, U_fd 3) \<and> queues m' THREAD_READY = [(11, 21, U_fd 3)] \<and> queues m' THREAD_READ = []"
proof -
  let ?env = "[(\<lparr>ts_sec = 5, ts_usec = 0\<rparr>, Sel_intr), (\<lparr>ts_sec = 6, ts_usec = 0\<rparr>, Sel_ready {3} {3})]"
  have i: "sched_inv demo_sched" by (auto simp: sched_inv_def demo_sched_def lists_ok_def fds_ok_def timers_ok_def th_fd_def)
  have q: "queues demo_sched THREAD_READ = [(10, 20, U_fd 3)]" "queues demo_sched THREAD_WRITE = [(11, 21, U_fd 3)]" "queues demo_sched THREAD_READY = []"
    "queues demo_sched THREAD_EVENT = []" "queues demo_sched THREAD_TIMER = []"
    by (simp_all add: demo_sched_def queues_def tasks_def task_of_def)
  have "\<forall>(now, sel)\<in>set ?env. time_ok now" by (simp add: time_ok_def)
  then obtain res m' where m': "thread_fetch ?env demo_sched = Some (res, m')" "sched_inv m'" "fetch_spec ?env (queues demo_sched) = (next_of res, queues m')"
    using thread_fetch_priorities [OF i] by blast
  have "fetch_spec ?env (queues demo_sched) = (Run (10, 20, U_fd 3), (select_queues {3} {3} (queues demo_sched)) (THREAD_READY := [(11, 21, U_fd 3)]))"
    using q by (simp add: select_queues_def task_fd_def Let_def)
  then have "next_of res = Run (10, 20, U_fd 3)" "queues m' = (select_queues {3} {3} (queues demo_sched)) (THREAD_READY := [(11, 21, U_fd 3)])"
    using m'(3) by simp_all
  moreover have "select_queues {3} {3} (queues demo_sched) THREAD_READ = []" using q by (simp add: select_queues_def task_fd_def)
  ultimately show ?thesis using m'(1,2) by simp
qed

lemma timer_queue_sorted:
  assumes "sched_inv m"
  shows "sorted (map task_time (queues m THREAD_TIMER))"
proof -
  have t: "timers_ok m" using assms by (simp add: sched_inv_def)
  have "map task_time (queues m THREAD_TIMER) = map (due_at m) (m_list m THREAD_TIMER)" using timer_task_time [OF t] by (simp add: queues_def tasks_def)
  then show ?thesis using t unfolding timers_ok_def by (simp only:)
qed

lemma fetch_spec_serves:
  assumes "sorted (map task_time (q THREAD_TIMER))" "x \<in> set (q THREAD_TIMER)"
    and "(now, sel) \<in> set env" "task_time x \<le> ts_micros now" "\<forall>(now, sel)\<in>set env. sel \<noteq> Sel_error"
  shows "\<exists>y. fst (fetch_spec env q) = Run y"
  using assms
proof (induction env arbitrary: q)
  case (Cons e env)
  obtain n s where e: "e = (n, s)" by (cases e)
  obtain h qs where h: "q THREAD_TIMER = h # qs" using Cons.prems(2) by (cases "q THREAD_TIMER") auto
  then have le: "task_time h \<le> task_time x" using Cons.prems(1,2) by auto
  have tm: "select_queues r w q THREAD_TIMER = q THREAD_TIMER" for r w by (simp add: select_queues_def)
  show ?case
  proof (cases "e = (now, sel)")
    case True
    then show ?thesis using h le Cons.prems(4) e by (simp del: split_paired_Ex)
  next
    case False
    then have mem: "(now, sel) \<in> set env" and ne: "\<forall>(now, sel)\<in>set env. sel \<noteq> Sel_error" "s \<noteq> Sel_error" using Cons.prems(3,5) e by auto
    note IH = Cons.IH [OF _ _ mem Cons.prems(4) ne(1)]
    show ?thesis using IH [of q] IH [of "select_queues r w q" for r w, unfolded tm] Cons.prems(1,2) ne(2) by (cases s) (simp_all add: e Let_def del: split_paired_Ex)
  qed
qed simp

text \<open>C40: A timer that is due is not missed: when the clock passes the time of a timer that waits, at any of the rounds of \<open>thread_fetch\<close>, and
  \<open>select\<close> does not fail, the call returns with a task to run, whatever else \<open>select\<close> reports in between.\<close>

theorem thread_fetch_serves_timers:
  assumes "sched_inv m" "\<forall>(now, sel)\<in>set env. time_ok now \<and> sel \<noteq> Sel_error"
    and "x \<in> set (queues m THREAD_TIMER)" "(now, sel) \<in> set env" "task_time x \<le> ts_micros now"
  shows "\<exists>th m'. thread_fetch env m = Some (Fetch_run th, m')"
proof -
  have env: "\<forall>(now, sel)\<in>set env. time_ok now" "\<forall>(now, sel)\<in>set env. sel \<noteq> Sel_error" using assms(2) by auto
  obtain res m' where r: "thread_fetch env m = Some (res, m')" "fetch_spec env (queues m) = (next_of res, queues m')"
    using thread_fetch_refines [OF assms(1) env(1)] by (auto simp: fetched_def)
  obtain y where "next_of res = Run y" using fetch_spec_serves [where q = "queues m", OF timer_queue_sorted [OF assms(1)] assms(3-5) env(2)] r(2) by auto
  then show ?thesis using r(1) by (cases res) auto
qed

definition demo_timers :: "(nat, nat) thread_master" where
  "demo_timers = \<lparr>m_list = (\<lambda>ty. []) (THREAD_TIMER := [0]), m_readfd = {}, m_writefd = {}, m_alloc = 1,
     m_threads = [0 \<mapsto> \<lparr>th_type = THREAD_TIMER, th_func = 10, th_arg = 20, th_u = U_sands \<lparr>ts_sec = 7, ts_usec = 500\<rparr>\<rparr>]\<rparr>"

theorem thread_fetch_serves_timers_witness:
  "\<exists>th m'. thread_fetch [(\<lparr>ts_sec = 5, ts_usec = 0\<rparr>, Sel_intr), (\<lparr>ts_sec = 7, ts_usec = 600\<rparr>, Sel_timeout)] demo_timers = Some (Fetch_run th, m')"
proof (rule thread_fetch_serves_timers [of _ _ "(10, 20, U_sands \<lparr>ts_sec = 7, ts_usec = 500\<rparr>)" "\<lparr>ts_sec = 7, ts_usec = 600\<rparr>" Sel_timeout])
  show "sched_inv demo_timers" by (auto simp: sched_inv_def demo_timers_def lists_ok_def fds_ok_def timers_ok_def th_sands_def time_ok_def)
  show "(10, 20, U_sands \<lparr>ts_sec = 7, ts_usec = 500\<rparr>) \<in> set (queues demo_timers THREAD_TIMER)" by (simp add: demo_timers_def queues_def tasks_def task_of_def)
qed (simp_all add: time_ok_def task_time_def ts_micros_def)

text \<open>The time that \<open>select\<close> waits at most: without timers there is none; otherwise it ends when the first timer is due, for times less than
  \<open>10 ^ 6\<close> seconds from now, and after ten microseconds when that time has passed.\<close>

theorem thread_timer_wait_exact:
  assumes "sched_inv m" "time_ok now"
  shows "\<exists>w. thread_timer_wait now m = Some w \<and> (case w of
     None \<Rightarrow> queues m THREAD_TIMER = []
   | Some d \<Rightarrow> queues m THREAD_TIMER \<noteq> [] \<and> 0 \<le> ts_sec d \<and>
       (let rest = task_time (hd (queues m THREAD_TIMER)) - ts_micros now
        in (rest < 0 \<longrightarrow> ts_micros d = 10) \<and> (0 \<le> rest \<and> rest < 1000001 * 1000000 \<longrightarrow> ts_micros d = rest)))"
proof (cases "m_list m THREAD_TIMER")
  case Nil
  then show ?thesis by (simp add: thread_timer_wait_def queues_Nil)
next
  case (Cons p ps)
  have t: "timers_ok m" using assms by (simp add: sched_inv_def)
  then obtain u where u: "th_sands m p = Some u" using Cons by (auto simp: timers_ok_def)
  have h: "task_time (hd (queues m THREAD_TIMER)) = ts_micros u" using timer_task_time [OF t, of p] Cons u by (simp add: queues_def tasks_def)
  note s = timeval_subtract_spec [where a = u and b = now]
  have "thread_timer_wait now m = Some (Some (timeval_subtract u now))" using Cons u s(3) by (simp add: thread_timer_wait_def Let_def)
  moreover have "queues m THREAD_TIMER \<noteq> []" using Cons by (simp add: queues_Nil)
  ultimately show ?thesis using s h by (simp add: Let_def)
qed

text \<open>At the end every thread is freed.\<close>

lemma set_lists_dom:
  assumes "lists_ok m"
  shows "dom (m_threads m) \<subseteq> (\<Union>ty\<in>{THREAD_READ, THREAD_WRITE, THREAD_TIMER, THREAD_EVENT, THREAD_READY, THREAD_UNUSED}. set (m_list m ty))"
proof
  fix p assume "p \<in> dom (m_threads m)"
  then obtain th where "m_threads m p = Some th" by auto
  then have "p \<in> set (m_list m (th_type th))" using assms by (auto simp: lists_ok_def)
  then show "p \<in> (\<Union>ty\<in>{THREAD_READ, THREAD_WRITE, THREAD_TIMER, THREAD_EVENT, THREAD_READY, THREAD_UNUSED}. set (m_list m ty))" by (cases "th_type th") auto
qed

theorem thread_master_free_all:
  assumes "sched_inv m"
  shows "m_threads (thread_master_free m) = Map.empty"
proof
  fix p
  have "p \<notin> dom (m_threads m)" if "\<forall>ty. p \<notin> set (m_list m ty)" using set_lists_dom [of m] assms that by (auto simp: sched_inv_def)
  then show "m_threads (thread_master_free m) p = None"
    using set_lists_dom [of m] assms by (auto simp: thread_master_free_def thread_list_free_def restrict_map_def sched_inv_def)
qed

end
