(* ===== verification/Lib_Table.thy ===== *)
theory Lib_Table
  imports Lib_Prefix
begin

text \<open>
  The routing table of \<open>lib/table.c\<close>: a path-compressed binary trie of route nodes with lock
  counts.  \<open>struct route_table\<close> has the single field \<open>top\<close>, so a table is its top node; the
  parent pointers are the nesting of the tree.  A pointer to a node is the bit string of the
  node's prefix, which no operation changes and which no two nodes of a table share; the
  \<open>info\<close> pointer is an option.  The field \<open>aggregate\<close> is not used by this file.
\<close>

section \<open>Definitions\<close>

datatype 'a route_node =
    RNull
  | RNode (rn_p: prefix) (rn_lock: u32) (rn_info: "'a option")
      (l_left: "'a route_node") (l_right: "'a route_node")

type_synonym 'a route_table = "'a route_node"

definition route_table_init :: "'a route_table" where
  "route_table_init = RNull"

definition route_node_set :: "prefix \<Rightarrow> 'a route_node option" where
  "route_node_set p = do {
     q \<leftarrow> prefix_copy prefix_new p;
     Some (RNode q 0 None RNull RNull)
   }"

text \<open>The bytes \<open>np\<close> and \<open>pp\<close> agree on: the first loop of \<open>route_common\<close>, with
  \<open>k\<close> iterations left.\<close>

fun common_bytes :: "nat \<Rightarrow> u8 list \<Rightarrow> u8 list \<Rightarrow> nat \<Rightarrow> nat" where
  "common_bytes 0 np pp i = i"
| "common_bytes (Suc k) np pp i =
     (if byte_at np i = byte_at pp i then common_bytes k np pp (Suc i) else i)"

text \<open>The second loop: \<open>while (new->prefixlen < p->prefixlen && !(mask & diff))\<close>, with
  \<open>k = p->prefixlen - new->prefixlen\<close>.\<close>

fun common_bits :: "nat \<Rightarrow> u8 \<Rightarrow> u8 \<Rightarrow> nat \<Rightarrow> nat" where
  "common_bits 0 msk diff len = len"
| "common_bits (Suc k) msk diff len =
     (if msk AND diff = 0 then common_bits k (drop_bit 1 msk) diff (Suc len) else len)"

definition route_common :: "prefix \<Rightarrow> prefix \<Rightarrow> prefix \<Rightarrow> prefix" where
  "route_common n p new =
     (let np = u_prefix n; pp = u_prefix p;
          i = common_bytes (plen p div 8) np pp 0;
          newp = map (byte_at np) [0..<i] @ drop i (u_prefix new)
      in if 8 * i \<noteq> plen p
         then let diff = byte_at np i XOR byte_at pp i;
                  len = common_bits (plen p - 8 * i) 0x80 diff (8 * i)
              in new\<lparr>prefixlen := of_nat len,
                     u_prefix := newp[i := byte_at np i AND maskbit ! (len mod 8)]\<rparr>
         else new\<lparr>prefixlen := of_nat (8 * i), u_prefix := newp\<rparr>)"

text \<open>\<open>check_bit\<close> asserts \<open>prefixlen <= 128\<close>; every prefix of a well-formed table meets it.\<close>

definition check_bit :: "u8 list \<Rightarrow> u8 \<Rightarrow> bool" where
  "check_bit m len =
     (let offset = unat len div 8; shift = 7 - unat len mod 8
      in drop_bit shift (byte_at m offset) AND 1 = 1)"

fun rn_link :: "bool \<Rightarrow> 'a route_node \<Rightarrow> 'a route_node" where
  "rn_link b RNull = RNull"
| "rn_link b (RNode p lk i l r) = (if b then r else l)"

fun rn_set_link :: "bool \<Rightarrow> 'a route_node \<Rightarrow> 'a route_node \<Rightarrow> 'a route_node" where
  "rn_set_link b RNull c = RNull"
| "rn_set_link b (RNode p lk i l r) c = (if b then RNode p lk i l c else RNode p lk i c r)"

definition set_link :: "'a route_node \<Rightarrow> 'a route_node \<Rightarrow> 'a route_node" where
  "set_link node new =
     rn_set_link (check_bit (u_prefix (rn_p new)) (prefixlen (rn_p node))) node new"

text \<open>Access to the node a pointer names.\<close>

fun rn_find :: "bool list \<Rightarrow> 'a route_node \<Rightarrow> 'a route_node option" where
  "rn_find k RNull = None"
| "rn_find k (RNode p lk i l r) =
     (if pfx_bits p = k then Some (RNode p lk i l r)
      else case rn_find k l of Some n \<Rightarrow> Some n | None \<Rightarrow> rn_find k r)"

fun rn_modify ::
  "bool list \<Rightarrow> (u32 \<Rightarrow> 'a option \<Rightarrow> u32 \<times> 'a option) \<Rightarrow> 'a route_node \<Rightarrow> 'a route_node" where
  "rn_modify k f RNull = RNull"
| "rn_modify k f (RNode p lk i l r) =
     (if pfx_bits p = k then RNode p (fst (f lk i)) (snd (f lk i)) l r
      else RNode p lk i (rn_modify k f l) (rn_modify k f r))"

definition route_lock_node :: "'a route_table \<Rightarrow> bool list \<Rightarrow> 'a route_table" where
  "route_lock_node t k = rn_modify k (\<lambda>lk i. (lk + 1, i)) t"

text \<open>The client's assignment \<open>node->info = v\<close>.\<close>

definition route_set_info :: "'a route_table \<Rightarrow> bool list \<Rightarrow> 'a option \<Rightarrow> 'a route_table" where
  "route_set_info t k v = rn_modify k (\<lambda>lk i. (lk, v)) t"

text \<open>The guard of the three walks down the tree.\<close>

fun walks :: "'a route_node \<Rightarrow> prefix \<Rightarrow> bool" where
  "walks RNull p = False"
| "walks (RNode n lk i l r) p = (prefixlen n \<le> prefixlen p \<and> prefix_match n p)"

fun match_walk :: "'a route_node \<Rightarrow> prefix \<Rightarrow> prefix option \<Rightarrow> prefix option" where
  "match_walk RNull p matched = matched"
| "match_walk (RNode n lk i l r) p matched =
     (if prefixlen n \<le> prefixlen p \<and> prefix_match n p
      then let m = (if i \<noteq> None then Some n else matched) in
        (if check_bit (u_prefix p) (prefixlen n) then match_walk r p m else match_walk l p m)
      else matched)"

definition route_node_match ::
  "'a route_table \<Rightarrow> prefix \<Rightarrow> 'a route_table \<times> prefix option" where
  "route_node_match t p =
     (case match_walk t p None of
        Some n \<Rightarrow> (route_lock_node t (pfx_bits n), Some n)
      | None \<Rightarrow> (t, None))"

definition route_node_match_ipv4 ::
  "'a route_table \<Rightarrow> u8 list \<Rightarrow> 'a route_table \<times> prefix option" where
  "route_node_match_ipv4 t addr =
     route_node_match t ((set_addr 4 addr prefix_new)\<lparr>family := AF_INET, prefixlen := 32\<rparr>)"

definition route_node_match_ipv6 ::
  "'a route_table \<Rightarrow> u8 list \<Rightarrow> 'a route_table \<times> prefix option" where
  "route_node_match_ipv6 t addr =
     route_node_match t ((set_addr 16 addr prefix_new)\<lparr>family := AF_INET6, prefixlen := 128\<rparr>)"

fun lookup_walk :: "'a route_node \<Rightarrow> prefix \<Rightarrow> prefix option" where
  "lookup_walk RNull p = None"
| "lookup_walk (RNode n lk i l r) p =
     (if prefixlen n \<le> prefixlen p \<and> prefix_match n p
      then if prefixlen n = prefixlen p \<and> i \<noteq> None then Some n
           else if check_bit (u_prefix p) (prefixlen n) then lookup_walk r p else lookup_walk l p
      else None)"

definition route_node_lookup ::
  "'a route_table \<Rightarrow> prefix \<Rightarrow> 'a route_table \<times> prefix option" where
  "route_node_lookup t p =
     (case lookup_walk t p of
        Some n \<Rightarrow> (route_lock_node t (pfx_bits n), Some n)
      | None \<Rightarrow> (t, None))"

text \<open>
  \<open>route_node_get\<close> below the loop: no node there, so a new one for \<open>p\<close>; or a node that does
  not lead to \<open>p\<close>, so a new node for the common prefix above it and, when that is shorter than
  \<open>p\<close>, one for \<open>p\<close> beside it.  The new node of \<open>p\<close> is locked once.
\<close>

fun get_new :: "'a route_node \<Rightarrow> prefix \<Rightarrow> 'a route_node option" where
  "get_new RNull p = do {
     q \<leftarrow> prefix_copy prefix_new p;
     Some (RNode q 1 None RNull RNull)
   }"
| "get_new (RNode n lk i l r) p =
     (let c = (route_common n p prefix_new)\<lparr>family := family p\<rparr>;
          new = set_link (RNode c 0 None RNull RNull) (RNode n lk i l r)
      in if prefixlen c \<noteq> prefixlen p
         then do {
           q \<leftarrow> prefix_copy prefix_new p;
           Some (set_link new (RNode q 1 None RNull RNull))
         }
         else Some (RNode c 1 None (l_left new) (l_right new)))"

fun get_loop :: "'a route_node \<Rightarrow> prefix \<Rightarrow> 'a route_node option" where
  "get_loop RNull p = None"
| "get_loop (RNode n lk i l r) p =
     (if prefixlen n = prefixlen p then Some (RNode n (lk + 1) i l r)
      else if check_bit (u_prefix p) (prefixlen n)
      then if walks r p then do { c \<leftarrow> get_loop r p; Some (RNode n lk i l c) }
           else do { c \<leftarrow> get_new r p; Some (set_link (RNode n lk i l r) c) }
      else if walks l p then do { c \<leftarrow> get_loop l p; Some (RNode n lk i c r) }
           else do { c \<leftarrow> get_new l p; Some (set_link (RNode n lk i l r) c) })"

text \<open>The pointer the call returns is the one named \<open>pfx_bits p\<close>.\<close>

definition route_node_get :: "'a route_table \<Rightarrow> prefix \<Rightarrow> 'a route_table option" where
  "route_node_get t p = (if walks t p then get_loop t p else get_new t p)"

text \<open>
  \<open>route_node_delete\<close> on one node: the two assertions, then the node is kept when it has two
  children and replaced by its only child (or nothing) otherwise.  The flag says that the node
  was freed; then the parent, when its lock is 0, is deleted in turn.
\<close>

definition delete_here ::
  "prefix \<Rightarrow> u32 \<Rightarrow> 'a option \<Rightarrow> 'a route_node \<Rightarrow> 'a route_node \<Rightarrow> ('a route_node \<times> bool) option" where
  "delete_here p lk i l r =
     (if lk \<noteq> 0 \<or> i \<noteq> None then None
      else if l \<noteq> RNull \<and> r \<noteq> RNull then Some (RNode p lk i l r, False)
      else Some (if l \<noteq> RNull then l else r, True))"

fun route_node_delete :: "'a route_node \<Rightarrow> bool list \<Rightarrow> ('a route_node \<times> bool) option" where
  "route_node_delete RNull k = Some (RNull, False)"
| "route_node_delete (RNode p lk i l r) k =
     (if pfx_bits p = k then delete_here p lk i l r
      else do {
        (l', fl) \<leftarrow> route_node_delete l k;
        (r', fr) \<leftarrow> route_node_delete r k;
        if (fl \<or> fr) \<and> lk = 0 then delete_here p lk i l' r'
        else Some (RNode p lk i l' r', False)
      })"

definition route_unlock_node :: "'a route_table \<Rightarrow> bool list \<Rightarrow> 'a route_table option" where
  "route_unlock_node t k =
     (let t1 = rn_modify k (\<lambda>lk i. (lk - 1, i)) t in
      case rn_find k t1 of
        None \<Rightarrow> None
      | Some n \<Rightarrow> if rn_lock n = 0 then map_option fst (route_node_delete t1 k) else Some t1)"

definition route_top :: "'a route_table \<Rightarrow> 'a route_table \<times> bool list option" where
  "route_top t =
     (case t of
        RNull \<Rightarrow> (t, None)
      | RNode p lk i l r \<Rightarrow> (route_lock_node t (pfx_bits p), Some (pfx_bits p)))"

text \<open>
  The node after \<open>k\<close> in the order of \<open>route_next\<close>: its left child, else its right child, else
  the right sibling of the nearest ancestor-or-self that is a left child with a right sibling.
  \<open>up\<close> is what the climb finds above the subtree.
\<close>

fun rn_key :: "'a route_node \<Rightarrow> bool list option" where
  "rn_key RNull = None"
| "rn_key (RNode p lk i l r) = Some (pfx_bits p)"

fun next_walk :: "'a route_node \<Rightarrow> bool list \<Rightarrow> bool list option \<Rightarrow> bool list option" where
  "next_walk RNull k up = None"
| "next_walk (RNode p lk i l r) k up =
     (if pfx_bits p = k
      then if l \<noteq> RNull then rn_key l else if r \<noteq> RNull then rn_key r else up
      else if rn_find k l \<noteq> None
      then next_walk l k (if r \<noteq> RNull then rn_key r else up)
      else next_walk r k up)"

definition route_next :: "'a route_table \<Rightarrow> bool list \<Rightarrow> ('a route_table \<times> bool list option) option" where
  "route_next t k =
     (case next_walk t k None of
        Some nx \<Rightarrow> do { t' \<leftarrow> route_unlock_node (route_lock_node t nx) k; Some (t', Some nx) }
      | None \<Rightarrow> do { t' \<leftarrow> route_unlock_node t k; Some (t', None) })"

text \<open>
  \<open>route_next_until\<close>: the climb also stops at \<open>limit\<close>.
\<close>

fun next_until_walk ::
  "'a route_node \<Rightarrow> bool list \<Rightarrow> bool list \<Rightarrow> bool list option \<Rightarrow> bool list option" where
  "next_until_walk RNull k limit up = None"
| "next_until_walk (RNode p lk i l r) k limit up =
     (let up' = (if pfx_bits p = limit then None else up) in
      if pfx_bits p = k
      then if l \<noteq> RNull then rn_key l else if r \<noteq> RNull then rn_key r else up'
      else if rn_find k l \<noteq> None
      then next_until_walk l k limit (if r \<noteq> RNull then rn_key r else up')
      else next_until_walk r k limit up')"

definition route_next_until ::
  "'a route_table \<Rightarrow> bool list \<Rightarrow> bool list \<Rightarrow> ('a route_table \<times> bool list option) option" where
  "route_next_until t k limit =
     (case next_until_walk t k limit None of
        Some nx \<Rightarrow> do { t' \<leftarrow> route_unlock_node (route_lock_node t nx) k; Some (t', Some nx) }
      | None \<Rightarrow> do { t' \<leftarrow> route_unlock_node t k; Some (t', None) })"

text \<open>\<open>route_dump_node\<close>: the loop over \<open>route_top\<close> and \<open>route_next\<close>, with the lines it prints.\<close>

fun dump_loop ::
  "nat \<Rightarrow> 'a route_table \<Rightarrow> bool list option \<Rightarrow> ((u32 \<times> 'a option \<times> prefix) list \<times> 'a route_table) option" where
  "dump_loop fuel t None = Some ([], t)"
| "dump_loop 0 t (Some k) = None"
| "dump_loop (Suc fuel) t (Some k) = do {
     n \<leftarrow> rn_find k t;
     (t1, nx) \<leftarrow> route_next t k;
     (out, t2) \<leftarrow> dump_loop fuel t1 nx;
     Some ((rn_lock n, rn_info n, rn_p n) # out, t2)
   }"

definition route_dump_node ::
  "nat \<Rightarrow> 'a route_table \<Rightarrow> ((u32 \<times> 'a option \<times> prefix) list \<times> 'a route_table) option" where
  "route_dump_node fuel t = (let (t1, k) = route_top t in dump_loop fuel t1 k)"

section \<open>Abstract value and invariant\<close>

text \<open>A prefix a table can hold: an IPv4 or IPv6 prefix, or the 64 bits of a link state id with no family.\<close>

definition rt_key :: "prefix \<Rightarrow> bool" where
  "rt_key p \<longleftrightarrow> prefix_wf p \<or> family p = AF_UNSPEC \<and> plen p \<le> 64 \<and> 16 \<le> length (u_prefix p)"

lemma rt_key_prefix [intro]: "prefix_wf p \<Longrightarrow> rt_key p"
  by (simp add: rt_key_def)

fun rn_keys :: "'a route_node \<Rightarrow> bool list list" where
  "rn_keys RNull = []"
| "rn_keys (RNode p lk i l r) = pfx_bits p # rn_keys l @ rn_keys r"

fun rt_wf :: "u8 \<Rightarrow> 'a route_node \<Rightarrow> bool" where
  "rt_wf fam RNull = True"
| "rt_wf fam (RNode p lk i l r) =
     (rt_key p \<and> family p = fam \<and> rt_wf fam l \<and> rt_wf fam r \<and>
      (\<forall>k \<in> set (rn_keys l). Sublist.prefix (pfx_bits p @ [False]) k) \<and>
      (\<forall>k \<in> set (rn_keys r). Sublist.prefix (pfx_bits p @ [True]) k))"

text \<open>The table as a map from bit strings to lock count and info.\<close>

definition rt_map :: "'a route_table \<Rightarrow> bool list \<Rightarrow> (u32 \<times> 'a option) option" where
  "rt_map t k = map_option (\<lambda>n. (rn_lock n, rn_info n)) (rn_find k t)"

text \<open>
  The lock discipline: a node with info is locked, and an unlocked node (a branching point
  without an owner) has two children.
\<close>

fun rt_ok :: "'a route_node \<Rightarrow> bool" where
  "rt_ok RNull = True"
| "rt_ok (RNode p lk i l r) =
     ((i \<noteq> None \<longrightarrow> lk \<noteq> 0) \<and> (lk = 0 \<longrightarrow> l \<noteq> RNull \<and> r \<noteq> RNull) \<and> rt_ok l \<and> rt_ok r)"

section \<open>Navigation\<close>

lemma check_bit_addr: "check_bit m len = addr_bit m (unat len)"
  by (simp add: check_bit_def addr_bit_def Let_def and_one_eq bit_iff_odd_drop_bit odd_iff_mod_2_eq_one)

lemma check_bit_pfx: "plen n < plen q \<Longrightarrow> check_bit (u_prefix q) (prefixlen n) = pfx_bits q ! plen n"
  by (simp add: check_bit_addr nth_pfx_bits)

lemma plen_le_iff: "prefixlen a \<le> prefixlen b \<longleftrightarrow> plen a \<le> plen b"
  by (simp add: word_le_nat_alt)

lemma match_len: "prefix_match n q \<Longrightarrow> plen n \<le> plen q"
  by (simp add: prefix_match_bits)

lemma walk_guard: "prefixlen n \<le> prefixlen p \<and> prefix_match n p \<longleftrightarrow> Sublist.prefix (pfx_bits n) (pfx_bits p)"
  using match_len by (auto simp: prefix_match_iff [symmetric] plen_le_iff)

lemma rt_wf_keys:
  "rt_wf fam (RNode p lk i l r) \<Longrightarrow> k \<in> set (rn_keys (RNode p lk i l r)) \<Longrightarrow> Sublist.prefix (pfx_bits p) k"
  by (auto dest!: append_prefixD)

lemma snoc_prefix_iff:
  "Sublist.prefix (xs @ [b]) ys \<longleftrightarrow> Sublist.prefix xs ys \<and> length xs < length ys \<and> ys ! length xs = b"
  by (auto simp: prefix_iff_nth nth_append less_Suc_eq)

lemma rn_find_None_iff: "rn_find k t = None \<longleftrightarrow> k \<notin> set (rn_keys t)"
  by (induction t) (auto split: option.splits)

lemma rn_find_key: "rn_find k t = Some n \<Longrightarrow> n \<noteq> RNull \<and> pfx_bits (rn_p n) = k"
  by (induction t) (auto split: if_splits option.splits)

lemma rt_map_None_iff: "rt_map t k = None \<longleftrightarrow> k \<notin> set (rn_keys t)"
  by (simp add: rt_map_def rn_find_None_iff)

lemma rt_map_simps [simp]:
  "rt_map RNull k = None"
  "rt_map (RNode p lk i l r) k =
     (if pfx_bits p = k then Some (lk, i)
      else case rt_map l k of Some x \<Rightarrow> Some x | None \<Rightarrow> rt_map r k)"
  by (auto simp: rt_map_def split: option.splits)

lemma rt_wf_child_longer:
  assumes "rt_wf fam (RNode p lk i l r)"
  shows "k \<in> set (rn_keys l) \<Longrightarrow> plen p < length k \<and> \<not> k ! plen p \<and> Sublist.prefix (pfx_bits p) k"
    and "k \<in> set (rn_keys r) \<Longrightarrow> plen p < length k \<and> k ! plen p \<and> Sublist.prefix (pfx_bits p) k"
  using assms by (auto simp: snoc_prefix_iff)

lemma rt_wf_disjoint:
  assumes "rt_wf fam (RNode p lk i l r)"
  shows "pfx_bits p \<notin> set (rn_keys l)" "pfx_bits p \<notin> set (rn_keys r)"
    "set (rn_keys l) \<inter> set (rn_keys r) = {}"
  using rt_wf_child_longer [OF assms] by fastforce+

lemma rt_wf_distinct: "rt_wf fam t \<Longrightarrow> distinct (rn_keys t)"
proof (induction t)
  case (RNode p lk i l r)
  then show ?case using rt_wf_disjoint [OF RNode.prems] by auto
qed simp

lemma rn_find_dir:
  assumes "rt_wf fam (RNode p lk i l r)" "plen p < length k"
  shows "rn_find k (RNode p lk i l r) = rn_find k (if k ! plen p then r else l)"
proof -
  have "pfx_bits p \<noteq> k" using assms(2) by force
  then show ?thesis
    using rt_wf_child_longer [OF assms(1), of k] rn_find_None_iff [of k l] rn_find_None_iff [of k r]
    by (auto split: option.splits)
qed

section \<open>Lookup and longest match\<close>

lemma lookup_walk_short:
  "rt_wf fam t \<Longrightarrow> \<forall>k \<in> set (rn_keys t). plen q < length k \<Longrightarrow> lookup_walk t q = None"
  by (cases t) (auto simp: word_le_nat_alt)

lemma lookup_walk_find:
  "rt_wf fam t \<Longrightarrow> lookup_walk t q =
     (case rn_find (pfx_bits q) t of
        Some n \<Rightarrow> if rn_info n \<noteq> None then Some (rn_p n) else None
      | None \<Rightarrow> None)"
proof (induction t)
  case (RNode n lk i l r)
  note wf = RNode.prems
  show ?case
  proof (cases "Sublist.prefix (pfx_bits n) (pfx_bits q)")
    case False
    then have "pfx_bits q \<notin> set (rn_keys (RNode n lk i l r))" using rt_wf_keys [OF wf] by blast
    then have "rn_find (pfx_bits q) (RNode n lk i l r) = None"
      by (rule rn_find_None_iff [THEN iffD2])
    then show ?thesis using False by (simp add: walk_guard del: rn_find.simps)
  next
    case True
    then have g: "prefixlen n \<le> prefixlen q \<and> prefix_match n q" by (simp add: walk_guard)
    show ?thesis
    proof (cases "plen n = plen q")
      case eq: True
      then have e: "pfx_bits n = pfx_bits q" and e': "prefixlen n = prefixlen q"
        using pm.matches_same_length [of n q] g by (simp_all add: plen_eq_iff)
      have "lookup_walk l q = None" "lookup_walk r q = None"
        using rt_wf_child_longer [OF wf] wf eq by (auto intro!: lookup_walk_short)
      then show ?thesis using g e e' by auto
    next
      case False
      then have lt: "plen n < plen q" using True by (auto dest: prefix_length_le)
      then have "prefixlen n \<noteq> prefixlen q" by auto
      then have "lookup_walk (RNode n lk i l r) q = lookup_walk (if pfx_bits q ! plen n then r else l) q"
        using g lt by (simp add: check_bit_pfx)
      also have "\<dots> = (case rn_find (pfx_bits q) (if pfx_bits q ! plen n then r else l) of
        Some n \<Rightarrow> if rn_info n \<noteq> None then Some (rn_p n) else None | None \<Rightarrow> None)"
        using RNode.IH wf by auto
      also have "rn_find (pfx_bits q) (if pfx_bits q ! plen n then r else l)
          = rn_find (pfx_bits q) (RNode n lk i l r)"
        using rn_find_dir [OF wf, of "pfx_bits q"] lt by (simp del: rn_find.simps)
      finally show ?thesis .
    qed
  qed
qed simp

text \<open>The entries of the table that contain \<open>q\<close>.\<close>

definition candidates :: "'a route_table \<Rightarrow> prefix \<Rightarrow> bool list set" where
  "candidates t q = {k. (\<exists>lk v. rt_map t k = Some (lk, Some v)) \<and> Sublist.prefix k (pfx_bits q)}"

lemma match_walk_none:
  "rt_wf fam t \<Longrightarrow> \<not> walks t q \<Longrightarrow> match_walk t q m = m \<and> candidates t q = {}"
proof (cases t)
  case (RNode n lk i l r)
  assume wf: "rt_wf fam t" and nw: "\<not> walks t q"
  then have np: "\<not> Sublist.prefix (pfx_bits n) (pfx_bits q)" using RNode by (simp add: walk_guard)
  have "k \<notin> candidates t q" for k
  proof
    assume "k \<in> candidates t q"
    then have "k \<in> set (rn_keys t)" "Sublist.prefix k (pfx_bits q)"
      using rt_map_None_iff [of t k] by (auto simp: candidates_def)
    then show False using rt_wf_keys [of fam n lk i l r k] wf RNode np
      by (blast intro: prefix_order.trans)
  qed
  then show ?thesis using np RNode by (auto simp: walk_guard)
qed (simp add: candidates_def)

lemma candidates_RNode:
  assumes wf: "rt_wf fam (RNode n lk i l r)" and g: "Sublist.prefix (pfx_bits n) (pfx_bits q)"
  shows "candidates (RNode n lk i l r) q =
    (if i \<noteq> None then {pfx_bits n} else {}) \<union>
    candidates (if check_bit (u_prefix q) (prefixlen n) then r else l) q" (is "?L = ?R")
proof -
  let ?b = "check_bit (u_prefix q) (prefixlen n)"
  have dir: "plen n < length k \<and> (k ! plen n = ?b)" if "Sublist.prefix k (pfx_bits q)"
    "k \<in> set (rn_keys l) \<union> set (rn_keys r)" for k
  proof -
    have "plen n < length k" using rt_wf_child_longer [OF wf, of k] that(2) by blast
    moreover have "length k \<le> plen q" using prefix_length_le [OF that(1)] by simp
    moreover have "k ! plen n = pfx_bits q ! plen n"
      using that(1) calculation(1) by (auto simp: prefix_iff_nth)
    ultimately show ?thesis by (simp add: check_bit_pfx)
  qed
  note kids = rt_wf_child_longer [OF wf] and dj = rt_wf_disjoint [OF wf]
  have "k \<in> ?L \<longleftrightarrow> k \<in> ?R" for k
  proof (cases "k = pfx_bits n")
    case True
    then have "rt_map l k = None" "rt_map r k = None" using dj by (simp_all add: rt_map_None_iff)
    then show ?thesis using True g by (auto simp: candidates_def)
  next
    case False
    have "rt_map r k = None" if "Sublist.prefix k (pfx_bits q)" "\<not> ?b"
      using dir [OF that(1)] that(2) kids(2) [of k] by (auto simp: rt_map_None_iff)
    moreover have "rt_map l k = None" if "Sublist.prefix k (pfx_bits q)" "?b"
      using dir [OF that(1)] that(2) kids(1) [of k] by (auto simp: rt_map_None_iff)
    ultimately show ?thesis using False by (auto simp: candidates_def split: option.splits)
  qed
  then show ?thesis by blast
qed

lemma match_walk_best:
  "rt_wf fam t \<Longrightarrow>
     (candidates t q = {} \<longrightarrow> match_walk t q m = m) \<and>
     (candidates t q \<noteq> {} \<longrightarrow> (\<exists>n. match_walk t q m = Some n \<and> pfx_bits n \<in> candidates t q \<and>
        (\<forall>k \<in> candidates t q. length k \<le> plen n)))"
proof (induction t arbitrary: m)
  case RNull
  then show ?case by (simp add: candidates_def)
next
  case (RNode n lk i l r)
  note wf = RNode.prems
  show ?case
  proof (cases "Sublist.prefix (pfx_bits n) (pfx_bits q)")
    case False
    then show ?thesis using match_walk_none [OF wf, of q m] by (simp add: walk_guard del: match_walk.simps)
  next
    case True
    let ?c = "if check_bit (u_prefix q) (prefixlen n) then r else l"
    let ?m = "if i \<noteq> None then Some n else m"
    have step: "match_walk (RNode n lk i l r) q m = match_walk ?c q ?m"
      using True walk_guard [of n q] by (simp add: Let_def)
    have long: "\<forall>k \<in> candidates ?c q. plen n < length k"
      using rt_wf_child_longer [OF wf] by (auto simp: candidates_def) (metis option.distinct(1) rt_map_None_iff)+
    have IH: "(candidates ?c q = {} \<longrightarrow> match_walk ?c q ?m = ?m) \<and>
       (candidates ?c q \<noteq> {} \<longrightarrow> (\<exists>n. match_walk ?c q ?m = Some n \<and> pfx_bits n \<in> candidates ?c q \<and>
        (\<forall>k \<in> candidates ?c q. length k \<le> plen n)))"
      using RNode.IH wf by auto
    show ?thesis
    proof (cases "candidates ?c q = {}")
      case e: True
      then show ?thesis using IH
        by (auto simp: step candidates_RNode [OF wf True] simp del: match_walk.simps)
    next
      case ne: False
      then obtain n' where n': "match_walk ?c q ?m = Some n'" "pfx_bits n' \<in> candidates ?c q"
        "\<forall>k \<in> candidates ?c q. length k \<le> plen n'" using IH by blast
      then have "plen n < plen n'" using long by fastforce
      then show ?thesis using n' ne
        by (auto simp: step candidates_RNode [OF wf True] simp del: match_walk.simps)
    qed
  qed
qed

section \<open>The common prefix\<close>

lemma common_bytes_spec:
  "i \<le> common_bytes k np pp i \<and> common_bytes k np pp i \<le> i + k \<and>
   (\<forall>j. i \<le> j \<and> j < common_bytes k np pp i \<longrightarrow> byte_at np j = byte_at pp j) \<and>
   (common_bytes k np pp i = i + k \<or>
    byte_at np (common_bytes k np pp i) \<noteq> byte_at pp (common_bytes k np pp i))"
proof (induction k np pp i rule: common_bytes.induct)
  case (2 k np pp i)
  show ?case
  proof (cases "byte_at np i = byte_at pp i")
    case True
    then have "common_bytes (Suc k) np pp i = common_bytes k np pp (Suc i)" by simp
    then show ?thesis using 2 [OF True] True
      by simp (metis Suc_leI le_neq_implies_less)
  qed auto
qed auto

lemma drop_bit_0x80: "(drop_bit j (0x80 :: u8) AND d = 0) \<longleftrightarrow> \<not> (j < 8 \<and> bit d (7 - j))"
proof (cases "j < 8")
  case True
  have "\<forall>j<8. drop_bit j (0x80 :: u8) = 2 ^ (7 - j)" by code_simp
  then have "drop_bit j (0x80 :: u8) = 2 ^ (7 - j)" using True by blast
  then show ?thesis using True and_exp_eq_0_iff_not_bit [of d "7 - j"]
    by (simp add: and.commute)
next
  case False
  then have "drop_bit j (0x80 :: u8) = 0"
    by (intro bit_word_eqI) (auto simp: bit_simps)
  then show ?thesis using False by simp
qed

lemma common_bits_spec:
  assumes "common_bits k (drop_bit j 0x80) d len = len'"
  shows "\<exists>e. len' = len + e \<and> e \<le> k \<and> (\<forall>x<e. j + x < 8 \<longrightarrow> \<not> bit d (7 - (j + x))) \<and>
    (e = k \<or> j + e < 8 \<and> bit d (7 - (j + e)))"
  using assms
proof (induction k arbitrary: j len)
  case 0
  then show ?case by simp
next
  case (Suc k)
  show ?case
  proof (cases "j < 8 \<and> bit d (7 - j)")
    case True
    then have "common_bits (Suc k) (drop_bit j 0x80) d len = len" by (simp add: drop_bit_0x80)
    then show ?thesis using Suc.prems True by (intro exI [of _ 0]) simp
  next
    case False
    then have "common_bits (Suc k) (drop_bit j 0x80) d len
        = common_bits k (drop_bit (Suc j) 0x80) d (Suc len)"
      using drop_bit_0x80 [of j d] by (simp add: drop_bit_drop_bit)
    with Suc.prems Suc.IH [of "Suc j" "Suc len"] obtain e where
      e: "len' = Suc len + e" "e \<le> k" "\<forall>x<e. Suc j + x < 8 \<longrightarrow> \<not> bit d (7 - (Suc j + x))"
        "e = k \<or> Suc j + e < 8 \<and> bit d (7 - (Suc j + e))" by metis
    have "\<forall>x<Suc e. j + x < 8 \<longrightarrow> \<not> bit d (7 - (j + x))"
    proof (intro allI impI)
      fix x assume "x < Suc e" "j + x < 8"
      then show "\<not> bit d (7 - (j + x))" using e(3) False by (cases x) auto
    qed
    then show ?thesis using e by (intro exI [of _ "Suc e"]) auto
  qed
qed

lemma common_bits_byte:
  assumes d: "x \<noteq> y \<or> k < 8" and "common_bits k 0x80 (x XOR y) len = len'"
  shows "\<exists>e. len' = len + e \<and> e < 8 \<and> e \<le> k \<and> (\<forall>j<e. bit x (7 - j) = bit y (7 - j)) \<and>
    (e = k \<or> bit x (7 - e) \<noteq> bit y (7 - e))"
proof -
  obtain e where e: "len' = len + e" "e \<le> k" "\<forall>j<e. j < 8 \<longrightarrow> \<not> bit (x XOR y) (7 - j)"
    "e = k \<or> e < 8 \<and> bit (x XOR y) (7 - e)"
    using common_bits_spec [of k 0 "x XOR y" len len'] assms(2) by auto
  have "e < 8"
  proof (rule ccontr)
    assume "\<not> e < 8"
    then have "\<forall>j<8. \<not> bit (x XOR y) (7 - j)" using e(3) by simp
    then have "x = y" by (simp add: byte_eq_iff bit_xor_iff)
    then show False using d e(2) \<open>\<not> e < 8\<close> by simp
  qed
  then show ?thesis using e by (intro exI [of _ e]) (auto simp: bit_xor_iff)
qed

lemma addr_bit_in_byte: "j < 8 \<Longrightarrow> addr_bit m (8 * i + j) = bit (byte_at m i) (7 - j)"
  by (simp add: addr_bit_def)

lemma addr_bits_bytes_eq:
  "\<forall>k<i. byte_at x k = byte_at y k \<Longrightarrow> \<forall>j<e. bit (byte_at x i) (7 - j) = bit (byte_at y i) (7 - j)
     \<Longrightarrow> e < 8 \<Longrightarrow> \<forall>j < 8 * i + e. addr_bit x j = addr_bit y j"
  using addr_bit_split [of "8 * i + e" x y] by simp

lemma route_common_spec:
  assumes L: "plen p \<le> 128" and len: "16 \<le> length (u_prefix new)"
  obtains c where "c \<le> plen p" "plen (route_common n p new) = c"
    "\<forall>j<c. addr_bit (u_prefix n) j = addr_bit (u_prefix p) j"
    "c = plen p \<or> addr_bit (u_prefix n) c \<noteq> addr_bit (u_prefix p) c"
    "\<forall>j<c. addr_bit (u_prefix (route_common n p new)) j = addr_bit (u_prefix n) j"
    "length (u_prefix (route_common n p new)) = length (u_prefix new)"
    "family (route_common n p new) = family new"
proof -
  define np pp where "np = u_prefix n" and "pp = u_prefix p"
  define i where "i = common_bytes (plen p div 8) np pp 0"
  define newp where "newp = map (byte_at np) [0..<i] @ drop i (u_prefix new)"
  have i: "i \<le> plen p div 8" "\<forall>k<i. byte_at np k = byte_at pp k"
    "i = plen p div 8 \<or> byte_at np i \<noteq> byte_at pp i"
    using common_bytes_spec [of 0 "plen p div 8" np pp] by (auto simp: i_def)
  have i16: "i \<le> 16" using i(1) L by linarith
  have nb: "\<forall>k<i. byte_at newp k = byte_at np k" and nl: "length newp = length (u_prefix new)"
    using i16 len by (auto simp: newp_def byte_at_def nth_append)
  show thesis
  proof (cases "8 * i = plen p")
    case True
    then have rc: "route_common n p new = new\<lparr>prefixlen := of_nat (8 * i), u_prefix := newp\<rparr>"
      by (simp add: route_common_def Let_def i_def newp_def np_def pp_def)
    have "unat (of_nat (8 * i) :: u8) = 8 * i" using L True by (simp add: unat_of_nat)
    then show thesis
      using True i nb nl rc addr_bits_bytes_eq [of i np pp 0] addr_bits_bytes_eq [of i newp np 0]
      by (intro that [of "8 * i"]) (auto simp: np_def pp_def)
  next
    case False
    then have lt: "8 * i < plen p" using i(1) by linarith
    then have "i < 16" using L by linarith
    define c where "c = common_bits (plen p - 8 * i) 0x80 (byte_at np i XOR byte_at pp i) (8 * i)"
    have "byte_at np i \<noteq> byte_at pp i \<or> plen p - 8 * i < 8" using i(3) by auto
    from common_bits_byte [OF this c_def [symmetric]] obtain e where
      e: "c = 8 * i + e" "e < 8" "e \<le> plen p - 8 * i"
        "\<forall>j<e. bit (byte_at np i) (7 - j) = bit (byte_at pp i) (7 - j)"
        "e = plen p - 8 * i \<or> bit (byte_at np i) (7 - e) \<noteq> bit (byte_at pp i) (7 - e)" by blast
    define newp' where "newp' = newp[i := byte_at np i AND maskbit ! e]"
    have rc: "route_common n p new = new\<lparr>prefixlen := of_nat c, u_prefix := newp'\<rparr>"
      using False e(1,2) by (simp add: route_common_def Let_def i_def newp_def np_def pp_def c_def newp'_def)
    have cl: "c \<le> plen p" using e lt by linarith
    then have uc: "unat (of_nat c :: u8) = c" using L by (simp add: unat_of_nat)
    have b': "byte_at newp' i = byte_at np i AND maskbit ! e" "\<forall>k<i. byte_at newp' k = byte_at np k"
      using \<open>i < 16\<close> len nl nb by (auto simp: newp'_def byte_at_update)
    have "\<forall>j<e. bit (byte_at newp' i) (7 - j) = bit (byte_at np i) (7 - j)"
      using e(2) by (auto simp: b'(1) bit_and_iff maskbit_bit)
    then have "\<forall>j<c. addr_bit newp' j = addr_bit np j"
      using addr_bits_bytes_eq [OF b'(2)] e(1,2) by simp
    moreover have "\<forall>j<c. addr_bit np j = addr_bit pp j"
      using addr_bits_bytes_eq [OF i(2) e(4)] e(1,2) by simp
    moreover have "c = plen p \<or> addr_bit np c \<noteq> addr_bit pp c"
      using e lt by (auto simp: addr_bit_in_byte)
    ultimately show thesis
      using cl uc rc nl by (intro that [of c]) (auto simp: np_def pp_def newp'_def)
  qed
qed

lemma pfx_bits_take_nth: "c \<le> plen p \<Longrightarrow> take c (pfx_bits p) = map (addr_bit (u_prefix p)) [0..<c]"
  by (simp add: pfx_bits_def take_map)

lemma route_common_bits:
  fixes n p
  defines "q \<equiv> route_common n p prefix_new"
  assumes L: "plen p \<le> 128" and nm: "\<not> Sublist.prefix (pfx_bits n) (pfx_bits p)"
  shows "plen q \<le> plen p" "plen q < plen n"
    "pfx_bits q = take (plen q) (pfx_bits p)" "pfx_bits q = take (plen q) (pfx_bits n)"
    "plen q < plen p \<Longrightarrow> pfx_bits n ! plen q \<noteq> pfx_bits p ! plen q"
    "length (u_prefix q) = 16"
proof -
  have len: "16 \<le> length (u_prefix prefix_new)" by (simp add: prefix_new_def)
  obtain c where c: "c \<le> plen p" "plen q = c"
    "\<forall>j<c. addr_bit (u_prefix n) j = addr_bit (u_prefix p) j"
    "c = plen p \<or> addr_bit (u_prefix n) c \<noteq> addr_bit (u_prefix p) c"
    "\<forall>j<c. addr_bit (u_prefix q) j = addr_bit (u_prefix n) j"
    "length (u_prefix q) = length (u_prefix prefix_new)" "family q = family prefix_new"
    unfolding q_def by (rule route_common_spec [OF L len, of n])
  show lt: "plen q < plen n"
  proof (rule ccontr)
    assume "\<not> plen q < plen n"
    then have "Sublist.prefix (pfx_bits n) (pfx_bits p)"
      using c(1,2,3) by (simp add: prefix_iff_nth nth_pfx_bits)
    with nm show False ..
  qed
  show "plen q \<le> plen p" using c by simp
  show "pfx_bits q = take (plen q) (pfx_bits n)" "pfx_bits q = take (plen q) (pfx_bits p)"
    using c lt by (auto intro!: nth_equalityI simp: nth_pfx_bits)
  show "plen q < plen p \<Longrightarrow> pfx_bits n ! plen q \<noteq> pfx_bits p ! plen q"
    using c(2,4) lt by (simp add: nth_pfx_bits)
  show "length (u_prefix q) = 16" using c(6) by (simp add: prefix_new_def)
qed

section \<open>Adding nodes\<close>

lemma prefix_copy_new:
  assumes "rt_key p"
  obtains q where "prefix_copy prefix_new p = Some q" "rt_key q" "family q = family p"
    "pfx_bits q = pfx_bits p" "prefixlen q = prefixlen p"
proof -
  let ?n = "if family p = AF_UNSPEC then 8 else prefix_blen p"
  let ?q = "prefix_new\<lparr>family := family p, prefixlen := prefixlen p,
    u_prefix := take ?n (u_prefix p) @ drop ?n (u_prefix prefix_new)\<rparr>"
  have "prefix_copy prefix_new p = Some ?q"
    using assms by (auto simp: prefix_copy_def prefix_blen_def rt_key_def prefix_wf_def Let_def af_defs)
  moreover have "rt_key ?q"
    using assms by (auto simp: rt_key_def prefix_wf_def prefix_new_def prefix_blen_def af_defs)
  moreover have "pfx_bits ?q = pfx_bits p"
  proof (rule nth_equalityI)
    fix i assume "i < length (pfx_bits ?q)"
    then have i: "i < plen p" by simp
    have "i div 8 < ?n" "?n \<le> length (u_prefix p)"
      using i assms by (auto simp: rt_key_def prefix_wf_def prefix_blen_def af_defs)
    then show "pfx_bits ?q ! i = pfx_bits p ! i"
      using i by (simp add: nth_pfx_bits addr_bit_def byte_at_append_left byte_at_take)
  qed simp
  ultimately show thesis by (intro that [of ?q]) simp_all
qed

lemma rt_key_plen: "rt_key p \<Longrightarrow> plen p \<le> 128"
  by (auto simp: rt_key_def prefix_wf_def)

lemma rt_key_shorter:
  "rt_key p \<Longrightarrow> family q = family p \<Longrightarrow> plen q \<le> plen p \<Longrightarrow> 16 \<le> length (u_prefix q) \<Longrightarrow> rt_key q"
  by (auto simp: rt_key_def prefix_wf_def)

text \<open>What an insertion of \<open>p\<close> may do to the table.\<close>

definition rt_inserted :: "bool list \<Rightarrow> 'a route_table \<Rightarrow> 'a route_table \<Rightarrow> bool" where
  "rt_inserted kp t t' \<longleftrightarrow>
     rt_map t' kp = Some (case rt_map t kp of Some (lk, i) \<Rightarrow> (lk + 1, i) | None \<Rightarrow> (1, None)) \<and>
     (\<forall>k. k \<noteq> kp \<and> rt_map t k \<noteq> None \<longrightarrow> rt_map t' k = rt_map t k) \<and>
     (\<forall>k. k \<noteq> kp \<and> rt_map t k = None \<longrightarrow> rt_map t' k = None \<or> rt_map t' k = Some (0, None))"

lemma set_link_simp:
  "plen p < length (pfx_bits q) \<Longrightarrow> set_link (RNode p lk i l r) (RNode q lk' i' l' r') =
     (if pfx_bits q ! plen p then RNode p lk i l (RNode q lk' i' l' r')
      else RNode p lk i (RNode q lk' i' l' r') r)"
  by (simp add: set_link_def check_bit_pfx)

lemma route_common_split:
  fixes n p
  defines "cq \<equiv> (route_common n p prefix_new)\<lparr>family := family p\<rparr>"
  assumes wf: "rt_wf (family p) (RNode n lk i l r)" and pw: "rt_key p"
    and nm: "\<not> Sublist.prefix (pfx_bits n) (pfx_bits p)"
  shows "plen cq < plen n" "plen cq \<le> plen p" "rt_key cq" "family cq = family p"
    "Sublist.prefix (pfx_bits cq) (pfx_bits p)"
    "plen cq < plen p \<Longrightarrow> pfx_bits n ! plen cq \<noteq> pfx_bits p ! plen cq"
    "k \<in> set (rn_keys (RNode n lk i l r)) \<Longrightarrow> Sublist.prefix (pfx_bits cq @ [pfx_bits n ! plen cq]) k"
    "\<lbrakk>Sublist.prefix x (pfx_bits p); Sublist.prefix x (pfx_bits n)\<rbrakk> \<Longrightarrow> Sublist.prefix x (pfx_bits cq)"
proof -
  define q where "q = route_common n p prefix_new"
  note q = route_common_bits [OF rt_key_plen [OF pw] nm, folded q_def]
  have cq: "plen cq = plen q" "pfx_bits cq = pfx_bits q" "u_prefix cq = u_prefix q"
    by (simp_all add: cq_def q_def pfx_bits_def)
  show fam: "family cq = family p" by (simp add: cq_def)
  show "plen cq < plen n" and le: "plen cq \<le> plen p"
    and ne: "plen cq < plen p \<Longrightarrow> pfx_bits n ! plen cq \<noteq> pfx_bits p ! plen cq"
    using q cq by simp_all
  show "rt_key cq" using q(6) fam le cq by (intro rt_key_shorter [OF pw]) simp_all
  show "Sublist.prefix (pfx_bits cq) (pfx_bits p)" using q(3) cq take_is_prefix by metis
  show "k \<in> set (rn_keys (RNode n lk i l r)) \<Longrightarrow> Sublist.prefix (pfx_bits cq @ [pfx_bits n ! plen cq]) k"
  proof -
    assume "k \<in> set (rn_keys (RNode n lk i l r))"
    then have "Sublist.prefix (take (Suc (plen q)) (pfx_bits n)) k"
      using rt_wf_keys [OF wf] take_is_prefix prefix_order.trans by blast
    then show ?thesis using q(2,4) cq by (simp add: take_Suc_conv_app_nth)
  qed
  assume x: "Sublist.prefix x (pfx_bits p)" "Sublist.prefix x (pfx_bits n)"
  have "length x \<le> plen cq"
  proof (rule ccontr)
    assume "\<not> length x \<le> plen cq"
    then have "x ! plen cq = pfx_bits p ! plen cq" "x ! plen cq = pfx_bits n ! plen cq" "plen cq < plen p"
      using x by (auto simp: prefix_iff_nth)
    then show False using ne by simp
  qed
  then show "Sublist.prefix x (pfx_bits cq)" using x(1) q(3) cq by (auto simp: prefix_iff_nth)
qed

lemma get_new_shape:
  assumes wf: "rt_wf (family p) (RNode n lk i l r)" and pw: "rt_key p"
    and nm: "\<not> Sublist.prefix (pfx_bits n) (pfx_bits p)"
    and q: "prefix_copy prefix_new p = Some q" "pfx_bits q = pfx_bits p" "prefixlen q = prefixlen p"
  defines "cq \<equiv> (route_common n p prefix_new)\<lparr>family := family p\<rparr>"
    and "t \<equiv> RNode n lk i l r"
  shows "get_new t p = Some
    (if plen cq = plen p
     then RNode cq 1 None (if pfx_bits n ! plen cq then RNull else t) (if pfx_bits n ! plen cq then t else RNull)
     else RNode cq 0 None (if pfx_bits n ! plen cq then RNode q 1 None RNull RNull else t)
        (if pfx_bits n ! plen cq then t else RNode q 1 None RNull RNull))"
proof -
  note c = route_common_split [OF wf pw nm, folded cq_def]
  have "get_new t p =
      (let new = set_link (RNode cq 0 None RNull RNull) t
       in if prefixlen cq \<noteq> prefixlen p then Some (set_link new (RNode q 1 None RNull RNull))
          else Some (RNode cq 1 None (l_left new) (l_right new)))"
    using q(1) by (simp add: t_def cq_def Let_def)
  moreover have "set_link (RNode cq 0 None RNull RNull) t =
      (if pfx_bits n ! plen cq then RNode cq 0 None RNull t else RNode cq 0 None t RNull)"
    using c(1) set_link_simp [of cq n 0 None RNull RNull lk i l r] by (simp add: t_def)
  moreover have "plen cq \<noteq> plen p \<Longrightarrow> plen cq < plen p" using c(2) by simp
  ultimately show ?thesis
    using c(6) q(2,3) by (auto simp: set_link_simp plen_eq_iff)
qed

lemma get_new_spec:
  assumes wf: "rt_wf (family p) t" and pw: "rt_key p" and nw: "\<not> walks t p"
  obtains q lk i l r where "get_new t p = Some (RNode q lk i l r)"
    "rt_wf (family p) (RNode q lk i l r)" "rt_inserted (pfx_bits p) t (RNode q lk i l r)"
    "Sublist.prefix (pfx_bits q) (pfx_bits p)"
    "\<forall>x. Sublist.prefix x (pfx_bits p) \<and> (\<forall>k \<in> set (rn_keys t). Sublist.prefix x k)
        \<longrightarrow> Sublist.prefix x (pfx_bits q)"
    "rt_ok t \<longrightarrow> rt_ok (RNode q lk i l r)"
proof -
  obtain q where q: "prefix_copy prefix_new p = Some q" "rt_key q" "family q = family p"
    "pfx_bits q = pfx_bits p" "prefixlen q = prefixlen p" by (rule prefix_copy_new [OF pw])
  show thesis
  proof (cases t)
    case RNull
    then show thesis using q
      by (intro that [of q 1 None RNull RNull]) (auto simp: rt_inserted_def)
  next
    case (RNode n lk i l r)
    have nm: "\<not> Sublist.prefix (pfx_bits n) (pfx_bits p)" using nw RNode by (simp add: walk_guard)
    note wf' = wf [unfolded RNode]
    define cq where "cq = (route_common n p prefix_new)\<lparr>family := family p\<rparr>"
    note c = route_common_split [OF wf' pw nm, folded cq_def]
    note shape = get_new_shape [OF wf' pw nm q(1,4,5), folded cq_def, folded RNode]
    have fresh: "rt_map t (pfx_bits p) = None" "rt_map t (pfx_bits cq) = None"
      using rt_wf_keys [OF wf', of "pfx_bits p"] nm c(7) [of "pfx_bits cq"] RNode
      unfolding rt_map_None_iff by (fastforce simp: snoc_prefix_iff)+
    have x: "Sublist.prefix x (pfx_bits cq)"
      if "Sublist.prefix x (pfx_bits p)" "\<forall>k \<in> set (rn_keys t). Sublist.prefix x k" for x
      using c(8) [OF that(1)] that(2) RNode by simp
    define b where "b = pfx_bits n ! plen cq"
    have side: "\<forall>k \<in> set (rn_keys t). Sublist.prefix (pfx_bits cq @ [b]) k"
      using c(7) RNode by (simp add: b_def)
    have tn: "t \<noteq> RNull" using RNode by simp
    show thesis
    proof (cases "plen cq = plen p")
      case True
      then have e: "pfx_bits cq = pfx_bits p"
        using c(5) by (auto simp: prefix_iff_nth intro!: nth_equalityI)
      have g: "get_new t p = Some (RNode cq 1 None (if b then RNull else t) (if b then t else RNull))"
        using shape True by (simp add: b_def)
      have "rt_wf (family p) (RNode cq 1 None (if b then RNull else t) (if b then t else RNull))"
        using c(3,4) wf side by auto
      moreover have "rt_inserted (pfx_bits p) t (RNode cq 1 None (if b then RNull else t) (if b then t else RNull))"
        using fresh e by (auto simp: rt_inserted_def split: option.splits)
      ultimately show thesis using c(5) x by (intro that [OF g]) auto
    next
      case False
      then have ne: "pfx_bits cq \<noteq> pfx_bits p" and lt: "plen cq < plen p"
        using c(2) by (auto dest: arg_cong [of _ _ length])
      let ?q = "RNode q 1 None RNull RNull"
      have g: "get_new t p = Some (RNode cq 0 None (if b then ?q else t) (if b then t else ?q))"
        using shape False by (simp add: b_def)
      have "Sublist.prefix (pfx_bits cq @ [\<not> b]) (pfx_bits p)"
        using c(5,6) lt by (auto simp: snoc_prefix_iff b_def)
      then have "rt_wf (family p) (RNode cq 0 None (if b then ?q else t) (if b then t else ?q))"
        using c(3,4) wf side q by auto
      moreover have "rt_inserted (pfx_bits p) t (RNode cq 0 None (if b then ?q else t) (if b then t else ?q))"
        using fresh ne q(4) by (auto simp: rt_inserted_def split: option.splits)
      ultimately show thesis using c(5) x tn by (intro that [OF g]) auto
    qed
  qed
qed

lemma rt_inserted_notNull: "rt_inserted kp t t' \<Longrightarrow> t' \<noteq> RNull"
  by (auto simp: rt_inserted_def)

lemma replace_child:
  fixes n lk i l r p c'
  defines "t \<equiv> RNode n lk i l r" and "b \<equiv> pfx_bits p ! plen n"
  defines "t' \<equiv> RNode n lk i (if b then l else c') (if b then c' else r)"
  assumes wf: "rt_wf (family p) t" and lt: "plen n < plen p" and pre: "Sublist.prefix (pfx_bits n) (pfx_bits p)"
    and c': "rt_wf (family p) c'" "rt_inserted (pfx_bits p) (if b then r else l) c'"
      "\<forall>k \<in> set (rn_keys c'). Sublist.prefix (pfx_bits n @ [b]) k"
  shows "rt_wf (family p) t'" "rt_inserted (pfx_bits p) t t'" "rt_ok t \<Longrightarrow> rt_ok c' \<Longrightarrow> rt_ok t'"
proof -
  note kids = rt_wf_child_longer [OF wf [unfolded t_def]]
  show "rt_wf (family p) t'" using wf c' by (auto simp: t_def t'_def)
  show "rt_ok t \<Longrightarrow> rt_ok c' \<Longrightarrow> rt_ok t'"
    using rt_inserted_notNull [OF c'(2)] by (auto simp: t_def t'_def)
  have ne: "pfx_bits n \<noteq> pfx_bits p" using lt by (metis length_pfx_bits less_irrefl)
  have other: "rt_map (if b then l else r) (pfx_bits p) = None"
    using kids [of "pfx_bits p"] unfolding rt_map_None_iff by (auto simp: b_def)
  have c'k: "rt_map c' k \<noteq> None \<Longrightarrow> plen n < length k \<and> k ! plen n = b" for k
    using c'(3) unfolding rt_map_None_iff by (auto simp: snoc_prefix_iff)
  have lk: "rt_map l k \<noteq> None \<Longrightarrow> \<not> k ! plen n" and rk: "rt_map r k \<noteq> None \<Longrightarrow> k ! plen n" for k
    using kids unfolding rt_map_None_iff by blast+
  show "rt_inserted (pfx_bits p) t t'"
  proof (cases b)
    case True
    then show ?thesis using c'(2) ne other
      by (auto simp: rt_inserted_def t_def t'_def split: option.splits)
  next
    case False
    have swap: "(case rt_map c' k of None \<Rightarrow> rt_map r k | Some x \<Rightarrow> Some x) =
        (case rt_map r k of None \<Rightarrow> rt_map c' k | Some x \<Rightarrow> Some x)" for k
      using c'k [of k] rk [of k] False by (auto split: option.splits)
    have swap': "(case rt_map l k of None \<Rightarrow> rt_map r k | Some x \<Rightarrow> Some x) =
        (case rt_map r k of None \<Rightarrow> rt_map l k | Some x \<Rightarrow> Some x)" for k
      using lk [of k] rk [of k] by (auto split: option.splits)
    show ?thesis using c'(2) ne other False
      by (auto simp: rt_inserted_def t_def t'_def swap swap' split: option.splits)
  qed
qed

lemma keys_below_root:
  assumes "rt_wf fam t" "rt_wf fam t'" "rn_key t' = rn_key t" "\<forall>k \<in> set (rn_keys t). Sublist.prefix x k"
  shows "\<forall>k \<in> set (rn_keys t'). Sublist.prefix x k"
proof (cases t')
  case (RNode p' lk' i' l' r')
  with assms(3) obtain p lk i l r where t: "t = RNode p lk i l r" "pfx_bits p = pfx_bits p'"
    by (cases t) auto
  then have x: "Sublist.prefix x (pfx_bits p')" using assms(4) by force
  show ?thesis
  proof
    fix k assume "k \<in> set (rn_keys t')"
    then have "Sublist.prefix (pfx_bits p') k" using rt_wf_keys assms(2) RNode by blast
    then show "Sublist.prefix x k" using x by (rule prefix_order.trans [rotated])
  qed
qed simp

lemma get_loop_spec:
  "\<lbrakk>rt_wf (family p) t; rt_key p; walks t p\<rbrakk> \<Longrightarrow>
   \<exists>t'. get_loop t p = Some t' \<and> rt_wf (family p) t' \<and> rt_inserted (pfx_bits p) t t' \<and>
     rn_key t' = rn_key t \<and>
     (rt_ok t \<longrightarrow> (\<forall>i. rt_map t (pfx_bits p) \<noteq> Some (- 1, i)) \<longrightarrow> rt_ok t')"
proof (induction t)
  case (RNode n lk i l r)
  note wf = RNode.prems(1)
  have pre: "Sublist.prefix (pfx_bits n) (pfx_bits p)" using RNode.prems(3) by (simp add: walk_guard)
  show ?case
  proof (cases "plen n = plen p")
    case True
    then have e: "prefixlen n = prefixlen p" "pfx_bits n = pfx_bits p"
      using pre pm.matches_same_length [of n p] by (simp_all add: plen_eq_iff prefix_match_iff)
    have "lk \<noteq> - 1 \<Longrightarrow> lk + 1 \<noteq> 0" by (metis add_eq_0_iff2)
    then show ?thesis using wf e by (auto simp: rt_inserted_def)
  next
    case False
    then have lt: "plen n < plen p" using prefix_length_le [OF pre] by simp
    define b c where "b = pfx_bits p ! plen n" and "c = (if b then r else l)"
    define t' where "t' = (\<lambda>c'. RNode n lk i (if b then l else c') (if b then c' else r))"
    have cb: "check_bit (u_prefix p) (prefixlen n) = b" using lt by (simp add: check_bit_pfx b_def)
    have cw: "rt_wf (family p) c" and ck: "\<forall>k \<in> set (rn_keys c). Sublist.prefix (pfx_bits n @ [b]) k"
      using wf by (auto simp: c_def)
    have pb: "Sublist.prefix (pfx_bits n @ [b]) (pfx_bits p)" using pre lt by (simp add: snoc_prefix_iff b_def)
    have mc: "rt_map (RNode n lk i l r) (pfx_bits p) = rt_map c (pfx_bits p)"
      using rn_find_dir [OF wf, of "pfx_bits p"] lt by (simp add: rt_map_def c_def b_def del: rn_find.simps)
    obtain c' where c': "get_loop (RNode n lk i l r) p = Some (t' c')" "rt_wf (family p) c'"
      "rt_inserted (pfx_bits p) c c'" "\<forall>k \<in> set (rn_keys c'). Sublist.prefix (pfx_bits n @ [b]) k"
      "rt_ok c \<Longrightarrow> \<forall>i. rt_map c (pfx_bits p) \<noteq> Some (- 1, i) \<Longrightarrow> rt_ok c'"
    proof (cases "walks c p")
      case True
      then obtain c' where c': "get_loop c p = Some c'" "rt_wf (family p) c'"
        "rt_inserted (pfx_bits p) c c'" "rn_key c' = rn_key c"
        "rt_ok c \<longrightarrow> (\<forall>i. rt_map c (pfx_bits p) \<noteq> Some (- 1, i)) \<longrightarrow> rt_ok c'"
        using RNode.IH RNode.prems(2) cw by (auto simp: c_def split: if_splits)
      moreover have "\<forall>k \<in> set (rn_keys c'). Sublist.prefix (pfx_bits n @ [b]) k"
        by (rule keys_below_root [OF cw c'(2,4) ck])
      moreover have "get_loop (RNode n lk i l r) p = Some (t' c')"
        using True c'(1) cb False by (auto simp: c_def t'_def plen_eq_iff split: if_splits)
      ultimately show thesis using that by blast
    next
      case nw: False
      obtain q lk' i' l' r' where g: "get_new c p = Some (RNode q lk' i' l' r')"
        "rt_wf (family p) (RNode q lk' i' l' r')" "rt_inserted (pfx_bits p) c (RNode q lk' i' l' r')"
        "Sublist.prefix (pfx_bits q) (pfx_bits p)"
        "\<forall>x. Sublist.prefix x (pfx_bits p) \<and> (\<forall>k \<in> set (rn_keys c). Sublist.prefix x k)
          \<longrightarrow> Sublist.prefix x (pfx_bits q)" "rt_ok c \<longrightarrow> rt_ok (RNode q lk' i' l' r')"
        by (rule get_new_spec [OF cw RNode.prems(2) nw])
      let ?c = "RNode q lk' i' l' r'"
      have qb: "Sublist.prefix (pfx_bits n @ [b]) (pfx_bits q)" using g(5) pb ck by blast
      then have "set_link (RNode n lk i l r) ?c = t' ?c"
        by (auto simp: set_link_simp snoc_prefix_iff t'_def)
      then have "get_loop (RNode n lk i l r) p = Some (t' ?c)"
        using nw g(1) cb False by (auto simp: c_def plen_eq_iff split: if_splits)
      moreover have "\<forall>k \<in> set (rn_keys ?c). Sublist.prefix (pfx_bits n @ [b]) k"
        using rt_wf_keys [OF g(2)] qb prefix_order.trans by blast
      ultimately show thesis using that g(2,3,6) by blast
    qed
    note rc = replace_child [OF wf lt pre c'(2), folded b_def, folded c_def, folded t'_def, OF c'(3,4)]
    have "rt_ok (RNode n lk i l r) \<Longrightarrow> rt_ok c" by (auto simp: c_def)
    then have "rt_ok (RNode n lk i l r) \<longrightarrow> (\<forall>x. rt_map (RNode n lk i l r) (pfx_bits p) \<noteq> Some (- 1, x))
        \<longrightarrow> rt_ok (t' c')"
      using c'(5) rc(3) unfolding mc t'_def by blast
    moreover have "rn_key (t' c') = rn_key (RNode n lk i l r)" by (simp add: t'_def)
    moreover have "rt_wf (family p) (t' c')" "rt_inserted (pfx_bits p) (RNode n lk i l r) (t' c')"
      unfolding t'_def by (fact rc(1), fact rc(2))
    ultimately show ?thesis using c'(1) by blast
  qed
qed simp

lemma route_node_get_spec:
  assumes "rt_wf (family p) t" "rt_key p"
  obtains t' where "route_node_get t p = Some t'" "rt_wf (family p) t'" "rt_inserted (pfx_bits p) t t'"
    "rt_ok t \<longrightarrow> (\<forall>i. rt_map t (pfx_bits p) \<noteq> Some (- 1, i)) \<longrightarrow> rt_ok t'"
proof (cases "walks t p")
  case True
  then show thesis using get_loop_spec [OF assms True] that by (auto simp: route_node_get_def)
next
  case False
  obtain q lk i l r where "get_new t p = Some (RNode q lk i l r)"
    "rt_wf (family p) (RNode q lk i l r)" "rt_inserted (pfx_bits p) t (RNode q lk i l r)"
    "Sublist.prefix (pfx_bits q) (pfx_bits p)"
    "\<forall>x. Sublist.prefix x (pfx_bits p) \<and> (\<forall>k \<in> set (rn_keys t). Sublist.prefix x k)
        \<longrightarrow> Sublist.prefix x (pfx_bits q)"
    "rt_ok t \<longrightarrow> rt_ok (RNode q lk i l r)"
    by (rule get_new_spec [OF assms False])
  then show thesis using False by (intro that [of "RNode q lk i l r"]) (simp_all add: route_node_get_def)
qed

section \<open>Locks and deletion\<close>

lemma rn_keys_modify [simp]: "rn_keys (rn_modify k f t) = rn_keys t"
  by (induction t) auto

lemma rn_modify_RNull_iff [simp]: "rn_modify k f t = RNull \<longleftrightarrow> t = RNull"
  by (cases t) auto

lemma rt_wf_modify [simp]: "rt_wf fam (rn_modify k f t) = rt_wf fam t"
  by (induction t) auto

lemma rn_modify_id: "k \<notin> set (rn_keys t) \<Longrightarrow> rn_modify k f t = t"
  by (induction t) auto

lemma rt_map_modify:
  "rt_map (rn_modify k f t) x = (if x = k then map_option (\<lambda>(lk, i). f lk i) (rt_map t k) else rt_map t x)"
  by (induction t) (auto split: option.splits)

lemma rt_map_find:
  "rt_map t k = Some (lk, i) \<longleftrightarrow> (\<exists>n. rn_find k t = Some n \<and> rn_lock n = lk \<and> rn_info n = i)"
  by (auto simp: rt_map_def)

text \<open>The invariant of \<open>rt_ok\<close>, but for the node named \<open>k\<close>, which is unlocked and empty.\<close>

fun rt_ok_but :: "bool list \<Rightarrow> 'a route_node \<Rightarrow> bool" where
  "rt_ok_but k RNull = True"
| "rt_ok_but k (RNode p lk i l r) =
     ((if pfx_bits p = k then lk = 0 \<and> i = None
       else (i \<noteq> None \<longrightarrow> lk \<noteq> 0) \<and> (lk = 0 \<longrightarrow> l \<noteq> RNull \<and> r \<noteq> RNull))
      \<and> rt_ok_but k l \<and> rt_ok_but k r)"

lemma rt_ok_but_other: "k \<notin> set (rn_keys t) \<Longrightarrow> rt_ok_but k t = rt_ok t"
  by (induction t) auto

lemma rt_ok_modify:
  "\<lbrakk>rt_wf fam t; rt_ok t; \<And>lk i. rt_map t k = Some (lk, i) \<Longrightarrow> fst (f lk i) \<noteq> 0\<rbrakk> \<Longrightarrow> rt_ok (rn_modify k f t)"
proof (induction t)
  case (RNode p lk i l r)
  note dj = rt_wf_disjoint [OF RNode.prems(1)]
  show ?case
  proof (cases "pfx_bits p = k")
    case True
    then show ?thesis using RNode.prems by auto
  next
    case False
    have "rt_ok (rn_modify k f l)" using False RNode by (intro RNode.IH(1)) auto
    moreover have "rt_ok (rn_modify k f r)"
    proof (cases "k \<in> set (rn_keys r)")
      case True
      then have "rt_map l k = None" using dj(3) by (auto simp: rt_map_None_iff)
      then show ?thesis using False RNode by (intro RNode.IH(2)) auto
    qed (use RNode.prems in \<open>simp add: rn_modify_id\<close>)
    ultimately show ?thesis using False RNode.prems(2) by auto
  qed
qed simp

lemma rt_ok_but_modify:
  "\<lbrakk>rt_wf fam t; rt_ok t; \<And>lk i. rt_map t k = Some (lk, i) \<Longrightarrow> f lk i = (0, None)\<rbrakk> \<Longrightarrow> rt_ok_but k (rn_modify k f t)"
proof (induction t)
  case (RNode p lk i l r)
  note dj = rt_wf_disjoint [OF RNode.prems(1)]
  show ?case
  proof (cases "pfx_bits p = k")
    case True
    then show ?thesis using RNode.prems dj by (auto simp: rt_ok_but_other)
  next
    case False
    have "rt_ok_but k (rn_modify k f l)" using False RNode by (intro RNode.IH(1)) auto
    moreover have "rt_ok_but k (rn_modify k f r)"
    proof (cases "k \<in> set (rn_keys r)")
      case True
      then have "rt_map l k = None" using dj(3) by (auto simp: rt_map_None_iff)
      then show ?thesis using False RNode by (intro RNode.IH(2)) auto
    qed (use RNode.prems in \<open>simp add: rn_modify_id rt_ok_but_other\<close>)
    ultimately show ?thesis using False RNode.prems(2) by auto
  qed
qed simp

text \<open>What a deletion keeps: every locked node as it is, and no node it did not have.\<close>

definition rt_shrunk :: "'a route_table \<Rightarrow> 'a route_table \<Rightarrow> bool" where
  "rt_shrunk t t' \<longleftrightarrow>
     (\<forall>x. rt_map t' x = rt_map t x \<or> rt_map t' x = None \<and> (\<exists>i. rt_map t x = Some (0, i)))"

lemma rt_shrunk_refl: "rt_shrunk t t"
  by (simp add: rt_shrunk_def)

lemma rt_shrunk_trans: "rt_shrunk a b \<Longrightarrow> rt_shrunk b c \<Longrightarrow> rt_shrunk a c"
  unfolding rt_shrunk_def by (metis option.distinct(1))

lemma rt_shrunk_keys: "rt_shrunk t t' \<Longrightarrow> set (rn_keys t') \<subseteq> set (rn_keys t)"
  unfolding rt_shrunk_def by (metis rt_map_None_iff subsetI)

lemma route_node_delete_other: "k \<notin> set (rn_keys t) \<Longrightarrow> route_node_delete t k = Some (t, False)"
  by (induction t) auto

lemma rt_shrunk_children:
  assumes wf: "rt_wf fam (RNode p lk i l r)" and s: "rt_shrunk l l'" "rt_shrunk r r'"
    and w: "rt_wf fam l'" "rt_wf fam r'"
  shows "rt_wf fam (RNode p lk i l' r')" "rt_shrunk (RNode p lk i l r) (RNode p lk i l' r')"
proof -
  note k = rt_shrunk_keys [OF s(1)] rt_shrunk_keys [OF s(2)] and dj = rt_wf_disjoint [OF wf]
  show "rt_wf fam (RNode p lk i l' r')" using wf w k by auto
  show "rt_shrunk (RNode p lk i l r) (RNode p lk i l' r')"
    unfolding rt_shrunk_def
  proof
    fix x
    have l: "rt_map l' x = rt_map l x \<or> rt_map l' x = None \<and> (\<exists>i. rt_map l x = Some (0, i))"
      and r: "rt_map r' x = rt_map r x \<or> rt_map r' x = None \<and> (\<exists>i. rt_map r x = Some (0, i))"
      using s by (simp_all add: rt_shrunk_def)
    have "rt_map l x = None \<or> rt_map r x = None"
      using dj(3) unfolding rt_map_None_iff by blast
    then show "rt_map (RNode p lk i l' r') x = rt_map (RNode p lk i l r) x \<or>
        rt_map (RNode p lk i l' r') x = None \<and> (\<exists>ia. rt_map (RNode p lk i l r) x = Some (0, ia))"
      using l r by (cases "pfx_bits p = x") (auto split: option.splits)
  qed
qed

lemma delete_here_spec:
  assumes wf: "rt_wf fam (RNode p 0 None l r)" and ok: "rt_ok l" "rt_ok r"
  shows "\<exists>t' f. delete_here p 0 None l r = Some (t', f) \<and> rt_wf fam t' \<and> rt_ok t' \<and>
    rt_shrunk (RNode p 0 None l r) t' \<and> (\<not> f \<longrightarrow> t' \<noteq> RNull)"
proof (cases "l \<noteq> RNull \<and> r \<noteq> RNull")
  case True
  then show ?thesis using wf ok
    by (intro exI [of _ "RNode p 0 None l r"] exI [of _ False]) (simp add: delete_here_def rt_shrunk_refl)
next
  case False
  have "rt_map l (pfx_bits p) = None" "rt_map r (pfx_bits p) = None"
    using rt_wf_disjoint [OF wf] unfolding rt_map_None_iff by auto
  then show ?thesis using wf ok False
    by (intro exI [of _ "if l \<noteq> RNull then l else r"] exI [of _ True])
      (auto simp: delete_here_def rt_shrunk_def split: option.splits)
qed

lemma route_node_delete_spec:
  "\<lbrakk>rt_wf fam t; rt_ok_but k t\<rbrakk> \<Longrightarrow>
   \<exists>t' f. route_node_delete t k = Some (t', f) \<and> rt_wf fam t' \<and> rt_ok t' \<and> rt_shrunk t t' \<and>
     (\<not> f \<longrightarrow> t \<noteq> RNull \<longrightarrow> t' \<noteq> RNull)"
proof (induction t)
  case (RNode p lk i l r)
  note wf = RNode.prems(1) and dj = rt_wf_disjoint [OF RNode.prems(1)]
  show ?case
  proof (cases "pfx_bits p = k")
    case True
    then have "rt_ok l" "rt_ok r" "lk = 0" "i = None"
      using RNode.prems dj by (auto simp: rt_ok_but_other)
    with delete_here_spec [of fam p l r] wf True show ?thesis by fastforce
  next
    case False
    obtain l' fl where l': "route_node_delete l k = Some (l', fl)" "rt_wf fam l'" "rt_ok l'"
      "rt_shrunk l l'" "\<not> fl \<longrightarrow> l \<noteq> RNull \<longrightarrow> l' \<noteq> RNull" using RNode.IH(1) RNode.prems by auto
    obtain r' fr where r': "route_node_delete r k = Some (r', fr)" "rt_wf fam r'" "rt_ok r'"
      "rt_shrunk r r'" "\<not> fr \<longrightarrow> r \<noteq> RNull \<longrightarrow> r' \<noteq> RNull" using RNode.IH(2) RNode.prems by auto
    note ch = rt_shrunk_children [OF wf l'(4) r'(4) l'(2) r'(2)]
    show ?thesis
    proof (cases "(fl \<or> fr) \<and> lk = 0")
      case up: True
      then have "i = None" using False RNode.prems(2) by auto
      with up ch delete_here_spec [of fam p l' r'] l'(3) r'(3) obtain t' f where
        t': "delete_here p 0 None l' r' = Some (t', f)" "rt_wf fam t'" "rt_ok t'"
          "rt_shrunk (RNode p 0 None l' r') t'" "\<not> f \<longrightarrow> t' \<noteq> RNull" by auto
      moreover have "rt_shrunk (RNode p lk i l r) t'"
        using rt_shrunk_trans [OF ch(2)] t'(4) up \<open>i = None\<close> by simp
      ultimately show ?thesis using False l'(1) r'(1) up \<open>i = None\<close> by auto
    next
      case stay: False
      then have "rt_ok (RNode p lk i l' r')" using False RNode.prems(2) l' r' by auto
      then show ?thesis using False l'(1) r'(1) stay ch by auto
    qed
  qed
next
  case RNull
  then show ?case by (intro exI [of _ RNull] exI [of _ False]) (simp add: rt_shrunk_refl)
qed

lemma route_unlock_node_spec:
  assumes wf: "rt_wf fam t" and ok: "rt_ok t" and m: "rt_map t k = Some (lk, i)" "lk \<noteq> 0" "lk = 1 \<longrightarrow> i = None"
  obtains t' where "route_unlock_node t k = Some t'" "rt_wf fam t'" "rt_ok t'"
    "rt_shrunk (rn_modify k (\<lambda>lk i. (lk - 1, i)) t) t'" "lk \<noteq> 1 \<longrightarrow> t' = rn_modify k (\<lambda>lk i. (lk - 1, i)) t"
proof -
  let ?t1 = "rn_modify k (\<lambda>lk i. (lk - 1, i)) t"
  have "rt_map ?t1 k = Some (lk - 1, i)" using m by (simp add: rt_map_modify)
  then obtain n where n: "rn_find k ?t1 = Some n" "rn_lock n = lk - 1" by (auto simp: rt_map_find)
  show thesis
  proof (cases "lk = 1")
    case True
    then have "rt_ok_but k ?t1" using m by (intro rt_ok_but_modify [OF wf ok]) auto
    then obtain t' f where "route_node_delete ?t1 k = Some (t', f)" "rt_wf fam t'" "rt_ok t'" "rt_shrunk ?t1 t'"
      using route_node_delete_spec [of fam ?t1 k] wf by auto
    then show thesis using n True by (intro that [of t']) (simp_all add: route_unlock_node_def)
  next
    case False
    then have "rt_ok ?t1" using m by (intro rt_ok_modify [OF wf ok]) auto
    then show thesis using n False wf
      by (intro that [of ?t1]) (simp_all add: route_unlock_node_def rt_shrunk_refl)
  qed
qed

section \<open>Traversal\<close>

lemma rn_key_hd: "t \<noteq> RNull \<Longrightarrow> rn_key t = Some (hd (rn_keys t)) \<and> rn_keys t \<noteq> []"
  by (cases t) auto

lemma next_walk_spec:
  "\<lbrakk>distinct (rn_keys t); rn_keys t = xs @ k # ys\<rbrakk> \<Longrightarrow>
     next_walk t k up = (case ys of [] \<Rightarrow> up | y # _ \<Rightarrow> Some y)"
proof (induction t arbitrary: xs ys up)
  case (RNode p lk i l r)
  show ?case
  proof (cases "pfx_bits p = k")
    case True
    have "xs = []"
    proof (rule ccontr)
      assume "xs \<noteq> []"
      then have "rn_keys l @ rn_keys r = tl xs @ k # ys" using RNode.prems(2) by (cases xs) auto
      then have "k \<in> set (rn_keys l @ rn_keys r)" by (simp only: set_append list.set) simp
      then show False using True RNode.prems(1) by simp
    qed
    then have "ys = rn_keys l @ rn_keys r" using RNode.prems by simp
    then show ?thesis using True rn_key_hd [of l] rn_key_hd [of r]
      by (auto simp: neq_Nil_conv split: list.splits)
  next
    case False
    then obtain xs' where xs: "xs = pfx_bits p # xs'" using RNode.prems by (cases xs) auto
    then have e: "rn_keys l @ rn_keys r = xs' @ k # ys" using RNode.prems by simp
    show ?thesis
    proof (cases "k \<in> set (rn_keys l)")
      case True
      then obtain zs where z: "rn_keys l = xs' @ k # zs" "ys = zs @ rn_keys r"
      proof -
        from True obtain us zs where us: "rn_keys l = us @ k # zs" by (meson split_list)
        have d: "distinct (xs' @ k # ys)" using RNode.prems xs by (metis distinct.simps(2) append_Cons)
        have s: "us @ k # zs @ rn_keys r = xs' @ k # ys" using e us by simp
        then have "k \<notin> set us" "k \<notin> set (zs @ rn_keys r)" "k \<notin> set xs'" "k \<notin> set ys"
          using d by (metis distinct_append distinct.simps(2) disjoint_insert(1) list.simps(15))+
        then have "us = xs'" "zs @ rn_keys r = ys" using s by (simp_all add: append_Cons_eq_iff)
        then show thesis using that us by blast
      qed
      have "distinct (rn_keys l)" using RNode.prems by simp
      then have "next_walk l k (if r \<noteq> RNull then rn_key r else up)
          = (case zs of [] \<Rightarrow> (if r \<noteq> RNull then rn_key r else up) | y # _ \<Rightarrow> Some y)"
        using RNode.IH(1) z(1) by blast
      moreover have "rn_find k l \<noteq> None" using True rn_find_None_iff by blast
      ultimately show ?thesis using False z(2) rn_key_hd [of r]
        by (auto simp: neq_Nil_conv split: list.splits)
    next
      case nl: False
      then obtain us where us: "rn_keys r = us @ k # ys" "xs' = rn_keys l @ us"
        using e by (auto simp: append_eq_append_conv2 append_eq_Cons_conv)
      have "rn_find k l = None" using nl rn_find_None_iff by blast
      then show ?thesis using False RNode.IH(2) [OF _ us(1)] RNode.prems by simp
    qed
  qed
qed simp

lemma route_lock_unlock:
  assumes wf: "rt_wf fam t" and ok: "rt_ok t" and k: "rt_map t k = Some (lk, i)"
  shows "route_unlock_node (route_lock_node t k) k = Some t"
proof -
  let ?t1 = "rn_modify k (\<lambda>lk i. (lk - 1, i)) (route_lock_node t k)"
  have id: "?t1 = t"
    by (induction t) (simp_all add: route_lock_node_def)
  obtain n where n: "rn_find k t = Some n" "rn_lock n = lk" using k by (auto simp: rt_map_find)
  have "route_node_delete t k = Some (t, False)" if "lk = 0"
    using wf ok n that
  proof (induction t)
    case (RNode p lk' i' l r)
    show ?case
    proof (cases "pfx_bits p = k")
      case True
      then show ?thesis using RNode.prems by (auto simp: delete_here_def)
    next
      case False
      then show ?thesis
        using RNode rn_find_None_iff [of k l] rn_find_None_iff [of k r] rt_wf_disjoint(3) [OF RNode.prems(1)]
          route_node_delete_other [of k l] route_node_delete_other [of k r]
        by (auto split: option.splits)
    qed
  qed simp
  then show ?thesis using n id by (simp add: route_unlock_node_def)
qed

lemma rt_map_lock: "rt_map (route_lock_node t k) x =
    (if x = k then map_option (\<lambda>(lk, i). (lk + 1, i)) (rt_map t k) else rt_map t x)"
  by (simp add: route_lock_node_def rt_map_modify)

lemma rn_keys_lock [simp]: "rn_keys (route_lock_node t k) = rn_keys t"
  by (simp add: route_lock_node_def)

lemma rt_wf_lock [simp]: "rt_wf fam (route_lock_node t k) = rt_wf fam t"
  by (simp add: route_lock_node_def)

lemma rt_ok_lock:
  assumes "rt_wf fam t" "rt_ok t" "\<forall>i. rt_map t k \<noteq> Some (- 1, i)"
  shows "rt_ok (route_lock_node t k)"
  unfolding route_lock_node_def
proof (rule rt_ok_modify [OF assms(1,2)])
  fix lk i assume "rt_map t k = Some (lk, i)"
  then have "lk \<noteq> - 1" using assms(3) by auto
  then show "fst (lk + 1, i) \<noteq> 0" by (metis add_eq_0_iff2 fst_conv)
qed

lemma route_lock_commute:
  "route_lock_node (route_lock_node t a) b = route_lock_node (route_lock_node t b) a"
  unfolding route_lock_node_def by (induction t) auto

lemma route_next_step:
  assumes wf: "rt_wf fam t" and ok: "rt_ok t" and full: "\<forall>x i. rt_map t x \<noteq> Some (- 1, i)"
    and keys: "rn_keys t = xs @ k # ys"
  shows "route_next (route_lock_node t k) k =
    Some (case ys of [] \<Rightarrow> (t, None) | y # _ \<Rightarrow> (route_lock_node t y, Some y))"
proof -
  have nw: "next_walk (route_lock_node t k) k None = (case ys of [] \<Rightarrow> None | y # _ \<Rightarrow> Some y)"
    using next_walk_spec [of "route_lock_node t k" xs k ys None] rt_wf_distinct [OF wf] keys by simp
  obtain lk i where k: "rt_map t k = Some (lk, i)"
    using keys rt_map_None_iff [of t k] by (cases "rt_map t k") auto
  show ?thesis
  proof (cases ys)
    case Nil
    then show ?thesis using nw route_lock_unlock [OF wf ok k] by (simp add: route_next_def)
  next
    case (Cons y zs)
    then have "y \<noteq> k" using rt_wf_distinct [OF wf] keys by auto
    then have "rt_map (route_lock_node t y) k = Some (lk, i)" using k by (simp add: rt_map_lock)
    moreover have "rt_ok (route_lock_node t y)" using rt_ok_lock [OF wf ok] full by blast
    ultimately have "route_unlock_node (route_lock_node (route_lock_node t y) k) k = Some (route_lock_node t y)"
      using wf by (intro route_lock_unlock) auto
    then show ?thesis using nw Cons by (simp add: route_next_def route_lock_commute)
  qed
qed

lemma find_locked:
  assumes "k \<in> set (rn_keys t)"
  obtains n lk i where "rn_find k (route_lock_node t k) = Some n" "rn_lock n = lk + 1" "rn_info n = i"
    "pfx_bits (rn_p n) = k" "rt_map t k = Some (lk, i)"
proof -
  obtain lk i where k: "rt_map t k = Some (lk, i)"
    using assms rt_map_None_iff [of t k] by (cases "rt_map t k") auto
  then have "rt_map (route_lock_node t k) k = Some (lk + 1, i)" by (simp add: rt_map_lock)
  then obtain n where "rn_find k (route_lock_node t k) = Some n" "rn_lock n = lk + 1" "rn_info n = i"
    unfolding rt_map_find by blast
  then show thesis using k that rn_find_key by blast
qed

lemma dump_loop_spec:
  assumes wf: "rt_wf fam t" and ok: "rt_ok t" and full: "\<forall>x i. rt_map t x \<noteq> Some (- 1, i)"
  shows "\<lbrakk>rn_keys t = xs @ k # ys; length ys < fuel\<rbrakk> \<Longrightarrow>
    \<exists>out. dump_loop fuel (route_lock_node t k) (Some k) = Some (out, t) \<and>
      map (\<lambda>(lk, i, p). (pfx_bits p, lk - 1, i)) out =
        map (\<lambda>x. (x, the (rt_map t x))) (k # ys)"
proof (induction ys arbitrary: xs k fuel)
  case Nil
  then obtain f where f: "fuel = Suc f" by (cases fuel) auto
  have "k \<in> set (rn_keys t)" using Nil.prems by simp
  then obtain n lk i where "rn_find k (route_lock_node t k) = Some n" "rn_lock n = lk + 1"
    "rn_info n = i" "pfx_bits (rn_p n) = k" "rt_map t k = Some (lk, i)" by (rule find_locked)
  then show ?case using f route_next_step [OF wf ok full Nil.prems(1)] by simp
next
  case (Cons y ys)
  then obtain f where f: "fuel = Suc f" "length ys < f" by (cases fuel) auto
  have "k \<in> set (rn_keys t)" using Cons.prems by simp
  then obtain n lk i where n: "rn_find k (route_lock_node t k) = Some n" "rn_lock n = lk + 1"
    "rn_info n = i" "pfx_bits (rn_p n) = k" "rt_map t k = Some (lk, i)" by (rule find_locked)
  obtain out where "dump_loop f (route_lock_node t y) (Some y) = Some (out, t)"
    "map (\<lambda>(lk, i, p). (pfx_bits p, lk - 1, i)) out = map (\<lambda>x. (x, the (rt_map t x))) (y # ys)"
    using Cons.IH [of "xs @ [k]" y f] Cons.prems f by auto
  then show ?case using f n route_next_step [OF wf ok full Cons.prems(1)] by simp
qed


lemma rn_find_keys: "rn_find k t = Some s \<Longrightarrow> set (rn_keys s) \<subseteq> set (rn_keys t)"
  by (induction t) (auto split: if_splits option.splits)

lemma next_until_walk_free:
  "limit \<notin> set (rn_keys t) \<Longrightarrow> next_until_walk t k limit up = next_walk t k up"
  by (induction t arbitrary: up) (auto simp: Let_def)

lemma next_until_walk_inside:
  "\<lbrakk>rt_wf fam t; rn_find limit t = Some s; k \<in> set (rn_keys s)\<rbrakk> \<Longrightarrow>
     next_until_walk t k limit up = next_walk s k None"
proof (induction t arbitrary: up)
  case (RNode p lk i l r)
  note dj = rt_wf_disjoint [OF RNode.prems(1)]
  show ?case
  proof (cases "pfx_bits p = limit")
    case True
    then show ?thesis using RNode.prems(2) dj by (auto simp: Let_def next_until_walk_free)
  next
    case False
    show ?thesis
    proof (cases "rn_find limit l")
      case None
      then have r: "rn_find limit r = Some s" using RNode.prems(2) False by simp
      then have "k \<in> set (rn_keys r)" using rn_find_keys RNode.prems(3) by blast
      then have "pfx_bits p \<noteq> k" "rn_find k l = None" using dj rn_find_None_iff [of k l] by auto
      then show ?thesis using RNode.IH(2) [OF _ r] RNode.prems False by (simp add: Let_def)
    next
      case (Some s')
      then have l: "rn_find limit l = Some s" using RNode.prems(2) False by simp
      then have kl: "k \<in> set (rn_keys l)" using rn_find_keys RNode.prems(3) by blast
      then have "pfx_bits p \<noteq> k" "rn_find k l \<noteq> None" using dj rn_find_None_iff [of k l] by auto
      then show ?thesis using RNode.IH(1) [OF _ l] RNode.prems False by (simp add: Let_def)
    qed
  qed
qed simp

section \<open>Properties\<close>

text \<open>
  C8: \<open>route_node_get\<close> always returns a node for a well-formed prefix of the table's family.  The
  tree stays a well-formed trie, the node of the prefix gains one lock (a new node has one lock
  and no info), every other node is unchanged, and the only other node it may add is a
  branching point without lock and info; the lock discipline is kept unless the counter is full.
\<close>
theorem route_node_get_correct:
  assumes "rt_wf (family p) t" "rt_key p"
  shows "\<exists>t'. route_node_get t p = Some t' \<and> rt_wf (family p) t' \<and>
    rt_map t' (pfx_bits p) =
      Some (case rt_map t (pfx_bits p) of Some (lk, i) \<Rightarrow> (lk + 1, i) | None \<Rightarrow> (1, None)) \<and>
    (\<forall>k. k \<noteq> pfx_bits p \<longrightarrow> rt_map t' k = rt_map t k \<or>
       rt_map t k = None \<and> rt_map t' k = Some (0, None)) \<and>
    (rt_ok t \<longrightarrow> (\<forall>i. rt_map t (pfx_bits p) \<noteq> Some (- 1, i)) \<longrightarrow> rt_ok t')"
proof -
  obtain t' where "route_node_get t p = Some t'" "rt_wf (family p) t'" "rt_inserted (pfx_bits p) t t'"
    "rt_ok t \<longrightarrow> (\<forall>i. rt_map t (pfx_bits p) \<noteq> Some (- 1, i)) \<longrightarrow> rt_ok t'"
    by (rule route_node_get_spec [OF assms])
  then show ?thesis unfolding rt_inserted_def by (intro exI [of _ t']) metis
qed

definition net10_1 :: prefix where
  "net10_1 = \<lparr>family = AF_INET, prefixlen = 16, u_prefix = [10, 1, 0, 0] @ replicate 12 0\<rparr>"

lemma net10_1_wf: "rt_key net10_1"
  by (simp add: net10_1_def rt_key_def prefix_wf_def af_defs)

definition rt10 :: "nat route_table" where
  "rt10 = RNode net10 1 (Some 7) RNull RNull"

lemma rt10_wf: "rt_wf AF_INET rt10" "rt_ok rt10"
  by (simp_all add: rt10_def rt_key_prefix [OF net10_wf]) (simp add: net10_def)

theorem route_node_get_correct_witness:
  "\<exists>t'. route_node_get rt10 net10_1 = Some t' \<and> rt_map t' (pfx_bits net10_1) = Some (1, None) \<and>
     rt_map t' (pfx_bits net10) = Some (1, Some 7)"
proof -
  have f: "family net10_1 = AF_INET" by (simp add: net10_1_def)
  have m: "rt_map rt10 (pfx_bits net10_1) = None" "rt_map rt10 (pfx_bits net10) = Some (1, Some 7)"
    "pfx_bits net10 \<noteq> pfx_bits net10_1"
    by code_simp+
  show ?thesis
    using route_node_get_correct [of net10_1 rt10] rt10_wf(1) net10_1_wf m f by fastforce
qed

text \<open>\<open>route_node_lookup\<close> finds exactly the node of the given prefix that has info, and locks it;
  otherwise it returns nothing and changes nothing.
\<close>
theorem route_node_lookup_correct:
  assumes "rt_wf fam t"
  shows "case rt_map t (pfx_bits p) of
      Some (lk, Some v) \<Rightarrow> \<exists>n. route_node_lookup t p = (route_lock_node t (pfx_bits p), Some n) \<and>
         pfx_bits n = pfx_bits p
    | _ \<Rightarrow> route_node_lookup t p = (t, None)"
  using lookup_walk_find [OF assms, of p] rn_find_key [of "pfx_bits p" t]
  by (auto simp: route_node_lookup_def rt_map_def split: option.splits)

theorem route_node_lookup_correct_witness:
  "rt_wf AF_INET rt10 \<and>
   (\<exists>n. route_node_lookup rt10 net10 = (route_lock_node rt10 (pfx_bits net10), Some n))"
proof -
  have "rt_map rt10 (pfx_bits net10) = Some (1, Some 7)" by code_simp
  then show ?thesis using route_node_lookup_correct [OF rt10_wf(1), of net10] rt10_wf(1) by auto
qed

text \<open>
  C1: \<open>route_node_match\<close> is longest prefix match.  It returns nothing exactly when no entry with
  info contains the prefix; otherwise it returns, locked, the entry that contains it and is
  longer than every other such entry, for any content of the memory behind the address.
\<close>
theorem route_node_match_longest:
  assumes "rt_wf fam t"
  shows "(candidates t p = {} \<longrightarrow> route_node_match t p = (t, None)) \<and>
    (candidates t p \<noteq> {} \<longrightarrow>
      (\<exists>n. route_node_match t p = (route_lock_node t (pfx_bits n), Some n) \<and>
         pfx_bits n \<in> candidates t p \<and>
         (\<forall>k \<in> candidates t p. k \<noteq> pfx_bits n \<longrightarrow> length k < plen n)))"
proof -
  have uniq: "length k < plen n" if "pfx_bits n \<in> candidates t p" "k \<in> candidates t p"
    "length k \<le> plen n" "k \<noteq> pfx_bits n" for n k
  proof (rule ccontr)
    assume "\<not> length k < plen n"
    then have "length k = length (pfx_bits n)" using that(3) by simp
    moreover have "Sublist.prefix k (pfx_bits p)" "Sublist.prefix (pfx_bits n) (pfx_bits p)"
      using that by (simp_all add: candidates_def)
    ultimately have "k = pfx_bits n" by (metis prefix_same_cases prefix_order.antisym prefix_length_le
      prefix_order.eq_iff append_eq_conv_conj prefix_def)
    with that(4) show False ..
  qed
  show ?thesis
    using match_walk_best [OF assms, of p None] uniq
    by (auto simp: route_node_match_def split: option.splits)
qed

theorem route_node_match_longest_witness:
  "rt_wf AF_INET rt10 \<and> candidates rt10 net10_1 \<noteq> {} \<and>
   (\<exists>n. route_node_match rt10 net10_1 = (route_lock_node rt10 (pfx_bits n), Some n) \<and>
      pfx_bits n \<in> candidates rt10 net10_1)"
proof -
  have "rt_map rt10 (pfx_bits net10) = Some (1, Some 7)" by code_simp
  moreover have "prefix_match net10 net10_1" by code_simp
  ultimately have "candidates rt10 net10_1 \<noteq> {}"
    by (auto simp: candidates_def prefix_match_iff)
  then show ?thesis using route_node_match_longest [OF rt10_wf(1), of net10_1] rt10_wf(1) by blast
qed

text \<open>C12: \<open>route_unlock_node\<close> releases one lock of a locked node.  The caller has cleared its info before the last
  lock goes, as \<open>route_node_delete\<close> asserts.  Then no assertion fails, the trie and the lock discipline are
  kept, every other node that is still locked stays exactly as it is, and only unlocked nodes are removed; a
  node with further locks only loses one.\<close>

theorem route_unlock_node_correct:
  assumes "rt_wf fam t" "rt_ok t" "rt_map t k = Some (lk, i)" "lk \<noteq> 0" "lk = 1 \<longrightarrow> i = None"
  shows "\<exists>t'. route_unlock_node t k = Some t' \<and> rt_wf fam t' \<and> rt_ok t' \<and>
    (\<forall>x. x \<noteq> k \<longrightarrow> rt_map t' x = rt_map t x \<or> rt_map t' x = None \<and> (\<exists>j. rt_map t x = Some (0, j))) \<and>
    (if lk = 1 then rt_map t' k = None \<or> rt_map t' k = Some (0, None)
     else rt_map t' k = Some (lk - 1, i))"
proof -
  obtain t' where t': "route_unlock_node t k = Some t'" "rt_wf fam t'" "rt_ok t'"
    "rt_shrunk (rn_modify k (\<lambda>lk i. (lk - 1, i)) t) t'" "lk \<noteq> 1 \<longrightarrow> t' = rn_modify k (\<lambda>lk i. (lk - 1, i)) t"
    by (rule route_unlock_node_spec [OF assms])
  have "rt_map t' k = None \<or> rt_map t' k = Some (0, None)" if "lk = 1"
    using t'(4) [unfolded rt_shrunk_def, rule_format, of k] assms(3,5) that by (auto simp: rt_map_modify)
  moreover have "rt_map t' k = Some (lk - 1, i)" if "lk \<noteq> 1"
    using t'(5) assms(3) that by (simp add: rt_map_modify)
  moreover have "\<forall>x. x \<noteq> k \<longrightarrow> rt_map t' x = rt_map t x \<or> rt_map t' x = None \<and> (\<exists>j. rt_map t x = Some (0, j))"
    using t'(4) unfolding rt_shrunk_def rt_map_modify by metis
  ultimately show ?thesis using t'(1-3) by auto
qed

text \<open>The last lock of one of two routes: its node goes, and the branching node above it with it.\<close>

definition net10_0 :: prefix where
  "net10_0 = \<lparr>family = AF_INET, prefixlen = 9, u_prefix = [10, 0, 0, 0] @ replicate 12 0\<rparr>"

definition net10_128 :: prefix where
  "net10_128 = \<lparr>family = AF_INET, prefixlen = 9, u_prefix = [10, 128, 0, 0] @ replicate 12 0\<rparr>"

definition rt10_branch :: "nat route_table" where
  "rt10_branch = RNode net10 0 None (RNode net10_0 1 None RNull RNull) (RNode net10_128 1 (Some 7) RNull RNull)"

theorem route_unlock_node_correct_witness:
  "\<exists>t'. route_unlock_node rt10_branch (pfx_bits net10_0) = Some t' \<and> rt_wf AF_INET t' \<and> rt_ok t' \<and>
     rt_map t' (pfx_bits net10_128) = Some (1, Some 7) \<and> t' = RNode net10_128 1 (Some 7) RNull RNull"
proof -
  have "rt_key net10" by (rule rt_key_prefix [OF net10_wf])
  then have wf: "rt_wf AF_INET rt10_branch" "rt_ok rt10_branch"
    by (simp_all add: rt10_branch_def net10_0_def net10_128_def rt_key_def) (code_simp)+
  have m: "rt_map rt10_branch (pfx_bits net10_0) = Some (1, None)" "rt_map rt10_branch (pfx_bits net10_128) = Some (1, Some 7)"
    "pfx_bits net10_128 \<noteq> pfx_bits net10_0" by code_simp+
  have "route_unlock_node rt10_branch (pfx_bits net10_0) = Some (RNode net10_128 1 (Some 7) RNull RNull)" by code_simp
  then show ?thesis using route_unlock_node_correct [OF wf m(1)] m(2,3) by fastforce
qed

text \<open>
  C26: the loop over \<open>route_top\<close> and \<open>route_next\<close> (\<open>route_dump_node\<close>) ends, visits every node of the
  table exactly once in preorder, holds one extra lock on the node it is at, and leaves the
  table as it found it.
\<close>
theorem route_dump_node_visits_all:
  assumes "rt_wf fam t" "rt_ok t" "\<forall>x i. rt_map t x \<noteq> Some (- 1, i)" "length (rn_keys t) \<le> fuel"
  shows "distinct (rn_keys t) \<and> (\<exists>out. route_dump_node fuel t = Some (out, t) \<and>
    map (\<lambda>(lk, i, p). (pfx_bits p, lk - 1, i)) out = map (\<lambda>x. (x, the (rt_map t x))) (rn_keys t))"
proof (cases t)
  case RNull
  then show ?thesis by (simp add: route_dump_node_def route_top_def)
next
  case (RNode p lk i l r)
  then show ?thesis
    using dump_loop_spec [OF assms(1-3), of "[]" "pfx_bits p" "rn_keys l @ rn_keys r" fuel]
      assms(4) rt_wf_distinct [OF assms(1)]
    by (simp add: route_dump_node_def route_top_def)
qed

theorem route_dump_node_visits_all_witness:
  "\<exists>out. route_dump_node 1 rt10 = Some (out, rt10) \<and> length out = 1"
proof -
  have "\<forall>x i. rt_map rt10 x \<noteq> Some (- 1, i)" by (simp add: rt10_def)
  moreover have "length (rn_keys rt10) = 1" by (simp add: rt10_def)
  ultimately show ?thesis
    using route_dump_node_visits_all [OF rt10_wf, of 1] by (auto dest: map_eq_imp_length_eq)
qed

end
