(* ===== verification/Lib_Table_Map.thy ===== *)
theory Lib_Table_Map
  imports Lib_Table
begin

text \<open>
  The routing table as its clients use it: every entry holds exactly one lock of its own, so the
  table is a finite map from prefixes to entries.  The lemmas give the effect of the clients'
  idioms (get and enter, look up and unlock, look up and remove) on that map.
\<close>

definition rt_entries :: "'a route_table \<Rightarrow> bool list \<Rightarrow> 'a option" where
  "rt_entries t k = (case rt_map t k of Some (lk, i) \<Rightarrow> i | None \<Rightarrow> None)"

text \<open>No lock is held but the one of each entry.\<close>

definition rt_slot :: "'a option \<Rightarrow> (u32 \<times> 'a option) option \<Rightarrow> bool" where
  "rt_slot v e \<longleftrightarrow> (case v of None \<Rightarrow> e = None \<or> e = Some (0, None) | Some w \<Rightarrow> e = Some (1, Some w))"

lemma rt_slot_simps [simp]:
  "rt_slot None e \<longleftrightarrow> e = None \<or> e = Some (0, None)" "rt_slot (Some w) e \<longleftrightarrow> e = Some (1, Some w)"
  by (simp_all add: rt_slot_def)

definition rt_clean :: "'a route_table \<Rightarrow> bool" where
  "rt_clean t \<longleftrightarrow> (\<forall>k. rt_slot (rt_entries t k) (rt_map t k))"

definition rt_inv :: "u8 \<Rightarrow> 'a route_table \<Rightarrow> bool" where
  "rt_inv fam t \<longleftrightarrow> rt_wf fam t \<and> rt_ok t \<and> rt_clean t"

lemma rt_inv_init: "rt_inv fam route_table_init" "rt_entries route_table_init = Map.empty"
  by (simp_all add: rt_inv_def route_table_init_def rt_clean_def rt_entries_def fun_eq_iff rt_map_def)

lemma rt_slot_eq: "rt_slot v (rt_map t k) \<Longrightarrow> rt_entries t k = v"
  by (cases v) (auto simp: rt_entries_def)

lemma rt_cleanI: "(\<And>k. rt_slot (m k) (rt_map t k)) \<Longrightarrow> rt_clean t \<and> rt_entries t = m"
proof -
  assume slot: "\<And>k. rt_slot (m k) (rt_map t k)"
  then have "rt_entries t k = m k" for k by (rule rt_slot_eq)
  then show ?thesis using slot by (simp add: rt_clean_def fun_eq_iff)
qed

lemma rt_inv_slot: "rt_inv fam t \<Longrightarrow> rt_slot (rt_entries t k) (rt_map t k)"
  by (simp add: rt_inv_def rt_clean_def)

lemma rt_inv_lock_small: "rt_inv fam t \<Longrightarrow> rt_map t k \<noteq> Some (- 1, i)"
  using rt_inv_slot [of fam t k] by (cases "rt_entries t k") auto

text \<open>The state between \<open>route_node_get\<close> or \<open>route_node_lookup\<close> and the client's next action: the node \<open>k\<close> is
  held with \<open>n\<close> locks in all and info \<open>i\<close>, everything else is as in a table with the entries \<open>m\<close>.\<close>

definition rt_held :: "u8 \<Rightarrow> 'a route_table \<Rightarrow> bool list \<Rightarrow> u32 \<Rightarrow> 'a option \<Rightarrow> (bool list \<Rightarrow> 'a option) \<Rightarrow> bool" where
  "rt_held fam t k n i m \<longleftrightarrow> rt_wf fam t \<and> rt_ok t \<and> rt_map t k = Some (n, i)
     \<and> (\<forall>x. x \<noteq> k \<longrightarrow> rt_slot (m x) (rt_map t x))"

lemma rt_get_held:
  assumes "rt_inv (family p) t" "rt_key p"
  obtains t' where "route_node_get t p = Some t'"
    "rt_held (family p) t' (pfx_bits p) (if rt_entries t (pfx_bits p) = None then 1 else 2) (rt_entries t (pfx_bits p)) (rt_entries t)"
proof -
  obtain t' where g: "route_node_get t p = Some t'" "rt_wf (family p) t'" "rt_inserted (pfx_bits p) t t'"
    "rt_ok t \<longrightarrow> (\<forall>i. rt_map t (pfx_bits p) \<noteq> Some (- 1, i)) \<longrightarrow> rt_ok t'"
    using assms by (auto simp: rt_inv_def intro: route_node_get_spec)
  have "rt_ok t'" using g(4) assms(1) rt_inv_lock_small [OF assms(1)] by (simp add: rt_inv_def)
  moreover have "rt_map t' (pfx_bits p) = Some (if rt_entries t (pfx_bits p) = None then 1 else 2, rt_entries t (pfx_bits p))"
    using g(3) rt_inv_slot [OF assms(1), of "pfx_bits p"]
    by (cases "rt_entries t (pfx_bits p)") (auto simp: rt_inserted_def)
  moreover have "rt_slot (rt_entries t x) (rt_map t' x)" if "x \<noteq> pfx_bits p" for x
    using g(3) rt_inv_slot [OF assms(1), of x] that by (cases "rt_entries t x") (auto simp: rt_inserted_def)
  ultimately show thesis using g(1,2) by (intro that [of t']) (auto simp: rt_held_def)
qed

lemma rt_lookup_held:
  assumes "rt_inv fam t"
  shows "case rt_entries t (pfx_bits p) of
      None \<Rightarrow> route_node_lookup t p = (t, None)
    | Some v \<Rightarrow> \<exists>n. route_node_lookup t p = (route_lock_node t (pfx_bits p), Some n) \<and> pfx_bits n = pfx_bits p
        \<and> rt_held fam (route_lock_node t (pfx_bits p)) (pfx_bits p) 2 (Some v) (rt_entries t)"
proof -
  have wf: "rt_wf fam t" "rt_ok t" using assms by (simp_all add: rt_inv_def)
  note lookup = lookup_walk_find [OF wf(1), of p] rn_find_key [of "pfx_bits p" t]
  show ?thesis
  proof (cases "rt_entries t (pfx_bits p)")
    case None
    then show ?thesis using lookup rt_inv_slot [OF assms, of "pfx_bits p"]
      by (auto simp: route_node_lookup_def rt_map_def split: option.splits)
  next
    case (Some v)
    then have m: "rt_map t (pfx_bits p) = Some (1, Some v)" using rt_inv_slot [OF assms, of "pfx_bits p"] by simp
    have "rt_held fam (route_lock_node t (pfx_bits p)) (pfx_bits p) 2 (Some v) (rt_entries t)"
      using m rt_inv_slot [OF assms] rt_ok_lock [OF wf, of "pfx_bits p"] wf by (simp add: rt_held_def rt_map_lock)
    then show ?thesis using m lookup Some
      by (auto simp: route_node_lookup_def rt_map_def split: option.splits)
  qed
qed

lemma rt_held_set_info:
  "rt_held fam t k n i m \<Longrightarrow> n \<noteq> 0 \<Longrightarrow> rt_held fam (route_set_info t k j) k n j m"
  unfolding rt_held_def route_set_info_def by (auto simp: rt_map_modify intro: rt_ok_modify)

text \<open>Releasing one lock: with more locks left the node only loses one, with none left the table holds the
  other entries only.\<close>

lemma rt_held_unlock:
  assumes "rt_held fam t k n i m" "n \<noteq> 0" "n \<noteq> 1"
  shows "\<exists>t'. route_unlock_node t k = Some t' \<and> rt_held fam t' k (n - 1) i m"
proof -
  have w: "rt_wf fam t" "rt_ok t" "rt_map t k = Some (n, i)" using assms(1) by (simp_all add: rt_held_def)
  obtain t' where "route_unlock_node t k = Some t'" "rt_wf fam t'" "rt_ok t'" "t' = rn_modify k (\<lambda>lk i. (lk - 1, i)) t"
    using route_unlock_node_spec [OF w assms(2)] assms(3) by metis
  then show ?thesis using assms(1) by (auto simp: rt_held_def rt_map_modify)
qed

lemma rt_held_release:
  assumes "rt_held fam t k 1 None m"
  shows "\<exists>t'. route_unlock_node t k = Some t' \<and> rt_inv fam t' \<and> rt_entries t' = m(k := None)"
proof -
  have w: "rt_wf fam t" "rt_ok t" "rt_map t k = Some (1, None)" using assms by (simp_all add: rt_held_def)
  obtain t' where u: "route_unlock_node t k = Some t'" "rt_wf fam t'" "rt_ok t'" "rt_shrunk (rn_modify k (\<lambda>lk i. (lk - 1, i)) t) t'"
    using route_unlock_node_spec [OF w] by auto
  have k: "rt_map t' k = None \<or> rt_map t' k = Some (0, None)"
    using u(4) w(3) unfolding rt_shrunk_def by (auto simp: rt_map_modify dest: spec [of _ k])
  have x: "rt_map t' x = rt_map t x \<or> rt_map t' x = None \<and> (\<exists>j. rt_map t x = Some (0, j))" if "x \<noteq> k" for x
    using u(4) that unfolding rt_shrunk_def rt_map_modify by metis
  have "rt_slot ((m(k := None)) x) (rt_map t' x)" for x
  proof (cases "x = k")
    case True
    then show ?thesis using k by auto
  next
    case False
    then have "rt_slot (m x) (rt_map t x)" using assms by (simp add: rt_held_def)
    then show ?thesis using x [OF False] False by (cases "m x") auto
  qed
  then have "rt_clean t' \<and> rt_entries t' = m(k := None)" by (rule rt_cleanI)
  then show ?thesis using u(1-3) by (auto simp: rt_inv_def)
qed

text \<open>A held node with its own lock only is an entry.\<close>

lemma rt_held_entry:
  assumes "rt_held fam t k 1 (Some v) m"
  shows "rt_inv fam t" "rt_entries t = m(k \<mapsto> v)"
proof -
  have "rt_slot ((m(k \<mapsto> v)) x) (rt_map t x)" for x
    using assms unfolding rt_held_def by (cases "x = k") auto
  then have "rt_clean t \<and> rt_entries t = m(k \<mapsto> v)" by (rule rt_cleanI)
  then show "rt_inv fam t" "rt_entries t = m(k \<mapsto> v)" using assms by (simp_all add: rt_inv_def rt_held_def)
qed

section \<open>Tables with a bound on the locks\<close>

text \<open>Some clients do not release every lock they take.  Such a table still is a map of its entries, as long as no lock count
  wraps around.\<close>

definition rt_bound :: "u8 \<Rightarrow> nat \<Rightarrow> 'a route_table \<Rightarrow> bool" where
  "rt_bound fam n t \<longleftrightarrow> rt_wf fam t \<and> rt_ok t \<and> (\<forall>k lk i. rt_map t k = Some (lk, i) \<longrightarrow> unat lk \<le> n)"

lemma rt_bound_init: "rt_bound fam n route_table_init"
  by (simp add: rt_bound_def route_table_init_def)

lemma rt_bound_mono: "rt_bound fam m t \<Longrightarrow> m \<le> n \<Longrightarrow> rt_bound fam n t"
  unfolding rt_bound_def by (meson le_trans)

lemma rt_bound_le: "rt_bound fam n t \<Longrightarrow> rt_map t k = Some (lk, i) \<Longrightarrow> unat lk \<le> n"
  unfolding rt_bound_def by blast

lemma rt_bound_not_max: "rt_bound fam n t \<Longrightarrow> n + 1 < 2 ^ 32 \<Longrightarrow> rt_map t k \<noteq> Some (- 1, i)"
proof
  assume "rt_bound fam n t" "n + 1 < 2 ^ 32" "rt_map t k = Some (- 1, i)"
  then have "unat (- 1 :: u32) \<le> n" by (intro rt_bound_le)
  moreover have "unat (- 1 :: u32) = 2 ^ 32 - 1" by (simp add: unsigned_minus_1_eq_mask mask_eq_exp_minus_1)
  ultimately show False using \<open>n + 1 < 2 ^ 32\<close> by simp
qed

lemma rt_ok_info: "rt_ok t \<Longrightarrow> rt_map t k = Some (lk, Some v) \<Longrightarrow> lk \<noteq> 0"
  by (induction t) (auto split: if_splits option.splits)

lemma rt_entries_Some: "rt_entries t k = Some v \<longleftrightarrow> (\<exists>lk. rt_map t k = Some (lk, Some v))"
  by (auto simp: rt_entries_def split: option.splits)

lemma unat_Suc_word: "unat (lk :: u32) \<le> n \<Longrightarrow> n + 1 < 2 ^ 32 \<Longrightarrow> unat (lk + 1) = unat lk + 1"
  by (simp add: unat_word_ariths)

lemma rt_bound_get:
  assumes b: "rt_bound (family p) n t" and p: "rt_key p" and n: "n + 1 < 2 ^ 32"
  obtains t' lk where "route_node_get t p = Some t'" "rt_bound (family p) (n + 1) t'" "rt_entries t' = rt_entries t"
    "rt_map t' (pfx_bits p) = Some (lk, rt_entries t (pfx_bits p))" "lk \<noteq> 0" "rt_entries t (pfx_bits p) \<noteq> None \<longrightarrow> lk \<noteq> 1"
proof -
  let ?k = "pfx_bits p"
  have wf: "rt_wf (family p) t" "rt_ok t" and le: "\<And>k lk i. rt_map t k = Some (lk, i) \<Longrightarrow> unat lk \<le> n"
    using b by (auto simp: rt_bound_def)
  obtain t' where g: "route_node_get t p = Some t'" "rt_wf (family p) t'" "rt_inserted ?k t t'" "rt_ok t'"
    using route_node_get_spec [OF wf(1) p] rt_bound_not_max [OF b n] wf(2) by metis
  define lk where "lk = (case rt_map t ?k of Some (lk, i) \<Rightarrow> lk + 1 | None \<Rightarrow> 1)"
  have m: "rt_map t' ?k = Some (lk, rt_entries t ?k)"
    using g(3) by (auto simp: rt_inserted_def lk_def rt_entries_def split: option.splits)
  have other: "rt_map t' k = rt_map t k \<or> rt_map t k = None \<and> rt_map t' k = Some (0, None)" if "k \<noteq> ?k" for k
    using g(3) that unfolding rt_inserted_def by metis
  have lkn: "unat lk \<le> n + 1" "lk \<noteq> 0"
    using le [of ?k] unat_Suc_word [OF _ n] by (auto simp: lk_def unat_eq_zero [symmetric] simp del: unat_eq_zero split: option.splits)
  have lk1: "lk \<noteq> 1" if "rt_entries t ?k \<noteq> None"
    using that rt_ok_info [OF wf(2)] by (auto simp: lk_def rt_entries_def split: option.splits)
  have "unat l \<le> n + 1" if "rt_map t' k = Some (l, i)" for k l i
    using that m lkn other [of k] le [of k l i] by (cases "k = ?k") auto
  then have b': "rt_bound (family p) (n + 1) t'" using g(2,4) by (auto simp: rt_bound_def)
  have "rt_entries t' k = rt_entries t k" for k
    using m other [of k] by (cases "k = ?k") (auto simp: rt_entries_def)
  then show thesis using that [OF g(1) b' _ m lkn(2)] lk1 by auto
qed

lemma rt_bound_set:
  assumes "rt_bound fam n t" "rt_map t k = Some (lk, i)" "lk \<noteq> 0"
  shows "rt_bound fam n (route_set_info t k v)" "rt_entries (route_set_info t k v) = (rt_entries t)(k := v)"
    "rt_map (route_set_info t k v) k = Some (lk, v)"
proof -
  show m: "rt_map (route_set_info t k v) k = Some (lk, v)" using assms by (simp add: route_set_info_def rt_map_modify)
  have x: "rt_map (route_set_info t k v) x = rt_map t x" if "x \<noteq> k" for x
    using that by (simp add: route_set_info_def rt_map_modify)
  have "rt_ok (route_set_info t k v)" unfolding route_set_info_def
    using assms by (intro rt_ok_modify [of fam]) (auto simp: rt_bound_def)
  moreover have "unat l \<le> n" if "rt_map (route_set_info t k v) y = Some (l, j)" for y l j
    using that m x assms(1,2) unfolding rt_bound_def by (cases "y = k") (fastforce, fastforce)
  ultimately show "rt_bound fam n (route_set_info t k v)" using assms(1) by (auto simp: rt_bound_def route_set_info_def)
  show "rt_entries (route_set_info t k v) = (rt_entries t)(k := v)"
    using m x by (auto simp: fun_eq_iff rt_entries_def)
qed

lemma rt_bound_unlock:
  assumes b: "rt_bound fam n t" and m: "rt_map t k = Some (lk, i)" "lk \<noteq> 0" "lk = 1 \<longrightarrow> i = None"
  obtains t' where "route_unlock_node t k = Some t'" "rt_bound fam n t'" "rt_entries t' = rt_entries t"
    "lk \<noteq> 1 \<longrightarrow> rt_map t' k = Some (lk - 1, i)"
proof -
  have wf: "rt_wf fam t" "rt_ok t" using b by (simp_all add: rt_bound_def)
  obtain t' where u: "route_unlock_node t k = Some t'" "rt_wf fam t'" "rt_ok t'"
    "rt_shrunk (rn_modify k (\<lambda>lk i. (lk - 1, i)) t) t'" "lk \<noteq> 1 \<longrightarrow> t' = rn_modify k (\<lambda>lk i. (lk - 1, i)) t"
    using route_unlock_node_spec [OF wf m] by metis
  have le: "unat (lk - 1) \<le> n" using b m(1,2) unat_minus_one [OF m(2)] by (force simp: rt_bound_def)
  have x: "rt_map t' x = (if x = k then Some (lk - 1, i) else rt_map t x) \<or> rt_map t' x = None \<and> (\<exists>j. (if x = k then Some (lk - 1, i) else rt_map t x) = Some (0, j))" for x
    using u(4) m(1) unfolding rt_shrunk_def rt_map_modify by (auto dest: spec [of _ x])
  have "unat l \<le> n" if "rt_map t' y = Some (l, j)" for y l j
    using x [of y] that le rt_bound_le [OF b, of y l j] by (auto split: if_splits)
  then have b': "rt_bound fam n t'" using u(2,3) by (auto simp: rt_bound_def)
  have "rt_entries t' y = rt_entries t y" for y
  proof (cases "y = k")
    case True
    have "lk - 1 = 0 \<longrightarrow> i = None" using m(3) by simp
    then show ?thesis using True x [of k] m(1) by (auto simp: rt_entries_def)
  next
    case False
    have "j = None" if "rt_map t y = Some (0, j)" for j using that rt_ok_info [OF wf(2), of y 0] by (cases j) auto
    then show ?thesis using False x [of y] by (auto simp: rt_entries_def split: option.splits)
  qed
  then show thesis using that [OF u(1) b'] u(5) m(1) by (auto simp: rt_map_modify)
qed

lemma rn_modify_undo: "rn_modify k (\<lambda>lk i. (lk - 1, i)) (rn_modify k (\<lambda>lk i. (lk + 1, i)) t) = (t :: 'a route_table)"
  by (induction t) simp_all

text \<open>Locking an entry and unlocking it again leaves the table as it was.\<close>

lemma rt_bound_lock:
  assumes b: "rt_bound fam n t" and k: "rt_entries t k = Some v" and n: "n + 1 < 2 ^ 32"
  shows "rt_bound fam (n + 1) (route_lock_node t k)" "rt_entries (route_lock_node t k) = rt_entries t"
    "route_unlock_node (route_lock_node t k) k = Some t"
    "\<exists>lk. lk \<noteq> 0 \<and> lk \<noteq> 1 \<and> rt_map (route_lock_node t k) k = Some (lk, Some v)"
proof -
  obtain lk where m: "rt_map t k = Some (lk, Some v)" using k by (auto simp: rt_entries_Some)
  have wf: "rt_wf fam t" "rt_ok t" and le: "unat lk \<le> n" using b m by (auto simp: rt_bound_def)
  have lk0: "lk \<noteq> 0" by (rule rt_ok_info [OF wf(2) m])
  have lk: "lk + 1 \<noteq> 0" using unat_Suc_word [OF le n] by (metis add_is_0 one_neq_zero unat_0)
  have lk1: "lk + 1 \<noteq> 1" using lk0 by simp
  have m': "rt_map (route_lock_node t k) k = Some (lk + 1, Some v)" using m by (simp add: rt_map_lock)
  have wf': "rt_wf fam (route_lock_node t k)" using wf(1) by (simp add: route_lock_node_def)
  have ok': "rt_ok (route_lock_node t k)" using rt_ok_lock [OF wf] rt_bound_not_max [OF b n] by blast
  have "unat l \<le> n + 1" if "rt_map (route_lock_node t k) y = Some (l, j)" for y l j
  proof (cases "y = k")
    case True
    then show ?thesis using that m' le unat_Suc_word [OF le n] by simp
  next
    case False
    then have "unat l \<le> n" using that b by (auto simp: rt_map_lock rt_bound_def)
    then show ?thesis by simp
  qed
  then show "rt_bound fam (n + 1) (route_lock_node t k)" using wf' ok' unfolding rt_bound_def by blast
  show "rt_entries (route_lock_node t k) = rt_entries t" using m m' by (auto simp: fun_eq_iff rt_entries_def rt_map_lock)
  have "route_unlock_node (route_lock_node t k) k = Some (rn_modify k (\<lambda>lk i. (lk - 1, i)) (route_lock_node t k))"
    using route_unlock_node_spec [OF wf' ok' m' lk] lk1 by metis
  then show "route_unlock_node (route_lock_node t k) k = Some t" by (simp add: route_lock_node_def rn_modify_undo)
  show "\<exists>lk. lk \<noteq> 0 \<and> lk \<noteq> 1 \<and> rt_map (route_lock_node t k) k = Some (lk, Some v)" using m' lk lk1 by blast
qed

lemma rt_bound_lookup:
  assumes b: "rt_bound fam n t"
  shows "case rt_entries t (pfx_bits p) of
      None \<Rightarrow> route_node_lookup t p = (t, None)
    | Some v \<Rightarrow> \<exists>q. route_node_lookup t p = (route_lock_node t (pfx_bits p), Some q) \<and> pfx_bits q = pfx_bits p"
proof -
  have wf: "rt_wf fam t" using b by (simp add: rt_bound_def)
  show ?thesis
    using lookup_walk_find [OF wf, of p] rn_find_key [of "pfx_bits p" t]
    by (auto simp: route_node_lookup_def rt_entries_def rt_map_def split: option.splits)
qed

lemma rt_bound_match:
  assumes b: "rt_bound fam n t"
  shows "route_node_match t p = (t, None) \<or>
    (\<exists>q v. route_node_match t p = (route_lock_node t (pfx_bits q), Some q) \<and> rt_entries t (pfx_bits q) = Some v)"
proof -
  have wf: "rt_wf fam t" using b by (simp add: rt_bound_def)
  show ?thesis
    using match_walk_best [OF wf, of p None]
    by (cases "candidates t p = {}") (auto simp: route_node_match_def candidates_def rt_entries_Some)
qed

text \<open>A change of every entry.\<close>

lemma rt_map_map: "rt_map (map_route_node f t) k = map_option (\<lambda>(lk, i). (lk, map_option f i)) (rt_map t k)"
  by (induction t) (auto split: option.splits)

lemma rt_bound_map:
  assumes "rt_bound fam n t"
  shows "rt_bound fam n (map_route_node f t)" "rt_entries (map_route_node f t) k = map_option f (rt_entries t k)"
proof -
  have keys: "rn_keys (map_route_node f t) = rn_keys t" for t by (induction t) auto
  have "rt_wf fam (map_route_node f t) = rt_wf fam t" "rt_ok (map_route_node f t) = rt_ok t" for t
    by (induction t) (auto simp: keys route_node.map_disc_iff)
  then show "rt_bound fam n (map_route_node f t)"
    using assms by (auto simp: rt_bound_def rt_map_map)
  show "rt_entries (map_route_node f t) k = map_option f (rt_entries t k)"
    by (auto simp: rt_entries_def rt_map_map split: option.splits)
qed

section \<open>The prefixes of the nodes\<close>

text \<open>The prefixes of the nodes, in the order \<open>route_top\<close> and \<open>route_next\<close> visit them.\<close>

fun rn_prefixes :: "'a route_node \<Rightarrow> prefix list" where
  "rn_prefixes RNull = []"
| "rn_prefixes (RNode p lk i l r) = p # rn_prefixes l @ rn_prefixes r"

lemma rn_prefixes_keys: "map pfx_bits (rn_prefixes t) = rn_keys t"
  by (induction t) simp_all

lemma rn_prefixes_modify [simp]: "rn_prefixes (rn_modify k f t) = rn_prefixes t"
  by (induction t) simp_all

lemma rn_prefixes_lock [simp]:
  "rn_prefixes (route_lock_node t k) = rn_prefixes t" "rn_prefixes (route_set_info t k v) = rn_prefixes t"
  by (simp_all add: route_lock_node_def route_set_info_def)

lemma rn_prefixes_map [simp]: "rn_prefixes (map_route_node f t) = rn_prefixes t"
  by (induction t) simp_all

lemma rn_prefixes_delete: "route_node_delete t k = Some (t', b) \<Longrightarrow> set (rn_prefixes t') \<subseteq> set (rn_prefixes t)"
proof (induction t arbitrary: t' b)
  case (RNode p lk i l r)
  have here: "set (rn_prefixes x) \<subseteq> insert p (set (rn_prefixes l') \<union> set (rn_prefixes r'))"
    if "delete_here p lk i l' r' = Some (x, c)" for l' r' x c
    using that by (auto simp: delete_here_def split: if_splits)
  show ?case
  proof (cases "pfx_bits p = k")
    case True
    then show ?thesis using RNode.prems here [of l r t' b] by simp
  next
    case False
    then obtain l' fl r' fr where d: "route_node_delete l k = Some (l', fl)" "route_node_delete r k = Some (r', fr)"
      "(if (fl \<or> fr) \<and> lk = 0 then delete_here p lk i l' r' else Some (RNode p lk i l' r', False)) = Some (t', b)"
      using RNode.prems by (auto split: bind_splits)
    then show ?thesis using RNode.IH(1) [OF d(1)] RNode.IH(2) [OF d(2)] here [of l' r' t' b] by (auto split: if_splits)
  qed
qed simp

lemma rn_prefixes_unlock: "route_unlock_node t k = Some t' \<Longrightarrow> set (rn_prefixes t') \<subseteq> set (rn_prefixes t)"
  using rn_prefixes_delete [of "rn_modify k (\<lambda>lk i. (lk - 1, i)) t" k]
  by (fastforce simp: route_unlock_node_def Let_def split: option.splits if_splits)

text \<open>A node of \<open>route_node_get\<close> has the prefix itself, or the common part of two, with the bits behind it cleared.\<close>

lemma route_common_host:
  assumes L: "plen p \<le> 128"
  shows "addr_bit (u_prefix (route_common n p prefix_new)) j \<longleftrightarrow> j < plen (route_common n p prefix_new) \<and> addr_bit (u_prefix n) j"
proof -
  define np pp where "np = u_prefix n" and "pp = u_prefix p"
  define i where "i = common_bytes (plen p div 8) np pp 0"
  define newp where "newp = map (byte_at np) [0..<i] @ drop i (u_prefix prefix_new)"
  have i: "i \<le> plen p div 8" using common_bytes_spec [of 0 "plen p div 8" np pp] by (auto simp: i_def)
  have i16: "i \<le> 16" using i L by linarith
  have nb: "byte_at newp k = (if k < i then byte_at np k else 0)" for k
    using i16 by (auto simp: newp_def byte_at_def nth_append prefix_new_def)
  show ?thesis
  proof (cases "8 * i = plen p")
    case True
    then have rc: "route_common n p prefix_new = prefix_new\<lparr>prefixlen := of_nat (8 * i), u_prefix := newp\<rparr>"
      by (simp add: route_common_def Let_def i_def newp_def np_def pp_def)
    have "unat (of_nat (8 * i) :: u8) = 8 * i" using L True by (simp add: unat_of_nat)
    moreover have "j div 8 < i \<longleftrightarrow> j < 8 * i" by linarith
    ultimately show ?thesis by (simp add: rc addr_bit_def nb np_def)
  next
    case False
    then have lt: "8 * i < plen p" using i by linarith
    then have "i < 16" using L by linarith
    define c where "c = common_bits (plen p - 8 * i) 0x80 (byte_at np i XOR byte_at pp i) (8 * i)"
    have "byte_at np i \<noteq> byte_at pp i \<or> plen p - 8 * i < 8"
      using common_bytes_spec [of 0 "plen p div 8" np pp] by (auto simp: i_def)
    from common_bits_byte [OF this c_def [symmetric]] obtain e where e: "c = 8 * i + e" "e < 8" "e \<le> plen p - 8 * i" by blast
    define newp' where "newp' = newp[i := byte_at np i AND maskbit ! e]"
    have rc: "route_common n p prefix_new = prefix_new\<lparr>prefixlen := of_nat c, u_prefix := newp'\<rparr>"
      using False e(1,2) by (simp add: route_common_def Let_def i_def newp_def np_def pp_def c_def newp'_def)
    have "c \<le> 128" using e lt L by linarith
    then have uc: "unat (of_nat c :: u8) = c" by (simp add: unat_of_nat)
    have "length newp = 16" using i16 by (simp add: newp_def prefix_new_def)
    then have b: "byte_at newp' k = (if k < i then byte_at np k else if k = i then byte_at np i AND maskbit ! e else 0)" for k
      using nb \<open>i < 16\<close> by (simp add: newp'_def byte_at_update)
    define d m where "d = j div 8" and "m = j mod 8"
    then have j: "j = 8 * d + m" "m < 8" "j div 8 = d" "j mod 8 = m" by simp_all
    have "j < c \<longleftrightarrow> d < i \<or> d = i \<and> m < e" using e(1,2) j(1,2) by linarith
    moreover have "bit (maskbit ! e) (7 - m) \<longleftrightarrow> m < e" using maskbit_bit [of e "7 - m"] e(2) j(2) by auto
    ultimately show ?thesis by (auto simp: rc uc addr_bit_def b np_def bit_and_iff j(3,4))
  qed
qed

lemma rn_prefixes_set_link: "set (rn_prefixes (set_link t c)) \<subseteq> set (rn_prefixes t) \<union> set (rn_prefixes c)"
  by (cases t) (auto simp: set_link_def)

lemma rn_prefixes_get_new:
  assumes "get_new t p = Some t'" "\<forall>n\<in>set (rn_prefixes t). P n" "\<And>q. prefix_copy prefix_new p = Some q \<Longrightarrow> P q"
    and "\<And>n. P n \<Longrightarrow> P ((route_common n p prefix_new)\<lparr>family := family p\<rparr>)"
  shows "\<forall>n\<in>set (rn_prefixes t'). P n"
proof (cases t)
  case RNull
  then show ?thesis using assms(1,3) by (auto split: bind_splits)
next
  case (RNode n lk i l r)
  define c where "c = (route_common n p prefix_new)\<lparr>family := family p\<rparr>"
  define new where "new = set_link (RNode c 0 None RNull RNull) t"
  have c: "P c" using assms(2,4) RNode by (simp add: c_def)
  have new: "\<forall>x\<in>set (rn_prefixes new). P x"
    using rn_prefixes_set_link [of "RNode c 0 None RNull RNull" t] c assms(2) unfolding new_def by auto
  have sides: "set (rn_prefixes (l_left new)) \<subseteq> set (rn_prefixes new)" "set (rn_prefixes (l_right new)) \<subseteq> set (rn_prefixes new)"
    by (auto simp: new_def set_link_def)
  show ?thesis
  proof (cases "prefixlen c = prefixlen p")
    case True
    then have "t' = RNode c 1 None (l_left new) (l_right new)"
      using assms(1) RNode by (simp add: c_def new_def Let_def)
    then show ?thesis using c new sides by auto
  next
    case False
    then obtain q where "prefix_copy prefix_new p = Some q" "t' = set_link new (RNode q 1 None RNull RNull)"
      using assms(1) RNode by (auto simp: c_def new_def Let_def split: bind_splits)
    then show ?thesis using assms(3) new rn_prefixes_set_link [of new "RNode q 1 None RNull RNull"] by auto
  qed
qed

lemma rn_prefixes_get:
  assumes "route_node_get t p = Some t'" "\<forall>n\<in>set (rn_prefixes t). P n" "\<And>q. prefix_copy prefix_new p = Some q \<Longrightarrow> P q"
    and "\<And>n. P n \<Longrightarrow> P ((route_common n p prefix_new)\<lparr>family := family p\<rparr>)"
  shows "\<forall>n\<in>set (rn_prefixes t'). P n"
proof -
  note new = rn_prefixes_get_new [where P = P, OF _ _ assms(3,4)]
  have "\<forall>n\<in>set (rn_prefixes t'). P n" if "get_loop t p = Some t'" "\<forall>n\<in>set (rn_prefixes t). P n" for t t'
    using that
  proof (induction t arbitrary: t')
    case (RNode n lk i l r)
    let ?b = "check_bit (u_prefix p) (prefixlen n)"
    let ?c = "if ?b then r else l"
    have loop: "get_loop (RNode n lk i l r) p =
        (if prefixlen n = prefixlen p then Some (RNode n (lk + 1) i l r)
         else if walks ?c p then map_option (\<lambda>c. RNode n lk i (if ?b then l else c) (if ?b then c else r)) (get_loop ?c p)
         else map_option (set_link (RNode n lk i l r)) (get_new ?c p))"
      by (simp add: map_option_case split: option.split bind_split)
    have ih: "\<forall>x\<in>set (rn_prefixes c). P x" if "get_loop ?c p = Some c" for c
      using that RNode.IH RNode.prems(2) by (cases ?b) simp_all
    have nw: "\<forall>x\<in>set (rn_prefixes c). P x" if "get_new ?c p = Some c" for c
      using new [OF that] RNode.prems(2) by (cases ?b) simp_all
    consider "t' = RNode n (lk + 1) i l r" | c where "get_loop ?c p = Some c" "t' = RNode n lk i (if ?b then l else c) (if ?b then c else r)"
      | c where "get_new ?c p = Some c" "t' = set_link (RNode n lk i l r) c"
      using RNode.prems(1) unfolding loop by (metis (no_types, lifting) map_option_eq_Some option.inject)
    then show ?case
    proof cases
      case 2
      then show ?thesis using ih [OF 2(1)] RNode.prems(2) by auto
    next
      case 3
      then show ?thesis using nw [OF 3(1)] RNode.prems(2) rn_prefixes_set_link [of "RNode n lk i l r" c] by auto
    qed (use RNode.prems(2) in simp)
  qed simp
  then show ?thesis using assms(1,2) new unfolding route_node_get_def by (metis (full_types))
qed

end
