(* ===== verification/Zebra_Rib.thy ===== *)
theory Zebra_Rib
  imports Lib_Table_Map
begin

text \<open>
  The routing information base of the daemon \<open>zebra\<close> (\<open>zebra/zebra_rib.c\<close>, \<open>zebra/rib.h\<close>): the routes of every protocol for a
  prefix hang on the node of the prefix in the trie; \<open>rib_process\<close> selects one of them, hands it to the kernel and tells the
  other daemons.  A list of routes is the info of its node, a pointer to a route is its position in the list, and
  the route a deletion took out of the list is a value of its own.  The interface to the kernel (\<open>kernel_add\<close>, \<open>kernel_delete\<close>) is
  a parameter; what is sent to it and to the daemons is recorded in order.  A name that is not set is the empty string.
\<close>

section \<open>Definitions\<close>

subsection \<open>Routes and next hops\<close>

abbreviation ZEBRA_ROUTE_KERNEL :: u8 where "ZEBRA_ROUTE_KERNEL \<equiv> 1"
abbreviation ZEBRA_ROUTE_CONNECT :: u8 where "ZEBRA_ROUTE_CONNECT \<equiv> 2"
abbreviation ZEBRA_ROUTE_STATIC :: u8 where "ZEBRA_ROUTE_STATIC \<equiv> 3"

abbreviation ZEBRA_FLAG_INTERNAL :: u8 where "ZEBRA_FLAG_INTERNAL \<equiv> 0x01"
abbreviation ZEBRA_FLAG_BLACKHOLE :: u8 where "ZEBRA_FLAG_BLACKHOLE \<equiv> 0x04"
abbreviation ZEBRA_FLAG_IBGP :: u8 where "ZEBRA_FLAG_IBGP \<equiv> 0x08"
abbreviation ZEBRA_FLAG_SELECTED :: u8 where "ZEBRA_FLAG_SELECTED \<equiv> 0x10"
abbreviation ZEBRA_FLAG_CHANGED :: u8 where "ZEBRA_FLAG_CHANGED \<equiv> 0x20"

abbreviation ZEBRA_ERR_RTNOEXIST :: int where "ZEBRA_ERR_RTNOEXIST \<equiv> -4"
abbreviation DISTANCE_INFINITY :: u8 where "DISTANCE_INFINITY \<equiv> 255"

abbreviation NEXTHOP_TYPE_IFINDEX :: u8 where "NEXTHOP_TYPE_IFINDEX \<equiv> 1"
abbreviation NEXTHOP_TYPE_IFNAME :: u8 where "NEXTHOP_TYPE_IFNAME \<equiv> 2"
abbreviation NEXTHOP_TYPE_IPV4 :: u8 where "NEXTHOP_TYPE_IPV4 \<equiv> 3"
abbreviation NEXTHOP_TYPE_IPV4_IFINDEX :: u8 where "NEXTHOP_TYPE_IPV4_IFINDEX \<equiv> 4"
abbreviation NEXTHOP_TYPE_IPV6 :: u8 where "NEXTHOP_TYPE_IPV6 \<equiv> 6"
abbreviation NEXTHOP_TYPE_IPV6_IFINDEX :: u8 where "NEXTHOP_TYPE_IPV6_IFINDEX \<equiv> 7"
abbreviation NEXTHOP_TYPE_IPV6_IFNAME :: u8 where "NEXTHOP_TYPE_IPV6_IFNAME \<equiv> 8"
abbreviation NEXTHOP_TYPE_BLACKHOLE :: u8 where "NEXTHOP_TYPE_BLACKHOLE \<equiv> 9"

abbreviation NEXTHOP_FLAG_ACTIVE :: u8 where "NEXTHOP_FLAG_ACTIVE \<equiv> 1"
abbreviation NEXTHOP_FLAG_FIB :: u8 where "NEXTHOP_FLAG_FIB \<equiv> 2"
abbreviation NEXTHOP_FLAG_RECURSIVE :: u8 where "NEXTHOP_FLAG_RECURSIVE \<equiv> 4"

text \<open>The unions hold 16 bytes; an IPv4 address is the first four.\<close>

record nexthop =
  nh_type :: u8
  nh_flags :: u8
  nh_ifindex :: u32
  nh_ifname :: string
  gate :: "u8 list"
  nh_rtype :: u8
  rifindex :: u32
  rgate :: "u8 list"

text \<open>The type of a route is one of the numbers \<open>ZEBRA_ROUTE_*\<close>.\<close>

record rib =
  rib_type :: u8
  rib_table :: int
  distance :: u8
  rib_flags :: u8
  rib_metric :: u32
  uptime :: int
  rib_refcnt :: ulong
  nexthop_num :: u8
  nexthop_active_num :: u8
  nexthops :: "nexthop list"

record interface =
  if_name :: string
  if_index :: u32
  if_flags :: ulong

datatype zebra_request =
    Kernel_add prefix rib
  | Kernel_delete prefix rib
  | Redistribute_add prefix rib
  | Redistribute_delete prefix rib

record kernel =
  kernel_add :: "prefix \<Rightarrow> rib \<Rightarrow> int \<times> rib"
  kernel_delete :: "prefix \<Rightarrow> rib \<Rightarrow> int"

record zebra =
  rib_ipv4 :: "rib list route_table"
  rib_ipv6 :: "rib list route_table"
  iflist :: "interface list"
  requests :: "zebra_request list"

text \<open>\<open>route_info[type].distance\<close>; there are nine entries.\<close>

definition route_info :: "u8 \<Rightarrow> u8 option" where
  "route_info type = (if unat type < 9 then Some ([0, 0, 0, 1, 120, 120, 110, 110, 20] ! unat type) else None)"

definition is_selected :: "rib \<Rightarrow> bool" where
  "is_selected r = CHECK_FLAG (rib_flags r) ZEBRA_FLAG_SELECTED"

definition if_lookup_by_index :: "zebra \<Rightarrow> u32 \<Rightarrow> interface option" where
  "if_lookup_by_index z idx = find (\<lambda>ifp. if_index ifp = idx) (iflist z)"

definition if_lookup_by_name :: "zebra \<Rightarrow> string \<Rightarrow> interface option" where
  "if_lookup_by_name z nam = find (\<lambda>ifp. take 21 nam = take 21 (if_name ifp)) (iflist z)"

definition if_is_up :: "interface \<Rightarrow> bool" where
  "if_is_up ifp = CHECK_FLAG (if_flags ifp) 1"

definition nexthop_add :: "rib \<Rightarrow> nexthop \<Rightarrow> rib" where
  "nexthop_add r nh = r\<lparr>nexthops := nexthops r @ [nh], nexthop_num := nexthop_num r + 1\<rparr>"

definition nexthop_delete :: "rib \<Rightarrow> nat \<Rightarrow> rib" where
  "nexthop_delete r i = r\<lparr>nexthops := take i (nexthops r) @ drop (i + 1) (nexthops r), nexthop_num := nexthop_num r - 1\<rparr>"

definition nexthop_new :: nexthop where
  "nexthop_new = \<lparr>nh_type = 0, nh_flags = 0, nh_ifindex = 0, nh_ifname = [], gate = replicate 16 0, nh_rtype = 0, rifindex = 0, rgate = replicate 16 0\<rparr>"

definition nexthop_ifindex_add :: "rib \<Rightarrow> u32 \<Rightarrow> rib" where
  "nexthop_ifindex_add r idx = nexthop_add r (nexthop_new\<lparr>nh_type := NEXTHOP_TYPE_IFINDEX, nh_ifindex := idx\<rparr>)"

definition nexthop_ifname_add :: "rib \<Rightarrow> string \<Rightarrow> rib" where
  "nexthop_ifname_add r nam = nexthop_add r (nexthop_new\<lparr>nh_type := NEXTHOP_TYPE_IFNAME, nh_ifname := nam\<rparr>)"

definition nexthop_ipv4_add :: "rib \<Rightarrow> u8 list \<Rightarrow> rib" where
  "nexthop_ipv4_add r a = nexthop_add r (nexthop_new\<lparr>nh_type := NEXTHOP_TYPE_IPV4, gate := take 4 a @ replicate 12 0\<rparr>)"

definition nexthop_ipv4_ifindex_add :: "rib \<Rightarrow> u8 list \<Rightarrow> u32 \<Rightarrow> rib" where
  "nexthop_ipv4_ifindex_add r a idx =
     nexthop_add r (nexthop_new\<lparr>nh_type := NEXTHOP_TYPE_IPV4_IFINDEX, gate := take 4 a @ replicate 12 0, nh_ifindex := idx\<rparr>)"

definition nexthop_ipv6_add :: "rib \<Rightarrow> u8 list \<Rightarrow> rib" where
  "nexthop_ipv6_add r a = nexthop_add r (nexthop_new\<lparr>nh_type := NEXTHOP_TYPE_IPV6, gate := take 16 a\<rparr>)"

definition nexthop_ipv6_ifname_add :: "rib \<Rightarrow> u8 list \<Rightarrow> string \<Rightarrow> rib" where
  "nexthop_ipv6_ifname_add r a nam =
     nexthop_add r (nexthop_new\<lparr>nh_type := NEXTHOP_TYPE_IPV6_IFNAME, gate := take 16 a, nh_ifname := nam\<rparr>)"

definition nexthop_ipv6_ifindex_add :: "rib \<Rightarrow> u8 list \<Rightarrow> u32 \<Rightarrow> rib" where
  "nexthop_ipv6_ifindex_add r a idx =
     nexthop_add r (nexthop_new\<lparr>nh_type := NEXTHOP_TYPE_IPV6_IFINDEX, gate := take 16 a, nh_ifindex := idx\<rparr>)"

definition nexthop_blackhole_add :: "rib \<Rightarrow> rib" where
  "nexthop_blackhole_add r =
     nexthop_add (r\<lparr>rib_flags := SET_FLAG (rib_flags r) ZEBRA_FLAG_BLACKHOLE\<rparr>) (nexthop_new\<lparr>nh_type := NEXTHOP_TYPE_BLACKHOLE\<rparr>)"

subsection \<open>Resolving a next hop\<close>

text \<open>
  The nodes with routes that contain an address, the longest first: the node \<open>route_node_match\<close> returns and, following
  the parent pointers, the ones above it.  The lock a node gets is released before the next one is looked at.
\<close>

fun match_path :: "'a route_node \<Rightarrow> prefix \<Rightarrow> (prefix \<times> 'a) list \<Rightarrow> (prefix \<times> 'a) list" where
  "match_path RNull p up = up"
| "match_path (RNode n lk i l r) p up =
     (if prefixlen n \<le> prefixlen p \<and> prefix_match n p
      then let up = (case i of None \<Rightarrow> up | Some v \<Rightarrow> (n, v) # up) in
        (if check_bit (u_prefix p) (prefixlen n) then match_path r p up else match_path l p up)
      else up)"

text \<open>The loop of \<open>nexthop_active_ipv4\<close> and \<open>nexthop_active_ipv6\<close>: \<open>own\<close> is the type whose interface is found by the lookup, \<open>n\<close>
  the length of an address, \<open>gates\<close> and \<open>oifs\<close> the types whose gateway and interface are copied.\<close>

fun active_walk :: "u8 \<Rightarrow> nat \<Rightarrow> u8 list \<Rightarrow> u8 list \<Rightarrow> rib \<Rightarrow> nexthop \<Rightarrow> bool \<Rightarrow> prefix \<Rightarrow> (prefix \<times> rib list) list \<Rightarrow> bool \<times> nexthop" where
  "active_walk own n gates oifs r nh set_it rn [] = (False, nh)"
| "active_walk own n gates oifs r nh set_it rn ((q, ribs) # up) =
     (if family q = family rn \<and> pfx_bits q = pfx_bits rn then (False, nh)
      else case find is_selected ribs of
        None \<Rightarrow> active_walk own n gates oifs r nh set_it rn up
      | Some m \<Rightarrow>
          if rib_type m = ZEBRA_ROUTE_BGP then active_walk own n gates oifs r nh set_it rn up
          else if rib_type m = ZEBRA_ROUTE_CONNECT
          then (True, if nexthops m \<noteq> [] \<and> nh_type nh = own then nh\<lparr>nh_ifindex := nh_ifindex (hd (nexthops m))\<rparr> else nh)
          else if CHECK_FLAG (rib_flags r) ZEBRA_FLAG_INTERNAL
          then (case find (\<lambda>h. CHECK_FLAG (nh_flags h) NEXTHOP_FLAG_FIB \<and> \<not> CHECK_FLAG (nh_flags h) NEXTHOP_FLAG_RECURSIVE) (nexthops m) of
                  None \<Rightarrow> (False, nh)
                | Some h \<Rightarrow>
                    (True,
                     if set_it
                     then let nh = nh\<lparr>nh_flags := SET_FLAG (nh_flags nh) NEXTHOP_FLAG_RECURSIVE, nh_rtype := nh_type h\<rparr>;
                              nh = (if nh_type h \<in> set gates then nh\<lparr>rgate := take n (gate h) @ drop n (rgate nh)\<rparr> else nh)
                          in (if nh_type h \<in> set oifs then nh\<lparr>rifindex := nh_ifindex h\<rparr> else nh)
                     else nh))
          else (False, nh))"

definition nexthop_active_ipv4 :: "zebra \<Rightarrow> rib \<Rightarrow> nexthop \<Rightarrow> bool \<Rightarrow> prefix \<Rightarrow> bool \<times> nexthop" where
  "nexthop_active_ipv4 z r nh set_it rn =
     (let nh = (if nh_type nh = NEXTHOP_TYPE_IPV4 then nh\<lparr>nh_ifindex := 0\<rparr> else nh);
          nh = (if set_it then nh\<lparr>nh_flags := UNSET_FLAG (nh_flags nh) NEXTHOP_FLAG_RECURSIVE\<rparr> else nh);
          p = (set_addr 4 (gate nh) prefix_new)\<lparr>family := AF_INET, prefixlen := 32\<rparr>
      in active_walk NEXTHOP_TYPE_IPV4 4 [NEXTHOP_TYPE_IPV4, NEXTHOP_TYPE_IPV4_IFINDEX]
           [NEXTHOP_TYPE_IFINDEX, NEXTHOP_TYPE_IFNAME, NEXTHOP_TYPE_IPV4_IFINDEX] r nh set_it rn (match_path (rib_ipv4 z) p []))"

definition nexthop_active_ipv6 :: "zebra \<Rightarrow> rib \<Rightarrow> nexthop \<Rightarrow> bool \<Rightarrow> prefix \<Rightarrow> bool \<times> nexthop" where
  "nexthop_active_ipv6 z r nh set_it rn =
     (let nh = (if nh_type nh = NEXTHOP_TYPE_IPV6 then nh\<lparr>nh_ifindex := 0\<rparr> else nh);
          nh = (if set_it then nh\<lparr>nh_flags := UNSET_FLAG (nh_flags nh) NEXTHOP_FLAG_RECURSIVE\<rparr> else nh);
          p = (set_addr 16 (gate nh) prefix_new)\<lparr>family := AF_INET6, prefixlen := 128\<rparr>
      in active_walk NEXTHOP_TYPE_IPV6 16 [NEXTHOP_TYPE_IPV6, NEXTHOP_TYPE_IPV6_IFINDEX, NEXTHOP_TYPE_IPV6_IFNAME]
           [NEXTHOP_TYPE_IFINDEX, NEXTHOP_TYPE_IFNAME, NEXTHOP_TYPE_IPV6_IFINDEX, NEXTHOP_TYPE_IPV6_IFNAME]
           r nh set_it rn (match_path (rib_ipv6 z) p []))"

text \<open>The selected route for an address that is not from BGP and, unless connected, is in the forwarding table.\<close>

fun rib_match_walk :: "(prefix \<times> rib list) list \<Rightarrow> rib option" where
  "rib_match_walk [] = None"
| "rib_match_walk ((q, ribs) # up) =
     (case find is_selected ribs of
        None \<Rightarrow> rib_match_walk up
      | Some m \<Rightarrow>
          if rib_type m = ZEBRA_ROUTE_BGP then rib_match_walk up
          else if rib_type m = ZEBRA_ROUTE_CONNECT then Some m
          else if find (\<lambda>h. CHECK_FLAG (nh_flags h) NEXTHOP_FLAG_FIB) (nexthops m) \<noteq> None then Some m else None)"

definition rib_match_ipv4 :: "zebra \<Rightarrow> u8 list \<Rightarrow> rib option" where
  "rib_match_ipv4 z addr =
     rib_match_walk (match_path (rib_ipv4 z) ((set_addr 4 addr prefix_new)\<lparr>family := AF_INET, prefixlen := 32\<rparr>) [])"

definition rib_match_ipv6 :: "zebra \<Rightarrow> u8 list \<Rightarrow> rib option" where
  "rib_match_ipv6 z addr =
     rib_match_walk (match_path (rib_ipv6 z) ((set_addr 16 addr prefix_new)\<lparr>family := AF_INET6, prefixlen := 128\<rparr>) [])"

definition in6_is_addr_linklocal :: "u8 list \<Rightarrow> bool" where
  "in6_is_addr_linklocal a \<longleftrightarrow> byte_at a 0 = 0xfe \<and> byte_at a 1 AND 0xc0 = 0x80"

definition nh_set_active :: "bool \<Rightarrow> nexthop \<Rightarrow> nexthop" where
  "nh_set_active b nh =
     nh\<lparr>nh_flags := (if b then SET_FLAG (nh_flags nh) NEXTHOP_FLAG_ACTIVE else UNSET_FLAG (nh_flags nh) NEXTHOP_FLAG_ACTIVE)\<rparr>"

definition ifp_up :: "interface option \<Rightarrow> bool" where
  "ifp_up ifp = (case ifp of None \<Rightarrow> False | Some i \<Rightarrow> if_is_up i)"

definition nexthop_active_check :: "zebra \<Rightarrow> prefix \<Rightarrow> rib \<Rightarrow> nexthop \<Rightarrow> bool \<Rightarrow> nexthop" where
  "nexthop_active_check z rn r nh set_it =
     (if nh_type nh = NEXTHOP_TYPE_IFINDEX
      then nh_set_active (ifp_up (if_lookup_by_index z (nh_ifindex nh))) nh
      else if nh_type nh = NEXTHOP_TYPE_IFNAME \<or> nh_type nh = NEXTHOP_TYPE_IPV6_IFNAME
      then (let ifp = if_lookup_by_name z (nh_ifname nh);
                nh = (if set_it then nh\<lparr>nh_ifindex := (if ifp_up ifp then if_index (the ifp) else 0)\<rparr> else nh)
            in nh_set_active (ifp_up ifp) nh)
      else if nh_type nh = NEXTHOP_TYPE_IPV4 \<or> nh_type nh = NEXTHOP_TYPE_IPV4_IFINDEX
      then (let (b, nh) = nexthop_active_ipv4 z r nh set_it rn in nh_set_active b nh)
      else if nh_type nh = NEXTHOP_TYPE_IPV6
      then (let (b, nh) = nexthop_active_ipv6 z r nh set_it rn in nh_set_active b nh)
      else if nh_type nh = NEXTHOP_TYPE_IPV6_IFINDEX
      then if in6_is_addr_linklocal (gate nh)
           then nh_set_active (ifp_up (if_lookup_by_index z (nh_ifindex nh))) nh
           else (let (b, nh) = nexthop_active_ipv6 z r nh set_it rn in nh_set_active b nh)
      else if nh_type nh = NEXTHOP_TYPE_BLACKHOLE then nh_set_active True nh
      else nh)"

definition nh_active :: "nexthop \<Rightarrow> bool" where
  "nh_active nh = CHECK_FLAG (nh_flags nh) NEXTHOP_FLAG_ACTIVE"

text \<open>The number of active next hops is kept in a byte.\<close>

fun update_hops :: "zebra \<Rightarrow> prefix \<Rightarrow> bool \<Rightarrow> nexthop list \<Rightarrow> rib \<Rightarrow> rib" where
  "update_hops z rn set_it [] r = r"
| "update_hops z rn set_it (nh # nhs) r =
     (let nh' = nexthop_active_check z rn r nh set_it;
          r = r\<lparr>nexthops := nexthops r @ [nh'], nexthop_active_num := nexthop_active_num r + (if nh_active nh' then 1 else 0)\<rparr>;
          r = (if nh_active nh \<noteq> nh_active nh' then r\<lparr>rib_flags := SET_FLAG (rib_flags r) ZEBRA_FLAG_CHANGED\<rparr> else r)
      in update_hops z rn set_it nhs r)"

definition nexthop_active_update :: "zebra \<Rightarrow> prefix \<Rightarrow> rib \<Rightarrow> bool \<Rightarrow> rib" where
  "nexthop_active_update z rn r set_it =
     update_hops z rn set_it (nexthops r)
       (r\<lparr>nexthop_active_num := 0, rib_flags := UNSET_FLAG (rib_flags r) ZEBRA_FLAG_CHANGED, nexthops := []\<rparr>)"

subsection \<open>Selection\<close>

definition RIB_SYSTEM_ROUTE :: "rib \<Rightarrow> bool" where
  "RIB_SYSTEM_ROUTE r \<longleftrightarrow> rib_type r = ZEBRA_ROUTE_KERNEL \<or> rib_type r = ZEBRA_ROUTE_CONNECT"

definition unset_fib :: "rib \<Rightarrow> rib" where
  "unset_fib r = r\<lparr>nexthops := map (\<lambda>nh. nh\<lparr>nh_flags := UNSET_FLAG (nh_flags nh) NEXTHOP_FLAG_FIB\<rparr>) (nexthops r)\<rparr>"

definition rib_install_kernel :: "kernel \<Rightarrow> prefix \<Rightarrow> rib \<Rightarrow> rib \<times> zebra_request list" where
  "rib_install_kernel kern p r =
     (if family p = AF_INET \<or> family p = AF_INET6
      then let (ret, r') = kernel_add kern p r in (if ret < 0 then unset_fib r' else r', [Kernel_add p r])
      else (r, []))"

definition rib_uninstall_kernel :: "kernel \<Rightarrow> prefix \<Rightarrow> rib \<Rightarrow> int \<times> rib \<times> zebra_request list" where
  "rib_uninstall_kernel kern p r =
     (if family p = AF_INET \<or> family p = AF_INET6
      then (kernel_delete kern p r, unset_fib r, [Kernel_delete p r])
      else (0, unset_fib r, []))"

definition redistribute_delete :: "prefix \<Rightarrow> rib \<Rightarrow> zebra_request list" where
  "redistribute_delete p r = (if distance r = DISTANCE_INFINITY then [] else [Redistribute_delete p r])"

definition select_rib :: "bool \<Rightarrow> rib \<Rightarrow> rib" where
  "select_rib b r =
     r\<lparr>rib_flags := (if b then SET_FLAG (rib_flags r) ZEBRA_FLAG_SELECTED else UNSET_FLAG (rib_flags r) ZEBRA_FLAG_SELECTED)\<rparr>"

definition uninstall_unless_system :: "kernel \<Rightarrow> prefix \<Rightarrow> rib \<Rightarrow> rib \<times> zebra_request list" where
  "uninstall_unless_system kern p r =
     (if \<not> RIB_SYSTEM_ROUTE r then let (_, r, a) = rib_uninstall_kernel kern p r in (r, a) else (r, []))"

definition install_unless_system :: "kernel \<Rightarrow> prefix \<Rightarrow> rib \<Rightarrow> rib \<times> zebra_request list" where
  "install_unless_system kern p r = (if \<not> RIB_SYSTEM_ROUTE r then rib_install_kernel kern p r else (r, []))"

definition rib_uninstall :: "kernel \<Rightarrow> prefix \<Rightarrow> rib \<Rightarrow> rib \<times> zebra_request list" where
  "rib_uninstall kern p r =
     (if is_selected r
      then let (r', a) = uninstall_unless_system kern p r in (select_rib False r', redistribute_delete p r @ a)
      else (r, []))"

text \<open>The first loop of \<open>rib_process\<close>, over the positions of the list: the routes with their next hops checked, the route
  selected before, the route to select.\<close>

fun process_loop :: "zebra \<Rightarrow> prefix \<Rightarrow> nat list \<Rightarrow> rib list \<Rightarrow> nat option \<Rightarrow> nat option \<Rightarrow> rib list \<times> nat option \<times> nat option" where
  "process_loop z p [] rs fib sel = (rs, fib, sel)"
| "process_loop z p (i # is) rs fib sel =
     (let fib = (if is_selected (rs ! i) then Some i else fib);
          r = nexthop_active_update z p (rs ! i) False;
          rs = rs[i := r]
      in if nexthop_active_num r = 0 then process_loop z p is rs fib sel
         else if distance r = DISTANCE_INFINITY then process_loop z p is rs fib sel
         else if (case sel of None \<Rightarrow> True | Some s \<Rightarrow> distance r < distance (rs ! s)) \<or> rib_type r = ZEBRA_ROUTE_CONNECT
         then process_loop z p is rs fib (Some i)
         else process_loop z p is rs fib sel)"

text \<open>The route to uninstall: one of the list or the deleted one.\<close>

definition uninstall_old :: "zebra \<Rightarrow> kernel \<Rightarrow> prefix \<Rightarrow> rib \<Rightarrow> rib \<times> zebra_request list" where
  "uninstall_old z kern p r =
     (let (r', a) = uninstall_unless_system kern p r
      in (nexthop_active_update z p (select_rib False r') True, redistribute_delete p r @ a))"

definition install_new :: "zebra \<Rightarrow> kernel \<Rightarrow> prefix \<Rightarrow> rib \<Rightarrow> rib \<times> zebra_request list" where
  "install_new z kern p r =
     (let (r, a) = install_unless_system kern p (nexthop_active_update z p r True); r = select_rib True r
      in (r, a @ [Redistribute_add p r]))"

definition reinstall :: "zebra \<Rightarrow> kernel \<Rightarrow> prefix \<Rightarrow> rib \<Rightarrow> rib \<times> zebra_request list" where
  "reinstall z kern p r =
     (let (r1, a1) = uninstall_unless_system kern p r;
          (r2, a2) = install_unless_system kern p (nexthop_active_update z p r1 True)
      in (r2, redistribute_delete p r @ a1 @ a2 @ [Redistribute_add p r2]))"

definition rib_process :: "zebra \<Rightarrow> kernel \<Rightarrow> prefix \<Rightarrow> rib list \<Rightarrow> rib option \<Rightarrow> rib list \<times> zebra_request list" where
  "rib_process z kern p rs del =
     (let (rs, fib, sel) = process_loop z p [0..<length rs] rs None None;
          gone = (case del of None \<Rightarrow> False | Some d \<Rightarrow> is_selected d)
      in if sel \<noteq> None \<and> \<not> gone \<and> sel = fib
         then let s = the sel in
              if CHECK_FLAG (rib_flags (rs ! s)) ZEBRA_FLAG_CHANGED
              then let (r, a) = reinstall z kern p (rs ! s) in (rs[s := r], a)
              else (rs, [])
         else let (rs, a1) = (if gone then (rs, snd (uninstall_old z kern p (the del)))
                              else case fib of
                                     None \<Rightarrow> (rs, [])
                                   | Some f \<Rightarrow> let (r, a) = uninstall_old z kern p (rs ! f) in (rs[f := r], a));
                  (rs, a2) = (case sel of
                                None \<Rightarrow> (rs, [])
                              | Some s \<Rightarrow> let (r, a) = install_new z kern p (rs ! s) in (rs[s := r], a))
              in (rs, a1 @ a2))"

section \<open>What processing keeps of a route\<close>

definition rib_key :: "rib \<Rightarrow> u8 \<times> int \<times> u8 \<times> ulong" where
  "rib_key r = (rib_type r, rib_table r, distance r, rib_refcnt r)"

text \<open>The interface to the kernel marks next hops and changes nothing else.\<close>

definition kernel_ok :: "kernel \<Rightarrow> bool" where
  "kernel_ok kern \<longleftrightarrow> (\<forall>p r. \<exists>hs. snd (kernel_add kern p r) = r\<lparr>nexthops := hs\<rparr>)"

lemma flag_bits [simp]:
  "(0x20 :: u8) AND 0x10 = 0" "(0x10 :: u8) AND 0x20 = 0"
  by simp_all

lemma update_hops_keeps:
  "rib_key (update_hops z rn b hs r) = rib_key r \<and> is_selected (update_hops z rn b hs r) = is_selected r"
  by (induction hs arbitrary: r) (simp_all add: Let_def rib_key_def is_selected_def)

lemma nexthop_active_update_keeps [simp]:
  "rib_key (nexthop_active_update z rn r b) = rib_key r" "is_selected (nexthop_active_update z rn r b) = is_selected r"
  by (simp_all add: nexthop_active_update_def update_hops_keeps) (simp_all add: rib_key_def is_selected_def)

lemma rib_key_eqD: "rib_key r = rib_key r' \<Longrightarrow> rib_type r = rib_type r' \<and> distance r = distance r' \<and> rib_refcnt r = rib_refcnt r'"
  by (simp add: rib_key_def)

lemma update_type [simp]: "rib_type (nexthop_active_update z rn r b) = rib_type r" "distance (nexthop_active_update z rn r b) = distance r"
  "rib_refcnt (nexthop_active_update z rn r b) = rib_refcnt r" "RIB_SYSTEM_ROUTE (nexthop_active_update z rn r b) = RIB_SYSTEM_ROUTE r"
  using nexthop_active_update_keeps(1) [of z rn r b, THEN rib_key_eqD] by (simp_all add: RIB_SYSTEM_ROUTE_def)

lemma select_rib_keeps [simp]: "rib_key (select_rib b r) = rib_key r" "is_selected (select_rib b r) = b"
  "RIB_SYSTEM_ROUTE (select_rib b r) = RIB_SYSTEM_ROUTE r" "distance (select_rib b r) = distance r"
  by (simp_all add: select_rib_def rib_key_def is_selected_def RIB_SYSTEM_ROUTE_def)

lemma unset_fib_keeps [simp]: "rib_key (unset_fib r) = rib_key r" "is_selected (unset_fib r) = is_selected r"
  "RIB_SYSTEM_ROUTE (unset_fib r) = RIB_SYSTEM_ROUTE r" "distance (unset_fib r) = distance r"
  by (simp_all add: unset_fib_def rib_key_def is_selected_def RIB_SYSTEM_ROUTE_def)

lemma uninstall_keeps:
  assumes "uninstall_unless_system kern p r = (r', a)"
  shows "rib_key r' = rib_key r" "is_selected r' = is_selected r" "RIB_SYSTEM_ROUTE r' = RIB_SYSTEM_ROUTE r"
  using assms by (auto simp: uninstall_unless_system_def rib_uninstall_kernel_def split: if_splits)

lemma install_keeps:
  assumes "install_unless_system kern p r = (r', a)" "kernel_ok kern"
  shows "rib_key r' = rib_key r" "is_selected r' = is_selected r" "RIB_SYSTEM_ROUTE r' = RIB_SYSTEM_ROUTE r"
proof -
  obtain hs where "snd (kernel_add kern p r) = r\<lparr>nexthops := hs\<rparr>" using assms(2) by (auto simp: kernel_ok_def)
  then have "rib_key (snd (kernel_add kern p r)) = rib_key r \<and> is_selected (snd (kernel_add kern p r)) = is_selected r \<and>
    RIB_SYSTEM_ROUTE (snd (kernel_add kern p r)) = RIB_SYSTEM_ROUTE r"
    by (simp add: rib_key_def is_selected_def RIB_SYSTEM_ROUTE_def)
  then show "rib_key r' = rib_key r" "is_selected r' = is_selected r" "RIB_SYSTEM_ROUTE r' = RIB_SYSTEM_ROUTE r"
    using assms(1) by (auto simp: install_unless_system_def rib_install_kernel_def split: if_splits prod.splits)
qed

section \<open>The selection\<close>

text \<open>A route that can be used, and the step of the loop on the initial list.\<close>

definition usable :: "zebra \<Rightarrow> prefix \<Rightarrow> rib \<Rightarrow> bool" where
  "usable z p r \<longleftrightarrow> nexthop_active_num (nexthop_active_update z p r False) \<noteq> 0 \<and> distance r \<noteq> DISTANCE_INFINITY"

definition pick :: "zebra \<Rightarrow> prefix \<Rightarrow> rib list \<Rightarrow> nat \<Rightarrow> nat option \<Rightarrow> nat option" where
  "pick z p rs i sel =
     (if usable z p (rs ! i) \<and>
         ((case sel of None \<Rightarrow> True | Some s \<Rightarrow> distance (rs ! i) < distance (rs ! s)) \<or> rib_type (rs ! i) = ZEBRA_ROUTE_CONNECT)
      then Some i else sel)"

definition checked :: "zebra \<Rightarrow> prefix \<Rightarrow> rib \<Rightarrow> rib" where
  "checked z p r = nexthop_active_update z p r False"

lemma checked_keeps [simp]: "rib_key (checked z p r) = rib_key r" "is_selected (checked z p r) = is_selected r"
  "RIB_SYSTEM_ROUTE (checked z p r) = RIB_SYSTEM_ROUTE r" "distance (checked z p r) = distance r" "rib_type (checked z p r) = rib_type r"
  by (simp_all add: checked_def)

lemma pick_cong:
  assumes "rs' ! i = rs ! i" "\<And>s. distance (rs' ! s) = distance (rs ! s)"
  shows "pick z p rs' i sel = pick z p rs i sel"
  using assms by (cases sel) (simp_all add: pick_def)

lemma process_loop_fold:
  assumes "distinct is" "\<forall>i\<in>set is. i < length rs"
  shows "process_loop z p is rs fib sel =
    (fold (\<lambda>i rs. rs[i := checked z p (rs ! i)]) is rs, fold (\<lambda>i f. if is_selected (rs ! i) then Some i else f) is fib,
     fold (pick z p rs) is sel)"
  using assms
proof (induction "is" arbitrary: rs fib sel)
  case (Cons i "is")
  let ?rs = "rs[i := checked z p (rs ! i)]"
  have i: "i < length rs" "i \<notin> set is" "\<forall>j\<in>set is. j < length ?rs" using Cons.prems by auto
  have nth: "?rs ! j = rs ! j" if "j \<in> set is" for j using i that by (metis nth_list_update_neq)
  have d: "distance (?rs ! s) = distance (rs ! s)" for s using i(1) by (cases "s = i") (auto simp: nth_list_update)
  have f: "fold (\<lambda>j f. if is_selected (?rs ! j) then Some j else f) is g = fold (\<lambda>j f. if is_selected (rs ! j) then Some j else f) is g" for g
    by (rule fold_cong) (use nth in auto)
  have s: "fold (pick z p ?rs) is g = fold (pick z p rs) is g" for g
    by (rule fold_cong) (auto intro!: pick_cong nth d)
  have step: "process_loop z p (i # is) rs fib sel =
    process_loop z p is ?rs (if is_selected (rs ! i) then Some i else fib) (pick z p rs i sel)"
    using i(1) by (auto simp: Let_def checked_def pick_def usable_def nth_list_update split: option.splits)
  show ?case unfolding step using Cons.IH [of ?rs] Cons.prems(1) i(3) by (simp add: f s)
qed simp

lemma fold_update_all:
  "fold (\<lambda>i rs. rs[i := f (rs ! i)]) [0..<length rs] rs = map f rs"
proof -
  have "fold (\<lambda>i rs. rs[i := f (rs ! i)]) [0..<n] rs = map f (take n rs) @ drop n rs" if "n \<le> length rs" for n
    using that
  proof (induction n)
    case (Suc n)
    then show ?case
      by (simp add: take_Suc_conv_app_nth nth_append min_def list_update_append Cons_nth_drop_Suc [symmetric])
  qed simp
  from this [of "length rs"] show ?thesis by simp
qed

text \<open>Which route wins.\<close>

definition wins :: "zebra \<Rightarrow> prefix \<Rightarrow> rib list \<Rightarrow> nat \<Rightarrow> bool" where
  "wins z p rs s \<longleftrightarrow> s < length rs \<and> usable z p (rs ! s) \<and>
     (\<forall>i<length rs. usable z p (rs ! i) \<longrightarrow> distance (rs ! s) \<le> distance (rs ! i) \<and>
        (rib_type (rs ! i) = ZEBRA_ROUTE_CONNECT \<longrightarrow> rib_type (rs ! s) = ZEBRA_ROUTE_CONNECT \<and> i \<le> s) \<and>
        (rib_type (rs ! s) \<noteq> ZEBRA_ROUTE_CONNECT \<and> i < s \<longrightarrow> distance (rs ! s) < distance (rs ! i)))"

definition connected_first :: "rib list \<Rightarrow> bool" where
  "connected_first rs \<longleftrightarrow> (\<forall>r\<in>set rs. rib_type r = ZEBRA_ROUTE_CONNECT \<longrightarrow> distance r = 0)"

lemma pick_wins_upto:
  assumes c: "connected_first rs" and n: "n \<le> length rs"
  shows "case fold (pick z p rs) [0..<n] None of
      None \<Rightarrow> \<forall>i<n. \<not> usable z p (rs ! i)
    | Some s \<Rightarrow> wins z p (take n rs) s"
  using n
proof (induction n)
  case (Suc n)
  have IH: "case fold (pick z p rs) [0..<n] None of None \<Rightarrow> \<forall>i<n. \<not> usable z p (rs ! i) | Some s \<Rightarrow> wins z p (take n rs) s"
    using Suc by simp
  have nth: "take (Suc n) rs ! i = rs ! i" "take n rs ! j = rs ! j" if "i \<le> n" "j < n" for i j using that by simp_all
  have len: "length (take (Suc n) rs) = Suc n" "length (take n rs) = n" using Suc.prems by simp_all
  have c0: "distance (rs ! i) = 0" if "rib_type (rs ! i) = ZEBRA_ROUTE_CONNECT" "i \<le> n" for i
    using c Suc.prems that by (auto simp: connected_first_def)
  define sel where "sel = fold (pick z p rs) [0..<n] None"
  have e: "fold (pick z p rs) [0..<Suc n] None = pick z p rs n sel" by (simp add: sel_def)
  show ?case
  proof (cases sel)
    case None
    then have "\<forall>i<n. \<not> usable z p (rs ! i)" using IH by (simp add: sel_def)
    then show ?thesis unfolding e using None Suc.prems
      by (auto simp: pick_def wins_def len less_Suc_eq_le le_less)
  next
    case (Some s)
    then have w: "wins z p (take n rs) s" using IH by (simp add: sel_def)
    then have s: "s < n" by (simp add: wins_def len)
    have w': "usable z p (rs ! s)" "\<And>i. i < n \<Longrightarrow> usable z p (rs ! i) \<Longrightarrow> distance (rs ! s) \<le> distance (rs ! i)"
      "\<And>i. i < n \<Longrightarrow> usable z p (rs ! i) \<Longrightarrow> rib_type (rs ! i) = ZEBRA_ROUTE_CONNECT \<Longrightarrow> rib_type (rs ! s) = ZEBRA_ROUTE_CONNECT \<and> i \<le> s"
      "\<And>i. i < s \<Longrightarrow> usable z p (rs ! i) \<Longrightarrow> rib_type (rs ! s) \<noteq> ZEBRA_ROUTE_CONNECT \<Longrightarrow> distance (rs ! s) < distance (rs ! i)"
      using w s Suc.prems by (auto simp: wins_def len)
    show ?thesis
    proof (cases "pick z p rs n sel = sel")
      case True
      have n: "usable z p (rs ! n) \<longrightarrow> distance (rs ! s) \<le> distance (rs ! n) \<and> rib_type (rs ! n) \<noteq> ZEBRA_ROUTE_CONNECT"
        using True Some s by (auto simp: pick_def not_less split: if_splits)
      have "wins z p (take (Suc n) rs) s"
        using s w' n Suc.prems by (auto simp: wins_def len less_Suc_eq_le le_less)
      then show ?thesis unfolding e True unfolding Some by simp
    next
      case False
      then have n: "usable z p (rs ! n)" "distance (rs ! n) < distance (rs ! s) \<or> rib_type (rs ! n) = ZEBRA_ROUTE_CONNECT"
        "pick z p rs n sel = Some n"
        using Some by (auto simp: pick_def split: if_splits)
      have ns: "rib_type (rs ! s) \<noteq> ZEBRA_ROUTE_CONNECT \<or> rib_type (rs ! n) = ZEBRA_ROUTE_CONNECT"
        using n(2) c0 [of s] s by auto
      have le: "distance (rs ! n) \<le> distance (rs ! s)" using n(2) c0 [of n] by auto
      have lt: "distance (rs ! n) < distance (rs ! i)" if "i < n" "usable z p (rs ! i)" "rib_type (rs ! n) \<noteq> ZEBRA_ROUTE_CONNECT" for i
        using that n(2) w'(2) [of i] by auto
      have le': "distance (rs ! n) \<le> distance (rs ! i)" if "i < n" "usable z p (rs ! i)" for i
        using order_trans [OF le w'(2) [OF that]] .
      have wn: "wins z p (take (Suc n) rs) n"
        unfolding wins_def len using n(1) ns w'(3) le' lt by (auto simp: less_Suc_eq)
      then show ?thesis unfolding e n(3) by simp
    qed
  qed
qed simp

lemma pick_wins:
  assumes "connected_first rs"
  shows "case fold (pick z p rs) [0..<length rs] None of
      None \<Rightarrow> \<forall>i<length rs. \<not> usable z p (rs ! i) | Some s \<Rightarrow> wins z p rs s"
  using pick_wins_upto [OF assms order_refl, of z p] by (simp cong: option.case_cong)

lemma pick_range:
  "fold (pick z p rs) [0..<n] None = Some s \<Longrightarrow> s < n \<and> usable z p (rs ! s)"
proof (induction n arbitrary: s)
  case (Suc n)
  then show ?case by (auto simp: pick_def less_Suc_eq split: if_splits)
qed simp

lemma last_selected:
  "case fold (\<lambda>i f. if is_selected (rs ! i) then Some i else f) [0..<n] None of
     None \<Rightarrow> \<forall>i<n. \<not> is_selected (rs ! i) | Some f \<Rightarrow> f < n \<and> is_selected (rs ! f)"
  by (induction n) (auto simp: less_Suc_eq split: option.splits)

text \<open>At most one route is selected, and none of infinite distance.\<close>

definition node_ok :: "rib list \<Rightarrow> bool" where
  "node_ok rs \<longleftrightarrow> (\<forall>i j. i < length rs \<and> j < length rs \<and> is_selected (rs ! i) \<and> is_selected (rs ! j) \<longrightarrow> i = j) \<and>
     (\<forall>r\<in>set rs. is_selected r \<longrightarrow> distance r \<noteq> DISTANCE_INFINITY)"

definition is_gone :: "rib option \<Rightarrow> bool" where
  "is_gone del = (case del of None \<Rightarrow> False | Some d \<Rightarrow> is_selected d)"

text \<open>The list after the deletion of \<open>del\<close>.\<close>

definition deleted_ok :: "rib list \<Rightarrow> rib option \<Rightarrow> bool" where
  "deleted_ok rs del \<longleftrightarrow> (is_gone del \<longrightarrow> (\<forall>r\<in>set rs. \<not> is_selected r) \<and> distance (the del) \<noteq> DISTANCE_INFINITY)"

lemma uninstall_old_keeps:
  "rib_key (fst (uninstall_old z kern p r)) = rib_key r" "\<not> is_selected (fst (uninstall_old z kern p r))"
  using uninstall_keeps [of kern p r] by (auto simp: uninstall_old_def split: prod.split)

lemma install_new_keeps:
  assumes "kernel_ok kern"
  shows "rib_key (fst (install_new z kern p r)) = rib_key r" "is_selected (fst (install_new z kern p r))"
  using install_keeps [OF _ assms, of p "nexthop_active_update z p r True"] by (auto simp: install_new_def Let_def split: prod.split)

lemma reinstall_keeps:
  assumes "kernel_ok kern"
  shows "rib_key (fst (reinstall z kern p r)) = rib_key r" "is_selected (fst (reinstall z kern p r)) = is_selected r"
proof -
  obtain r1 a1 where u: "uninstall_unless_system kern p r = (r1, a1)" by fastforce
  obtain r2 a2 where i: "install_unless_system kern p (nexthop_active_update z p r1 True) = (r2, a2)" by fastforce
  show "rib_key (fst (reinstall z kern p r)) = rib_key r" "is_selected (fst (reinstall z kern p r)) = is_selected r"
    using uninstall_keeps [OF u] install_keeps [OF i assms] by (simp_all add: reinstall_def u i)
qed

text \<open>The three outcomes of \<open>rib_process\<close>.\<close>

lemma rib_process_cases:
  fixes z :: zebra and kern :: kernel and p :: prefix and rs :: "rib list" and del :: "rib option"
  defines "sel \<equiv> fold (pick z p rs) [0..<length rs] None"
  assumes ok: "node_ok rs" and del: "deleted_ok rs del"
  obtains
    (same) s where "sel = Some s" "s < length rs" "is_selected (rs ! s)" "\<not> is_gone del"
      "rib_process z kern p rs del =
        (if CHECK_FLAG (rib_flags (checked z p (rs ! s))) ZEBRA_FLAG_CHANGED
         then let (r, a) = reinstall z kern p (checked z p (rs ! s)) in ((map (checked z p) rs)[s := r], a)
         else (map (checked z p) rs, []))"
  | (gone) "is_gone del" "\<forall>r\<in>set rs. \<not> is_selected r"
      "rib_process z kern p rs del =
        (let (rs', a) = (case sel of None \<Rightarrow> (map (checked z p) rs, [])
           | Some s \<Rightarrow> let (r, a) = install_new z kern p (checked z p (rs ! s)) in ((map (checked z p) rs)[s := r], a))
         in (rs', snd (uninstall_old z kern p (the del)) @ a))"
  | (none) "\<not> is_gone del" "\<forall>r\<in>set rs. \<not> is_selected r"
      "rib_process z kern p rs del =
        (case sel of None \<Rightarrow> (map (checked z p) rs, [])
         | Some s \<Rightarrow> let (r, a) = install_new z kern p (checked z p (rs ! s)) in ((map (checked z p) rs)[s := r], a))"
  | (change) f where "\<not> is_gone del" "f < length rs" "is_selected (rs ! f)" "sel \<noteq> Some f"
      "rib_process z kern p rs del =
        (let (rf, a1) = uninstall_old z kern p (checked z p (rs ! f));
             (rs', a2) = (case sel of None \<Rightarrow> ((map (checked z p) rs)[f := rf], [])
               | Some s \<Rightarrow> let (r, a) = install_new z kern p (checked z p (rs ! s)) in ((map (checked z p) rs)[f := rf, s := r], a))
         in (rs', a1 @ a2))"
proof -
  define fib where "fib = fold (\<lambda>i f. if is_selected (rs ! i) then Some i else f) [0..<length rs] None"
  have lp: "process_loop z p [0..<length rs] rs None None = (map (checked z p) rs, fib, sel)"
    using process_loop_fold [of "[0..<length rs]" rs z p None None]
    by (simp add: sel_def fib_def fold_update_all [of "checked z p"])
  have lf: "case fib of None \<Rightarrow> \<forall>i<length rs. \<not> is_selected (rs ! i) | Some f \<Rightarrow> f < length rs \<and> is_selected (rs ! f)"
    using last_selected [where rs = rs and n = "length rs"] by (simp add: fib_def)
  have sr: "s < length rs" if "sel = Some s" for s using pick_range that by (auto simp: sel_def)
  have unf: "rib_process z kern p rs del =
     (if sel \<noteq> None \<and> \<not> is_gone del \<and> sel = fib
      then let s = the sel in
           if CHECK_FLAG (rib_flags (map (checked z p) rs ! s)) ZEBRA_FLAG_CHANGED
           then let (r, a) = reinstall z kern p (map (checked z p) rs ! s) in ((map (checked z p) rs)[s := r], a)
           else (map (checked z p) rs, [])
      else let (rs1, a1) = (if is_gone del then (map (checked z p) rs, snd (uninstall_old z kern p (the del)))
                           else case fib of None \<Rightarrow> (map (checked z p) rs, [])
                                | Some f \<Rightarrow> let (r, a) = uninstall_old z kern p (map (checked z p) rs ! f) in ((map (checked z p) rs)[f := r], a));
               (rs2, a2) = (case sel of None \<Rightarrow> (rs1, [])
                           | Some s \<Rightarrow> let (r, a) = install_new z kern p (rs1 ! s) in (rs1[s := r], a))
           in (rs2, a1 @ a2))"
    unfolding rib_process_def lp is_gone_def [symmetric] by (simp only: Let_def prod.case)
  show ?thesis
  proof (cases "is_gone del")
    case True
    then have no: "\<forall>r\<in>set rs. \<not> is_selected r" using del by (simp add: deleted_ok_def)
    show ?thesis
    proof (rule gone [OF True no])
      show "rib_process z kern p rs del =
        (let (rs', a) = (case sel of None \<Rightarrow> (map (checked z p) rs, [])
           | Some s \<Rightarrow> let (r, a) = install_new z kern p (checked z p (rs ! s)) in ((map (checked z p) rs)[s := r], a))
         in (rs', snd (uninstall_old z kern p (the del)) @ a))"
        unfolding unf using True sr by (cases sel) (simp_all add: split_beta)
    qed
  next
    case ng: False
    show ?thesis
    proof (cases fib)
      case None
      then have no: "\<forall>r\<in>set rs. \<not> is_selected r" using lf by (auto simp: in_set_conv_nth)
      show ?thesis
        by (rule none [OF ng no]) (use None ng sr in \<open>cases sel; simp add: unf split_beta\<close>)
    next
      case (Some f)
      then have f: "f < length rs" "is_selected (rs ! f)" using lf by auto
      show ?thesis
      proof (cases "sel = Some f")
        case True
        show ?thesis
          by (rule same [OF True f ng]) (use Some True f ng in \<open>simp add: unf split_beta Let_def\<close>)
      next
        case False
        show ?thesis
          by (rule change [OF ng f False])
            (use Some False f ng sr in \<open>cases sel; auto simp: unf split_beta Let_def nth_list_update\<close>)
      qed
    qed
  qed
qed

section \<open>What the kernel and the daemons are told\<close>

text \<open>What identifies a route towards the kernel and the daemons.\<close>

definition rib_id :: "rib \<Rightarrow> u8 \<times> int \<times> u8" where
  "rib_id r = (rib_type r, rib_table r, distance r)"

type_synonym route_view = "(u8 \<times> int \<times> u8) option \<times> (u8 \<times> int \<times> u8) option"

text \<open>
  The route of a prefix as the daemons know it and as the kernel knows it, followed through the requests.  A request that
  announces a second route, or withdraws a route that is not the announced one, has no successor state.
\<close>

definition same_key :: "prefix \<Rightarrow> prefix \<Rightarrow> bool" where
  "same_key q p \<longleftrightarrow> family q = family p \<and> pfx_bits q = pfx_bits p"

lemma same_key_refl [simp]: "same_key p p"
  by (simp add: same_key_def)

fun req_step :: "prefix \<Rightarrow> zebra_request \<Rightarrow> route_view \<Rightarrow> route_view option" where
  "req_step p (Redistribute_add q r) (d, k) = (if \<not> same_key q p then Some (d, k) else if d = None then Some (Some (rib_id r), k) else None)"
| "req_step p (Redistribute_delete q r) (d, k) = (if \<not> same_key q p then Some (d, k) else if d = Some (rib_id r) then Some (None, k) else None)"
| "req_step p (Kernel_add q r) (d, k) = (if \<not> same_key q p then Some (d, k) else if k = None then Some (d, Some (rib_id r)) else None)"
| "req_step p (Kernel_delete q r) (d, k) = (if \<not> same_key q p then Some (d, k) else if k = Some (rib_id r) then Some (d, None) else None)"

definition view_of :: "rib option \<Rightarrow> route_view" where
  "view_of r = (map_option rib_id r, case r of None \<Rightarrow> None | Some r \<Rightarrow> if RIB_SYSTEM_ROUTE r then None else Some (rib_id r))"

lemma rib_key_id: "rib_key r = rib_key r' \<Longrightarrow> rib_id r = rib_id r'"
  by (simp add: rib_key_def rib_id_def)

lemma view_of_id: "rib_id r = rib_id r' \<Longrightarrow> view_of (Some r) = view_of (Some r')"
  by (simp add: view_of_def RIB_SYSTEM_ROUTE_def rib_id_def)

lemma view_of_cong: "rib_key r = rib_key r' \<Longrightarrow> view_of (Some r) = view_of (Some r')"
  by (rule view_of_id [OF rib_key_id])

lemma view_simps [simp]: "view_of None = (None, None)"
  "RIB_SYSTEM_ROUTE r \<Longrightarrow> view_of (Some r) = (Some (rib_id r), None)"
  "\<not> RIB_SYSTEM_ROUTE r \<Longrightarrow> view_of (Some r) = (Some (rib_id r), Some (rib_id r))"
  by (simp_all add: view_of_def)

abbreviation ip_prefix :: "prefix \<Rightarrow> bool" where
  "ip_prefix p \<equiv> family p = AF_INET \<or> family p = AF_INET6"

lemma uninstall_view:
  assumes "distance r \<noteq> DISTANCE_INFINITY" "ip_prefix p"
  shows "foldM (req_step p) (redistribute_delete p r @ snd (uninstall_unless_system kern p r)) (view_of (Some r)) = Some (view_of None)"
  using assms by (cases "RIB_SYSTEM_ROUTE r")
    (simp_all add: redistribute_delete_def uninstall_unless_system_def rib_uninstall_kernel_def)

lemma uninstall_old_view:
  assumes "distance r \<noteq> DISTANCE_INFINITY" "ip_prefix p"
  shows "foldM (req_step p) (snd (uninstall_old z kern p r)) (view_of (Some r)) = Some (view_of None)"
  using uninstall_view [OF assms] by (simp add: uninstall_old_def split_beta)

lemma install_view:
  assumes "ip_prefix p" "install_unless_system kern p r = (r', a)" "kernel_ok kern" "rib_key r2 = rib_key r"
  shows "foldM (req_step p) (a @ [Redistribute_add p r2]) (view_of None) = Some (view_of (Some r))"
  using assms by (cases "RIB_SYSTEM_ROUTE r")
    (auto simp: install_unless_system_def rib_install_kernel_def dest: rib_key_id split: prod.splits)

lemma install_new_view:
  assumes "ip_prefix p" "kernel_ok kern"
  shows "foldM (req_step p) (snd (install_new z kern p r)) (view_of None) = Some (view_of (Some r))"
proof -
  obtain r' a where i: "install_unless_system kern p (nexthop_active_update z p r True) = (r', a)" by fastforce
  have k: "rib_key (select_rib True r') = rib_key (nexthop_active_update z p r True)" using install_keeps [OF i assms(2)] by simp
  show ?thesis
    using install_view [OF assms(1) i assms(2) k] view_of_cong [of "nexthop_active_update z p r True" r]
    by (simp add: install_new_def i Let_def)
qed

lemma reinstall_view:
  assumes "distance r \<noteq> DISTANCE_INFINITY" "ip_prefix p" "kernel_ok kern"
  shows "foldM (req_step p) (snd (reinstall z kern p r)) (view_of (Some r)) = Some (view_of (Some r))"
proof -
  obtain r1 a1 where u: "uninstall_unless_system kern p r = (r1, a1)" by fastforce
  obtain r2 a2 where i: "install_unless_system kern p (nexthop_active_update z p r1 True) = (r2, a2)" by fastforce
  have k: "rib_key (nexthop_active_update z p r1 True) = rib_key r" "rib_key r2 = rib_key (nexthop_active_update z p r1 True)"
    using uninstall_keeps [OF u] install_keeps [OF i assms(3)] by simp_all
  have "foldM (req_step p) ((redistribute_delete p r @ a1) @ (a2 @ [Redistribute_add p r2])) (view_of (Some r)) =
      Some (view_of (Some (nexthop_active_update z p r1 True)))"
    unfolding foldM_append [of _ "redistribute_delete p r @ a1"]
    using uninstall_view [OF assms(1,2), of kern] install_view [OF assms(2) i assms(3) k(2)] u by simp
  then show ?thesis using view_of_cong [OF k(1)] by (simp add: reinstall_def u i)
qed

text \<open>The route the daemons and the kernel know before the list is processed.\<close>

definition old_route :: "rib list \<Rightarrow> rib option \<Rightarrow> rib option" where
  "old_route rs del = (if is_gone del then del else find is_selected rs)"

lemma find_only:
  assumes "\<And>i. i < length rs \<Longrightarrow> is_selected (rs ! i) \<longleftrightarrow> sel = Some i" "\<And>s. sel = Some s \<Longrightarrow> s < length rs"
  shows "find is_selected rs = map_option ((!) rs) sel"
proof (cases sel)
  case None
  then show ?thesis using assms(1) by (auto simp: find_None_iff in_set_conv_nth)
next
  case (Some s)
  then show ?thesis using assms by (auto simp: find_Some_iff)
qed

lemma node_ok_find:
  assumes "node_ok rs" "f < length rs" "is_selected (rs ! f)"
  shows "find is_selected rs = Some (rs ! f)"
  using find_only [of rs "Some f"] assms by (auto simp: node_ok_def)

lemma unselect_none:
  assumes "node_ok rs" "f < length rs" "is_selected (rs ! f)" "\<not> is_selected r"
  shows "\<forall>x\<in>set (rs[f := r]). \<not> is_selected x"
proof
  fix x assume "x \<in> set (rs[f := r])"
  then obtain i where "i < length rs" "x = rs[f := r] ! i" by (auto simp: in_set_conv_nth)
  then show "\<not> is_selected x" using assms by (cases "i = f") (auto simp: node_ok_def)
qed

lemma find_none_selected: "\<forall>r\<in>set rs. \<not> is_selected r \<Longrightarrow> find is_selected rs = None"
  by (auto simp: find_None_iff)

lemma install_pick:
  assumes kern: "kernel_ok kern" and p: "ip_prefix p" and rs: "\<forall>r\<in>set rs. \<not> is_selected r"
    and s: "\<And>s. sel = Some s \<Longrightarrow> s < length rs"
    and e: "(rs', a) = (case sel of None \<Rightarrow> (rs, []) | Some s \<Rightarrow> let (r, a) = install_new z kern p (rs ! s) in (rs[s := r], a))"
  shows "map rib_key rs' = map rib_key rs" "\<And>i. i < length rs \<Longrightarrow> is_selected (rs' ! i) \<longleftrightarrow> sel = Some i"
    "foldM (req_step p) a (view_of None) = Some (view_of (map_option ((!) rs) sel))"
proof -
  note k = install_new_keeps [OF kern, where z = z and p = p]
  show "map rib_key rs' = map rib_key rs"
    using e s k by (cases sel) (auto simp: split_beta map_update intro: list_update_same_conv [THEN iffD2])
  show "is_selected (rs' ! i) \<longleftrightarrow> sel = Some i" if "i < length rs" for i
    using e s k rs that by (cases sel) (auto simp: split_beta nth_list_update)
  show "foldM (req_step p) a (view_of None) = Some (view_of (map_option ((!) rs) sel))"
    using e install_new_view [OF p kern, where z = z] by (cases sel) (auto simp: split_beta)
qed

lemma map_key_checked: "map rib_key (map (checked z p) rs) = map rib_key rs"
  by simp

lemma checked_none: "\<forall>r\<in>set rs. \<not> is_selected r \<Longrightarrow> \<forall>r\<in>set (map (checked z p) rs). \<not> is_selected r"
  by simp

lemma view_of_map_key:
  assumes "map rib_key rs' = map rib_key rs" "\<And>s. sel = Some s \<Longrightarrow> s < length rs"
  shows "view_of (map_option ((!) rs') sel) = view_of (map_option ((!) rs) sel)"
proof (cases sel)
  case (Some s)
  then have "rib_key (rs' ! s) = rib_key (rs ! s)" using assms by (metis length_map nth_map)
  then have "view_of (Some (rs' ! s)) = view_of (Some (rs ! s))" by (rule view_of_cong)
  then show ?thesis using Some by simp
qed simp

lemma rib_process_spec:
  fixes z :: zebra and p :: prefix and rs :: "rib list"
  defines "sel \<equiv> fold (pick z p rs) [0..<length rs] None"
  assumes ok: "node_ok rs" "deleted_ok rs del" and kern: "kernel_ok kern" and p: "ip_prefix p"
    and run: "rib_process z kern p rs del = (rs', a)"
  shows "map rib_key rs' = map rib_key rs \<and> (\<forall>i<length rs. is_selected (rs' ! i) \<longleftrightarrow> sel = Some i) \<and>
    foldM (req_step p) a (view_of (old_route rs del)) = Some (view_of (find is_selected rs'))"
proof -
  have sr: "\<And>s. sel = Some s \<Longrightarrow> s < length rs" using pick_range by (auto simp: sel_def)
  have fin: "view_of (find is_selected rs') = view_of (map_option ((!) rs) sel)"
    if k: "map rib_key rs' = map rib_key rs" and s: "\<And>i. i < length rs \<Longrightarrow> is_selected (rs' ! i) \<longleftrightarrow> sel = Some i"
  proof -
    have l: "length rs' = length rs" using k by (metis length_map)
    show ?thesis using find_only [of rs' sel] view_of_map_key [OF k sr] s sr l by simp
  qed
  have fin': "?thesis"
    if k: "map rib_key rs' = map rib_key rs" and s: "\<And>i. i < length rs \<Longrightarrow> is_selected (rs' ! i) \<longleftrightarrow> sel = Some i"
      and v: "foldM (req_step p) a (view_of (old_route rs del)) = Some (view_of (map_option ((!) rs) sel))"
    using fin [OF k s] k s v by simp
  let ?c = "map (checked z p) rs"
  show ?thesis
    using ok
  proof (cases rule: rib_process_cases [of rs del z p kern])
    case (same s)
    have s: "sel = Some s" using same(1) by (simp add: sel_def)
    have only: "is_selected (rs ! i) \<longleftrightarrow> sel = Some i" if "i < length rs" for i
      using ok(1) same(2,3) s that by (auto simp: node_ok_def)
    have old: "view_of (old_route rs del) = view_of (Some (checked z p (rs ! s)))"
      using node_ok_find [OF ok(1) same(2,3)] same(4) view_of_cong [of "checked z p (rs ! s)" "rs ! s"] by (simp add: old_route_def)
    have d: "distance (checked z p (rs ! s)) \<noteq> DISTANCE_INFINITY" using ok(1) same(2,3) by (auto simp: node_ok_def)
    have new: "view_of (map_option ((!) rs) sel) = view_of (Some (checked z p (rs ! s)))"
      using s view_of_cong [of "checked z p (rs ! s)" "rs ! s"] by simp
    note rk = reinstall_keeps [OF kern, where z = z and p = p and r = "checked z p (rs ! s)"]
    show ?thesis
    proof (cases "CHECK_FLAG (rib_flags (checked z p (rs ! s))) ZEBRA_FLAG_CHANGED")
      case True
      then have r: "rs' = ?c[s := fst (reinstall z kern p (checked z p (rs ! s)))]" "a = snd (reinstall z kern p (checked z p (rs ! s)))"
        using run same(5) by (auto simp: split_beta)
      show ?thesis
      proof (rule fin')
        show "map rib_key rs' = map rib_key rs"
          unfolding r(1) map_update rk(1) using same(2) by (intro nth_equalityI) (auto simp: nth_list_update)
        show "is_selected (rs' ! i) \<longleftrightarrow> sel = Some i" if "i < length rs" for i
          using only [OF that] that rk(2) same(2) unfolding r(1) by (cases "i = s") simp_all
        show "foldM (req_step p) a (view_of (old_route rs del)) = Some (view_of (map_option ((!) rs) sel))"
          unfolding old new r(2) by (rule reinstall_view [OF d p kern])
      qed
    next
      case False
      then have r: "rs' = ?c" "a = []" using run same(5) by auto
      show ?thesis by (rule fin') (use only old new r in \<open>simp_all\<close>)
    qed
  next
    case gone
    define b where "b = snd (case sel of None \<Rightarrow> (?c, []) | Some s \<Rightarrow> let (r, a) = install_new z kern p (?c ! s) in (?c[s := r], a))"
    have e: "(rs', b) = (case sel of None \<Rightarrow> (?c, []) | Some s \<Rightarrow> let (r, a) = install_new z kern p (?c ! s) in (?c[s := r], a))"
      and a: "a = snd (uninstall_old z kern p (the del)) @ b"
      using gone(3) run sr by (cases sel; auto simp: b_def split_beta sel_def [symmetric])+
    obtain d where d: "del = Some d" "distance d \<noteq> DISTANCE_INFINITY" using gone(1) ok(2) by (cases del) (auto simp: is_gone_def deleted_ok_def)
    note ip = install_pick [OF kern p checked_none [OF gone(2)] _ e]
    have v: "view_of (map_option ((!) ?c) sel) = view_of (map_option ((!) rs) sel)" by (rule view_of_map_key) (use sr in simp_all)
    show ?thesis
    proof (rule fin')
      show "map rib_key rs' = map rib_key rs" using ip(1) sr by simp
      show "is_selected (rs' ! i) \<longleftrightarrow> sel = Some i" if "i < length rs" for i using ip(2) sr that by simp
      show "foldM (req_step p) a (view_of (old_route rs del)) = Some (view_of (map_option ((!) rs) sel))"
        using uninstall_old_view [OF d(2) p, of z kern] ip(3) sr gone(1) d(1) v by (simp add: a foldM_append old_route_def)
    qed
  next
    case none
    have e: "(rs', a) = (case sel of None \<Rightarrow> (?c, []) | Some s \<Rightarrow> let (r, a) = install_new z kern p (?c ! s) in (?c[s := r], a))"
      using none(3) run sr by (cases sel) (auto simp: sel_def [symmetric])
    note ip = install_pick [OF kern p checked_none [OF none(2)] _ e]
    have v: "view_of (map_option ((!) ?c) sel) = view_of (map_option ((!) rs) sel)" by (rule view_of_map_key) (use sr in simp_all)
    show ?thesis
      by (rule fin') (use ip sr none(1,2) v in \<open>simp_all add: old_route_def find_none_selected\<close>)
  next
    case (change f)
    define rf where "rf = fst (uninstall_old z kern p (checked z p (rs ! f)))"
    define a1 where "a1 = snd (uninstall_old z kern p (checked z p (rs ! f)))"
    let ?d = "?c[f := rf]"
    have nth: "?d ! s = checked z p (rs ! s)" if "sel = Some s" for s
      using sr [OF that] that change(4) by (auto simp: nth_list_update sel_def)
    define b where "b = snd (case sel of None \<Rightarrow> (?d, []) | Some s \<Rightarrow> let (r, a) = install_new z kern p (?d ! s) in (?d[s := r], a))"
    have e: "(rs', b) = (case sel of None \<Rightarrow> (?d, []) | Some s \<Rightarrow> let (r, a) = install_new z kern p (?d ! s) in (?d[s := r], a))"
      and a: "a = a1 @ b"
      using change(5) run nth by (cases sel; auto simp: b_def split_beta sel_def [symmetric] rf_def a1_def)+
    have rfk: "rib_key rf = rib_key (rs ! f)" "\<not> is_selected rf" using uninstall_old_keeps [of z kern p "checked z p (rs ! f)"] by (simp_all add: rf_def)
    have no: "\<forall>r\<in>set ?d. \<not> is_selected r"
      using ok(1) change(2,3) rfk(2) by (auto simp: node_ok_def in_set_conv_nth nth_list_update split: if_splits)
    have kd: "map rib_key ?d = map rib_key rs"
      using change(2) rfk(1) by (intro nth_equalityI) (auto simp: nth_list_update)
    note ip = install_pick [OF kern p no _ e]
    have d: "distance (checked z p (rs ! f)) \<noteq> DISTANCE_INFINITY" using ok(1) change(2,3) by (auto simp: node_ok_def)
    have old: "view_of (old_route rs del) = view_of (Some (checked z p (rs ! f)))"
      using node_ok_find [OF ok(1) change(2,3)] change(1) view_of_cong [of "checked z p (rs ! f)" "rs ! f"] by (simp add: old_route_def)
    have v: "view_of (map_option ((!) ?d) sel) = view_of (map_option ((!) rs) sel)" by (rule view_of_map_key [OF kd sr])
    show ?thesis
    proof (rule fin')
      show "map rib_key rs' = map rib_key rs" using ip(1) sr kd by simp
      show "is_selected (rs' ! i) \<longleftrightarrow> sel = Some i" if "i < length rs" for i using ip(2) sr that by simp
      show "foldM (req_step p) a (view_of (old_route rs del)) = Some (view_of (map_option ((!) rs) sel))"
        using uninstall_old_view [OF d p, of z kern] ip(3) sr v unfolding old by (simp add: a foldM_append a1_def)
    qed
  qed
qed

text \<open>C11: the core of the routing information base.  Processing the routes of a prefix selects exactly one of the usable routes
  (some next hop active, distance not infinite) or none when there is none: the one with the least distance, a connected
  route before any other and the last of several, and among others of equal distance the first, which is the newest.  The
  requests it sends follow the selection: they withdraw the route announced before, if it changes, and announce the new
  one, in an order in which the daemons and the kernel never have two routes and never lose one they do not have, and
  at the end the daemons know the selected route and the kernel knows it unless it is the kernel's own.\<close>

theorem rib_process_correct:
  assumes "node_ok rs" "deleted_ok rs del" "connected_first rs" "kernel_ok kern" "ip_prefix p"
  shows "case rib_process z kern p rs del of (rs', a) \<Rightarrow>
    map rib_key rs' = map rib_key rs \<and>
    (\<forall>i<length rs. is_selected (rs' ! i) \<longleftrightarrow> wins z p rs i) \<and>
    ((\<exists>i<length rs. usable z p (rs ! i)) \<longrightarrow> (\<exists>!i. i < length rs \<and> is_selected (rs' ! i))) \<and>
    foldM (req_step p) a (view_of (old_route rs del)) = Some (view_of (find is_selected rs'))"
proof -
  define sel where "sel = fold (pick z p rs) [0..<length rs] None"
  obtain rs' a where run: "rib_process z kern p rs del = (rs', a)" by fastforce
  have sp: "map rib_key rs' = map rib_key rs" "\<And>i. i < length rs \<Longrightarrow> is_selected (rs' ! i) \<longleftrightarrow> sel = Some i"
    "foldM (req_step p) a (view_of (old_route rs del)) = Some (view_of (find is_selected rs'))"
    using rib_process_spec [OF assms(1,2,4,5) run] by (simp_all add: sel_def)
  have w: "case sel of None \<Rightarrow> \<forall>i<length rs. \<not> usable z p (rs ! i) | Some s \<Rightarrow> wins z p rs s"
    using pick_wins [OF assms(3)] by (simp add: sel_def)
  have uniq: "i = j" if "wins z p rs i" "wins z p rs j" for i j
  proof (cases "rib_type (rs ! i) = ZEBRA_ROUTE_CONNECT")
    case True
    then show ?thesis using that by (meson le_antisym wins_def)
  next
    case False
    then have "rib_type (rs ! j) \<noteq> ZEBRA_ROUTE_CONNECT" using that by (meson wins_def)
    then show ?thesis using that False by (meson linorder_neqE_nat not_less wins_def)
  qed
  have iff: "sel = Some i \<longleftrightarrow> wins z p rs i" if "i < length rs" for i
    using w uniq that by (cases sel) (auto simp: wins_def)
  have "\<exists>!i. i < length rs \<and> is_selected (rs' ! i)" if "\<exists>i<length rs. usable z p (rs ! i)"
    using w sp(2) that by (cases sel) (auto simp: wins_def)
  then show ?thesis unfolding run using sp iff by simp
qed

section \<open>The table of routes\<close>

subsection \<open>Definitions\<close>

definition node_ribs :: "rib list route_table \<Rightarrow> bool list \<Rightarrow> rib list" where
  "node_ribs t k = (case rn_find k t of None \<Rightarrow> [] | Some n \<Rightarrow> (case rn_info n of None \<Rightarrow> [] | Some rs \<Rightarrow> rs))"

definition set_ribs :: "rib list route_table \<Rightarrow> bool list \<Rightarrow> rib list \<Rightarrow> rib list route_table" where
  "set_ribs t k rs = route_set_info t k (if rs = [] then None else Some rs)"

definition rib_addnode :: "rib list \<Rightarrow> rib \<Rightarrow> rib list" where
  "rib_addnode rs r = r # rs"

definition rib_delnode :: "rib list \<Rightarrow> nat \<Rightarrow> rib list" where
  "rib_delnode rs i = take i rs @ drop (i + 1) rs"

definition vrf_table :: "u8 \<Rightarrow> zebra \<Rightarrow> rib list route_table" where
  "vrf_table fam z = (if fam = AF_INET then rib_ipv4 z else rib_ipv6 z)"

definition set_vrf_table :: "u8 \<Rightarrow> rib list route_table \<Rightarrow> zebra \<Rightarrow> zebra" where
  "set_vrf_table fam t z = (if fam = AF_INET then z\<lparr>rib_ipv4 := t\<rparr> else z\<lparr>rib_ipv6 := t\<rparr>)"

text \<open>\<open>rib_process (rn, del)\<close> on the node of \<open>p\<close>, whose list is \<open>rs\<close> by now.\<close>

definition process_node :: "kernel \<Rightarrow> zebra \<Rightarrow> prefix \<Rightarrow> rib list route_table \<Rightarrow> rib list \<Rightarrow> rib option \<Rightarrow> rib list route_table \<times> zebra_request list" where
  "process_node kern z p t rs del =
     (let t = set_ribs t (pfx_bits p) rs;
          (rs', a) = rib_process (set_vrf_table (family p) t z) kern p rs del
      in (set_ribs t (pfx_bits p) rs', a))"

definition hop_is :: "rib \<Rightarrow> u32 \<Rightarrow> bool" where
  "hop_is r idx \<longleftrightarrow> nexthops r \<noteq> [] \<and> nh_type (hd (nexthops r)) = NEXTHOP_TYPE_IFINDEX \<and> nh_ifindex (hd (nexthops r)) = idx"

datatype add_result = Add_duplicate nat | Add_same nat | Add_new

fun add_search :: "u8 \<Rightarrow> u32 \<Rightarrow> rib list \<Rightarrow> nat \<Rightarrow> add_result" where
  "add_search type idx [] i = Add_new"
| "add_search type idx (r # rs) i =
     (if rib_type r = ZEBRA_ROUTE_CONNECT
      then if rib_type r = type \<and> hop_is r idx then Add_duplicate i else add_search type idx rs (i + 1)
      else if rib_type r = type then Add_same i
      else add_search type idx rs (i + 1))"

definition link_rib :: "kernel \<Rightarrow> zebra \<Rightarrow> prefix \<Rightarrow> rib list route_table \<Rightarrow> rib list \<Rightarrow> rib \<Rightarrow> rib option \<Rightarrow> zebra" where
  "link_rib kern z p t rs r same =
     (let (t, a) = process_node kern z p t (rib_addnode rs r) same
      in (set_vrf_table (family p) t z)\<lparr>requests := requests z @ a\<rparr>)"

definition kernel_fib :: "rib \<Rightarrow> rib" where
  "kernel_fib r = (if RIB_SYSTEM_ROUTE r
     then r\<lparr>nexthops := map (\<lambda>nh. nh\<lparr>nh_flags := SET_FLAG (nh_flags nh) NEXTHOP_FLAG_FIB\<rparr>) (nexthops r)\<rparr> else r)"

text \<open>The common part of \<open>rib_add_ipv4\<close> and \<open>rib_add_ipv6\<close> after the distance is known.  A duplicate connected route keeps
  the lock of the lookup for its reference.\<close>

definition rib_add :: "kernel \<Rightarrow> zebra \<Rightarrow> prefix \<Rightarrow> u32 \<Rightarrow> rib \<Rightarrow> zebra option" where
  "rib_add kern z p idx r = do {
     t \<leftarrow> route_node_get (vrf_table (family p) z) p;
     let k = pfx_bits p;
     let rs = node_ribs t k;
     case add_search (rib_type r) idx rs 0 of
       Add_duplicate i \<Rightarrow>
         Some (set_vrf_table (family p) (set_ribs t k (rs[i := (rs ! i)\<lparr>rib_refcnt := rib_refcnt (rs ! i) + 1\<rparr>])) z)
     | Add_same i \<Rightarrow> do {
         let same = rs ! i;
         let rs = rib_delnode rs i;
         t \<leftarrow> route_unlock_node (set_ribs t k rs) k;
         Some (link_rib kern z p t rs (kernel_fib r) (Some same))
       }
     | Add_new \<Rightarrow> Some (link_rib kern z p t rs (kernel_fib r) None)
   }"

definition rib_new :: "int \<Rightarrow> u8 \<Rightarrow> u8 \<Rightarrow> u8 \<Rightarrow> u32 \<Rightarrow> rib" where
  "rib_new now type dist flags metric =
     \<lparr>rib_type = type, rib_table = 0, distance = dist, rib_flags = flags, rib_metric = metric, uptime = now, rib_refcnt = 0,
      nexthop_num = 0, nexthop_active_num = 0, nexthops = []\<rparr>"

definition default_distance :: "u8 \<Rightarrow> u8 \<Rightarrow> u8 option" where
  "default_distance type flags = do {
     d \<leftarrow> route_info type;
     Some (if type = ZEBRA_ROUTE_BGP \<and> CHECK_FLAG flags ZEBRA_FLAG_IBGP then 200 else d)
   }"

definition rib_add_ipv4 :: "kernel \<Rightarrow> zebra \<Rightarrow> int \<Rightarrow> u8 \<Rightarrow> u8 \<Rightarrow> prefix \<Rightarrow> u8 list option \<Rightarrow> u32 \<Rightarrow> u32 \<Rightarrow> u8 \<Rightarrow> zebra option" where
  "rib_add_ipv4 kern z now type flags p gt idx metric dist = do {
     let p = apply_mask_ipv4 p;
     dist \<leftarrow> (if dist = 0 then default_distance type flags else Some dist);
     let r = rib_new now type dist flags metric;
     rib_add kern z p idx
       (case gt of
          Some g \<Rightarrow> if idx \<noteq> 0 then nexthop_ipv4_ifindex_add r g idx else nexthop_ipv4_add r g
        | None \<Rightarrow> nexthop_ifindex_add r idx)
   }"

text \<open>\<open>IN6_IS_ADDR_UNSPECIFIED\<close>.  The old delete request to the kernel for a bogus route is not recorded.\<close>

definition in6_is_addr_unspecified :: "u8 list \<Rightarrow> bool" where
  "in6_is_addr_unspecified a \<longleftrightarrow> (\<forall>i<16. byte_at a i = 0)"

definition rib_bogus_ipv6 :: "u8 \<Rightarrow> prefix \<Rightarrow> u8 list option \<Rightarrow> bool" where
  "rib_bogus_ipv6 type p gt \<longleftrightarrow> type = ZEBRA_ROUTE_CONNECT \<and> in6_is_addr_unspecified (u_prefix p) \<or>
     type = ZEBRA_ROUTE_KERNEL \<and> in6_is_addr_unspecified (u_prefix p) \<and> prefixlen p = 96 \<and>
       (case gt of None \<Rightarrow> False | Some g \<Rightarrow> in6_is_addr_unspecified g)"

definition rib_add_ipv6 :: "kernel \<Rightarrow> zebra \<Rightarrow> int \<Rightarrow> u8 \<Rightarrow> u8 \<Rightarrow> prefix \<Rightarrow> u8 list option \<Rightarrow> u32 \<Rightarrow> zebra option" where
  "rib_add_ipv6 kern z now type flags p gt idx = do {
     let p = apply_mask_ipv6 p;
     dist \<leftarrow> default_distance type flags;
     if rib_bogus_ipv6 type p gt then Some z
     else do {
       let r = rib_new now type dist flags 0;
       rib_add kern z p idx
         (case gt of
            Some g \<Rightarrow> if idx \<noteq> 0 then nexthop_ipv6_ifindex_add r g idx else nexthop_ipv6_add r g
          | None \<Rightarrow> nexthop_ifindex_add r idx)
     }
   }"

text \<open>A route with its next hops, as a daemon sends it.\<close>

definition rib_add_ipv4_multipath :: "kernel \<Rightarrow> zebra \<Rightarrow> prefix \<Rightarrow> rib \<Rightarrow> zebra option" where
  "rib_add_ipv4_multipath kern z p r = do {
     let p = apply_mask_ipv4 p;
     dist \<leftarrow> (if distance r = 0 then default_distance (rib_type r) (rib_flags r) else Some (distance r));
     let r = r\<lparr>distance := dist\<rparr>;
     t \<leftarrow> route_node_get (vrf_table (family p) z) p;
     let k = pfx_bits p;
     let rs = node_ribs t k;
     case find (\<lambda>i. rib_type (rs ! i) = rib_type r \<and> rib_table (rs ! i) = rib_table r \<and> rib_type (rs ! i) \<noteq> ZEBRA_ROUTE_CONNECT) [0..<length rs] of
       Some i \<Rightarrow> do {
         let same = rs ! i;
         let rs = rib_delnode rs i;
         t \<leftarrow> route_unlock_node (set_ribs t k rs) k;
         Some (link_rib kern z p t rs (kernel_fib r) (Some same))
       }
     | None \<Rightarrow> Some (link_rib kern z p t rs (kernel_fib r) None)
   }"

datatype del_result = Del_reference nat | Del_same nat | Del_none "nat option"

fun del_search :: "u8 \<Rightarrow> u32 \<Rightarrow> rib list \<Rightarrow> nat \<Rightarrow> nat option \<Rightarrow> del_result" where
  "del_search type idx [] i fib = Del_none fib"
| "del_search type idx (r # rs) i fib =
     (let fib = (if is_selected r then Some i else fib) in
      if rib_type r = ZEBRA_ROUTE_CONNECT
      then if rib_type r = type \<and> hop_is r idx
           then if rib_refcnt r \<noteq> 0 then Del_reference i else Del_same i
           else del_search type idx rs (i + 1) fib
      else if rib_type r = type then Del_same i
      else del_search type idx rs (i + 1) fib)"

text \<open>The common part of \<open>rib_delete_ipv4\<close> and \<open>rib_delete_ipv6\<close>.\<close>

definition rib_delete :: "kernel \<Rightarrow> zebra \<Rightarrow> u8 \<Rightarrow> prefix \<Rightarrow> u32 \<Rightarrow> (int \<times> zebra) option" where
  "rib_delete kern z type p idx =
     (case route_node_lookup (vrf_table (family p) z) p of
        (_, None) \<Rightarrow> Some (ZEBRA_ERR_RTNOEXIST, z)
      | (t, Some _) \<Rightarrow>
          (let k = pfx_bits p; rs = node_ribs t k in
           case del_search type idx rs 0 None of
             Del_reference i \<Rightarrow> do {
               let t = set_ribs t k (rs[i := (rs ! i)\<lparr>rib_refcnt := rib_refcnt (rs ! i) - 1\<rparr>]);
               t \<leftarrow> route_unlock_node t k;
               t \<leftarrow> route_unlock_node t k;
               Some (0, set_vrf_table (family p) t z)
             }
           | Del_same i \<Rightarrow> do {
               let (t, a) = process_node kern z p t (rib_delnode rs i) (Some (rs ! i));
               t \<leftarrow> route_unlock_node t k;
               t \<leftarrow> route_unlock_node t k;
               Some (0, (set_vrf_table (family p) t z)\<lparr>requests := requests z @ a\<rparr>)
             }
           | Del_none fib \<Rightarrow>
               if fib \<noteq> None \<and> type = ZEBRA_ROUTE_KERNEL
               then do {
                 let (t, a) = process_node kern z p t (rs[the fib := select_rib False (unset_fib (rs ! the fib))]) None;
                 t \<leftarrow> route_unlock_node t k;
                 Some (0, (set_vrf_table (family p) t z)\<lparr>requests := requests z @ a\<rparr>)
               }
               else do {
                 t \<leftarrow> route_unlock_node t k;
                 Some (ZEBRA_ERR_RTNOEXIST, set_vrf_table (family p) t z)
               }))"

definition rib_delete_ipv4 :: "kernel \<Rightarrow> zebra \<Rightarrow> u8 \<Rightarrow> prefix \<Rightarrow> u32 \<Rightarrow> (int \<times> zebra) option" where
  "rib_delete_ipv4 kern z type p idx = rib_delete kern z type (apply_mask_ipv4 p) idx"

definition rib_delete_ipv6 :: "kernel \<Rightarrow> zebra \<Rightarrow> u8 \<Rightarrow> prefix \<Rightarrow> u32 \<Rightarrow> (int \<times> zebra) option" where
  "rib_delete_ipv6 kern z type p idx = rib_delete kern z type (apply_mask_ipv6 p) idx"

text \<open>\<open>rib_update\<close>: every node of both tables in the order of \<open>route_top\<close> and \<open>route_next\<close>; a change of an interface calls it.\<close>

definition update_node :: "kernel \<Rightarrow> u8 \<Rightarrow> prefix \<Rightarrow> zebra \<Rightarrow> zebra" where
  "update_node kern fam p z =
     (let t = vrf_table fam z; (rs', a) = rib_process z kern p (node_ribs t (pfx_bits p)) None
      in (set_vrf_table fam (set_ribs t (pfx_bits p) rs') z)\<lparr>requests := requests z @ a\<rparr>)"

fun rn_prefixes :: "'a route_node \<Rightarrow> prefix list" where
  "rn_prefixes RNull = []"
| "rn_prefixes (RNode p lk i l r) = p # rn_prefixes l @ rn_prefixes r"

definition rib_update :: "kernel \<Rightarrow> zebra \<Rightarrow> zebra" where
  "rib_update kern z =
     (let z = fold (update_node kern AF_INET) (rn_prefixes (rib_ipv4 z)) z
      in fold (update_node kern AF_INET6) (rn_prefixes (rib_ipv6 z)) z)"

subsection \<open>Locks\<close>

text \<open>Every route holds one lock on its node and one more for every further reference to it.\<close>

definition weight :: "rib list \<Rightarrow> nat" where
  "weight rs = sum_list (map (\<lambda>r. 1 + unat (rib_refcnt r)) rs)"

definition slot_ok :: "rib list option \<Rightarrow> (u32 \<times> rib list option) option \<Rightarrow> bool" where
  "slot_ok v e \<longleftrightarrow> (case v of None \<Rightarrow> e = None \<or> e = Some (0, None)
     | Some rs \<Rightarrow> rs \<noteq> [] \<and> weight rs < 2 ^ 32 \<and> e = Some (of_nat (weight rs), Some rs))"

lemma slot_ok_simps [simp]: "slot_ok None e \<longleftrightarrow> e = None \<or> e = Some (0, None)"
  "slot_ok (Some rs) e \<longleftrightarrow> rs \<noteq> [] \<and> weight rs < 2 ^ 32 \<and> e = Some (of_nat (weight rs), Some rs)"
  by (simp_all add: slot_ok_def)

definition table_locks :: "u8 \<Rightarrow> rib list route_table \<Rightarrow> bool" where
  "table_locks fam t \<longleftrightarrow> rt_wf fam t \<and> rt_ok t \<and> (\<forall>k. slot_ok (rt_entries t k) (rt_map t k))"

definition held :: "u8 \<Rightarrow> rib list route_table \<Rightarrow> bool list \<Rightarrow> nat \<Rightarrow> rib list \<Rightarrow> (bool list \<Rightarrow> rib list option) \<Rightarrow> bool" where
  "held fam t k n rs m \<longleftrightarrow> rt_wf fam t \<and> rt_ok t \<and> rt_map t k = Some (of_nat n, if rs = [] then None else Some rs) \<and> n < 2 ^ 32
     \<and> (\<forall>x. x \<noteq> k \<longrightarrow> slot_ok (m x) (rt_map t x))"

definition ribs_at :: "rib list route_table \<Rightarrow> bool list \<Rightarrow> rib list" where
  "ribs_at t k = (case rt_entries t k of None \<Rightarrow> [] | Some rs \<Rightarrow> rs)"

lemma node_ribs_at: "node_ribs t k = ribs_at t k"
  by (simp add: node_ribs_def ribs_at_def rt_entries_def rt_map_def split: option.splits)

lemma table_locksI:
  assumes "rt_wf fam t" "rt_ok t" "\<And>k. slot_ok (m k) (rt_map t k)"
  shows "table_locks fam t \<and> rt_entries t = m"
proof -
  have "rt_entries t k = m k" for k using assms(3) [of k] by (cases "m k") (auto simp: rt_entries_def)
  then have "rt_entries t = m" by blast
  then show ?thesis using assms by (simp add: table_locks_def)
qed

lemma weight_pos: "rs \<noteq> [] \<Longrightarrow> 0 < weight rs"
  by (cases rs) (auto simp: weight_def)

lemma weight_Nil [simp]: "weight [] = 0"
  by (simp add: weight_def)

lemma weight_Cons [simp]: "weight (r # rs) = 1 + unat (rib_refcnt r) + weight rs"
  by (simp add: weight_def)

lemma slot_not_max: "slot_ok v (rt_map t k) \<Longrightarrow> weight (case v of None \<Rightarrow> [] | Some rs \<Rightarrow> rs) + 1 < 2 ^ 32 \<Longrightarrow> rt_map t k \<noteq> Some (- 1, i)"
proof -
  assume a: "slot_ok v (rt_map t k)" "weight (case v of None \<Rightarrow> [] | Some rs \<Rightarrow> rs) + 1 < 2 ^ 32"
  have "of_nat n \<noteq> (- 1 :: u32)" if "n + 1 < 2 ^ 32" for n
  proof
    assume "of_nat n = (- 1 :: u32)"
    then have "(of_nat (n + 1) :: u32) = 0" by simp
    then have "unat (of_nat (n + 1) :: u32) = 0" by (simp only: unat_0)
    then show False using that by (simp only: unat_of_nat) simp
  qed
  then show ?thesis using a by (cases v) auto
qed

lemma get_held:
  assumes "table_locks (family p) t" "rt_key p" "weight (ribs_at t (pfx_bits p)) + 1 < 2 ^ 32"
  obtains t' where "route_node_get t p = Some t'"
    "held (family p) t' (pfx_bits p) (weight (ribs_at t (pfx_bits p)) + 1) (ribs_at t (pfx_bits p)) (rt_entries t)"
proof -
  let ?k = "pfx_bits p"
  have sl: "\<And>k. slot_ok (rt_entries t k) (rt_map t k)" "rt_wf (family p) t" "rt_ok t" using assms(1) by (simp_all add: table_locks_def)
  obtain t' where g: "route_node_get t p = Some t'" "rt_wf (family p) t'" "rt_inserted ?k t t'"
    "rt_ok t \<longrightarrow> (\<forall>i. rt_map t ?k \<noteq> Some (- 1, i)) \<longrightarrow> rt_ok t'"
    using route_node_get_spec [OF sl(2) assms(2)] by auto
  have "rt_ok t'" using g(4) sl(3) slot_not_max [OF sl(1) [of ?k]] assms(3) by (simp add: ribs_at_def)
  moreover have "rt_map t' ?k = Some (of_nat (weight (ribs_at t ?k) + 1), if ribs_at t ?k = [] then None else Some (ribs_at t ?k))"
    using g(3) sl(1) [of ?k] by (cases "rt_entries t ?k") (auto simp: rt_inserted_def ribs_at_def add.commute)
  moreover have "slot_ok (rt_entries t x) (rt_map t' x)" if "x \<noteq> ?k" for x
    using g(3) sl(1) [of x] that by (cases "rt_entries t x") (auto simp: rt_inserted_def)
  ultimately show thesis using g(1,2) assms(3) by (intro that [of t']) (auto simp: held_def)
qed

lemma lookup_held:
  assumes "table_locks fam t" "weight (ribs_at t (pfx_bits p)) + 1 < 2 ^ 32"
  shows "case rt_entries t (pfx_bits p) of
      None \<Rightarrow> route_node_lookup t p = (t, None)
    | Some rs \<Rightarrow> \<exists>t' n. route_node_lookup t p = (t', Some n) \<and> held fam t' (pfx_bits p) (weight rs + 1) rs (rt_entries t)"
proof -
  let ?k = "pfx_bits p"
  have sl: "\<And>k. slot_ok (rt_entries t k) (rt_map t k)" and wf: "rt_wf fam t" "rt_ok t" using assms(1) by (simp_all add: table_locks_def)
  note lookup = lookup_walk_find [OF wf(1), of p] rn_find_key [of ?k t]
  show ?thesis
  proof (cases "rt_entries t ?k")
    case None
    then show ?thesis using lookup sl [of ?k] by (auto simp: route_node_lookup_def rt_map_def split: option.splits)
  next
    case (Some rs)
    then have m: "rt_map t ?k = Some (of_nat (weight rs), Some rs)" "rs \<noteq> []" using sl [of ?k] by simp_all
    have nm: "\<forall>i. rt_map t ?k \<noteq> Some (- 1, i)" using slot_not_max [OF sl [of ?k]] assms(2) Some by (simp add: ribs_at_def)
    have "held fam (route_lock_node t ?k) ?k (weight rs + 1) rs (rt_entries t)"
      using m sl rt_ok_lock [OF wf, of ?k] nm wf assms(2) Some by (simp add: held_def rt_map_lock add.commute ribs_at_def)
    then show ?thesis using m lookup Some
      by (auto simp: route_node_lookup_def rt_map_def split: option.splits)
  qed
qed

lemma of_nat_u32: "n < 2 ^ 32 \<Longrightarrow> of_nat n = (0 :: u32) \<longleftrightarrow> n = 0" "n < 2 ^ 32 \<Longrightarrow> of_nat n = (1 :: u32) \<longleftrightarrow> n = 1"
proof -
  assume n: "n < 2 ^ 32"
  have "of_nat n = (of_nat m :: u32) \<longleftrightarrow> n = m" if "m < 2 ^ 32" for m
  proof
    assume "of_nat n = (of_nat m :: u32)"
    then have "unat (of_nat n :: u32) = unat (of_nat m :: u32)" by (rule arg_cong)
    then show "n = m" using n that by (simp add: unat_of_nat)
  qed simp
  from this [of 0] this [of 1] show "of_nat n = (0 :: u32) \<longleftrightarrow> n = 0" "of_nat n = (1 :: u32) \<longleftrightarrow> n = 1" by simp_all
qed

lemma held_set:
  assumes "held fam t k n rs m" "0 < n"
  shows "held fam (set_ribs t k rs') k n rs' m"
proof -
  have "of_nat n \<noteq> (0 :: u32)" using assms of_nat_u32(1) [of n] by (simp add: held_def)
  then show ?thesis
    using assms unfolding held_def set_ribs_def route_set_info_def by (auto simp: rt_map_modify intro: rt_ok_modify)
qed

lemma held_unlock:
  assumes h: "held fam t k n rs m" and n: "2 \<le> n"
  shows "\<exists>t'. route_unlock_node t k = Some t' \<and> held fam t' k (n - 1) rs m"
proof -
  have w: "rt_wf fam t" "rt_ok t" "rt_map t k = Some (of_nat n, if rs = [] then None else Some rs)" "n < 2 ^ 32"
    using h by (simp_all add: held_def)
  have ne: "of_nat n \<noteq> (0 :: u32)" "of_nat n \<noteq> (1 :: u32)" using of_nat_u32 [OF w(4)] n by auto
  obtain t' where t': "route_unlock_node t k = Some t'" "rt_wf fam t'" "rt_ok t'" "t' = rn_modify k (\<lambda>lk i. (lk - 1, i)) t"
    using route_unlock_node_spec [OF w(1-3) ne(1)] ne(2) by metis
  have "of_nat n - 1 = (of_nat (n - 1) :: u32)" using n by simp
  then show ?thesis using h t' by (auto simp: held_def rt_map_modify)
qed

lemma held_release:
  assumes h: "held fam t k 1 [] m"
  shows "\<exists>t'. route_unlock_node t k = Some t' \<and> table_locks fam t' \<and> rt_entries t' = m(k := None)"
proof -
  have w: "rt_wf fam t" "rt_ok t" "rt_map t k = Some (1, None)" using h by (simp_all add: held_def)
  obtain t' where u: "route_unlock_node t k = Some t'" "rt_wf fam t'" "rt_ok t'" "rt_shrunk (rn_modify k (\<lambda>lk i. (lk - 1, i)) t) t'"
    using route_unlock_node_spec [OF w] by auto
  have k: "rt_map t' k = None \<or> rt_map t' k = Some (0, None)"
    using u(4) w(3) unfolding rt_shrunk_def by (auto simp: rt_map_modify dest: spec [of _ k])
  have x: "rt_map t' x = rt_map t x \<or> rt_map t' x = None \<and> (\<exists>j. rt_map t x = Some (0, j))" if "x \<noteq> k" for x
    using u(4) that unfolding rt_shrunk_def rt_map_modify by metis
  have "slot_ok ((m(k := None)) x) (rt_map t' x)" for x
  proof (cases "x = k")
    case True
    then show ?thesis using k by auto
  next
    case False
    then have s: "slot_ok (m x) (rt_map t x)" using h by (simp add: held_def)
    show ?thesis
    proof (cases "m x")
      case None
      then show ?thesis using s x [OF False] False by auto
    next
      case (Some rs)
      then have "rt_map t x \<noteq> Some (0, j)" for j
        using s of_nat_u32(1) [of "weight rs"] weight_pos [of rs] by auto
      then show ?thesis using s x [OF False] False Some by auto
    qed
  qed
  then have "table_locks fam t' \<and> rt_entries t' = m(k := None)" by (rule table_locksI [OF u(2,3)])
  then show ?thesis using u(1) by blast
qed

lemma held_entry:
  assumes h: "held fam t k (weight rs) rs m" and rs: "rs \<noteq> []"
  shows "table_locks fam t" "rt_entries t = m(k \<mapsto> rs)"
proof -
  have w: "rt_wf fam t" "rt_ok t" using h by (simp_all add: held_def)
  have "slot_ok ((m(k \<mapsto> rs)) x) (rt_map t x)" for x using h rs unfolding held_def by (cases "x = k") auto
  then have "table_locks fam t \<and> rt_entries t = m(k \<mapsto> rs)" by (rule table_locksI [OF w])
  then show "table_locks fam t" "rt_entries t = m(k \<mapsto> rs)" by simp_all
qed

lemma held_ribs: "held fam t k n rs m \<Longrightarrow> node_ribs t k = rs"
  by (auto simp: held_def node_ribs_at ribs_at_def rt_entries_def)

text \<open>The last two steps of a deletion: the lock of the deleted route and that of the lookup.\<close>

lemma held_done:
  assumes h: "held fam t k (weight rs + 1) rs m"
  shows "\<exists>t'. route_unlock_node t k = Some t' \<and> table_locks fam t' \<and> rt_entries t' = m(k := if rs = [] then None else Some rs)"
proof (cases "rs = []")
  case True
  then show ?thesis using h held_release [of fam t k m] by simp
next
  case False
  then have "2 \<le> weight rs + 1" using weight_pos [OF False] by simp
  then obtain t' where t': "route_unlock_node t k = Some t'" "held fam t' k (weight rs) rs m" using held_unlock [OF h] by auto
  then show ?thesis using held_entry [OF t'(2) False] False by auto
qed

lemma weight_key: "map rib_key rs' = map rib_key rs \<Longrightarrow> weight rs' = weight rs"
proof (induction rs arbitrary: rs')
  case (Cons r rs)
  then obtain r' rs2 where e: "rs' = r' # rs2" "rib_key r' = rib_key r" "map rib_key rs2 = map rib_key rs" by (cases rs') auto
  have "rib_refcnt r' = rib_refcnt r" using rib_key_eqD [OF e(2)] by simp
  then show ?case using Cons.IH [OF e(3)] by (simp add: e(1))
qed simp

lemma process_node_held:
  assumes h: "held fam t (pfx_bits p) n rs0 m" and n: "0 < n"
  obtains t' rs' a z' where "process_node kern z p t rs del = (t', a)" "rib_process z' kern p rs del = (rs', a)"
    "held fam t' (pfx_bits p) n rs' m"
proof -
  let ?z = "set_vrf_table (family p) (set_ribs t (pfx_bits p) rs) z"
  obtain rs' a where r: "rib_process ?z kern p rs del = (rs', a)" by fastforce
  have "held fam (set_ribs (set_ribs t (pfx_bits p) rs) (pfx_bits p) rs') (pfx_bits p) n rs' m"
    by (intro held_set [OF held_set [OF h n] n])
  then show ?thesis using r by (intro that [of "set_ribs (set_ribs t (pfx_bits p) rs) (pfx_bits p) rs'" a ?z rs']) (simp_all add: process_node_def)
qed

section \<open>The operations keep the table\<close>

definition refs_ok :: "rib list \<Rightarrow> bool" where
  "refs_ok rs \<longleftrightarrow> (\<forall>r\<in>set rs. rib_type r \<noteq> ZEBRA_ROUTE_CONNECT \<longrightarrow> rib_refcnt r = 0)"

definition node_inv :: "rib list \<Rightarrow> bool" where
  "node_inv rs \<longleftrightarrow> node_ok rs \<and> connected_first rs \<and> refs_ok rs"

definition tab_inv :: "u8 \<Rightarrow> rib list route_table \<Rightarrow> bool" where
  "tab_inv fam t \<longleftrightarrow> table_locks fam t \<and> (\<forall>k. node_inv (ribs_at t k))"

text \<open>Invariant of the daemon: both tables are sound, and for every prefix the requests sent so far leave the daemons and the
  kernel with the selected route.\<close>

definition zinv :: "zebra \<Rightarrow> bool" where
  "zinv z \<longleftrightarrow> tab_inv AF_INET (rib_ipv4 z) \<and> tab_inv AF_INET6 (rib_ipv6 z) \<and>
     (\<forall>p. ip_prefix p \<longrightarrow> foldM (req_step p) (requests z) (None, None) =
        Some (view_of (find is_selected (ribs_at (vrf_table (family p) z) (pfx_bits p)))))"

fun req_prefix :: "zebra_request \<Rightarrow> prefix" where
  "req_prefix (Kernel_add p r) = p"
| "req_prefix (Kernel_delete p r) = p"
| "req_prefix (Redistribute_add p r) = p"
| "req_prefix (Redistribute_delete p r) = p"

lemma requests_of:
  "\<forall>x\<in>set (snd (uninstall_unless_system kern p r)). req_prefix x = p" "\<forall>x\<in>set (snd (install_unless_system kern p r)). req_prefix x = p"
  "\<forall>x\<in>set (redistribute_delete p r). req_prefix x = p"
  by (auto simp: uninstall_unless_system_def rib_uninstall_kernel_def install_unless_system_def rib_install_kernel_def
      redistribute_delete_def split: if_splits prod.splits)

lemma requests_of_steps:
  "\<forall>x\<in>set (snd (uninstall_old z kern p r)). req_prefix x = p" "\<forall>x\<in>set (snd (install_new z kern p r)). req_prefix x = p"
  "\<forall>x\<in>set (snd (reinstall z kern p r)). req_prefix x = p"
  using requests_of by (auto simp: uninstall_old_def install_new_def reinstall_def Let_def split_beta)

lemma rib_process_requests:
  assumes "node_ok rs" "deleted_ok rs del" "rib_process z kern p rs del = (rs', a)"
  shows "\<forall>x\<in>set a. req_prefix x = p"
proof (rule rib_process_cases [OF assms(1,2), of z p kern])
qed (use assms(3) requests_of_steps [of z kern p] in \<open>auto simp: split_beta Let_def split: if_splits option.splits\<close>)

lemma req_step_other: "\<not> same_key (req_prefix x) q \<Longrightarrow> req_step q x v = Some v"
  by (cases x; cases v) auto

lemma req_step_key: "same_key p q \<Longrightarrow> req_step q x v = req_step p x v"
  by (cases x; cases v) (auto simp: same_key_def)

lemma foldM_other: "\<forall>x\<in>set a. req_prefix x = p \<Longrightarrow> \<not> same_key p q \<Longrightarrow> foldM (req_step q) a v = Some v"
  by (induction a arbitrary: v) (simp_all add: req_step_other)

lemma foldM_key: "same_key p q \<Longrightarrow> foldM (req_step q) a v = foldM (req_step p) a v"
  by (intro foldM_cong) (rule req_step_key)

lemma vrf_table_set [simp]: "vrf_table fam (set_vrf_table fam t z) = t" "requests (set_vrf_table fam t z) = requests z"
  "(fam' = AF_INET) \<noteq> (fam = AF_INET) \<Longrightarrow> vrf_table fam' (set_vrf_table fam t z) = vrf_table fam' z"
  "vrf_table fam (z\<lparr>requests := a\<rparr>) = vrf_table fam z"
  by (auto simp: vrf_table_def set_vrf_table_def)

lemma set_vrf_requests [simp]: "(set_vrf_table fam t z)\<lparr>requests := requests z\<rparr> = set_vrf_table fam t z"
  by (simp add: set_vrf_table_def)

lemma zinv_table: "zinv z \<Longrightarrow> ip_prefix p \<Longrightarrow> tab_inv (family p) (vrf_table (family p) z)"
  by (auto simp: zinv_def vrf_table_def af_defs)

lemma zinv_commit:
  assumes z: "zinv z" and p: "ip_prefix p"
    and t: "table_locks (family p) t" "rt_entries t = (rt_entries (vrf_table (family p) z))(pfx_bits p := if rs = [] then None else Some rs)"
    and rs: "node_inv rs" and a: "\<forall>x\<in>set a. req_prefix x = p"
    and v: "foldM (req_step p) a (view_of (find is_selected (ribs_at (vrf_table (family p) z) (pfx_bits p)))) = Some (view_of (find is_selected rs))"
  shows "zinv ((set_vrf_table (family p) t z)\<lparr>requests := requests z @ a\<rparr>)"
    "ribs_at t k = (if k = pfx_bits p then rs else ribs_at (vrf_table (family p) z) k)"
proof -
  show ra: "ribs_at t k = (if k = pfx_bits p then rs else ribs_at (vrf_table (family p) z) k)" for k
    by (simp add: ribs_at_def t(2))
  let ?z = "(set_vrf_table (family p) t z)\<lparr>requests := requests z @ a\<rparr>"
  have "tab_inv (family p) t" using t(1) rs zinv_table [OF z p] ra by (auto simp: tab_inv_def)
  then have tabs: "tab_inv AF_INET (rib_ipv4 ?z)" "tab_inv AF_INET6 (rib_ipv6 ?z)"
    using z p by (auto simp: zinv_def set_vrf_table_def af_defs)
  have "foldM (req_step q) (requests ?z) (None, None) =
      Some (view_of (find is_selected (ribs_at (vrf_table (family q) ?z) (pfx_bits q))))" if q: "ip_prefix q" for q
  proof -
    have pre: "foldM (req_step q) (requests z) (None, None) =
        Some (view_of (find is_selected (ribs_at (vrf_table (family q) z) (pfx_bits q))))"
      using z q unfolding zinv_def by blast
    show ?thesis
    proof (cases "same_key p q")
      case True
      then have e: "family q = family p" "pfx_bits q = pfx_bits p" by (simp_all add: same_key_def)
      have "foldM (req_step q) (requests z @ a) (None, None) =
          foldM (req_step q) a (view_of (find is_selected (ribs_at (vrf_table (family p) z) (pfx_bits p))))"
        using pre e by (simp add: foldM_append)
      also have "\<dots> = Some (view_of (find is_selected rs))" using v foldM_key [OF True] by simp
      finally show ?thesis using e ra by simp
    next
      case False
      have "ribs_at (vrf_table (family q) ?z) (pfx_bits q) = ribs_at (vrf_table (family q) z) (pfx_bits q)"
      proof (cases "family q = family p")
        case True
        then show ?thesis using False ra [of "pfx_bits q"] by (auto simp: same_key_def)
      next
        case False
        then show ?thesis using p q by (auto simp: vrf_table_def set_vrf_table_def af_defs)
      qed
      then show ?thesis using pre foldM_other [OF a False] by (simp add: foldM_append)
    qed
  qed
  then show "zinv ?z" using tabs by (simp add: zinv_def)
qed

text \<open>Processing a node after its list changed.\<close>

lemma processed_inv:
  assumes "node_inv rs" "deleted_ok rs del" "kernel_ok kern" "ip_prefix p" "rib_process z kern p rs del = (rs', a)"
  shows "node_inv rs'" "weight rs' = weight rs" "rs' = [] \<longleftrightarrow> rs = []" "\<forall>x\<in>set a. req_prefix x = p"
    "foldM (req_step p) a (view_of (old_route rs del)) = Some (view_of (find is_selected rs'))"
proof -
  define sel where "sel = fold (pick z p rs) [0..<length rs] None"
  have ok: "node_ok rs" using assms(1) by (simp add: node_inv_def)
  have sp: "map rib_key rs' = map rib_key rs" "\<forall>i<length rs. is_selected (rs' ! i) \<longleftrightarrow> sel = Some i"
    "foldM (req_step p) a (view_of (old_route rs del)) = Some (view_of (find is_selected rs'))"
    using rib_process_spec [OF ok assms(2-5)] by (simp_all add: sel_def)
  have l: "length rs' = length rs" using sp(1) by (metis length_map)
  have k: "rib_key (rs' ! i) = rib_key (rs ! i)" if "i < length rs" for i using sp(1) l that by (metis nth_map)
  have us: "usable z p (rs ! s)" if "sel = Some s" for s using pick_range that by (auto simp: sel_def)
  have "node_ok rs'"
    unfolding node_ok_def using sp(2) l us k [THEN rib_key_eqD] by (auto simp: in_set_conv_nth usable_def)
  moreover have "connected_first rs'" "refs_ok rs'"
    using assms(1) l k [THEN rib_key_eqD] by (auto simp: node_inv_def connected_first_def refs_ok_def all_set_conv_all_nth)
  ultimately show "node_inv rs'" by (simp add: node_inv_def)
  show "weight rs' = weight rs" by (rule weight_key [OF sp(1)])
  show "rs' = [] \<longleftrightarrow> rs = []" using l by auto
  show "\<forall>x\<in>set a. req_prefix x = p" by (rule rib_process_requests [OF ok assms(2,5)])
  show "foldM (req_step p) a (view_of (old_route rs del)) = Some (view_of (find is_selected rs'))" by (rule sp(3))
qed

lemma delnode_split: "i < length rs \<Longrightarrow> rs = take i rs @ rs ! i # drop (i + 1) rs"
  by (simp add: id_take_nth_drop)

lemma delnode_weight: "i < length rs \<Longrightarrow> weight rs = weight (rib_delnode rs i) + 1 + unat (rib_refcnt (rs ! i))"
  by (subst delnode_split [of i rs]) (simp_all add: rib_delnode_def weight_def)

lemma delnode_set: "set (rib_delnode rs i) \<subseteq> set rs"
  by (auto simp: rib_delnode_def dest: in_set_takeD in_set_dropD)

text \<open>At most one selected route, said without positions.\<close>

lemma node_ok_filter: "node_ok rs \<longleftrightarrow> length (filter is_selected rs) \<le> 1 \<and> (\<forall>r\<in>set rs. is_selected r \<longrightarrow> distance r \<noteq> DISTANCE_INFINITY)"
proof -
  have "(\<forall>i j. i < length rs \<and> j < length rs \<and> is_selected (rs ! i) \<and> is_selected (rs ! j) \<longrightarrow> i = j) \<longleftrightarrow> length (filter is_selected rs) \<le> 1"
  proof -
    have c: "length (filter is_selected rs) = card {i. i < length rs \<and> is_selected (rs ! i)}" by (rule length_filter_conv_card)
    have f: "finite {i. i < length rs \<and> is_selected (rs ! i)}" by simp
    show ?thesis unfolding c using card_le_Suc0_iff_eq [OF f] by (auto simp: One_nat_def)
  qed
  then show ?thesis by (simp add: node_ok_def)
qed

lemma delnode_filter:
  "i < length rs \<Longrightarrow> filter is_selected rs = filter is_selected (take i rs) @ (if is_selected (rs ! i) then [rs ! i] else []) @ filter is_selected (drop (i + 1) rs)"
  by (subst delnode_split [of i rs]) simp_all

lemma find_filter: "find P xs = (case filter P xs of [] \<Rightarrow> None | x # _ \<Rightarrow> Some x)"
  by (induction xs) auto

lemma delnode_inv:
  assumes "node_inv rs" "i < length rs"
  shows "node_inv (rib_delnode rs i)" "deleted_ok (rib_delnode rs i) (Some (rs ! i))"
    "old_route (rib_delnode rs i) (Some (rs ! i)) = find is_selected rs"
proof -
  note f = delnode_filter [OF assms(2)]
  have fd: "filter is_selected (rib_delnode rs i) = filter is_selected (take i rs) @ filter is_selected (drop (i + 1) rs)"
    by (simp add: rib_delnode_def)
  have ok: "node_ok rs" "connected_first rs" "refs_ok rs" using assms(1) by (simp_all add: node_inv_def)
  have "node_ok (rib_delnode rs i)"
    using ok(1) delnode_set [of rs i] unfolding node_ok_filter f fd by (auto split: if_splits)
  then show "node_inv (rib_delnode rs i)"
    using ok(2,3) delnode_set [of rs i] by (auto simp: node_inv_def connected_first_def refs_ok_def)
  have g: "filter is_selected (rib_delnode rs i) = []" if "is_selected (rs ! i)"
    using ok(1) that unfolding node_ok_filter f fd by (auto split: if_splits)
  then show "deleted_ok (rib_delnode rs i) (Some (rs ! i))"
    using ok(1) assms(2) by (auto simp: deleted_ok_def is_gone_def filter_empty_conv node_ok_def)
  show "old_route (rib_delnode rs i) (Some (rs ! i)) = find is_selected rs"
  proof (cases "is_selected (rs ! i)")
    case True
    then show ?thesis using node_ok_find [OF ok(1) assms(2)] by (simp add: old_route_def is_gone_def)
  next
    case False
    then show ?thesis by (simp add: old_route_def is_gone_def find_filter f fd)
  qed
qed

lemma addnode_inv:
  assumes "node_inv rs" "deleted_ok rs del" "\<not> is_selected r" "rib_type r = ZEBRA_ROUTE_CONNECT \<longrightarrow> distance r = 0" "rib_refcnt r = 0"
  shows "node_inv (rib_addnode rs r)" "deleted_ok (rib_addnode rs r) del" "old_route (rib_addnode rs r) del = old_route rs del"
    "weight (rib_addnode rs r) = weight rs + 1"
  using assms
  by (simp_all add: node_inv_def node_ok_filter rib_addnode_def connected_first_def refs_ok_def deleted_ok_def old_route_def)

lemma add_search_range:
  "case add_search type idx rs i of
     Add_duplicate j \<Rightarrow> i \<le> j \<and> j < i + length rs \<and> rib_type (rs ! (j - i)) = ZEBRA_ROUTE_CONNECT \<and> type = ZEBRA_ROUTE_CONNECT
   | Add_same j \<Rightarrow> i \<le> j \<and> j < i + length rs \<and> rib_type (rs ! (j - i)) \<noteq> ZEBRA_ROUTE_CONNECT
   | Add_new \<Rightarrow> True"
proof (induction rs arbitrary: i)
  case (Cons r rs)
  have s: "rs ! (j - Suc i) = (r # rs) ! (j - i)" if "Suc i \<le> j" for j using that by (simp add: nth_Cons' Suc_diff_le)
  show ?case using Cons.IH [of "i + 1"] s by (auto split: add_result.splits)
qed simp

lemma kernel_fib_keeps [simp]: "rib_key (kernel_fib r) = rib_key r" "is_selected (kernel_fib r) = is_selected r"
  "rib_type (kernel_fib r) = rib_type r" "distance (kernel_fib r) = distance r" "rib_refcnt (kernel_fib r) = rib_refcnt r"
  by (simp_all add: kernel_fib_def rib_key_def is_selected_def)

text \<open>A new route for a node that is held once more than its routes say.\<close>

definition new_route :: "rib \<Rightarrow> bool" where
  "new_route r \<longleftrightarrow> \<not> is_selected r \<and> (rib_type r = ZEBRA_ROUTE_CONNECT \<longrightarrow> distance r = 0) \<and> rib_refcnt r = 0"

lemma link_rib_inv:
  assumes z: "zinv z" and p: "ip_prefix p" and kern: "kernel_ok kern"
    and h: "held (family p) t (pfx_bits p) (weight rs + 1) rs0 (rt_entries (vrf_table (family p) z))"
    and rs: "node_inv rs" "deleted_ok rs same" "old_route rs same = find is_selected (ribs_at (vrf_table (family p) z) (pfx_bits p))"
    and r: "new_route r"
  shows "zinv (link_rib kern z p t rs r same)"
    "\<exists>rs'. map rib_key rs' = rib_key r # map rib_key rs \<and>
       (\<forall>k. ribs_at (vrf_table (family p) (link_rib kern z p t rs r same)) k = (if k = pfx_bits p then rs' else ribs_at (vrf_table (family p) z) k))"
proof -
  have r': "\<not> is_selected r" "rib_type r = ZEBRA_ROUTE_CONNECT \<longrightarrow> distance r = 0" "rib_refcnt r = 0" using r by (simp_all add: new_route_def)
  note ad = addnode_inv [OF rs(1,2) r']
  obtain t' rs' a z' where pn: "process_node kern z p t (rib_addnode rs r) same = (t', a)"
    "rib_process z' kern p (rib_addnode rs r) same = (rs', a)" "held (family p) t' (pfx_bits p) (weight rs + 1) rs' (rt_entries (vrf_table (family p) z))"
    using process_node_held [OF h] by (metis zero_less_one add_pos_nonneg add.commute zero_le)
  note pi = processed_inv [OF ad(1,2) kern p pn(2)]
  have ne: "rs' \<noteq> []" using pi(3) by (simp add: rib_addnode_def)
  have w: "weight rs' = weight rs + 1" using pi(2) ad(4) by simp
  note en = held_entry [OF pn(3) [folded w] ne]
  have v: "foldM (req_step p) a (view_of (find is_selected (ribs_at (vrf_table (family p) z) (pfx_bits p)))) = Some (view_of (find is_selected rs'))"
    using pi(5) ad(3) rs(3) by simp
  have en2: "rt_entries t' = (rt_entries (vrf_table (family p) z))(pfx_bits p := if rs' = [] then None else Some rs')"
    using en(2) ne by simp
  note zc = zinv_commit [OF z p en(1) en2 pi(1,4) v]
  have e: "link_rib kern z p t rs r same = (set_vrf_table (family p) t' z)\<lparr>requests := requests z @ a\<rparr>"
    by (simp add: link_rib_def pn(1))
  show "zinv (link_rib kern z p t rs r same)" unfolding e by (rule zc(1))
  have "node_ok (rib_addnode rs r)" using ad(1) by (simp add: node_inv_def)
  then have "map rib_key rs' = rib_key r # map rib_key rs"
    using rib_process_spec [OF _ ad(2) kern p pn(2)] by (simp add: rib_addnode_def)
  then show "\<exists>rs'. map rib_key rs' = rib_key r # map rib_key rs \<and>
       (\<forall>k. ribs_at (vrf_table (family p) (link_rib kern z p t rs r same)) k = (if k = pfx_bits p then rs' else ribs_at (vrf_table (family p) z) k))"
    unfolding e using zc(2) by auto
qed

text \<open>Counting a reference to a connected route.\<close>

lemma find_update_same:
  assumes "i < length rs" "is_selected r = is_selected (rs ! i)"
  shows "find is_selected (rs[i := r]) = (case find is_selected rs of None \<Rightarrow> None
    | Some x \<Rightarrow> if filter is_selected (take i rs) = [] \<and> is_selected (rs ! i) then Some r else Some x)"
proof -
  have "rs[i := r] = take i rs @ r # drop (i + 1) rs" using assms(1) by (simp add: upd_conv_take_nth_drop)
  then show ?thesis using assms(2) delnode_filter [OF assms(1)]
    by (cases "filter is_selected (take i rs)") (auto simp: find_filter split: list.splits)
qed

lemma set_refcnt_inv:
  fixes n :: ulong
  assumes inv: "node_inv rs" and i: "i < length rs" and ty: "rib_type (rs ! i) = ZEBRA_ROUTE_CONNECT"
  defines "rs' \<equiv> rs[i := (rs ! i)\<lparr>rib_refcnt := n\<rparr>]"
  shows "node_inv rs'" "view_of (find is_selected rs') = view_of (find is_selected rs)"
    "weight rs' + unat (rib_refcnt (rs ! i)) = weight rs + unat n" "rs' \<noteq> []" "map rib_type rs' = map rib_type rs"
proof -
  let ?r = "(rs ! i)\<lparr>rib_refcnt := n\<rparr>"
  have s: "is_selected ?r = is_selected (rs ! i)" by (simp add: is_selected_def)
  have nth: "is_selected (rs' ! j) = is_selected (rs ! j)" "distance (rs' ! j) = distance (rs ! j)" "rib_type (rs' ! j) = rib_type (rs ! j)"
    if "j < length rs" for j
    using that i s by (cases "j = i"; simp add: rs'_def)+
  have "refs_ok rs'"
    unfolding refs_ok_def
  proof
    fix x assume "x \<in> set rs'"
    then obtain j where j: "j < length rs" "x = rs' ! j" by (auto simp: rs'_def in_set_conv_nth)
    then show "rib_type x \<noteq> ZEBRA_ROUTE_CONNECT \<longrightarrow> rib_refcnt x = 0"
      using inv i ty by (cases "j = i") (auto simp: rs'_def node_inv_def refs_ok_def)
  qed
  then show "node_inv rs'"
    using inv nth by (auto simp: node_inv_def node_ok_def connected_first_def all_set_conv_all_nth) (simp_all add: rs'_def)
  show "view_of (find is_selected rs') = view_of (find is_selected rs)"
  proof (cases "find is_selected rs")
    case None
    then show ?thesis using find_update_same [OF i s] by (simp add: rs'_def)
  next
    case (Some x)
    show ?thesis
    proof (cases "filter is_selected (take i rs) = [] \<and> is_selected (rs ! i)")
      case True
      then have "x = rs ! i" using node_ok_find [of rs i] inv i Some by (simp add: node_inv_def)
      then show ?thesis using find_update_same [OF i s] Some True view_of_id [of ?r "rs ! i"] by (simp add: rs'_def rib_id_def)
    next
      case False
      then show ?thesis using find_update_same [OF i s] Some by (auto simp: rs'_def)
    qed
  qed
  have e: "rs' = take i rs @ ?r # drop (i + 1) rs" using i by (simp add: rs'_def upd_conv_take_nth_drop)
  have wr: "weight rs = weight (take i rs) + 1 + unat (rib_refcnt (rs ! i)) + weight (drop (i + 1) rs)"
    by (subst delnode_split [OF i]) (simp add: weight_def)
  show "weight rs' + unat (rib_refcnt (rs ! i)) = weight rs + unat n" unfolding e wr by (simp add: weight_def)
  show "rs' \<noteq> []" using i by (auto simp: rs'_def)
  show "map rib_type rs' = map rib_type rs" using nth by (intro nth_equalityI) (auto simp: rs'_def)
qed

lemma refcnt_small: "i < length rs \<Longrightarrow> weight rs < 2 ^ 32 \<Longrightarrow> unat (rib_refcnt (rs ! i)) < 2 ^ 32"
  using delnode_weight [of i rs] by simp

lemma unat_refcnt_Suc: "unat (c :: ulong) < 2 ^ 32 \<Longrightarrow> unat (c + 1) = unat c + 1"
  by (simp add: unat_word_ariths(1))

lemma rib_add_inv:
  assumes z: "zinv z" and wf: "prefix_wf p" and kern: "kernel_ok kern" and r: "new_route r"
    and small: "weight (ribs_at (vrf_table (family p) z) (pfx_bits p)) + 1 < 2 ^ 32"
  shows "\<exists>z'. rib_add kern z p idx r = Some z' \<and> zinv z' \<and>
    (\<forall>k. k \<noteq> pfx_bits p \<longrightarrow> ribs_at (vrf_table (family p) z') k = ribs_at (vrf_table (family p) z) k) \<and>
    (\<exists>r'\<in>set (ribs_at (vrf_table (family p) z') (pfx_bits p)). rib_type r' = rib_type r)"
proof -
  let ?t = "vrf_table (family p) z" and ?k = "pfx_bits p"
  let ?L = "ribs_at ?t ?k"
  have p: "ip_prefix p" using wf by (auto simp: prefix_wf_def)
  have tl: "table_locks (family p) ?t" and inv: "node_inv ?L" using zinv_table [OF z p] by (auto simp: tab_inv_def)
  obtain t where t: "route_node_get ?t p = Some t" "held (family p) t ?k (weight ?L + 1) ?L (rt_entries ?t)"
    using get_held [OF tl rt_key_prefix [OF wf] small] .
  have nr: "node_ribs t ?k = ?L" by (rule held_ribs [OF t(2)])
  have r': "new_route (kernel_fib r)" using r by (simp add: new_route_def)
  note rng = add_search_range [where type = "rib_type r" and idx = idx and rs = ?L and i = 0]
  have done_link: "zinv (link_rib kern z p t2 rs (kernel_fib r) same) \<and>
      (\<forall>k. k \<noteq> ?k \<longrightarrow> ribs_at (vrf_table (family p) (link_rib kern z p t2 rs (kernel_fib r) same)) k = ribs_at ?t k) \<and>
      (\<exists>r'\<in>set (ribs_at (vrf_table (family p) (link_rib kern z p t2 rs (kernel_fib r) same)) ?k). rib_type r' = rib_type r)"
    if "held (family p) t2 ?k (weight rs + 1) rs0 (rt_entries ?t)" "node_inv rs" "deleted_ok rs same"
      "old_route rs same = find is_selected ?L" for t2 rs rs0 same
  proof -
    note lr = link_rib_inv [OF z p kern that(1-4) r']
    obtain rs' where rs': "map rib_key rs' = rib_key (kernel_fib r) # map rib_key rs"
      "\<forall>k. ribs_at (vrf_table (family p) (link_rib kern z p t2 rs (kernel_fib r) same)) k = (if k = ?k then rs' else ribs_at ?t k)"
      using lr(2) by (elim exE conjE) (rule that)
    obtain x xs where x: "rs' = x # xs" "rib_key x = rib_key r" using rs'(1) by (cases rs') auto
    then have "rib_type x = rib_type r" using rib_key_eqD by blast
    then show ?thesis using lr(1) rs'(2) x(1) by auto
  qed
  show ?thesis
  proof (cases "add_search (rib_type r) idx ?L 0")
    case (Add_duplicate i)
    have i: "i < length ?L" "rib_type (?L ! i) = ZEBRA_ROUTE_CONNECT" using rng Add_duplicate by simp_all
    let ?c = "rib_refcnt (?L ! i)"
    define rs' where "rs' = ?L[i := (?L ! i)\<lparr>rib_refcnt := ?c + 1\<rparr>]"
    note sr = set_refcnt_inv [OF inv i, of "?c + 1", folded rs'_def]
    have "weight rs' = weight ?L + 1" using sr(3) unat_refcnt_Suc [OF refcnt_small [OF i(1)]] small by simp
    then have h: "held (family p) (set_ribs t ?k rs') ?k (weight rs') rs' (rt_entries ?t)" using held_set [OF t(2)] by simp
    note en = held_entry [OF h sr(4)]
    have en2: "rt_entries (set_ribs t ?k rs') = (rt_entries ?t)(?k := if rs' = [] then None else Some rs')" using en(2) sr(4) by simp
    have v: "foldM (req_step p) [] (view_of (find is_selected ?L)) = Some (view_of (find is_selected rs'))" using sr(2) by simp
    note zc = zinv_commit [OF z p en(1) en2 sr(1) _ v]
    have e: "rib_add kern z p idx r = Some (set_vrf_table (family p) (set_ribs t ?k rs') z)"
      using t(1) Add_duplicate by (simp add: rib_add_def Let_def nr rs'_def)
    have "rib_type (rs' ! i) = rib_type r" using i rng Add_duplicate by (simp add: rs'_def)
    moreover have "rs' ! i \<in> set rs'" using i(1) by (intro nth_mem) (simp add: rs'_def)
    ultimately show ?thesis using zc e by auto
  next
    case (Add_same i)
    have i: "i < length ?L" "rib_type (?L ! i) \<noteq> ZEBRA_ROUTE_CONNECT" using rng Add_same by simp_all
    let ?rs = "rib_delnode ?L i"
    note di = delnode_inv [OF inv i(1)]
    have w: "weight ?L = weight ?rs + 1" using delnode_weight [OF i(1)] inv i by (simp add: node_inv_def refs_ok_def)
    obtain t2 where t2: "route_unlock_node (set_ribs t ?k ?rs) ?k = Some t2" "held (family p) t2 ?k (weight ?rs + 1) ?rs (rt_entries ?t)"
      using held_unlock [OF held_set [OF t(2), of ?rs]] w by auto
    have e: "rib_add kern z p idx r = Some (link_rib kern z p t2 ?rs (kernel_fib r) (Some (?L ! i)))"
      using t(1) t2(1) Add_same by (simp add: rib_add_def Let_def nr)
    show ?thesis using done_link [OF t2(2) di] e by auto
  next
    case Add_new
    have e: "rib_add kern z p idx r = Some (link_rib kern z p t ?L (kernel_fib r) None)"
      using t(1) Add_new by (simp add: rib_add_def Let_def nr)
    have "deleted_ok ?L None" "old_route ?L None = find is_selected ?L" by (simp_all add: deleted_ok_def old_route_def is_gone_def)
    then show ?thesis using done_link [OF t(2) inv] e by auto
  qed
qed

definition del_ok :: "u8 \<Rightarrow> rib list \<Rightarrow> nat \<Rightarrow> del_result \<Rightarrow> bool" where
  "del_ok type rs i res = (case res of
     Del_reference j \<Rightarrow> i \<le> j \<and> j < i + length rs \<and> rib_type (rs ! (j - i)) = ZEBRA_ROUTE_CONNECT \<and> rib_refcnt (rs ! (j - i)) \<noteq> 0
   | Del_same j \<Rightarrow> i \<le> j \<and> j < i + length rs \<and> (rib_type (rs ! (j - i)) = ZEBRA_ROUTE_CONNECT \<longrightarrow> rib_refcnt (rs ! (j - i)) = 0) \<and>
       rib_type (rs ! (j - i)) = type
   | Del_none f \<Rightarrow> type \<noteq> ZEBRA_ROUTE_CONNECT \<longrightarrow> (\<forall>r\<in>set rs. rib_type r \<noteq> type))"

lemma del_ok_Cons: "del_ok type rs (Suc i) res \<Longrightarrow> type = ZEBRA_ROUTE_CONNECT \<or> rib_type r \<noteq> type \<Longrightarrow> del_ok type (r # rs) i res"
proof -
  assume a: "del_ok type rs (Suc i) res" "type = ZEBRA_ROUTE_CONNECT \<or> rib_type r \<noteq> type"
  have s: "rs ! (j - Suc i) = (r # rs) ! (j - i)" if "Suc i \<le> j" for j using that by (simp add: nth_Cons' Suc_diff_le)
  show ?thesis using a s by (cases res) (auto simp: del_ok_def)
qed

lemma del_search_range: "del_ok type rs i (del_search type idx rs i fib)"
proof (induction rs arbitrary: i fib)
  case (Cons r rs)
  have "del_ok type (r # rs) i (Del_reference i)" if "rib_type r = ZEBRA_ROUTE_CONNECT" "rib_refcnt r \<noteq> 0" using that by (simp add: del_ok_def)
  moreover have "del_ok type (r # rs) i (Del_same i)" if "rib_type r = ZEBRA_ROUTE_CONNECT \<longrightarrow> rib_refcnt r = 0" "rib_type r = type"
    using that by (simp add: del_ok_def)
  moreover have "del_ok type (r # rs) i (del_search type idx rs (i + 1) f)" if "type = ZEBRA_ROUTE_CONNECT \<or> rib_type r \<noteq> type" for f
    using del_ok_Cons [OF _ that] Cons.IH [of "Suc i" f] by simp
  ultimately show ?case unfolding del_search.simps Let_def
    by (cases "rib_type r = ZEBRA_ROUTE_CONNECT"; cases "rib_type r = type"; cases "hop_is r idx"; cases "rib_refcnt r = 0")
      (auto simp del: One_nat_def add_Suc_right add_Suc)
qed (simp add: del_ok_def)

text \<open>The kernel withdraws a route the table does not have as a kernel route: the one it withdraws was installed by the daemon.\<close>

definition kernel_withdraws :: "zebra \<Rightarrow> u8 \<Rightarrow> prefix \<Rightarrow> bool" where
  "kernel_withdraws z type p \<longleftrightarrow> type = ZEBRA_ROUTE_KERNEL \<and>
     (\<forall>r\<in>set (ribs_at (vrf_table (family p) z) (pfx_bits p)). rib_type r \<noteq> ZEBRA_ROUTE_KERNEL)"

lemma rib_delete_inv:
  assumes z: "zinv z" and wf: "prefix_wf p" and kern: "kernel_ok kern" and kw: "\<not> kernel_withdraws z type p"
    and small: "weight (ribs_at (vrf_table (family p) z) (pfx_bits p)) + 1 < 2 ^ 32"
  shows "\<exists>ret z'. rib_delete kern z type p idx = Some (ret, z') \<and> zinv z' \<and>
    (\<forall>k. k \<noteq> pfx_bits p \<longrightarrow> ribs_at (vrf_table (family p) z') k = ribs_at (vrf_table (family p) z) k) \<and>
    (ret \<noteq> 0 \<longrightarrow> ribs_at (vrf_table (family p) z') (pfx_bits p) = ribs_at (vrf_table (family p) z) (pfx_bits p))"
proof -
  let ?t = "vrf_table (family p) z" and ?k = "pfx_bits p"
  let ?L = "ribs_at ?t ?k"
  have p: "ip_prefix p" using wf by (auto simp: prefix_wf_def)
  have tl: "table_locks (family p) ?t" and inv: "node_inv ?L" using zinv_table [OF z p] by (auto simp: tab_inv_def)
  note lk = lookup_held [OF tl small]
  show ?thesis
  proof (cases "rt_entries ?t ?k")
    case None
    then show ?thesis using lk z by (simp add: rib_delete_def)
  next
    case (Some L)
    then have L: "?L = L" by (simp add: ribs_at_def)
    obtain t n where t: "route_node_lookup ?t p = (t, Some n)" "held (family p) t ?k (weight ?L + 1) ?L (rt_entries ?t)"
      using lk Some L by auto
    have nr: "node_ribs t ?k = ?L" by (rule held_ribs [OF t(2)])
    note rng = del_search_range [where type = type and idx = idx and rs = ?L and i = 0 and fib = None]
    have ne: "?L \<noteq> []" using tl Some L by (auto simp: table_locks_def dest: spec [of _ ?k])
    show ?thesis
    proof (cases "del_search type idx ?L 0 None")
      case (Del_reference i)
      have i: "i < length ?L" "rib_type (?L ! i) = ZEBRA_ROUTE_CONNECT" "rib_refcnt (?L ! i) \<noteq> 0" using rng Del_reference by (simp_all add: del_ok_def)
      let ?c = "rib_refcnt (?L ! i)"
      define rs' where "rs' = ?L[i := (?L ! i)\<lparr>rib_refcnt := ?c - 1\<rparr>]"
      note sr = set_refcnt_inv [OF inv i(1,2), of "?c - 1", folded rs'_def]
      have "unat (?c - 1) + 1 = unat ?c" using i(3) by (simp add: unat_minus_one unat_gt_0)
      then have w: "weight ?L = weight rs' + 1" using sr(3) by simp
      obtain t2 where t2: "route_unlock_node (set_ribs t ?k rs') ?k = Some t2" "held (family p) t2 ?k (weight rs' + 1) rs' (rt_entries ?t)"
        using held_unlock [OF held_set [OF t(2), of rs']] w by auto
      obtain t3 where t3: "route_unlock_node t2 ?k = Some t3" "table_locks (family p) t3"
        "rt_entries t3 = (rt_entries ?t)(?k := if rs' = [] then None else Some rs')"
        using held_done [OF t2(2)] by auto
      have v: "foldM (req_step p) [] (view_of (find is_selected ?L)) = Some (view_of (find is_selected rs'))" using sr(2) by simp
      note zc = zinv_commit [OF z p t3(2,3) sr(1) _ v]
      have e: "rib_delete kern z type p idx = Some (0, set_vrf_table (family p) t3 z)"
        using t(1) t2(1) t3(1) Del_reference by (simp add: rib_delete_def Let_def nr rs'_def)
      then show ?thesis using zc by auto
    next
      case (Del_same i)
      have i: "i < length ?L" "rib_type (?L ! i) = ZEBRA_ROUTE_CONNECT \<longrightarrow> rib_refcnt (?L ! i) = 0" using rng Del_same by (simp_all add: del_ok_def)
      let ?rs = "rib_delnode ?L i"
      note di = delnode_inv [OF inv i(1)]
      have "rib_refcnt (?L ! i) = 0" using i inv by (auto simp: node_inv_def refs_ok_def)
      then have w: "weight ?L = weight ?rs + 1" using delnode_weight [OF i(1)] by simp
      obtain t1 rs' a z' where pn: "process_node kern z p t ?rs (Some (?L ! i)) = (t1, a)"
        "rib_process z' kern p ?rs (Some (?L ! i)) = (rs', a)" "held (family p) t1 ?k (weight ?L + 1) rs' (rt_entries ?t)"
        by (rule process_node_held [OF t(2), of kern z ?rs "Some (?L ! i)"]) simp
      note pi = processed_inv [OF di(1,2) kern p pn(2)]
      obtain t2 where t2: "route_unlock_node t1 ?k = Some t2" "held (family p) t2 ?k (weight rs' + 1) rs' (rt_entries ?t)"
        using held_unlock [OF pn(3)] w pi(2) by auto
      obtain t3 where t3: "route_unlock_node t2 ?k = Some t3" "table_locks (family p) t3"
        "rt_entries t3 = (rt_entries ?t)(?k := if rs' = [] then None else Some rs')"
        using held_done [OF t2(2)] by auto
      have v: "foldM (req_step p) a (view_of (find is_selected ?L)) = Some (view_of (find is_selected rs'))" using pi(5) di(3) by simp
      note zc = zinv_commit [OF z p t3(2,3) pi(1,4) v]
      have e: "rib_delete kern z type p idx = Some (0, (set_vrf_table (family p) t3 z)\<lparr>requests := requests z @ a\<rparr>)"
        using t(1) t2(1) t3(1) Del_same pn(1) by (simp add: rib_delete_def Let_def nr)
      then show ?thesis using zc by auto
    next
      case (Del_none f)
      have nk: "type \<noteq> ZEBRA_ROUTE_KERNEL" using rng Del_none kw by (auto simp: kernel_withdraws_def del_ok_def)
      obtain t3 where t3: "route_unlock_node t ?k = Some t3" "table_locks (family p) t3"
        "rt_entries t3 = (rt_entries ?t)(?k := if ?L = [] then None else Some ?L)"
        using held_done [OF t(2)] by auto
      have v: "foldM (req_step p) [] (view_of (find is_selected ?L)) = Some (view_of (find is_selected ?L))" by simp
      note zc = zinv_commit [OF z p t3(2,3) inv _ v]
      have e: "rib_delete kern z type p idx = Some (ZEBRA_ERR_RTNOEXIST, set_vrf_table (family p) t3 z)"
        using t(1) t3(1) Del_none nk by (simp add: rib_delete_def Let_def nr)
      then show ?thesis using zc by auto
    qed
  qed
qed

lemma multipath_inv:
  assumes z: "zinv z" and wf: "prefix_wf p" and kern: "kernel_ok kern" and r: "new_route r"
    and small: "weight (ribs_at (vrf_table (family p) z) (pfx_bits p)) + 1 < 2 ^ 32"
    and mask: "apply_mask_ipv4 p = p" and d: "distance r \<noteq> 0"
  shows "\<exists>z'. rib_add_ipv4_multipath kern z p r = Some z' \<and> zinv z'"
proof -
  let ?t = "vrf_table (family p) z" and ?k = "pfx_bits p"
  let ?L = "ribs_at ?t ?k"
  have p: "ip_prefix p" using wf by (auto simp: prefix_wf_def)
  have tl: "table_locks (family p) ?t" and inv: "node_inv ?L" using zinv_table [OF z p] by (auto simp: tab_inv_def)
  obtain t where t: "route_node_get ?t p = Some t" "held (family p) t ?k (weight ?L + 1) ?L (rt_entries ?t)"
    using get_held [OF tl rt_key_prefix [OF wf] small] .
  have nr: "node_ribs t ?k = ?L" by (rule held_ribs [OF t(2)])
  have r': "new_route (kernel_fib r)" using r by (simp add: new_route_def)
  let ?P = "\<lambda>i. rib_type (?L ! i) = rib_type r \<and> rib_table (?L ! i) = rib_table r \<and> rib_type (?L ! i) \<noteq> ZEBRA_ROUTE_CONNECT"
  show ?thesis
  proof (cases "find ?P [0..<length ?L]")
    case None
    have e: "rib_add_ipv4_multipath kern z p r = Some (link_rib kern z p t ?L (kernel_fib r) None)"
      using t(1) None d by (simp add: rib_add_ipv4_multipath_def Let_def nr mask)
    have "deleted_ok ?L None" "old_route ?L None = find is_selected ?L" by (simp_all add: deleted_ok_def old_route_def is_gone_def)
    then show ?thesis using link_rib_inv(1) [OF z p kern t(2) inv _ _ r'] e by simp
  next
    case (Some i)
    then have i: "i < length ?L" "rib_type (?L ! i) \<noteq> ZEBRA_ROUTE_CONNECT" by (auto simp: find_Some_iff)
    let ?rs = "rib_delnode ?L i"
    note di = delnode_inv [OF inv i(1)]
    have w: "weight ?L = weight ?rs + 1" using delnode_weight [OF i(1)] inv i by (simp add: node_inv_def refs_ok_def)
    obtain t2 where t2: "route_unlock_node (set_ribs t ?k ?rs) ?k = Some t2" "held (family p) t2 ?k (weight ?rs + 1) ?rs (rt_entries ?t)"
      using held_unlock [OF held_set [OF t(2), of ?rs]] w by auto
    have e: "rib_add_ipv4_multipath kern z p r = Some (link_rib kern z p t2 ?rs (kernel_fib r) (Some (?L ! i)))"
      using t(1) t2(1) Some d by (simp add: rib_add_ipv4_multipath_def Let_def nr mask)
    show ?thesis using link_rib_inv(1) [OF z p kern t2(2) di r'] e by simp
  qed
qed

lemma nexthop_add_keeps [simp]: "rib_type (nexthop_add r nh) = rib_type r" "distance (nexthop_add r nh) = distance r"
  "rib_refcnt (nexthop_add r nh) = rib_refcnt r" "is_selected (nexthop_add r nh) = is_selected r"
  by (simp_all add: nexthop_add_def is_selected_def)

lemmas nexthop_adds = nexthop_ipv4_ifindex_add_def nexthop_ipv4_add_def nexthop_ifindex_add_def nexthop_ipv6_ifindex_add_def nexthop_ipv6_add_def

lemma rib_new_keeps [simp]: "rib_type (rib_new now ty d fl me) = ty" "distance (rib_new now ty d fl me) = d" "rib_refcnt (rib_new now ty d fl me) = 0"
  "is_selected (rib_new now ty d fl me) = CHECK_FLAG fl ZEBRA_FLAG_SELECTED"
  by (simp_all add: rib_new_def is_selected_def)

text \<open>C10: adding and deleting IPv4 routes keeps the routing information base sound and the kernel and the daemons informed: after every
  operation, for every prefix, at most one route is selected, the requests sent so far leave the daemons with exactly the
  selected route and the kernel with it unless it is the kernel's own, every node is locked once per route and reference,
  and the lists of other prefixes are unchanged.  The operations always return.  The request has a type that the table of default distances
  knows (below 9), it does not carry the flag of the selection itself, a connected route comes without a distance, and the prefix has fewer than
  \<open>2 ^ 32 - 1\<close> routes and references.  The withdrawal by the kernel of a route the daemon installed is excluded: there the agreement is lost.\<close>

theorem rib_operations_correct:
  assumes z: "zinv z" and kern: "kernel_ok kern" and wf: "prefix_wf p" and fam: "family p = AF_INET"
    and small: "weight (ribs_at (rib_ipv4 z) (pfx_bits p)) + 1 < 2 ^ 32"
    and ty: "unat type < 9" "\<not> CHECK_FLAG flags ZEBRA_FLAG_SELECTED" "type = ZEBRA_ROUTE_CONNECT \<longrightarrow> dist = 0"
  shows "(\<exists>z'. rib_add_ipv4 kern z now type flags p gt idx metric dist = Some z' \<and> zinv z' \<and>
      (\<forall>k. k \<noteq> pfx_bits p \<longrightarrow> ribs_at (rib_ipv4 z') k = ribs_at (rib_ipv4 z) k) \<and>
      (\<exists>r\<in>set (ribs_at (rib_ipv4 z') (pfx_bits p)). rib_type r = type)) \<and>
    (\<not> kernel_withdraws z type p \<longrightarrow>
      (\<exists>ret z'. rib_delete_ipv4 kern z type p idx = Some (ret, z') \<and> zinv z' \<and>
         (\<forall>k. k \<noteq> pfx_bits p \<longrightarrow> ribs_at (rib_ipv4 z') k = ribs_at (rib_ipv4 z) k) \<and>
         (ret \<noteq> 0 \<longrightarrow> ribs_at (rib_ipv4 z') (pfx_bits p) = ribs_at (rib_ipv4 z) (pfx_bits p))))"
proof -
  define q where "q = apply_mask_ipv4 p"
  have q: "q = apply_mask p" using fam by (simp add: q_def apply_mask_def)
  have wq: "prefix_wf q" "pfx_bits q = pfx_bits p" "family q = AF_INET"
    using prefix_wf_apply_mask [OF wf] pfx_bits_apply_mask [OF wf] fam by (simp_all add: q q_def apply_mask_ipv4_def apply_mask_def)
  have vt: "vrf_table (family q) x = rib_ipv4 x" for x by (simp add: vrf_table_def wq(3))
  have sm: "weight (ribs_at (vrf_table (family q) z) (pfx_bits q)) + 1 < 2 ^ 32" using small by (simp add: vt wq(2))
  have d: "\<exists>d. default_distance type flags = Some d \<and> (type = ZEBRA_ROUTE_CONNECT \<longrightarrow> d = 0)"
    using ty(1) by (auto simp: default_distance_def route_info_def ZEBRA_ROUTE_BGP_def)
  obtain d' where d': "(if dist = 0 then default_distance type flags else Some dist) = Some d'" "type = ZEBRA_ROUTE_CONNECT \<longrightarrow> d' = 0"
    using d ty(3) by (cases "dist = 0") auto
  define r where "r = (case gt of
          Some g \<Rightarrow> if idx \<noteq> 0 then nexthop_ipv4_ifindex_add (rib_new now type d' flags metric) g idx else nexthop_ipv4_add (rib_new now type d' flags metric) g
        | None \<Rightarrow> nexthop_ifindex_add (rib_new now type d' flags metric) idx)"
  have r: "new_route r" "rib_type r = type" using d'(2) ty(2) by (auto simp: r_def new_route_def nexthop_adds split: option.split)
  have e: "rib_add_ipv4 kern z now type flags p gt idx metric dist = rib_add kern z q idx r"
    using d'(1) by (simp add: rib_add_ipv4_def q_def r_def Let_def)
  have kw: "kernel_withdraws z type q = kernel_withdraws z type p" using fam by (simp add: kernel_withdraws_def wq)
  show ?thesis
    using rib_add_inv [OF z wq(1) kern r(1) sm, of idx] rib_delete_inv [OF z wq(1) kern _ sm, of type idx] r(2)
    unfolding e rib_delete_ipv4_def q_def [symmetric] kw by (simp add: vt wq(2))
qed

text \<open>Next hops over an interface that is not up.\<close>

definition over_down :: "zebra \<Rightarrow> rib \<Rightarrow> bool" where
  "over_down z r \<longleftrightarrow> (\<forall>nh\<in>set (nexthops r). nh_type nh = NEXTHOP_TYPE_IFINDEX \<and> \<not> ifp_up (if_lookup_by_index z (nh_ifindex nh)))"

lemma over_down_unusable: "over_down z r \<Longrightarrow> \<not> usable z p r"
proof -
  assume od: "over_down z r"
  have "nexthop_active_num (update_hops z p b hs x) = nexthop_active_num x"
    if "\<forall>nh\<in>set hs. nh_type nh = NEXTHOP_TYPE_IFINDEX \<and> \<not> ifp_up (if_lookup_by_index z (nh_ifindex nh))" for b hs x
    using that
  proof (induction hs arbitrary: x)
    case (Cons nh hs)
    have "\<not> nh_active (nexthop_active_check z p y nh b)" for y
      using Cons.prems by (simp add: nexthop_active_check_def nh_set_active_def nh_active_def)
    then show ?case using Cons by (simp add: Let_def)
  qed simp
  from this [of "nexthops r"] od have "nexthop_active_num (nexthop_active_update z p r False) = 0"
    by (simp add: nexthop_active_update_def over_down_def)
  then show ?thesis by (simp add: usable_def)
qed

lemma pick_none: "\<forall>i<n. \<not> usable z p (rs ! i) \<Longrightarrow> fold (pick z p rs) [0..<n] None = None"
  by (induction n) (auto simp: pick_def)

lemma over_down_cong: "iflist z' = iflist z \<Longrightarrow> over_down z' r = over_down z r"
  by (simp add: over_down_def if_lookup_by_index_def)

lemma del_search_none:
  assumes "type \<noteq> ZEBRA_ROUTE_CONNECT" "\<forall>r\<in>set rs. rib_type r \<noteq> type"
  shows "del_search type idx rs i fib = Del_none (fold (\<lambda>j f. if is_selected (rs ! j) then Some (i + j) else f) [0..<length rs] fib)"
  using assms(2)
proof (induction rs arbitrary: i fib)
  case (Cons r rs)
  let ?f = "if is_selected r then Some i else fib"
  have u: "[0..<length (r # rs)] = 0 # map Suc [0..<length rs]" by (simp add: map_Suc_upt upt_conv_Cons del: upt_Suc)
  show ?case unfolding u using assms(1) Cons.IH [of "Suc i" ?f] Cons.prems by (simp add: Let_def fold_map comp_def)
qed simp

text \<open>C33: when the kernel withdraws a route the daemon installed, as it does when an interface goes down, and every nexthop of
  the prefix is an interface that is down, the selection is dropped without telling the other daemons: they keep a route that the routing
  information base has no more.\<close>

theorem kernel_withdraws_silently:
  assumes z: "zinv z" and kern: "kernel_ok kern" and wf: "prefix_wf p" and fam: "family p = AF_INET"
    and small: "weight (ribs_at (rib_ipv4 z) (pfx_bits p)) + 1 < 2 ^ 32"
    and kw: "kernel_withdraws z ZEBRA_ROUTE_KERNEL p"
    and sel: "find is_selected (ribs_at (rib_ipv4 z) (pfx_bits p)) = Some r"
    and down: "\<forall>r\<in>set (ribs_at (rib_ipv4 z) (pfx_bits p)). over_down z r"
  shows "\<exists>z'. rib_delete_ipv4 kern z ZEBRA_ROUTE_KERNEL p idx = Some (0, z') \<and> requests z' = requests z \<and>
    find is_selected (ribs_at (rib_ipv4 z') (pfx_bits p)) = None \<and>
    map_option fst (foldM (req_step p) (requests z') (None, None)) = Some (Some (rib_id r))"
proof -
  define q where "q = apply_mask_ipv4 p"
  have qm: "q = apply_mask p" using fam by (simp add: q_def apply_mask_def)
  have q: "prefix_wf q" "pfx_bits q = pfx_bits p" "family q = AF_INET"
    using prefix_wf_apply_mask [OF wf] pfx_bits_apply_mask [OF wf] fam by (simp_all add: qm q_def apply_mask_ipv4_def apply_mask_def)
  have vt: "vrf_table AF_INET x = rib_ipv4 x" for x by (simp add: vrf_table_def)
  let ?t = "rib_ipv4 z" and ?k = "pfx_bits p"
  let ?L = "ribs_at ?t ?k"
  have ip: "ip_prefix p" "ip_prefix q" using fam q(3) by simp_all
  have tl: "table_locks AF_INET ?t" and inv: "node_inv ?L" using zinv_table [OF z ip(1)] by (auto simp: tab_inv_def fam vt)
  have ne: "?L \<noteq> []" using sel by auto
  then obtain L where ent: "rt_entries ?t ?k = Some L" "?L = L" by (auto simp: ribs_at_def split: option.splits)
  obtain t n where t: "route_node_lookup ?t q = (t, Some n)" "held AF_INET t ?k (weight ?L + 1) ?L (rt_entries ?t)"
    using lookup_held [OF tl, of q] small ent by (auto simp: q(2))
  have nr: "node_ribs t ?k = ?L" by (rule held_ribs [OF t(2)])
  obtain f where f: "f < length ?L" "is_selected (?L ! f)" "r = ?L ! f" using sel by (auto simp: find_Some_iff)
  define fb where "fb = fold (\<lambda>j f. if is_selected (?L ! j) then Some j else f) [0..<length ?L] None"
  have fb: "fb = Some f"
    using last_selected [where rs = ?L and n = "length ?L"] f inv
    by (cases fb) (auto simp: fb_def [symmetric] node_inv_def node_ok_def)
  have ds: "del_search ZEBRA_ROUTE_KERNEL idx ?L 0 None = Del_none (Some f)"
    using del_search_none [of ZEBRA_ROUTE_KERNEL ?L idx 0 None] kw fb by (simp add: kernel_withdraws_def fam vt fb_def)
  let ?rs = "?L[f := select_rib False (unset_fib (?L ! f))]"
  have none: "\<forall>x\<in>set ?rs. \<not> is_selected x"
    using inv f by (intro unselect_none) (simp_all add: node_inv_def)
  have odf: "over_down z' (select_rib False (unset_fib x))" if "over_down z' x" for z' x
    using that by (simp add: over_down_def select_rib_def unset_fib_def)
  have od: "\<forall>x\<in>set ?rs. over_down z x"
    using down odf f(1) by (auto dest!: set_update_subset_insert [THEN subsetD])
  define z1 where "z1 = set_vrf_table (family q) (set_ribs t (pfx_bits q) ?rs) z"
  have ifl: "iflist z1 = iflist z" by (simp add: z1_def set_vrf_table_def)
  have un: "\<forall>i<length ?rs. \<not> usable z1 q (?rs ! i)"
    using od over_down_unusable over_down_cong [OF ifl] by (metis nth_mem)
  have nok: "node_ok ?rs" "deleted_ok ?rs None" using none by (auto simp: node_ok_def deleted_ok_def is_gone_def)
  have sel0: "fold (pick z1 q ?rs) [0..<length ?rs] None = None" using pick_none [OF un] .
  have pr: "rib_process z1 kern q ?rs None = (map (checked z1 q) ?rs, [])"
    by (rule rib_process_cases [OF nok, of z1 q kern]) (use sel0 none in \<open>auto simp: is_gone_def\<close>)
  let ?c = "map (checked z1 q) ?rs"
  have pn: "process_node kern z q t ?rs None = (set_ribs (set_ribs t ?k ?rs) ?k ?c, [])"
    using pr by (simp add: process_node_def Let_def z1_def q(2))
  have "weight ?c = weight ?rs" by (rule weight_key) simp
  also have "\<dots> = weight ?L"
  proof (rule weight_key)
    show "map rib_key ?rs = map rib_key ?L" using f(1) by (intro nth_equalityI) (auto simp: nth_list_update)
  qed
  finally have w: "weight ?c = weight ?L" .
  have h: "held AF_INET (set_ribs (set_ribs t ?k ?rs) ?k ?c) ?k (weight ?c + 1) ?c (rt_entries ?t)"
    unfolding w by (intro held_set [OF held_set [OF t(2)]]) simp_all
  obtain t3 where t3: "route_unlock_node (set_ribs (set_ribs t ?k ?rs) ?k ?c) ?k = Some t3"
    "rt_entries t3 = (rt_entries ?t)(?k := if ?c = [] then None else Some ?c)"
    using held_done [OF h] by auto
  define z' where "z' = set_vrf_table AF_INET t3 z"
  have run: "rib_delete_ipv4 kern z ZEBRA_ROUTE_KERNEL p idx = Some (0, z')"
    using t(1) ds pn t3(1) by (simp add: rib_delete_ipv4_def q_def [symmetric] rib_delete_def q vt nr Let_def z'_def)
  have "ribs_at (rib_ipv4 z') ?k = ?c" using t3(2) ne by (simp add: z'_def set_vrf_table_def ribs_at_def)
  then have gone: "find is_selected (ribs_at (rib_ipv4 z') ?k) = None" using none by (simp add: find_None_iff)
  have view: "foldM (req_step p) (requests z) (None, None) = Some (view_of (Some r))"
    using z ip(1) sel fam unfolding zinv_def vt by (metis vt)
  have "requests z' = requests z" by (simp add: z'_def)
  then show ?thesis using run gone view by (simp add: view_of_def)
qed

section \<open>Examples\<close>

definition demo_kernel :: kernel where
  "demo_kernel = \<lparr>kernel_add = (\<lambda>p r. (0, r\<lparr>nexthops := map (\<lambda>nh. if nh_active nh
     then nh\<lparr>nh_flags := SET_FLAG (nh_flags nh) NEXTHOP_FLAG_FIB\<rparr> else nh) (nexthops r)\<rparr>)), kernel_delete = (\<lambda>p r. 0)\<rparr>"

definition demo_zebra :: zebra where
  "demo_zebra = \<lparr>rib_ipv4 = route_table_init, rib_ipv6 = route_table_init,
     iflist = [\<lparr>if_name = ''eth0'', if_index = 1, if_flags = 1\<rparr>], requests = []\<rparr>"

definition demo_route :: zebra where
  "demo_route = the (rib_add_ipv4 demo_kernel demo_zebra 0 ZEBRA_ROUTE_STATIC 0 net10 None 1 0 0)"

definition demo_down :: zebra where
  "demo_down = demo_route\<lparr>iflist := [\<lparr>if_name = ''eth0'', if_index = 1, if_flags = 0\<rparr>]\<rparr>"

lemma demo_kernel_ok: "kernel_ok demo_kernel"
  by (auto simp: kernel_ok_def demo_kernel_def)

lemma node_inv_Nil: "node_inv []"
  by (simp add: node_inv_def node_ok_def connected_first_def refs_ok_def)

lemma tab_inv_init: "tab_inv fam route_table_init"
  by (simp add: tab_inv_def table_locks_def route_table_init_def rt_entries_def rt_map_def ribs_at_def node_inv_Nil)

lemma demo_zebra_inv: "zinv demo_zebra"
proof -
  have "ribs_at (vrf_table f demo_zebra) k = []" for f k
    by (simp add: vrf_table_def demo_zebra_def route_table_init_def ribs_at_def rt_entries_def rt_map_def)
  then show ?thesis using tab_inv_init by (simp add: zinv_def demo_zebra_def)
qed

lemma net10_family: "family net10 = AF_INET"
  by (simp add: net10_def)

lemma zinv_iflist: "zinv (z\<lparr>iflist := x\<rparr>) = zinv z"
  by (simp add: zinv_def vrf_table_def)

lemma demo_route_inv: "zinv demo_route"
proof -
  define q where "q = apply_mask_ipv4 net10"
  have q: "q = apply_mask net10" by (simp add: q_def apply_mask_def net10_family)
  have wq: "prefix_wf q" unfolding q by (rule prefix_wf_apply_mask [OF net10_wf])
  define r where "r = nexthop_ifindex_add (rib_new 0 ZEBRA_ROUTE_STATIC 1 0 0) 1"
  have r: "new_route r" by (simp add: r_def new_route_def nexthop_ifindex_add_def CHECK_FLAG_def)
  have "ribs_at (vrf_table f demo_zebra) k = []" for f k
    by (simp add: vrf_table_def demo_zebra_def route_table_init_def ribs_at_def rt_entries_def rt_map_def)
  then have sm: "weight (ribs_at (vrf_table (family q) demo_zebra) (pfx_bits q)) + 1 < 2 ^ 32" by simp
  obtain z' where z': "rib_add demo_kernel demo_zebra q 1 r = Some z'" "zinv z'"
    using rib_add_inv [OF demo_zebra_inv wq demo_kernel_ok r sm] by blast
  have "default_distance ZEBRA_ROUTE_STATIC 0 = Some 1" by code_simp
  then have "demo_route = z'" using z'(1) by (simp add: demo_route_def rib_add_ipv4_def q_def r_def Let_def)
  then show ?thesis using z'(2) by simp
qed

theorem rib_operations_correct_witness:
  "(\<exists>z'. rib_add_ipv4 demo_kernel demo_route 0 ZEBRA_ROUTE_CONNECT 0 net10 None 1 0 0 = Some z' \<and> zinv z') \<and>
   (\<exists>ret z'. rib_delete_ipv4 demo_kernel demo_route ZEBRA_ROUTE_STATIC net10 1 = Some (ret, z') \<and> zinv z')"
proof -
  have "weight (ribs_at (rib_ipv4 demo_route) (pfx_bits net10)) = 1" by code_simp
  then have sm: "weight (ribs_at (rib_ipv4 demo_route) (pfx_bits net10)) + 1 < 2 ^ 32" by simp
  have ty: "unat ZEBRA_ROUTE_CONNECT < 9" "unat ZEBRA_ROUTE_STATIC < 9" "\<not> CHECK_FLAG 0 ZEBRA_FLAG_SELECTED"
    by (simp_all add: CHECK_FLAG_def)
  have kw: "\<not> kernel_withdraws demo_route ZEBRA_ROUTE_STATIC net10" by (simp add: kernel_withdraws_def)
  have d: "ZEBRA_ROUTE_CONNECT = ZEBRA_ROUTE_CONNECT \<longrightarrow> (0 :: u8) = 0" "ZEBRA_ROUTE_STATIC = ZEBRA_ROUTE_CONNECT \<longrightarrow> (0 :: u8) = 0" by simp_all
  note ops = rib_operations_correct [OF demo_route_inv demo_kernel_ok net10_wf net10_family sm, where now = 0 and gt = None and idx = 1 and metric = 0]
  show ?thesis
  proof
    show "\<exists>z'. rib_add_ipv4 demo_kernel demo_route 0 ZEBRA_ROUTE_CONNECT 0 net10 None 1 0 0 = Some z' \<and> zinv z'"
      using ops [OF ty(1,3) d(1), THEN conjunct1] by (elim exE conjE) (intro exI conjI)
    show "\<exists>ret z'. rib_delete_ipv4 demo_kernel demo_route ZEBRA_ROUTE_STATIC net10 1 = Some (ret, z') \<and> zinv z'"
      using ops [OF ty(2,3) d(2), THEN conjunct2, rule_format, OF kw] by (elim exE conjE) (intro exI conjI)
  qed
qed

theorem kernel_withdraws_silently_witness:
  "\<exists>z'. rib_delete_ipv4 demo_kernel demo_down ZEBRA_ROUTE_KERNEL net10 1 = Some (0, z') \<and>
    find is_selected (ribs_at (rib_ipv4 z') (pfx_bits net10)) = None \<and>
    map_option fst (foldM (req_step net10) (requests z') (None, None)) = Some (Some (ZEBRA_ROUTE_STATIC, 0, 1))"
proof -
  have inv: "zinv demo_down" by (simp add: demo_down_def zinv_iflist demo_route_inv)
  have "weight (ribs_at (rib_ipv4 demo_down) (pfx_bits net10)) = 1" by code_simp
  then have sm: "weight (ribs_at (rib_ipv4 demo_down) (pfx_bits net10)) + 1 < 2 ^ 32" by simp
  have kw: "kernel_withdraws demo_down ZEBRA_ROUTE_KERNEL net10" unfolding kernel_withdraws_def by code_simp
  have "map_option rib_id (find is_selected (ribs_at (rib_ipv4 demo_down) (pfx_bits net10))) = Some (ZEBRA_ROUTE_STATIC, 0, 1)" by code_simp
  then obtain r where r: "find is_selected (ribs_at (rib_ipv4 demo_down) (pfx_bits net10)) = Some r" "rib_id r = (ZEBRA_ROUTE_STATIC, 0, 1)"
    by auto
  have down: "\<forall>r\<in>set (ribs_at (rib_ipv4 demo_down) (pfx_bits net10)). over_down demo_down r" unfolding over_down_def by code_simp
  show ?thesis
    using kernel_withdraws_silently [OF inv demo_kernel_ok net10_wf net10_family sm kw r(1) down, of 1] r(2) by auto
qed

definition demo_ribs :: "rib list" where
  "demo_ribs = [nexthop_ifindex_add (rib_new 0 6 110 0 0) 1, nexthop_ifindex_add (rib_new 0 ZEBRA_ROUTE_STATIC 1 0 0) 1,
     nexthop_ifindex_add (rib_new 0 4 0 0 0) 7]"

theorem rib_process_correct_witness:
  "case rib_process demo_zebra demo_kernel net10 demo_ribs None of (rs', a) \<Rightarrow>
     map is_selected rs' = [False, True, False] \<and> foldM (req_step net10) a (None, None) = Some (view_of (find is_selected rs'))"
proof -
  have ok: "node_ok demo_ribs" "connected_first demo_ribs" unfolding node_ok_filter connected_first_def by code_simp+
  have d: "deleted_ok demo_ribs None" "old_route demo_ribs None = None" by code_simp+
  have ip: "ip_prefix net10" by (simp add: net10_family)
  have "map is_selected (fst (rib_process demo_zebra demo_kernel net10 demo_ribs None)) = [False, True, False]" by code_simp
  then show ?thesis
    using rib_process_correct [OF ok(1) d(1) ok(2) demo_kernel_ok ip, of demo_zebra] d(2) by (auto split: prod.splits)
qed

section \<open>The lookups leave the locks alone\<close>

text \<open>The path starts at the node \<open>route_node_match\<close> finds, and a lock that is released gives back the table.\<close>

lemma match_path_match:
  "(case match_path t p up of [] \<Rightarrow> None | x # _ \<Rightarrow> Some (fst x)) = match_walk t p (case up of [] \<Rightarrow> None | x # _ \<Rightarrow> Some (fst x))"
proof (induction t arbitrary: up)
  case (RNode n lk i l r)
  show ?case using RNode.IH(1) [of "(case i of None \<Rightarrow> up | Some v \<Rightarrow> (n, v) # up)"] RNode.IH(2) [of "(case i of None \<Rightarrow> up | Some v \<Rightarrow> (n, v) # up)"]
    by (cases i) (simp_all add: Let_def)
qed simp

lemma rn_modify_inverse: "rn_modify k (\<lambda>lk i. (lk - 1, i)) (rn_modify k (\<lambda>lk i. (lk + 1, i)) t) = t"
  by (induction t) simp_all

lemma lookup_restores:
  assumes tl: "table_locks fam t" and k: "rt_entries t k = Some rs" and small: "weight rs + 1 < 2 ^ 32"
  shows "route_unlock_node (route_lock_node t k) k = Some t"
proof -
  have sl: "slot_ok (rt_entries t k) (rt_map t k)" and wf: "rt_wf fam t" "rt_ok t" using tl by (simp_all add: table_locks_def)
  have m: "rt_map t k = Some (of_nat (weight rs), Some rs)" "rs \<noteq> []" using sl k by simp_all
  have nm: "\<forall>i. rt_map t k \<noteq> Some (- 1, i)" using slot_not_max [OF sl] small k by simp
  have ok: "rt_ok (route_lock_node t k)" by (rule rt_ok_lock [OF wf nm])
  have wf': "rt_wf fam (route_lock_node t k)" using wf(1) by (simp add: route_lock_node_def)
  have m': "rt_map (route_lock_node t k) k = Some (of_nat (weight rs + 1), Some rs)" using m by (simp add: rt_map_lock add.commute)
  have ne: "of_nat (weight rs + 1) \<noteq> (0 :: u32)" "of_nat (weight rs + 1) \<noteq> (1 :: u32)"
    using of_nat_u32 [OF small] weight_pos [OF m(2)] by simp_all
  have "route_unlock_node (route_lock_node t k) k = Some (rn_modify k (\<lambda>lk i. (lk - 1, i)) (route_lock_node t k))"
    using route_unlock_node_spec [OF wf' ok m' ne(1)] ne(2) by metis
  then show ?thesis by (simp add: route_lock_node_def rn_modify_inverse)
qed

end
