(* ===== verification/Rip_Route.thy ===== *)
theory Rip_Route
  imports Lib_Filter Lib_Table_Map
begin

text \<open>
  The routing table of the RIP daemon (\<open>ripd/ripd.c\<close>, \<open>rip_zebra.c\<close>, \<open>rip_offset.c\<close>, \<open>rip_peer.c\<close>): the entries of received
  updates, redistributed routes, timeout and garbage collection, and the messages to \<open>zebra\<close>.  A pointer to an entry is the
  prefix of its node in the trie; a pointer to an access or prefix list is its name, and following the pointer to a list that is gone
  is \<^term>\<open>None\<close>.  A timer is armed or not.  The host is little endian: \<open>ntohs\<close> and \<open>ntohl\<close> swap bytes.  The messages
  are recorded in the order they are sent.
\<close>

section \<open>Definitions\<close>

subsection \<open>State\<close>

abbreviation ROUTE_SYSTEM :: int where "ROUTE_SYSTEM \<equiv> 0"
abbreviation ROUTE_CONNECT :: int where "ROUTE_CONNECT \<equiv> 2"
abbreviation ROUTE_STATIC :: int where "ROUTE_STATIC \<equiv> 3"
abbreviation ROUTE_RIP :: int where "ROUTE_RIP \<equiv> 4"

abbreviation RIP_METRIC_INFINITY :: u32 where "RIP_METRIC_INFINITY \<equiv> 16"

abbreviation RIP_ROUTE_RTE :: int where "RIP_ROUTE_RTE \<equiv> 0"
abbreviation RIP_ROUTE_STATIC :: int where "RIP_ROUTE_STATIC \<equiv> 1"
abbreviation RIP_ROUTE_DEFAULT :: int where "RIP_ROUTE_DEFAULT \<equiv> 2"
abbreviation RIP_ROUTE_REDISTRIBUTE :: int where "RIP_ROUTE_REDISTRIBUTE \<equiv> 3"
abbreviation RIP_ROUTE_INTERFACE :: int where "RIP_ROUTE_INTERFACE \<equiv> 4"

abbreviation RIP_RTF_FIB :: u8 where "RIP_RTF_FIB \<equiv> 1"
abbreviation RIP_RTF_CHANGED :: u8 where "RIP_RTF_CHANGED \<equiv> 2"

abbreviation INADDR_ANY :: "u8 list" where "INADDR_ANY \<equiv> [0, 0, 0, 0]"

definition ntohs16 :: "u16 \<Rightarrow> u16" where
  "ntohs16 w = (push_bit 8 w) OR (drop_bit 8 w)"

text \<open>An entry of a received update; the metric is in host order once \<open>rip_response_process\<close> converted it.\<close>

record rte =
  rte_family :: u16
  rte_tag :: u16
  rte_prefix :: "u8 list"
  rte_mask :: "u8 list"
  rte_nexthop :: "u8 list"
  rte_metric :: u32

record rip_info =
  rip_type :: int
  rip_sub_type :: int
  rip_nexthop :: "u8 list"
  rip_from :: "u8 list"
  rip_ifindex :: u32
  rip_metric :: u32
  rip_tag :: u16
  rip_flags :: u8
  t_timeout :: bool
  t_garbage_collect :: bool
  nexthop_out :: "u8 list"
  metric_set :: u8
  metric_out :: u32
  ifindex_out :: u32
  rip_rp :: prefix
  rip_distance_of :: u8

record rip_distance_t =
  rd_distance :: u8
  rd_access_list :: "string option"

record rip_offset_list =
  off_ifname :: "string option"
  off_in_name :: "string option"
  off_in_metric :: int
  off_out_name :: "string option"
  off_out_metric :: int

record rip_connected =
  rc_address :: prefix
  rc_destination :: "prefix option"

text \<open>An interface with the fields of its \<open>struct rip_interface\<close>.\<close>

record rip_if =
  rif_name :: string
  rif_index :: u32
  rif_metric :: int
  rif_pointopoint :: bool
  rif_connected :: "rip_connected list"
  ri_running :: bool
  ri_receive :: int
  ri_auth_type :: int
  ri_auth_str :: "string option"
  ri_key_chain :: "string option"
  ri_split_horizon :: bool
  ri_passive :: bool
  ri_list_in :: "string option"
  ri_list_out :: "string option"
  ri_prefix_in :: "string option"
  ri_prefix_out :: "string option"

datatype rip_zmsg =
    Rip_add prefix "u8 list" u32 "u8 option"
  | Rip_delete prefix "u8 list" u32

record rip_peer =
  peer_addr :: "u8 list"
  peer_uptime :: int
  peer_version :: u8
  recv_badpackets :: int
  recv_badroutes :: int

text \<open>\<open>struct rip\<close> with the globals of the daemon; \<open>zclient->redist[ZEBRA_ROUTE_RIP]\<close> is \<open>r_redist\<close>.\<close>

record rip =
  r_table :: "rip_info route_table"
  r_distance_table :: "rip_distance_t route_table"
  r_distance :: u8
  r_trigger :: bool
  r_triggered_update :: bool
  r_triggered_interval :: bool
  r_iflist :: "rip_if list"
  r_access :: access_master
  r_plists :: prefix_master
  r_dists :: "distribute hash_t"
  r_offsets :: "rip_offset_list list"
  r_redist :: bool
  r_zmsgs :: "rip_zmsg list"
  r_route_changes :: ulong
  r_peers :: "rip_peer list"

definition rip_info_new :: rip_info where
  "rip_info_new = \<lparr>rip_type = 0, rip_sub_type = 0, rip_nexthop = INADDR_ANY, rip_from = INADDR_ANY, rip_ifindex = 0, rip_metric = 0,
     rip_tag = 0, rip_flags = 0, t_timeout = False, t_garbage_collect = False, nexthop_out = INADDR_ANY, metric_set = 0,
     metric_out = 0, ifindex_out = 0, rip_rp = prefix_new, rip_distance_of = 0\<rparr>"

definition rip_route_rte :: "rip_info \<Rightarrow> bool" where
  "rip_route_rte rinfo \<longleftrightarrow> rip_type rinfo = ROUTE_RIP \<and> rip_sub_type rinfo = RIP_ROUTE_RTE"

text \<open>\<open>rp->info\<close> of the node of a prefix, and the assignment to it.\<close>

definition rp_info :: "'a route_table \<Rightarrow> prefix \<Rightarrow> 'a option" where
  "rp_info t p = Option.bind (rn_find (pfx_bits p) t) rn_info"

definition rp_set_info :: "prefix \<Rightarrow> rip_info option \<Rightarrow> rip \<Rightarrow> rip" where
  "rp_set_info p v s = s\<lparr>r_table := route_set_info (r_table s) (pfx_bits p) v\<rparr>"

definition rp_unlock :: "prefix \<Rightarrow> rip \<Rightarrow> rip option" where
  "rp_unlock p s = map_option (\<lambda>t. s\<lparr>r_table := t\<rparr>) (route_unlock_node (r_table s) (pfx_bits p))"

subsection \<open>Messages and events\<close>

definition rip_zebra_ipv4_add :: "prefix \<Rightarrow> u8 list \<Rightarrow> u32 \<Rightarrow> u8 \<Rightarrow> rip \<Rightarrow> rip" where
  "rip_zebra_ipv4_add p nexthop metric dist s =
     (if r_redist s
      then s\<lparr>r_zmsgs := r_zmsgs s @ [Rip_add p nexthop metric (if dist \<noteq> 0 \<and> dist \<noteq> 120 then Some dist else None)],
             r_route_changes := r_route_changes s + 1\<rparr>
      else s)"

definition rip_zebra_ipv4_delete :: "prefix \<Rightarrow> u8 list \<Rightarrow> u32 \<Rightarrow> rip \<Rightarrow> rip" where
  "rip_zebra_ipv4_delete p nexthop metric s =
     (if r_redist s
      then s\<lparr>r_zmsgs := r_zmsgs s @ [Rip_delete p nexthop metric], r_route_changes := r_route_changes s + 1\<rparr>
      else s)"

definition rip_event_triggered :: "rip \<Rightarrow> rip" where
  "rip_event_triggered s =
     (if r_triggered_interval s then s\<lparr>r_trigger := True\<rparr>
      else if \<not> r_triggered_update s then s\<lparr>r_triggered_update := True\<rparr>
      else s)"

text \<open>\<open>RIP_TIMER_OFF\<close> followed by \<open>RIP_TIMER_ON\<close> restarts the timer.\<close>

definition rip_timeout_update :: "rip_info \<Rightarrow> rip_info" where
  "rip_timeout_update rinfo =
     (if rip_metric rinfo \<noteq> RIP_METRIC_INFINITY then rinfo\<lparr>t_timeout := True\<rparr> else rinfo)"

subsection \<open>Timers of an entry\<close>

text \<open>The timer of the entry of node \<open>p\<close> fired.\<close>

definition rip_garbage_collect :: "prefix \<Rightarrow> rip \<Rightarrow> rip option" where
  "rip_garbage_collect p s = do {
     rinfo \<leftarrow> rp_info (r_table s) p;
     let s = rp_set_info p None s;
     rp_unlock p s
   }"

definition rip_timeout :: "prefix \<Rightarrow> rip \<Rightarrow> rip option" where
  "rip_timeout p s = do {
     rinfo \<leftarrow> rp_info (r_table s) p;
     let rinfo = rinfo\<lparr>t_timeout := False, t_garbage_collect := True\<rparr>;
     let s = rip_zebra_ipv4_delete p (rip_nexthop rinfo) (rip_metric rinfo) s;
     let rinfo = rinfo\<lparr>rip_metric := RIP_METRIC_INFINITY, rip_flags := UNSET_FLAG (rip_flags rinfo) RIP_RTF_FIB\<rparr>;
     let rinfo = rinfo\<lparr>rip_flags := SET_FLAG (rip_flags rinfo) RIP_RTF_CHANGED\<rparr>;
     Some (rip_event_triggered (rp_set_info p (Some rinfo) s))
   }"

subsection \<open>Filters\<close>

definition acl_pass :: "union_layout \<Rightarrow> access_list \<Rightarrow> prefix \<Rightarrow> rip \<Rightarrow> (bool \<times> rip) option" where
  "acl_pass lay l p s = map_option (\<lambda>r. (r \<noteq> FILTER_DENY, s)) (access_list_apply lay (Some l) p)"

text \<open>Applying a prefix list counts in its entries.\<close>

definition plist_pass :: "prefix_list \<Rightarrow> prefix \<Rightarrow> rip \<Rightarrow> bool \<times> rip" where
  "plist_pass l p s =
     (let (r, l') = prefix_list_apply (Some l) p in
      (r \<noteq> PREFIX_DENY, case l' of Some x \<Rightarrow> s\<lparr>r_plists := name_put pl_name x (r_plists s)\<rparr> | None \<Rightarrow> s))"

definition ri_list :: "distribute_type \<Rightarrow> rip_if \<Rightarrow> string option" where
  "ri_list ty ri = (case ty of DISTRIBUTE_IN \<Rightarrow> ri_list_in ri | DISTRIBUTE_OUT \<Rightarrow> ri_list_out ri)"

definition ri_prefix :: "distribute_type \<Rightarrow> rip_if \<Rightarrow> string option" where
  "ri_prefix ty ri = (case ty of DISTRIBUTE_IN \<Rightarrow> ri_prefix_in ri | DISTRIBUTE_OUT \<Rightarrow> ri_prefix_out ri)"

text \<open>The body of \<open>rip_incoming_filter\<close> and \<open>rip_outgoing_filter\<close>, which differ in the direction only: the lists of the interface, then
  those for all interfaces.\<close>

definition rip_filter :: "union_layout \<Rightarrow> distribute_type \<Rightarrow> prefix \<Rightarrow> rip_if \<Rightarrow> rip \<Rightarrow> (bool \<times> rip) option" where
  "rip_filter lay ty p ri s = do {
     (ok, s) \<leftarrow> (case ri_list ty ri of
        None \<Rightarrow> Some (True, s)
      | Some n \<Rightarrow> do { l \<leftarrow> access_list_lookup (Some n) (r_access s); acl_pass lay l p s });
     if \<not> ok then Some (False, s) else do {
     (ok, s) \<leftarrow> (case ri_prefix ty ri of
        None \<Rightarrow> Some (True, s)
      | Some n \<Rightarrow> do { l \<leftarrow> prefix_list_lookup (Some n) (r_plists s); Some (plist_pass l p s) });
     if \<not> ok then Some (False, s) else do {
     dist \<leftarrow> distribute_lookup (r_dists s) None;
     case dist of
       None \<Rightarrow> Some (True, s)
     | Some d \<Rightarrow> do {
         (ok, s) \<leftarrow> (case access_list_lookup (d_list ty d) (r_access s) of
            None \<Rightarrow> Some (True, s)
          | Some l \<Rightarrow> acl_pass lay l p s);
         if \<not> ok then Some (False, s)
         else Some (case prefix_list_lookup (d_prefix ty d) (r_plists s) of
            None \<Rightarrow> (True, s)
          | Some l \<Rightarrow> plist_pass l p s)
       } } } }"

definition rip_incoming_filter :: "union_layout \<Rightarrow> prefix \<Rightarrow> rip_if \<Rightarrow> rip \<Rightarrow> (bool \<times> rip) option" where
  "rip_incoming_filter lay p ri s = rip_filter lay DISTRIBUTE_IN p ri s"

definition rip_outgoing_filter :: "union_layout \<Rightarrow> prefix \<Rightarrow> rip_if \<Rightarrow> rip \<Rightarrow> (bool \<times> rip) option" where
  "rip_outgoing_filter lay p ri s = rip_filter lay DISTRIBUTE_OUT p ri s"

subsection \<open>Offset lists and distances\<close>

definition rip_offset_list_lookup :: "string option \<Rightarrow> rip \<Rightarrow> rip_offset_list option" where
  "rip_offset_list_lookup nam s = find (\<lambda>offset. off_ifname offset = nam) (r_offsets s)"

text \<open>One of the two steps: the list of \<open>nam\<close>, when it has a name for the direction, decides.\<close>

definition offset_step :: "union_layout \<Rightarrow> (rip_offset_list \<Rightarrow> string option) \<Rightarrow> (rip_offset_list \<Rightarrow> int) \<Rightarrow> string option \<Rightarrow> prefix \<Rightarrow> u32 \<Rightarrow> rip
    \<Rightarrow> (bool \<times> u32) option option" where
  "offset_step lay name_of metric_of nam p metric s =
     (case rip_offset_list_lookup nam s of
        None \<Rightarrow> Some None
      | Some offset \<Rightarrow>
          (case name_of offset of
             None \<Rightarrow> Some None
           | Some n \<Rightarrow>
               (case access_list_lookup (Some n) (r_access s) of
                  None \<Rightarrow> Some (Some (False, metric))
                | Some l \<Rightarrow> do {
                    r \<leftarrow> access_list_apply lay (Some l) p;
                    Some (Some (if r = FILTER_PERMIT then (True, metric + of_int (metric_of offset)) else (False, metric)))
                  })))"

definition offset_apply :: "union_layout \<Rightarrow> (rip_offset_list \<Rightarrow> string option) \<Rightarrow> (rip_offset_list \<Rightarrow> int) \<Rightarrow> prefix \<Rightarrow> rip_if \<Rightarrow> u32 \<Rightarrow> rip
    \<Rightarrow> (bool \<times> u32) option" where
  "offset_apply lay name_of metric_of p ifp metric s = do {
     r \<leftarrow> offset_step lay name_of metric_of (Some (rif_name ifp)) p metric s;
     case r of
       Some x \<Rightarrow> Some x
     | None \<Rightarrow> do {
         r \<leftarrow> offset_step lay name_of metric_of None p metric s;
         Some (case r of Some x \<Rightarrow> x | None \<Rightarrow> (False, metric))
       }
   }"

definition rip_offset_list_apply_in :: "union_layout \<Rightarrow> prefix \<Rightarrow> rip_if \<Rightarrow> u32 \<Rightarrow> rip \<Rightarrow> (bool \<times> u32) option" where
  "rip_offset_list_apply_in lay p ifp metric s = offset_apply lay off_in_name off_in_metric p ifp metric s"

definition rip_offset_list_apply_out :: "union_layout \<Rightarrow> prefix \<Rightarrow> rip_if \<Rightarrow> u32 \<Rightarrow> rip \<Rightarrow> (bool \<times> u32) option" where
  "rip_offset_list_apply_out lay p ifp metric s = offset_apply lay off_out_name off_out_metric p ifp metric s"

definition rip_nexthop_check :: "u8 list \<Rightarrow> rip \<Rightarrow> bool" where
  "rip_nexthop_check addr s \<longleftrightarrow>
     \<not> (\<exists>ifp\<in>set (r_iflist s). \<exists>ifc\<in>set (rif_connected ifp).
          family (rc_address ifc) = AF_INET \<and> take 4 (u_prefix (rc_address ifc)) = addr)"

definition host_prefix :: "u8 list \<Rightarrow> prefix" where
  "host_prefix addr = \<lparr>family = AF_INET, prefixlen = 32, u_prefix = addr @ replicate 12 0\<rparr>"

definition rip_distance_apply :: "union_layout \<Rightarrow> rip_info \<Rightarrow> rip \<Rightarrow> (u8 \<times> rip) option" where
  "rip_distance_apply lay rinfo s =
     (let (t, rn) = route_node_match (r_distance_table s) (host_prefix (rip_from rinfo)) in
      case rn of
        Some n \<Rightarrow> do {
          rdistance \<leftarrow> rp_info t n;
          t \<leftarrow> route_unlock_node t (pfx_bits n);
          let s = s\<lparr>r_distance_table := t\<rparr>;
          case rd_access_list rdistance of
            None \<Rightarrow> Some (rd_distance rdistance, s)
          | Some name \<Rightarrow>
              (case access_list_lookup (Some name) (r_access s) of
                 None \<Rightarrow> Some (0, s)
               | Some alist \<Rightarrow> do {
                   r \<leftarrow> access_list_apply lay (Some alist) (rip_rp rinfo);
                   Some (if r = FILTER_DENY then 0 else rd_distance rdistance, s)
                 })
        }
      | None \<Rightarrow> Some (r_distance s, s))"

subsection \<open>An entry of an update\<close>

text \<open>There was no route: the new entry is entered and announced.\<close>

definition rte_new :: "union_layout \<Rightarrow> rte \<Rightarrow> u32 \<Rightarrow> u8 list \<Rightarrow> u8 list \<Rightarrow> rip_if \<Rightarrow> prefix \<Rightarrow> rip \<Rightarrow> rip option" where
  "rte_new lay rte metric nexthop from ifp p s = do {
     let rinfo = rip_info_new\<lparr>rip_rp := p, rip_metric := metric, rip_tag := ntohs16 (rte_tag rte), rip_nexthop := nexthop,
           rip_from := from, rip_ifindex := rif_index ifp\<rparr>;
     let rinfo = rip_timeout_update rinfo;
     let rinfo = rinfo\<lparr>rip_flags := SET_FLAG (rip_flags rinfo) RIP_RTF_CHANGED\<rparr>;
     let s = rip_event_triggered s;
     let rinfo = rinfo\<lparr>rip_type := ROUTE_RIP, rip_sub_type := RIP_ROUTE_RTE\<rparr>;
     (d, s) \<leftarrow> rip_distance_apply lay rinfo s;
     let rinfo = rinfo\<lparr>rip_distance_of := d\<rparr>;
     let s = rip_zebra_ipv4_add p (rip_nexthop rinfo) (rip_metric rinfo) (rip_distance_of rinfo) s;
     let rinfo = rinfo\<lparr>rip_flags := SET_FLAG (rip_flags rinfo) RIP_RTF_FIB\<rparr>;
     Some (rp_set_info p (Some rinfo) s)
   }"

text \<open>The condition under which an existing entry takes the route of the update: as the code has it, the tag of the entry is in host
  order and that of the update is not, and the next hop of the update is compared before the address of the sender replaces a missing one.\<close>

definition rte_differs :: "bool \<Rightarrow> rip_info \<Rightarrow> rte \<Rightarrow> u32 \<Rightarrow> bool" where
  "rte_differs same rinfo rte metric \<longleftrightarrow>
     same \<and> (rip_metric rinfo \<noteq> metric \<or> rip_tag rinfo \<noteq> rte_tag rte \<or> rte_nexthop rte \<noteq> rip_nexthop rinfo)
     \<or> metric < rip_metric rinfo"

definition rte_adopt :: "union_layout \<Rightarrow> rip_info \<Rightarrow> rte \<Rightarrow> u32 \<Rightarrow> u8 list \<Rightarrow> u8 list \<Rightarrow> rip_if \<Rightarrow> prefix \<Rightarrow> rip \<Rightarrow> (rip_info \<times> rip) option" where
  "rte_adopt lay rinfo rte metric nexthop from ifp p s = do {
     let oldmetric = rip_metric rinfo;
     let rinfo = rinfo\<lparr>rip_metric := metric, rip_tag := ntohs16 (rte_tag rte), rip_from := from, rip_ifindex := rif_index ifp\<rparr>;
     (d, s) \<leftarrow> rip_distance_apply lay rinfo s;
     let rinfo = rinfo\<lparr>rip_distance_of := d\<rparr>;
     let (rinfo, s) =
       (if oldmetric = RIP_METRIC_INFINITY \<and> rip_metric rinfo < RIP_METRIC_INFINITY
        then (rinfo\<lparr>rip_type := ROUTE_RIP, rip_sub_type := RIP_ROUTE_RTE, t_garbage_collect := False, rip_nexthop := nexthop,
                rip_flags := SET_FLAG (rip_flags rinfo) RIP_RTF_FIB\<rparr>,
              rip_zebra_ipv4_add p nexthop (rip_metric rinfo) (rip_distance_of rinfo) s)
        else (rinfo, s));
     let (rinfo, s) =
       (if oldmetric \<noteq> RIP_METRIC_INFINITY
        then (rinfo\<lparr>rip_flags := SET_FLAG (rip_flags rinfo) RIP_RTF_FIB, rip_nexthop := nexthop\<rparr>,
              rip_zebra_ipv4_add p nexthop (rip_metric rinfo) (rip_distance_of rinfo)
                (rip_zebra_ipv4_delete p (rip_nexthop rinfo) oldmetric s))
        else (rinfo, s));
     let rinfo = rinfo\<lparr>rip_flags := SET_FLAG (rip_flags rinfo) RIP_RTF_CHANGED\<rparr>;
     let s = rip_event_triggered s;
     Some (if rip_metric rinfo = RIP_METRIC_INFINITY
           then (if oldmetric \<noteq> RIP_METRIC_INFINITY
                 then (rinfo\<lparr>t_garbage_collect := True, t_timeout := False, rip_flags := UNSET_FLAG (rip_flags rinfo) RIP_RTF_FIB\<rparr>,
                       rip_zebra_ipv4_delete p (rip_nexthop rinfo) oldmetric s)
                 else (rinfo, s))
           else (rip_timeout_update rinfo, s))
   }"

definition rte_update :: "union_layout \<Rightarrow> rip_info \<Rightarrow> rte \<Rightarrow> u32 \<Rightarrow> u8 list \<Rightarrow> u8 list \<Rightarrow> rip_if \<Rightarrow> prefix \<Rightarrow> rip \<Rightarrow> rip option" where
  "rte_update lay rinfo rte metric nexthop from ifp p s = do {
     let same = (rip_from rinfo = from);
     let rinfo = (if same then rip_timeout_update rinfo else rinfo);
     (rinfo, s) \<leftarrow> (if rte_differs same rinfo rte metric then rte_adopt lay rinfo rte metric nexthop from ifp p s
                     else Some (rinfo, s));
     rp_unlock p (rp_set_info p (Some rinfo) s)
   }"

text \<open>The prefix of an entry, its metric after the cost of the interface, and its next hop.\<close>

definition rte_pfx :: "rte \<Rightarrow> prefix" where
  "rte_pfx rte = apply_mask_ipv4 \<lparr>family = AF_INET, prefixlen = of_nat (ip_masklen (rte_mask rte)), u_prefix = rte_prefix rte @ replicate 12 0\<rparr>"

definition rte_cost :: "union_layout \<Rightarrow> rte \<Rightarrow> rip_if \<Rightarrow> rip \<Rightarrow> u32 option" where
  "rte_cost lay rte ifp s = do {
     (ret, metric) \<leftarrow> rip_offset_list_apply_in lay (rte_pfx rte) ifp (rte_metric rte) s;
     let metric = (if \<not> ret then metric + of_int (rif_metric ifp) else metric);
     Some (if metric > RIP_METRIC_INFINITY then RIP_METRIC_INFINITY else metric)
   }"

definition rte_hop :: "rte \<Rightarrow> u8 list \<Rightarrow> u8 list" where
  "rte_hop rte from = (if rte_nexthop rte = INADDR_ANY then from else rte_nexthop rte)"

text \<open>The route is entered at the node of its prefix.\<close>

definition rte_enter :: "union_layout \<Rightarrow> rte \<Rightarrow> u32 \<Rightarrow> u8 list \<Rightarrow> u8 list \<Rightarrow> rip_if \<Rightarrow> prefix \<Rightarrow> rip \<Rightarrow> rip option" where
  "rte_enter lay rte metric nexthop from ifp p s = do {
     t \<leftarrow> route_node_get (r_table s) p;
     let s = s\<lparr>r_table := t\<rparr>;
     case rp_info t p of
       None \<Rightarrow> if metric \<noteq> RIP_METRIC_INFINITY then rte_new lay rte metric nexthop from ifp p s else Some s
     | Some rinfo \<Rightarrow>
         if rip_type rinfo \<noteq> ROUTE_RIP \<and> rip_metric rinfo \<noteq> RIP_METRIC_INFINITY then Some s
         else if rip_type rinfo = ROUTE_RIP \<and> rip_sub_type rinfo = RIP_ROUTE_STATIC \<and> rip_metric rinfo \<noteq> RIP_METRIC_INFINITY then Some s
         else rte_update lay rinfo rte metric nexthop from ifp p s
   }"

definition rip_rte_process :: "union_layout \<Rightarrow> rte \<Rightarrow> u8 list \<Rightarrow> rip_if \<Rightarrow> rip \<Rightarrow> rip option" where
  "rip_rte_process lay rte from ifp s = do {
     let p = rte_pfx rte;
     (ok, s) \<leftarrow> rip_incoming_filter lay p ifp s;
     if \<not> ok then Some s else do {
     metric \<leftarrow> rte_cost lay rte ifp s;
     let nexthop = rte_hop rte from;
     if \<not> rip_nexthop_check nexthop s then Some s
     else rte_enter lay rte metric nexthop from ifp p s
     } }"

subsection \<open>Redistributed routes\<close>

definition rip_destination_check :: "u8 list \<Rightarrow> bool" where
  "rip_destination_check addr =
     (let destination = ntohl addr in
      if destination AND 0xff000000 = 0x7f000000 then False
      else if destination AND 0xff000000 = 0 \<and> destination \<noteq> 0 then False
      else if IN_CLASSA destination then True
      else if IN_CLASSB destination then True
      else if IN_CLASSC destination then True
      else False)"

definition redist_entry :: "int \<Rightarrow> int \<Rightarrow> prefix \<Rightarrow> u32 \<Rightarrow> u8 list option \<Rightarrow> rip_info" where
  "redist_entry type sub p ifindex nexthop =
     (let rinfo = rip_info_new\<lparr>rip_type := type, rip_sub_type := sub, rip_ifindex := ifindex, rip_metric := 1, rip_rp := p\<rparr>;
          rinfo = (case nexthop of Some n \<Rightarrow> rinfo\<lparr>rip_nexthop := n\<rparr> | None \<Rightarrow> rinfo);
          rinfo = rinfo\<lparr>rip_flags := SET_FLAG (rip_flags rinfo) RIP_RTF_FIB\<rparr>
      in rinfo\<lparr>rip_flags := SET_FLAG (rip_flags rinfo) RIP_RTF_CHANGED\<rparr>)"

definition rip_redistribute_add :: "int \<Rightarrow> int \<Rightarrow> prefix \<Rightarrow> u32 \<Rightarrow> u8 list option \<Rightarrow> rip \<Rightarrow> rip option" where
  "rip_redistribute_add type sub p ifindex nexthop s =
     (if \<not> rip_destination_check (take 4 (u_prefix p)) then Some s
      else do {
        t \<leftarrow> route_node_get (r_table s) p;
        let s = s\<lparr>r_table := t\<rparr>;
        case rp_info t p of
          None \<Rightarrow> Some (rip_event_triggered (rp_set_info p (Some (redist_entry type sub p ifindex nexthop)) s))
        | Some rinfo \<Rightarrow>
            if rip_type rinfo = ROUTE_CONNECT \<and> rip_sub_type rinfo = RIP_ROUTE_INTERFACE \<and> rip_metric rinfo \<noteq> RIP_METRIC_INFINITY
            then rp_unlock p s
            else if rip_type rinfo = ROUTE_RIP \<and> rip_sub_type rinfo = RIP_ROUTE_STATIC \<and> (type \<noteq> ROUTE_RIP \<or> sub \<noteq> RIP_ROUTE_STATIC)
            then rp_unlock p s
            else do {
              let s = (if rip_route_rte rinfo then rip_zebra_ipv4_delete p (rip_nexthop rinfo) (rip_metric rinfo) s else s);
              s \<leftarrow> rp_unlock p (rp_set_info p None s);
              Some (rip_event_triggered (rp_set_info p (Some (redist_entry type sub p ifindex nexthop)) s))
            }
      })"

text \<open>Poisoned reverse: the entry stays with an infinite metric until it is collected.\<close>

definition poison :: "rip_info \<Rightarrow> rip_info" where
  "poison rinfo = rinfo\<lparr>rip_metric := RIP_METRIC_INFINITY, t_garbage_collect := True, t_timeout := False,
     rip_flags := SET_FLAG (rip_flags rinfo) RIP_RTF_CHANGED\<rparr>"

definition rip_redistribute_delete :: "int \<Rightarrow> int \<Rightarrow> prefix \<Rightarrow> u32 \<Rightarrow> rip \<Rightarrow> rip option" where
  "rip_redistribute_delete type sub p ifindex s =
     (if \<not> rip_destination_check (take 4 (u_prefix p)) then Some s
      else let (t, rp) = route_node_lookup (r_table s) p; s = s\<lparr>r_table := t\<rparr> in
        (case rp of
           None \<Rightarrow> Some s
         | Some n \<Rightarrow>
             Some (case rp_info t n of
                     None \<Rightarrow> s
                   | Some rinfo \<Rightarrow>
                       if rip_type rinfo = type \<and> rip_sub_type rinfo = sub \<and> rip_ifindex rinfo = ifindex
                       then rip_event_triggered (rp_set_info n (Some (poison rinfo)) s) else s)))"

text \<open>The loops over the table visit every entry; what they do to one entry does not depend on the others.\<close>

definition rip_map_info :: "(rip_info \<Rightarrow> rip_info) \<Rightarrow> rip \<Rightarrow> rip" where
  "rip_map_info f s = s\<lparr>r_table := map_route_node f (r_table s)\<rparr>"

definition withdraws :: "int \<Rightarrow> rip_info \<Rightarrow> bool" where
  "withdraws type rinfo \<longleftrightarrow> rip_type rinfo = type \<and> rip_sub_type rinfo \<noteq> RIP_ROUTE_INTERFACE"

definition rip_redistribute_withdraw :: "int \<Rightarrow> rip \<Rightarrow> rip" where
  "rip_redistribute_withdraw type s =
     (let s' = rip_map_info (\<lambda>rinfo. if withdraws type rinfo then poison rinfo else rinfo) s in
      if \<exists>rinfo\<in>set_route_node (r_table s). withdraws type rinfo then rip_event_triggered s' else s')"

definition rip_clear_changed_flag :: "rip \<Rightarrow> rip" where
  "rip_clear_changed_flag s = rip_map_info (\<lambda>rinfo. rinfo\<lparr>rip_flags := UNSET_FLAG (rip_flags rinfo) RIP_RTF_CHANGED\<rparr>) s"

subsection \<open>Interfaces that go down\<close>

text \<open>The body of the loop for the entry of node \<open>p\<close>.  As the code has it, the message to \<open>zebra\<close> carries the index of the interface in
  place of the metric, and the flag \<open>RIP_RTF_FIB\<close> stays.\<close>

definition if_down_node :: "rip_if \<Rightarrow> prefix \<Rightarrow> rip \<Rightarrow> rip option" where
  "if_down_node ifp p s =
     (case rp_info (r_table s) p of
        None \<Rightarrow> Some s
      | Some rinfo \<Rightarrow>
          if rip_ifindex rinfo = rif_index ifp \<and> rip_type rinfo = ROUTE_RIP \<and> rip_sub_type rinfo = RIP_ROUTE_RTE
          then rip_redistribute_delete (rip_type rinfo) (rip_sub_type rinfo) p (rip_ifindex rinfo)
                 (rip_zebra_ipv4_delete p (rip_nexthop rinfo) (rip_ifindex rinfo) s)
          else if rip_ifindex rinfo = rif_index ifp \<and> rip_type rinfo \<noteq> ROUTE_STATIC \<and> rip_type rinfo \<noteq> ROUTE_SYSTEM
          then rip_redistribute_delete (rip_type rinfo) (rip_sub_type rinfo) p (rip_ifindex rinfo) s
          else Some s)"

fun if_down_loop :: "rip_if \<Rightarrow> prefix list \<Rightarrow> rip \<Rightarrow> rip option" where
  "if_down_loop ifp [] s = Some s"
| "if_down_loop ifp (p # ps) s = do { s \<leftarrow> if_down_node ifp p s; if_down_loop ifp ps s }"

text \<open>The body neither adds nor frees a node, so \<open>route_top\<close> and \<open>route_next\<close> visit the nodes the table had at the start, in their
  order, and give back the locks they take.  Leaving the multicast group is left out.\<close>

definition rip_if_down :: "rip_if \<Rightarrow> rip \<Rightarrow> rip option" where
  "rip_if_down ifp s = do {
     s \<leftarrow> if_down_loop ifp (rn_prefixes (r_table s)) s;
     Some (if ri_running ifp
           then s\<lparr>r_iflist := map (\<lambda>i. if i = ifp then i\<lparr>ri_running := False\<rparr> else i) (r_iflist s)\<rparr> else s)
   }"


subsection \<open>Peers\<close>

definition rip_peer_lookup :: "u8 list \<Rightarrow> rip \<Rightarrow> rip_peer option" where
  "rip_peer_lookup addr s = find (\<lambda>peer. peer_addr peer = addr) (r_peers s)"

text \<open>The comparison is never negative, so \<open>listnode_add_sort\<close>, which enters before the first peer that is greater, always appends.\<close>

definition rip_peer_list_cmp :: "rip_peer \<Rightarrow> rip_peer \<Rightarrow> int" where
  "rip_peer_list_cmp p1 p2 = (if ntohl (peer_addr p1) > ntohl (peer_addr p2) then 1 else 0)"

text \<open>The peer of an address, made when there is none, after \<open>f\<close> changed it.\<close>

definition rip_peer_get :: "int \<Rightarrow> u8 list \<Rightarrow> (rip_peer \<Rightarrow> rip_peer) \<Rightarrow> rip \<Rightarrow> rip" where
  "rip_peer_get now addr f s =
     (case rip_peer_lookup addr s of
        Some _ \<Rightarrow> s\<lparr>r_peers := map (\<lambda>x. if peer_addr x = addr then f (x\<lparr>peer_uptime := now\<rparr>) else x) (r_peers s)\<rparr>
      | None \<Rightarrow>
          let peer = f \<lparr>peer_addr = addr, peer_uptime = now, peer_version = 0, recv_badpackets = 0, recv_badroutes = 0\<rparr>
          in s\<lparr>r_peers := insert_before (\<lambda>x. rip_peer_list_cmp peer x < 0) peer (r_peers s)\<rparr>)"

definition rip_peer_update :: "int \<Rightarrow> u8 list \<Rightarrow> u8 \<Rightarrow> rip \<Rightarrow> rip" where
  "rip_peer_update now addr version s = rip_peer_get now addr (\<lambda>peer. peer\<lparr>peer_version := version\<rparr>) s"

definition rip_peer_bad_route :: "int \<Rightarrow> u8 list \<Rightarrow> rip \<Rightarrow> rip" where
  "rip_peer_bad_route now addr s = rip_peer_get now addr (\<lambda>peer. peer\<lparr>recv_badroutes := recv_badroutes peer + 1\<rparr>) s"

definition rip_peer_bad_packet :: "int \<Rightarrow> u8 list \<Rightarrow> rip \<Rightarrow> rip" where
  "rip_peer_bad_packet now addr s = rip_peer_get now addr (\<lambda>peer. peer\<lparr>recv_badpackets := recv_badpackets peer + 1\<rparr>) s"

definition rip_peer_timeout :: "u8 list \<Rightarrow> rip \<Rightarrow> rip" where
  "rip_peer_timeout addr s = s\<lparr>r_peers := filter (\<lambda>x. peer_addr x \<noteq> addr) (r_peers s)\<rparr>"

subsection \<open>Interfaces by address\<close>

definition if_addresses :: "rip \<Rightarrow> (rip_if \<times> rip_connected) list" where
  "if_addresses s = concat (map (\<lambda>ifp. map (Pair ifp) (rif_connected ifp)) (r_iflist s))"

definition same_addr :: "prefix option \<Rightarrow> u8 list \<Rightarrow> bool" where
  "same_addr p addr = (case p of None \<Rightarrow> False | Some q \<Rightarrow> take 4 (u_prefix q) = addr)"

fun if_lookup_loop :: "u8 list \<Rightarrow> (rip_if \<times> rip_connected) list \<Rightarrow> u8 \<Rightarrow> rip_if option \<Rightarrow> rip_if option" where
  "if_lookup_loop addr [] best mtch = mtch"
| "if_lookup_loop addr ((ifp, c) # cs) best mtch =
     (if rif_pointopoint ifp
      then (if family (rc_address c) = AF_INET \<and> same_addr (rc_destination c) addr then Some ifp
            else if_lookup_loop addr cs best mtch)
      else if family (rc_address c) = AF_INET \<and> prefix_match (rc_address c) (host_prefix addr) \<and> best < prefixlen (rc_address c)
      then if_lookup_loop addr cs (prefixlen (rc_address c)) (Some ifp)
      else if_lookup_loop addr cs best mtch)"

definition if_lookup_address :: "u8 list \<Rightarrow> rip \<Rightarrow> rip_if option" where
  "if_lookup_address addr s = if_lookup_loop addr (if_addresses s) 0 None"

definition if_check_address :: "u8 list \<Rightarrow> rip \<Rightarrow> bool" where
  "if_check_address addr s \<longleftrightarrow>
     (\<exists>ifp\<in>set (r_iflist s). \<exists>c\<in>set (rif_connected ifp). family (rc_address c) = AF_INET \<and> take 4 (u_prefix (rc_address c)) = addr)"

definition if_valid_neighbor :: "u8 list \<Rightarrow> rip \<Rightarrow> bool" where
  "if_valid_neighbor addr s \<longleftrightarrow>
     (\<exists>(ifp, c)\<in>set (if_addresses s).
        if rif_pointopoint ifp
        then family (rc_address c) = AF_INET \<and> (take 4 (u_prefix (rc_address c)) = addr \<or> same_addr (rc_destination c) addr)
        else family (rc_address c) = AF_INET \<and> prefix_match (apply_mask (rc_address c)) (host_prefix addr))"

subsection \<open>Responses\<close>

text \<open>The fields of an entry of a packet: family and metric are in host order, the tag is as it is stored in the packet.\<close>

record rip_packet =
  pkt_command :: u8
  pkt_version :: u8
  pkt_rte :: "rte list"

text \<open>The received next hop; one that is not directly reachable is replaced by the originator of the RIP route to it, or by none.
  \<open>Some None\<close> skips the entry.\<close>

definition rte_reachable :: "rte \<Rightarrow> rip \<Rightarrow> (rte option \<times> rip) option" where
  "rte_reachable rte s =
     (if rte_nexthop rte = INADDR_ANY then Some (Some rte, s)
      else if ntohl (rte_nexthop rte) AND 0xf0000000 = 0xe0000000 then Some (None, s)
      else if if_lookup_address (rte_nexthop rte) s \<noteq> None then Some (Some rte, s)
      else let (t, rn) = route_node_match_ipv4 (r_table s) (rte_nexthop rte) in
        (case rn of
           None \<Rightarrow> Some (Some (rte\<lparr>rte_nexthop := INADDR_ANY\<rparr>), s\<lparr>r_table := t\<rparr>)
         | Some n \<Rightarrow> do {
             rinfo \<leftarrow> rp_info t n;
             t \<leftarrow> route_unlock_node t (pfx_bits n);
             Some (Some (rte\<lparr>rte_nexthop := (if rip_type rinfo = ROUTE_RIP \<and> rip_sub_type rinfo = RIP_ROUTE_RTE
                                            then rip_from rinfo else INADDR_ANY)\<rparr>), s\<lparr>r_table := t\<rparr>)
           }))"

definition mask_guess :: "u8 list \<Rightarrow> nat" where
  "mask_guess prf =
     (let destination = ntohl prf in
      if destination AND 0xff \<noteq> 0 then 32
      else if destination AND 0xff00 \<noteq> 0 \<or> IN_CLASSC destination then 24
      else if destination AND 0xff0000 \<noteq> 0 \<or> IN_CLASSB destination then 16
      else 8)"

definition rte_guess :: "u8 \<Rightarrow> rte \<Rightarrow> rte option" where
  "rte_guess version rte =
     (if version = 1 \<and> rte_prefix rte \<noteq> INADDR_ANY
         \<or> version = 2 \<and> rte_prefix rte \<noteq> INADDR_ANY \<and> rte_mask rte = INADDR_ANY
      then map_option (\<lambda>m. rte\<lparr>rte_mask := m\<rparr>) (masklen2ip (mask_guess (rte_prefix rte)))
      else Some rte)"

definition response_rte :: "union_layout \<Rightarrow> int \<Rightarrow> u8 \<Rightarrow> bool \<Rightarrow> rte \<Rightarrow> u8 list \<Rightarrow> rip_if \<Rightarrow> rip \<Rightarrow> rip option" where
  "response_rte lay now version first rte from ifp s =
     (if version = 2 \<and> first \<and> rte_family rte = 0xffff then Some s
      else if rte_family rte \<noteq> 2 then Some s
      else if \<not> rip_destination_check (rte_prefix rte) then Some (rip_peer_bad_route now from s)
      else if \<not> (1 \<le> rte_metric rte \<and> rte_metric rte \<le> 16) then Some (rip_peer_bad_route now from s)
      else if version = 1 \<and> rte_nexthop rte \<noteq> INADDR_ANY then Some (rip_peer_bad_route now from s)
      else do {
        (r, s) \<leftarrow> (if version = 2 then rte_reachable rte s else Some (Some rte, s));
        case r of
          None \<Rightarrow> Some s
        | Some rte \<Rightarrow> do {
            rte \<leftarrow> rte_guess version rte;
            if version = 2 \<and> rte_mask rte \<noteq> INADDR_ANY \<and> map2 (AND) (rte_prefix rte) (rte_mask rte) \<noteq> rte_prefix rte
            then Some (rip_peer_bad_route now from s)
            else do {
              let rte = (if version = 2 \<and> rte_prefix rte = INADDR_ANY \<and> rte_mask rte \<noteq> INADDR_ANY then rte\<lparr>rte_mask := INADDR_ANY\<rparr> else rte);
              rip_rte_process lay rte from ifp s
            }
          }
      })"

fun response_loop :: "union_layout \<Rightarrow> int \<Rightarrow> u8 \<Rightarrow> bool \<Rightarrow> rte list \<Rightarrow> u8 list \<Rightarrow> rip_if \<Rightarrow> rip \<Rightarrow> rip option" where
  "response_loop lay now version first [] from ifp s = Some s"
| "response_loop lay now version first (rte # rtes) from ifp s = do {
     s \<leftarrow> response_rte lay now version first rte from ifp s;
     response_loop lay now version False rtes from ifp s
   }"

definition rip_response_process :: "union_layout \<Rightarrow> int \<Rightarrow> rip_packet \<Rightarrow> u16 \<Rightarrow> u8 list \<Rightarrow> rip_if \<Rightarrow> rip \<Rightarrow> rip option" where
  "rip_response_process lay now packet port from ifp s =
     (if port \<noteq> 520 then Some (rip_peer_bad_packet now from s)
      else if \<not> if_valid_neighbor from s then Some (rip_peer_bad_packet now from s)
      else response_loop lay now (pkt_version packet) True (pkt_rte packet) from ifp (rip_peer_update now from (pkt_version packet) s))"


section \<open>Invariant\<close>

text \<open>What \<open>zebra\<close> holds for a prefix after the messages: the next hop and metric of the last announcement.\<close>

fun zmsg_key :: "rip_zmsg \<Rightarrow> bool list" where
  "zmsg_key (Rip_add p n m d) = pfx_bits p"
| "zmsg_key (Rip_delete p n m) = pfx_bits p"

fun zstep :: "rip_zmsg \<Rightarrow> (u8 list \<times> u32) option \<Rightarrow> (u8 list \<times> u32) option" where
  "zstep (Rip_add p n m d) v = Some (n, m)"
| "zstep (Rip_delete p n m) v = None"

definition zview :: "rip_zmsg list \<Rightarrow> bool list \<Rightarrow> (u8 list \<times> u32) option" where
  "zview ms k = fold zstep (filter (\<lambda>x. zmsg_key x = k) ms) None"

text \<open>What it should hold for an entry: a learned route that is not at infinity.\<close>

definition zfib :: "rip_info option \<Rightarrow> (u8 list \<times> u32) option" where
  "zfib e = (case e of
     Some r \<Rightarrow> if rip_route_rte r \<and> rip_metric r \<noteq> RIP_METRIC_INFINITY then Some (rip_nexthop r, rip_metric r) else None
   | None \<Rightarrow> None)"

text \<open>An entry belongs to its node; its garbage timer runs exactly when its metric is infinity; its timeout runs exactly when
  it is a learned route in use, and then it has a next hop.  Other routes have no originator, and metric 1 until they
  are withdrawn.\<close>

definition rinfo_ok :: "bool list \<Rightarrow> rip_info \<Rightarrow> bool" where
  "rinfo_ok k r \<longleftrightarrow> pfx_bits (rip_rp r) = k \<and> prefix_wf (rip_rp r) \<and> family (rip_rp r) = AF_INET
     \<and> rip_metric r \<le> RIP_METRIC_INFINITY
     \<and> t_garbage_collect r = (rip_metric r = RIP_METRIC_INFINITY)
     \<and> t_timeout r = (rip_route_rte r \<and> rip_metric r \<noteq> RIP_METRIC_INFINITY)
     \<and> (rip_route_rte r \<and> rip_metric r \<noteq> RIP_METRIC_INFINITY \<longrightarrow> rip_nexthop r \<noteq> INADDR_ANY)
     \<and> (\<not> rip_route_rte r \<longrightarrow> rip_from r = INADDR_ANY \<and> (rip_metric r = 1 \<or> rip_metric r = RIP_METRIC_INFINITY))"

text \<open>The configuration: well-formed lists, offsets in the range the command allows, and interfaces whose list pointers are alive and
  whose cost is not negative.\<close>

definition if_ok :: "rip \<Rightarrow> rip_if \<Rightarrow> bool" where
  "if_ok s ifp \<longleftrightarrow> (\<forall>ty n. ri_list ty ifp = Some n \<longrightarrow> access_list_lookup (Some n) (r_access s) \<noteq> None)
     \<and> (\<forall>ty n. ri_prefix ty ifp = Some n \<longrightarrow> prefix_list_lookup (Some n) (r_plists s) \<noteq> None)"

definition conf_ok :: "rip \<Rightarrow> bool" where
  "conf_ok s \<longleftrightarrow> acc_ok (r_access s) \<and> name_inv pl_name (r_plists s) \<and> dist_inv (r_dists s)
     \<and> rt_bound AF_INET 1 (r_distance_table s)
     \<and> (\<forall>offset\<in>set (r_offsets s). 0 \<le> off_in_metric offset \<and> off_in_metric offset \<le> 16)
     \<and> (\<forall>ifp\<in>set (r_iflist s). if_ok s ifp \<and> 0 \<le> rif_metric ifp \<and> rif_metric ifp < 2 ^ 31)"

definition rip_inv :: "nat \<Rightarrow> rip \<Rightarrow> bool" where
  "rip_inv n s \<longleftrightarrow> conf_ok s \<and> r_redist s \<and> rt_bound AF_INET n (r_table s)
     \<and> (\<forall>k r. rt_entries (r_table s) k = Some r \<longrightarrow> rinfo_ok k r)
     \<and> (\<forall>k. zview (r_zmsgs s) k = zfib (rt_entries (r_table s) k))"

lemma rp_info_entries: "rp_info t p = rt_entries t (pfx_bits p)"
  by (auto simp: rp_info_def rt_entries_def rt_map_def split: option.splits bind_splits)

lemma zview_append: "zview (ms @ a) k = fold zstep (filter (\<lambda>x. zmsg_key x = k) a) (zview ms k)"
  by (simp add: zview_def)

lemma filter_key: "\<forall>x\<in>set a. zmsg_key x = k \<Longrightarrow> filter (\<lambda>x. zmsg_key x = j) a = (if j = k then a else [])"
  by (induction a) auto

text \<open>The change of one entry with the messages that go with it.\<close>

lemma rip_inv_commit:
  assumes i: "rip_inv n s" and c: "conf_ok s'" "r_redist s' = r_redist s"
    and b: "rt_bound AF_INET n' (r_table s')" and e: "rt_entries (r_table s') = (rt_entries (r_table s))(k := v)"
    and v: "\<And>r. v = Some r \<Longrightarrow> rinfo_ok k r"
    and a: "r_zmsgs s' = r_zmsgs s @ a" "\<forall>x\<in>set a. zmsg_key x = k" "fold zstep a (zfib (rt_entries (r_table s) k)) = zfib v"
  shows "rip_inv n' s'"
proof -
  have "rinfo_ok j r" if "rt_entries (r_table s') j = Some r" for j r
    using that i v by (auto simp: e rip_inv_def split: if_splits)
  moreover have "zview (r_zmsgs s') j = zfib (rt_entries (r_table s') j)" for j
    using i a by (auto simp: e rip_inv_def zview_append filter_key [OF a(2)])
  ultimately show ?thesis using i c b by (simp add: rip_inv_def)
qed

section \<open>Steps that only send\<close>

text \<open>The state after the messages \<open>a\<close>: besides the messages, counters and event flags may change.\<close>

definition sends :: "rip_zmsg list \<Rightarrow> rip \<Rightarrow> rip \<Rightarrow> bool" where
  "sends a s s' \<longleftrightarrow> s' = s\<lparr>r_zmsgs := r_zmsgs s @ a, r_route_changes := r_route_changes s', r_trigger := r_trigger s',
     r_triggered_update := r_triggered_update s'\<rparr>"

lemma sends_trans: "sends a s s' \<Longrightarrow> sends b s' s'' \<Longrightarrow> sends (a @ b) s s''"
  unfolding sends_def by (cases s, cases s', cases s'') simp

lemma sends_refl: "sends [] s s"
  by (simp add: sends_def)

lemma sends_event: "sends [] s (rip_event_triggered s)"
  by (simp add: sends_def rip_event_triggered_def)

lemma sends_delete: "r_redist s \<Longrightarrow> sends [Rip_delete p n m] s (rip_zebra_ipv4_delete p n m s)"
  by (simp add: sends_def rip_zebra_ipv4_delete_def)

lemma sends_add:
  "r_redist s \<Longrightarrow> sends [Rip_add p n m (if d \<noteq> 0 \<and> d \<noteq> 120 then Some d else None)] s (rip_zebra_ipv4_add p n m d s)"
  by (simp add: sends_def rip_zebra_ipv4_add_def)

lemma sends_fields:
  assumes "sends a s s'"
  shows "r_table s' = r_table s" "r_zmsgs s' = r_zmsgs s @ a" "r_redist s' = r_redist s" "conf_ok s' = conf_ok s"
    "r_access s' = r_access s" "r_plists s' = r_plists s" "r_dists s' = r_dists s" "r_iflist s' = r_iflist s"
    "r_distance_table s' = r_distance_table s" "r_distance s' = r_distance s" "r_offsets s' = r_offsets s" "r_peers s' = r_peers s"
    "r_triggered_interval s' = r_triggered_interval s"
proof -
  obtain c t u where s': "s' = s\<lparr>r_zmsgs := r_zmsgs s @ a, r_route_changes := c, r_trigger := t, r_triggered_update := u\<rparr>"
    using assms unfolding sends_def by blast
  show "r_table s' = r_table s" "r_zmsgs s' = r_zmsgs s @ a" "r_redist s' = r_redist s"
    "r_access s' = r_access s" "r_plists s' = r_plists s" "r_dists s' = r_dists s" "r_iflist s' = r_iflist s"
    "r_distance_table s' = r_distance_table s" "r_distance s' = r_distance s" "r_offsets s' = r_offsets s" "r_peers s' = r_peers s"
    "r_triggered_interval s' = r_triggered_interval s"
    by (simp_all add: s')
  show "conf_ok s' = conf_ok s" by (simp add: conf_ok_def if_ok_def s')
qed

lemma rip_event_triggered_idem: "rip_event_triggered (rip_event_triggered s) = rip_event_triggered s"
  by (simp add: rip_event_triggered_def)

section \<open>Configuration\<close>

lemma acl_total:
  assumes "acc_ok m" "access_list_lookup n m = Some l" "prefix_wf p" "family p = AF_INET"
  shows "\<exists>r. access_list_apply lay (Some l) p = Some r"
proof -
  obtain x where "n = Some x" "name_lookup al_name x m = Some l" using assms(2) by (auto simp: access_list_lookup_def split: option.splits)
  then have "\<forall>f\<in>set (filters l). filter_ok f" using assms(1) by (simp add: acc_ok_def)
  then show ?thesis using access_loop_find [of "filters l" p lay] assms(3,4) by (simp add: access_list_apply_def)
qed

lemma acl_pass_total:
  assumes "conf_ok s" "access_list_lookup n (r_access s) = Some l" "prefix_wf p" "family p = AF_INET"
  shows "\<exists>b. acl_pass lay l p s = Some (b, s)"
  using acl_total [OF _ assms(2-4)] assms(1) unfolding conf_ok_def acl_pass_def by (metis option.simps(9))

text \<open>The state after prefix lists counted.\<close>

definition counts :: "rip \<Rightarrow> rip \<Rightarrow> bool" where
  "counts s s' \<longleftrightarrow> (\<exists>pm. s' = s\<lparr>r_plists := pm\<rparr> \<and> name_inv pl_name pm
     \<and> (\<forall>n. name_lookup pl_name n pm = None \<longleftrightarrow> name_lookup pl_name n (r_plists s) = None))"

lemma counts_refl: "conf_ok s \<Longrightarrow> counts s s"
  unfolding counts_def conf_ok_def by (intro exI [of _ "r_plists s"]) simp

lemma counts_trans: "counts s s' \<Longrightarrow> counts s' s'' \<Longrightarrow> counts s s''"
  unfolding counts_def by (elim exE conjE) (rule exI, auto)

lemma counts_if_ok: "counts s s' \<Longrightarrow> if_ok s' ifp = if_ok s ifp"
  unfolding counts_def if_ok_def prefix_list_lookup_def by (elim exE conjE) (simp del: not_None_eq)

lemma counts_conf:
  assumes "counts s s'" "conf_ok s"
  shows "conf_ok s'"
proof -
  have "\<forall>ifp\<in>set (r_iflist s). if_ok s' ifp \<and> 0 \<le> rif_metric ifp \<and> rif_metric ifp < 2 ^ 31" using assms counts_if_ok [OF assms(1)] by (simp add: conf_ok_def)
  then show ?thesis using assms by (auto simp: counts_def conf_ok_def)
qed

lemma counts_fields:
  assumes "counts s s'"
  shows "r_table s' = r_table s" "r_zmsgs s' = r_zmsgs s" "r_redist s' = r_redist s" "r_access s' = r_access s" "r_iflist s' = r_iflist s"
    "r_offsets s' = r_offsets s" "r_dists s' = r_dists s" "r_distance_table s' = r_distance_table s" "r_distance s' = r_distance s"
    "r_peers s' = r_peers s"
  using assms by (auto simp: counts_def)

lemma if_ok_list: "if_ok s ifp \<Longrightarrow> ri_list ty ifp = Some n \<Longrightarrow> \<exists>l. access_list_lookup (Some n) (r_access s) = Some l"
  unfolding if_ok_def by blast

lemma if_ok_prefix: "if_ok s ifp \<Longrightarrow> ri_prefix ty ifp = Some n \<Longrightarrow> \<exists>l. prefix_list_lookup (Some n) (r_plists s) = Some l"
  unfolding if_ok_def by blast

lemma plist_pass_counts:
  assumes c: "conf_ok s" and l: "prefix_list_lookup n (r_plists s) = Some l"
  shows "\<exists>b s'. plist_pass l p s = (b, s') \<and> counts s s'"
proof -
  obtain x where x: "n = Some x" "name_lookup pl_name x (r_plists s) = Some l"
    using l by (auto simp: prefix_list_lookup_def split: option.splits)
  have i: "name_inv pl_name (r_plists s)" using c by (simp add: conf_ok_def)
  have nm: "pl_name l = x" by (rule plists.lookup_name [OF i x(2)])
  obtain r es where es: "apply_loop (entries l) p = (r, es)" by (cases "apply_loop (entries l) p")
  obtain r l' where a: "prefix_list_apply (Some l) p = (r, Some l')" "pl_name l' = x"
    using nm es by (cases "pl_count l = 0") (simp_all add: prefix_list_apply_def)
  have put: "name_inv pl_name (name_put pl_name l' (r_plists s))"
    "name_lookup pl_name k (name_put pl_name l' (r_plists s)) = (if k = x then Some l' else name_lookup pl_name k (r_plists s))" for k
    using plists.put_law [OF i, of l'] a(2) x(2) by simp_all
  have "counts s (s\<lparr>r_plists := name_put pl_name l' (r_plists s)\<rparr>)"
    unfolding counts_def using put x(2) by (intro exI conjI) (rule refl, auto)
  then show ?thesis by (simp add: plist_pass_def a)
qed

lemma rip_filter_counts:
  assumes c: "conf_ok s" and i: "if_ok s ifp" and p: "prefix_wf p" "family p = AF_INET"
  shows "\<exists>b s'. rip_filter lay ty p ifp s = Some (b, s') \<and> counts s s'"
proof -
  have acl: "\<exists>b. acl_pass lay l p s' = Some (b, s')" if "conf_ok s'" "access_list_lookup n (r_access s') = Some l" for s' n l
    by (rule acl_pass_total [OF that p])
  obtain b1 where 1: "(case ri_list ty ifp of None \<Rightarrow> Some (True, s)
      | Some n \<Rightarrow> do { l \<leftarrow> access_list_lookup (Some n) (r_access s); acl_pass lay l p s }) = Some (b1, s)"
  proof (cases "ri_list ty ifp")
    case (Some n)
    then obtain l where l: "access_list_lookup (Some n) (r_access s) = Some l" using if_ok_list [OF i] by blast
    obtain b where "acl_pass lay l p s = Some (b, s)" using acl [OF c l] by blast
    then show ?thesis using that [of b] Some l by simp
  qed (use that in simp)
  obtain b2 s2 where 2: "(case ri_prefix ty ifp of None \<Rightarrow> Some (True, s)
      | Some n \<Rightarrow> do { l \<leftarrow> prefix_list_lookup (Some n) (r_plists s); Some (plist_pass l p s) }) = Some (b2, s2)" "counts s s2"
  proof (cases "ri_prefix ty ifp")
    case (Some n)
    then obtain l where l: "prefix_list_lookup (Some n) (r_plists s) = Some l" using if_ok_prefix [OF i] by blast
    obtain b s' where "plist_pass l p s = (b, s')" "counts s s'" using plist_pass_counts [OF c l] by blast
    then show ?thesis using that [of b s'] Some l by simp
  qed (use that counts_refl [OF c] in simp)
  note c2 = counts_conf [OF 2(2) c]
  have d: "distribute_lookup (r_dists s2) None = Some (dist_map (r_dists s2) None)"
    using c2 by (intro distribute_lookup_map) (simp add: conf_ok_def)
  have rest: "\<exists>b s'. (case dist_map (r_dists s2) None of None \<Rightarrow> Some (True, s2)
     | Some d \<Rightarrow> do {
         (ok, s) \<leftarrow> (case access_list_lookup (d_list ty d) (r_access s2) of None \<Rightarrow> Some (True, s2) | Some l \<Rightarrow> acl_pass lay l p s2);
         if \<not> ok then Some (False, s)
         else Some (case prefix_list_lookup (d_prefix ty d) (r_plists s) of None \<Rightarrow> (True, s) | Some l \<Rightarrow> plist_pass l p s) }) = Some (b, s')
     \<and> counts s2 s'"
  proof (cases "dist_map (r_dists s2) None")
    case (Some dd)
    obtain b3 where 3: "(case access_list_lookup (d_list ty dd) (r_access s2) of None \<Rightarrow> Some (True, s2) | Some l \<Rightarrow> acl_pass lay l p s2) = Some (b3, s2)"
      using acl [OF c2] by (cases "access_list_lookup (d_list ty dd) (r_access s2)") auto
    obtain b4 s4 where 4: "(case prefix_list_lookup (d_prefix ty dd) (r_plists s2) of None \<Rightarrow> (True, s2) | Some l \<Rightarrow> plist_pass l p s2) = (b4, s4)" "counts s2 s4"
    proof (cases "prefix_list_lookup (d_prefix ty dd) (r_plists s2)")
      case (Some l)
      then show ?thesis using plist_pass_counts [OF c2 Some, of p] that by auto
    qed (use counts_refl [OF c2] that in simp)
    show ?thesis using Some 3 4 counts_refl [OF c2] by (cases b3) (auto intro: exI [of _ False])
  qed (use counts_refl [OF c2] in \<open>auto intro: exI [of _ True]\<close>)
  then obtain b5 s5 where 5: "(case dist_map (r_dists s2) None of None \<Rightarrow> Some (True, s2)
     | Some d \<Rightarrow> do {
         (ok, s) \<leftarrow> (case access_list_lookup (d_list ty d) (r_access s2) of None \<Rightarrow> Some (True, s2) | Some l \<Rightarrow> acl_pass lay l p s2);
         if \<not> ok then Some (False, s)
         else Some (case prefix_list_lookup (d_prefix ty d) (r_plists s) of None \<Rightarrow> (True, s) | Some l \<Rightarrow> plist_pass l p s) }) = Some (b5, s5)"
     "counts s2 s5" by blast
  show ?thesis
  proof (cases "b1 \<and> b2")
    case True
    have "rip_filter lay ty p ifp s = Some (b5, s5)"
      unfolding rip_filter_def using True 1 2(1) d 5(1) by simp
    then show ?thesis using counts_trans [OF 2(2) 5(2)] by blast
  next
    case False
    then show ?thesis using 1 2 counts_refl [OF c] by (cases b1) (auto simp: rip_filter_def intro: exI [of _ False])
  qed
qed

lemma host_prefix_wf [simp]: "length a = 4 \<Longrightarrow> prefix_wf (host_prefix a)" "family (host_prefix a) = AF_INET"
  by (simp_all add: host_prefix_def prefix_wf_def)

text \<open>The distance of an entry is found without a change of the state.\<close>

lemma rip_distance_apply_total:
  assumes c: "conf_ok s" and r: "prefix_wf (rip_rp r)" "family (rip_rp r) = AF_INET"
  shows "\<exists>d. rip_distance_apply lay r s = Some (d, s)"
proof -
  let ?t = "r_distance_table s"
  have b: "rt_bound AF_INET 1 ?t" using c by (simp add: conf_ok_def)
  consider "route_node_match ?t (host_prefix (rip_from r)) = (?t, None)"
    | q v where "route_node_match ?t (host_prefix (rip_from r)) = (route_lock_node ?t (pfx_bits q), Some q)" "rt_entries ?t (pfx_bits q) = Some v"
    using rt_bound_match [OF b, of "host_prefix (rip_from r)"] by blast
  then show ?thesis
  proof cases
    case 1
    then show ?thesis by (simp add: rip_distance_apply_def)
  next
    case 2
    note lk = rt_bound_lock [OF b 2(2)]
    have i: "rp_info (route_lock_node ?t (pfx_bits q)) q = Some v" using lk(2) 2(2) by (simp add: rp_info_entries)
    have u: "route_unlock_node (route_lock_node ?t (pfx_bits q)) (pfx_bits q) = Some ?t" using lk(3) by simp
    have a: "\<exists>d. access_list_apply lay (Some l) (rip_rp r) = Some d" if "access_list_lookup n (r_access s) = Some l" for n l
      using acl_total [OF _ that r] c by (simp add: conf_ok_def)
    show ?thesis
      by (auto simp: rip_distance_apply_def 2(1) i u split: option.splits dest!: a)
  qed
qed

lemma offset_lookup_mem: "rip_offset_list_lookup nam s = Some offset \<Longrightarrow> offset \<in> set (r_offsets s)"
  by (auto simp: rip_offset_list_lookup_def find_Some_iff)

lemma offset_step_total:
  assumes "conf_ok s" "prefix_wf p" "family p = AF_INET"
  shows "\<exists>r. offset_step lay name_of metric_of nam p metric s = Some r \<and>
    (\<forall>b m. r = Some (b, m) \<longrightarrow> (if b then \<exists>offset\<in>set (r_offsets s). m = metric + of_int (metric_of offset) else m = metric))"
proof (cases "rip_offset_list_lookup nam s")
  case (Some offset)
  have a: "\<exists>d. access_list_apply lay (Some l) p = Some d" if "access_list_lookup n (r_access s) = Some l" for n l
    using acl_total [OF _ that assms(2,3)] assms(1) by (simp add: conf_ok_def)
  show ?thesis
  proof (cases "Option.bind (name_of offset) (\<lambda>n. access_list_lookup (Some n) (r_access s))")
    case None
    then show ?thesis using Some by (auto simp: offset_step_def split: option.splits bind_splits)
  next
    case l: (Some l)
    then obtain n where n: "name_of offset = Some n" "access_list_lookup (Some n) (r_access s) = Some l" by (auto split: bind_splits)
    obtain d where "access_list_apply lay (Some l) p = Some d" using a [OF n(2)] by blast
    then show ?thesis using Some n offset_lookup_mem [OF Some] by (auto simp: offset_step_def)
  qed
qed (simp add: offset_step_def)

lemma cost_word:
  assumes "1 \<le> (m :: u32)" "m \<le> 16" "0 \<le> c" "c < 2 ^ 31"
  shows "1 \<le> m + of_int c"
proof -
  have "1 \<le> uint m" "uint m \<le> 16" using assms(1,2) by (simp_all add: word_le_def)
  moreover from this have "uint (m + of_int c) = uint m + c"
    using assms(3,4) by (simp add: uint_word_ariths(1) uint_word_of_int)
  ultimately show ?thesis using assms(3) by (simp add: word_le_def)
qed

lemma rte_cost_total:
  assumes c: "conf_ok s" and p: "prefix_wf (rte_pfx rte)" "family (rte_pfx rte) = AF_INET"
    and i: "ifp \<in> set (r_iflist s)" and m: "1 \<le> rte_metric rte" "rte_metric rte \<le> 16"
  shows "\<exists>m. rte_cost lay rte ifp s = Some m \<and> 1 \<le> m \<and> m \<le> RIP_METRIC_INFINITY"
proof -
  let ?step = "\<lambda>nam. offset_step lay off_in_name off_in_metric nam (rte_pfx rte) (rte_metric rte) s"
  let ?ok = "\<lambda>b m'. if b then \<exists>offset\<in>set (r_offsets s). m' = rte_metric rte + of_int (off_in_metric offset) else m' = rte_metric rte"
  obtain r1 where r1: "?step (Some (rif_name ifp)) = Some r1" "\<forall>b m. r1 = Some (b, m) \<longrightarrow> ?ok b m"
    using offset_step_total [OF c p, where name_of = off_in_name and metric_of = off_in_metric] by blast
  obtain r2 where r2: "?step None = Some r2" "\<forall>b m. r2 = Some (b, m) \<longrightarrow> ?ok b m"
    using offset_step_total [OF c p, where name_of = off_in_name and metric_of = off_in_metric] by blast
  obtain b m' where a: "rip_offset_list_apply_in lay (rte_pfx rte) ifp (rte_metric rte) s = Some (b, m')" "?ok b m'"
  proof (cases r1)
    case None
    then show thesis using r1 r2 that by (cases r2) (auto simp: rip_offset_list_apply_in_def offset_apply_def)
  next
    case (Some x)
    then show thesis using r1 that by (cases x) (auto simp: rip_offset_list_apply_in_def offset_apply_def)
  qed
  have off: "0 \<le> off_in_metric offset \<and> off_in_metric offset < 2 ^ 31" if "offset \<in> set (r_offsets s)" for offset
    using c that by (force simp: conf_ok_def)
  have cost: "0 \<le> rif_metric ifp" "rif_metric ifp < 2 ^ 31" using c i by (simp_all add: conf_ok_def)
  have "1 \<le> (if \<not> b then m' + of_int (rif_metric ifp) else m')"
    using a(2) off cost_word [OF m] cost by (auto split: if_splits)
  then show ?thesis using a(1) by (auto simp: rte_cost_def Let_def not_less)
qed

section \<open>Received routes\<close>

lemma rte_pfx_wf:
  assumes "length (rte_prefix rte) = 4"
  shows "prefix_wf (rte_pfx rte)" "family (rte_pfx rte) = AF_INET"
proof -
  have "unat (of_nat (ip_masklen (rte_mask rte)) :: u8) = ip_masklen (rte_mask rte)"
    using ip_masklen_le [of "rte_mask rte"] by (simp add: unat_of_nat)
  then show "prefix_wf (rte_pfx rte)" "family (rte_pfx rte) = AF_INET"
    using assms ip_masklen_le [of "rte_mask rte"]
    by (simp_all add: rte_pfx_def apply_mask_ipv4_def prefix_wf_def length_mask_bytes)
qed

lemma flag_facts [simp]:
  "CHECK_FLAG (SET_FLAG f RIP_RTF_CHANGED) RIP_RTF_FIB = CHECK_FLAG f RIP_RTF_FIB"
  "CHECK_FLAG (SET_FLAG f RIP_RTF_FIB) RIP_RTF_CHANGED = CHECK_FLAG f RIP_RTF_CHANGED"
  by simp_all

lemma flag_unset_facts [simp]:
  "CHECK_FLAG (UNSET_FLAG f RIP_RTF_CHANGED) RIP_RTF_FIB = CHECK_FLAG f RIP_RTF_FIB"
  "CHECK_FLAG (UNSET_FLAG f RIP_RTF_FIB) RIP_RTF_CHANGED = CHECK_FLAG f RIP_RTF_CHANGED"
  by (simp_all add: CHECK_FLAG_def UNSET_FLAG_def and.assoc)

lemma rip_info_new_fields [simp]:
  "rip_type rip_info_new = 0" "rip_sub_type rip_info_new = 0" "t_garbage_collect rip_info_new = False" "rip_flags rip_info_new = 0"
  "rip_nexthop rip_info_new = INADDR_ANY" "rip_from rip_info_new = INADDR_ANY" "t_timeout rip_info_new = False"
  by (simp_all add: rip_info_new_def)

text \<open>A new entry, with the announcement of its route.\<close>

lemma rte_new_result:
  assumes c: "conf_ok s" "r_redist s" and p: "prefix_wf p" "family p = AF_INET" and m: "metric < RIP_METRIC_INFINITY" and hop: "hop \<noteq> INADDR_ANY"
  shows "\<exists>r a s'. rte_new lay rte metric hop from ifp p s = Some (rp_set_info p (Some r) s') \<and> sends a s s'
    \<and> rinfo_ok (pfx_bits p) r \<and> rip_route_rte r \<and> rip_metric r = metric \<and> rip_nexthop r = hop \<and> rip_from r = from
    \<and> rip_tag r = ntohs16 (rte_tag rte) \<and> CHECK_FLAG (rip_flags r) RIP_RTF_CHANGED
    \<and> (\<forall>x\<in>set a. zmsg_key x = pfx_bits p) \<and> fold zstep a (zfib None) = zfib (Some r)"
proof -
  define r0 where "r0 = (rip_info_new\<lparr>rip_rp := p, rip_metric := metric, rip_tag := ntohs16 (rte_tag rte), rip_nexthop := hop,
      rip_from := from, rip_ifindex := rif_index ifp, t_timeout := True, rip_flags := SET_FLAG 0 RIP_RTF_CHANGED,
      rip_type := ROUTE_RIP, rip_sub_type := RIP_ROUTE_RTE\<rparr>)"
  let ?s1 = "rip_event_triggered s"
  have c1: "conf_ok ?s1" "r_redist ?s1" using sends_fields [OF sends_event [of s]] c by simp_all
  obtain d where d: "rip_distance_apply lay r0 ?s1 = Some (d, ?s1)"
    using rip_distance_apply_total [OF c1(1), of r0] p by (auto simp: r0_def)
  define r where "r = r0\<lparr>rip_distance_of := d, rip_flags := SET_FLAG (SET_FLAG 0 RIP_RTF_CHANGED) RIP_RTF_FIB\<rparr>"
  have "metric \<noteq> RIP_METRIC_INFINITY" using m by auto
  then have e: "rte_new lay rte metric hop from ifp p s = Some (rp_set_info p (Some r) (rip_zebra_ipv4_add p hop metric d ?s1))"
    using d unfolding rte_new_def rip_timeout_update_def r0_def r_def by (simp add: Let_def)
  have "sends ([] @ [Rip_add p hop metric (if d \<noteq> 0 \<and> d \<noteq> 120 then Some d else None)]) s (rip_zebra_ipv4_add p hop metric d ?s1)"
    by (rule sends_trans [OF sends_event sends_add [OF c1(2)]])
  moreover have "rinfo_ok (pfx_bits p) r" "rip_route_rte r" "rip_metric r = metric" "rip_nexthop r = hop" "rip_from r = from"
    "rip_tag r = ntohs16 (rte_tag rte)" "CHECK_FLAG (rip_flags r) RIP_RTF_CHANGED"
    using p m hop by (auto simp: r_def r0_def rinfo_ok_def rip_route_rte_def)
  ultimately show ?thesis using e \<open>metric \<noteq> RIP_METRIC_INFINITY\<close>
    by (intro exI conjI) (assumption+, auto simp: zfib_def)
qed

text \<open>The entry after it took a route, and the state in which the messages are sent.\<close>

definition adopted :: "rip_info \<Rightarrow> rte \<Rightarrow> u32 \<Rightarrow> u8 list \<Rightarrow> u8 list \<Rightarrow> rip_if \<Rightarrow> u8 \<Rightarrow> rip_info" where
  "adopted r rte metric hop from ifp d =
     (let inf = RIP_METRIC_INFINITY; old = rip_metric r in
      r\<lparr>rip_metric := metric, rip_tag := ntohs16 (rte_tag rte), rip_from := from, rip_ifindex := rif_index ifp, rip_distance_of := d,
        rip_type := (if old = inf \<and> metric \<noteq> inf then ROUTE_RIP else rip_type r),
        rip_sub_type := (if old = inf \<and> metric \<noteq> inf then RIP_ROUTE_RTE else rip_sub_type r),
        t_garbage_collect := (if metric = inf then old \<noteq> inf \<or> t_garbage_collect r else old \<noteq> inf \<and> t_garbage_collect r),
        t_timeout := (if metric = inf then old = inf \<and> t_timeout r else True),
        rip_nexthop := (if old = inf \<and> metric = inf then rip_nexthop r else hop),
        rip_flags := (if metric = inf
                      then (if old = inf then SET_FLAG (rip_flags r) RIP_RTF_CHANGED
                            else UNSET_FLAG (SET_FLAG (SET_FLAG (rip_flags r) RIP_RTF_FIB) RIP_RTF_CHANGED) RIP_RTF_FIB)
                      else SET_FLAG (SET_FLAG (rip_flags r) RIP_RTF_FIB) RIP_RTF_CHANGED)\<rparr>)"

definition adopt_msgs :: "rip_info \<Rightarrow> u32 \<Rightarrow> u8 list \<Rightarrow> prefix \<Rightarrow> u8 \<Rightarrow> rip_zmsg list" where
  "adopt_msgs r metric hop p d =
     (let inf = RIP_METRIC_INFINITY; old = rip_metric r; add = Rip_add p hop metric (if d \<noteq> 0 \<and> d \<noteq> 120 then Some d else None) in
      if old = inf then (if metric = inf then [] else [add])
      else [Rip_delete p (rip_nexthop r) old, add] @ (if metric = inf then [Rip_delete p hop old] else []))"

lemma rte_adopt_result:
  assumes c: "conf_ok s" "r_redist s" and r: "prefix_wf (rip_rp r)" "family (rip_rp r) = AF_INET" and m: "metric \<le> RIP_METRIC_INFINITY"
  shows "\<exists>d s'. rte_adopt lay r rte metric hop from ifp p s = Some (adopted r rte metric hop from ifp d, s')
    \<and> sends (adopt_msgs r metric hop p d) s s'"
proof -
  define r0 where "r0 = r\<lparr>rip_metric := metric, rip_tag := ntohs16 (rte_tag rte), rip_from := from, rip_ifindex := rif_index ifp\<rparr>"
  obtain d where d: "rip_distance_apply lay r0 s = Some (d, s)"
    using rip_distance_apply_total [OF c(1), of r0] r by (auto simp: r0_def)
  have lt: "metric < RIP_METRIC_INFINITY \<longleftrightarrow> metric \<noteq> RIP_METRIC_INFINITY" using m by auto
  define sa where "sa = rip_zebra_ipv4_add p hop metric d s"
  define sd where "sd = rip_zebra_ipv4_add p hop metric d (rip_zebra_ipv4_delete p (rip_nexthop r) (rip_metric r) s)"
  let ?add = "Rip_add p hop metric (if d \<noteq> 0 \<and> d \<noteq> 120 then Some d else None)"
  have sa: "sends [?add] s sa" unfolding sa_def by (rule sends_add [OF c(2)])
  have sd: "sends [Rip_delete p (rip_nexthop r) (rip_metric r), ?add] s sd"
  proof -
    have 1: "sends [Rip_delete p (rip_nexthop r) (rip_metric r)] s (rip_zebra_ipv4_delete p (rip_nexthop r) (rip_metric r) s)"
      by (rule sends_delete [OF c(2)])
    have "r_redist (rip_zebra_ipv4_delete p (rip_nexthop r) (rip_metric r) s)" using sends_fields(3) [OF 1] c(2) by simp
    then show ?thesis using sends_trans [OF 1 sends_add] unfolding sd_def by simp
  qed
  have ev: "sends a s (rip_event_triggered x)" if "sends a s x" for a x using sends_trans [OF that sends_event] by simp
  have last: "sends ([Rip_delete p (rip_nexthop r) (rip_metric r), ?add] @ [Rip_delete p hop (rip_metric r)]) s
      (rip_zebra_ipv4_delete p hop (rip_metric r) (rip_event_triggered sd))"
    using sends_trans [OF ev [OF sd] sends_delete] sends_fields(3) [OF ev [OF sd]] c(2) by simp
  note defs = rte_adopt_def Let_def adopted_def adopt_msgs_def rip_timeout_update_def
  show ?thesis
  proof (cases "rip_metric r = RIP_METRIC_INFINITY"; cases "metric = RIP_METRIC_INFINITY")
    assume h: "rip_metric r = RIP_METRIC_INFINITY" "metric = RIP_METRIC_INFINITY"
    show ?thesis using d ev [OF sends_refl] h by (intro exI [of _ d] exI) (simp add: defs r0_def)
  next
    assume h: "rip_metric r = RIP_METRIC_INFINITY" "metric \<noteq> RIP_METRIC_INFINITY"
    show ?thesis using d ev [OF sa] h lt by (intro exI [of _ d] exI) (simp add: defs r0_def sa_def)
  next
    assume h: "rip_metric r \<noteq> RIP_METRIC_INFINITY" "metric = RIP_METRIC_INFINITY"
    show ?thesis using d last h by (intro exI [of _ d] exI) (simp add: defs r0_def sd_def)
  next
    assume h: "rip_metric r \<noteq> RIP_METRIC_INFINITY" "metric \<noteq> RIP_METRIC_INFINITY"
    show ?thesis using d ev [OF sd] h lt by (intro exI [of _ d] exI) (simp add: defs r0_def sd_def)
  qed
qed

lemma adopted_ok:
  assumes r: "rinfo_ok k r" and k: "k = pfx_bits p" and m: "metric \<le> RIP_METRIC_INFINITY" and hop: "hop \<noteq> INADDR_ANY"
    and rte: "rip_route_rte r \<or> rip_metric r = RIP_METRIC_INFINITY \<and> metric \<noteq> RIP_METRIC_INFINITY"
  shows "rinfo_ok k (adopted r rte metric hop src ifp d)"
    and "\<forall>x\<in>set (adopt_msgs r metric hop p d). zmsg_key x = k"
    and "fold zstep (adopt_msgs r metric hop p d) (zfib (Some r)) = zfib (Some (adopted r rte metric hop src ifp d))"
proof -
  note defs = adopted_def adopt_msgs_def Let_def rip_route_rte_def
  show "rinfo_ok k (adopted r rte metric hop src ifp d)"
    using r m rte hop by (cases "rip_metric r = RIP_METRIC_INFINITY"; cases "metric = RIP_METRIC_INFINITY") (simp_all add: rinfo_ok_def defs)
  show "\<forall>x\<in>set (adopt_msgs r metric hop p d). zmsg_key x = k" using k by (simp add: adopt_msgs_def Let_def)
  show "fold zstep (adopt_msgs r metric hop p d) (zfib (Some r)) = zfib (Some (adopted r rte metric hop src ifp d))"
    using rte by (cases "rip_metric r = RIP_METRIC_INFINITY"; cases "metric = RIP_METRIC_INFINITY") (simp_all add: zfib_def defs)
qed

end
