(* ===== verification/Rip_Table.thy ===== *)
theory Rip_Table
  imports Rip_Route
begin

text \<open>
  The behaviour of the routing table of the RIP daemon.  Each operation keeps the invariant of \<open>Rip_Route\<close>, with a bound on the locks it
  may leave behind; an entry of an update is a step of the distance vector algorithm (\<open>dv_step\<close>).  \<open>rip_reach\<close> are the states
  the events of the daemon lead to.
\<close>

section \<open>The distance vector step\<close>

text \<open>One step of the distance vector algorithm on an entry: a route for a new destination is taken unless it is at infinity; the router the
  current route came from may change its metric at will; another router replaces it only with a smaller metric; routes of other protocols
  stay while they are in use.\<close>

definition dv_step :: "u32 \<Rightarrow> u8 list \<Rightarrow> u8 list \<Rightarrow> rip_info option \<Rightarrow> rip_info option \<Rightarrow> bool" where
  "dv_step metric hop from e e' \<longleftrightarrow>
     (case e of
        None \<Rightarrow> if metric = RIP_METRIC_INFINITY then e' = None
          else (\<exists>r. e' = Some r \<and> rip_route_rte r \<and> rip_metric r = metric \<and> rip_nexthop r = hop \<and> rip_from r = from)
      | Some r \<Rightarrow>
          if \<not> rip_route_rte r \<and> rip_metric r \<noteq> RIP_METRIC_INFINITY then e' = Some r
          else if rip_from r = from \<or> metric < rip_metric r
          then (\<exists>r'. e' = Some r' \<and> rip_metric r' = metric \<and> rip_from r' = from
             \<and> (metric \<noteq> RIP_METRIC_INFINITY \<longrightarrow> rip_route_rte r' \<and> rip_nexthop r' = hop))
          else e' = Some r)"

text \<open>The filters and the check of the next hop let the entry pass.\<close>

definition rip_accepts :: "union_layout \<Rightarrow> rte \<Rightarrow> u8 list \<Rightarrow> rip_if \<Rightarrow> rip \<Rightarrow> bool" where
  "rip_accepts lay rte from ifp s \<longleftrightarrow>
     (\<exists>s'. rip_incoming_filter lay (rte_pfx rte) ifp s = Some (True, s')) \<and> rip_nexthop_check (rte_hop rte from) s"

lemma timeout_update_id: "rinfo_ok k r \<Longrightarrow> rip_route_rte r \<Longrightarrow> rip_timeout_update r = r"
  by (cases r) (simp add: rinfo_ok_def rip_timeout_update_def)

lemma rte_cost_counts: "counts s s' \<Longrightarrow> rte_cost lay rte ifp s' = rte_cost lay rte ifp s"
proof -
  assume c: "counts s s'"
  have "offset_step lay n m nam p metric s' = offset_step lay n m nam p metric s" for n m nam p metric
    unfolding offset_step_def rip_offset_list_lookup_def counts_fields [OF c] by (rule refl)
  then show ?thesis unfolding rte_cost_def rip_offset_list_apply_in_def offset_apply_def by presburger
qed

lemma rip_inv_counts: "rip_inv n s \<Longrightarrow> counts s s' \<Longrightarrow> rip_inv n s'"
  using counts_conf [of s s'] counts_fields [of s s'] by (simp add: rip_inv_def)

lemma conf_ok_table [simp]: "conf_ok (s\<lparr>r_table := t\<rparr>) = conf_ok s"
  by (simp add: conf_ok_def if_ok_def)

lemma rip_inv_table:
  "rip_inv n s \<Longrightarrow> rt_bound AF_INET n' t \<Longrightarrow> rt_entries t = rt_entries (r_table s) \<Longrightarrow> rip_inv n' (s\<lparr>r_table := t\<rparr>)"
  by (simp add: rip_inv_def)

text \<open>The end of a change: the entry is stored, or stored and its node released.\<close>

lemma rip_store:
  assumes i: "rip_inv n s" and l: "rt_map (r_table s) (pfx_bits p) = Some (lk, e)" "lk \<noteq> 0" and s: "sends a s s'"
    and r: "rinfo_ok (pfx_bits p) r" and a: "\<forall>x\<in>set a. zmsg_key x = pfx_bits p" "fold zstep a (zfib e) = zfib (Some r)"
  shows "rip_inv n (rp_set_info p (Some r) s')"
    and "rt_entries (r_table (rp_set_info p (Some r) s')) = (rt_entries (r_table s))(pfx_bits p \<mapsto> r)"
    and "rt_map (r_table (rp_set_info p (Some r) s')) (pfx_bits p) = Some (lk, Some r)"
proof -
  have b: "rt_bound AF_INET n (r_table s)" using i by (simp add: rip_inv_def)
  note st = rt_bound_set [OF b l, of "Some r"] and f = sends_fields [OF s]
  have t: "r_table (rp_set_info p (Some r) s') = route_set_info (r_table s) (pfx_bits p) (Some r)" by (simp add: rp_set_info_def f(1))
  show e: "rt_entries (r_table (rp_set_info p (Some r) s')) = (rt_entries (r_table s))(pfx_bits p \<mapsto> r)" using st(2) t by simp
  show "rt_map (r_table (rp_set_info p (Some r) s')) (pfx_bits p) = Some (lk, Some r)" using st(3) t by simp
  have en: "rt_entries (r_table s) (pfx_bits p) = e" using l(1) by (simp add: rt_entries_def)
  show "rip_inv n (rp_set_info p (Some r) s')"
    by (rule rip_inv_commit [OF i _ _ _ e _ _ a(1)]) (use i f r a st(1) t en in \<open>simp_all add: rp_set_info_def rip_inv_def\<close>)
qed

lemma rip_release:
  assumes i: "rip_inv n s" and l: "rt_map (r_table s) (pfx_bits p) = Some (lk, e)" "lk \<noteq> 0" "lk \<noteq> 1"
  shows "\<exists>s'. rp_unlock p s = Some s' \<and> rip_inv n s' \<and> rt_entries (r_table s') = rt_entries (r_table s) \<and> r_iflist s' = r_iflist s"
proof -
  have b: "rt_bound AF_INET n (r_table s)" using i by (simp add: rip_inv_def)
  obtain t where t: "route_unlock_node (r_table s) (pfx_bits p) = Some t" "rt_bound AF_INET n t" "rt_entries t = rt_entries (r_table s)"
    by (rule rt_bound_unlock [OF b l(1,2)]) (use l(3) in simp)
  show ?thesis
    by (intro exI [of _ "s\<lparr>r_table := t\<rparr>"]) (simp add: rp_unlock_def t(1,3) rip_inv_table [OF i t(2,3)])
qed

text \<open>The update of an existing entry.\<close>

lemma rte_update_result:
  assumes i: "rip_inv n s" and l: "rt_map (r_table s) (pfx_bits p) = Some (lk, Some r)" "lk \<noteq> 0" "lk \<noteq> 1"
    and m: "1 \<le> metric" "metric \<le> RIP_METRIC_INFINITY" and src: "from \<noteq> INADDR_ANY" and hop: "hop = rte_hop rte from"
  shows "\<exists>s'. rte_update lay r rte metric hop from ifp p s = Some s' \<and> rip_inv n s' \<and> r_iflist s' = r_iflist s
    \<and> (\<forall>k. k \<noteq> pfx_bits p \<longrightarrow> rt_entries (r_table s') k = rt_entries (r_table s) k)
    \<and> dv_step metric hop from (Some r) (rt_entries (r_table s') (pfx_bits p))"
proof -
  have e: "rt_entries (r_table s) (pfx_bits p) = Some r" using l(1) by (simp add: rt_entries_def)
  have r: "rinfo_ok (pfx_bits p) r" using i e by (simp add: rip_inv_def)
  have hop0: "hop \<noteq> INADDR_ANY" using src by (simp add: hop rte_hop_def)
  have other: "rip_from r = INADDR_ANY \<and> (rip_metric r = 1 \<or> rip_metric r = RIP_METRIC_INFINITY)" if "\<not> rip_route_rte r"
    using r that by (simp add: rinfo_ok_def)
  have same: "(if rip_from r = from then rip_timeout_update r else r) = r"
    using timeout_update_id [OF r] other src by auto
  have upd: "rte_update lay r rte metric hop from ifp p s =
      (if rte_differs (rip_from r = from) r rte metric
       then Option.bind (rte_adopt lay r rte metric hop from ifp p s) (\<lambda>(r', s'). rp_unlock p (rp_set_info p (Some r') s'))
       else rp_unlock p (rp_set_info p (Some r) s))"
    unfolding rte_update_def Let_def same by simp
  show ?thesis
  proof (cases "rte_differs (rip_from r = from) r rte metric")
    case True
    have lt1: "\<not> metric < 1" using m(1) by auto
    have ad: "rip_route_rte r \<or> rip_metric r = RIP_METRIC_INFINITY \<and> metric \<noteq> RIP_METRIC_INFINITY"
      using True other src lt1 by (auto simp: rte_differs_def)
    have c: "conf_ok s" "r_redist s" using i by (simp_all add: rip_inv_def)
    have w: "prefix_wf (rip_rp r)" "family (rip_rp r) = AF_INET" using r by (simp_all add: rinfo_ok_def)
    obtain d s1 where a: "rte_adopt lay r rte metric hop from ifp p s = Some (adopted r rte metric hop from ifp d, s1)"
      "sends (adopt_msgs r metric hop p d) s s1"
      using rte_adopt_result [OF c w m(2)] by blast
    let ?r' = "adopted r rte metric hop from ifp d"
    have ok: "rinfo_ok (pfx_bits p) ?r'" "\<forall>x\<in>set (adopt_msgs r metric hop p d). zmsg_key x = pfx_bits p"
      "fold zstep (adopt_msgs r metric hop p d) (zfib (Some r)) = zfib (Some ?r')"
      by (rule adopted_ok [OF r refl m(2) hop0 ad])+
    note st = rip_store [OF i l(1,2) a(2) ok]
    obtain s2 where s2: "rp_unlock p (rp_set_info p (Some ?r') s1) = Some s2" "rip_inv n s2"
      "rt_entries (r_table s2) = rt_entries (r_table (rp_set_info p (Some ?r') s1))" "r_iflist s2 = r_iflist (rp_set_info p (Some ?r') s1)"
      using rip_release [OF st(1,3) l(2,3)] by blast
    have "dv_step metric hop from (Some r) (Some ?r')"
      using True ad by (auto simp: dv_step_def rte_differs_def adopted_def Let_def rip_route_rte_def)
    then show ?thesis using upd True a(1) s2 st(2) sends_fields(8) [OF a(2)] by (simp add: rp_set_info_def)
  next
    case False
    note st = rip_store [OF i l(1,2) sends_refl r, simplified]
    obtain s2 where s2: "rp_unlock p (rp_set_info p (Some r) s) = Some s2" "rip_inv n s2"
      "rt_entries (r_table s2) = rt_entries (r_table (rp_set_info p (Some r) s))" "r_iflist s2 = r_iflist (rp_set_info p (Some r) s)"
      using rip_release [OF st(1,3) l(2,3)] by blast
    have "rip_nexthop r = hop" if "rip_from r = from" "metric \<noteq> RIP_METRIC_INFINITY"
      using False that r other src by (auto simp: rte_differs_def hop rte_hop_def rinfo_ok_def)
    then have "dv_step metric hop from (Some r) (Some r)"
      using False other src by (auto simp: dv_step_def rte_differs_def)
    then show ?thesis using upd False s2 st(2) by (simp add: rp_set_info_def)
  qed
qed

lemma rip_nexthop_check_counts: "counts s s' \<Longrightarrow> rip_nexthop_check a s' = rip_nexthop_check a s"
  by (simp add: rip_nexthop_check_def counts_fields)

lemma rip_inv_mono: "rip_inv n s \<Longrightarrow> n \<le> m \<Longrightarrow> rip_inv m s"
  using rt_bound_mono by (auto simp: rip_inv_def)

text \<open>The first step of most operations: the node of the prefix is found or made, and locked.\<close>

lemma rip_get:
  assumes i: "rip_inv n s" and p: "prefix_wf p" "family p = AF_INET" and n: "n + 1 < 2 ^ 32"
  obtains t lk where "route_node_get (r_table s) p = Some t" "rip_inv (n + 1) (s\<lparr>r_table := t\<rparr>)" "rt_entries t = rt_entries (r_table s)"
    "rt_map t (pfx_bits p) = Some (lk, rt_entries (r_table s) (pfx_bits p))" "lk \<noteq> 0" "rt_entries (r_table s) (pfx_bits p) \<noteq> None \<longrightarrow> lk \<noteq> 1"
proof -
  have b: "rt_bound (family p) n (r_table s)" using i p by (simp add: rip_inv_def)
  show thesis
  proof (rule rt_bound_get [OF b rt_key_prefix [OF p(1)] n])
    fix t lk assume h: "route_node_get (r_table s) p = Some t" "rt_bound (family p) (n + 1) t" "rt_entries t = rt_entries (r_table s)"
      "rt_map t (pfx_bits p) = Some (lk, rt_entries (r_table s) (pfx_bits p))" "lk \<noteq> 0" "rt_entries (r_table s) (pfx_bits p) \<noteq> None \<longrightarrow> lk \<noteq> 1"
    show thesis by (rule that [OF h(1) rip_inv_table [OF i _ h(3)] h(3-6)]) (use h(2) p in simp)
  qed
qed

text \<open>An entry of an update that passed the filters.\<close>

lemma rte_enter_result:
  assumes i: "rip_inv n s" and n: "n + 1 < 2 ^ 32" and p: "p = rte_pfx rte" "length (rte_prefix rte) = 4"
    and m: "1 \<le> metric" "metric \<le> RIP_METRIC_INFINITY" and src: "from \<noteq> INADDR_ANY" and hop: "hop = rte_hop rte from"
  shows "\<exists>s'. rte_enter lay rte metric hop from ifp p s = Some s' \<and> rip_inv (n + 1) s' \<and> r_iflist s' = r_iflist s
    \<and> (\<forall>k. k \<noteq> pfx_bits p \<longrightarrow> rt_entries (r_table s') k = rt_entries (r_table s) k)
    \<and> dv_step metric hop from (rt_entries (r_table s) (pfx_bits p)) (rt_entries (r_table s') (pfx_bits p))"
proof -
  note w = rte_pfx_wf [OF p(2), folded p(1)]
  obtain t lk where g: "route_node_get (r_table s) p = Some t" "rip_inv (n + 1) (s\<lparr>r_table := t\<rparr>)" "rt_entries t = rt_entries (r_table s)"
    "rt_map t (pfx_bits p) = Some (lk, rt_entries (r_table s) (pfx_bits p))" "lk \<noteq> 0" "rt_entries (r_table s) (pfx_bits p) \<noteq> None \<longrightarrow> lk \<noteq> 1"
    by (rule rip_get [OF i w n])
  have hop0: "hop \<noteq> INADDR_ANY" using src by (simp add: hop rte_hop_def)
  let ?s = "s\<lparr>r_table := t\<rparr>"
  have c: "conf_ok ?s" "r_redist ?s" using g(2) by (simp_all add: rip_inv_def)
  show ?thesis
  proof (cases "rt_entries (r_table s) (pfx_bits p)")
    case None
    show ?thesis
    proof (cases "metric = RIP_METRIC_INFINITY")
      case True
      then show ?thesis using None g(1-3) by (simp add: rte_enter_def rp_info_entries dv_step_def Let_def)
    next
      case False
      then have lt: "metric < RIP_METRIC_INFINITY" using m(2) by auto
      obtain r a s1 where r: "rte_new lay rte metric hop from ifp p ?s = Some (rp_set_info p (Some r) s1)" "sends a ?s s1"
        "rinfo_ok (pfx_bits p) r" "rip_route_rte r" "rip_metric r = metric" "rip_nexthop r = hop" "rip_from r = from"
        "\<forall>x\<in>set a. zmsg_key x = pfx_bits p" "fold zstep a (zfib None) = zfib (Some r)"
        using rte_new_result [OF c w lt hop0] by metis
      have g4: "rt_map (r_table ?s) (pfx_bits p) = Some (lk, None)" using g(4) None by simp
      note st = rip_store [OF g(2) g4 g(5) r(2,3,8,9)]
      show ?thesis
        using None False g(1,3) r(1,4-7) st sends_fields(8) [OF r(2)]
        by (simp add: rte_enter_def rp_info_entries dv_step_def rp_set_info_def Let_def)
    qed
  next
    case (Some r)
    have lk1: "lk \<noteq> 1" using g(6) Some by simp
    have r: "rinfo_ok (pfx_bits p) r" using i Some by (simp add: rip_inv_def)
    show ?thesis
    proof (cases "(rip_type r \<noteq> ROUTE_RIP \<or> rip_sub_type r = RIP_ROUTE_STATIC) \<and> rip_metric r \<noteq> RIP_METRIC_INFINITY")
      case True
      then have "\<not> rip_route_rte r" by (auto simp: rip_route_rte_def)
      then show ?thesis using Some True g(1-3) by (auto simp: rte_enter_def rp_info_entries dv_step_def Let_def)
    next
      case False
      have g4: "rt_map (r_table ?s) (pfx_bits p) = Some (lk, Some r)" using g(4) Some by simp
      show ?thesis
        using rte_update_result [OF g(2) g4 g(5) lk1 m src hop, of lay ifp] False Some g(1,3)
        by (auto simp: rte_enter_def rp_info_entries Let_def)
    qed
  qed
qed

lemma rte_process_result:
  assumes i: "rip_inv n s" and n: "n + 1 < 2 ^ 32" and rte: "length (rte_prefix rte) = 4" "1 \<le> rte_metric rte" "rte_metric rte \<le> 16"
    and ifp: "ifp \<in> set (r_iflist s)" and src: "from \<noteq> INADDR_ANY"
  shows "\<exists>s' metric. rip_rte_process lay rte from ifp s = Some s' \<and> rip_inv (n + 1) s' \<and> r_iflist s' = r_iflist s
    \<and> (\<forall>k. k \<noteq> pfx_bits (rte_pfx rte) \<longrightarrow> rt_entries (r_table s') k = rt_entries (r_table s) k)
    \<and> rte_cost lay rte ifp s = Some metric \<and> 1 \<le> metric \<and> metric \<le> RIP_METRIC_INFINITY
    \<and> (if rip_accepts lay rte from ifp s
       then dv_step metric (rte_hop rte from) from (rt_entries (r_table s) (pfx_bits (rte_pfx rte))) (rt_entries (r_table s') (pfx_bits (rte_pfx rte)))
       else rt_entries (r_table s') = rt_entries (r_table s))"
proof -
  have c: "conf_ok s" using i by (simp add: rip_inv_def)
  have ok: "if_ok s ifp" using c ifp by (simp add: conf_ok_def)
  note w = rte_pfx_wf [OF rte(1)]
  obtain b s1 where f: "rip_incoming_filter lay (rte_pfx rte) ifp s = Some (b, s1)" "counts s s1"
    using rip_filter_counts [OF c ok w] unfolding rip_incoming_filter_def by blast
  obtain metric where m: "rte_cost lay rte ifp s = Some metric" "1 \<le> metric" "metric \<le> RIP_METRIC_INFINITY"
    using rte_cost_total [OF c w ifp rte(2,3)] by blast
  have m1: "rte_cost lay rte ifp s1 = Some metric" using rte_cost_counts [OF f(2)] m(1) by simp
  note i1 = rip_inv_counts [OF i f(2)] and cf = counts_fields [OF f(2)]
  have acc: "rip_accepts lay rte from ifp s \<longleftrightarrow> b \<and> rip_nexthop_check (rte_hop rte from) s1"
    using f(1) rip_nexthop_check_counts [OF f(2)] by (simp add: rip_accepts_def)
  show ?thesis
  proof (cases "b \<and> rip_nexthop_check (rte_hop rte from) s1")
    case True
    obtain s2 where "rip_rte_process lay rte from ifp s = Some s2" "rip_inv (n + 1) s2" "r_iflist s2 = r_iflist s1"
      "\<forall>k. k \<noteq> pfx_bits (rte_pfx rte) \<longrightarrow> rt_entries (r_table s2) k = rt_entries (r_table s1) k"
      "dv_step metric (rte_hop rte from) from (rt_entries (r_table s1) (pfx_bits (rte_pfx rte))) (rt_entries (r_table s2) (pfx_bits (rte_pfx rte)))"
      using rte_enter_result [OF i1 n refl rte(1) m(2,3) src refl, of lay ifp] f(1) m1 True
      unfolding rip_rte_process_def Let_def by auto
    then show ?thesis using m acc True cf by (intro exI [of _ s2] exI [of _ metric]) simp
  next
    case False
    have "rip_rte_process lay rte from ifp s = Some s1"
      using f(1) m1 False unfolding rip_rte_process_def Let_def by (cases b) simp_all
    then show ?thesis using m acc False cf rip_inv_mono [OF i1, of "n + 1"] by (intro exI [of _ s1] exI [of _ metric]) simp
  qed
qed

section \<open>Destinations\<close>

text \<open>The check of a destination in terms of the bytes of the address.\<close>

lemma ntohl_top: "ntohl m AND push_bit 24 (ucast (k :: u8)) = push_bit 24 (ucast (byte_at m 0 AND k))"
  by (rule bit_word_eqI) (auto simp: ntohl_def bit_simps dest: bit_imp_le_length)

lemma top_eq: "push_bit 24 (ucast (x :: u8) :: u32) = push_bit 24 (ucast (y :: u8)) \<longleftrightarrow> x = y"
proof
  assume e: "push_bit 24 (ucast x :: u32) = push_bit 24 (ucast y)"
  have "bit x n = bit y n" if "n < 8" for n
    using arg_cong [OF e, of "\<lambda>w. bit w (n + 24)"] that by (simp add: bit_simps)
  then show "x = y" by (simp add: u8_eq_bits)
qed simp

lemma ntohl_zero: "ntohl m = 0 \<longleftrightarrow> byte_at m 0 = 0 \<and> byte_at m 1 = 0 \<and> byte_at m 2 = 0 \<and> byte_at m 3 = 0"
proof -
  have "bit (ntohl m) (n + 24) = bit (byte_at m 0) n" "bit (ntohl m) (n + 16) = bit (byte_at m 1) n"
    "bit (ntohl m) (n + 8) = bit (byte_at m 2) n" "bit (ntohl m) n = bit (byte_at m 3) n" if "n < 8" for n
    using that by (auto simp: ntohl_def bit_simps dest: bit_imp_le_length)
  then have "byte_at m 0 = 0 \<and> byte_at m 1 = 0 \<and> byte_at m 2 = 0 \<and> byte_at m 3 = 0" if "ntohl m = 0"
    using that unfolding u8_eq_bits by simp
  moreover have "ntohl m = 0" if "byte_at m 0 = 0 \<and> byte_at m 1 = 0 \<and> byte_at m 2 = 0 \<and> byte_at m 3 = 0"
    using that by (simp add: ntohl_def)
  ultimately show ?thesis by blast
qed

lemma destination_bytes:
  "rip_destination_check m \<longleftrightarrow> byte_at m 0 \<noteq> 0x7f \<and> \<not> (bit (byte_at m 0) 7 \<and> bit (byte_at m 0) 6 \<and> bit (byte_at m 0) 5)
     \<and> (byte_at m 0 = 0 \<longrightarrow> byte_at m 1 = 0 \<and> byte_at m 2 = 0 \<and> byte_at m 3 = 0)"
proof -
  have ff: "a AND 0xff = a" for a :: u8 unfolding u8_eq_bits all_less8 by (simp add: bit_and_iff)
  have k: "ntohl m AND 0xff000000 = push_bit 24 (ucast (byte_at m 0))"
    "ntohl m AND 0x80000000 = push_bit 24 (ucast (byte_at m 0 AND 0x80))"
    "ntohl m AND 0xc0000000 = push_bit 24 (ucast (byte_at m 0 AND 0xc0))"
    "ntohl m AND 0xe0000000 = push_bit 24 (ucast (byte_at m 0 AND 0xe0))"
    using ntohl_top [of m "0xff"] ntohl_top [of m "0x80"] ntohl_top [of m "0xc0"] ntohl_top [of m "0xe0"] by (simp_all add: ff)
  have v: "push_bit 24 (ucast x :: u32) = 0x7f000000 \<longleftrightarrow> x = 0x7f" "push_bit 24 (ucast x :: u32) = 0 \<longleftrightarrow> x = 0"
    "push_bit 24 (ucast x :: u32) = 0x80000000 \<longleftrightarrow> x = 0x80" "push_bit 24 (ucast x :: u32) = 0xc0000000 \<longleftrightarrow> x = 0xc0" for x :: u8
    using top_eq [of x "0x7f"] top_eq [of x 0] top_eq [of x "0x80"] top_eq [of x "0xc0"] by simp_all
  have c: "a AND 0x80 = 0 \<or> a AND 0xc0 = 0x80 \<or> a AND 0xe0 = 0xc0 \<longleftrightarrow> \<not> (bit a 7 \<and> bit a 6 \<and> bit a 5)" for a :: u8
    unfolding u8_eq_bits all_less8 by (simp add: bit_and_iff) blast
  show ?thesis
    unfolding rip_destination_check_def Let_def IN_CLASSA_def IN_CLASSB_def IN_CLASSC_def k v ntohl_zero
    using c [of "byte_at m 0"] by auto
qed

text \<open>Clearing the host bits of an address keeps the check.\<close>

lemma destination_truncate:
  assumes d: "rip_destination_check m" and t: "\<And>j. j < 32 \<Longrightarrow> addr_bit m' j = (j < c \<and> addr_bit m j)"
  shows "rip_destination_check m'"
proof -
  have b: "bit (byte_at m' i) (7 - j) = (8 * i + j < c \<and> bit (byte_at m i) (7 - j))" if "i < 4" "j < 8" for i j
    using t [of "8 * i + j"] that by (simp add: addr_bit_in_byte)
  have b': "bit (byte_at m' i) j = (8 * i + (7 - j) < c \<and> bit (byte_at m i) j)" if "i < 4" "j < 8" for i j
    using b [OF that(1), of "7 - j"] that by simp
  have z: "byte_at m' i = 0" if "i < 4" "byte_at m i = 0" for i
    using b' that by (simp add: u8_eq_bits)
  have z': "byte_at m' i = 0" if "i < 4" "0 < i" "c < 8" for i
  proof -
    have "\<not> 8 * i + (7 - j) < c" if "j < 8" for j using that \<open>0 < i\<close> \<open>c < 8\<close> by linarith
    then show ?thesis using b' [OF that(1)] unfolding u8_eq_bits by simp
  qed
  have full: "byte_at m' 0 = byte_at m 0" if "8 \<le> c" using b' [of 0] that by (auto simp: u8_eq_bits)
  have "byte_at m' 0 \<noteq> 0x7f"
  proof
    assume "byte_at m' 0 = 0x7f"
    moreover have "bit (0x7f :: u8) 0" by simp
    ultimately show False using b' [of 0 0] full d by (auto simp: destination_bytes)
  qed
  moreover have "\<not> (bit (byte_at m' 0) 7 \<and> bit (byte_at m' 0) 6 \<and> bit (byte_at m' 0) 5)"
    using b' [of 0 7] b' [of 0 6] b' [of 0 5] d by (simp add: destination_bytes)
  moreover have "byte_at m' 1 = 0 \<and> byte_at m' 2 = 0 \<and> byte_at m' 3 = 0" if "byte_at m' 0 = 0"
  proof (cases "c < 8")
    case True
    then show ?thesis using z' by simp
  next
    case False
    then show ?thesis using full that d z by (simp add: destination_bytes)
  qed
  ultimately show ?thesis by (simp add: destination_bytes)
qed

lemma destination_take: "rip_destination_check (take 4 m) = rip_destination_check m"
  by (simp add: destination_bytes byte_at_take)


text \<open>Every node of the table has a prefix that passed the check, or the common part of such prefixes.\<close>

definition dest_ok :: "'a route_table \<Rightarrow> bool" where
  "dest_ok t \<longleftrightarrow> (\<forall>q\<in>set (rn_prefixes t). rip_destination_check (take 4 (u_prefix q)))"

lemma dest_ok_get:
  assumes g: "route_node_get t p = Some t'" and t: "dest_ok t" and p: "prefix_wf p" "family p = AF_INET" "rip_destination_check (take 4 (u_prefix p))"
  shows "dest_ok t'"
proof -
  have L: "plen p \<le> 128" using p(1) by (auto simp: prefix_wf_def)
  have "\<forall>q\<in>set (rn_prefixes t'). rip_destination_check (take 4 (u_prefix q))"
  proof (rule rn_prefixes_get [OF g])
    show "\<forall>n\<in>set (rn_prefixes t). rip_destination_check (take 4 (u_prefix n))" using t by (simp add: dest_ok_def)
  next
    fix q assume "prefix_copy prefix_new p = Some q"
    then have "take 4 (u_prefix q) = take 4 (u_prefix p)"
      using p(1,2) by (auto simp: prefix_copy_def prefix_wf_def af_defs Let_def)
    then show "rip_destination_check (take 4 (u_prefix q))" using p(3) by simp
  next
    fix n :: prefix assume "rip_destination_check (take 4 (u_prefix n))"
    then have "rip_destination_check (u_prefix n)" by (simp only: destination_take)
    then have "rip_destination_check (u_prefix (route_common n p prefix_new))"
      by (rule destination_truncate) (rule route_common_host [OF L])
    then show "rip_destination_check (take 4 (u_prefix ((route_common n p prefix_new)\<lparr>family := family p\<rparr>)))" by (simp add: destination_take)
  qed
  then show ?thesis by (simp add: dest_ok_def)
qed

lemma dest_ok_same [simp]:
  "dest_ok (route_lock_node t k) = dest_ok t" "dest_ok (route_set_info t k v) = dest_ok t" "dest_ok (map_route_node f t) = dest_ok t"
  by (simp_all add: dest_ok_def)

lemma dest_ok_unlock: "route_unlock_node t k = Some t' \<Longrightarrow> dest_ok t \<Longrightarrow> dest_ok t'"
  using rn_prefixes_unlock [of t k t'] by (auto simp: dest_ok_def)

lemma dest_ok_rp_unlock: "rp_unlock p s = Some s' \<Longrightarrow> dest_ok (r_table s) \<Longrightarrow> dest_ok (r_table s')"
  by (auto simp: rp_unlock_def dest_ok_unlock)

lemma rte_pfx_dest:
  assumes "length (rte_prefix rte) = 4" "rip_destination_check (rte_prefix rte)"
  shows "rip_destination_check (take 4 (u_prefix (rte_pfx rte)))"
proof -
  let ?p = "\<lparr>family = AF_INET, prefixlen = of_nat (ip_masklen (rte_mask rte)), u_prefix = rte_prefix rte @ replicate 12 0\<rparr>"
  have m: "u_prefix (rte_pfx rte) = mask_bytes 4 (plen ?p) (u_prefix ?p)" by (simp add: rte_pfx_def apply_mask_ipv4_def)
  have "rip_destination_check (u_prefix ?p)" using assms destination_take [of "u_prefix ?p"] by simp
  then have "rip_destination_check (mask_bytes 4 (plen ?p) (u_prefix ?p))"
    by (rule destination_truncate) (rule addr_bit_mask_bytes, use assms(1) in simp_all)
  then show ?thesis by (simp add: m destination_take)
qed

text \<open>The steps of an update change entries only, besides the node of the destination.\<close>

lemma rip_filter_table: "rip_filter lay ty p ri s = Some (b, s') \<Longrightarrow> r_table s' = r_table s"
  by (auto simp: rip_filter_def acl_pass_def plist_pass_def Let_def split: bind_splits option.splits if_splits prod.splits)

lemma rip_distance_table: "rip_distance_apply lay r s = Some (d, s') \<Longrightarrow> r_table s' = r_table s"
  by (auto simp: rip_distance_apply_def Let_def split: bind_splits option.splits if_splits prod.splits)

lemma messages_table [simp]:
  "r_table (rip_zebra_ipv4_add p n m d s) = r_table s" "r_table (rip_zebra_ipv4_delete p n m s) = r_table s"
  "r_table (rip_event_triggered s) = r_table s"
  by (simp_all add: rip_zebra_ipv4_add_def rip_zebra_ipv4_delete_def rip_event_triggered_def)

lemma rte_adopt_table: "rte_adopt lay r rte metric hop from ifp p s = Some (r', s') \<Longrightarrow> r_table s' = r_table s"
  by (auto simp: rte_adopt_def Let_def split: bind_splits if_splits prod.splits dest: rip_distance_table)

lemma rte_new_dest: "rte_new lay rte metric hop from ifp p s = Some s' \<Longrightarrow> dest_ok (r_table s) \<Longrightarrow> dest_ok (r_table s')"
  by (auto simp: rte_new_def Let_def rp_set_info_def split: bind_splits dest!: rip_distance_table)

lemma rte_update_dest:
  assumes "rte_update lay r rte metric hop from ifp p s = Some s'" "dest_ok (r_table s)"
  shows "dest_ok (r_table s')"
proof -
  obtain r' s1 where s1: "rp_unlock p (rp_set_info p (Some r') s1) = Some s'" "r_table s1 = r_table s"
    using assms(1) by (auto simp: rte_update_def Let_def split: bind_splits if_splits dest: rte_adopt_table)
  show ?thesis by (rule dest_ok_rp_unlock [OF s1(1)]) (simp add: rp_set_info_def s1(2) assms(2))
qed

lemma rip_rte_process_dest:
  assumes e: "rip_rte_process lay rte from ifp s = Some s'" and d: "dest_ok (r_table s)"
    and rte: "length (rte_prefix rte) = 4" "rip_destination_check (rte_prefix rte)"
  shows "dest_ok (r_table s')"
proof -
  obtain x where x: "rip_incoming_filter lay (rte_pfx rte) ifp s = Some x"
    using e by (cases "rip_incoming_filter lay (rte_pfx rte) ifp s") (simp_all add: rip_rte_process_def Let_def)
  obtain b s1 where b: "x = (b, s1)" by (cases x)
  have f: "r_table s1 = r_table s" using rip_filter_table [of lay DISTRIBUTE_IN "rte_pfx rte" ifp s b s1] x b by (simp add: rip_incoming_filter_def)
  have "s' = s1 \<or> (\<exists>metric hop. rte_enter lay rte metric hop from ifp (rte_pfx rte) s1 = Some s')"
    using e x b unfolding rip_rte_process_def Let_def by (cases b; cases "rte_cost lay rte ifp s1") (auto split: if_splits)
  then consider "s' = s1" | metric hop where "rte_enter lay rte metric hop from ifp (rte_pfx rte) s1 = Some s'" by blast
  then show ?thesis
  proof cases
    case 2
    then obtain t where t: "route_node_get (r_table s1) (rte_pfx rte) = Some t" by (auto simp: rte_enter_def split: bind_splits)
    have "dest_ok t" using dest_ok_get [OF t _ rte_pfx_wf [OF rte(1)] rte_pfx_dest [OF rte]] d f by simp
    then show ?thesis
      using 2 t by (auto simp: rte_enter_def Let_def split: option.splits if_splits dest: rte_new_dest rte_update_dest)
  qed (use d f in simp)
qed

section \<open>Responses\<close>

lemma rip_inv_peers [simp]: "rip_inv n (s\<lparr>r_peers := ps\<rparr>) = rip_inv n s"
  by (simp add: rip_inv_def conf_ok_def if_ok_def)

lemma rip_peer_get_inv:
  "rip_inv n (rip_peer_get now addr f s) = rip_inv n s" "r_iflist (rip_peer_get now addr f s) = r_iflist s"
  "r_table (rip_peer_get now addr f s) = r_table s"
  by (simp_all add: rip_peer_get_def Let_def split: option.split)

lemmas rip_peer_inv = rip_peer_get_inv rip_peer_update_def rip_peer_bad_route_def rip_peer_bad_packet_def

lemma mask_guess_le: "mask_guess a \<le> 32"
  by (simp add: mask_guess_def Let_def)

text \<open>The lookup of a next hop leaves the table as it was.\<close>

lemma rte_reachable_result:
  assumes i: "rip_inv n s" and n: "n + 1 < 2 ^ 32"
  shows "\<exists>r. rte_reachable rte s = Some (r, s)
    \<and> (\<forall>rte'. r = Some rte' \<longrightarrow> rte_prefix rte' = rte_prefix rte \<and> rte_mask rte' = rte_mask rte \<and> rte_metric rte' = rte_metric rte)"
proof -
  have b: "rt_bound AF_INET n (r_table s)" using i by (simp add: rip_inv_def)
  let ?t = "r_table s" and ?m = "route_node_match_ipv4 (r_table s) (rte_nexthop rte)"
  consider "?m = (?t, None)"
    | q v where "?m = (route_lock_node ?t (pfx_bits q), Some q)" "rt_entries ?t (pfx_bits q) = Some v"
    using rt_bound_match [OF b] unfolding route_node_match_ipv4_def by metis
  then show ?thesis
  proof cases
    case 1
    then show ?thesis by (auto simp: rte_reachable_def)
  next
    case 2
    note lk = rt_bound_lock [OF b 2(2) n]
    show ?thesis using 2 lk(2,3) by (auto simp: rte_reachable_def rp_info_entries)
  qed
qed

lemma rte_guess_result:
  "\<exists>rte'. rte_guess version rte = Some rte' \<and> rte_prefix rte' = rte_prefix rte \<and> rte_metric rte' = rte_metric rte"
proof -
  obtain m where "masklen2ip (mask_guess (rte_prefix rte)) = Some m" by (rule masklen2ip_bits [OF mask_guess_le])
  then show ?thesis by (auto simp: rte_guess_def)
qed

text \<open>An entry of a packet is checked and processed; nothing it holds can harm the table.\<close>

lemma response_rte_result:
  assumes i: "rip_inv n s" and n: "n + 1 < 2 ^ 32" and rte: "length (rte_prefix rte) = 4"
    and ifp: "ifp \<in> set (r_iflist s)" and src: "from \<noteq> INADDR_ANY"
  shows "\<exists>s'. response_rte lay now version first rte from ifp s = Some s' \<and> rip_inv (n + 1) s' \<and> r_iflist s' = r_iflist s
    \<and> (dest_ok (r_table s) \<longrightarrow> dest_ok (r_table s'))"
proof -
  note i' = rip_inv_mono [OF i le_add1 [of n 1]]
  show ?thesis
  proof (cases "(version = 2 \<and> first \<and> rte_family rte = 0xffff) \<or> rte_family rte \<noteq> 2 \<or> \<not> rip_destination_check (rte_prefix rte)
      \<or> \<not> (1 \<le> rte_metric rte \<and> rte_metric rte \<le> 16) \<or> (version = 1 \<and> rte_nexthop rte \<noteq> INADDR_ANY)")
    case True
    then show ?thesis using i' by (auto simp: response_rte_def rip_peer_inv)
  next
    case False
    then have m: "1 \<le> rte_metric rte" "rte_metric rte \<le> 16" by blast+
    obtain r where r: "(if version = 2 then rte_reachable rte s else Some (Some rte, s)) = Some (r, s)"
      "\<And>rte'. r = Some rte' \<Longrightarrow> rte_prefix rte' = rte_prefix rte \<and> rte_metric rte' = rte_metric rte"
      using rte_reachable_result [OF i n, of rte] by (cases "version = 2") auto
    show ?thesis
    proof (cases r)
      case None
      then show ?thesis using False r(1) i' by (auto simp: response_rte_def)
    next
      case (Some rte1)
      obtain rte2 where g: "rte_guess version rte1 = Some rte2" "rte_prefix rte2 = rte_prefix rte" "rte_metric rte2 = rte_metric rte"
        using rte_guess_result [of version rte1] r(2) [OF Some] by auto
      let ?rte3 = "if version = 2 \<and> rte_prefix rte2 = INADDR_ANY \<and> rte_mask rte2 \<noteq> INADDR_ANY then rte2\<lparr>rte_mask := INADDR_ANY\<rparr> else rte2"
      have 3: "length (rte_prefix ?rte3) = 4" "1 \<le> rte_metric ?rte3" "rte_metric ?rte3 \<le> 16" using g rte m by simp_all
      obtain s' where p: "rip_rte_process lay ?rte3 from ifp s = Some s'" "rip_inv (n + 1) s'" "r_iflist s' = r_iflist s"
        using rte_process_result [OF i n 3 ifp src] by blast
      have d: "dest_ok (r_table s')" if "dest_ok (r_table s)"
        by (rule rip_rte_process_dest [OF p(1) that 3(1)]) (use False g(2) in auto)
      have e: "response_rte lay now version first rte from ifp s =
          (if version = 2 \<and> rte_mask rte2 \<noteq> INADDR_ANY \<and> map2 (AND) (rte_prefix rte2) (rte_mask rte2) \<noteq> rte_prefix rte2
           then Some (rip_peer_bad_route now from s) else rip_rte_process lay ?rte3 from ifp s)"
        using False r(1) Some g(1) by (auto simp: response_rte_def Let_def)
      show ?thesis unfolding e using p i' d by (simp add: rip_peer_inv)
    qed
  qed
qed

lemma response_loop_result:
  assumes "rip_inv n s" "n + length rtes < 2 ^ 32" "\<forall>rte\<in>set rtes. length (rte_prefix rte) = 4" "ifp \<in> set (r_iflist s)" "from \<noteq> INADDR_ANY"
  shows "\<exists>s'. response_loop lay now version first rtes from ifp s = Some s' \<and> rip_inv (n + length rtes) s' \<and> r_iflist s' = r_iflist s
    \<and> (dest_ok (r_table s) \<longrightarrow> dest_ok (r_table s'))"
  using assms
proof (induction rtes arbitrary: n first s)
  case (Cons rte rtes)
  have n: "n + 1 < 2 ^ 32" and rte: "length (rte_prefix rte) = 4" using Cons.prems(2,3) by simp_all
  obtain s1 where 1: "response_rte lay now version first rte from ifp s = Some s1" "rip_inv (n + 1) s1" "r_iflist s1 = r_iflist s"
    "dest_ok (r_table s) \<longrightarrow> dest_ok (r_table s1)"
    using response_rte_result [OF Cons.prems(1) n rte Cons.prems(4,5)] by blast
  obtain s2 where 2: "response_loop lay now version False rtes from ifp s1 = Some s2" "rip_inv (n + 1 + length rtes) s2" "r_iflist s2 = r_iflist s1"
    "dest_ok (r_table s1) \<longrightarrow> dest_ok (r_table s2)"
    using Cons.IH [OF 1(2)] Cons.prems 1(3) by auto
  show ?case using 1 2 by simp
qed simp

lemma rip_response_result:
  assumes "rip_inv n s" "n + length (pkt_rte packet) < 2 ^ 32" "\<forall>rte\<in>set (pkt_rte packet). length (rte_prefix rte) = 4"
    "ifp \<in> set (r_iflist s)" "from \<noteq> INADDR_ANY"
  shows "\<exists>s'. rip_response_process lay now packet port from ifp s = Some s' \<and> rip_inv (n + length (pkt_rte packet)) s' \<and> r_iflist s' = r_iflist s
    \<and> (dest_ok (r_table s) \<longrightarrow> dest_ok (r_table s'))"
proof -
  have "rip_inv n (rip_peer_update now from (pkt_version packet) s)" "ifp \<in> set (r_iflist (rip_peer_update now from (pkt_version packet) s))"
    using assms(1,4) by (simp_all add: rip_peer_inv)
  from response_loop_result [OF this(1) assms(2,3) this(2) assms(5)]
  show ?thesis using rip_inv_mono [OF assms(1) le_add1] by (auto simp: rip_response_process_def rip_peer_inv)
qed

section \<open>Timers and redistribution\<close>

text \<open>An entry of the table has a node with a lock.\<close>

lemma rip_inv_node:
  assumes "rip_inv n s" "rp_info (r_table s) p = Some r"
  obtains lk where "rt_map (r_table s) (pfx_bits p) = Some (lk, Some r)" "lk \<noteq> 0" "rinfo_ok (pfx_bits p) r"
proof -
  have e: "rt_entries (r_table s) (pfx_bits p) = Some r" using assms(2) by (simp add: rp_info_entries)
  then obtain lk where lk: "rt_map (r_table s) (pfx_bits p) = Some (lk, Some r)" by (auto simp: rt_entries_Some)
  have "rt_ok (r_table s)" using assms(1) by (simp add: rip_inv_def rt_bound_def)
  then show thesis using that [OF lk] rt_ok_info [OF _ lk] assms(1) e by (simp add: rip_inv_def)
qed

lemma rp_set_info_event: "rip_event_triggered (rp_set_info p v s) = rp_set_info p v (rip_event_triggered s)"
  by (simp add: rip_event_triggered_def rp_set_info_def)

lemma rip_timeout_result:
  assumes i: "rip_inv n s" and r: "rp_info (r_table s) p = Some r" "t_timeout r"
  shows "\<exists>s' r'. rip_timeout p s = Some s' \<and> rip_inv n s' \<and> r_iflist s' = r_iflist s
    \<and> rt_entries (r_table s') = (rt_entries (r_table s))(pfx_bits p \<mapsto> r') \<and> rip_metric r' = RIP_METRIC_INFINITY \<and> t_garbage_collect r'"
proof -
  obtain lk where lk: "rt_map (r_table s) (pfx_bits p) = Some (lk, Some r)" "lk \<noteq> 0" "rinfo_ok (pfx_bits p) r" by (rule rip_inv_node [OF i r(1)])
  have redist: "r_redist s" using i by (simp add: rip_inv_def)
  let ?d = "[Rip_delete p (rip_nexthop r) (rip_metric r)]"
  define s1 where "s1 = rip_event_triggered (rip_zebra_ipv4_delete p (rip_nexthop r) (rip_metric r) s)"
  have s1: "sends ?d s s1" using sends_trans [OF sends_delete [OF redist] sends_event] unfolding s1_def by simp
  define r' where "r' = r\<lparr>t_timeout := False, t_garbage_collect := True, rip_metric := RIP_METRIC_INFINITY,
     rip_flags := SET_FLAG (UNSET_FLAG (rip_flags r) RIP_RTF_FIB) RIP_RTF_CHANGED\<rparr>"
  have e: "rip_timeout p s = Some (rp_set_info p (Some r') s1)"
    using r(1) by (simp add: rip_timeout_def Let_def rp_set_info_event s1_def r'_def)
  have ok: "rinfo_ok (pfx_bits p) r'" using lk(3) r(2) by (auto simp: rinfo_ok_def r'_def rip_route_rte_def)
  have z: "\<forall>x\<in>set ?d. zmsg_key x = pfx_bits p" "fold zstep ?d (zfib (Some r)) = zfib (Some r')" by (simp_all add: zfib_def r'_def)
  note st = rip_store [OF i lk(1,2) s1 ok z]
  show ?thesis using e st sends_fields(8) [OF s1] by (intro exI [of _ "rp_set_info p (Some r') s1"] exI [of _ r']) (simp add: rp_set_info_def r'_def)
qed

lemma rip_garbage_result:
  assumes i: "rip_inv n s" and r: "rp_info (r_table s) p = Some r" "t_garbage_collect r"
  shows "\<exists>s'. rip_garbage_collect p s = Some s' \<and> rip_inv n s' \<and> r_iflist s' = r_iflist s
    \<and> rt_entries (r_table s') = (rt_entries (r_table s))(pfx_bits p := None)"
proof -
  obtain lk where lk: "rt_map (r_table s) (pfx_bits p) = Some (lk, Some r)" "lk \<noteq> 0" "rinfo_ok (pfx_bits p) r" by (rule rip_inv_node [OF i r(1)])
  have b: "rt_bound AF_INET n (r_table s)" using i by (simp add: rip_inv_def)
  note st = rt_bound_set [OF b lk(1,2), of None]
  obtain t where t: "route_unlock_node (route_set_info (r_table s) (pfx_bits p) None) (pfx_bits p) = Some t" "rt_bound AF_INET n t"
    "rt_entries t = rt_entries (route_set_info (r_table s) (pfx_bits p) None)"
    by (rule rt_bound_unlock [OF st(1,3) lk(2)]) simp
  have e: "rip_garbage_collect p s = Some (s\<lparr>r_table := t\<rparr>)"
    using r(1) t(1) by (simp add: rip_garbage_collect_def rp_set_info_def rp_unlock_def Let_def)
  have en: "rt_entries t = (rt_entries (r_table s))(pfx_bits p := None)" using t(3) st(2) by simp
  have z: "zfib (rt_entries (r_table s) (pfx_bits p)) = None"
    using r lk(3) by (auto simp: rp_info_entries zfib_def rinfo_ok_def)
  have "rip_inv n (s\<lparr>r_table := t\<rparr>)"
    by (rule rip_inv_commit [OF i, where a = "[]" and k = "pfx_bits p" and v = None]) (use i t(2) en z in \<open>simp_all add: rip_inv_def zfib_def\<close>)
  then show ?thesis using e en by simp
qed

lemma redist_entry_ok:
  "prefix_wf p \<Longrightarrow> family p = AF_INET \<Longrightarrow> \<not> (type = ROUTE_RIP \<and> sub = RIP_ROUTE_RTE) \<Longrightarrow> rinfo_ok (pfx_bits p) (redist_entry type sub p ifindex nexthop)"
  "\<not> (type = ROUTE_RIP \<and> sub = RIP_ROUTE_RTE) \<Longrightarrow> zfib (Some (redist_entry type sub p ifindex nexthop)) = None"
  by (auto simp: rinfo_ok_def redist_entry_def rip_route_rte_def zfib_def Let_def split: option.splits)

text \<open>The old route of a prefix is withdrawn and the redistributed one takes its place, unless a route of an interface or a static one is
  in the way.\<close>

definition redist_blocked :: "int \<Rightarrow> int \<Rightarrow> rip_info \<Rightarrow> bool" where
  "redist_blocked type sub r \<longleftrightarrow>
     rip_type r = ROUTE_CONNECT \<and> rip_sub_type r = RIP_ROUTE_INTERFACE \<and> rip_metric r \<noteq> RIP_METRIC_INFINITY
     \<or> rip_type r = ROUTE_RIP \<and> rip_sub_type r = RIP_ROUTE_STATIC \<and> (type \<noteq> ROUTE_RIP \<or> sub \<noteq> RIP_ROUTE_STATIC)"

lemma rip_redistribute_add_result:
  assumes i: "rip_inv n s" and n: "n + 1 < 2 ^ 32" and p: "prefix_wf p" "family p = AF_INET" and ty: "\<not> (type = ROUTE_RIP \<and> sub = RIP_ROUTE_RTE)"
  shows "\<exists>s'. rip_redistribute_add type sub p ifindex nexthop s = Some s' \<and> rip_inv (n + 1) s' \<and> r_iflist s' = r_iflist s
    \<and> rt_entries (r_table s') =
       (if \<not> rip_destination_check (take 4 (u_prefix p)) \<or> (\<exists>r. rt_entries (r_table s) (pfx_bits p) = Some r \<and> redist_blocked type sub r)
        then rt_entries (r_table s) else (rt_entries (r_table s))(pfx_bits p \<mapsto> redist_entry type sub p ifindex nexthop))"
proof (cases "rip_destination_check (take 4 (u_prefix p))")
  case False
  then show ?thesis using rip_inv_mono [OF i, of "n + 1"] by (simp add: rip_redistribute_add_def)
next
  case d: True
  let ?k = "pfx_bits p" and ?e = "redist_entry type sub p ifindex nexthop"
  note ok = redist_entry_ok(1) [OF p ty, of ifindex nexthop] and z = redist_entry_ok(2) [OF ty, of p ifindex nexthop]
  obtain t lk where g: "route_node_get (r_table s) p = Some t" "rip_inv (n + 1) (s\<lparr>r_table := t\<rparr>)" "rt_entries t = rt_entries (r_table s)"
    "rt_map t ?k = Some (lk, rt_entries (r_table s) ?k)" "lk \<noteq> 0" "rt_entries (r_table s) ?k \<noteq> None \<longrightarrow> lk \<noteq> 1"
    by (rule rip_get [OF i p n])
  let ?s = "s\<lparr>r_table := t\<rparr>"
  show ?thesis
  proof (cases "rt_entries (r_table s) ?k")
    case None
    have g4: "rt_map (r_table ?s) ?k = Some (lk, None)" using g(4) None by simp
    have "fold zstep [] (zfib None) = zfib (Some ?e)" using z by (simp add: zfib_def)
    note st = rip_store [OF g(2) g4 g(5) sends_event ok _ this, simplified]
    have e: "rip_redistribute_add type sub p ifindex nexthop s = Some (rp_set_info p (Some ?e) (rip_event_triggered ?s))"
      using d g(1,3) None by (simp add: rip_redistribute_add_def rp_info_entries rp_set_info_event Let_def)
    show ?thesis unfolding e using st d g(3) None sends_fields(8) [OF sends_event [of ?s]] by (simp add: rp_set_info_def)
  next
    case (Some r)
    have lk1: "lk \<noteq> 1" using g(6) Some by simp
    have g4: "rt_map (r_table ?s) ?k = Some (lk, Some r)" using g(4) Some by simp
    show ?thesis
    proof (cases "redist_blocked type sub r")
      case True
      then have "rip_redistribute_add type sub p ifindex nexthop s = rp_unlock p ?s"
        using d g(1,3) Some by (auto simp: rip_redistribute_add_def rp_info_entries redist_blocked_def Let_def)
      then show ?thesis using rip_release [OF g(2) g4 g(5) lk1] True Some g(3) by auto
    next
      case False
      define a where "a = (if rip_route_rte r then [Rip_delete p (rip_nexthop r) (rip_metric r)] else [])"
      define s1 where "s1 = (if rip_route_rte r then rip_zebra_ipv4_delete p (rip_nexthop r) (rip_metric r) ?s else ?s)"
      have redist: "r_redist ?s" using g(2) by (simp add: rip_inv_def)
      have s1: "sends a ?s s1" using sends_delete [OF redist] sends_refl by (simp add: a_def s1_def)
      have b: "rt_bound AF_INET (n + 1) t" using g(2) by (simp add: rip_inv_def)
      have g4': "rt_map t ?k = Some (lk, Some r)" using g4 by simp
      note cl = rt_bound_set [OF b g4' g(5), of None]
      obtain t2 where t2: "route_unlock_node (route_set_info t ?k None) ?k = Some t2" "rt_bound AF_INET (n + 1) t2"
        "rt_entries t2 = rt_entries (route_set_info t ?k None)" "lk \<noteq> 1 \<longrightarrow> rt_map t2 ?k = Some (lk - 1, None)"
        by (rule rt_bound_unlock [OF cl(1,3) g(5)]) simp
      have m2: "rt_map t2 ?k = Some (lk - 1, None)" "lk - 1 \<noteq> 0" using t2(4) lk1 by simp_all
      note st = rt_bound_set [OF t2(2) m2, of "Some ?e"]
      define s2 where "s2 = rip_event_triggered (s1\<lparr>r_table := route_set_info t2 ?k (Some ?e)\<rparr>)"
      have e: "rip_redistribute_add type sub p ifindex nexthop s = Some s2"
        using d g(1,3) Some False t2(1) sends_fields(1) [OF s1]
        by (auto simp: rip_redistribute_add_def rp_info_entries redist_blocked_def rp_unlock_def rp_set_info_def Let_def s2_def s1_def)
      have en: "rt_entries (route_set_info t2 ?k (Some ?e)) = (rt_entries t)(?k \<mapsto> ?e)" using st(2) t2(3) cl(2) by simp
      have s2: "r_table s2 = route_set_info t2 ?k (Some ?e)" "r_zmsgs s2 = r_zmsgs ?s @ a" "r_redist s2" "conf_ok s2" "r_iflist s2 = r_iflist s"
        using sends_fields [OF s1] sends_fields [OF sends_event [of "s1\<lparr>r_table := route_set_info t2 ?k (Some ?e)\<rparr>"]] g(2)
        by (simp_all add: s2_def rip_inv_def)
      have "rip_inv (n + 1) s2"
        by (rule rip_inv_commit [OF g(2), where a = a and k = ?k and v = "Some ?e"])
          (use s2 redist st(1) en ok z g(3) Some in \<open>simp_all add: a_def zfib_def\<close>)
      then show ?thesis using e s2 en g(3) Some False d by simp
    qed
  qed
qed

lemma poison_ok:
  "rinfo_ok k r \<Longrightarrow> rinfo_ok k (poison r)" "zfib (Some (poison r)) = None" "\<not> rip_route_rte r \<Longrightarrow> zfib (Some r) = None"
  by (auto simp: rinfo_ok_def poison_def rip_route_rte_def zfib_def)

lemma rip_redistribute_delete_result:
  assumes i: "rip_inv n s" and n: "n + 1 < 2 ^ 32" and ty: "\<not> (type = ROUTE_RIP \<and> sub = RIP_ROUTE_RTE)"
  shows "\<exists>s'. rip_redistribute_delete type sub p ifindex s = Some s' \<and> rip_inv (n + 1) s' \<and> r_iflist s' = r_iflist s"
proof -
  let ?k = "pfx_bits p" and ?t = "r_table s"
  have b: "rt_bound AF_INET n ?t" using i by (simp add: rip_inv_def)
  note i' = rip_inv_mono [OF i le_add1 [of n 1]]
  show ?thesis
  proof (cases "rip_destination_check (take 4 (u_prefix p)) \<and> rt_entries ?t ?k \<noteq> None")
    case False
    then show ?thesis using i' rt_bound_lookup [OF b, of p] by (auto simp: rip_redistribute_delete_def Let_def split: option.splits)
  next
    case True
    then obtain r where r: "rt_entries ?t ?k = Some r" by blast
    obtain q where q: "route_node_lookup ?t p = (route_lock_node ?t ?k, Some q)" "pfx_bits q = ?k"
      using rt_bound_lookup [OF b, of p] r by auto
    note lk = rt_bound_lock [OF b r n]
    let ?s = "s\<lparr>r_table := route_lock_node ?t ?k\<rparr>"
    have i1: "rip_inv (n + 1) ?s" by (rule rip_inv_table [OF i lk(1,2)])
    have ok: "rinfo_ok ?k r" using i r by (simp add: rip_inv_def)
    show ?thesis
    proof (cases "rip_type r = type \<and> rip_sub_type r = sub \<and> rip_ifindex r = ifindex")
      case False
      then show ?thesis using i1 True q lk(2) r by (auto simp: rip_redistribute_delete_def rp_info_entries Let_def)
    next
      case match: True
      then have po: "rinfo_ok ?k (poison r)" "fold zstep [] (zfib (Some r)) = zfib (Some (poison r))"
        using poison_ok(1) [OF ok] poison_ok(2,3) ty by (auto simp: rip_route_rte_def)
      obtain l where l: "rt_map (r_table ?s) ?k = Some (l, Some r)" "l \<noteq> 0" using lk(4) by auto
      note st = rip_store [OF i1 l sends_event po(1) _ po(2), simplified]
      have "rip_redistribute_delete type sub p ifindex s = Some (rp_set_info p (Some (poison r)) (rip_event_triggered ?s))"
        using True match q lk(2) r
        by (simp add: rip_redistribute_delete_def rp_info_entries rp_set_info_event Let_def) (simp add: rp_set_info_def)
      then show ?thesis using st sends_fields(8) [OF sends_event [of ?s]] by (simp add: rp_set_info_def)
    qed
  qed
qed

text \<open>The loops over all entries.\<close>

lemma rip_map_info_result:
  assumes i: "rip_inv n s" and f: "\<And>k r. rinfo_ok k r \<Longrightarrow> rinfo_ok k (f r) \<and> zfib (Some (f r)) = zfib (Some r)"
  shows "rip_inv n (rip_map_info f s)" "rt_entries (r_table (rip_map_info f s)) k = map_option f (rt_entries (r_table s) k)"
proof -
  have b: "rt_bound AF_INET n (r_table s)" using i by (simp add: rip_inv_def)
  note m = rt_bound_map [OF b, of f]
  have z: "zfib (map_option f (rt_entries (r_table s) k)) = zfib (rt_entries (r_table s) k)" for k
    using f [of k] i by (cases "rt_entries (r_table s) k") (simp_all add: rip_inv_def)
  show "rip_inv n (rip_map_info f s)"
    using i m z f by (auto simp: rip_inv_def rip_map_info_def)
  show "rt_entries (r_table (rip_map_info f s)) k = map_option f (rt_entries (r_table s) k)" using m(2) by (simp add: rip_map_info_def)
qed

lemma rip_event_inv [simp]: "rip_inv n (rip_event_triggered s) = rip_inv n s" "r_iflist (rip_event_triggered s) = r_iflist s"
  "r_table (rip_event_triggered s) = r_table s"
  using sends_fields [OF sends_event [of s]] by (simp_all add: rip_inv_def)

lemma rip_withdraw_result:
  assumes i: "rip_inv n s" and ty: "type \<noteq> ROUTE_RIP"
  shows "rip_inv n (rip_redistribute_withdraw type s)" "r_iflist (rip_redistribute_withdraw type s) = r_iflist s"
    "rt_entries (r_table (rip_redistribute_withdraw type s)) k =
       map_option (\<lambda>r. if withdraws type r then poison r else r) (rt_entries (r_table s) k)"
proof -
  let ?f = "\<lambda>r. if withdraws type r then poison r else r"
  have "rinfo_ok k (?f r) \<and> zfib (Some (?f r)) = zfib (Some r)" if "rinfo_ok k r" for k r
    using poison_ok(1) [OF that] poison_ok(2,3) that ty by (auto simp: withdraws_def rip_route_rte_def)
  note m = rip_map_info_result [OF i this, simplified]
  show "rip_inv n (rip_redistribute_withdraw type s)" "r_iflist (rip_redistribute_withdraw type s) = r_iflist s"
    using m(1) by (simp_all add: rip_redistribute_withdraw_def Let_def rip_map_info_def)
  show "rt_entries (r_table (rip_redistribute_withdraw type s)) k = map_option ?f (rt_entries (r_table s) k)"
    using m(2) [of k] by (simp add: rip_redistribute_withdraw_def Let_def)
qed

lemma rip_clear_changed_result:
  assumes i: "rip_inv n s"
  shows "rip_inv n (rip_clear_changed_flag s)" "r_iflist (rip_clear_changed_flag s) = r_iflist s"
proof -
  let ?f = "\<lambda>rinfo. rinfo\<lparr>rip_flags := UNSET_FLAG (rip_flags rinfo) RIP_RTF_CHANGED\<rparr>"
  have "rinfo_ok k (?f r) \<and> zfib (Some (?f r)) = zfib (Some r)" if "rinfo_ok k r" for k r
    using that by (simp add: rinfo_ok_def rip_route_rte_def zfib_def)
  then show "rip_inv n (rip_clear_changed_flag s)" unfolding rip_clear_changed_flag_def by (rule rip_map_info_result(1) [OF i])
  show "r_iflist (rip_clear_changed_flag s) = r_iflist s" by (simp add: rip_clear_changed_flag_def rip_map_info_def)
qed

text \<open>None of these operations leaves a node whose prefix fails the check.\<close>

lemma rip_timeout_dest: "rip_timeout p s = Some s' \<Longrightarrow> dest_ok (r_table s) \<Longrightarrow> dest_ok (r_table s')"
  by (auto simp: rip_timeout_def Let_def rp_set_info_def split: bind_splits)

lemma rip_garbage_dest: "rip_garbage_collect p s = Some s' \<Longrightarrow> dest_ok (r_table s) \<Longrightarrow> dest_ok (r_table s')"
  by (auto simp: rip_garbage_collect_def Let_def rp_set_info_def split: bind_splits dest: dest_ok_rp_unlock)

lemma rip_redistribute_delete_dest: "rip_redistribute_delete type sub p ifindex s = Some s' \<Longrightarrow> dest_ok (r_table s) \<Longrightarrow> dest_ok (r_table s')"
  by (auto simp: rip_redistribute_delete_def route_node_lookup_def Let_def rp_set_info_def split: if_splits option.splits prod.splits)

lemma rip_redistribute_add_dest:
  assumes e: "rip_redistribute_add type sub p ifindex nexthop s = Some s'" and d: "dest_ok (r_table s)" and p: "prefix_wf p" "family p = AF_INET"
  shows "dest_ok (r_table s')"
proof (cases "rip_destination_check (take 4 (u_prefix p))")
  case False
  then show ?thesis using e d by (simp add: rip_redistribute_add_def)
next
  case True
  then obtain t where t: "route_node_get (r_table s) p = Some t" using e by (auto simp: rip_redistribute_add_def split: bind_splits)
  have "dest_ok t" by (rule dest_ok_get [OF t d p True])
  then show ?thesis
    using e True t unfolding rip_redistribute_add_def
    by (auto simp: Let_def rp_set_info_def rp_unlock_def split: option.splits if_splits bind_splits dest!: dest_ok_unlock)
qed

section \<open>Interfaces that go down\<close>

text \<open>The routes an interface takes with it.\<close>

definition if_takes :: "rip_if \<Rightarrow> rip_info \<Rightarrow> bool" where
  "if_takes ifp r \<longleftrightarrow> rip_ifindex r = rif_index ifp \<and> rip_type r \<noteq> ROUTE_STATIC \<and> rip_type r \<noteq> ROUTE_SYSTEM"

definition if_down_entry :: "rip_if \<Rightarrow> rip_info \<Rightarrow> rip_info" where
  "if_down_entry ifp r = (if if_takes ifp r then poison r else r)"

lemma rip_inv_lock:
  assumes i: "rip_inv m s" and r: "rt_entries (r_table s) k = Some r" and m: "m + 1 < 2 ^ 32"
    and lk: "\<And>lk i. rt_map (r_table s) k = Some (lk, i) \<Longrightarrow> unat lk < m"
  shows "rip_inv m (s\<lparr>r_table := route_lock_node (r_table s) k\<rparr>)"
proof -
  have b: "rt_bound AF_INET m (r_table s)" using i by (simp add: rip_inv_def)
  note l = rt_bound_lock [OF b r m]
  have "unat x \<le> m" if x: "rt_map (route_lock_node (r_table s) k) y = Some (x, j)" for y x j
  proof (cases "y = k")
    case True
    then obtain lk0 where lk0: "rt_map (r_table s) k = Some (lk0, j)" "x = lk0 + 1" using x by (auto simp: rt_map_lock split: option.splits)
    then show ?thesis using lk [OF lk0(1)] unat_Suc_word [of lk0 m] m by simp
  next
    case False
    then show ?thesis using x rt_bound_le [OF b] by (simp add: rt_map_lock)
  qed
  then have "rt_bound AF_INET m (route_lock_node (r_table s) k)" using l(1) unfolding rt_bound_def by blast
  then show ?thesis by (rule rip_inv_table [OF i _ l(2)])
qed

lemma if_down_node_result:
  assumes i: "rip_inv m s" and m: "m + 1 < 2 ^ 32" and d: "rip_destination_check (take 4 (u_prefix p))"
    and lk: "\<And>lk i. rt_map (r_table s) (pfx_bits p) = Some (lk, i) \<Longrightarrow> unat lk < m"
  shows "\<exists>s'. if_down_node ifp p s = Some s' \<and> rip_inv m s' \<and> r_iflist s' = r_iflist s \<and> rn_prefixes (r_table s') = rn_prefixes (r_table s)
    \<and> (\<forall>k. k \<noteq> pfx_bits p \<longrightarrow> rt_map (r_table s') k = rt_map (r_table s) k)
    \<and> rt_entries (r_table s') (pfx_bits p) = map_option (if_down_entry ifp) (rt_entries (r_table s) (pfx_bits p))"
proof (cases "rt_entries (r_table s) (pfx_bits p)")
  case None
  then show ?thesis using i by (simp add: if_down_node_def rp_info_entries)
next
  case (Some r)
  let ?k = "pfx_bits p" and ?t = "r_table s"
  show ?thesis
  proof (cases "if_takes ifp r")
    case False
    then show ?thesis using i Some by (auto simp: if_down_node_def rp_info_entries if_down_entry_def if_takes_def)
  next
    case True
    have b: "rt_bound AF_INET m ?t" and redist: "r_redist s" using i by (simp_all add: rip_inv_def)
    obtain q where q: "route_node_lookup ?t p = (route_lock_node ?t ?k, Some q)" "pfx_bits q = ?k"
      using rt_bound_lookup [OF b, of p] Some by auto
    note l = rt_bound_lock [OF b Some m]
    obtain lk1 where l1: "rt_map (route_lock_node ?t ?k) ?k = Some (lk1, Some r)" "lk1 \<noteq> 0" using l(4) by auto
    let ?s = "s\<lparr>r_table := route_lock_node ?t ?k\<rparr>"
    have i1: "rip_inv m ?s" by (rule rip_inv_lock [OF i Some m lk])
    define a where "a = (if rip_route_rte r then [Rip_delete p (rip_nexthop r) (rip_ifindex r)] else [])"
    define s1 where "s1 = (if rip_route_rte r then rip_zebra_ipv4_delete p (rip_nexthop r) (rip_ifindex r) s else s)"
    define s2 where "s2 = rip_event_triggered (s1\<lparr>r_table := route_lock_node ?t ?k\<rparr>)"
    have "sends a ?s (s1\<lparr>r_table := route_lock_node ?t ?k\<rparr>)"
      using redist by (simp add: sends_def a_def s1_def rip_zebra_ipv4_delete_def)
    then have s2: "sends a ?s s2" using sends_trans [OF _ sends_event] unfolding s2_def by fastforce
    have ok: "rinfo_ok ?k r" using i Some by (simp add: rip_inv_def)
    have z: "\<forall>x\<in>set a. zmsg_key x = ?k" "fold zstep a (zfib (Some r)) = zfib (Some (poison r))"
      using poison_ok(2,3) [of r] by (auto simp: a_def)
    have l1': "rt_map (r_table ?s) ?k = Some (lk1, Some r)" using l1(1) by simp
    note st = rip_store [OF i1 l1' l1(2) s2 poison_ok(1) [OF ok] z]
    have "if_down_node ifp p s = rip_redistribute_delete (rip_type r) (rip_sub_type r) p (rip_ifindex r) s1"
      using True Some by (auto simp: if_down_node_def rp_info_entries if_takes_def s1_def rip_route_rte_def)
    also have "\<dots> = Some (rp_set_info p (Some (poison r)) s2)"
      using d q l(2) Some by (simp add: rip_redistribute_delete_def rp_info_entries Let_def s2_def rp_set_info_event s1_def) (simp add: rp_set_info_def)
    finally have e: "if_down_node ifp p s = Some (rp_set_info p (Some (poison r)) s2)" .
    have t2: "r_table s2 = route_lock_node ?t ?k" using sends_fields(1) [OF s2] by simp
    have "rt_map (r_table (rp_set_info p (Some (poison r)) s2)) k = rt_map ?t k" if "k \<noteq> ?k" for k
      using that by (simp add: rp_set_info_def t2 route_set_info_def rt_map_modify rt_map_lock)
    moreover have "rn_prefixes (r_table (rp_set_info p (Some (poison r)) s2)) = rn_prefixes ?t" by (simp add: rp_set_info_def t2)
    moreover have "r_iflist (rp_set_info p (Some (poison r)) s2) = r_iflist s" using sends_fields(8) [OF s2] by (simp add: rp_set_info_def)
    ultimately show ?thesis using e st(1,2) Some True by (simp add: if_down_entry_def)
  qed
qed

lemma if_down_loop_result:
  assumes "rip_inv m s" "m + 1 < 2 ^ 32" "\<forall>p\<in>set ps. rip_destination_check (take 4 (u_prefix p))" "distinct (map pfx_bits ps)"
    "\<forall>p\<in>set ps. \<forall>lk i. rt_map (r_table s) (pfx_bits p) = Some (lk, i) \<longrightarrow> unat lk < m"
  shows "\<exists>s'. if_down_loop ifp ps s = Some s' \<and> rip_inv m s' \<and> r_iflist s' = r_iflist s \<and> rn_prefixes (r_table s') = rn_prefixes (r_table s)
    \<and> (\<forall>k. k \<notin> pfx_bits ` set ps \<longrightarrow> rt_map (r_table s') k = rt_map (r_table s) k)
    \<and> (\<forall>k\<in>pfx_bits ` set ps. rt_entries (r_table s') k = map_option (if_down_entry ifp) (rt_entries (r_table s) k))"
  using assms
proof (induction ps arbitrary: s)
  case (Cons p ps)
  obtain s1 where 1: "if_down_node ifp p s = Some s1" "rip_inv m s1" "r_iflist s1 = r_iflist s" "rn_prefixes (r_table s1) = rn_prefixes (r_table s)"
    "\<And>k. k \<noteq> pfx_bits p \<Longrightarrow> rt_map (r_table s1) k = rt_map (r_table s) k"
    "rt_entries (r_table s1) (pfx_bits p) = map_option (if_down_entry ifp) (rt_entries (r_table s) (pfx_bits p))"
    using if_down_node_result [OF Cons.prems(1,2), of p ifp] Cons.prems(3,5) by auto
  have ne: "pfx_bits q \<noteq> pfx_bits p" if "q \<in> set ps" for q using Cons.prems(4) that by (metis distinct.simps(2) image_eqI list.simps(9) list.set_map)
  have dis: "distinct (map pfx_bits ps)" "\<forall>p\<in>set ps. rip_destination_check (take 4 (u_prefix p))" using Cons.prems(3,4) by simp_all
  have lk: "\<forall>q\<in>set ps. \<forall>lk i. rt_map (r_table s1) (pfx_bits q) = Some (lk, i) \<longrightarrow> unat lk < m"
    using Cons.prems(5) 1(5) ne by simp
  obtain s2 where 2: "if_down_loop ifp ps s1 = Some s2" "rip_inv m s2" "r_iflist s2 = r_iflist s1" "rn_prefixes (r_table s2) = rn_prefixes (r_table s1)"
    "\<And>k. k \<notin> pfx_bits ` set ps \<Longrightarrow> rt_map (r_table s2) k = rt_map (r_table s1) k"
    "\<And>k. k \<in> pfx_bits ` set ps \<Longrightarrow> rt_entries (r_table s2) k = map_option (if_down_entry ifp) (rt_entries (r_table s1) k)"
    using Cons.IH [OF 1(2) Cons.prems(2) dis(2,1) lk] by blast
  have m: "rt_map (r_table s2) k = rt_map (r_table s) k" if "k \<notin> pfx_bits ` set (p # ps)" for k using 1(5) 2(5) that by simp
  have e: "rt_entries (r_table s2) k = map_option (if_down_entry ifp) (rt_entries (r_table s) k)" if k: "k \<in> pfx_bits ` set (p # ps)" for k
  proof (cases "k = pfx_bits p")
    case True
    then have "k \<notin> pfx_bits ` set ps" using ne by (metis imageE)
    then show ?thesis using True 1(6) 2(5) by (simp add: rt_entries_def)
  next
    case False
    then show ?thesis using 1(5) [OF False] 2(6) k by (simp add: rt_entries_def)
  qed
  show ?case using 1(1,3,4) 2(1-4) m e by (intro exI [of _ s2]) simp
qed simp

lemma running_lists [simp]: "ri_list ty (i\<lparr>ri_running := b\<rparr>) = ri_list ty i" "ri_prefix ty (i\<lparr>ri_running := b\<rparr>) = ri_prefix ty i"
  by (cases ty; simp add: ri_list_def ri_prefix_def)+

lemma conf_ok_running:
  "conf_ok s \<Longrightarrow> conf_ok (s\<lparr>r_iflist := map (\<lambda>i. if i = ifp then i\<lparr>ri_running := False\<rparr> else i) (r_iflist s)\<rparr>)"
  by (auto simp: conf_ok_def if_ok_def)

lemma rip_if_down_result:
  assumes i: "rip_inv n s" and d: "dest_ok (r_table s)" and n: "n + 2 < 2 ^ 32"
  shows "\<exists>s'. rip_if_down ifp s = Some s' \<and> rip_inv (n + 1) s' \<and> dest_ok (r_table s')
    \<and> (\<forall>k. rt_entries (r_table s') k = map_option (if_down_entry ifp) (rt_entries (r_table s) k))
    \<and> r_iflist s' = (if ri_running ifp then map (\<lambda>i. if i = ifp then i\<lparr>ri_running := False\<rparr> else i) (r_iflist s) else r_iflist s)"
proof -
  let ?ps = "rn_prefixes (r_table s)"
  have b: "rt_bound AF_INET n (r_table s)" using i by (simp add: rip_inv_def)
  have dist: "distinct (map pfx_bits ?ps)" using b rt_wf_distinct by (auto simp: rn_prefixes_keys rt_bound_def)
  have dest: "\<forall>p\<in>set ?ps. rip_destination_check (take 4 (u_prefix p))" using d by (simp add: dest_ok_def)
  have n2: "(n + 1) + 1 < 2 ^ 32" and i1: "rip_inv (n + 1) s" using n rip_inv_mono [OF i] by simp_all
  have lk: "\<forall>p\<in>set ?ps. \<forall>lk j. rt_map (r_table s) (pfx_bits p) = Some (lk, j) \<longrightarrow> unat lk < n + 1" using rt_bound_le [OF b] by force
  obtain s1 where 1: "if_down_loop ifp ?ps s = Some s1" "rip_inv (n + 1) s1" "r_iflist s1 = r_iflist s" "rn_prefixes (r_table s1) = ?ps"
    "\<And>k. k \<notin> pfx_bits ` set ?ps \<Longrightarrow> rt_map (r_table s1) k = rt_map (r_table s) k"
    "\<And>k. k \<in> pfx_bits ` set ?ps \<Longrightarrow> rt_entries (r_table s1) k = map_option (if_down_entry ifp) (rt_entries (r_table s) k)"
    using if_down_loop_result [OF i1 n2 dest dist lk, of ifp] by blast
  have e: "rt_entries (r_table s1) k = map_option (if_down_entry ifp) (rt_entries (r_table s) k)" for k
  proof (cases "k \<in> pfx_bits ` set ?ps")
    case False
    then have "rt_map (r_table s) k = None" using rn_prefixes_keys [of "r_table s"] by (metis list.set_map rt_map_None_iff)
    then show ?thesis using 1(5) [OF False] by (simp add: rt_entries_def)
  qed (rule 1(6))
  have d1: "dest_ok (r_table s1)" using d 1(4) by (simp add: dest_ok_def)
  have "rip_inv (n + 1) (s1\<lparr>r_iflist := map (\<lambda>i. if i = ifp then i\<lparr>ri_running := False\<rparr> else i) (r_iflist s1)\<rparr>)"
    using 1(2) conf_ok_running by (simp add: rip_inv_def)
  then show ?thesis using 1(1-3) e d1 by (simp add: rip_if_down_def)
qed

section \<open>Runs\<close>

text \<open>The events of the daemon that reach the routing table.\<close>

datatype rip_op =
    Op_response int rip_packet u16 "u8 list" rip_if
  | Op_timeout prefix
  | Op_garbage prefix
  | Op_redist_add int int prefix u32 "u8 list option"
  | Op_redist_delete int int prefix u32
  | Op_redist_withdraw int
  | Op_clear_changed
  | Op_peer_timeout "u8 list"
  | Op_if_down rip_if

fun rip_exec :: "union_layout \<Rightarrow> rip_op \<Rightarrow> rip \<Rightarrow> rip option" where
  "rip_exec lay (Op_response now packet port from ifp) s = rip_response_process lay now packet port from ifp s"
| "rip_exec lay (Op_timeout p) s = rip_timeout p s"
| "rip_exec lay (Op_garbage p) s = rip_garbage_collect p s"
| "rip_exec lay (Op_redist_add type sub p ifindex nexthop) s = rip_redistribute_add type sub p ifindex nexthop s"
| "rip_exec lay (Op_redist_delete type sub p ifindex) s = rip_redistribute_delete type sub p ifindex s"
| "rip_exec lay (Op_redist_withdraw type) s = Some (rip_redistribute_withdraw type s)"
| "rip_exec lay Op_clear_changed s = Some (rip_clear_changed_flag s)"
| "rip_exec lay (Op_peer_timeout addr) s = Some (rip_peer_timeout addr s)"
| "rip_exec lay (Op_if_down ifp) s = rip_if_down ifp s"

text \<open>The locks an event may leave behind on a node; while an interface goes down the loop over the table holds another one.\<close>

fun op_cost :: "rip_op \<Rightarrow> nat" where
  "op_cost (Op_response now packet port from ifp) = length (pkt_rte packet)"
| "op_cost (Op_redist_add type sub p ifindex nexthop) = 1"
| "op_cost (Op_redist_delete type sub p ifindex) = 1"
| "op_cost (Op_if_down ifp) = 2"
| "op_cost _ = 0"

text \<open>A timer fires only when it is armed; a packet comes from a host over an interface of the daemon; other protocols redistribute routes
  that are not learned by RIP.\<close>

fun op_enabled :: "rip_op \<Rightarrow> rip \<Rightarrow> bool" where
  "op_enabled (Op_response now packet port from ifp) s \<longleftrightarrow>
     from \<noteq> INADDR_ANY \<and> ifp \<in> set (r_iflist s) \<and> (\<forall>rte\<in>set (pkt_rte packet). length (rte_prefix rte) = 4)"
| "op_enabled (Op_timeout p) s \<longleftrightarrow> (\<exists>r. rp_info (r_table s) p = Some r \<and> t_timeout r)"
| "op_enabled (Op_garbage p) s \<longleftrightarrow> (\<exists>r. rp_info (r_table s) p = Some r \<and> t_garbage_collect r)"
| "op_enabled (Op_redist_add type sub p ifindex nexthop) s \<longleftrightarrow>
     prefix_wf p \<and> family p = AF_INET \<and> \<not> (type = ROUTE_RIP \<and> sub = RIP_ROUTE_RTE)"
| "op_enabled (Op_redist_delete type sub p ifindex) s \<longleftrightarrow> \<not> (type = ROUTE_RIP \<and> sub = RIP_ROUTE_RTE)"
| "op_enabled (Op_redist_withdraw type) s \<longleftrightarrow> type \<noteq> ROUTE_RIP"
| "op_enabled Op_clear_changed s \<longleftrightarrow> True"
| "op_enabled (Op_peer_timeout addr) s \<longleftrightarrow> True"
| "op_enabled (Op_if_down ifp) s \<longleftrightarrow> ifp \<in> set (r_iflist s)"

lemma rip_exec_inv:
  assumes i: "rip_inv n s" and d: "dest_ok (r_table s)" and n: "n + op_cost p < 2 ^ 32" and e: "op_enabled p s"
  shows "\<exists>s'. rip_exec lay p s = Some s' \<and> rip_inv (n + op_cost p) s' \<and> dest_ok (r_table s')"
proof (cases p)
  case (Op_response now packet port src ifp)
  then show ?thesis using rip_response_result [OF i, of packet ifp src lay now port] n e d by auto
next
  case (Op_timeout q)
  then obtain r where "rp_info (r_table s) q = Some r" "t_timeout r" using e by auto
  from rip_timeout_result [OF i this] show ?thesis using Op_timeout rip_timeout_dest [OF _ d] by fastforce
next
  case (Op_garbage q)
  then obtain r where "rp_info (r_table s) q = Some r" "t_garbage_collect r" using e by auto
  from rip_garbage_result [OF i this] show ?thesis using Op_garbage rip_garbage_dest [OF _ d] by fastforce
next
  case (Op_redist_add type sub q ifindex nexthop)
  then show ?thesis using rip_redistribute_add_result [OF i, of q type sub ifindex nexthop] rip_redistribute_add_dest [OF _ d] n e by fastforce
next
  case (Op_redist_delete type sub q ifindex)
  then show ?thesis using rip_redistribute_delete_result [OF i, of type sub q ifindex] rip_redistribute_delete_dest [OF _ d] n e by fastforce
next
  case (Op_if_down ifp)
  then show ?thesis using rip_if_down_result [OF i d, of ifp] n rip_inv_mono [of "n + 1" _ "n + 2"] by fastforce
qed (use rip_withdraw_result [OF i] rip_clear_changed_result [OF i] i d e in
   \<open>simp_all add: rip_peer_timeout_def rip_redistribute_withdraw_def rip_clear_changed_flag_def rip_map_info_def Let_def\<close>)

text \<open>The states reached from the start with at most \<open>n\<close> locks left behind.\<close>

inductive rip_reach :: "union_layout \<Rightarrow> rip \<Rightarrow> nat \<Rightarrow> rip \<Rightarrow> bool" for lay s0 where
  rip_start: "rip_reach lay s0 0 s0"
| rip_step: "rip_reach lay s0 n s \<Longrightarrow> op_enabled p s \<Longrightarrow> rip_exec lay p s = Some s' \<Longrightarrow> rip_reach lay s0 (n + op_cost p) s'"

definition rip_initial :: "rip \<Rightarrow> bool" where
  "rip_initial s \<longleftrightarrow> conf_ok s \<and> r_redist s \<and> r_table s = route_table_init \<and> r_zmsgs s = []"

lemma rip_initial_inv: "rip_initial s \<Longrightarrow> rip_inv 0 s"
  using rt_bound_init [of AF_INET 0] by (auto simp: rip_initial_def rip_inv_def zview_def zfib_def rt_entries_def route_table_init_def)

lemma rip_reach_both: "rip_reach lay s0 n s \<Longrightarrow> rip_initial s0 \<Longrightarrow> n < 2 ^ 32 \<Longrightarrow> rip_inv n s \<and> dest_ok (r_table s)"
proof (induction rule: rip_reach.induct)
  case rip_start
  then show ?case using rip_initial_inv by (simp add: rip_initial_def route_table_init_def dest_ok_def)
next
  case (rip_step n s p s')
  then show ?case using rip_exec_inv [of n s p lay] by simp
qed

lemmas rip_reach_inv = rip_reach_both [THEN conjunct1]

section \<open>Properties\<close>

text \<open>A small configuration for examples: one interface without filters, over which a neighbor announces a network.\<close>

definition rip_demo_if :: rip_if where
  "rip_demo_if = \<lparr>rif_name = ''eth0'', rif_index = 2, rif_metric = 1, rif_pointopoint = False,
     rif_connected = [\<lparr>rc_address = \<lparr>family = AF_INET, prefixlen = 24, u_prefix = [10, 0, 0, 1] @ replicate 12 0\<rparr>, rc_destination = None\<rparr>],
     ri_running = True, ri_receive = 0, ri_auth_type = 0, ri_auth_str = None, ri_key_chain = None, ri_split_horizon = True, ri_passive = False,
     ri_list_in = None, ri_list_out = None, ri_prefix_in = None, ri_prefix_out = None\<rparr>"

definition rip_demo :: rip where
  "rip_demo = \<lparr>r_table = route_table_init, r_distance_table = route_table_init, r_distance = 0, r_trigger = False, r_triggered_update = False,
     r_triggered_interval = False, r_iflist = [rip_demo_if],
     r_access = \<lparr>nm_num = [], nm_str = [], acc_add_hook = False, acc_delete_hook = False, acc_hooks = []\<rparr>,
     r_plists = \<lparr>nm_num = [], nm_str = [], seqnum = True, recent = None, has_add_hook = False, has_delete_hook = False, hooks = []\<rparr>,
     r_dists = hash_create_size 8, r_offsets = [], r_redist = True, r_zmsgs = [], r_route_changes = 0, r_peers = []\<rparr>"

definition rip_demo_rte :: rte where
  "rip_demo_rte = \<lparr>rte_family = 2, rte_tag = 0, rte_prefix = [192, 0, 2, 0], rte_mask = [255, 255, 255, 0], rte_nexthop = [0, 0, 0, 0],
     rte_metric = 3\<rparr>"

definition rip_demo_net :: prefix where
  "rip_demo_net = \<lparr>family = AF_INET, prefixlen = 24, u_prefix = [192, 0, 2, 0] @ replicate 12 0\<rparr>"

lemma rip_demo_initial: "rip_initial rip_demo"
proof -
  have "dist_inv (hash_create_size 8)" by (rule hash_create_inv(1)) simp
  then show ?thesis
    using rt_bound_init [of AF_INET 1]
    by (simp add: rip_initial_def rip_demo_def conf_ok_def acc_ok_def name_inv_def name_lookup_def if_ok_def rip_demo_if_def ri_list_def
        ri_prefix_def split: distribute_type.splits)
qed

lemma rip_demo_net_wf: "prefix_wf rip_demo_net" "family rip_demo_net = AF_INET"
  by (simp_all add: rip_demo_net_def prefix_wf_def)

lemma rip_demo_accepts: "rip_accepts lay rip_demo_rte [10, 0, 0, 2] rip_demo_if rip_demo"
proof -
  have i: "dist_inv (hash_create_size 8)" by (rule hash_create_inv(1)) simp
  have "distribute_lookup (hash_create_size 8) None = Some None"
    using distribute_lookup_map [OF i, of None] by (simp add: dist_map_def hash_create_inv(2))
  then have "rip_incoming_filter lay (rte_pfx rip_demo_rte) rip_demo_if rip_demo = Some (True, rip_demo)"
    by (simp add: rip_incoming_filter_def rip_filter_def rip_demo_def rip_demo_if_def ri_list_def ri_prefix_def)
  then show ?thesis by (simp add: rip_accepts_def rip_nexthop_check_def rte_hop_def rip_demo_rte_def rip_demo_def rip_demo_if_def)
qed

definition rip_demo_op :: rip_op where
  "rip_demo_op = Op_response 0 \<lparr>pkt_command = 2, pkt_version = 2, pkt_rte = [rip_demo_rte]\<rparr> 520 [10, 0, 0, 2] rip_demo_if"

lemma rip_demo_enabled: "op_enabled rip_demo_op rip_demo"
  by (simp add: rip_demo_op_def rip_demo_def rip_demo_rte_def)

lemma rip_demo_learns:
  "map_option (\<lambda>s. (zfib (rt_entries (r_table s) (pfx_bits rip_demo_net)), rip_demo_if \<in> set (r_iflist s))) (rip_exec demo_layout rip_demo_op rip_demo)
     = Some (Some ([10, 0, 0, 2], 4), True)"
  by code_simp

lemma rip_demo_takes:
  "map_option (\<lambda>s. map_option (if_takes rip_demo_if) (rt_entries (r_table s) (pfx_bits rip_demo_net))) (rip_exec demo_layout rip_demo_op rip_demo)
     = Some (Some True)"
  by code_simp

lemma rip_demo_down:
  "Option.bind (rip_exec demo_layout rip_demo_op rip_demo)
     (\<lambda>s. map_option (\<lambda>s'. zfib (rt_entries (r_table s') (pfx_bits rip_demo_net))) (rip_if_down rip_demo_if s)) = Some None"
  by code_simp

lemma rip_demo_cost: "rte_cost lay rip_demo_rte rip_demo_if rip_demo = Some 4"
  by (simp add: rte_cost_def rip_offset_list_apply_in_def offset_apply_def offset_step_def rip_offset_list_lookup_def rip_demo_def
      rip_demo_rte_def rip_demo_if_def)

text \<open>C2: what \<open>zebra\<close> was told follows the table of the RIP daemon, while \<open>redistribute rip\<close> is on, as it is by default, and the
  well-formed configuration (filter lists, distances, offsets, the list of interfaces) stays as it is.  In every state that received responses, timers,
  redistributed routes and interfaces going down lead to from an empty table, as long as fewer than \<open>2 ^ 32\<close> locks were taken, the last message
  to \<open>zebra\<close> about a prefix is an announcement, with the next hop and metric of the entry, exactly when the table has a learned route with
  finite metric for it.  The garbage timer of an entry runs exactly when its metric is infinity, its timeout exactly when it is learned and
  finite.\<close>

theorem rip_zebra_follows_table:
  assumes "rip_reach lay s0 n s" "rip_initial s0" "n < 2 ^ 32"
  shows "zview (r_zmsgs s) k = zfib (rt_entries (r_table s) k)
    \<and> (\<forall>r. rt_entries (r_table s) k = Some r \<longrightarrow>
         t_garbage_collect r = (rip_metric r = RIP_METRIC_INFINITY)
       \<and> t_timeout r = (rip_route_rte r \<and> rip_metric r \<noteq> RIP_METRIC_INFINITY)
       \<and> rip_metric r \<le> RIP_METRIC_INFINITY \<and> pfx_bits (rip_rp r) = k)"
  using rip_reach_inv [OF assms] unfolding rip_inv_def rinfo_ok_def by blast

theorem rip_zebra_follows_table_witness:
  "\<exists>s s'. rip_reach demo_layout rip_demo 1 s \<and> zview (r_zmsgs s) (pfx_bits rip_demo_net) = Some ([10, 0, 0, 2], 4)
     \<and> rip_if_down rip_demo_if s = Some s' \<and> rip_reach demo_layout rip_demo 3 s' \<and> zview (r_zmsgs s') (pfx_bits rip_demo_net) = None"
proof -
  let ?k = "pfx_bits rip_demo_net"
  obtain s where s: "rip_exec demo_layout rip_demo_op rip_demo = Some s" "zfib (rt_entries (r_table s) ?k) = Some ([10, 0, 0, 2], 4)"
    "rip_demo_if \<in> set (r_iflist s)"
    using rip_demo_learns by (auto simp: map_option_case split: option.splits)
  obtain s' where s': "rip_if_down rip_demo_if s = Some s'" "zfib (rt_entries (r_table s') ?k) = None"
    using rip_demo_down s(1) by (auto simp: map_option_case split: option.splits)
  have 1: "rip_reach demo_layout rip_demo 1 s"
    using rip_step [OF rip_start rip_demo_enabled s(1)] by (simp add: rip_demo_op_def)
  have 3: "rip_reach demo_layout rip_demo 3 s'" using rip_step [OF 1, of "Op_if_down rip_demo_if" s'] s(3) s'(1) by (simp add: eval_nat_numeral)
  show ?thesis
    using rip_zebra_follows_table [OF 1 rip_demo_initial, of ?k] rip_zebra_follows_table [OF 3 rip_demo_initial, of ?k] 1 3 s s' by auto
qed

text \<open>C5: no event brings the daemon down.  In a reachable state, while the configuration stays as it is and the filter lists the interfaces name
  exist, every response from a host over an interface of the daemon, whatever its entries hold, every timer that is armed, every redistribution
  message and every interface that goes down is carried out to the end: no lock is released that is not held, no entry is used that is not there,
  no assertion of the table fails and no mask has more than 32 bits, as long as fewer than \<open>2 ^ 32\<close> locks are taken.\<close>

theorem rip_never_stuck:
  assumes "rip_reach lay s0 n s" "rip_initial s0" "n + op_cost p < 2 ^ 32" "op_enabled p s"
  shows "\<exists>s'. rip_exec lay p s = Some s' \<and> rip_reach lay s0 (n + op_cost p) s'"
proof -
  have i: "rip_inv n s" "dest_ok (r_table s)" using rip_reach_both [OF assms(1,2)] assms(3) by simp_all
  obtain s' where "rip_exec lay p s = Some s'" using rip_exec_inv [OF i assms(3,4)] by blast
  then show ?thesis using rip_step [OF assms(1,4)] by blast
qed

theorem rip_never_stuck_witness:
  "\<exists>s'. rip_response_process demo_layout 0 \<lparr>pkt_command = 2, pkt_version = 2, pkt_rte = [rip_demo_rte]\<rparr> 520 [10, 0, 0, 2] rip_demo_if rip_demo = Some s'"
  using rip_never_stuck [OF rip_start rip_demo_initial,
      where p = "Op_response 0 \<lparr>pkt_command = 2, pkt_version = 2, pkt_rte = [rip_demo_rte]\<rparr> 520 [10, 0, 0, 2] rip_demo_if"]
  by (auto simp: rip_demo_rte_def rip_demo_def)

text \<open>C4: an entry of an update is one step of the distance vector algorithm.  The metric is the received one plus the cost of
  the interface or the offset that is configured, at most infinity.  If the filters and the check of the next hop accept the entry,
  the table takes a route for a new destination unless its metric is infinity, believes the router its current route came from,
  takes a smaller metric from any other router, and otherwise keeps its route; a route of another protocol stays while it is in use.  If they do
  not accept it, or for any other destination, the table keeps its entries.\<close>

theorem rip_rte_process_distance_vector:
  assumes "rip_reach lay s0 n s" "rip_initial s0" "n + 1 < 2 ^ 32"
    and "length (rte_prefix rte) = 4" "1 \<le> rte_metric rte" "rte_metric rte \<le> 16" "ifp \<in> set (r_iflist s)" "from \<noteq> INADDR_ANY"
  shows "\<exists>s' metric. rip_rte_process lay rte from ifp s = Some s'
    \<and> rte_cost lay rte ifp s = Some metric \<and> 1 \<le> metric \<and> metric \<le> RIP_METRIC_INFINITY
    \<and> (\<forall>k. k \<noteq> pfx_bits (rte_pfx rte) \<or> \<not> rip_accepts lay rte from ifp s \<longrightarrow> rt_entries (r_table s') k = rt_entries (r_table s) k)
    \<and> (rip_accepts lay rte from ifp s \<longrightarrow>
         dv_step metric (rte_hop rte from) from (rt_entries (r_table s) (pfx_bits (rte_pfx rte))) (rt_entries (r_table s') (pfx_bits (rte_pfx rte))))"
proof -
  have "rip_inv n s" using rip_reach_inv [OF assms(1,2)] assms(3) by simp
  from rte_process_result [OF this assms(3-8), where lay = lay] show ?thesis by (metis (no_types, lifting))
qed

theorem rip_rte_process_distance_vector_witness:
  "\<exists>s' r. rip_rte_process demo_layout rip_demo_rte [10, 0, 0, 2] rip_demo_if rip_demo = Some s'
     \<and> rt_entries (r_table s') (pfx_bits (rte_pfx rip_demo_rte)) = Some r \<and> rip_metric r = 4 \<and> rip_nexthop r = [10, 0, 0, 2]"
proof -
  have h: "length (rte_prefix rip_demo_rte) = 4" "1 \<le> rte_metric rip_demo_rte" "rte_metric rip_demo_rte \<le> 16"
    "rip_demo_if \<in> set (r_iflist rip_demo)" "[10, 0, 0, 2] \<noteq> INADDR_ANY"
    by (simp_all add: rip_demo_rte_def rip_demo_def)
  have e: "rt_entries (r_table rip_demo) (pfx_bits (rte_pfx rip_demo_rte)) = None" by (simp add: rip_demo_def rt_entries_def route_table_init_def)
  have hop: "rte_hop rip_demo_rte [10, 0, 0, 2] = [10, 0, 0, 2]" by (simp add: rte_hop_def rip_demo_rte_def)
  show ?thesis
    using rip_rte_process_distance_vector [OF rip_start rip_demo_initial _ h, of demo_layout] rip_demo_accepts [of demo_layout] rip_demo_cost [of demo_layout]
    by (auto simp: e dv_step_def hop)
qed

text \<open>C36: an interface that goes down takes its routes with it.  In a reachable state the loop of \<open>rip_if_down\<close> runs to its end, and every entry of the
  table over the interface, but for static and system ones, is poisoned: its metric is infinity, it is marked as changed, its garbage timer runs and
  its timeout does not.  All other entries stay as they are.  \<open>zebra\<close> holds none of the routes of the interface any more, and still
  those it held of other interfaces.\<close>

theorem rip_if_down_poisons:
  assumes "rip_reach lay s0 n s" "rip_initial s0" "n + 2 < 2 ^ 32"
  shows "\<exists>s'. rip_if_down ifp s = Some s'
    \<and> (\<forall>k. rt_entries (r_table s') k = map_option (\<lambda>r. if if_takes ifp r
             then r\<lparr>rip_metric := RIP_METRIC_INFINITY, t_garbage_collect := True, t_timeout := False, rip_flags := SET_FLAG (rip_flags r) RIP_RTF_CHANGED\<rparr>
             else r) (rt_entries (r_table s) k))
    \<and> (\<forall>k. zview (r_zmsgs s') k = (if \<exists>r. rt_entries (r_table s) k = Some r \<and> if_takes ifp r then None else zview (r_zmsgs s) k))
    \<and> r_iflist s' = (if ri_running ifp then map (\<lambda>i. if i = ifp then i\<lparr>ri_running := False\<rparr> else i) (r_iflist s) else r_iflist s)"
proof -
  have i: "rip_inv n s" "dest_ok (r_table s)" using rip_reach_both [OF assms(1,2)] assms(3) by simp_all
  obtain s' where s': "rip_if_down ifp s = Some s'" "rip_inv (n + 1) s'"
    "\<And>k. rt_entries (r_table s') k = map_option (if_down_entry ifp) (rt_entries (r_table s) k)"
    "r_iflist s' = (if ri_running ifp then map (\<lambda>i. if i = ifp then i\<lparr>ri_running := False\<rparr> else i) (r_iflist s) else r_iflist s)"
    using rip_if_down_result [OF i assms(3), of ifp] by blast
  have z: "zview (r_zmsgs s) k = zfib (rt_entries (r_table s) k)" "zview (r_zmsgs s') k = zfib (rt_entries (r_table s') k)" for k
    using s'(2) i(1) by (simp_all add: rip_inv_def)
  have "zview (r_zmsgs s') k = (if \<exists>r. rt_entries (r_table s) k = Some r \<and> if_takes ifp r then None else zview (r_zmsgs s) k)" for k
    using poison_ok(2) by (cases "rt_entries (r_table s) k") (simp_all add: z s'(3) if_down_entry_def)
  then show ?thesis using s'(1,3,4) by (intro exI [of _ s']) (simp add: if_down_entry_def [abs_def, unfolded poison_def])
qed

theorem rip_if_down_poisons_witness:
  "\<exists>s s' r. rip_exec demo_layout rip_demo_op rip_demo = Some s \<and> rip_if_down rip_demo_if s = Some s'
     \<and> rt_entries (r_table s') (pfx_bits rip_demo_net) = Some r \<and> rip_metric r = RIP_METRIC_INFINITY \<and> t_garbage_collect r"
proof -
  let ?k = "pfx_bits rip_demo_net"
  obtain s r where s: "rip_exec demo_layout rip_demo_op rip_demo = Some s" "rt_entries (r_table s) ?k = Some r" "if_takes rip_demo_if r"
    using rip_demo_takes by (auto simp: map_option_case split: option.splits)
  have 1: "rip_reach demo_layout rip_demo 1 s"
    using rip_step [OF rip_start rip_demo_enabled s(1)] by (simp add: rip_demo_op_def)
  show ?thesis using rip_if_down_poisons [OF 1 rip_demo_initial, of rip_demo_if] s by auto
qed

section \<open>Where the code departs from its comments\<close>

text \<open>A route that is announced again as it stands, by the router it came from and without a next hop of its own, is taken for a changed one: the
  missing next hop is compared with that of the entry before the address of the router replaces it.\<close>

lemma rte_refresh_result:
  assumes i: "rip_inv n s" and n: "n + 1 < 2 ^ 32" and p: "p = rte_pfx rte" "length (rte_prefix rte) = 4"
    and r: "rt_entries (r_table s) (pfx_bits p) = Some r" "rip_route_rte r" "rip_metric r \<noteq> RIP_METRIC_INFINITY" "rip_from r = from" "rip_nexthop r = from"
    and rte: "rte_nexthop rte = INADDR_ANY" and src: "from \<noteq> INADDR_ANY"
  shows "\<exists>s' d r'. rte_enter lay rte (rip_metric r) from from ifp p s = Some s'
    \<and> r_zmsgs s' = r_zmsgs s @ [Rip_delete p from (rip_metric r), Rip_add p from (rip_metric r) d]
    \<and> rt_entries (r_table s') (pfx_bits p) = Some r' \<and> CHECK_FLAG (rip_flags r') RIP_RTF_CHANGED
    \<and> rip_metric r' = rip_metric r \<and> rip_nexthop r' = from"
proof -
  note w = rte_pfx_wf [OF p(2), folded p(1)]
  let ?k = "pfx_bits p"
  obtain t lk where g: "route_node_get (r_table s) p = Some t" "rip_inv (n + 1) (s\<lparr>r_table := t\<rparr>)" "rt_entries t = rt_entries (r_table s)"
    "rt_map t ?k = Some (lk, rt_entries (r_table s) ?k)" "lk \<noteq> 0" "rt_entries (r_table s) ?k \<noteq> None \<longrightarrow> lk \<noteq> 1"
    by (rule rip_get [OF i w n])
  let ?s = "s\<lparr>r_table := t\<rparr>"
  have g4: "rt_map (r_table ?s) ?k = Some (lk, Some r)" and lk1: "lk \<noteq> 1" using g(4,6) r(1) by simp_all
  have ok: "rinfo_ok ?k r" using i r(1) by (simp add: rip_inv_def)
  have c: "conf_ok ?s" "r_redist ?s" using g(2) by (simp_all add: rip_inv_def)
  have m: "rip_metric r \<le> RIP_METRIC_INFINITY" "prefix_wf (rip_rp r)" "family (rip_rp r) = AF_INET" using ok by (simp_all add: rinfo_ok_def)
  obtain d s1 where a: "rte_adopt lay r rte (rip_metric r) from from ifp p ?s = Some (adopted r rte (rip_metric r) from from ifp d, s1)"
    "sends (adopt_msgs r (rip_metric r) from p d) ?s s1"
    using rte_adopt_result [OF c m(2,3,1)] by blast
  let ?r' = "adopted r rte (rip_metric r) from from ifp d"
  have ok': "rinfo_ok ?k ?r'" "\<forall>x\<in>set (adopt_msgs r (rip_metric r) from p d). zmsg_key x = ?k"
    "fold zstep (adopt_msgs r (rip_metric r) from p d) (zfib (Some r)) = zfib (Some ?r')"
    by (rule adopted_ok [OF ok refl m(1) src disjI1 [OF r(2)]])+
  note st = rip_store [OF g(2) g4 g(5) a(2) ok']
  have b: "rt_bound AF_INET (n + 1) (r_table (rp_set_info p (Some ?r') s1))" using st(1) by (simp add: rip_inv_def)
  obtain t2 where t2: "route_unlock_node (r_table (rp_set_info p (Some ?r') s1)) ?k = Some t2"
    "rt_entries t2 = rt_entries (r_table (rp_set_info p (Some ?r') s1))"
    by (rule rt_bound_unlock [OF b st(3) g(5)]) (use lk1 in simp)
  let ?s2 = "(rp_set_info p (Some ?r') s1)\<lparr>r_table := t2\<rparr>"
  have "rte_enter lay rte (rip_metric r) from from ifp p s = Some ?s2"
    using g(1,3) r rte src a(1) t2(1) timeout_update_id [OF ok r(2)]
    by (simp add: rte_enter_def rp_info_entries rip_route_rte_def rte_update_def rte_differs_def rp_unlock_def Let_def)
  moreover have "r_zmsgs ?s2 = r_zmsgs s @ [Rip_delete p from (rip_metric r), Rip_add p from (rip_metric r) (if d \<noteq> 0 \<and> d \<noteq> 120 then Some d else None)]"
    using sends_fields(2) [OF a(2)] r(3,5) by (simp add: adopt_msgs_def Let_def rp_set_info_def)
  moreover have "rt_entries (r_table ?s2) ?k = Some ?r'" using t2(2) st(2) by simp
  moreover have "CHECK_FLAG (rip_flags ?r') RIP_RTF_CHANGED" "rip_metric ?r' = rip_metric r" "rip_nexthop ?r' = from"
    using r(3) by (simp_all add: adopted_def Let_def)
  ultimately show ?thesis by blast
qed

lemma rte_process_accepted:
  assumes "rip_accepts lay rte from ifp s" "rip_inv n s" "length (rte_prefix rte) = 4" "ifp \<in> set (r_iflist s)" "rte_cost lay rte ifp s = Some metric"
  obtains s1 where "counts s s1" "rip_rte_process lay rte from ifp s = rte_enter lay rte metric (rte_hop rte from) from ifp (rte_pfx rte) s1"
proof -
  have c: "conf_ok s" and ok: "if_ok s ifp" using assms(2,4) by (simp_all add: rip_inv_def conf_ok_def)
  obtain s1 where f: "rip_incoming_filter lay (rte_pfx rte) ifp s = Some (True, s1)" and h: "rip_nexthop_check (rte_hop rte from) s"
    using assms(1) by (auto simp: rip_accepts_def)
  have cs: "counts s s1" using rip_filter_counts [OF c ok rte_pfx_wf [OF assms(3)], of lay DISTRIBUTE_IN] f unfolding rip_incoming_filter_def by auto
  show thesis
    using that [OF cs] f h rip_nexthop_check_counts [OF cs] rte_cost_counts [OF cs] assms(5) by (simp add: rip_rte_process_def Let_def)
qed

text \<open>Every refresh of a route is a change.  A router that announces the same route again, with the same metric and, as usual, without a
  next hop, makes the daemon delete the route from \<open>zebra\<close> and add it again as it was, and mark it as changed, so that a triggered
  update goes out, although metric and next hop of the entry stay the same.\<close>

theorem rip_refresh_flaps:
  assumes "rip_reach lay s0 n s" "rip_initial s0" "n + 1 < 2 ^ 32" "rip_accepts lay rte from ifp s"
    and "length (rte_prefix rte) = 4" "ifp \<in> set (r_iflist s)" "from \<noteq> INADDR_ANY" "rte_nexthop rte = INADDR_ANY"
    and "rt_entries (r_table s) (pfx_bits (rte_pfx rte)) = Some r" "rip_route_rte r" "rip_from r = from" "rip_nexthop r = from"
    and "rte_cost lay rte ifp s = Some (rip_metric r)" "rip_metric r \<noteq> RIP_METRIC_INFINITY"
  shows "\<exists>s' d r'. rip_rte_process lay rte from ifp s = Some s'
    \<and> r_zmsgs s' = r_zmsgs s @ [Rip_delete (rte_pfx rte) from (rip_metric r), Rip_add (rte_pfx rte) from (rip_metric r) d]
    \<and> rt_entries (r_table s') (pfx_bits (rte_pfx rte)) = Some r' \<and> CHECK_FLAG (rip_flags r') RIP_RTF_CHANGED
    \<and> rip_metric r' = rip_metric r \<and> rip_nexthop r' = rip_nexthop r"
proof -
  have i: "rip_inv n s" using rip_reach_inv [OF assms(1,2)] assms(3) by simp
  obtain s1 where s1: "counts s s1" "rip_rte_process lay rte from ifp s = rte_enter lay rte (rip_metric r) (rte_hop rte from) from ifp (rte_pfx rte) s1"
    by (rule rte_process_accepted [OF assms(4) i assms(5,6,13)])
  have hop: "rte_hop rte from = from" using assms(8) by (simp add: rte_hop_def)
  have e1: "rt_entries (r_table s1) (pfx_bits (rte_pfx rte)) = Some r" using assms(9) counts_fields(1) [OF s1(1)] by simp
  show ?thesis
    using rte_refresh_result [OF rip_inv_counts [OF i s1(1)] assms(3) refl assms(5) e1 assms(10,14,11,12,8,7), of lay ifp]
      s1(2) hop counts_fields(2) [OF s1(1)] assms(12) by simp
qed

text \<open>\<open>rip_redistribute_delete\<close> keeps the lock \<open>route_node_lookup\<close> gave it, so the node of a route that is redistributed, withdrawn and
  collected stays in the table, without an entry and locked: nothing ever frees it.\<close>

theorem rip_redistribute_delete_leaks:
  assumes "rip_reach lay s0 n s" "rip_initial s0" "n + 1 < 2 ^ 32"
    and "rt_entries (r_table s) (pfx_bits p) = Some r" "rip_type r = type" "rip_sub_type r = sub" "rip_ifindex r = ifindex"
    and "\<not> rip_route_rte r" "rip_destination_check (take 4 (u_prefix p))"
  shows "\<exists>s1 s2 lk. rip_redistribute_delete type sub p ifindex s = Some s1 \<and> rip_garbage_collect p s1 = Some s2
    \<and> rt_map (r_table s2) (pfx_bits p) = Some (lk, None) \<and> lk \<noteq> 0"
proof -
  have i: "rip_inv n s" using rip_reach_inv [OF assms(1,2)] assms(3) by simp
  let ?k = "pfx_bits p" and ?t = "r_table s"
  have b: "rt_bound AF_INET n ?t" using i by (simp add: rip_inv_def)
  obtain q where q: "route_node_lookup ?t p = (route_lock_node ?t ?k, Some q)" "pfx_bits q = ?k"
    using rt_bound_lookup [OF b, of p] assms(4) by auto
  note lk = rt_bound_lock [OF b assms(4,3)]
  obtain l where l: "rt_map (route_lock_node ?t ?k) ?k = Some (l, Some r)" "l \<noteq> 0" "l \<noteq> 1" using lk(4) by blast
  note st = rt_bound_set [OF lk(1) l(1,2), of "Some (poison r)"]
  define s1 where "s1 = rip_event_triggered (rp_set_info q (Some (poison r)) (s\<lparr>r_table := route_lock_node ?t ?k\<rparr>))"
  have t1: "r_table s1 = route_set_info (route_lock_node ?t ?k) ?k (Some (poison r))" by (simp add: s1_def rp_set_info_def q(2))
  have 1: "rip_redistribute_delete type sub p ifindex s = Some s1"
    using assms(4-7,9) q lk(2) by (simp add: rip_redistribute_delete_def rp_info_entries Let_def s1_def)
  note st2 = rt_bound_set [OF st(1,3) l(2), of None, folded t1]
  obtain t2 where t2: "route_unlock_node (route_set_info (r_table s1) ?k None) ?k = Some t2" "l \<noteq> 1 \<longrightarrow> rt_map t2 ?k = Some (l - 1, None)"
    by (rule rt_bound_unlock [OF st2(1,3) l(2)]) simp
  have "rip_garbage_collect p s1 = Some (s1\<lparr>r_table := t2\<rparr>)"
    using st(2) t1 t2(1) by (simp add: rip_garbage_collect_def rp_info_entries rp_set_info_def rp_unlock_def Let_def)
  then show ?thesis using 1 t2(2) l(3) by (intro exI [of _ s1] exI [of _ "s1\<lparr>r_table := t2\<rparr>"] exI [of _ "l - 1"]) simp
qed

end
