(* ===== verification/Ospf_Lsa.thy ===== *)
theory Ospf_Lsa
  imports Zebra_Prelude "HOL-Library.Signed_Division"
begin

text \<open>
  OSPF link state advertisements, \<open>ospfd/ospf_lsa.c\<close>: time arithmetic and age, the Fletcher checksum,
  and the comparison of two instances.  An LSA is its header, the bytes behind the header, and
  the bookkeeping fields of \<open>struct ospf_lsa\<close>.  Header fields are in host order; the checksum works
  on the bytes in network order.  The clock (\<open>gettimeofday\<close>) is the argument \<open>now\<close>; a failed
  assertion, a read behind the LSA or an overflow of \<open>int\<close> is \<^term>\<open>None\<close>.
\<close>

section \<open>Definitions\<close>

subsection \<open>Time\<close>

record timeval =
  tv_sec :: int
  tv_usec :: int

function tv_down :: "timeval \<Rightarrow> timeval" where
  "tv_down a = (if tv_usec a \<ge> 1000000 then tv_down \<lparr>tv_sec = tv_sec a + 1, tv_usec = tv_usec a - 1000000\<rparr> else a)"
  by auto
termination
  by (relation "measure (\<lambda>a. nat (tv_usec a))") auto

function tv_up :: "timeval \<Rightarrow> timeval" where
  "tv_up a = (if tv_usec a < 0 then tv_up \<lparr>tv_sec = tv_sec a - 1, tv_usec = tv_usec a + 1000000\<rparr> else a)"
  by auto
termination
  by (relation "measure (\<lambda>a. nat (- tv_usec a))") auto

declare tv_down.simps [simp del] tv_up.simps [simp del]

definition tv_adjust :: "timeval \<Rightarrow> timeval" where
  "tv_adjust a = tv_up (tv_down a)"

definition tv_ceil :: "timeval \<Rightarrow> int" where
  "tv_ceil a = (let a = tv_adjust a in if tv_usec a \<noteq> 0 then tv_sec a + 1 else tv_sec a)"

definition tv_floor :: "timeval \<Rightarrow> int" where
  "tv_floor a = tv_sec (tv_adjust a)"

definition int2tv :: "int \<Rightarrow> timeval" where
  "int2tv a = \<lparr>tv_sec = a, tv_usec = 0\<rparr>"

definition tv_add :: "timeval \<Rightarrow> timeval \<Rightarrow> timeval" where
  "tv_add a b = tv_adjust \<lparr>tv_sec = tv_sec a + tv_sec b, tv_usec = tv_usec a + tv_usec b\<rparr>"

definition tv_sub :: "timeval \<Rightarrow> timeval \<Rightarrow> timeval" where
  "tv_sub a b = tv_adjust \<lparr>tv_sec = tv_sec a - tv_sec b, tv_usec = tv_usec a - tv_usec b\<rparr>"

definition tv_cmp :: "timeval \<Rightarrow> timeval \<Rightarrow> int" where
  "tv_cmp a b = (if tv_sec a = tv_sec b then tv_usec a - tv_usec b else tv_sec a - tv_sec b)"

subsection \<open>The LSA\<close>

record lsa_header =
  ls_age :: u16
  options :: u8
  ls_type :: u8
  ls_id :: u32
  adv_router :: u32
  ls_seqnum :: u32
  checksum :: u16
  ls_length :: u16

record ospf_lsa =
  ldata :: lsa_header
  lbody :: "u8 list"
  lself :: bool
  ldiscard :: bool
  tv_recv :: timeval
  tv_orig :: timeval
  llock :: int
  retransmit_counter :: int
  refresh_list :: int

definition OSPF_LSA_MAXAGE :: int where "OSPF_LSA_MAXAGE = 3600"

definition OSPF_LSA_MAXAGE_DIFF :: int where "OSPF_LSA_MAXAGE_DIFF = 900"

definition OSPF_MIN_LS_INTERVAL :: int where "OSPF_MIN_LS_INTERVAL = 5"

definition OSPF_LSA_HEADER_SIZE :: nat where "OSPF_LSA_HEADER_SIZE = 20"

definition get_metric :: "u8 \<Rightarrow> u8 \<Rightarrow> u8 \<Rightarrow> u32" where
  "get_metric m0 m1 m2 =
     (let m = ucast m0; m = push_bit 8 m + ucast m1; m = push_bit 8 m + ucast m2 in m)"

definition ospf_lsa_refresh_delay :: "timeval \<Rightarrow> ospf_lsa \<Rightarrow> int option" where
  "ospf_lsa_refresh_delay now lsa =
     (let delta = tv_sub now (tv_orig lsa) in
      if tv_cmp delta (int2tv OSPF_MIN_LS_INTERVAL) < 0
      then let delay = tv_ceil (tv_sub (int2tv OSPF_MIN_LS_INTERVAL) delta) in
        (if delay > 0 then Some delay else None)
      else Some 0)"

definition get_age :: "timeval \<Rightarrow> ospf_lsa \<Rightarrow> int" where
  "get_age now lsa = uint (ls_age (ldata lsa)) + tv_floor (tv_sub now (tv_recv lsa))"

definition LS_AGE :: "timeval \<Rightarrow> ospf_lsa \<Rightarrow> int" where
  "LS_AGE now lsa = (if OSPF_LSA_MAXAGE < get_age now lsa then OSPF_LSA_MAXAGE else get_age now lsa)"

definition IS_LSA_MAXAGE :: "timeval \<Rightarrow> ospf_lsa \<Rightarrow> bool" where
  "IS_LSA_MAXAGE now lsa \<longleftrightarrow> LS_AGE now lsa = OSPF_LSA_MAXAGE"

subsection \<open>Checksum\<close>

definition MODX :: nat where "MODX = 4102"

definition LSA_CHECKSUM_OFFSET :: int where "LSA_CHECKSUM_OFFSET = 15"

text \<open>The bytes from the field \<open>options\<close> on.\<close>

definition lsa_bytes :: "lsa_header \<Rightarrow> u8 list \<Rightarrow> u8 list" where
  "lsa_bytes h body = [options h, ls_type h] @ be32 (ls_id h) @ be32 (adv_router h) @ be32 (ls_seqnum h)
     @ be16 (checksum h) @ be16 (ls_length h) @ body"

text \<open>The inner loop over one chunk.\<close>

fun fletcher_chunk :: "u8 list \<Rightarrow> int \<Rightarrow> int \<Rightarrow> (int \<times> int) option" where
  "fletcher_chunk [] c0 c1 = Some (c0, c1)"
| "fletcher_chunk (b # bs) c0 c1 =
     (let c0 = c0 + uint b; c1 = c1 + c0
      in if int_ok c0 \<and> int_ok c1 then fletcher_chunk bs c0 c1 else None)"

text \<open>The outer loop, chunks of \<open>MODX\<close> bytes.\<close>

function fletcher :: "u8 list \<Rightarrow> int \<Rightarrow> int \<Rightarrow> (int \<times> int) option" where
  "fletcher bs c0 c1 =
     (if bs = [] then Some (c0, c1)
      else do {
        (c0, c1) \<leftarrow> fletcher_chunk (take MODX bs) c0 c1;
        fletcher (drop MODX bs) (c0 smod 255) (c1 smod 255)
      })"
  by auto
termination
  by (relation "measure (\<lambda>(bs, c0, c1). length bs)") (auto simp: MODX_def)

declare fletcher.simps [simp del]

definition ospf_lsa_checksum :: "lsa_header \<Rightarrow> u8 list \<Rightarrow> lsa_header option" where
  "ospf_lsa_checksum h body = do {
     let h = h\<lparr>checksum := 0\<rparr>;
     let len = ls_length h - 2;
     let mem = lsa_bytes h body;
     bs \<leftarrow> mem_get mem 0 (unat len);
     (c0, c1) \<leftarrow> fletcher bs 0 0;
     let x = ((uint len - LSA_CHECKSUM_OFFSET) * c0 - c1) smod 255;
     let x = (if x \<le> 0 then x + 255 else x);
     let y = 510 - c0 - x;
     let y = (if y > 255 then y - 255 else y);
     Some (h\<lparr>checksum := of_int (x * 256 + y)\<rparr>)
   }"

subsection \<open>Comparison\<close>

definition ospf_lsa_more_recent :: "timeval \<Rightarrow> ospf_lsa option \<Rightarrow> ospf_lsa option \<Rightarrow> int" where
  "ospf_lsa_more_recent now l1 l2 =
     (case (l1, l2) of
        (None, None) \<Rightarrow> 0
      | (None, Some _) \<Rightarrow> - 1
      | (Some _, None) \<Rightarrow> 1
      | (Some l1, Some l2) \<Rightarrow>
          let x = sint (ls_seqnum (ldata l1)); y = sint (ls_seqnum (ldata l2));
              r = uint (checksum (ldata l1)) - uint (checksum (ldata l2))
          in if x > y then 1
             else if x < y then - 1
             else if r \<noteq> 0 then r
             else if IS_LSA_MAXAGE now l1 \<and> \<not> IS_LSA_MAXAGE now l2 then 1
             else if \<not> IS_LSA_MAXAGE now l1 \<and> IS_LSA_MAXAGE now l2 then - 1
             else if LS_AGE now l1 - LS_AGE now l2 > OSPF_LSA_MAXAGE_DIFF then - 1
             else if LS_AGE now l2 - LS_AGE now l1 > OSPF_LSA_MAXAGE_DIFF then 1
             else 0)"

definition ospf_lsa_different :: "timeval \<Rightarrow> ospf_lsa \<Rightarrow> ospf_lsa \<Rightarrow> bool option" where
  "ospf_lsa_different now l1 l2 =
     (if options (ldata l1) \<noteq> options (ldata l2) then Some True
      else if IS_LSA_MAXAGE now l1 \<and> \<not> IS_LSA_MAXAGE now l2 then Some True
      else if IS_LSA_MAXAGE now l2 \<and> \<not> IS_LSA_MAXAGE now l1 then Some True
      else if ls_length (ldata l1) \<noteq> ls_length (ldata l2) then Some True
      else if ls_length (ldata l1) = 0 then Some True
      else if \<not> unat (ls_length (ldata l1)) > OSPF_LSA_HEADER_SIZE then None
      else do {
        b1 \<leftarrow> mem_get (lbody l1) 0 (unat (ls_length (ldata l1)) - OSPF_LSA_HEADER_SIZE);
        b2 \<leftarrow> mem_get (lbody l2) 0 (unat (ls_length (ldata l1)) - OSPF_LSA_HEADER_SIZE);
        Some (b1 \<noteq> b2)
      })"


section \<open>Time\<close>

definition tv_micros :: "timeval \<Rightarrow> int" where
  "tv_micros a = 1000000 * tv_sec a + tv_usec a"

lemma tv_down_spec: "tv_micros (tv_down a) = tv_micros a \<and> tv_usec (tv_down a) < 1000000 \<and> (0 \<le> tv_usec a \<longrightarrow> 0 \<le> tv_usec (tv_down a))"
proof (induction a rule: tv_down.induct)
  case (1 a)
  then show ?case by (subst (1 2 3) tv_down.simps) (auto simp: tv_micros_def)
qed

lemma tv_up_spec: "tv_usec a < 1000000 \<Longrightarrow> tv_micros (tv_up a) = tv_micros a \<and> 0 \<le> tv_usec (tv_up a) \<and> tv_usec (tv_up a) < 1000000"
proof (induction a rule: tv_up.induct)
  case (1 a)
  then show ?case by (subst (1 2 3) tv_up.simps) (auto simp: tv_micros_def)
qed

text \<open>Adjusting yields the normal form of the same time.\<close>

lemma tv_adjust_spec:
  "tv_sec (tv_adjust a) = tv_micros a div 1000000" "tv_usec (tv_adjust a) = tv_micros a mod 1000000"
proof -
  have "tv_micros a = 1000000 * tv_sec (tv_adjust a) + tv_usec (tv_adjust a)"
    "0 \<le> tv_usec (tv_adjust a)" "tv_usec (tv_adjust a) < 1000000"
    using tv_down_spec [of a] tv_up_spec [of "tv_down a"] by (simp_all add: tv_adjust_def tv_micros_def)
  then show "tv_sec (tv_adjust a) = tv_micros a div 1000000" "tv_usec (tv_adjust a) = tv_micros a mod 1000000"
    using int_div_pos_eq [of "tv_micros a" 1000000] int_mod_pos_eq [of "tv_micros a" 1000000] by simp_all
qed

lemma tv_micros_adjust [simp]: "tv_micros (tv_adjust a) = tv_micros a"
  by (simp add: tv_micros_def [of "tv_adjust a"] tv_adjust_spec)

lemma tv_ops_spec:
  "tv_floor a = tv_micros a div 1000000" "tv_ceil a = - ((- tv_micros a) div 1000000)"
  "tv_micros (tv_add a b) = tv_micros a + tv_micros b" "tv_micros (tv_sub a b) = tv_micros a - tv_micros b"
  "tv_micros (int2tv n) = 1000000 * n"
proof -
  show "tv_ceil a = - ((- tv_micros a) div 1000000)"
    unfolding tv_ceil_def Let_def tv_adjust_spec by (auto simp: zdiv_zminus1_eq_if)
qed (simp_all add: tv_floor_def tv_add_def tv_sub_def int2tv_def tv_adjust_spec, simp_all add: tv_micros_def algebra_simps)

text \<open>The refresh delay never trips its assertion and is the time left of the minimum interval, rounded up.\<close>

lemma ospf_lsa_refresh_delay_spec:
  "ospf_lsa_refresh_delay now lsa = Some (max 0 (- ((tv_micros now - tv_micros (tv_orig lsa) - 5000000) div 1000000)))"
proof -
  let ?d = "tv_micros now - tv_micros (tv_orig lsa)"
  have d: "tv_micros (tv_sub now (tv_orig lsa)) = ?d" by (simp add: tv_ops_spec)
  have n: "tv_usec (tv_sub now (tv_orig lsa)) = ?d mod 1000000" "tv_sec (tv_sub now (tv_orig lsa)) = ?d div 1000000"
    unfolding tv_sub_def tv_adjust_spec by (simp_all add: tv_micros_def algebra_simps)
  have "tv_cmp (tv_sub now (tv_orig lsa)) (int2tv OSPF_MIN_LS_INTERVAL) < 0 \<longleftrightarrow> ?d < 5000000"
    unfolding tv_cmp_def n by (auto simp: int2tv_def OSPF_MIN_LS_INTERVAL_def)
  moreover have "tv_ceil (tv_sub (int2tv OSPF_MIN_LS_INTERVAL) (tv_sub now (tv_orig lsa))) = - ((?d - 5000000) div 1000000)"
    by (simp add: tv_ops_spec OSPF_MIN_LS_INTERVAL_def)
  ultimately show ?thesis
    unfolding ospf_lsa_refresh_delay_def Let_def by (auto simp: max_def)
qed

section \<open>Checksum\<close>

text \<open>The two sums of Fletcher's checksum: of the bytes, and of the bytes weighted by their distance from the end.\<close>

fun fl_sum :: "u8 list \<Rightarrow> int" where
  "fl_sum [] = 0"
| "fl_sum (b # bs) = uint b + fl_sum bs"

fun fl_wsum :: "u8 list \<Rightarrow> int" where
  "fl_wsum [] = 0"
| "fl_wsum (b # bs) = (1 + int (length bs)) * uint b + fl_wsum bs"

lemma fl_sum_append [simp]: "fl_sum (xs @ ys) = fl_sum xs + fl_sum ys"
  by (induction xs) simp_all

lemma fl_wsum_append [simp]: "fl_wsum (xs @ ys) = fl_wsum xs + int (length ys) * fl_sum xs + fl_wsum ys"
  by (induction xs) (simp_all add: algebra_simps)

lemma fl_sum_bounds: "0 \<le> fl_sum bs" "fl_sum bs \<le> 255 * int (length bs)"
proof -
  have "0 \<le> fl_sum bs \<and> fl_sum bs \<le> 255 * int (length bs)"
  proof (induction bs)
    case (Cons b bs)
    have "uint b < 2 ^ 8" using uint_lt2p [of b] by simp
    then show ?case using Cons by simp
  qed simp
  then show "0 \<le> fl_sum bs" "fl_sum bs \<le> 255 * int (length bs)" by auto
qed

lemma fl_step_bounds:
  fixes n u c0 c1 :: int
  assumes "0 \<le> n" "0 \<le> u" "u \<le> 255" "0 \<le> c0" "0 \<le> c1"
    and "2 * c1 + 2 * (1 + n) * c0 + 255 * (1 + n) * (2 + n) < 2 ^ 32"
  shows "2 * (c1 + (c0 + u)) + 2 * n * (c0 + u) + 255 * n * (1 + n) < 2 ^ 32" "int_ok (c0 + u)" "int_ok (c1 + (c0 + u))"
proof -
  have m: "0 \<le> n * c0" "0 \<le> n * n" "n * u \<le> n * 255" "0 \<le> n * u" using assms by (auto intro: mult_left_mono)
  then show "2 * (c1 + (c0 + u)) + 2 * n * (c0 + u) + 255 * n * (1 + n) < 2 ^ 32" using assms by (simp add: algebra_simps)
  have "2 * c1 + 2 * (1 + n) * c0 + 255 * (1 + n) * (2 + n) = 2 * c1 + 2 * c0 + 2 * (n * c0) + 255 * (n * n) + 765 * n + 510"
    by (simp add: algebra_simps)
  then have s: "2 * c1 + 2 * c0 + 510 < 2 ^ 32" using assms(1,6) m(1,2) by linarith
  show "int_ok (c0 + u)" "int_ok (c1 + (c0 + u))" using s assms(2-5) by (simp_all add: int_ok_def)
qed

text \<open>The conditions of the standard: the sum of the octets, and the sum in which an octet counts as often as there are octets from it to the
  end, are 0 modulo 255.\<close>

definition fletcher_valid :: "u8 list \<Rightarrow> bool" where
  "fletcher_valid bs \<longleftrightarrow> (\<Sum>i<length bs. uint (bs ! i)) mod 255 = 0 \<and> (\<Sum>i<length bs. int (length bs - i) * uint (bs ! i)) mod 255 = 0"

lemma fl_sum_sum: "fl_sum bs = (\<Sum>i<length bs. uint (bs ! i))"
  by (induction bs) (simp_all add: sum.lessThan_Suc_shift del: sum.lessThan_Suc)

lemma fl_wsum_sum: "fl_wsum bs = (\<Sum>i<length bs. int (length bs - i) * uint (bs ! i))"
  by (induction bs) (simp_all add: sum.lessThan_Suc_shift del: sum.lessThan_Suc)

lemma fletcher_valid_iff: "fletcher_valid bs \<longleftrightarrow> fl_sum bs mod 255 = 0 \<and> fl_wsum bs mod 255 = 0"
  by (simp only: fletcher_valid_def fl_sum_sum fl_wsum_sum)

lemma fletcher_chunk_spec:
  assumes "0 \<le> c0" "0 \<le> c1"
    and "2 * c1 + 2 * int (length bs) * c0 + 255 * int (length bs) * (1 + int (length bs)) < 2 ^ 32"
  shows "fletcher_chunk bs c0 c1 = Some (c0 + fl_sum bs, c1 + int (length bs) * c0 + fl_wsum bs)"
  using assms
proof (induction bs arbitrary: c0 c1)
  case (Cons b bs)
  let ?n = "int (length bs)" and ?c0 = "c0 + uint b" and ?c1 = "c1 + (c0 + uint b)"
  have b: "0 \<le> uint b" "uint b \<le> 255" using uint_lt2p [of b] by auto
  have "2 * c1 + 2 * (1 + ?n) * c0 + 255 * (1 + ?n) * (2 + ?n) < 2 ^ 32"
    using Cons.prems(3) by (simp add: algebra_simps)
  note fl_step_bounds [OF _ b Cons.prems(1,2) this]
  then have "fletcher_chunk (b # bs) c0 c1 = Some (?c0 + fl_sum bs, ?c1 + ?n * ?c0 + fl_wsum bs)"
    using Cons.IH [of ?c0 ?c1] Cons.prems(1,2) b by (simp add: Let_def)
  then show ?case by (simp add: algebra_simps)
qed simp

lemma fl_chunk_bounds:
  fixes n c0 c1 :: int
  assumes "0 \<le> n" "n \<le> 4102" "0 \<le> c0" "c0 < 255" "0 \<le> c1" "c1 < 255"
  shows "2 * c1 + 2 * n * c0 + 255 * n * (1 + n) < 2 ^ 32"
proof -
  have "n * c0 \<le> 4102 * 254" using assms by (intro mult_mono) auto
  moreover have "n * (1 + n) \<le> 4102 * 4103" using assms by (intro mult_mono) auto
  ultimately show ?thesis using assms by (simp add: algebra_simps)
qed

lemma smod_255: "0 \<le> k \<Longrightarrow> k smod 255 = k mod (255 :: int)"
  by (simp add: signed_modulo_int_def sgn_if)

text \<open>A chunk of \<open>MODX\<close> bytes just fits the range of \<open>int\<close>, so no sum overflows.\<close>

lemma fletcher_spec:
  "0 \<le> c0 \<Longrightarrow> c0 < 255 \<Longrightarrow> 0 \<le> c1 \<Longrightarrow> c1 < 255 \<Longrightarrow>
   fletcher bs c0 c1 = Some ((c0 + fl_sum bs) mod 255, (c1 + int (length bs) * c0 + fl_wsum bs) mod 255)"
proof (induction bs c0 c1 rule: fletcher.induct)
  case (1 bs c0 c1)
  show ?case
  proof (cases "bs = []")
    case True
    then show ?thesis using 1 by (subst fletcher.simps) simp
  next
    case False
    let ?h = "take MODX bs" and ?t = "drop MODX bs"
    let ?c0 = "c0 + fl_sum ?h" and ?c1 = "c1 + int (length ?h) * c0 + fl_wsum ?h"
    have "int (length ?h) \<le> 4102" by (simp add: MODX_def)
    then have "fletcher_chunk ?h c0 c1 = Some (?c0, ?c1)"
      using 1(2-5) by (intro fletcher_chunk_spec fl_chunk_bounds) simp_all
    moreover have pos: "0 \<le> ?c0" "0 \<le> ?c1"
    proof -
      have "0 \<le> fl_wsum xs" for xs by (induction xs) auto
      then show "0 \<le> ?c0" "0 \<le> ?c1" using 1 fl_sum_bounds(1) [of ?h] by (auto intro!: add_nonneg_nonneg)
    qed
    ultimately have "fletcher bs c0 c1 = fletcher ?t (?c0 mod 255) (?c1 mod 255)"
      using False by (subst fletcher.simps) (simp add: smod_255)
    also have "\<dots> = Some ((?c0 mod 255 + fl_sum ?t) mod 255, (?c1 mod 255 + int (length ?t) * (?c0 mod 255) + fl_wsum ?t) mod 255)"
      using 1(1) [OF False \<open>fletcher_chunk ?h c0 c1 = Some (?c0, ?c1)\<close>] pos by (simp add: smod_255)
    also have "(?c0 mod 255 + fl_sum ?t) mod 255 = (c0 + fl_sum bs) mod 255"
      using fl_sum_append [of ?h ?t] by (simp add: mod_simps add.assoc)
    also have "(?c1 mod 255 + int (length ?t) * (?c0 mod 255) + fl_wsum ?t) mod 255 = (?c1 + int (length ?t) * ?c0 + fl_wsum ?t) mod 255"
      by (intro mod_add_cong mod_mult_cong refl) simp_all
    also have "?c1 + int (length ?t) * ?c0 + fl_wsum ?t = c1 + int (length bs) * c0 + fl_wsum bs"
    proof -
      have "length bs = length ?h + length ?t" by simp
      then have "int (length bs) = int (length ?h) + int (length ?t)" by linarith
      then show ?thesis using fl_wsum_append [of ?h ?t] by (simp add: algebra_simps)
    qed
    finally show ?thesis .
  qed
qed


text \<open>The two checksum bytes the code computes from the sums: both are between 1 and 255, and they make the two
  sums vanish modulo 255 at their place in the LSA.\<close>

lemma checksum_bytes:
  fixes c0 c1 m :: int
  assumes "0 \<le> c0" "c0 < 255" and x: "x = (let r = (m * c0 - c1) smod 255 in if r \<le> 0 then r + 255 else r)"
    and y: "y = (let r = 510 - c0 - x in if r > 255 then r - 255 else r)"
  shows "1 \<le> x" "x \<le> 255" "1 \<le> y" "y \<le> 255" "(c0 + x + y) mod 255 = 0" "(c1 + (m + 1) * x + m * y) mod 255 = 0"
proof -
  let ?k = "m * c0 - c1"
  have r: "\<bar>?k smod 255\<bar> < 255" "\<exists>q. ?k smod 255 = ?k + 255 * q"
  proof -
    have a: "\<bar>?k\<bar> mod 255 < 255" "0 \<le> \<bar>?k\<bar> mod 255" by simp_all
    have "?k smod 255 = sgn ?k * (\<bar>?k\<bar> mod 255)" by (simp add: signed_modulo_int_def)
    then show "\<bar>?k smod 255\<bar> < 255" using a by (simp add: abs_mult sgn_if)
    have "?k smod 255 = ?k + 255 * (- sgn ?k * (\<bar>?k\<bar> div 255))"
      using minus_mult_div_eq_mod [of "\<bar>?k\<bar>" 255] by (auto simp: signed_modulo_int_def sgn_if)
    then show "\<exists>q. ?k smod 255 = ?k + 255 * q" by blast
  qed
  obtain q where q: "x = ?k + 255 * q" and x': "1 \<le> x" "x \<le> 255"
  proof (cases "?k smod 255 \<le> 0")
    case True
    then show thesis using r x that [of "_ + 1"] by (auto simp: Let_def algebra_simps)
  next
    case False
    then show thesis using r x that by (auto simp: Let_def)
  qed
  obtain j where j: "c0 + x + y = 255 * j" and y': "1 \<le> y" "y \<le> 255"
  proof (cases "510 - c0 - x > 255")
    case True
    then show thesis using y x' assms(1,2) that [of 1] by (simp add: Let_def)
  next
    case False
    then show thesis using y x' assms(1,2) that [of 2] by (simp add: Let_def)
  qed
  show "1 \<le> x" "x \<le> 255" "1 \<le> y" "y \<le> 255" using x' y' by simp_all
  show "(c0 + x + y) mod 255 = 0" using j by simp
  have "m * (c0 + x + y) = 255 * (m * j)" "c1 + x - m * c0 = 255 * q" using j q by simp_all
  moreover have "c1 + (m + 1) * x + m * y = (c1 + x - m * c0) + m * (c0 + x + y)" by (simp add: algebra_simps)
  ultimately have "c1 + (m + 1) * x + m * y = 255 * (q + m * j)" by simp
  then show "(c1 + (m + 1) * x + m * y) mod 255 = 0" by simp
qed

lemma be16_pair:
  assumes "1 \<le> x" "x \<le> 255" "1 \<le> y" "y \<le> 255"
  shows "be16 (of_int (x * 256 + y)) = [word_of_int x, word_of_int y]"
proof -
  define v :: u16 where "v = of_int (x * 256 + y)"
  have "uint v = (x * 256 + y) mod 2 ^ 16" unfolding v_def using uint_word_of_int [of "x * 256 + y", where 'a = 16] by simp
  then have v: "uint v = x * 256 + y" using assms by simp
  have "uint (ucast (drop_bit 8 v) :: u8) = x" "uint (ucast v :: u8) = y"
    using assms by (simp_all add: unsigned_ucast_eq unsigned_drop_bit_eq v take_bit_eq_mod drop_bit_eq_div uint_div)
  then show ?thesis unfolding be16_def v_def [symmetric] by (metis word_of_int_uint)
qed

lemma lsa_bytes_split:
  "lsa_bytes h body = ([options h, ls_type h] @ be32 (ls_id h) @ be32 (adv_router h) @ be32 (ls_seqnum h))
     @ be16 (checksum h) @ (be16 (ls_length h) @ body)"
  by (simp add: lsa_bytes_def)

lemma length_lsa_bytes [simp]: "length (lsa_bytes h body) = 18 + length body"
  by (simp add: lsa_bytes_def be16_def be32_def)


lemma fl_wsum_nonneg: "0 \<le> fl_wsum bs"
  by (induction bs) auto

lemma lsa_take:
  assumes "16 \<le> n"
  obtains A C where "length A = 14" "int (length C) \<le> int n - 16" "n \<le> 18 + length body \<Longrightarrow> int (length C) = int n - 16"
    "\<And>c. take n (lsa_bytes (h\<lparr>checksum := c\<rparr>) body) = A @ be16 c @ C"
proof
  let ?A = "[options h, ls_type h] @ be32 (ls_id h) @ be32 (adv_router h) @ be32 (ls_seqnum h)"
  let ?C = "take (n - 16) (be16 (ls_length h) @ body)"
  show "length ?A = 14" by (simp add: be32_def)
  show "int (length ?C) \<le> int n - 16" using assms by (simp add: be16_def)
  show "n \<le> 18 + length body \<Longrightarrow> int (length ?C) = int n - 16" using assms by (simp add: be16_def min_def) arith
  show "take n (lsa_bytes (h\<lparr>checksum := c\<rparr>) body) = ?A @ be16 c @ ?C" for c
  proof -
    have l: "length (?A @ be16 c) = 16" by (simp add: be32_def be16_def)
    have "take n ((?A @ be16 c) @ (be16 (ls_length h) @ body)) = (?A @ be16 c) @ ?C"
      unfolding take_append l using assms l by simp
    then show ?thesis unfolding lsa_bytes_split by simp
  qed
qed

text \<open>C25: The Fletcher checksum.  For an LSA of at least 18 bytes that lies in memory completely,
  \<open>ospf_lsa_checksum\<close> returns (no sum overflows \<open>int\<close>, whatever the length), changes nothing but the
  checksum field, and with that field the \<open>n\<close> bytes after the age satisfy the two conditions of the
  standard: their sum is 0 modulo 255, and so is the sum in which the first byte counts \<open>n\<close> times, the
  next \<open>n - 1\<close> times, and the last once.  Computing the checksum again gives the same field.  For a
  length field below 2 the unsigned length wraps and the function reads 65534 bytes or more.\<close>

theorem ospf_lsa_checksum_correct:
  "(18 \<le> unat (ls_length h) \<and> unat (ls_length h) \<le> 20 + length body \<longrightarrow>
     (\<exists>c. ospf_lsa_checksum h body = Some (h\<lparr>checksum := c\<rparr>)
        \<and> fletcher_valid (take (unat (ls_length h) - 2) (lsa_bytes (h\<lparr>checksum := c\<rparr>) body))
        \<and> ospf_lsa_checksum (h\<lparr>checksum := c\<rparr>) body = Some (h\<lparr>checksum := c\<rparr>)))
   \<and> (ls_length h < 2 \<and> length body < 65516 \<longrightarrow> ospf_lsa_checksum h body = None)"
proof (intro conjI impI, elim conjE)
  assume len: "18 \<le> unat (ls_length h)" "unat (ls_length h) \<le> 20 + length body"
  define n where "n = unat (ls_length h) - 2"
  have u: "unat (ls_length h - 2) = n" using len unat_sub [of 2 "ls_length h"] by (simp add: word_le_nat_alt n_def)
  have n: "16 \<le> n" "n \<le> 18 + length body" using len by (simp_all add: n_def)
  obtain A C where A: "length A = 14" and C: "int (length C) = int n - 16"
    and T: "\<And>c. take n (lsa_bytes (h\<lparr>checksum := c\<rparr>) body) = A @ be16 c @ C"
    using lsa_take [OF n(1), of body h] n(2) by metis
  define c0 c1 where "c0 = fl_sum (A @ be16 0 @ C) mod 255" and "c1 = fl_wsum (A @ be16 0 @ C) mod 255"
  define x where "x = (let r = ((int n - 15) * c0 - c1) smod 255 in if r \<le> 0 then r + 255 else r)"
  define y where "y = (let r = 510 - c0 - x in if r > 255 then r - 255 else r)"
  have "0 \<le> c0" "c0 < 255" by (simp_all add: c0_def)
  note xy = checksum_bytes [OF this x_def y_def]
  let ?h = "h\<lparr>checksum := of_int (x * 256 + y)\<rparr>"
  have b: "be16 (of_int (x * 256 + y)) = [word_of_int x, word_of_int y]" "uint (word_of_int x :: u8) = x" "uint (word_of_int y :: u8) = y"
    using be16_pair [of x y] xy(1-4) by (simp_all add: uint_word_of_int)
  have run: "ospf_lsa_checksum g body = Some ?h" if "g = h \<or> g = ?h" for g
  proof -
    have g: "g\<lparr>checksum := 0\<rparr> = h\<lparr>checksum := 0\<rparr>" "ls_length g = ls_length h" using that by auto
    have "mem_get (lsa_bytes (h\<lparr>checksum := 0\<rparr>) body) 0 n = Some (A @ be16 0 @ C)" using n(2) T [of 0] by (simp add: mem_get_def)
    moreover have "fletcher (A @ be16 0 @ C) 0 0 = Some (c0, c1)" using fletcher_spec [of 0 0] by (simp add: c0_def c1_def)
    moreover have "uint (ls_length h - 2) = int n" using u uint_nat [of "ls_length h - 2"] by simp
    ultimately show ?thesis using g u
      by (simp add: ospf_lsa_checksum_def LSA_CHECKSUM_OFFSET_def x_def y_def Let_def)
  qed
  have s: "fl_sum (A @ be16 0 @ C) = fl_sum A + fl_sum C" "fl_wsum (A @ be16 0 @ C) = fl_wsum A + int (2 + length C) * fl_sum A + fl_wsum C"
    by (simp_all add: be16_def)
  have "fl_sum (A @ [word_of_int x, word_of_int y] @ C) mod 255 = (fl_sum A + fl_sum C + x + y) mod 255"
    using b by (simp add: algebra_simps)
  also have "\<dots> = (c0 + x + y) mod 255" unfolding c0_def s by (simp add: mod_simps add.assoc)
  finally have S: "fl_sum (A @ [word_of_int x, word_of_int y] @ C) mod 255 = 0" using xy(5) by simp
  have "fl_wsum (A @ [word_of_int x, word_of_int y] @ C) = fl_wsum (A @ be16 0 @ C) + ((int n - 15 + 1) * x + (int n - 15) * y)"
  proof -
    have "int n = int (length C) + 16" using C by simp
    then show ?thesis unfolding s using b by (simp add: algebra_simps)
  qed
  then have "fl_wsum (A @ [word_of_int x, word_of_int y] @ C) mod 255 = (c1 + ((int n - 15 + 1) * x + (int n - 15) * y)) mod 255"
    unfolding c1_def by (simp only: mod_add_left_eq)
  then have W: "fl_wsum (A @ [word_of_int x, word_of_int y] @ C) mod 255 = 0" using xy(6) by (simp add: add.assoc)
  have "fletcher_valid (take n (lsa_bytes ?h body))" unfolding T b(1) fletcher_valid_iff using S W by simp
  then show "\<exists>c. ospf_lsa_checksum h body = Some (h\<lparr>checksum := c\<rparr>)
      \<and> fletcher_valid (take (unat (ls_length h) - 2) (lsa_bytes (h\<lparr>checksum := c\<rparr>) body))
      \<and> ospf_lsa_checksum (h\<lparr>checksum := c\<rparr>) body = Some (h\<lparr>checksum := c\<rparr>)"
    using run unfolding n_def by blast
next
  assume "ls_length h < 2 \<and> length body < 65516"
  then have "ls_length h = 0 \<or> ls_length h = 1" and m: "length body < 65516"
    by (auto simp: word_less_nat_alt word_unat_eq_iff)
  then have "65534 \<le> unat (ls_length h - 2)" by (elim disjE) (simp_all add: unsigned_minus_1_eq_mask mask_eq_exp_minus_1)
  then show "ospf_lsa_checksum h body = None" using m by (simp add: ospf_lsa_checksum_def mem_get_def)
qed


definition lsa_demo :: lsa_header where
  "lsa_demo = \<lparr>ls_age = 1, options = 2, ls_type = 1, ls_id = 0x0A000001, adv_router = 0x0A000001, ls_seqnum = 0x80000001,
     checksum = 0, ls_length = 24\<rparr>"

theorem ospf_lsa_checksum_correct_witness:
  "\<exists>c. ospf_lsa_checksum lsa_demo [0, 0, 0, 1] = Some (lsa_demo\<lparr>checksum := c\<rparr>)
     \<and> fletcher_valid (take 22 (lsa_bytes (lsa_demo\<lparr>checksum := c\<rparr>) [0, 0, 0, 1]))"
proof -
  have l: "unat (ls_length lsa_demo) = 24" by (simp add: lsa_demo_def)
  show ?thesis using ospf_lsa_checksum_correct [of lsa_demo "[0, 0, 0, 1]"] unfolding l by auto
qed

section \<open>Comparison of instances\<close>

lemma more_recent_iff:
  "0 < ospf_lsa_more_recent now (Some a) (Some b) \<longleftrightarrow>
     sint (ls_seqnum (ldata b)) < sint (ls_seqnum (ldata a))
   \<or> sint (ls_seqnum (ldata a)) = sint (ls_seqnum (ldata b)) \<and>
       (uint (checksum (ldata b)) < uint (checksum (ldata a))
        \<or> uint (checksum (ldata b)) = uint (checksum (ldata a)) \<and>
            (IS_LSA_MAXAGE now a \<and> \<not> IS_LSA_MAXAGE now b
             \<or> (IS_LSA_MAXAGE now a \<longleftrightarrow> IS_LSA_MAXAGE now b) \<and> LS_AGE now a + 900 < LS_AGE now b))"
  by (auto simp: ospf_lsa_more_recent_def Let_def OSPF_LSA_MAXAGE_DIFF_def)

lemma more_recent_swap:
  "ospf_lsa_more_recent now a b < 0 \<longleftrightarrow> 0 < ospf_lsa_more_recent now b a"
  by (cases a; cases b) (auto simp: ospf_lsa_more_recent_def Let_def OSPF_LSA_MAXAGE_DIFF_def)

text \<open>Which LSA is newer.  At any moment "is more recent" is a strict partial order on instances and no
  instance: it is antisymmetric and transitive, an instance is more recent than none, a greater
  sequence number (as a signed number) always wins, and two instances count as the same exactly
  when sequence number and checksum agree, both or neither have reached MaxAge, and their ages
  differ by at most MaxAgeDiff.\<close>

theorem ospf_lsa_more_recent_order:
  "(ospf_lsa_more_recent now a b < 0 \<longleftrightarrow> 0 < ospf_lsa_more_recent now b a)
   \<and> (0 < ospf_lsa_more_recent now a b \<and> 0 < ospf_lsa_more_recent now b c \<longrightarrow> 0 < ospf_lsa_more_recent now a c)
   \<and> 0 < ospf_lsa_more_recent now (Some x) None
   \<and> (sint (ls_seqnum (ldata y)) < sint (ls_seqnum (ldata x)) \<longrightarrow> 0 < ospf_lsa_more_recent now (Some x) (Some y))
   \<and> (ospf_lsa_more_recent now (Some x) (Some y) = 0 \<longleftrightarrow>
        ls_seqnum (ldata x) = ls_seqnum (ldata y) \<and> checksum (ldata x) = checksum (ldata y)
        \<and> (IS_LSA_MAXAGE now x \<longleftrightarrow> IS_LSA_MAXAGE now y) \<and> \<bar>LS_AGE now x - LS_AGE now y\<bar> \<le> OSPF_LSA_MAXAGE_DIFF)"
proof (intro conjI)
  show "ospf_lsa_more_recent now a b < 0 \<longleftrightarrow> 0 < ospf_lsa_more_recent now b a" by (rule more_recent_swap)
  show "0 < ospf_lsa_more_recent now a b \<and> 0 < ospf_lsa_more_recent now b c \<longrightarrow> 0 < ospf_lsa_more_recent now a c"
  proof (cases a; cases b; cases c)
    fix x y z assume "a = Some x" "b = Some y" "c = Some z"
    then show ?thesis unfolding more_recent_iff by (auto simp: more_recent_iff IS_LSA_MAXAGE_def LS_AGE_def)
  qed (auto simp: ospf_lsa_more_recent_def)
  show "0 < ospf_lsa_more_recent now (Some x) None" by (simp add: ospf_lsa_more_recent_def)
  show "sint (ls_seqnum (ldata y)) < sint (ls_seqnum (ldata x)) \<longrightarrow> 0 < ospf_lsa_more_recent now (Some x) (Some y)"
    by (simp add: more_recent_iff)
  show "ospf_lsa_more_recent now (Some x) (Some y) = 0 \<longleftrightarrow>
        ls_seqnum (ldata x) = ls_seqnum (ldata y) \<and> checksum (ldata x) = checksum (ldata y)
        \<and> (IS_LSA_MAXAGE now x \<longleftrightarrow> IS_LSA_MAXAGE now y) \<and> \<bar>LS_AGE now x - LS_AGE now y\<bar> \<le> OSPF_LSA_MAXAGE_DIFF"
  proof -
    have "sint a = sint b \<longleftrightarrow> a = b" for a b :: u32 by (auto intro: signed_word_eqI)
    then show ?thesis by (auto simp: ospf_lsa_more_recent_def Let_def simp flip: word_uint_eq_iff)
  qed
qed


definition ospf_lsa_demo :: "u32 \<Rightarrow> u16 \<Rightarrow> u8 list \<Rightarrow> ospf_lsa" where
  "ospf_lsa_demo seq len body = \<lparr>ldata = lsa_demo\<lparr>ls_seqnum := seq, ls_length := len\<rparr>, lbody = body, lself = False,
     ldiscard = False, tv_recv = \<lparr>tv_sec = 0, tv_usec = 0\<rparr>, tv_orig = \<lparr>tv_sec = 0, tv_usec = 0\<rparr>, llock = 1,
     retransmit_counter = 0, refresh_list = - 1\<rparr>"

theorem ospf_lsa_more_recent_order_witness:
  "0 < ospf_lsa_more_recent (int2tv 1) (Some (ospf_lsa_demo 2 24 [])) (Some (ospf_lsa_demo 1 24 []))
   \<and> ospf_lsa_more_recent (int2tv 1) (Some (ospf_lsa_demo 1 24 [])) (Some (ospf_lsa_demo 2 24 [])) < 0"
proof -
  have "sint (ls_seqnum (ldata (ospf_lsa_demo 1 24 []))) < sint (ls_seqnum (ldata (ospf_lsa_demo 2 24 [])))"
    by (simp add: ospf_lsa_demo_def)
  then show ?thesis
    using ospf_lsa_more_recent_order [of "int2tv 1" "Some (ospf_lsa_demo 1 24 [])" "Some (ospf_lsa_demo 2 24 [])" None
      "ospf_lsa_demo 2 24 []" "ospf_lsa_demo 1 24 []"] by blast
qed

text \<open>When routes must be recalculated.  For two instances whose bodies lie in memory and that have more than a
  header, \<open>ospf_lsa_different\<close> returns, and says that they differ exactly when options, MaxAge status,
  length or body differ.  Two instances of header length only with the same options and MaxAge
  status trip its assertion, although the update handler accepts such LSAs from the network.\<close>

theorem ospf_lsa_different_correct:
  "(20 < unat (ls_length (ldata a)) \<and> unat (ls_length (ldata a)) \<le> 20 + length (lbody a) \<and>
    unat (ls_length (ldata b)) \<le> 20 + length (lbody b) \<longrightarrow>
      ospf_lsa_different now a b = Some
        (options (ldata a) \<noteq> options (ldata b) \<or> IS_LSA_MAXAGE now a \<noteq> IS_LSA_MAXAGE now b
         \<or> ls_length (ldata a) \<noteq> ls_length (ldata b)
         \<or> take (unat (ls_length (ldata a)) - 20) (lbody a) \<noteq> take (unat (ls_length (ldata b)) - 20) (lbody b)))
   \<and> (ls_length (ldata a) = 20 \<and> ls_length (ldata b) = 20 \<and> options (ldata a) = options (ldata b)
      \<and> (IS_LSA_MAXAGE now a \<longleftrightarrow> IS_LSA_MAXAGE now b) \<longrightarrow> ospf_lsa_different now a b = None)"
  by (auto simp: ospf_lsa_different_def OSPF_LSA_HEADER_SIZE_def mem_get_def)

theorem ospf_lsa_different_correct_witness:
  "ospf_lsa_different (int2tv 1) (ospf_lsa_demo 1 24 [0, 0, 0, 1]) (ospf_lsa_demo 2 24 [0, 0, 0, 2]) = Some True
   \<and> ospf_lsa_different (int2tv 1) (ospf_lsa_demo 1 20 []) (ospf_lsa_demo 2 20 []) = None"
proof -
  have m: "IS_LSA_MAXAGE now (ospf_lsa_demo s l x) = IS_LSA_MAXAGE now (ospf_lsa_demo s' l' x')" for now s l x s' l' x'
    by (simp add: IS_LSA_MAXAGE_def LS_AGE_def get_age_def ospf_lsa_demo_def)
  show ?thesis
    using ospf_lsa_different_correct [of "ospf_lsa_demo 1 24 [0, 0, 0, 1]" "ospf_lsa_demo 2 24 [0, 0, 0, 2]" "int2tv 1"]
      ospf_lsa_different_correct [of "ospf_lsa_demo 1 20 []" "ospf_lsa_demo 2 20 []" "int2tv 1"]
      m [of "int2tv 1" 1 20 "[]" 2 20 "[]"]
    by (simp add: ospf_lsa_demo_def lsa_demo_def)
qed

end
