(* ===== verification/Ospf_Ism.thy ===== *)
theory Ospf_Ism
  imports Ospf_Lsa
begin

text \<open>
  The OSPF interface state machine, \<open>ospfd/ospf_ism.c\<close>: the election of the Designated Router and its
  backup, the timers, the state change and the transition table.  Addresses and router ids are 32-bit
  words in host order (the code compares their network order bytes, which is the same order).
  Neighbor structures live in a store and are referred to by address; the neighbor table lists them
  by source address.  What the code asks of other modules (LSA origination, multicast membership,
  scheduled events) is recorded in order in the field \<open>acts\<close>.
\<close>

section \<open>Definitions\<close>

subsection \<open>States and events\<close>

datatype ism_state =
  ISM_DependUpon | ISM_Down | ISM_Loopback | ISM_Waiting | ISM_PointToPoint | ISM_DROther | ISM_Backup | ISM_DR

datatype ism_event =
  ISM_NoEvent | ISM_InterfaceUp | ISM_WaitTimer | ISM_BackupSeen | ISM_NeighborChange
  | ISM_LoopInd | ISM_UnloopInd | ISM_InterfaceDown

datatype nsm_state =
  NSM_DependUpon | NSM_Down | NSM_Attempt | NSM_Init | NSM_TwoWay | NSM_ExStart | NSM_Exchange | NSM_Loading | NSM_Full

datatype nsm_event =
  NSM_NoEvent | NSM_HelloReceived | NSM_Start | NSM_TwoWayReceived | NSM_NegotiationDone | NSM_ExchangeDone
  | NSM_BadLSReq | NSM_LoadingDone | NSM_AdjOK | NSM_SeqNumberMismatch | NSM_OneWayReceived | NSM_KillNbr
  | NSM_InactivityTimer | NSM_LLDown

datatype iftype =
  OSPF_IFTYPE_NONE | OSPF_IFTYPE_POINTOPOINT | OSPF_IFTYPE_BROADCAST | OSPF_IFTYPE_NBMA
  | OSPF_IFTYPE_POINTOMULTIPOINT | OSPF_IFTYPE_VIRTUALLINK | OSPF_IFTYPE_LOOPBACK

text \<open>The values of the state macros, whose order the code uses.\<close>

fun ism_num :: "ism_state \<Rightarrow> nat" where
  "ism_num ISM_DependUpon = 0"
| "ism_num ISM_Down = 1"
| "ism_num ISM_Loopback = 2"
| "ism_num ISM_Waiting = 3"
| "ism_num ISM_PointToPoint = 4"
| "ism_num ISM_DROther = 5"
| "ism_num ISM_Backup = 6"
| "ism_num ISM_DR = 7"

fun nsm_num :: "nsm_state \<Rightarrow> nat" where
  "nsm_num NSM_DependUpon = 0"
| "nsm_num NSM_Down = 1"
| "nsm_num NSM_Attempt = 2"
| "nsm_num NSM_Init = 3"
| "nsm_num NSM_TwoWay = 4"
| "nsm_num NSM_ExStart = 5"
| "nsm_num NSM_Exchange = 6"
| "nsm_num NSM_Loading = 7"
| "nsm_num NSM_Full = 8"

lemma ism_num_inj: "ism_num a = ism_num b \<Longrightarrow> a = b"
  by (cases a; cases b) simp_all

lemma nsm_num_inj: "nsm_num a = nsm_num b \<Longrightarrow> a = b"
  by (cases a; cases b) simp_all

instantiation ism_state :: linorder
begin

definition less_eq_ism_state :: "ism_state \<Rightarrow> ism_state \<Rightarrow> bool" where
  "less_eq_ism_state a b \<longleftrightarrow> ism_num a \<le> ism_num b"

definition less_ism_state :: "ism_state \<Rightarrow> ism_state \<Rightarrow> bool" where
  "less_ism_state a b \<longleftrightarrow> ism_num a < ism_num b"

instance
  by standard (auto simp: less_eq_ism_state_def less_ism_state_def intro: ism_num_inj)

end

instantiation nsm_state :: linorder
begin

definition less_eq_nsm_state :: "nsm_state \<Rightarrow> nsm_state \<Rightarrow> bool" where
  "less_eq_nsm_state a b \<longleftrightarrow> nsm_num a \<le> nsm_num b"

definition less_nsm_state :: "nsm_state \<Rightarrow> nsm_state \<Rightarrow> bool" where
  "less_nsm_state a b \<longleftrightarrow> nsm_num a < nsm_num b"

instance
  by standard (auto simp: less_eq_nsm_state_def less_nsm_state_def intro: nsm_num_inj)

end

lemmas fsm_order_defs = less_eq_ism_state_def less_ism_state_def less_eq_nsm_state_def less_nsm_state_def

subsection \<open>Neighbors and interfaces\<close>

text \<open>The three LSA databases of a neighbor are the lists of their LSAs (the databases themselves are modelled
  in \<open>Ospf_Lsdb\<close>).\<close>

type_synonym lsa = ospf_lsa

record ospf_neighbor =
  nstate :: nsm_state
  dd_flags :: u8
  dd_seqnum :: u32
  naddress :: u32
  nsrc :: u32
  router_id :: u32
  noptions :: u8
  npriority :: int
  d_router :: u32
  bd_router :: u32
  ls_rxmt :: "lsa list"
  db_sum :: "lsa list"
  ls_req :: "lsa list"
  ncrypt_seqnum :: u32
  t_inactivity :: bool
  t_db_desc :: bool
  t_ls_req :: bool
  t_ls_upd :: bool
  t_hello_reply :: bool
  nstate_change :: u32

datatype ospf_action =
  CheckAbrStatus | ScheduleAbrTask | RouterLsaTimerAdd | VlRouterLsaTimerAdd | NetworkLsaTimerAdd | FlushNetworkLsa
  | AddAllDRouters | DropAllDRouters | NbmaIfUpdate | ExternalLsaRefresh | NsmSchedule nat nsm_event
  | DbDescSend nat | LsReqSend nat | EventsCancel nat

record ospf_area =
  act_ints :: u32
  area_full_nbrs :: u32
  external_default :: bool
  area_lsas :: "lsa list"
  ext_lsas :: "lsa list"

record ospf_interface =
  oi_state :: ism_state
  oi_state_change :: u32
  oi_type :: iftype
  oi_address :: u32
  my_router_id :: u32
  if_priority :: int
  nstore :: "nat \<Rightarrow> ospf_neighbor option"
  ntable :: "(u32 \<times> nat) list"
  nbr_self :: nat
  full_nbrs :: u32
  oi_area :: "ospf_area option"
  full_vls :: "u32 option"
  network_lsa_self :: bool
  t_network_lsa_self :: bool
  t_hello :: bool
  t_wait :: bool
  t_ls_ack :: bool
  oi_crypt_seqnum :: u32
  hello_in :: u32
  acts :: "ospf_action list"

definition act :: "ospf_action \<Rightarrow> ospf_interface \<Rightarrow> ospf_interface" where
  "act a oi = oi\<lparr>acts := acts oi @ [a]\<rparr>"

text \<open>\<open>DR (oi)\<close> and \<open>BDR (oi)\<close> are fields of the pseudo neighbor of the router itself.\<close>

definition DR :: "ospf_interface \<Rightarrow> u32 option" where
  "DR oi = map_option d_router (nstore oi (nbr_self oi))"

definition BDR :: "ospf_interface \<Rightarrow> u32 option" where
  "BDR oi = map_option bd_router (nstore oi (nbr_self oi))"

definition set_DR :: "u32 \<Rightarrow> ospf_interface \<Rightarrow> ospf_interface option" where
  "set_DR v oi = do {
     n \<leftarrow> nstore oi (nbr_self oi);
     Some (oi\<lparr>nstore := (nstore oi)(nbr_self oi \<mapsto> n\<lparr>d_router := v\<rparr>)\<rparr>)
   }"

definition set_BDR :: "u32 \<Rightarrow> ospf_interface \<Rightarrow> ospf_interface option" where
  "set_BDR v oi = do {
     n \<leftarrow> nstore oi (nbr_self oi);
     Some (oi\<lparr>nstore := (nstore oi)(nbr_self oi \<mapsto> n\<lparr>bd_router := v\<rparr>)\<rparr>)
   }"

definition NBR_IS_DR :: "ospf_neighbor \<Rightarrow> bool" where
  "NBR_IS_DR n \<longleftrightarrow> naddress n = d_router n"

definition NBR_IS_BDR :: "ospf_neighbor \<Rightarrow> bool" where
  "NBR_IS_BDR n \<longleftrightarrow> naddress n = bd_router n"

subsection \<open>Election\<close>

text \<open>The loop of \<open>ospf_dr_election_sub\<close> over a list of neighbor addresses.\<close>

fun election_loop :: "(nat \<Rightarrow> ospf_neighbor option) \<Rightarrow> ospf_neighbor option \<Rightarrow> nat list \<Rightarrow> ospf_neighbor option option" where
  "election_loop st mx [] = Some mx"
| "election_loop st mx (p # ps) = do {
     nbr \<leftarrow> st p;
     election_loop st
       (case mx of
          None \<Rightarrow> Some nbr
        | Some m \<Rightarrow>
            if npriority m < npriority nbr then Some nbr
            else if npriority m = npriority nbr \<and> router_id m < router_id nbr then Some nbr
            else Some m) ps
   }"

definition ospf_dr_election_sub :: "(nat \<Rightarrow> ospf_neighbor option) \<Rightarrow> nat list \<Rightarrow> ospf_neighbor option option" where
  "ospf_dr_election_sub st routers = election_loop st None routers"

text \<open>The loop of \<open>ospf_elect_dr\<close>: the neighbors that declare themselves DR, and the last one at the
  address of the BDR.\<close>

fun elect_dr_loop ::
  "(nat \<Rightarrow> ospf_neighbor option) \<Rightarrow> u32 \<Rightarrow> nat list \<Rightarrow> nat list \<Rightarrow> ospf_neighbor option
    \<Rightarrow> (nat list \<times> ospf_neighbor option) option" where
  "elect_dr_loop st bdr_addr [] dr_list bdr = Some (dr_list, bdr)"
| "elect_dr_loop st bdr_addr (p # ps) dr_list bdr = do {
     nbr \<leftarrow> st p;
     elect_dr_loop st bdr_addr ps (if NBR_IS_DR nbr then dr_list @ [p] else dr_list)
       (if naddress nbr = bdr_addr then Some nbr else bdr)
   }"

definition ospf_elect_dr :: "ospf_interface \<Rightarrow> nat list \<Rightarrow> (ospf_neighbor option \<times> ospf_interface) option" where
  "ospf_elect_dr oi el_list = do {
     b \<leftarrow> BDR oi;
     (dr_list, bdr) \<leftarrow> elect_dr_loop (nstore oi) b el_list [] None;
     dr \<leftarrow> (if dr_list \<noteq> [] then ospf_dr_election_sub (nstore oi) dr_list else Some bdr);
     oi \<leftarrow> set_DR (case dr of Some n \<Rightarrow> naddress n | None \<Rightarrow> 0) oi;
     Some (dr, oi)
   }"

fun elect_bdr_loop ::
  "(nat \<Rightarrow> ospf_neighbor option) \<Rightarrow> nat list \<Rightarrow> nat list \<Rightarrow> nat list \<Rightarrow> (nat list \<times> nat list) option" where
  "elect_bdr_loop st [] bdr_list no_dr_list = Some (bdr_list, no_dr_list)"
| "elect_bdr_loop st (p # ps) bdr_list no_dr_list = do {
     nbr \<leftarrow> st p;
     if NBR_IS_DR nbr then elect_bdr_loop st ps bdr_list no_dr_list
     else elect_bdr_loop st ps (if NBR_IS_BDR nbr then bdr_list @ [p] else bdr_list) (no_dr_list @ [p])
   }"

definition ospf_elect_bdr :: "ospf_interface \<Rightarrow> nat list \<Rightarrow> (ospf_neighbor option \<times> ospf_interface) option" where
  "ospf_elect_bdr oi el_list = do {
     (bdr_list, no_dr_list) \<leftarrow> elect_bdr_loop (nstore oi) el_list [] [];
     bdr \<leftarrow> (if bdr_list \<noteq> [] then ospf_dr_election_sub (nstore oi) bdr_list
            else ospf_dr_election_sub (nstore oi) no_dr_list);
     oi \<leftarrow> set_BDR (case bdr of Some n \<Rightarrow> naddress n | None \<Rightarrow> 0) oi;
     Some (bdr, oi)
   }"

definition ospf_ism_state :: "ospf_interface \<Rightarrow> ism_state option" where
  "ospf_ism_state oi = do {
     d \<leftarrow> DR oi;
     b \<leftarrow> BDR oi;
     Some (if d = oi_address oi then ISM_DR else if b = oi_address oi then ISM_Backup else ISM_DROther)
   }"

fun eligible_loop :: "(nat \<Rightarrow> ospf_neighbor option) \<Rightarrow> nat list \<Rightarrow> nat list option" where
  "eligible_loop st [] = Some []"
| "eligible_loop st (p # ps) = do {
     nbr \<leftarrow> st p;
     el \<leftarrow> eligible_loop st ps;
     Some (if router_id nbr \<noteq> 0 \<and> npriority nbr \<noteq> 0 \<and> nstate nbr \<ge> NSM_TwoWay then p # el else el)
   }"

definition ospf_dr_eligible_routers :: "ospf_interface \<Rightarrow> nat list option" where
  "ospf_dr_eligible_routers oi = eligible_loop (nstore oi) (map snd (ntable oi))"

fun dr_change_loop :: "u32 \<Rightarrow> nat list \<Rightarrow> ospf_interface \<Rightarrow> ospf_interface option" where
  "dr_change_loop me [] oi = Some oi"
| "dr_change_loop me (p # ps) oi = do {
     nbr \<leftarrow> nstore oi p;
     dr_change_loop me ps
       (if router_id nbr \<noteq> 0 \<and> nstate nbr \<ge> NSM_TwoWay \<and> router_id nbr \<noteq> me
        then act (NsmSchedule p NSM_AdjOK) oi else oi)
   }"

definition ospf_dr_change :: "ospf_interface \<Rightarrow> ospf_interface option" where
  "ospf_dr_change oi = dr_change_loop (my_router_id oi) (map snd (ntable oi)) oi"

text \<open>Joining and leaving the AllDRouters group at the end of the election.\<close>

definition multicast_change :: "ism_state \<Rightarrow> ism_state \<Rightarrow> ospf_interface \<Rightarrow> ospf_interface" where
  "multicast_change old_state new_state oi =
     (if oi_type oi = OSPF_IFTYPE_BROADCAST \<or> oi_type oi = OSPF_IFTYPE_POINTOPOINT
      then (if (old_state \<noteq> ISM_DR \<and> old_state \<noteq> ISM_Backup) \<and> (new_state = ISM_DR \<or> new_state = ISM_Backup)
            then act AddAllDRouters oi
            else if (old_state = ISM_DR \<or> old_state = ISM_Backup) \<and> (new_state \<noteq> ISM_DR \<and> new_state \<noteq> ISM_Backup)
            then act DropAllDRouters oi
            else oi)
      else oi)"

definition ospf_dr_election :: "ospf_interface \<Rightarrow> (ism_state \<times> ospf_interface) option" where
  "ospf_dr_election oi = do {
     old_dr \<leftarrow> DR oi;
     old_bdr \<leftarrow> BDR oi;
     let old_state = oi_state oi;
     el_list \<leftarrow> ospf_dr_eligible_routers oi;
     (_, oi) \<leftarrow> ospf_elect_bdr oi el_list;
     (_, oi) \<leftarrow> ospf_elect_dr oi el_list;
     new_state \<leftarrow> ospf_ism_state oi;
     (new_state, oi) \<leftarrow>
       (if new_state \<noteq> old_state \<and> \<not> (new_state = ISM_DROther \<and> old_state < ISM_DROther)
        then do {
          (_, oi) \<leftarrow> ospf_elect_bdr oi el_list;
          (_, oi) \<leftarrow> ospf_elect_dr oi el_list;
          new_state \<leftarrow> ospf_ism_state oi;
          Some (new_state, oi)
        }
        else Some (new_state, oi));
     d \<leftarrow> DR oi;
     b \<leftarrow> BDR oi;
     oi \<leftarrow> (if old_dr \<noteq> d \<or> old_bdr \<noteq> b then ospf_dr_change oi else Some oi);
     Some (new_state, multicast_change old_state new_state oi)
   }"

subsection \<open>Timers, handlers and the transition table\<close>

definition ism_timer_set :: "ospf_interface \<Rightarrow> ospf_interface" where
  "ism_timer_set oi =
     (case oi_state oi of
        ISM_Down \<Rightarrow> oi\<lparr>t_hello := False, t_wait := False, t_ls_ack := False\<rparr>
      | ISM_Loopback \<Rightarrow> oi\<lparr>t_hello := False, t_wait := False, t_ls_ack := False\<rparr>
      | ISM_Waiting \<Rightarrow> oi\<lparr>t_hello := True, t_wait := True, t_ls_ack := False\<rparr>
      | ISM_PointToPoint \<Rightarrow> oi\<lparr>t_hello := True, t_wait := False, t_ls_ack := True\<rparr>
      | ISM_DROther \<Rightarrow> oi\<lparr>t_hello := True, t_wait := False, t_ls_ack := True\<rparr>
      | ISM_Backup \<Rightarrow> oi\<lparr>t_hello := True, t_wait := False, t_ls_ack := True\<rparr>
      | ISM_DR \<Rightarrow> oi\<lparr>t_hello := True, t_wait := False, t_ls_ack := True\<rparr>
      | ISM_DependUpon \<Rightarrow> oi)"

text \<open>A handler returns the next state, \<open>ISM_DependUpon\<close> being 0.\<close>

definition ism_interface_up :: "ospf_interface \<Rightarrow> (ism_state \<times> ospf_interface) option" where
  "ism_interface_up oi = do {
     me \<leftarrow> nstore oi (nbr_self oi);
     let next_state =
       (if oi_type oi = OSPF_IFTYPE_POINTOPOINT \<or> oi_type oi = OSPF_IFTYPE_POINTOMULTIPOINT
           \<or> oi_type oi = OSPF_IFTYPE_VIRTUALLINK
        then ISM_PointToPoint
        else if npriority me = 0 then ISM_DROther
        else ISM_Waiting);
     Some (next_state, if oi_type oi = OSPF_IFTYPE_NBMA then act NbmaIfUpdate oi else oi)
   }"

definition ism_backup_seen :: "ospf_interface \<Rightarrow> (ism_state \<times> ospf_interface) option" where
  "ism_backup_seen oi = ospf_dr_election oi"

definition ism_wait_timer :: "ospf_interface \<Rightarrow> (ism_state \<times> ospf_interface) option" where
  "ism_wait_timer oi = ospf_dr_election oi"

definition ism_neighbor_change :: "ospf_interface \<Rightarrow> (ism_state \<times> ospf_interface) option" where
  "ism_neighbor_change oi = ospf_dr_election oi"

definition ism_ignore :: "ospf_interface \<Rightarrow> (ism_state \<times> ospf_interface) option" where
  "ism_ignore oi = Some (ISM_DependUpon, oi)"

definition ism_loop_ind :: "ospf_interface \<Rightarrow> (ism_state \<times> ospf_interface) option" where
  "ism_loop_ind oi = Some (ISM_DependUpon, oi)"

datatype ism_func =
  F_ignore | F_interface_up | F_wait_timer | F_backup_seen | F_neighbor_change | F_loop_ind | F_interface_down

text \<open>The rows of the table \<open>ISM\<close>.\<close>

fun ISM :: "ism_state \<Rightarrow> ism_event \<Rightarrow> ism_func \<times> ism_state" where
  "ISM ISM_DependUpon e = (F_ignore, ISM_DependUpon)"
| "ISM s ISM_NoEvent = (F_ignore, ISM_DependUpon)"
| "ISM s ISM_InterfaceDown = (F_interface_down, ISM_Down)"
| "ISM ISM_Down ISM_InterfaceUp = (F_interface_up, ISM_DependUpon)"
| "ISM ISM_Down ISM_LoopInd = (F_loop_ind, ISM_Loopback)"
| "ISM ISM_Down e = (F_ignore, ISM_Down)"
| "ISM ISM_Loopback ISM_UnloopInd = (F_ignore, ISM_Down)"
| "ISM ISM_Loopback e = (F_ignore, ISM_Loopback)"
| "ISM s ISM_LoopInd = (F_loop_ind, ISM_Loopback)"
| "ISM ISM_Waiting ISM_WaitTimer = (F_wait_timer, ISM_DependUpon)"
| "ISM ISM_Waiting ISM_BackupSeen = (F_backup_seen, ISM_DependUpon)"
| "ISM ISM_Waiting e = (F_ignore, ISM_Waiting)"
| "ISM ISM_PointToPoint e = (F_ignore, ISM_PointToPoint)"
| "ISM s ISM_NeighborChange = (F_neighbor_change, ISM_DependUpon)"
| "ISM s e = (F_ignore, s)"

definition ism_change_state :: "ospf_interface \<Rightarrow> ism_state \<Rightarrow> ospf_interface" where
  "ism_change_state oi state =
     (let old_state = oi_state oi;
          oi = oi\<lparr>oi_state := state, oi_state_change := oi_state_change oi + 1\<rparr>;
          oi = (if old_state = ISM_Down \<or> state = ISM_Down then act CheckAbrStatus oi else oi);
          oi = (case oi_area oi of
                  None \<Rightarrow> oi
                | Some area \<Rightarrow>
                    act RouterLsaTimerAdd
                      (oi\<lparr>oi_area := Some
                         (if state = ISM_Down
                          then (if act_ints area > 0 then area\<lparr>act_ints := act_ints area - 1\<rparr> else area)
                          else if old_state = ISM_Down then area\<lparr>act_ints := act_ints area + 1\<rparr>
                          else area)\<rparr>));
          oi = (if old_state \<noteq> ISM_DR \<and> state = ISM_DR then act NetworkLsaTimerAdd oi
                else if old_state = ISM_DR \<and> state \<noteq> ISM_DR
                then (if network_lsa_self oi then act FlushNetworkLsa (oi\<lparr>t_network_lsa_self := False\<rparr>) else oi)
                       \<lparr>network_lsa_self := False\<rparr>
                else oi)
      in act CheckAbrStatus oi)"


section \<open>The winner of an election\<close>

definition outranks :: "ospf_neighbor \<Rightarrow> ospf_neighbor \<Rightarrow> bool" where
  "outranks n m \<longleftrightarrow> npriority m < npriority n \<or> npriority m = npriority n \<and> router_id m < router_id n"

text \<open>The first of the neighbors that none outranks.\<close>

fun winner :: "ospf_neighbor list \<Rightarrow> ospf_neighbor option" where
  "winner [] = None"
| "winner (n # ns) = Some (foldl (\<lambda>m n. if outranks n m then n else m) n ns)"

definition vals :: "(nat \<Rightarrow> ospf_neighbor option) \<Rightarrow> nat list \<Rightarrow> ospf_neighbor list" where
  "vals st ps = map (\<lambda>p. the (st p)) ps"

definition live :: "(nat \<Rightarrow> ospf_neighbor option) \<Rightarrow> nat list \<Rightarrow> bool" where
  "live st ps \<longleftrightarrow> (\<forall>p\<in>set ps. st p \<noteq> None)"

lemma vals_simps [simp]: "vals st [] = []" "vals st (p # ps) = the (st p) # vals st ps"
  "vals st (ps @ qs) = vals st ps @ vals st qs"
  by (simp_all add: vals_def)

lemma live_simps [simp]: "live st []" "live st (p # ps) \<longleftrightarrow> st p \<noteq> None \<and> live st ps"
  "live st (ps @ qs) \<longleftrightarrow> live st ps \<and> live st qs"
  by (auto simp: live_def)

lemma outranks_trans: "outranks a b \<Longrightarrow> outranks b c \<Longrightarrow> outranks a c"
  by (auto simp: outranks_def)

lemma election_loop_eq:
  "live st ps \<Longrightarrow> election_loop st (Some m) ps = Some (Some (foldl (\<lambda>m n. if outranks n m then n else m) m (vals st ps)))"
proof (induction ps arbitrary: m)
  case (Cons p ps)
  then obtain n where "st p = Some n" "live st ps" by auto
  then show ?case using Cons.IH by (auto simp: outranks_def)
qed simp

lemma election_sub_winner: "live st ps \<Longrightarrow> ospf_dr_election_sub st ps = Some (winner (vals st ps))"
  by (cases ps) (auto simp: ospf_dr_election_sub_def election_loop_eq)

lemma winner_snoc: "winner (ns @ [n]) = (case winner ns of None \<Rightarrow> Some n | Some m \<Rightarrow> Some (if outranks n m then n else m))"
  by (cases ns) auto

text \<open>The winner outranks everybody before it in the list, and nobody outranks it.\<close>

lemma winner_iff:
  "winner ns = Some w \<longleftrightarrow>
   (\<exists>xs ys. ns = xs @ w # ys \<and> (\<forall>x\<in>set xs. outranks w x) \<and> (\<forall>y\<in>set ys. \<not> outranks y w))"
proof
  show "winner ns = Some w \<Longrightarrow> \<exists>xs ys. ns = xs @ w # ys \<and> (\<forall>x\<in>set xs. outranks w x) \<and> (\<forall>y\<in>set ys. \<not> outranks y w)"
  proof (induction ns arbitrary: w rule: rev_induct)
    case (snoc n ns)
    show ?case
    proof (cases "winner ns")
      case None
      then have "ns = []" by (cases ns) auto
      then show ?thesis using snoc.prems by (intro exI [of _ "[]"]) simp
    next
      case (Some m)
      from snoc.IH [OF this] obtain xs ys where m: "ns = xs @ m # ys" "\<forall>x\<in>set xs. outranks m x" "\<forall>y\<in>set ys. \<not> outranks y m"
        by blast
      show ?thesis
      proof (cases "outranks n m")
        case True
        then have "w = n" using snoc.prems Some by (simp add: winner_snoc)
        moreover have "outranks n x" if "x \<in> set ns" for x
          using that m True outranks_trans [of n m x] by (auto simp: outranks_def)
        ultimately show ?thesis by (intro exI [of _ ns] exI [of _ "[]"]) simp
      next
        case False
        then have "w = m" using snoc.prems Some by (simp add: winner_snoc)
        then show ?thesis using m False by (intro exI [of _ xs] exI [of _ "ys @ [n]"]) auto
      qed
    qed
  qed simp
next
  assume "\<exists>xs ys. ns = xs @ w # ys \<and> (\<forall>x\<in>set xs. outranks w x) \<and> (\<forall>y\<in>set ys. \<not> outranks y w)"
  then obtain xs ys where w: "ns = xs @ w # ys" "\<forall>x\<in>set xs. outranks w x" "\<forall>y\<in>set ys. \<not> outranks y w" by blast
  have "winner (xs @ w # ys') = Some w" if "set ys' \<subseteq> set ys" for ys'
    using that
  proof (induction ys' rule: rev_induct)
    case Nil
    have "winner xs = None \<or> (\<exists>m\<in>set xs. winner xs = Some m)"
    proof (induction xs rule: rev_induct)
      case (snoc x xs)
      then show ?case by (auto simp: winner_snoc)
    qed simp
    then show ?case using w(2) by (auto simp: winner_snoc)
  next
    case (snoc y ys')
    then have "\<not> outranks y w" using w(3) by auto
    then show ?case using snoc winner_snoc [of "xs @ w # ys'" y] by simp
  qed
  then show "winner ns = Some w" using w(1) by simp
qed

lemma winner_None: "winner ns = None \<longleftrightarrow> ns = []"
  by (cases ns) auto

lemma winner_in: "winner ns = Some w \<Longrightarrow> w \<in> set ns"
  by (auto simp: winner_iff)

lemma outranks_asym: "outranks a b \<Longrightarrow> \<not> outranks b a"
  by (auto simp: outranks_def)

lemma winner_max: "winner ns = Some w \<Longrightarrow> n \<in> set ns \<Longrightarrow> \<not> outranks n w"
proof -
  assume "winner ns = Some w" and n: "n \<in> set ns"
  then obtain xs ys where w: "ns = xs @ w # ys" "\<forall>x\<in>set xs. outranks w x" "\<forall>y\<in>set ys. \<not> outranks y w"
    unfolding winner_iff by (elim exE conjE) (rule that)
  from n consider "n \<in> set xs" | "n = w" | "n \<in> set ys" using w(1) by auto
  then show "\<not> outranks n w"
    using w(2,3) outranks_asym [of w n] outranks_asym [of w w] by cases auto
qed

lemma winner_filter:
  assumes "winner ns = Some w" "P w"
  shows "winner (filter P ns) = Some w"
proof -
  from assms(1) obtain xs ys where
    "ns = xs @ w # ys" "\<forall>x\<in>set xs. outranks w x" "\<forall>y\<in>set ys. \<not> outranks y w"
    unfolding winner_iff by (elim exE conjE) (rule that)
  then show ?thesis
    using assms(2) unfolding winner_iff by (intro exI [of _ "filter P xs"] exI [of _ "filter P ys"] conjI) auto
qed

lemma winner_map:
  assumes "\<And>n. npriority (f n) = npriority n \<and> router_id (f n) = router_id n"
  shows "winner (map f ns) = map_option f (winner ns)"
proof -
  have o: "outranks (f n) (f m) = outranks n m" for n m using assms by (simp add: outranks_def)
  show ?thesis by (induction ns rule: rev_induct) (simp_all add: winner_snoc o split: option.splits)
qed

definition ospf_nbr_demo :: "u32 \<Rightarrow> int \<Rightarrow> ospf_neighbor" where
  "ospf_nbr_demo a prio = \<lparr>nstate = NSM_TwoWay, dd_flags = 7, dd_seqnum = 0, naddress = a, nsrc = a, router_id = a,
     noptions = 2, npriority = prio, d_router = 0, bd_router = 0, ls_rxmt = [], db_sum = [], ls_req = [], ncrypt_seqnum = 0,
     t_inactivity = True, t_db_desc = False, t_ls_req = False, t_ls_upd = False, t_hello_reply = False,
     nstate_change = 0\<rparr>"

text \<open>The elected router.  \<open>ospf_dr_election_sub\<close> returns a router of the list that none outranks, where
  routers are ranked by priority and, for equal priority, by router id.  When no two routers of the
  list have the same router id, the result does not depend on the order of the list.\<close>

theorem ospf_dr_election_sub_correct:
  assumes "live st ps" "ps \<noteq> []"
  shows "\<exists>w. ospf_dr_election_sub st ps = Some (Some w) \<and> w \<in> set (vals st ps)
    \<and> (\<forall>n\<in>set (vals st ps). \<not> outranks n w)
    \<and> (\<forall>qs. set qs = set ps \<longrightarrow> inj_on router_id (set (vals st ps)) \<longrightarrow>
         ospf_dr_election_sub st qs = Some (Some w))"
proof -
  obtain w where w: "winner (vals st ps) = Some w"
    using assms(2) winner_None [of "vals st ps"] by (cases "winner (vals st ps)") (auto simp: vals_def)
  have "ospf_dr_election_sub st qs = Some (Some w)" if q: "set qs = set ps" "inj_on router_id (set (vals st ps))" for qs
  proof -
    have l: "live st qs" using assms(1) q(1) by (simp add: live_def)
    have s: "set (vals st qs) = set (vals st ps)" using q(1) by (simp add: vals_def)
    then obtain v where v: "winner (vals st qs) = Some v"
      using winner_in [OF w] winner_None [of "vals st qs"] by (cases "winner (vals st qs)") auto
    have "\<not> outranks v w" "\<not> outranks w v"
      using winner_max [OF w, of v] winner_max [OF v, of w] winner_in [OF w] winner_in [OF v] s by auto
    then have "router_id v = router_id w" by (auto simp: outranks_def)
    then have "v = w" using q(2) winner_in [OF w] winner_in [OF v] s by (auto dest: inj_onD)
    then show ?thesis using election_sub_winner [OF l] v by simp
  qed
  then show ?thesis using election_sub_winner [OF assms(1)] w winner_in [OF w] winner_max [OF w] by auto
qed


theorem ospf_dr_election_sub_correct_witness:
  "\<exists>w. ospf_dr_election_sub [1 \<mapsto> ospf_nbr_demo 10 1, 2 \<mapsto> ospf_nbr_demo 20 1] [1, 2] = Some (Some w) \<and> router_id w = 20"
proof -
  let ?st = "[1 \<mapsto> ospf_nbr_demo 10 1, 2 \<mapsto> ospf_nbr_demo 20 1]"
  have "live ?st [1, 2]" by simp
  from ospf_dr_election_sub_correct [OF this] obtain w where
    "ospf_dr_election_sub ?st [1, 2] = Some (Some w)" "w \<in> set (vals ?st [1, 2])" "\<forall>n\<in>set (vals ?st [1, 2]). \<not> outranks n w"
    by auto
  then show ?thesis by (auto simp: outranks_def ospf_nbr_demo_def)
qed

section \<open>One round of the election\<close>

definition bdr_of :: "ospf_neighbor list \<Rightarrow> ospf_neighbor option" where
  "bdr_of ns = (let c = filter (\<lambda>n. \<not> NBR_IS_DR n) ns; b = filter NBR_IS_BDR c in if b \<noteq> [] then winner b else winner c)"

definition dr_of :: "u32 \<Rightarrow> ospf_neighbor list \<Rightarrow> ospf_neighbor option" where
  "dr_of bdr ns =
     (let d = filter NBR_IS_DR ns; b = filter (\<lambda>n. naddress n = bdr) ns in
      if d \<noteq> [] then winner d else if b \<noteq> [] then Some (last b) else None)"

definition addr_of :: "ospf_neighbor option \<Rightarrow> u32" where
  "addr_of n = (case n of None \<Rightarrow> 0 | Some n \<Rightarrow> naddress n)"

lemma elect_dr_loop_eq:
  "live st ps \<Longrightarrow> live st dl \<Longrightarrow> \<exists>dl'. elect_dr_loop st b ps dl bdr =
     Some (dl', let bs = filter (\<lambda>n. naddress n = b) (vals st ps) in if bs \<noteq> [] then Some (last bs) else bdr)
   \<and> live st dl' \<and> vals st dl' = vals st dl @ filter NBR_IS_DR (vals st ps)"
proof (induction ps arbitrary: dl bdr)
  case (Cons p ps)
  then obtain n where n: "st p = Some n" "live st ps" by auto
  let ?dl = "if NBR_IS_DR n then dl @ [p] else dl"
  have "live st ?dl" using Cons.prems n by auto
  from Cons.IH [OF n(2) this, of "if naddress n = b then Some n else bdr"] obtain dl' where
    "elect_dr_loop st b ps ?dl (if naddress n = b then Some n else bdr) =
       Some (dl', let bs = filter (\<lambda>n. naddress n = b) (vals st ps) in
         if bs \<noteq> [] then Some (last bs) else if naddress n = b then Some n else bdr)"
    "live st dl'" "vals st dl' = vals st ?dl @ filter NBR_IS_DR (vals st ps)" by blast
  then show ?case using n(1) by (intro exI [of _ dl']) (simp add: Let_def)
qed simp

lemma elect_bdr_loop_eq:
  "live st ps \<Longrightarrow> live st bl \<Longrightarrow> live st nl \<Longrightarrow> \<exists>bl' nl'. elect_bdr_loop st ps bl nl = Some (bl', nl')
   \<and> live st bl' \<and> live st nl'
   \<and> vals st nl' = vals st nl @ filter (\<lambda>n. \<not> NBR_IS_DR n) (vals st ps)
   \<and> vals st bl' = vals st bl @ filter NBR_IS_BDR (filter (\<lambda>n. \<not> NBR_IS_DR n) (vals st ps))"
proof (induction ps arbitrary: bl nl)
  case (Cons p ps)
  then obtain n where n: "st p = Some n" "live st ps" by auto
  show ?case
  proof (cases "NBR_IS_DR n")
    case True
    then show ?thesis using Cons.IH [OF n(2) Cons.prems(2,3)] n by simp
  next
    case False
    have "live st (if NBR_IS_BDR n then bl @ [p] else bl)" "live st (nl @ [p])" using Cons.prems n by auto
    from Cons.IH [OF n(2) this] show ?thesis using False n by (auto split: if_splits)
  qed
qed simp

definition set_self :: "u32 \<Rightarrow> u32 \<Rightarrow> ospf_interface \<Rightarrow> ospf_interface" where
  "set_self d b oi =
     oi\<lparr>nstore := (nstore oi)(nbr_self oi := map_option (\<lambda>n. n\<lparr>d_router := d, bd_router := b\<rparr>) (nstore oi (nbr_self oi)))\<rparr>"

lemma elect_bdr_eq:
  assumes "live (nstore oi) el" "DR oi = Some d"
  shows "ospf_elect_bdr oi el = Some (bdr_of (vals (nstore oi) el), set_self d (addr_of (bdr_of (vals (nstore oi) el))) oi)"
proof -
  from elect_bdr_loop_eq [OF assms(1), of "[]" "[]"] obtain bl nl where l: "elect_bdr_loop (nstore oi) el [] [] = Some (bl, nl)"
    "live (nstore oi) bl" "live (nstore oi) nl"
    "vals (nstore oi) nl = filter (\<lambda>n. \<not> NBR_IS_DR n) (vals (nstore oi) el)"
    "vals (nstore oi) bl = filter NBR_IS_BDR (filter (\<lambda>n. \<not> NBR_IS_DR n) (vals (nstore oi) el))" by auto
  have "bl \<noteq> [] \<longleftrightarrow> vals (nstore oi) bl \<noteq> []" by (simp add: vals_def)
  then have w: "(if bl \<noteq> [] then ospf_dr_election_sub (nstore oi) bl else ospf_dr_election_sub (nstore oi) nl)
    = Some (bdr_of (vals (nstore oi) el))"
    using election_sub_winner [OF l(2)] election_sub_winner [OF l(3)] l(4,5) by (simp add: bdr_of_def Let_def)
  obtain me where me: "nstore oi (nbr_self oi) = Some me" "d_router me = d" using assms(2) by (auto simp: DR_def)
  have "set_BDR v oi = Some (set_self d v oi)" for v using me by (auto simp: set_BDR_def set_self_def)
  then show ?thesis using w l(1) by (simp add: ospf_elect_bdr_def addr_of_def)
qed

lemma elect_dr_eq:
  assumes "live (nstore oi) el" "BDR oi = Some b"
  shows "ospf_elect_dr oi el = Some (dr_of b (vals (nstore oi) el), set_self (addr_of (dr_of b (vals (nstore oi) el))) b oi)"
proof -
  from elect_dr_loop_eq [OF assms(1), of "[]" b None] obtain dl where l:
    "elect_dr_loop (nstore oi) b el [] None =
      Some (dl, let bs = filter (\<lambda>n. naddress n = b) (vals (nstore oi) el) in if bs \<noteq> [] then Some (last bs) else None)"
    "live (nstore oi) dl" "vals (nstore oi) dl = filter NBR_IS_DR (vals (nstore oi) el)" by auto
  have "dl \<noteq> [] \<longleftrightarrow> vals (nstore oi) dl \<noteq> []" by (simp add: vals_def)
  then have w: "(if dl \<noteq> [] then ospf_dr_election_sub (nstore oi) dl
      else Some (let bs = filter (\<lambda>n. naddress n = b) (vals (nstore oi) el) in if bs \<noteq> [] then Some (last bs) else None))
    = Some (dr_of b (vals (nstore oi) el))"
    using election_sub_winner [OF l(2)] l(3) by (simp add: dr_of_def Let_def)
  obtain me where me: "nstore oi (nbr_self oi) = Some me" "bd_router me = b" using assms(2) by (auto simp: BDR_def)
  have "set_DR v oi = Some (set_self v b oi)" for v using me by (auto simp: set_DR_def set_self_def)
  then show ?thesis using w l(1) assms(2) by (simp add: ospf_elect_dr_def addr_of_def)
qed


section \<open>The router is never both Designated Router and Backup\<close>

text \<open>The dr_candidates \<open>ns\<close> when the one at address \<open>a\<close>, the router itself, declares \<open>d\<close> and \<open>b\<close>.\<close>

definition declare_one :: "u32 \<Rightarrow> u32 \<Rightarrow> u32 \<Rightarrow> ospf_neighbor \<Rightarrow> ospf_neighbor" where
  "declare_one a d b n = (if naddress n = a then n\<lparr>d_router := d, bd_router := b\<rparr> else n)"

definition declare_self :: "u32 \<Rightarrow> u32 \<Rightarrow> u32 \<Rightarrow> ospf_neighbor list \<Rightarrow> ospf_neighbor list" where
  "declare_self a d b ns = map (declare_one a d b) ns"

lemma declare_one_simps [simp]:
  "naddress (declare_one a d b n) = naddress n" "npriority (declare_one a d b n) = npriority n"
  "router_id (declare_one a d b n) = router_id n"
  "naddress n = a \<Longrightarrow> d_router (declare_one a d b n) = d" "naddress n = a \<Longrightarrow> bd_router (declare_one a d b n) = b"
  "naddress n \<noteq> a \<Longrightarrow> declare_one a d b n = n"
  by (simp_all add: declare_one_def)

text \<open>One round: the backup is elected first, then the Designated Router.\<close>

definition elect_round :: "u32 \<Rightarrow> ospf_neighbor list \<Rightarrow> u32 \<times> u32 \<Rightarrow> u32 \<times> u32" where
  "elect_round a ns db =
     (case db of (d, b) \<Rightarrow>
        let b' = addr_of (bdr_of (declare_self a d b ns));
            d' = addr_of (dr_of b' (declare_self a d b' ns))
        in (d', b'))"

definition other_dr :: "u32 \<Rightarrow> ospf_neighbor list \<Rightarrow> bool" where
  "other_dr a ns \<longleftrightarrow> (\<exists>n\<in>set ns. naddress n \<noteq> a \<and> NBR_IS_DR n)"

lemma declare_self_mem:
  "n \<in> set (declare_self a d b ns) \<Longrightarrow> naddress n = a \<Longrightarrow> d_router n = d \<and> bd_router n = b"
  "n \<in> set (declare_self a d b ns) \<Longrightarrow> naddress n \<noteq> a \<Longrightarrow> n \<in> set ns"
  "m \<in> set ns \<Longrightarrow> naddress m \<noteq> a \<Longrightarrow> m \<in> set (declare_self a d b ns)"
  "(\<exists>n\<in>set (declare_self a d b ns). naddress n = a) \<longleftrightarrow> (\<exists>n\<in>set ns. naddress n = a)"
proof -
  show "d_router n = d \<and> bd_router n = b" if n: "n \<in> set (declare_self a d b ns)" "naddress n = a"
  proof -
    obtain x where x: "n = declare_one a d b x" using n(1) by (auto simp: declare_self_def)
    then have "naddress x = a" using n(2) by simp
    then show ?thesis by (simp add: x)
  qed
  show "n \<in> set (declare_self a d b ns) \<Longrightarrow> naddress n \<noteq> a \<Longrightarrow> n \<in> set ns"
    by (auto simp: declare_self_def)
  show "m \<in> set (declare_self a d b ns)" if "m \<in> set ns" "naddress m \<noteq> a"
    using imageI [OF that(1), of "declare_one a d b"] that(2) by (simp add: declare_self_def)
qed (simp add: declare_self_def)

lemma bdr_of_mem: "bdr_of ns = Some n \<Longrightarrow> n \<in> set ns \<and> \<not> NBR_IS_DR n"
  by (auto simp: bdr_of_def Let_def split: if_splits dest: winner_in)

lemma dr_of_mem:
  assumes "dr_of b ns = Some n"
  shows "n \<in> set ns" "NBR_IS_DR n \<or> (\<forall>m\<in>set ns. \<not> NBR_IS_DR m) \<and> naddress n = b"
proof -
  let ?b = "filter (\<lambda>n. naddress n = b) ns"
  have "n \<in> set ns \<and> (NBR_IS_DR n \<or> (\<forall>m\<in>set ns. \<not> NBR_IS_DR m) \<and> naddress n = b)"
  proof (cases "filter NBR_IS_DR ns = []")
    case True
    then have "?b \<noteq> []" "n = last ?b" using assms by (auto simp: dr_of_def Let_def split: if_splits)
    then have "n \<in> set ?b" using last_in_set [of ?b] by simp
    then show ?thesis using True by (auto simp: filter_empty_conv)
  next
    case False
    then have "winner (filter NBR_IS_DR ns) = Some n" using assms by (simp add: dr_of_def)
    then show ?thesis using winner_in by fastforce
  qed
  then show "n \<in> set ns" "NBR_IS_DR n \<or> (\<forall>m\<in>set ns. \<not> NBR_IS_DR m) \<and> naddress n = b" by auto
qed

text \<open>Who is elected backup is a candidate and did not declare itself Designated Router.\<close>

lemma round_bdr_self:
  assumes "a \<noteq> 0" "elect_round a ns (d, b) = (d', a)"
  shows "d \<noteq> a" "\<exists>n\<in>set ns. naddress n = a"
proof -
  have "addr_of (bdr_of (declare_self a d b ns)) = a" using assms(2) by (simp add: elect_round_def Let_def)
  then obtain n where n: "bdr_of (declare_self a d b ns) = Some n" "naddress n = a"
    using assms(1) by (auto simp: addr_of_def split: option.splits)
  then have "n \<in> set (declare_self a d b ns)" "\<not> NBR_IS_DR n" using bdr_of_mem [OF n(1)] by auto
  then show "d \<noteq> a" "\<exists>n\<in>set ns. naddress n = a"
    using declare_self_mem(1) [of n a d b ns] declare_self_mem(4) [of a d b ns] n(2) by (auto simp: NBR_IS_DR_def)
qed

lemma round_dr_self:
  assumes "a \<noteq> 0" "elect_round a ns (d, b) = (a, b')" "d \<noteq> a"
  shows "b' = a" "\<not> other_dr a ns"
proof -
  have "addr_of (dr_of b' (declare_self a d b' ns)) = a" using assms(2) by (auto simp: elect_round_def Let_def)
  then obtain n where n: "dr_of b' (declare_self a d b' ns) = Some n" "naddress n = a"
    using assms(1) by (auto simp: addr_of_def split: option.splits)
  have "d_router n = d" using declare_self_mem(1) [OF dr_of_mem(1) [OF n(1)] n(2)] by simp
  then have "\<not> NBR_IS_DR n" using n(2) assms(3) by (simp add: NBR_IS_DR_def)
  then have "\<forall>m\<in>set (declare_self a d b' ns). \<not> NBR_IS_DR m" "naddress n = b'" using dr_of_mem(2) [OF n(1)] by auto
  then show "b' = a" "\<not> other_dr a ns" using n(2) declare_self_mem(3) by (auto simp: other_dr_def)
qed

text \<open>If no other router declares itself Designated Router, the router itself wins when it declared itself, and
  otherwise the elected backup is Designated Router too.\<close>

lemma round_no_other:
  assumes "\<not> other_dr a ns" "\<exists>n\<in>set ns. naddress n = a" "elect_round a ns (d, b) = (d', b')" "d = a \<or> b' = a"
  shows "d' = a"
proof -
  let ?ns = "declare_self a d b' ns"
  have d': "d' = addr_of (dr_of b' ?ns)" using assms(3) by (auto simp: elect_round_def Let_def)
  obtain n where n: "n \<in> set ?ns" "naddress n = a" using assms(2) declare_self_mem(4) [of a d b' ns] by blast
  have self: "naddress m = a" if "m \<in> set ?ns" "NBR_IS_DR m" for m
    using that declare_self_mem(2) [of m a d b' ns] assms(1) by (auto simp: other_dr_def)
  show ?thesis
  proof (cases "dr_of b' ?ns")
    case None
    then have e: "filter NBR_IS_DR ?ns = []" "filter (\<lambda>n. naddress n = b') ?ns = []"
      by (auto simp: dr_of_def Let_def winner_None split: if_splits)
    have "d \<noteq> a" using e(1) n declare_self_mem(1) [OF n] by (auto simp: filter_empty_conv NBR_IS_DR_def)
    moreover have "b' \<noteq> a" using e(2) n by (auto simp: filter_empty_conv)
    ultimately show ?thesis using assms(4) by simp
  next
    case (Some m)
    note m = dr_of_mem [OF Some]
    have "naddress m = a"
    proof (cases "NBR_IS_DR m")
      case True
      then show ?thesis using self m(1) by blast
    next
      case False
      then have "\<forall>m\<in>set ?ns. \<not> NBR_IS_DR m" "naddress m = b'" using m(2) by auto
      moreover have "d \<noteq> a" using calculation(1) n declare_self_mem(1) [OF n] by (auto simp: NBR_IS_DR_def)
      ultimately show ?thesis using assms(4) by simp
    qed
    then show ?thesis using d' Some by (simp add: addr_of_def)
  qed
qed


text \<open>When the router itself declared no role and yet becomes backup, no other candidate declared itself backup,
  so the router becomes backup whenever it declares itself.\<close>

lemma round_backup_stays:
  assumes "a \<noteq> 0" "elect_round a ns (d, b) = (d', a)" "b \<noteq> a"
    and "elect_round a ns (e, a) = (e', b')" "e \<noteq> a"
  shows "b' = a"
proof -
  let ?r = "declare_self a d b ns" and ?s = "declare_self a e a ns"
  let ?B = "\<lambda>ns. filter NBR_IS_BDR (filter (\<lambda>n. \<not> NBR_IS_DR n) ns)"
  have "addr_of (bdr_of ?r) = a" using assms(2) by (simp add: elect_round_def Let_def)
  then obtain w where w: "bdr_of ?r = Some w" "naddress w = a"
    using assms(1) by (auto simp: addr_of_def split: option.splits)
  have "\<not> NBR_IS_BDR w"
    using declare_self_mem(1) [of w a d b ns] bdr_of_mem [OF w(1)] w(2) assms(3) by (auto simp: NBR_IS_BDR_def)
  then have empty: "?B ?r = []"
    using w(1) by (auto simp: bdr_of_def Let_def split: if_splits dest!: winner_in)
  have others: "naddress n = a" if n: "n \<in> set (?B ?s)" for n
  proof (rule ccontr)
    assume "naddress n \<noteq> a"
    then have "n \<in> set ?r" using n declare_self_mem(2) [of n a e a ns] declare_self_mem(3) [of n ns a d b] by simp
    then have "n \<in> set (?B ?r)" using n by simp
    then show False using arg_cong [OF empty, of set] by (simp only: list.set empty_iff)
  qed
  obtain m where m: "m \<in> set ?s" "naddress m = a"
    using round_bdr_self(2) [OF assms(1,2)] declare_self_mem(4) [of a e a ns] by blast
  then have "m \<in> set (?B ?s)"
    using declare_self_mem(1) [OF m] assms(5) by (auto simp: NBR_IS_DR_def NBR_IS_BDR_def)
  then have "?B ?s \<noteq> []" by (metis empty_iff list.set(1))
  then obtain v where "winner (?B ?s) = Some v" "bdr_of ?s = Some v"
    using winner_None [of "?B ?s"] by (cases "winner (?B ?s)") (auto simp: bdr_of_def Let_def)
  then have "addr_of (bdr_of ?s) = a" using others [OF winner_in] by (simp add: addr_of_def)
  then show ?thesis using assms(4) by (simp add: elect_round_def Let_def)
qed

text \<open>The role of the router at address \<open>a\<close>, and the whole election: a second round follows a change of role.\<close>

definition role :: "u32 \<Rightarrow> u32 \<times> u32 \<Rightarrow> ism_state" where
  "role a db = (if fst db = a then ISM_DR else if snd db = a then ISM_Backup else ISM_DROther)"

definition role_agrees :: "u32 \<Rightarrow> u32 \<times> u32 \<Rightarrow> ism_state \<Rightarrow> bool" where
  "role_agrees a db s \<longleftrightarrow> (s = ISM_DR \<longrightarrow> fst db = a) \<and> (s = ISM_Backup \<longrightarrow> snd db = a \<and> fst db \<noteq> a)"

definition elect :: "u32 \<Rightarrow> ospf_neighbor list \<Rightarrow> ism_state \<Rightarrow> u32 \<times> u32 \<Rightarrow> u32 \<times> u32" where
  "elect a ns old db =
     (let r = elect_round a ns db in
      if role a r \<noteq> old \<and> \<not> (role a r = ISM_DROther \<and> old < ISM_DROther) then elect_round a ns r else r)"

lemma elect_not_both:
  assumes "a \<noteq> 0" "role_agrees a (d0, b0) old" "elect a ns old (d0, b0) = (d, b)"
  shows "d \<noteq> a \<or> b \<noteq> a"
proof (rule ccontr)
  assume "\<not> (d \<noteq> a \<or> b \<noteq> a)"
  then have db: "d = a" "b = a" by auto
  obtain d1 b1 where r1: "elect_round a ns (d0, b0) = (d1, b1)" by (cases "elect_round a ns (d0, b0)")
  let ?second = "role a (d1, b1) \<noteq> old \<and> \<not> (role a (d1, b1) = ISM_DROther \<and> old < ISM_DROther)"
  have fin: "?second \<Longrightarrow> elect_round a ns (d1, b1) = (a, a)" "\<not> ?second \<Longrightarrow> d1 = a \<and> b1 = a"
    using assms(3) db r1 by (auto simp: elect_def Let_def split: if_splits)
  consider (dr) "d1 = a" | (bdr) "d1 \<noteq> a" "b1 = a" | (none) "d1 \<noteq> a" "b1 \<noteq> a" by blast
  then show False
  proof cases
    case dr
    show False
    proof (cases ?second)
      case True
      then show False using round_bdr_self(1) [OF assms(1) fin(1)] dr by simp
    next
      case False
      then have "b1 = a" "old = ISM_DR" using fin(2) dr by (auto simp: role_def)
      then show False using round_bdr_self(1) [of a ns d0 b0 d1] r1 assms(1,2) by (simp add: role_agrees_def)
    qed
  next
    case bdr
    then have s: ?second using fin(2) by blast
    have "\<not> other_dr a ns" using round_dr_self(2) [OF assms(1) fin(1) [OF s]] bdr(1) by simp
    moreover have "\<exists>n\<in>set ns. naddress n = a" using round_bdr_self(2) [of a ns d0 b0 d1] r1 bdr(2) assms(1) by simp
    ultimately show False using round_no_other [OF _ _ r1] bdr by simp
  next
    case none
    then have s: ?second using fin(2) by blast
    then have r2: "elect_round a ns (d1, b1) = (a, a)" by (rule fin(1))
    have self: "\<exists>n\<in>set ns. naddress n = a" using round_bdr_self(2) [OF assms(1) r2] .
    have no: "\<not> other_dr a ns" using round_dr_self(2) [OF assms(1) r2 none(1)] .
    have "old = ISM_DR \<or> old = ISM_Backup" using s none by (cases old) (auto simp: role_def fsm_order_defs)
    then show False
    proof
      assume "old = ISM_DR"
      then show False using round_no_other [OF no self r1] none(1) assms(2) by (simp add: role_agrees_def)
    next
      assume "old = ISM_Backup"
      then have "b0 = a" "d0 \<noteq> a" using assms(2) by (auto simp: role_agrees_def)
      then show False using round_backup_stays [OF assms(1) r2 none(2), of d0 d1 b1] r1 none(2) by simp
    qed
  qed
qed


subsection \<open>The election on the interface\<close>

text \<open>The neighbor table holds live neighbors only, the pseudo neighbor of the router among them, and no other
  neighbor has the address of the interface.\<close>

definition ism_wf :: "ospf_interface \<Rightarrow> bool" where
  "ism_wf oi \<longleftrightarrow> oi_address oi \<noteq> 0 \<and> nbr_self oi \<in> set (map snd (ntable oi))
     \<and> (\<forall>p\<in>set (map snd (ntable oi)). case nstore oi p of
          None \<Rightarrow> False | Some n \<Rightarrow> naddress n = oi_address oi \<longleftrightarrow> p = nbr_self oi)"

definition ism_role_ok :: "ospf_interface \<Rightarrow> bool" where
  "ism_role_ok oi \<longleftrightarrow> (case (DR oi, BDR oi) of
     (Some d, Some b) \<Rightarrow> role_agrees (oi_address oi) (d, b) (oi_state oi) | _ \<Rightarrow> False)"

lemma ism_wf_cong:
  "oi_address x = oi_address y \<Longrightarrow> nstore x = nstore y \<Longrightarrow> ntable x = ntable y \<Longrightarrow> nbr_self x = nbr_self y \<Longrightarrow> ism_wf x = ism_wf y"
  by (simp add: ism_wf_def cong: option.case_cong)

lemma ism_wf_live: "ism_wf oi \<Longrightarrow> live (nstore oi) (map snd (ntable oi))"
  by (fastforce simp: ism_wf_def live_def split: option.splits)

lemma ism_wf_self:
  assumes "ism_wf oi"
  obtains me where "nstore oi (nbr_self oi) = Some me" "naddress me = oi_address oi"
    "DR oi = Some (d_router me)" "BDR oi = Some (bd_router me)"
  using assms that by (fastforce simp: ism_wf_def DR_def BDR_def split: option.splits)

lemma set_self_simps [simp]:
  "oi_address (set_self d b oi) = oi_address oi" "ntable (set_self d b oi) = ntable oi" "nbr_self (set_self d b oi) = nbr_self oi"
  "oi_state (set_self d b oi) = oi_state oi" "set_self d b (set_self d' b' oi) = set_self d b oi"
  "(nstore (set_self d b oi) p = None) = (nstore oi p = None)" "live (nstore (set_self d b oi)) ps = live (nstore oi) ps"
  "oi_type (set_self d b oi) = oi_type oi"
  by (cases "nstore oi (nbr_self oi)"; auto simp: set_self_def live_def)+

lemma ism_wf_set_self [simp]: "ism_wf oi \<Longrightarrow> ism_wf (set_self d b oi)"
  by (auto simp: ism_wf_def set_self_def split: option.splits)

lemma set_self_DR: "ism_wf oi \<Longrightarrow> DR (set_self d b oi) = Some d" "ism_wf oi \<Longrightarrow> BDR (set_self d b oi) = Some b"
  by (erule ism_wf_self, simp add: DR_def BDR_def set_self_def)+

lemma set_self_id: "ism_wf oi \<Longrightarrow> DR oi = Some d \<Longrightarrow> BDR oi = Some b \<Longrightarrow> set_self d b oi = oi"
  by (erule ism_wf_self) (auto simp: set_self_def fun_upd_idem)

lemma vals_set_self:
  assumes "ism_wf oi" "set el \<subseteq> set (map snd (ntable oi))"
  shows "vals (nstore (set_self d b oi)) el = declare_self (oi_address oi) d b (vals (nstore oi) el)"
proof -
  have "the (nstore (set_self d b oi) p) = declare_one (oi_address oi) d b (the (nstore oi p))"
    if p: "p \<in> set (map snd (ntable oi))" for p
  proof -
    obtain n where n: "nstore oi p = Some n" "naddress n = oi_address oi \<longleftrightarrow> p = nbr_self oi"
      using assms(1) p unfolding ism_wf_def by (cases "nstore oi p") auto
    then show ?thesis by (auto simp: set_self_def declare_one_def)
  qed
  then have "the (nstore (set_self d b oi) p) = declare_one (oi_address oi) d b (the (nstore oi p))" if "p \<in> set el" for p
    using assms(2) that by blast
  then show ?thesis by (simp add: vals_def declare_self_def)
qed

text \<open>One call of \<open>ospf_elect_bdr\<close> and one of \<open>ospf_elect_dr\<close> are one round.\<close>

lemma elect_round_run:
  assumes "ism_wf oi" "set el \<subseteq> set (map snd (ntable oi))"
    and "elect_round (oi_address oi) (vals (nstore oi) el) (d, b) = (d', b')"
  shows "\<exists>x. ospf_elect_bdr (set_self d b oi) el = Some (x, set_self d b' oi)"
    "\<exists>x. ospf_elect_dr (set_self d b' oi) el = Some (x, set_self d' b' oi)"
proof -
  have l: "live (nstore (set_self x y oi)) el" for x y
    using ism_wf_live [OF assms(1)] assms(2) by (auto simp: live_def)
  note eqs = vals_set_self [OF assms(1,2)] set_self_DR [OF assms(1)]
  have r: "b' = addr_of (bdr_of (vals (nstore (set_self d b oi)) el))" "d' = addr_of (dr_of b' (vals (nstore (set_self d b' oi)) el))"
    using assms(3) by (auto simp: elect_round_def Let_def eqs)
  show "\<exists>x. ospf_elect_bdr (set_self d b oi) el = Some (x, set_self d b' oi)"
    using elect_bdr_eq [OF l eqs(2)] r(1) by simp
  show "\<exists>x. ospf_elect_dr (set_self d b' oi) el = Some (x, set_self d' b' oi)"
    using elect_dr_eq [OF l eqs(3)] r(2) by simp
qed

lemma ospf_ism_state_role: "ism_wf oi \<Longrightarrow> ospf_ism_state (set_self d b oi) = Some (role (oi_address oi) (d, b))"
  by (simp add: ospf_ism_state_def set_self_DR role_def)

lemma eligible_loop_eq:
  "live st ps \<Longrightarrow> eligible_loop st ps = Some (filter (\<lambda>p. case st p of None \<Rightarrow> False
     | Some n \<Rightarrow> router_id n \<noteq> 0 \<and> npriority n \<noteq> 0 \<and> nstate n \<ge> NSM_TwoWay) ps)"
  by (induction ps) auto

lemma dr_change_run: "live (nstore oi) ps \<Longrightarrow> \<exists>as. dr_change_loop me ps oi = Some (oi\<lparr>acts := as\<rparr>)"
proof (induction ps arbitrary: oi)
  case Nil
  show ?case by (rule exI [of _ "acts oi"]) simp
next
  case (Cons p ps)
  then obtain n where n: "nstore oi p = Some n" by auto
  let ?oi = "if router_id n \<noteq> 0 \<and> nstate n \<ge> NSM_TwoWay \<and> router_id n \<noteq> me then act (NsmSchedule p NSM_AdjOK) oi else oi"
  have "live (nstore ?oi) ps" using Cons.prems by (simp add: act_def)
  from Cons.IH [OF this] obtain as where "dr_change_loop me ps ?oi = Some (?oi\<lparr>acts := as\<rparr>)" by blast
  moreover have "?oi\<lparr>acts := as\<rparr> = oi\<lparr>acts := as\<rparr>" by (simp add: act_def)
  ultimately have "dr_change_loop me (p # ps) oi = Some (oi\<lparr>acts := as\<rparr>)" using n by simp
  then show ?case by (rule exI)
qed

text \<open>The routers that take part in an election, and the election as a whole.\<close>

definition dr_candidates :: "ospf_interface \<Rightarrow> ospf_neighbor list" where
  "dr_candidates oi = filter (\<lambda>n. router_id n \<noteq> 0 \<and> npriority n \<noteq> 0 \<and> nstate n \<ge> NSM_TwoWay)
     (vals (nstore oi) (map snd (ntable oi)))"

lemma eligible_run:
  assumes "ism_wf oi"
  obtains el where "ospf_dr_eligible_routers oi = Some el" "set el \<subseteq> set (map snd (ntable oi))"
    "vals (nstore oi) el = dr_candidates oi"
proof
  let ?P = "\<lambda>p. case nstore oi p of None \<Rightarrow> False
     | Some n \<Rightarrow> router_id n \<noteq> 0 \<and> npriority n \<noteq> 0 \<and> nstate n \<ge> NSM_TwoWay"
  let ?el = "filter ?P (map snd (ntable oi))"
  show "ospf_dr_eligible_routers oi = Some ?el"
    using eligible_loop_eq [OF ism_wf_live [OF assms]] by (simp add: ospf_dr_eligible_routers_def)
  show "set ?el \<subseteq> set (map snd (ntable oi))" by auto
  have "?P p \<longleftrightarrow> router_id (the (nstore oi p)) \<noteq> 0 \<and> npriority (the (nstore oi p)) \<noteq> 0 \<and> nstate (the (nstore oi p)) \<ge> NSM_TwoWay"
    if "p \<in> set (map snd (ntable oi))" for p
    using ism_wf_live [OF assms] that unfolding live_def by (cases "nstore oi p") auto
  then show "vals (nstore oi) ?el = dr_candidates oi"
    unfolding dr_candidates_def vals_def filter_map o_def by (intro arg_cong2 [of _ _ _ _ map] refl filter_cong) auto
qed


lemma role_new_agrees: "role_agrees a db (role a db)"
  by (auto simp: role_agrees_def role_def)

lemma multicast_change_run: "\<exists>as'. multicast_change s s' (oi\<lparr>acts := as\<rparr>) = oi\<lparr>acts := as'\<rparr>"
proof -
  consider "multicast_change s s' (oi\<lparr>acts := as\<rparr>) = act AddAllDRouters (oi\<lparr>acts := as\<rparr>)"
    | "multicast_change s s' (oi\<lparr>acts := as\<rparr>) = act DropAllDRouters (oi\<lparr>acts := as\<rparr>)"
    | "multicast_change s s' (oi\<lparr>acts := as\<rparr>) = oi\<lparr>acts := as\<rparr>"
    unfolding multicast_change_def by argo
  then show ?thesis by cases (auto simp: act_def)
qed

lemma ospf_dr_election_run:
  assumes "ism_wf oi" "DR oi = Some d0" "BDR oi = Some b0" "elect (oi_address oi) (dr_candidates oi) (oi_state oi) (d0, b0) = (d, b)"
  shows "\<exists>as. ospf_dr_election oi = Some (role (oi_address oi) (d, b), (set_self d b oi)\<lparr>acts := as\<rparr>)"
proof -
  let ?a = "oi_address oi" and ?ns = "dr_candidates oi"
  obtain el where el: "ospf_dr_eligible_routers oi = Some el" "set el \<subseteq> set (map snd (ntable oi))" "vals (nstore oi) el = ?ns"
    using eligible_run [OF assms(1)] .
  note round = elect_round_run [OF assms(1) el(2), unfolded el(3)]
  obtain d1 b1 where r1: "elect_round ?a ?ns (d0, b0) = (d1, b1)" by (cases "elect_round ?a ?ns (d0, b0)")
  obtain x y where e1: "ospf_elect_bdr oi el = Some (x, set_self d0 b1 oi)" "ospf_elect_dr (set_self d0 b1 oi) el = Some (y, set_self d1 b1 oi)"
    using round [OF r1] set_self_id [OF assms(1-3)] by auto
  let ?second = "role ?a (d1, b1) \<noteq> oi_state oi \<and> \<not> (role ?a (d1, b1) = ISM_DROther \<and> oi_state oi < ISM_DROther)"
  let ?rest = "if ?second then do {
       (_, oi) \<leftarrow> ospf_elect_bdr (set_self d1 b1 oi) el;
       (_, oi) \<leftarrow> ospf_elect_dr oi el;
       new_state \<leftarrow> ospf_ism_state oi;
       Some (new_state, oi)
     } else Some (role ?a (d1, b1), set_self d1 b1 oi)"
  have rest: "?rest = Some (role ?a (d, b), set_self d b oi)"
  proof (cases ?second)
    case True
    then have r2: "elect_round ?a ?ns (d1, b1) = (d, b)" using assms(4) r1 by (simp add: elect_def Let_def)
    obtain x y where "ospf_elect_bdr (set_self d1 b1 oi) el = Some (x, set_self d1 b oi)"
      "ospf_elect_dr (set_self d1 b oi) el = Some (y, set_self d b oi)"
      using round [OF r2] by auto
    then show ?thesis using True ospf_ism_state_role [OF assms(1)] by simp
  next
    case False
    from assms(4) have "(if ?second then elect_round ?a ?ns (d1, b1) else (d1, b1)) = (d, b)" unfolding elect_def Let_def r1 .
    then have "(d1, b1) = (d, b)" unfolding if_not_P [OF False] .
    then show ?thesis unfolding if_not_P [OF False] by simp
  qed
  let ?change = "\<lambda>oi. if d0 \<noteq> d \<or> b0 \<noteq> b then ospf_dr_change oi else Some oi"
  have "\<exists>as. ?change (set_self d b oi) = Some ((set_self d b oi)\<lparr>acts := as\<rparr>)"
  proof (cases "d0 \<noteq> d \<or> b0 \<noteq> b")
    case True
    have "live (nstore (set_self d b oi)) (map snd (ntable (set_self d b oi)))" using ism_wf_live [OF assms(1)] by simp
    from dr_change_run [OF this, of "my_router_id (set_self d b oi)"] show ?thesis using True by (simp add: ospf_dr_change_def)
  next
    case False
    then show ?thesis by (auto intro: exI [of _ "acts (set_self d b oi)"])
  qed
  then obtain as where as: "?change (set_self d b oi) = Some ((set_self d b oi)\<lparr>acts := as\<rparr>)" by blast
  obtain as' where m: "multicast_change (oi_state oi) (role ?a (d, b)) ((set_self d b oi)\<lparr>acts := as\<rparr>)
    = (set_self d b oi)\<lparr>acts := as'\<rparr>" using multicast_change_run by blast
  have "ospf_dr_election oi = Some (role ?a (d, b), (set_self d b oi)\<lparr>acts := as'\<rparr>)"
    using assms(2,3) el(1) e1 rest as m
    by (simp add: ospf_dr_election_def ospf_ism_state_role [OF assms(1)] set_self_DR [OF assms(1)])
  then show ?thesis by (rule exI)
qed


lemma ism_change_state_frame:
  "oi_address (ism_change_state oi s) = oi_address oi" "nstore (ism_change_state oi s) = nstore oi"
  "ntable (ism_change_state oi s) = ntable oi" "nbr_self (ism_change_state oi s) = nbr_self oi"
  "oi_state (ism_change_state oi s) = s" "full_nbrs (ism_change_state oi s) = full_nbrs oi"
  "my_router_id (ism_change_state oi s) = my_router_id oi" "oi_type (ism_change_state oi s) = oi_type oi"
  "if_priority (ism_change_state oi s) = if_priority oi"
  by (simp_all add: ism_change_state_def Let_def act_def split: option.split)

text \<open>C15: Role consistency.  On a well-formed interface whose state agrees with the recorded Designated Router and
  Backup, \<open>ospf_dr_election\<close> returns (no neighbor is read after it was freed, nothing is undefined).  The
  state it returns is the role of the router under the roles it has recorded, the two roles never fall
  to the same router twice (the router itself is not both), nothing else of the interface changes but
  the requests to other modules, and after \<open>ism_change_state\<close> the interface is well-formed with a
  state that agrees with the roles again, so the property carries over from election to election.\<close>

theorem ospf_dr_election_roles:
  assumes "ism_wf oi" "ism_role_ok oi"
  shows "\<exists>d b as. ospf_dr_election oi = Some (role (oi_address oi) (d, b), (set_self d b oi)\<lparr>acts := as\<rparr>)
    \<and> (d \<noteq> oi_address oi \<or> b \<noteq> oi_address oi)
    \<and> (let oi' = ism_change_state ((set_self d b oi)\<lparr>acts := as\<rparr>) (role (oi_address oi) (d, b)) in
        ism_wf oi' \<and> ism_role_ok oi' \<and> DR oi' = Some d \<and> BDR oi' = Some b)"
proof -
  obtain me where "nstore oi (nbr_self oi) = Some me" "naddress me = oi_address oi"
    and me: "DR oi = Some (d_router me)" "BDR oi = Some (bd_router me)" using ism_wf_self [OF assms(1)] .
  obtain d b where db: "elect (oi_address oi) (dr_candidates oi) (oi_state oi) (d_router me, bd_router me) = (d, b)"
    by fastforce
  from ospf_dr_election_run [OF assms(1) me db] obtain as where
    run: "ospf_dr_election oi = Some (role (oi_address oi) (d, b), (set_self d b oi)\<lparr>acts := as\<rparr>)" by blast
  have "d \<noteq> oi_address oi \<or> b \<noteq> oi_address oi"
    using elect_not_both [OF _ _ db] assms me by (simp add: ism_role_ok_def ism_wf_def)
  moreover have "ism_wf oi'" "ism_role_ok oi'" "DR oi' = Some d" "BDR oi' = Some b"
    if "oi' = ism_change_state ((set_self d b oi)\<lparr>acts := as\<rparr>) (role (oi_address oi) (d, b))" for oi'
  proof -
    note f = ism_change_state_frame [of "(set_self d b oi)\<lparr>acts := as\<rparr>" "role (oi_address oi) (d, b)", folded that]
    show db': "DR oi' = Some d" "BDR oi' = Some b" using f set_self_DR [OF assms(1), of d b] by (simp_all add: DR_def BDR_def)
    have "ism_wf oi' = ism_wf (set_self d b oi)" by (rule ism_wf_cong) (simp_all add: f)
    then show "ism_wf oi'" using assms(1) by simp
    show "ism_role_ok oi'" using role_new_agrees [of "oi_address oi" "(d, b)"] by (simp add: ism_role_ok_def db' f)
  qed
  ultimately show ?thesis using run by (auto simp: Let_def)
qed

definition ospf_if_demo :: "ism_state \<Rightarrow> ospf_neighbor list \<Rightarrow> ospf_interface" where
  "ospf_if_demo s ns = \<lparr>oi_state = s, oi_state_change = 0, oi_type = OSPF_IFTYPE_BROADCAST, oi_address = naddress (hd ns),
     my_router_id = router_id (hd ns), if_priority = npriority (hd ns), nstore = map_of (zip [0..<length ns] ns),
     ntable = zip (map nsrc ns) [0..<length ns], nbr_self = 0, full_nbrs = 0,
     oi_area = Some \<lparr>act_ints = 1, area_full_nbrs = 0, external_default = True, area_lsas = [], ext_lsas = []\<rparr>,
     full_vls = None, network_lsa_self = False, t_network_lsa_self = False, t_hello = True, t_wait = True, t_ls_ack = False,
     oi_crypt_seqnum = 0, hello_in = 0, acts = []\<rparr>"

theorem ospf_dr_election_roles_witness:
  "\<exists>d b as. ospf_dr_election (ospf_if_demo ISM_Waiting [ospf_nbr_demo 10 1, ospf_nbr_demo 20 1]) =
     Some (role 10 (d, b), (set_self d b (ospf_if_demo ISM_Waiting [ospf_nbr_demo 10 1, ospf_nbr_demo 20 1]))\<lparr>acts := as\<rparr>)
   \<and> (d \<noteq> 10 \<or> b \<noteq> 10)"
proof -
  let ?oi = "ospf_if_demo ISM_Waiting [ospf_nbr_demo 10 1, ospf_nbr_demo 20 1]"
  have u: "[0..<Suc (Suc 0)] = [0, Suc 0]" by (simp add: upt_rec)
  have "ism_wf ?oi" "ism_role_ok ?oi" and a: "oi_address ?oi = 10"
    by (simp_all add: ism_wf_def ism_role_ok_def ospf_if_demo_def ospf_nbr_demo_def DR_def BDR_def role_agrees_def u)
  from ospf_dr_election_roles [OF this(1,2)] show ?thesis unfolding a by blast
qed

end
