(* ===== verification/Ospf_Nsm.thy ===== *)
theory Ospf_Nsm
  imports Ospf_Ism
begin

text \<open>
  The OSPF neighbor state machine, \<open>ospfd/ospf_nsm.c\<close>, with the neighbor table of \<open>ospfd/ospf_neighbor.c\<close>,
  the interface-down handler of \<open>ospfd/ospf_interface.c\<close>, the dispatch of \<open>ospf_ism_event\<close> and
  \<open>ospf_nsm_event\<close>, and the reception of a Hello packet, \<open>ospf_hello\<close> of \<open>ospfd/ospf_packet.c\<close>.  The
  two machines call each other: a neighbor that crosses 2-Way makes the interface elect again, and
  an interface that goes down kills its neighbors.  A freed neighbor is no longer in the store, so
  its use is \<^term>\<open>None\<close>.  The address a new neighbor gets from the allocator is an argument.  The
  configured neighbors of NBMA networks, opaque LSAs and the retransmission counters are not modelled.
\<close>

section \<open>Definitions\<close>

subsection \<open>Interface events\<close>

text \<open>The dispatch of \<open>ospf_ism_event\<close>, with the handler of \<open>InterfaceDown\<close> as an argument: that handler runs the
  neighbor machine, which in turn runs this dispatch, but only for \<open>NeighborChange\<close>.\<close>

definition ism_func_run ::
  "(ospf_interface \<Rightarrow> (ism_state \<times> ospf_interface) option) \<Rightarrow> ism_func \<Rightarrow> ospf_interface \<Rightarrow> (ism_state \<times> ospf_interface) option" where
  "ism_func_run down f oi =
     (case f of
        F_ignore \<Rightarrow> ism_ignore oi
      | F_interface_up \<Rightarrow> ism_interface_up oi
      | F_wait_timer \<Rightarrow> ism_wait_timer oi
      | F_backup_seen \<Rightarrow> ism_backup_seen oi
      | F_neighbor_change \<Rightarrow> ism_neighbor_change oi
      | F_loop_ind \<Rightarrow> ism_loop_ind oi
      | F_interface_down \<Rightarrow> down oi)"

definition ism_dispatch ::
  "(ospf_interface \<Rightarrow> (ism_state \<times> ospf_interface) option) \<Rightarrow> ospf_interface \<Rightarrow> ism_event \<Rightarrow> ospf_interface option" where
  "ism_dispatch down oi event = do {
     (next_state, oi) \<leftarrow> ism_func_run down (fst (ISM (oi_state oi) event)) oi;
     let next_state = (if next_state = ISM_DependUpon then snd (ISM (oi_state oi) event) else next_state);
     let oi = (if next_state \<noteq> oi_state oi then ism_change_state oi next_state else oi);
     Some (ism_timer_set oi)
   }"

definition ism_neighbor_change_event :: "ospf_interface \<Rightarrow> ospf_interface option" where
  "ism_neighbor_change_event oi = ism_dispatch (\<lambda>_. None) oi ISM_NeighborChange"

subsection \<open>Neighbors\<close>

definition set_nbr :: "nat \<Rightarrow> ospf_neighbor \<Rightarrow> ospf_interface \<Rightarrow> ospf_interface" where
  "set_nbr p n oi = oi\<lparr>nstore := (nstore oi)(p \<mapsto> n)\<rparr>"

definition ospf_nbr_new :: ospf_neighbor where
  "ospf_nbr_new = \<lparr>nstate = NSM_Down, dd_flags = 7, dd_seqnum = 0, naddress = 0, nsrc = 0, router_id = 0, noptions = 0, npriority = - 1,
     d_router = 0, bd_router = 0, ls_rxmt = [], db_sum = [], ls_req = [], ncrypt_seqnum = 0, t_inactivity = False,
     t_db_desc = False, t_ls_req = False, t_ls_upd = False, t_hello_reply = False, nstate_change = 0\<rparr>"

definition ospf_nbr_free :: "ospf_interface \<Rightarrow> nat \<Rightarrow> ospf_interface option" where
  "ospf_nbr_free oi p = do {
     nbr \<leftarrow> nstore oi p;
     let oi = act (EventsCancel p) oi;
     Some (oi\<lparr>nstore := (nstore oi)(p := None)\<rparr>)
   }"

definition ospf_nbr_delete :: "ospf_interface \<Rightarrow> nat \<Rightarrow> ospf_interface option" where
  "ospf_nbr_delete oi p = do {
     nbr \<leftarrow> nstore oi p;
     let oi = oi\<lparr>ntable := filter (\<lambda>e. fst e \<noteq> nsrc nbr) (ntable oi)\<rparr>;
     ospf_nbr_free oi p
   }"

definition ospf_nbr_bidirectional :: "u32 \<Rightarrow> u32 list \<Rightarrow> bool" where
  "ospf_nbr_bidirectional rid neighbors \<longleftrightarrow> list_ex (\<lambda>n. rid = n) neighbors"

text \<open>Entering a neighbor under its address; the table iterates in the order of the addresses.\<close>

definition nbr_enter :: "u32 \<Rightarrow> nat \<Rightarrow> ospf_interface \<Rightarrow> ospf_interface" where
  "nbr_enter addr p oi = oi\<lparr>ntable := insort_key fst (addr, p) (ntable oi)\<rparr>"

definition ospf_nbr_add_self :: "ospf_interface \<Rightarrow> ospf_interface" where
  "ospf_nbr_add_self oi =
     (if oi_address oi \<in> fst ` set (ntable oi) then oi
      else nbr_enter (oi_address oi) (nbr_self oi) oi)"

definition ospf_nbr_lookup_by_addr :: "ospf_interface \<Rightarrow> u32 \<Rightarrow> nat option" where
  "ospf_nbr_lookup_by_addr oi addr = map_of (ntable oi) addr"

fun nbr_count_loop :: "(nat \<Rightarrow> ospf_neighbor option) \<Rightarrow> u32 \<Rightarrow> nsm_state \<Rightarrow> nat list \<Rightarrow> int option" where
  "nbr_count_loop st me state [] = Some 0"
| "nbr_count_loop st me state (p # ps) = do {
     nbr \<leftarrow> st p;
     c \<leftarrow> nbr_count_loop st me state ps;
     Some (if router_id nbr \<noteq> me \<and> (state = NSM_DependUpon \<or> nstate nbr = state) then c + 1 else c)
   }"

definition ospf_nbr_count :: "ospf_interface \<Rightarrow> nsm_state \<Rightarrow> int option" where
  "ospf_nbr_count oi state = nbr_count_loop (nstore oi) (my_router_id oi) state (map snd (ntable oi))"

subsection \<open>The LSA lists of a neighbor\<close>

definition lsa_same_key :: "ospf_lsa \<Rightarrow> ospf_lsa \<Rightarrow> bool" where
  "lsa_same_key a b \<longleftrightarrow> ls_type (ldata a) = ls_type (ldata b) \<and> ls_id (ldata a) = ls_id (ldata b)
     \<and> adv_router (ldata a) = adv_router (ldata b)"

fun lsa_list_put :: "ospf_lsa \<Rightarrow> ospf_lsa list \<Rightarrow> ospf_lsa list" where
  "lsa_list_put l [] = [l]"
| "lsa_list_put l (x # xs) = (if lsa_same_key l x then l # xs else x # lsa_list_put l xs)"

definition lsa_list_find :: "ospf_lsa \<Rightarrow> ospf_lsa list \<Rightarrow> ospf_lsa option" where
  "lsa_list_find l xs = find (lsa_same_key l) xs"

definition ospf_ls_retransmit_add :: "timeval \<Rightarrow> ospf_neighbor \<Rightarrow> ospf_lsa \<Rightarrow> ospf_neighbor" where
  "ospf_ls_retransmit_add now nbr lsa =
     (if ospf_lsa_more_recent now (lsa_list_find lsa (ls_rxmt nbr)) (Some lsa) < 0
      then nbr\<lparr>ls_rxmt := lsa_list_put lsa (ls_rxmt nbr)\<rparr> else nbr)"

definition ospf_db_summary_add :: "timeval \<Rightarrow> ospf_neighbor \<Rightarrow> ospf_lsa \<Rightarrow> ospf_neighbor" where
  "ospf_db_summary_add now nbr lsa =
     (if IS_LSA_MAXAGE now lsa then ospf_ls_retransmit_add now nbr lsa
      else nbr\<lparr>db_sum := lsa_list_put lsa (db_sum nbr)\<rparr>)"

definition ospf_db_summary_isempty :: "ospf_neighbor \<Rightarrow> bool" where
  "ospf_db_summary_isempty nbr \<longleftrightarrow> db_sum nbr = []"

definition ospf_db_summary_clear :: "ospf_neighbor \<Rightarrow> ospf_neighbor" where
  "ospf_db_summary_clear nbr = nbr\<lparr>db_sum := []\<rparr>"

definition ospf_ls_request_isempty :: "ospf_neighbor \<Rightarrow> bool" where
  "ospf_ls_request_isempty nbr \<longleftrightarrow> ls_req nbr = []"

definition ospf_ls_request_delete_all :: "ospf_neighbor \<Rightarrow> ospf_neighbor" where
  "ospf_ls_request_delete_all nbr = nbr\<lparr>ls_req := []\<rparr>"

definition ospf_ls_retransmit_isempty :: "ospf_neighbor \<Rightarrow> bool" where
  "ospf_ls_retransmit_isempty nbr \<longleftrightarrow> ls_rxmt nbr = []"

definition ospf_ls_retransmit_clear :: "ospf_neighbor \<Rightarrow> ospf_neighbor" where
  "ospf_ls_retransmit_clear nbr = nbr\<lparr>ls_rxmt := []\<rparr>"


subsection \<open>Handlers\<close>

definition nsm_timer_set :: "ospf_neighbor \<Rightarrow> ospf_neighbor" where
  "nsm_timer_set nbr =
     (case nstate nbr of
        NSM_Down \<Rightarrow> nbr\<lparr>t_db_desc := False, t_ls_upd := False\<rparr>
      | NSM_Attempt \<Rightarrow> nbr\<lparr>t_db_desc := False, t_ls_upd := False\<rparr>
      | NSM_Init \<Rightarrow> nbr\<lparr>t_db_desc := False, t_ls_upd := False\<rparr>
      | NSM_TwoWay \<Rightarrow> nbr\<lparr>t_db_desc := False, t_ls_upd := False\<rparr>
      | NSM_ExStart \<Rightarrow> nbr\<lparr>t_db_desc := True, t_ls_upd := False\<rparr>
      | NSM_Exchange \<Rightarrow>
          let nbr = nbr\<lparr>t_ls_upd := True\<rparr> in
          (if dd_flags nbr AND 1 = 0 then nbr\<lparr>t_db_desc := False\<rparr> else nbr)
      | NSM_Loading \<Rightarrow> nbr\<lparr>t_db_desc := False\<rparr>
      | NSM_Full \<Rightarrow> nbr\<lparr>t_db_desc := False\<rparr>
      | NSM_DependUpon \<Rightarrow> nbr\<lparr>t_db_desc := False\<rparr>)"

definition nsm_reset_nbr :: "ospf_neighbor \<Rightarrow> ospf_neighbor" where
  "nsm_reset_nbr nbr =
     (let nbr = (if \<not> ospf_db_summary_isempty nbr then ospf_db_summary_clear nbr else nbr);
          nbr = (if \<not> ospf_ls_request_isempty nbr then ospf_ls_request_delete_all nbr else nbr);
          nbr = (if \<not> ospf_ls_retransmit_isempty nbr then ospf_ls_retransmit_clear nbr else nbr)
      in nbr\<lparr>t_db_desc := False, t_ls_req := False, t_ls_upd := False, t_hello_reply := False\<rparr>)"

definition must_be_adjacent :: "ospf_interface \<Rightarrow> bool" where
  "must_be_adjacent oi \<longleftrightarrow> oi_type oi = OSPF_IFTYPE_POINTOPOINT \<or> oi_type oi = OSPF_IFTYPE_POINTOMULTIPOINT
     \<or> oi_type oi = OSPF_IFTYPE_VIRTUALLINK"

definition nsm_ignore :: "ospf_interface \<Rightarrow> nat \<Rightarrow> (nsm_state \<times> ospf_interface) option" where
  "nsm_ignore oi p = Some (NSM_DependUpon, oi)"

definition nsm_hello_received :: "ospf_interface \<Rightarrow> nat \<Rightarrow> (nsm_state \<times> ospf_interface) option" where
  "nsm_hello_received oi p = do {
     nbr \<leftarrow> nstore oi p;
     Some (NSM_DependUpon, set_nbr p (nbr\<lparr>t_inactivity := True\<rparr>) oi)
   }"

definition nsm_start :: "ospf_interface \<Rightarrow> nat \<Rightarrow> (nsm_state \<times> ospf_interface) option" where
  "nsm_start oi p = do {
     nbr \<leftarrow> nstore oi p;
     Some (NSM_DependUpon, set_nbr p ((nsm_reset_nbr nbr)\<lparr>t_inactivity := True\<rparr>) oi)
   }"

definition nsm_twoway_received :: "ospf_interface \<Rightarrow> nat \<Rightarrow> (nsm_state \<times> ospf_interface) option" where
  "nsm_twoway_received oi p = do {
     nbr \<leftarrow> nstore oi p;
     d \<leftarrow> DR oi;
     b \<leftarrow> BDR oi;
     let next_state = NSM_TwoWay;
     let next_state = (if must_be_adjacent oi then NSM_ExStart else next_state);
     let next_state = (if oi_address oi = d \<or> oi_address oi = b then NSM_ExStart else next_state);
     let next_state = (if naddress nbr = d_router nbr \<or> naddress nbr = bd_router nbr then NSM_ExStart else next_state);
     Some (next_state, oi)
   }"

definition nsm_negotiation_done :: "timeval \<Rightarrow> ospf_interface \<Rightarrow> nat \<Rightarrow> (nsm_state \<times> ospf_interface) option" where
  "nsm_negotiation_done now oi p = do {
     nbr \<leftarrow> nstore oi p;
     area \<leftarrow> oi_area oi;
     let nbr = foldl (ospf_db_summary_add now) nbr (area_lsas area);
     let nbr = (if oi_type oi \<noteq> OSPF_IFTYPE_VIRTUALLINK \<and> external_default area
                then foldl (ospf_db_summary_add now) nbr (ext_lsas area) else nbr);
     Some (NSM_DependUpon, set_nbr p nbr oi)
   }"

definition nsm_exchange_done :: "ospf_interface \<Rightarrow> nat \<Rightarrow> (nsm_state \<times> ospf_interface) option" where
  "nsm_exchange_done oi p = do {
     nbr \<leftarrow> nstore oi p;
     if ospf_ls_request_isempty nbr then Some (NSM_Full, oi)
     else Some (NSM_Loading, act (LsReqSend p) oi)
   }"

definition nsm_reset_handler :: "ospf_interface \<Rightarrow> nat \<Rightarrow> (nsm_state \<times> ospf_interface) option" where
  "nsm_reset_handler oi p = do {
     nbr \<leftarrow> nstore oi p;
     Some (NSM_DependUpon, set_nbr p (nsm_reset_nbr nbr) oi)
   }"

definition nsm_bad_ls_req :: "ospf_interface \<Rightarrow> nat \<Rightarrow> (nsm_state \<times> ospf_interface) option" where
  "nsm_bad_ls_req oi p = nsm_reset_handler oi p"

definition nsm_seq_number_mismatch :: "ospf_interface \<Rightarrow> nat \<Rightarrow> (nsm_state \<times> ospf_interface) option" where
  "nsm_seq_number_mismatch oi p = nsm_reset_handler oi p"

definition nsm_oneway_received :: "ospf_interface \<Rightarrow> nat \<Rightarrow> (nsm_state \<times> ospf_interface) option" where
  "nsm_oneway_received oi p = nsm_reset_handler oi p"

definition nsm_adj_ok :: "ospf_interface \<Rightarrow> nat \<Rightarrow> (nsm_state \<times> ospf_interface) option" where
  "nsm_adj_ok oi p = do {
     nbr \<leftarrow> nstore oi p;
     d \<leftarrow> DR oi;
     b \<leftarrow> BDR oi;
     let flag = must_be_adjacent oi \<or> oi_address oi = d \<or> oi_address oi = b \<or> naddress nbr = d \<or> naddress nbr = b;
     Some (if nstate nbr = NSM_TwoWay \<and> flag then NSM_ExStart
           else if nstate nbr \<ge> NSM_ExStart \<and> \<not> flag then NSM_TwoWay
           else nstate nbr, oi)
   }"

subsection \<open>State change\<close>

text \<open>A neighbor of the interface enters or leaves the state Full: the counters, then the LSAs to originate.\<close>

definition full_gained :: "ospf_area \<Rightarrow> ospf_interface \<Rightarrow> ospf_interface" where
  "full_gained area oi =
     (let oi = act CheckAbrStatus
            (oi\<lparr>full_nbrs := full_nbrs oi + 1, oi_area := Some (area\<lparr>area_full_nbrs := area_full_nbrs area + 1\<rparr>)\<rparr>);
          oi = (case full_vls oi of
                  Some v \<Rightarrow> if oi_type oi = OSPF_IFTYPE_VIRTUALLINK
                    then (if v + 1 = 1 then act ScheduleAbrTask else id) (oi\<lparr>full_vls := Some (v + 1)\<rparr>) else oi
                | None \<Rightarrow> oi)
      in act ExternalLsaRefresh oi)"

definition full_lost :: "nat \<Rightarrow> ospf_neighbor \<Rightarrow> ospf_area \<Rightarrow> ospf_interface \<Rightarrow> ospf_interface" where
  "full_lost p nbr area oi =
     (let oi = act CheckAbrStatus
            (oi\<lparr>full_nbrs := full_nbrs oi - 1, oi_area := Some (area\<lparr>area_full_nbrs := area_full_nbrs area - 1\<rparr>)\<rparr>);
          oi = (case full_vls oi of
                  Some v \<Rightarrow> if oi_type oi = OSPF_IFTYPE_VIRTUALLINK \<and> v > 0
                    then (if v - 1 = 0 then act ScheduleAbrTask else id) (oi\<lparr>full_vls := Some (v - 1)\<rparr>) else oi
                | None \<Rightarrow> oi)
      in set_nbr p (if \<not> ospf_ls_retransmit_isempty nbr then ospf_ls_retransmit_clear nbr else nbr) oi)"

definition full_lsas :: "ospf_interface \<Rightarrow> ospf_interface" where
  "full_lsas oi =
     (let oi = act RouterLsaTimerAdd oi;
          oi = (if oi_type oi = OSPF_IFTYPE_VIRTUALLINK \<and> full_vls oi \<noteq> None then act VlRouterLsaTimerAdd oi else oi)
      in if oi_state oi = ISM_DR
         then (if network_lsa_self oi \<and> full_nbrs oi = 0
               then act FlushNetworkLsa (oi\<lparr>network_lsa_self := False, t_network_lsa_self := False\<rparr>)
               else act NetworkLsaTimerAdd oi)
         else oi)"

definition full_changed :: "nat \<Rightarrow> nsm_state \<Rightarrow> ospf_interface \<Rightarrow> ospf_interface option" where
  "full_changed p state oi = do {
     area \<leftarrow> oi_area oi;
     nbr \<leftarrow> nstore oi p;
     Some (full_lsas (if state = NSM_Full then full_gained area oi else full_lost p nbr area oi))
   }"

text \<open>The new neighbor fields for the state \<open>ExStart\<close> and \<open>Down\<close>; \<open>tm\<close> is what \<open>time (NULL)\<close> returns.\<close>

definition start_dd :: "u32 \<Rightarrow> nat \<Rightarrow> nsm_state \<Rightarrow> ospf_interface \<Rightarrow> ospf_interface option" where
  "start_dd tm p state oi = do {
     nbr \<leftarrow> nstore oi p;
     let oi = (if state = NSM_ExStart
               then act (DbDescSend p)
                 (set_nbr p (nbr\<lparr>dd_seqnum := (if dd_seqnum nbr = 0 then tm else dd_seqnum nbr + 1), dd_flags := 7\<rparr>) oi)
               else oi);
     nbr \<leftarrow> nstore oi p;
     Some (if state = NSM_Down then set_nbr p (nbr\<lparr>ncrypt_seqnum := 0\<rparr>) oi else oi)
   }"

definition nsm_change_state :: "u32 \<Rightarrow> ospf_interface \<Rightarrow> nat \<Rightarrow> nsm_state \<Rightarrow> ospf_interface option" where
  "nsm_change_state tm oi p state = do {
     nbr \<leftarrow> nstore oi p;
     let old_state = nstate nbr;
     let oi = set_nbr p (nbr\<lparr>nstate := state, nstate_change := nstate_change nbr + 1\<rparr>) oi;
     oi \<leftarrow> (if (old_state \<noteq> NSM_Full \<and> state = NSM_Full) \<or> (old_state = NSM_Full \<and> state \<noteq> NSM_Full)
           then full_changed p state oi else Some oi);
     oi \<leftarrow> start_dd tm p state oi;
     oi \<leftarrow> (if oi_state oi = ISM_DROther \<or> oi_state oi = ISM_Backup \<or> oi_state oi = ISM_DR
           then if (old_state < NSM_TwoWay \<and> state \<ge> NSM_TwoWay) \<or> (old_state \<ge> NSM_TwoWay \<and> state < NSM_TwoWay)
                then ism_neighbor_change_event oi else Some oi
           else Some oi);
     Some (if state = NSM_Init then oi\<lparr>t_hello := True\<rparr> else oi)
   }"

definition nsm_kill_nbr :: "u32 \<Rightarrow> ospf_interface \<Rightarrow> nat \<Rightarrow> (nsm_state \<times> ospf_interface) option" where
  "nsm_kill_nbr tm oi p = do {
     oi \<leftarrow> nsm_change_state tm oi p NSM_Down;
     nbr \<leftarrow> nstore oi p;
     oi \<leftarrow> ospf_nbr_delete (set_nbr p (nsm_reset_nbr nbr) oi) p;
     Some (NSM_DependUpon, oi)
   }"

definition nsm_inactivity_timer :: "u32 \<Rightarrow> ospf_interface \<Rightarrow> nat \<Rightarrow> (nsm_state \<times> ospf_interface) option" where
  "nsm_inactivity_timer tm oi p = nsm_kill_nbr tm oi p"

definition nsm_ll_down :: "u32 \<Rightarrow> ospf_interface \<Rightarrow> nat \<Rightarrow> (nsm_state \<times> ospf_interface) option" where
  "nsm_ll_down tm oi p = nsm_kill_nbr tm oi p"

subsection \<open>The transition table and the dispatch\<close>

datatype nsm_func =
  G_ignore | G_hello_received | G_start | G_twoway_received | G_negotiation_done | G_exchange_done | G_bad_ls_req
  | G_adj_ok | G_seq_number_mismatch | G_oneway_received | G_kill_nbr | G_inactivity_timer | G_ll_down

fun NSM :: "nsm_state \<Rightarrow> nsm_event \<Rightarrow> nsm_func \<times> nsm_state" where
  "NSM NSM_DependUpon e = (G_ignore, NSM_DependUpon)"
| "NSM s NSM_NoEvent = (G_ignore, NSM_DependUpon)"
| "NSM s NSM_KillNbr = (G_kill_nbr, NSM_Down)"
| "NSM s NSM_InactivityTimer = (G_inactivity_timer, NSM_Down)"
| "NSM s NSM_LLDown = (G_ll_down, NSM_Down)"
| "NSM NSM_Down NSM_HelloReceived = (G_hello_received, NSM_Init)"
| "NSM NSM_Down NSM_Start = (G_start, NSM_Attempt)"
| "NSM NSM_Down e = (G_ignore, NSM_Down)"
| "NSM NSM_Attempt NSM_HelloReceived = (G_hello_received, NSM_Init)"
| "NSM NSM_Attempt e = (G_ignore, NSM_Attempt)"
| "NSM s NSM_HelloReceived = (G_hello_received, s)"
| "NSM NSM_Init NSM_TwoWayReceived = (G_twoway_received, NSM_DependUpon)"
| "NSM NSM_Init e = (G_ignore, NSM_Init)"
| "NSM s NSM_AdjOK = (G_adj_ok, NSM_DependUpon)"
| "NSM s NSM_OneWayReceived = (G_oneway_received, NSM_Init)"
| "NSM NSM_TwoWay e = (G_ignore, NSM_TwoWay)"
| "NSM NSM_ExStart NSM_NegotiationDone = (G_negotiation_done, NSM_Exchange)"
| "NSM NSM_ExStart e = (G_ignore, NSM_ExStart)"
| "NSM s NSM_BadLSReq = (G_bad_ls_req, NSM_ExStart)"
| "NSM s NSM_SeqNumberMismatch = (G_seq_number_mismatch, NSM_ExStart)"
| "NSM NSM_Exchange NSM_ExchangeDone = (G_exchange_done, NSM_DependUpon)"
| "NSM NSM_Exchange e = (G_ignore, NSM_Exchange)"
| "NSM s NSM_LoadingDone = (G_ignore, NSM_Full)"
| "NSM s e = (G_ignore, s)"

definition nsm_func_run ::
  "timeval \<Rightarrow> u32 \<Rightarrow> nsm_func \<Rightarrow> ospf_interface \<Rightarrow> nat \<Rightarrow> (nsm_state \<times> ospf_interface) option" where
  "nsm_func_run now tm f oi p =
     (case f of
        G_ignore \<Rightarrow> nsm_ignore oi p
      | G_hello_received \<Rightarrow> nsm_hello_received oi p
      | G_start \<Rightarrow> nsm_start oi p
      | G_twoway_received \<Rightarrow> nsm_twoway_received oi p
      | G_negotiation_done \<Rightarrow> nsm_negotiation_done now oi p
      | G_exchange_done \<Rightarrow> nsm_exchange_done oi p
      | G_bad_ls_req \<Rightarrow> nsm_bad_ls_req oi p
      | G_adj_ok \<Rightarrow> nsm_adj_ok oi p
      | G_seq_number_mismatch \<Rightarrow> nsm_seq_number_mismatch oi p
      | G_oneway_received \<Rightarrow> nsm_oneway_received oi p
      | G_kill_nbr \<Rightarrow> nsm_kill_nbr tm oi p
      | G_inactivity_timer \<Rightarrow> nsm_inactivity_timer tm oi p
      | G_ll_down \<Rightarrow> nsm_ll_down tm oi p)"

definition ospf_nsm_event :: "timeval \<Rightarrow> u32 \<Rightarrow> ospf_interface \<Rightarrow> nat \<Rightarrow> nsm_event \<Rightarrow> ospf_interface option" where
  "ospf_nsm_event now tm oi p event = do {
     nbr \<leftarrow> nstore oi p;
     (next_state, oi) \<leftarrow> nsm_func_run now tm (fst (NSM (nstate nbr) event)) oi p;
     if event = NSM_KillNbr \<or> event = NSM_InactivityTimer then Some oi
     else do {
       nbr \<leftarrow> nstore oi p;
       let next_state = (if next_state = NSM_DependUpon then snd (NSM (nstate nbr) event) else next_state);
       oi \<leftarrow> (if next_state \<noteq> nstate nbr then nsm_change_state tm oi p next_state else Some oi);
       nbr \<leftarrow> nstore oi p;
       Some (set_nbr p (nsm_timer_set nbr) oi)
     }
   }"


subsection \<open>Interface down\<close>

fun kill_nbrs :: "timeval \<Rightarrow> u32 \<Rightarrow> nat list \<Rightarrow> ospf_interface \<Rightarrow> ospf_interface option" where
  "kill_nbrs now tm [] oi = Some oi"
| "kill_nbrs now tm (p # ps) oi = do {
     oi \<leftarrow> (if p \<noteq> nbr_self oi then ospf_nsm_event now tm oi p NSM_KillNbr else Some oi);
     kill_nbrs now tm ps oi
   }"

text \<open>\<open>ospf_if_cleanup\<close>; \<open>q\<close> is the address of the new pseudo neighbor.  The lists of pending acknowledgments
  and updates are not part of the model.\<close>

definition ospf_if_cleanup :: "timeval \<Rightarrow> u32 \<Rightarrow> nat \<Rightarrow> ospf_interface \<Rightarrow> ospf_interface option" where
  "ospf_if_cleanup now tm q oi = do {
     oi \<leftarrow> kill_nbrs now tm (map snd (ntable oi)) oi;
     let oi = oi\<lparr>oi_crypt_seqnum := 0\<rparr>;
     oi \<leftarrow> ospf_nbr_delete oi (nbr_self oi);
     area \<leftarrow> oi_area oi;
     let nbr = ospf_nbr_new\<lparr>nstate := NSM_TwoWay, npriority := if_priority oi, router_id := my_router_id oi,
                 nsrc := oi_address oi, naddress := oi_address oi\<rparr>;
     let nbr = (if external_default area then nbr\<lparr>noptions := noptions nbr OR 2\<rparr>
                else nbr\<lparr>noptions := noptions nbr AND NOT 2\<rparr>);
     let oi = (set_nbr q nbr oi)\<lparr>nbr_self := q\<rparr>;
     Some ((ospf_nbr_add_self oi)\<lparr>network_lsa_self := False, t_network_lsa_self := False\<rparr>)
   }"

definition ism_interface_down :: "timeval \<Rightarrow> u32 \<Rightarrow> nat \<Rightarrow> ospf_interface \<Rightarrow> (ism_state \<times> ospf_interface) option" where
  "ism_interface_down now tm q oi = do {
     oi \<leftarrow> ospf_if_cleanup now tm q oi;
     Some (ISM_DependUpon, oi)
   }"

definition ospf_ism_event :: "timeval \<Rightarrow> u32 \<Rightarrow> nat \<Rightarrow> ospf_interface \<Rightarrow> ism_event \<Rightarrow> ospf_interface option" where
  "ospf_ism_event now tm q oi event = ism_dispatch (ism_interface_down now tm q) oi event"

subsection \<open>Reception of a Hello packet\<close>

text \<open>The fields of the packet and of its headers that the handler reads, and the configuration it compares them with.\<close>

record hello_packet =
  h_src :: u32
  h_router_id :: u32
  h_masklen :: u8
  h_hello_interval :: u16
  h_dead_interval :: u32
  h_options :: u8
  h_priority :: u8
  h_d_router :: u32
  h_bd_router :: u32
  h_neighbors :: "u32 list"
  h_crypt_seqnum :: "u32 option"

record hello_config =
  c_passive :: bool
  c_masklen :: u8
  c_v_hello :: u16
  c_v_wait :: u32
  c_options :: u8

definition hello_accepted :: "hello_config \<Rightarrow> ospf_interface \<Rightarrow> hello_packet \<Rightarrow> bool" where
  "hello_accepted c oi h \<longleftrightarrow>
     \<not> h_router_id h = my_router_id oi
   \<and> \<not> c_passive c
   \<and> \<not> (oi_type oi \<noteq> OSPF_IFTYPE_POINTOPOINT \<and> oi_type oi \<noteq> OSPF_IFTYPE_VIRTUALLINK \<and> c_masklen c \<noteq> h_masklen h)
   \<and> \<not> c_v_hello c \<noteq> h_hello_interval h
   \<and> \<not> c_v_wait c \<noteq> h_dead_interval h
   \<and> \<not> h_options h AND 1 \<noteq> 0
   \<and> \<not> (c_options c AND 2 \<noteq> h_options h AND 2)"

definition hello_set_info :: "hello_packet \<Rightarrow> nat \<Rightarrow> ospf_interface \<Rightarrow> ospf_interface option" where
  "hello_set_info h p oi = do {
     nbr \<leftarrow> nstore oi p;
     Some (set_nbr p (nbr\<lparr>npriority := uint (h_priority h), d_router := h_d_router h, bd_router := h_bd_router h\<rparr>) oi)
   }"

text \<open>The interface events the handler schedules after a bidirectional Hello.\<close>

definition hello_schedules :: "hello_packet \<Rightarrow> ospf_interface \<Rightarrow> ospf_neighbor \<Rightarrow> ism_event list" where
  "hello_schedules h oi nbr =
     (if naddress nbr = h_d_router h \<and> h_bd_router h = 0 \<and> oi_state oi = ISM_Waiting then [ISM_BackupSeen] else [])
   @ (if oi_state oi = ISM_Waiting \<and> naddress nbr = h_bd_router h then [ISM_BackupSeen] else [])
   @ (if naddress nbr = h_d_router h \<and> naddress nbr \<noteq> d_router nbr
         \<or> naddress nbr \<noteq> h_d_router h \<and> naddress nbr = d_router nbr then [ISM_NeighborChange] else [])
   @ (if naddress nbr = h_bd_router h \<and> naddress nbr \<noteq> bd_router nbr
         \<or> naddress nbr \<noteq> h_bd_router h \<and> naddress nbr = bd_router nbr then [ISM_NeighborChange] else [])
   @ (if npriority nbr \<ge> 0 \<and> npriority nbr \<noteq> uint (h_priority h) then [ISM_NeighborChange] else [])"

text \<open>The neighbor of the packet: the one in the table, or a new one at the address \<open>q\<close>.\<close>

definition hello_neighbor :: "nat \<Rightarrow> ospf_interface \<Rightarrow> hello_packet \<Rightarrow> (nat \<times> ospf_interface) option" where
  "hello_neighbor q oi h =
     (case map_of (ntable oi) (h_src h) of
        Some p \<Rightarrow> do {
          nbr \<leftarrow> nstore oi p;
          Some (p, if oi_type oi = OSPF_IFTYPE_NBMA \<and> nstate nbr = NSM_Attempt
                   then set_nbr p (nbr\<lparr>nsrc := h_src h, naddress := h_src h\<rparr>) oi else oi)
        }
      | None \<Rightarrow>
          let nbr = ospf_nbr_new\<lparr>nstate := NSM_Down, nsrc := h_src h, naddress := h_src h\<rparr>;
              nbr = (case h_crypt_seqnum h of Some c \<Rightarrow> nbr\<lparr>ncrypt_seqnum := c\<rparr> | None \<Rightarrow> nbr)
          in Some (q, nbr_enter (h_src h) q (set_nbr q nbr oi)))"

text \<open>Some (oi, es): the interface after the packet and the interface events it schedules.\<close>

definition ospf_hello ::
  "timeval \<Rightarrow> u32 \<Rightarrow> nat \<Rightarrow> hello_config \<Rightarrow> ospf_interface \<Rightarrow> hello_packet \<Rightarrow> (ospf_interface \<times> ism_event list) option" where
  "ospf_hello now tm q c oi h =
     (let oi = oi\<lparr>hello_in := hello_in oi + 1\<rparr> in
      if \<not> hello_accepted c oi h then Some (oi, [])
      else do {
        (p, oi) \<leftarrow> hello_neighbor q oi h;
        nbr \<leftarrow> nstore oi p;
        let oi = set_nbr p (nbr\<lparr>router_id := h_router_id h\<rparr>) oi;
        let old_state = nstate nbr;
        oi \<leftarrow> ospf_nsm_event now tm oi p NSM_HelloReceived;
        nbr \<leftarrow> nstore oi p;
        me \<leftarrow> nstore oi (nbr_self oi);
        let oi = (if oi_type oi = OSPF_IFTYPE_NBMA \<and> npriority me = 0 \<and> h_priority h > 0
                     \<and> d_router me \<noteq> h_src h \<and> bd_router me \<noteq> h_src h
                  then set_nbr p (nbr\<lparr>t_hello_reply := True\<rparr>) oi else oi);
        if oi_type oi = OSPF_IFTYPE_NBMA \<and> (old_state = NSM_Down \<or> old_state = NSM_Attempt) then do {
          oi \<leftarrow> ospf_nsm_event now tm oi p NSM_OneWayReceived;
          oi \<leftarrow> hello_set_info h p oi;
          Some (oi, [])
        }
        else if ospf_nbr_bidirectional (my_router_id oi) (h_neighbors h) then do {
          oi \<leftarrow> ospf_nsm_event now tm oi p NSM_TwoWayReceived;
          nbr \<leftarrow> nstore oi p;
          let nbr = nbr\<lparr>noptions := noptions nbr OR h_options h\<rparr>;
          let oi = set_nbr p nbr oi;
          let es = hello_schedules h oi nbr;
          oi \<leftarrow> hello_set_info h p oi;
          Some (oi, es)
        }
        else do {
          oi \<leftarrow> ospf_nsm_event now tm oi p NSM_OneWayReceived;
          oi \<leftarrow> hello_set_info h p oi;
          Some (oi, [])
        }
      })"


section \<open>The invariant of an interface and its neighbors\<close>

definition full1 :: "ospf_neighbor option \<Rightarrow> u32" where
  "full1 n = (case n of Some n \<Rightarrow> if nstate n = NSM_Full then 1 else 0 | None \<Rightarrow> 0)"

definition full_sum :: "ospf_interface \<Rightarrow> u32" where
  "full_sum oi = (\<Sum>p\<leftarrow>map snd (ntable oi). full1 (nstore oi p))"

text \<open>The table is a function from source addresses to live neighbors, the pseudo neighbor of the router is in
  it under the address of the interface and not Full, the roles are consistent, nothing is in the dummy state, and \<open>full_nbrs\<close> is the
  number of Full neighbors.\<close>

definition nsm_inv :: "ospf_interface \<Rightarrow> bool" where
  "nsm_inv oi \<longleftrightarrow> ism_wf oi \<and> ism_role_ok oi \<and> oi_area oi \<noteq> None
     \<and> distinct (map fst (ntable oi)) \<and> distinct (map snd (ntable oi))
     \<and> (\<forall>e\<in>set (ntable oi). map_option nsrc (nstore oi (snd e)) = Some (fst e)
          \<and> map_option nstate (nstore oi (snd e)) \<noteq> Some NSM_DependUpon)
     \<and> (oi_address oi, nbr_self oi) \<in> set (ntable oi) \<and> full1 (nstore oi (nbr_self oi)) = 0
     \<and> full_nbrs oi = full_sum oi \<and> oi_state oi \<noteq> ISM_DependUpon"

lemma full_sum_length:
  "full_sum oi = of_nat (length (filter (\<lambda>p. map_option nstate (nstore oi p) = Some NSM_Full) (map snd (ntable oi))))"
proof -
  have "(\<Sum>p\<leftarrow>ps. full1 (nstore oi p)) = of_nat (length (filter (\<lambda>p. map_option nstate (nstore oi p) = Some NSM_Full) ps))" for ps
    by (induction ps) (auto simp: full1_def split: option.splits)
  then show ?thesis unfolding full_sum_def .
qed

lemma ism_role_ok_self:
  "nstore oi (nbr_self oi) = Some me \<Longrightarrow> ism_role_ok oi \<longleftrightarrow> role_agrees (oi_address oi) (d_router me, bd_router me) (oi_state oi)"
  by (simp add: ism_role_ok_def DR_def BDR_def)

lemma ism_role_ok_cong:
  "oi_address x = oi_address y \<Longrightarrow> nstore x (nbr_self x) = nstore y (nbr_self y) \<Longrightarrow> oi_state x = oi_state y \<Longrightarrow> ism_role_ok x = ism_role_ok y"
  by (cases "nstore y (nbr_self y)") (simp_all add: ism_role_ok_def DR_def BDR_def)

lemma nsm_inv_cong:
  assumes "oi_address x = oi_address y" "nstore x = nstore y" "ntable x = ntable y" "nbr_self x = nbr_self y"
    "oi_state x = oi_state y" "full_nbrs x = full_nbrs y" "(oi_area x = None) = (oi_area y = None)"
  shows "nsm_inv x = nsm_inv y"
  unfolding nsm_inv_def using ism_wf_cong [OF assms(1-4)] ism_role_ok_cong [of x y] assms by (simp add: full_sum_def)

lemma nsm_invD:
  assumes "nsm_inv oi"
  shows "ism_wf oi" "ism_role_ok oi" "oi_area oi \<noteq> None" "distinct (map fst (ntable oi))" "distinct (map snd (ntable oi))"
    "full_nbrs oi = full_sum oi" "oi_state oi \<noteq> ISM_DependUpon"
    "(a, p) \<in> set (ntable oi) \<Longrightarrow> \<exists>n. nstore oi p = Some n \<and> nsrc n = a \<and> nstate n \<noteq> NSM_DependUpon"
  using assms by (fastforce simp: nsm_inv_def)+

lemma nsm_inv_self: "nsm_inv oi \<Longrightarrow> \<exists>a me. (a, nbr_self oi) \<in> set (ntable oi) \<and> nstore oi (nbr_self oi) = Some me \<and> nstate me \<noteq> NSM_Full"
  by (auto simp: nsm_inv_def ism_wf_def full1_def split: option.splits)

text \<open>What the operations of the two machines leave alone: everything that identifies the interface, the table, and
  every neighbor outside \<open>S\<close>.\<close>

definition oi_frame :: "nat set \<Rightarrow> ospf_interface \<Rightarrow> ospf_interface \<Rightarrow> bool" where
  "oi_frame S oi oi' \<longleftrightarrow> ntable oi' = ntable oi \<and> nbr_self oi' = nbr_self oi \<and> oi_address oi' = oi_address oi
     \<and> my_router_id oi' = my_router_id oi \<and> if_priority oi' = if_priority oi \<and> oi_type oi' = oi_type oi
     \<and> map_option external_default (oi_area oi') = map_option external_default (oi_area oi)
     \<and> (\<forall>q. q \<notin> S \<longrightarrow> nstore oi' q = nstore oi q)"

lemma oi_frame_refl [simp]: "oi_frame S oi oi"
  by (simp add: oi_frame_def)

lemma oi_frame_trans: "oi_frame S a b \<Longrightarrow> oi_frame T b c \<Longrightarrow> oi_frame (S \<union> T) a c"
  by (simp add: oi_frame_def)

lemma oi_frame_mono: "oi_frame S a b \<Longrightarrow> S \<subseteq> T \<Longrightarrow> oi_frame T a b"
  by (auto simp: oi_frame_def)

lemma oi_frame_set_nbr [simp]: "p \<in> S \<Longrightarrow> oi_frame S oi (set_nbr p n oi)"
  by (auto simp: oi_frame_def set_nbr_def)

lemma oi_frame_act [simp]: "oi_frame S a (act x b) = oi_frame S a b"
  by (simp add: oi_frame_def act_def)

lemma sum_list_update_nth:
  fixes f g :: "'b \<Rightarrow> 'a :: ab_group_add"
  assumes "distinct xs" "x \<in> set xs" "\<And>y. y \<in> set xs \<Longrightarrow> y \<noteq> x \<Longrightarrow> g y = f y"
  shows "sum_list (map g xs) = sum_list (map f xs) + g x - f x"
  using assms
proof (induction xs)
  case (Cons a xs)
  show ?case
  proof (cases "x = a")
    case True
    then have "\<forall>y\<in>set xs. g y = f y" using Cons.prems by auto
    then have "map g xs = map f xs" by (simp only: map_eq_conv)
    then show ?thesis using True by (simp only: list.map sum_list.Cons) simp
  next
    case False
    then show ?thesis using Cons by (simp add: algebra_simps)
  qed
qed simp

text \<open>Replacing a neighbor by one with the same addresses.\<close>

lemma nsm_inv_set_nbr:
  assumes inv: "nsm_inv oi" and p: "p \<in> set (map snd (ntable oi))" "p \<noteq> nbr_self oi" "nstore oi p = Some n"
    and n': "naddress n' = naddress n" "nsrc n' = nsrc n" "nstate n' \<noteq> NSM_DependUpon"
    and c: "full_nbrs oi' = full_nbrs oi + full1 (Some n') - full1 (Some n)" "nstore oi' = (nstore oi)(p \<mapsto> n')"
    and f: "ntable oi' = ntable oi" "nbr_self oi' = nbr_self oi" "oi_address oi' = oi_address oi" "oi_state oi' = oi_state oi"
      "(oi_area oi' = None) = (oi_area oi = None)"
  shows "nsm_inv oi'"
proof -
  have "ism_wf oi'" using nsm_invD(1) [OF inv] p n' unfolding ism_wf_def f c(2) by (auto split: option.splits)
  moreover have "ism_role_ok oi' = ism_role_ok oi" using p(2) by (intro ism_role_ok_cong) (simp_all add: c(2) f)
  moreover have "full_sum oi' = full_sum oi + full1 (Some n') - full1 (Some n)"
    unfolding full_sum_def f(1) using nsm_invD(5) [OF inv] p
    by (subst sum_list_update_nth [of _ p]) (auto simp: c(2))
  moreover have "\<forall>e\<in>set (ntable oi'). map_option nsrc (nstore oi' (snd e)) = Some (fst e)
      \<and> map_option nstate (nstore oi' (snd e)) \<noteq> Some NSM_DependUpon"
    using inv p(3) n'(2,3) by (auto simp: nsm_inv_def f(1) c(2))
  ultimately show ?thesis using inv p(2) c(1) f by (simp add: nsm_inv_def c(2))
qed

lemma nsm_inv_set_same:
  assumes "nsm_inv oi" "p \<in> set (map snd (ntable oi))" "p \<noteq> nbr_self oi" "nstore oi p = Some n"
    "naddress n' = naddress n" "nsrc n' = nsrc n" "nstate n' = nstate n"
  shows "nsm_inv (set_nbr p n' oi)"
proof -
  have "nstate n' \<noteq> NSM_DependUpon" using nsm_invD(8) [OF assms(1)] assms(2,4,7) by fastforce
  then show ?thesis using assms by (intro nsm_inv_set_nbr [OF assms(1-6)]) (simp_all add: set_nbr_def full1_def)
qed

lemma nsm_inv_act [simp]: "nsm_inv (act x oi) = nsm_inv oi"
  by (rule nsm_inv_cong) (simp_all add: act_def)

section \<open>Interface events that elect\<close>

lemma ism_timer_set_frame [simp]:
  "oi_frame S a (ism_timer_set b) = oi_frame S a b" "nsm_inv (ism_timer_set b) = nsm_inv b"
  "oi_state (ism_timer_set b) = oi_state b" "nstore (ism_timer_set b) = nstore b"
proof -
  show "nsm_inv (ism_timer_set b) = nsm_inv b"
    by (rule nsm_inv_cong) (simp_all add: ism_timer_set_def split: ism_state.split)
qed (simp_all add: oi_frame_def ism_timer_set_def split: ism_state.split)

lemma ism_change_state_area: "(oi_area (ism_change_state oi s) = None) = (oi_area oi = None)"
  "map_option external_default (oi_area (ism_change_state oi s)) = map_option external_default (oi_area oi)"
  by (simp_all add: ism_change_state_def Let_def act_def split: option.split)

lemma ism_change_state_inv:
  assumes "nsm_inv oi" "s \<noteq> ISM_DR" "s \<noteq> ISM_Backup" "s \<noteq> ISM_DependUpon"
  shows "nsm_inv (ism_change_state oi s)"
proof -
  have "ism_role_ok (ism_change_state oi s)"
    using assms nsm_invD(2) [OF assms(1)] by (auto simp: ism_role_ok_def DR_def BDR_def ism_change_state_frame role_agrees_def split: option.splits)
  moreover have "ism_wf (ism_change_state oi s) = ism_wf oi" by (rule ism_wf_cong) (simp_all add: ism_change_state_frame)
  ultimately show ?thesis using assms(1,4)
    by (simp add: nsm_inv_def ism_change_state_frame ism_change_state_area full_sum_def)
qed

lemma role_range: "role a db = ISM_DR \<or> role a db = ISM_Backup \<or> role a db = ISM_DROther"
  by (simp add: role_def)

text \<open>After an election the interface is in the state of its role, and the invariant holds again.\<close>

lemma elected_inv:
  assumes inv: "nsm_inv oi" and oi1: "oi1 = (set_self d b oi)\<lparr>acts := as\<rparr>"
    and oi2: "oi2 = (if role (oi_address oi) (d, b) \<noteq> oi_state oi1 then ism_change_state oi1 (role (oi_address oi) (d, b)) else oi1)"
  shows "nsm_inv oi2" "oi_frame {nbr_self oi} oi oi2" "oi_state oi2 = role (oi_address oi) (d, b)"
proof -
  have f: "nstore oi2 = nstore (set_self d b oi)" "ntable oi2 = ntable oi" "nbr_self oi2 = nbr_self oi" "oi_address oi2 = oi_address oi"
    "full_nbrs oi2 = full_nbrs oi" "my_router_id oi2 = my_router_id oi" "if_priority oi2 = if_priority oi" "oi_type oi2 = oi_type oi"
    "(oi_area oi2 = None) = (oi_area oi = None)" "map_option external_default (oi_area oi2) = map_option external_default (oi_area oi)"
    unfolding oi2 oi1 by (simp_all add: ism_change_state_frame ism_change_state_area set_self_def)
  show st: "oi_state oi2 = role (oi_address oi) (d, b)" unfolding oi2 by (simp add: ism_change_state_frame)
  show "oi_frame {nbr_self oi} oi oi2" using f by (simp add: oi_frame_def set_self_def)
  have wf: "ism_wf (set_self d b oi)" using nsm_invD(1) [OF inv] by simp
  have "ism_wf oi2 = ism_wf (set_self d b oi)" by (rule ism_wf_cong) (simp_all add: f)
  moreover have "ism_role_ok oi2"
  proof -
    obtain me where me: "nstore oi2 (nbr_self oi2) = Some me" "d_router me = d" "bd_router me = b"
      using set_self_DR [OF nsm_invD(1) [OF inv], of d b] by (auto simp: DR_def BDR_def f)
    show ?thesis unfolding ism_role_ok_self [OF me(1)] me f st by (rule role_new_agrees)
  qed
  moreover have full: "full1 (nstore oi2 q) = full1 (nstore oi q)" for q
    unfolding f(1) by (cases "nstore oi (nbr_self oi)") (auto simp: set_self_def full1_def)
  moreover have "map_option nsrc (nstore oi2 q) = map_option nsrc (nstore oi q)"
    "map_option nstate (nstore oi2 q) = map_option nstate (nstore oi q)" for q
    unfolding f(1) by (cases "nstore oi (nbr_self oi)"; auto simp: set_self_def)+
  moreover have "oi_state oi2 \<noteq> ISM_DependUpon" using role_range [of "oi_address oi" "(d, b)"] st by auto
  ultimately show "nsm_inv oi2" using inv wf f by (simp add: nsm_inv_def full_sum_def)
qed

lemma ism_election_event:
  assumes inv: "nsm_inv oi" and f: "fst (ISM (oi_state oi) e) \<in> {F_wait_timer, F_backup_seen, F_neighbor_change}"
  shows "\<exists>oi'. ism_dispatch down oi e = Some oi' \<and> nsm_inv oi' \<and> oi_frame {nbr_self oi} oi oi'
    \<and> oi_state oi' \<in> {ISM_DR, ISM_Backup, ISM_DROther}"
proof -
  obtain me where me: "nstore oi (nbr_self oi) = Some me" "naddress me = oi_address oi"
    "DR oi = Some (d_router me)" "BDR oi = Some (bd_router me)" using ism_wf_self [OF nsm_invD(1) [OF inv]] .
  obtain d b where db: "elect (oi_address oi) (dr_candidates oi) (oi_state oi) (d_router me, bd_router me) = (d, b)" by fastforce
  from ospf_dr_election_run [OF nsm_invD(1) [OF inv] me(3,4) db] obtain as where
    run: "ospf_dr_election oi = Some (role (oi_address oi) (d, b), (set_self d b oi)\<lparr>acts := as\<rparr>)" by blast
  let ?oi1 = "(set_self d b oi)\<lparr>acts := as\<rparr>" and ?r = "role (oi_address oi) (d, b)"
  let ?oi2 = "if ?r \<noteq> oi_state ?oi1 then ism_change_state ?oi1 ?r else ?oi1"
  have "ism_func_run down (fst (ISM (oi_state oi) e)) oi = Some (?r, ?oi1)"
    using f run by (auto simp: ism_func_run_def ism_wait_timer_def ism_backup_seen_def ism_neighbor_change_def)
  moreover have "?r \<noteq> ISM_DependUpon" using role_range [of "oi_address oi" "(d, b)"] by auto
  ultimately have "ism_dispatch down oi e = Some (ism_timer_set ?oi2)" by (simp add: ism_dispatch_def)
  then show ?thesis using elected_inv [OF inv refl refl, of d b as] role_range [of "oi_address oi" "(d, b)"] by auto
qed

lemma ism_neighbor_change_run:
  assumes "nsm_inv oi" "oi_state oi = ISM_DROther \<or> oi_state oi = ISM_Backup \<or> oi_state oi = ISM_DR"
  shows "\<exists>oi'. ism_neighbor_change_event oi = Some oi' \<and> nsm_inv oi' \<and> oi_frame {nbr_self oi} oi oi'
    \<and> oi_state oi' \<in> {ISM_DR, ISM_Backup, ISM_DROther}"
  unfolding ism_neighbor_change_event_def using assms(2) by (intro ism_election_event [OF assms(1)]) auto


section \<open>State changes of a neighbor\<close>

text \<open>What a step in a state change may do: change fields of the neighbor \<open>p\<close> that are not its identity or state.\<close>

definition nbr_update :: "nat \<Rightarrow> u32 \<Rightarrow> ospf_interface \<Rightarrow> ospf_interface \<Rightarrow> bool" where
  "nbr_update p c oi oi' \<longleftrightarrow> (\<exists>n n'. nstore oi p = Some n \<and> nstore oi' = (nstore oi)(p \<mapsto> n') \<and> nstate n' = nstate n
     \<and> naddress n' = naddress n \<and> nsrc n' = nsrc n)
   \<and> full_nbrs oi' = full_nbrs oi + c \<and> oi_state oi' = oi_state oi \<and> (oi_area oi' = None) = (oi_area oi = None)
   \<and> oi_frame {p} oi oi'"

lemma act_simps [simp]:
  "nstore (act x oi) = nstore oi" "full_nbrs (act x oi) = full_nbrs oi" "oi_state (act x oi) = oi_state oi" "oi_area (act x oi) = oi_area oi"
  "ntable (act x oi) = ntable oi" "nbr_self (act x oi) = nbr_self oi" "oi_address (act x oi) = oi_address oi"
  "my_router_id (act x oi) = my_router_id oi" "if_priority (act x oi) = if_priority oi" "oi_type (act x oi) = oi_type oi"
  "full_vls (act x oi) = full_vls oi" "network_lsa_self (act x oi) = network_lsa_self oi"
  by (simp_all add: act_def)

lemma nbr_update_intro:
  assumes "nstore oi p = Some n" "nstore oi' = (nstore oi)(p \<mapsto> n')" "nstate n' = nstate n" "naddress n' = naddress n" "nsrc n' = nsrc n"
    "full_nbrs oi' = full_nbrs oi + c" "oi_state oi' = oi_state oi" "map_option external_default (oi_area oi') = map_option external_default (oi_area oi)"
    "ntable oi' = ntable oi" "nbr_self oi' = nbr_self oi" "oi_address oi' = oi_address oi" "my_router_id oi' = my_router_id oi"
    "if_priority oi' = if_priority oi" "oi_type oi' = oi_type oi"
  shows "nbr_update p c oi oi'"
  using assms map_option_is_None [of external_default "oi_area oi'"] unfolding nbr_update_def oi_frame_def by auto

lemma full_lsas_simps [simp]:
  "nstore (full_lsas oi) = nstore oi" "full_nbrs (full_lsas oi) = full_nbrs oi" "oi_state (full_lsas oi) = oi_state oi"
  "oi_area (full_lsas oi) = oi_area oi" "ntable (full_lsas oi) = ntable oi" "nbr_self (full_lsas oi) = nbr_self oi"
  "oi_address (full_lsas oi) = oi_address oi" "my_router_id (full_lsas oi) = my_router_id oi"
  "if_priority (full_lsas oi) = if_priority oi" "oi_type (full_lsas oi) = oi_type oi"
  by (simp_all add: full_lsas_def Let_def)

lemma full_changed_run:
  assumes "oi_area oi \<noteq> None" "nstore oi p = Some n"
  shows "\<exists>oi'. full_changed p s oi = Some oi' \<and> nbr_update p (if s = NSM_Full then 1 else - 1) oi oi'"
proof -
  obtain area where a: "oi_area oi = Some area" using assms(1) by blast
  let ?n = "if \<not> ospf_ls_retransmit_isempty n then ospf_ls_retransmit_clear n else n"
  have "nbr_update p 1 oi (full_lsas (full_gained area oi))"
    by (rule nbr_update_intro [OF assms(2) _ refl refl refl])
      (simp_all add: a full_gained_def Let_def fun_upd_idem assms(2) split: option.split)
  moreover have "nbr_update p (- 1) oi (full_lsas (full_lost p n area oi))"
    by (rule nbr_update_intro [OF assms(2), of _ ?n])
      (simp_all add: a full_lost_def Let_def set_nbr_def ospf_ls_retransmit_clear_def split: option.split)
  ultimately show ?thesis using a assms(2) by (simp add: full_changed_def)
qed

lemma start_dd_run:
  assumes "nstore oi p = Some n"
  shows "\<exists>oi'. start_dd tm p s oi = Some oi' \<and> nbr_update p 0 oi oi'"
proof -
  consider (ex) "s = NSM_ExStart" | (down) "s = NSM_Down" | (other) "s \<noteq> NSM_ExStart" "s \<noteq> NSM_Down" by blast
  then show ?thesis
  proof cases
    case ex
    let ?n = "n\<lparr>dd_seqnum := (if dd_seqnum n = 0 then tm else dd_seqnum n + 1), dd_flags := 7\<rparr>"
    have "start_dd tm p s oi = Some (act (DbDescSend p) (set_nbr p ?n oi))" using assms ex by (simp add: start_dd_def set_nbr_def)
    moreover have "nbr_update p 0 oi (act (DbDescSend p) (set_nbr p ?n oi))"
      by (rule nbr_update_intro [OF assms, of _ ?n]) (simp_all add: set_nbr_def)
    ultimately show ?thesis by blast
  next
    case down
    let ?n = "n\<lparr>ncrypt_seqnum := 0\<rparr>"
    have "start_dd tm p s oi = Some (set_nbr p ?n oi)" using assms down by (simp add: start_dd_def)
    moreover have "nbr_update p 0 oi (set_nbr p ?n oi)"
      by (rule nbr_update_intro [OF assms, of _ ?n]) (simp_all add: set_nbr_def)
    ultimately show ?thesis by blast
  next
    case other
    have "nbr_update p 0 oi oi" by (rule nbr_update_intro [OF assms, of _ n]) (simp_all add: fun_upd_idem assms)
    then show ?thesis using assms other by (simp add: start_dd_def)
  qed
qed

lemma nbr_update_trans:
  assumes "nbr_update p c a b" "nbr_update p d b e"
  shows "nbr_update p (c + d) a e"
proof -
  obtain n n' where n: "nstore a p = Some n" "nstore b = (nstore a)(p \<mapsto> n')" "nstate n' = nstate n" "naddress n' = naddress n" "nsrc n' = nsrc n"
    using assms(1) unfolding nbr_update_def by blast
  obtain m m' where m: "nstore b p = Some m" "nstore e = (nstore b)(p \<mapsto> m')" "nstate m' = nstate m" "naddress m' = naddress m" "nsrc m' = nsrc m"
    using assms(2) unfolding nbr_update_def by blast
  have "m = n'" using m(1) n(2) by simp
  then show ?thesis using assms n m
    by (intro nbr_update_intro [of a p n e m']) (auto simp: nbr_update_def oi_frame_def)
qed

text \<open>A state change returns, keeps the invariant, gives the neighbor the new state and touches no other neighbor but
  the pseudo neighbor of the router.\<close>

lemma nsm_change_state_run:
  assumes inv: "nsm_inv oi" and p: "p \<in> set (map snd (ntable oi))" "p \<noteq> nbr_self oi" "nstore oi p = Some n"
    and s: "s \<noteq> NSM_DependUpon"
  shows "\<exists>oi' n'. nsm_change_state tm oi p s = Some oi' \<and> nsm_inv oi' \<and> oi_frame {p, nbr_self oi} oi oi'
    \<and> nstore oi' p = Some n' \<and> nstate n' = s \<and> nsrc n' = nsrc n \<and> naddress n' = naddress n"
proof -
  let ?n1 = "n\<lparr>nstate := s, nstate_change := nstate_change n + 1\<rparr>"
  let ?oi1 = "set_nbr p ?n1 oi"
  let ?full = "(nstate n \<noteq> NSM_Full \<and> s = NSM_Full) \<or> (nstate n = NSM_Full \<and> s \<noteq> NSM_Full)"
  let ?cross = "(nstate n < NSM_TwoWay \<and> s \<ge> NSM_TwoWay) \<or> (nstate n \<ge> NSM_TwoWay \<and> s < NSM_TwoWay)"
  have p1: "nstore ?oi1 p = Some ?n1" by (simp add: set_nbr_def)
  have a1: "oi_area ?oi1 \<noteq> None" using nsm_invD(3) [OF inv] by (simp add: set_nbr_def)
  obtain oi2 where oi2: "(if ?full then full_changed p s ?oi1 else Some ?oi1) = Some oi2"
    "nbr_update p (full1 (Some ?n1) - full1 (Some n)) ?oi1 oi2"
  proof (cases ?full)
    case True
    then have "full1 (Some ?n1) - full1 (Some n) = (if s = NSM_Full then 1 else - 1)" by (auto simp: full1_def)
    then show thesis using full_changed_run [OF a1 p1, of s] True that by auto
  next
    case False
    then have "full1 (Some ?n1) - full1 (Some n) = 0" by (auto simp: full1_def)
    moreover have "nbr_update p 0 ?oi1 ?oi1" by (rule nbr_update_intro [OF p1, of _ ?n1]) (simp_all add: p1 fun_upd_idem)
    ultimately show thesis by (intro that [of ?oi1]) (simp_all only: if_not_P [OF False])
  qed
  obtain n2 where "nstore oi2 p = Some n2" using oi2(2) by (auto simp: nbr_update_def)
  from start_dd_run [OF this] obtain oi3 where oi3: "start_dd tm p s oi2 = Some oi3" "nbr_update p 0 oi2 oi3" by blast
  have u: "nbr_update p (full1 (Some ?n1) - full1 (Some n)) ?oi1 oi3" using nbr_update_trans [OF oi2(2) oi3(2)] by simp
  then obtain n3 where n3: "nstore oi3 = (nstore oi)(p \<mapsto> n3)" "nstate n3 = s" "naddress n3 = naddress n" "nsrc n3 = nsrc n"
    by (auto simp: nbr_update_def set_nbr_def)
  have f3: "ntable oi3 = ntable oi" "nbr_self oi3 = nbr_self oi" "oi_address oi3 = oi_address oi" "oi_state oi3 = oi_state oi"
    "(oi_area oi3 = None) = (oi_area oi = None)" "full_nbrs oi3 = full_nbrs oi + full1 (Some n3) - full1 (Some n)"
    using u n3(2) by (auto simp: nbr_update_def oi_frame_def set_nbr_def full1_def)
  have i3: "nsm_inv oi3" by (rule nsm_inv_set_nbr [OF inv p n3(3,4) _ f3(6) n3(1) f3(1-5)]) (simp add: n3(2) s)
  have r3: "oi_frame {p} oi oi3" using u by (auto simp: nbr_update_def oi_frame_def set_nbr_def)
  let ?ism = "oi_state oi3 = ISM_DROther \<or> oi_state oi3 = ISM_Backup \<or> oi_state oi3 = ISM_DR"
  obtain oi4 where oi4: "(if ?ism then if ?cross then ism_neighbor_change_event oi3 else Some oi3 else Some oi3) = Some oi4"
    "nsm_inv oi4" "oi_frame {nbr_self oi} oi3 oi4"
  proof (cases "?ism \<and> ?cross")
    case True
    then show thesis using ism_neighbor_change_run [OF i3] that f3(2) by auto
  next
    case False
    then have "(if ?ism then if ?cross then ism_neighbor_change_event oi3 else Some oi3 else Some oi3) = Some oi3" by argo
    then show thesis using that i3 by simp
  qed
  let ?oi5 = "if s = NSM_Init then oi4\<lparr>t_hello := True\<rparr> else oi4"
  have "nsm_change_state tm oi p s = Some ?oi5"
    unfolding nsm_change_state_def p(3) Let_def bind.bind_lunit oi2(1) oi3(1) oi4(1) by (rule refl)
  moreover have "nsm_inv ?oi5" using oi4(2) nsm_inv_cong [of "oi4\<lparr>t_hello := True\<rparr>" oi4] by simp
  moreover have "oi_frame {p, nbr_self oi} oi oi4" using oi_frame_trans [OF r3 oi4(3)] by (simp add: insert_commute)
  then have "oi_frame {p, nbr_self oi} oi ?oi5" by (simp add: oi_frame_def)
  moreover have "nstore ?oi5 p = Some n3" using oi4(3) n3(1) p(2) by (simp add: oi_frame_def)
  ultimately show ?thesis using n3 by blast
qed


section \<open>Events of a neighbor\<close>

text \<open>After a kill the neighbor is gone from the table and from the store; nothing else is but the pseudo neighbor.\<close>

definition nbr_killed :: "nat \<Rightarrow> ospf_interface \<Rightarrow> ospf_interface \<Rightarrow> bool" where
  "nbr_killed p oi oi' \<longleftrightarrow> ntable oi' = filter (\<lambda>e. snd e \<noteq> p) (ntable oi) \<and> nstore oi' p = None \<and> nbr_self oi' = nbr_self oi
     \<and> oi_address oi' = oi_address oi \<and> my_router_id oi' = my_router_id oi \<and> if_priority oi' = if_priority oi
     \<and> oi_type oi' = oi_type oi \<and> map_option external_default (oi_area oi') = map_option external_default (oi_area oi)
     \<and> (\<forall>q. q \<notin> {p, nbr_self oi} \<longrightarrow> nstore oi' q = nstore oi q)"

lemma table_filter_src:
  assumes "distinct (map fst t)" "distinct (map snd t)" "(a, p) \<in> set t"
  shows "filter (\<lambda>e. fst e \<noteq> a) t = filter (\<lambda>e. snd e \<noteq> p) t"
  using assms
proof (induction t)
  case (Cons e t)
  show ?case
  proof (cases "e = (a, p)")
    case True
    then have "\<forall>x\<in>set t. fst x \<noteq> a \<and> snd x \<noteq> p" using Cons.prems(1,2) by force
    then have "filter (\<lambda>e. fst e \<noteq> a) t = t" "filter (\<lambda>e. snd e \<noteq> p) t = t" by (simp_all add: filter_id_conv)
    then show ?thesis using True by simp
  next
    case False
    then have t: "(a, p) \<in> set t" using Cons.prems(3) by simp
    have "a \<in> set (map fst t)" "p \<in> set (map snd t)" using imageI [OF t, of fst] imageI [OF t, of snd] by simp_all
    then have "fst e \<noteq> a" "snd e \<noteq> p" using Cons.prems(1,2) by auto
    then show ?thesis using Cons t by simp
  qed
qed simp

lemma full_sum_remove:
  assumes "full1 (st p) = 0"
  shows "(\<Sum>q\<leftarrow>map snd (filter (\<lambda>e. snd e \<noteq> p) t). full1 ((st(p := None)) q)) = (\<Sum>q\<leftarrow>map snd t. full1 (st q))"
  using assms by (induction t) auto

lemma nsm_inv_remove:
  assumes inv: "nsm_inv oi" and p: "p \<noteq> nbr_self oi" "nstore oi p = Some n" "nstate n \<noteq> NSM_Full"
    and f: "ntable oi' = filter (\<lambda>e. snd e \<noteq> p) (ntable oi)" "nstore oi' = (nstore oi)(p := None)" "nbr_self oi' = nbr_self oi"
      "oi_address oi' = oi_address oi" "oi_state oi' = oi_state oi" "full_nbrs oi' = full_nbrs oi" "(oi_area oi' = None) = (oi_area oi = None)"
  shows "nsm_inv oi'"
proof -
  have "ism_wf oi'" using nsm_invD(1) [OF inv] p(1) unfolding ism_wf_def f by (auto split: option.splits)
  moreover have "ism_role_ok oi' = ism_role_ok oi" using p(1) by (intro ism_role_ok_cong) (simp_all add: f)
  moreover have "full_sum oi' = full_sum oi" unfolding full_sum_def f using p by (intro full_sum_remove) (simp add: full1_def)
  moreover have "distinct (map fst (ntable oi'))" "distinct (map snd (ntable oi'))"
    unfolding f using inv by (simp_all add: nsm_inv_def distinct_map_filter)
  moreover have "\<forall>e\<in>set (ntable oi'). map_option nsrc (nstore oi' (snd e)) = Some (fst e)
      \<and> map_option nstate (nstore oi' (snd e)) \<noteq> Some NSM_DependUpon" using inv unfolding f nsm_inv_def by auto
  ultimately show ?thesis using inv p(1) f by (simp add: nsm_inv_def)
qed

lemma nsm_reset_nbr_simps [simp]:
  "nstate (nsm_reset_nbr n) = nstate n" "naddress (nsm_reset_nbr n) = naddress n" "nsrc (nsm_reset_nbr n) = nsrc n"
  by (simp_all add: nsm_reset_nbr_def Let_def ospf_db_summary_clear_def ospf_ls_request_delete_all_def ospf_ls_retransmit_clear_def)

lemma nsm_timer_set_simps [simp]:
  "nstate (nsm_timer_set n) = nstate n" "naddress (nsm_timer_set n) = naddress n" "nsrc (nsm_timer_set n) = nsrc n"
  by (simp_all add: nsm_timer_set_def Let_def split: nsm_state.split)

lemma ospf_db_summary_add_simps [simp]:
  "nstate (foldl (ospf_db_summary_add now) n ls) = nstate n" "naddress (foldl (ospf_db_summary_add now) n ls) = naddress n"
  "nsrc (foldl (ospf_db_summary_add now) n ls) = nsrc n"
  by (induction ls arbitrary: n; simp add: ospf_db_summary_add_def ospf_ls_retransmit_add_def)+

lemma nsm_kill_nbr_run:
  assumes inv: "nsm_inv oi" and p: "p \<in> set (map snd (ntable oi))" "p \<noteq> nbr_self oi"
  shows "\<exists>oi'. nsm_kill_nbr tm oi p = Some (NSM_DependUpon, oi') \<and> nsm_inv oi' \<and> nbr_killed p oi oi'"
proof -
  obtain a where a: "(a, p) \<in> set (ntable oi)" using p(1) by auto
  obtain n where n: "nstore oi p = Some n" "nsrc n = a" using nsm_invD(8) [OF inv a] by blast
  obtain oi1 n1 where oi1: "nsm_change_state tm oi p NSM_Down = Some oi1" "nsm_inv oi1" "oi_frame {p, nbr_self oi} oi oi1"
    "nstore oi1 p = Some n1" "nstate n1 = NSM_Down" "nsrc n1 = nsrc n"
    using nsm_change_state_run [OF inv p n(1), of NSM_Down tm] by auto
  let ?oi2 = "set_nbr p (nsm_reset_nbr n1) oi1"
  have f: "ntable oi1 = ntable oi" "nbr_self oi1 = nbr_self oi" using oi1(3) by (simp_all add: oi_frame_def)
  have i2: "nsm_inv ?oi2" using oi1 p f by (intro nsm_inv_set_same [of _ _ n1]) simp_all
  let ?oi3 = "act (EventsCancel p) (?oi2\<lparr>ntable := filter (\<lambda>e. fst e \<noteq> a) (ntable oi)\<rparr>)"
  let ?oi4 = "?oi3\<lparr>nstore := (nstore ?oi3)(p := None)\<rparr>"
  have run: "nsm_kill_nbr tm oi p = Some (NSM_DependUpon, ?oi4)"
    using oi1 n f by (simp add: nsm_kill_nbr_def ospf_nbr_delete_def ospf_nbr_free_def set_nbr_def)
  have tab: "filter (\<lambda>e. fst e \<noteq> a) (ntable oi) = filter (\<lambda>e. snd e \<noteq> p) (ntable oi)"
    using table_filter_src [OF nsm_invD(4,5) [OF inv] a] .
  have "nsm_inv ?oi4" by (rule nsm_inv_remove [OF i2, of p "nsm_reset_nbr n1"]) (simp_all add: set_nbr_def tab f p(2) oi1(5))
  moreover have "nbr_killed p oi ?oi4" using oi1(3) by (simp add: nbr_killed_def oi_frame_def tab set_nbr_def)
  ultimately show ?thesis using run by blast
qed

definition nbr_handled :: "nat \<Rightarrow> ospf_neighbor \<Rightarrow> ospf_interface \<Rightarrow> ospf_interface \<Rightarrow> bool" where
  "nbr_handled p n oi oi' \<longleftrightarrow> nsm_inv oi' \<and> oi_frame {p} oi oi'
     \<and> (\<exists>n'. nstore oi' p = Some n' \<and> nstate n' = nstate n \<and> nsrc n' = nsrc n \<and> naddress n' = naddress n)"

lemma nbr_handled_set:
  assumes "nsm_inv oi" "p \<in> set (map snd (ntable oi))" "p \<noteq> nbr_self oi" "nstore oi p = Some n"
    "naddress n' = naddress n" "nsrc n' = nsrc n" "nstate n' = nstate n"
  shows "nbr_handled p n oi (set_nbr p n' oi)"
  using nsm_inv_set_same [OF assms] assms(5-7) by (simp add: nbr_handled_def set_nbr_def oi_frame_def)

text \<open>The next state a handler names on a network where every neighbor becomes adjacent.\<close>

definition adjacent_next :: "nsm_func \<Rightarrow> nsm_state \<Rightarrow> nsm_state \<Rightarrow> bool" where
  "adjacent_next f old s \<longleftrightarrow>
     (if f = G_twoway_received then s = NSM_ExStart
      else if f = G_adj_ok then s = (if old = NSM_TwoWay then NSM_ExStart else old)
      else if f = G_exchange_done then s = NSM_Full \<or> s = NSM_Loading
      else s = NSM_DependUpon)"

text \<open>A handler other than the three that kill the neighbor returns, keeps invariant and state, and names a proper
  next state unless the table does.\<close>

lemma nsm_func_run_keeps:
  assumes inv: "nsm_inv oi" and p: "p \<in> set (map snd (ntable oi))" "p \<noteq> nbr_self oi" "nstore oi p = Some n"
    and f: "f \<notin> {G_kill_nbr, G_inactivity_timer, G_ll_down}"
  shows "\<exists>s oi'. nsm_func_run now tm f oi p = Some (s, oi') \<and> nbr_handled p n oi oi'
    \<and> (f \<in> {G_twoway_received, G_adj_ok, G_exchange_done} \<longrightarrow> s \<noteq> NSM_DependUpon)
    \<and> (must_be_adjacent oi \<longrightarrow> adjacent_next f (nstate n) s)"
proof -
  obtain me where "nstore oi (nbr_self oi) = Some me" "naddress me = oi_address oi"
    and me: "DR oi = Some (d_router me)" "BDR oi = Some (bd_router me)" using ism_wf_self [OF nsm_invD(1) [OF inv]] .
  obtain area where area: "oi_area oi = Some area" using nsm_invD(3) [OF inv] by blast
  note set = nbr_handled_set [OF inv p]
  have self: "nbr_handled p n oi oi" using inv p(3) by (simp add: nbr_handled_def)
  have acts: "nbr_handled p n oi (act x oi)" for x using self by (simp add: nbr_handled_def)
  have "nstate n \<noteq> NSM_DependUpon" using nsm_invD(8) [OF inv] p(1,3) by fastforce
  then show ?thesis
    using f p(3) me area set self acts
    by (cases f) (simp_all add: nsm_func_run_def nsm_ignore_def nsm_hello_received_def nsm_start_def nsm_twoway_received_def
      nsm_negotiation_done_def nsm_exchange_done_def nsm_bad_ls_req_def nsm_adj_ok_def nsm_seq_number_mismatch_def
      nsm_oneway_received_def nsm_reset_handler_def Let_def adjacent_next_def)
qed


lemma NSM_keeps:
  assumes "s \<noteq> NSM_DependUpon" "e \<notin> {NSM_NoEvent, NSM_KillNbr, NSM_InactivityTimer, NSM_LLDown}"
  shows "fst (NSM s e) \<notin> {G_kill_nbr, G_inactivity_timer, G_ll_down}"
    "snd (NSM s e) = NSM_DependUpon \<Longrightarrow> fst (NSM s e) \<in> {G_twoway_received, G_adj_ok, G_exchange_done}"
  using assms by (cases s; cases e; simp)+

lemma NSM_kills:
  assumes "s \<noteq> NSM_DependUpon"
  shows "fst (NSM s NSM_KillNbr) = G_kill_nbr" "fst (NSM s NSM_InactivityTimer) = G_inactivity_timer" "fst (NSM s NSM_LLDown) = G_ll_down"
  using assms by (cases s; simp)+

lemma ospf_nsm_event_kill:
  assumes inv: "nsm_inv oi" and p: "p \<in> set (map snd (ntable oi))" "p \<noteq> nbr_self oi" and e: "e = NSM_KillNbr \<or> e = NSM_InactivityTimer"
  shows "\<exists>oi'. ospf_nsm_event now tm oi p e = Some oi' \<and> nsm_inv oi' \<and> nbr_killed p oi oi'"
proof -
  obtain n where n: "nstore oi p = Some n" "nstate n \<noteq> NSM_DependUpon" using nsm_invD(8) [OF inv] p(1) by fastforce
  obtain oi' where "nsm_kill_nbr tm oi p = Some (NSM_DependUpon, oi')" "nsm_inv oi'" "nbr_killed p oi oi'"
    using nsm_kill_nbr_run [OF inv p] by blast
  then show ?thesis using e n NSM_kills [OF n(2)]
    by (auto simp: ospf_nsm_event_def nsm_func_run_def nsm_inactivity_timer_def)
qed

lemma ospf_nsm_event_keeps:
  assumes inv: "nsm_inv oi" and p: "p \<in> set (map snd (ntable oi))" "p \<noteq> nbr_self oi" "nstore oi p = Some n"
    and e: "e \<notin> {NSM_NoEvent, NSM_KillNbr, NSM_InactivityTimer, NSM_LLDown}"
  shows "\<exists>oi' n'. ospf_nsm_event now tm oi p e = Some oi' \<and> nsm_inv oi' \<and> oi_frame {p, nbr_self oi} oi oi'
    \<and> nstore oi' p = Some n' \<and> nsrc n' = nsrc n \<and> naddress n' = naddress n
    \<and> (must_be_adjacent oi \<longrightarrow> (\<exists>s. adjacent_next (fst (NSM (nstate n) e)) (nstate n) s
          \<and> nstate n' = (if s = NSM_DependUpon then snd (NSM (nstate n) e) else s)))"
proof -
  let ?f = "fst (NSM (nstate n) e)"
  have d: "nstate n \<noteq> NSM_DependUpon" using nsm_invD(8) [OF inv] p(1,3) by fastforce
  note k = NSM_keeps [OF d e]
  obtain s oi1 where oi1: "nsm_func_run now tm ?f oi p = Some (s, oi1)" "nbr_handled p n oi oi1"
    and s: "?f \<in> {G_twoway_received, G_adj_ok, G_exchange_done} \<longrightarrow> s \<noteq> NSM_DependUpon"
    and adj: "must_be_adjacent oi \<longrightarrow> adjacent_next ?f (nstate n) s"
    using nsm_func_run_keeps [OF inv p k(1)] by blast
  obtain n1 where n1: "nsm_inv oi1" "oi_frame {p} oi oi1" "nstore oi1 p = Some n1" "nstate n1 = nstate n" "nsrc n1 = nsrc n" "naddress n1 = naddress n"
    using oi1(2) unfolding nbr_handled_def by blast
  let ?s = "if s = NSM_DependUpon then snd (NSM (nstate n1) e) else s"
  have s': "?s \<noteq> NSM_DependUpon" using s k(2) n1(4) by auto
  have p1: "p \<in> set (map snd (ntable oi1))" "p \<noteq> nbr_self oi1" using n1(2) p by (simp_all add: oi_frame_def)
  obtain oi2 n2 where oi2: "(if ?s \<noteq> nstate n1 then nsm_change_state tm oi1 p ?s else Some oi1) = Some oi2"
    "nsm_inv oi2" "oi_frame {p, nbr_self oi1} oi1 oi2" "nstore oi2 p = Some n2" "nsrc n2 = nsrc n1" "naddress n2 = naddress n1"
    "nstate n2 = ?s"
  proof (cases "?s \<noteq> nstate n1")
    case True
    obtain oi' n' where "nsm_change_state tm oi1 p ?s = Some oi'" "nsm_inv oi'" "oi_frame {p, nbr_self oi1} oi1 oi'"
      "nstore oi' p = Some n'" "nsrc n' = nsrc n1" "naddress n' = naddress n1" "nstate n' = ?s"
      using nsm_change_state_run [OF n1(1) p1 n1(3) s', of tm] by blast
    then show thesis by (rule that [unfolded if_P [OF True]])
  next
    case False
    show thesis by (rule that [unfolded if_not_P [OF False], OF refl n1(1) _ n1(3)]) (use False in simp_all)
  qed
  let ?oi3 = "set_nbr p (nsm_timer_set n2) oi2"
  have f2: "ntable oi2 = ntable oi" "nbr_self oi2 = nbr_self oi" using oi2(3) n1(2) by (simp_all add: oi_frame_def)
  have "ospf_nsm_event now tm oi p e = Some ?oi3"
    using p(3) oi1(1) n1(3) oi2(1,4) e by (simp add: ospf_nsm_event_def)
  moreover have "nsm_inv ?oi3" using oi2(2,4) p f2 by (intro nsm_inv_set_same [of _ _ n2]) simp_all
  moreover have "oi_frame {p, nbr_self oi} oi oi2" using n1(2) oi2(3) by (auto simp: oi_frame_def)
  then have "oi_frame {p, nbr_self oi} oi ?oi3" by (simp add: oi_frame_def set_nbr_def)
  moreover have "nstore ?oi3 p = Some (nsm_timer_set n2)" by (simp add: set_nbr_def)
  moreover have "must_be_adjacent oi \<longrightarrow> (\<exists>s. adjacent_next ?f (nstate n) s
      \<and> nstate (nsm_timer_set n2) = (if s = NSM_DependUpon then snd (NSM (nstate n) e) else s))"
    using adj oi2(7) n1(4) by (intro impI exI [of _ s]) simp
  ultimately show ?thesis using oi2(5,6) n1(5,6) by (intro exI [of _ ?oi3] exI [of _ "nsm_timer_set n2"]) simp
qed


section \<open>Interface down\<close>

lemma kill_nbrs_run:
  assumes "nsm_inv oi" "set ps \<subseteq> set (map snd (ntable oi))" "distinct ps"
  shows "\<exists>oi'. kill_nbrs now tm ps oi = Some oi' \<and> nsm_inv oi' \<and> nbr_self oi' = nbr_self oi \<and> oi_address oi' = oi_address oi
    \<and> my_router_id oi' = my_router_id oi \<and> if_priority oi' = if_priority oi \<and> oi_type oi' = oi_type oi
    \<and> map_option external_default (oi_area oi') = map_option external_default (oi_area oi)
    \<and> ntable oi' = filter (\<lambda>e. snd e \<notin> set ps - {nbr_self oi}) (ntable oi)
    \<and> (\<forall>q. q \<noteq> nbr_self oi \<longrightarrow> nstore oi' q = (if q \<in> set ps then None else nstore oi q))"
  using assms
proof (induction ps arbitrary: oi)
  case (Cons p ps)
  show ?case
  proof (cases "p = nbr_self oi")
    case True
    have "set (p # ps) - {nbr_self oi} = set ps - {nbr_self oi}" using True by auto
    moreover have "set ps \<subseteq> set (map snd (ntable oi))" "distinct ps" using Cons.prems by auto
    ultimately show ?thesis using Cons.IH [OF Cons.prems(1)] True by (simp only: kill_nbrs.simps if_False bind.bind_lunit) fastforce
  next
    case False
    have "p \<in> set (map snd (ntable oi))" using Cons.prems(2) by simp
    then obtain oi1 where oi1: "ospf_nsm_event now tm oi p NSM_KillNbr = Some oi1" "nsm_inv oi1" "nbr_killed p oi oi1"
      using ospf_nsm_event_kill [OF Cons.prems(1) _ False] by blast
    note k = oi1(3) [unfolded nbr_killed_def]
    have "x \<in> set (map snd (ntable oi1))" if "x \<in> set ps" for x
    proof -
      have "x \<in> set (map snd (ntable oi))" "x \<noteq> p" using Cons.prems(2,3) that by auto
      then show ?thesis using k by auto
    qed
    then have "set ps \<subseteq> set (map snd (ntable oi1))" "distinct ps" using Cons.prems(3) by auto
    then obtain oi2 where oi2: "kill_nbrs now tm ps oi1 = Some oi2" "nsm_inv oi2" "nbr_self oi2 = nbr_self oi1" "oi_address oi2 = oi_address oi1"
      "my_router_id oi2 = my_router_id oi1" "if_priority oi2 = if_priority oi1" "oi_type oi2 = oi_type oi1" "map_option external_default (oi_area oi2) = map_option external_default (oi_area oi1)"
      "ntable oi2 = filter (\<lambda>e. snd e \<notin> set ps - {nbr_self oi1}) (ntable oi1)"
      "\<forall>q. q \<noteq> nbr_self oi1 \<longrightarrow> nstore oi2 q = (if q \<in> set ps then None else nstore oi1 q)"
      using Cons.IH [OF oi1(2)] by blast
    have "ntable oi2 = filter (\<lambda>e. snd e \<notin> set (p # ps) - {nbr_self oi}) (ntable oi)"
      unfolding oi2(9) using k False by (auto intro!: filter_cong)
    moreover have "nstore oi2 q = (if q \<in> set (p # ps) then None else nstore oi q)" if "q \<noteq> nbr_self oi" for q
      using oi2(10) k that by simp
    moreover have "kill_nbrs now tm (p # ps) oi = Some oi2" using False oi1(1) oi2(1) by simp
    ultimately show ?thesis using oi2(2-8) k by auto
  qed
qed auto

text \<open>The fresh pseudo neighbor.\<close>

definition self_nbr :: "ospf_interface \<Rightarrow> ospf_neighbor" where
  "self_nbr oi = ospf_nbr_new\<lparr>nstate := NSM_TwoWay, npriority := if_priority oi, router_id := my_router_id oi,
     nsrc := oi_address oi, naddress := oi_address oi,
     noptions := (if map_option external_default (oi_area oi) = Some True then 2 else 0)\<rparr>"

lemma ospf_if_cleanup_run:
  assumes inv: "nsm_inv oi" and q: "nstore oi q = None" and st: "oi_state oi \<noteq> ISM_DependUpon"
  shows "\<exists>oi'. ospf_if_cleanup now tm q oi = Some oi' \<and> ntable oi' = [(oi_address oi, q)] \<and> nbr_self oi' = q
    \<and> nstore oi' q = Some (self_nbr oi) \<and> (\<forall>p. p \<noteq> q \<longrightarrow> p \<in> set (map snd (ntable oi)) \<longrightarrow> nstore oi' p = None)
    \<and> full_nbrs oi' = 0 \<and> oi_address oi' = oi_address oi \<and> my_router_id oi' = my_router_id oi
    \<and> if_priority oi' = if_priority oi \<and> oi_type oi' = oi_type oi \<and> oi_area oi' \<noteq> None \<and> oi_state oi' \<noteq> ISM_DependUpon"
proof -
  let ?ps = "map snd (ntable oi)"
  obtain oi1 where oi1: "kill_nbrs now tm ?ps oi = Some oi1" "nsm_inv oi1" "nbr_self oi1 = nbr_self oi" "oi_address oi1 = oi_address oi"
    "my_router_id oi1 = my_router_id oi" "if_priority oi1 = if_priority oi" "oi_type oi1 = oi_type oi" "map_option external_default (oi_area oi1) = map_option external_default (oi_area oi)"
    "ntable oi1 = filter (\<lambda>e. snd e \<notin> set ?ps - {nbr_self oi}) (ntable oi)"
    "\<forall>q. q \<noteq> nbr_self oi \<longrightarrow> nstore oi1 q = (if q \<in> set ?ps then None else nstore oi q)"
    using kill_nbrs_run [OF inv _ nsm_invD(5) [OF inv]] by blast
  obtain a me where me: "(a, nbr_self oi) \<in> set (ntable oi1)" "nstore oi1 (nbr_self oi) = Some me" "nsrc me = a" "nstate me \<noteq> NSM_Full"
    using nsm_inv_self [OF oi1(2)] nsm_invD(8) [OF oi1(2)] oi1(3) by fastforce
  have only: "snd e = nbr_self oi" if "e \<in> set (ntable oi1)" for e using that unfolding oi1(9) by force
  have tab: "filter (\<lambda>e. fst e \<noteq> a) (ntable oi1) = []"
  proof -
    have "filter (\<lambda>e. fst e \<noteq> a) (ntable oi1) = filter (\<lambda>e. snd e \<noteq> nbr_self oi) (ntable oi1)"
      using table_filter_src [OF nsm_invD(4,5) [OF oi1(2)] me(1)] .
    then show ?thesis using only by (simp add: filter_empty_conv)
  qed
  have full: "full_nbrs oi1 = 0"
  proof -
    have "full1 (nstore oi1 (snd e)) = 0" if "e \<in> set (ntable oi1)" for e using only [OF that] me(2,4) by (simp add: full1_def)
    then have "map (\<lambda>p. full1 (nstore oi1 p)) (map snd (ntable oi1)) = map (\<lambda>p. 0) (map snd (ntable oi1))" by simp
    then have "full_sum oi1 = 0" unfolding full_sum_def by (metis sum_list_0)
    then show ?thesis using nsm_invD(6) [OF oi1(2)] by simp
  qed
  have qn: "q \<noteq> nbr_self oi" using q nsm_inv_self [OF inv] by auto
  let ?oi2 = "act (EventsCancel (nbr_self oi)) (oi1\<lparr>oi_crypt_seqnum := 0, ntable := []\<rparr>)"
  let ?oi3 = "?oi2\<lparr>nstore := (nstore oi1)(nbr_self oi := None)\<rparr>"
  have "ospf_nbr_delete (oi1\<lparr>oi_crypt_seqnum := 0\<rparr>) (nbr_self oi1) = Some ?oi3"
    using me tab oi1(3) by (simp add: ospf_nbr_delete_def ospf_nbr_free_def)
  moreover obtain area where "oi_area oi1 = Some area" using nsm_invD(3) [OF oi1(2)] by blast
  moreover obtain area0 where "oi_area oi = Some area0" "external_default area0 = external_default area" using oi1(8) calculation(2) by (cases "oi_area oi") auto
  ultimately have "ospf_if_cleanup now tm q oi = Some ((ospf_nbr_add_self ((set_nbr q (self_nbr oi) ?oi3)\<lparr>nbr_self := q\<rparr>))
      \<lparr>network_lsa_self := False, t_network_lsa_self := False\<rparr>)"
    using oi1(1,4-6) by (simp add: ospf_if_cleanup_def self_nbr_def set_nbr_def ospf_nbr_new_def Let_def)
  moreover have "nstore oi1 p = None" if "p \<noteq> nbr_self oi" "p \<in> set ?ps" for p using oi1(10) that by simp
  ultimately show ?thesis using oi1 full \<open>oi_area oi1 = Some area\<close> nsm_invD(7) [OF oi1(2)] qn
    by (auto simp: ospf_nbr_add_self_def nbr_enter_def set_nbr_def)
qed


lemma nsm_inv_single:
  assumes "ntable oi = [(oi_address oi, q)]" "nbr_self oi = q" "nstore oi q = Some n" "naddress n = oi_address oi" "nsrc n = oi_address oi"
    "nstate n = NSM_TwoWay" "full_nbrs oi = 0" "oi_address oi \<noteq> 0" "oi_area oi \<noteq> None" "oi_state oi \<notin> {ISM_DR, ISM_Backup, ISM_DependUpon}"
  shows "nsm_inv oi"
proof -
  have "ism_role_ok oi" using assms by (subst ism_role_ok_self [of _ n]) (simp_all add: role_agrees_def)
  moreover have "ism_wf oi" using assms by (simp add: ism_wf_def)
  ultimately show ?thesis using assms by (simp add: nsm_inv_def full1_def full_sum_def)
qed

lemma ISM_cases:
  assumes "s \<noteq> ISM_DependUpon" "e \<noteq> ISM_NoEvent"
  shows "fst (ISM s e) = F_ignore \<Longrightarrow> snd (ISM s e) = s \<or> snd (ISM s e) = ISM_Down"
    "fst (ISM s e) = F_loop_ind \<Longrightarrow> snd (ISM s e) = ISM_Loopback"
    "fst (ISM s e) = F_interface_down \<longleftrightarrow> e = ISM_InterfaceDown"
  using assms by (cases s; cases e; simp)+

lemma ISM_down: "s \<noteq> ISM_DependUpon \<Longrightarrow> ISM s ISM_InterfaceDown = (F_interface_down, ISM_Down)"
  by (cases s) simp_all

lemma ism_change_frame: "oi_frame S oi (ism_change_state oi s)"
  by (simp add: oi_frame_def ism_change_state_frame ism_change_state_area)

text \<open>Any event but \<open>InterfaceDown\<close> leaves the neighbors alone and keeps the invariant.\<close>

lemma ism_dispatch_keeps:
  assumes inv: "nsm_inv oi" and e: "e \<noteq> ISM_NoEvent" "e \<noteq> ISM_InterfaceDown"
  shows "\<exists>oi'. ism_dispatch down oi e = Some oi' \<and> nsm_inv oi' \<and> oi_frame {nbr_self oi} oi oi'"
proof -
  note d = nsm_invD(7) [OF inv]
  note c = ISM_cases [OF d e(1)]
  have fin: "\<exists>oi'. ism_dispatch down oi e = Some oi' \<and> nsm_inv oi' \<and> oi_frame {nbr_self oi} oi oi'"
    if "ism_func_run down (fst (ISM (oi_state oi) e)) oi = Some (s, oi1)" "nsm_inv oi1" "oi_frame {nbr_self oi} oi oi1"
      "oi_state oi1 = oi_state oi" "s' = (if s = ISM_DependUpon then snd (ISM (oi_state oi) e) else s)"
      "s' = oi_state oi \<or> s' \<notin> {ISM_DR, ISM_Backup, ISM_DependUpon}" for s s' oi1
  proof -
    let ?oi2 = "if s' \<noteq> oi_state oi1 then ism_change_state oi1 s' else oi1"
    have "ism_dispatch down oi e = Some (ism_timer_set ?oi2)" using that(1,4,5) by (simp add: ism_dispatch_def)
    moreover have "nsm_inv ?oi2" using that(2,4,6) ism_change_state_inv [of oi1 s'] by auto
    moreover have "oi_frame {nbr_self oi} oi ?oi2" using oi_frame_trans [OF that(3) ism_change_frame [of "{}" oi1 s']] that(3) by auto
    ultimately show ?thesis by simp
  qed
  obtain me where me: "nstore oi (nbr_self oi) = Some me" using nsm_inv_self [OF inv] by blast
  show ?thesis
  proof (cases "fst (ISM (oi_state oi) e)")
    case F_ignore
    show ?thesis by (rule fin [of ISM_DependUpon oi]) (use F_ignore inv c in \<open>auto simp: ism_func_run_def ism_ignore_def\<close>)
  next
    case F_loop_ind
    show ?thesis by (rule fin [of ISM_DependUpon oi]) (use F_loop_ind inv c in \<open>auto simp: ism_func_run_def ism_loop_ind_def\<close>)
  next
    case F_interface_up
    define s where "s = (if oi_type oi = OSPF_IFTYPE_POINTOPOINT \<or> oi_type oi = OSPF_IFTYPE_POINTOMULTIPOINT \<or> oi_type oi = OSPF_IFTYPE_VIRTUALLINK
      then ISM_PointToPoint else if npriority me = 0 then ISM_DROther else ISM_Waiting)"
    have s: "s \<noteq> ISM_DependUpon" "s \<notin> {ISM_DR, ISM_Backup, ISM_DependUpon}" by (simp_all add: s_def)
    have "ism_interface_up oi = Some (s, if oi_type oi = OSPF_IFTYPE_NBMA then act NbmaIfUpdate oi else oi)"
      using me by (simp add: ism_interface_up_def s_def)
    then show ?thesis
      by (intro fin [of s "if oi_type oi = OSPF_IFTYPE_NBMA then act NbmaIfUpdate oi else oi" s])
        (use F_interface_up inv s in \<open>simp_all add: ism_func_run_def\<close>)
  next
    case F_interface_down
    then show ?thesis using c e by simp
  qed (use ism_election_event [OF inv, of e down] in auto)
qed

lemma ospf_ism_event_down:
  assumes inv: "nsm_inv oi" and q: "nstore oi q = None"
  shows "\<exists>oi'. ospf_ism_event now tm q oi ISM_InterfaceDown = Some oi' \<and> nsm_inv oi' \<and> oi_state oi' = ISM_Down
    \<and> ntable oi' = [(oi_address oi, q)] \<and> nbr_self oi' = q \<and> nstore oi' q = Some (self_nbr oi) \<and> full_nbrs oi' = 0
    \<and> (\<forall>p. p \<noteq> q \<longrightarrow> p \<in> set (map snd (ntable oi)) \<longrightarrow> nstore oi' p = None)
    \<and> oi_address oi' = oi_address oi \<and> my_router_id oi' = my_router_id oi \<and> if_priority oi' = if_priority oi \<and> oi_type oi' = oi_type oi"
proof -
  note d = nsm_invD(7) [OF inv]
  obtain oi1 where run: "ospf_if_cleanup now tm q oi = Some oi1" and t: "ntable oi1 = [(oi_address oi, q)]" "nbr_self oi1 = q"
    "nstore oi1 q = Some (self_nbr oi)" "\<forall>p. p \<noteq> q \<longrightarrow> p \<in> set (map snd (ntable oi)) \<longrightarrow> nstore oi1 p = None"
    "full_nbrs oi1 = 0" "oi_address oi1 = oi_address oi" "my_router_id oi1 = my_router_id oi" "if_priority oi1 = if_priority oi"
    "oi_type oi1 = oi_type oi" "oi_area oi1 \<noteq> None" "oi_state oi1 \<noteq> ISM_DependUpon"
    using ospf_if_cleanup_run [OF inv q d] by blast
  let ?oi2 = "if ISM_Down \<noteq> oi_state oi1 then ism_change_state oi1 ISM_Down else oi1"
  have r: "ospf_ism_event now tm q oi ISM_InterfaceDown = Some (ism_timer_set ?oi2)"
    using run ISM_down [OF d] ISM_down [OF t(11)]
    by (simp add: ospf_ism_event_def ism_dispatch_def ism_func_run_def ism_interface_down_def)
  have f: "oi_state ?oi2 = ISM_Down" "nstore ?oi2 = nstore oi1" "ntable ?oi2 = ntable oi1" "nbr_self ?oi2 = nbr_self oi1"
    "full_nbrs ?oi2 = full_nbrs oi1" "oi_address ?oi2 = oi_address oi1" "my_router_id ?oi2 = my_router_id oi1"
    "if_priority ?oi2 = if_priority oi1" "oi_type ?oi2 = oi_type oi1" "(oi_area ?oi2 = None) = (oi_area oi1 = None)"
    by (simp_all add: ism_change_state_frame ism_change_state_area)
  have "oi_address oi \<noteq> 0" using nsm_invD(1) [OF inv] by (simp add: ism_wf_def)
  then have "nsm_inv ?oi2"
    by (intro nsm_inv_single [of _ q "self_nbr oi"]) (simp_all only: f t, simp_all add: self_nbr_def)
  then have "nsm_inv (ism_timer_set ?oi2)" by simp
  moreover have "oi_frame {} ?oi2 (ism_timer_set ?oi2)" by simp
  ultimately show ?thesis using r f t unfolding oi_frame_def
    by (intro exI [of _ "ism_timer_set ?oi2"]) (simp del: if_split add: ism_timer_set_def split: ism_state.split)
qed


section \<open>Reception of a Hello packet\<close>

lemma sum_list_insort: "sum_list (map f (insort_key k x xs)) = f x + (sum_list (map f xs) :: 'a :: comm_monoid_add)"
  by (induction xs) (auto simp: ac_simps)

lemma insort_key_set_map: "set (map f (insort_key k x xs)) = insert (f x) (set (map f xs))"
  by (simp add: set_insort_key)

lemma distinct_map_insort: "distinct (map f (insort_key k x xs)) \<longleftrightarrow> f x \<notin> set (map f xs) \<and> distinct (map f xs)"
  by (induction xs) (auto simp: set_insort_key)

text \<open>A new neighbor at a fresh address, under an address that no neighbor has.\<close>

lemma nsm_inv_new:
  assumes inv: "nsm_inv oi" and q: "nstore oi q = None" and a: "map_of (ntable oi) a = None" "a \<noteq> oi_address oi"
    and n: "nsrc n = a" "naddress n = a" "nstate n = NSM_Down"
  shows "nsm_inv (nbr_enter a q (set_nbr q n oi))"
proof -
  let ?oi = "nbr_enter a q (set_nbr q n oi)"
  have f: "ntable ?oi = insort_key fst (a, q) (ntable oi)" "nstore ?oi = (nstore oi)(q \<mapsto> n)" "nbr_self ?oi = nbr_self oi"
    "oi_address ?oi = oi_address oi" "oi_state ?oi = oi_state oi" "full_nbrs ?oi = full_nbrs oi" "oi_area ?oi = oi_area oi"
    by (simp_all add: nbr_enter_def set_nbr_def)
  have live: "p \<noteq> q" if "p \<in> set (map snd (ntable oi))" for p
    using nsm_invD(8) [OF inv] that q by fastforce
  have self: "nbr_self oi \<in> set (map snd (ntable oi))" using nsm_invD(1) [OF inv] by (simp add: ism_wf_def)
  note qs = live [OF self]
  have "ism_wf ?oi"
    using nsm_invD(1) [OF inv] live qs a(2) n(2) unfolding ism_wf_def f insort_key_set_map by (auto split: option.splits)
  moreover have "ism_role_ok ?oi = ism_role_ok oi" using qs by (intro ism_role_ok_cong) (simp_all add: f)
  moreover have "a \<notin> set (map fst (ntable oi))" using a(1) by (simp add: map_of_eq_None_iff)
  then have "distinct (map fst (ntable ?oi))" using nsm_invD(4) [OF inv] unfolding f distinct_map_insort by simp
  moreover have "distinct (map snd (ntable ?oi))"
    using live nsm_invD(5) [OF inv] unfolding f distinct_map_insort by auto
  moreover have "map_option nsrc (nstore ?oi (snd e)) = Some (fst e) \<and> map_option nstate (nstore ?oi (snd e)) \<noteq> Some NSM_DependUpon"
    if "e \<in> set (ntable ?oi)" for e
  proof (cases "e = (a, q)")
    case True
    then show ?thesis using n by (simp add: f)
  next
    case False
    then have "e \<in> set (ntable oi)" using that by (simp add: f set_insort_key)
    moreover from this have "snd e \<noteq> q" using live by simp
    ultimately show ?thesis using inv by (simp add: nsm_inv_def f)
  qed
  moreover have "full_sum ?oi = full_sum oi"
  proof -
    have "map (\<lambda>p. full1 (((nstore oi)(q \<mapsto> n)) p)) (map snd (ntable oi)) = map (\<lambda>p. full1 (nstore oi p)) (map snd (ntable oi))"
      using live by simp
    moreover have "full1 (Some n) = 0" using n(3) by (simp add: full1_def)
    moreover have "sum_list (map g (map snd (insort_key fst (a, q) (ntable oi)))) = g q + sum_list (map g (map snd (ntable oi)))" for g :: "nat \<Rightarrow> u32"
      using sum_list_insort [of "g \<circ> snd" fst "(a, q)" "ntable oi"] by simp
    ultimately show ?thesis unfolding full_sum_def f by (simp only: fun_upd_same add_0)
  qed
  ultimately show ?thesis using inv qs unfolding nsm_inv_def f by (simp add: set_insort_key)
qed

text \<open>On a network where every neighbor becomes adjacent no neighbor stays in the state 2-Way.\<close>

definition no_twoway :: "ospf_interface \<Rightarrow> bool" where
  "no_twoway oi \<longleftrightarrow> must_be_adjacent oi \<longrightarrow>
     (\<forall>p\<in>set (map snd (ntable oi)). p \<noteq> nbr_self oi \<longrightarrow> map_option nstate (nstore oi p) \<noteq> Some NSM_TwoWay)"

definition oi_same :: "ospf_interface \<Rightarrow> ospf_interface \<Rightarrow> bool" where
  "oi_same oi oi' \<longleftrightarrow> nbr_self oi' = nbr_self oi \<and> oi_address oi' = oi_address oi \<and> my_router_id oi' = my_router_id oi
     \<and> if_priority oi' = if_priority oi \<and> oi_type oi' = oi_type oi \<and> (no_twoway oi \<longrightarrow> no_twoway oi')"

lemma no_twoway_frame:
  assumes "no_twoway oi" "oi_frame S oi oi'"
    and "\<And>p. p \<in> S \<Longrightarrow> p \<noteq> nbr_self oi \<Longrightarrow> p \<in> set (map snd (ntable oi)) \<Longrightarrow> must_be_adjacent oi \<Longrightarrow> map_option nstate (nstore oi' p) \<noteq> Some NSM_TwoWay"
  shows "no_twoway oi'"
proof -
  have f: "ntable oi' = ntable oi" "nbr_self oi' = nbr_self oi" "must_be_adjacent oi' = must_be_adjacent oi" "\<And>q. q \<notin> S \<Longrightarrow> nstore oi' q = nstore oi q"
    using assms(2) by (simp_all add: oi_frame_def must_be_adjacent_def)
  have "map_option nstate (nstore oi' p) \<noteq> Some NSM_TwoWay"
    if "must_be_adjacent oi" "p \<in> set (map snd (ntable oi))" "p \<noteq> nbr_self oi" for p
    using that assms(1,3) f(4) [of p] unfolding no_twoway_def by (cases "p \<in> S") auto
  then show ?thesis unfolding no_twoway_def f(1-3) by blast
qed

lemma oi_frame_same:
  assumes "oi_frame S oi oi'" "no_twoway oi \<longrightarrow> no_twoway oi'"
  shows "oi_same oi oi'"
  using assms by (simp add: oi_frame_def oi_same_def)

text \<open>An event leads to 2-Way only from 2-Way, and not even from there.\<close>

lemma adjacent_next_twoway:
  assumes "s \<noteq> NSM_TwoWay" "s \<noteq> NSM_DependUpon" "e \<noteq> NSM_NoEvent" "adjacent_next (fst (NSM s e)) s s'"
  shows "(if s' = NSM_DependUpon then snd (NSM s e) else s') \<noteq> NSM_TwoWay"
  using assms by (cases s; cases e) (auto simp: adjacent_next_def)

lemma no_twoway_event:
  assumes inv: "nsm_inv oi" and p: "p \<in> set (map snd (ntable oi))" "p \<noteq> nbr_self oi" and e: "e \<notin> {NSM_NoEvent, NSM_KillNbr, NSM_InactivityTimer, NSM_LLDown}"
    and run: "ospf_nsm_event now tm oi p e = Some oi'" and no: "no_twoway oi"
  shows "no_twoway oi'"
proof -
  obtain n where n: "nstore oi p = Some n" "nstate n \<noteq> NSM_DependUpon" using nsm_invD(8) [OF inv] p(1) by fastforce
  obtain n' where k: "oi_frame {p, nbr_self oi} oi oi'" "nstore oi' p = Some n'"
    "must_be_adjacent oi \<longrightarrow> (\<exists>s. adjacent_next (fst (NSM (nstate n) e)) (nstate n) s \<and> nstate n' = (if s = NSM_DependUpon then snd (NSM (nstate n) e) else s))"
    using ospf_nsm_event_keeps [OF inv p n(1) e, of now tm] run by auto
  have "nstate n' \<noteq> NSM_TwoWay" if adj: "must_be_adjacent oi"
  proof -
    have "nstate n \<noteq> NSM_TwoWay" using no adj p n(1) by (auto simp: no_twoway_def)
    then show ?thesis using adjacent_next_twoway [of "nstate n" e] k(3) adj n(2) e by (metis insertI1)
  qed
  then show ?thesis using no_twoway_frame [OF no k(1)] k(2) by auto
qed

lemma oi_same_trans: "oi_same a b \<Longrightarrow> oi_same b c \<Longrightarrow> oi_same a c"
  by (simp add: oi_same_def)

text \<open>The neighbor \<open>p\<close> is in the table and is not the router itself.\<close>

definition real_nbr :: "nat \<Rightarrow> ospf_interface \<Rightarrow> bool" where
  "real_nbr p oi \<longleftrightarrow> nsm_inv oi \<and> p \<in> set (map snd (ntable oi)) \<and> p \<noteq> nbr_self oi"

lemma real_nbrD:
  assumes "real_nbr p oi"
  shows "nsm_inv oi" "p \<in> set (map snd (ntable oi))" "p \<noteq> nbr_self oi" "\<exists>n. nstore oi p = Some n"
  using assms nsm_invD(8) [of oi] unfolding real_nbr_def by fastforce+

lemma real_nbr_event:
  assumes "real_nbr p oi" "e \<notin> {NSM_NoEvent, NSM_KillNbr, NSM_InactivityTimer, NSM_LLDown}"
  shows "\<exists>oi'. ospf_nsm_event now tm oi p e = Some oi' \<and> real_nbr p oi' \<and> oi_same oi oi'"
proof -
  obtain n where n: "nstore oi p = Some n" using real_nbrD [OF assms(1)] by blast
  obtain oi' where oi': "ospf_nsm_event now tm oi p e = Some oi'" "nsm_inv oi'" "oi_frame {p, nbr_self oi} oi oi'"
    using ospf_nsm_event_keeps [OF real_nbrD(1-3) [OF assms(1)] n assms(2)] by blast
  then have "real_nbr p oi'" using real_nbrD(2,3) [OF assms(1)] by (simp add: real_nbr_def oi_frame_def)
  moreover have "no_twoway oi \<longrightarrow> no_twoway oi'" using no_twoway_event [OF real_nbrD(1-3) [OF assms(1)] assms(2) oi'(1)] by blast
  ultimately show ?thesis using oi'(1) oi_frame_same [OF oi'(3)] by blast
qed

lemma real_nbr_set:
  assumes "real_nbr p oi" "nstore oi p = Some n" "naddress n' = naddress n" "nsrc n' = nsrc n" "nstate n' = nstate n"
  shows "real_nbr p (set_nbr p n' oi)" "oi_same oi (set_nbr p n' oi)"
proof -
  have "nsm_inv (set_nbr p n' oi)" using nsm_inv_set_same [OF real_nbrD(1-3) [OF assms(1)] assms(2-5)] .
  then show "real_nbr p (set_nbr p n' oi)" using real_nbrD(2,3) [OF assms(1)] by (simp add: real_nbr_def set_nbr_def)
  have "no_twoway (set_nbr p n' oi)" if "no_twoway oi"
    using that assms(2,5) by (auto simp: no_twoway_def set_nbr_def must_be_adjacent_def)
  then show "oi_same oi (set_nbr p n' oi)" by (simp add: oi_same_def set_nbr_def)
qed

lemma hello_neighbor_run:
  assumes inv: "nsm_inv oi" and q: "nstore oi q = None" and src: "h_src h \<noteq> oi_address oi"
  shows "\<exists>p oi'. hello_neighbor q oi h = Some (p, oi') \<and> real_nbr p oi' \<and> oi_same oi oi'"
proof (cases "map_of (ntable oi) (h_src h)")
  case None
  define n where "n = (let nbr = ospf_nbr_new\<lparr>nstate := NSM_Down, nsrc := h_src h, naddress := h_src h\<rparr>
    in case h_crypt_seqnum h of Some c \<Rightarrow> nbr\<lparr>ncrypt_seqnum := c\<rparr> | None \<Rightarrow> nbr)"
  have n: "nsrc n = h_src h" "naddress n = h_src h" "nstate n = NSM_Down" by (simp_all add: n_def Let_def split: option.split)
  let ?oi = "nbr_enter (h_src h) q (set_nbr q n oi)"
  have i: "nsm_inv ?oi" by (rule nsm_inv_new [OF inv q None src n])
  have "q \<noteq> nbr_self oi" using q nsm_inv_self [OF inv] by auto
  then have "real_nbr q ?oi" using i by (simp add: real_nbr_def nbr_enter_def set_nbr_def set_insort_key)
  moreover have "no_twoway ?oi" if "no_twoway oi"
    using that n(3) by (auto simp: no_twoway_def nbr_enter_def set_nbr_def must_be_adjacent_def set_insort_key)
  then have "oi_same oi ?oi" by (simp add: oi_same_def nbr_enter_def set_nbr_def)
  moreover have "hello_neighbor q oi h = Some (q, ?oi)" using None by (simp add: hello_neighbor_def n_def Let_def)
  ultimately show ?thesis by blast
next
  case (Some p)
  have m: "(h_src h, p) \<in> set (ntable oi)" using map_of_SomeD [OF Some] .
  have ps: "p \<noteq> nbr_self oi"
  proof
    assume "p = nbr_self oi"
    then have "(oi_address oi, p) \<in> set (ntable oi)" using inv by (simp add: nsm_inv_def)
    from nsm_invD(8) [OF inv this] nsm_invD(8) [OF inv m] show False using src by auto
  qed
  have r: "real_nbr p oi" using m ps inv by (force simp: real_nbr_def)
  obtain n where n: "nstore oi p = Some n" "nsrc n = h_src h" "nstate n \<noteq> NSM_DependUpon" using nsm_invD(8) [OF inv m] by blast
  let ?n = "n\<lparr>nsrc := h_src h, naddress := h_src h\<rparr>"
  have "nsm_inv (set_nbr p ?n oi)"
  proof -
    have w: "ism_wf (set_nbr p ?n oi)"
      using nsm_invD(1) [OF inv] ps src unfolding ism_wf_def set_nbr_def by (auto split: option.splits)
    have "ism_role_ok (set_nbr p ?n oi) = ism_role_ok oi" using ps by (intro ism_role_ok_cong) (simp_all add: set_nbr_def)
    moreover have "full1 (nstore (set_nbr p ?n oi) x) = full1 (nstore oi x)" for x using n(1) by (simp add: set_nbr_def full1_def)
    moreover have "map_option nsrc (nstore (set_nbr p ?n oi) x) = map_option nsrc (nstore oi x)"
      "map_option nstate (nstore (set_nbr p ?n oi) x) = map_option nstate (nstore oi x)" for x using n by (simp_all add: set_nbr_def)
    moreover have "ntable (set_nbr p ?n oi) = ntable oi" "nbr_self (set_nbr p ?n oi) = nbr_self oi"
      "oi_address (set_nbr p ?n oi) = oi_address oi" "full_nbrs (set_nbr p ?n oi) = full_nbrs oi"
      "oi_area (set_nbr p ?n oi) = oi_area oi" "oi_state (set_nbr p ?n oi) = oi_state oi" by (simp_all add: set_nbr_def)
    ultimately show ?thesis using inv w by (simp add: nsm_inv_def full_sum_def)
  qed
  then have "real_nbr p (set_nbr p ?n oi)" using r by (simp add: real_nbr_def set_nbr_def)
  moreover have "no_twoway (set_nbr p ?n oi)" if "no_twoway oi" using that n(1) by (auto simp: no_twoway_def set_nbr_def must_be_adjacent_def)
  then have "oi_same oi (set_nbr p ?n oi)" by (simp add: set_nbr_def oi_same_def)
  moreover have "oi_same oi oi" by (simp add: oi_same_def)
  ultimately show ?thesis using Some n(1) r by (auto simp: hello_neighbor_def)
qed

lemma hello_set_info_run:
  assumes "real_nbr p oi"
  shows "\<exists>oi'. hello_set_info h p oi = Some oi' \<and> real_nbr p oi' \<and> oi_same oi oi'"
proof -
  obtain n where n: "nstore oi p = Some n" using real_nbrD [OF assms] by blast
  then show ?thesis
    using real_nbr_set [OF assms n, of "n\<lparr>npriority := uint (h_priority h), d_router := h_d_router h, bd_router := h_bd_router h\<rparr>"]
    by (simp add: hello_set_info_def)
qed

lemma ospf_hello_run:
  assumes inv0: "nsm_inv oi0" and q0: "nstore oi0 q = None" and src0: "h_src h \<noteq> oi_address oi0"
  shows "\<exists>oi' es. ospf_hello now tm q c oi0 h = Some (oi', es) \<and> nsm_inv oi' \<and> oi_same oi0 oi'
    \<and> (hello_accepted c oi0 h \<longrightarrow> (\<exists>p. real_nbr p oi'))"
proof -
  define oi where "oi = oi0\<lparr>hello_in := hello_in oi0 + 1\<rparr>"
  have inv: "nsm_inv oi" unfolding oi_def using inv0 by (subst nsm_inv_cong [of _ oi0]) simp_all
  have q: "nstore oi q = None" and src: "h_src h \<noteq> oi_address oi" and same: "oi_same oi0 oi" and acc: "hello_accepted c oi0 h = hello_accepted c oi h"
    using q0 src0 by (simp_all add: oi_def oi_same_def hello_accepted_def no_twoway_def must_be_adjacent_def)
  note unf = ospf_hello_def [of now tm q c oi0 h, folded oi_def, unfolded Let_def]
  show ?thesis
  proof (cases "hello_accepted c oi h")
    case False
    then show ?thesis using inv same unfolding unf acc by simp
  next
    case True
    obtain p oi1 where oi1: "hello_neighbor q oi h = Some (p, oi1)" "real_nbr p oi1" "oi_same oi oi1"
      using hello_neighbor_run [OF inv q src] by blast
    obtain n1 where n1: "nstore oi1 p = Some n1" using real_nbrD [OF oi1(2)] by blast
    let ?oi2 = "set_nbr p (n1\<lparr>router_id := h_router_id h\<rparr>) oi1"
    have oi2: "real_nbr p ?oi2" "oi_same oi1 ?oi2" by (rule real_nbr_set [OF oi1(2) n1]; simp)+
    obtain oi3 where oi3: "ospf_nsm_event now tm ?oi2 p NSM_HelloReceived = Some oi3" "real_nbr p oi3" "oi_same ?oi2 oi3"
      using real_nbr_event [OF oi2(1), of NSM_HelloReceived] by auto
    obtain n3 where n3: "nstore oi3 p = Some n3" using real_nbrD [OF oi3(2)] by blast
    obtain me where me: "nstore oi3 (nbr_self oi3) = Some me" using nsm_inv_self [OF real_nbrD(1) [OF oi3(2)]] by blast
    define oi4 where "oi4 = (if oi_type oi3 = OSPF_IFTYPE_NBMA \<and> npriority me = 0 \<and> h_priority h > 0 \<and> d_router me \<noteq> h_src h
      \<and> bd_router me \<noteq> h_src h then set_nbr p (n3\<lparr>t_hello_reply := True\<rparr>) oi3 else oi3)"
    have oi4: "real_nbr p oi4" "oi_same oi3 oi4" unfolding oi4_def
      using real_nbr_set [OF oi3(2) n3, of "n3\<lparr>t_hello_reply := True\<rparr>"] oi3(2) by (simp_all add: oi_same_def)
    have same4: "oi_same oi0 oi4" using same oi1(3) oi2(2) oi3(3) oi4(2) by (meson oi_same_trans)
    obtain oi5 where oi5: "ospf_nsm_event now tm oi4 p NSM_OneWayReceived = Some oi5" "real_nbr p oi5" "oi_same oi4 oi5"
      using real_nbr_event [OF oi4(1), of NSM_OneWayReceived] by auto
    obtain oi6 where oi6: "hello_set_info h p oi5 = Some oi6" "real_nbr p oi6" "oi_same oi5 oi6" using hello_set_info_run [OF oi5(2)] by blast
    obtain oi7 where oi7: "ospf_nsm_event now tm oi4 p NSM_TwoWayReceived = Some oi7" "real_nbr p oi7" "oi_same oi4 oi7"
      using real_nbr_event [OF oi4(1), of NSM_TwoWayReceived] by auto
    obtain n7 where n7: "nstore oi7 p = Some n7" using real_nbrD [OF oi7(2)] by blast
    let ?n8 = "n7\<lparr>noptions := noptions n7 OR h_options h\<rparr>"
    have oi8: "real_nbr p (set_nbr p ?n8 oi7)" "oi_same oi7 (set_nbr p ?n8 oi7)" by (rule real_nbr_set [OF oi7(2) n7]; simp)+
    obtain oi9 where oi9: "hello_set_info h p (set_nbr p ?n8 oi7) = Some oi9" "real_nbr p oi9" "oi_same (set_nbr p ?n8 oi7) oi9"
      using hello_set_info_run [OF oi8(1)] by blast
    have "ospf_hello now tm q c oi0 h = Some (oi6, []) \<or> ospf_hello now tm q c oi0 h = Some (oi9, hello_schedules h (set_nbr p ?n8 oi7) ?n8)"
      unfolding unf using True oi1(1) n1 oi3(1) n3 me oi5(1) oi6(1) oi7(1) n7 oi9(1)
      by (simp add: oi4_def [symmetric])
    moreover have "oi_same oi0 oi6" "oi_same oi0 oi9" using same4 oi5(3) oi6(3) oi7(3) oi8(2) oi9(3) by (meson oi_same_trans)+
    ultimately show ?thesis using oi6(2) oi9(2) real_nbrD(1) [OF oi6(2)] real_nbrD(1) [OF oi9(2)] by blast
  qed
qed


section \<open>Runs of an interface\<close>

text \<open>An interface as it is created: down, with its pseudo neighbor alone in the table.\<close>

definition ospf_if_initial :: "ospf_interface \<Rightarrow> bool" where
  "ospf_if_initial oi \<longleftrightarrow> oi_state oi = ISM_Down \<and> ntable oi = [(oi_address oi, nbr_self oi)]
     \<and> nstore oi (nbr_self oi) = Some (self_nbr oi) \<and> full_nbrs oi = 0 \<and> oi_address oi \<noteq> 0 \<and> oi_area oi \<noteq> None"

text \<open>The inputs: an interface event, an event of a neighbor other than the router itself, a received Hello from
  another address.  \<open>NoEvent\<close> is never sent, and neither is \<open>LLDown\<close>.\<close>

inductive ospf_step :: "ospf_interface \<Rightarrow> ospf_interface \<Rightarrow> bool" where
  ism: "e \<noteq> ISM_NoEvent \<Longrightarrow> nstore oi q = None \<Longrightarrow> ospf_ism_event now tm q oi e = Some oi' \<Longrightarrow> ospf_step oi oi'"
| nsm: "p \<in> set (map snd (ntable oi)) \<Longrightarrow> p \<noteq> nbr_self oi \<Longrightarrow> e \<notin> {NSM_NoEvent, NSM_LLDown} \<Longrightarrow>
    ospf_nsm_event now tm oi p e = Some oi' \<Longrightarrow> ospf_step oi oi'"
| hello: "h_src h \<noteq> oi_address oi \<Longrightarrow> nstore oi q = None \<Longrightarrow> ospf_hello now tm q c oi h = Some (oi', es) \<Longrightarrow> ospf_step oi oi'"

inductive ospf_reachable :: "ospf_interface \<Rightarrow> bool" where
  init: "ospf_if_initial oi \<Longrightarrow> ospf_reachable oi"
| step: "ospf_reachable oi \<Longrightarrow> ospf_step oi oi' \<Longrightarrow> ospf_reachable oi'"

lemma ospf_initial_inv: "ospf_if_initial oi \<Longrightarrow> nsm_inv oi"
  unfolding ospf_if_initial_def
  by (intro nsm_inv_single [of oi "nbr_self oi" "self_nbr oi"]) (simp_all add: self_nbr_def)

lemma ospf_nsm_event_defined:
  assumes "nsm_inv oi" "p \<in> set (map snd (ntable oi))" "p \<noteq> nbr_self oi" "e \<notin> {NSM_NoEvent, NSM_LLDown}"
  shows "\<exists>oi'. ospf_nsm_event now tm oi p e = Some oi' \<and> nsm_inv oi'"
proof (cases "e = NSM_KillNbr \<or> e = NSM_InactivityTimer")
  case True
  then show ?thesis using ospf_nsm_event_kill [OF assms(1-3) True] by blast
next
  case False
  then have "e \<notin> {NSM_NoEvent, NSM_KillNbr, NSM_InactivityTimer, NSM_LLDown}" using assms(4) by auto
  moreover have "real_nbr p oi" using assms(1-3) by (simp add: real_nbr_def)
  ultimately show ?thesis using real_nbr_event [of p oi e now tm] by (auto dest: real_nbrD(1))
qed

lemma ospf_ism_event_defined:
  assumes "nsm_inv oi" "nstore oi q = None" "e \<noteq> ISM_NoEvent"
  shows "\<exists>oi'. ospf_ism_event now tm q oi e = Some oi' \<and> nsm_inv oi'"
proof (cases "e = ISM_InterfaceDown")
  case True
  then show ?thesis using ospf_ism_event_down [OF assms(1,2)] by blast
next
  case False
  then show ?thesis using ism_dispatch_keeps [OF assms(1,3)] by (auto simp: ospf_ism_event_def)
qed

lemma ospf_step_inv: "ospf_step oi oi' \<Longrightarrow> nsm_inv oi \<Longrightarrow> nsm_inv oi'"
proof (induction rule: ospf_step.induct)
  case (ism e oi q now tm oi')
  then show ?case using ospf_ism_event_defined [of oi q e now tm] by auto
next
  case (nsm p oi e now tm oi')
  then show ?case using ospf_nsm_event_defined [of oi p e now tm] by auto
next
  case (hello h oi q now tm c oi' es)
  then show ?case using ospf_hello_run [of oi q h now tm c] by auto
qed

lemma ospf_reachable_inv: "ospf_reachable oi \<Longrightarrow> nsm_inv oi"
  by (induction rule: ospf_reachable.induct) (auto intro: ospf_initial_inv ospf_step_inv)

lemma no_twoway_step: "ospf_step oi oi' \<Longrightarrow> nsm_inv oi \<Longrightarrow> no_twoway oi \<Longrightarrow> no_twoway oi'"
proof (induction rule: ospf_step.induct)
  case (ism e oi q now tm oi')
  show ?case
  proof (cases "e = ISM_InterfaceDown")
    case True
    then have "ntable oi' = [(oi_address oi, q)]" "nbr_self oi' = q" using ism ospf_ism_event_down [OF ism.prems(1) ism.hyps(2), of now tm] by auto
    then show ?thesis by (simp add: no_twoway_def)
  next
    case False
    obtain oi1 where "ism_dispatch (ism_interface_down now tm q) oi e = Some oi1" "oi_frame {nbr_self oi} oi oi1"
      using ism_dispatch_keeps [OF ism.prems(1) ism.hyps(1) False] by blast
    then show ?thesis using ism.hyps(3) no_twoway_frame [OF ism.prems(2)] by (auto simp: ospf_ism_event_def)
  qed
next
  case (nsm p oi e now tm oi')
  show ?case
  proof (cases "e = NSM_KillNbr \<or> e = NSM_InactivityTimer")
    case True
    then have "nbr_killed p oi oi'" using ospf_nsm_event_kill [OF nsm.prems(1) nsm.hyps(1,2) True, of now tm] nsm.hyps(4) by auto
    then show ?thesis using nsm.prems(2) by (auto simp: nbr_killed_def no_twoway_def must_be_adjacent_def)
  next
    case False
    then show ?thesis using no_twoway_event [OF nsm.prems(1) nsm.hyps(1,2) _ nsm.hyps(4) nsm.prems(2)] nsm.hyps(3) by auto
  qed
next
  case (hello h oi q now tm c oi' es)
  then show ?case using ospf_hello_run [of oi q h now tm c] by (auto simp: oi_same_def)
qed

lemma ospf_reachable_no_twoway: "ospf_reachable oi \<Longrightarrow> no_twoway oi"
proof (induction rule: ospf_reachable.induct)
  case (init oi)
  then show ?case by (simp add: ospf_if_initial_def no_twoway_def)
next
  case (step oi oi')
  then show ?case using no_twoway_step ospf_reachable_inv by blast
qed

section \<open>Properties\<close>

text \<open>C3: The two state machines together.  However interface events, neighbor events and Hello packets are
  interleaved, starting from a new interface: \<open>full_nbrs\<close> is the number of neighbors in state Full,
  the state of the interface agrees with the recorded Designated Router and Backup, every entry of
  the neighbor table is a live neighbor under its source address, and every further input is
  handled without touching a freed neighbor.\<close>

theorem ospf_machines_safe:
  assumes "ospf_reachable oi"
  shows "full_nbrs oi = of_nat (length (filter (\<lambda>p. map_option nstate (nstore oi p) = Some NSM_Full) (map snd (ntable oi))))
    \<and> ism_role_ok oi
    \<and> (\<forall>(a, p)\<in>set (ntable oi). \<exists>n. nstore oi p = Some n \<and> nsrc n = a)
    \<and> (\<forall>now tm q e. nstore oi q = None \<and> e \<noteq> ISM_NoEvent \<longrightarrow> ospf_ism_event now tm q oi e \<noteq> None)
    \<and> (\<forall>now tm p e. p \<in> set (map snd (ntable oi)) - {nbr_self oi} \<and> e \<notin> {NSM_NoEvent, NSM_LLDown} \<longrightarrow> ospf_nsm_event now tm oi p e \<noteq> None)
    \<and> (\<forall>now tm q c h. nstore oi q = None \<and> h_src h \<noteq> oi_address oi \<longrightarrow> ospf_hello now tm q c oi h \<noteq> None)"
proof -
  note inv = ospf_reachable_inv [OF assms]
  show ?thesis
  proof (intro conjI allI impI)
    show "full_nbrs oi = of_nat (length (filter (\<lambda>p. map_option nstate (nstore oi p) = Some NSM_Full) (map snd (ntable oi))))"
      using nsm_invD(6) [OF inv] full_sum_length [of oi] by (rule trans)
    show "ism_role_ok oi" by (rule nsm_invD(2) [OF inv])
    show "\<forall>(a, p)\<in>set (ntable oi). \<exists>n. nstore oi p = Some n \<and> nsrc n = a" using nsm_invD(8) [OF inv] by blast
    show "ospf_ism_event now tm q oi e \<noteq> None" if "nstore oi q = None \<and> e \<noteq> ISM_NoEvent" for now tm q e
      using ospf_ism_event_defined [OF inv, of q e now tm] that by auto
    show "ospf_nsm_event now tm oi p e \<noteq> None"
      if "p \<in> set (map snd (ntable oi)) - {nbr_self oi} \<and> e \<notin> {NSM_NoEvent, NSM_LLDown}" for now tm p e
      using ospf_nsm_event_defined [OF inv, of p e now tm] that by auto
    show "ospf_hello now tm q c oi h \<noteq> None" if "nstore oi q = None \<and> h_src h \<noteq> oi_address oi" for now tm q c h
      using ospf_hello_run [OF inv, of q h now tm c] that by auto
  qed
qed

text \<open>C17: Interface down.  On every reachable interface the event \<open>InterfaceDown\<close> returns, kills every neighbor (none
  of the old ones is left in the table or in memory), clears the count of Full neighbors, leaves the
  interface down with a fresh pseudo neighbor as the only entry, which records no Designated Router,
  and stops the timers.\<close>

theorem ospf_interface_down_clears:
  assumes "ospf_reachable oi" "nstore oi q = None"
  shows "\<exists>oi'. ospf_ism_event now tm q oi ISM_InterfaceDown = Some oi' \<and> oi_state oi' = ISM_Down
    \<and> ntable oi' = [(oi_address oi, q)] \<and> full_nbrs oi' = 0 \<and> DR oi' = Some 0 \<and> BDR oi' = Some 0
    \<and> (\<forall>p\<in>set (map snd (ntable oi)). nstore oi' p = None)
    \<and> \<not> t_hello oi' \<and> \<not> t_wait oi' \<and> \<not> t_ls_ack oi'"
proof -
  note inv = ospf_reachable_inv [OF assms(1)]
  obtain oi' where oi': "ospf_ism_event now tm q oi ISM_InterfaceDown = Some oi'" "oi_state oi' = ISM_Down"
    "ntable oi' = [(oi_address oi, q)]" "nbr_self oi' = q" "nstore oi' q = Some (self_nbr oi)" "full_nbrs oi' = 0"
    "\<forall>p. p \<noteq> q \<longrightarrow> p \<in> set (map snd (ntable oi)) \<longrightarrow> nstore oi' p = None"
    using ospf_ism_event_down [OF inv assms(2)] by blast
  have "\<forall>p\<in>set (map snd (ntable oi)). p \<noteq> q" using nsm_invD(8) [OF inv] assms(2) by fastforce
  moreover have "\<not> t_hello oi' \<and> \<not> t_wait oi' \<and> \<not> t_ls_ack oi'"
  proof -
    obtain x where "oi' = ism_timer_set x" using oi'(1) by (auto simp: ospf_ism_event_def ism_dispatch_def Let_def split: bind_splits)
    then show ?thesis using oi'(2) by (simp add: ism_timer_set_def split: ism_state.splits)
  qed
  ultimately show ?thesis using oi' by (auto simp: DR_def BDR_def self_nbr_def ospf_nbr_new_def)
qed


definition if_demo0 :: "iftype \<Rightarrow> ospf_interface" where
  "if_demo0 ty = (ospf_if_demo ISM_Down [ospf_nbr_new\<lparr>nstate := NSM_TwoWay, npriority := 1, router_id := 10, nsrc := 10, naddress := 10, noptions := 2\<rparr>])
     \<lparr>oi_type := ty\<rparr>"

definition hello_demo :: hello_packet where
  "hello_demo = \<lparr>h_src = 20, h_router_id = 20, h_masklen = 24, h_hello_interval = 10, h_dead_interval = 40, h_options = 2,
     h_priority = 1, h_d_router = 0, h_bd_router = 0, h_neighbors = [10], h_crypt_seqnum = None\<rparr>"

definition config_demo :: hello_config where
  "config_demo = \<lparr>c_passive = False, c_masklen = 24, c_v_hello = 10, c_v_wait = 40, c_options = 2\<rparr>"

lemma if_demo0_initial: "ospf_if_initial (if_demo0 ty)"
  by (simp add: ospf_if_initial_def if_demo0_def ospf_if_demo_def self_nbr_def)

lemma if_demo0_fields: "nstore (if_demo0 ty) 1 = None" "oi_address (if_demo0 ty) = 10" "ntable (if_demo0 ty) = [(10, 0)]"
  "oi_type (if_demo0 ty) = ty"
  by (simp_all add: if_demo0_def ospf_if_demo_def)

theorem ospf_machines_safe_witness:
  "\<exists>oi es. ospf_hello (int2tv 0) 1 1 config_demo (if_demo0 OSPF_IFTYPE_BROADCAST) hello_demo = Some (oi, es)
     \<and> full_nbrs oi = of_nat (length (filter (\<lambda>p. map_option nstate (nstore oi p) = Some NSM_Full) (map snd (ntable oi))))"
proof -
  let ?oi = "if_demo0 OSPF_IFTYPE_BROADCAST"
  have r: "ospf_reachable ?oi" by (rule ospf_reachable.init [OF if_demo0_initial])
  have h: "nstore ?oi 1 = None \<and> h_src hello_demo \<noteq> oi_address ?oi" using if_demo0_fields(1) by (simp add: if_demo0_fields(2) hello_demo_def)
  then have "ospf_hello (int2tv 0) 1 1 config_demo ?oi hello_demo \<noteq> None" using ospf_machines_safe [OF r] by blast
  then obtain oi es where e: "ospf_hello (int2tv 0) 1 1 config_demo ?oi hello_demo = Some (oi, es)" by auto
  have "ospf_reachable oi" using r h e by (blast intro: ospf_reachable.step ospf_step.hello)
  from ospf_machines_safe [OF this] show ?thesis using e by blast
qed

theorem ospf_interface_down_clears_witness:
  "\<exists>oi. ospf_ism_event (int2tv 0) 1 1 (if_demo0 OSPF_IFTYPE_BROADCAST) ISM_InterfaceDown = Some oi \<and> ntable oi = [(10, 1)] \<and> nstore oi 0 = None"
  using ospf_interface_down_clears [OF ospf_reachable.init [OF if_demo0_initial] if_demo0_fields(1), of "int2tv 0" 1 OSPF_IFTYPE_BROADCAST]
  by (auto simp: if_demo0_fields)

text \<open>A sequence of events of one neighbor.\<close>

fun nsm_events :: "timeval \<Rightarrow> u32 \<Rightarrow> ospf_interface \<Rightarrow> nat \<Rightarrow> nsm_event list \<Rightarrow> ospf_interface option" where
  "nsm_events now tm oi p [] = Some oi"
| "nsm_events now tm oi p (e # es) = do { oi \<leftarrow> ospf_nsm_event now tm oi p e; nsm_events now tm oi p es }"

definition adj_nbr :: "nat \<Rightarrow> nsm_state set \<Rightarrow> ospf_interface \<Rightarrow> bool" where
  "adj_nbr p S oi \<longleftrightarrow> real_nbr p oi \<and> must_be_adjacent oi \<and> (\<exists>n. nstore oi p = Some n \<and> nstate n \<in> S)"

lemma adj_nbr_step:
  assumes "adj_nbr p S oi" "e \<notin> {NSM_NoEvent, NSM_KillNbr, NSM_InactivityTimer, NSM_LLDown}"
    and next_state: "\<forall>s\<in>S. \<forall>s'. adjacent_next (fst (NSM s e)) s s' \<longrightarrow> (if s' = NSM_DependUpon then snd (NSM s e) else s') \<in> T"
  shows "\<exists>oi'. ospf_nsm_event now tm oi p e = Some oi' \<and> adj_nbr p T oi'"
proof -
  obtain n where n: "nstore oi p = Some n" "nstate n \<in> S" "real_nbr p oi" "must_be_adjacent oi" using assms(1) unfolding adj_nbr_def by blast
  obtain oi' n' s where e: "ospf_nsm_event now tm oi p e = Some oi'" "nsm_inv oi'" "oi_frame {p, nbr_self oi} oi oi'" "nstore oi' p = Some n'"
    "adjacent_next (fst (NSM (nstate n) e)) (nstate n) s" "nstate n' = (if s = NSM_DependUpon then snd (NSM (nstate n) e) else s)"
    using ospf_nsm_event_keeps [OF real_nbrD(1-3) [OF n(3)] n(1) assms(2), of now tm] n(4) by blast
  have "nstate n' \<in> T" using next_state n(2) e(5,6) by auto
  moreover have "real_nbr p oi'" using e(2,3) n(3) by (simp add: real_nbr_def oi_frame_def)
  moreover have "must_be_adjacent oi'" using e(3) n(4) by (simp add: must_be_adjacent_def oi_frame_def)
  ultimately show ?thesis using e(1,4) unfolding adj_nbr_def by blast
qed

text \<open>C24: Adjacencies come up.  On a network where every neighbor becomes adjacent (point-to-point, point-to-multipoint,
  virtual link), a neighbor of a reachable interface reaches the state Full, whatever its state, when
  the events of the database exchange arrive: a Hello, a Hello that lists this router, \<open>NegotiationDone\<close>,
  \<open>ExchangeDone\<close> and \<open>LoadingDone\<close>.  Every step returns.\<close>

theorem nsm_reaches_full:
  assumes "ospf_reachable oi" "p \<in> set (map snd (ntable oi))" "p \<noteq> nbr_self oi" "must_be_adjacent oi"
  shows "\<exists>oi' n. nsm_events now tm oi p [NSM_HelloReceived, NSM_TwoWayReceived, NSM_NegotiationDone, NSM_ExchangeDone, NSM_LoadingDone] = Some oi'
    \<and> nstore oi' p = Some n \<and> nstate n = NSM_Full"
proof -
  have r: "real_nbr p oi" using ospf_reachable_inv [OF assms(1)] assms(2,3) by (simp add: real_nbr_def)
  obtain n where n: "nstore oi p = Some n" "nstate n \<noteq> NSM_DependUpon"
    using nsm_invD(8) [OF ospf_reachable_inv [OF assms(1)]] assms(2) by fastforce
  have "nstate n \<noteq> NSM_TwoWay" using ospf_reachable_no_twoway [OF assms(1)] assms(2-4) n(1) by (auto simp: no_twoway_def)
  then have "adj_nbr p {NSM_Down, NSM_Attempt, NSM_Init, NSM_ExStart, NSM_Exchange, NSM_Loading, NSM_Full} oi"
    using r n assms(4) by (cases "nstate n") (simp_all add: adj_nbr_def)
  from adj_nbr_step [OF this, of NSM_HelloReceived "{NSM_Init, NSM_ExStart, NSM_Exchange, NSM_Loading, NSM_Full}" now tm]
  obtain oi1 where s1: "ospf_nsm_event now tm oi p NSM_HelloReceived = Some oi1"
    "adj_nbr p {NSM_Init, NSM_ExStart, NSM_Exchange, NSM_Loading, NSM_Full} oi1" by (auto simp: adjacent_next_def)
  from adj_nbr_step [OF s1(2), of NSM_TwoWayReceived "{NSM_ExStart, NSM_Exchange, NSM_Loading, NSM_Full}" now tm]
  obtain oi2 where s2: "ospf_nsm_event now tm oi1 p NSM_TwoWayReceived = Some oi2"
    "adj_nbr p {NSM_ExStart, NSM_Exchange, NSM_Loading, NSM_Full} oi2" by (auto simp: adjacent_next_def)
  from adj_nbr_step [OF s2(2), of NSM_NegotiationDone "{NSM_Exchange, NSM_Loading, NSM_Full}" now tm]
  obtain oi3 where s3: "ospf_nsm_event now tm oi2 p NSM_NegotiationDone = Some oi3"
    "adj_nbr p {NSM_Exchange, NSM_Loading, NSM_Full} oi3" by (auto simp: adjacent_next_def)
  from adj_nbr_step [OF s3(2), of NSM_ExchangeDone "{NSM_Loading, NSM_Full}" now tm]
  obtain oi4 where s4: "ospf_nsm_event now tm oi3 p NSM_ExchangeDone = Some oi4" "adj_nbr p {NSM_Loading, NSM_Full} oi4"
    by (auto simp: adjacent_next_def)
  from adj_nbr_step [OF s4(2), of NSM_LoadingDone "{NSM_Full}" now tm]
  obtain oi5 where s5: "ospf_nsm_event now tm oi4 p NSM_LoadingDone = Some oi5" "adj_nbr p {NSM_Full} oi5"
    by (auto simp: adjacent_next_def)
  then show ?thesis using s1(1) s2(1) s3(1) s4(1) by (auto simp: adj_nbr_def)
qed

text \<open>Use after free.  The event \<open>LLDown\<close> kills the neighbor, but \<open>ospf_nsm_event\<close> returns early for \<open>KillNbr\<close> and
  \<open>InactivityTimer\<close> only: for \<open>LLDown\<close> it goes on to read the state of the neighbor it has just freed,
  whatever the state of the neighbor was.\<close>

theorem nsm_lldown_reads_freed:
  assumes "ospf_reachable oi" "p \<in> set (map snd (ntable oi))" "p \<noteq> nbr_self oi"
  shows "(\<exists>oi'. nsm_ll_down tm oi p = Some (NSM_DependUpon, oi') \<and> nstore oi' p = None) \<and> ospf_nsm_event now tm oi p NSM_LLDown = None"
proof -
  note inv = ospf_reachable_inv [OF assms(1)]
  obtain n where n: "nstore oi p = Some n" "nstate n \<noteq> NSM_DependUpon" using nsm_invD(8) [OF inv] assms(2) by fastforce
  obtain oi' where "nsm_kill_nbr tm oi p = Some (NSM_DependUpon, oi')" "nbr_killed p oi oi'"
    using nsm_kill_nbr_run [OF inv assms(2,3)] by blast
  then show ?thesis using n NSM_kills(3) [OF n(2)] by (simp add: ospf_nsm_event_def nsm_func_run_def nsm_ll_down_def nbr_killed_def)
qed

text \<open>A neighbor that has said Hello on a point-to-point link.\<close>

lemma demo_neighbor:
  obtains oi es p where "ospf_hello (int2tv 0) 1 1 config_demo (if_demo0 OSPF_IFTYPE_POINTOPOINT) hello_demo = Some (oi, es)"
    "ospf_reachable oi" "p \<in> set (map snd (ntable oi))" "p \<noteq> nbr_self oi" "must_be_adjacent oi"
proof -
  let ?oi = "if_demo0 OSPF_IFTYPE_POINTOPOINT"
  have h: "nsm_inv ?oi" "nstore ?oi 1 = None" "h_src hello_demo \<noteq> oi_address ?oi"
    using ospf_initial_inv [OF if_demo0_initial] if_demo0_fields(1) by (simp_all add: if_demo0_fields(2) hello_demo_def)
  have "hello_accepted config_demo ?oi hello_demo"
    by (simp add: hello_accepted_def config_demo_def hello_demo_def if_demo0_def ospf_if_demo_def)
  then obtain oi es p where e: "ospf_hello (int2tv 0) 1 1 config_demo ?oi hello_demo = Some (oi, es)" "oi_same ?oi oi" "real_nbr p oi"
    using ospf_hello_run [OF h, of "int2tv 0" 1 config_demo] by blast
  have "ospf_reachable oi"
    using ospf_reachable.step [OF ospf_reachable.init [OF if_demo0_initial] ospf_step.hello [OF h(3,2) e(1)]] .
  moreover have "must_be_adjacent oi" using e(2) if_demo0_fields(4) by (simp add: oi_same_def must_be_adjacent_def)
  ultimately show ?thesis using e(3) unfolding real_nbr_def by (elim conjE) (rule that [OF e(1)])
qed

theorem nsm_reaches_full_witness:
  "\<exists>oi es p oi' n. ospf_hello (int2tv 0) 1 1 config_demo (if_demo0 OSPF_IFTYPE_POINTOPOINT) hello_demo = Some (oi, es)
    \<and> nsm_events (int2tv 0) 1 oi p [NSM_HelloReceived, NSM_TwoWayReceived, NSM_NegotiationDone, NSM_ExchangeDone, NSM_LoadingDone] = Some oi'
    \<and> nstore oi' p = Some n \<and> nstate n = NSM_Full"
proof -
  obtain oi es p where d: "ospf_hello (int2tv 0) 1 1 config_demo (if_demo0 OSPF_IFTYPE_POINTOPOINT) hello_demo = Some (oi, es)"
    "ospf_reachable oi" "p \<in> set (map snd (ntable oi))" "p \<noteq> nbr_self oi" "must_be_adjacent oi" using demo_neighbor .
  from nsm_reaches_full [OF d(2-5), of "int2tv 0" 1] d(1) show ?thesis by blast
qed

theorem nsm_lldown_reads_freed_witness:
  "\<exists>oi es p. ospf_hello (int2tv 0) 1 1 config_demo (if_demo0 OSPF_IFTYPE_POINTOPOINT) hello_demo = Some (oi, es)
    \<and> nstore oi p \<noteq> None \<and> ospf_nsm_event (int2tv 0) 1 oi p NSM_LLDown = None"
proof -
  obtain oi es p where d: "ospf_hello (int2tv 0) 1 1 config_demo (if_demo0 OSPF_IFTYPE_POINTOPOINT) hello_demo = Some (oi, es)"
    "ospf_reachable oi" "p \<in> set (map snd (ntable oi))" "p \<noteq> nbr_self oi" "must_be_adjacent oi" using demo_neighbor .
  have "nstore oi p \<noteq> None" using nsm_invD(8) [OF ospf_reachable_inv [OF d(2)]] d(3) by fastforce
  with nsm_lldown_reads_freed [OF d(2-4), of 1 "int2tv 0"] d(1) show ?thesis by blast
qed

end
