(* ===== verification/Ospf_Lsdb.thy ===== *)
theory Ospf_Lsdb
  imports Ospf_Lsa Lib_Table_Map
begin

text \<open>
  The link state database of \<open>ospfd/ospf_lsdb.c\<close>: one routing table per LSA type, keyed by link state id
  and advertising router, with counters, on the trie of \<open>lib/table.c\<close> as it is modelled in
  \<open>Lib_Table\<close>.  The LSAs live in a store, are referred to by address and are reference counted
  (\<open>ospf_lsa_lock\<close>, \<open>ospf_lsa_unlock\<close>, \<open>ospf_lsa_discard\<close>).  \<^term>\<open>None\<close> is a failed assertion, an index
  outside the array of types, or the use of a freed LSA.
\<close>

section \<open>Definitions\<close>

type_synonym lsa_store = "nat \<Rightarrow> ospf_lsa option"

record lsdb_type =
  lcount :: ulong
  lcount_self :: ulong
  ldb :: "nat route_table"

text \<open>An entry of the array \<open>type\<close> that is \<^term>\<open>None\<close> is zero: it has no table, and its counters are 0.\<close>

record ospf_lsdb =
  ltypes :: "lsdb_type option list"
  ltotal :: ulong

subsection \<open>Reference counts of LSAs\<close>

definition ospf_lsa_free :: "lsa_store \<Rightarrow> nat \<Rightarrow> lsa_store option" where
  "ospf_lsa_free st p = do {
     lsa \<leftarrow> st p;
     if llock lsa \<noteq> 0 \<or> \<not> refresh_list lsa < 0 then None else Some (st(p := None))
   }"

definition ospf_lsa_lock :: "lsa_store \<Rightarrow> nat \<Rightarrow> lsa_store option" where
  "ospf_lsa_lock st p = do {
     lsa \<leftarrow> st p;
     Some (st(p \<mapsto> lsa\<lparr>llock := llock lsa + 1\<rparr>))
   }"

definition ospf_lsa_unlock :: "lsa_store \<Rightarrow> nat option \<Rightarrow> lsa_store option" where
  "ospf_lsa_unlock st q =
     (case q of
        None \<Rightarrow> Some st
      | Some p \<Rightarrow> do {
          lsa \<leftarrow> st p;
          let lsa = lsa\<lparr>llock := llock lsa - 1\<rparr>;
          let st = st(p \<mapsto> lsa);
          if \<not> llock lsa \<ge> 0 then None
          else if llock lsa = 0 then (if ldiscard lsa then ospf_lsa_free st p else None)
          else Some st
        })"

definition ospf_lsa_discard :: "lsa_store \<Rightarrow> nat \<Rightarrow> lsa_store option" where
  "ospf_lsa_discard st p = do {
     lsa \<leftarrow> st p;
     if \<not> ldiscard lsa then ospf_lsa_unlock (st(p \<mapsto> lsa\<lparr>ldiscard := True\<rparr>)) (Some p) else Some st
   }"

subsection \<open>The database\<close>

abbreviation OSPF_MIN_LSA :: nat where "OSPF_MIN_LSA \<equiv> 1"

text \<open>The array comes from \<open>XCALLOC\<close>; the tables are made from the first type of LSA on.  \<open>OSPF_MAX_LSA\<close> depends on the configuration of the build.\<close>

definition ospf_lsdb_init :: "nat \<Rightarrow> ospf_lsdb" where
  "ospf_lsdb_init max_lsa =
     \<lparr>ltypes = map (\<lambda>i. if OSPF_MIN_LSA \<le> i then Some \<lparr>lcount = 0, lcount_self = 0, ldb = route_table_init\<rparr> else None) [0..<max_lsa], ltotal = 0\<rparr>"

definition lsdb_prefix :: "u32 \<Rightarrow> u32 \<Rightarrow> prefix" where
  "lsdb_prefix i adv = \<lparr>family = AF_UNSPEC, prefixlen = 64, u_prefix = be32 i @ be32 adv @ replicate 8 0\<rparr>"

definition lsdb_prefix_set :: "ospf_lsa \<Rightarrow> prefix" where
  "lsdb_prefix_set lsa = lsdb_prefix (ls_id (ldata lsa)) (adv_router (ldata lsa))"

definition lsdb_slot :: "ospf_lsdb \<Rightarrow> u8 \<Rightarrow> lsdb_type option" where
  "lsdb_slot lsdb ty = (if unat ty < length (ltypes lsdb) then ltypes lsdb ! unat ty else None)"

definition lsdb_set_slot :: "ospf_lsdb \<Rightarrow> u8 \<Rightarrow> lsdb_type \<Rightarrow> ospf_lsdb" where
  "lsdb_set_slot lsdb ty s = lsdb\<lparr>ltypes := (ltypes lsdb)[unat ty := Some s]\<rparr>"

definition node_info :: "nat route_table \<Rightarrow> bool list \<Rightarrow> nat option" where
  "node_info t k = (case rn_find k t of Some n \<Rightarrow> rn_info n | None \<Rightarrow> None)"

definition ospf_lsdb_add :: "lsa_store \<Rightarrow> ospf_lsdb \<Rightarrow> nat \<Rightarrow> (lsa_store \<times> ospf_lsdb) option" where
  "ospf_lsdb_add st lsdb p = do {
     lsa \<leftarrow> st p;
     s \<leftarrow> lsdb_slot lsdb (ls_type (ldata lsa));
     let lp = lsdb_prefix_set lsa;
     let k = pfx_bits lp;
     t \<leftarrow> route_node_get (ldb s) lp;
     case node_info t k of
       None \<Rightarrow> do {
         st \<leftarrow> ospf_lsa_lock st p;
         Some (st, (lsdb_set_slot lsdb (ls_type (ldata lsa))
           \<lparr>lcount = lcount s + 1, lcount_self = (if lself lsa then lcount_self s + 1 else lcount_self s),
            ldb = route_set_info t k (Some p)\<rparr>)\<lparr>ltotal := ltotal lsdb + 1\<rparr>)
       }
     | Some old \<Rightarrow>
         if old = p then Some (st, lsdb_set_slot lsdb (ls_type (ldata lsa)) (s\<lparr>ldb := t\<rparr>))
         else do {
           st \<leftarrow> ospf_lsa_unlock st (Some old);
           t \<leftarrow> route_unlock_node t k;
           st \<leftarrow> ospf_lsa_lock st p;
           Some (st, lsdb_set_slot lsdb (ls_type (ldata lsa)) (s\<lparr>ldb := route_set_info t k (Some p)\<rparr>))
         }
   }"

definition ospf_lsdb_delete :: "lsa_store \<Rightarrow> ospf_lsdb \<Rightarrow> nat \<Rightarrow> (lsa_store \<times> ospf_lsdb) option" where
  "ospf_lsdb_delete st lsdb p = do {
     lsa \<leftarrow> st p;
     s \<leftarrow> lsdb_slot lsdb (ls_type (ldata lsa));
     let lp = lsdb_prefix_set lsa;
     let k = pfx_bits lp;
     case route_node_lookup (ldb s) lp of
       (t, None) \<Rightarrow> Some (st, lsdb)
     | (t, Some n) \<Rightarrow>
         if node_info t k = Some p then do {
           t \<leftarrow> route_unlock_node (route_set_info t k None) k;
           t \<leftarrow> route_unlock_node t k;
           st \<leftarrow> ospf_lsa_unlock st (Some p);
           Some (st, (lsdb_set_slot lsdb (ls_type (ldata lsa))
             \<lparr>lcount = lcount s - 1, lcount_self = (if lself lsa then lcount_self s - 1 else lcount_self s),
              ldb = t\<rparr>)\<lparr>ltotal := ltotal lsdb - 1\<rparr>)
         }
         else Some (st, lsdb_set_slot lsdb (ls_type (ldata lsa)) (s\<lparr>ldb := t\<rparr>))
   }"

definition ospf_lsdb_lookup_by_id :: "ospf_lsdb \<Rightarrow> u8 \<Rightarrow> u32 \<Rightarrow> u32 \<Rightarrow> (nat option \<times> ospf_lsdb) option" where
  "ospf_lsdb_lookup_by_id lsdb ty i adv = do {
     s \<leftarrow> lsdb_slot lsdb ty;
     let lp = lsdb_prefix i adv;
     let k = pfx_bits lp;
     case route_node_lookup (ldb s) lp of
       (t, None) \<Rightarrow> Some (None, lsdb)
     | (t, Some n) \<Rightarrow> do {
         let find = node_info t k;
         t \<leftarrow> route_unlock_node t k;
         Some (find, lsdb_set_slot lsdb ty (s\<lparr>ldb := t\<rparr>))
       }
   }"

definition ospf_lsdb_lookup :: "lsa_store \<Rightarrow> ospf_lsdb \<Rightarrow> nat \<Rightarrow> (nat option \<times> ospf_lsdb) option" where
  "ospf_lsdb_lookup st lsdb p = do {
     lsa \<leftarrow> st p;
     ospf_lsdb_lookup_by_id lsdb (ls_type (ldata lsa)) (ls_id (ldata lsa)) (adv_router (ldata lsa))
   }"

definition ospf_lsdb_count_all :: "ospf_lsdb \<Rightarrow> ulong" where
  "ospf_lsdb_count_all lsdb = ltotal lsdb"

definition count_of :: "(lsdb_type \<Rightarrow> ulong) \<Rightarrow> lsdb_type option \<Rightarrow> ulong" where
  "count_of c s = (case s of None \<Rightarrow> 0 | Some s \<Rightarrow> c s)"

definition ospf_lsdb_count :: "ospf_lsdb \<Rightarrow> u8 \<Rightarrow> ulong option" where
  "ospf_lsdb_count lsdb ty = (if unat ty < length (ltypes lsdb) then Some (count_of lcount (ltypes lsdb ! unat ty)) else None)"

definition ospf_lsdb_count_self :: "ospf_lsdb \<Rightarrow> u8 \<Rightarrow> ulong option" where
  "ospf_lsdb_count_self lsdb ty = (if unat ty < length (ltypes lsdb) then Some (count_of lcount_self (ltypes lsdb ! unat ty)) else None)"

definition ospf_lsdb_isempty :: "ospf_lsdb \<Rightarrow> bool" where
  "ospf_lsdb_isempty lsdb \<longleftrightarrow> ltotal lsdb = 0"

section \<open>Keys\<close>

lemma lsdb_prefix_simps [simp]: "family (lsdb_prefix i adv) = AF_UNSPEC" "rt_key (lsdb_prefix i adv)"
  by (simp_all add: lsdb_prefix_def rt_key_def be32_def)

lemma be32_inj: "be32 a = be32 b \<Longrightarrow> a = b"
proof -
  assume "be32 a = be32 b"
  then have e: "(ucast (drop_bit 24 a) :: u8) = ucast (drop_bit 24 b)" "(ucast (drop_bit 16 a) :: u8) = ucast (drop_bit 16 b)"
    "(ucast (drop_bit 8 a) :: u8) = ucast (drop_bit 8 b)" "(ucast a :: u8) = ucast b"
    by (simp_all add: be32_def)
  have bits: "bit a (n + m) = bit b (n + m)" if "(ucast (drop_bit m a) :: u8) = ucast (drop_bit m b)" "n < 8" for n m
    using arg_cong [OF that(1), of "\<lambda>w. bit w n"] that(2) by (simp add: bit_simps add.commute)
  show "a = b"
  proof (rule bit_word_eqI)
    fix n assume "n < LENGTH(32)"
    then consider "n < 8" | "n - 8 < 8" "8 \<le> n" | "n - 16 < 8" "16 \<le> n" | "n - 24 < 8" "24 \<le> n" by fastforce
    then show "bit a n = bit b n"
      using bits [OF e(1), of "n - 24"] bits [OF e(2), of "n - 16"] bits [OF e(3), of "n - 8"] bits [of 0 n] e(4)
      by cases simp_all
  qed
qed

text \<open>Different link state ids or advertising routers have different keys.\<close>

lemma lsdb_key_inj: "pfx_bits (lsdb_prefix i a) = pfx_bits (lsdb_prefix j b) \<longleftrightarrow> i = j \<and> a = b"
proof
  assume e: "pfx_bits (lsdb_prefix i a) = pfx_bits (lsdb_prefix j b)"
  have l: "length (be32 x) = 4" for x by (simp add: be32_def)
  have "addr_bit (u_prefix (lsdb_prefix i a)) n = addr_bit (u_prefix (lsdb_prefix j b)) n" if "n < 64" for n
    using arg_cong [OF e, of "\<lambda>k. k ! n"] that by (simp add: nth_pfx_bits lsdb_prefix_def)
  then have "take 8 (u_prefix (lsdb_prefix i a)) = take 8 (u_prefix (lsdb_prefix j b))"
    by (subst take_eq_addr_bits) (simp_all add: lsdb_prefix_def l)
  then have "be32 i @ be32 a = be32 j @ be32 b" by (simp add: lsdb_prefix_def l)
  then show "i = j \<and> a = b" using be32_inj by (auto simp: l append_eq_append_conv)
qed simp


section \<open>The database as a map\<close>

lemma node_info_entries: "node_info t k = rt_entries t k"
  by (simp add: node_info_def rt_entries_def rt_map_def split: option.split)

lemma rt_entries_finite [simp]: "finite (dom (rt_entries t))"
proof (rule finite_subset)
  show "dom (rt_entries t) \<subseteq> set (rn_keys t)"
  proof
    fix k assume "k \<in> dom (rt_entries t)"
    then have "rt_map t k \<noteq> None" by (auto simp: rt_entries_def split: option.splits)
    then show "k \<in> set (rn_keys t)" using rt_map_None_iff [of t k] by simp
  qed
qed simp

lemma rt_held_info: "rt_held fam t k n i m \<Longrightarrow> rt_entries t k = i"
  by (simp add: rt_held_def rt_entries_def)

text \<open>An entry is alive, has the type of its table and is entered under its own key.\<close>

definition slot_inv :: "lsa_store \<Rightarrow> u8 \<Rightarrow> lsdb_type \<Rightarrow> bool" where
  "slot_inv st ty s \<longleftrightarrow> rt_inv AF_UNSPEC (ldb s) \<and> lcount s = of_nat (card (dom (rt_entries (ldb s))))
     \<and> (\<forall>k p. rt_entries (ldb s) k = Some p \<longrightarrow>
          (\<exists>l. st p = Some l \<and> ls_type (ldata l) = ty \<and> k = pfx_bits (lsdb_prefix_set l)))"

definition lsdb_inv :: "lsa_store \<times> ospf_lsdb \<Rightarrow> bool" where
  "lsdb_inv x \<longleftrightarrow> (\<forall>ty s. lsdb_slot (snd x) ty = Some s \<longrightarrow> slot_inv (fst x) ty s)
     \<and> ltotal (snd x) = sum_list (map (count_of lcount) (ltypes (snd x)))"

type_synonym lsa_key = "u8 \<times> u32 \<times> u32"

definition lsa_key :: "lsa_store \<times> ospf_lsdb \<Rightarrow> nat \<Rightarrow> lsa_key option" where
  "lsa_key x p = (case fst x p of None \<Rightarrow> None
     | Some l \<Rightarrow> if lsdb_slot (snd x) (ls_type (ldata l)) \<noteq> None
         then Some (ls_type (ldata l), ls_id (ldata l), adv_router (ldata l)) else None)"

definition lsdb_content :: "lsa_store \<times> ospf_lsdb \<Rightarrow> lsa_key \<Rightarrow> nat option" where
  "lsdb_content x = (\<lambda>(ty, i, adv). case lsdb_slot (snd x) ty of None \<Rightarrow> None
     | Some s \<Rightarrow> rt_entries (ldb s) (pfx_bits (lsdb_prefix i adv)))"

text \<open>The reference count of the LSA can be dropped: another reference remains, or it was discarded.\<close>

definition lsa_releasable :: "lsa_store \<Rightarrow> nat \<Rightarrow> bool" where
  "lsa_releasable st p \<longleftrightarrow> (case st p of None \<Rightarrow> False
     | Some l \<Rightarrow> 1 < llock l \<or> llock l = 1 \<and> ldiscard l \<and> refresh_list l < 0)"

text \<open>The references: one more, or one less, and the LSA is freed with the last one.\<close>

definition lsa_take :: "nat \<Rightarrow> lsa_store \<Rightarrow> lsa_store" where
  "lsa_take p st = st(p := map_option (\<lambda>l. l\<lparr>llock := llock l + 1\<rparr>) (st p))"

definition lsa_drop :: "nat \<Rightarrow> lsa_store \<Rightarrow> lsa_store" where
  "lsa_drop p st = st(p := (case st p of None \<Rightarrow> None | Some l \<Rightarrow> if llock l = 1 then None else Some (l\<lparr>llock := llock l - 1\<rparr>)))"

lemma lock_take: "st p = Some l \<Longrightarrow> ospf_lsa_lock st p = Some (lsa_take p st)"
  by (simp add: ospf_lsa_lock_def lsa_take_def)

lemma unlock_drop: "lsa_releasable st p \<Longrightarrow> ospf_lsa_unlock st (Some p) = Some (lsa_drop p st)"
  by (auto simp: lsa_releasable_def ospf_lsa_unlock_def ospf_lsa_free_def lsa_drop_def Let_def split: option.splits)

lemma lsdb_set_slot_simps [simp]:
  "length (ltypes (lsdb_set_slot lsdb ty s)) = length (ltypes lsdb)" "ltotal (lsdb_set_slot lsdb ty s) = ltotal lsdb"
  by (simp_all add: lsdb_set_slot_def)

lemma lsdb_slot_set:
  "lsdb_slot lsdb ty = Some s0 \<Longrightarrow> lsdb_slot (lsdb_set_slot lsdb ty s) ty' = (if ty' = ty then Some s else lsdb_slot lsdb ty')"
  by (auto simp: lsdb_slot_def lsdb_set_slot_def word_unat_eq_iff split: if_splits)

lemma lsdb_slot_set_same: "lsdb_slot lsdb ty = Some s0 \<Longrightarrow> lsdb_slot (lsdb_set_slot lsdb ty s) ty = Some s"
  using lsdb_slot_set [of lsdb ty s0 s ty] by simp

lemma lsdb_slot_total: "lsdb_slot (lsdb\<lparr>ltotal := n\<rparr>) ty = lsdb_slot lsdb ty"
  by (simp add: lsdb_slot_def)

lemma lsdb_total_set:
  assumes "lsdb_slot lsdb ty = Some s0"
  shows "sum_list (map (count_of lcount) (ltypes (lsdb_set_slot lsdb ty s))) = sum_list (map (count_of lcount) (ltypes lsdb)) + lcount s - lcount s0"
proof -
  have i: "unat ty < length (ltypes lsdb)" "ltypes lsdb ! unat ty = Some s0" using assms by (auto simp: lsdb_slot_def split: if_splits)
  have "sum_list (xs[n := v]) = sum_list xs + v - xs ! n" if "n < length xs" for xs :: "ulong list" and n v
    using that by (induction xs arbitrary: n) (auto split: nat.splits simp: algebra_simps)
  then show ?thesis using i by (simp add: lsdb_set_slot_def map_update count_of_def)
qed

text \<open>Replacing the table of one type: the new slot is good, the LSAs of the other types are still there.\<close>

lemma lsdb_inv_update:
  assumes inv: "lsdb_inv (st, lsdb)" and s: "lsdb_slot lsdb ty = Some s0" and s': "slot_inv st' ty s'"
    and other: "\<And>q l. st q = Some l \<Longrightarrow> ls_type (ldata l) \<noteq> ty \<Longrightarrow> \<exists>l'. st' q = Some l' \<and> ldata l' = ldata l"
    and tot: "tot = ltotal lsdb + lcount s' - lcount s0"
  shows "lsdb_inv (st', (lsdb_set_slot lsdb ty s')\<lparr>ltotal := tot\<rparr>)"
proof -
  have "slot_inv st' ty' u" if u: "lsdb_slot lsdb ty' = Some u" "ty' \<noteq> ty" for ty' u
  proof -
    have v: "slot_inv st ty' u" using inv u by (simp add: lsdb_inv_def)
    have "\<exists>l. st' p = Some l \<and> ls_type (ldata l) = ty' \<and> k = pfx_bits (lsdb_prefix_set l)"
      if e: "rt_entries (ldb u) k = Some p" for k p
    proof -
      obtain l where l: "st p = Some l" "ls_type (ldata l) = ty'" "k = pfx_bits (lsdb_prefix_set l)"
        using v e unfolding slot_inv_def by blast
      obtain l' where "st' p = Some l'" "ldata l' = ldata l" using other [OF l(1)] l(2) u(2) by blast
      then show ?thesis using l by (intro exI [of _ l']) (simp add: lsdb_prefix_set_def)
    qed
    then show ?thesis using v by (simp add: slot_inv_def)
  qed
  moreover have "tot = sum_list (map (count_of lcount) (ltypes (lsdb_set_slot lsdb ty s')))"
    using lsdb_total_set [OF s, of s'] inv tot by (simp add: lsdb_inv_def)
  ultimately show ?thesis using s' lsdb_slot_set [OF s, of s']
    by (auto simp: lsdb_inv_def lsdb_slot_total split: if_splits)
qed

lemma lsdb_content_set:
  assumes "lsdb_slot lsdb ty = Some s0" "rt_entries (ldb s') = (rt_entries (ldb s0))(pfx_bits (lsdb_prefix i adv) := v)"
  shows "lsdb_content (st', (lsdb_set_slot lsdb ty s')\<lparr>ltotal := tot\<rparr>) = (lsdb_content (st, lsdb))((ty, i, adv) := v)"
proof (rule ext, clarify)
  fix a b c
  show "lsdb_content (st', (lsdb_set_slot lsdb ty s')\<lparr>ltotal := tot\<rparr>) (a, b, c) = ((lsdb_content (st, lsdb))((ty, i, adv) := v)) (a, b, c)"
    using assms lsdb_slot_set [OF assms(1), of s' a] lsdb_key_inj [of b c i adv]
    by (auto simp: lsdb_content_def lsdb_slot_total)
qed


lemma lsa_keyD:
  assumes "lsa_key (st, lsdb) p = Some (ty, i, adv)"
  obtains l s where "st p = Some l" "ls_type (ldata l) = ty" "ls_id (ldata l) = i" "adv_router (ldata l) = adv"
    "lsdb_slot lsdb ty = Some s" "lsdb_prefix_set l = lsdb_prefix i adv"
  using assms that by (auto simp: lsa_key_def lsdb_prefix_set_def split: option.splits if_splits)

lemma lsdb_inv_slot: "lsdb_inv (st, lsdb) \<Longrightarrow> lsdb_slot lsdb ty = Some s \<Longrightarrow> slot_inv st ty s"
  by (simp add: lsdb_inv_def)

lemma card_insert_dom: "m k = None \<Longrightarrow> finite (dom m) \<Longrightarrow> card (dom (m(k \<mapsto> v))) = card (dom m) + 1"
  by (simp add: domIff)

lemma card_replace_dom: "m k = Some u \<Longrightarrow> card (dom (m(k \<mapsto> v))) = card (dom m)"
  by (simp add: domI insert_absorb)

lemma card_remove_dom: "m k = Some u \<Longrightarrow> finite (dom m) \<Longrightarrow> card (dom m) = card (dom (m(k := None))) + 1"
  by (simp add: card_Diff_singleton_if domI) (metis card_gt_0_iff domI empty_iff Suc_pred One_nat_def)

text \<open>The slot after its table got the LSA \<open>p\<close> under its key.\<close>

lemma slot_inv_put:
  assumes s: "slot_inv st ty s" and p: "st' p = Some l" "ls_type (ldata l) = ty" "k = pfx_bits (lsdb_prefix_set l)"
    and t: "rt_inv AF_UNSPEC (ldb s')" "rt_entries (ldb s') = (rt_entries (ldb s))(k \<mapsto> p)"
    and c: "lcount s' = (if rt_entries (ldb s) k = None then lcount s + 1 else lcount s)"
    and old: "st p = Some l0" "ldata l = ldata l0"
    and other: "\<And>q. q \<noteq> p \<Longrightarrow> rt_entries (ldb s) k \<noteq> Some q \<Longrightarrow> st' q = st q"
  shows "slot_inv st' ty s'"
proof -
  have "\<exists>l. st' q = Some l \<and> ls_type (ldata l) = ty \<and> x = pfx_bits (lsdb_prefix_set l)"
    if e: "rt_entries (ldb s') x = Some q" for x q
  proof (cases "x = k")
    case True
    then show ?thesis using e t p by auto
  next
    case False
    then have q: "rt_entries (ldb s) x = Some q" using e t(2) by simp
    obtain l' where l': "st q = Some l'" "ls_type (ldata l') = ty" "x = pfx_bits (lsdb_prefix_set l')"
      using s q unfolding slot_inv_def by blast
    have "rt_entries (ldb s) k \<noteq> Some q"
    proof
      assume "rt_entries (ldb s) k = Some q"
      then obtain l'' where "st q = Some l''" "k = pfx_bits (lsdb_prefix_set l'')" using s unfolding slot_inv_def by blast
      then show False using l' False by simp
    qed
    moreover have "q \<noteq> p" using False l' p(3) old by (auto simp: lsdb_prefix_set_def)
    ultimately show ?thesis using other [of q] l' by auto
  qed
  moreover have "lcount s' = of_nat (card (dom (rt_entries (ldb s'))))"
  proof (cases "rt_entries (ldb s) k")
    case None
    then show ?thesis using s c card_insert_dom [of "rt_entries (ldb s)" k p] by (simp add: slot_inv_def t(2))
  next
    case (Some u)
    then show ?thesis using s c card_replace_dom [of "rt_entries (ldb s)" k u p] by (simp add: slot_inv_def t(2))
  qed
  ultimately show ?thesis using t(1) by (simp add: slot_inv_def)
qed


lemma ospf_lsdb_add_put:
  assumes inv: "lsdb_inv (st, lsdb)" and key: "lsa_key (st, lsdb) p = Some (ty, i, adv)"
    and new: "lsdb_content (st, lsdb) (ty, i, adv) \<noteq> Some p"
    and rel: "\<forall>q. lsdb_content (st, lsdb) (ty, i, adv) = Some q \<longrightarrow> lsa_releasable st q"
  shows "\<exists>x. ospf_lsdb_add st lsdb p = Some x \<and> lsdb_inv x \<and> lsdb_content x = (lsdb_content (st, lsdb))((ty, i, adv) \<mapsto> p)
     \<and> fst x = lsa_take p (case lsdb_content (st, lsdb) (ty, i, adv) of None \<Rightarrow> st | Some q \<Rightarrow> lsa_drop q st)"
proof -
  obtain l s where l: "st p = Some l" "ls_type (ldata l) = ty" "lsdb_prefix_set l = lsdb_prefix i adv"
    and s: "lsdb_slot lsdb ty = Some s" using lsa_keyD [OF key] by metis
  let ?lp = "lsdb_prefix i adv" and ?l = "l\<lparr>llock := llock l + 1\<rparr>"
  let ?k = "pfx_bits ?lp"
  have si: "slot_inv st ty s" using lsdb_inv_slot [OF inv s] .
  then have ti: "rt_inv (family ?lp) (ldb s)" by (simp add: slot_inv_def)
  have old: "rt_entries (ldb s) ?k = lsdb_content (st, lsdb) (ty, i, adv)" using s by (simp add: lsdb_content_def)
  obtain t where t: "route_node_get (ldb s) ?lp = Some t"
    "rt_held AF_UNSPEC t ?k (if rt_entries (ldb s) ?k = None then 1 else 2) (rt_entries (ldb s) ?k) (rt_entries (ldb s))"
    using rt_get_held [OF ti] by auto
  have info: "node_info t ?k = rt_entries (ldb s) ?k" using rt_held_info [OF t(2)] by (simp add: node_info_entries)
  have fin: "\<exists>x. Some (st', (lsdb_set_slot lsdb ty s')\<lparr>ltotal := tot\<rparr>) = Some x \<and> lsdb_inv x
      \<and> lsdb_content x = (lsdb_content (st, lsdb))((ty, i, adv) \<mapsto> p) \<and> fst x = lsa_take p (case lsdb_content (st, lsdb) (ty, i, adv) of None \<Rightarrow> st | Some q \<Rightarrow> lsa_drop q st)"
    if put: "rt_inv AF_UNSPEC (ldb s')" "rt_entries (ldb s') = (rt_entries (ldb s))(?k \<mapsto> p)"
        "lcount s' = (if rt_entries (ldb s) ?k = None then lcount s + 1 else lcount s)"
      and store: "st' p = Some ?l" "\<And>q. q \<noteq> p \<Longrightarrow> rt_entries (ldb s) ?k \<noteq> Some q \<Longrightarrow> st' q = st q"
      and tot: "tot = ltotal lsdb + lcount s' - lcount s" and refs: "st' = lsa_take p (case rt_entries (ldb s) ?k of None \<Rightarrow> st | Some q \<Rightarrow> lsa_drop q st)" for st' s' tot
  proof -
    have s': "slot_inv st' ty s'"
      by (rule slot_inv_put [OF si store(1) _ _ put l(1) _ store(2)]) (simp_all add: l lsdb_prefix_set_def flip: l(3))
    have "\<exists>l'. st' q = Some l' \<and> ldata l' = ldata m" if m: "st q = Some m" "ls_type (ldata m) \<noteq> ty" for q m
    proof -
      have "q \<noteq> p" using m l by auto
      moreover have "rt_entries (ldb s) ?k \<noteq> Some q"
        using si m unfolding slot_inv_def by fastforce
      ultimately show ?thesis using store(2) [of q] m(1) by simp
    qed
    then have "lsdb_inv (st', (lsdb_set_slot lsdb ty s')\<lparr>ltotal := tot\<rparr>)" by (rule lsdb_inv_update [OF inv s s' _ tot])
    moreover have "lsdb_content (st', (lsdb_set_slot lsdb ty s')\<lparr>ltotal := tot\<rparr>) = (lsdb_content (st, lsdb))((ty, i, adv) \<mapsto> p)" by (rule lsdb_content_set [OF s put(2)])
    ultimately show ?thesis using refs old by simp
  qed
  show ?thesis
  proof (cases "rt_entries (ldb s) ?k")
    case None
    let ?t = "route_set_info t ?k (Some p)"
    have "rt_held AF_UNSPEC ?t ?k 1 (Some p) (rt_entries (ldb s))" using t(2) None by (intro rt_held_set_info) simp_all
    note e = rt_held_entry [OF this]
    let ?s = "\<lparr>lcount = lcount s + 1, lcount_self = (if lself l then lcount_self s + 1 else lcount_self s), ldb = ?t\<rparr>"
    have add: "ospf_lsdb_add st lsdb p = Some (st(p \<mapsto> ?l), (lsdb_set_slot lsdb ty ?s)\<lparr>ltotal := ltotal lsdb + 1\<rparr>)"
      using l s t(1) info None by (simp add: ospf_lsdb_add_def ospf_lsa_lock_def)
    show ?thesis unfolding add by (rule fin) (simp_all add: e None lsa_take_def l(1))
  next
    case (Some q)
    then have qp: "q \<noteq> p" "lsa_releasable st q" using old new rel by auto
    define st1 where "st1 = lsa_drop q st"
    have st1: "ospf_lsa_unlock st (Some q) = Some st1" "\<And>r. r \<noteq> q \<Longrightarrow> st1 r = st r"
      using unlock_drop [OF qp(2)] by (simp_all add: st1_def lsa_drop_def)
    have "rt_held AF_UNSPEC t ?k 2 (Some q) (rt_entries (ldb s))" using t(2) Some by simp
    then obtain t1 where t1: "route_unlock_node t ?k = Some t1" "rt_held AF_UNSPEC t1 ?k 1 (Some q) (rt_entries (ldb s))"
      using rt_held_unlock [of AF_UNSPEC t ?k 2] by auto
    let ?t = "route_set_info t1 ?k (Some p)"
    have "rt_held AF_UNSPEC ?t ?k 1 (Some p) (rt_entries (ldb s))" using t1(2) by (rule rt_held_set_info) simp
    note e = rt_held_entry [OF this]
    have p1: "st1 p = Some l" using st1(2) [of p] qp(1) l(1) by simp
    have "(lsdb_set_slot lsdb ty (s\<lparr>ldb := ?t\<rparr>))\<lparr>ltotal := ltotal lsdb\<rparr> = lsdb_set_slot lsdb ty (s\<lparr>ldb := ?t\<rparr>)"
      by (simp add: lsdb_set_slot_def)
    then have add: "ospf_lsdb_add st lsdb p = Some (st1(p \<mapsto> ?l), (lsdb_set_slot lsdb ty (s\<lparr>ldb := ?t\<rparr>))\<lparr>ltotal := ltotal lsdb\<rparr>)"
      using l s t(1) info Some qp(1) st1(1) t1(1) p1 by (simp add: ospf_lsdb_add_def ospf_lsa_lock_def)
    show ?thesis unfolding add by (rule fin) (use p1 in \<open>simp_all add: e Some st1(2) lsa_take_def st1_def [symmetric]\<close>)
  qed
qed


lemma slot_inv_remove:
  assumes s: "slot_inv st ty s" and k: "rt_entries (ldb s) k = Some p"
    and t: "rt_inv AF_UNSPEC (ldb s')" "rt_entries (ldb s') = (rt_entries (ldb s))(k := None)" "lcount s' = lcount s - 1"
    and other: "\<And>q. q \<noteq> p \<Longrightarrow> st' q = st q"
  shows "slot_inv st' ty s'"
proof -
  have "\<exists>l. st' q = Some l \<and> ls_type (ldata l) = ty \<and> x = pfx_bits (lsdb_prefix_set l)"
    if e: "rt_entries (ldb s') x = Some q" for x q
  proof -
    have x: "x \<noteq> k" "rt_entries (ldb s) x = Some q" using e t(2) by (auto split: if_splits)
    obtain l where l: "st q = Some l" "ls_type (ldata l) = ty" "x = pfx_bits (lsdb_prefix_set l)"
      using s x(2) unfolding slot_inv_def by blast
    have "q \<noteq> p"
    proof
      assume "q = p"
      then obtain l' where "st q = Some l'" "k = pfx_bits (lsdb_prefix_set l')" using s k unfolding slot_inv_def by blast
      then show False using l x(1) by simp
    qed
    then show ?thesis using other l by simp
  qed
  moreover have "lcount s' = of_nat (card (dom (rt_entries (ldb s'))))"
    using s t(3) card_remove_dom [of "rt_entries (ldb s)" k p] k by (simp add: slot_inv_def t(2))
  ultimately show ?thesis using t(1) by (simp add: slot_inv_def)
qed

lemma ospf_lsdb_delete_take:
  assumes inv: "lsdb_inv (st, lsdb)" and key: "lsa_key (st, lsdb) p = Some (ty, i, adv)"
    and ent: "lsdb_content (st, lsdb) (ty, i, adv) = Some p" and rel: "lsa_releasable st p"
  shows "\<exists>x. ospf_lsdb_delete st lsdb p = Some x \<and> lsdb_inv x \<and> lsdb_content x = (lsdb_content (st, lsdb))((ty, i, adv) := None) \<and> fst x = lsa_drop p st"
proof -
  obtain l s where l: "st p = Some l" "ls_type (ldata l) = ty" "lsdb_prefix_set l = lsdb_prefix i adv"
    and s: "lsdb_slot lsdb ty = Some s" using lsa_keyD [OF key] by metis
  let ?lp = "lsdb_prefix i adv"
  let ?k = "pfx_bits ?lp" and ?m = "rt_entries (ldb s)"
  have si: "slot_inv st ty s" using lsdb_inv_slot [OF inv s] .
  then have ti: "rt_inv AF_UNSPEC (ldb s)" by (simp add: slot_inv_def)
  have k: "?m ?k = Some p" using ent s by (simp add: lsdb_content_def)
  obtain n where n: "route_node_lookup (ldb s) ?lp = (route_lock_node (ldb s) ?k, Some n)"
    and h: "rt_held AF_UNSPEC (route_lock_node (ldb s) ?k) ?k 2 (Some p) ?m"
    using rt_lookup_held [OF ti, of ?lp] k by auto
  let ?t = "route_lock_node (ldb s) ?k"
  have info: "node_info ?t ?k = Some p" using rt_held_info [OF h] by (simp add: node_info_entries)
  have "rt_held AF_UNSPEC (route_set_info ?t ?k None) ?k 2 None ?m" using h by (rule rt_held_set_info) simp
  then obtain t1 where t1: "route_unlock_node (route_set_info ?t ?k None) ?k = Some t1" "rt_held AF_UNSPEC t1 ?k 1 None ?m"
    using rt_held_unlock [of AF_UNSPEC "route_set_info ?t ?k None" ?k 2] by auto
  obtain t2 where t2: "route_unlock_node t1 ?k = Some t2" "rt_inv AF_UNSPEC t2" "rt_entries t2 = ?m(?k := None)"
    using rt_held_release [OF t1(2)] by auto
  define st1 where "st1 = lsa_drop p st"
  have st1: "ospf_lsa_unlock st (Some p) = Some st1" "\<And>r. r \<noteq> p \<Longrightarrow> st1 r = st r"
    using unlock_drop [OF rel] by (simp_all add: st1_def lsa_drop_def)
  let ?s = "\<lparr>lcount = lcount s - 1, lcount_self = (if lself l then lcount_self s - 1 else lcount_self s), ldb = t2\<rparr>"
  have s': "slot_inv st1 ty ?s" by (rule slot_inv_remove [OF si k]) (simp_all add: t2 st1(2))
  have "\<exists>l'. st1 q = Some l' \<and> ldata l' = ldata m" if "st q = Some m" "ls_type (ldata m) \<noteq> ty" for q m
    using that l st1(2) [of q] by (cases "q = p") auto
  then have "lsdb_inv (st1, (lsdb_set_slot lsdb ty ?s)\<lparr>ltotal := ltotal lsdb - 1\<rparr>)"
    by (rule lsdb_inv_update [OF inv s s']) simp_all
  moreover have "lsdb_content (st1, (lsdb_set_slot lsdb ty ?s)\<lparr>ltotal := ltotal lsdb - 1\<rparr>) = (lsdb_content (st, lsdb))((ty, i, adv) := None)"
    by (rule lsdb_content_set [OF s]) (simp add: t2)
  ultimately show ?thesis using l s n info t1(1) t2(1) st1(1) by (simp add: ospf_lsdb_delete_def st1_def)
qed

text \<open>A lookup returns the entry and leaves the database as it was.\<close>

lemma ospf_lsdb_lookup_same:
  assumes inv: "lsdb_inv (st, lsdb)" and s: "lsdb_slot lsdb ty = Some s"
  shows "ospf_lsdb_lookup_by_id lsdb ty i adv = Some (lsdb_content (st, lsdb) (ty, i, adv), lsdb)"
proof -
  let ?lp = "lsdb_prefix i adv"
  have ti: "rt_inv AF_UNSPEC (ldb s)" using lsdb_inv_slot [OF inv s] by (simp add: slot_inv_def)
  have c: "lsdb_content (st, lsdb) (ty, i, adv) = rt_entries (ldb s) (pfx_bits ?lp)" using s by (simp add: lsdb_content_def)
  show ?thesis
  proof (cases "rt_entries (ldb s) (pfx_bits ?lp)")
    case None
    then show ?thesis using rt_lookup_held [OF ti, of ?lp] s c by (simp add: ospf_lsdb_lookup_by_id_def)
  next
    case (Some v)
    let ?t = "route_lock_node (ldb s) (pfx_bits ?lp)"
    obtain n where n: "route_node_lookup (ldb s) ?lp = (?t, Some n)" and h: "rt_held AF_UNSPEC ?t (pfx_bits ?lp) 2 (Some v) (rt_entries (ldb s))"
      using rt_lookup_held [OF ti, of ?lp] Some by auto
    have "rt_map (ldb s) (pfx_bits ?lp) = Some (1, Some v)" using rt_inv_slot [OF ti, of "pfx_bits ?lp"] Some by simp
    then have "route_unlock_node ?t (pfx_bits ?lp) = Some (ldb s)" using ti route_lock_unlock [of AF_UNSPEC "ldb s" "pfx_bits ?lp" 1 "Some v"] by (simp add: rt_inv_def)
    moreover have "ltypes lsdb ! unat ty = Some s" using s by (simp add: lsdb_slot_def split: if_splits)
    then have "(ltypes lsdb)[unat ty := Some s] = ltypes lsdb" by (metis list_update_id)
    then have "lsdb_set_slot lsdb ty (s\<lparr>ldb := ldb s\<rparr>) = lsdb" by (simp add: lsdb_set_slot_def)
    ultimately show ?thesis using s n c Some rt_held_info [OF h] by (simp add: ospf_lsdb_lookup_by_id_def node_info_entries)
  qed
qed

section \<open>The contract of a database\<close>

text \<open>What flooding and the neighbor lists rely on: adding and deleting an element under its key.\<close>

locale keyed_database =
  fixes inv :: "'s \<Rightarrow> bool" and content :: "'s \<Rightarrow> 'k \<Rightarrow> 'v option" and key :: "'s \<Rightarrow> 'v \<Rightarrow> 'k option"
    and free :: "'s \<Rightarrow> 'v \<Rightarrow> bool" and add :: "'s \<Rightarrow> 'v \<Rightarrow> 's option" and del :: "'s \<Rightarrow> 'v \<Rightarrow> 's option"
  assumes add_put: "inv s \<Longrightarrow> key s v = Some k \<Longrightarrow> content s k \<noteq> Some v \<Longrightarrow>
      \<forall>w. content s k = Some w \<longrightarrow> free s w \<Longrightarrow>
      \<exists>s'. add s v = Some s' \<and> inv s' \<and> content s' = (content s)(k \<mapsto> v)"
    and del_take: "inv s \<Longrightarrow> key s v = Some k \<Longrightarrow> content s k = Some v \<Longrightarrow> free s v \<Longrightarrow>
      \<exists>s'. del s v = Some s' \<and> inv s' \<and> content s' = (content s)(k := None)"
    and add_keeps: "inv s \<Longrightarrow> key s v = Some k \<Longrightarrow> content s k = None \<Longrightarrow> add s v = Some s' \<Longrightarrow>
      key s' v = Some k \<and> free s' v"
begin

text \<open>Entering a new element and removing it again gives the old content.\<close>

lemma add_del_restores:
  assumes "inv s" "key s v = Some k" "content s k = None"
  shows "\<exists>s1 s2. add s v = Some s1 \<and> del s1 v = Some s2 \<and> inv s2 \<and> content s2 = content s"
proof -
  obtain s1 where s1: "add s v = Some s1" "inv s1" "content s1 = (content s)(k \<mapsto> v)"
    using add_put [OF assms(1,2)] assms(3) by auto
  obtain s2 where "del s1 v = Some s2" "inv s2" "content s2 = (content s1)(k := None)"
    using del_take [OF s1(2), of v k] add_keeps [OF assms s1(1)] s1(3) by auto
  then show ?thesis using s1 assms(3) by auto
qed

end

definition lsdb_add :: "lsa_store \<times> ospf_lsdb \<Rightarrow> nat \<Rightarrow> (lsa_store \<times> ospf_lsdb) option" where
  "lsdb_add x p = ospf_lsdb_add (fst x) (snd x) p"

definition lsdb_delete :: "lsa_store \<times> ospf_lsdb \<Rightarrow> nat \<Rightarrow> (lsa_store \<times> ospf_lsdb) option" where
  "lsdb_delete x p = ospf_lsdb_delete (fst x) (snd x) p"

definition lsdb_free :: "lsa_store \<times> ospf_lsdb \<Rightarrow> nat \<Rightarrow> bool" where
  "lsdb_free x p = lsa_releasable (fst x) p"

lemma lsdb_add_keeps:
  assumes "lsdb_inv (st, lsdb)" "lsa_key (st, lsdb) p = Some k" "lsdb_content (st, lsdb) k = None"
    and add: "ospf_lsdb_add st lsdb p = Some (st', lsdb')" and lock: "\<forall>l. st p = Some l \<longrightarrow> 1 \<le> llock l"
  shows "lsa_key (st', lsdb') p = Some k" "lsa_releasable st' p"
proof -
  obtain ty i adv where k: "k = (ty, i, adv)" by (cases k)
  obtain l s where l: "st p = Some l" "ls_type (ldata l) = ty" "lsdb_prefix_set l = lsdb_prefix i adv"
    "ls_id (ldata l) = i" "adv_router (ldata l) = adv"
    and s: "lsdb_slot lsdb ty = Some s" using lsa_keyD [OF assms(2) [unfolded k]] by metis
  have si: "slot_inv st ty s" using lsdb_inv_slot [OF assms(1) s] .
  then have ti: "rt_inv (family (lsdb_prefix i adv)) (ldb s)" by (simp add: slot_inv_def)
  have none: "rt_entries (ldb s) (pfx_bits (lsdb_prefix i adv)) = None" using assms(3) s k by (simp add: lsdb_content_def)
  obtain t where t: "route_node_get (ldb s) (lsdb_prefix i adv) = Some t" "node_info t (pfx_bits (lsdb_prefix i adv)) = None"
    using rt_get_held [OF ti] none rt_held_info by (metis lsdb_prefix_simps(2) node_info_entries)
  then have "st' = st(p \<mapsto> l\<lparr>llock := llock l + 1\<rparr>)" "lsdb_slot lsdb' ty \<noteq> None"
    using add l s by (auto simp: ospf_lsdb_add_def ospf_lsa_lock_def lsdb_slot_total lsdb_slot_set_same)
  then show "lsa_key (st', lsdb') p = Some k" "lsa_releasable st' p"
    using lock l k s by (auto simp: lsa_key_def lsa_releasable_def split: if_splits)
qed


text \<open>Every LSA in the store is referenced.\<close>

definition lsdb_good :: "lsa_store \<times> ospf_lsdb \<Rightarrow> bool" where
  "lsdb_good x \<longleftrightarrow> lsdb_inv x \<and> (\<forall>p l. fst x p = Some l \<longrightarrow> 1 \<le> llock l)"

lemma lsa_lock_locks: "ospf_lsa_lock st p = Some st' \<Longrightarrow> \<forall>p l. st p = Some l \<longrightarrow> 1 \<le> llock l \<Longrightarrow> st' q = Some l \<Longrightarrow> 1 \<le> llock l"
proof -
  assume h: "ospf_lsa_lock st p = Some st'" "\<forall>p l. st p = Some l \<longrightarrow> 1 \<le> llock l" "st' q = Some l"
  obtain a where a: "st p = Some a" using h(1) by (cases "st p") (auto simp: ospf_lsa_lock_def)
  then have "1 \<le> llock a" using h(2) by blast
  moreover have "q \<noteq> p \<Longrightarrow> st q = Some l" using h(1,3) a by (auto simp: ospf_lsa_lock_def)
  ultimately show "1 \<le> llock l" using h(1,3) a h(2) [rule_format, of q l] by (cases "q = p") (auto simp: ospf_lsa_lock_def)
qed

lemma lsa_unlock_locks: "ospf_lsa_unlock st p = Some st' \<Longrightarrow> \<forall>p l. st p = Some l \<longrightarrow> 1 \<le> llock l \<Longrightarrow> st' q = Some l \<Longrightarrow> 1 \<le> llock l"
  by (auto simp: ospf_lsa_unlock_def ospf_lsa_free_def Let_def split: option.splits if_splits bind_splits)

lemma lsdb_add_good: "lsdb_good x \<Longrightarrow> lsdb_add x p = Some x' \<Longrightarrow> lsdb_inv x' \<Longrightarrow> lsdb_good x'"
  unfolding lsdb_good_def lsdb_add_def ospf_lsdb_add_def
  by (auto simp: Let_def split: bind_splits option.splits if_splits intro: lsa_lock_locks lsa_unlock_locks)

lemma lsdb_delete_good: "lsdb_good x \<Longrightarrow> lsdb_delete x p = Some x' \<Longrightarrow> lsdb_inv x' \<Longrightarrow> lsdb_good x'"
  unfolding lsdb_good_def lsdb_delete_def ospf_lsdb_delete_def
  by (auto simp: Let_def split: bind_splits option.splits if_splits prod.splits intro: lsa_unlock_locks)

interpretation lsdb: keyed_database lsdb_good lsdb_content lsa_key lsdb_free lsdb_add lsdb_delete
proof
  fix x :: "lsa_store \<times> ospf_lsdb" and v :: nat and k :: lsa_key
  obtain st lsdb where x: "x = (st, lsdb)" by (cases x)
  obtain ty i adv where k: "k = (ty, i, adv)" by (cases k)
  assume good: "lsdb_good x" and key: "lsa_key x v = Some k"
  then have inv: "lsdb_inv (st, lsdb)" and key': "lsa_key (st, lsdb) v = Some (ty, i, adv)" by (simp_all add: x k lsdb_good_def)
  {
    assume c: "lsdb_content x k \<noteq> Some v" "\<forall>w. lsdb_content x k = Some w \<longrightarrow> lsdb_free x w"
    then obtain y where "ospf_lsdb_add st lsdb v = Some y" "lsdb_inv y" "lsdb_content y = (lsdb_content (st, lsdb))((ty, i, adv) \<mapsto> v)"
      using ospf_lsdb_add_put [OF inv key'] by (auto simp: x k lsdb_free_def)
    then show "\<exists>s'. lsdb_add x v = Some s' \<and> lsdb_good s' \<and> lsdb_content s' = (lsdb_content x)(k \<mapsto> v)"
      using lsdb_add_good [OF good, of v y] by (simp add: x k lsdb_add_def)
  next
    assume c: "lsdb_content x k = Some v" "lsdb_free x v"
    then obtain y where "ospf_lsdb_delete st lsdb v = Some y" "lsdb_inv y" "lsdb_content y = (lsdb_content (st, lsdb))((ty, i, adv) := None)"
      using ospf_lsdb_delete_take [OF inv key'] by (auto simp: x k lsdb_free_def)
    then show "\<exists>s'. lsdb_delete x v = Some s' \<and> lsdb_good s' \<and> lsdb_content s' = (lsdb_content x)(k := None)"
      using lsdb_delete_good [OF good, of v y] by (simp add: x k lsdb_delete_def)
  next
    fix x' assume c: "lsdb_content x k = None" "lsdb_add x v = Some x'"
    obtain st' lsdb' where x': "x' = (st', lsdb')" by (cases x')
    show "lsa_key x' v = Some k \<and> lsdb_free x' v"
      using lsdb_add_keeps [OF inv, of v k st' lsdb'] key c good
      by (simp add: x x' lsdb_add_def lsdb_free_def lsdb_good_def)
  }
qed


lemma lsdb_count_content:
  assumes "slot_inv st ty s" "lsdb_slot lsdb ty = Some s"
  shows "lcount s = of_nat (card (dom (\<lambda>(i, adv). lsdb_content (st, lsdb) (ty, i, adv))))"
proof -
  let ?c = "\<lambda>(i, adv). lsdb_content (st, lsdb) (ty, i, adv)" and ?f = "\<lambda>(i, adv). pfx_bits (lsdb_prefix i adv)"
  have c: "?c z = rt_entries (ldb s) (?f z)" for z using assms(2) by (cases z) (simp add: lsdb_content_def)
  have "dom (rt_entries (ldb s)) = ?f ` dom ?c"
  proof (intro set_eqI iffI)
    fix k assume "k \<in> dom (rt_entries (ldb s))"
    then obtain p where p: "rt_entries (ldb s) k = Some p" by blast
    then obtain l where "k = pfx_bits (lsdb_prefix_set l)" using assms(1) unfolding slot_inv_def by blast
    then have l: "k = ?f (ls_id (ldata l), adv_router (ldata l))" by (simp add: lsdb_prefix_set_def)
    then have "?c (ls_id (ldata l), adv_router (ldata l)) = Some p" unfolding c using p by simp
    then show "k \<in> ?f ` dom ?c" unfolding l by (intro imageI domI)
  next
    fix k assume "k \<in> ?f ` dom ?c"
    then obtain z where z: "z \<in> dom ?c" "k = ?f z" by (rule imageE) (rule that)
    have "rt_entries (ldb s) (?f z) \<noteq> None" using z(1) unfolding domIff c .
    then show "k \<in> dom (rt_entries (ldb s))" unfolding z(2) domIff .
  qed
  moreover have "inj ?f" by (rule injI) (auto simp: lsdb_key_inj)
  ultimately show ?thesis using assms(1) card_image [OF inj_on_subset [of ?f UNIV "dom ?c"]] by (simp add: slot_inv_def)
qed

section \<open>Properties\<close>

text \<open>C9: The link state database is a map.  On a good database an LSA of a known type that is not entered yet is
  entered under its type, link state id and advertising router, in the place of the instance that was there;
  it gets one reference, and the instance it replaces loses one and is freed when that was the last.  Deleting
  the entered instance removes it, and it loses the reference of the database.  No other LSA of the store
  changes.  A lookup returns the entered instance and changes nothing.  No assertion fails and no freed LSA is
  used, the table is left without stray locks and the database good, and the counter of a type is the number
  of its LSAs.  An instance that loses its last reference was discarded before and is in no refresh list,
  as the assertions of \<open>ospf_lsa_unlock\<close> and \<open>ospf_lsa_free\<close> demand of the caller.\<close>

theorem ospf_lsdb_refines_map:
  assumes "lsdb_good (st, lsdb)" "lsa_key (st, lsdb) p = Some (ty, i, adv)"
  shows "(lsdb_content (st, lsdb) (ty, i, adv) \<noteq> Some p \<and>
      (\<forall>q. lsdb_content (st, lsdb) (ty, i, adv) = Some q \<longrightarrow> lsa_releasable st q) \<longrightarrow>
        (\<exists>lsdb'. ospf_lsdb_add st lsdb p = Some (lsa_take p (case lsdb_content (st, lsdb) (ty, i, adv) of None \<Rightarrow> st | Some q \<Rightarrow> lsa_drop q st), lsdb')
           \<and> lsdb_good (lsa_take p (case lsdb_content (st, lsdb) (ty, i, adv) of None \<Rightarrow> st | Some q \<Rightarrow> lsa_drop q st), lsdb')
           \<and> (\<forall>st'. lsdb_content (st', lsdb') = (lsdb_content (st, lsdb))((ty, i, adv) \<mapsto> p))))
    \<and> (lsdb_content (st, lsdb) (ty, i, adv) = Some p \<and> lsa_releasable st p \<longrightarrow>
        (\<exists>lsdb'. ospf_lsdb_delete st lsdb p = Some (lsa_drop p st, lsdb') \<and> lsdb_good (lsa_drop p st, lsdb')
           \<and> (\<forall>st'. lsdb_content (st', lsdb') = (lsdb_content (st, lsdb))((ty, i, adv) := None))))
    \<and> ospf_lsdb_lookup st lsdb p = Some (lsdb_content (st, lsdb) (ty, i, adv), lsdb)
    \<and> ospf_lsdb_count lsdb ty = Some (of_nat (card (dom (\<lambda>(i, adv). lsdb_content (st, lsdb) (ty, i, adv)))))"
proof (intro conjI impI)
  have inv: "lsdb_inv (st, lsdb)" using assms(1) by (simp add: lsdb_good_def)
  have any_store: "lsdb_content (st', lsdb') = lsdb_content (st'', lsdb')" for st' st'' lsdb' by (simp add: lsdb_content_def)
  obtain l s where l: "st p = Some l" "ls_type (ldata l) = ty" "ls_id (ldata l) = i" "adv_router (ldata l) = adv"
    and s: "lsdb_slot lsdb ty = Some s" using lsa_keyD [OF assms(2)] by metis
  show "ospf_lsdb_lookup st lsdb p = Some (lsdb_content (st, lsdb) (ty, i, adv), lsdb)"
    using ospf_lsdb_lookup_same [OF inv s] l by (simp add: ospf_lsdb_lookup_def)
  show "ospf_lsdb_count lsdb ty = Some (of_nat (card (dom (\<lambda>(i, adv). lsdb_content (st, lsdb) (ty, i, adv)))))"
    using lsdb_count_content [OF lsdb_inv_slot [OF inv s] s] s by (auto simp: ospf_lsdb_count_def lsdb_slot_def count_of_def split: if_splits)
  let ?st = "lsa_take p (case lsdb_content (st, lsdb) (ty, i, adv) of None \<Rightarrow> st | Some q \<Rightarrow> lsa_drop q st)"
  show "\<exists>lsdb'. ospf_lsdb_add st lsdb p = Some (?st, lsdb') \<and> lsdb_good (?st, lsdb') \<and> (\<forall>st'. lsdb_content (st', lsdb') = (lsdb_content (st, lsdb))((ty, i, adv) \<mapsto> p))"
    if h: "lsdb_content (st, lsdb) (ty, i, adv) \<noteq> Some p \<and> (\<forall>q. lsdb_content (st, lsdb) (ty, i, adv) = Some q \<longrightarrow> lsa_releasable st q)"
  proof -
    obtain st' lsdb' where x: "lsdb_add (st, lsdb) p = Some (st', lsdb')" "lsdb_good (st', lsdb')" "lsdb_content (st', lsdb') = (lsdb_content (st, lsdb))((ty, i, adv) \<mapsto> p)"
      using lsdb.add_put [OF assms] h by (auto simp: lsdb_free_def)
    moreover have "st' = ?st" using ospf_lsdb_add_put [OF inv assms(2)] h x(1) by (auto simp: lsdb_add_def)
    ultimately show ?thesis using any_store [of _ lsdb' st'] by (auto simp: lsdb_add_def)
  qed
  show "\<exists>lsdb'. ospf_lsdb_delete st lsdb p = Some (lsa_drop p st, lsdb') \<and> lsdb_good (lsa_drop p st, lsdb') \<and> (\<forall>st'. lsdb_content (st', lsdb') = (lsdb_content (st, lsdb))((ty, i, adv) := None))"
    if h: "lsdb_content (st, lsdb) (ty, i, adv) = Some p \<and> lsa_releasable st p"
  proof -
    obtain st' lsdb' where x: "lsdb_delete (st, lsdb) p = Some (st', lsdb')" "lsdb_good (st', lsdb')" "lsdb_content (st', lsdb') = (lsdb_content (st, lsdb))((ty, i, adv) := None)"
      using lsdb.del_take [OF assms] h by (auto simp: lsdb_free_def)
    moreover have "st' = lsa_drop p st" using ospf_lsdb_delete_take [OF inv assms(2)] h x(1) by (auto simp: lsdb_delete_def)
    ultimately show ?thesis using any_store [of _ lsdb' st'] by (auto simp: lsdb_delete_def)
  qed
qed

definition lsdb_demo :: "lsa_store \<times> ospf_lsdb" where
  "lsdb_demo = ([1 \<mapsto> ospf_lsa_demo 1 24 [0, 0, 0, 1], 2 \<mapsto> ospf_lsa_demo 2 24 [0, 0, 0, 2]], ospf_lsdb_init 6)"

lemma lsdb_init_empty: "lsdb_slot (ospf_lsdb_init n) ty = Some s \<Longrightarrow> s = \<lparr>lcount = 0, lcount_self = 0, ldb = route_table_init\<rparr>"
  by (simp add: lsdb_slot_def ospf_lsdb_init_def split: if_splits)

lemma lsdb_init_content: "lsdb_content (st, ospf_lsdb_init n) = Map.empty"
proof (rule ext, clarify)
  fix a b c
  show "lsdb_content (st, ospf_lsdb_init n) (a, b, c) = None"
    by (auto simp: lsdb_content_def rt_inv_init(2) dest!: lsdb_init_empty split: option.splits)
qed

lemma lsdb_init_inv: "lsdb_inv (st, ospf_lsdb_init n)"
proof -
  have "slot_inv st ty s" if "lsdb_slot (ospf_lsdb_init n) ty = Some s" for ty s
    using lsdb_init_empty [OF that] by (simp add: slot_inv_def rt_inv_init)
  moreover have "ltotal (ospf_lsdb_init n) = sum_list (map (count_of lcount) (ltypes (ospf_lsdb_init n)))"
  proof -
    have z: "map (count_of lcount) (ltypes (ospf_lsdb_init n)) = map (\<lambda>_. 0) [0..<n]" by (simp add: ospf_lsdb_init_def count_of_def)
    show ?thesis unfolding z by (simp add: ospf_lsdb_init_def)
  qed
  ultimately show ?thesis by (simp add: lsdb_inv_def)
qed

lemma lsdb_demo_good: "lsdb_good lsdb_demo" "lsa_key lsdb_demo 1 = Some (1, 0x0A000001, 0x0A000001)"
  using lsdb_init_inv by (auto simp: lsdb_demo_def lsdb_good_def lsa_key_def ospf_lsa_demo_def lsa_demo_def ospf_lsdb_init_def lsdb_slot_def split: if_splits)

text \<open>An instance is entered and a second one takes its place: the first loses its reference, the second has one more.\<close>

theorem ospf_lsdb_refines_map_witness:
  "\<exists>st1 lsdb1 st2 lsdb2. ospf_lsdb_add (fst lsdb_demo) (snd lsdb_demo) 1 = Some (st1, lsdb1) \<and> map_option llock (st1 1) = Some 2
     \<and> ospf_lsdb_add st1 lsdb1 2 = Some (st2, lsdb2) \<and> map_option llock (st2 1) = Some 1 \<and> map_option llock (st2 2) = Some 2
     \<and> lsdb_content (st2, lsdb2) (1, 0x0A000001, 0x0A000001) = Some 2 \<and> ospf_lsdb_count lsdb2 1 = Some 1"
proof -
  let ?k = "(1, 0x0A000001, 0x0A000001) :: lsa_key"
  let ?st1 = "lsa_take 1 (fst lsdb_demo)" and ?st2 = "lsa_take 2 (lsa_drop 1 (lsa_take 1 (fst lsdb_demo)))"
  have s: "map_option llock (?st1 1) = Some 2" "map_option llock (?st2 1) = Some 1" "map_option llock (?st2 2) = Some 2"
    by (simp_all add: lsa_take_def lsa_drop_def lsdb_demo_def ospf_lsa_demo_def)
  have empty: "lsdb_content (fst lsdb_demo, snd lsdb_demo) ?k = None" by (simp add: lsdb_demo_def lsdb_init_content)
  have g0: "lsdb_good (fst lsdb_demo, snd lsdb_demo)" "lsa_key (fst lsdb_demo, snd lsdb_demo) 1 = Some ?k" using lsdb_demo_good by simp_all
  obtain lsdb1 where x1: "ospf_lsdb_add (fst lsdb_demo) (snd lsdb_demo) 1 = Some (?st1, lsdb1)" "lsdb_good (?st1, lsdb1)"
    "\<And>st. lsdb_content (st, lsdb1) = (lsdb_content (fst lsdb_demo, snd lsdb_demo))(?k \<mapsto> 1)"
    using ospf_lsdb_refines_map [OF g0] empty by auto
  have c1: "lsdb_content (?st1, lsdb1) ?k = Some 1" using x1(3) by simp
  then obtain s1 where "lsdb_slot lsdb1 1 = Some s1" by (auto simp: lsdb_content_def split: option.splits)
  then have k1: "lsa_key (?st1, lsdb1) 2 = Some ?k" by (simp add: lsa_key_def lsa_take_def lsdb_demo_def ospf_lsa_demo_def lsa_demo_def)
  have r: "lsa_releasable ?st1 1" by (simp add: lsa_releasable_def lsa_take_def lsdb_demo_def ospf_lsa_demo_def)
  obtain lsdb2 where x2: "ospf_lsdb_add ?st1 lsdb1 2 = Some (?st2, lsdb2)" "lsdb_good (?st2, lsdb2)"
    "\<And>st. lsdb_content (st, lsdb2) = (lsdb_content (?st1, lsdb1))(?k \<mapsto> 2)"
    using ospf_lsdb_refines_map [OF x1(2) k1] c1 r by auto
  have c2: "lsdb_content (?st2, lsdb2) ?k = Some 2" using x2(3) by simp
  then obtain s2 where "lsdb_slot lsdb2 1 = Some s2" by (auto simp: lsdb_content_def split: option.splits)
  then have k2: "lsa_key (?st2, lsdb2) 2 = Some ?k" by (simp add: lsa_key_def lsa_take_def lsa_drop_def lsdb_demo_def ospf_lsa_demo_def lsa_demo_def)
  have e: "lsdb_content (fst lsdb_demo, snd lsdb_demo) z = None" for z by (simp add: lsdb_demo_def lsdb_init_content)
  note e = e [unfolded prod.collapse]
  have "dom (\<lambda>(i, adv). lsdb_content (?st2, lsdb2) (1, i, adv)) = {(0x0A000001, 0x0A000001)}"
    unfolding x2(3) x1(3) by (auto simp: e split: if_splits)
  then have "ospf_lsdb_count lsdb2 1 = Some 1" using ospf_lsdb_refines_map [OF x2(2) k2] by simp
  then show ?thesis using x1(1) x2(1) c2 s by blast
qed

text \<open>Stray locks.  Adding the LSA that is already entered returns early without the unlock that pairs with
  \<open>route_node_get\<close>: the content stays the same, but the node keeps one lock too many.  When the LSA
  is deleted afterwards, the database is empty at that key again, yet the node is never freed:
  it stays in the table with one lock and no LSA.\<close>

theorem ospf_lsdb_add_again_leaks:
  assumes "lsdb_good (st, lsdb)" "lsa_key (st, lsdb) p = Some (ty, i, adv)" "lsdb_content (st, lsdb) (ty, i, adv) = Some p"
    and "lsa_releasable st p"
  shows "\<exists>lsdb1 s1 st2 lsdb2 s2. ospf_lsdb_add st lsdb p = Some (st, lsdb1) \<and> lsdb_content (st, lsdb1) = lsdb_content (st, lsdb)
    \<and> lsdb_slot lsdb1 ty = Some s1 \<and> rt_map (ldb s1) (pfx_bits (lsdb_prefix i adv)) = Some (2, Some p)
    \<and> ospf_lsdb_delete st lsdb1 p = Some (st2, lsdb2) \<and> lsdb_content (st2, lsdb2) (ty, i, adv) = None
    \<and> lsdb_slot lsdb2 ty = Some s2 \<and> rt_map (ldb s2) (pfx_bits (lsdb_prefix i adv)) = Some (1, None)"
proof -
  let ?lp = "lsdb_prefix i adv"
  let ?k = "pfx_bits ?lp"
  have inv: "lsdb_inv (st, lsdb)" using assms(1) by (simp add: lsdb_good_def)
  obtain l s where l: "st p = Some l" "ls_type (ldata l) = ty" "lsdb_prefix_set l = ?lp"
    and s: "lsdb_slot lsdb ty = Some s" using lsa_keyD [OF assms(2)] by metis
  let ?m = "rt_entries (ldb s)"
  have ti: "rt_inv (family ?lp) (ldb s)" using lsdb_inv_slot [OF inv s] by (simp add: slot_inv_def)
  have k: "?m ?k = Some p" using assms(3) s by (simp add: lsdb_content_def)
  obtain t where t: "route_node_get (ldb s) ?lp = Some t" and h: "rt_held AF_UNSPEC t ?k 2 (Some p) ?m"
    using rt_get_held [OF ti] k by auto
  have e: "rt_entries t = ?m"
  proof
    show "rt_entries t x = ?m x" for x
    proof (cases "x = ?k")
      case True
      then show ?thesis using rt_held_info [OF h] k by simp
    next
      case False
      then have "rt_slot (?m x) (rt_map t x)" using h by (simp add: rt_held_def)
      then show ?thesis by (rule rt_slot_eq)
    qed
  qed
  let ?lsdb1 = "lsdb_set_slot lsdb ty (s\<lparr>ldb := t\<rparr>)"
  have s1: "lsdb_slot ?lsdb1 ty = Some (s\<lparr>ldb := t\<rparr>)" using lsdb_slot_set [OF s] by simp
  have add: "ospf_lsdb_add st lsdb p = Some (st, ?lsdb1)"
    using l s t rt_held_info [OF h] by (simp add: ospf_lsdb_add_def node_info_entries)
  have con: "lsdb_content (st, ?lsdb1) = lsdb_content (st, lsdb)"
    using e s by (auto simp: lsdb_content_def lsdb_slot_set [OF s] fun_eq_iff split: option.splits)
  let ?t = "route_lock_node t ?k"
  have w: "rt_wf AF_UNSPEC t" "rt_ok t" "rt_map t ?k = Some (2, Some p)" using h by (simp_all add: rt_held_def)
  obtain n where n: "route_node_lookup t ?lp = (?t, Some n)"
    using lookup_walk_find [OF w(1), of ?lp] w(3) rn_find_key [of ?k t] by (auto simp: route_node_lookup_def rt_map_def)
  have "rt_held AF_UNSPEC ?t ?k 3 (Some p) ?m"
    using h w rt_ok_lock [OF w(1,2), of ?k] by (simp add: rt_held_def rt_map_lock)
  then have "rt_held AF_UNSPEC (route_set_info ?t ?k None) ?k 3 None ?m" by (rule rt_held_set_info) simp
  then obtain t1 where t1: "route_unlock_node (route_set_info ?t ?k None) ?k = Some t1" "rt_held AF_UNSPEC t1 ?k 2 None ?m"
    using rt_held_unlock [of AF_UNSPEC "route_set_info ?t ?k None" ?k 3] by auto
  then obtain t2 where t2: "route_unlock_node t1 ?k = Some t2" "rt_held AF_UNSPEC t2 ?k 1 None ?m"
    using rt_held_unlock [of AF_UNSPEC t1 ?k 2] by auto
  obtain st2 where st2: "ospf_lsa_unlock st (Some p) = Some st2" using unlock_drop [OF assms(4)] by blast
  let ?s2 = "\<lparr>lcount = lcount s - 1, lcount_self = (if lself l then lcount_self s - 1 else lcount_self s), ldb = t2\<rparr>"
  let ?lsdb2 = "(lsdb_set_slot ?lsdb1 ty ?s2)\<lparr>ltotal := ltotal lsdb - 1\<rparr>"
  have info: "node_info ?t ?k = Some p" using w(3) by (simp add: node_info_entries rt_entries_def rt_map_lock)
  have del: "ospf_lsdb_delete st ?lsdb1 p = Some (st2, ?lsdb2)"
    using l s1 n info t1(1) t2(1) st2 by (simp add: ospf_lsdb_delete_def)
  have s2: "lsdb_slot ?lsdb2 ty = Some ?s2" using lsdb_slot_set [OF s1] by (simp add: lsdb_slot_total)
  have "lsdb_content (st2, ?lsdb2) (ty, i, adv) = None" using s2 rt_held_info [OF t2(2)] by (simp add: lsdb_content_def)
  then show ?thesis using add con s1 w(3) del s2 t2(2) by (fastforce simp: rt_held_def)
qed


theorem ospf_lsdb_add_again_leaks_witness:
  "\<exists>st lsdb lsdb1 s1. ospf_lsdb_add (fst lsdb_demo) (snd lsdb_demo) 1 = Some (st, lsdb)
     \<and> ospf_lsdb_add st lsdb 1 = Some (st, lsdb1) \<and> lsdb_slot lsdb1 1 = Some s1
     \<and> rt_map (ldb s1) (pfx_bits (lsdb_prefix 0x0A000001 0x0A000001)) = Some (2, Some 1)"
proof -
  let ?k = "(1, 0x0A000001, 0x0A000001) :: lsa_key"
  have none: "lsdb_content lsdb_demo ?k = None" by (simp add: lsdb_demo_def lsdb_init_content)
  obtain st lsdb where x: "lsdb_add lsdb_demo 1 = Some (st, lsdb)" "lsdb_good (st, lsdb)" "lsdb_content (st, lsdb) ?k = Some 1"
    using lsdb.add_put [OF lsdb_demo_good] none by auto
  have "lsa_key (st, lsdb) 1 = Some ?k" "lsa_releasable st 1"
    using lsdb.add_keeps [OF lsdb_demo_good none x(1)] by (simp_all add: lsdb_free_def)
  from ospf_lsdb_add_again_leaks [OF x(2) this(1) x(3) this(2)] show ?thesis
    using x(1) unfolding lsdb_add_def by blast
qed

end
