(* ===== verification/Lib_Linklist.thy ===== *)
theory Lib_Linklist
  imports Zebra_Prelude
begin

text \<open>
  The doubly linked lists of \<open>lib/linklist.c\<close>.  Nodes live in a store from addresses to nodes;
  a null pointer is \<^term>\<open>None\<close> and following a pointer to no node is the result \<^term>\<open>None\<close>.
  The address a call of \<open>listnode_new\<close> returns is an argument; that it is not in use is a hypothesis
  of the lemmas.  Loops that follow \<open>next\<close> take one unit of fuel per node.
\<close>

section \<open>Definitions\<close>

record 'd listnode =
  ln_next :: "nat option"
  ln_prev :: "nat option"
  ln_data :: 'd

record 'd list_t =
  lhead :: "nat option"
  ltail :: "nat option"
  lcount :: u32
  lcmp :: "('d \<Rightarrow> 'd \<Rightarrow> int) option"
  ldel :: bool

type_synonym 'd lheap = "nat \<Rightarrow> 'd listnode option"
type_synonym 'd lstate = "'d lheap \<times> 'd list_t"

definition list_new :: "'d list_t" where
  "list_new = \<lparr>lhead = None, ltail = None, lcount = 0, lcmp = None, ldel = False\<rparr>"

text \<open>Assignments \<open>p->next = v\<close> and \<open>p->prev = v\<close>.\<close>

definition set_next :: "'d lheap \<Rightarrow> nat option \<Rightarrow> nat option \<Rightarrow> 'd lheap option" where
  "set_next h p v = do { a \<leftarrow> p; n \<leftarrow> h a; Some (h(a \<mapsto> n\<lparr>ln_next := v\<rparr>)) }"

definition set_prev :: "'d lheap \<Rightarrow> nat option \<Rightarrow> nat option \<Rightarrow> 'd lheap option" where
  "set_prev h p v = do { a \<leftarrow> p; n \<leftarrow> h a; Some (h(a \<mapsto> n\<lparr>ln_prev := v\<rparr>)) }"

definition listnode_new :: "'d lheap \<Rightarrow> nat \<Rightarrow> 'd \<Rightarrow> 'd lheap" where
  "listnode_new h new val = h(new \<mapsto> \<lparr>ln_next = None, ln_prev = None, ln_data = val\<rparr>)"

definition listnode_free :: "'d lheap \<Rightarrow> nat \<Rightarrow> 'd lheap" where
  "listnode_free h p = h(p := None)"

definition listnode_add :: "'d lstate \<Rightarrow> nat \<Rightarrow> 'd \<Rightarrow> 'd lstate option" where
  "listnode_add st new val = (case st of (h, l) \<Rightarrow> do {
     h \<leftarrow> set_prev (listnode_new h new val) (Some new) (ltail l);
     (h, l) \<leftarrow> (if lhead l = None then Some (h, l\<lparr>lhead := Some new\<rparr>)
               else do { h \<leftarrow> set_next h (ltail l) (Some new); Some (h, l) });
     Some (h, l\<lparr>ltail := Some new, lcount := lcount l + 1\<rparr>)
   })"

text \<open>The loop of \<open>listnode_add_sort\<close>: the first node that \<open>val\<close> is less than.\<close>

fun sort_scan :: "nat \<Rightarrow> ('d \<Rightarrow> 'd \<Rightarrow> int) \<Rightarrow> 'd lheap \<Rightarrow> 'd \<Rightarrow> nat option \<Rightarrow> nat option option" where
  "sort_scan fuel cmp h val None = Some None"
| "sort_scan 0 cmp h val (Some p) = None"
| "sort_scan (Suc fuel) cmp h val (Some p) = do {
     n \<leftarrow> h p;
     if cmp val (ln_data n) < 0 then Some (Some p) else sort_scan fuel cmp h val (ln_next n)
   }"

definition listnode_add_sort :: "nat \<Rightarrow> 'd lstate \<Rightarrow> nat \<Rightarrow> 'd \<Rightarrow> 'd lstate option" where
  "listnode_add_sort fuel st new val = (case st of (h, l) \<Rightarrow> do {
     found \<leftarrow> (case lcmp l of None \<Rightarrow> Some None | Some cmp \<Rightarrow> sort_scan fuel cmp h val (lhead l));
     let h = listnode_new h new val;
     case found of
       Some p \<Rightarrow> do {
         n \<leftarrow> h p;
         h \<leftarrow> set_next h (Some new) (Some p);
         h \<leftarrow> set_prev h (Some new) (ln_prev n);
         (h, l) \<leftarrow> (if ln_prev n \<noteq> None
                   then do { h \<leftarrow> set_next h (ln_prev n) (Some new); Some (h, l) }
                   else Some (h, l\<lparr>lhead := Some new\<rparr>));
         h \<leftarrow> set_prev h (Some p) (Some new);
         Some (h, l\<lparr>lcount := lcount l + 1\<rparr>)
       }
     | None \<Rightarrow> do {
         h \<leftarrow> set_prev h (Some new) (ltail l);
         (h, l) \<leftarrow> (if ltail l \<noteq> None
                   then do { h \<leftarrow> set_next h (ltail l) (Some new); Some (h, l) }
                   else Some (h, l\<lparr>lhead := Some new\<rparr>));
         Some (h, l\<lparr>ltail := Some new, lcount := lcount l + 1\<rparr>)
       }
   })"

definition listnode_add_after :: "'d lstate \<Rightarrow> nat option \<Rightarrow> nat \<Rightarrow> 'd \<Rightarrow> 'd lstate option" where
  "listnode_add_after st pp new val = (case st of (h, l) \<Rightarrow>
     let h = listnode_new h new val in
     (case pp of
        None \<Rightarrow> do {
          (h, l) \<leftarrow> (if lhead l \<noteq> None
                    then do { h \<leftarrow> set_prev h (lhead l) (Some new); Some (h, l) }
                    else Some (h, l\<lparr>ltail := Some new\<rparr>));
          h \<leftarrow> set_next h (Some new) (lhead l);
          h \<leftarrow> set_prev h (Some new) None;
          Some (h, l\<lparr>lhead := Some new\<rparr>)
        }
      | Some p \<Rightarrow> do {
          n \<leftarrow> h p;
          (h, l) \<leftarrow> (if ln_next n \<noteq> None
                    then do { h \<leftarrow> set_prev h (ln_next n) (Some new); Some (h, l) }
                    else Some (h, l\<lparr>ltail := Some new\<rparr>));
          h \<leftarrow> set_next h (Some new) (ln_next n);
          h \<leftarrow> set_prev h (Some new) (Some p);
          h \<leftarrow> set_next h (Some p) (Some new);
          Some (h, l)
        }))"

text \<open>\<open>list_delete_node\<close>, whose body \<open>listnode_delete\<close> repeats.\<close>

definition list_delete_node :: "'d lstate \<Rightarrow> nat \<Rightarrow> 'd lstate option" where
  "list_delete_node st p = (case st of (h, l) \<Rightarrow> do {
     n \<leftarrow> h p;
     (h, l) \<leftarrow> (if ln_prev n \<noteq> None
               then do { h \<leftarrow> set_next h (ln_prev n) (ln_next n); Some (h, l) }
               else Some (h, l\<lparr>lhead := ln_next n\<rparr>));
     (h, l) \<leftarrow> (if ln_next n \<noteq> None
               then do { h \<leftarrow> set_prev h (ln_next n) (ln_prev n); Some (h, l) }
               else Some (h, l\<lparr>ltail := ln_prev n\<rparr>));
     Some (listnode_free h p, l\<lparr>lcount := lcount l - 1\<rparr>)
   })"

fun lookup_scan :: "nat \<Rightarrow> 'd lheap \<Rightarrow> 'd \<Rightarrow> nat option \<Rightarrow> nat option option" where
  "lookup_scan fuel h d None = Some None"
| "lookup_scan 0 h d (Some p) = None"
| "lookup_scan (Suc fuel) h d (Some p) = do {
     n \<leftarrow> h p;
     if ln_data n = d then Some (Some p) else lookup_scan fuel h d (ln_next n)
   }"

definition listnode_delete :: "nat \<Rightarrow> 'd lstate \<Rightarrow> 'd \<Rightarrow> 'd lstate option" where
  "listnode_delete fuel st val = do {
     r \<leftarrow> lookup_scan fuel (fst st) val (lhead (snd st));
     case r of Some p \<Rightarrow> list_delete_node st p | None \<Rightarrow> Some st
   }"

definition listnode_lookup :: "nat \<Rightarrow> 'd lstate \<Rightarrow> 'd \<Rightarrow> nat option option" where
  "listnode_lookup fuel st d = lookup_scan fuel (fst st) d (lhead (snd st))"

text \<open>The inner option is \<open>NULL\<close>.\<close>

definition listnode_head :: "'d lstate \<Rightarrow> 'd option option" where
  "listnode_head st = (case lhead (snd st) of
     None \<Rightarrow> Some None | Some p \<Rightarrow> do { n \<leftarrow> fst st p; Some (Some (ln_data n)) })"

text \<open>The loop of \<open>list_delete_all_node\<close> and \<open>list_delete\<close>: the heap without the nodes and the data in
  the order in which \<open>del\<close> receives it.\<close>

fun delete_loop :: "nat \<Rightarrow> 'd lheap \<Rightarrow> nat option \<Rightarrow> ('d lheap \<times> 'd list) option" where
  "delete_loop fuel h None = Some (h, [])"
| "delete_loop 0 h (Some p) = None"
| "delete_loop (Suc fuel) h (Some p) = do {
     n \<leftarrow> h p;
     (h, ds) \<leftarrow> delete_loop fuel (listnode_free h p) (ln_next n);
     Some (h, ln_data n # ds)
   }"

definition list_delete_all_node :: "nat \<Rightarrow> 'd lstate \<Rightarrow> ('d lstate \<times> 'd list) option" where
  "list_delete_all_node fuel st = (case st of (h, l) \<Rightarrow> do {
     (h, ds) \<leftarrow> delete_loop fuel h (lhead l);
     Some ((h, l\<lparr>lhead := None, ltail := None, lcount := 0\<rparr>), if ldel l then ds else [])
   })"

definition list_delete :: "nat \<Rightarrow> 'd lstate \<Rightarrow> ('d lheap \<times> 'd list) option" where
  "list_delete fuel st = (case st of (h, l) \<Rightarrow> do {
     (h, ds) \<leftarrow> delete_loop fuel h (lhead l);
     Some (h, if ldel l then ds else [])
   })"

definition list_add_node_prev :: "'d lstate \<Rightarrow> nat \<Rightarrow> nat \<Rightarrow> 'd \<Rightarrow> 'd lstate option" where
  "list_add_node_prev st current new val = (case st of (h, l) \<Rightarrow> do {
     h \<leftarrow> set_next (listnode_new h new val) (Some new) (Some current);
     c \<leftarrow> h current;
     (h, l) \<leftarrow> (if ln_prev c = None then Some (h, l\<lparr>lhead := Some new\<rparr>)
               else do { h \<leftarrow> set_next h (ln_prev c) (Some new); Some (h, l) });
     h \<leftarrow> set_prev h (Some new) (ln_prev c);
     h \<leftarrow> set_prev h (Some current) (Some new);
     Some (h, l\<lparr>lcount := lcount l + 1\<rparr>)
   })"

definition list_add_node_next :: "'d lstate \<Rightarrow> nat \<Rightarrow> nat \<Rightarrow> 'd \<Rightarrow> 'd lstate option" where
  "list_add_node_next st current new val = (case st of (h, l) \<Rightarrow> do {
     h \<leftarrow> set_prev (listnode_new h new val) (Some new) (Some current);
     c \<leftarrow> h current;
     (h, l) \<leftarrow> (if ln_next c = None then Some (h, l\<lparr>ltail := Some new\<rparr>)
               else do { h \<leftarrow> set_prev h (ln_next c) (Some new); Some (h, l) });
     h \<leftarrow> set_next h (Some new) (ln_next c);
     h \<leftarrow> set_next h (Some current) (Some new);
     Some (h, l\<lparr>lcount := lcount l + 1\<rparr>)
   })"

text \<open>\<open>list_add_list\<close> appends the data of the list that starts at \<open>p\<close>; \<open>news\<close> are the addresses
  the allocations return.\<close>

fun list_add_list :: "'d lstate \<Rightarrow> nat option \<Rightarrow> nat list \<Rightarrow> 'd lstate option" where
  "list_add_list st None news = Some st"
| "list_add_list st (Some p) [] = None"
| "list_add_list st (Some p) (new # news) = do {
     n \<leftarrow> fst st p;
     st \<leftarrow> listnode_add st new (ln_data n);
     n' \<leftarrow> fst st p;
     list_add_list st (ln_next n') news
   }"

section \<open>Lists in the store\<close>

definition first_of :: "nat list \<Rightarrow> nat option \<Rightarrow> nat option" where
  "first_of xs nx = (if xs = [] then nx else Some (hd xs))"

definition last_of :: "nat option \<Rightarrow> nat list \<Rightarrow> nat option" where
  "last_of pr xs = (if xs = [] then pr else Some (last xs))"

text \<open>The nodes \<open>xs\<close> are linked in both directions, between \<open>pr\<close> and \<open>nx\<close>.\<close>

fun dseg :: "'d lheap \<Rightarrow> nat option \<Rightarrow> nat list \<Rightarrow> nat option \<Rightarrow> bool" where
  "dseg h pr [] nx = True"
| "dseg h pr (x # xs) nx =
     (case h x of None \<Rightarrow> False
      | Some n \<Rightarrow> ln_prev n = pr \<and> ln_next n = first_of xs nx \<and> dseg h (Some x) xs nx)"

definition data_of :: "'d lheap \<Rightarrow> nat list \<Rightarrow> 'd list" where
  "data_of h ps = map (\<lambda>p. ln_data (the (h p))) ps"

text \<open>The list header and store hold the nodes \<open>ps\<close> with data \<open>ds\<close>; \<open>list_rep\<close> also has the right
  count.\<close>

definition list_shape :: "'d lstate \<Rightarrow> nat list \<Rightarrow> 'd list \<Rightarrow> bool" where
  "list_shape st ps ds \<longleftrightarrow> distinct ps \<and> dseg (fst st) None ps None \<and> lhead (snd st) = first_of ps None
     \<and> ltail (snd st) = last_of None ps \<and> data_of (fst st) ps = ds"

definition list_rep :: "'d lstate \<Rightarrow> nat list \<Rightarrow> 'd list \<Rightarrow> bool" where
  "list_rep st ps ds \<longleftrightarrow> list_shape st ps ds \<and> lcount (snd st) = of_nat (length ps)"

lemma first_of_simps [simp]: "first_of [] nx = nx" "first_of (x # xs) nx = Some x"
  "first_of (xs @ ys) nx = first_of xs (first_of ys nx)"
  by (simp_all add: first_of_def)

lemma last_of_simps [simp]: "last_of pr [] = pr" "last_of pr (x # xs) = last_of (Some x) xs"
  "last_of pr (xs @ ys) = last_of (last_of pr xs) ys"
  by (simp_all add: last_of_def)

lemma data_of_simps [simp]: "data_of h [] = []"
  "data_of h (x # xs) = ln_data (the (h x)) # data_of h xs" "data_of h (xs @ ys) = data_of h xs @ data_of h ys"
  by (simp_all add: data_of_def)

lemma dseg_append:
  "dseg h pr (xs @ ys) nx \<longleftrightarrow> dseg h pr xs (first_of ys nx) \<and> dseg h (last_of pr xs) ys nx"
  by (induction xs arbitrary: pr) (auto split: option.splits)

lemma dseg_frame: "(\<And>x. x \<in> set xs \<Longrightarrow> h' x = h x) \<Longrightarrow> dseg h' pr xs nx = dseg h pr xs nx"
  by (induction xs arbitrary: pr) (auto split: option.splits)

lemma dseg_dom: "dseg h pr xs nx \<Longrightarrow> x \<in> set xs \<Longrightarrow> h x \<noteq> None"
  by (induction xs arbitrary: pr) (auto split: option.splits)

text \<open>The store after the last node of \<open>xs\<close> got \<open>nx\<close> as its next and the first node of \<open>ys\<close> got \<open>pr\<close>
  as its previous node.\<close>

definition relink :: "'d lheap \<Rightarrow> nat list \<Rightarrow> nat list \<Rightarrow> nat option \<Rightarrow> nat option \<Rightarrow> 'd lheap" where
  "relink h xs ys nx pr = (\<lambda>a.
     if last_of None xs = Some a then map_option (ln_next_update (\<lambda>_. nx)) (h a)
     else if first_of ys None = Some a then map_option (ln_prev_update (\<lambda>_. pr)) (h a)
     else h a)"

lemma relink_data: "data_of (relink h xs ys nx pr) zs = data_of h zs" if "set zs \<subseteq> dom h"
  using that by (auto simp: data_of_def relink_def)

lemma relink_left:
  "dseg h p xs q \<Longrightarrow> distinct xs \<Longrightarrow> set xs \<inter> set ys = {} \<Longrightarrow> dseg (relink h xs ys nx pr) p xs nx"
proof (induction xs rule: rev_induct)
  case (snoc x xs)
  have "dseg (relink h (xs @ [x]) ys nx pr) p xs (Some x) = dseg h p xs (Some x)"
    using snoc.prems by (intro dseg_frame) (auto simp: relink_def first_of_def last_of_def)
  moreover have "last_of (Some x) [] = Some x" by simp
  ultimately show ?case using snoc.prems
    by (auto simp: dseg_append relink_def split: option.splits)
qed simp

lemma relink_right:
  "dseg h q ys n \<Longrightarrow> distinct ys \<Longrightarrow> set xs \<inter> set ys = {} \<Longrightarrow> dseg (relink h xs ys nx pr) pr ys n"
proof (cases ys)
  case (Cons y zs)
  assume a: "dseg h q ys n" "distinct ys" "set xs \<inter> set ys = {}"
  have x: "last_of None xs \<noteq> Some a" if "a \<in> set ys" for a
    using a(3) that last_in_set [of xs] unfolding last_of_def by (metis disjoint_iff option.distinct(1) option.inject)
  have "dseg (relink h xs ys nx pr) (Some y) zs n = dseg h (Some y) zs n"
    using a Cons x by (intro dseg_frame) (auto simp: relink_def)
  moreover have "relink h xs ys nx pr y = map_option (ln_prev_update (\<lambda>_. pr)) (h y)"
    using Cons x [of y] by (simp add: relink_def)
  ultimately show ?thesis using a Cons by (auto split: option.splits)
qed simp

section \<open>Linking a node in and taking one out\<close>

definition linked :: "'d lheap \<Rightarrow> nat list \<Rightarrow> nat \<Rightarrow> 'd \<Rightarrow> nat list \<Rightarrow> 'd lheap" where
  "linked h xs new val ys = (relink h xs ys (Some new) (Some new))
     (new \<mapsto> \<lparr>ln_next = first_of ys None, ln_prev = last_of None xs, ln_data = val\<rparr>)"

definition unlinked :: "'d lheap \<Rightarrow> nat list \<Rightarrow> nat \<Rightarrow> nat list \<Rightarrow> 'd lheap" where
  "unlinked h xs p ys = (relink h xs ys (first_of ys None) (last_of None xs))(p := None)"

lemma linked_shape:
  assumes "list_shape (h, l) (xs @ ys) (as @ bs)" "length as = length xs" "h new = None"
    and "lhead l' = first_of xs (Some new)" "ltail l' = (if ys = [] then Some new else ltail l)"
  shows "list_shape (linked h xs new val ys, l') (xs @ new # ys) (as @ val # bs)"
proof -
  let ?h = "relink h xs ys (Some new) (Some new)"
  from assms(1) have d: "distinct (xs @ ys)" "dseg h None xs (first_of ys None)"
    "dseg h (last_of None xs) ys None" "data_of h xs = as" "data_of h ys = bs" "ltail l = last_of None (xs @ ys)"
    using assms(2) by (auto simp: list_shape_def dseg_append data_of_def)
  have sub: "set xs \<subseteq> dom h" "set ys \<subseteq> dom h"
    using dseg_dom [OF d(2)] dseg_dom [OF d(3)] by auto
  then have nin: "new \<notin> set (xs @ ys)" using assms(3) by auto
  have fr: "dseg (linked h xs new val ys) p zs q = dseg ?h p zs q" if "set zs \<subseteq> set (xs @ ys)" for p zs q
    using nin that by (intro dseg_frame) (auto simp: linked_def)
  have da: "data_of (linked h xs new val ys) zs = data_of h zs" if "set zs \<subseteq> set (xs @ ys)" for zs
  proof -
    have "data_of (linked h xs new val ys) zs = data_of ?h zs"
      using nin that by (auto simp: data_of_def linked_def)
    then show ?thesis using relink_data [of zs h xs ys "Some new" "Some new"] sub that by auto
  qed
  have "dseg ?h None xs (Some new)" "dseg ?h (Some new) ys None"
    using relink_left [OF d(2)] relink_right [OF d(3)] d(1) by auto
  then have "dseg (linked h xs new val ys) None (xs @ new # ys) None"
    by (simp add: dseg_append fr linked_def [of h xs new val ys, THEN fun_cong, of new])
  moreover have "data_of (linked h xs new val ys) (xs @ new # ys) = as @ val # bs"
    using da [of xs] da [of ys] d(4,5) by (simp add: linked_def [of h xs new val ys, THEN fun_cong, of new])
  ultimately show ?thesis using d(1,6) nin assms(4,5) by (auto simp: list_shape_def last_of_def)
qed

lemma unlinked_shape:
  assumes "list_shape (h, l) (xs @ p # ys) (as @ d # bs)" "length as = length xs"
    and "lhead l' = first_of xs (first_of ys None)" "ltail l' = last_of (last_of None xs) ys"
  shows "list_shape (unlinked h xs p ys, l') (xs @ ys) (as @ bs)"
proof -
  let ?h = "relink h xs ys (first_of ys None) (last_of None xs)"
  from assms(1) have d: "distinct (xs @ p # ys)" "dseg h None xs (Some p)"
    "dseg h (Some p) ys None" "data_of h xs = as" "data_of h ys = bs"
    using assms(2) by (auto simp: list_shape_def dseg_append data_of_def split: option.splits)
  have sub: "set xs \<subseteq> dom h" "set ys \<subseteq> dom h" using dseg_dom [OF d(2)] dseg_dom [OF d(3)] by auto
  have fr: "dseg (unlinked h xs p ys) a zs q = dseg ?h a zs q" if "p \<notin> set zs" for a zs q
    using that by (intro dseg_frame) (auto simp: unlinked_def)
  have "data_of (unlinked h xs p ys) zs = data_of ?h zs" if "p \<notin> set zs" for zs
    using that by (auto simp: data_of_def unlinked_def)
  then have "data_of (unlinked h xs p ys) (xs @ ys) = as @ bs"
    using relink_data [of "xs @ ys" h xs ys "first_of ys None" "last_of None xs"] sub d
    by (auto simp: data_of_def)
  moreover have "dseg ?h None xs (first_of ys None)" "dseg ?h (last_of None xs) ys None"
    using relink_left [OF d(2)] relink_right [OF d(3)] d(1) by auto
  ultimately show ?thesis using d(1) assms(3,4) fr by (auto simp: list_shape_def dseg_append)
qed


section \<open>The operations link and unlink\<close>

lemmas lheap_defs = set_next_def set_prev_def listnode_new_def listnode_free_def

lemma shape_node:
  assumes "list_shape (h, l) (xs @ p # ys) ds"
  obtains n where "h p = Some n" "ln_prev n = last_of None xs" "ln_next n = first_of ys None"
  using assms by (auto simp: list_shape_def dseg_append split: option.splits)

lemma shape_last:
  assumes "list_shape (h, l) xs ds" "last_of None xs = Some a"
  obtains n where "h a = Some n" "ln_next n = None"
proof -
  from assms(2) have "xs \<noteq> []" "a = last xs" by (auto simp: last_of_def split: if_splits)
  then have "xs = butlast xs @ a # []" by simp
  then have "list_shape (h, l) (butlast xs @ a # []) ds" using assms(1) by simp
  then show ?thesis by (rule shape_node) (use that in auto)
qed

lemma listnode_add_linked:
  assumes "list_shape (h, l) xs ds" "h new = None"
  shows "listnode_add (h, l) new val = Some (linked h xs new val [],
    l\<lparr>lhead := first_of xs (Some new), ltail := Some new, lcount := lcount l + 1\<rparr>)"
proof (cases "xs = []")
  case True
  then show ?thesis using assms
    by (auto simp: listnode_add_def lheap_defs linked_def relink_def list_shape_def fun_eq_iff)
next
  case False
  then obtain a where a: "last_of None xs = Some a" by (simp add: last_of_def)
  obtain n where n: "h a = Some n" by (rule shape_last [OF assms(1) a])
  have "a \<noteq> new" using n assms(2) by auto
  then show ?thesis using assms a n False
    by (auto simp: listnode_add_def lheap_defs linked_def relink_def list_shape_def fun_eq_iff first_of_def)
qed

lemma shape_neighbours:
  assumes "list_shape (h, l) (xs @ c # ys) ds"
  shows "xs \<noteq> [] \<Longrightarrow> \<exists>m. h (last xs) = Some m \<and> last xs \<noteq> c"
    "ys \<noteq> [] \<Longrightarrow> \<exists>m. h (hd ys) = Some m \<and> hd ys \<noteq> c"
    "xs \<noteq> [] \<Longrightarrow> ys \<noteq> [] \<Longrightarrow> last xs \<noteq> hd ys"
proof -
  have dom: "h x \<noteq> None" if "x \<in> set (xs @ c # ys)" for x
    using dseg_dom [of h None "xs @ c # ys" None] assms that by (simp add: list_shape_def)
  have dist: "distinct (xs @ c # ys)" using assms by (simp add: list_shape_def)
  show "\<exists>m. h (last xs) = Some m \<and> last xs \<noteq> c" if "xs \<noteq> []"
    using dom [of "last xs"] dist last_in_set [OF that] by auto
  show "\<exists>m. h (hd ys) = Some m \<and> hd ys \<noteq> c" if "ys \<noteq> []"
    using dom [of "hd ys"] dist hd_in_set [OF that] by auto
  show "last xs \<noteq> hd ys" if "xs \<noteq> []" "ys \<noteq> []"
    using dist last_in_set [OF that(1)] hd_in_set [OF that(2)] by auto
qed

lemma shape_new:
  assumes "list_shape (h, l) (xs @ c # ys) ds" "h new = None"
  shows "c \<noteq> new" "xs \<noteq> [] \<Longrightarrow> last xs \<noteq> new" "ys \<noteq> [] \<Longrightarrow> hd ys \<noteq> new"
  using shape_neighbours [OF assms(1)] shape_node [OF assms(1)] assms(2) by fastforce+

lemma list_add_node_prev_linked:
  assumes "list_shape (h, l) (xs @ c # ys) ds" "h new = None"
  shows "list_add_node_prev (h, l) c new val = Some (linked h xs new val (c # ys),
    l\<lparr>lhead := first_of xs (Some new), lcount := lcount l + 1\<rparr>)"
proof -
  obtain n where n: "h c = Some n" "ln_prev n = last_of None xs" by (rule shape_node [OF assms(1)])
  have "lhead l = first_of xs (Some c)" using assms(1) by (simp add: list_shape_def)
  then show ?thesis
    using n shape_neighbours [OF assms(1)] shape_new [OF assms] assms(2)
    by (cases "xs = []")
      (auto simp: list_add_node_prev_def lheap_defs linked_def relink_def fun_eq_iff first_of_def last_of_def)
qed

lemma list_add_node_next_linked:
  assumes "list_shape (h, l) (xs @ c # ys) ds" "h new = None"
  shows "list_add_node_next (h, l) c new val = Some (linked h (xs @ [c]) new val ys,
    l\<lparr>ltail := (if ys = [] then Some new else ltail l), lcount := lcount l + 1\<rparr>)"
proof -
  obtain n where n: "h c = Some n" "ln_next n = first_of ys None" by (rule shape_node [OF assms(1)])
  show ?thesis
    using n shape_neighbours [OF assms(1)] shape_new [OF assms] assms(2)
    by (cases "ys = []")
      (auto simp: list_add_node_next_def lheap_defs linked_def relink_def fun_eq_iff first_of_def)
qed

lemma listnode_add_after_linked:
  assumes "list_shape (h, l) (xs @ ys) ds" "h new = None"
  shows "listnode_add_after (h, l) (last_of None xs) new val = Some (linked h xs new val ys,
    l\<lparr>lhead := first_of xs (Some new), ltail := (if ys = [] then Some new else ltail l)\<rparr>)"
proof (cases "xs = []")
  case True
  show ?thesis
  proof (cases ys)
    case Nil
    then show ?thesis using True assms
      by (auto simp: listnode_add_after_def lheap_defs linked_def relink_def list_shape_def fun_eq_iff)
  next
    case (Cons y zs)
    then have "list_shape (h, l) ([] @ y # zs) ds" using True assms(1) by simp
    from shape_node [OF this] obtain n where "h y = Some n" by blast
    then show ?thesis using True Cons assms
      by (auto simp: listnode_add_after_def lheap_defs linked_def relink_def list_shape_def fun_eq_iff)
  qed
next
  case False
  then obtain ws c where xs: "xs = ws @ [c]" by (metis append_butlast_last_id)
  have s: "list_shape (h, l) (ws @ c # ys) ds" using assms(1) xs by simp
  obtain n where n: "h c = Some n" "ln_next n = first_of ys None" by (rule shape_node [OF s])
  have "lhead l = first_of ws (Some c)" using s by (simp add: list_shape_def)
  then show ?thesis
    using n shape_neighbours [OF s] shape_new [OF s assms(2)] assms(2) xs
    by (cases "ys = []")
      (auto simp: listnode_add_after_def lheap_defs linked_def relink_def fun_eq_iff first_of_def)
qed

lemma list_delete_node_unlinked:
  assumes "list_shape (h, l) (xs @ p # ys) ds"
  shows "list_delete_node (h, l) p = Some (unlinked h xs p ys,
    l\<lparr>lhead := first_of xs (first_of ys None), ltail := last_of (last_of None xs) ys, lcount := lcount l - 1\<rparr>)"
proof -
  obtain n where n: "h p = Some n" "ln_prev n = last_of None xs" "ln_next n = first_of ys None"
    by (rule shape_node [OF assms])
  have l: "lhead l = first_of xs (Some p)" "ltail l = last_of (last_of None xs) (p # ys)"
    using assms by (simp_all add: list_shape_def)
  show ?thesis
    using n l shape_neighbours [OF assms]
    by (cases "xs = []"; cases "ys = []")
      (auto simp: list_delete_node_def lheap_defs unlinked_def relink_def fun_eq_iff first_of_def last_of_def)
qed


section \<open>The loops\<close>

lemma sort_scan_spec:
  "dseg h pr ps None \<Longrightarrow> length ps \<le> fuel \<Longrightarrow>
   sort_scan fuel cmp h val (first_of ps None)
   = Some (first_of (dropWhile (\<lambda>p. \<not> cmp val (ln_data (the (h p))) < 0) ps) None)"
proof (induction ps arbitrary: pr fuel)
  case (Cons p ps)
  then show ?case by (cases fuel) (auto split: option.splits)
qed simp

lemma lookup_scan_spec:
  "dseg h pr ps None \<Longrightarrow> length ps \<le> fuel \<Longrightarrow>
   lookup_scan fuel h d (first_of ps None) = Some (first_of (dropWhile (\<lambda>p. ln_data (the (h p)) \<noteq> d) ps) None)"
proof (induction ps arbitrary: pr fuel)
  case (Cons p ps)
  then show ?case by (cases fuel) (auto split: option.splits)
qed simp

lemma delete_loop_spec:
  "dseg h pr ps None \<Longrightarrow> distinct ps \<Longrightarrow> length ps \<le> fuel \<Longrightarrow>
   delete_loop fuel h (first_of ps None) = Some (h |` (- set ps), data_of h ps)"
proof (induction ps arbitrary: pr fuel h)
  case (Cons p ps)
  from Cons.prems(1) obtain n where n: "h p = Some n" "ln_next n = first_of ps None" "dseg h (Some p) ps None"
    by (auto split: option.splits)
  obtain k where k: "fuel = Suc k" "length ps \<le> k" using Cons.prems(3) by (cases fuel) auto
  have "dseg (listnode_free h p) (Some p) ps None"
    using n(3) Cons.prems(2) by (subst dseg_frame [where h = h]) (auto simp: listnode_free_def)
  then have "delete_loop k (listnode_free h p) (first_of ps None)
    = Some (listnode_free h p |` (- set ps), data_of (listnode_free h p) ps)"
    using Cons.IH Cons.prems(2) k(2) by simp
  moreover have "data_of (listnode_free h p) ps = data_of h ps"
    using Cons.prems(2) by (auto simp: data_of_def listnode_free_def)
  moreover have "listnode_free h p |` (- set ps) = h |` (- set (p # ps))"
    by (auto simp: listnode_free_def restrict_map_def fun_eq_iff)
  ultimately show ?case using n k by simp
qed (simp add: restrict_map_def fun_eq_iff)

section \<open>Sorted insertion\<close>

definition list_insert :: "('d \<Rightarrow> 'd \<Rightarrow> int) \<Rightarrow> 'd \<Rightarrow> 'd list \<Rightarrow> 'd list" where
  "list_insert cmp val ds =
     takeWhile (\<lambda>d. \<not> cmp val d < 0) ds @ val # dropWhile (\<lambda>d. \<not> cmp val d < 0) ds"

definition cmp_sorted :: "('d \<Rightarrow> 'd \<Rightarrow> int) \<Rightarrow> 'd list \<Rightarrow> bool" where
  "cmp_sorted cmp ds = sorted_wrt (\<lambda>a b. cmp a b \<le> 0) ds"

context c_compare
begin

lemma insert_sorted:
  "ok val \<Longrightarrow> list_all ok ds \<Longrightarrow> cmp_sorted cmp ds \<Longrightarrow> cmp_sorted cmp (list_insert cmp val ds)"
proof (induction ds)
  case (Cons d ds)
  show ?case
  proof (cases "cmp val d < 0")
    case True
    then have "cmp val x \<le> 0" if "x \<in> set (d # ds)" for x
      using that Cons.prems cmp_trans [of val d x] by (auto simp: cmp_sorted_def list_all_iff)
    then show ?thesis using True Cons.prems by (simp add: list_insert_def cmp_sorted_def)
  next
    case False
    then have "cmp d val \<le> 0" using cmp_not_less [of val d] Cons.prems by simp
    moreover have "set (list_insert cmp val ds) = insert val (set ds)"
      by (metis list_insert_def takeWhile_dropWhile_id set_append list.simps(15) Un_insert_right)
    moreover have "cmp_sorted cmp (list_insert cmp val ds)"
      using Cons by (simp add: cmp_sorted_def)
    ultimately show ?thesis using False Cons.prems by (auto simp: list_insert_def cmp_sorted_def)
  qed
qed (simp add: list_insert_def cmp_sorted_def)

end

lemma data_of_takeWhile: "data_of h (takeWhile (\<lambda>p. P (ln_data (the (h p)))) ps) = takeWhile P (data_of h ps)"
  by (simp add: data_of_def takeWhile_map comp_def)

lemma data_of_dropWhile: "data_of h (dropWhile (\<lambda>p. P (ln_data (the (h p)))) ps) = dropWhile P (data_of h ps)"
  by (simp add: data_of_def dropWhile_map comp_def)

lemma add_sort_linked:
  assumes "list_shape (h, l) ps ds" "h new = None" "length ps \<le> fuel" "lcmp l = Some cmp"
    and "xs = takeWhile (\<lambda>p. \<not> cmp val (ln_data (the (h p))) < 0) ps"
    and "ys = dropWhile (\<lambda>p. \<not> cmp val (ln_data (the (h p))) < 0) ps"
  shows "listnode_add_sort fuel (h, l) new val = Some (linked h xs new val ys,
    l\<lparr>lhead := first_of xs (Some new), ltail := (if ys = [] then Some new else ltail l), lcount := lcount l + 1\<rparr>)"
proof -
  have ps: "ps = xs @ ys" using assms(5,6) by simp
  have scan: "sort_scan fuel cmp h val (lhead l) = Some (first_of ys None)"
    using sort_scan_spec [of h None ps fuel cmp val] assms(1,3,6) by (simp add: list_shape_def)
  show ?thesis
  proof (cases ys)
    case Nil
    then have "listnode_add_sort fuel (h, l) new val = listnode_add (h, l) new val"
      using scan assms(1,4) ps
      by (auto simp: listnode_add_sort_def listnode_add_def list_shape_def first_of_def last_of_def)
    then show ?thesis using listnode_add_linked [OF assms(1,2)] Nil ps by simp
  next
    case (Cons c zs)
    then have s: "list_shape (h, l) (xs @ c # zs) ds" using assms(1) ps by simp
    obtain n where n: "h c = Some n" "ln_prev n = last_of None xs" by (rule shape_node [OF s])
    have "lhead l = first_of xs (Some c)" using s by (simp add: list_shape_def)
    then show ?thesis
      using n shape_neighbours [OF s] shape_new [OF s assms(2)] assms(2,4) scan Cons
      by (cases "xs = []")
        (auto simp: listnode_add_sort_def lheap_defs linked_def relink_def fun_eq_iff first_of_def last_of_def)
  qed
qed


section \<open>Correctness of the operations\<close>

lemma linked_rep:
  assumes "list_rep (h, l) (xs @ ys) (as @ bs)" "length as = length xs" "h new = None"
    and "lhead l' = first_of xs (Some new)" "ltail l' = (if ys = [] then Some new else ltail l)"
    and "lcount l' = lcount l + 1"
  shows "list_rep (linked h xs new val ys, l') (xs @ new # ys) (as @ val # bs)"
  using linked_shape [of h l xs ys as bs new l' val] assms by (simp add: list_rep_def)

lemma rep_length: "list_rep st ps ds \<Longrightarrow> length ds = length ps"
  by (auto simp: list_rep_def list_shape_def data_of_def)

lemma linked_frame: "a \<notin> set (new # xs @ ys) \<Longrightarrow> linked h xs new val ys a = h a"
  by (auto simp: linked_def relink_def first_of_def last_of_def split: if_splits)

lemma unlinked_frame: "a \<notin> set (p # xs @ ys) \<Longrightarrow> unlinked h xs p ys a = h a"
  by (auto simp: unlinked_def relink_def first_of_def last_of_def split: if_splits)

lemma listnode_add_rep:
  assumes "list_rep (h, l) ps ds" "h new = None"
  shows "\<exists>st'. listnode_add (h, l) new val = Some st' \<and> list_rep st' (ps @ [new]) (ds @ [val])
    \<and> (\<forall>a. a \<notin> set (new # ps) \<longrightarrow> fst st' a = h a)"
  using listnode_add_linked [of h l ps ds new val] linked_rep [of h l ps "[]" ds "[]" new _ val] rep_length [OF assms(1)]
    assms linked_frame [of _ new ps "[]" h val] by (auto simp: list_rep_def)

text \<open>The list operations refine sequences.  On a list that holds \<open>as @ d # bs\<close>, with the node of \<open>d\<close>
  at hand, appending, inserting before or after that node and deleting it do not fault and yield
  lists that hold the expected sequence, with the right count and both directions of links; nodes of
  other lists are untouched.\<close>

theorem list_operations_refine:
  assumes "list_rep (h, l) (xs @ p # ys) (as @ d # bs)" "length as = length xs" "h new = None"
  shows "(\<exists>st'. listnode_add (h, l) new val = Some st'
      \<and> list_rep st' ((xs @ p # ys) @ [new]) ((as @ d # bs) @ [val])
      \<and> (\<forall>a. a \<notin> set (new # xs @ p # ys) \<longrightarrow> fst st' a = h a))
    \<and> (\<exists>st'. list_add_node_prev (h, l) p new val = Some st'
      \<and> list_rep st' (xs @ new # p # ys) (as @ val # d # bs)
      \<and> (\<forall>a. a \<notin> set (new # xs @ p # ys) \<longrightarrow> fst st' a = h a))
    \<and> (\<exists>st'. list_add_node_next (h, l) p new val = Some st'
      \<and> list_rep st' (xs @ p # new # ys) (as @ d # val # bs)
      \<and> (\<forall>a. a \<notin> set (new # xs @ p # ys) \<longrightarrow> fst st' a = h a))
    \<and> (\<exists>st'. list_delete_node (h, l) p = Some st' \<and> list_rep st' (xs @ ys) (as @ bs)
      \<and> fst st' p = None \<and> (\<forall>a. a \<notin> set (xs @ p # ys) \<longrightarrow> fst st' a = h a))"
proof -
  have s: "list_shape (h, l) (xs @ p # ys) (as @ d # bs)" using assms(1) by (simp add: list_rep_def)
  have hd: "lhead l = first_of xs (Some p)" using s by (simp add: list_shape_def)
  have "\<exists>st'. list_add_node_prev (h, l) p new val = Some st'
      \<and> list_rep st' (xs @ new # p # ys) (as @ val # d # bs)
      \<and> (\<forall>a. a \<notin> set (new # xs @ p # ys) \<longrightarrow> fst st' a = h a)"
    using list_add_node_prev_linked [OF s assms(3)] linked_rep [OF assms(1,2,3)] linked_frame [of _ new xs "p # ys" h val]
    by auto
  moreover have "\<exists>st'. list_add_node_next (h, l) p new val = Some st'
      \<and> list_rep st' (xs @ p # new # ys) (as @ d # val # bs)
      \<and> (\<forall>a. a \<notin> set (new # xs @ p # ys) \<longrightarrow> fst st' a = h a)"
    using list_add_node_next_linked [OF s assms(3)] linked_rep [of h l "xs @ [p]" ys "as @ [d]" bs new _ val] assms
      linked_frame [of _ new "xs @ [p]" ys h val] hd by auto
  moreover have "\<exists>st'. list_delete_node (h, l) p = Some st' \<and> list_rep st' (xs @ ys) (as @ bs)
      \<and> fst st' p = None \<and> (\<forall>a. a \<notin> set (xs @ p # ys) \<longrightarrow> fst st' a = h a)"
    using list_delete_node_unlinked [OF s] unlinked_shape [OF s assms(2)] assms(1) unlinked_frame [of _ p xs ys h]
    by (simp add: list_rep_def unlinked_def [of h xs p ys, THEN fun_cong, of p])
  ultimately show ?thesis using listnode_add_rep [OF assms(1,3), of val] by (intro conjI) auto
qed

definition demo_heap :: "int lheap" where
  "demo_heap = [1 \<mapsto> \<lparr>ln_next = Some 2, ln_prev = None, ln_data = 10\<rparr>,
                2 \<mapsto> \<lparr>ln_next = None, ln_prev = Some 1, ln_data = 30\<rparr>]"

definition demo_list :: "int list_t" where
  "demo_list = \<lparr>lhead = Some 1, ltail = Some 2, lcount = 2, lcmp = Some (\<lambda>a b. a - b), ldel = True\<rparr>"

lemma demo_rep: "list_rep (demo_heap, demo_list) [1, 2] [10, 30]" "demo_heap 3 = None"
  by (simp_all add: list_rep_def list_shape_def demo_heap_def demo_list_def)

theorem list_operations_refine_witness:
  "(\<exists>st'. listnode_add (demo_heap, demo_list) 3 7 = Some st' \<and> list_rep st' [1, 2, 3] [10, 30, 7])
   \<and> (\<exists>st'. list_delete_node (demo_heap, demo_list) 1 = Some st' \<and> list_rep st' [2] [30])"
  using list_operations_refine [of demo_heap demo_list "[]" 1 "[2]" "[]" 10 "[30]" 3 7] demo_rep by auto

text \<open>Sorted insertion.  \<open>listnode_add_sort\<close> inserts before the first element that the value is less than,
  so after all elements equal to it; it does not fault and keeps the list well formed, and if the
  comparison is a total preorder on the data and the list was sorted, it stays sorted.\<close>

theorem listnode_add_sort_correct:
  assumes "list_rep (h, l) ps ds" "h new = None" "length ps \<le> fuel" "lcmp l = Some cmp"
  shows "\<exists>st' ps'. listnode_add_sort fuel (h, l) new val = Some st' \<and> list_rep st' ps' (list_insert cmp val ds)
    \<and> set ps' = insert new (set ps) \<and> (\<forall>a. a \<notin> insert new (set ps) \<longrightarrow> fst st' a = h a)
    \<and> (c_compare cmp ok \<longrightarrow> ok val \<longrightarrow> list_all ok ds \<longrightarrow> cmp_sorted cmp ds \<longrightarrow> cmp_sorted cmp (list_insert cmp val ds))"
proof -
  define xs where "xs = takeWhile (\<lambda>p. \<not> cmp val (ln_data (the (h p))) < 0) ps"
  define ys where "ys = dropWhile (\<lambda>p. \<not> cmp val (ln_data (the (h p))) < 0) ps"
  let ?st = "(linked h xs new val ys, l\<lparr>lhead := first_of xs (Some new),
    ltail := (if ys = [] then Some new else ltail l), lcount := lcount l + 1\<rparr>)"
  have s: "list_shape (h, l) ps ds" and ds: "data_of h ps = ds"
    using assms(1) by (auto simp: list_rep_def list_shape_def)
  have ps: "ps = xs @ ys" by (simp add: xs_def ys_def)
  have "data_of h xs @ val # data_of h ys = list_insert cmp val ds"
    using data_of_takeWhile [of h "\<lambda>d. \<not> cmp val d < 0" ps] data_of_dropWhile [of h "\<lambda>d. \<not> cmp val d < 0" ps] ds
    by (simp add: xs_def ys_def list_insert_def)
  moreover have "list_rep (h, l) (xs @ ys) (data_of h xs @ data_of h ys)" using assms(1) ds unfolding ps by simp
  then have "list_rep ?st (xs @ new # ys) (data_of h xs @ val # data_of h ys)"
    by (rule linked_rep) (simp_all add: data_of_def assms(2))
  ultimately have "list_rep ?st (xs @ new # ys) (list_insert cmp val ds)" by simp
  moreover have "\<forall>a. a \<notin> insert new (set ps) \<longrightarrow> linked h xs new val ys a = h a"
    using linked_frame [of _ new xs ys h val] ps by auto
  moreover have "c_compare cmp ok \<longrightarrow> ok val \<longrightarrow> list_all ok ds \<longrightarrow> cmp_sorted cmp ds \<longrightarrow> cmp_sorted cmp (list_insert cmp val ds)"
    by (intro impI) (rule c_compare.insert_sorted)
  ultimately show ?thesis using add_sort_linked [OF s assms(2-4) xs_def ys_def] ps
    by (intro exI [of _ ?st] exI [of _ "xs @ new # ys"]) simp
qed

theorem listnode_add_sort_correct_witness:
  "\<exists>st' ps'. listnode_add_sort 2 (demo_heap, demo_list) 3 20 = Some st' \<and> list_rep st' ps' [10, 20, 30]
     \<and> cmp_sorted (\<lambda>a b. a - b) [10, 20, 30 :: int]"
proof -
  have "c_compare (\<lambda>a b :: int. a - b) (\<lambda>_. True)" by unfold_locales auto
  moreover have "cmp_sorted (\<lambda>a b. a - b) [10, 30 :: int]" by (simp add: cmp_sorted_def)
  moreover have "list_insert (\<lambda>a b. a - b) 20 [10, 30] = [10, 20, 30 :: int]" by (simp add: list_insert_def)
  ultimately show ?thesis
    using listnode_add_sort_correct [OF demo_rep, of 2 "\<lambda>a b. a - b" 20 "\<lambda>_. True"]
    by (auto simp: demo_list_def)
qed

text \<open>Search, deletion by value and release.  \<open>listnode_lookup\<close> finds the first node with the datum,
  \<open>listnode_delete\<close> removes the first occurrence and nothing else, \<open>listnode_head\<close> is the first datum,
  and \<open>list_delete_all_node\<close> releases exactly the nodes of the list, handing the data to \<open>del\<close> in order.\<close>

theorem list_search_delete_correct:
  assumes "list_rep (h, l) ps ds" "length ps \<le> fuel"
  shows "(\<exists>r. listnode_lookup fuel (h, l) d = Some r \<and> (r = None \<longleftrightarrow> d \<notin> set ds)
      \<and> (\<forall>p. r = Some p \<longrightarrow> p \<in> set ps \<and> ln_data (the (h p)) = d))
    \<and> (\<exists>st' ps'. listnode_delete fuel (h, l) d = Some st' \<and> list_rep st' ps' (remove1 d ds) \<and> set ps' \<subseteq> set ps
        \<and> (\<forall>a. a \<notin> set ps \<longrightarrow> fst st' a = h a))
    \<and> listnode_head (h, l) = Some (if ds = [] then None else Some (hd ds))
    \<and> (\<exists>st'. list_delete_all_node fuel (h, l) = Some (st', if ldel l then ds else []) \<and> list_rep st' [] []
        \<and> fst st' = h |` (- set ps))"
proof -
  define xs where "xs = takeWhile (\<lambda>p. ln_data (the (h p)) \<noteq> d) ps"
  define ys where "ys = dropWhile (\<lambda>p. ln_data (the (h p)) \<noteq> d) ps"
  have s: "list_shape (h, l) ps ds" and ds: "data_of h ps = ds" and seg: "dseg h None ps None" "distinct ps"
    and hd: "lhead l = first_of ps None"
    using assms(1) by (auto simp: list_rep_def list_shape_def)
  have ps: "ps = xs @ ys" by (simp add: xs_def ys_def)
  have look: "lookup_scan fuel h d (lhead l) = Some (first_of ys None)"
    using lookup_scan_spec [OF seg(1) assms(2)] hd by (simp add: ys_def)
  have nin: "d \<notin> set (data_of h xs)" by (auto simp: data_of_def xs_def dest: set_takeWhileD)
  have hit: "ln_data (the (h p)) = d" if "ys = p # zs" for p zs
    using that hd_dropWhile [of "\<lambda>p. ln_data (the (h p)) \<noteq> d" ps] by (simp add: ys_def)
  have "\<exists>st' ps'. listnode_delete fuel (h, l) d = Some st' \<and> list_rep st' ps' (remove1 d ds) \<and> set ps' \<subseteq> set ps
        \<and> (\<forall>a. a \<notin> set ps \<longrightarrow> fst st' a = h a)"
  proof (cases ys)
    case Nil
    then have "remove1 d ds = ds" using nin ds ps by (simp add: remove1_idem)
    then show ?thesis using look Nil assms(1) by (auto simp: listnode_delete_def)
  next
    case (Cons p zs)
    have r: "remove1 d ds = data_of h xs @ data_of h zs"
      using ds ps Cons hit [OF Cons] nin by (auto simp: remove1_append)
    have s': "list_shape (h, l) (xs @ p # zs) (data_of h xs @ d # data_of h zs)"
      using s ps Cons hit [OF Cons] by (simp add: list_shape_def)
    have "list_rep (unlinked h xs p zs, l\<lparr>lhead := first_of xs (first_of zs None),
        ltail := last_of (last_of None xs) zs, lcount := lcount l - 1\<rparr>) (xs @ zs) (remove1 d ds)"
      using unlinked_shape [OF s'] assms(1) ps Cons r by (simp add: list_rep_def data_of_def)
    then show ?thesis using look Cons list_delete_node_unlinked [OF s'] unlinked_frame [of _ p xs zs h] ps
      by (fastforce simp: listnode_delete_def)
  qed
  moreover have "listnode_head (h, l) = Some (if ds = [] then None else Some (hd ds))"
    using hd ds seg by (cases ps) (auto simp: listnode_head_def split: option.splits)
  moreover have "\<exists>st'. list_delete_all_node fuel (h, l) = Some (st', if ldel l then ds else []) \<and> list_rep st' [] []
        \<and> fst st' = h |` (- set ps)"
    using delete_loop_spec [OF seg assms(2)] hd ds
    by (simp add: list_delete_all_node_def list_rep_def list_shape_def)
  moreover have "\<exists>r. listnode_lookup fuel (h, l) d = Some r \<and> (r = None \<longleftrightarrow> d \<notin> set ds)
      \<and> (\<forall>p. r = Some p \<longrightarrow> p \<in> set ps \<and> ln_data (the (h p)) = d)"
    using look nin hit ps ds by (cases ys) (auto simp: listnode_lookup_def)
  ultimately show ?thesis by blast
qed

theorem list_search_delete_correct_witness:
  "\<exists>st' ps'. listnode_delete 2 (demo_heap, demo_list) 10 = Some st' \<and> list_rep st' ps' [30]"
proof -
  have "remove1 10 [10, 30] = [30 :: int]" by simp
  then show ?thesis using list_search_delete_correct [OF demo_rep(1), of 2 10] by auto
qed

text \<open>\<open>listnode_add_after\<close> links the node in behind the given one (or at the front) but does not
  count it: the count is one less than the number of nodes afterwards.\<close>

theorem listnode_add_after_miscounts:
  assumes "list_rep (h, l) (xs @ ys) (as @ bs)" "length as = length xs" "h new = None"
  shows "\<exists>st'. listnode_add_after (h, l) (last_of None xs) new val = Some st'
    \<and> list_shape st' (xs @ new # ys) (as @ val # bs) \<and> lcount (snd st') + 1 = of_nat (length (xs @ new # ys))
    \<and> \<not> list_rep st' (xs @ new # ys) (as @ val # bs)"
proof -
  have s: "list_shape (h, l) (xs @ ys) (as @ bs)" and c: "lcount l = of_nat (length (xs @ ys))"
    using assms(1) by (auto simp: list_rep_def)
  from listnode_add_after_linked [OF s assms(3)] linked_shape [OF s assms(2,3), of _ val] c
  show ?thesis by (simp add: list_rep_def)
qed

theorem listnode_add_after_miscounts_witness:
  "\<exists>st'. listnode_add_after (demo_heap, demo_list) (Some 1) 3 20 = Some st' \<and> list_shape st' [1, 3, 2] [10, 20, 30]
     \<and> lcount (snd st') + 1 = 3"
  using listnode_add_after_miscounts [of demo_heap demo_list "[1]" "[2]" "[10]" "[30]" 3 20] demo_rep
  by (auto simp: last_of_def)

end
