(* ===== verification/Lib_Pqueue.thy ===== *)
theory Lib_Pqueue
  imports Zebra_Prelude "HOL-Library.Multiset"
begin

text \<open>
  The binary heap of \<open>lib/pqueue.c\<close>.  The array is a list of pointers; reading or writing outside
  it is \<^term>\<open>None\<close>.  \<open>malloc_ok\<close> is whether \<open>pqueue_expand\<close> gets its memory.  The contract of a
  priority queue is a locale over its bag of elements; the queue ordered by \<open>ospf6_vertex_cmp\<close> of
  \<open>ospf6d/ospf6_spf.c\<close> is its instance.
\<close>

section \<open>Definitions\<close>

record 'd pqueue =
  parray :: "'d list"
  array_size :: nat
  pq_size :: nat

definition arr_get :: "'d list \<Rightarrow> nat \<Rightarrow> 'd option" where
  "arr_get a i = (if i < length a then Some (a ! i) else None)"

definition arr_set :: "'d list \<Rightarrow> nat \<Rightarrow> 'd \<Rightarrow> 'd list option" where
  "arr_set a i x = (if i < length a then Some (a[i := x]) else None)"

definition PARENT_OF :: "nat \<Rightarrow> nat" where "PARENT_OF x = (x - 1) div 2"
definition LEFT_OF :: "nat \<Rightarrow> nat" where "LEFT_OF x = 2 * x + 1"
definition RIGHT_OF :: "nat \<Rightarrow> nat" where "RIGHT_OF x = 2 * x + 2"
definition HAVE_CHILD :: "nat \<Rightarrow> nat \<Rightarrow> bool" where "HAVE_CHILD x sz \<longleftrightarrow> x < sz div 2"

text \<open>The loop of \<open>trickle_up\<close>; \<open>tmp\<close> is the saved node.\<close>

function up_loop :: "('d \<Rightarrow> 'd \<Rightarrow> int) \<Rightarrow> 'd list \<Rightarrow> 'd \<Rightarrow> nat \<Rightarrow> 'd list option" where
  "up_loop cmp a tmp index =
     (if index = 0 then arr_set a index tmp
      else do {
        p \<leftarrow> arr_get a (PARENT_OF index);
        if cmp tmp p < 0
        then do { a \<leftarrow> arr_set a index p; up_loop cmp a tmp (PARENT_OF index) }
        else arr_set a index tmp
      })"
  by auto
termination
  by (relation "measure (\<lambda>(cmp, a, tmp, index). index)") (auto simp: PARENT_OF_def)

declare up_loop.simps [simp del]

definition trickle_up :: "('d \<Rightarrow> 'd \<Rightarrow> int) \<Rightarrow> nat \<Rightarrow> 'd list \<Rightarrow> 'd list option" where
  "trickle_up cmp index a = do { tmp \<leftarrow> arr_get a index; up_loop cmp a tmp index }"

text \<open>The choice between the children in \<open>trickle_down\<close>.\<close>

definition which_child :: "('d \<Rightarrow> 'd \<Rightarrow> int) \<Rightarrow> nat \<Rightarrow> 'd list \<Rightarrow> nat \<Rightarrow> nat option" where
  "which_child cmp sz a index =
     (if RIGHT_OF index < sz
      then do {
        l \<leftarrow> arr_get a (LEFT_OF index);
        r \<leftarrow> arr_get a (RIGHT_OF index);
        Some (if cmp l r > 0 then RIGHT_OF index else LEFT_OF index)
      }
      else Some (LEFT_OF index))"

lemma which_child_gt: "which_child cmp sz a index = Some w \<Longrightarrow> w = LEFT_OF index \<or> w = RIGHT_OF index"
  by (auto simp: which_child_def split: if_splits bind_splits)

function down_loop :: "('d \<Rightarrow> 'd \<Rightarrow> int) \<Rightarrow> nat \<Rightarrow> 'd list \<Rightarrow> 'd \<Rightarrow> nat \<Rightarrow> 'd list option" where
  "down_loop cmp sz a tmp index =
     (if HAVE_CHILD index sz
      then (case which_child cmp sz a index of
              None \<Rightarrow> None
            | Some which \<Rightarrow> do {
                c \<leftarrow> arr_get a which;
                if cmp c tmp > 0 then arr_set a index tmp
                else do { a \<leftarrow> arr_set a index c; down_loop cmp sz a tmp which }
              })
      else arr_set a index tmp)"
  by auto
termination
  by (relation "measure (\<lambda>(cmp, sz, a, tmp, index). sz - index)")
    (auto simp: HAVE_CHILD_def LEFT_OF_def RIGHT_OF_def dest!: which_child_gt)

declare down_loop.simps [simp del]

definition trickle_down :: "('d \<Rightarrow> 'd \<Rightarrow> int) \<Rightarrow> nat \<Rightarrow> nat \<Rightarrow> 'd list \<Rightarrow> 'd list option" where
  "trickle_down cmp index sz a = do { tmp \<leftarrow> arr_get a index; down_loop cmp sz a tmp index }"

definition PQUEUE_INIT_ARRAYSIZE :: nat where "PQUEUE_INIT_ARRAYSIZE = 32"

text \<open>\<open>null\<close> is the null pointer of the element type.\<close>

definition pqueue_create :: "'d \<Rightarrow> 'd pqueue" where
  "pqueue_create null =
     \<lparr>parray = replicate PQUEUE_INIT_ARRAYSIZE null, array_size = PQUEUE_INIT_ARRAYSIZE, pq_size = 0\<rparr>"

definition pqueue_expand :: "'d \<Rightarrow> 'd pqueue \<Rightarrow> 'd pqueue" where
  "pqueue_expand null q =
     q\<lparr>parray := parray q @ replicate (array_size q) null, array_size := array_size q * 2\<rparr>"

definition pqueue_enqueue :: "('d \<Rightarrow> 'd \<Rightarrow> int) \<Rightarrow> 'd \<Rightarrow> bool \<Rightarrow> 'd \<Rightarrow> 'd pqueue \<Rightarrow> 'd pqueue option" where
  "pqueue_enqueue cmp null malloc_ok d q =
     (if pq_size q + 2 \<ge> array_size q \<and> \<not> malloc_ok then Some q
      else do {
        let q = (if pq_size q + 2 \<ge> array_size q then pqueue_expand null q else q);
        a \<leftarrow> arr_set (parray q) (pq_size q) d;
        a \<leftarrow> trickle_up cmp (pq_size q) a;
        Some (q\<lparr>parray := a, pq_size := pq_size q + 1\<rparr>)
      })"

text \<open>With size 0 the decrement makes the index -1.\<close>

definition pqueue_dequeue :: "('d \<Rightarrow> 'd \<Rightarrow> int) \<Rightarrow> 'd pqueue \<Rightarrow> ('d \<times> 'd pqueue) option" where
  "pqueue_dequeue cmp q =
     (if pq_size q = 0 then None
      else do {
        d \<leftarrow> arr_get (parray q) 0;
        x \<leftarrow> arr_get (parray q) (pq_size q - 1);
        a \<leftarrow> arr_set (parray q) 0 x;
        a \<leftarrow> trickle_down cmp 0 (pq_size q - 1) a;
        Some (d, q\<lparr>parray := a, pq_size := pq_size q - 1\<rparr>)
      })"

section \<open>The heap order\<close>

definition heap_order :: "('d \<Rightarrow> 'd \<Rightarrow> int) \<Rightarrow> 'd list \<Rightarrow> nat \<Rightarrow> bool" where
  "heap_order cmp a n \<longleftrightarrow> (\<forall>i. 0 < i \<longrightarrow> i < n \<longrightarrow> cmp (a ! PARENT_OF i) (a ! i) \<le> 0)"

definition pqueue_elems :: "'d pqueue \<Rightarrow> 'd multiset" where
  "pqueue_elems q = mset (take (pq_size q) (parray q))"

definition pqueue_inv :: "('d \<Rightarrow> 'd \<Rightarrow> int) \<Rightarrow> ('d \<Rightarrow> bool) \<Rightarrow> 'd pqueue \<Rightarrow> bool" where
  "pqueue_inv cmp ok q \<longleftrightarrow> length (parray q) = array_size q \<and> pq_size q + 2 \<le> array_size q
     \<and> list_all ok (take (pq_size q) (parray q)) \<and> heap_order cmp (parray q) (pq_size q)"

text \<open>The children of \<open>j\<close> are not above the parent of \<open>j\<close>.\<close>

definition bypass :: "('d \<Rightarrow> 'd \<Rightarrow> int) \<Rightarrow> 'd list \<Rightarrow> nat \<Rightarrow> nat \<Rightarrow> bool" where
  "bypass cmp b n j \<longleftrightarrow>
     (\<forall>i. 0 < j \<longrightarrow> 0 < i \<longrightarrow> i < n \<longrightarrow> PARENT_OF i = j \<longrightarrow> cmp (b ! PARENT_OF j) (b ! i) \<le> 0)"

definition up_inv :: "('d \<Rightarrow> 'd \<Rightarrow> int) \<Rightarrow> 'd list \<Rightarrow> nat \<Rightarrow> nat \<Rightarrow> bool" where
  "up_inv cmp b n j \<longleftrightarrow> bypass cmp b n j
     \<and> (\<forall>i. 0 < i \<longrightarrow> i < n \<longrightarrow> i \<noteq> j \<longrightarrow> cmp (b ! PARENT_OF i) (b ! i) \<le> 0)"

definition down_inv :: "('d \<Rightarrow> 'd \<Rightarrow> int) \<Rightarrow> 'd list \<Rightarrow> nat \<Rightarrow> nat \<Rightarrow> bool" where
  "down_inv cmp b n j \<longleftrightarrow> bypass cmp b n j
     \<and> (\<forall>i. 0 < i \<longrightarrow> i < n \<longrightarrow> PARENT_OF i \<noteq> j \<longrightarrow> cmp (b ! PARENT_OF i) (b ! i) \<le> 0)"

lemma PARENT_OF_less: "0 < i \<Longrightarrow> PARENT_OF i < i"
  by (simp add: PARENT_OF_def)

lemma PARENT_OF_eq: "0 < i \<Longrightarrow> PARENT_OF i = j \<longleftrightarrow> i = LEFT_OF j \<or> i = RIGHT_OF j"
  by (auto simp: PARENT_OF_def LEFT_OF_def RIGHT_OF_def)

text \<open>Moving the content of \<open>k\<close> to the hole \<open>j\<close> and the hole to \<open>k\<close> is a swap of the filled array.\<close>

lemma move_hole:
  assumes "j < length a" "k < length a" "j \<noteq> k"
  shows "(a[j := a ! k])[k := tmp] = (let b = a[j := tmp] in b[j := b ! k, k := b ! j])"
  using assms by (simp add: Let_def list_update_swap)

lemma swap_take_mset:
  assumes "j < n" "k < n" "n \<le> length b"
  shows "mset (take n (b[j := b ! k, k := b ! j])) = mset (take n b)"
proof -
  have "take n (b[j := b ! k, k := b ! j]) = (take n b)[j := take n b ! k, k := take n b ! j]"
    using assms by (simp add: take_update_swap)
  then show ?thesis using assms mset_swap [of k "take n b" j] by simp
qed

definition all_ok :: "('d \<Rightarrow> bool) \<Rightarrow> 'd list \<Rightarrow> nat \<Rightarrow> bool" where
  "all_ok ok b n \<longleftrightarrow> (\<forall>i<n. ok (b ! i))"

definition swapped :: "'d list \<Rightarrow> nat \<Rightarrow> nat \<Rightarrow> 'd list" where
  "swapped b j k = b[j := b ! k, k := b ! j]"

lemma swapped_nth:
  assumes "j < length b" "k < length b" "i < length b"
  shows "swapped b j k ! i = (if i = k then b ! j else if i = j then b ! k else b ! i)"
  using assms by (auto simp: swapped_def nth_list_update)

lemma length_swapped [simp]: "length (swapped b j k) = length b"
  by (simp add: swapped_def)

lemma all_ok_swapped: "all_ok ok b n \<Longrightarrow> j < n \<Longrightarrow> k < n \<Longrightarrow> n \<le> length b \<Longrightarrow> all_ok ok (swapped b j k) n"
  by (auto simp: all_ok_def swapped_nth)

context c_compare
begin

lemma up_step:
  assumes inv: "up_inv cmp b n j" and ok: "all_ok ok b n" and j: "0 < j" "j < n" "n \<le> length b"
    and less: "cmp (b ! j) (b ! PARENT_OF j) < 0"
  shows "up_inv cmp (swapped b j (PARENT_OF j)) n (PARENT_OF j)"
proof -
  let ?p = "PARENT_OF j" let ?c = "swapped b j ?p"
  have p: "?p < j" by (rule PARENT_OF_less [OF j(1)])
  have nth: "?c ! i = (if i = ?p then b ! j else if i = j then b ! ?p else b ! i)" if "i < n" for i
    using that j p by (intro swapped_nth) auto
  have ord: "cmp (b ! PARENT_OF i) (b ! i) \<le> 0" if "0 < i" "i < n" "i \<noteq> j" for i
    using inv that by (simp add: up_inv_def)
  have byp: "cmp (b ! ?p) (b ! i) \<le> 0" if "0 < i" "i < n" "PARENT_OF i = j" for i
    using inv that j(1) by (simp add: up_inv_def bypass_def)
  have okb: "ok (b ! i)" if "i < n" for i using ok that by (simp add: all_ok_def)
  have 1: "cmp (?c ! PARENT_OF i) (?c ! i) \<le> 0" if i: "0 < i" "i < n" "i \<noteq> ?p" for i
  proof -
    have pi: "PARENT_OF i < n" using PARENT_OF_less [OF i(1)] i(2) by simp
    consider "i = j" | "i \<noteq> j" "PARENT_OF i = j" | "i \<noteq> j" "PARENT_OF i = ?p" | "i \<noteq> j" "PARENT_OF i \<noteq> j" "PARENT_OF i \<noteq> ?p"
      by blast
    then show ?thesis
    proof cases
      case 3
      have "cmp (b ! ?p) (b ! i) \<le> 0" using ord [OF i(1,2) 3(1)] 3(2) by simp
      then show ?thesis using 3 i p j nth pi less okb cmp_trans [of "b ! j" "b ! ?p" "b ! i"] by simp
    qed (use i p j nth pi less byp ord in simp_all)
  qed
  have 2: "bypass cmp ?c n ?p"
    unfolding bypass_def
  proof (intro allI impI)
    fix i assume i: "0 < ?p" "0 < i" "i < n" "PARENT_OF i = ?p"
    have pp: "PARENT_OF ?p < ?p" by (rule PARENT_OF_less [OF i(1)])
    have a: "cmp (b ! PARENT_OF ?p) (b ! ?p) \<le> 0" using ord [of ?p] i(1) p j(2) by simp
    have "PARENT_OF i < i" by (rule PARENT_OF_less [OF i(2)])
    then show "cmp (?c ! PARENT_OF ?p) (?c ! i) \<le> 0"
      using a i pp p j nth ord [of i] okb cmp_trans [of "b ! PARENT_OF ?p" "b ! ?p" "b ! i"]
      by (cases "i = j") simp_all
  qed
  from 1 2 show ?thesis by (simp add: up_inv_def)
qed

lemma down_step:
  assumes inv: "down_inv cmp b n j" and ok: "all_ok ok b n" and j: "j < n" "n \<le> length b"
    and w: "0 < w" "w < n" "PARENT_OF w = j" "cmp (b ! w) (b ! j) \<le> 0"
    and best: "\<And>i. 0 < i \<Longrightarrow> i < n \<Longrightarrow> PARENT_OF i = j \<Longrightarrow> cmp (b ! w) (b ! i) \<le> 0"
  shows "down_inv cmp (swapped b j w) n w"
proof -
  let ?c = "swapped b j w"
  have jw: "j < w" using PARENT_OF_less [OF w(1)] w(3) by simp
  have nth: "?c ! i = (if i = w then b ! j else if i = j then b ! w else b ! i)" if "i < n" for i
    using that j w by (intro swapped_nth) auto
  have ord: "cmp (b ! PARENT_OF i) (b ! i) \<le> 0" if "0 < i" "i < n" "PARENT_OF i \<noteq> j" for i
    using inv that by (simp add: down_inv_def)
  have byp: "cmp (b ! PARENT_OF j) (b ! i) \<le> 0" if "0 < j" "0 < i" "i < n" "PARENT_OF i = j" for i
    using inv that by (simp add: down_inv_def bypass_def)
  have 1: "cmp (?c ! PARENT_OF i) (?c ! i) \<le> 0" if i: "0 < i" "i < n" "PARENT_OF i \<noteq> w" for i
  proof -
    have pi: "PARENT_OF i < n" "PARENT_OF i < i" using PARENT_OF_less [OF i(1)] i(2) by simp_all
    consider "i = w" | "i = j" | "i \<noteq> w" "i \<noteq> j" "PARENT_OF i = j" | "i \<noteq> w" "i \<noteq> j" "PARENT_OF i \<noteq> j"
      by blast
    then show ?thesis
    proof cases
      case 2
      then show ?thesis using i w jw nth pi byp [of w] by simp
    qed (use i w jw nth pi best ord j in simp_all)
  qed
  have 2: "bypass cmp ?c n w"
    unfolding bypass_def
  proof (intro allI impI)
    fix i assume i: "0 < w" "0 < i" "i < n" "PARENT_OF i = w"
    have "w < i" using PARENT_OF_less [OF i(2)] i(4) by simp
    then show "cmp (?c ! PARENT_OF w) (?c ! i) \<le> 0"
      using i w jw nth ord [of i] j by simp
  qed
  from 1 2 show ?thesis by (simp add: down_inv_def)
qed

lemma heap_root:
  assumes "heap_order cmp b n" "all_ok ok b n" "i < n"
  shows "cmp (b ! 0) (b ! i) \<le> 0"
  using assms(3)
proof (induction i rule: less_induct)
  case (less i)
  have okb: "ok (b ! k)" if "k < n" for k using assms(2) that by (simp add: all_ok_def)
  show ?case
  proof (cases "i = 0")
    case True
    then show ?thesis using cmp_refl okb less.prems by simp
  next
    case False
    then have p: "PARENT_OF i < i" by (simp add: PARENT_OF_less)
    then have "cmp (b ! 0) (b ! PARENT_OF i) \<le> 0" using less by simp
    moreover have "cmp (b ! PARENT_OF i) (b ! i) \<le> 0" using assms(1) False less.prems by (simp add: heap_order_def)
    ultimately show ?thesis using cmp_trans [of "b ! 0" "b ! PARENT_OF i" "b ! i"] okb p less.prems by simp
  qed
qed

end


section \<open>The loops restore the heap order\<close>

text \<open>What a loop with a hole at \<open>j\<close> leaves: a heap with the elements of the array with the hole filled.\<close>

definition heap_result :: "('d \<Rightarrow> 'd \<Rightarrow> int) \<Rightarrow> nat \<Rightarrow> 'd list \<Rightarrow> 'd list \<Rightarrow> bool" where
  "heap_result cmp n b a' \<longleftrightarrow> heap_order cmp a' n \<and> mset (take n a') = mset (take n b) \<and> length a' = length b"

lemma heap_result_swapped:
  "heap_result cmp n (swapped b j k) a' \<Longrightarrow> j < n \<Longrightarrow> k < n \<Longrightarrow> n \<le> length b \<Longrightarrow> heap_result cmp n b a'"
  using swap_take_mset [of j n k b] by (simp add: heap_result_def swapped_def)

lemma hole_moves:
  assumes "j < length a" "k < length a" "j \<noteq> k"
  shows "(a[j := a ! k])[k := tmp] = swapped (a[j := tmp]) j k"
  using move_hole [OF assms, of tmp] by (simp add: swapped_def Let_def)

context c_compare
begin

lemma up_loop_heap:
  "\<lbrakk>up_inv cmp (a[j := tmp]) n j; all_ok ok (a[j := tmp]) n; j < n; n \<le> length a\<rbrakk> \<Longrightarrow>
   \<exists>a'. up_loop cmp a tmp j = Some a' \<and> heap_result cmp n (a[j := tmp]) a'"
proof (induction j arbitrary: a rule: less_induct)
  case (less j)
  let ?b = "a[j := tmp]" let ?p = "PARENT_OF j"
  have okb: "ok (?b ! i)" if "i < n" for i using less.prems(2) that by (simp add: all_ok_def)
  have stop: "heap_result cmp n ?b ?b" if "0 < j \<Longrightarrow> cmp (?b ! ?p) tmp \<le> 0"
  proof -
    have "cmp (?b ! PARENT_OF i) (?b ! i) \<le> 0" if "0 < i" "i < n" for i
      using less.prems(1,3,4) that \<open>0 < j \<Longrightarrow> cmp (?b ! ?p) tmp \<le> 0\<close> by (cases "i = j") (simp_all add: up_inv_def)
    then show ?thesis by (simp add: heap_result_def heap_order_def)
  qed
  show ?case
  proof (cases "j = 0")
    case True
    then show ?thesis using stop less.prems by (auto simp: up_loop.simps [of cmp a tmp 0] arr_set_def)
  next
    case False
    then have p: "?p < j" by (simp add: PARENT_OF_less)
    then have rd: "arr_get a ?p = Some (a ! ?p)" "?b ! ?p = a ! ?p" "?b ! j = tmp"
      using less.prems by (simp_all add: arr_get_def)
    show ?thesis
    proof (cases "cmp tmp (a ! ?p) < 0")
      case True
      let ?a = "a[j := a ! ?p]"
      have sw: "?a[?p := tmp] = swapped ?b j ?p" using hole_moves [of j a ?p tmp] p less.prems by simp
      have "up_inv cmp (?a[?p := tmp]) n ?p" unfolding sw
        using up_step [of ?b n j] less.prems False True rd by simp
      moreover have "all_ok ok (?a[?p := tmp]) n" unfolding sw
        using all_ok_swapped [of ok ?b n j ?p] less.prems p by simp
      ultimately obtain a' where "up_loop cmp ?a tmp ?p = Some a'" "heap_result cmp n (?a[?p := tmp]) a'"
        using less.IH [OF p, of ?a] p less.prems by auto
      then show ?thesis using True False rd less.prems p heap_result_swapped [of cmp n ?b j ?p a'] sw
        by (auto simp: up_loop.simps [of cmp a tmp j] arr_set_def)
    next
      case False
      then have "cmp (?b ! ?p) tmp \<le> 0" using cmp_not_less [of tmp "?b ! ?p"] rd okb [of j] okb [of ?p] p less.prems by simp
      then show ?thesis using stop False \<open>j \<noteq> 0\<close> rd less.prems
        by (auto simp: up_loop.simps [of cmp a tmp j] arr_set_def)
    qed
  qed
qed

lemma which_child_best:
  assumes "HAVE_CHILD j n" "all_ok ok a n" "n \<le> length a"
  obtains w where "which_child cmp n a j = Some w" "0 < w" "w < n" "PARENT_OF w = j"
    "\<forall>i. 0 < i \<longrightarrow> i < n \<longrightarrow> PARENT_OF i = j \<longrightarrow> cmp (a ! w) (a ! i) \<le> 0"
proof -
  have l: "LEFT_OF j < n" using assms(1) by (simp add: HAVE_CHILD_def LEFT_OF_def)
  have okb: "ok (a ! i)" if "i < n" for i using assms(2) that by (simp add: all_ok_def)
  show ?thesis
  proof (rule that [of "if RIGHT_OF j < n \<and> cmp (a ! LEFT_OF j) (a ! RIGHT_OF j) > 0 then RIGHT_OF j else LEFT_OF j"])
    let ?w = "if RIGHT_OF j < n \<and> cmp (a ! LEFT_OF j) (a ! RIGHT_OF j) > 0 then RIGHT_OF j else LEFT_OF j"
    have "cmp (a ! ?w) (a ! i) \<le> 0" if i: "0 < i" "i < n" "PARENT_OF i = j" for i
    proof -
      have "i = LEFT_OF j \<or> i = RIGHT_OF j" using PARENT_OF_eq i by blast
      then show ?thesis using i(2) l okb cmp_gt [of "a ! LEFT_OF j" "a ! RIGHT_OF j"] cmp_refl by auto
    qed
    then show "\<forall>i. 0 < i \<longrightarrow> i < n \<longrightarrow> PARENT_OF i = j \<longrightarrow> cmp (a ! ?w) (a ! i) \<le> 0" by blast
  qed (use l assms(3) in \<open>auto simp: which_child_def arr_get_def LEFT_OF_def RIGHT_OF_def PARENT_OF_def\<close>)
qed

end


context c_compare
begin

lemma down_loop_heap:
  "\<lbrakk>down_inv cmp (a[j := tmp]) n j; all_ok ok (a[j := tmp]) n; j < n; n \<le> length a\<rbrakk> \<Longrightarrow>
   \<exists>a'. down_loop cmp n a tmp j = Some a' \<and> heap_result cmp n (a[j := tmp]) a'"
proof (induction "n - j" arbitrary: a j rule: less_induct)
  case less
  let ?b = "a[j := tmp]"
  have okb: "ok (?b ! i)" if "i < n" for i using less.prems(2) that by (simp add: all_ok_def)
  have stop: "heap_result cmp n ?b ?b"
    if "\<And>i. 0 < i \<Longrightarrow> i < n \<Longrightarrow> PARENT_OF i = j \<Longrightarrow> cmp tmp (?b ! i) \<le> 0"
  proof -
    have "cmp (?b ! PARENT_OF i) (?b ! i) \<le> 0" if "0 < i" "i < n" for i
      using less.prems(1,3,4) that \<open>\<And>i. 0 < i \<Longrightarrow> i < n \<Longrightarrow> PARENT_OF i = j \<Longrightarrow> cmp tmp (?b ! i) \<le> 0\<close> [of i]
      by (cases "PARENT_OF i = j") (simp_all add: down_inv_def)
    then show ?thesis by (simp add: heap_result_def heap_order_def)
  qed
  show ?case
  proof (cases "HAVE_CHILD j n")
    case False
    have out: "i \<ge> n" if "0 < i" "PARENT_OF i = j" for i
      using that False PARENT_OF_eq [of i j] by (auto simp: HAVE_CHILD_def LEFT_OF_def RIGHT_OF_def)
    have "heap_result cmp n ?b ?b"
    proof (rule stop)
      fix i assume "0 < i" "i < n" "PARENT_OF i = j"
      then show "cmp tmp (?b ! i) \<le> 0" using out [of i] by simp
    qed
    then show ?thesis using False less.prems by (simp add: down_loop.simps [of cmp n a tmp j] arr_set_def)
  next
    case True
    have len: "n \<le> length ?b" using less.prems(4) by simp
    obtain w where
      w: "which_child cmp n ?b j = Some w" "0 < w" "w < n" "PARENT_OF w = j"
        "\<forall>i. 0 < i \<longrightarrow> i < n \<longrightarrow> PARENT_OF i = j \<longrightarrow> cmp (?b ! w) (?b ! i) \<le> 0"
      by (rule which_child_best [OF True less.prems(2) len])
    have jw: "j < w" using PARENT_OF_less [OF w(2)] w(4) by simp
    have "which_child cmp n a j = which_child cmp n ?b j"
      by (simp add: which_child_def arr_get_def LEFT_OF_def RIGHT_OF_def)
    then have wa: "which_child cmp n a j = Some w" using w(1) by simp
    have rd: "arr_get a w = Some (a ! w)" "?b ! w = a ! w" "?b ! j = tmp"
      using less.prems w(3) jw by (simp_all add: arr_get_def)
    show ?thesis
    proof (cases "cmp (a ! w) tmp > 0")
      case gt: True
      have "heap_result cmp n ?b ?b"
      proof (rule stop)
        fix i assume i: "0 < i" "i < n" "PARENT_OF i = j"
        have "cmp tmp (?b ! w) \<le> 0" using gt cmp_gt [of "?b ! w" tmp] rd okb [of w] okb [of j] w(3) less.prems(3) by simp
        then show "cmp tmp (?b ! i) \<le> 0"
          using cmp_trans [of tmp "?b ! w" "?b ! i"] w(5) [rule_format, OF i] okb [of j] okb [of w] okb [of i] i w(3) rd less.prems(3)
          by simp
      qed
      then show ?thesis using True wa rd gt less.prems by (simp add: down_loop.simps [of cmp n a tmp j] arr_set_def)
    next
      case le: False
      let ?a = "a[j := a ! w]"
      have sw: "?a[w := tmp] = swapped ?b j w" using hole_moves [of j a w tmp] jw w(3) less.prems by simp
      have "down_inv cmp (?a[w := tmp]) n w" unfolding sw
        using down_step [of ?b n j w] less.prems le rd w by simp
      moreover have "all_ok ok (?a[w := tmp]) n" unfolding sw
        using all_ok_swapped [of ok ?b n j w] less.prems w(3) by simp
      ultimately obtain a' where a': "down_loop cmp n ?a tmp w = Some a'" "heap_result cmp n (?a[w := tmp]) a'"
        using less.hyps [of w ?a] diff_less_mono2 [of j w n] jw w(3) less.prems by auto
      have "down_loop cmp n a tmp j = Some a'"
        using True wa rd le less.prems a'(1) by (simp add: down_loop.simps [of cmp n a tmp j] arr_set_def)
      then show ?thesis using a'(2) heap_result_swapped [of cmp n ?b j w a'] sw less.prems w(3) by auto
    qed
  qed
qed

end


section \<open>Enqueue and dequeue\<close>

lemma all_ok_take: "n \<le> length a \<Longrightarrow> list_all ok (take n a) \<longleftrightarrow> all_ok ok a n"
  by (auto simp: list_all_length all_ok_def)

lemma heap_order_cong: "(\<And>i. i < n \<Longrightarrow> a ! i = b ! i) \<Longrightarrow> heap_order cmp a n = heap_order cmp b n"
proof -
  assume eq: "\<And>i. i < n \<Longrightarrow> a ! i = b ! i"
  have "cmp (a ! PARENT_OF i) (a ! i) = cmp (b ! PARENT_OF i) (b ! i)" if "0 < i" "i < n" for i
    using eq [of i] eq [of "PARENT_OF i"] PARENT_OF_less [OF that(1)] that by simp
  then show ?thesis by (auto simp: heap_order_def)
qed

lemma mset_take_ok: "mset (take n a) = mset xs \<Longrightarrow> list_all ok xs \<Longrightarrow> list_all ok (take n a)"
  using mset_eq_setD [of "take n a" xs] by (auto simp: list_all_iff)

context c_compare
begin

lemma enqueue_room:
  assumes "length a = array_size q" "pq_size q + 2 < array_size q" "parray q = a" "all_ok ok a (pq_size q)"
    and "heap_order cmp a (pq_size q)" "ok d"
  shows "\<exists>a'. (do { b \<leftarrow> arr_set a (pq_size q) d; trickle_up cmp (pq_size q) b }) = Some a'
    \<and> heap_order cmp a' (pq_size q + 1) \<and> mset (take (pq_size q + 1) a') = add_mset d (mset (take (pq_size q) a))
    \<and> length a' = length a"
proof -
  let ?n = "pq_size q" let ?b = "a[?n := d]"
  have par: "PARENT_OF i < ?n" if "0 < i" "i < ?n + 1" for i
    using PARENT_OF_less [OF that(1)] that(2) by simp
  have "up_inv cmp ?b (?n + 1) ?n"
  proof -
    have "cmp (?b ! PARENT_OF i) (?b ! i) \<le> 0" if "0 < i" "i < ?n + 1" "i \<noteq> ?n" for i
      using par [OF that(1,2)] assms(5) that by (simp add: heap_order_def)
    moreover have "PARENT_OF i \<noteq> ?n" if "0 < i" "i < ?n + 1" for i using par [OF that] by simp
    ultimately show ?thesis unfolding up_inv_def bypass_def by blast
  qed
  moreover have "all_ok ok ?b (?n + 1)" using assms by (auto simp: all_ok_def less_Suc_eq)
  ultimately obtain a' where "up_loop cmp ?b d ?n = Some a'" "heap_result cmp (?n + 1) ?b a'"
    using up_loop_heap [of ?b ?n d "?n + 1"] assms by auto
  moreover have "mset (take (?n + 1) ?b) = add_mset d (mset (take ?n a))"
    using assms by (simp add: take_Suc_conv_app_nth)
  ultimately show ?thesis using assms by (auto simp: arr_set_def trickle_up_def arr_get_def heap_result_def)
qed

lemma pqueue_enqueue_inv:
  assumes "pqueue_inv cmp ok q" "ok d"
  shows "\<exists>q'. pqueue_enqueue cmp null True d q = Some q' \<and> pqueue_inv cmp ok q'
    \<and> pqueue_elems q' = add_mset d (pqueue_elems q)"
proof -
  define r where "r = (if pq_size q + 2 \<ge> array_size q then pqueue_expand null q else q)"
  have n: "pq_size r = pq_size q" by (simp add: r_def pqueue_expand_def)
  have tk: "take (pq_size q) (parray r) = take (pq_size q) (parray q)"
    using assms(1) by (auto simp: r_def pqueue_expand_def pqueue_inv_def)
  have sz: "length (parray r) = array_size r" "pq_size r + 2 < array_size r"
    using assms(1) by (auto simp: r_def pqueue_expand_def pqueue_inv_def)
  have nth: "parray r ! i = parray q ! i" if "i < pq_size q" for i
    using that tk by (metis nth_take)
  have "heap_order cmp (parray r) (pq_size r)"
    using assms(1) heap_order_cong [OF nth] by (simp add: pqueue_inv_def n)
  moreover have "all_ok ok (parray r) (pq_size r)"
    using assms(1) tk n all_ok_take [of "pq_size q" "parray r" ok] sz by (simp add: pqueue_inv_def)
  ultimately obtain a' where a': "(do { b \<leftarrow> arr_set (parray r) (pq_size r) d; trickle_up cmp (pq_size r) b }) = Some a'"
    "heap_order cmp a' (pq_size r + 1)"
    "mset (take (pq_size r + 1) a') = add_mset d (mset (take (pq_size r) (parray r)))" "length a' = length (parray r)"
    using enqueue_room [of "parray r" r d] sz assms(2) by auto
  have "pqueue_enqueue cmp null True d q = Some (r\<lparr>parray := a', pq_size := pq_size r + 1\<rparr>)"
    unfolding pqueue_enqueue_def Let_def r_def [symmetric] using a'(1) by (auto split: bind_splits)
  moreover have "list_all ok (take (pq_size r + 1) a')"
    using mset_take_ok [of "pq_size r + 1" a' "d # take (pq_size r) (parray r)" ok] a'(3) assms tk n
    by (simp add: pqueue_inv_def)
  ultimately show ?thesis using a' sz n tk by (auto simp: pqueue_inv_def pqueue_elems_def)
qed

lemma pqueue_dequeue_inv:
  assumes "pqueue_inv cmp ok q" "pq_size q \<noteq> 0"
  shows "\<exists>d q'. pqueue_dequeue cmp q = Some (d, q') \<and> pqueue_inv cmp ok q'
    \<and> pqueue_elems q = add_mset d (pqueue_elems q') \<and> (\<forall>x\<in>#pqueue_elems q. cmp d x \<le> 0)"
proof -
  let ?a = "parray q" let ?n = "pq_size q - 1" let ?b = "?a[0 := ?a ! ?n]"
  have sz: "length ?a = array_size q" "pq_size q + 2 \<le> array_size q" "pq_size q = Suc ?n"
    and ok: "all_ok ok ?a (pq_size q)" and ho: "heap_order cmp ?a (pq_size q)"
    using assms all_ok_take [of "pq_size q" ?a ok] by (auto simp: pqueue_inv_def)
  have min: "cmp (?a ! 0) x \<le> 0" if "x \<in># pqueue_elems q" for x
    using heap_root [OF ho ok] that sz by (auto simp: pqueue_elems_def in_set_conv_nth)
  have rot: "mset (take (pq_size q) ?a) = add_mset (?a ! 0) (mset (take ?n ?b))"
  proof (cases ?n)
    case 0
    then show ?thesis using sz by (cases ?a) simp_all
  next
    case (Suc m)
    obtain x xs where a: "?a = x # xs" using sz by (cases ?a) auto
    have n: "pq_size q = Suc (Suc m)" using sz(3) Suc by simp
    show ?thesis unfolding Suc unfolding n unfolding a using sz(1,2) n a by (simp add: take_Suc_conv_app_nth)
  qed
  have "\<exists>a'. trickle_down cmp 0 ?n ?b = Some a' \<and> heap_result cmp ?n ?b a'"
  proof (cases "?n = 0")
    case True
    then show ?thesis using sz
      by (auto simp: trickle_down_def arr_get_def arr_set_def down_loop.simps HAVE_CHILD_def heap_result_def heap_order_def)
  next
    case False
    have "down_inv cmp ?b ?n 0"
      using ho sz by (auto simp: down_inv_def bypass_def heap_order_def)
    moreover have "all_ok ok ?b ?n" using ok sz by (auto simp: all_ok_def nth_list_update)
    ultimately show ?thesis using down_loop_heap [of ?b 0 "?b ! 0" ?n] False sz
      by (auto simp: trickle_down_def arr_get_def)
  qed
  then obtain a' where a': "trickle_down cmp 0 ?n ?b = Some a'" "heap_result cmp ?n ?b a'" by blast
  have "pqueue_dequeue cmp q = Some (?a ! 0, q\<lparr>parray := a', pq_size := ?n\<rparr>)"
    using assms(2) sz a'(1) by (auto simp: pqueue_dequeue_def arr_get_def arr_set_def)
  moreover have "list_all ok (take ?n ?b)"
    using ok sz all_ok_take [of ?n ?b ok] by (auto simp: all_ok_def nth_list_update)
  then have "list_all ok (take ?n a')" using mset_take_ok [of ?n a' "take ?n ?b" ok] a'(2) by (simp add: heap_result_def)
  ultimately show ?thesis using a'(2) sz rot min by (auto simp: heap_result_def pqueue_inv_def pqueue_elems_def)
qed

end


section \<open>The contract of a priority queue\<close>

text \<open>A client that feeds the queue and then takes \<open>n\<close> elements out.\<close>

fun feed :: "('a \<Rightarrow> 'q \<Rightarrow> 'q option) \<Rightarrow> 'a list \<Rightarrow> 'q \<Rightarrow> 'q option" where
  "feed enq [] q = Some q"
| "feed enq (d # ds) q = enq d q \<bind> feed enq ds"

fun drain :: "('q \<Rightarrow> ('a \<times> 'q) option) \<Rightarrow> nat \<Rightarrow> 'q \<Rightarrow> 'a list option" where
  "drain deq 0 q = Some []"
| "drain deq (Suc n) q = deq q \<bind> (\<lambda>(d, q'). map_option ((#) d) (drain deq n q'))"

locale priority_queue = c_compare +
  fixes inv :: "'q \<Rightarrow> bool"
    and elems :: "'q \<Rightarrow> 'a multiset"
    and enq :: "'a \<Rightarrow> 'q \<Rightarrow> 'q option"
    and deq :: "'q \<Rightarrow> ('a \<times> 'q) option"
  assumes enq_ok: "inv q \<Longrightarrow> ok d \<Longrightarrow> \<exists>q'. enq d q = Some q' \<and> inv q' \<and> elems q' = add_mset d (elems q)"
    and deq_ok: "inv q \<Longrightarrow> elems q \<noteq> {#} \<Longrightarrow>
      \<exists>d q'. deq q = Some (d, q') \<and> inv q' \<and> elems q = add_mset d (elems q') \<and> (\<forall>x\<in>#elems q. cmp d x \<le> 0)"
begin

lemma feed_ok:
  "inv q \<Longrightarrow> list_all ok ds \<Longrightarrow> \<exists>q'. feed enq ds q = Some q' \<and> inv q' \<and> elems q' = mset ds + elems q"
proof (induction ds arbitrary: q)
  case (Cons d ds)
  then obtain q1 where "enq d q = Some q1" "inv q1" "elems q1 = add_mset d (elems q)" using enq_ok [of q d] by auto
  then show ?case using Cons.IH [of q1] Cons.prems by auto
qed simp

lemma drain_ok:
  "inv q \<Longrightarrow> size (elems q) = n \<Longrightarrow>
   \<exists>ds. drain deq n q = Some ds \<and> mset ds = elems q \<and> sorted_wrt (\<lambda>a b. cmp a b \<le> 0) ds"
proof (induction n arbitrary: q)
  case (Suc n)
  then have "elems q \<noteq> {#}" by auto
  then obtain d q' where d: "deq q = Some (d, q')" "inv q'" "elems q = add_mset d (elems q')"
    "\<forall>x\<in>#elems q. cmp d x \<le> 0" using deq_ok [OF Suc.prems(1)] by blast
  moreover have "size (elems q') = n" using Suc.prems(2) d(3) by simp
  ultimately obtain ds where ds: "drain deq n q' = Some ds" "mset ds = elems q'" "sorted_wrt (\<lambda>a b. cmp a b \<le> 0) ds"
    using Suc.IH by blast
  moreover have "\<forall>x\<in>set ds. cmp d x \<le> 0" using ds(2) d(3,4) by (metis set_mset_mset set_mset_add_mset_insert insertCI)
  ultimately show ?case using d by simp
qed simp

end

section \<open>The candidate list of \<open>ospf6_spf_calculation\<close>\<close>

text \<open>The comparison subtracts two \<open>u_int32_t\<close> costs and returns the difference as an \<open>int\<close>.\<close>

definition ospf6_vertex_cmp :: "u32 \<times> 'v \<Rightarrow> u32 \<times> 'v \<Rightarrow> int" where
  "ospf6_vertex_cmp va vb = sint (fst va - fst vb)"

definition cost_ok :: "u32 \<times> 'v \<Rightarrow> bool" where
  "cost_ok v \<longleftrightarrow> unat (fst v) < 2 ^ 31"

lemma sint_u32_of_int:
  assumes "w = word_of_int k" "- 2147483648 \<le> k" "k < 2147483648"
  shows "sint (w :: u32) = k"
  using sint_sbintrunc' [where 'a = 32, of k] signed_take_bit_int_eq_self [of 31 k] assms by simp

lemma uint_unat_less: "unat (a :: u32) < n \<longleftrightarrow> uint a < int n"
  by (metis of_nat_less_iff uint_nat)

lemma sint_diff_small:
  assumes "unat a < 2 ^ 31" "unat b < 2 ^ 31"
  shows "sint (a - b :: u32) = uint a - uint b"
proof -
  have "uint a < 2147483648" "uint b < 2147483648"
    using assms uint_unat_less [of a "2 ^ 31"] uint_unat_less [of b "2 ^ 31"] by simp_all
  then show ?thesis using uint_ge_0 [of a] uint_ge_0 [of b]
    by (intro sint_u32_of_int) (simp, linarith, linarith)
qed

interpretation vertex: c_compare ospf6_vertex_cmp cost_ok
  by unfold_locales (auto simp: ospf6_vertex_cmp_def cost_ok_def sint_diff_small)

lemma elems_empty: "pqueue_inv cmp ok q \<Longrightarrow> pqueue_elems q = {#} \<longleftrightarrow> pq_size q = 0"
  by (auto simp: pqueue_elems_def pqueue_inv_def)

interpretation spf: priority_queue ospf6_vertex_cmp cost_ok "pqueue_inv ospf6_vertex_cmp cost_ok" pqueue_elems
  "pqueue_enqueue ospf6_vertex_cmp null True" "pqueue_dequeue ospf6_vertex_cmp" for null :: "u32 \<times> 'v"
proof
  fix q :: "(u32 \<times> 'v) pqueue" and d
  assume q: "pqueue_inv ospf6_vertex_cmp cost_ok q"
  show "\<exists>q'. pqueue_enqueue ospf6_vertex_cmp null True d q = Some q' \<and> pqueue_inv ospf6_vertex_cmp cost_ok q'
    \<and> pqueue_elems q' = add_mset d (pqueue_elems q)" if "cost_ok d"
    by (rule vertex.pqueue_enqueue_inv [OF q that])
  show "\<exists>d q'. pqueue_dequeue ospf6_vertex_cmp q = Some (d, q') \<and> pqueue_inv ospf6_vertex_cmp cost_ok q'
    \<and> pqueue_elems q = add_mset d (pqueue_elems q') \<and> (\<forall>x\<in>#pqueue_elems q. ospf6_vertex_cmp d x \<le> 0)"
    if "pqueue_elems q \<noteq> {#}"
    using vertex.pqueue_dequeue_inv [OF q] elems_empty [OF q] that by blast
qed

section \<open>Correctness\<close>

lemma pqueue_create_inv: "pqueue_inv cmp ok (pqueue_create null)" "pqueue_elems (pqueue_create null) = {#}"
  by (simp_all add: pqueue_create_def pqueue_inv_def pqueue_elems_def PQUEUE_INIT_ARRAYSIZE_def heap_order_def)

text \<open>C16: The heap is a priority queue.  For every comparison that is a total preorder on the elements in use,
  \<open>pqueue_enqueue\<close> (with memory for the array) adds exactly the element, \<open>pqueue_dequeue\<close> of a queue that is
  not empty removes and returns an element that none precedes, both without leaving the array, and
  both keep the heap order and the spare room of the array.\<close>

theorem pqueue_operations_correct:
  assumes "c_compare cmp ok" "pqueue_inv cmp ok q"
  shows "(ok d \<longrightarrow> (\<exists>q'. pqueue_enqueue cmp null True d q = Some q' \<and> pqueue_inv cmp ok q'
      \<and> pqueue_elems q' = add_mset d (pqueue_elems q)))
    \<and> (pq_size q \<noteq> 0 \<longrightarrow> (\<exists>d q'. pqueue_dequeue cmp q = Some (d, q') \<and> pqueue_inv cmp ok q'
      \<and> pqueue_elems q = add_mset d (pqueue_elems q') \<and> (\<forall>x\<in>#pqueue_elems q. cmp d x \<le> 0)))"
  using c_compare.pqueue_enqueue_inv [OF assms(1,2)] c_compare.pqueue_dequeue_inv [OF assms(1,2)] by simp

theorem pqueue_operations_correct_witness:
  "\<exists>q'. pqueue_enqueue ospf6_vertex_cmp (0, ()) True (7, ()) (pqueue_create (0, ())) = Some q'
     \<and> pqueue_elems q' = {#(7, ())#}"
  using pqueue_operations_correct [OF vertex.c_compare_axioms pqueue_create_inv(1), of "(7, ())" "(0, ())" "(0, ())"]
  by (auto simp: cost_ok_def pqueue_create_inv)

text \<open>The candidate list of the OSPFv3 shortest path calculation yields vertices in ascending cost.  Vertices
  with costs below \<open>2 ^ 31\<close> put into a new queue come out completely and sorted by cost.\<close>

theorem ospf6_candidates_ascending:
  assumes "list_all cost_ok vs"
  shows "\<exists>q ds. feed (pqueue_enqueue ospf6_vertex_cmp null True) vs (pqueue_create null) = Some q
    \<and> drain (pqueue_dequeue ospf6_vertex_cmp) (length vs) q = Some ds
    \<and> mset ds = mset vs \<and> sorted (map fst ds)"
proof -
  obtain q where q: "feed (pqueue_enqueue ospf6_vertex_cmp null True) vs (pqueue_create null) = Some q"
    "pqueue_inv ospf6_vertex_cmp cost_ok q" "pqueue_elems q = mset vs"
    using spf.feed_ok [OF pqueue_create_inv(1) [of _ _ null] assms, of null] pqueue_create_inv(2) [of null] by auto
  then obtain ds where ds: "drain (pqueue_dequeue ospf6_vertex_cmp) (length vs) q = Some ds" "mset ds = mset vs"
    "sorted_wrt (\<lambda>a b. ospf6_vertex_cmp a b \<le> 0) ds"
    using spf.drain_ok [OF q(2), of "length vs"] by auto
  have "list_all cost_ok ds" using assms mset_eq_setD [OF ds(2)] by (simp add: list_all_iff)
  then have "sorted (map fst ds)" unfolding sorted_wrt_map
    by (intro sorted_wrt_mono_rel [OF _ ds(3)])
      (auto simp: list_all_iff ospf6_vertex_cmp_def cost_ok_def sint_diff_small word_le_def)
  then show ?thesis using q ds by blast
qed

theorem ospf6_candidates_ascending_witness:
  "\<exists>q ds. feed (pqueue_enqueue ospf6_vertex_cmp (0, ''null'') True) [(20, ''b''), (10, ''a'')] (pqueue_create (0, ''null'')) = Some q
     \<and> drain (pqueue_dequeue ospf6_vertex_cmp) (length [(20 :: u32, ''b''), (10, ''a'')]) q = Some ds
     \<and> mset ds = mset [(20, ''b''), (10, ''a'')] \<and> sorted (map fst ds)"
  by (rule ospf6_candidates_ascending) (simp add: cost_ok_def)

text \<open>The subtraction in \<open>ospf6_vertex_cmp\<close> is not an order on all costs: a vertex whose cost is larger by
  more than \<open>2 ^ 31\<close> compares as smaller.\<close>

theorem ospf6_vertex_cmp_wraps:
  assumes "unat (fst va) + 2 ^ 31 < unat (fst vb)"
  shows "fst va < fst vb \<and> ospf6_vertex_cmp vb va < 0"
proof -
  have "unat (fst va) + 2147483648 < unat (fst vb)" using assms by simp
  then have "int (unat (fst va)) + 2147483648 < int (unat (fst vb))" by linarith
  then have d: "uint (fst va) + 2147483648 < uint (fst vb)" by simp
  have m: "uint (fst vb) < 4294967296" using uint_lt2p [of "fst vb"] by simp
  have "sint (fst vb - fst va) = uint (fst vb) - uint (fst va) - 4294967296"
    using d m uint_ge_0 [of "fst va"] by (intro sint_u32_of_int) (simp, linarith, linarith)
  moreover have "fst va < fst vb" using d by (simp add: word_less_def)
  ultimately show ?thesis using m uint_ge_0 [of "fst va"] unfolding ospf6_vertex_cmp_def by linarith
qed

theorem ospf6_vertex_cmp_wraps_witness:
  "ospf6_vertex_cmp (0xffffffff, ()) (1, ()) < 0"
  using ospf6_vertex_cmp_wraps [of "(1, ())" "(0xffffffff, ())"] by simp

end
