(* ===== verification/Bgp_Community.thy ===== *)
theory Bgp_Community
  imports Lib_Hash
begin

text \<open>
  The BGP communities attribute, \<open>bgpd/bgp_community.c\<close>.  The value array is the list of its 32-bit
  values in host order (the code stores them in network order and compares bytes, which is equality
  of values); a null \<open>val\<close> is the empty list.  Interned communities are addresses in a store, entered
  in the hash table of \<open>Lib_Hash\<close> through their value.
\<close>

section \<open>Definitions\<close>

record community =
  refcnt :: ulong
  cval :: "u32 list"
  cstr :: "string option"

definition community_new :: community where
  "community_new = \<lparr>refcnt = 0, cval = [], cstr = None\<rparr>"

definition COMMUNITY_INTERNET :: u32 where "COMMUNITY_INTERNET = 0"
definition COMMUNITY_NO_EXPORT :: u32 where "COMMUNITY_NO_EXPORT = 0xFFFFFF01"
definition COMMUNITY_NO_ADVERTISE :: u32 where "COMMUNITY_NO_ADVERTISE = 0xFFFFFF02"
definition COMMUNITY_LOCAL_AS :: u32 where "COMMUNITY_LOCAL_AS = 0xFFFFFF03"

definition community_add_val :: "community \<Rightarrow> u32 \<Rightarrow> community" where
  "community_add_val com v = com\<lparr>cval := cval com @ [v]\<rparr>"

text \<open>\<open>community_del_val\<close> moves \<open>c * sizeof (val)\<close> bytes, where \<open>val\<close> is a pointer: \<open>psz\<close> is the size of a
  pointer in units of four bytes.  A copy that leaves the array is \<^term>\<open>None\<close>.\<close>

fun del_loop :: "nat \<Rightarrow> u32 list \<Rightarrow> u32 \<Rightarrow> nat \<Rightarrow> nat \<Rightarrow> u32 list option" where
  "del_loop psz vs v i 0 = Some vs"
| "del_loop psz vs v i (Suc n) =
     (if vs ! i = v
      then (let c = n in
            if c = 0 then Some (take (length vs - 1) vs)
            else if i + 1 + c * psz \<le> length vs
            then Some (take (length vs - 1) (take i vs @ take (c * psz) (drop (i + 1) vs) @ drop (i + c * psz) vs))
            else None)
      else del_loop psz vs v (i + 1) n)"

definition community_del_val :: "nat \<Rightarrow> community \<Rightarrow> u32 \<Rightarrow> community option" where
  "community_del_val psz com v =
     map_option (\<lambda>vs. com\<lparr>cval := vs\<rparr>) (del_loop psz (cval com) v 0 (length (cval com)))"

fun community_delete :: "nat \<Rightarrow> community \<Rightarrow> u32 list \<Rightarrow> community option" where
  "community_delete psz com1 [] = Some com1"
| "community_delete psz com1 (v # vs) = do {
     com1 \<leftarrow> community_del_val psz com1 v;
     community_delete psz com1 vs
   }"

definition community_compare :: "u32 \<Rightarrow> u32 \<Rightarrow> int" where
  "community_compare v1 v2 = (if v1 < v2 then - 1 else if v1 > v2 then 1 else 0)"

definition community_include :: "community \<Rightarrow> u32 \<Rightarrow> bool" where
  "community_include com v \<longleftrightarrow> v \<in> set (cval com)"

definition community_val_get :: "community \<Rightarrow> nat \<Rightarrow> u32 option" where
  "community_val_get com i = (if i < length (cval com) then Some (cval com ! i) else None)"

fun uniq_loop :: "community \<Rightarrow> u32 list \<Rightarrow> community" where
  "uniq_loop new [] = new"
| "uniq_loop new (v # vs) = uniq_loop (if community_include new v then new else community_add_val new v) vs"

text \<open>\<open>qsort\<close> with \<open>community_compare\<close> is the sort of the values.\<close>

definition community_uniq_sort :: "community \<Rightarrow> community" where
  "community_uniq_sort com = (let new = uniq_loop community_new (cval com) in new\<lparr>cval := sort (cval new)\<rparr>)"

subsection \<open>Text\<close>

definition com_text :: "u32 \<Rightarrow> string" where
  "com_text v =
     (if v = COMMUNITY_INTERNET then ''internet''
      else if v = COMMUNITY_NO_EXPORT then ''no-export''
      else if v = COMMUNITY_NO_ADVERTISE then ''no-advertise''
      else if v = COMMUNITY_LOCAL_AS then ''local-AS''
      else dec_str (unat (drop_bit 16 v AND 0xFFFF)) @ '':'' @ dec_str (unat (v AND 0xFFFF)))"

definition com_text_len :: "u32 \<Rightarrow> nat" where
  "com_text_len v =
     (if v = COMMUNITY_INTERNET then length '' internet''
      else if v = COMMUNITY_NO_EXPORT then length '' no-export''
      else if v = COMMUNITY_NO_ADVERTISE then length '' no-advertise''
      else if v = COMMUNITY_LOCAL_AS then length '' local-AS''
      else length '' 65536:65535'')"

text \<open>The size \<open>community_com2str\<close> allocates.\<close>

definition com2str_alloc :: "community \<Rightarrow> nat" where
  "com2str_alloc com = (if cval com = [] then 1 else sum_list (map com_text_len (cval com)))"

fun fill_text :: "bool \<Rightarrow> u32 list \<Rightarrow> string" where
  "fill_text first [] = []"
| "fill_text first (v # vs) = (if first then [] else '' '') @ com_text v @ fill_text False vs"

definition community_com2str :: "community \<Rightarrow> string" where
  "community_com2str com = fill_text True (cval com)"

datatype community_token =
  community_token_val | community_token_no_export | community_token_no_advertise
  | community_token_local_as | community_token_unknown

definition is_alpha :: "char \<Rightarrow> bool" where
  "is_alpha c \<longleftrightarrow> (of_char c :: nat) \<in> {65..90} \<union> {97..122}"

text \<open>The digit loop of \<open>community_gettoken\<close>: the rest of the text and the value, \<^term>\<open>None\<close> for an unknown token.\<close>

fun val_loop :: "string \<Rightarrow> bool \<Rightarrow> bool \<Rightarrow> u32 \<Rightarrow> u32 \<Rightarrow> string \<times> u32 option" where
  "val_loop [] separator digit low high = ([], if digit then Some (high + low) else None)"
| "val_loop (c # p) separator digit low high =
     (if c = CHR '':''
      then (if separator then (c # p, None) else val_loop p True False 0 (push_bit 16 low))
      else if is_digit c then val_loop p separator True (low * 10 + of_nat (digit_val c)) high
      else (c # p, if digit then Some (high + low) else None))"

text \<open>The token at a position that is not white space.\<close>

definition token_at :: "string \<Rightarrow> string \<times> community_token \<times> u32" where
  "token_at p =
     (if is_alpha (hd p)
      then (if take 8 p = ''internet'' then (drop 8 p, community_token_no_export, COMMUNITY_INTERNET)
            else if take 9 p = ''no-export'' then (drop 9 p, community_token_no_export, COMMUNITY_NO_EXPORT)
            else if take 12 p = ''no-advertise''
            then (drop 12 p, community_token_no_advertise, COMMUNITY_NO_ADVERTISE)
            else if take 8 p = ''local-AS'' then (drop 8 p, community_token_local_as, COMMUNITY_LOCAL_AS)
            else (p, community_token_unknown, 0))
      else if is_digit (hd p)
      then (case val_loop p False False 0 0 of
              (q, Some v) \<Rightarrow> (q, community_token_val, v)
            | (q, None) \<Rightarrow> (q, community_token_unknown, 0))
      else (p, community_token_unknown, 0))"

definition community_gettoken :: "string \<Rightarrow> (string \<times> community_token \<times> u32) option" where
  "community_gettoken buf =
     (case dropWhile is_space buf of [] \<Rightarrow> None | c # cs \<Rightarrow> Some (token_at (c # cs)))"

lemma val_loop_length: "length (fst (val_loop p sep dig low high)) \<le> length p"
  by (induction p sep dig low high rule: val_loop.induct) (auto intro: le_SucI)

lemma val_loop_shorter: "p \<noteq> [] \<Longrightarrow> is_digit (hd p) \<Longrightarrow> length (fst (val_loop p sep dig low high)) < length p"
  using val_loop_length
  by (cases p) (auto simp: less_Suc_eq_le is_digit_def)

lemma gettoken_shorter:
  assumes "community_gettoken buf = Some (rest, token, v)" "token \<noteq> community_token_unknown"
  shows "length rest < length buf"
proof -
  from assms(1) obtain c cs where p: "dropWhile is_space buf = c # cs" "token_at (c # cs) = (rest, token, v)"
    by (auto simp: community_gettoken_def split: list.splits)
  have "length (c # cs) \<le> length buf" using length_dropWhile_le [of is_space buf] p(1) by simp
  moreover have "length rest < length (c # cs)"
    using p(2) assms(2) val_loop_shorter [of "c # cs" False False 0 0]
    by (auto simp: token_at_def split: if_splits prod.splits option.splits simp del: val_loop.simps)
  ultimately show ?thesis by simp
qed

text \<open>The loop of \<open>community_str2com\<close>; \<open>com\<close> is \<^term>\<open>None\<close> until the first value.\<close>

function str2com_loop :: "string \<Rightarrow> community option \<Rightarrow> community option" where
  "str2com_loop str com =
     (case community_gettoken str of
        None \<Rightarrow> com
      | Some (rest, token, v) \<Rightarrow>
          if token = community_token_unknown then None
          else str2com_loop rest (Some (community_add_val (case com of None \<Rightarrow> community_new | Some c \<Rightarrow> c) v)))"
  by auto
termination
  by (relation "measure (\<lambda>(str, com). length str)") (auto intro: gettoken_shorter)

declare str2com_loop.simps [simp del]

definition community_str2com :: "string \<Rightarrow> community option" where
  "community_str2com str = map_option community_uniq_sort (str2com_loop str None)"

subsection \<open>Comparison\<close>

definition community_hash_make :: "community \<Rightarrow> u32" where
  "community_hash_make com = sum_list (map ucast (concat (map be32 (cval com))))"

fun match_loop :: "u32 list \<Rightarrow> u32 list \<Rightarrow> bool" where
  "match_loop vs [] = True"
| "match_loop [] (w # ws) = False"
| "match_loop (v # vs) (w # ws) = match_loop vs (if v = w then ws else w # ws)"

definition community_match :: "community option \<Rightarrow> community option \<Rightarrow> bool" where
  "community_match com1 com2 =
     (case (com1, com2) of
        (None, None) \<Rightarrow> True
      | (Some c1, Some c2) \<Rightarrow> \<not> length (cval c1) < length (cval c2) \<and> match_loop (cval c1) (cval c2)
      | _ \<Rightarrow> False)"

definition community_cmp :: "community option \<Rightarrow> community option \<Rightarrow> bool" where
  "community_cmp com1 com2 =
     (case (com1, com2) of
        (None, None) \<Rightarrow> True
      | (Some c1, Some c2) \<Rightarrow> length (cval c1) = length (cval c2) \<and> cval c1 = cval c2
      | _ \<Rightarrow> False)"

definition community_merge :: "community \<Rightarrow> community \<Rightarrow> community" where
  "community_merge com1 com2 = com1\<lparr>cval := cval com1 @ cval com2\<rparr>"

definition community_dup :: "community \<Rightarrow> community" where
  "community_dup com = \<lparr>refcnt = 0, cval = cval com, cstr = None\<rparr>"

subsection \<open>Interning\<close>

record comm_state =
  cstore :: "nat \<Rightarrow> community option"
  comhash :: "nat hash_t"

definition com_key :: "(nat \<Rightarrow> community option) \<Rightarrow> nat \<Rightarrow> u32" where
  "com_key st a = (case st a of None \<Rightarrow> 0 | Some c \<Rightarrow> community_hash_make c)"

definition com_eq :: "(nat \<Rightarrow> community option) \<Rightarrow> nat \<Rightarrow> nat \<Rightarrow> bool" where
  "com_eq st a b = community_cmp (st a) (st b)"

definition community_init :: comm_state where
  "community_init = \<lparr>cstore = (\<lambda>_. None), comhash = hash_create\<rparr>"

text \<open>A failed assertion is \<^term>\<open>None\<close>.\<close>

definition community_intern :: "comm_state \<Rightarrow> nat \<Rightarrow> (nat \<times> comm_state) option" where
  "community_intern s a = do {
     com \<leftarrow> cstore s a;
     if refcnt com \<noteq> 0 then None
     else do {
       (r, h) \<leftarrow> hash_get (com_key (cstore s)) (com_eq (cstore s)) (comhash s) a (Some hash_alloc_intern);
       find \<leftarrow> r;
       let st = (if find \<noteq> a then (cstore s)(a := None) else cstore s);
       c \<leftarrow> st find;
       let c = c\<lparr>refcnt := refcnt c + 1,
                 cstr := (case cstr c of None \<Rightarrow> Some (community_com2str c) | Some t \<Rightarrow> Some t)\<rparr>;
       Some (find, s\<lparr>cstore := st(find \<mapsto> c), comhash := h\<rparr>)
     }
   }"

definition community_unintern :: "comm_state \<Rightarrow> nat \<Rightarrow> comm_state option" where
  "community_unintern s a = do {
     com \<leftarrow> cstore s a;
     let com = (if refcnt com \<noteq> 0 then com\<lparr>refcnt := refcnt com - 1\<rparr> else com);
     let st = (cstore s)(a \<mapsto> com);
     if refcnt com = 0
     then do {
       (ret, h) \<leftarrow> hash_release (com_key st) (com_eq st) (comhash s) a;
       _ \<leftarrow> ret;
       Some (s\<lparr>cstore := st(a := None), comhash := h\<rparr>)
     }
     else Some (s\<lparr>cstore := st\<rparr>)
   }"

text \<open>\<open>community_parse\<close>: \<open>vs\<close> are the values in the attribute when its length is a multiple of four, \<open>a\<close> the
  address the new community gets.\<close>

definition community_parse :: "comm_state \<Rightarrow> u32 list \<Rightarrow> u16 \<Rightarrow> nat \<Rightarrow> (nat option \<times> comm_state) option" where
  "community_parse s vs len a =
     (if len mod 4 \<noteq> 0 then Some (None, s)
      else map_option (apfst Some)
        (community_intern (s\<lparr>cstore := (cstore s)(a \<mapsto> community_uniq_sort (community_new\<lparr>cval := take (unat (len div 4)) vs\<rparr>))\<rparr>) a))"


section \<open>Canonical form and matching\<close>

interpretation community_order: c_compare community_compare "\<lambda>_. True"
  by unfold_locales (auto simp: community_compare_def split: if_splits)

lemma uniq_loop_cval:
  "distinct (cval new) \<Longrightarrow>
   distinct (cval (uniq_loop new vs)) \<and> set (cval (uniq_loop new vs)) = set (cval new) \<union> set vs
   \<and> refcnt (uniq_loop new vs) = refcnt new \<and> cstr (uniq_loop new vs) = cstr new"
  by (induction vs arbitrary: new) (auto simp: community_include_def community_add_val_def)

lemma uniq_sort_cval:
  "distinct (cval (community_uniq_sort com))" "sorted (cval (community_uniq_sort com))"
  "set (cval (community_uniq_sort com)) = set (cval com)" "refcnt (community_uniq_sort com) = 0"
  "cstr (community_uniq_sort com) = None"
  using uniq_loop_cval [of community_new "cval com"]
  by (simp_all add: community_uniq_sort_def Let_def community_new_def)

lemma sorted_distinct_eq:
  "sorted xs \<Longrightarrow> distinct xs \<Longrightarrow> sorted ys \<Longrightarrow> distinct ys \<Longrightarrow> set xs = set ys \<Longrightarrow> xs = (ys :: u32 list)"
  by (rule sorted_distinct_set_unique)

text \<open>\<open>community_uniq_sort\<close> is a canonical form: the result has no duplicates, is ascending in
  \<open>community_compare\<close> and has exactly the given values, and two attributes have equal canonical forms
  under \<open>community_cmp\<close> exactly when they have the same set of values.\<close>

theorem community_uniq_sort_canonical:
  "distinct (cval (community_uniq_sort com))
   \<and> sorted_wrt (\<lambda>a b. community_compare a b < 0) (cval (community_uniq_sort com))
   \<and> set (cval (community_uniq_sort com)) = set (cval com)
   \<and> (community_cmp (Some (community_uniq_sort com)) (Some (community_uniq_sort com')) \<longleftrightarrow> set (cval com) = set (cval com'))"
proof -
  have "sorted_wrt (<) (cval (community_uniq_sort com))"
    using uniq_sort_cval(1,2) [of com] by (simp add: strict_sorted_iff)
  then have "sorted_wrt (\<lambda>a b. community_compare a b < 0) (cval (community_uniq_sort com))"
    by (rule sorted_wrt_mono_rel [rotated]) (simp add: community_compare_def)
  moreover have "cval (community_uniq_sort com) = cval (community_uniq_sort com') \<longleftrightarrow> set (cval com) = set (cval com')"
    using sorted_distinct_eq uniq_sort_cval by metis
  ultimately show ?thesis using uniq_sort_cval(1,3) [of com] by (auto simp: community_cmp_def)
qed

lemma match_loop_subset: "match_loop vs ws \<Longrightarrow> set ws \<subseteq> set vs"
  by (induction vs ws rule: match_loop.induct) (auto split: if_splits)

lemma match_loop_sorted:
  "sorted vs \<Longrightarrow> distinct vs \<Longrightarrow> sorted ws \<Longrightarrow> distinct ws \<Longrightarrow> set ws \<subseteq> set vs \<Longrightarrow> match_loop vs ws"
proof (induction vs ws rule: match_loop.induct)
  case (3 v vs w ws)
  show ?case
  proof (cases "v = w")
    case True
    then have "set ws \<subseteq> set vs" using 3(3,5,6) by auto
    then show ?thesis using 3 True by simp
  next
    case False
    then have "w \<in> set vs" using 3(6) by auto
    then have "v < w" using 3(2) False by (auto simp: less_le)
    then have "v \<notin> set (w # ws)" using 3(4) by auto
    then have "set (w # ws) \<subseteq> set vs" using 3(6) by auto
    then show ?thesis using 3 False by simp
  qed
qed auto

text \<open>Matching against a community list entry.  On attributes in canonical form, which every parsed or
  interned one is, \<open>community_match\<close> is true exactly when every community of the second occurs in the first.\<close>

theorem community_match_subset:
  assumes "sorted (cval c1)" "distinct (cval c1)" "sorted (cval c2)" "distinct (cval c2)"
  shows "community_match (Some c1) (Some c2) \<longleftrightarrow> set (cval c2) \<subseteq> set (cval c1)"
proof -
  have "length (cval c2) \<le> length (cval c1)" if "set (cval c2) \<subseteq> set (cval c1)"
    using card_mono [OF _ that] assms by (simp add: distinct_card)
  then show ?thesis
    using match_loop_subset [of "cval c1" "cval c2"] match_loop_sorted [OF assms] by (auto simp: community_match_def)
qed

theorem community_match_subset_witness:
  "community_match (Some (community_new\<lparr>cval := [1, 5, 9]\<rparr>)) (Some (community_new\<lparr>cval := [5, 9]\<rparr>))"
  using community_match_subset [of "community_new\<lparr>cval := [1, 5, 9]\<rparr>" "community_new\<lparr>cval := [5, 9]\<rparr>"] by simp

section \<open>Deletion\<close>

lemma del_loop_miss: "i + n = length vs \<Longrightarrow> v \<notin> set vs \<Longrightarrow> del_loop psz vs v i n = Some vs"
proof (induction n arbitrary: i)
  case (Suc n)
  then have "vs ! i \<noteq> v" by (metis add_Suc_right less_add_Suc1 nth_mem)
  then show ?case using Suc by simp
qed simp

lemma del_loop_hit:
  "\<lbrakk>vs = xs @ v # ys; v \<notin> set xs; i \<le> length xs; i + n = length vs\<rbrakk> \<Longrightarrow>
   del_loop psz vs v i n =
     (if ys = [] then Some xs
      else if length ys * psz \<le> length ys
      then Some (take (length xs + length ys) (xs @ take (length ys * psz) ys @ drop (length xs + length ys * psz) vs))
      else None)"
proof (induction n arbitrary: i)
  case (Suc n)
  show ?case
  proof (cases "i = length xs")
    case True
    then have "n = length ys" using Suc.prems by simp
    then show ?thesis using True Suc.prems(1) by (simp add: Let_def)
  next
    case False
    then have "i < length xs" using Suc.prems by simp
    then have "vs ! i \<noteq> v" using Suc.prems(1,2) by (metis nth_append nth_mem)
    then show ?thesis using Suc False by simp
  qed
qed simp

text \<open>Deleting a community.  With four-byte pointers \<open>community_del_val\<close> removes the first occurrence of the
  value.  With eight-byte pointers, \<open>c * sizeof (val)\<close> is twice the bytes that follow the value, and deleting a
  value that is present and whose first occurrence is not the last element copies from behind the array.\<close>

theorem community_del_val_pointer_size:
  assumes "cval com = xs @ v # ys" "v \<notin> set xs"
  shows "community_del_val 1 com v = Some (com\<lparr>cval := xs @ ys\<rparr>)
    \<and> community_del_val 2 com v = (if ys = [] then Some (com\<lparr>cval := xs\<rparr>) else None)"
  using del_loop_hit [OF assms, of 0 "length (cval com)"] assms(1) by (auto simp: community_del_val_def)

theorem community_del_val_pointer_size_witness:
  "community_del_val 2 (community_new\<lparr>cval := [10, 20]\<rparr>) 10 = None"
  using community_del_val_pointer_size [of "community_new\<lparr>cval := [10, 20]\<rparr>" "[]" 10 "[20]"] by simp

section \<open>Text\<close>

lemma val_loop_digits:
  "\<forall>c\<in>set ds. is_digit c \<Longrightarrow>
   val_loop (ds @ r) sep dig low high
   = val_loop r sep (dig \<or> ds \<noteq> []) (foldl (\<lambda>a c. a * 10 + of_nat (digit_val c)) low ds) high"
proof (induction ds arbitrary: dig low)
  case (Cons c ds)
  then have "is_digit c" "c \<noteq> CHR '':''" by (auto simp: is_digit_def)
  then show ?case using Cons by simp
qed simp

lemma foldl_digits:
  "foldl (\<lambda>a c. a * 10 + of_nat (digit_val c)) (of_nat n) ds
   = (of_nat (foldl (\<lambda>acc c. 10 * acc + digit_val c) n ds) :: u32)"
proof (induction ds arbitrary: n)
  case (Cons c ds)
  have "of_nat n * 10 + of_nat (digit_val c) = (of_nat (10 * n + digit_val c) :: u32)" by (simp add: mult.commute)
  then show ?case unfolding foldl_Cons using Cons [of "10 * n + digit_val c"] by (simp only:)
qed simp

lemma val_loop_dec:
  "val_loop (dec_str n @ r) sep dig 0 high = val_loop r sep True (of_nat n) high"
  using val_loop_digits [OF dec_str_digits, of n r sep dig 0 high] foldl_digits [of 0 "dec_str n"]
    digits_val_dec_str [of n] dec_str_nonempty [of n] by (simp add: digits_val_def)

lemma low_half: "v AND 0xFFFF = take_bit 16 (v :: u32)"
proof -
  have "(0xFFFF :: u32) = mask 16" by (simp add: mask_eq_exp_minus_1)
  then show ?thesis by (simp only: take_bit_eq_mask)
qed

lemma high_half: "drop_bit 16 v AND 0xFFFF = drop_bit 16 (v :: u32)"
  unfolding low_half by (rule bit_word_eqI) (auto simp: bit_simps dest: bit_imp_le_length)

lemma high_low: "push_bit 16 (drop_bit 16 v) + take_bit 16 v = (v :: u32)"
  by (rule bits_ident)

lemma val_text_parse:
  assumes "r = [] \<or> hd r = CHR '' ''"
  shows "val_loop (dec_str (unat (drop_bit 16 v AND 0xFFFF)) @ '':'' @ dec_str (unat (v AND 0xFFFF)) @ r) False False 0 0
    = (r, Some (v :: u32))"
proof -
  have "val_loop r True True l h = (r, Some (h + l))" for l h
    using assms by (cases r) (auto simp: is_digit_def)
  then show ?thesis
    unfolding high_half unfolding low_half by (simp add: val_loop_dec high_low)
qed

lemma token_at_text:
  assumes "r = [] \<or> hd r = CHR '' ''"
  shows "\<exists>t. token_at (com_text v @ r) = (r, t, v) \<and> t \<noteq> community_token_unknown"
proof (cases "v \<in> {COMMUNITY_INTERNET, COMMUNITY_NO_EXPORT, COMMUNITY_NO_ADVERTISE, COMMUNITY_LOCAL_AS}")
  case True
  then show ?thesis
    by (auto simp: token_at_def com_text_def is_alpha_def COMMUNITY_INTERNET_def COMMUNITY_NO_EXPORT_def
      COMMUNITY_NO_ADVERTISE_def COMMUNITY_LOCAL_AS_def)
next
  case False
  let ?d = "dec_str (unat (drop_bit 16 v AND 0xFFFF))"
  have "is_digit (hd ?d)" using dec_str_digits dec_str_nonempty by (metis hd_in_set)
  then have d: "is_digit (hd ?d)" "\<not> is_alpha (hd ?d)" by (auto simp: is_digit_def is_alpha_def)
  have "com_text v @ r = ?d @ '':'' @ dec_str (unat (v AND 0xFFFF)) @ r" using False by (simp add: com_text_def)
  moreover have "hd (?d @ s) = hd ?d" for s using dec_str_nonempty by simp
  ultimately show ?thesis using d val_text_parse [OF assms, of v] by (simp add: token_at_def)
qed

lemma com_text_start: "\<exists>c cs. com_text v = c # cs \<and> \<not> is_space c"
proof -
  let ?d = "dec_str (unat (drop_bit 16 v AND 0xFFFF))"
  have "is_digit (hd ?d)" using dec_str_digits dec_str_nonempty by (metis hd_in_set)
  then have "\<exists>c cs. ?d = c # cs \<and> \<not> is_space c"
    using dec_str_nonempty is_digit_not_special(1) by (metis list.exhaust_sel)
  then show ?thesis by (auto simp: com_text_def is_space_def)
qed

lemma gettoken_text:
  assumes "r = [] \<or> hd r = CHR '' ''" "sp = [] \<or> sp = '' ''"
  shows "\<exists>t. community_gettoken (sp @ com_text v @ r) = Some (r, t, v) \<and> t \<noteq> community_token_unknown"
proof -
  obtain c cs where c: "com_text v = c # cs" "\<not> is_space c" using com_text_start by blast
  have "is_space CHR '' ''" by (simp add: is_space_def)
  then have "dropWhile is_space (sp @ com_text v @ r) = com_text v @ r" using assms(2) c by auto
  then show ?thesis using token_at_text [OF assms(1), of v] c by (simp add: community_gettoken_def)
qed

lemma fill_text_rest: "fill_text False vs = [] \<or> hd (fill_text False vs) = CHR '' ''"
  by (cases vs) auto

lemma str2com_fill:
  "str2com_loop (fill_text first vs) com =
     (if vs = [] then com
      else Some ((case com of None \<Rightarrow> community_new | Some c \<Rightarrow> c)\<lparr>cval :=
        cval (case com of None \<Rightarrow> community_new | Some c \<Rightarrow> c) @ vs\<rparr>))"
proof (induction vs arbitrary: first com)
  case Nil
  then show ?case by (simp add: str2com_loop.simps community_gettoken_def)
next
  case (Cons v vs)
  let ?sp = "if first then [] else '' ''"
  obtain t where t: "community_gettoken (fill_text first (v # vs)) = Some (fill_text False vs, t, v)"
    "t \<noteq> community_token_unknown"
    using gettoken_text [OF fill_text_rest, of ?sp v vs] by (cases first) auto
  then show ?case using Cons [of False]
    by (subst str2com_loop.simps) (auto simp: community_add_val_def)
qed

text \<open>Text round trip.  \<open>community_str2com\<close> of what \<open>community_com2str\<close> prints is the canonical form of the same
  communities, so a canonical, non-empty attribute is read back exactly, well-known names included.\<close>

theorem community_text_roundtrip:
  assumes "cval com \<noteq> []"
  shows "community_str2com (community_com2str com) = Some (community_uniq_sort (community_new\<lparr>cval := cval com\<rparr>))
    \<and> (sorted (cval com) \<longrightarrow> distinct (cval com) \<longrightarrow>
        cval (community_uniq_sort (community_new\<lparr>cval := cval com\<rparr>)) = cval com)"
proof -
  have r: "community_str2com (community_com2str com) = Some (community_uniq_sort (community_new\<lparr>cval := cval com\<rparr>))"
    using assms by (simp add: community_str2com_def community_com2str_def str2com_fill community_new_def)
  have "cval (community_uniq_sort (community_new\<lparr>cval := cval com\<rparr>)) = cval com" if "sorted (cval com)" "distinct (cval com)"
    using sorted_distinct_eq [OF uniq_sort_cval(2,1) that] uniq_sort_cval(3) by simp
  then show ?thesis using r by simp
qed

theorem community_text_roundtrip_witness:
  "\<exists>c. community_str2com (community_com2str (community_new\<lparr>cval := [0, 0x00640001, 0xFFFFFF01]\<rparr>)) = Some c
     \<and> cval c = [0, 0x00640001, 0xFFFFFF01]"
  using community_text_roundtrip [of "community_new\<lparr>cval := [0, 0x00640001, 0xFFFFFF01]\<rparr>"] by simp

lemma com_text_fits: "length (com_text v) < com_text_len v"
proof -
  have "unat (take_bit 16 v) < 2 ^ 16" "unat (drop_bit 16 v) < 2 ^ 16"
    using unsigned_less [of v, where ?'a = nat] take_bit_nat_less_exp [of 16 "unat v"]
    by (simp_all add: unsigned_take_bit_eq drop_bit_eq_div unat_div less_mult_imp_div_less)
  then have "length (dec_str (unat (take_bit 16 v))) \<le> 5" "length (dec_str (unat (drop_bit 16 v))) \<le> 5"
    using dec_str_length [of _ 4] by simp_all
  then show ?thesis unfolding com_text_def com_text_len_def high_half unfolding low_half by simp
qed

text \<open>The buffer of \<open>community_com2str\<close> is long enough: the text and its terminating zero fit into the
  length computed beforehand.\<close>

theorem community_com2str_fits: "length (community_com2str com) + 1 \<le> com2str_alloc com"
proof -
  have "length (fill_text False vs) \<le> sum_list (map com_text_len vs)" for vs
  proof (induction vs)
    case (Cons v vs)
    then show ?case using com_text_fits [of v] by simp
  qed simp
  then have "length (fill_text True (v # vs)) + 1 \<le> sum_list (map com_text_len (v # vs))" for v vs
    using com_text_fits [of v] by (simp add: Suc_le_eq add_le_less_mono add_less_le_mono)
  then show ?thesis by (cases "cval com") (simp_all add: community_com2str_def com2str_alloc_def)
qed


section \<open>Interning\<close>

interpretation com: hash_functions "com_key st" "com_eq st" for st :: "nat \<Rightarrow> community option"
proof
  fix a b c
  show "com_eq st a a" by (simp add: com_eq_def community_cmp_def split: option.splits)
  show "com_eq st a b \<Longrightarrow> com_eq st b a" by (auto simp: com_eq_def community_cmp_def split: option.splits)
  show "com_eq st a b \<Longrightarrow> com_eq st b c \<Longrightarrow> com_eq st a c"
    by (auto simp: com_eq_def community_cmp_def split: option.splits)
  show "com_eq st a b \<Longrightarrow> com_key st a = com_key st b"
    by (auto simp: com_eq_def com_key_def community_cmp_def community_hash_make_def split: option.splits)
qed

definition interned :: "comm_state \<Rightarrow> nat set" where
  "interned s = set (hash_data (comhash s))"

text \<open>The hash table is in order, the entered communities are exactly the live ones with references, and each
  has its text.\<close>

definition intern_inv :: "comm_state \<Rightarrow> bool" where
  "intern_inv s \<longleftrightarrow> hash_inv (com_key (cstore s)) (com_eq (cstore s)) (comhash s)
     \<and> (\<forall>a. a \<in> interned s \<longleftrightarrow> (\<exists>c. cstore s a = Some c \<and> refcnt c \<noteq> 0))
     \<and> (\<forall>a\<in>interned s. \<forall>c. cstore s a = Some c \<longrightarrow> cstr c = Some (community_com2str c))"

lemma intern_invD:
  assumes "intern_inv s"
  shows "hash_inv (com_key (cstore s)) (com_eq (cstore s)) (comhash s)"
    and "a \<in> interned s \<longleftrightarrow> (\<exists>c. cstore s a = Some c \<and> refcnt c \<noteq> 0)"
    and "a \<in> interned s \<Longrightarrow> cstore s a = Some c \<Longrightarrow> cstr c = Some (community_com2str c)"
  using assms unfolding intern_inv_def by blast+

lemma intern_invI:
  assumes "hash_inv (com_key (cstore s)) (com_eq (cstore s)) (comhash s)"
    and "\<And>a. a \<in> interned s \<longleftrightarrow> (\<exists>c. cstore s a = Some c \<and> refcnt c \<noteq> 0)"
    and "\<And>a c. a \<in> interned s \<Longrightarrow> cstore s a = Some c \<Longrightarrow> cstr c = Some (community_com2str c)"
  shows "intern_inv s"
  using assms unfolding intern_inv_def by blast

lemma com_eq_iff: "com_eq st a b \<longleftrightarrow> map_option cval (st a) = map_option cval (st b)"
  by (auto simp: com_eq_def community_cmp_def split: option.splits)

lemma hash_inv_store:
  assumes "hash_inv (com_key st) (com_eq st) h"
    and "\<And>a. a \<in> set (hash_data h) \<Longrightarrow> map_option cval (st' a) = map_option cval (st a)"
  shows "hash_inv (com_key st') (com_eq st') h"
proof -
  have k: "com_key st' a = com_key st a" if "a \<in> set (hash_data h)" for a
    using assms(2) [OF that] by (auto simp: com_key_def community_hash_make_def split: option.splits)
  have e: "com_eq st' a b = com_eq st a b" if "a \<in> set (hash_data h)" "b \<in> set (hash_data h)" for a b
    using assms(2) [OF that(1)] assms(2) [OF that(2)] by (simp add: com_eq_iff)
  have "sorted_wrt (\<lambda>a b. \<not> com_eq st' a b) (hash_data h)"
    using hash_invD(2) [OF assms(1)] by (rule sorted_wrt_mono_rel [rotated]) (simp add: e)
  moreover have "bkey b = com_key st' (bdata b) \<and> slot h (bkey b) = i"
    if "i < length (hindex h)" "b \<in> set (hindex h ! i)" for i b
  proof -
    have "bdata b \<in> set (hash_data h)" using that hash_data_mem [of "bdata b" h] by blast
    then show ?thesis using hash_invD(4) [OF assms(1) that] k by auto
  qed
  moreover have "hsize h \<noteq> 0 \<and> length (hindex h) = unat (hsize h) \<and> hcount h = of_nat (length (hash_data h))"
    using assms(1) by (simp add: hash_inv_def)
  ultimately show ?thesis unfolding hash_inv_def by blast
qed

text \<open>What \<open>community_intern\<close> does, once \<open>hash_get\<close> found or entered \<open>find\<close>.\<close>

lemma intern_step:
  assumes inv: "intern_inv s" and a: "cstore s a = Some com" "refcnt com = 0"
    and get: "hash_get (com_key (cstore s)) (com_eq (cstore s)) (comhash s) a (Some hash_alloc_intern) = Some (Some fnd, h)"
    and h: "hash_inv (com_key (cstore s)) (com_eq (cstore s)) h" "set (hash_data h) = insert fnd (interned s)"
    and f: "cstore s fnd = Some c" "cval c = cval com" "refcnt c + 1 \<noteq> 0" "fnd \<in> interned s \<or> fnd = a"
    and str: "cstr com = None \<or> cstr com = Some (community_com2str com)"
  shows "\<exists>s' c'. community_intern s a = Some (fnd, s') \<and> intern_inv s' \<and> interned s' = insert fnd (interned s)
    \<and> cstore s' = (\<lambda>b. if b = fnd then Some c' else if b = a then None else cstore s b)
    \<and> cval c' = cval com \<and> refcnt c' = refcnt c + 1"
proof -
  let ?st = "if fnd \<noteq> a then (cstore s)(a := None) else cstore s"
  let ?c = "c\<lparr>refcnt := refcnt c + 1,
    cstr := (case cstr c of None \<Rightarrow> Some (community_com2str c) | Some t \<Rightarrow> Some t)\<rparr>"
  let ?s = "s\<lparr>cstore := ?st(fnd \<mapsto> ?c), comhash := h\<rparr>"
  have run: "community_intern s a = Some (fnd, ?s)" using a get f by (auto simp: community_intern_def Let_def)
  note live = intern_invD(2) [OF inv] and strs = intern_invD(3) [OF inv]
  have an: "a \<notin> interned s" using live [of a] a by simp
  have st: "cstore ?s b = (if b = fnd then Some ?c else if b = a then None else cstore s b)" for b by simp
  have hin: "interned ?s = insert fnd (interned s)" using h by (simp add: interned_def)
  have A: "hash_inv (com_key (cstore ?s)) (com_eq (cstore ?s)) h"
  proof (rule hash_inv_store [OF h(1)])
    fix b assume "b \<in> set (hash_data h)"
    then have "b = fnd \<or> b \<in> interned s \<and> b \<noteq> a" using h(2) an by auto
    then show "map_option cval (cstore ?s b) = map_option cval (cstore s b)" using f(1) unfolding st by auto
  qed
  have B: "b \<in> interned ?s \<longleftrightarrow> (\<exists>c. cstore ?s b = Some c \<and> refcnt c \<noteq> 0)" for b
    unfolding hin st using live [of b] an f(3) by auto
  have C: "cstr d = Some (community_com2str d)" if b: "b \<in> interned ?s" "cstore ?s b = Some d" for b d
  proof (cases "b = fnd")
    case True
    have "cstr c = None \<or> cstr c = Some (community_com2str c)" using f(1,4) str a(1) strs [of fnd c] by auto
    then show ?thesis using b(2) True unfolding st by (auto simp: community_com2str_def)
  next
    case False
    then show ?thesis using b strs [of b d] unfolding hin st by (auto split: if_splits)
  qed
  have D: "intern_inv ?s" by (rule intern_invI) (use A in simp, rule B, rule C)
  have E: "cstore ?s = (\<lambda>b. if b = fnd then Some ?c else if b = a then None else cstore s b)"
    by (rule ext) (rule st)
  have F: "cval ?c = cval com" "refcnt ?c = refcnt c + 1" using f(2) by simp_all
  show ?thesis by (rule exI [of _ ?s], rule exI [of _ ?c], intro conjI run D hin E F)
qed

lemma intern_find:
  assumes "intern_inv s" "cstore s a = Some com"
  shows "\<exists>fnd h c. hash_get (com_key (cstore s)) (com_eq (cstore s)) (comhash s) a (Some hash_alloc_intern) = Some (Some fnd, h)
    \<and> hash_inv (com_key (cstore s)) (com_eq (cstore s)) h \<and> set (hash_data h) = insert fnd (interned s)
    \<and> cstore s fnd = Some c \<and> cval c = cval com \<and> (fnd \<in> interned s \<or> fnd = a)
    \<and> (\<forall>b\<in>interned s. com_eq (cstore s) b a \<longrightarrow> b = fnd)"
proof -
  let ?k = "com_key (cstore s)" let ?e = "com_eq (cstore s)"
  have hi: "hash_inv ?k ?e (comhash s)" using assms(1) by (simp add: intern_inv_def)
  show ?thesis
  proof (cases "\<exists>b\<in>interned s. ?e b a")
    case True
    then obtain b where b: "b \<in> interned s" "?e b a" by blast
    obtain c where c: "cstore s b = Some c" "cval c = cval com" using b(2) assms(2) by (auto simp: com_eq_iff)
    have u: "\<forall>b'\<in>interned s. ?e b' a \<longrightarrow> b' = b"
      using com.pairwise_unique [OF hash_invD(2) [OF hi]] b unfolding interned_def by blast
    have g: "hash_get ?k ?e (comhash s) a (Some hash_alloc_intern) = Some (Some b, comhash s)"
      using com.get_present [OF hi, of b a "Some hash_alloc_intern"] b by (simp add: interned_def)
    have "set (hash_data (comhash s)) = insert b (interned s)" using b(1) by (auto simp: interned_def)
    then show ?thesis using g hi c b(1) u by blast
  next
    case False
    have ref: "?e a a" by (rule com.eq_refl)
    obtain h where "hash_get ?k ?e (comhash s) a (Some hash_alloc_intern) = Some (Some a, h)" "hash_inv ?k ?e h"
      "set (hash_data h) = insert a (interned s)"
      using com.get_absent [OF hi, of a hash_alloc_intern] ref False by (auto simp: interned_def hash_alloc_intern_def)
    then show ?thesis using False assms(2) by blast
  qed
qed

lemma interned_unique:
  assumes "intern_inv s" "b \<in> interned s" "b' \<in> interned s"
    and "map_option cval (cstore s b) = map_option cval (cstore s b')"
  shows "b = b'"
proof -
  have "com_eq (cstore s) b b'" using assms(4) by (simp add: com_eq_iff)
  then show ?thesis
    using com.pairwise_unique [OF hash_invD(2) [OF intern_invD(1) [OF assms(1)]], of b b' b'] assms(2,3) com.eq_refl
    by (simp add: interned_def)
qed

text \<open>C20: \<open>community_intern\<close> shares equal attributes.  Given a fresh community (reference count 0), its assertion
  holds, it returns the one interned community with the same values, freeing the argument when there was
  one already, and counts the reference; no other community changes, and afterwards distinct interned
  communities have distinct values, so comparing pointers compares attributes.\<close>

theorem community_intern_shares:
  assumes "intern_inv s" "cstore s a = Some com" "refcnt com = 0" "cstr com = None"
    and "\<forall>b c. cstore s b = Some c \<longrightarrow> refcnt c + 1 \<noteq> 0"
  shows "\<exists>fnd s' c' n. community_intern s a = Some (fnd, s') \<and> intern_inv s' \<and> interned s' = insert fnd (interned s)
    \<and> cstore s' = (\<lambda>b. if b = fnd then Some c' else if b = a then None else cstore s b)
    \<and> cval c' = cval com \<and> refcnt c' = n + 1
    \<and> n = (case cstore s fnd of Some c \<Rightarrow> refcnt c | None \<Rightarrow> 0)
    \<and> (\<forall>b\<in>interned s. map_option cval (cstore s b) = Some (cval com) \<longrightarrow> b = fnd)
    \<and> (\<forall>b\<in>interned s'. \<forall>b'\<in>interned s'. map_option cval (cstore s' b) = map_option cval (cstore s' b') \<longrightarrow> b = b')"
proof -
  let ?k = "com_key (cstore s)" let ?e = "com_eq (cstore s)"
  have hi: "hash_inv ?k ?e (comhash s)" using assms(1) by (simp add: intern_inv_def)
  have eq: "?e b a \<longleftrightarrow> map_option cval (cstore s b) = Some (cval com)" if "b \<in> interned s" for b
    using assms(2) by (simp add: com_eq_iff)
  obtain fnd h c where f: "hash_get ?k ?e (comhash s) a (Some hash_alloc_intern) = Some (Some fnd, h)"
    "hash_inv ?k ?e h" "set (hash_data h) = insert fnd (interned s)" "cstore s fnd = Some c" "cval c = cval com"
    "fnd \<in> interned s \<or> fnd = a" "\<forall>b\<in>interned s. ?e b a \<longrightarrow> b = fnd"
    using intern_find [OF assms(1,2)] by (elim exE conjE) (rule that)
  have nz: "refcnt c + 1 \<noteq> 0" using assms(5) f(4) by blast
  have nos: "cstr com = None \<or> cstr com = Some (community_com2str com)" using assms(4) by simp
  obtain s' c' where s': "community_intern s a = Some (fnd, s')" "intern_inv s'" "interned s' = insert fnd (interned s)"
    "cstore s' = (\<lambda>b. if b = fnd then Some c' else if b = a then None else cstore s b)"
    "cval c' = cval com" "refcnt c' = refcnt c + 1"
    using intern_step [OF assms(1-3) f(1-5) nz f(6) nos] by (elim exE conjE) (rule that)
  have n: "refcnt c = (case cstore s fnd of Some c \<Rightarrow> refcnt c | None \<Rightarrow> 0)" using f(4) by simp
  have sh: "\<forall>b\<in>interned s. map_option cval (cstore s b) = Some (cval com) \<longrightarrow> b = fnd" using f(7) eq by blast
  have un: "\<forall>b\<in>interned s'. \<forall>b'\<in>interned s'. map_option cval (cstore s' b) = map_option cval (cstore s' b') \<longrightarrow> b = b'"
    using interned_unique [OF s'(2)] by blast
  show ?thesis
    by (rule exI [of _ fnd], rule exI [of _ s'], rule exI [of _ c'], rule exI [of _ "refcnt c"], intro conjI s' n sh un)
qed

text \<open>C18: \<open>community_unintern\<close> drops one reference of an interned community.  Its assertion that the community is
  in the table never fails; the community is freed and leaves the table exactly when this was the last
  reference, and nothing else changes.\<close>

theorem community_unintern_correct:
  assumes "intern_inv s" "a \<in> interned s" "cstore s a = Some com"
  shows "\<exists>s'. community_unintern s a = Some s' \<and> intern_inv s'
    \<and> (\<forall>b. b \<noteq> a \<longrightarrow> cstore s' b = cstore s b)
    \<and> (if refcnt com = 1 then interned s' = interned s - {a} \<and> cstore s' a = None
       else interned s' = interned s \<and> cstore s' a = Some (com\<lparr>refcnt := refcnt com - 1\<rparr>))"
proof -
  let ?c = "com\<lparr>refcnt := refcnt com - 1\<rparr>" let ?st = "(cstore s)(a \<mapsto> ?c)"
  note live = intern_invD(2) [OF assms(1)] and strs = intern_invD(3) [OF assms(1)]
  have nz: "refcnt com \<noteq> 0" using live [of a] assms(2,3) by simp
  have hi: "hash_inv (com_key ?st) (com_eq ?st) (comhash s)"
  proof (rule hash_inv_store)
    show "hash_inv (com_key (cstore s)) (com_eq (cstore s)) (comhash s)" using assms(1) by (simp add: intern_inv_def)
  qed (use assms(3) in auto)
  show ?thesis
  proof (cases "refcnt com = 1")
    case True
    obtain h where h: "hash_release (com_key ?st) (com_eq ?st) (comhash s) a = Some (Some a, h)"
      "hash_inv (com_key ?st) (com_eq ?st) h" "set (hash_data h) = interned s - {a}"
      using com.release_present [OF hi, of a a] assms(2) com.eq_refl by (auto simp: interned_def)
    let ?s = "s\<lparr>cstore := ?st(a := None), comhash := h\<rparr>"
    have run: "community_unintern s a = Some ?s"
      using assms(3) nz True h(1) by (simp add: community_unintern_def Let_def)
    have hin: "interned ?s = interned s - {a}" using h(3) by (simp add: interned_def)
    have st: "cstore ?s b = (if b = a then None else cstore s b)" for b by simp
    have A: "hash_inv (com_key (cstore ?s)) (com_eq (cstore ?s)) h"
      by (rule hash_inv_store [OF h(2)]) (use h(3) in auto)
    have B: "b \<in> interned ?s \<longleftrightarrow> (\<exists>c. cstore ?s b = Some c \<and> refcnt c \<noteq> 0)" for b
      unfolding hin st using live [of b] by auto
    have C: "cstr d = Some (community_com2str d)" if "b \<in> interned ?s" "cstore ?s b = Some d" for b d
      using that strs [of b d] unfolding hin st by (auto split: if_splits)
    have "intern_inv ?s" by (rule intern_invI) (use A in simp, rule B, rule C)
    then show ?thesis using run hin True by (intro exI [of _ ?s]) simp
  next
    case False
    then have nz': "refcnt com - 1 \<noteq> 0" by simp
    let ?s = "s\<lparr>cstore := ?st\<rparr>"
    have run: "community_unintern s a = Some ?s"
      using assms(3) nz nz' by (simp add: community_unintern_def Let_def)
    have hin: "interned ?s = interned s" by (simp add: interned_def)
    have st: "cstore ?s b = (if b = a then Some ?c else cstore s b)" for b by simp
    have B: "b \<in> interned ?s \<longleftrightarrow> (\<exists>c. cstore ?s b = Some c \<and> refcnt c \<noteq> 0)" for b
      unfolding hin st using live [of b] assms(2) nz' by auto
    have C: "cstr d = Some (community_com2str d)" if "b \<in> interned ?s" "cstore ?s b = Some d" for b d
      using that strs [of b] assms(3) unfolding hin st by (auto simp: community_com2str_def split: if_splits)
    have "intern_inv ?s" by (rule intern_invI) (use hi in simp, rule B, rule C)
    then show ?thesis using run hin False by (intro exI [of _ ?s]) simp
  qed
qed


definition demo_store :: comm_state where
  "demo_store = community_init\<lparr>cstore := [5 \<mapsto> community_new\<lparr>cval := [7]\<rparr>]\<rparr>"

theorem community_intern_shares_witness:
  "\<exists>fnd s'. community_intern demo_store 5 = Some (fnd, s') \<and> intern_inv s' \<and> interned s' = {fnd}
     \<and> map_option cval (cstore s' fnd) = Some [7]"
proof -
  have h: "hash_inv k e (comhash demo_store)" "hash_data (comhash demo_store) = []" for k e
    using hash_create_inv [of HASHTABSIZE] by (simp_all add: demo_store_def community_init_def hash_create_def HASHTABSIZE_def)
  have "interned demo_store = {}" using h(2) by (simp add: interned_def)
  moreover have "intern_inv demo_store"
    by (rule intern_invI) (simp_all add: h interned_def, simp_all add: demo_store_def community_new_def split: if_splits)
  moreover have "cstore demo_store 5 = Some (community_new\<lparr>cval := [7]\<rparr>)"
    "\<forall>b c. cstore demo_store b = Some c \<longrightarrow> refcnt c + 1 \<noteq> 0"
    by (auto simp: demo_store_def community_new_def split: if_splits)
  ultimately obtain fnd s' c' where "community_intern demo_store 5 = Some (fnd, s')" "intern_inv s'"
    "interned s' = {fnd}" "cstore s' = (\<lambda>b. if b = fnd then Some c' else if b = 5 then None else cstore demo_store b)"
    "cval c' = [7]"
    using community_intern_shares [of demo_store 5 "community_new\<lparr>cval := [7]\<rparr>"] by (auto simp: community_new_def)
  then show ?thesis by auto
qed

definition demo_interned :: comm_state where
  "demo_interned = \<lparr>cstore = [5 \<mapsto> \<lparr>refcnt = 1, cval = [7], cstr = Some ''0:7''\<rparr>],
     comhash = \<lparr>hindex = [[\<lparr>bkey = 7, bdata = 5\<rparr>]], hsize = 1, hcount = 1\<rparr>\<rparr>"

theorem community_unintern_correct_witness:
  "\<exists>s'. community_unintern demo_interned 5 = Some s' \<and> intern_inv s' \<and> interned s' = {} \<and> cstore s' 5 = None"
proof -
  have i: "interned demo_interned = {5}" by (simp add: interned_def hash_data_def demo_interned_def)
  have t: "community_com2str \<lparr>refcnt = 1, cval = [7], cstr = Some ''0:7''\<rparr> = ''0:7''" by code_simp
  have k: "com_key (cstore demo_interned) 5 = 7"
    by (simp add: com_key_def demo_interned_def community_hash_make_def be32_def)
  have "intern_inv demo_interned"
  proof (rule intern_invI)
    show "hash_inv (com_key (cstore demo_interned)) (com_eq (cstore demo_interned)) (comhash demo_interned)"
      using k by (simp add: hash_inv_def hash_data_def slot_def demo_interned_def)
    show "a \<in> interned demo_interned \<longleftrightarrow> (\<exists>c. cstore demo_interned a = Some c \<and> refcnt c \<noteq> 0)" for a
      unfolding i by (simp add: demo_interned_def)
    show "cstr c = Some (community_com2str c)" if "a \<in> interned demo_interned" "cstore demo_interned a = Some c" for a c
      using that t unfolding i by (auto simp: demo_interned_def)
  qed
  then show ?thesis
    using community_unintern_correct [of demo_interned 5 "\<lparr>refcnt = 1, cval = [7], cstr = Some ''0:7''\<rparr>"] i
    by (auto simp: demo_interned_def)
qed

text \<open>Reading an \<open>AS:VAL\<close> community does no range check: any two decimal numbers are accepted and combined
  modulo \<open>2 ^ 32\<close>, a value above 65535 spilling into the AS half and an AS above 65535 losing its high bits.\<close>

theorem community_str2com_wraps:
  "map_option cval (community_str2com (dec_str a @ '':'' @ dec_str b)) = Some [push_bit 16 (of_nat a) + of_nat b]"
proof -
  let ?s = "dec_str a @ '':'' @ dec_str b"
  have d: "is_digit (hd (dec_str a))" using dec_str_digits dec_str_nonempty by (metis hd_in_set)
  then have n: "\<not> is_space (hd (dec_str a))" "\<not> is_alpha (hd (dec_str a))"
    using is_digit_not_special(1) by (auto simp: is_digit_def is_alpha_def)
  have "val_loop ?s False False 0 0 = ([], Some (push_bit 16 (of_nat a) + of_nat b))"
    using val_loop_dec [of b "[]" True False "push_bit 16 (of_nat a)"] by (simp add: val_loop_dec)
  moreover obtain c cs where "dec_str a = c # cs" using dec_str_nonempty by (meson list.exhaust)
  ultimately have "community_gettoken ?s = Some ([], community_token_val, push_bit 16 (of_nat a) + of_nat b)"
    using d n by (simp add: community_gettoken_def token_at_def del: val_loop.simps)
  then have "str2com_loop ?s None = Some (community_add_val community_new (push_bit 16 (of_nat a) + of_nat b))"
    by (subst str2com_loop.simps) (simp add: str2com_loop.simps [of "[]"] community_gettoken_def [of "[]"])
  then show ?thesis
    by (simp add: community_str2com_def community_uniq_sort_def community_add_val_def community_new_def
        community_include_def)
qed

end
