(* ===== verification/Spec2Isabelle.thy ===== *)
theory Spec2Isabelle
  imports Bgp_Decision Lib_Plist Lib_Filter Lib_Routemap Lib_Thread Zebra_Rib Rip_Table Ospf_Nsm Ospf_Lsdb Lib_Table Lib_Stream Lib_Linklist Lib_Pqueue Bgp_Community
begin

text \<open>
  A verification development for GNU Zebra, the routing software under \<open>src/\<close>.

  \<^bold>\<open>The program.\<close>  Zebra is a set of daemons, one per routing protocol (\<open>bgpd\<close>, \<open>ospfd\<close>, \<open>ospf6d\<close>, \<open>ripd\<close>,
  \<open>ripngd\<close>), and the daemon \<open>zebra\<close>, which keeps the routing table of the kernel.  All of them are built on
  the library \<open>lib/\<close>: address prefixes, a trie of routes with lock counts, packet buffers, linked lists,
  hash tables, a heap, and the event loop.  The daemons are single threaded; the event loop calls their
  handlers one after the other, so the behaviour of a protocol is the sequence of its handlers.

  \<^bold>\<open>Conventions.\<close>  A C integer is a word of its width where wrap-around is visible (\<open>u8\<close>, \<open>u16\<close>, \<open>u32\<close>) and an
  \<^typ>\<open>int\<close> or \<^typ>\<open>nat\<close> where a theorem or a type shows that it cannot leave its range.  A block of memory
  is the list of its bytes.  A result of option type is \<^term>\<open>None\<close> exactly where the code would read or write
  outside a block, follow a null or freed pointer, fail an assertion, or divide by zero; a theorem that
  such a function returns \<^term>\<open>Some\<close> is a statement of memory safety.  A null pointer the code tests for is an
  option as well.  Structures the code links and mutates live in a store from addresses to records; the
  address an allocation returns is an argument, and that it is not in use is a hypothesis of the
  theorems.  What the code asks of modules that are not modelled is recorded in order (the field \<open>acts\<close> of
  an interface) or is an argument (the clock, the C library's address conversion).
  The configuration is the default build with \<open>HAVE_IPV6\<close> and without \<open>HAVE_OPAQUE_LSA\<close> and \<open>HAVE_NSSA\<close>.

  \<^bold>\<open>The theories.\<close>
  \<^item> \<open>Zebra_Prelude\<close>: the integer types, memory blocks, decimal text (\<open>atoi\<close> into an \<open>int\<close> of 32 bits), big-endian fields, and \<open>c_compare\<close>, the
    contract of a C comparison function (a total preorder).
  \<^item> \<open>Lib_Prefix\<close> (\<open>lib/prefix.c\<close>): matching, masks, text.  The abstract value of a prefix is a bit string,
    matching is the prefix order on bit strings (locale \<open>prefix_matching\<close>), masks and text convert
    back and forth.
  \<^item> \<open>Lib_Table\<close> (\<open>lib/table.c\<close>): the path-compressed trie.  The invariant says that children extend their
    parent by the right bit and that no unlocked branching node is superfluous; lookup, insertion,
    longest match, deletion on unlock and iteration are proved against the finite map from bit
    strings to locked entries.  \<open>Lib_Table_Map\<close> states the idioms of clients on that map.
  \<^item> \<open>Lib_Stream\<close> (\<open>lib/stream.c\<close>): packet buffers.  The locale \<open>stream_codec\<close> says what a put function and
    its get function promise each other; it is interpreted for bytes, 16-bit, 32-bit and address
    fields.  The queue of streams refines a list.
  \<^item> \<open>Lib_Linklist\<close> (\<open>lib/linklist.c\<close>): doubly linked lists in a store, refined to sequences.
  \<^item> \<open>Lib_Pqueue\<close> (\<open>lib/pqueue.c\<close> and the comparison of \<open>ospf6d/ospf6_spf.c\<close>): the heap, its contract as the
    locale \<open>priority_queue\<close>, interpreted for the candidate list of OSPFv3.
  \<^item> \<open>Lib_Hash\<close> (\<open>lib/hash.c\<close>): chained tables.  The locale \<open>hash_functions\<close> says that equal keys hash
    equally; its lemmas are interpreted for communities.
  \<^item> \<open>Lib_Plist\<close> (\<open>lib/plist.c\<close>): prefix lists.  The directory of lists by name is a map (locale \<open>directory\<close>), a list
    is a map from sequence numbers, which are C ints, to entries that decides by its first match, and the commands that
    add and remove entries keep both well formed and undo each other.
  \<^item> \<open>Lib_Filter\<close> (\<open>lib/filter.c\<close>, \<open>lib/distribute.c\<close>): access lists, whose wildcard filters are related to the bits of addresses and
    masks, over the same directory, and the distribute lists of interfaces as a map over the hash table.
  \<^item> \<open>Lib_Vector\<close> (\<open>lib/vector.c\<close>): growing arrays with empty slots, as partial maps.
  \<^item> \<open>Lib_Routemap\<close> (\<open>lib/routemap.c\<close>): route maps.  The configuration is a map from names and preferences to entries; match and set rules, which
    share their laws (locale \<open>rule_kind\<close>), are entered and taken back; where the match rules of each entry agree a map decides by its first matching
    entry (one matching rule is enough for the code).  The functions of
    the rules belong to the daemons and are parameters.
  \<^item> \<open>Lib_Thread\<close> (\<open>lib/thread.c\<close>): the event loop.  The lists of threads, which are recycled, refine queues of tasks; a fetch serves events,
    timers and ready descriptors in this order, for every clock and every result of \<open>select\<close>.
  \<^item> \<open>Bgp_Community\<close> (\<open>bgpd/bgp_community.c\<close>): the canonical form, matching, text, and the interning of
    communities with reference counts over the hash table.
  \<^item> \<open>Bgp_Aspath\<close> (\<open>bgpd/bgp_aspath.c\<close>): AS paths as bytes, related to lists of segments: parsing of any
    received bytes, prepending, aggregation, text.
  \<^item> \<open>Bgp_Decision\<close> (\<open>bgp_info_cmp\<close> and \<open>bgp_process\<close> of \<open>bgpd/bgp_route.c\<close>, with \<open>peer_sort\<close>, \<open>ecommunity_cost_cmp\<close> and
    \<open>sockunion_cmp\<close>): the decision process.  The loops, which mark routes in their flags, are refined to a
    computation on positions; in configurations where the comparison is an order, the selection is
    characterised by lexicographic keys.
  \<^item> \<open>Zebra_Rib\<close> (\<open>zebra/zebra_rib.c\<close>): the routing information base of \<open>zebra\<close> over the trie: resolution of next hops,
    selection, adding and deleting routes.  The invariant ties the selected route of every prefix to the
    requests sent to the kernel and the daemons, followed by \<open>req_step\<close>, and to the locks of the trie.
  \<^item> \<open>Rip_Route\<close> (\<open>ripd/ripd.c\<close>, \<open>rip_zebra.c\<close>, \<open>rip_offset.c\<close>, \<open>rip_peer.c\<close>, parts of \<open>rip_interface.c\<close> and \<open>lib/if.c\<close>): the routing table of
    the RIP daemon, over the trie and the filter lists: responses, timers, redistributed routes, interfaces that go down and the
    messages to \<open>zebra\<close>.  \<open>Rip_Table\<close> shows that, while \<open>redistribute rip\<close> is on and the configuration stays as it is, the messages
    follow the table in every reachable state, that no event fails, that an entry of an update is a step of the distance
    vector algorithm, and that an interface that goes down takes its routes with it.  Configuration commands are not
    among the events; the filter lists the interfaces name are taken to exist.  The code does not release all its locks,
    so the invariant bounds their number.
  \<^item> \<open>Ospf_Lsa\<close> (\<open>ospfd/ospf_lsa.c\<close>): ages, the Fletcher checksum, comparison of instances.
  \<^item> \<open>Ospf_Lsdb\<close> (\<open>ospfd/ospf_lsdb.c\<close>): the link state database over the trie with reference counted LSAs;
    the locale \<open>keyed_database\<close> is its contract as a map.
  \<^item> \<open>Ospf_Ism\<close> (\<open>ospfd/ospf_ism.c\<close>): the election of the Designated Router, the interface state machine.
  \<^item> \<open>Ospf_Nsm\<close> (\<open>ospfd/ospf_nsm.c\<close>, \<open>ospf_neighbor.c\<close>, parts of \<open>ospf_interface.c\<close>, \<open>ospf_flood.c\<close>,
    \<open>ospf_packet.c\<close>): the neighbor state machine, the mutual calls of the two machines and the reception of
    Hello packets.  \<open>ospf_step\<close> is the step relation of one interface under all inputs; invariants of
    the reachable states are by rule induction.

  \<^bold>\<open>Fuel and bounds.\<close>  Loops over a counter or a block are structural or have a measure.  Loops that follow
  pointers in a store take fuel; the lemmas show that one unit per node is enough.  The loop that
  doubles the text buffer of an AS path is a partial function whose return is proved.  The two
  OSPF machines recurse through each other only to a fixed depth, so they need no fuel.

  \<^bold>\<open>Not modelled.\<close>  Freeing of whole structures, where the model has no heap; the timers and events of the daemons as threads
  (in their theories timers are armed or not, and events are inputs); the command line and configuration (\<open>lib/command.c\<close>, \<open>vtysh\<close>, the \<open>_vty.c\<close>
  files), which is terminal input and output; the interface to the kernel and SNMP, and copies of
  third-party code (\<open>lib/regex.c\<close>, \<open>lib/getopt.c\<close>, \<open>lib/md5.c\<close>).  Still to do: the reception of
  updates and the peer state machine of BGP, damping, the
  static routes and the client protocol of \<open>zebra\<close>, the output of RIP and RIPng, and the route computation of OSPF.
\<close>

end
